(* ===== verification/Ond_Prelude.thy ===== *)
theory Ond_Prelude
  imports Main "HOL-Library.Word" "HOL-Library.Monad_Syntax"
begin

text \<open>
  Shared vocabulary of the development: the machine integer types of the controller, its return
  codes, the way partial C code is represented, and generic lemmas on lists and words.

  A C function with side effects is a HOL function into \<^typ>\<open>('r \<times> 's) option\<close>. The value
  \<^term>\<open>None\<close> stands for leaving the defined behaviour of C (a NULL dereference, a read outside an
  array, releasing a mutex that is not held) or for blocking for ever on a mutex the thread holds.
  Every error return of the code is an ordinary value of the result, never \<^term>\<open>None\<close>.
\<close>

unbundle bit_operations_syntax

type_synonym u8 = "8 word"
type_synonym u16 = "16 word"
type_synonym u32 = "32 word"
type_synonym u64 = "64 word"

text \<open>An address of a block or node on the heap; a pointer is an optional address, NULL is
  \<^term>\<open>None\<close>.\<close>

type_synonym addr = nat
type_synonym ptr = "nat option"

text \<open>Return codes of \<^verbatim>\<open>controller.h\<close>.\<close>

abbreviation OF_SUCCESS :: int where "OF_SUCCESS \<equiv> 0"
abbreviation OF_FAILURE :: int where "OF_FAILURE \<equiv> -1"

named_theorems ond_defs \<open>small definitions that are always unfolded\<close>
named_theorems ond_inv \<open>preservation of component invariants\<close>

section \<open>Bits of a byte\<close>

text \<open>\<^verbatim>\<open>b & (1 << k)\<close>, \<^verbatim>\<open>b | (1 << k)\<close> and \<^verbatim>\<open>b & ~(1 << k)\<close> on an
  unsigned char, for a shift amount below eight.\<close>

definition mask_test :: "u8 \<Rightarrow> nat \<Rightarrow> bool" where
  "mask_test b k \<longleftrightarrow> b AND push_bit k 1 \<noteq> 0"

definition mask_set :: "u8 \<Rightarrow> nat \<Rightarrow> u8" where
  "mask_set b k = b OR push_bit k 1"

definition mask_clear :: "u8 \<Rightarrow> nat \<Rightarrow> u8" where
  "mask_clear b k = b AND NOT (push_bit k 1)"

lemma mask_test_bit: "mask_test b k \<longleftrightarrow> bit b k"
  by (simp add: mask_test_def bit_iff_and_push_bit_not_eq_0)

lemma mask_test_set:
  "k < 8 \<Longrightarrow> mask_test (mask_set b k) j \<longleftrightarrow> mask_test b j \<or> j = k"
  by (auto simp: mask_test_bit mask_set_def bit_simps)

lemma mask_test_clear:
  "mask_test (mask_clear b k) j \<longleftrightarrow> mask_test b j \<and> (j \<noteq> k \<or> 8 \<le> k)"
  by (auto simp: mask_test_bit mask_clear_def bit_simps dest: bit_imp_le_length)

lemma mask_test_zero [simp]: "\<not> mask_test 0 k"
  by (simp add: mask_test_def)

section \<open>Lists\<close>

lemma take_Suc_snoc: "i < length xs \<Longrightarrow> take (Suc i) xs = take i xs @ [xs ! i]"
  by (simp add: take_Suc_conv_app_nth)

lemma distinct_remove_nth:
  "distinct xs \<Longrightarrow> i < length xs \<Longrightarrow> set (take i xs @ drop (Suc i) xs) = set xs - {xs ! i}"
proof -
  assume d: "distinct xs" and i: "i < length xs"
  have split: "xs = take i xs @ xs ! i # drop (Suc i) xs"
    using i by (simp add: id_take_nth_drop)
  then have "distinct (take i xs @ xs ! i # drop (Suc i) xs)"
    using d by simp
  then have "xs ! i \<notin> set (take i xs)" "xs ! i \<notin> set (drop (Suc i) xs)"
    by auto
  moreover have "set xs = set (take i xs) \<union> {xs ! i} \<union> set (drop (Suc i) xs)"
    by (subst split) auto
  ultimately show ?thesis
    by auto
qed

section \<open>Machine words as natural numbers\<close>

lemma unat_of_nat_u32: "n < 2 ^ 32 \<Longrightarrow> unat (of_nat n :: u32) = n"
  by (simp add: unsigned_of_nat take_bit_nat_eq_self)

lemma unat_u32_less: "unat (w :: u32) < 2 ^ 32"
  using unsigned_less[of w] by simp

lemma unat_Suc_u32: "w < m \<Longrightarrow> unat (w + 1 :: u32) = Suc (unat w)"
proof -
  assume "w < m"
  then have "unat w < unat m" by (simp add: word_less_nat_alt)
  then have "Suc (unat w) < 2 ^ 32" using unat_u32_less[of m] by simp
  then have "unat (of_nat (Suc (unat w)) :: u32) = Suc (unat w)" by (rule unat_of_nat_u32)
  then show ?thesis by (simp add: add.commute)
qed

section \<open>Linked segments\<close>

text \<open>A linked list in memory: \<open>nx\<close> gives the next pointer stored in each node, and
  \<open>lseg nx p xs q\<close> says that following it from \<open>p\<close> visits exactly the nodes \<open>xs\<close> and ends in \<open>q\<close>.\<close>

type_synonym links = "addr \<Rightarrow> ptr"

primrec lseg :: "links \<Rightarrow> ptr \<Rightarrow> addr list \<Rightarrow> ptr \<Rightarrow> bool" where
  "lseg nx p [] q = (p = q)"
| "lseg nx p (x # xs) q = (p = Some x \<and> lseg nx (nx x) xs q)"

definition last_ptr :: "addr list \<Rightarrow> ptr" where
  "last_ptr xs = (if xs = [] then None else Some (last xs))"

lemma last_ptr_simps [simp]:
  "last_ptr [] = None" "last_ptr (xs @ [x]) = Some x" "last_ptr xs = None \<longleftrightarrow> xs = []"
  "xs \<noteq> [] \<Longrightarrow> last_ptr (x # xs) = last_ptr xs" "last_ptr [x] = Some x"
  by (auto simp: last_ptr_def)

lemma last_ptr_append: "last_ptr (xs @ ys) = (if ys = [] then last_ptr xs else last_ptr ys)"
  by (simp add: last_ptr_def)

lemma last_ptr_Some: "last_ptr xs = Some y \<Longrightarrow> \<exists>ys. xs = ys @ [y]"
  by (cases xs rule: rev_cases) auto

lemma lseg_append: "lseg nx p (xs @ ys) q \<longleftrightarrow> (\<exists>r. lseg nx p xs r \<and> lseg nx r ys q)"
  by (induction xs arbitrary: p) auto

lemma lseg_frame [simp]: "a \<notin> set xs \<Longrightarrow> lseg (nx(a := v)) p xs q = lseg nx p xs q"
  by (induction xs arbitrary: p) auto

lemma lseg_cong: "(\<And>x. x \<in> set xs \<Longrightarrow> nx x = nx' x) \<Longrightarrow> lseg nx p xs q = lseg nx' p xs q"
  by (induction xs arbitrary: p) auto

lemma lseg_None [simp]: "lseg nx None xs None \<longleftrightarrow> xs = []"
  by (cases xs) auto

lemma lseg_start: "lseg nx p xs None \<Longrightarrow> p = (case xs of [] \<Rightarrow> None | x # _ \<Rightarrow> Some x)"
  by (cases xs) auto

lemma lseg_snoc: "lseg nx p (xs @ [x]) q \<longleftrightarrow> lseg nx p xs (Some x) \<and> nx x = q"
  by (auto simp: lseg_append)

lemma lseg_relink:
  "lseg nx p (xs @ [x]) q \<Longrightarrow> x \<notin> set xs \<Longrightarrow> lseg (nx(x := r)) p (xs @ [x]) r"
  by (simp add: lseg_snoc)

lemma lseg_unique: "lseg nx p xs None \<Longrightarrow> lseg nx p ys None \<Longrightarrow> xs = ys"
proof (induction xs arbitrary: p ys)
  case (Cons x xs)
  then show ?case by (cases ys) auto
qed auto

text \<open>At most \<open>2 ^ 32 - 1\<close> list nodes exist (a node takes more than one byte of memory), so that a
  32-bit count of nodes does not wrap.\<close>

definition node_ok :: "addr \<Rightarrow> bool" where
  "node_ok n \<longleftrightarrow> n < 2 ^ 32 - 1"

lemma node_ok_length:
  assumes "distinct xs" "\<forall>x\<in>set xs. node_ok x"
  shows "length xs < 2 ^ 32"
proof -
  have "set xs \<subseteq> {..<2 ^ 32 - 1}" using assms(2) by (auto simp: node_ok_def)
  then have "card (set xs) \<le> 2 ^ 32 - 1"
    using card_mono[of "{..<2 ^ 32 - 1 :: nat}" "set xs"] by simp
  then show ?thesis using distinct_card[OF assms(1)] by simp
qed

lemma count_zero_iff:
  assumes "distinct xs" "\<forall>x\<in>set xs. node_ok x"
  shows "(of_nat (length xs) :: u32) = 0 \<longleftrightarrow> xs = []"
  using unat_of_nat_u32[OF node_ok_length[OF assms]] by (auto simp: unat_eq_zero[symmetric])

lemma count_one_iff:
  assumes "distinct xs" "\<forall>x\<in>set xs. node_ok x"
  shows "(of_nat (length xs) :: u32) = 1 \<longleftrightarrow> (\<exists>x. xs = [x])"
  using unat_of_nat_u32[OF node_ok_length[OF assms]]
  by (auto simp: word_unat_eq_iff length_Suc_conv)

end
