(* ===== verification/Genid.thy ===== *)
theory Genid
  imports Ond_Prelude
begin

text \<open>
  The instance-id generator of \<^verbatim>\<open>ofproto/src/genid/genid.c\<close>: a counter that hands out fresh ids
  until the configured maximum, and then a bitmap, one bit per id, that is searched for a clear bit.
  Id \<open>n\<close> lives in byte \<open>n / 8\<close>, most significant bit first; the maximum id, whose byte would be
  one past the array, uses the bit of id 0.
\<close>

section \<open>State\<close>

text \<open>\<^verbatim>\<open>struct of_genid_instance_info\<close>; a NULL bitmap is \<^term>\<open>None\<close>.\<close>

record genid_info =
  max_instance_id :: u32
  max_instance_size :: u32
  instance_id :: u32
  buf_instance_id :: u32
  instance_id_valid :: "u8 list option"

text \<open>The zero-initialised global \<^verbatim>\<open>of_genid_instance_info_g\<close>.\<close>

definition of_genid_instance_info_g :: genid_info where
  "of_genid_instance_info_g = \<lparr>max_instance_id = 0, max_instance_size = 0, instance_id = 0,
     buf_instance_id = 0, instance_id_valid = None\<rparr>"

abbreviation OF_GENID_MAX_BIT_POS :: u32 where "OF_GENID_MAX_BIT_POS \<equiv> 8"
abbreviation OF_GENID_RULE_ID_NOT_SET :: int where "OF_GENID_RULE_ID_NOT_SET \<equiv> 1"
abbreviation OF_GENID_RULE_ID_SET :: int where "OF_GENID_RULE_ID_SET \<equiv> 2"

section \<open>Operations\<close>

definition of_genid_get_instandid_generator_cnf :: u32 where
  "of_genid_get_instandid_generator_cnf = 16777216"

text \<open>\<^verbatim>\<open>cntlr_genid_init\<close> for a configured maximum \<open>cnf\<close>; \<open>calloc_ok\<close> says whether
  \<^verbatim>\<open>calloc\<close> returns memory.\<close>

definition genid_init_cnf :: "u32 \<Rightarrow> bool \<Rightarrow> genid_info \<Rightarrow> int \<times> genid_info" where
  "genid_init_cnf cnf calloc_ok g =
    (let m = (if cnf mod OF_GENID_MAX_BIT_POS \<noteq> 0
              then (cnf div OF_GENID_MAX_BIT_POS) * OF_GENID_MAX_BIT_POS + OF_GENID_MAX_BIT_POS
              else cnf);
         m' = (if m mod OF_GENID_MAX_BIT_POS \<noteq> 0
               then (m div OF_GENID_MAX_BIT_POS) * OF_GENID_MAX_BIT_POS else m);
         size = m' div OF_GENID_MAX_BIT_POS;
         g' = g\<lparr>max_instance_id := m', max_instance_size := size,
                instance_id_valid := (if calloc_ok then Some (replicate (unat size) 0) else None)\<rparr>
     in if calloc_ok then (OF_SUCCESS, g') else (OF_FAILURE, g'))"

definition cntlr_genid_init :: "bool \<Rightarrow> genid_info \<Rightarrow> int \<times> genid_info" where
  "cntlr_genid_init calloc_ok g =
     genid_init_cnf of_genid_get_instandid_generator_cnf calloc_ok g"

definition of_genid_instanceid_generator_deinit :: "genid_info \<Rightarrow> genid_info" where
  "of_genid_instanceid_generator_deinit g = g\<lparr>instance_id_valid := None\<rparr>"

text \<open>The byte at a position of the bitmap; reading through NULL or past the end is undefined.\<close>

definition genid_byte :: "genid_info \<Rightarrow> nat \<Rightarrow> u8 option" where
  "genid_byte g p = (case instance_id_valid g of None \<Rightarrow> None
     | Some v \<Rightarrow> if p < length v then Some (v ! p) else None)"

definition genid_put_byte :: "genid_info \<Rightarrow> nat \<Rightarrow> u8 \<Rightarrow> genid_info" where
  "genid_put_byte g p b = g\<lparr>instance_id_valid := map_option (\<lambda>v. v[p := b]) (instance_id_valid g)\<rparr>"

text \<open>The inner loop: \<open>bit_counter\<close> runs from 7 down to 0; the argument counts the bits left.\<close>

fun scan_bits :: "u8 \<Rightarrow> nat \<Rightarrow> nat option" where
  "scan_bits b 0 = None"
| "scan_bits b (Suc k) = (if \<not> mask_test b k then Some k else scan_bits b k)"

text \<open>The outer loop over \<open>n\<close> bytes from \<open>byte_position\<close>.\<close>

fun scan_bytes :: "genid_info \<Rightarrow> nat \<Rightarrow> nat \<Rightarrow> (nat \<times> nat) option option" where
  "scan_bytes g p 0 = Some None"
| "scan_bytes g p (Suc n) =
     (case genid_byte g p of None \<Rightarrow> None
      | Some b \<Rightarrow> (case scan_bits b 8 of Some k \<Rightarrow> Some (Some (p, k))
                  | None \<Rightarrow> scan_bytes g (Suc p) n))"

text \<open>The body of the hit branch: the id that belongs to a byte position and bit counter.\<close>

definition genid_hit :: "genid_info \<Rightarrow> nat \<Rightarrow> nat \<Rightarrow> u32 option \<times> genid_info" where
  "genid_hit g p k =
    (let i = (if p = 0 \<and> k = 7 then max_instance_id g
              else of_nat p * OF_GENID_MAX_BIT_POS + (7 - of_nat k))
     in (Some i, g\<lparr>buf_instance_id := i\<rparr>))"

text \<open>\<open>out\<close> is whether the caller passes an output pointer. \<^term>\<open>Some i\<close> is \<^verbatim>\<open>OF_SUCCESS\<close> with
  \<open>i\<close> stored through the pointer, \<^term>\<open>None\<close> is \<^verbatim>\<open>OF_FAILURE\<close>.\<close>

definition of_genid_get_new_instance_id ::
  "bool \<Rightarrow> genid_info \<Rightarrow> (u32 option \<times> genid_info) option" where
  "of_genid_get_new_instance_id out g =
    (if \<not> out then Some (None, g)
     else if instance_id g < max_instance_id g
     then Some (Some (instance_id g + 1), g\<lparr>instance_id := instance_id g + 1\<rparr>)
     else
       let g1 = (if buf_instance_id g = max_instance_id g then g\<lparr>buf_instance_id := 0\<rparr> else g);
           byte_counter = unat (buf_instance_id g1 div OF_GENID_MAX_BIT_POS);
           upper_num = unat (max_instance_size g1)
       in case scan_bytes g1 byte_counter (upper_num - byte_counter) of
            None \<Rightarrow> None
          | Some (Some (p, k)) \<Rightarrow> Some (genid_hit g1 p k)
          | Some None \<Rightarrow>
              if byte_counter \<noteq> 0 then
                (case scan_bytes g1 0 byte_counter of
                   None \<Rightarrow> None
                 | Some (Some (p, k)) \<Rightarrow> Some (genid_hit g1 p k)
                 | Some None \<Rightarrow> Some (None, g1))
              else Some (None, g1))"

text \<open>The byte and the shift the code computes for an id.\<close>

definition genid_byte_pos :: "genid_info \<Rightarrow> u32 \<Rightarrow> nat" where
  "genid_byte_pos g i =
    (let byte_position = i div OF_GENID_MAX_BIT_POS; bit_position = i mod OF_GENID_MAX_BIT_POS
     in if byte_position = max_instance_size g \<and> bit_position = 0 then 0 else unat byte_position)"

definition genid_shift :: "u32 \<Rightarrow> nat" where
  "genid_shift i = unat (OF_GENID_MAX_BIT_POS - 1 - i mod OF_GENID_MAX_BIT_POS)"

text \<open>\<open>setflag\<close> is an unsigned char: \<^verbatim>\<open>TRUE\<close> is 1, \<^verbatim>\<open>FALSE\<close> is 0, anything else is refused.\<close>

definition of_genid_set_bit_for_instance_id ::
  "u32 \<Rightarrow> u8 \<Rightarrow> genid_info \<Rightarrow> (int \<times> genid_info) option" where
  "of_genid_set_bit_for_instance_id i setflag g =
    (if max_instance_id g < i then
       (if 0xffffffff \<le> i then Some (OF_FAILURE, g) else Some (OF_SUCCESS, g))
     else if setflag = 1 \<or> setflag = 0 then
       (let p = genid_byte_pos g i; k = genid_shift i
        in case genid_byte g p of None \<Rightarrow> None
           | Some b \<Rightarrow>
               if setflag \<noteq> 0 then
                 (if \<not> mask_test b k then Some (OF_SUCCESS, genid_put_byte g p (mask_set b k))
                  else Some (OF_FAILURE, g))
               else
                 (if mask_test b k then Some (OF_SUCCESS, genid_put_byte g p (mask_clear b k))
                  else Some (OF_FAILURE, g)))
     else Some (OF_FAILURE, g))"

definition of_genid_set_instance_id_value :: "u32 \<Rightarrow> genid_info \<Rightarrow> genid_info" where
  "of_genid_set_instance_id_value v g =
    (if 0 < v \<and> v \<le> max_instance_id g then
       (if instance_id g < v then g\<lparr>instance_id := v\<rparr> else g)
     else g)"

definition of_genid_check_instance_id :: "u32 \<Rightarrow> genid_info \<Rightarrow> int option" where
  "of_genid_check_instance_id i g =
    (if max_instance_id g < i then Some OF_FAILURE
     else case genid_byte g (genid_byte_pos g i) of None \<Rightarrow> None
       | Some b \<Rightarrow> Some (if \<not> mask_test b (genid_shift i) then OF_GENID_RULE_ID_NOT_SET
                        else OF_GENID_RULE_ID_SET))"


section \<open>The invariant and the set of ids in use\<close>

definition genid_inv :: "genid_info \<Rightarrow> bool" where
  "genid_inv g \<longleftrightarrow> (case instance_id_valid g of None \<Rightarrow> False
     | Some v \<Rightarrow> length v = unat (max_instance_size g) \<and> unat (max_instance_id g) = 8 * length v \<and>
         0 < length v \<and> instance_id g \<le> max_instance_id g \<and> buf_instance_id g \<le> max_instance_id g)"

text \<open>Where the bit of id \<open>n\<close> is, over the natural numbers, and the ids whose bit is set.\<close>

definition genid_cell :: "genid_info \<Rightarrow> nat \<Rightarrow> nat" where
  "genid_cell g n = (if n = unat (max_instance_id g) then 0 else n div 8)"

definition genid_used :: "genid_info \<Rightarrow> nat \<Rightarrow> bool" where
  "genid_used g n = (case instance_id_valid g of None \<Rightarrow> False
     | Some v \<Rightarrow> mask_test (v ! genid_cell g n) (7 - n mod 8))"

definition genid_ids :: "genid_info \<Rightarrow> nat set" where
  "genid_ids g = {n \<in> {1..unat (max_instance_id g)}. genid_used g n}"

lemma genid_invE:
  assumes "genid_inv g"
  obtains v where "instance_id_valid g = Some v" "length v = unat (max_instance_size g)"
    "unat (max_instance_id g) = 8 * length v" "0 < length v"
    "instance_id g \<le> max_instance_id g" "buf_instance_id g \<le> max_instance_id g"
  using assms by (auto simp: genid_inv_def split: option.splits)

lemma genid_byte_pos_cell:
  assumes "genid_inv g" "i \<le> max_instance_id g"
  shows "genid_byte_pos g i = genid_cell g (unat i)"
proof -
  obtain v where v: "instance_id_valid g = Some v" "length v = unat (max_instance_size g)"
    "unat (max_instance_id g) = 8 * length v"
    using assms(1) by (rule genid_invE)
  have "unat i \<le> 8 * length v"
    using assms(2) v by (simp add: word_le_nat_alt)
  moreover have "i div 8 = max_instance_size g \<and> i mod 8 = 0 \<longleftrightarrow>
      unat i div 8 = length v \<and> unat i mod 8 = 0"
    using v(2) by (simp add: word_eq_iff_unsigned unat_div unat_mod flip: word_unat_eq_iff)
      (simp add: word_unat_eq_iff unat_div unat_mod)
  ultimately show ?thesis
    using v by (auto simp: genid_byte_pos_def genid_cell_def Let_def unat_div)
qed

lemma genid_shift_nat: "genid_shift i = 7 - unat i mod 8"
proof -
  have "unat i mod 8 < 8" by simp
  moreover have "unat (i mod 8) = unat i mod 8" by (simp add: unat_mod)
  moreover have "(8::u32) - 1 - i mod 8 = 7 - i mod 8" by simp
  moreover have "unat (7 - i mod 8 :: u32) = unat (7::u32) - unat (i mod 8)"
    by (rule unat_sub) (simp add: word_le_nat_alt unat_mod)
  ultimately show ?thesis by (simp add: genid_shift_def)
qed

lemma genid_cell_less:
  assumes "genid_inv g" "n \<le> unat (max_instance_id g)" "instance_id_valid g = Some v"
  shows "genid_cell g n < length v"
  using assms by (auto simp: genid_cell_def elim!: genid_invE)

lemma mod_div_eqI: "n mod k = m mod k \<Longrightarrow> n div k = m div k \<Longrightarrow> n = (m::nat)"
  by (metis div_mult_mod_eq)

lemma genid_cell_inj:
  assumes "genid_inv g" "n \<in> {1..unat (max_instance_id g)}" "m \<in> {1..unat (max_instance_id g)}"
    "genid_cell g n = genid_cell g m" "n mod 8 = m mod 8"
  shows "n = m"
  using assms by (auto simp: genid_cell_def elim!: genid_invE split: if_splits
      intro: mod_div_eqI)

lemma genid_shift_inj: "7 - n mod 8 = 7 - m mod 8 \<Longrightarrow> n mod 8 = m mod (8::nat)"
proof -
  assume "7 - n mod 8 = 7 - m mod (8::nat)"
  moreover have "n mod 8 < 8" "m mod 8 < 8" by simp_all
  ultimately show ?thesis by linarith
qed

lemma genid_byte_used:
  assumes "genid_inv g" "i \<le> max_instance_id g"
  shows "\<exists>b. genid_byte g (genid_byte_pos g i) = Some b \<and>
             mask_test b (genid_shift i) = genid_used g (unat i)"
proof -
  obtain v where v: "instance_id_valid g = Some v"
    using assms(1) by (rule genid_invE)
  have "genid_cell g (unat i) < length v"
    using assms v by (intro genid_cell_less) (simp_all add: word_le_nat_alt)
  then show ?thesis
    using v by (simp add: genid_byte_pos_cell[OF assms] genid_byte_def genid_used_def
        genid_shift_nat)
qed

section \<open>The scan\<close>

lemma scan_bits_Some: "scan_bits b n = Some k \<Longrightarrow> k < n \<and> \<not> mask_test b k"
  by (induction n) (auto split: if_splits)

lemma scan_bits_None: "scan_bits b n = None \<longleftrightarrow> (\<forall>k<n. mask_test b k)"
  by (induction n) (auto simp: less_Suc_eq)

lemma scan_bytes_Some:
  "scan_bytes g p n = Some (Some (q, k)) \<Longrightarrow>
   p \<le> q \<and> q < p + n \<and> (\<exists>b. genid_byte g q = Some b \<and> scan_bits b 8 = Some k)"
  by (induction n arbitrary: p) (fastforce split: option.splits)+

lemma scan_bytes_None:
  "scan_bytes g p n = Some None \<Longrightarrow> p \<le> q \<Longrightarrow> q < p + n \<Longrightarrow> k < 8 \<Longrightarrow>
   \<exists>b. genid_byte g q = Some b \<and> mask_test b k"
proof (induction n arbitrary: p)
  case (Suc n)
  then show ?case
    by (cases "q = p") (auto simp: scan_bits_None split: option.splits)
qed simp

lemma scan_bytes_defined:
  "instance_id_valid g = Some v \<Longrightarrow> p + n \<le> length v \<Longrightarrow> scan_bytes g p n \<noteq> None"
  by (induction n arbitrary: p) (auto simp: genid_byte_def split: option.splits)


text \<open>What the two passes over the bitmap find: a cell whose bit is clear, or that every bit is set.\<close>

definition genid_search :: "genid_info \<Rightarrow> nat \<Rightarrow> nat \<Rightarrow> (nat \<times> nat) option option" where
  "genid_search g c n =
    (case scan_bytes g c (n - c) of None \<Rightarrow> None | Some (Some r) \<Rightarrow> Some (Some r)
     | Some None \<Rightarrow> if c \<noteq> 0 then scan_bytes g 0 c else Some None)"

lemma genid_search_Some:
  assumes "genid_search g c n = Some (Some (q, k))" "c < n"
  shows "q < n \<and> (\<exists>b. genid_byte g q = Some b \<and> scan_bits b 8 = Some k)"
  using assms by (fastforce simp: genid_search_def split: option.splits if_splits
      dest: scan_bytes_Some)

lemma genid_search_None:
  assumes "genid_search g c n = Some None" "c < n" "q < n" "k < 8"
  shows "\<exists>b. genid_byte g q = Some b \<and> mask_test b k"
proof (cases "q < c")
  case True
  then have "scan_bytes g 0 c = Some None"
    using assms by (auto simp: genid_search_def split: option.splits if_splits)
  then show ?thesis using True assms(4) by (auto intro: scan_bytes_None)
next
  case False
  have "scan_bytes g c (n - c) = Some None"
    using assms by (auto simp: genid_search_def split: option.splits if_splits)
  then show ?thesis using False assms by (auto intro: scan_bytes_None)
qed

lemma genid_search_defined:
  assumes "instance_id_valid g = Some v" "c < n" "n \<le> length v"
  shows "genid_search g c n \<noteq> None"
proof -
  have "scan_bytes g c (n - c) \<noteq> None" "scan_bytes g 0 c \<noteq> None"
    by (rule scan_bytes_defined[OF assms(1)], use assms in simp)+
  then show ?thesis
    by (cases "c = 0") (auto simp: genid_search_def split: option.splits)
qed

text \<open>The generator's search phase, stated over the search.\<close>

definition genid_rewind :: "genid_info \<Rightarrow> genid_info" where
  "genid_rewind g = (if buf_instance_id g = max_instance_id g then g\<lparr>buf_instance_id := 0\<rparr> else g)"

lemma get_new_search:
  assumes "instance_id g = max_instance_id g"
  shows "of_genid_get_new_instance_id True g =
    map_option (\<lambda>r. case r of None \<Rightarrow> (None, genid_rewind g)
                     | Some (p, k) \<Rightarrow> genid_hit (genid_rewind g) p k)
      (genid_search (genid_rewind g) (unat (buf_instance_id (genid_rewind g) div 8))
         (unat (max_instance_size g)))"
proof -
  have "max_instance_size (genid_rewind g) = max_instance_size g"
    by (simp add: genid_rewind_def)
  then show ?thesis
    using assms unfolding of_genid_get_new_instance_id_def genid_search_def Let_def
      genid_rewind_def[symmetric]
    by (auto split: option.splits)
qed

lemma genid_rewind_inv: "genid_inv g \<Longrightarrow> genid_inv (genid_rewind g)"
  by (auto simp: genid_inv_def genid_rewind_def split: option.splits)

lemma genid_rewind_sel [simp]:
  "max_instance_id (genid_rewind g) = max_instance_id g"
  "max_instance_size (genid_rewind g) = max_instance_size g"
  "instance_id (genid_rewind g) = instance_id g"
  "instance_id_valid (genid_rewind g) = instance_id_valid g"
  "genid_used (genid_rewind g) = genid_used g"
  "genid_byte (genid_rewind g) = genid_byte g"
  "genid_ids (genid_rewind g) = genid_ids g"
  by (simp_all add: genid_rewind_def genid_used_def genid_cell_def genid_byte_def genid_ids_def
      fun_eq_iff cong: option.case_cong)

lemma genid_rewind_start:
  assumes "genid_inv g"
  shows "unat (buf_instance_id (genid_rewind g) div 8) < unat (max_instance_size g)"
proof -
  obtain v where v: "instance_id_valid g = Some v" "length v = unat (max_instance_size g)"
    "unat (max_instance_id g) = 8 * length v" "0 < length v"
    using assms by (rule genid_invE)
  have "buf_instance_id (genid_rewind g) \<le> max_instance_id g"
    using genid_rewind_inv[OF assms] by (auto elim: genid_invE)
  moreover have "buf_instance_id (genid_rewind g) \<noteq> max_instance_id g"
    using v by (auto simp: genid_rewind_def)
  ultimately have "buf_instance_id (genid_rewind g) < max_instance_id g"
    by simp
  then have "unat (buf_instance_id (genid_rewind g)) < 8 * length v"
    using v(3) by (simp add: word_less_nat_alt)
  then show ?thesis using v by (simp add: unat_div)
qed

text \<open>The id a hit stands for.\<close>

lemma genid_hit_id:
  assumes "genid_inv g" "q < unat (max_instance_size g)" "k < 8"
  obtains i g' where "genid_hit g q k = (Some i, g')" "genid_inv g'"
    "unat i \<in> {1..unat (max_instance_id g)}"
    "genid_cell g (unat i) = q" "7 - unat i mod 8 = k" "g' = g\<lparr>buf_instance_id := i\<rparr>"
proof -
  obtain v where v: "instance_id_valid g = Some v" "length v = unat (max_instance_size g)"
    "unat (max_instance_id g) = 8 * length v" "0 < length v"
    "instance_id g \<le> max_instance_id g"
    using assms(1) by (rule genid_invE)
  let ?i = "if q = 0 \<and> k = 7 then max_instance_id g else of_nat q * 8 + (7 - of_nat k) :: u32"
  have k: "(7 - of_nat k :: u32) = of_nat (7 - k)"
    using assms(3) by (simp add: of_nat_diff)
  have lt: "q * 8 + (7 - k) < 8 * length v"
    using assms v(2) by (simp)
  have "q * 8 + (7 - k) < 2 ^ 32"
    using lt v(3) unat_u32_less[of "max_instance_id g"] by simp
  then have "unat (of_nat (q * 8 + (7 - k)) :: u32) = q * 8 + (7 - k)"
    by (rule unat_of_nat_u32)
  then have n: "unat (of_nat q * 8 + (7 - of_nat k) :: u32) = q * 8 + (7 - k)"
    unfolding k by simp
  have i: "unat ?i = (if q = 0 \<and> k = 7 then 8 * length v else q * 8 + (7 - k))"
    using n v by simp
  have mem: "unat ?i \<in> {1..unat (max_instance_id g)}"
    using lt v assms(3) by (auto simp: i)
  have cell: "genid_cell g (unat ?i) = q"
    using lt v assms(3) by (auto simp: i genid_cell_def)
  have "(q * 8 + (7 - k)) mod 8 = (7 - k) mod 8"
    by (rule mod_mult_self3)
  then have "(q * 8 + (7 - k)) mod 8 = 7 - k"
    by simp
  then have shift: "7 - unat ?i mod 8 = k"
    using assms(3) by (auto simp: i simp del: add_diff_assoc)
  have "genid_inv (g\<lparr>buf_instance_id := ?i\<rparr>)"
    using assms(1) mem by (auto simp: genid_inv_def word_le_nat_alt split: option.splits)
  then show ?thesis
    using that[of ?i] mem cell shift by (simp add: genid_hit_def Let_def)
qed


text \<open>A call in the search phase, in terms of the cell it finds.\<close>

lemma get_new_run:
  assumes "genid_inv g" "instance_id g = max_instance_id g"
  obtains r where "of_genid_get_new_instance_id True g = Some (case r of
      None \<Rightarrow> (None, genid_rewind g) | Some (p, k) \<Rightarrow> genid_hit (genid_rewind g) p k)"
    "genid_search (genid_rewind g) (unat (buf_instance_id (genid_rewind g) div 8))
       (unat (max_instance_size g)) = Some r"
proof -
  obtain v where v: "instance_id_valid g = Some v" "length v = unat (max_instance_size g)"
    using assms(1) by (rule genid_invE)
  have "genid_search (genid_rewind g) (unat (buf_instance_id (genid_rewind g) div 8))
       (unat (max_instance_size g)) \<noteq> None"
    by (rule genid_search_defined[of _ v]) (use v genid_rewind_start[OF assms(1)] in simp_all)
  then show ?thesis
    using that get_new_search[OF assms(2)] by (metis (no_types, lifting) not_Some_eq option.map(2))
qed

lemma get_new_exhausted_None:
  assumes "genid_inv g" "instance_id g = max_instance_id g"
    "of_genid_get_new_instance_id True g = Some (None, g')"
  shows "g' = genid_rewind g" "genid_ids g = {1..unat (max_instance_id g)}"
proof -
  obtain r where r: "of_genid_get_new_instance_id True g = Some (case r of
      None \<Rightarrow> (None, genid_rewind g) | Some (p, k) \<Rightarrow> genid_hit (genid_rewind g) p k)"
    "genid_search (genid_rewind g) (unat (buf_instance_id (genid_rewind g) div 8))
       (unat (max_instance_size g)) = Some r"
    using get_new_run[OF assms(1,2)] by blast
  have N: "r = None" and g': "g' = genid_rewind g"
    using r(1) assms(3) by (auto simp: genid_hit_def Let_def split: option.splits)
  obtain v where v: "instance_id_valid g = Some v" "length v = unat (max_instance_size g)"
    using assms(1) by (rule genid_invE)
  have "genid_used g m" if m: "m \<in> {1..unat (max_instance_id g)}" for m
  proof -
    have cell: "genid_cell g m < length v"
      using genid_cell_less[OF assms(1) _ v(1)] m by simp
    have "7 - m mod 8 < 8" by arith
    then have "\<exists>b. genid_byte (genid_rewind g) (genid_cell g m) = Some b \<and> mask_test b (7 - m mod 8)"
      using genid_search_None[OF r(2)[unfolded N] genid_rewind_start[OF assms(1)]] cell v(2) by simp
    then show ?thesis
      using v(1) cell by (simp add: genid_used_def genid_byte_def)
  qed
  then show "g' = genid_rewind g" "genid_ids g = {1..unat (max_instance_id g)}"
    using g' by (auto simp: genid_ids_def)
qed

lemma get_new_exhausted_Some:
  assumes "genid_inv g" "instance_id g = max_instance_id g"
    "of_genid_get_new_instance_id True g = Some (Some i, g')"
  obtains p k b where "p < unat (max_instance_size g)" "genid_byte g p = Some b"
    "scan_bits b 8 = Some k" "genid_hit (genid_rewind g) p k = (Some i, g')"
    "genid_inv g'" "unat i \<in> {1..unat (max_instance_id g)}" "genid_cell g (unat i) = p"
    "7 - unat i mod 8 = k" "g' = (genid_rewind g)\<lparr>buf_instance_id := i\<rparr>"
proof -
  obtain r where r: "of_genid_get_new_instance_id True g = Some (case r of
      None \<Rightarrow> (None, genid_rewind g) | Some (p, k) \<Rightarrow> genid_hit (genid_rewind g) p k)"
    "genid_search (genid_rewind g) (unat (buf_instance_id (genid_rewind g) div 8))
       (unat (max_instance_size g)) = Some r"
    using get_new_run[OF assms(1,2)] by blast
  obtain p k where pk: "r = Some (p, k)" and hit: "genid_hit (genid_rewind g) p k = (Some i, g')"
    using r(1) assms(3) by (cases r) auto
  obtain b where b: "p < unat (max_instance_size g)" "genid_byte g p = Some b"
    "scan_bits b 8 = Some k"
    using genid_search_Some[OF r(2)[unfolded pk] genid_rewind_start[OF assms(1)]] by auto
  obtain i' g'' where i: "genid_hit (genid_rewind g) p k = (Some i', g'')" "genid_inv g''"
    "unat i' \<in> {1..unat (max_instance_id (genid_rewind g))}"
    "genid_cell (genid_rewind g) (unat i') = p" "7 - unat i' mod 8 = k"
    "g'' = (genid_rewind g)\<lparr>buf_instance_id := i'\<rparr>"
    by (rule genid_hit_id[OF genid_rewind_inv[OF assms(1)], of p k])
      (use b scan_bits_Some in auto)
  have eq: "i' = i" "g'' = g'" using hit i(1) by simp_all
  note i = i[unfolded eq]
  show ?thesis
  proof (rule that[OF b hit])
    show "genid_inv g'" using i by simp
    show "unat i \<in> {1..unat (max_instance_id g)}" using hit i by simp
    show "genid_cell g (unat i) = p" using hit i by (simp add: genid_cell_def)
    show "7 - unat i mod 8 = k" using hit i by simp
    show "g' = (genid_rewind g)\<lparr>buf_instance_id := i\<rparr>" using hit i by simp
  qed
qed

lemma get_new_exhausted:
  assumes "genid_inv g" "instance_id g = max_instance_id g"
  shows "\<exists>r g'. of_genid_get_new_instance_id True g = Some (r, g') \<and> genid_inv g' \<and>
    genid_ids g' = genid_ids g \<and> instance_id g' = instance_id g \<and>
    max_instance_id g' = max_instance_id g \<and>
       (case r of None \<Rightarrow> genid_ids g = {1..unat (max_instance_id g)}
        | Some i \<Rightarrow> unat i \<in> {1..unat (max_instance_id g)} - genid_ids g)"
proof -
  obtain r g' where run: "of_genid_get_new_instance_id True g = Some (r, g')"
    using get_new_run[OF assms] by (metis surj_pair)
  show ?thesis
  proof (cases r)
    case None
    from get_new_exhausted_None[OF assms run[unfolded None]] show ?thesis
      using run None genid_rewind_inv[OF assms(1)] by simp
  next
    case (Some i)
    obtain p k b where i: "genid_byte g p = Some b" "scan_bits b 8 = Some k" "genid_inv g'"
      "unat i \<in> {1..unat (max_instance_id g)}" "genid_cell g (unat i) = p"
      "7 - unat i mod 8 = k" "g' = (genid_rewind g)\<lparr>buf_instance_id := i\<rparr>"
      by (rule get_new_exhausted_Some[OF assms run[unfolded Some]])
    have "\<not> genid_used g (unat i)"
      using i(1,5,6) scan_bits_Some[OF i(2)]
      by (auto simp: genid_used_def genid_byte_def split: if_splits option.splits)
    moreover have "genid_ids g' = genid_ids (genid_rewind g)"
      by (simp add: i(7) genid_ids_def genid_used_def genid_cell_def cong: option.case_cong)
    ultimately show ?thesis
      using run Some i(3,4,7) by (simp add: genid_ids_def)
  qed
qed

section \<open>Writing one bit\<close>

lemma genid_write:
  assumes "genid_inv g" "i \<le> max_instance_id g" "i \<noteq> 0"
    and b: "genid_byte g (genid_byte_pos g i) = Some b"
    and b': "\<And>j. j < 8 \<Longrightarrow> mask_test b' j = (if j = genid_shift i then f else mask_test b j)"
  shows "genid_inv (genid_put_byte g (genid_byte_pos g i) b') \<and>
    genid_ids (genid_put_byte g (genid_byte_pos g i) b') =
      (if f then insert (unat i) (genid_ids g) else genid_ids g - {unat i})"
proof -
  obtain v where v: "instance_id_valid g = Some v"
    using assms(1) by (rule genid_invE)
  let ?p = "genid_cell g (unat i)" and ?g = "genid_put_byte g (genid_byte_pos g i) b'"
  have p: "genid_byte_pos g i = ?p" by (rule genid_byte_pos_cell[OF assms(1,2)])
  have i: "unat i \<in> {1..unat (max_instance_id g)}"
    using assms(2,3) by (auto simp: word_le_nat_alt Suc_le_eq unat_gt_0)
  then have plen: "?p < length v" by (intro genid_cell_less[OF assms(1) _ v]) simp
  have bv: "b = v ! ?p" using b v plen by (simp add: p genid_byte_def)
  have inv: "genid_inv ?g"
    using assms(1) by (auto simp: genid_inv_def genid_put_byte_def split: option.splits)
  have cell: "genid_cell ?g n = genid_cell g n" for n
    by (simp add: genid_cell_def genid_put_byte_def)
  have v': "instance_id_valid ?g = Some (v[?p := b'])"
    using v by (simp add: genid_put_byte_def p)
  have used: "genid_used ?g n = (if n = unat i then f else genid_used g n)"
    if n: "n \<in> {1..unat (max_instance_id g)}" for n
  proof (cases "genid_cell g n = ?p")
    case True
    have *: "7 - n mod 8 = 7 - unat i mod 8 \<longleftrightarrow> n = unat i"
      using genid_cell_inj[OF assms(1) n i True] genid_shift_inj[of n "unat i"] by auto
    have "genid_used ?g n = mask_test b' (7 - n mod 8)"
      using True plen v' by (simp add: genid_used_def cell)
    moreover have "genid_used g n = mask_test b (7 - n mod 8)"
      using True v by (simp add: genid_used_def bv)
    ultimately show ?thesis
      using b'[of "7 - n mod 8"] * by (simp add: genid_shift_nat)
  next
    case False
    then have "n \<noteq> unat i" by auto
    then show ?thesis
      using v v' False by (simp add: genid_used_def cell)
  qed
  then have "genid_ids ?g = {n \<in> {1..unat (max_instance_id g)}. if n = unat i then f else genid_used g n}"
    by (auto simp: genid_ids_def genid_put_byte_def)
  then show ?thesis
    using inv i by (auto simp: genid_ids_def)
qed

lemma unat_in_ids:
  assumes "genid_inv g" "i \<le> max_instance_id g" "i \<noteq> 0"
  shows "genid_used g (unat i) \<longleftrightarrow> unat i \<in> genid_ids g"
  using assms(2,3) by (auto simp: genid_ids_def word_le_nat_alt Suc_le_eq unat_gt_0)

lemma set_bit_free:
  assumes "genid_inv g" "i \<noteq> 0" "i \<le> max_instance_id g" "unat i \<notin> genid_ids g"
  shows "\<exists>g'. of_genid_set_bit_for_instance_id i 1 g = Some (OF_SUCCESS, g') \<and> genid_inv g' \<and>
    genid_ids g' = insert (unat i) (genid_ids g) \<and> instance_id g' = instance_id g \<and>
    max_instance_id g' = max_instance_id g"
proof -
  obtain b where b: "genid_byte g (genid_byte_pos g i) = Some b"
    "mask_test b (genid_shift i) = genid_used g (unat i)"
    using genid_byte_used[OF assms(1,3)] by blast
  have k: "genid_shift i < 8" by (simp add: genid_shift_nat)
  have "genid_inv (genid_put_byte g (genid_byte_pos g i) (mask_set b (genid_shift i))) \<and>
      genid_ids (genid_put_byte g (genid_byte_pos g i) (mask_set b (genid_shift i))) =
      insert (unat i) (genid_ids g)"
    using genid_write[OF assms(1,3,2) b(1), of "mask_set b (genid_shift i)" True] k
    by (simp add: mask_test_set)
  moreover have "\<not> max_instance_id g < i" "\<not> mask_test b (genid_shift i)"
    using assms b(2) unat_in_ids[OF assms(1,3,2)] by simp_all
  ultimately show ?thesis
    using b(1) by (simp add: of_genid_set_bit_for_instance_id_def Let_def)
      (simp add: genid_put_byte_def)
qed

lemma genid_init_inv:
  assumes "0 < cnf" "cnf \<le> 0xfffffff8"
  shows "case genid_init_cnf cnf ok of_genid_instance_info_g of (rc, g) \<Rightarrow>
    (rc = (if ok then OF_SUCCESS else OF_FAILURE)) \<and> (ok \<longleftrightarrow> genid_inv g) \<and> genid_ids g = {} \<and>
    cnf \<le> max_instance_id g \<and> unat (max_instance_id g) < unat cnf + 8 \<and> 8 dvd unat (max_instance_id g)"
proof -
  let ?n = "unat cnf"
  have n: "0 < ?n" "?n \<le> 4294967288"
    using assms by (simp_all add: word_le_nat_alt word_less_nat_alt)
  define m where "m = (if ?n mod 8 \<noteq> 0 then ?n div 8 * 8 + 8 else ?n)"
  have m: "?n \<le> m" "m < ?n + 8" "8 dvd m" "m \<le> 4294967288"
    using n unfolding m_def by (auto split: if_splits; presburger)+
  let ?m = "if cnf mod 8 \<noteq> 0 then cnf div 8 * 8 + 8 else cnf"
  have "?m = of_nat m"
    by (simp add: m_def word_eq_iff_unsigned unat_mod word_unat_eq_iff)
      (simp add: word_arith_nat_div)
  then have um: "unat ?m = m"
    using m(4) by (simp add: unat_of_nat_u32)
  define M where "M = ?m"
  have uM: "unat M = m" unfolding M_def by (rule um)
  have M: "unat M = m" "M mod 8 = 0" "unat (M div 8) = m div 8" "8 * (m div 8) = m"
    using uM m(3) by (simp_all add: word_unat_eq_iff unat_mod unat_div)
  have "genid_init_cnf cnf ok of_genid_instance_info_g =
      (if ok then OF_SUCCESS else OF_FAILURE,
       of_genid_instance_info_g\<lparr>max_instance_id := M, max_instance_size := M div 8,
         instance_id_valid := (if ok then Some (replicate (m div 8) 0) else None)\<rparr>)"
    unfolding genid_init_cnf_def M_def[symmetric] by (simp add: M Let_def)
  moreover have "0 < m div 8"
    using m n by presburger
  moreover have "cnf \<le> M"
    using M m by (simp add: word_le_nat_alt)
  moreover have "\<not> mask_test (replicate (m div 8) (0::u8) ! c) k" if "c < m div 8" for c k
    using that by simp
  ultimately show ?thesis
    using M m
    by (auto simp: genid_inv_def of_genid_instance_info_g_def genid_ids_def genid_used_def
        genid_cell_def)
qed


section \<open>Reachable states\<close>

text \<open>The states after a successful initialisation and any sequence of calls, for any arguments.\<close>

inductive genid_reach :: "genid_info \<Rightarrow> bool" where
  genid_boot: "cntlr_genid_init True of_genid_instance_info_g = (OF_SUCCESS, g) \<Longrightarrow> genid_reach g"
| genid_new: "genid_reach g \<Longrightarrow> of_genid_get_new_instance_id out g = Some (r, g') \<Longrightarrow> genid_reach g'"
| genid_mark: "genid_reach g \<Longrightarrow> of_genid_set_bit_for_instance_id i f g = Some (rc, g') \<Longrightarrow>
    genid_reach g'"
| genid_raise: "genid_reach g \<Longrightarrow> genid_reach (of_genid_set_instance_id_value v g)"

lemma genid_put_byte_inv [ond_inv]: "genid_inv g \<Longrightarrow> genid_inv (genid_put_byte g p b)"
  by (auto simp: genid_inv_def genid_put_byte_def split: option.splits)

lemma set_value_inv [ond_inv]: "genid_inv g \<Longrightarrow> genid_inv (of_genid_set_instance_id_value v g)"
  by (auto simp: genid_inv_def of_genid_set_instance_id_value_def split: option.splits)

lemma set_bit_inv [ond_inv]:
  "genid_inv g \<Longrightarrow> of_genid_set_bit_for_instance_id i f g = Some (rc, g') \<Longrightarrow> genid_inv g'"
  by (auto simp: of_genid_set_bit_for_instance_id_def Let_def genid_put_byte_inv
      split: if_splits option.splits)

lemma set_bit_defined: "genid_inv g \<Longrightarrow> of_genid_set_bit_for_instance_id i f g \<noteq> None"
  using genid_byte_used[of g i]
  by (auto simp: of_genid_set_bit_for_instance_id_def Let_def not_less split: option.splits)

lemma get_new_defined:
  assumes "genid_inv g"
  shows "\<exists>r g'. of_genid_get_new_instance_id out g = Some (r, g') \<and> genid_inv g'"
proof (cases "out \<and> instance_id g = max_instance_id g")
  case True
  then show ?thesis using get_new_exhausted[OF assms] by auto
next
  case False
  moreover have "instance_id g \<le> max_instance_id g"
    using assms by (auto elim: genid_invE)
  ultimately show ?thesis
    using assms inc_le[of "instance_id g" "max_instance_id g"]
    by (auto simp: of_genid_get_new_instance_id_def genid_inv_def not_less split: option.splits)
qed

lemma boot_inv:
  assumes "cntlr_genid_init True of_genid_instance_info_g = (OF_SUCCESS, g)"
  shows "genid_inv g"
  using genid_init_inv[of of_genid_get_instandid_generator_cnf True] assms
  by (simp add: cntlr_genid_init_def of_genid_get_instandid_generator_cnf_def)

lemma genid_reach_inv: "genid_reach g \<Longrightarrow> genid_inv g"
proof (induction rule: genid_reach.induct)
  case (genid_new g out r g')
  then show ?case using get_new_defined[of g out] by auto
qed (auto intro: boot_inv ond_inv)

section \<open>Properties\<close>

text \<open>Initialisation rounds the configured maximum up to a multiple of eight, allocates one bit
  per id, all clear, and establishes the invariant; a failing \<^verbatim>\<open>calloc\<close> is reported.\<close>

theorem genid_init_establishes:
  assumes "0 < cnf" "cnf \<le> 0xfffffff8"
  shows "case genid_init_cnf cnf ok of_genid_instance_info_g of (rc, g) \<Rightarrow>
    (rc = (if ok then OF_SUCCESS else OF_FAILURE)) \<and> (ok \<longleftrightarrow> genid_inv g) \<and> genid_ids g = {} \<and>
    cnf \<le> max_instance_id g \<and> unat (max_instance_id g) < unat cnf + 8 \<and> 8 dvd unat (max_instance_id g)"
  using assms by (rule genid_init_inv)

theorem genid_init_establishes_witness:
  "case genid_init_cnf 20 True of_genid_instance_info_g of (rc, g) \<Rightarrow> genid_inv g \<and> genid_ids g = {}"
  using genid_init_establishes[of 20 True] by (simp add: split_def)

text \<open>A call with an output pointer never reads outside the bitmap. While the counter is below the
  maximum the next counter value is returned; afterwards the result is an id between 1 and the
  maximum whose bit is clear, and the call fails exactly when the bits of all ids are set. No call
  changes the set of ids whose bit is set.\<close>

theorem genid_get_new_correct:
  assumes "genid_inv g"
  shows "\<exists>r g'. of_genid_get_new_instance_id True g = Some (r, g') \<and> genid_inv g' \<and>
    genid_ids g' = genid_ids g \<and>
    (if instance_id g < max_instance_id g
     then r = Some (instance_id g + 1) \<and> instance_id g' = instance_id g + 1
     else instance_id g' = instance_id g \<and>
       (case r of None \<Rightarrow> genid_ids g = {1..unat (max_instance_id g)}
        | Some i \<Rightarrow> unat i \<in> {1..unat (max_instance_id g)} - genid_ids g))"
proof (cases "instance_id g < max_instance_id g")
  case True
  have "instance_id g + 1 \<le> max_instance_id g"
    using True by (simp add: inc_le)
  then show ?thesis
    using True assms
    by (auto simp: of_genid_get_new_instance_id_def genid_inv_def genid_ids_def genid_used_def
        genid_cell_def split: option.splits)
next
  case False
  then have "instance_id g = max_instance_id g"
    using assms by (auto elim: genid_invE)
  from get_new_exhausted[OF assms this] show ?thesis
    using False by auto
qed

theorem genid_get_new_correct_witness:
  "\<exists>r g'. of_genid_get_new_instance_id True
     \<lparr>max_instance_id = 8, max_instance_size = 1, instance_id = 8, buf_instance_id = 8,
      instance_id_valid = Some [0xC0]\<rparr> = Some (r, g') \<and> genid_inv g'"
proof -
  let ?g = "\<lparr>max_instance_id = 8, max_instance_size = 1, instance_id = 8, buf_instance_id = 8,
      instance_id_valid = Some [0xC0]\<rparr>"
  have "genid_inv ?g" by (simp add: genid_inv_def)
  from genid_get_new_correct[OF this] show ?thesis by blast
qed

text \<open>Setting the bit of an id between 1 and the maximum adds it to the ids in use, clearing it
  removes it; asking for the value the bit already has is refused, as is a flag that is neither
  \<^verbatim>\<open>TRUE\<close> nor \<^verbatim>\<open>FALSE\<close>, and both leave the bitmap alone. The bitmap is never read or written
  outside its bounds.\<close>

theorem genid_set_bit_refines:
  assumes "genid_inv g" "i \<noteq> 0" "i \<le> max_instance_id g"
  shows "\<exists>rc g'. of_genid_set_bit_for_instance_id i f g = Some (rc, g') \<and> genid_inv g' \<and>
    rc = (if f = 1 \<and> unat i \<notin> genid_ids g \<or> f = 0 \<and> unat i \<in> genid_ids g
          then OF_SUCCESS else OF_FAILURE) \<and>
    (rc = OF_FAILURE \<longrightarrow> g' = g) \<and>
    genid_ids g' = (if f = 1 then insert (unat i) (genid_ids g)
                    else if f = 0 then genid_ids g - {unat i} else genid_ids g)"
proof -
  obtain b where b: "genid_byte g (genid_byte_pos g i) = Some b"
    "mask_test b (genid_shift i) = genid_used g (unat i)"
    using genid_byte_used[OF assms(1,3)] by blast
  have k: "genid_shift i < 8" by (simp add: genid_shift_nat)
  note w = genid_write[OF assms(1,3,2) b(1)]
  have set: "genid_inv (genid_put_byte g (genid_byte_pos g i) (mask_set b (genid_shift i))) \<and>
      genid_ids (genid_put_byte g (genid_byte_pos g i) (mask_set b (genid_shift i))) =
      insert (unat i) (genid_ids g)"
    using w[of "mask_set b (genid_shift i)" True] k by (simp add: mask_test_set)
  have clr: "genid_inv (genid_put_byte g (genid_byte_pos g i) (mask_clear b (genid_shift i))) \<and>
      genid_ids (genid_put_byte g (genid_byte_pos g i) (mask_clear b (genid_shift i))) =
      genid_ids g - {unat i}"
    using w[of "mask_clear b (genid_shift i)" False] k by (simp add: mask_test_clear)
  have u: "mask_test b (genid_shift i) \<longleftrightarrow> unat i \<in> genid_ids g"
    using b(2) unat_in_ids[OF assms(1,3,2)] by simp
  have nlt: "\<not> max_instance_id g < i" using assms(3) by simp
  show ?thesis
    unfolding of_genid_set_bit_for_instance_id_def Let_def b(1)
    using set clr u nlt assms(1) by (auto simp: insert_absorb)
qed

theorem genid_set_bit_refines_witness:
  "\<exists>rc g'. of_genid_set_bit_for_instance_id 8 1
     \<lparr>max_instance_id = 8, max_instance_size = 1, instance_id = 8, buf_instance_id = 8,
      instance_id_valid = Some [0x40]\<rparr> = Some (rc, g') \<and> genid_inv g'"
proof -
  let ?g = "\<lparr>max_instance_id = 8, max_instance_size = 1, instance_id = 8, buf_instance_id = 8,
      instance_id_valid = Some [0x40]\<rparr>"
  have "genid_inv ?g" by (simp add: genid_inv_def)
  from genid_set_bit_refines[OF this, of 8 1] show ?thesis by auto
qed

text \<open>\<^verbatim>\<open>of_genid_check_instance_id\<close> reports exactly whether the id is in use, and an id above the
  maximum as a failure; id 0 shares the bit of the maximum id.\<close>

theorem genid_check_correct:
  assumes "genid_inv g"
  shows "of_genid_check_instance_id i g = Some
    (if max_instance_id g < i then OF_FAILURE
     else if (if i = 0 then unat (max_instance_id g) else unat i) \<in> genid_ids g
     then OF_GENID_RULE_ID_SET else OF_GENID_RULE_ID_NOT_SET)"
proof (cases "max_instance_id g < i")
  case False
  then have le: "i \<le> max_instance_id g" by simp
  obtain b where b: "genid_byte g (genid_byte_pos g i) = Some b"
    "mask_test b (genid_shift i) = genid_used g (unat i)"
    using genid_byte_used[OF assms le] by blast
  obtain v where v: "instance_id_valid g = Some v" "length v = unat (max_instance_size g)"
    "unat (max_instance_id g) = 8 * length v" "0 < length v"
    using assms by (rule genid_invE)
  have "genid_used g 0 = genid_used g (unat (max_instance_id g))"
    using v by (auto simp: genid_used_def genid_cell_def split: option.splits)
  moreover have "unat (max_instance_id g) \<in> {1..unat (max_instance_id g)}"
    using v by simp
  ultimately have "genid_used g (unat i) \<longleftrightarrow>
      (if i = 0 then unat (max_instance_id g) else unat i) \<in> genid_ids g"
    using unat_in_ids[OF assms le] by (auto simp: genid_ids_def)
  then show ?thesis using b le by (simp add: of_genid_check_instance_id_def)
qed (simp add: of_genid_check_instance_id_def)

theorem genid_check_correct_witness:
  "of_genid_check_instance_id 2
     \<lparr>max_instance_id = 8, max_instance_size = 1, instance_id = 8, buf_instance_id = 8,
      instance_id_valid = Some [0x20]\<rparr> \<noteq> None"
proof -
  let ?g = "\<lparr>max_instance_id = 8, max_instance_size = 1, instance_id = 8, buf_instance_id = 8,
      instance_id_valid = Some [0x20]\<rparr>"
  have "genid_inv ?g" by (simp add: genid_inv_def)
  from genid_check_correct[OF this, of 2] show ?thesis by simp
qed

text \<open>Once the counter has reached the maximum, a returned id is not reserved by the call: an
  immediate second call returns the same id again. (The comment on the function says the bit is set.)\<close>

theorem genid_get_new_repeats:
  assumes "genid_inv g" "instance_id g = max_instance_id g"
    "of_genid_get_new_instance_id True g = Some (Some i, g')"
  shows "of_genid_get_new_instance_id True g' = Some (Some i, g')"
proof -
  obtain p k b where i: "p < unat (max_instance_size g)" "genid_byte g p = Some b"
    "scan_bits b 8 = Some k" "genid_hit (genid_rewind g) p k = (Some i, g')" "genid_inv g'"
    "genid_cell g (unat i) = p" "g' = (genid_rewind g)\<lparr>buf_instance_id := i\<rparr>"
    by (rule get_new_exhausted_Some[OF assms])
  have max: "instance_id g' = max_instance_id g'" using assms(2) i(7) by simp
  have "unat (buf_instance_id (genid_rewind g') div 8) = p"
    using i(6,7) by (auto simp: genid_rewind_def genid_cell_def unat_div word_unat_eq_iff
        split: if_splits)
  moreover have "genid_byte (genid_rewind g') p = Some b"
    using i(2,7) by (simp add: genid_byte_def)
  then have "genid_search (genid_rewind g') p (unat (max_instance_size g')) = Some (Some (p, k))"
    using i(1,3,7) by (auto simp: genid_search_def Suc_diff_Suc[symmetric])
  moreover have "genid_hit (genid_rewind g') p k = (Some i, g')"
    using i(4,7) by (auto simp: genid_hit_def genid_rewind_def Let_def split: if_splits)
  ultimately show ?thesis
    by (simp add: get_new_search[OF max])
qed

text \<open>A client that marks every id it is given, by setting its bit, is given an unused id once the
  counter is exhausted: the marking succeeds and no later search returns the id until it is cleared.\<close>

theorem genid_allocate_unique:
  assumes "genid_inv g" "instance_id g = max_instance_id g"
    "of_genid_get_new_instance_id True g = Some (Some i, g1)"
  shows "\<exists>g2. of_genid_set_bit_for_instance_id i 1 g1 = Some (OF_SUCCESS, g2) \<and> genid_inv g2 \<and>
    genid_ids g2 = insert (unat i) (genid_ids g) \<and> unat i \<notin> genid_ids g \<and>
    (\<forall>j g3. of_genid_get_new_instance_id True g2 = Some (Some j, g3) \<longrightarrow> j \<noteq> i)"
proof -
  have g1: "genid_inv g1" "genid_ids g1 = genid_ids g" "instance_id g1 = instance_id g"
    "max_instance_id g1 = max_instance_id g"
    and i: "unat i \<in> {1..unat (max_instance_id g)} - genid_ids g"
    using get_new_exhausted[OF assms(1,2)] assms(3) by auto
  have "i \<noteq> 0" "i \<le> max_instance_id g1" "unat i \<notin> genid_ids g1"
    using i g1 by (auto simp: word_le_nat_alt)
  from set_bit_free[OF g1(1) this] obtain g2 where
    g2: "of_genid_set_bit_for_instance_id i 1 g1 = Some (OF_SUCCESS, g2)" "genid_inv g2"
      "genid_ids g2 = insert (unat i) (genid_ids g)" "instance_id g2 = max_instance_id g2"
    using g1 assms(2) by auto
  have "j \<noteq> i" if "of_genid_get_new_instance_id True g2 = Some (Some j, g3)" for j g3
    using get_new_exhausted[OF g2(2,4)] that g2(3) by auto
  then show ?thesis using g2 i by blast
qed



theorem genid_get_new_repeats_witness:
  "\<exists>g'. of_genid_get_new_instance_id True
     \<lparr>max_instance_id = 8, max_instance_size = 1, instance_id = 8, buf_instance_id = 3,
      instance_id_valid = Some [0xC0]\<rparr> = Some (Some 2, g') \<and>
    of_genid_get_new_instance_id True g' = Some (Some 2, g')"
proof -
  let ?g = "\<lparr>max_instance_id = 8, max_instance_size = 1, instance_id = 8, buf_instance_id = 3,
      instance_id_valid = Some [0xC0]\<rparr>"
  let ?g' = "?g\<lparr>buf_instance_id := 2\<rparr>"
  have 1: "genid_inv ?g" by (simp add: genid_inv_def)
  have 2: "instance_id ?g = max_instance_id ?g" by simp
  have 3: "of_genid_get_new_instance_id True ?g = Some (Some 2, ?g')" by code_simp
  from genid_get_new_repeats[OF 1 2 3] 3 show ?thesis by blast
qed

theorem genid_allocate_unique_witness:
  "\<exists>g2. of_genid_set_bit_for_instance_id 2 1
     \<lparr>max_instance_id = 8, max_instance_size = 1, instance_id = 8, buf_instance_id = 2,
      instance_id_valid = Some [0xC0]\<rparr> = Some (OF_SUCCESS, g2) \<and> genid_inv g2"
proof -
  let ?g = "\<lparr>max_instance_id = 8, max_instance_size = 1, instance_id = 8, buf_instance_id = 3,
      instance_id_valid = Some [0xC0]\<rparr>"
  let ?g' = "?g\<lparr>buf_instance_id := 2\<rparr>"
  have 1: "genid_inv ?g" by (simp add: genid_inv_def)
  have 2: "instance_id ?g = max_instance_id ?g" by simp
  have 3: "of_genid_get_new_instance_id True ?g = Some (Some 2, ?g')" by code_simp
  from genid_allocate_unique[OF 1 2 3] show ?thesis by auto
qed

text \<open>C28: from initialisation on, whatever the sequence of calls and their arguments, the bitmap stays
  in place with its size and the counters within range, and no call ever leaves the bitmap's bounds.\<close>

theorem genid_reach_safe:
  assumes "genid_reach g"
  shows "genid_inv g \<and> of_genid_get_new_instance_id out g \<noteq> None \<and>
    of_genid_set_bit_for_instance_id i f g \<noteq> None \<and> of_genid_check_instance_id i g \<noteq> None"
proof -
  have "of_genid_check_instance_id i g \<noteq> None"
    using genid_byte_used[OF genid_reach_inv[OF assms], of i]
    by (auto simp: of_genid_check_instance_id_def not_less)
  then show ?thesis
    using genid_reach_inv[OF assms] get_new_defined set_bit_defined by fastforce
qed

theorem genid_reach_safe_witness:
  "of_genid_get_new_instance_id True
     (of_genid_set_instance_id_value 7 (snd (cntlr_genid_init True of_genid_instance_info_g))) \<noteq> None"
proof -
  have "cntlr_genid_init True of_genid_instance_info_g =
      (OF_SUCCESS, snd (cntlr_genid_init True of_genid_instance_info_g))"
    by (simp add: cntlr_genid_init_def genid_init_cnf_def Let_def)
  then have "genid_reach (of_genid_set_instance_id_value 7
      (snd (cntlr_genid_init True of_genid_instance_info_g)))"
    by (intro genid_raise genid_boot)
  from genid_reach_safe[OF this] show ?thesis by blast
qed

end
