(* ===== verification/Node_Seq.thy ===== *)
theory Node_Seq
  imports Ond_Prelude "HOL-Library.Multiset"
begin

text \<open>
  The contract the intrusive singly linked lists of the controller share: a list structure
  represents a sequence of distinct nodes, a node that is ready (linked nowhere) can be appended, and
  a node of the sequence can be unlinked. Clients are proved against this contract once; both list
  implementations (\<^verbatim>\<open>cntlr_sll_q\<close> and \<^verbatim>\<open>of_list_t\<close>) interpret it.
\<close>

locale node_seq =
  fixes rep :: "'s \<Rightarrow> addr list \<Rightarrow> bool"
    and ready :: "'s \<Rightarrow> addr \<Rightarrow> bool"
    and app :: "addr \<Rightarrow> 's \<Rightarrow> 's option"
    and rem :: "addr \<Rightarrow> 's \<Rightarrow> 's option"
  assumes rep_distinct: "rep s xs \<Longrightarrow> distinct xs"
    and app_rep: "rep s xs \<Longrightarrow> n \<notin> set xs \<Longrightarrow> ready s n \<Longrightarrow> \<exists>s'. app n s = Some s' \<and> rep s' (xs @ [n])"
    and app_ready: "rep s xs \<Longrightarrow> app n s = Some s' \<Longrightarrow> ready s m \<Longrightarrow> m \<noteq> n \<Longrightarrow> m \<notin> set xs \<Longrightarrow> ready s' m"
    and rem_rep: "rep s xs \<Longrightarrow> n \<in> set xs \<Longrightarrow> \<exists>s'. rem n s = Some s' \<and> rep s' (remove1 n xs)"
begin

text \<open>Appending a list of nodes one after the other.\<close>

primrec app_all :: "addr list \<Rightarrow> 's \<Rightarrow> 's option" where
  "app_all [] s = Some s"
| "app_all (n # ns) s = Option.bind (app n s) (app_all ns)"

lemma app_all_rep:
  "rep s xs \<Longrightarrow> distinct (xs @ ns) \<Longrightarrow> \<forall>n \<in> set ns. ready s n \<Longrightarrow>
   \<exists>s'. app_all ns s = Some s' \<and> rep s' (xs @ ns)"
proof (induction ns arbitrary: s xs)
  case (Cons n ns)
  have n: "n \<notin> set xs" "ready s n" using Cons.prems by auto
  obtain s1 where s1: "app n s = Some s1" "rep s1 (xs @ [n])"
    using app_rep[OF Cons.prems(1) n] by blast
  have "\<forall>m \<in> set ns. ready s1 m"
    using Cons.prems app_ready[OF Cons.prems(1) s1(1)] by auto
  then show ?case
    using Cons.IH[OF s1(2)] Cons.prems(2) s1(1) by auto
qed simp

lemma app_then_rem:
  assumes "rep s xs" "n \<notin> set xs" "ready s n"
  shows "\<exists>s' s''. app n s = Some s' \<and> rem n s' = Some s'' \<and> rep s'' xs"
proof -
  obtain s' where s': "app n s = Some s'" "rep s' (xs @ [n])"
    using app_rep[OF assms] by blast
  moreover have "remove1 n (xs @ [n]) = xs"
    using assms(2) by (simp add: remove1_append)
  ultimately show ?thesis
    using rem_rep[OF s'(2), of n] by auto
qed

text \<open>Unlinking every node, in any order, leaves the empty sequence.\<close>

primrec rem_all :: "addr list \<Rightarrow> 's \<Rightarrow> 's option" where
  "rem_all [] s = Some s"
| "rem_all (n # ns) s = Option.bind (rem n s) (rem_all ns)"

lemma rem_all_rep:
  "rep s xs \<Longrightarrow> mset ns = mset xs \<Longrightarrow> \<exists>s'. rem_all ns s = Some s' \<and> rep s' []"
proof (induction ns arbitrary: s xs)
  case (Cons n ns)
  have n: "n \<in> set xs" using Cons.prems(2) by (metis list.set_intros(1) set_mset_mset)
  obtain s1 where s1: "rem n s = Some s1" "rep s1 (remove1 n xs)"
    using rem_rep[OF Cons.prems(1) n] by blast
  have "mset ns = mset (remove1 n xs)"
    using Cons.prems(2) n by (metis add_mset_remove_trivial mset.simps(2) mset_remove1)
  then show ?case using Cons.IH[OF s1(2)] s1(1) by auto
qed auto

end

end
