(* ===== verification/Sll.thy ===== *)
theory Sll
  imports Node_Seq
begin

text \<open>
  The singly linked list with an embedded head node of \<^verbatim>\<open>utils/sll.c\<close> and \<^verbatim>\<open>sll.h\<close>. The
  list structure is passed by value, so the checks for a NULL list pointer have no counterpart; a NULL
  previous node stands for the embedded head as in the code.
\<close>

section \<open>State and operations\<close>

text \<open>\<^verbatim>\<open>struct cntlr_sll_q\<close>: the next pointer of the embedded head, the tail and the count.\<close>

record sll_q =
  sq_head :: ptr
  sq_tail :: ptr
  sq_count :: u32

type_synonym sll_st = "links \<times> sll_q"

definition cntrl_sll_q_init_list :: "sll_st \<Rightarrow> sll_st" where
  "cntrl_sll_q_init_list = (\<lambda>(nx, l). (nx, \<lparr>sq_head = None, sq_tail = None, sq_count = 0\<rparr>))"

definition cntrl_sll_q_insert_node :: "ptr \<Rightarrow> addr \<Rightarrow> ptr \<Rightarrow> sll_st \<Rightarrow> sll_st" where
  "cntrl_sll_q_insert_node prev n next = (\<lambda>(nx, l).
    let nx1 = nx(n := next);
        (nx2, l1) = (case prev of None \<Rightarrow> (nx1, l\<lparr>sq_head := Some n\<rparr>)
                     | Some p \<Rightarrow> (nx1(p := Some n), l));
        l2 = (if next = None then l1\<lparr>sq_tail := Some n\<rparr> else l1)
    in (nx2, l2\<lparr>sq_count := sq_count l2 + 1\<rparr>))"

definition cntrl_sll_q_append_node :: "addr \<Rightarrow> sll_st \<Rightarrow> sll_st" where
  "cntrl_sll_q_append_node n s = cntrl_sll_q_insert_node (sq_tail (snd s)) n None s"

definition cntrl_sll_q_prepend_node :: "addr \<Rightarrow> sll_st \<Rightarrow> sll_st" where
  "cntrl_sll_q_prepend_node n s = cntrl_sll_q_insert_node None n (sq_head (snd s)) s"

text \<open>The scanning loop of the deletion: \<open>Some (Some prev)\<close> when the node is found behind \<open>prev\<close>,
  \<open>Some None\<close> when the end of the list is reached first.\<close>

partial_function (option) sll_find :: "links \<Rightarrow> addr \<Rightarrow> ptr \<Rightarrow> ptr \<Rightarrow> ptr option option" where
  "sll_find nx n prev p = (if p = None then Some None
     else if p = Some n then Some (Some prev) else sll_find nx n p (nx (the p)))"

definition sll_unlink :: "ptr \<Rightarrow> addr \<Rightarrow> sll_st \<Rightarrow> sll_st" where
  "sll_unlink prev n = (\<lambda>(nx, l).
    let (nx1, l1) = (case prev of
          None \<Rightarrow> (nx, if sq_tail l = Some n then l\<lparr>sq_head := nx n, sq_tail := None\<rparr>
                       else l\<lparr>sq_head := nx n\<rparr>)
        | Some p \<Rightarrow> if sq_tail l = Some n then (nx(p := None), l\<lparr>sq_tail := Some p\<rparr>)
                     else (nx(p := nx n), l))
    in (nx1(n := None), l1\<lparr>sq_count := sq_count l1 - 1\<rparr>))"

definition cntrl_sll_q_delete_node :: "addr \<Rightarrow> sll_st \<Rightarrow> sll_st option" where
  "cntrl_sll_q_delete_node n = (\<lambda>(nx, l).
    if sq_count l = 0 then Some (nx, l)
    else case sll_find nx n None (sq_head l) of None \<Rightarrow> None
      | Some None \<Rightarrow> Some (nx, l)
      | Some (Some prev) \<Rightarrow> Some (sll_unlink prev n (nx, l)))"

definition cntrl_sll_q_delete_node_in_middle :: "ptr \<Rightarrow> addr \<Rightarrow> sll_st \<Rightarrow> sll_st option" where
  "cntrl_sll_q_delete_node_in_middle prev n = (\<lambda>(nx, l).
    if sq_count l = 0 then Some (nx, l)
    else case prev of None \<Rightarrow> cntrl_sll_q_delete_node n (nx, l)
      | Some p \<Rightarrow>
          if nx p \<noteq> Some n then cntrl_sll_q_delete_node n (nx, l)
          else let (nx1, l1) = (if sq_tail l = Some n then (nx(p := None), l\<lparr>sq_tail := Some p\<rparr>)
                                else (nx(p := nx n), l))
               in Some (nx1(n := None), l1\<lparr>sq_count := sq_count l1 - 1\<rparr>))"

definition cntrl_sll_q_pop_node :: "sll_st \<Rightarrow> (ptr \<times> sll_st) option" where
  "cntrl_sll_q_pop_node s = (case sq_head (snd s) of None \<Rightarrow> Some (None, s)
     | Some n \<Rightarrow> map_option (\<lambda>s'. (Some n, s')) (cntrl_sll_q_delete_node n s))"

text \<open>\<^verbatim>\<open>CNTLR_SLLQ_SCAN\<close> without an early exit: the nodes visited.\<close>

partial_function (option) sll_scan :: "links \<Rightarrow> ptr \<Rightarrow> addr list option" where
  "sll_scan nx p = (if p = None then Some []
     else Option.bind (sll_scan nx (nx (the p))) (\<lambda>xs. Some (the p # xs)))"

section \<open>Representation\<close>

definition sll_rep :: "sll_st \<Rightarrow> addr list \<Rightarrow> bool" where
  "sll_rep s xs \<longleftrightarrow> lseg (fst s) (sq_head (snd s)) xs None \<and> distinct xs \<and> (\<forall>x\<in>set xs. node_ok x) \<and>
     sq_tail (snd s) = last_ptr xs \<and> sq_count (snd s) = of_nat (length xs)"

text \<open>The first node of a sequence, NULL when it is empty.\<close>

definition start_ptr :: "addr list \<Rightarrow> ptr" where
  "start_ptr zs = (case zs of [] \<Rightarrow> None | z # _ \<Rightarrow> Some z)"

lemma sll_scan_rep: "lseg nx p xs None \<Longrightarrow> sll_scan nx p = Some xs"
  by (induction xs arbitrary: p) (simp_all add: sll_scan.simps[of _ None] sll_scan.simps[of _ "Some _"])

lemma sll_find_absent: "lseg nx p xs None \<Longrightarrow> n \<notin> set xs \<Longrightarrow> sll_find nx n prev p = Some None"
  by (induction xs arbitrary: p prev)
    (simp_all add: sll_find.simps[of _ _ _ None] sll_find.simps[of _ _ _ "Some _"])

lemma sll_find_present:
  "lseg nx p (ys @ n # zs) None \<Longrightarrow> n \<notin> set ys \<Longrightarrow>
   sll_find nx n prev p = Some (Some (if ys = [] then prev else last_ptr ys))"
proof (induction ys arbitrary: p prev)
  case (Cons y ys)
  have "sll_find nx n (Some y) (nx y) = Some (Some (if ys = [] then Some y else last_ptr ys))"
    by (rule Cons.IH) (use Cons.prems in auto)
  then show ?case
    using Cons.prems by (simp add: sll_find.simps[of _ _ _ "Some _"] last_ptr_def)
qed (simp add: sll_find.simps[of _ _ _ "Some _"])

lemma sll_append_rep:
  assumes "sll_rep s xs" "n \<notin> set xs" "node_ok n"
  shows "sll_rep (cntrl_sll_q_append_node n s) (xs @ [n])"
proof (cases xs rule: rev_cases)
  case Nil
  then show ?thesis using assms
    by (auto simp: sll_rep_def cntrl_sll_q_append_node_def cntrl_sll_q_insert_node_def
        split: prod.splits)
next
  case (snoc ys y)
  then show ?thesis using assms
    by (auto simp: sll_rep_def cntrl_sll_q_append_node_def cntrl_sll_q_insert_node_def lseg_append
        last_ptr_append
        split: prod.splits)
qed

lemma sll_prepend_rep:
  assumes "sll_rep s xs" "n \<notin> set xs" "node_ok n"
  shows "sll_rep (cntrl_sll_q_prepend_node n s) (n # xs)"
  using assms
  by (cases xs) (auto simp: sll_rep_def cntrl_sll_q_prepend_node_def cntrl_sll_q_insert_node_def
        add.commute split: prod.splits)

lemma sll_insert_rep:
  assumes "sll_rep s (ys @ zs)" "n \<notin> set (ys @ zs)" "node_ok n"
  shows "sll_rep (cntrl_sll_q_insert_node (last_ptr ys) n (start_ptr zs) s) (ys @ n # zs)"
proof -
  obtain nx l where s: "s = (nx, l)" by (cases s)
  have r: "lseg nx (sq_head l) (ys @ zs) None" "distinct (ys @ zs)" "\<forall>x\<in>set (ys @ zs). node_ok x"
    "sq_tail l = last_ptr (ys @ zs)" "sq_count l = of_nat (length (ys @ zs))"
    using assms(1) by (simp_all add: sll_rep_def s)
  have tail: "last_ptr (ys @ n # zs) = (if zs = [] then Some n else last_ptr (ys @ zs))"
    by (cases zs rule: rev_cases) (simp_all add: last_ptr_def)
  have start: "start_ptr [] = None" "start_ptr zs = None \<longleftrightarrow> zs = []" by (simp_all add: start_ptr_def split: list.split)
  have z: "lseg (nx(n := start_ptr zs)) (start_ptr zs) zs None" if "lseg nx q zs None" for q
    using that assms(2) lseg_start[OF that] by (cases zs) (simp_all add: start_ptr_def)
  show ?thesis
  proof (cases ys rule: rev_cases)
    case Nil
    have "lseg (nx(n := start_ptr zs)) (start_ptr zs) zs None" using z r(1) Nil by simp
    then show ?thesis using r assms(2,3) Nil tail start
      by (simp add: sll_rep_def cntrl_sll_q_insert_node_def s last_ptr_def add.commute)
  next
    case (snoc ws w)
    have p: "lseg nx (sq_head l) ws (Some w)" "lseg nx (nx w) zs None" "w \<notin> set ws" "w \<notin> set zs" "n \<noteq> w" "n \<notin> set ws"
      using r(1,2) assms(2) snoc by (auto simp: lseg_append)
    have "lseg (nx(n := start_ptr zs, w := Some n)) (sq_head l) ws (Some w)" using p by simp
    moreover have "lseg (nx(n := start_ptr zs, w := Some n)) (start_ptr zs) zs None" using z[OF p(2)] p(4) by simp
    ultimately have "lseg (nx(n := start_ptr zs, w := Some n)) (sq_head l) (ys @ n # zs) None"
      using p(5) snoc by (auto simp: lseg_append)
    then show ?thesis using r assms(2,3) snoc tail start
      by (auto simp: sll_rep_def cntrl_sll_q_insert_node_def s last_ptr_def)
  qed
qed

lemma sll_unlink_rep:
  assumes "sll_rep s (ys @ n # zs)"
  shows "sll_rep (sll_unlink (last_ptr ys) n s) (ys @ zs)"
proof -
  obtain nx l where s: "s = (nx, l)" by (cases s)
  have r: "lseg nx (sq_head l) (ys @ n # zs) None" "distinct (ys @ n # zs)"
    "sq_tail l = last_ptr (ys @ n # zs)" "sq_count l = of_nat (length (ys @ n # zs))"
    "\<forall>x\<in>set (ys @ n # zs). node_ok x"
    using assms by (auto simp: sll_rep_def s)
  have nz: "sq_tail l = Some n \<longleftrightarrow> zs = []"
    using r(2,3) by (cases zs rule: rev_cases) (auto simp: last_ptr_append)
  have cnt: "sq_count l - 1 = of_nat (length (ys @ zs))"
    using r(4) by simp
  show ?thesis
  proof (cases ys rule: rev_cases)
    case Nil
    then show ?thesis
      using r nz cnt by (cases zs) (auto simp: sll_rep_def sll_unlink_def s last_ptr_def)
  next
    case (snoc ws w)
    then show ?thesis
      using r nz cnt
      by (auto simp: sll_rep_def sll_unlink_def s lseg_append last_ptr_append)
  qed
qed

lemma sll_delete_rep:
  assumes "sll_rep s xs"
  shows "\<exists>s'. cntrl_sll_q_delete_node n s = Some s' \<and> sll_rep s' (remove1 n xs)"
proof (cases "n \<in> set xs")
  case True
  then obtain ys zs where xs: "xs = ys @ n # zs" "n \<notin> set ys"
    by (auto dest: split_list_first)
  obtain nx l where s: "s = (nx, l)" by (cases s)
  have "lseg nx (sq_head l) (ys @ n # zs) None" "sq_count l = of_nat (length xs)"
    using assms by (auto simp: sll_rep_def s xs)
  moreover have "sq_count l \<noteq> 0"
    using xs(1) count_zero_iff[of xs] assms by (auto simp: sll_rep_def s)
  ultimately have "cntrl_sll_q_delete_node n s = Some (sll_unlink (last_ptr ys) n s)"
    using sll_find_present[of nx "sq_head l" ys n zs None] xs(2)
    by (auto simp: cntrl_sll_q_delete_node_def s)
  then show ?thesis
    using sll_unlink_rep[of s ys n zs] assms xs by (simp add: remove1_append)
next
  case False
  then show ?thesis
    using assms sll_find_absent[of "fst s" "sq_head (snd s)" xs n None]
    by (auto simp: cntrl_sll_q_delete_node_def sll_rep_def remove1_idem split: prod.splits)
qed


lemma sll_delete_in_middle_rep:
  assumes "sll_rep s xs" "\<forall>p. prev = Some p \<longrightarrow> p \<in> set xs"
  shows "\<exists>s'. cntrl_sll_q_delete_node_in_middle prev n s = Some s' \<and> sll_rep s' (remove1 n xs)"
proof (cases "sq_count (snd s) = 0 \<or> prev = None \<or> (\<exists>p. prev = Some p \<and> fst s p \<noteq> Some n)")
  case True
  moreover have "cntrl_sll_q_delete_node n s = Some s \<and> remove1 n xs = xs" if "sq_count (snd s) = 0"
    using that count_zero_iff[of xs] assms(1)
    by (auto simp: cntrl_sll_q_delete_node_def sll_rep_def split: prod.splits)
  ultimately show ?thesis
    using sll_delete_rep[OF assms(1), of n] assms(1)
    by (cases s) (auto simp: cntrl_sll_q_delete_node_in_middle_def)
next
  case False
  then obtain p where p: "prev = Some p" "fst s p = Some n" "sq_count (snd s) \<noteq> 0" by auto
  obtain ws zs' where "xs = ws @ p # zs'"
    using assms(2) p(1) by (auto dest: split_list)
  moreover from this obtain zs where "zs' = n # zs"
    using assms(1) p(2) by (cases zs') (auto simp: sll_rep_def lseg_append)
  ultimately have xs: "xs = (ws @ [p]) @ n # zs" by simp
  have "cntrl_sll_q_delete_node_in_middle prev n s = Some (sll_unlink (Some p) n s)"
    using p by (cases s) (simp add: cntrl_sll_q_delete_node_in_middle_def sll_unlink_def)
  moreover have "n \<notin> set (ws @ [p])"
    using assms(1) xs by (auto simp: sll_rep_def)
  ultimately show ?thesis
    using sll_unlink_rep[of s "ws @ [p]" n zs] assms(1) xs by (simp add: remove1_append)
qed

lemma sll_pop_rep:
  assumes "sll_rep s xs"
  shows "\<exists>s'. cntrl_sll_q_pop_node s = Some (case xs of [] \<Rightarrow> None | x # _ \<Rightarrow> Some x, s') \<and>
    sll_rep s' (tl xs)"
proof -
  have "sq_head (snd s) = (case xs of [] \<Rightarrow> None | x # _ \<Rightarrow> Some x)"
    using assms lseg_start by (auto simp: sll_rep_def)
  then show ?thesis
    using assms sll_delete_rep[OF assms, of "hd xs"]
    by (cases xs) (auto simp: cntrl_sll_q_pop_node_def)
qed

section \<open>The list implements the node sequence contract\<close>

interpretation sllq: node_seq sll_rep "\<lambda>s. node_ok" "\<lambda>n s. Some (cntrl_sll_q_append_node n s)"
  cntrl_sll_q_delete_node
proof unfold_locales
  show "sll_rep s xs \<Longrightarrow> distinct xs" for s xs by (simp add: sll_rep_def)
  show "\<exists>s'. cntrl_sll_q_delete_node n s = Some s' \<and> sll_rep s' (remove1 n xs)"
    if "sll_rep s xs" for s xs n by (rule sll_delete_rep[OF that])
qed (auto intro: sll_append_rep)

section \<open>Properties\<close>

text \<open>C39: every operation of the list does to the sequence it represents what its name says: init,
  append, prepend, insert between any two neighbours (between two nodes in the middle, before the first,
  behind the last, or into the empty list, where the missing neighbour is passed as NULL), delete (of a node that may be absent), delete with a hint for the previous node (any
  node of the list, or NULL) and pop; the scan visits the nodes in order. None of them gets stuck.\<close>

theorem sll_refines_sequence:
  assumes "sll_rep s xs" "node_ok n" "n \<notin> set xs" "\<forall>p. prev = Some p \<longrightarrow> p \<in> set xs"
  shows "sll_rep (cntrl_sll_q_init_list s) [] \<and>
    sll_rep (cntrl_sll_q_append_node n s) (xs @ [n]) \<and>
    sll_rep (cntrl_sll_q_prepend_node n s) (n # xs) \<and>
    (\<forall>ys zs. xs = ys @ zs \<longrightarrow>
      sll_rep (cntrl_sll_q_insert_node (last_ptr ys) n (start_ptr zs) s) (ys @ n # zs)) \<and>
    (\<exists>s'. cntrl_sll_q_delete_node m s = Some s' \<and> sll_rep s' (remove1 m xs)) \<and>
    (\<exists>s'. cntrl_sll_q_delete_node_in_middle prev m s = Some s' \<and> sll_rep s' (remove1 m xs)) \<and>
    (\<exists>s'. cntrl_sll_q_pop_node s = Some (case xs of [] \<Rightarrow> None | x # _ \<Rightarrow> Some x, s') \<and>
      sll_rep s' (tl xs)) \<and>
    sll_scan (fst s) (sq_head (snd s)) = Some xs"
proof -
  have "sll_rep (cntrl_sll_q_init_list s) []"
    by (simp add: sll_rep_def cntrl_sll_q_init_list_def split: prod.splits)
  moreover have "sll_scan (fst s) (sq_head (snd s)) = Some xs"
    using assms(1) sll_scan_rep by (simp add: sll_rep_def)
  moreover have "sll_rep (cntrl_sll_q_insert_node (last_ptr ys) n (start_ptr zs) s) (ys @ n # zs)"
    if "xs = ys @ zs" for ys zs
    using sll_insert_rep[of s ys zs n] assms that by simp
  ultimately show ?thesis
    using sll_append_rep[OF assms(1,3,2)] sll_prepend_rep[OF assms(1,3,2)]
      sll_delete_rep[OF assms(1), of m] sll_delete_in_middle_rep[OF assms(1,4), of m]
      sll_pop_rep[OF assms(1)] by blast
qed

theorem sll_refines_sequence_witness:
  "let s = cntrl_sll_q_insert_node (Some 7) 11 (Some 9) (cntrl_sll_q_append_node 9 (cntrl_sll_q_append_node 7
     (\<lambda>_. None, \<lparr>sq_head = None, sq_tail = None, sq_count = 0\<rparr>)))
   in sll_scan (fst s) (sq_head (snd s)) = Some [7, 11, 9] \<and>
     (\<exists>s'. cntrl_sll_q_delete_node 7 s = Some s' \<and> sll_rep s' [11, 9])"
proof -
  let ?s = "(\<lambda>_. None, \<lparr>sq_head = None, sq_tail = None, sq_count = 0\<rparr>) :: sll_st"
  have 0: "sll_rep ?s []" by (simp add: sll_rep_def)
  have 1: "sll_rep (cntrl_sll_q_append_node 7 ?s) [7]"
    using sll_refines_sequence[OF 0, of 7 None] by (simp add: node_ok_def)
  have 2: "sll_rep (cntrl_sll_q_append_node 9 (cntrl_sll_q_append_node 7 ?s)) [7, 9]"
    using sll_refines_sequence[OF 1, of 9 None] by (simp add: node_ok_def)
  have n: "node_ok 11" "11 \<notin> set [7, 9 :: addr]" "\<forall>p. None = Some p \<longrightarrow> p \<in> set [7, 9 :: addr]"
    by (simp_all add: node_ok_def)
  have "\<forall>ys zs. [7, 9] = ys @ zs \<longrightarrow> sll_rep (cntrl_sll_q_insert_node (last_ptr ys) 11 (start_ptr zs)
      (cntrl_sll_q_append_node 9 (cntrl_sll_q_append_node 7 ?s))) (ys @ 11 # zs)"
    using sll_refines_sequence[OF 2 n, of 0] by (elim conjE)
  from this[rule_format, of "[7]" "[9]"]
  have 3: "sll_rep (cntrl_sll_q_insert_node (Some 7) 11 (Some 9)
      (cntrl_sll_q_append_node 9 (cntrl_sll_q_append_node 7 ?s))) [7, 11, 9]"
    by (simp add: last_ptr_def start_ptr_def)
  have m: "node_ok 13" "13 \<notin> set [7, 11, 9 :: addr]" "\<forall>p. None = Some p \<longrightarrow> p \<in> set [7, 11, 9 :: addr]"
    by (simp_all add: node_ok_def)
  show ?thesis
    unfolding Let_def using sll_refines_sequence[OF 3 m, of 7] by (elim conjE exE) (rule conjI, assumption, rule exI, rule conjI, assumption, simp)
qed

lemma sll_app_all_fold: "sllq.app_all ns s = Some (fold cntrl_sll_q_append_node ns s)"
  by (induction ns arbitrary: s) auto

text \<open>Appending any list of distinct new nodes one by one yields the old sequence followed by
  them, and deleting the nodes of a list one by one in any order empties it.\<close>

theorem sll_append_all_delete_all:
  assumes "sll_rep s xs" "distinct (xs @ ns)" "\<forall>n\<in>set ns. node_ok n" "mset ds = mset (xs @ ns)"
  shows "sll_rep (fold cntrl_sll_q_append_node ns s) (xs @ ns) \<and>
    (\<exists>s2. sllq.rem_all ds (fold cntrl_sll_q_append_node ns s) = Some s2 \<and> sll_rep s2 [])"
  using sllq.app_all_rep[OF assms(1,2,3)] sllq.rem_all_rep[OF _ assms(4)]
  by (auto simp: sll_app_all_fold)

theorem sll_append_all_delete_all_witness:
  "sll_rep (fold cntrl_sll_q_append_node [4, 2, 6]
     (\<lambda>_. None, \<lparr>sq_head = None, sq_tail = None, sq_count = 0\<rparr>)) [4, 2, 6]"
proof -
  have "sll_rep (\<lambda>_. None, \<lparr>sq_head = None, sq_tail = None, sq_count = 0\<rparr>) []"
    by (simp add: sll_rep_def)
  from sll_append_all_delete_all[OF this, of "[4, 2, 6]" "[2, 6, 4]"] show ?thesis
    by (simp add: node_ok_def)
qed

end
