(* ===== verification/Of_List.thy ===== *)
theory Of_List
  imports Node_Seq
begin

text \<open>
  The intrusive RCU list \<^verbatim>\<open>of_list_t\<close> of \<^verbatim>\<open>cntlr_list.h\<close>, whose operations are macros: the
  node handed to a macro is embedded in a larger object, whose address it is identified with. The
  list carries its mutex; a macro that is entered while the mutex is held by the caller blocks for
  ever. When a free callback is set, an unlinked node is handed to \<^verbatim>\<open>call_rcu\<close>; the model collects
  these nodes.
\<close>

section \<open>State\<close>

record of_list =
  ol_head :: ptr
  ol_tail :: ptr
  ol_count :: u32
  ol_lock :: bool
  ol_free_cbk :: bool

text \<open>The links of all nodes, the list and the nodes queued for their RCU callback.\<close>

type_synonym of_list_st = "links \<times> of_list \<times> addr list"

section \<open>Operations\<close>

definition OF_LIST_INIT :: "bool \<Rightarrow> of_list_st \<Rightarrow> of_list_st" where
  "OF_LIST_INIT cbk = (\<lambda>(nx, l, rcu).
     (nx, \<lparr>ol_head = None, ol_tail = None, ol_count = 0, ol_lock = False, ol_free_cbk = cbk\<rparr>, rcu))"

definition OF_APPEND_NODE_TO_LIST :: "addr \<Rightarrow> of_list_st \<Rightarrow> of_list_st option" where
  "OF_APPEND_NODE_TO_LIST n = (\<lambda>(nx, l, rcu).
    if ol_lock l then None
    else if ol_head l = None
    then Some (nx, l\<lparr>ol_head := Some n, ol_tail := Some n, ol_count := ol_count l + 1\<rparr>, rcu)
    else case ol_tail l of None \<Rightarrow> None
      | Some t \<Rightarrow> Some (nx(t := Some n), l\<lparr>ol_tail := Some n, ol_count := ol_count l + 1\<rparr>, rcu))"

definition OF_LIST_INSERT_NODE :: "ptr \<Rightarrow> addr \<Rightarrow> ptr \<Rightarrow> of_list_st \<Rightarrow> of_list_st option" where
  "OF_LIST_INSERT_NODE prev n next = (\<lambda>(nx, l, rcu).
    if ol_lock l then None
    else let (nx1, l1) = (case prev of None \<Rightarrow> (nx, l\<lparr>ol_head := Some n\<rparr>)
                          | Some p \<Rightarrow> (nx(p := Some n), l));
             (nx2, l2) = (if next = None then (nx1, l1\<lparr>ol_tail := Some n\<rparr>)
                          else (nx1(n := next), l1))
         in Some (nx2, l2, rcu))"

text \<open>With a count other than one, a NULL previous node is only usable for a head node that is not
  the tail.\<close>

definition OF_REMOVE_NODE_FROM_LIST :: "addr \<Rightarrow> ptr \<Rightarrow> of_list_st \<Rightarrow> of_list_st option" where
  "OF_REMOVE_NODE_FROM_LIST n prev = (\<lambda>(nx, l, rcu).
    if ol_lock l then None
    else Option.bind
      (if ol_count l = 1 then Some (nx, l\<lparr>ol_head := None, ol_tail := None\<rparr>)
       else Option.bind
         (if ol_head l = Some n then Some (nx, l\<lparr>ol_head := nx n\<rparr>)
          else case prev of None \<Rightarrow> None | Some p \<Rightarrow> Some (nx(p := nx n), l))
         (\<lambda>(nx1, l1). if ol_tail l1 = Some n
           then (case prev of None \<Rightarrow> None | Some p \<Rightarrow> Some (nx1, l1\<lparr>ol_tail := Some p\<rparr>))
           else Some (nx1, l1)))
      (\<lambda>(nx2, l2). Some (nx2, l2\<lparr>ol_count := ol_count l2 - 1\<rparr>,
         if ol_free_cbk l then rcu @ [n] else rcu)))"

text \<open>\<^verbatim>\<open>OF_LIST_SCAN\<close> without an early exit, and the search loop that scans for a node with a
  property and remembers the node before it.\<close>

partial_function (option) OF_LIST_SCAN :: "links \<Rightarrow> ptr \<Rightarrow> addr list option" where
  "OF_LIST_SCAN nx p = (if p = None then Some []
     else Option.bind (OF_LIST_SCAN nx (nx (the p))) (\<lambda>xs. Some (the p # xs)))"

partial_function (option) of_list_search ::
  "links \<Rightarrow> (addr \<Rightarrow> bool) \<Rightarrow> ptr \<Rightarrow> ptr \<Rightarrow> (ptr \<times> ptr) option" where
  "of_list_search nx P prev p = (if p = None then Some (prev, None)
     else if P (the p) then Some (prev, p) else of_list_search nx P p (nx (the p)))"

text \<open>One round of \<^verbatim>\<open>OF_LIST_REMOVE_HEAD_AND_SCAN\<close> after its body, and the loop: the visited nodes
  and the nodes handed to \<^verbatim>\<open>of_mem_free\<close>.\<close>

definition of_list_drop_head :: "of_list_st \<times> addr list \<Rightarrow> (of_list_st \<times> addr list) option" where
  "of_list_drop_head = (\<lambda>((nx, l, rcu), freed). case ol_head l of None \<Rightarrow> None
    | Some n \<Rightarrow>
      if ol_lock l then None
      else let l1 = l\<lparr>ol_head := nx n\<rparr>;
               l2 = (if ol_tail l1 = Some n then l1\<lparr>ol_tail := None\<rparr> else l1);
               l3 = l2\<lparr>ol_count := ol_count l2 - 1\<rparr>
           in if ol_free_cbk l3 then Some ((nx, l3, rcu @ [n]), freed)
              else Some ((nx, l3, rcu), freed @ [n]))"

partial_function (option) OF_LIST_REMOVE_HEAD_AND_SCAN ::
  "of_list_st \<times> addr list \<Rightarrow> (of_list_st \<times> addr list) option" where
  "OF_LIST_REMOVE_HEAD_AND_SCAN c = (if ol_head (fst (snd (fst c))) = None then Some c
     else Option.bind (of_list_drop_head c) OF_LIST_REMOVE_HEAD_AND_SCAN)"

section \<open>Abstract list and its representation\<close>

text \<open>The abstract value of a list: the sequence of its nodes and the value of its counter, which the
  code does not always keep equal to the length.\<close>

definition ol_rep :: "of_list_st \<Rightarrow> addr list \<Rightarrow> bool" where
  "ol_rep s xs \<longleftrightarrow> (case s of (nx, l, rcu) \<Rightarrow> lseg nx (ol_head l) xs None \<and> distinct xs \<and>
     (\<forall>x\<in>set xs. node_ok x) \<and> ol_tail l = last_ptr xs \<and> \<not> ol_lock l)"

definition ol_cnt :: "of_list_st \<Rightarrow> u32" where "ol_cnt s = ol_count (fst (snd s))"

definition ol_exact :: "of_list_st \<Rightarrow> addr list \<Rightarrow> bool" where
  "ol_exact s xs \<longleftrightarrow> ol_rep s xs \<and> ol_cnt s = of_nat (length xs)"

text \<open>What the macros do to the sequence of nodes, as functions of the counter.\<close>

definition olist_remove :: "addr \<Rightarrow> u32 \<Rightarrow> addr list \<Rightarrow> addr list" where
  "olist_remove n c xs = (if c = 1 then [] else remove1 n xs)"

lemma OF_LIST_SCAN_rep: "lseg nx p xs None \<Longrightarrow> OF_LIST_SCAN nx p = Some xs"
  by (induction xs arbitrary: p)
    (simp_all add: OF_LIST_SCAN.simps[of _ None] OF_LIST_SCAN.simps[of _ "Some _"])

lemma of_list_search_absent:
  "lseg nx p xs None \<Longrightarrow> \<forall>x\<in>set xs. \<not> P x \<Longrightarrow>
   of_list_search nx P prev p = Some (if xs = [] then prev else last_ptr xs, None)"
proof (induction xs arbitrary: p prev)
  case (Cons x xs)
  have "of_list_search nx P (Some x) (nx x) = Some (if xs = [] then Some x else last_ptr xs, None)"
    by (rule Cons.IH) (use Cons.prems in auto)
  then show ?case
    using Cons.prems by (simp add: of_list_search.simps[of _ _ _ "Some _"] last_ptr_def)
qed (simp add: of_list_search.simps[of _ _ _ None])

lemma of_list_search_present:
  "lseg nx p (ys @ n # zs) None \<Longrightarrow> \<forall>y\<in>set ys. \<not> P y \<Longrightarrow> P n \<Longrightarrow>
   of_list_search nx P prev p = Some (if ys = [] then prev else last_ptr ys, Some n)"
proof (induction ys arbitrary: p prev)
  case (Cons y ys)
  have "of_list_search nx P (Some y) (nx y) = Some (if ys = [] then Some y else last_ptr ys, Some n)"
    by (rule Cons.IH) (use Cons.prems in auto)
  then show ?case
    using Cons.prems by (simp add: of_list_search.simps[of _ _ _ "Some _"] last_ptr_def)
qed (simp add: of_list_search.simps[of _ _ _ "Some _"])

lemma ol_append:
  assumes "ol_rep s xs" "n \<notin> set xs" "node_ok n" "fst s n = None"
  shows "\<exists>s'. OF_APPEND_NODE_TO_LIST n s = Some s' \<and> ol_rep s' (xs @ [n]) \<and> ol_cnt s' = ol_cnt s + 1 \<and>
    snd (snd s') = snd (snd s) \<and> (\<forall>m. m \<notin> set xs \<longrightarrow> fst s' m = fst s m) \<and>
    ol_free_cbk (fst (snd s')) = ol_free_cbk (fst (snd s))"
proof (cases xs rule: rev_cases)
  case Nil
  then show ?thesis using assms
    by (auto simp: ol_rep_def OF_APPEND_NODE_TO_LIST_def ol_cnt_def split: prod.splits)
next
  case (snoc ys y)
  have "ol_head (fst (snd s)) \<noteq> None"
    using assms(1) snoc by (cases ys) (auto simp: ol_rep_def split: prod.splits)
  then show ?thesis using assms snoc
    by (auto simp: ol_rep_def OF_APPEND_NODE_TO_LIST_def ol_cnt_def lseg_append last_ptr_append
        split: prod.splits)
qed

lemma ol_insert:
  assumes "ol_rep s (ys @ z # zs)" "n \<notin> set (ys @ z # zs)" "node_ok n"
  shows "\<exists>s'. OF_LIST_INSERT_NODE (last_ptr ys) n (Some z) s = Some s' \<and>
    ol_rep s' (ys @ n # z # zs) \<and> ol_cnt s' = ol_cnt s \<and> snd (snd s') = snd (snd s) \<and>
    (\<forall>m. m \<notin> set ys \<longrightarrow> m \<noteq> n \<longrightarrow> fst s' m = fst s m) \<and>
    ol_free_cbk (fst (snd s')) = ol_free_cbk (fst (snd s))"
proof (cases ys rule: rev_cases)
  case Nil
  then show ?thesis using assms
    by (auto simp: ol_rep_def OF_LIST_INSERT_NODE_def ol_cnt_def last_ptr_def split: prod.splits)
next
  case (snoc ws w)
  then show ?thesis using assms
    by (auto simp: ol_rep_def OF_LIST_INSERT_NODE_def ol_cnt_def lseg_append last_ptr_append
        split: prod.splits)
qed

lemma ol_remove_one:
  assumes "ol_rep s xs" "ol_cnt s = 1"
  shows "\<exists>s'. OF_REMOVE_NODE_FROM_LIST n prev s = Some s' \<and> ol_rep s' [] \<and> ol_cnt s' = 0 \<and>
    snd (snd s') = (if ol_free_cbk (fst (snd s)) then snd (snd s) @ [n] else snd (snd s)) \<and>
    fst s' = fst s \<and> ol_free_cbk (fst (snd s')) = ol_free_cbk (fst (snd s))"
  using assms
  by (auto simp: ol_rep_def OF_REMOVE_NODE_FROM_LIST_def ol_cnt_def split: prod.splits)

lemma ol_remove_more:
  assumes "ol_rep s (ys @ n # zs)" "ol_cnt s \<noteq> 1" "ys @ zs \<noteq> []"
  shows "\<exists>s'. OF_REMOVE_NODE_FROM_LIST n (last_ptr ys) s = Some s' \<and> ol_rep s' (ys @ zs) \<and>
    ol_cnt s' = ol_cnt s - 1 \<and>
    snd (snd s') = (if ol_free_cbk (fst (snd s)) then snd (snd s) @ [n] else snd (snd s)) \<and>
    (\<forall>m. m \<notin> set ys \<longrightarrow> fst s' m = fst s m) \<and>
    ol_free_cbk (fst (snd s')) = ol_free_cbk (fst (snd s))"
proof -
  obtain nx l rcu where s: "s = (nx, l, rcu)" by (cases s)
  have r: "lseg nx (ol_head l) (ys @ n # zs) None" "distinct (ys @ n # zs)"
    "ol_tail l = last_ptr (ys @ n # zs)" "\<not> ol_lock l" "\<forall>x\<in>set (ys @ n # zs). node_ok x"
    using assms(1) by (auto simp: ol_rep_def s)
  have nz: "ol_tail l = Some n \<longleftrightarrow> zs = []"
    using r(2,3) by (cases zs rule: rev_cases) (auto simp: last_ptr_append)
  show ?thesis
  proof (cases ys rule: rev_cases)
    case Nil
    then show ?thesis using r nz assms(2,3)
      by (cases zs) (auto simp: ol_rep_def OF_REMOVE_NODE_FROM_LIST_def ol_cnt_def s last_ptr_def)
  next
    case (snoc ws w)
    have hd: "ol_head l \<noteq> Some n"
      using r(1,2) snoc by (cases ws) auto
    show ?thesis
      using r nz hd assms(2) snoc
      by (auto simp: ol_rep_def OF_REMOVE_NODE_FROM_LIST_def ol_cnt_def s lseg_append last_ptr_append)
  qed
qed

lemma ol_remove:
  assumes "ol_exact s (ys @ n # zs)"
  shows "\<exists>s'. OF_REMOVE_NODE_FROM_LIST n (last_ptr ys) s = Some s' \<and> ol_exact s' (ys @ zs) \<and>
    snd (snd s') = (if ol_free_cbk (fst (snd s)) then snd (snd s) @ [n] else snd (snd s)) \<and>
    (\<forall>m. m \<notin> set ys \<longrightarrow> fst s' m = fst s m) \<and>
    ol_free_cbk (fst (snd s')) = ol_free_cbk (fst (snd s))"
proof -
  have r: "ol_rep s (ys @ n # zs)" and c: "ol_cnt s = of_nat (length (ys @ n # zs))"
    using assms by (auto simp: ol_exact_def)
  have ok: "distinct (ys @ n # zs)" "\<forall>x\<in>set (ys @ n # zs). node_ok x"
    using r by (auto simp: ol_rep_def split: prod.splits)
  have "ol_cnt s = 1 \<longleftrightarrow> ys @ zs = []"
    unfolding c count_one_iff[OF ok] by (cases ys; cases zs) auto
  moreover have "ol_cnt s - 1 = of_nat (length (ys @ zs))" using c by simp
  ultimately show ?thesis
    using ol_remove_one[OF r, of n "last_ptr ys"] ol_remove_more[OF r]
    by (cases "ys @ zs = []") (auto simp: ol_exact_def)
qed

text \<open>The client pattern: scan for the first node with a property and unlink it; the result is the node
  found, if any.\<close>

definition of_list_remove_where :: "(addr \<Rightarrow> bool) \<Rightarrow> of_list_st \<Rightarrow> (ptr \<times> of_list_st) option" where
  "of_list_remove_where P s =
    Option.bind (of_list_search (fst s) P None (ol_head (fst (snd s))))
      (\<lambda>(prev, p). case p of None \<Rightarrow> Some (None, s)
        | Some n \<Rightarrow> map_option (\<lambda>s'. (Some n, s')) (OF_REMOVE_NODE_FROM_LIST n prev s))"

lemma of_list_remove_where_absent:
  assumes "ol_rep s xs" "\<forall>x\<in>set xs. \<not> P x"
  shows "of_list_remove_where P s = Some (None, s)"
proof -
  have "lseg (fst s) (ol_head (fst (snd s))) xs None"
    using assms(1) by (auto simp: ol_rep_def split: prod.splits)
  from of_list_search_absent[OF this assms(2), of None] show ?thesis
    by (simp add: of_list_remove_where_def)
qed

lemma of_list_remove_where_present:
  assumes "ol_rep s (ys @ n # zs)" "\<forall>y\<in>set ys. \<not> P y" "P n"
  shows "of_list_remove_where P s =
    map_option (\<lambda>s'. (Some n, s')) (OF_REMOVE_NODE_FROM_LIST n (last_ptr ys) s)"
proof -
  have "lseg (fst s) (ol_head (fst (snd s))) (ys @ n # zs) None"
    using assms(1) by (auto simp: ol_rep_def split: prod.splits)
  from of_list_search_present[OF this assms(2,3), of None] show ?thesis
    by (simp add: of_list_remove_where_def last_ptr_def)
qed

lemma of_list_remove_node:
  assumes "ol_exact s xs" "n \<in> set xs"
  shows "\<exists>s'. of_list_remove_where (\<lambda>m. m = n) s = Some (Some n, s') \<and> ol_exact s' (remove1 n xs)"
proof -
  obtain ys zs where xs: "xs = ys @ n # zs" "n \<notin> set ys"
    using assms(2) by (auto dest: split_list_first)
  have "ol_rep s (ys @ n # zs)" "\<forall>y\<in>set ys. y \<noteq> n" using assms(1) xs by (auto simp: ol_exact_def)
  from of_list_remove_where_present[OF this] ol_remove[of s ys n zs] assms(1) xs
  show ?thesis by (auto simp: remove1_append)
qed

section \<open>The list implements the node sequence contract\<close>

interpretation ofl: node_seq ol_exact "\<lambda>s n. node_ok n \<and> fst s n = None" OF_APPEND_NODE_TO_LIST
  "\<lambda>n s. map_option snd (of_list_remove_where (\<lambda>m. m = n) s)"
proof unfold_locales
  show "distinct xs" if "ol_exact s xs" for s xs
    using that by (auto simp: ol_exact_def ol_rep_def split: prod.splits)
  show "\<exists>s'. OF_APPEND_NODE_TO_LIST n s = Some s' \<and> ol_exact s' (xs @ [n])"
    if "ol_exact s xs" "n \<notin> set xs" "node_ok n \<and> fst s n = None" for s xs n
    using ol_append[of s xs n] that by (auto simp: ol_exact_def)
  show "node_ok m \<and> fst s' m = None"
    if "ol_exact s xs" "OF_APPEND_NODE_TO_LIST n s = Some s'" "node_ok m \<and> fst s m = None"
      "m \<noteq> n" "m \<notin> set xs" for s xs n s' m
  proof -
    have "fst s' m = fst s m"
    proof (cases "ol_head (fst (snd s)) = None")
      case True
      then show ?thesis using that(2)
        by (auto simp: OF_APPEND_NODE_TO_LIST_def split: prod.splits if_splits option.splits)
    next
      case False
      then have "ol_tail (fst (snd s)) \<noteq> Some m"
        using that(1,5) last_ptr_Some by (fastforce simp: ol_exact_def ol_rep_def split: prod.splits)
      then show ?thesis using that(2) False
        by (auto simp: OF_APPEND_NODE_TO_LIST_def split: prod.splits if_splits option.splits)
    qed
    then show ?thesis using that(3) by simp
  qed
  show "\<exists>s'. map_option snd (of_list_remove_where (\<lambda>m. m = n) s) = Some s' \<and> ol_exact s' (remove1 n xs)"
    if "ol_exact s xs" "n \<in> set xs" for s xs n
    using of_list_remove_node[OF that] by auto
qed

section \<open>Draining\<close>

lemma ol_drop_head:
  assumes "ol_exact s (x # xs)"
  shows "\<exists>s'. of_list_drop_head (s, fr) =
      Some (s', if ol_free_cbk (fst (snd s)) then fr else fr @ [x]) \<and>
    ol_exact s' xs \<and> ol_free_cbk (fst (snd s')) = ol_free_cbk (fst (snd s)) \<and>
    snd (snd s') = (if ol_free_cbk (fst (snd s)) then snd (snd s) @ [x] else snd (snd s))"
proof -
  obtain nx l rcu where s: "s = (nx, l, rcu)" by (cases s)
  have "ol_tail l = Some x \<longleftrightarrow> xs = []"
    using assms by (cases xs rule: rev_cases) (auto simp: ol_exact_def ol_rep_def s last_ptr_append)
  then show ?thesis
    using assms by (auto simp: of_list_drop_head_def ol_exact_def ol_rep_def ol_cnt_def s Let_def)
qed

lemma of_list_drain:
  "ol_exact s xs \<Longrightarrow>
   \<exists>s'. OF_LIST_REMOVE_HEAD_AND_SCAN (s, fr) =
      Some (s', if ol_free_cbk (fst (snd s)) then fr else fr @ xs) \<and> ol_exact s' [] \<and>
    snd (snd s') = (if ol_free_cbk (fst (snd s)) then snd (snd s) @ xs else snd (snd s))"
proof (induction xs arbitrary: s fr)
  case Nil
  then show ?case
    by (subst OF_LIST_REMOVE_HEAD_AND_SCAN.simps) (auto simp: ol_exact_def ol_rep_def split: prod.splits)
next
  case (Cons x xs)
  have ne: "ol_head (fst (snd s)) \<noteq> None"
    using Cons.prems by (auto simp: ol_exact_def ol_rep_def split: prod.splits)
  let ?fr = "if ol_free_cbk (fst (snd s)) then fr else fr @ [x]"
  obtain s' where s': "of_list_drop_head (s, fr) = Some (s', ?fr)" "ol_exact s' xs"
    "ol_free_cbk (fst (snd s')) = ol_free_cbk (fst (snd s))"
    "snd (snd s') = (if ol_free_cbk (fst (snd s)) then snd (snd s) @ [x] else snd (snd s))"
    using ol_drop_head[OF Cons.prems] by blast
  have "OF_LIST_REMOVE_HEAD_AND_SCAN (s, fr) = OF_LIST_REMOVE_HEAD_AND_SCAN (s', ?fr)"
    using s'(1) by (subst OF_LIST_REMOVE_HEAD_AND_SCAN.simps) (simp add: ne del: not_None_eq)
  then show ?case
    using Cons.IH[OF s'(2), of ?fr] s'(3,4) by auto
qed

lemma find_split: "List.find P xs = Some x \<Longrightarrow> \<exists>ys zs. xs = ys @ x # zs \<and> (\<forall>y\<in>set ys. \<not> P y) \<and> P x"
proof (induction xs)
  case (Cons a xs)
  show ?case
  proof (cases "P a")
    case True
    then show ?thesis using Cons.prems by (intro exI[of _ "[]"] exI[of _ xs]) auto
  next
    case False
    then obtain ys zs where "xs = ys @ x # zs" "\<forall>y\<in>set ys. \<not> P y" "P x"
      using Cons by auto
    then show ?thesis using False by (intro exI[of _ "a # ys"] exI[of _ zs]) auto
  qed
qed simp

section \<open>Properties\<close>

text \<open>C40: on a list whose counter equals its length, append adds the node at the end, removal of the
  node found by a scan unlinks the first node with the property and hands it to the RCU callback if
  one is set, and both keep the counter exact; the scan visits the nodes in order.\<close>

theorem of_list_refines_sequence:
  assumes "ol_exact s xs" "n \<notin> set xs" "node_ok n" "fst s n = None"
  shows "(\<exists>s'. OF_APPEND_NODE_TO_LIST n s = Some s' \<and> ol_exact s' (xs @ [n])) \<and>
    OF_LIST_SCAN (fst s) (ol_head (fst (snd s))) = Some xs \<and>
    (case List.find P xs of
       None \<Rightarrow> of_list_remove_where P s = Some (None, s)
     | Some x \<Rightarrow> \<exists>s'. of_list_remove_where P s = Some (Some x, s') \<and> ol_exact s' (remove1 x xs) \<and>
         snd (snd s') = (if ol_free_cbk (fst (snd s)) then snd (snd s) @ [x] else snd (snd s)))"
proof -
  have rep: "ol_rep s xs" using assms(1) by (simp add: ol_exact_def)
  have "OF_LIST_SCAN (fst s) (ol_head (fst (snd s))) = Some xs"
    using rep OF_LIST_SCAN_rep by (auto simp: ol_rep_def split: prod.splits)
  moreover have "\<exists>s'. of_list_remove_where P s = Some (Some x, s') \<and> ol_exact s' (remove1 x xs) \<and>
      snd (snd s') = (if ol_free_cbk (fst (snd s)) then snd (snd s) @ [x] else snd (snd s))"
    if f: "List.find P xs = Some x" for x
  proof -
    obtain ys zs where sp: "xs = ys @ x # zs" and P: "\<forall>y\<in>set ys. \<not> P y" "P x"
      using find_split[OF f] by blast
    then have "remove1 x xs = ys @ zs"
      by (auto simp: remove1_append)
    then show ?thesis
      using of_list_remove_where_present[OF rep[unfolded sp] P] ol_remove[OF assms(1)[unfolded sp]]
      by auto
  qed
  ultimately show ?thesis
    using ofl.app_rep[OF assms(1,2)] assms(3,4) of_list_remove_where_absent[OF rep, of P]
    by (auto simp: find_None_iff split: option.splits)
qed

theorem of_list_refines_sequence_witness:
  "\<exists>s'. OF_APPEND_NODE_TO_LIST 5 (OF_LIST_INIT True (\<lambda>_. None,
     \<lparr>ol_head = None, ol_tail = None, ol_count = 7, ol_lock = False, ol_free_cbk = False\<rparr>, [])) =
     Some s' \<and> ol_exact s' [5]"
proof -
  let ?s = "OF_LIST_INIT True (\<lambda>_. None,
     \<lparr>ol_head = None, ol_tail = None, ol_count = 7, ol_lock = False, ol_free_cbk = False\<rparr>, [])"
  have "ol_exact ?s []" by (simp add: OF_LIST_INIT_def ol_exact_def ol_rep_def ol_cnt_def)
  moreover have "fst ?s 5 = None" by (simp add: OF_LIST_INIT_def)
  ultimately show ?thesis
    using of_list_refines_sequence[of ?s "[]" 5 "\<lambda>_. True"] by (simp add: node_ok_def)
qed

text \<open>\<^verbatim>\<open>OF_LIST_INSERT_NODE\<close> links the node between its neighbours but does not count it. So after
  an insertion into a list of one node, removing either of the two nodes empties the list, and the
  other node is lost.\<close>

theorem of_list_insert_then_remove_loses:
  assumes "ol_exact s [a]" "n \<noteq> a" "node_ok n" "x \<in> {n, a}"
  shows "\<exists>s1 s2. OF_LIST_INSERT_NODE None n (Some a) s = Some s1 \<and> ol_rep s1 [n, a] \<and> ol_cnt s1 = 1 \<and>
    of_list_remove_where (\<lambda>y. y = x) s1 = Some (Some x, s2) \<and> ol_rep s2 [] \<and> ol_cnt s2 = 0"
proof -
  have "ol_rep s ([] @ a # [])" "ol_cnt s = 1" using assms(1) by (simp_all add: ol_exact_def)
  from ol_insert[OF this(1), of n] this(2) assms(2,3) obtain s1 where
    s1: "OF_LIST_INSERT_NODE None n (Some a) s = Some s1" "ol_rep s1 [n, a]" "ol_cnt s1 = 1"
    by auto
  have "of_list_remove_where (\<lambda>y. y = x) s1 = map_option (\<lambda>s'. (Some x, s'))
      (OF_REMOVE_NODE_FROM_LIST x (if x = n then None else Some n) s1)"
    using of_list_remove_where_present[of s1 "[]" n "[a]" "\<lambda>y. y = x"]
      of_list_remove_where_present[of s1 "[n]" a "[]" "\<lambda>y. y = x"] s1(2) assms(2,4)
    by auto
  then show ?thesis
    using s1 ol_remove_one[OF s1(2,3), of x "if x = n then None else Some n"] by auto
qed

theorem of_list_insert_then_remove_loses_witness:
  "\<exists>s1 s2. OF_LIST_INSERT_NODE None 8 (Some 3) (\<lambda>_. None,
     \<lparr>ol_head = Some 3, ol_tail = Some 3, ol_count = 1, ol_lock = False, ol_free_cbk = True\<rparr>, []) =
     Some s1 \<and> of_list_remove_where (\<lambda>y. y = 8) s1 = Some (Some 8, s2) \<and> ol_rep s2 []"
proof -
  let ?s = "(\<lambda>_. None,
     \<lparr>ol_head = Some 3, ol_tail = Some 3, ol_count = 1, ol_lock = False, ol_free_cbk = True\<rparr>, []) :: of_list_st"
  have "ol_exact ?s [3]" by (simp add: ol_exact_def ol_rep_def ol_cnt_def node_ok_def)
  from of_list_insert_then_remove_loses[OF this, of 8 8] show ?thesis
    by (auto simp: node_ok_def)
qed

text \<open>\<^verbatim>\<open>OF_LIST_REMOVE_HEAD_AND_SCAN\<close> terminates, visits every node once in order and leaves the
  list empty with a zero counter; each node is released exactly once, through the RCU callback if the
  list has one and through \<^verbatim>\<open>of_mem_free\<close> otherwise.\<close>

theorem of_list_drain_all:
  assumes "ol_exact s xs"
  shows "\<exists>s' freed. OF_LIST_REMOVE_HEAD_AND_SCAN (s, []) = Some (s', freed) \<and> ol_exact s' [] \<and>
    (if ol_free_cbk (fst (snd s)) then snd (snd s') = snd (snd s) @ xs \<and> freed = []
     else snd (snd s') = snd (snd s) \<and> freed = xs)"
  using of_list_drain[OF assms, of "[]"] by (cases "ol_free_cbk (fst (snd s))") auto

theorem of_list_drain_all_witness:
  "\<exists>s' freed. OF_LIST_REMOVE_HEAD_AND_SCAN (((\<lambda>_. None)(3 \<mapsto> 4),
     \<lparr>ol_head = Some 3, ol_tail = Some 4, ol_count = 2, ol_lock = False, ol_free_cbk = False\<rparr>, []), []) =
     Some (s', freed) \<and> freed = [3, 4]"
proof -
  let ?s = "((\<lambda>_. None)(3 \<mapsto> 4),
     \<lparr>ol_head = Some 3, ol_tail = Some 4, ol_count = 2, ol_lock = False, ol_free_cbk = False\<rparr>, []) :: of_list_st"
  have "ol_exact ?s [3, 4]" by (simp add: ol_exact_def ol_rep_def ol_cnt_def node_ok_def)
  from of_list_drain_all[OF this] show ?thesis by auto
qed

end
