(* ===== verification/Mheap.thy ===== *)
theory Mheap
  imports Ond_Prelude "HOL-Library.Multiset"
begin

text \<open>
  The memory pool provider backed by the process heap: \<^verbatim>\<open>utils/memory/mheap/mheapapi.c\<close> and the
  block chain, refill and threshold routines of \<^verbatim>\<open>utils/memory/base/memapi.c\<close> it uses. A pool keeps
  free blocks on a global list and on one list per thread; the first word of a free block links it.
  What \<^verbatim>\<open>calloc\<close> returns and which thread runs is given by an environment.
\<close>

section \<open>State\<close>

abbreviation MEMPOOL_SUCCESS :: int where "MEMPOOL_SUCCESS \<equiv> 0"
abbreviation MEMPOOL_FAILURE :: int where "MEMPOOL_FAILURE \<equiv> -1"
abbreviation MEMPOOL_ERROR_NULL_MEMPOOL_PASSED :: int where "MEMPOOL_ERROR_NULL_MEMPOOL_PASSED \<equiv> -60"
abbreviation MEMPOOL_ERROR_NULL_MEMBLOCK_PASSED :: int where "MEMPOOL_ERROR_NULL_MEMBLOCK_PASSED \<equiv> -61"
abbreviation MEMPOOL_ERROR_MEM_ALLOCATION_FROM_HEAP_FAILURE :: int where
  "MEMPOOL_ERROR_MEM_ALLOCATION_FROM_HEAP_FAILURE \<equiv> -62"
abbreviation MEMPOOL_ERROR_PER_THREAD_MEM_ALLOCATION_FAILED :: int where
  "MEMPOOL_ERROR_PER_THREAD_MEM_ALLOCATION_FAILED \<equiv> -63"
abbreviation MEMPOOL_ERROR_BLOCKSIZE_TOO_SMALL :: int where "MEMPOOL_ERROR_BLOCKSIZE_TOO_SMALL \<equiv> -64"
abbreviation MEMPOOL_ERROR_NO_MEM :: int where "MEMPOOL_ERROR_NO_MEM \<equiv> -65"
abbreviation MEMPOOL_ERROR_UNABLE_TO_ALLOCATE_MEMORY_CHUNK :: int where
  "MEMPOOL_ERROR_UNABLE_TO_ALLOCATE_MEMORY_CHUNK \<equiv> -67"
abbreviation MEMPOOL_ERROR_SETTING_THRESHOLD_VALUES :: int where
  "MEMPOOL_ERROR_SETTING_THRESHOLD_VALUES \<equiv> -68"
abbreviation MEMPOOL_ERROR_INVALID_PARAMS :: int where "MEMPOOL_ERROR_INVALID_PARAMS \<equiv> -69"

record per_thread_mem_node =
  per_thread_head_p :: ptr
  th_alloc_count :: u32
  th_free_count :: u32
  th_release_count :: u32

text \<open>\<^verbatim>\<open>struct memory_pool\<close>, less the members of the mmap provider and of the reference counting that
  no code uses.\<close>

record memory_pool =
  mempool_name :: string
  mempool_type :: nat
  mempool_lock :: bool
  per_thread_list_p :: "per_thread_mem_node list option"
  block_count_for_moving_to_threadlist :: u32
  head_p :: ptr
  tail_p :: ptr
  bit_map :: u32
  mp_flags :: u32
  free_blocks_count :: u32
  allocated_blocks_count :: u32
  released_blocks_count :: u32
  allocation_fail_blocks_count :: u32
  released_fail_blocks_count :: u32
  heap_free_blocks_count :: u32
  heap_allocated_blocks_count :: u32
  heap_released_blocks_count :: u32
  heap_allocation_fail_blocks_count :: u32
  heap_allowed_blocks_count :: u32
  static_blocks :: u32
  total_blocks_count :: u32
  block_size :: u32
  static_allocated_blocks_count :: u32
  threshold_max :: u32
  threshold_min :: u32
  replenish_count :: u32

record mempool_params =
  pp_mempool_type :: nat
  pp_block_size :: u32
  pp_max_blocks :: u32
  pp_memset_not_required :: bool
  pp_list_per_thread_required :: bool
  pp_noof_blocks_to_move :: u32
  pp_static_blocks :: u32
  pp_threshold_min :: u32
  pp_threshold_max :: u32
  pp_replenish_count :: u32

text \<open>The environment of a call: \<^verbatim>\<open>cntlr_thread_index\<close>, the number of threads of the system, the results
  of the successive \<^verbatim>\<open>calloc\<close> calls for a chain of blocks, of the \<^verbatim>\<open>calloc\<close> for a single heap block
  and whether the one for the per-thread lists succeeds.\<close>

record mem_env =
  ev_thread :: nat
  ev_threads :: nat
  ev_chain :: "nat \<Rightarrow> ptr"
  ev_heap :: ptr
  ev_lists_ok :: bool

text \<open>The links of the blocks, a pool, and the blocks passed to \<^verbatim>\<open>free\<close> so far.\<close>

type_synonym pool_st = "links \<times> memory_pool \<times> addr list"

section \<open>Chains of blocks and refilling\<close>

fun chain_loop :: "(nat \<Rightarrow> ptr) \<Rightarrow> nat \<Rightarrow> nat \<Rightarrow> links \<Rightarrow> ptr \<Rightarrow> ptr \<Rightarrow> u32 \<Rightarrow> links \<times> ptr \<times> ptr \<times> u32" where
  "chain_loop cal ii 0 nx head prev cnt = (nx, head, prev, cnt)"
| "chain_loop cal ii (Suc k) nx head prev cnt =
     (case cal ii of None \<Rightarrow> (nx, head, prev, cnt)
      | Some b \<Rightarrow> (case prev of
            None \<Rightarrow> chain_loop cal (Suc ii) k nx (Some b) (Some b) (cnt + 1)
          | Some q \<Rightarrow> chain_loop cal (Suc ii) k (nx(q := Some b)) head (Some b) (cnt + 1)))"

text \<open>The head, the tail and the number of blocks stored through the output pointers.\<close>

definition memory_alloc_chain_memchunks ::
  "u32 \<Rightarrow> (nat \<Rightarrow> ptr) \<Rightarrow> u32 \<Rightarrow> links \<Rightarrow> links \<times> ptr \<times> ptr \<times> u32" where
  "memory_alloc_chain_memchunks blocks cal alloc_cnt nx =
    (case chain_loop cal 0 (unat blocks) nx None None 0 of (nx', head, prev, cnt) \<Rightarrow>
       (case prev of None \<Rightarrow> (nx', head, prev, alloc_cnt)
        | Some q \<Rightarrow> (nx'(q := None), head, prev, cnt)))"

definition MEMP_CHECK_STATIC_FREECNT_AND_REFILL :: "memory_pool \<Rightarrow> bool" where
  "MEMP_CHECK_STATIC_FREECNT_AND_REFILL p \<longleftrightarrow> free_blocks_count p \<le> threshold_min p \<and>
     static_allocated_blocks_count p < total_blocks_count p"

text \<open>The number of blocks a refill asks for; 0 when it is refused.\<close>

definition refill_chunk :: "memory_pool \<Rightarrow> u32" where
  "refill_chunk p =
    (if threshold_max p \<le> free_blocks_count p then 0
     else let c = (if replenish_count p + static_allocated_blocks_count p \<le> static_blocks p
                   then replenish_count p
                   else static_blocks p - static_allocated_blocks_count p)
          in if c \<noteq> 0
             then (if threshold_max p < free_blocks_count p + c
                   then threshold_max p - free_blocks_count p else c)
             else 0)"

definition mempool_check_and_refill :: "mem_env \<Rightarrow> pool_st \<Rightarrow> int \<times> pool_st" where
  "mempool_check_and_refill e = (\<lambda>(nx, p, fr).
    let c = refill_chunk p
    in if c = 0 then (MEMPOOL_FAILURE, nx, p, fr)
       else case memory_alloc_chain_memchunks c (ev_chain e) 0 nx of (nx1, head, tail, cnt) \<Rightarrow>
         (case head of None \<Rightarrow> (MEMPOOL_FAILURE, nx1, p, fr)
          | Some h \<Rightarrow>
              let p1 = p\<lparr>free_blocks_count := free_blocks_count p + cnt,
                         static_allocated_blocks_count := static_allocated_blocks_count p + cnt\<rparr>;
                  (nx2, p2) = (case tail_p p1 of Some t \<Rightarrow> (nx1(t := Some h), p1)
                               | None \<Rightarrow> (nx1, p1\<lparr>head_p := Some h\<rparr>))
              in (MEMPOOL_SUCCESS, nx2, p2\<lparr>tail_p := tail\<rparr>, fr)))"

definition mempool_set_threshold_values ::
  "u32 \<Rightarrow> u32 \<Rightarrow> u32 \<Rightarrow> memory_pool \<Rightarrow> (int \<times> memory_pool) option" where
  "mempool_set_threshold_values tmin tmax repl p =
    (if mempool_lock p then None
     else if tmax = 0 \<or> tmax < tmin \<or> tmax < repl \<or> total_blocks_count p < tmax
     then Some (MEMPOOL_FAILURE, p)
     else Some (MEMPOOL_SUCCESS, p\<lparr>threshold_min := tmin, replenish_count := repl,
            threshold_max := tmax, bit_map := (bit_map p OR 1) OR 2\<rparr>))"

section \<open>Deleting a pool\<close>

text \<open>Moving the blocks of one thread's list to the front of the global list.\<close>

partial_function (option) drain_thread :: "ptr \<Rightarrow> links \<times> memory_pool \<Rightarrow> (links \<times> memory_pool) option" where
  "drain_thread h s = (if h = None then Some s
     else drain_thread (fst s (the h))
       ((fst s)(the h := head_p (snd s)),
        (snd s)\<lparr>head_p := h, released_blocks_count := released_blocks_count (snd s) + 1,
                free_blocks_count := free_blocks_count (snd s) + 1\<rparr>))"

fun drain_threads :: "per_thread_mem_node list \<Rightarrow> links \<times> memory_pool \<Rightarrow> (links \<times> memory_pool) option" where
  "drain_threads [] s = Some s"
| "drain_threads (t # ts) s = Option.bind (drain_thread (per_thread_head_p t) s) (drain_threads ts)"

partial_function (option) free_chain :: "links \<Rightarrow> ptr \<Rightarrow> addr list \<Rightarrow> addr list option" where
  "free_chain nx h fr = (if h = None then Some fr else free_chain nx (nx (the h)) (fr @ [the h]))"

text \<open>The pool structure itself is released at the end; the result keeps the links and the freed
  blocks.\<close>

definition mempool_delete_mheap_pool :: "pool_st \<Rightarrow> (int \<times> links \<times> addr list) option" where
  "mempool_delete_mheap_pool = (\<lambda>(nx, p, fr).
    Option.bind (drain_threads (case per_thread_list_p p of None \<Rightarrow> [] | Some ts \<Rightarrow> ts) (nx, p))
      (\<lambda>(nx1, p1). map_option (\<lambda>fr1. (MEMPOOL_SUCCESS, nx1, fr1)) (free_chain nx1 (head_p p1) fr)))"

section \<open>Creating a pool\<close>

text \<open>The per-thread lists; when they cannot be allocated, the pool is deleted before the error is
  returned, which the model records as a pool that no longer exists.\<close>

definition set_mempool_attributes ::
  "mem_env \<Rightarrow> bool \<Rightarrow> u32 \<Rightarrow> bool \<Rightarrow> memory_pool \<Rightarrow> int \<times> memory_pool option" where
  "set_mempool_attributes e per_thread nblocks no_memset p =
    (let p1 = (if no_memset then p\<lparr>mp_flags := mp_flags p OR 1\<rparr> else p)
     in if per_thread then
          (if ev_lists_ok e
           then (MEMPOOL_SUCCESS, Some (p1\<lparr>
               per_thread_list_p := Some (replicate (ev_threads e + 1)
                 \<lparr>per_thread_head_p = None, th_alloc_count = 0, th_free_count = 0, th_release_count = 0\<rparr>),
               block_count_for_moving_to_threadlist := nblocks\<rparr>))
           else (MEMPOOL_ERROR_PER_THREAD_MEM_ALLOCATION_FAILED, None))
        else (MEMPOOL_SUCCESS, Some p1))"

text \<open>The fields set before the first chain of blocks is allocated.\<close>

definition mheap_prepare :: "mempool_params \<Rightarrow> memory_pool \<Rightarrow> memory_pool" where
  "mheap_prepare pp p = p\<lparr>mempool_type := 0, static_blocks := pp_static_blocks pp,
     heap_allowed_blocks_count := pp_max_blocks pp - pp_static_blocks pp,
     heap_free_blocks_count := pp_max_blocks pp - pp_static_blocks pp\<rparr>"

text \<open>The pool is \<^term>\<open>None\<close> in the result when it has been released. The error path of
  \<^verbatim>\<open>set_mempool_attributes\<close> deletes a pool that is already deleted, which is undefined.\<close>

definition mempool_create_mheap_pool ::
  "mem_env \<Rightarrow> mempool_params option \<Rightarrow> pool_st \<Rightarrow> (int \<times> links \<times> memory_pool option \<times> addr list) option" where
  "mempool_create_mheap_pool e params = (\<lambda>(nx, p, fr).
    case params of None \<Rightarrow> Some (MEMPOOL_FAILURE, nx, Some p, fr)
    | Some pp \<Rightarrow>
      if pp_block_size pp \<le> 8 then Some (MEMPOOL_ERROR_BLOCKSIZE_TOO_SMALL, nx, Some p, fr)
      else case memory_alloc_chain_memchunks (pp_threshold_max pp) (ev_chain e) 0 nx of
        (nx1, head, tail, cnt) \<Rightarrow>
        (case head of
           None \<Rightarrow> Some (MEMPOOL_ERROR_UNABLE_TO_ALLOCATE_MEMORY_CHUNK, nx1, None, fr)
         | Some h \<Rightarrow>
           let p0 = mheap_prepare pp p;
               p1 = p0\<lparr>head_p := Some h, tail_p := tail,
                       free_blocks_count := free_blocks_count p0 + cnt,
                       static_allocated_blocks_count := static_allocated_blocks_count p0 + cnt\<rparr>
           in Option.bind (mempool_set_threshold_values (pp_threshold_min pp) (pp_threshold_max pp)
                (pp_replenish_count pp) p1)
              (\<lambda>(rc, p2).
                if rc \<noteq> MEMPOOL_SUCCESS then
                  map_option (\<lambda>(_, nx2, fr2). (MEMPOOL_ERROR_SETTING_THRESHOLD_VALUES, nx2, None, fr2))
                    (mempool_delete_mheap_pool (nx1, p2, fr))
                else case set_mempool_attributes e (pp_list_per_thread_required pp)
                    (pp_noof_blocks_to_move pp) (pp_memset_not_required pp) p2 of
                  (_, None) \<Rightarrow> None
                | (rc2, Some p3) \<Rightarrow> Some (MEMPOOL_SUCCESS, nx1, Some p3, fr))))"

section \<open>Taking a block\<close>

text \<open>The outcome of a request: the return code, the block stored through the pointer and the heap flag
  after the call.\<close>

type_synonym get_result = "(int \<times> ptr \<times> u8) \<times> pool_st"

text \<open>Taking the head of a thread's own list.\<close>

definition thread_take :: "nat \<Rightarrow> per_thread_mem_node list \<Rightarrow> pool_st \<Rightarrow> get_result option" where
  "thread_take i ts = (\<lambda>(nx, p, fr).
    case per_thread_head_p (ts ! i) of None \<Rightarrow> None
    | Some b \<Rightarrow>
        let t = (ts ! i)\<lparr>per_thread_head_p := nx b, th_free_count := th_free_count (ts ! i) - 1,
                          th_alloc_count := th_alloc_count (ts ! i) + 1\<rparr>
        in Some ((MEMPOOL_SUCCESS, Some b, 0),
                 nx(b := None), p\<lparr>per_thread_list_p := Some (ts[i := t])\<rparr>, fr))"

text \<open>Following \<open>ii\<close> next pointers.\<close>

fun hop :: "links \<Rightarrow> nat \<Rightarrow> addr \<Rightarrow> addr option" where
  "hop nx 0 b = Some b"
| "hop nx (Suc k) b = (case nx b of None \<Rightarrow> None | Some c \<Rightarrow> hop nx k c)"

text \<open>Moving blocks from the global list to the thread's list and taking the first; \<open>b\<close> is the head
  of the global list and \<open>m\<close> the configured number of blocks, which is not 0.\<close>

definition thread_move :: "nat \<Rightarrow> per_thread_mem_node list \<Rightarrow> addr \<Rightarrow> pool_st \<Rightarrow> get_result option" where
  "thread_move i ts b = (\<lambda>(nx, p, fr).
    let m = block_count_for_moving_to_threadlist p
    in Option.bind
      (if m < free_blocks_count p
       then Option.bind (hop nx (unat (m - 1)) b)
              (\<lambda>q. Some (m, nx(q := None), p\<lparr>head_p := nx q\<rparr>))
       else Some (free_blocks_count p, nx, p\<lparr>head_p := None, tail_p := None\<rparr>))
      (\<lambda>(count, nx1, p1).
        let t = (ts ! i)\<lparr>per_thread_head_p := nx1 b, th_free_count := count - 1\<rparr>
        in Some ((MEMPOOL_SUCCESS, Some b, 0),
             nx1(b := None),
             p1\<lparr>allocated_blocks_count := allocated_blocks_count p1 + count,
                free_blocks_count := free_blocks_count p1 - count,
                per_thread_list_p := Some (ts[i := t])\<rparr>, fr)))"

text \<open>The allocation from the heap that ends the function. The two counters are moved before the
  \<^verbatim>\<open>calloc\<close>; the statements that would move them back when it fails are commented out.\<close>

definition heap_take :: "mem_env \<Rightarrow> u8 \<Rightarrow> pool_st \<Rightarrow> get_result" where
  "heap_take e heap_b = (\<lambda>(nx, p, fr).
    if heap_b \<noteq> 0 \<and> heap_free_blocks_count p \<noteq> 0 then
      let p1 = p\<lparr>heap_allocated_blocks_count := heap_allocated_blocks_count p + 1,
                 heap_free_blocks_count := heap_free_blocks_count p - 1\<rparr>
      in case ev_heap e of
           Some b \<Rightarrow> ((MEMPOOL_SUCCESS, Some b, 1), nx(b := None), p1, fr)
         | None \<Rightarrow> ((MEMPOOL_ERROR_MEM_ALLOCATION_FROM_HEAP_FAILURE, None, heap_b), nx,
              p1\<lparr>heap_allocation_fail_blocks_count := heap_allocation_fail_blocks_count p1 + 1\<rparr>, fr)
    else ((MEMPOOL_FAILURE, None, heap_b), nx,
          p\<lparr>allocation_fail_blocks_count := allocation_fail_blocks_count p + 1\<rparr>, fr))"

definition refill_if_low :: "mem_env \<Rightarrow> pool_st \<Rightarrow> pool_st" where
  "refill_if_low e s = (if MEMP_CHECK_STATIC_FREECNT_AND_REFILL (fst (snd s))
     then snd (mempool_check_and_refill e s) else s)"

text \<open>Taking the head of the global list.\<close>

definition global_take :: "addr \<Rightarrow> pool_st \<Rightarrow> get_result" where
  "global_take b = (\<lambda>(nx, p, fr).
    let p1 = p\<lparr>head_p := nx b\<rparr>;
        p2 = (if head_p p1 = None then p1\<lparr>tail_p := None\<rparr> else p1)
    in ((MEMPOOL_SUCCESS, Some b, 0), nx(b := None),
        p2\<lparr>allocated_blocks_count := allocated_blocks_count p2 + 1,
           free_blocks_count := free_blocks_count p2 - 1\<rparr>, fr))"

definition mempool_mheap_get_mem_block :: "mem_env \<Rightarrow> u8 \<Rightarrow> pool_st \<Rightarrow> get_result option" where
  "mempool_mheap_get_mem_block e heap_b = (\<lambda>(nx, p, fr).
    case (if ev_thread e \<noteq> 0 then per_thread_list_p p else None) of
      Some ts \<Rightarrow>
        let i = ev_thread e - 1
        in if length ts \<le> i then None
           else if th_free_count (ts ! i) \<noteq> 0 then thread_take i ts (nx, p, fr)
           else if mempool_lock p then None
           else let s1 = refill_if_low e (nx, p, fr)
                in (case head_p (fst (snd s1)) of
                      Some b \<Rightarrow> if block_count_for_moving_to_threadlist (fst (snd s1)) \<noteq> 0
                                then thread_move i ts b s1 else Some (heap_take e heap_b s1)
                    | None \<Rightarrow> Some (heap_take e heap_b s1))
    | None \<Rightarrow>
        if mempool_lock p then None
        else let s1 = refill_if_low e (nx, p, fr)
             in (case head_p (fst (snd s1)) of
                   Some b \<Rightarrow> Some (global_take b s1)
                 | None \<Rightarrow> Some (heap_take e heap_b s1)))"

section \<open>Returning a block\<close>

text \<open>Clearing the block unless the pool's flags say not to.\<close>

definition release_memset :: "addr \<Rightarrow> pool_st \<Rightarrow> pool_st" where
  "release_memset b = (\<lambda>(nx, p, fr).
    (if mp_flags p AND 1 = 0 then nx(b := None) else nx, p, fr))"

definition release_to_global :: "addr \<Rightarrow> pool_st \<Rightarrow> pool_st" where
  "release_to_global b = (\<lambda>(nx, p, fr).
    if threshold_max p \<le> free_blocks_count p
    then (nx, p\<lparr>static_allocated_blocks_count := static_allocated_blocks_count p - 1,
                released_blocks_count := released_blocks_count p + 1\<rparr>, fr @ [b])
    else let nx1 = nx(b := None);
             (nx2, p1) = (case tail_p p of Some t \<Rightarrow> (nx1(t := Some b), p)
                          | None \<Rightarrow> (nx1, p\<lparr>head_p := Some b\<rparr>))
         in (nx2, p1\<lparr>tail_p := Some b, released_blocks_count := released_blocks_count p1 + 1,
                     free_blocks_count := free_blocks_count p1 + 1\<rparr>, fr))"

definition release_to_thread :: "nat \<Rightarrow> per_thread_mem_node list \<Rightarrow> addr \<Rightarrow> pool_st \<Rightarrow> pool_st" where
  "release_to_thread i ts b = (\<lambda>(nx, p, fr).
    let t = (ts ! i)\<lparr>per_thread_head_p := Some b, th_free_count := th_free_count (ts ! i) + 1,
                      th_release_count := th_release_count (ts ! i) + 1\<rparr>
    in (nx(b := per_thread_head_p (ts ! i)), p\<lparr>per_thread_list_p := Some (ts[i := t])\<rparr>, fr))"

definition mempool_mheap_release_mem_block ::
  "mem_env \<Rightarrow> addr \<Rightarrow> u8 \<Rightarrow> pool_st \<Rightarrow> (int \<times> pool_st) option" where
  "mempool_mheap_release_mem_block e b heap_b s =
    (if heap_b \<noteq> 1 then
       let s1 = release_memset b s; p = fst (snd s1)
       in (case (if ev_thread e \<noteq> 0 then per_thread_list_p p else None) of
             Some ts \<Rightarrow>
               if length ts \<le> ev_thread e - 1 then None
               else if th_free_count (ts ! (ev_thread e - 1)) < block_count_for_moving_to_threadlist p
               then Some (MEMPOOL_SUCCESS, release_to_thread (ev_thread e - 1) ts b s1)
               else if mempool_lock p then None
               else Some (MEMPOOL_SUCCESS, release_to_global b s1)
           | None \<Rightarrow> if mempool_lock p then None else Some (MEMPOOL_SUCCESS, release_to_global b s1))
     else if mempool_lock (fst (snd s)) then None
     else (case s of (nx, p, fr) \<Rightarrow>
       Some (MEMPOOL_SUCCESS, nx,
         p\<lparr>heap_released_blocks_count := heap_released_blocks_count p + 1,
           heap_free_blocks_count := heap_free_blocks_count p + 1\<rparr>, fr @ [b])))"

section \<open>Representation\<close>

text \<open>\<open>G\<close> is the global free list, \<open>T\<close> the free lists of the threads.\<close>

definition thread_rep :: "links \<Rightarrow> per_thread_mem_node \<Rightarrow> addr list \<Rightarrow> bool" where
  "thread_rep nx t xs \<longleftrightarrow> lseg nx (per_thread_head_p t) xs None \<and> th_free_count t = of_nat (length xs)"

definition pool_rep :: "pool_st \<Rightarrow> addr list \<Rightarrow> addr list list \<Rightarrow> bool" where
  "pool_rep s G T \<longleftrightarrow> (case s of (nx, p, fr) \<Rightarrow>
     lseg nx (head_p p) G None \<and> tail_p p = last_ptr G \<and> free_blocks_count p = of_nat (length G) \<and>
     distinct (G @ concat T) \<and> (\<forall>x\<in>set (G @ concat T). node_ok x) \<and> \<not> mempool_lock p \<and>
     list_all2 (thread_rep nx) (case per_thread_list_p p of None \<Rightarrow> [] | Some ts \<Rightarrow> ts) T)"

text \<open>The blocks a refill may bring in are new and distinct.\<close>

definition env_fresh :: "mem_env \<Rightarrow> addr set \<Rightarrow> bool" where
  "env_fresh e U \<longleftrightarrow>
     (\<forall>i b. ev_chain e i = Some b \<longrightarrow> b \<notin> U \<and> node_ok b \<and> ev_heap e \<noteq> Some b) \<and>
     (\<forall>i j b. ev_chain e i = Some b \<longrightarrow> ev_chain e j = Some b \<longrightarrow> i = j) \<and>
     (\<forall>b. ev_heap e = Some b \<longrightarrow> b \<notin> U)"

text \<open>The blocks of the successful prefix of a chain of allocations.\<close>

fun chain_blocks :: "(nat \<Rightarrow> ptr) \<Rightarrow> nat \<Rightarrow> nat \<Rightarrow> addr list" where
  "chain_blocks cal ii 0 = []"
| "chain_blocks cal ii (Suc k) = (case cal ii of None \<Rightarrow> [] | Some b \<Rightarrow> b # chain_blocks cal (Suc ii) k)"

lemma chain_blocks_set: "b \<in> set (chain_blocks cal ii k) \<Longrightarrow> \<exists>j\<ge>ii. cal j = Some b"
proof (induction k arbitrary: ii)
  case (Suc k)
  show ?case
  proof (cases "cal ii")
    case (Some c)
    then have "b = c \<or> b \<in> set (chain_blocks cal (Suc ii) k)" using Suc.prems by simp
    then show ?thesis
    proof
      assume "b \<in> set (chain_blocks cal (Suc ii) k)"
      then obtain j where "Suc ii \<le> j" "cal j = Some b" using Suc.IH by blast
      then show ?thesis by (intro exI[of _ j]) simp
    qed (use Some in blast)
  qed (use Suc.prems in simp)
qed simp

lemma chain_blocks_length: "length (chain_blocks cal ii k) \<le> k"
  by (induction k arbitrary: ii) (auto split: option.splits)

lemma chain_blocks_distinct:
  "(\<forall>i j b. cal i = Some b \<longrightarrow> cal j = Some b \<longrightarrow> i = j) \<Longrightarrow> distinct (chain_blocks cal ii k)"
proof (induction k arbitrary: ii)
  case (Suc k)
  show ?case
  proof (cases "cal ii")
    case (Some b)
    have "b \<notin> set (chain_blocks cal (Suc ii) k)"
      using chain_blocks_set[of b cal "Suc ii" k] Suc.prems Some by fastforce
    then show ?thesis using Suc Some by simp
  qed simp
qed simp


text \<open>A chain whose last link is still to be written.\<close>

abbreviation open_seg :: "links \<Rightarrow> ptr \<Rightarrow> addr list \<Rightarrow> bool" where
  "open_seg nx h xs \<equiv> lseg nx h (butlast xs) (last_ptr xs)"

lemma chain_loop_rep:
  "chain_loop cal ii k nx h (last_ptr xs) c = (nx', h', prev', c') \<Longrightarrow> open_seg nx h xs \<Longrightarrow>
   distinct (xs @ chain_blocks cal ii k) \<Longrightarrow>
   open_seg nx' h' (xs @ chain_blocks cal ii k) \<and> prev' = last_ptr (xs @ chain_blocks cal ii k) \<and>
   c' = c + of_nat (length (chain_blocks cal ii k)) \<and>
   (\<forall>a. a \<notin> set (xs @ chain_blocks cal ii k) \<longrightarrow> nx' a = nx a)"
proof (induction k arbitrary: ii nx h xs c)
  case (Suc k)
  show ?case
  proof (cases "cal ii")
    case None
    then show ?thesis using Suc.prems by auto
  next
    case (Some b)
    have d: "distinct ((xs @ [b]) @ chain_blocks cal (Suc ii) k)"
      using Suc.prems(3) Some by auto
    show ?thesis
    proof (cases xs rule: rev_cases)
      case Nil
      have "chain_loop cal (Suc ii) k nx (Some b) (last_ptr [b]) (c + 1) = (nx', h', prev', c')"
        using Suc.prems(1) Some Nil by simp
      from Suc.IH[OF this] d Some Nil show ?thesis
        by (simp add: algebra_simps)
    next
      case (snoc ys q)
      have run: "chain_loop cal (Suc ii) k (nx(q := Some b)) h (last_ptr (xs @ [b])) (c + 1) = (nx', h', prev', c')"
        using Suc.prems(1) Some snoc by (simp add: last_ptr_append)
      have op: "open_seg (nx(q := Some b)) h (xs @ [b])"
        using Suc.prems(2) d snoc by (simp add: lseg_append butlast_append last_ptr_append)
      have eq: "(xs @ [b]) @ chain_blocks cal (Suc ii) k = xs @ chain_blocks cal ii (Suc k)"
        using Some by simp
      have len: "length (chain_blocks cal ii (Suc k)) = Suc (length (chain_blocks cal (Suc ii) k))"
        using Some by simp
      show ?thesis
        using Suc.IH[OF run op d] snoc unfolding eq len by auto
    qed
  qed
qed simp

lemma memory_alloc_chain_rep:
  assumes "memory_alloc_chain_memchunks n cal 0 nx = (nx', h, t, c)"
    "distinct (chain_blocks cal 0 (unat n))"
  shows "lseg nx' h (chain_blocks cal 0 (unat n)) None \<and> t = last_ptr (chain_blocks cal 0 (unat n)) \<and>
    c = of_nat (length (chain_blocks cal 0 (unat n))) \<and>
    (\<forall>a. a \<notin> set (chain_blocks cal 0 (unat n)) \<longrightarrow> nx' a = nx a)"
proof -
  let ?bs = "chain_blocks cal 0 (unat n)"
  obtain nx1 h1 p1 c1 where l: "chain_loop cal 0 (unat n) nx None (last_ptr []) 0 = (nx1, h1, p1, c1)"
    by (metis prod_cases4)
  have r: "open_seg nx1 h1 ?bs" "p1 = last_ptr ?bs" "c1 = of_nat (length ?bs)"
    "\<forall>a. a \<notin> set ?bs \<longrightarrow> nx1 a = nx a"
    using chain_loop_rep[OF l] assms(2) by auto
  show ?thesis
  proof (cases ?bs rule: rev_cases)
    case Nil
    then show ?thesis using assms(1) l r by (auto simp: memory_alloc_chain_memchunks_def)
  next
    case (snoc ys q)
    then show ?thesis using assms l r
      by (auto simp: memory_alloc_chain_memchunks_def lseg_append)
  qed
qed

lemma env_fresh_chain:
  assumes "env_fresh e U"
  shows "distinct (chain_blocks (ev_chain e) 0 k)" "set (chain_blocks (ev_chain e) 0 k) \<inter> U = {}"
    "\<forall>x\<in>set (chain_blocks (ev_chain e) 0 k). node_ok x \<and> ev_heap e \<noteq> Some x"
proof -
  show "distinct (chain_blocks (ev_chain e) 0 k)"
    by (rule chain_blocks_distinct) (use assms in \<open>auto simp: env_fresh_def\<close>)
  show "set (chain_blocks (ev_chain e) 0 k) \<inter> U = {}"
    "\<forall>x\<in>set (chain_blocks (ev_chain e) 0 k). node_ok x \<and> ev_heap e \<noteq> Some x"
    using assms chain_blocks_set[of _ "ev_chain e" 0 k] unfolding env_fresh_def by blast+
qed

lemma thread_rep_frame:
  "a \<notin> set xs \<Longrightarrow> thread_rep (nx(a := v)) t xs = thread_rep nx t xs"
  by (simp add: thread_rep_def)

lemma thread_reps_cong:
  "list_all2 (thread_rep nx) ts T \<Longrightarrow> \<forall>a. a \<in> set (concat T) \<longrightarrow> nx' a = nx a \<Longrightarrow>
   list_all2 (thread_rep nx') ts T"
proof (induction rule: list_all2_induct)
  case (Cons t ts xs T)
  then have "thread_rep nx' t xs"
    unfolding thread_rep_def using lseg_cong[of xs nx nx'] by auto
  then show ?case using Cons by auto
qed simp


lemma mset_concat_update:
  "i < length T \<Longrightarrow> mset (concat (T[i := ys])) + mset (T ! i) = mset (concat T) + mset ys"
proof (induction T arbitrary: i)
  case (Cons x T)
  then show ?case by (cases i) (auto simp: ac_simps)
qed simp

lemma distinct_submset:
  assumes "distinct xs" "mset ys \<subseteq># mset xs"
  shows "distinct ys"
proof -
  obtain M where M: "mset xs = mset ys + M"
    using assms(2) by (auto simp: mset_subset_eq_exists_conv)
  obtain zs where "mset zs = M" using ex_mset by blast
  then have "mset (ys @ zs) = mset xs" using M by simp
  then have "distinct (ys @ zs)" using assms(1) mset_eq_imp_distinct_iff by blast
  then show ?thesis by simp
qed

text \<open>Rearranging the free lists: what matters is the bag of free blocks.\<close>

lemma pool_repI:
  assumes "lseg nx (head_p p) G None" "tail_p p = last_ptr G" "free_blocks_count p = of_nat (length G)"
    "\<not> mempool_lock p"
    "list_all2 (thread_rep nx) (case per_thread_list_p p of None \<Rightarrow> [] | Some ts \<Rightarrow> ts) T"
    "distinct D" "\<forall>x\<in>set D. node_ok x" "mset (G @ concat T) \<subseteq># mset D"
  shows "pool_rep (nx, p, fr) G T"
proof -
  have "set (G @ concat T) \<subseteq> set D"
    using assms(8) by (metis set_mset_mono set_mset_mset)
  moreover have "distinct (G @ concat T)"
    by (rule distinct_submset[OF assms(6,8)])
  ultimately show ?thesis using assms(1-5,7) unfolding pool_rep_def by auto
qed

lemma pool_repE:
  assumes "pool_rep (nx, p, fr) G T"
  obtains ts where "lseg nx (head_p p) G None" "tail_p p = last_ptr G"
    "free_blocks_count p = of_nat (length G)" "\<not> mempool_lock p" "distinct (G @ concat T)"
    "\<forall>x\<in>set (G @ concat T). node_ok x" "list_all2 (thread_rep nx) ts T"
    "ts = (case per_thread_list_p p of None \<Rightarrow> [] | Some ts \<Rightarrow> ts)"
  using assms unfolding pool_rep_def by simp

lemma pool_free_count:
  assumes "pool_rep (nx, p, fr) G T"
  shows "unat (free_blocks_count p) = length G"
proof -
  have "distinct G" "\<forall>x\<in>set G. node_ok x" "free_blocks_count p = of_nat (length G)"
    using assms by (auto simp: pool_rep_def)
  then show ?thesis using unat_of_nat_u32[OF node_ok_length] by simp
qed

text \<open>The fields a refill leaves alone.\<close>

definition heap_state :: "memory_pool \<Rightarrow> u32 \<times> u32 \<times> u32" where
  [simp]: "heap_state p = (heap_free_blocks_count p, heap_allocation_fail_blocks_count p,
     heap_allowed_blocks_count p)"

definition same_config :: "memory_pool \<Rightarrow> memory_pool \<Rightarrow> bool" where
  "same_config p q \<longleftrightarrow> per_thread_list_p q = per_thread_list_p p \<and>
     block_count_for_moving_to_threadlist q = block_count_for_moving_to_threadlist p \<and>
     heap_state q = heap_state p \<and>
     threshold_max q = threshold_max p \<and> mempool_lock q = mempool_lock p \<and>
     mempool_type q = mempool_type p"

lemma refill_rep:
  assumes "pool_rep (nx, p, fr) G T" "env_fresh e (set (G @ concat T))"
  shows "\<exists>bs nx' p' rc. mempool_check_and_refill e (nx, p, fr) = (rc, nx', p', fr) \<and>
    pool_rep (nx', p', fr) (G @ bs) T \<and> set bs \<inter> set (G @ concat T) = {} \<and>
    bs = (if rc = MEMPOOL_SUCCESS then chain_blocks (ev_chain e) 0 (unat (refill_chunk p)) else []) \<and>
    same_config p p' \<and>
    static_allocated_blocks_count p' = static_allocated_blocks_count p + of_nat (length bs)"
proof -
  let ?c = "refill_chunk p"
  let ?bs = "chain_blocks (ev_chain e) 0 (unat ?c)"
  obtain nx1 h t c where ch: "memory_alloc_chain_memchunks ?c (ev_chain e) 0 nx = (nx1, h, t, c)"
    by (metis prod_cases4)
  note fresh = env_fresh_chain[OF assms(2), of "unat ?c"]
  note r = memory_alloc_chain_rep[OF ch fresh(1)]
  obtain ts where p: "lseg nx (head_p p) G None" "tail_p p = last_ptr G"
    "free_blocks_count p = of_nat (length G)" "\<not> mempool_lock p" "distinct (G @ concat T)"
    "\<forall>x\<in>set (G @ concat T). node_ok x" "list_all2 (thread_rep nx) ts T"
    "ts = (case per_thread_list_p p of None \<Rightarrow> [] | Some ts \<Rightarrow> ts)"
    using assms(1) by (rule pool_repE)
  have frame: "\<forall>a. a \<in> set (G @ concat T) \<longrightarrow> nx1 a = nx a"
    using r fresh(2) by blast
  have G1: "lseg nx1 (head_p p) G None"
    using p(1) lseg_cong[of G nx1 nx] frame by auto
  have T1: "list_all2 (thread_rep nx1) ts T"
    by (rule thread_reps_cong[OF p(7)]) (use frame in auto)
  show ?thesis
  proof (cases "?c = 0 \<or> h = None")
    case True
    have "pool_rep (nx1, p, fr) G T"
      by (rule pool_repI[where D = "G @ concat T"]) (use p G1 T1 in auto)
    moreover have "mempool_check_and_refill e (nx, p, fr) =
        (MEMPOOL_FAILURE, if ?c = 0 then nx else nx1, p, fr)"
      using True ch by (auto simp: mempool_check_and_refill_def Let_def)
    ultimately show ?thesis using assms(1)
      by (intro exI[of _ "[]"] exI[of _ "if ?c = 0 then nx else nx1"] exI[of _ p]
          exI[of _ MEMPOOL_FAILURE]) (auto simp: same_config_def)
  next
    case False
    then obtain h0 where h: "h = Some h0" by auto
    have all: "distinct ((G @ concat T) @ ?bs)" "\<forall>x\<in>set ((G @ concat T) @ ?bs). node_ok x"
      using p(5,6) fresh by auto
    have ne: "?bs \<noteq> []" using r h by auto
    define nx2 where "nx2 = (case tail_p p of None \<Rightarrow> nx1 | Some q \<Rightarrow> nx1(q := Some h0))"
    define p2 where "p2 = p\<lparr>free_blocks_count := free_blocks_count p + c,
        static_allocated_blocks_count := static_allocated_blocks_count p + c, tail_p := t,
        head_p := (if tail_p p = None then Some h0 else head_p p)\<rparr>"
    have run: "mempool_check_and_refill e (nx, p, fr) = (MEMPOOL_SUCCESS, nx2, p2, fr)"
      using False ch h by (auto simp: mempool_check_and_refill_def nx2_def p2_def Let_def split: option.splits)
    have seg: "lseg nx2 (head_p p2) (G @ ?bs) None"
    proof (cases G rule: rev_cases)
      case Nil
      then show ?thesis using r h p(2) by (simp add: nx2_def p2_def)
    next
      case (snoc ws w)
      then show ?thesis using r h p(2) G1 all by (auto simp: nx2_def p2_def lseg_append)
    qed
    have T2: "list_all2 (thread_rep nx2) ts T"
    proof (rule thread_reps_cong[OF T1])
      show "\<forall>a. a \<in> set (concat T) \<longrightarrow> nx2 a = nx1 a"
        using p(2,5) last_ptr_Some[of G] by (fastforce simp: nx2_def split: option.splits)
    qed
    have "pool_rep (nx2, p2, fr) (G @ ?bs) T"
      by (rule pool_repI[where D = "(G @ concat T) @ ?bs"])
        (use seg T2 all p r ne in \<open>auto simp: p2_def last_ptr_append ac_simps\<close>)
    then show ?thesis using run fresh(2) r by (auto simp: same_config_def p2_def)
  qed
qed


lemma refill_if_low_rep:
  assumes "pool_rep (nx, p, fr) G T" "env_fresh e (set (G @ concat T))"
  shows "\<exists>bs nx' p' k. refill_if_low e (nx, p, fr) = (nx', p', fr) \<and> pool_rep (nx', p', fr) (G @ bs) T \<and>
    set bs \<inter> set (G @ concat T) = {} \<and> bs = chain_blocks (ev_chain e) 0 k \<and> same_config p p' \<and>
    static_allocated_blocks_count p' = static_allocated_blocks_count p + of_nat (length bs)"
proof (cases "MEMP_CHECK_STATIC_FREECNT_AND_REFILL p")
  case True
  obtain bs nx' p' rc where r: "mempool_check_and_refill e (nx, p, fr) = (rc, nx', p', fr)"
    "pool_rep (nx', p', fr) (G @ bs) T" "set bs \<inter> set (G @ concat T) = {}"
    "bs = (if rc = MEMPOOL_SUCCESS then chain_blocks (ev_chain e) 0 (unat (refill_chunk p)) else [])"
    "same_config p p'" "static_allocated_blocks_count p' = static_allocated_blocks_count p + of_nat (length bs)"
    using refill_rep[OF assms] by blast
  have "\<exists>k. bs = chain_blocks (ev_chain e) 0 k"
    using r(4) by (cases "rc = MEMPOOL_SUCCESS") (auto intro: exI[of _ 0])
  moreover have "refill_if_low e (nx, p, fr) = (nx', p', fr)"
    using r(1) True by (simp add: refill_if_low_def)
  ultimately show ?thesis using r(2,3,5,6) by blast
next
  case False
  then show ?thesis using assms
    by (intro exI[of _ "[]"] exI[of _ nx] exI[of _ p] exI[of _ 0])
      (auto simp: refill_if_low_def same_config_def)
qed

lemma global_take_rep:
  assumes "pool_rep (nx, p, fr) (b # G) T"
  shows "\<exists>nx' p'. global_take b (nx, p, fr) = ((MEMPOOL_SUCCESS, Some b, 0), nx', p', fr) \<and>
    pool_rep (nx', p', fr) G T \<and> same_config p p' \<and>
    static_allocated_blocks_count p' = static_allocated_blocks_count p"
proof -
  obtain ts where p: "lseg nx (head_p p) (b # G) None" "tail_p p = last_ptr (b # G)"
    "free_blocks_count p = of_nat (length (b # G))" "\<not> mempool_lock p" "distinct ((b # G) @ concat T)"
    "\<forall>x\<in>set ((b # G) @ concat T). node_ok x" "list_all2 (thread_rep nx) ts T"
    "ts = (case per_thread_list_p p of None \<Rightarrow> [] | Some ts \<Rightarrow> ts)"
    using assms by (rule pool_repE)
  have nxb: "nx b = None \<longleftrightarrow> G = []"
    using p(1) by (cases G) auto
  have T: "list_all2 (thread_rep (nx(b := None))) ts T"
    by (rule thread_reps_cong[OF p(7)]) (use p(5) in auto)
  obtain p' where run: "global_take b (nx, p, fr) = ((MEMPOOL_SUCCESS, Some b, 0), nx(b := None), p', fr)"
    and p': "head_p p' = nx b" "tail_p p' = last_ptr G" "free_blocks_count p' = of_nat (length G)"
      "same_config p p'" "static_allocated_blocks_count p' = static_allocated_blocks_count p"
    using p(2,3) nxb by (auto simp: global_take_def Let_def same_config_def)
  have "pool_rep (nx(b := None), p', fr) G T"
    by (rule pool_repI[where D = "(b # G) @ concat T"])
      (use p T p' in \<open>auto simp: same_config_def\<close>)
  then show ?thesis using run p' by blast
qed

lemma thread_lists:
  assumes "pool_rep (nx, p, fr) G T" "per_thread_list_p p = Some ts" "i < length ts"
  shows "thread_rep nx (ts ! i) (T ! i)" "i < length T" "length T = length ts"
    "unat (th_free_count (ts ! i)) = length (T ! i)" "set (T ! i) \<subseteq> set (concat T)"
proof -
  have l: "list_all2 (thread_rep nx) ts T" and d: "distinct (concat T)"
    and ok: "\<forall>x\<in>set (concat T). node_ok x"
    using assms(1,2) by (auto simp: pool_rep_def)
  show "thread_rep nx (ts ! i) (T ! i)" "length T = length ts"
    using l assms(3) by (auto dest: list_all2_nthD list_all2_lengthD)
  then show iT: "i < length T" using assms(3) by simp
  then show sub: "set (T ! i) \<subseteq> set (concat T)" by (auto intro: nth_mem)
  have "distinct (T ! i)" using d iT by (auto simp: distinct_concat_iff)
  then have "length (T ! i) < 2 ^ 32"
    by (rule node_ok_length) (use ok sub in blast)
  then show "unat (th_free_count (ts ! i)) = length (T ! i)"
    using \<open>thread_rep nx (ts ! i) (T ! i)\<close> by (simp add: thread_rep_def unat_of_nat_u32)
qed

text \<open>Replacing the list of one thread.\<close>

lemma thread_update:
  assumes "list_all2 (thread_rep nx) ts T" "thread_rep nx' t ys"
    "\<And>j a. j < length T \<Longrightarrow> j \<noteq> i \<Longrightarrow> a \<in> set (T ! j) \<Longrightarrow> nx' a = nx a"
  shows "list_all2 (thread_rep nx') (ts[i := t]) (T[i := ys])"
proof (rule list_all2_all_nthI)
  show "length (ts[i := t]) = length (T[i := ys])"
    using assms(1) by (simp add: list_all2_lengthD)
  fix j assume "j < length (ts[i := t])"
  then have j: "j < length ts" "j < length T" using list_all2_lengthD[OF assms(1)] by auto
  have "thread_rep nx (ts ! j) (T ! j)" using assms(1) j by (simp add: list_all2_nthD)
  moreover have "lseg nx' (per_thread_head_p (ts ! j)) (T ! j) None =
      lseg nx (per_thread_head_p (ts ! j)) (T ! j) None" if "j \<noteq> i"
    by (rule lseg_cong) (use assms(3) j that in auto)
  ultimately show "thread_rep nx' (ts[i := t] ! j) (T[i := ys] ! j)"
    using assms(2) j by (cases "j = i") (auto simp: thread_rep_def)
qed

lemma distinct_concat_nth_less:
  assumes "distinct (concat T)" "i < j" "j < length T"
  shows "set (T ! i) \<inter> set (T ! j) = {}"
proof -
  have "concat T = concat (take j T) @ concat (drop j T)"
    by (metis append_take_drop_id concat_append)
  then have "set (concat (take j T)) \<inter> set (concat (drop j T)) = {}"
    using assms(1) by (metis distinct_append)
  moreover have "T ! i \<in> set (take j T)"
    using assms(2,3) by (metis in_set_conv_nth length_take min.absorb4 nth_take)
  moreover have "T ! j \<in> set (drop j T)"
    using assms(3) by (metis Cons_nth_drop_Suc list.set_intros(1))
  ultimately show ?thesis by fastforce
qed

lemma distinct_concat_nth:
  "distinct (concat T) \<Longrightarrow> i < length T \<Longrightarrow> j < length T \<Longrightarrow> i \<noteq> j \<Longrightarrow> a \<in> set (T ! i) \<Longrightarrow> a \<notin> set (T ! j)"
  using distinct_concat_nth_less[of T i j] distinct_concat_nth_less[of T j i]
  by (cases "i < j") auto

lemma thread_take_rep:
  assumes "pool_rep (nx, p, fr) G T" "per_thread_list_p p = Some ts" "i < length ts"
    "th_free_count (ts ! i) \<noteq> 0"
  shows "\<exists>b xs nx' p'. T ! i = b # xs \<and>
    thread_take i ts (nx, p, fr) = Some ((MEMPOOL_SUCCESS, Some b, 0), nx', p', fr) \<and>
    pool_rep (nx', p', fr) G (T[i := xs]) \<and>
    static_allocated_blocks_count p' = static_allocated_blocks_count p \<and>
    heap_state p' = heap_state p"
proof -
  note t = thread_lists[OF assms(1-3)]
  obtain b xs where bx: "T ! i = b # xs"
    using t(4) assms(4) by (cases "T ! i") (auto simp: unat_eq_0)
  obtain ts' where p: "lseg nx (head_p p) G None" "tail_p p = last_ptr G"
    "free_blocks_count p = of_nat (length G)" "\<not> mempool_lock p" "distinct (G @ concat T)"
    "\<forall>x\<in>set (G @ concat T). node_ok x" "list_all2 (thread_rep nx) ts' T"
    "ts' = (case per_thread_list_p p of None \<Rightarrow> [] | Some ts \<Rightarrow> ts)"
    using assms(1) by (rule pool_repE)
  have hd: "per_thread_head_p (ts ! i) = Some b" "lseg nx (nx b) xs None"
    "th_free_count (ts ! i) = of_nat (length xs) + 1"
    using t(1) bx by (auto simp: thread_rep_def)
  have bT: "b \<in> set (concat T)" using t(5) bx by auto
  then have bG: "b \<notin> set G" using p(5) by auto
  have bxs: "b \<notin> set xs" using bx p(5) t(2) by (metis distinct.simps(2) distinct_append distinct_concat_iff nth_mem)
  let ?t = "(ts ! i)\<lparr>per_thread_head_p := nx b, th_free_count := th_free_count (ts ! i) - 1,
      th_alloc_count := th_alloc_count (ts ! i) + 1\<rparr>"
  let ?p = "p\<lparr>per_thread_list_p := Some (ts[i := ?t])\<rparr>"
  have "list_all2 (thread_rep (nx(b := None))) (ts[i := ?t]) (T[i := xs])"
  proof (rule thread_update)
    show "list_all2 (thread_rep nx) ts T" using p(7,8) assms(2) by simp
    show "thread_rep (nx(b := None)) ?t xs" using hd bxs by (simp add: thread_rep_def)
    show "(nx(b := None)) a = nx a" if "j < length T" "j \<noteq> i" "a \<in> set (T ! j)" for j a
      using distinct_concat_nth[of T j i a] p(5) that t(2) bx by auto
  qed
  moreover have "mset (concat (T[i := xs])) + {#b#} = mset (concat T)"
    using mset_concat_update[OF t(2), of xs] bx by simp
  ultimately have "pool_rep (nx(b := None), ?p, fr) G (T[i := xs])"
    by (intro pool_repI[where D = "G @ concat T"])
      (use p bT bG in \<open>auto simp: mset_subset_eq_exists_conv intro!: exI[of _ "{#b#}"]\<close>)
  then show ?thesis using bx hd(1) by (auto simp: thread_take_def Let_def)
qed


lemma hop_lseg: "lseg nx (Some b) xs q \<Longrightarrow> k < length xs \<Longrightarrow> hop nx k b = Some (xs ! k)"
proof (induction xs arbitrary: b k)
  case (Cons x xs)
  show ?case
  proof (cases k)
    case (Suc j)
    then obtain y ys where "xs = y # ys" using Cons.prems(2) by (cases xs) auto
    then show ?thesis using Cons Suc by auto
  qed (use Cons in auto)
qed simp

lemma last_ptr_Cons: "last_ptr (x # xs) = (if xs = [] then Some x else last_ptr xs)"
  by (simp add: last_ptr_def)

text \<open>Moving the front of the global list to an empty thread list.\<close>

lemma thread_move_rep:
  assumes rep: "pool_rep (nx, p, fr) (b # G) T" and pt: "per_thread_list_p p = Some ts"
    and i: "i < length ts" and empty: "th_free_count (ts ! i) = 0"
    and m: "block_count_for_moving_to_threadlist p \<noteq> 0"
  shows "\<exists>G1 G2 nx' p'. G = G1 @ G2 \<and>
    thread_move i ts b (nx, p, fr) = Some ((MEMPOOL_SUCCESS, Some b, 0), nx', p', fr) \<and>
    pool_rep (nx', p', fr) G2 (T[i := G1]) \<and>
    static_allocated_blocks_count p' = static_allocated_blocks_count p \<and>
    heap_state p' = heap_state p"
proof -
  let ?m = "block_count_for_moving_to_threadlist p"
  note t = thread_lists[OF rep pt i]
  have Ti: "T ! i = []" using t(4) empty by (simp add: unat_eq_0)
  have fc: "unat (free_blocks_count p) = length (b # G)" by (rule pool_free_count[OF rep])
  obtain ts' where p: "lseg nx (head_p p) (b # G) None" "tail_p p = last_ptr (b # G)"
    "free_blocks_count p = of_nat (length (b # G))" "\<not> mempool_lock p" "distinct ((b # G) @ concat T)"
    "\<forall>x\<in>set ((b # G) @ concat T). node_ok x" "list_all2 (thread_rep nx) ts' T"
    "ts' = (case per_thread_list_p p of None \<Rightarrow> [] | Some ts \<Rightarrow> ts)"
    using rep by (rule pool_repE)
  define n where "n = (if ?m < free_blocks_count p then unat ?m else length (b # G))"
  have n: "1 \<le> n" "n \<le> length (b # G)"
  proof -
    have "unat ?m \<noteq> 0" using m by (simp add: unat_eq_0)
    then show "1 \<le> n" "n \<le> length (b # G)"
      using fc by (auto simp: n_def word_less_nat_alt)
  qed
  define G1 where "G1 = take (n - 1) G"
  define G2 where "G2 = drop (n - 1) G"
  have G: "G = G1 @ G2" by (simp add: G1_def G2_def)
  have lG1: "length G1 = n - 1" using n by (simp add: G1_def)
  define nx1 where "nx1 = (if ?m < free_blocks_count p then nx(last (b # G1) := None) else nx)"
  define t' where "t' = (ts ! i)\<lparr>per_thread_head_p := nx1 b, th_free_count := of_nat n - 1\<rparr>"
  define p' where "p' = p\<lparr>head_p := (if G2 = [] then None else Some (hd G2)),
      tail_p := (if ?m < free_blocks_count p then tail_p p else None),
      allocated_blocks_count := allocated_blocks_count p + of_nat n,
      free_blocks_count := free_blocks_count p - of_nat n, per_thread_list_p := Some (ts[i := t'])\<rparr>"
  have seg: "lseg nx (Some b) ((b # G1) @ G2) None" "head_p p = Some b"
    using p(1) G by auto
  have d: "distinct (b # G1 @ G2)" "set (b # G1 @ G2) \<inter> set (concat T) = {}" using p(5) G by auto
  have G2ne: "?m < free_blocks_count p \<Longrightarrow> G2 \<noteq> []"
    using fc n(1) by (auto simp: G2_def n_def word_less_nat_alt)
  have nG2: "\<not> ?m < free_blocks_count p \<Longrightarrow> G2 = []" by (auto simp: G2_def n_def)
  obtain ws w where sp: "b # G1 = ws @ [w]" by (metis append_butlast_last_id list.distinct(1))
  then have w: "w = last (b # G1)" and lw: "length ws = n - 1" using lG1 n by (auto dest: arg_cong[where f = length])
  have segs: "lseg nx (Some b) ws (Some w)" "lseg nx (nx w) G2 None"
    using seg(1) unfolding sp by (auto simp: lseg_append)
  have "distinct ((ws @ [w]) @ G2)" using d(1) by (metis append_Cons sp)
  then have wd: "w \<notin> set ws" "w \<notin> set G2" by auto
  have nx1A: "nx1 = nx(w := None)" if "?m < free_blocks_count p"
    unfolding nx1_def w[symmetric] using that by simp
  have seg1: "lseg nx1 (nx1 b) G1 None"
  proof (cases "?m < free_blocks_count p")
    case True
    have "lseg (nx(w := None)) (Some b) (ws @ [w]) None"
      using segs(1) wd(1) by (simp add: lseg_snoc)
    then have "lseg nx1 (Some b) (b # G1) None" unfolding nx1A[OF True] sp .
    then show ?thesis by simp
  next
    case False
    then show ?thesis using seg(1) nG2 by (simp add: nx1_def)
  qed
  have seg2: "lseg nx1 (head_p p') G2 None"
  proof (cases "?m < free_blocks_count p")
    case True
    then have "nx w = Some (hd G2)" using segs(2) G2ne by (cases G2) auto
    then show ?thesis unfolding nx1A[OF True] using segs(2) wd(2) G2ne[OF True] by (simp add: p'_def)
  qed (use nG2 in \<open>simp add: p'_def\<close>)
  have tail: "tail_p p' = last_ptr G2"
    using p(2) G nG2 G2ne by (auto simp: p'_def last_ptr_Cons last_ptr_append)
  have "of_nat (length (b # G)) = (of_nat n :: u32) + of_nat (length G2)"
    using n by (simp add: G2_def flip: of_nat_add)
  then have free: "free_blocks_count p' = of_nat (length G2)"
    using p(3) by (simp add: p'_def)
  have "w \<in> set (b # G1)" unfolding sp by simp
  then have frame: "nx1 a = nx a" if "a \<notin> set (b # G1)" for a
    using that nx1A by (cases "?m < free_blocks_count p") (auto simp: nx1_def)
  have thr: "list_all2 (thread_rep (nx1(b := None))) (ts[i := t']) (T[i := G1])"
  proof (rule thread_update)
    show "list_all2 (thread_rep nx) ts T" using p(7,8) pt by simp
    show "thread_rep (nx1(b := None)) t' G1"
      using seg1 d(1) lG1 n by (auto simp: thread_rep_def t'_def of_nat_diff)
    show "(nx1(b := None)) a = nx a" if "j < length T" "j \<noteq> i" "a \<in> set (T ! j)" for j a
    proof -
      have "a \<in> set (concat T)" using that by (auto intro: nth_mem)
      then have "a \<notin> set (b # G1)" using d(2) by auto
      then show ?thesis using frame by simp
    qed
  qed
  have "mset (concat (T[i := G1])) = mset (concat T) + mset G1"
    using mset_concat_update[OF t(2), of G1] Ti by simp
  then have "pool_rep (nx1(b := None), p', fr) G2 (T[i := G1])"
    by (intro pool_repI[where D = "(b # G) @ concat T"])
      (use p seg2 tail free thr d(1) G in \<open>auto simp: p'_def mset_subset_eq_exists_conv
         intro!: exI[of _ "{#b#}"]\<close>)
  moreover have "thread_move i ts b (nx, p, fr) = Some ((MEMPOOL_SUCCESS, Some b, 0), nx1(b := None), p', fr)"
  proof (cases "?m < free_blocks_count p")
    case True
    have "unat (?m - 1) = n - 1" using True m by (simp add: n_def unat_minus_one)
    moreover have "hop nx (n - 1) b = Some w"
      using hop_lseg[OF seg(1)[unfolded sp], of "n - 1"] lw by (simp add: nth_append)
    moreover have "nx w = Some (hd G2)" using segs(2) G2ne[OF True] by (cases G2) auto
    ultimately show ?thesis
      using True G2ne[OF True] nx1A[OF True]
      by (simp add: thread_move_def Let_def p'_def t'_def) (simp add: n_def)
  next
    case False
    have "of_nat n = free_blocks_count p" using False p(3) by (simp add: n_def)
    then show ?thesis
      using False nG2 by (simp add: thread_move_def Let_def nx1_def p'_def t'_def)
  qed
  moreover have "static_allocated_blocks_count p' = static_allocated_blocks_count p"
    "heap_state p' = heap_state p" by (simp_all add: p'_def)
  ultimately show ?thesis using G by blast
qed

lemma heap_take_cases:
  "heap_take e hb (nx, p, fr) =
    (if hb \<noteq> 0 \<and> heap_free_blocks_count p \<noteq> 0
     then ((if ev_heap e = None then MEMPOOL_ERROR_MEM_ALLOCATION_FROM_HEAP_FAILURE else MEMPOOL_SUCCESS,
            ev_heap e, if ev_heap e = None then hb else 1),
           (case ev_heap e of None \<Rightarrow> nx | Some b \<Rightarrow> nx(b := None)),
           p\<lparr>heap_allocated_blocks_count := heap_allocated_blocks_count p + 1,
             heap_free_blocks_count := heap_free_blocks_count p - 1,
             heap_allocation_fail_blocks_count :=
               (if ev_heap e = None then heap_allocation_fail_blocks_count p + 1
                else heap_allocation_fail_blocks_count p)\<rparr>, fr)
     else ((MEMPOOL_FAILURE, None, hb), nx,
           p\<lparr>allocation_fail_blocks_count := allocation_fail_blocks_count p + 1\<rparr>, fr))"
  by (auto simp: heap_take_def Let_def split: option.splits)

lemma pool_rep_heap:
  assumes "pool_rep (nx, p, fr) G T" "\<forall>b. ob = Some b \<longrightarrow> b \<notin> set (G @ concat T)"
    "head_p q = head_p p" "tail_p q = tail_p p" "free_blocks_count q = free_blocks_count p"
    "mempool_lock q = mempool_lock p" "per_thread_list_p q = per_thread_list_p p"
  shows "pool_rep (case ob of None \<Rightarrow> nx | Some b \<Rightarrow> nx(b := None), q, fr') G T"
proof -
  let ?nx = "case ob of None \<Rightarrow> nx | Some b \<Rightarrow> nx(b := None)"
  have frame: "\<forall>a. a \<in> set (G @ concat T) \<longrightarrow> ?nx a = nx a"
    using assms(2) by (auto split: option.splits)
  have "lseg ?nx (head_p p) G None = lseg nx (head_p p) G None"
    by (rule lseg_cong) (use frame in auto)
  moreover have "list_all2 (thread_rep nx) (case per_thread_list_p p of None \<Rightarrow> [] | Some ts \<Rightarrow> ts) T"
    using assms(1) by (auto simp: pool_rep_def)
  then have "list_all2 (thread_rep ?nx) (case per_thread_list_p p of None \<Rightarrow> [] | Some ts \<Rightarrow> ts) T"
    by (rule thread_reps_cong) (use frame in auto)
  ultimately show ?thesis using assms by (auto simp: pool_rep_def)
qed


text \<open>The bag of free blocks of a pool, and what a request does to it: \<open>bs\<close> are the blocks a refill
  brought in.\<close>

abbreviation free_bag :: "addr list \<Rightarrow> addr list list \<Rightarrow> addr multiset" where
  "free_bag G T \<equiv> mset G + mset (concat T)"

definition get_outcome ::
  "mem_env \<Rightarrow> u8 \<Rightarrow> memory_pool \<Rightarrow> memory_pool \<Rightarrow> addr multiset \<Rightarrow> addr multiset \<Rightarrow> int \<Rightarrow> ptr \<Rightarrow> u8 \<Rightarrow> bool" where
  "get_outcome e h p p' before after rc ob hb \<longleftrightarrow>
     (rc = MEMPOOL_SUCCESS \<and> hb = 0 \<and> (\<exists>b. ob = Some b \<and> before = add_mset b after) \<and>
       heap_state p' = heap_state p) \<or>
     (rc = MEMPOOL_SUCCESS \<and> h \<noteq> 0 \<and> hb = 1 \<and> ob \<noteq> None \<and> ob = ev_heap e \<and> before = after \<and>
       heap_free_blocks_count p \<noteq> 0 \<and>
       heap_state p' = (heap_free_blocks_count p - 1, heap_allocation_fail_blocks_count p,
         heap_allowed_blocks_count p)) \<or>
     (rc = MEMPOOL_FAILURE \<and> ob = None \<and> before = after \<and> heap_state p' = heap_state p) \<or>
     (rc = MEMPOOL_ERROR_MEM_ALLOCATION_FROM_HEAP_FAILURE \<and> ob = None \<and> before = after \<and>
       heap_free_blocks_count p \<noteq> 0 \<and>
       heap_state p' = (heap_free_blocks_count p - 1, heap_allocation_fail_blocks_count p + 1,
         heap_allowed_blocks_count p))"

lemma heap_take_rep:
  assumes "pool_rep (nx, p, fr) G T" "\<forall>b. ev_heap e = Some b \<longrightarrow> b \<notin> set (G @ concat T)"
  shows "\<exists>rc ob hb nx' p'. heap_take e h (nx, p, fr) = ((rc, ob, hb), nx', p', fr) \<and>
    pool_rep (nx', p', fr) G T \<and> get_outcome e h p p' B B rc ob hb \<and>
    static_allocated_blocks_count p' = static_allocated_blocks_count p"
proof (cases "h \<noteq> 0 \<and> heap_free_blocks_count p \<noteq> 0")
  case True
  let ?q = "p\<lparr>heap_allocated_blocks_count := heap_allocated_blocks_count p + 1,
      heap_free_blocks_count := heap_free_blocks_count p - 1,
      heap_allocation_fail_blocks_count :=
        (if ev_heap e = None then heap_allocation_fail_blocks_count p + 1
         else heap_allocation_fail_blocks_count p)\<rparr>"
  have "pool_rep (case ev_heap e of None \<Rightarrow> nx | Some b \<Rightarrow> nx(b := None), ?q, fr) G T"
    by (rule pool_rep_heap[OF assms]) simp_all
  then show ?thesis using True by (auto simp: heap_take_cases get_outcome_def)
next
  case False
  have "pool_rep (nx, p\<lparr>allocation_fail_blocks_count := allocation_fail_blocks_count p + 1\<rparr>, fr) G T"
    using pool_rep_heap[OF assms(1), of None] by simp
  then show ?thesis using False by (auto simp: heap_take_cases get_outcome_def)
qed

lemma env_fresh_heap:
  assumes "env_fresh e U" "set bs \<subseteq> set (chain_blocks (ev_chain e) 0 k)"
  shows "\<forall>b. ev_heap e = Some b \<longrightarrow> b \<notin> U \<union> set bs"
  using assms env_fresh_chain(3)[OF assms(1), of k] by (fastforce simp: env_fresh_def)

lemma get_mem_block_rep:
  assumes rep: "pool_rep (nx, p, fr) G T" and fresh: "env_fresh e (set (G @ concat T))"
    and thr: "\<forall>ts. per_thread_list_p p = Some ts \<longrightarrow> ev_thread e \<le> length ts"
  shows "\<exists>rc ob hb nx' p' G' T' bs. mempool_mheap_get_mem_block e h (nx, p, fr) =
      Some ((rc, ob, hb), nx', p', fr) \<and> pool_rep (nx', p', fr) G' T' \<and>
    set bs \<inter> set (G @ concat T) = {} \<and> (\<exists>k. bs = chain_blocks (ev_chain e) 0 k) \<and>
    get_outcome e h p p' (free_bag G T + mset bs) (free_bag G' T') rc ob hb \<and>
    static_allocated_blocks_count p' = static_allocated_blocks_count p + of_nat (length bs)"
proof -
  have unlocked: "\<not> mempool_lock p" using rep by (simp add: pool_rep_def)
  obtain bs nx1 p1 k where r: "refill_if_low e (nx, p, fr) = (nx1, p1, fr)"
    "pool_rep (nx1, p1, fr) (G @ bs) T" "set bs \<inter> set (G @ concat T) = {}"
    "bs = chain_blocks (ev_chain e) 0 k" "same_config p p1"
    "static_allocated_blocks_count p1 = static_allocated_blocks_count p + of_nat (length bs)"
    using refill_if_low_rep[OF rep fresh] by blast
  have bs: "\<exists>k. bs = chain_blocks (ev_chain e) 0 k" using r(4) by blast
  have nil: "\<exists>k. [] = chain_blocks (ev_chain e) 0 k" by (rule exI[of _ 0]) simp
  have hfree: "heap_state p1 = heap_state p"
    using r(5) by (simp add: same_config_def)
  have heap: "\<exists>rc ob hb nx' p'. heap_take e h (nx1, p1, fr) = ((rc, ob, hb), nx', p', fr) \<and>
      pool_rep (nx', p', fr) (G @ bs) T \<and>
      get_outcome e h p p' (free_bag G T + mset bs) (free_bag (G @ bs) T) rc ob hb \<and>
      static_allocated_blocks_count p' = static_allocated_blocks_count p1"
  proof -
    have "\<forall>b. ev_heap e = Some b \<longrightarrow> b \<notin> set ((G @ bs) @ concat T)"
      using env_fresh_heap[OF fresh, of bs k] r(4) by auto
    from heap_take_rep[OF r(2) this, of h "free_bag (G @ bs) T"] show ?thesis
      using hfree by (fastforce simp: get_outcome_def ac_simps)
  qed
  have start: "head_p p1 = (case G @ bs of [] \<Rightarrow> None | b # _ \<Rightarrow> Some b)"
    using r(2) lseg_start by (auto simp: pool_rep_def)
  show ?thesis
  proof (cases "ev_thread e \<noteq> 0 \<and> per_thread_list_p p \<noteq> None")
    case False
    then have run: "mempool_mheap_get_mem_block e h (nx, p, fr) =
        (case head_p p1 of Some b \<Rightarrow> Some (global_take b (nx1, p1, fr))
         | None \<Rightarrow> Some (heap_take e h (nx1, p1, fr)))"
      using unlocked r(1) by (auto simp: mempool_mheap_get_mem_block_def split: option.splits)
    show ?thesis
    proof (cases "G @ bs")
      case Nil
      then show ?thesis using run heap start r(3,6) bs by fastforce
    next
      case (Cons b G')
      have "pool_rep (nx1, p1, fr) (b # G') T" using r(2) Cons by simp
      from global_take_rep[OF this] obtain nx' p' where
        g: "global_take b (nx1, p1, fr) = ((MEMPOOL_SUCCESS, Some b, 0), nx', p', fr)"
          "pool_rep (nx', p', fr) G' T" "same_config p1 p'"
          "static_allocated_blocks_count p' = static_allocated_blocks_count p1" by blast
      have "free_bag G T + mset bs = add_mset b (free_bag G' T)"
        using arg_cong[OF Cons, of mset] by (simp add: ac_simps)
      then have "get_outcome e h p p' (free_bag G T + mset bs) (free_bag G' T) MEMPOOL_SUCCESS (Some b) 0"
        using hfree g(3) by (simp add: get_outcome_def same_config_def)
      then show ?thesis using run start Cons g(1,2,4) r(3,6) bs by fastforce
    qed
  next
    case True
    then obtain ts where ts: "per_thread_list_p p = Some ts" by auto
    let ?i = "ev_thread e - 1"
    have i: "?i < length ts" using thr ts True by fastforce
    show ?thesis
    proof (cases "th_free_count (ts ! ?i) = 0")
      case False
      obtain b xs nx' p' where t: "T ! ?i = b # xs"
        "thread_take ?i ts (nx, p, fr) = Some ((MEMPOOL_SUCCESS, Some b, 0), nx', p', fr)"
        "pool_rep (nx', p', fr) G (T[?i := xs])"
        "static_allocated_blocks_count p' = static_allocated_blocks_count p"
        "heap_state p' = heap_state p"
        using thread_take_rep[OF rep ts i False] by blast
      have "free_bag G T = add_mset b (free_bag G (T[?i := xs]))"
        using mset_concat_update[OF thread_lists(2)[OF rep ts i], of xs] t(1) by simp
      then have "get_outcome e h p p' (free_bag G T + mset []) (free_bag G (T[?i := xs])) MEMPOOL_SUCCESS (Some b) 0"
        using t(5) by (simp add: get_outcome_def)
      moreover have "mempool_mheap_get_mem_block e h (nx, p, fr) = thread_take ?i ts (nx, p, fr)"
        using True ts i False by (simp add: mempool_mheap_get_mem_block_def)
      ultimately show ?thesis using t(2,3,4) nil
        by (intro exI[of _ MEMPOOL_SUCCESS] exI[of _ "Some b"] exI[of _ 0] exI[of _ nx'] exI[of _ p']
            exI[of _ G] exI[of _ "T[?i := xs]"] exI[of _ "[]"]) simp
    next
      case empty: True
      have ts1: "per_thread_list_p p1 = Some ts" using r(5) ts by (simp add: same_config_def)
      have run: "mempool_mheap_get_mem_block e h (nx, p, fr) =
          (case head_p p1 of
             Some b \<Rightarrow> if block_count_for_moving_to_threadlist p1 \<noteq> 0
                       then thread_move ?i ts b (nx1, p1, fr) else Some (heap_take e h (nx1, p1, fr))
           | None \<Rightarrow> Some (heap_take e h (nx1, p1, fr)))"
        using True ts i empty unlocked r(1)
        by (cases "head_p p1") (simp_all add: mempool_mheap_get_mem_block_def)
      show ?thesis
      proof (cases "G @ bs = [] \<or> block_count_for_moving_to_threadlist p1 = 0")
        case True
        then have "mempool_mheap_get_mem_block e h (nx, p, fr) = Some (heap_take e h (nx1, p1, fr))"
          using run start by (auto split: list.splits option.splits)
        then show ?thesis using heap r(3,6) bs by fastforce
      next
        case False
        then obtain b G' where bG: "G @ bs = b # G'" by (cases "G @ bs") auto
        have "pool_rep (nx1, p1, fr) (b # G') T" using r(2) bG by simp
        from thread_move_rep[OF this ts1 i empty] False obtain G1 G2 nx' p' where
          t: "G' = G1 @ G2"
            "thread_move ?i ts b (nx1, p1, fr) = Some ((MEMPOOL_SUCCESS, Some b, 0), nx', p', fr)"
            "pool_rep (nx', p', fr) G2 (T[?i := G1])"
            "static_allocated_blocks_count p' = static_allocated_blocks_count p1"
            "heap_state p' = heap_state p1" by auto
        have "T ! ?i = []"
          using thread_lists(4)[OF rep ts i] empty by simp
        then have "mset (concat (T[?i := G1])) = mset (concat T) + mset G1"
          using mset_concat_update[OF thread_lists(2)[OF rep ts i], of G1] by simp
        then have "free_bag G T + mset bs = add_mset b (free_bag G2 (T[?i := G1]))"
          using arg_cong[OF bG, of mset] t(1) by (simp add: ac_simps)
        then have "get_outcome e h p p' (free_bag G T + mset bs) (free_bag G2 (T[?i := G1])) MEMPOOL_SUCCESS (Some b) 0"
          using hfree t(5) by (simp add: get_outcome_def)
        then show ?thesis using run start bG False t(2,3,4) r(3,6) bs by fastforce
      qed
    qed
  qed
qed


section \<open>Releasing blocks\<close>

lemma release_memset_rep:
  assumes "pool_rep (nx, p, fr) G T" "b \<notin> set (G @ concat T)"
  shows "\<exists>nx'. release_memset b (nx, p, fr) = (nx', p, fr) \<and> pool_rep (nx', p, fr) G T"
proof -
  have "pool_rep (nx(b := None), p, fr) G T"
    using pool_rep_heap[OF assms(1), of "Some b" p fr] assms(2) by simp
  then show ?thesis using assms(1) by (auto simp: release_memset_def)
qed

lemma release_to_global_rep:
  assumes "pool_rep (nx, p, fr) G T" "b \<notin> set (G @ concat T)" "node_ok b"
  shows "\<exists>nx' p' fr' G'. release_to_global b (nx, p, fr) = (nx', p', fr') \<and> pool_rep (nx', p', fr') G' T \<and>
    heap_state p' = heap_state p \<and> threshold_max p' = threshold_max p \<and>
    (if unat (threshold_max p) \<le> length G
     then G' = G \<and> fr' = fr @ [b] \<and>
       static_allocated_blocks_count p' = static_allocated_blocks_count p - 1
     else G' = G @ [b] \<and> fr' = fr \<and>
       static_allocated_blocks_count p' = static_allocated_blocks_count p)"
proof -
  obtain ts where p: "lseg nx (head_p p) G None" "tail_p p = last_ptr G"
    "free_blocks_count p = of_nat (length G)" "\<not> mempool_lock p" "distinct (G @ concat T)"
    "\<forall>x\<in>set (G @ concat T). node_ok x" "list_all2 (thread_rep nx) ts T"
    "ts = (case per_thread_list_p p of None \<Rightarrow> [] | Some ts \<Rightarrow> ts)"
    using assms(1) by (rule pool_repE)
  have full: "threshold_max p \<le> free_blocks_count p \<longleftrightarrow> unat (threshold_max p) \<le> length G"
    using pool_free_count[OF assms(1)] by (simp add: word_le_nat_alt)
  show ?thesis
  proof (cases "unat (threshold_max p) \<le> length G")
    case True
    have "pool_rep (nx, p\<lparr>static_allocated_blocks_count := static_allocated_blocks_count p - 1,
        released_blocks_count := released_blocks_count p + 1\<rparr>, fr @ [b]) G T"
      using assms(1) by (simp add: pool_rep_def)
    then show ?thesis using True full by (simp add: release_to_global_def)
  next
    case False
    define nx2 where "nx2 = (case tail_p p of None \<Rightarrow> nx(b := None) | Some t \<Rightarrow> (nx(b := None))(t := Some b))"
    define p2 where "p2 = p\<lparr>head_p := (if tail_p p = None then Some b else head_p p), tail_p := Some b,
        released_blocks_count := released_blocks_count p + 1, free_blocks_count := free_blocks_count p + 1\<rparr>"
    have run: "release_to_global b (nx, p, fr) = (nx2, p2, fr)"
      using False full by (auto simp: release_to_global_def nx2_def p2_def Let_def split: option.splits)
    have seg: "lseg nx2 (head_p p2) (G @ [b]) None"
    proof (cases G rule: rev_cases)
      case Nil
      then show ?thesis using p(2) by (simp add: nx2_def p2_def)
    next
      case (snoc ws w)
      then show ?thesis using p(1,2,5) assms(2) by (auto simp: nx2_def p2_def lseg_append)
    qed
    have thr: "list_all2 (thread_rep nx2) ts T"
    proof (rule thread_reps_cong[OF p(7)])
      show "\<forall>a. a \<in> set (concat T) \<longrightarrow> nx2 a = nx a"
        using p(2,5) assms(2) last_ptr_Some[of G] by (fastforce simp: nx2_def split: option.splits)
    qed
    have "pool_rep (nx2, p2, fr) (G @ [b]) T"
      by (rule pool_repI[where D = "b # G @ concat T"])
        (use seg thr p assms in \<open>auto simp: p2_def\<close>)
    then show ?thesis using run False by (simp add: p2_def)
  qed
qed

lemma release_to_thread_rep:
  assumes rep: "pool_rep (nx, p, fr) G T" "b \<notin> set (G @ concat T)" "node_ok b"
    and ts: "per_thread_list_p p = Some ts" "i < length ts"
  shows "\<exists>nx' p'. release_to_thread i ts b (nx, p, fr) = (nx', p', fr) \<and>
    pool_rep (nx', p', fr) G (T[i := b # T ! i]) \<and> heap_state p' = heap_state p \<and>
    threshold_max p' = threshold_max p \<and>
    static_allocated_blocks_count p' = static_allocated_blocks_count p"
proof -
  note t = thread_lists[OF rep(1) ts]
  obtain ts' where p: "lseg nx (head_p p) G None" "tail_p p = last_ptr G"
    "free_blocks_count p = of_nat (length G)" "\<not> mempool_lock p" "distinct (G @ concat T)"
    "\<forall>x\<in>set (G @ concat T). node_ok x" "list_all2 (thread_rep nx) ts' T"
    "ts' = (case per_thread_list_p p of None \<Rightarrow> [] | Some ts \<Rightarrow> ts)"
    using rep(1) by (rule pool_repE)
  let ?nx = "nx(b := per_thread_head_p (ts ! i))"
  let ?t = "(ts ! i)\<lparr>per_thread_head_p := Some b, th_free_count := th_free_count (ts ! i) + 1,
      th_release_count := th_release_count (ts ! i) + 1\<rparr>"
  let ?p = "p\<lparr>per_thread_list_p := Some (ts[i := ?t])\<rparr>"
  have bT: "b \<notin> set (T ! i)" using rep(2) t(5) by auto
  have "list_all2 (thread_rep ?nx) (ts[i := ?t]) (T[i := b # T ! i])"
  proof (rule thread_update)
    show "list_all2 (thread_rep nx) ts T" using p(7,8) ts(1) by simp
    show "thread_rep ?nx ?t (b # T ! i)" using t(1) bT by (simp add: thread_rep_def)
    show "?nx a = nx a" if "j < length T" "j \<noteq> i" "a \<in> set (T ! j)" for j a
      using rep(2) that nth_mem[of j T] by auto
  qed
  moreover have "mset (concat (T[i := b # T ! i])) = add_mset b (mset (concat T))"
    using mset_concat_update[OF t(2), of "b # T ! i"] by simp
  ultimately have "pool_rep (?nx, ?p, fr) G (T[i := b # T ! i])"
    by (intro pool_repI[where D = "b # G @ concat T"]) (use p rep in auto)
  then show ?thesis by (simp add: release_to_thread_def Let_def)
qed

text \<open>What a release does: the block goes back to the pool, or to the heap.\<close>

definition release_outcome ::
  "memory_pool \<Rightarrow> memory_pool \<Rightarrow> addr list \<Rightarrow> addr list \<Rightarrow> addr multiset \<Rightarrow> addr multiset \<Rightarrow> addr \<Rightarrow> bool" where
  "release_outcome p p' fr fr' before after b \<longleftrightarrow> heap_state p' = heap_state p \<and>
     ((after = add_mset b before \<and> fr' = fr \<and>
        static_allocated_blocks_count p' = static_allocated_blocks_count p) \<or>
      (after = before \<and> fr' = fr @ [b] \<and>
        static_allocated_blocks_count p' = static_allocated_blocks_count p - 1))"

lemma release_mem_block_rep:
  assumes rep: "pool_rep (nx, p, fr) G T" "b \<notin> set (G @ concat T)" "node_ok b"
    and thr: "\<forall>ts. per_thread_list_p p = Some ts \<longrightarrow> ev_thread e \<le> length ts"
    and "heap_b \<noteq> 1"
  shows "\<exists>nx' p' fr' G' T'. mempool_mheap_release_mem_block e b heap_b (nx, p, fr) =
      Some (MEMPOOL_SUCCESS, nx', p', fr') \<and> pool_rep (nx', p', fr') G' T' \<and>
    release_outcome p p' fr fr' (free_bag G T) (free_bag G' T') b \<and>
    (length G \<le> unat (threshold_max p) \<longrightarrow> length G' \<le> unat (threshold_max p'))"
proof -
  have unlocked: "\<not> mempool_lock p" using rep(1) by (simp add: pool_rep_def)
  obtain nx1 where m: "release_memset b (nx, p, fr) = (nx1, p, fr)" "pool_rep (nx1, p, fr) G T"
    using release_memset_rep[OF rep(1,2)] by blast
  show ?thesis
  proof (cases "\<exists>ts. ev_thread e \<noteq> 0 \<and> per_thread_list_p p = Some ts \<and>
      th_free_count (ts ! (ev_thread e - 1)) < block_count_for_moving_to_threadlist p")
    case True
    then obtain ts where ts: "ev_thread e \<noteq> 0" "per_thread_list_p p = Some ts"
      "th_free_count (ts ! (ev_thread e - 1)) < block_count_for_moving_to_threadlist p" by blast
    have i: "ev_thread e - 1 < length ts" using thr ts by fastforce
    obtain nx' p' where t: "release_to_thread (ev_thread e - 1) ts b (nx1, p, fr) = (nx', p', fr)"
      "pool_rep (nx', p', fr) G (T[ev_thread e - 1 := b # T ! (ev_thread e - 1)])"
      "heap_state p' = heap_state p" "threshold_max p' = threshold_max p"
      "static_allocated_blocks_count p' = static_allocated_blocks_count p"
      using release_to_thread_rep[OF m(2) rep(2,3) ts(2) i] by blast
    have "free_bag G (T[ev_thread e - 1 := b # T ! (ev_thread e - 1)]) = add_mset b (free_bag G T)"
      using mset_concat_update[OF thread_lists(2)[OF m(2) ts(2) i], of "b # T ! (ev_thread e - 1)"] by simp
    then have "release_outcome p p' fr fr (free_bag G T)
        (free_bag G (T[ev_thread e - 1 := b # T ! (ev_thread e - 1)])) b"
      using t(3,5) by (simp add: release_outcome_def)
    moreover have "mempool_mheap_release_mem_block e b heap_b (nx, p, fr) = Some (MEMPOOL_SUCCESS, nx', p', fr)"
      using ts i m(1) t(1) assms(5) by (simp add: mempool_mheap_release_mem_block_def)
    ultimately show ?thesis using t(2,4) by fastforce
  next
    case False
    obtain nx' p' fr' G' where g: "release_to_global b (nx1, p, fr) = (nx', p', fr')"
      "pool_rep (nx', p', fr') G' T" "heap_state p' = heap_state p"
      "threshold_max p' = threshold_max p"
      "if unat (threshold_max p) \<le> length G
       then G' = G \<and> fr' = fr @ [b] \<and>
         static_allocated_blocks_count p' = static_allocated_blocks_count p - 1
       else G' = G @ [b] \<and> fr' = fr \<and>
         static_allocated_blocks_count p' = static_allocated_blocks_count p"
      using release_to_global_rep[OF m(2) rep(2,3)] by blast
    have "\<not> (ev_thread e \<noteq> 0 \<and> (\<exists>ts. per_thread_list_p p = Some ts \<and> length ts \<le> ev_thread e - 1))"
      using thr by fastforce
    then have "mempool_mheap_release_mem_block e b heap_b (nx, p, fr) = Some (MEMPOOL_SUCCESS, nx', p', fr')"
      using False m(1) g(1) unlocked assms(5)
      by (cases "per_thread_list_p p") (auto simp: mempool_mheap_release_mem_block_def)
    moreover have "release_outcome p p' fr fr' (free_bag G T) (free_bag G' T) b"
      using g(3,5) by (auto simp: release_outcome_def split: if_splits)
    moreover have "length G \<le> unat (threshold_max p) \<longrightarrow> length G' \<le> unat (threshold_max p')"
      using g(4,5) by (auto split: if_splits)
    ultimately show ?thesis using g(2) by blast
  qed
qed


section \<open>Creating and deleting\<close>

text \<open>The pool structure as \<^verbatim>\<open>calloc\<close> returns it.\<close>

definition zero_pool :: "string \<Rightarrow> memory_pool" where
  "zero_pool name = \<lparr>mempool_name = name, mempool_type = 0, mempool_lock = False,
     per_thread_list_p = None, block_count_for_moving_to_threadlist = 0, head_p = None, tail_p = None,
     bit_map = 0, mp_flags = 0, free_blocks_count = 0, allocated_blocks_count = 0,
     released_blocks_count = 0, allocation_fail_blocks_count = 0, released_fail_blocks_count = 0,
     heap_free_blocks_count = 0, heap_allocated_blocks_count = 0, heap_released_blocks_count = 0,
     heap_allocation_fail_blocks_count = 0, heap_allowed_blocks_count = 0, static_blocks = 0,
     total_blocks_count = 0, block_size = 0, static_allocated_blocks_count = 0, threshold_max = 0,
     threshold_min = 0, replenish_count = 0\<rparr>"

definition pool_for :: "string \<Rightarrow> mempool_params \<Rightarrow> memory_pool" where
  "pool_for name pp = (zero_pool name)\<lparr>total_blocks_count := pp_max_blocks pp, block_size := pp_block_size pp\<rparr>"

lemma create_rep:
  assumes "mempool_create_mheap_pool e (Some pp) (nx, pool_for name pp, fr0) = Some (rc, nx', Some p, fr)"
    "rc = MEMPOOL_SUCCESS" "env_fresh e {}"
  shows "\<exists>G. pool_rep (nx', p, fr) G (case per_thread_list_p p of None \<Rightarrow> [] | Some ts \<Rightarrow> replicate (length ts) []) \<and>
    G \<noteq> [] \<and> G = chain_blocks (ev_chain e) 0 (unat (pp_threshold_max pp)) \<and>
    static_allocated_blocks_count p = of_nat (length G) \<and>
    heap_state p = (pp_max_blocks pp - pp_static_blocks pp, 0, pp_max_blocks pp - pp_static_blocks pp) \<and>
    threshold_max p = pp_threshold_max pp \<and> mempool_type p = 0 \<and>
    (\<not> pp_list_per_thread_required pp \<longrightarrow> per_thread_list_p p = None)"
proof -
  obtain nx1 h t c where ch:
    "memory_alloc_chain_memchunks (pp_threshold_max pp) (ev_chain e) 0 nx = (nx1, h, t, c)"
    by (metis prod_cases4)
  let ?G = "chain_blocks (ev_chain e) 0 (unat (pp_threshold_max pp))"
  note fresh = env_fresh_chain[OF assms(3), of "unat (pp_threshold_max pp)"]
  note r = memory_alloc_chain_rep[OF ch fresh(1)]
  have h: "h \<noteq> None"
    using assms(1,2) ch by (auto simp: mempool_create_mheap_pool_def split: if_splits option.splits)
  then have ne: "?G \<noteq> []" using r by auto
  have T: "list_all2 (thread_rep nx1) (replicate n \<lparr>per_thread_head_p = None, th_alloc_count = 0,
      th_free_count = 0, th_release_count = 0\<rparr>) (replicate n [])" for n
    by (induction n) (auto simp: thread_rep_def)
  have cT: "concat (replicate n []) = []" for n :: nat
    by (induction n) auto
  show ?thesis
    using assms(1,2) ch h ne r fresh T[of "Suc (ev_threads e)"] cT
    by (auto simp: mempool_create_mheap_pool_def mempool_set_threshold_values_def
        set_mempool_attributes_def pool_for_def zero_pool_def mheap_prepare_def Let_def pool_rep_def
        split: if_splits prod.splits)
qed

lemma drain_thread_rep:
  "lseg nx h xs None \<Longrightarrow> lseg nx (head_p p) G None \<Longrightarrow> distinct (xs @ G) \<Longrightarrow>
   \<exists>nx' p'. drain_thread h (nx, p) = Some (nx', p') \<and> lseg nx' (head_p p') (rev xs @ G) None \<and>
     per_thread_list_p p' = per_thread_list_p p \<and> (\<forall>a. a \<notin> set xs \<longrightarrow> nx' a = nx a)"
proof (induction xs arbitrary: h nx p G)
  case Nil
  then show ?case by (simp add: drain_thread.simps)
next
  case (Cons x xs)
  let ?nx = "nx(x := head_p p)"
  let ?p = "p\<lparr>head_p := h, released_blocks_count := released_blocks_count p + 1,
      free_blocks_count := free_blocks_count p + 1\<rparr>"
  have "lseg ?nx (nx x) xs None" "lseg ?nx (head_p ?p) (x # G) None" "distinct (xs @ x # G)"
    using Cons.prems by auto
  from Cons.IH[OF this] obtain nx' p' where
    "drain_thread (nx x) (?nx, ?p) = Some (nx', p')" "lseg nx' (head_p p') (rev xs @ x # G) None"
    "per_thread_list_p p' = per_thread_list_p ?p" "\<forall>a. a \<notin> set xs \<longrightarrow> nx' a = ?nx a" by blast
  moreover have "drain_thread h (nx, p) = drain_thread (nx x) (?nx, ?p)"
    using Cons.prems(1) by (subst drain_thread.simps) simp
  ultimately show ?case by (intro exI[of _ nx'] exI[of _ p']) auto
qed

lemma drain_threads_rep:
  "list_all2 (thread_rep nx) ts T \<Longrightarrow> lseg nx (head_p p) G None \<Longrightarrow> distinct (G @ concat T) \<Longrightarrow>
   \<exists>nx' p' G'. drain_threads ts (nx, p) = Some (nx', p') \<and> lseg nx' (head_p p') G' None \<and>
     mset G' = mset G + mset (concat T)"
proof (induction ts arbitrary: nx p G T)
  case Nil
  then show ?case by auto
next
  case (Cons t ts)
  obtain xs T' where T: "T = xs # T'" "thread_rep nx t xs" "list_all2 (thread_rep nx) ts T'"
    using Cons.prems(1) by (auto simp: list_all2_Cons1)
  obtain nx1 p1 where d: "drain_thread (per_thread_head_p t) (nx, p) = Some (nx1, p1)"
    "lseg nx1 (head_p p1) (rev xs @ G) None" "\<forall>a. a \<notin> set xs \<longrightarrow> nx1 a = nx a"
  proof -
    have "lseg nx (per_thread_head_p t) xs None" "distinct (xs @ G)"
      using Cons.prems(3) T by (auto simp: thread_rep_def)
    from drain_thread_rep[OF this(1) Cons.prems(2) this(2)] show ?thesis
      using that by blast
  qed
  have "list_all2 (thread_rep nx1) ts T'"
    by (rule thread_reps_cong[OF T(3)]) (use d(3) Cons.prems(3) T(1) in auto)
  moreover have "distinct ((rev xs @ G) @ concat T')"
    using Cons.prems(3) T(1) by auto
  ultimately obtain nx' p' G' where "drain_threads ts (nx1, p1) = Some (nx', p')"
    "lseg nx' (head_p p') G' None" "mset G' = mset (rev xs @ G) + mset (concat T')"
    using Cons.IH[OF _ d(2)] by blast
  then show ?case using d(1) T(1) by (auto simp: ac_simps)
qed

lemma free_chain_rep: "lseg nx h xs None \<Longrightarrow> free_chain nx h fr = Some (fr @ xs)"
proof (induction xs arbitrary: h fr)
  case (Cons x xs)
  then have "free_chain nx h fr = free_chain nx (nx x) (fr @ [x])"
    by (subst free_chain.simps) simp
  then show ?case using Cons by simp
qed (simp add: free_chain.simps)


section \<open>A pool in use\<close>

text \<open>A pool with the static and the heap blocks that its users hold. Every call may run on any
  thread of the system and see any outcome of \<^verbatim>\<open>calloc\<close>, as long as memory in use is not returned
  again; users release a block they hold, with the heap flag they were given.\<close>

inductive mheap_run :: "pool_st \<Rightarrow> addr list \<Rightarrow> addr list \<Rightarrow> bool" where
  run_create: "mempool_create_mheap_pool e (Some pp) (nx, pool_for name pp, []) =
      Some (MEMPOOL_SUCCESS, nx', Some p, fr) \<Longrightarrow> env_fresh e {} \<Longrightarrow> mheap_run (nx', p, fr) [] []"
| run_get_static: "mheap_run (nx, p, fr) out hout \<Longrightarrow>
    mempool_mheap_get_mem_block e h (nx, p, fr) = Some ((MEMPOOL_SUCCESS, Some b, 0), s') \<Longrightarrow>
    (\<forall>G T. pool_rep (nx, p, fr) G T \<longrightarrow> env_fresh e (set (G @ concat T) \<union> set out \<union> set hout)) \<Longrightarrow>
    (\<forall>ts. per_thread_list_p p = Some ts \<longrightarrow> ev_thread e \<le> length ts) \<Longrightarrow> mheap_run s' (b # out) hout"
| run_get_heap: "mheap_run (nx, p, fr) out hout \<Longrightarrow>
    mempool_mheap_get_mem_block e h (nx, p, fr) = Some ((MEMPOOL_SUCCESS, Some b, 1), s') \<Longrightarrow>
    (\<forall>G T. pool_rep (nx, p, fr) G T \<longrightarrow> env_fresh e (set (G @ concat T) \<union> set out \<union> set hout)) \<Longrightarrow>
    (\<forall>ts. per_thread_list_p p = Some ts \<longrightarrow> ev_thread e \<le> length ts) \<Longrightarrow> mheap_run s' out (b # hout)"
| run_get_fail: "mheap_run (nx, p, fr) out hout \<Longrightarrow>
    mempool_mheap_get_mem_block e h (nx, p, fr) = Some ((rc, None, h'), s') \<Longrightarrow>
    (\<forall>G T. pool_rep (nx, p, fr) G T \<longrightarrow> env_fresh e (set (G @ concat T) \<union> set out \<union> set hout)) \<Longrightarrow>
    (\<forall>ts. per_thread_list_p p = Some ts \<longrightarrow> ev_thread e \<le> length ts) \<Longrightarrow> mheap_run s' out hout"
| run_release_static: "mheap_run (nx, p, fr) out hout \<Longrightarrow> b \<in> set out \<Longrightarrow>
    mempool_mheap_release_mem_block e b 0 (nx, p, fr) = Some (rc, s') \<Longrightarrow>
    (\<forall>ts. per_thread_list_p p = Some ts \<longrightarrow> ev_thread e \<le> length ts) \<Longrightarrow> mheap_run s' (remove1 b out) hout"
| run_release_heap: "mheap_run (nx, p, fr) out hout \<Longrightarrow> b \<in> set hout \<Longrightarrow>
    mempool_mheap_release_mem_block e b 1 (nx, p, fr) = Some (rc, s') \<Longrightarrow>
    mheap_run s' out (remove1 b hout)"

definition run_inv :: "pool_st \<Rightarrow> addr list \<Rightarrow> addr list \<Rightarrow> addr list \<Rightarrow> addr list list \<Rightarrow> bool" where
  "run_inv s out hout G T \<longleftrightarrow> pool_rep s G T \<and> distinct (G @ concat T @ out) \<and> (\<forall>b\<in>set out. node_ok b) \<and>
     static_allocated_blocks_count (fst (snd s)) = of_nat (length G + length (concat T) + length out) \<and>
     heap_free_blocks_count (fst (snd s)) + of_nat (length hout) +
       heap_allocation_fail_blocks_count (fst (snd s)) = heap_allowed_blocks_count (fst (snd s))"

lemma run_inv_get:
  assumes "run_inv (nx, p, fr) out hout G T"
    "mempool_mheap_get_mem_block e h (nx, p, fr) = Some ((rc, ob, hb), s')"
    "env_fresh e (set (G @ concat T) \<union> set out \<union> set hout)"
    "\<forall>ts. per_thread_list_p p = Some ts \<longrightarrow> ev_thread e \<le> length ts"
  shows "\<exists>G' T'. run_inv s'
    (if rc = MEMPOOL_SUCCESS \<and> hb = 0 then the ob # out else out)
    (if rc = MEMPOOL_SUCCESS \<and> hb = 1 then the ob # hout else hout) G' T'"
proof -
  have rep: "pool_rep (nx, p, fr) G T" using assms(1) by (simp add: run_inv_def)
  have fr: "env_fresh e (set (G @ concat T))" using assms(3) by (auto simp: env_fresh_def)
  obtain nx' p' G' T' bs k where g: "s' = (nx', p', fr)" "pool_rep (nx', p', fr) G' T'"
    "set bs \<inter> set (G @ concat T) = {}" "bs = chain_blocks (ev_chain e) 0 k"
    "get_outcome e h p p' (free_bag G T + mset bs) (free_bag G' T') rc ob hb"
    "static_allocated_blocks_count p' = static_allocated_blocks_count p + of_nat (length bs)"
    using get_mem_block_rep[OF rep fr assms(4), of h] assms(2) by auto
  have bs: "distinct bs" "set bs \<inter> set out = {}" "\<forall>b\<in>set bs. node_ok b"
    using env_fresh_chain[OF assms(3), of k] by (auto simp: g(4))
  have inv: "distinct (G @ concat T @ out)" "\<forall>b\<in>set out. node_ok b"
    "static_allocated_blocks_count p = of_nat (length G + length (concat T) + length out)"
    "heap_free_blocks_count p + of_nat (length hout) + heap_allocation_fail_blocks_count p =
       heap_allowed_blocks_count p"
    using assms(1) by (auto simp: run_inv_def)
  have ok: "\<forall>x\<in>set (G @ concat T). node_ok x" using rep by (auto simp: pool_rep_def)
  have dall: "distinct ((G @ concat T @ out) @ bs)" using inv(1) g(3) bs(1,2) by auto
  have perm: "distinct (G' @ concat T' @ o')" if "mset (G' @ concat T' @ o') = mset ((G @ concat T @ out) @ bs)" for o'
    using mset_eq_imp_distinct_iff[OF that] dall by blast
  consider (static) b where "rc = MEMPOOL_SUCCESS" "hb = 0" "ob = Some b"
      "free_bag G T + mset bs = add_mset b (free_bag G' T')" "heap_state p' = heap_state p"
    | (heap) b where "rc = MEMPOOL_SUCCESS" "hb = 1" "ob = Some b"
      "free_bag G T + mset bs = free_bag G' T'"
      "heap_state p' = (heap_free_blocks_count p - 1, heap_allocation_fail_blocks_count p,
         heap_allowed_blocks_count p)"
    | (fail) "rc \<noteq> MEMPOOL_SUCCESS" "free_bag G T + mset bs = free_bag G' T'"
      "heap_state p' = heap_state p \<or>
       heap_state p' = (heap_free_blocks_count p - 1, heap_allocation_fail_blocks_count p + 1,
         heap_allowed_blocks_count p)"
    using g(5) by (auto simp: get_outcome_def)
  then show ?thesis
  proof cases
    case static
    have len: "length G + length (concat T) + length bs = Suc (length G' + length (concat T'))"
      using arg_cong[OF static(4), of size] by simp
    have "b \<in># free_bag G T + mset bs" unfolding static(4) by simp
    then have "node_ok b" using ok bs(3) by auto
    moreover have "distinct (G' @ concat T' @ b # out)"
      by (rule perm) (use static(4) in \<open>simp add: ac_simps\<close>)
    moreover have "static_allocated_blocks_count p' = of_nat (length G' + length (concat T') + length (b # out))"
    proof -
      have "static_allocated_blocks_count p' = of_nat ((length G + length (concat T) + length bs) + length out)"
        using g(6) inv(3) by (simp add: ac_simps)
      then show ?thesis unfolding len by simp
    qed
    ultimately have "run_inv (nx', p', fr) (b # out) hout G' T'"
      using g(2) inv(2,4) static(5) by (simp add: run_inv_def)
    then show ?thesis using static g(1) by auto
  next
    case heap
    have len: "length G + length (concat T) + length bs = length G' + length (concat T')"
      using arg_cong[OF heap(4), of size] by simp
    have "distinct (G' @ concat T' @ out)"
      by (rule perm) (use heap(4) in \<open>simp add: ac_simps\<close>)
    moreover have "static_allocated_blocks_count p' = of_nat (length G' + length (concat T') + length out)"
    proof -
      have "static_allocated_blocks_count p' = of_nat ((length G + length (concat T) + length bs) + length out)"
        using g(6) inv(3) by (simp add: ac_simps)
      then show ?thesis unfolding len by simp
    qed
    ultimately have "run_inv (nx', p', fr) out (b # hout) G' T'"
      using g(2) inv(2,4) heap(5) by (simp add: run_inv_def)
    then show ?thesis using heap g(1) by auto
  next
    case fail
    have len: "length G + length (concat T) + length bs = length G' + length (concat T')"
      using arg_cong[OF fail(2), of size] by simp
    have "distinct (G' @ concat T' @ out)"
      by (rule perm) (use fail(2) in \<open>simp add: ac_simps\<close>)
    moreover have "static_allocated_blocks_count p' = of_nat (length G' + length (concat T') + length out)"
    proof -
      have "static_allocated_blocks_count p' = of_nat ((length G + length (concat T) + length bs) + length out)"
        using g(6) inv(3) by (simp add: ac_simps)
      then show ?thesis unfolding len by simp
    qed
    moreover have "heap_free_blocks_count p' + of_nat (length hout) +
        heap_allocation_fail_blocks_count p' = heap_allowed_blocks_count p'"
      using fail(3)
    proof
      assume "heap_state p' = (heap_free_blocks_count p - 1, heap_allocation_fail_blocks_count p + 1,
        heap_allowed_blocks_count p)"
      then have "heap_free_blocks_count p' = heap_free_blocks_count p - 1"
        "heap_allocation_fail_blocks_count p' = heap_allocation_fail_blocks_count p + 1"
        "heap_allowed_blocks_count p' = heap_allowed_blocks_count p" by simp_all
      then show ?thesis unfolding inv(4)[symmetric] by simp
    qed (use inv(4) in simp)
    ultimately have "run_inv (nx', p', fr) out hout G' T'"
      using g(2) inv(2) by (simp add: run_inv_def)
    then show ?thesis using fail g(1) by auto
  qed
qed

lemma run_inv_release:
  assumes "run_inv (nx, p, fr) out hout G T" "b \<in> set out"
    "mempool_mheap_release_mem_block e b 0 (nx, p, fr) = Some (rc, s')"
    "\<forall>ts. per_thread_list_p p = Some ts \<longrightarrow> ev_thread e \<le> length ts"
  shows "\<exists>G' T'. run_inv s' (remove1 b out) hout G' T'"
proof -
  have inv: "pool_rep (nx, p, fr) G T" "distinct (G @ concat T @ out)" "\<forall>b\<in>set out. node_ok b"
    "static_allocated_blocks_count p = of_nat (length G + length (concat T) + length out)"
    using assms(1) by (auto simp: run_inv_def)
  have b: "b \<notin> set (G @ concat T)" "node_ok b" using inv(2,3) assms(2) by auto
  obtain nx' p' fr' G' T' where r: "s' = (nx', p', fr')" "pool_rep (nx', p', fr') G' T'"
    "release_outcome p p' fr fr' (free_bag G T) (free_bag G' T') b"
    using release_mem_block_rep[OF inv(1) b assms(4), of 0] assms(3) by auto
  have mo: "add_mset b (mset (remove1 b out)) = mset out" using assms(2) by simp
  have lo: "length out = Suc (length (remove1 b out))"
    by (metis mo size_add_mset size_mset)
  have out': "distinct (remove1 b out)" "set (remove1 b out) \<subseteq> set out"
    using inv(2) set_remove1_subset[of b out] by auto
  have heap: "heap_state p' = heap_state p" using r(3) by (simp add: release_outcome_def)
  show ?thesis
  proof (cases "free_bag G' T' = add_mset b (free_bag G T) \<and>
      static_allocated_blocks_count p' = static_allocated_blocks_count p")
    case True
    have "mset (G' @ concat T' @ remove1 b out) = free_bag G' T' + mset (remove1 b out)"
      by (simp add: add.assoc)
    also have "\<dots> = free_bag G T + add_mset b (mset (remove1 b out))"
      by (simp only: conjunct1[OF True] union_mset_add_mset_left union_mset_add_mset_right)
    also have "\<dots> = mset (G @ concat T @ out)"
      unfolding mo by (simp add: add.assoc)
    finally have "mset (G' @ concat T' @ remove1 b out) = mset (G @ concat T @ out)" .
    then have "distinct (G' @ concat T' @ remove1 b out)"
      using inv(2) mset_eq_imp_distinct_iff by blast
    moreover have "length G' + length (concat T') = Suc (length G + length (concat T))"
      using arg_cong[OF conjunct1[OF True], of size] by simp
    ultimately have "run_inv (nx', p', fr') (remove1 b out) hout G' T'"
      using assms(1) r(2) True lo out'(2) heap by (auto simp: run_inv_def)
    then show ?thesis using r(1) by auto
  next
    case False
    then have F: "free_bag G' T' = free_bag G T"
      "static_allocated_blocks_count p' = static_allocated_blocks_count p - 1"
      using r(3) by (auto simp: release_outcome_def)
    have "mset (remove1 b out) \<subseteq># mset out" unfolding mo[symmetric] by simp
    then have "free_bag G' T' + mset (remove1 b out) \<subseteq># free_bag G T + mset out"
      unfolding F(1) by (rule subset_mset.add_left_mono)
    then have "mset (G' @ concat T' @ remove1 b out) \<subseteq># mset (G @ concat T @ out)"
      by (simp only: mset_append add.assoc)
    then have "distinct (G' @ concat T' @ remove1 b out)"
      using inv(2) distinct_submset by blast
    moreover have "length G' + length (concat T') = length G + length (concat T)"
      using arg_cong[OF F(1), of size] by simp
    ultimately have "run_inv (nx', p', fr') (remove1 b out) hout G' T'"
      using assms(1) r(2) F(2) lo out'(2) heap by (auto simp: run_inv_def)
    then show ?thesis using r(1) by auto
  qed
qed


lemma mheap_run_inv: "mheap_run s out hout \<Longrightarrow> \<exists>G T. run_inv s out hout G T"
proof (induction rule: mheap_run.induct)
  case (run_create e pp nx name nx' p fr)
  obtain G where G: "pool_rep (nx', p, fr) G
      (case per_thread_list_p p of None \<Rightarrow> [] | Some ts \<Rightarrow> replicate (length ts) [])"
    "static_allocated_blocks_count p = of_nat (length G)"
    "heap_state p = (pp_max_blocks pp - pp_static_blocks pp, 0, pp_max_blocks pp - pp_static_blocks pp)"
    using create_rep[OF run_create(1) refl run_create(2)] by blast
  have "concat (replicate n []) = []" for n :: nat by (induction n) auto
  then have "run_inv (nx', p, fr) [] [] G
      (case per_thread_list_p p of None \<Rightarrow> [] | Some ts \<Rightarrow> replicate (length ts) [])"
    using G by (auto simp: run_inv_def pool_rep_def split: option.splits)
  then show ?case by blast
next
  case (run_get_static nx p fr out hout e h b s')
  then obtain G T where inv: "run_inv (nx, p, fr) out hout G T" by blast
  then have "env_fresh e (set (G @ concat T) \<union> set out \<union> set hout)"
    using run_get_static by (auto simp: run_inv_def)
  from run_inv_get[OF inv run_get_static(2) this run_get_static(4)] show ?case by simp
next
  case (run_get_heap nx p fr out hout e h b s')
  then obtain G T where inv: "run_inv (nx, p, fr) out hout G T" by blast
  then have "env_fresh e (set (G @ concat T) \<union> set out \<union> set hout)"
    using run_get_heap by (auto simp: run_inv_def)
  from run_inv_get[OF inv run_get_heap(2) this run_get_heap(4)] show ?case by simp
next
  case (run_get_fail nx p fr out hout e h rc h' s')
  then obtain G T where inv: "run_inv (nx, p, fr) out hout G T" by blast
  then have f: "env_fresh e (set (G @ concat T) \<union> set out \<union> set hout)" and rep: "pool_rep (nx, p, fr) G T"
    using run_get_fail by (auto simp: run_inv_def)
  have "rc \<noteq> MEMPOOL_SUCCESS"
  proof -
    have "env_fresh e (set (G @ concat T))" using f by (auto simp: env_fresh_def)
    from get_mem_block_rep[OF rep this run_get_fail(4), of h] run_get_fail(2)
    show ?thesis by (auto simp: get_outcome_def)
  qed
  then show ?case using run_inv_get[OF inv run_get_fail(2) f run_get_fail(4)] by simp
next
  case (run_release_static nx p fr out hout b e rc s')
  then show ?case using run_inv_release by blast
next
  case (run_release_heap nx p fr out hout b e rc s')
  then obtain G T where inv: "run_inv (nx, p, fr) out hout G T" by blast
  let ?q = "p\<lparr>heap_released_blocks_count := heap_released_blocks_count p + 1,
      heap_free_blocks_count := heap_free_blocks_count p + 1\<rparr>"
  have "s' = (nx, ?q, fr @ [b])"
    using run_release_heap(3) inv by (auto simp: mempool_mheap_release_mem_block_def run_inv_def pool_rep_def)
  moreover have "length hout = Suc (length (remove1 b hout))"
    using run_release_heap(2) by (simp add: length_remove1) (metis Suc_pred length_pos_if_in_set)
  ultimately have "run_inv s' out (remove1 b hout) G T"
    using inv by (simp add: run_inv_def pool_rep_def ac_simps)
  then show ?case by blast
qed

section \<open>A small pool\<close>

text \<open>A pool with two blocks, one per-thread list and an allowance of one heap block, on which the
  properties are exercised.\<close>

definition demo_params :: mempool_params where
  "demo_params = \<lparr>pp_mempool_type = 0, pp_block_size = 64, pp_max_blocks = 3,
     pp_memset_not_required = False, pp_list_per_thread_required = True, pp_noof_blocks_to_move = 1,
     pp_static_blocks = 2, pp_threshold_min = 0, pp_threshold_max = 2, pp_replenish_count = 1\<rparr>"

definition demo_env :: "nat \<Rightarrow> mem_env" where
  "demo_env th = \<lparr>ev_thread = th, ev_threads = 1,
     ev_chain = (\<lambda>i. if i < 2 then Some (10 + i) else None), ev_heap = None, ev_lists_ok = True\<rparr>"

definition demo_pool :: memory_pool where
  "demo_pool = (pool_for ''p'' demo_params)\<lparr>
     static_blocks := 2, heap_allowed_blocks_count := 1, heap_free_blocks_count := 1,
     head_p := Some 10, tail_p := Some 11, free_blocks_count := 2, static_allocated_blocks_count := 2,
     threshold_max := 2, replenish_count := 1, bit_map := 3,
     per_thread_list_p := Some (replicate 2 \<lparr>per_thread_head_p = None, th_alloc_count = 0,
       th_free_count = 0, th_release_count = 0\<rparr>),
     block_count_for_moving_to_threadlist := 1\<rparr>"

lemma demo_env_sel [simp]:
  "ev_lists_ok (demo_env th)" "ev_threads (demo_env th) = 1" "ev_thread (demo_env th) = th"
  "ev_heap (demo_env th) = None"
  by (simp_all add: demo_env_def)

lemma demo_chain:
  "memory_alloc_chain_memchunks 2 (ev_chain (demo_env th)) 0 (\<lambda>_. None) =
   ((\<lambda>_. None)(10 \<mapsto> 11), Some 10, Some 11, 2)"
proof -
  have u: "unat (2 :: u32) = Suc (Suc 0)" by simp
  show ?thesis
    unfolding memory_alloc_chain_memchunks_def u by (simp add: demo_env_def fun_eq_iff)
qed

lemma demo_params_sel [simp]:
  "pp_block_size demo_params = 64" "pp_max_blocks demo_params = 3" "pp_static_blocks demo_params = 2"
  "pp_threshold_min demo_params = 0" "pp_threshold_max demo_params = 2"
  "pp_replenish_count demo_params = 1" "pp_list_per_thread_required demo_params"
  "pp_noof_blocks_to_move demo_params = 1" "\<not> pp_memset_not_required demo_params"
  by (simp_all add: demo_params_def)

lemma replicate_two: "replicate 2 x = [x, x]"
  by (simp add: numeral_2_eq_2)

lemma demo_create:
  "mempool_create_mheap_pool (demo_env 0) (Some demo_params)
     ((\<lambda>_. None), pool_for ''p'' demo_params, []) =
   Some (MEMPOOL_SUCCESS, (\<lambda>_. None)(10 \<mapsto> 11), Some demo_pool, [])"
  by (simp add: mempool_create_mheap_pool_def demo_chain mempool_set_threshold_values_def
      set_mempool_attributes_def mheap_prepare_def Let_def demo_pool_def pool_for_def zero_pool_def
      replicate_two)

lemma demo_fresh: "U \<inter> {10, 11} = {} \<Longrightarrow> env_fresh (demo_env th) U"
  by (auto simp: env_fresh_def demo_env_def node_ok_def split: if_splits dest!: less_2_cases)

lemma demo_rep: "pool_rep ((\<lambda>_. None)(10 \<mapsto> 11), demo_pool, []) [10, 11] [[], []]"
  by (simp add: pool_rep_def demo_pool_def pool_for_def zero_pool_def node_ok_def thread_rep_def
      replicate_two)

section \<open>Properties\<close>

text \<open>C7: however a pool is used - by any threads, with any outcomes of \<^verbatim>\<open>calloc\<close> - a block that is
  held is never on a free list and never handed out again while it is held, the static allocation
  counter is exactly the number of free and held blocks, and the number of heap blocks still allowed,
  plus those held, plus the failed heap allocations, is the configured allowance (so each failed
  allocation lowers the allowance for good, although the comment says the counters are reverted).\<close>

theorem mheap_run_safe:
  assumes "mheap_run (nx, p, fr) out hout"
  shows "\<exists>G T. pool_rep (nx, p, fr) G T \<and> distinct (G @ concat T @ out) \<and>
    static_allocated_blocks_count p = of_nat (length G + length (concat T) + length out) \<and>
    heap_free_blocks_count p + of_nat (length hout) + heap_allocation_fail_blocks_count p =
      heap_allowed_blocks_count p"
  using mheap_run_inv[OF assms] by (auto simp: run_inv_def)

theorem mheap_run_safe_witness:
  "\<exists>G T. pool_rep ((\<lambda>_. None)(10 \<mapsto> 11), demo_pool, []) G T \<and>
     static_allocated_blocks_count demo_pool = of_nat (length G + length (concat T) + length ([] :: addr list))"
proof -
  have "mheap_run ((\<lambda>_. None)(10 \<mapsto> 11), demo_pool, []) [] []"
    using demo_create demo_fresh[of "{}" 0] by (rule run_create) simp
  from mheap_run_safe[OF this] show ?thesis by blast
qed

text \<open>On a well-formed pool a request always returns. It hands out one block of the pool (possibly
  one a refill has just brought in), or a new heap block when the caller allows it and the allowance
  is not used up, or an error code and no block; the other free blocks stay in the pool.\<close>

theorem mheap_get_correct:
  assumes "pool_rep (nx, p, fr) G T" "env_fresh e (set (G @ concat T))"
    "\<forall>ts. per_thread_list_p p = Some ts \<longrightarrow> ev_thread e \<le> length ts"
  shows "\<exists>rc ob hb nx' p' G' T' bs. mempool_mheap_get_mem_block e h (nx, p, fr) =
      Some ((rc, ob, hb), nx', p', fr) \<and> pool_rep (nx', p', fr) G' T' \<and>
    set bs \<inter> set (G @ concat T) = {} \<and>
    get_outcome e h p p' (free_bag G T + mset bs) (free_bag G' T') rc ob hb \<and>
    static_allocated_blocks_count p' = static_allocated_blocks_count p + of_nat (length bs)"
  using get_mem_block_rep[OF assms, of h] by blast

theorem mheap_get_correct_witness:
  "\<exists>rc ob hb s'. mempool_mheap_get_mem_block ((demo_env 1)\<lparr>ev_chain := \<lambda>_. None\<rparr>) 1
     ((\<lambda>_. None)(10 \<mapsto> 11), demo_pool, []) = Some ((rc, ob, hb), s')"
proof -
  let ?e = "(demo_env 1)\<lparr>ev_chain := \<lambda>_. None\<rparr>"
  have "env_fresh ?e (set ([10, 11] @ concat [[], []]))" by (simp add: env_fresh_def demo_env_def)
  moreover have "\<forall>ts. per_thread_list_p demo_pool = Some ts \<longrightarrow> ev_thread ?e \<le> length ts"
    by (simp add: demo_pool_def demo_env_def)
  ultimately show ?thesis using mheap_get_correct[OF demo_rep, of ?e 1] by blast
qed

text \<open>Releasing a block that is not on a free list succeeds and puts it on a free list of the pool,
  or returns it to the heap when the global list is at its upper threshold; a release never pushes the
  global list above that threshold.\<close>

theorem mheap_release_correct:
  assumes "pool_rep (nx, p, fr) G T" "b \<notin> set (G @ concat T)" "node_ok b"
    "\<forall>ts. per_thread_list_p p = Some ts \<longrightarrow> ev_thread e \<le> length ts" "heap_b \<noteq> 1"
  shows "\<exists>nx' p' fr' G' T'. mempool_mheap_release_mem_block e b heap_b (nx, p, fr) =
      Some (MEMPOOL_SUCCESS, nx', p', fr') \<and> pool_rep (nx', p', fr') G' T' \<and>
    release_outcome p p' fr fr' (free_bag G T) (free_bag G' T') b \<and>
    (length G \<le> unat (threshold_max p) \<longrightarrow> length G' \<le> unat (threshold_max p'))"
  by (rule release_mem_block_rep[OF assms])

theorem mheap_release_correct_witness:
  "\<exists>s'. mempool_mheap_release_mem_block (demo_env 1) 99 0
     ((\<lambda>_. None)(10 \<mapsto> 11), demo_pool, []) = Some (MEMPOOL_SUCCESS, s')"
proof -
  have "\<forall>ts. per_thread_list_p demo_pool = Some ts \<longrightarrow> ev_thread (demo_env 1) \<le> length ts"
    by (simp add: demo_pool_def demo_env_def)
  then show ?thesis
    using mheap_release_correct[OF demo_rep, of 99 "demo_env 1" 0] by (auto simp: node_ok_def)
qed

text \<open>Deleting a pool returns every free block, those of the thread lists included, to the heap
  exactly once.\<close>

theorem mheap_delete_frees_all:
  assumes "pool_rep (nx, p, fr) G T"
  shows "\<exists>nx' fr'. mempool_delete_mheap_pool (nx, p, fr) = Some (MEMPOOL_SUCCESS, nx', fr @ fr') \<and>
    mset fr' = free_bag G T"
proof -
  obtain ts where p: "lseg nx (head_p p) G None" "tail_p p = last_ptr G"
    "free_blocks_count p = of_nat (length G)" "\<not> mempool_lock p" "distinct (G @ concat T)"
    "\<forall>x\<in>set (G @ concat T). node_ok x" "list_all2 (thread_rep nx) ts T"
    "ts = (case per_thread_list_p p of None \<Rightarrow> [] | Some ts \<Rightarrow> ts)"
    using assms by (rule pool_repE)
  obtain nx' p' G' where "drain_threads ts (nx, p) = Some (nx', p')" "lseg nx' (head_p p') G' None"
    "mset G' = mset G + mset (concat T)"
    using drain_threads_rep[OF p(7,1,5)] by blast
  then show ?thesis using free_chain_rep[of nx' "head_p p'" G' fr] p(8)
    by (auto simp: mempool_delete_mheap_pool_def)
qed


theorem mheap_delete_frees_all_witness:
  "\<exists>nx' fr'. mempool_delete_mheap_pool ((\<lambda>_. None)(10 \<mapsto> 11), demo_pool, []) =
     Some (MEMPOOL_SUCCESS, nx', fr') \<and> mset fr' = {#10, 11#}"
  using mheap_delete_frees_all[OF demo_rep] by auto

text \<open>If the per-thread lists of a new pool cannot be allocated, the pool is deleted twice: by
  \<^verbatim>\<open>set_mempool_attributes\<close> and again by the error path of \<^verbatim>\<open>mempool_create_mheap_pool\<close>; the
  creation has no defined result.\<close>

theorem mheap_create_double_delete:
  assumes "pp_block_size pp > 8" "ev_chain e 0 \<noteq> None" "\<not> ev_lists_ok e"
    "pp_list_per_thread_required pp" "0 < pp_threshold_max pp"
    "pp_threshold_min pp \<le> pp_threshold_max pp" "pp_replenish_count pp \<le> pp_threshold_max pp"
    "pp_threshold_max pp \<le> pp_max_blocks pp" "env_fresh e {}"
  shows "mempool_create_mheap_pool e (Some pp) (nx, pool_for name pp, []) = None"
proof -
  obtain nx1 h t c where ch:
    "memory_alloc_chain_memchunks (pp_threshold_max pp) (ev_chain e) 0 nx = (nx1, h, t, c)"
    by (metis prod_cases4)
  obtain k where k: "unat (pp_threshold_max pp) = Suc k"
    using assms(5) by (cases "unat (pp_threshold_max pp)") (auto simp: unat_eq_0)
  obtain b bs where bs: "chain_blocks (ev_chain e) 0 (unat (pp_threshold_max pp)) = b # bs"
    using assms(2) k by auto
  have "h = Some b"
    using memory_alloc_chain_rep[OF ch env_fresh_chain(1)[OF assms(9)]] bs by simp
  then show ?thesis
    using assms ch by (auto simp: mempool_create_mheap_pool_def Let_def set_mempool_attributes_def
        mempool_set_threshold_values_def pool_for_def zero_pool_def mheap_prepare_def not_less)
qed

theorem mheap_create_double_delete_witness:
  "mempool_create_mheap_pool ((demo_env 0)\<lparr>ev_lists_ok := False\<rparr>) (Some demo_params)
     ((\<lambda>_. None), pool_for ''p'' demo_params, []) = None"
proof (rule mheap_create_double_delete)
  have "env_fresh (demo_env 0) {}" by (rule demo_fresh) simp
  then show "env_fresh ((demo_env 0)\<lparr>ev_lists_ok := False\<rparr>) {}" by (simp add: env_fresh_def)
qed (simp_all add: demo_params_def demo_env_def)

end
