(* ===== verification/Mempool.thy ===== *)
theory Mempool
  imports Mheap Sll Of_List
begin

text \<open>
  The memory pool front end of \<^verbatim>\<open>utils/memory/base/memapi.c\<close>: the registry of pool providers, the
  global list of pools and the calls that dispatch to the provider of a pool. The list of pools is a
  \<^verbatim>\<open>cntlr_sll_q\<close> and the registry an \<^verbatim>\<open>of_list_t\<close>; both are represented by the sequences that
  theories Sll and Of_List prove them to implement.
\<close>

section \<open>State\<close>

text \<open>\<^verbatim>\<open>struct of_mempool_callbacks\<close>.\<close>

record of_mempool_callbacks =
  cb_mempool_create :: "mem_env \<Rightarrow> mempool_params option \<Rightarrow> pool_st \<Rightarrow>
    (int \<times> links \<times> memory_pool option \<times> addr list) option"
  cb_mempool_delete :: "pool_st \<Rightarrow> (int \<times> links \<times> addr list) option"
  cb_mempool_get_mem_block :: "mem_env \<Rightarrow> u8 \<Rightarrow> pool_st \<Rightarrow> get_result option"
  cb_mempool_release_mem_block :: "mem_env \<Rightarrow> addr \<Rightarrow> u8 \<Rightarrow> pool_st \<Rightarrow> (int \<times> pool_st) option"

definition mheap_callbacks :: of_mempool_callbacks where
  "mheap_callbacks = \<lparr>cb_mempool_create = mempool_create_mheap_pool,
     cb_mempool_delete = mempool_delete_mheap_pool,
     cb_mempool_get_mem_block = mempool_mheap_get_mem_block,
     cb_mempool_release_mem_block = mempool_mheap_release_mem_block\<rparr>"

text \<open>The registered providers by pool type, \<^verbatim>\<open>mempool_list_g\<close>, the pools in memory, the links of the
  blocks, the freed blocks and the counter that makes duplicate names distinct.\<close>

record mem_sys =
  ms_types :: "(int \<times> of_mempool_callbacks) list"
  mempool_list_g :: "addr list"
  ms_pools :: "addr \<Rightarrow> memory_pool option"
  ms_links :: links
  ms_freed :: "addr list"
  mempool_index_g :: u32

section \<open>Registry\<close>

definition mempool_library_init :: "mem_sys \<Rightarrow> int \<times> mem_sys" where
  "mempool_library_init m = (MEMPOOL_SUCCESS, m\<lparr>ms_types := [], mempool_list_g := []\<rparr>)"

text \<open>\<open>alloc_ok\<close> says whether the registry node can be allocated.\<close>

definition cntlr_register_memory_pool ::
  "int \<Rightarrow> of_mempool_callbacks option \<Rightarrow> bool \<Rightarrow> mem_sys \<Rightarrow> int \<times> mem_sys" where
  "cntlr_register_memory_pool t cbs alloc_ok m =
    (if t < 0 then (OF_FAILURE, m)
     else case cbs of None \<Rightarrow> (OF_FAILURE, m)
       | Some c \<Rightarrow>
           if t \<in> fst ` set (ms_types m) then (OF_FAILURE, m)
           else if \<not> alloc_ok then (OF_FAILURE, m)
           else (OF_SUCCESS, m\<lparr>ms_types := ms_types m @ [(t, c)]\<rparr>))"

definition register_mheap_with_cntlr :: "bool \<Rightarrow> mem_sys \<Rightarrow> int \<times> mem_sys" where
  "register_mheap_with_cntlr alloc_ok m =
    (let (rc, m') = cntlr_register_memory_pool 0 (Some mheap_callbacks) alloc_ok m
     in if rc \<noteq> OF_SUCCESS then (OF_FAILURE, m') else (OF_SUCCESS, m'))"

text \<open>The scan for the provider of a type. The found flag starts as \<^verbatim>\<open>TRUE\<close>, so an unregistered type is
  not noticed and the NULL registry node is dereferenced: no defined result.\<close>

definition provider_of :: "int \<Rightarrow> mem_sys \<Rightarrow> of_mempool_callbacks option" where
  "provider_of t m = map_of (ms_types m) t"

section \<open>Creating and deleting pools\<close>

fun dec_string :: "nat \<Rightarrow> string" where
  "dec_string n = (if n < 10 then [char_of (48 + n)] else dec_string (n div 10) @ [char_of (48 + n mod 10)])"

declare dec_string.simps [simp del]

text \<open>\<^verbatim>\<open>MEMPOOL_MAX_POOL_NAME_LEN\<close>; the name array holds one byte more.\<close>

abbreviation MEMPOOL_MAX_POOL_NAME_LEN :: nat where "MEMPOOL_MAX_POOL_NAME_LEN \<equiv> 32"

text \<open>The name a new pool gets and the counter afterwards; \<^term>\<open>None\<close> when \<^verbatim>\<open>sprintf\<close> writes past the
  name array.\<close>

definition pool_name_for :: "string \<Rightarrow> mem_sys \<Rightarrow> (string \<times> u32) option" where
  "pool_name_for name m =
    (if \<exists>a \<in> set (mempool_list_g m). \<exists>p. ms_pools m a = Some p \<and> mempool_name p = name
     then let ix = mempool_index_g m + 1; s = name @ ''_'' @ dec_string (unat ix)
          in if length s \<le> MEMPOOL_MAX_POOL_NAME_LEN then Some (s, ix) else None
     else Some (take MEMPOOL_MAX_POOL_NAME_LEN name, mempool_index_g m))"

text \<open>\<open>a\<close> is what \<^verbatim>\<open>calloc\<close> returns for the pool structure, \<open>out\<close> whether there is a pointer to store the
  pool through.\<close>

definition mempool_create_pool ::
  "mem_env \<Rightarrow> ptr \<Rightarrow> string option \<Rightarrow> mempool_params option \<Rightarrow> bool \<Rightarrow> mem_sys \<Rightarrow>
   (int \<times> ptr \<times> mem_sys) option" where
  "mempool_create_pool e a name params out m =
    (case (name, params) of
       (Some nm, Some pp) \<Rightarrow>
         if \<not> out then Some (MEMPOOL_ERROR_INVALID_PARAMS, None, m)
         else if pp_block_size pp \<le> 8 then Some (MEMPOOL_ERROR_BLOCKSIZE_TOO_SMALL, None, m)
         else (case a of None \<Rightarrow> Some (MEMPOOL_ERROR_NO_MEM, None, m)
           | Some p \<Rightarrow>
             (case (pool_name_for nm m, provider_of (int (pp_mempool_type pp)) m) of
                (Some (nm', ix), Some c) \<Rightarrow>
                  (case cb_mempool_create c e (Some pp) (ms_links m, pool_for nm' pp, ms_freed m) of
                     None \<Rightarrow> None
                   | Some (rc, nx, mp, fr) \<Rightarrow>
                       let m1 = m\<lparr>mempool_index_g := ix, ms_links := nx, ms_freed := fr,
                                  ms_pools := (ms_pools m)(p := mp)\<rparr>
                       in if rc \<noteq> MEMPOOL_SUCCESS then Some (rc, None, m1)
                          else Some (MEMPOOL_SUCCESS, Some p,
                                 m1\<lparr>mempool_list_g := mempool_list_g m1 @ [p]\<rparr>))
              | _ \<Rightarrow> None))
     | _ \<Rightarrow> Some (MEMPOOL_ERROR_INVALID_PARAMS, None, m))"

definition mempool_delete_pool :: "ptr \<Rightarrow> mem_sys \<Rightarrow> (int \<times> mem_sys) option" where
  "mempool_delete_pool pool m =
    (case pool of None \<Rightarrow> Some (MEMPOOL_ERROR_NULL_MEMPOOL_PASSED, m)
     | Some a \<Rightarrow>
       (case ms_pools m a of None \<Rightarrow> None
        | Some p \<Rightarrow>
          (case provider_of (int (mempool_type p)) m of None \<Rightarrow> None
           | Some c \<Rightarrow>
             map_option (\<lambda>(rc, nx, fr).
                 (rc, m\<lparr>mempool_list_g := remove1 a (mempool_list_g m), ms_links := nx, ms_freed := fr,
                        ms_pools := (ms_pools m)(a := None)\<rparr>))
               (cb_mempool_delete c (ms_links m, p, ms_freed m)))))"

section \<open>Blocks\<close>

text \<open>Running a provider on the pool at \<open>a\<close>.\<close>

definition put_pool :: "addr \<Rightarrow> pool_st \<Rightarrow> mem_sys \<Rightarrow> mem_sys" where
  "put_pool a s m = (case s of (nx, p, fr) \<Rightarrow>
     m\<lparr>ms_links := nx, ms_pools := (ms_pools m)(a := Some p), ms_freed := fr\<rparr>)"

text \<open>The return code, the block and the heap flag after the call.\<close>

definition mempool_get_mem_block ::
  "mem_env \<Rightarrow> ptr \<Rightarrow> u8 \<Rightarrow> mem_sys \<Rightarrow> ((int \<times> ptr \<times> u8) \<times> mem_sys) option" where
  "mempool_get_mem_block e pool heap_b m =
    (case pool of None \<Rightarrow> Some ((MEMPOOL_ERROR_NULL_MEMPOOL_PASSED, None, heap_b), m)
     | Some a \<Rightarrow>
       (case ms_pools m a of None \<Rightarrow> None
        | Some p \<Rightarrow>
          (case provider_of (int (mempool_type p)) m of None \<Rightarrow> None
           | Some c \<Rightarrow>
             map_option (\<lambda>(r, s). (r, put_pool a s m))
               (cb_mempool_get_mem_block c e heap_b (ms_links m, p, ms_freed m)))))"

definition mempool_release_mem_block ::
  "mem_env \<Rightarrow> ptr \<Rightarrow> ptr \<Rightarrow> u8 \<Rightarrow> mem_sys \<Rightarrow> (int \<times> mem_sys) option" where
  "mempool_release_mem_block e pool block heap_b m =
    (case pool of None \<Rightarrow> Some (MEMPOOL_ERROR_NULL_MEMPOOL_PASSED, m)
     | Some a \<Rightarrow>
       (case ms_pools m a of None \<Rightarrow> None
        | Some p \<Rightarrow>
          (case block of
             None \<Rightarrow> if mempool_lock p then None
                     else Some (MEMPOOL_ERROR_NULL_MEMBLOCK_PASSED,
                       m\<lparr>ms_pools := (ms_pools m)(a \<mapsto>
                          p\<lparr>released_fail_blocks_count := released_fail_blocks_count p + 1\<rparr>)\<rparr>)
           | Some b \<Rightarrow>
             (case provider_of (int (mempool_type p)) m of None \<Rightarrow> None
              | Some c \<Rightarrow>
                map_option (\<lambda>(rc, s). (rc, put_pool a s m))
                  (cb_mempool_release_mem_block c e b heap_b (ms_links m, p, ms_freed m))))))"

section \<open>Statistics\<close>

text \<open>\<^verbatim>\<open>struct mempool_stats\<close>.\<close>

record mempool_stats =
  st_free_blocks_count :: u32
  st_allocated_blocks_count :: u32
  st_released_blocks_count :: u32
  st_allocation_fail_blocks_count :: u32
  st_released_fail_blocks_count :: u32
  st_heap_free_blocks_count :: u32
  st_heap_allocated_blocks_count :: u32
  st_heap_released_blocks_count :: u32
  st_heap_allocation_fail_blocks_count :: u32
  st_heap_allowed_blocks_count :: u32
  st_total_blocks_count :: u32
  st_block_size :: u32
  st_threshold_min :: u32
  st_threshold_max :: u32
  st_replenish_count :: u32
  st_static_allocated_blocks_count :: u32
  st_static_blocks :: u32
  st_mempool_name :: string

definition mempool_stats_of :: "memory_pool \<Rightarrow> mempool_stats" where
  "mempool_stats_of p = \<lparr>
     st_free_blocks_count = free_blocks_count p,
     st_allocated_blocks_count = allocated_blocks_count p,
     st_released_blocks_count = released_blocks_count p,
     st_allocation_fail_blocks_count = allocation_fail_blocks_count p,
     st_released_fail_blocks_count = released_fail_blocks_count p,
     st_heap_free_blocks_count = heap_free_blocks_count p,
     st_heap_allocated_blocks_count = heap_allocated_blocks_count p,
     st_heap_released_blocks_count = heap_released_blocks_count p,
     st_heap_allocation_fail_blocks_count = heap_allocation_fail_blocks_count p,
     st_heap_allowed_blocks_count = heap_allowed_blocks_count p,
     st_total_blocks_count = total_blocks_count p,
     st_block_size = block_size p,
     st_threshold_min = threshold_min p,
     st_threshold_max = threshold_max p,
     st_replenish_count = replenish_count p,
     st_static_allocated_blocks_count = static_allocated_blocks_count p,
     st_static_blocks = static_blocks p,
     st_mempool_name = mempool_name p\<rparr>"

text \<open>A return code and the statistics stored through the pointer.\<close>

definition mempool_get_stats :: "ptr \<Rightarrow> mem_sys \<Rightarrow> (int \<times> mempool_stats option) option" where
  "mempool_get_stats pool m =
    (case pool of None \<Rightarrow> Some (MEMPOOL_ERROR_NULL_MEMPOOL_PASSED, None)
     | Some a \<Rightarrow> map_option (\<lambda>p. (MEMPOOL_SUCCESS, Some (mempool_stats_of p))) (ms_pools m a))"

definition mempool_get_first_stats :: "mem_sys \<Rightarrow> (int \<times> mempool_stats option) option" where
  "mempool_get_first_stats m =
     mempool_get_stats (case mempool_list_g m of [] \<Rightarrow> None | a # _ \<Rightarrow> Some a) m"

text \<open>The pool behind the first one with the given name.\<close>

fun next_after :: "(addr \<Rightarrow> memory_pool option) \<Rightarrow> string \<Rightarrow> addr list \<Rightarrow> ptr option" where
  "next_after pools name [] = Some None"
| "next_after pools name (a # as) =
     (case pools a of None \<Rightarrow> None
      | Some p \<Rightarrow> if mempool_name p = name then Some (case as of [] \<Rightarrow> None | b # _ \<Rightarrow> Some b)
                  else next_after pools name as)"

definition mempool_get_next_stats :: "string \<Rightarrow> mem_sys \<Rightarrow> (int \<times> mempool_stats option) option" where
  "mempool_get_next_stats name m =
     Option.bind (next_after (ms_pools m) name (mempool_list_g m)) (\<lambda>a. mempool_get_stats a m)"

section \<open>The contract of a provider\<close>

text \<open>What the front end and its users rely on, in terms of the bag of free blocks: a request always
  returns, and a block it hands out is no longer free; a block that is not free can be returned.\<close>

locale mempool_provider =
  fixes get :: "mem_env \<Rightarrow> u8 \<Rightarrow> pool_st \<Rightarrow> get_result option"
    and release :: "mem_env \<Rightarrow> addr \<Rightarrow> u8 \<Rightarrow> pool_st \<Rightarrow> (int \<times> pool_st) option"
    and rep :: "pool_st \<Rightarrow> addr multiset \<Rightarrow> bool"
    and runs_on :: "mem_env \<Rightarrow> pool_st \<Rightarrow> bool"
    and fresh :: "mem_env \<Rightarrow> addr multiset \<Rightarrow> bool"
    and central :: "pool_st \<Rightarrow> bool"
  assumes get_law: "rep s F \<Longrightarrow> runs_on e s \<Longrightarrow> fresh e F \<Longrightarrow>
      \<exists>rc ob hb s' F'. get e h s = Some ((rc, ob, hb), s') \<and> rep s' F' \<and>
        (case ob of None \<Rightarrow> rc \<noteq> MEMPOOL_SUCCESS
         | Some b \<Rightarrow> rc = MEMPOOL_SUCCESS \<and> b \<notin># F' \<and> (hb = 0 \<and> node_ok b \<or> hb = 1 \<and> h \<noteq> 0))"
    and get_succeeds: "rep s F \<Longrightarrow> runs_on e s \<Longrightarrow> fresh e F \<Longrightarrow> F \<noteq> {#} \<Longrightarrow> central s \<Longrightarrow>
      \<exists>b s'. get e h s = Some ((MEMPOOL_SUCCESS, Some b, 0), s')"
    and release_law: "rep s F \<Longrightarrow> runs_on e s \<Longrightarrow> b \<notin># F \<Longrightarrow> node_ok b \<Longrightarrow>
      \<exists>s' F'. release e b 0 s = Some (MEMPOOL_SUCCESS, s') \<and> rep s' F' \<and> F \<subseteq># F'"
begin

lemma get_then_release:
  assumes "rep s F" "runs_on e s" "fresh e F" "get e 0 s = Some ((MEMPOOL_SUCCESS, Some b, hb), s1)"
    "runs_on e' s1"
  shows "hb = 0 \<and> (\<exists>F1 s2 F2. rep s1 F1 \<and> b \<notin># F1 \<and>
    release e' b 0 s1 = Some (MEMPOOL_SUCCESS, s2) \<and> rep s2 F2 \<and> F1 \<subseteq># F2)"
proof -
  obtain F1 where F1: "rep s1 F1" "b \<notin># F1" "hb = 0" "node_ok b"
    using get_law[OF assms(1-3), of 0] assms(4) by auto
  show ?thesis using release_law[OF F1(1) assms(5) F1(2,4)] F1 by blast
qed

end

definition mheap_free :: "pool_st \<Rightarrow> addr multiset \<Rightarrow> bool" where
  "mheap_free s F \<longleftrightarrow> (\<exists>G T. pool_rep s G T \<and> F = free_bag G T)"

definition mheap_thread_ok :: "mem_env \<Rightarrow> pool_st \<Rightarrow> bool" where
  "mheap_thread_ok e s \<longleftrightarrow> (\<forall>ts. per_thread_list_p (fst (snd s)) = Some ts \<longrightarrow> ev_thread e \<le> length ts)"

text \<open>A pool without per-thread lists, or one that is configured to move blocks to them and whose
  thread lists are empty, serves a request from its free blocks.\<close>

definition mheap_central :: "pool_st \<Rightarrow> bool" where
  "mheap_central s \<longleftrightarrow> per_thread_list_p (fst (snd s)) = None"

lemma mheap_get_law:
  assumes "pool_rep (nx, p, fr) G T" "mheap_thread_ok e (nx, p, fr)" "env_fresh e (set_mset (free_bag G T))"
  shows "\<exists>rc ob hb s' G' T'. mempool_mheap_get_mem_block e h (nx, p, fr) = Some ((rc, ob, hb), s') \<and>
    pool_rep s' G' T' \<and>
    (case ob of None \<Rightarrow> rc \<noteq> MEMPOOL_SUCCESS
     | Some b \<Rightarrow> rc = MEMPOOL_SUCCESS \<and> b \<notin># free_bag G' T' \<and> (hb = 0 \<and> node_ok b \<or> hb = 1 \<and> h \<noteq> 0))"
proof -
  have fresh: "env_fresh e (set (G @ concat T))" using assms(3) by simp
  obtain rc ob hb nx' p' G' T' bs k where g:
    "mempool_mheap_get_mem_block e h (nx, p, fr) = Some ((rc, ob, hb), nx', p', fr)"
    "pool_rep (nx', p', fr) G' T'" "set bs \<inter> set (G @ concat T) = {}" "bs = chain_blocks (ev_chain e) 0 k"
    "get_outcome e h p p' (free_bag G T + mset bs) (free_bag G' T') rc ob hb"
    using get_mem_block_rep[OF assms(1) fresh, of h] assms(2) by (auto simp: mheap_thread_ok_def)
  note c = env_fresh_chain[OF fresh, of k]
  have all: "distinct (G @ concat T @ bs)" "\<forall>x\<in>set (G @ concat T @ bs). node_ok x"
    using assms(1) c g(3,4) by (auto simp: pool_rep_def)
  have "b \<notin># free_bag G' T' \<and> node_ok b" if "free_bag G T + mset bs = add_mset b (free_bag G' T')" for b
  proof -
    have eq: "mset (G @ concat T @ bs) = mset (b # G' @ concat T')" using that by (simp add: ac_simps)
    then have "distinct (b # G' @ concat T')" using all(1) mset_eq_imp_distinct_iff by blast
    moreover have "b \<in> set (G @ concat T @ bs)" using mset_eq_setD[OF eq] by simp
    ultimately show ?thesis using all(2) by auto
  qed
  moreover have "b \<notin># free_bag G' T'" if "ev_heap e = Some b" "free_bag G T + mset bs = free_bag G' T'" for b
  proof -
    have "b \<notin> set bs" using c(3) g(4) that(1) by auto
    moreover have "b \<notin># free_bag G T" using fresh that(1) by (auto simp: env_fresh_def)
    ultimately show ?thesis unfolding that(2)[symmetric] by simp
  qed
  ultimately show ?thesis using g(1,2,5) unfolding get_outcome_def
    by (intro exI[of _ rc] exI[of _ ob] exI[of _ hb] exI[of _ "(nx', p', fr)"] exI[of _ G'] exI[of _ T'])
      (auto split: option.splits)
qed

lemma mheap_get_central:
  assumes "pool_rep (nx, p, fr) G T" "per_thread_list_p p = None" "G \<noteq> [] \<or> concat T \<noteq> []"
    "env_fresh e (set (G @ concat T))"
  shows "\<exists>b s'. mempool_mheap_get_mem_block e h (nx, p, fr) = Some ((MEMPOOL_SUCCESS, Some b, 0), s') \<and>
    per_thread_list_p (fst (snd s')) = None \<and> mempool_type (fst (snd s')) = mempool_type p"
proof -
  have T: "T = []" and unlocked: "\<not> mempool_lock p" using assms(1,2) by (auto simp: pool_rep_def)
  obtain bs nx1 p1 where r: "refill_if_low e (nx, p, fr) = (nx1, p1, fr)"
    "pool_rep (nx1, p1, fr) (G @ bs) T" "same_config p p1"
    using refill_if_low_rep[OF assms(1,4)] by blast
  obtain b G' where "G @ bs = b # G'" using assms(3) T by (cases "G @ bs") auto
  then have "head_p p1 = Some b" using r(2) by (auto simp: pool_rep_def)
  then show ?thesis using assms(2) unlocked r(1,3)
    by (auto simp: mempool_mheap_get_mem_block_def global_take_def Let_def same_config_def)
qed

interpretation mheap: mempool_provider mempool_mheap_get_mem_block mempool_mheap_release_mem_block
  mheap_free mheap_thread_ok "\<lambda>e F. env_fresh e (set_mset F)" mheap_central
proof unfold_locales
  fix s F e h
  assume rep: "mheap_free s F" and thr: "mheap_thread_ok e s" and fresh: "env_fresh e (set_mset F)"
  obtain nx p fr where s: "s = (nx, p, fr)" by (cases s)
  obtain G T where GT: "pool_rep (nx, p, fr) G T" "F = free_bag G T"
    using rep by (auto simp: mheap_free_def s)
  show "\<exists>b s'. mempool_mheap_get_mem_block e h s = Some ((MEMPOOL_SUCCESS, Some b, 0), s')"
    if "F \<noteq> {#}" "mheap_central s"
    using mheap_get_central[OF GT(1), of e h] that fresh GT(2)
    by (fastforce simp: mheap_central_def s)
  show "\<exists>rc ob hb s' F'. mempool_mheap_get_mem_block e h s = Some ((rc, ob, hb), s') \<and> mheap_free s' F' \<and>
      (case ob of None \<Rightarrow> rc \<noteq> MEMPOOL_SUCCESS
       | Some b \<Rightarrow> rc = MEMPOOL_SUCCESS \<and> b \<notin># F' \<and> (hb = 0 \<and> node_ok b \<or> hb = 1 \<and> h \<noteq> 0))"
    using mheap_get_law[OF GT(1), of e h] thr fresh GT(2) unfolding mheap_free_def s by blast
next
  fix s F e b
  assume rep: "mheap_free s F" and thr: "mheap_thread_ok e s" and b: "b \<notin># F" "node_ok b"
  obtain nx p fr where s: "s = (nx, p, fr)" by (cases s)
  obtain G T where GT: "pool_rep (nx, p, fr) G T" "F = free_bag G T"
    using rep by (auto simp: mheap_free_def s)
  obtain nx' p' fr' G' T' where r: "mempool_mheap_release_mem_block e b 0 (nx, p, fr) =
      Some (MEMPOOL_SUCCESS, nx', p', fr')" "pool_rep (nx', p', fr') G' T'"
    "release_outcome p p' fr fr' (free_bag G T) (free_bag G' T') b"
    using release_mem_block_rep[OF GT(1), of b e 0] b thr GT(2) by (auto simp: mheap_thread_ok_def s)
  have "F \<subseteq># free_bag G' T'" using r(3) GT(2) by (auto simp: release_outcome_def)
  then show "\<exists>s' F'. mempool_mheap_release_mem_block e b 0 s = Some (MEMPOOL_SUCCESS, s') \<and>
      mheap_free s' F' \<and> F \<subseteq># F'"
    using r(1,2) by (auto simp: mheap_free_def s)
qed

section \<open>Enumeration\<close>

text \<open>A management client's walk over all pools: the first statistics, then the next by name until an
  error is returned; at most \<open>n\<close> entries are taken.\<close>

fun walk_stats :: "nat \<Rightarrow> mem_sys \<Rightarrow> (int \<times> mempool_stats option) option \<Rightarrow> mempool_stats list option" where
  "walk_stats 0 m r = Some []"
| "walk_stats (Suc n) m r = (case r of None \<Rightarrow> None
     | Some (_, None) \<Rightarrow> Some []
     | Some (_, Some st) \<Rightarrow> map_option (\<lambda>sts. st # sts)
         (walk_stats n m (mempool_get_next_stats (st_mempool_name st) m)))"

lemma next_after_append:
  "\<forall>b\<in>set as. \<exists>q. pools b = Some q \<and> mempool_name q \<noteq> name \<Longrightarrow> pools a = Some p \<Longrightarrow> mempool_name p = name \<Longrightarrow>
   next_after pools name (as @ a # bs) = Some (case bs of [] \<Rightarrow> None | b # _ \<Rightarrow> Some b)"
  by (induction as) auto

lemma walk_stats_suffix:
  assumes "mempool_list_g m = as @ bs" "\<forall>a\<in>set (as @ bs). ms_pools m a \<noteq> None"
    "distinct (map (\<lambda>a. mempool_name (the (ms_pools m a))) (as @ bs))" "length bs < n"
  shows "walk_stats n m (mempool_get_stats (case bs of [] \<Rightarrow> None | b # _ \<Rightarrow> Some b) m) =
    Some (map (\<lambda>a. mempool_stats_of (the (ms_pools m a))) bs)"
  using assms
proof (induction bs arbitrary: as n)
  case Nil
  then show ?case by (cases n) (auto simp: mempool_get_stats_def)
next
  case (Cons b bs)
  obtain n' where n: "n = Suc n'" "length bs < n'" using Cons.prems(4) by (cases n) auto
  obtain p where p: "ms_pools m b = Some p" using Cons.prems(2) by auto
  have "next_after (ms_pools m) (mempool_name p) (as @ b # bs) =
      Some (case bs of [] \<Rightarrow> None | c # _ \<Rightarrow> Some c)"
  proof (rule next_after_append[of as "ms_pools m" "mempool_name p" b p bs])
    show "\<forall>b\<in>set as. \<exists>q. ms_pools m b = Some q \<and> mempool_name q \<noteq> mempool_name p"
      using Cons.prems(2,3) p by force
  qed (simp_all add: p)
  then have "mempool_get_next_stats (st_mempool_name (mempool_stats_of p)) m =
      mempool_get_stats (case bs of [] \<Rightarrow> None | c # _ \<Rightarrow> Some c) m"
    using Cons.prems(1) by (simp add: mempool_get_next_stats_def mempool_stats_of_def)
  moreover have "walk_stats n' m (mempool_get_stats (case bs of [] \<Rightarrow> None | c # _ \<Rightarrow> Some c) m) =
      Some (map (\<lambda>a. mempool_stats_of (the (ms_pools m a))) bs)"
    using Cons.IH[of "as @ [b]" n'] Cons.prems(1-3) n(2) by simp
  ultimately show ?case using p n(1) by (simp add: mempool_get_stats_def)
qed

section \<open>Properties\<close>

text \<open>A pool that \<^verbatim>\<open>mempool_create_pool\<close> returns for the heap provider (without per-thread lists) is
  the last of the global list of pools and usable: a request is served from its free blocks, and the
  block can be released again, by any thread.\<close>

theorem mempool_create_usable:
  assumes "provider_of (int (pp_mempool_type pp)) m = Some mheap_callbacks"
    "provider_of 0 m = Some mheap_callbacks" "\<not> pp_list_per_thread_required pp" "env_fresh e {}"
    "mempool_create_pool e (Some a) (Some nm) (Some pp) True m = Some (MEMPOOL_SUCCESS, Some a, m1)"
    "env_fresh e1 (set (chain_blocks (ev_chain e) 0 (unat (pp_threshold_max pp))))"
  shows "mempool_list_g m1 = mempool_list_g m @ [a] \<and>
    (\<exists>b m2 m3. mempool_get_mem_block e1 (Some a) h m1 = Some ((MEMPOOL_SUCCESS, Some b, 0), m2) \<and>
      mempool_release_mem_block e2 (Some a) (Some b) 0 m2 = Some (MEMPOOL_SUCCESS, m3))"
proof -
  obtain nm' ix nx p fr where c: "pool_name_for nm m = Some (nm', ix)"
    "mempool_create_mheap_pool e (Some pp) (ms_links m, pool_for nm' pp, ms_freed m) =
       Some (MEMPOOL_SUCCESS, nx, p, fr)"
    "m1 = m\<lparr>mempool_index_g := ix, ms_links := nx, ms_freed := fr,
       ms_pools := (ms_pools m)(a := p), mempool_list_g := mempool_list_g m @ [a]\<rparr>"
    using assms(1,5) by (auto simp: mempool_create_pool_def mheap_callbacks_def Let_def
        split: if_splits option.splits prod.splits)
  obtain q where q: "p = Some q"
    using c(2) by (auto simp: mempool_create_mheap_pool_def Let_def split: if_splits prod.splits option.splits
        Option.bind_splits)
  obtain G where G: "pool_rep (nx, q, fr) G []" "G \<noteq> []"
    "G = chain_blocks (ev_chain e) 0 (unat (pp_threshold_max pp))" "mempool_type q = 0"
    "per_thread_list_p q = None"
    using create_rep[OF c(2)[unfolded q] refl assms(4)] assms(3) by auto
  have m1: "ms_pools m1 a = Some q" "provider_of 0 m1 = Some mheap_callbacks" "ms_links m1 = nx"
    "ms_freed m1 = fr"
    using c(3) q assms(2) by (simp_all add: provider_of_def)
  have free: "mheap_free (nx, q, fr) (mset G)" using G(1) by (force simp: mheap_free_def)
  have thr: "mheap_thread_ok e1 (nx, q, fr)" "mheap_central (nx, q, fr)"
    using G(5) by (simp_all add: mheap_thread_ok_def mheap_central_def)
  have fr1: "env_fresh e1 (set_mset (mset G))" using assms(6) G(3) by simp
  obtain b nx1 q1 fr1' where b: "mempool_mheap_get_mem_block e1 h (nx, q, fr) =
      Some ((MEMPOOL_SUCCESS, Some b, 0), nx1, q1, fr1')" "per_thread_list_p q1 = None" "mempool_type q1 = 0"
    using mheap_get_central[OF G(1,5), of e1 h] G(2,4) fr1 by auto
  let ?m2 = "put_pool a (nx1, q1, fr1') m1"
  have get: "mempool_get_mem_block e1 (Some a) h m1 = Some ((MEMPOOL_SUCCESS, Some b, 0), ?m2)"
    using m1 b(1) G(4) by (simp add: mempool_get_mem_block_def mheap_callbacks_def)
  obtain F1 where F1: "mheap_free (nx1, q1, fr1') F1" "b \<notin># F1" "node_ok b"
    using mheap.get_law[OF free thr(1) fr1, of h] b(1) by auto
  have thr2: "mheap_thread_ok e2 (nx1, q1, fr1')" using b(2) by (simp add: mheap_thread_ok_def)
  obtain s2 where s2: "mempool_mheap_release_mem_block e2 b 0 (nx1, q1, fr1') = Some (MEMPOOL_SUCCESS, s2)"
    using mheap.release_law[OF F1(1) thr2 F1(2,3)] by blast
  have "mempool_release_mem_block e2 (Some a) (Some b) 0 ?m2 = Some (MEMPOOL_SUCCESS, put_pool a s2 ?m2)"
    using s2 b(3) m1(2) by (simp add: mempool_release_mem_block_def put_pool_def provider_of_def
        mheap_callbacks_def)
  then show ?thesis using get c(3) by auto
qed

theorem mempool_create_usable_witness:
  "\<exists>b m2. mempool_get_mem_block ((demo_env 0)\<lparr>ev_chain := \<lambda>_. None\<rparr>) (Some 5) 0 (snd (snd (the
     (mempool_create_pool (demo_env 0) (Some 5) (Some ''msgs'')
       (Some (demo_params\<lparr>pp_list_per_thread_required := False\<rparr>)) True
       \<lparr>ms_types = [(0, mheap_callbacks)], mempool_list_g = [], ms_pools = \<lambda>_. None,
        ms_links = \<lambda>_. None, ms_freed = [], mempool_index_g = 0\<rparr>)))) =
     Some ((MEMPOOL_SUCCESS, Some b, 0), m2)"
proof -
  let ?pp = "demo_params\<lparr>pp_list_per_thread_required := False\<rparr>"
  let ?m = "\<lparr>ms_types = [(0, mheap_callbacks)], mempool_list_g = [], ms_pools = \<lambda>_. None,
        ms_links = \<lambda>_. None, ms_freed = [], mempool_index_g = 0\<rparr>"
  have p0: "pp_mempool_type ?pp = 0" by (simp add: demo_params_def)
  have prov: "provider_of (int (pp_mempool_type ?pp)) ?m = Some mheap_callbacks"
    "provider_of 0 ?m = Some mheap_callbacks" by (simp_all add: p0 provider_of_def)
  obtain m1 where m1: "mempool_create_pool (demo_env 0) (Some 5) (Some ''msgs'') (Some ?pp) True ?m =
      Some (MEMPOOL_SUCCESS, Some 5, m1)"
    by (simp add: mempool_create_pool_def prov pool_name_for_def p0 provider_of_def mheap_callbacks_def
        mempool_create_mheap_pool_def demo_chain mempool_set_threshold_values_def
        set_mempool_attributes_def mheap_prepare_def Let_def pool_for_def zero_pool_def)
  have e: "env_fresh ((demo_env 0)\<lparr>ev_chain := \<lambda>_. None\<rparr>)
      (set (chain_blocks (ev_chain (demo_env 0)) 0 (unat (pp_threshold_max ?pp))))"
    by (simp add: env_fresh_def)
  have "env_fresh (demo_env 0) {}" by (rule demo_fresh) simp
  from mempool_create_usable[OF prov _ this m1 e, of 0 "demo_env 1"] m1 show ?thesis by auto
qed

text \<open>When the pools have different names, walking the statistics from the first pool and then by
  the name of the last one reports every pool exactly once, in creation order, and ends.\<close>

theorem mempool_stats_walk_complete:
  assumes "\<forall>a\<in>set (mempool_list_g m). ms_pools m a \<noteq> None"
    "distinct (map (\<lambda>a. mempool_name (the (ms_pools m a))) (mempool_list_g m))"
    "length (mempool_list_g m) < n"
  shows "walk_stats n m (mempool_get_first_stats m) =
    Some (map (\<lambda>a. mempool_stats_of (the (ms_pools m a))) (mempool_list_g m))"
  using walk_stats_suffix[of m "[]" "mempool_list_g m" n] assms
  by (simp add: mempool_get_first_stats_def)

text \<open>The state of a system with pools of the given names, at addresses counted from \<open>k\<close>.\<close>

definition sys_of :: "string list \<Rightarrow> mem_sys" where
  "sys_of names = \<lparr>ms_types = [(0, mheap_callbacks)], mempool_list_g = [0..<length names],
     ms_pools = (\<lambda>a. if a < length names then Some (zero_pool (names ! a)) else None),
     ms_links = \<lambda>_. None, ms_freed = [], mempool_index_g = 0\<rparr>"

theorem mempool_stats_walk_complete_witness:
  "walk_stats 3 (sys_of [''a'', ''b'']) (mempool_get_first_stats (sys_of [''a'', ''b''])) =
     Some (map mempool_stats_of [zero_pool ''a'', zero_pool ''b''])"
  using mempool_stats_walk_complete[of "sys_of [''a'', ''b'']" 3]
  by (simp add: sys_of_def upt_rec zero_pool_def)

text \<open>The suffix appended to a duplicate name does not make names distinct: beside pools named
  \<open>a\<close> and \<open>a_1\<close>, a further pool \<open>a\<close> is named \<open>a_1\<close>, and a walk over the statistics by name then reports
  the last pool again and again, however many entries it takes.\<close>

theorem mempool_duplicate_names:
  "pool_name_for ''a'' (sys_of [''a'', ''a_1'']) = Some (''a_1'', 1) \<and>
   walk_stats (Suc (Suc n)) (sys_of [''a'', ''a_1'', ''a_1'']) (mempool_get_first_stats (sys_of [''a'', ''a_1'', ''a_1''])) =
     Some (mempool_stats_of (zero_pool ''a'') # replicate (Suc n) (mempool_stats_of (zero_pool ''a_1'')))"
proof
  show "pool_name_for ''a'' (sys_of [''a'', ''a_1'']) = Some (''a_1'', 1)"
    by (auto simp: pool_name_for_def sys_of_def zero_pool_def Let_def dec_string.simps upt_rec
        char_of_def numeral_2_eq_2 less_Suc_eq bit_Suc_0_iff)
next
  let ?s = "sys_of [''a'', ''a_1'', ''a_1'']"
  have pools: "mempool_list_g ?s = [0, 1, 2]" "ms_pools ?s 0 = Some (zero_pool ''a'')"
    "ms_pools ?s 1 = Some (zero_pool ''a_1'')" "ms_pools ?s 2 = Some (zero_pool ''a_1'')"
    by (simp_all add: sys_of_def upt_rec)
  have nxt: "mempool_get_next_stats ''a'' ?s = mempool_get_stats (Some 1) ?s"
    "mempool_get_next_stats ''a_1'' ?s = mempool_get_stats (Some 2) ?s"
    by (simp_all add: mempool_get_next_stats_def pools zero_pool_def del: One_nat_def)
  have st: "mempool_get_stats (Some 1) ?s = Some (MEMPOOL_SUCCESS, Some (mempool_stats_of (zero_pool ''a_1'')))"
    "mempool_get_stats (Some 2) ?s = Some (MEMPOOL_SUCCESS, Some (mempool_stats_of (zero_pool ''a_1'')))"
    by (simp_all add: mempool_get_stats_def pools del: One_nat_def)
  have names: "st_mempool_name (mempool_stats_of (zero_pool x)) = x" for x
    by (simp add: mempool_stats_of_def zero_pool_def)
  have rep: "walk_stats k ?s (mempool_get_stats (Some 2) ?s) =
      Some (replicate k (mempool_stats_of (zero_pool ''a_1'')))" for k
    by (induction k) (simp_all add: st names nxt)
  show "walk_stats (Suc (Suc n)) ?s (mempool_get_first_stats ?s) =
     Some (mempool_stats_of (zero_pool ''a'') # replicate (Suc n) (mempool_stats_of (zero_pool ''a_1'')))"
    using rep[of n] by (simp add: mempool_get_first_stats_def pools mempool_get_stats_def names nxt st del: One_nat_def)
qed

end
