(* ===== verification/App_Event.thy ===== *)
theory App_Event
  imports Of_List Mempool
begin

text \<open>
  Delivery of controller events to applications (\<^verbatim>\<open>coreapp/cntlr_event.c\<close>). Every domain keeps one
  \<^verbatim>\<open>of_list\<close> of application hooks per event type, in descending priority. Applications are called in
  that order until one consumes the event. The table of domains by handle belongs to the datapath
  manager and is a parameter here, as is the code of the applications.
\<close>

section \<open>State\<close>

abbreviation CNTLR_FIRST_EVENT_TYPE :: u8 where "CNTLR_FIRST_EVENT_TYPE \<equiv> 1"
abbreviation CNTLR_LAST_EVENT_TYPE :: u8 where "CNTLR_LAST_EVENT_TYPE \<equiv> 10"
abbreviation APP_EVENT_MIN_PRIORITY :: u8 where "APP_EVENT_MIN_PRIORITY \<equiv> 1"
abbreviation APP_EVENT_MAX_PRIORITY :: u8 where "APP_EVENT_MAX_PRIORITY \<equiv> 16"
abbreviation PASS_EVENT_TO_NEXT_APP :: int where "PASS_EVENT_TO_NEXT_APP \<equiv> 1"
abbreviation EVENT_CONSUMED_BY_APP :: int where "EVENT_CONSUMED_BY_APP \<equiv> 2"
abbreviation EVENT_DROP_BY_APP :: int where "EVENT_DROP_BY_APP \<equiv> 3"

text \<open>The error ranges of \<^verbatim>\<open>cntlr_error.h\<close>, as its macros expand.\<close>

definition CNTLR_GENERIC_ERROR_START :: int where "CNTLR_GENERIC_ERROR_START = 10"
definition CNTLR_DPIFACE_EROOR_START :: int where
  "CNTLR_DPIFACE_EROOR_START = ((CNTLR_GENERIC_ERROR_START + 100) + 1 + 100) + 1"
definition CNTLR_OF_MSG_ERROR_START :: int where
  "CNTLR_OF_MSG_ERROR_START = (CNTLR_DPIFACE_EROOR_START + 100) + 1"
definition CNTLR_APP_EVENT_ERROR_START :: int where
  "CNTLR_APP_EVENT_ERROR_START = (CNTLR_DPIFACE_EROOR_START + 100) + 1"

abbreviation CNTLR_MEM_ALLOC_ERROR :: int where "CNTLR_MEM_ALLOC_ERROR \<equiv> CNTLR_GENERIC_ERROR_START"
abbreviation CNTLR_REG_APP_INVALID_APP_EVENT_TYPE :: int where
  "CNTLR_REG_APP_INVALID_APP_EVENT_TYPE \<equiv> CNTLR_APP_EVENT_ERROR_START"
abbreviation CNTLR_REG_APP_EVENT_HOOK_INVALID_PRIORITY :: int where
  "CNTLR_REG_APP_EVENT_HOOK_INVALID_PRIORITY \<equiv> CNTLR_APP_EVENT_ERROR_START + 1"
abbreviation OF_REG_APP_EVNT_HOOK_INVALID_DOMAIN :: int where
  "OF_REG_APP_EVNT_HOOK_INVALID_DOMAIN \<equiv> CNTLR_APP_EVENT_ERROR_START + 2"
abbreviation OF_REG_APP_EVNT_HOOK_DUPLICATE_APP_PRIOIRTY :: int where
  "OF_REG_APP_EVNT_HOOK_DUPLICATE_APP_PRIOIRTY \<equiv> CNTLR_APP_EVENT_ERROR_START + 3"
abbreviation CNTLR_REG_APP_EVENT_HOOK_NULL_CALLBACK :: int where
  "CNTLR_REG_APP_EVENT_HOOK_NULL_CALLBACK \<equiv> CNTLR_APP_EVENT_ERROR_START + 4"

text \<open>A hook without its link, which is kept with all links; \<open>'c\<close> names callback functions.\<close>

record 'c of_app_hook_info =
  ah_priority :: u8
  ah_call_back :: "'c option"
  ah_cbk_arg1 :: ptr
  ah_cbk_arg2 :: ptr
  ah_is_heap :: u8

record app_domain =
  domain_handle :: u64
  app_event_info :: "of_list list"

text \<open>Memory (links, hooks, domains), the result of \<^verbatim>\<open>get_domain_byhandle\<close>, the hooks queued with
  \<^verbatim>\<open>call_rcu\<close> and the memory pools.\<close>

record 'c app_sys =
  as_links :: links
  as_hooks :: "addr \<Rightarrow> 'c of_app_hook_info"
  as_domains :: "addr \<Rightarrow> app_domain option"
  as_handles :: "u64 \<Rightarrow> ptr"
  as_rcu :: "addr list"
  as_mem :: mem_sys

text \<open>The pool of hooks: the only assignment of \<^verbatim>\<open>of_app_hook_mempool_g\<close>, in \<^verbatim>\<open>of_cntlr_msg.c\<close>, is
  compiled out, so it stays NULL.\<close>

definition of_app_hook_mempool_g :: ptr where "of_app_hook_mempool_g = None"

text \<open>What the applications do: the result of a callback, and the free callback of a message.\<close>

record ('c, 'w) event_env =
  ee_call :: "'c \<Rightarrow> u64 \<Rightarrow> u64 \<Rightarrow> u64 \<Rightarrow> ptr \<Rightarrow> ptr \<Rightarrow> 'w \<Rightarrow> int \<times> 'w"
  ee_free :: "addr \<Rightarrow> 'w \<Rightarrow> 'w"

section \<open>Operations\<close>

text \<open>The event lists of a new domain: index 0 is left zero.\<close>

definition zero_of_list :: of_list where
  "zero_of_list = \<lparr>ol_head = None, ol_tail = None, ol_count = 0, ol_lock = False, ol_free_cbk = False\<rparr>"

definition init_app_event_info :: "of_list list" where
  "init_app_event_info =
    zero_of_list # replicate 10 (fst (snd (OF_LIST_INIT True (\<lambda>_. None, zero_of_list, []))))"

text \<open>Access to \<^verbatim>\<open>domain->app_event_info[event_type].app_list\<close>; an index beyond the array is undefined.\<close>

definition ev_list :: "'c app_sys \<Rightarrow> addr \<Rightarrow> nat \<Rightarrow> of_list_st option" where
  "ev_list s d t = Option.bind (as_domains s d)
     (\<lambda>D. if t < length (app_event_info D) then Some (as_links s, app_event_info D ! t, as_rcu s) else None)"

definition put_ev_list :: "addr \<Rightarrow> nat \<Rightarrow> of_list_st \<Rightarrow> 'c app_sys \<Rightarrow> 'c app_sys" where
  "put_ev_list d t st s = (case st of (nx, l, rcu) \<Rightarrow>
     s\<lparr>as_links := nx, as_rcu := rcu, as_domains := (as_domains s)
        (d := map_option (\<lambda>D. D\<lparr>app_event_info := (app_event_info D)[t := l]\<rparr>) (as_domains s d))\<rparr>)"

definition of_get_event_app_hook :: "addr \<Rightarrow> u8 \<Rightarrow> u8 \<Rightarrow> 'c app_sys \<Rightarrow> ptr option" where
  "of_get_event_app_hook d t pr s = Option.bind (ev_list s d (unat t))
     (\<lambda>(nx, l, rcu). map_option snd
        (of_list_search nx (\<lambda>n. ah_priority (as_hooks s n) = pr) None (ol_head l)))"

definition cntlr_insert_app_event_hook_in_a_dscnding_priority ::
  "addr \<Rightarrow> u8 \<Rightarrow> addr \<Rightarrow> 'c app_sys \<Rightarrow> 'c app_sys option" where
  "cntlr_insert_app_event_hook_in_a_dscnding_priority d t n s = Option.bind (ev_list s d (unat t))
     (\<lambda>(nx, l, rcu). Option.bind
        (of_list_search nx (\<lambda>c. ah_priority (as_hooks s n) > ah_priority (as_hooks s c)) None (ol_head l))
        (\<lambda>(prev, p). map_option (\<lambda>st. put_ev_list d (unat t) st s)
           (case p of Some c \<Rightarrow> OF_LIST_INSERT_NODE prev n (Some c) (nx, l, rcu)
            | None \<Rightarrow> OF_APPEND_NODE_TO_LIST n (nx, l, rcu))))"

text \<open>\<open>a\<close> is the result of \<^verbatim>\<open>calloc\<close>.\<close>

definition cntlr_register_asynchronous_event_hook ::
  "u64 \<Rightarrow> u8 \<Rightarrow> u8 \<Rightarrow> 'c option \<Rightarrow> ptr \<Rightarrow> ptr \<Rightarrow> ptr \<Rightarrow> 'c app_sys \<Rightarrow> (int \<times> 'c app_sys) option" where
  "cntlr_register_asynchronous_event_hook h t pr cb arg1 arg2 a s =
    (if t < CNTLR_FIRST_EVENT_TYPE \<or> t > CNTLR_LAST_EVENT_TYPE
     then Some (CNTLR_REG_APP_INVALID_APP_EVENT_TYPE, s)
     else if pr < APP_EVENT_MIN_PRIORITY \<or> pr > APP_EVENT_MAX_PRIORITY
     then Some (CNTLR_REG_APP_EVENT_HOOK_INVALID_PRIORITY, s)
     else if cb = None then Some (CNTLR_REG_APP_EVENT_HOOK_NULL_CALLBACK, s)
     else case as_handles s h of None \<Rightarrow> Some (OF_REG_APP_EVNT_HOOK_INVALID_DOMAIN, s)
     | Some d \<Rightarrow> Option.bind (of_get_event_app_hook d t pr s) (\<lambda>dup.
         if dup \<noteq> None then Some (OF_REG_APP_EVNT_HOOK_DUPLICATE_APP_PRIOIRTY, s)
         else case a of None \<Rightarrow> Some (CNTLR_MEM_ALLOC_ERROR, s)
         | Some n \<Rightarrow>
             let s1 = s\<lparr>as_links := (as_links s)(n := None), as_hooks := (as_hooks s)(n :=
                   \<lparr>ah_priority = pr, ah_call_back = cb, ah_cbk_arg1 = arg1, ah_cbk_arg2 = arg2,
                    ah_is_heap = 0\<rparr>)\<rparr>
             in map_option (Pair OF_SUCCESS)
                  (cntlr_insert_app_event_hook_in_a_dscnding_priority d t n s1)))"

definition cntlr_deregister_asynchronous_event_hook ::
  "mem_env \<Rightarrow> u64 \<Rightarrow> u8 \<Rightarrow> u8 \<Rightarrow> 'c app_sys \<Rightarrow> (int \<times> 'c app_sys) option" where
  "cntlr_deregister_asynchronous_event_hook e h t pr s =
    (if t < CNTLR_FIRST_EVENT_TYPE \<or> t > CNTLR_LAST_EVENT_TYPE
     then Some (CNTLR_REG_APP_INVALID_APP_EVENT_TYPE, s)
     else if pr < APP_EVENT_MIN_PRIORITY \<or> pr > APP_EVENT_MAX_PRIORITY
     then Some (CNTLR_REG_APP_EVENT_HOOK_INVALID_PRIORITY, s)
     else case as_handles s h of None \<Rightarrow> Some (OF_REG_APP_EVNT_HOOK_INVALID_DOMAIN, s)
     | Some d \<Rightarrow> Option.bind (ev_list s d (unat t)) (\<lambda>st.
         Option.bind (of_list_remove_where (\<lambda>n. ah_priority (as_hooks s n) = pr) st) (\<lambda>(p, st').
           case p of None \<Rightarrow> Some (OF_FAILURE, s)
           | Some n \<Rightarrow> let s1 = put_ev_list d (unat t) st' s in
               map_option (\<lambda>(_, m). (OF_SUCCESS, s1\<lparr>as_mem := m\<rparr>))
                 (mempool_release_mem_block e of_app_hook_mempool_g (Some n)
                    (ah_is_heap (as_hooks s1 n)) (as_mem s1)))))"

text \<open>The loop over the applications: the last return value and what the applications did.\<close>

partial_function (option) inform_scan ::
  "('c \<Rightarrow> 'w \<Rightarrow> int \<times> 'w) \<Rightarrow> (addr \<Rightarrow> 'c of_app_hook_info) \<Rightarrow> links \<Rightarrow> ptr \<Rightarrow> int \<Rightarrow> 'w \<Rightarrow> (int \<times> 'w) option" where
  "inform_scan call hooks nx p r w =
    (if p = None then Some (r, w)
     else if ah_call_back (hooks (the p)) = None then None
     else let rw = call (the (ah_call_back (hooks (the p)))) w in
          if fst rw = EVENT_CONSUMED_BY_APP then Some rw
          else inform_scan call hooks nx (nx (the p)) (fst rw) (snd rw))"

text \<open>The datapath is given by its domain and its handle. The message, if any, is freed when the last
  application passed the event on, or there was none.\<close>

definition inform_event_to_app ::
  "('c, 'w) event_env \<Rightarrow> (addr \<times> u64) option \<Rightarrow> u8 \<Rightarrow> ptr \<Rightarrow> ptr \<Rightarrow> 'c app_sys \<Rightarrow> 'w \<Rightarrow> 'w option" where
  "inform_event_to_app e dp t info1 info2 s w =
    (case dp of None \<Rightarrow> Some w
     | Some (d, dph) \<Rightarrow> Option.bind (as_domains s d) (\<lambda>D.
         Option.bind (ev_list s d (unat t)) (\<lambda>(nx, l, rcu).
           Option.bind (inform_scan (\<lambda>c. ee_call e c 0 (domain_handle D) dph info1 info2) (as_hooks s) nx
              (ol_head l) PASS_EVENT_TO_NEXT_APP w) (\<lambda>(r, w').
             Some (if r = PASS_EVENT_TO_NEXT_APP
                   then (case info1 of None \<Rightarrow> w' | Some msg \<Rightarrow> ee_free e msg w') else w')))))"

section \<open>Invariant\<close>

text \<open>\<open>X d t\<close> is the sequence of hooks of domain \<open>d\<close> for event type \<open>t\<close>.\<close>

abbreviation prio :: "'c app_sys \<Rightarrow> addr \<Rightarrow> u8" where "prio s n \<equiv> ah_priority (as_hooks s n)"

definition hooks_ok :: "'c app_sys \<Rightarrow> addr list \<Rightarrow> bool" where
  "hooks_ok s xs \<longleftrightarrow> sorted_wrt (\<lambda>a b. prio s b < prio s a) xs \<and>
     (\<forall>n\<in>set xs. 1 \<le> prio s n \<and> prio s n \<le> 16 \<and> ah_call_back (as_hooks s n) \<noteq> None)"

definition ev_ok :: "'c app_sys \<Rightarrow> addr list \<Rightarrow> of_list_st \<Rightarrow> bool" where
  "ev_ok s xs st \<longleftrightarrow> ol_rep st xs \<and> hooks_ok s xs \<and> (ol_cnt st = 0 \<longleftrightarrow> xs = []) \<and>
     unat (ol_cnt st) \<le> length xs"

definition app_inv :: "'c app_sys \<Rightarrow> (addr \<Rightarrow> nat \<Rightarrow> addr list) \<Rightarrow> bool" where
  "app_inv s X \<longleftrightarrow>
     (\<forall>d D. as_domains s d = Some D \<longrightarrow> length (app_event_info D) = 11) \<and>
     (\<forall>h d. as_handles s h = Some d \<longrightarrow> as_domains s d \<noteq> None) \<and>
     (\<forall>d t st. t \<in> {1..10} \<longrightarrow> ev_list s d t = Some st \<longrightarrow> ev_ok s (X d t) st) \<and>
     (\<forall>d t d' t'. (d, t) \<noteq> (d', t') \<longrightarrow> set (X d t) \<inter> set (X d' t') = {})"

text \<open>Where a hook of priority \<open>p\<close> goes.\<close>

definition desc_insert :: "('a \<Rightarrow> u8) \<Rightarrow> 'a \<Rightarrow> 'a list \<Rightarrow> 'a list" where
  "desc_insert f n xs = takeWhile (\<lambda>c. \<not> f c < f n) xs @ n # dropWhile (\<lambda>c. \<not> f c < f n) xs"

lemma desc_insert_simps [simp]:
  "desc_insert f n [] = [n]"
  "desc_insert f n (c # xs) = (if f c < f n then n # c # xs else c # desc_insert f n xs)"
  by (simp_all add: desc_insert_def)

lemma set_desc_insert [simp]: "set (desc_insert f n xs) = insert n (set xs)"
  by (induction xs) auto

lemma length_desc_insert [simp]: "length (desc_insert f n xs) = Suc (length xs)"
  by (induction xs) auto

lemma desc_insert_not_Nil [simp]: "desc_insert f n xs \<noteq> []"
  by (cases xs) auto

lemma desc_insert_sorted:
  "sorted_wrt (\<lambda>a b. f b < f a) xs \<Longrightarrow> f n \<notin> f ` set xs \<Longrightarrow>
   sorted_wrt (\<lambda>a b. f b < f a) (desc_insert f n xs)"
proof (induction xs)
  case (Cons c xs)
  then show ?case by (auto simp: not_less order.strict_iff_order)
qed simp

text \<open>Distinct priorities between 1 and 16: at most sixteen hooks per event.\<close>

lemma sorted_desc_distinct:
  "sorted_wrt (\<lambda>a b. f b < f a) xs \<Longrightarrow> distinct (map f xs)" for f :: "'a \<Rightarrow> u8"
  by (induction xs) auto

lemma hooks_ok_length:
  assumes "hooks_ok s xs" shows "length xs \<le> 16"
proof -
  have d: "distinct (map (unat \<circ> prio s) xs)"
    using sorted_desc_distinct[of "prio s" xs] assms
    by (simp add: hooks_ok_def distinct_map inj_on_def word_unat_eq_iff)
  have "set (map (unat \<circ> prio s) xs) \<subseteq> {1..16}"
    using assms by (auto simp: hooks_ok_def word_le_nat_alt)
  then have "card (set (map (unat \<circ> prio s) xs)) \<le> 16"
    using card_mono[of "{1..16::nat}"] by fastforce
  then show ?thesis using distinct_card[OF d] by simp
qed

lemma hooks_ok_sorted: "hooks_ok s xs \<Longrightarrow> sorted_wrt (\<lambda>a b. prio s b < prio s a) xs"
  by (simp add: hooks_ok_def)

lemma hooks_ok_cong:
  "(\<And>n. n \<in> set xs \<Longrightarrow> as_hooks s' n = as_hooks s n) \<Longrightarrow> hooks_ok s' xs = hooks_ok s xs"
proof -
  assume eq: "\<And>n. n \<in> set xs \<Longrightarrow> as_hooks s' n = as_hooks s n"
  have "sorted_wrt (\<lambda>a b. prio s' b < prio s' a) xs = sorted_wrt (\<lambda>a b. prio s b < prio s a) xs"
    by (rule iffI; rule sorted_wrt_mono_rel; assumption?) (auto simp: eq)
  then show ?thesis using eq by (auto simp: hooks_ok_def)
qed

lemma ev_ok_frame:
  assumes "ev_ok s xs (nx, l, rcu)" "\<And>n. n \<in> set xs \<Longrightarrow> as_hooks s' n = as_hooks s n"
    "\<And>n. n \<in> set xs \<Longrightarrow> nx' n = nx n"
  shows "ev_ok s' xs (nx', l, rcu')"
  using assms lseg_cong[of xs nx' nx] hooks_ok_cong[of xs s' s]
  by (auto simp: ev_ok_def ol_rep_def ol_cnt_def)


definition upd :: "addr \<Rightarrow> nat \<Rightarrow> addr list \<Rightarrow> (addr \<Rightarrow> nat \<Rightarrow> addr list) \<Rightarrow> addr \<Rightarrow> nat \<Rightarrow> addr list" where
  "upd d t ys X = (\<lambda>d' t'. if d' = d \<and> t' = t then ys else X d' t')"

lemma upd_simps [simp]:
  "upd d t ys X d t = ys" "(d', t') \<noteq> (d, t) \<Longrightarrow> upd d t ys X d' t' = X d' t'"
  by (auto simp: upd_def)

lemma ev_list_put:
  assumes "ev_list s d t = Some st0"
  shows "ev_list (put_ev_list d t (nx, l, rcu) s) d' t' =
    (if d' = d \<and> t' = t then Some (nx, l, rcu)
     else map_option (\<lambda>(_, l', _). (nx, l', rcu)) (ev_list s d' t'))"
  using assms
  by (cases "as_domains s d'")
    (auto simp: ev_list_def put_ev_list_def split: if_splits Option.bind_splits)

lemma put_ev_list_fields [simp]:
  "as_hooks (put_ev_list d t st s) = as_hooks s" "as_handles (put_ev_list d t st s) = as_handles s"
  "as_mem (put_ev_list d t st s) = as_mem s"
  by (cases st; simp add: put_ev_list_def)+

lemma ev_list_hooks [simp]:
  "ev_list (s\<lparr>as_hooks := hk\<rparr>) d t = ev_list s d t"
  "ev_list (s\<lparr>as_mem := m\<rparr>) d t = ev_list s d t"
  by (cases "as_domains s d"; simp add: ev_list_def)+

lemma ev_list_links:
  "ev_list (s\<lparr>as_links := nx\<rparr>) d t = map_option (\<lambda>(_, l, rcu). (nx, l, rcu)) (ev_list s d t)"
  by (cases "as_domains s d") (auto simp: ev_list_def)

lemma app_inv_mem [simp]: "app_inv (s\<lparr>as_mem := m\<rparr>) X = app_inv s X"
  by (simp add: app_inv_def ev_ok_def hooks_ok_def)

lemma app_inv_ev:
  assumes "app_inv s X" "as_handles s h = Some d" "t \<in> {1..10}"
  obtains nx l rcu where "ev_list s d t = Some (nx, l, rcu)" "ev_ok s (X d t) (nx, l, rcu)"
    "nx = as_links s" "rcu = as_rcu s"
proof -
  obtain D where D: "as_domains s d = Some D" using assms(1,2) by (fastforce simp: app_inv_def)
  moreover have "length (app_event_info D) = 11" using D assms(1) by (auto simp: app_inv_def)
  ultimately have "ev_list s d t = Some (as_links s, app_event_info D ! t, as_rcu s)"
    using assms(3) by (simp add: ev_list_def)
  moreover from this have "ev_ok s (X d t) (as_links s, app_event_info D ! t, as_rcu s)"
    using assms(1,3) by (auto simp: app_inv_def)
  ultimately show thesis by (rule that) simp_all
qed

lemma app_inv_update:
  assumes inv: "app_inv s X" and ev: "ev_list s d t = Some st0" and t: "t \<in> {1..10}"
    and s1: "as_domains s1 = as_domains s" "as_handles s1 = as_handles s"
    and s': "s' = put_ev_list d t (nx, l, rcu) s1"
    and ok: "ev_ok s' ys (nx, l, rcu)"
    and fr: "\<And>d' t' n. (d', t') \<noteq> (d, t) \<Longrightarrow> n \<in> set (X d' t') \<Longrightarrow>
        as_hooks s1 n = as_hooks s n \<and> nx n = as_links s n \<and> n \<notin> set ys"
  shows "app_inv s' (upd d t ys X)"
proof -
  have ev1: "ev_list s1 d t = Some (as_links s1, fst (snd st0), as_rcu s1)"
    using ev s1(1) by (auto simp: ev_list_def split: Option.bind_splits if_splits)
  have get: "ev_list s' d' t' = (if d' = d \<and> t' = t then Some (nx, l, rcu)
       else map_option (\<lambda>(_, l', _). (nx, l', rcu)) (ev_list s d' t'))" for d' t'
  proof -
    have "map_option (\<lambda>(_, l', _). (nx, l', rcu)) (ev_list s1 d' t') =
        map_option (\<lambda>(_, l', _). (nx, l', rcu)) (ev_list s d' t')"
      using s1(1) by (cases "as_domains s d'") (auto simp: ev_list_def)
    then show ?thesis unfolding s' ev_list_put[OF ev1] by simp
  qed
  have len: "length (app_event_info D) = 11" if "as_domains s' d' = Some D" for d' D
    using that inv unfolding s' put_ev_list_def app_inv_def
    by (auto simp: s1 split: if_splits)
  have hnd: "as_domains s' d' \<noteq> None" if "as_handles s' h = Some d'" for h d'
    using that inv s1 unfolding s' put_ev_list_def app_inv_def by auto
  have lists: "ev_ok s' (upd d t ys X d' t') st"
    if tr: "t' \<in> {1..10}" and st: "ev_list s' d' t' = Some st" for d' t' st
  proof (cases "d' = d \<and> t' = t")
    case True
    then show ?thesis using st ok by (auto simp: get)
  next
    case False
    then obtain l' nx0 rcu0 where l': "ev_list s d' t' = Some (nx0, l', rcu0)" "st = (nx, l', rcu)"
      using st by (auto simp: get)
    have nx0: "nx0 = as_links s" using l'(1) by (auto simp: ev_list_def split: Option.bind_splits if_splits)
    have ok0: "ev_ok s (X d' t') (as_links s, l', rcu0)" using inv tr l'(1) nx0 by (auto simp: app_inv_def)
    have "ev_ok s' (X d' t') (nx, l', rcu)"
      by (rule ev_ok_frame[OF ok0]) (use fr[of d' t'] False s' in auto)
    then show ?thesis using False l'(2) by (auto simp: upd_def)
  qed
  have disj: "set (upd d t ys X d1 t1) \<inter> set (upd d t ys X d2 t2) = {}" if "(d1, t1) \<noteq> (d2, t2)" for d1 t1 d2 t2
  proof -
    have old: "set (X d1 t1) \<inter> set (X d2 t2) = {}" using inv that unfolding app_inv_def by blast
    consider "(d1, t1) = (d, t)" | "(d2, t2) = (d, t)" | "(d1, t1) \<noteq> (d, t)" "(d2, t2) \<noteq> (d, t)" by blast
    then show ?thesis
    proof cases
      case 1
      then have "(d2, t2) \<noteq> (d, t)" using that by auto
      then show ?thesis using 1 fr[of d2 t2] by auto
    next
      case 2
      then have "(d1, t1) \<noteq> (d, t)" using that by auto
      then show ?thesis using 2 fr[of d1 t1] by auto
    next
      case 3
      then show ?thesis using old by simp
    qed
  qed
  show ?thesis unfolding app_inv_def using len hnd lists disj by blast
qed

section \<open>The operations on the list of one event\<close>

lemma of_list_search_find:
  "lseg nx p xs None \<Longrightarrow> map_option snd (of_list_search nx P prev p) = Some (List.find P xs)"
  by (induction xs arbitrary: prev p)
    (auto simp: of_list_search.simps[of _ _ _ None] of_list_search.simps[of _ _ _ "Some _"])

lemma get_hook:
  assumes "ev_list s d (unat t) = Some (nx, l, rcu)" "ol_rep (nx, l, rcu) xs"
  shows "of_get_event_app_hook d t pr s = Some (List.find (\<lambda>n. prio s n = pr) xs)"
  using assms of_list_search_find[of nx "ol_head l" xs "\<lambda>n. prio s n = pr" None]
  by (simp add: of_get_event_app_hook_def ol_rep_def)

lemma insert_hook:
  assumes ev: "ev_list s d (unat t) = Some (nx, l, rcu)" and rep: "ol_rep (nx, l, rcu) xs"
    and n: "n \<notin> set xs" "node_ok n" "nx n = None"
  shows "\<exists>nx' l'. cntlr_insert_app_event_hook_in_a_dscnding_priority d t n s =
      Some (put_ev_list d (unat t) (nx', l', rcu) s) \<and> ol_rep (nx', l', rcu) (desc_insert (prio s) n xs) \<and>
      (\<forall>m. m \<notin> set xs \<longrightarrow> m \<noteq> n \<longrightarrow> nx' m = nx m) \<and>
      ol_count l' = (if \<exists>x\<in>set xs. prio s x < prio s n then ol_count l else ol_count l + 1)"
proof (cases "\<exists>x\<in>set xs. prio s x < prio s n")
  case False
  then have ab: "\<forall>x\<in>set xs. \<not> prio s x < prio s n" by blast
  then have di: "desc_insert (prio s) n xs = xs @ [n]"
    by (induction xs) auto
  have "lseg nx (ol_head l) xs None" using rep by (simp add: ol_rep_def)
  note se = of_list_search_absent[OF this ab, of None]
  obtain st' where "OF_APPEND_NODE_TO_LIST n (nx, l, rcu) = Some st'" "ol_rep st' (xs @ [n])"
    "ol_cnt st' = ol_count l + 1" "snd (snd st') = rcu" "\<forall>m. m \<notin> set xs \<longrightarrow> fst st' m = nx m"
    using ol_append[OF rep n(1,2)] n(3) by (auto simp: ol_cnt_def)
  then show ?thesis using False se ev di
    by (cases st') (auto simp: cntlr_insert_app_event_hook_in_a_dscnding_priority_def ol_cnt_def)
next
  case True
  let ?P = "\<lambda>c. prio s n > prio s c" and ?ys = "takeWhile (\<lambda>c. \<not> prio s c < prio s n) xs"
  obtain z zs where dw: "dropWhile (\<lambda>c. \<not> prio s c < prio s n) xs = z # zs"
    using True by (cases "dropWhile (\<lambda>c. \<not> prio s c < prio s n) xs") auto
  have xs: "xs = ?ys @ z # zs" using takeWhile_dropWhile_id[of "\<lambda>c. \<not> prio s c < prio s n" xs] dw by simp
  have P: "\<forall>y\<in>set ?ys. \<not> ?P y" "?P z"
    using set_takeWhileD[of _ "\<lambda>c. \<not> prio s c < prio s n" xs] hd_dropWhile[of "\<lambda>c. \<not> prio s c < prio s n" xs] dw
    by auto
  have "lseg nx (ol_head l) (?ys @ z # zs) None" using rep xs by (simp add: ol_rep_def)
  note se = of_list_search_present[OF this P, of None]
  have "ol_rep (nx, l, rcu) (?ys @ z # zs)" using rep xs by simp
  from ol_insert[OF this _ n(2)] n(1) xs obtain st' where
    "OF_LIST_INSERT_NODE (last_ptr ?ys) n (Some z) (nx, l, rcu) = Some st'" "ol_rep st' (?ys @ n # z # zs)"
    "ol_cnt st' = ol_count l" "snd (snd st') = rcu" "\<forall>m. m \<notin> set ?ys \<longrightarrow> m \<noteq> n \<longrightarrow> fst st' m = nx m"
    by (auto simp: ol_cnt_def)
  moreover have "set ?ys \<subseteq> set xs" by (auto dest: set_takeWhileD)
  moreover have "(if ?ys = [] then None else last_ptr ?ys) = last_ptr ?ys" by simp
  ultimately show ?thesis using True se ev dw
    by (cases st')
      (auto simp: cntlr_insert_app_event_hook_in_a_dscnding_priority_def ol_cnt_def desc_insert_def)
qed

lemma u8_range: "t \<in> {1..10} \<Longrightarrow> 1 \<le> (t :: u8) \<and> t \<le> 10 \<and> unat t \<in> {1..10}"
  by (auto simp: word_le_nat_alt)

lemma guards_pass:
  "1 \<le> (t :: u8) \<Longrightarrow> t \<le> 10 \<Longrightarrow> (t < 1 \<or> t > 10) = False"
  "1 \<le> (pr :: u8) \<Longrightarrow> pr \<le> 16 \<Longrightarrow> (pr < 1 \<or> pr > 16) = False"
  by (auto simp: not_less)

lemma register_ok:
  assumes inv: "app_inv s X" and h: "as_handles s h = Some d"
    and t: "1 \<le> t" "t \<le> 10" and pr: "1 \<le> pr" "pr \<le> 16"
    and n: "\<forall>d t. n \<notin> set (X d t)" "node_ok n" and new: "pr \<notin> prio s ` set (X d (unat t))"
  shows "\<exists>s'. cntlr_register_asynchronous_event_hook h t pr (Some cb) a1 a2 (Some n) s = Some (OF_SUCCESS, s') \<and>
    app_inv s' (upd d (unat t) (desc_insert (prio s') n (X d (unat t))) X) \<and>
    as_hooks s' = (as_hooks s)(n := \<lparr>ah_priority = pr, ah_call_back = Some cb, ah_cbk_arg1 = a1,
      ah_cbk_arg2 = a2, ah_is_heap = 0\<rparr>)"
proof -
  have ut: "unat t \<in> {1..10}" using t by (auto simp: word_le_nat_alt)
  let ?xs = "X d (unat t)" and ?h = "\<lparr>ah_priority = pr, ah_call_back = Some cb, ah_cbk_arg1 = a1,
      ah_cbk_arg2 = a2, ah_is_heap = 0\<rparr>"
  let ?s1 = "s\<lparr>as_links := (as_links s)(n := None), as_hooks := (as_hooks s)(n := ?h)\<rparr>"
  obtain nx l rcu where ev: "ev_list s d (unat t) = Some (nx, l, rcu)" "ev_ok s ?xs (nx, l, rcu)"
    "nx = as_links s" "rcu = as_rcu s" using app_inv_ev[OF inv h ut] .
  have rep: "ol_rep (nx, l, rcu) ?xs" and hk: "hooks_ok s ?xs" using ev(2) by (auto simp: ev_ok_def)
  have ev1: "ev_list ?s1 d (unat t) = Some (nx(n := None), l, rcu)"
    using ev(1,3) by (cases "as_domains s d") (auto simp: ev_list_def split: if_splits)
  have rep1: "ol_rep (nx(n := None), l, rcu) ?xs" using rep n(1) by (simp add: ol_rep_def)
  have dup: "of_get_event_app_hook d t pr s = Some None"
    using get_hook[OF ev(1) rep, of pr] new by (auto simp: find_None_iff)
  have xn: "n \<notin> set ?xs" using n(1) by blast
  obtain nx' l' where ins: "cntlr_insert_app_event_hook_in_a_dscnding_priority d t n ?s1 =
      Some (put_ev_list d (unat t) (nx', l', rcu) ?s1)" "ol_rep (nx', l', rcu) (desc_insert (prio ?s1) n ?xs)"
    "\<forall>m. m \<notin> set ?xs \<longrightarrow> m \<noteq> n \<longrightarrow> nx' m = (nx(n := None)) m"
    "ol_count l' = (if \<exists>x\<in>set ?xs. prio ?s1 x < prio ?s1 n then ol_count l else ol_count l + 1)"
    using insert_hook[OF ev1 rep1 xn n(2)] by auto
  let ?s' = "put_ev_list d (unat t) (nx', l', rcu) ?s1"
  have reg: "cntlr_register_asynchronous_event_hook h t pr (Some cb) a1 a2 (Some n) s = Some (OF_SUCCESS, ?s')"
    unfolding cntlr_register_asynchronous_event_hook_def guards_pass(1)[OF t] guards_pass(2)[OF pr]
    using h dup ins(1) by (simp add: Let_def)
  have hooks': "as_hooks ?s' = (as_hooks s)(n := ?h)" by simp
  have srt: "sorted_wrt (\<lambda>a b. prio ?s1 b < prio ?s1 a) ?xs"
  proof -
    have "hooks_ok ?s1 ?xs = hooks_ok s ?xs" by (rule hooks_ok_cong) (use xn in auto)
    then show ?thesis using hooks_ok_sorted[of ?s1 ?xs] hk by blast
  qed
  have new1: "prio ?s1 n \<notin> prio ?s1 ` set ?xs" using new xn by (auto split: if_splits)
  have "sorted_wrt (\<lambda>a b. prio ?s' b < prio ?s' a) (desc_insert (prio ?s') n ?xs)"
    using desc_insert_sorted[OF srt new1] by simp
  then have hk': "hooks_ok ?s' (desc_insert (prio ?s') n ?xs)"
    using hk pr xn by (auto simp: hooks_ok_def)
  have cnt: "ol_count l' = 0 \<longleftrightarrow> False" "unat (ol_count l') \<le> Suc (length ?xs)"
  proof -
    have le: "length ?xs \<le> 16" using hooks_ok_length[OF hk] .
    have c: "(ol_count l = 0) = (?xs = [])" "unat (ol_count l) \<le> length ?xs"
      using ev(2) by (auto simp: ev_ok_def ol_cnt_def)
    have s1: "unat (ol_count l + 1) = Suc (unat (ol_count l))"
      using c(2) le by (intro unat_Suc_u32[of _ 100]) (simp add: word_less_nat_alt)
    then show "unat (ol_count l') \<le> Suc (length ?xs)" using c(2) ins(4) by (auto split: if_splits)
    have "ol_count l + 1 \<noteq> 0" using s1 by (metis unat_0 nat.distinct(1))
    then show "ol_count l' = 0 \<longleftrightarrow> False" using c(1) ins(4) by (auto split: if_splits)
  qed
  have ok': "ev_ok ?s' (desc_insert (prio ?s') n ?xs) (nx', l', rcu)"
    using ins(2) hk' cnt by (simp add: ev_ok_def ol_cnt_def)
  have "app_inv ?s' (upd d (unat t) (desc_insert (prio ?s') n ?xs) X)"
  proof (rule app_inv_update[OF inv ev(1) ut _ _ refl ok'])
    fix d' t' m assume d': "(d', t') \<noteq> (d, unat t)" "m \<in> set (X d' t')"
    have "m \<noteq> n" using d'(2) n(1) by blast
    moreover have "m \<notin> set ?xs" using inv d' unfolding app_inv_def by blast
    ultimately show "as_hooks ?s1 m = as_hooks s m \<and> nx' m = as_links s m \<and>
        m \<notin> set (desc_insert (prio ?s') n ?xs)"
      using ins(3) ev(3) by simp
  qed simp_all
  then show ?thesis using reg hooks' by blast
qed

lemma u32_one: "unat (w :: u32) = 1 \<longleftrightarrow> w = 1" "unat (w :: u32) = Suc 0 \<longleftrightarrow> w = 1"
  by (simp_all add: word_unat_eq_iff)

lemma deregister_ok:
  assumes inv: "app_inv s X" and h: "as_handles s h = Some d"
    and t: "1 \<le> t" "t \<le> 10" and pr: "1 \<le> pr" "pr \<le> 16"
    and x: "x \<in> set (X d (unat t))" "prio s x = pr"
    and st: "ev_list s d (unat t) = Some st"
  shows "\<exists>s'. cntlr_deregister_asynchronous_event_hook e h t pr s = Some (OF_SUCCESS, s') \<and>
    app_inv s' (upd d (unat t) (olist_remove x (ol_cnt st) (X d (unat t))) X) \<and>
    as_hooks s' = as_hooks s \<and> as_mem s' = as_mem s"
proof -
  have ut: "unat t \<in> {1..10}" using t by (auto simp: word_le_nat_alt)
  let ?xs = "X d (unat t)" and ?P = "\<lambda>n. prio s n = pr"
  obtain nx l rcu where ev: "ev_list s d (unat t) = Some (nx, l, rcu)" "ev_ok s ?xs (nx, l, rcu)"
    "nx = as_links s" "rcu = as_rcu s" using app_inv_ev[OF inv h ut] .
  have sst: "st = (nx, l, rcu)" using ev(1) st by simp
  have rep: "ol_rep (nx, l, rcu) ?xs" and hk: "hooks_ok s ?xs" using ev(2) by (auto simp: ev_ok_def)
  have inj: "inj_on (prio s) (set ?xs)" and dist: "distinct ?xs"
    using sorted_desc_distinct[of "prio s" ?xs] hk by (auto simp: hooks_ok_def distinct_map)
  obtain ys zs where xs: "?xs = ys @ x # zs" using x(1) split_list by fastforce
  have xy: "x \<notin> set ys" "x \<notin> set zs" using dist xs by auto
  have nP: "\<forall>y\<in>set ys. \<not> ?P y" using inj xs x(2) xy by (auto simp: inj_on_def)
  note rw = of_list_remove_where_present[OF rep[unfolded xs] nP x(2)]
  have "\<exists>st'. OF_REMOVE_NODE_FROM_LIST x (last_ptr ys) (nx, l, rcu) = Some st' \<and>
      ol_rep st' (olist_remove x (ol_cnt st) ?xs) \<and> ol_cnt st' = ol_cnt st - 1 \<and>
      (\<forall>m. m \<notin> set ?xs \<longrightarrow> fst st' m = nx m)"
  proof (cases "ol_count l = 1")
    case True
    then show ?thesis using ol_remove_one[OF rep, of x "last_ptr ys"]
      by (auto simp: ol_cnt_def olist_remove_def sst)
  next
    case False
    have "ys @ zs \<noteq> []"
    proof
      assume "ys @ zs = []"
      then have "unat (ol_count l) \<le> 1" "ol_count l \<noteq> 0"
        using ev(2) xs by (auto simp: ev_ok_def ol_cnt_def)
      then show False using False by (auto simp: le_Suc_eq u32_one unat_eq_zero)
    qed
    then show ?thesis using ol_remove_more[OF rep[unfolded xs]] False xs xy
      by (auto simp: ol_cnt_def olist_remove_def sst remove1_append)
  qed
  then obtain nx' l' rcu' where st': "OF_REMOVE_NODE_FROM_LIST x (last_ptr ys) (nx, l, rcu) = Some (nx', l', rcu')"
    "ol_rep (nx', l', rcu') (olist_remove x (ol_cnt st) ?xs)" "ol_count l' = ol_count l - 1"
    "\<forall>m. m \<notin> set ?xs \<longrightarrow> nx' m = nx m" by (auto simp: ol_cnt_def sst)
  let ?s' = "put_ev_list d (unat t) (nx', l', rcu') s"
  have der: "cntlr_deregister_asynchronous_event_hook e h t pr s = Some (OF_SUCCESS, ?s')"
    unfolding cntlr_deregister_asynchronous_event_hook_def guards_pass(1)[OF t] guards_pass(2)[OF pr]
    using h ev(1) rw st'(1) by (simp add: mempool_release_mem_block_def of_app_hook_mempool_g_def Let_def)
  have sub: "set (olist_remove x (ol_cnt st) ?xs) \<subseteq> set ?xs"
    by (auto simp: olist_remove_def dest: set_remove1_subset[THEN subsetD])
  have srt: "sorted_wrt (\<lambda>a b. prio s b < prio s a) (olist_remove x (ol_cnt st) ?xs)"
    using hk xs xy by (auto simp: hooks_ok_def olist_remove_def remove1_append sorted_wrt_append)
  have hk': "hooks_ok ?s' (olist_remove x (ol_cnt st) ?xs)"
    using hk srt sub by (auto simp: hooks_ok_def)
  have cnt: "ol_count l' = 0 \<longleftrightarrow> olist_remove x (ol_cnt st) ?xs = []"
    "unat (ol_count l') \<le> length (olist_remove x (ol_cnt st) ?xs)"
  proof -
    have c: "ol_count l \<noteq> 0" "unat (ol_count l) \<le> length ?xs" using ev(2) xs by (auto simp: ev_ok_def ol_cnt_def)
    have u: "unat (ol_count l - 1) = unat (ol_count l) - 1" using c(1) by (simp add: unat_minus_one)
    show "unat (ol_count l') \<le> length (olist_remove x (ol_cnt st) ?xs)"
      using u c(2) st'(3) xs xy by (auto simp: olist_remove_def ol_cnt_def sst remove1_append)
    show "ol_count l' = 0 \<longleftrightarrow> olist_remove x (ol_cnt st) ?xs = []"
    proof (cases "ol_count l = 1")
      case False
      then have "1 < unat (ol_count l)" using c(1)
        using u32_one(1)[of "ol_count l"] unat_eq_zero[of "ol_count l"] False by linarith
      then show ?thesis using False c(2) xs xy st'(3) by (auto simp: olist_remove_def ol_cnt_def sst remove1_append)
    qed (use st'(3) in \<open>simp add: olist_remove_def ol_cnt_def sst\<close>)
  qed
  have ok': "ev_ok ?s' (olist_remove x (ol_cnt st) ?xs) (nx', l', rcu')"
    using st'(2) hk' cnt by (auto simp: ev_ok_def ol_cnt_def)
  have "app_inv ?s' (upd d (unat t) (olist_remove x (ol_cnt st) ?xs) X)"
  proof (rule app_inv_update[OF inv ev(1) ut refl refl refl ok'])
    fix d' t' m assume d': "(d', t') \<noteq> (d, unat t)" "m \<in> set (X d' t')"
    have "m \<notin> set ?xs" using inv d' unfolding app_inv_def by blast
    then show "as_hooks s m = as_hooks s m \<and> nx' m = as_links s m \<and> m \<notin> set (olist_remove x (ol_cnt st) ?xs)"
      using st'(4) ev(3) sub by auto
  qed
  then show ?thesis using der by auto
qed

text \<open>What the two operations promise: the checks in order, and the effect when all pass.\<close>

definition register_code ::
  "'c app_sys \<Rightarrow> (addr \<Rightarrow> nat \<Rightarrow> addr list) \<Rightarrow> u64 \<Rightarrow> u8 \<Rightarrow> u8 \<Rightarrow> 'c option \<Rightarrow> ptr \<Rightarrow> int" where
  "register_code s X h t pr cb a =
    (if t \<notin> {1..10} then CNTLR_REG_APP_INVALID_APP_EVENT_TYPE
     else if pr \<notin> {1..16} then CNTLR_REG_APP_EVENT_HOOK_INVALID_PRIORITY
     else if cb = None then CNTLR_REG_APP_EVENT_HOOK_NULL_CALLBACK
     else if as_handles s h = None then OF_REG_APP_EVNT_HOOK_INVALID_DOMAIN
     else if pr \<in> prio s ` set (X (the (as_handles s h)) (unat t))
     then OF_REG_APP_EVNT_HOOK_DUPLICATE_APP_PRIOIRTY
     else if a = None then CNTLR_MEM_ALLOC_ERROR
     else OF_SUCCESS)"

definition deregister_code ::
  "'c app_sys \<Rightarrow> (addr \<Rightarrow> nat \<Rightarrow> addr list) \<Rightarrow> u64 \<Rightarrow> u8 \<Rightarrow> u8 \<Rightarrow> int" where
  "deregister_code s X h t pr =
    (if t \<notin> {1..10} then CNTLR_REG_APP_INVALID_APP_EVENT_TYPE
     else if pr \<notin> {1..16} then CNTLR_REG_APP_EVENT_HOOK_INVALID_PRIORITY
     else if as_handles s h = None then OF_REG_APP_EVNT_HOOK_INVALID_DOMAIN
     else if pr \<in> prio s ` set (X (the (as_handles s h)) (unat t)) then OF_SUCCESS
     else OF_FAILURE)"

lemmas app_codes = CNTLR_APP_EVENT_ERROR_START_def CNTLR_OF_MSG_ERROR_START_def
  CNTLR_DPIFACE_EROOR_START_def CNTLR_GENERIC_ERROR_START_def

lemma guard_iff:
  "(t < 1 \<or> t > 10) = (t \<notin> {1..10})" "(pr < 1 \<or> pr > 16) = (pr \<notin> {1..16})" for t pr :: u8
  unfolding atLeastAtMost_iff not_less[symmetric] by simp_all

lemma register_codes:
  assumes inv: "app_inv s X"
    and n: "\<forall>n. a = Some n \<longrightarrow> (\<forall>d t. n \<notin> set (X d t)) \<and> node_ok n"
  shows "\<exists>s'. cntlr_register_asynchronous_event_hook h t pr cb a1 a2 a s = Some (register_code s X h t pr cb a, s') \<and>
    (register_code s X h t pr cb a \<noteq> OF_SUCCESS \<longrightarrow> s' = s) \<and>
    (register_code s X h t pr cb a = OF_SUCCESS \<longrightarrow> (\<exists>d n. as_handles s h = Some d \<and> a = Some n \<and>
       app_inv s' (upd d (unat t) (desc_insert (prio s') n (X d (unat t))) X) \<and>
       as_hooks s' = (as_hooks s)(n := \<lparr>ah_priority = pr, ah_call_back = cb,
         ah_cbk_arg1 = a1, ah_cbk_arg2 = a2, ah_is_heap = 0\<rparr>)))"
proof (cases "t \<in> {1..10} \<and> pr \<in> {1..16} \<and> cb \<noteq> None \<and> as_handles s h \<noteq> None")
  case False
  then show ?thesis
    unfolding cntlr_register_asynchronous_event_hook_def guard_iff register_code_def
    by (auto simp: app_codes split: option.splits)
next
  case True
  then obtain c d where cd: "cb = Some c" "as_handles s h = Some d" by auto
  have ut: "unat t \<in> {1..10}" and r: "1 \<le> t" "t \<le> 10" "1 \<le> pr" "pr \<le> 16"
    using True by (auto simp: word_le_nat_alt)
  obtain nx l rcu where ev: "ev_list s d (unat t) = Some (nx, l, rcu)"
    "ev_ok s (X d (unat t)) (nx, l, rcu)" using app_inv_ev[OF inv cd(2) ut] .
  have hook: "of_get_event_app_hook d t pr s = Some (List.find (\<lambda>n. prio s n = pr) (X d (unat t)))"
    using get_hook[OF ev(1)] ev(2) by (simp add: ev_ok_def)
  show ?thesis
  proof (cases "pr \<in> prio s ` set (X d (unat t)) \<or> a = None")
    case dup: True
    then show ?thesis using hook True
      unfolding cntlr_register_asynchronous_event_hook_def guard_iff register_code_def cd
      by (cases "List.find (\<lambda>n. prio s n = pr) (X d (unat t))")
        (auto simp: find_None_iff find_Some_iff app_codes)
  next
    case False
    then obtain n' where n': "a = Some n'" by auto
    then have fr: "\<forall>d t. n' \<notin> set (X d t)" "node_ok n'" using n by auto
    have new: "pr \<notin> prio s ` set (X d (unat t))" using False by blast
    obtain s' where s': "cntlr_register_asynchronous_event_hook h t pr (Some c) a1 a2 (Some n') s = Some (OF_SUCCESS, s')"
      "app_inv s' (upd d (unat t) (desc_insert (prio s') n' (X d (unat t))) X)"
      "as_hooks s' = (as_hooks s)(n' := \<lparr>ah_priority = pr, ah_call_back = Some c, ah_cbk_arg1 = a1,
         ah_cbk_arg2 = a2, ah_is_heap = 0\<rparr>)" using register_ok[OF inv cd(2) r fr new] by blast
    have "register_code s X h t pr cb a = OF_SUCCESS"
      using True new cd n' by (simp add: register_code_def)
    then show ?thesis using s' cd n' by auto
  qed
qed

lemma deregister_codes:
  assumes inv: "app_inv s X"
  shows "\<exists>s'. cntlr_deregister_asynchronous_event_hook e h t pr s = Some (deregister_code s X h t pr, s') \<and>
    (deregister_code s X h t pr \<noteq> OF_SUCCESS \<longrightarrow> s' = s) \<and>
    (deregister_code s X h t pr = OF_SUCCESS \<longrightarrow> (\<exists>d x st. as_handles s h = Some d \<and>
       ev_list s d (unat t) = Some st \<and> x \<in> set (X d (unat t)) \<and> prio s x = pr \<and>
       app_inv s' (upd d (unat t) (olist_remove x (ol_cnt st) (X d (unat t))) X) \<and>
       as_hooks s' = as_hooks s \<and> as_mem s' = as_mem s))"
proof (cases "t \<in> {1..10} \<and> pr \<in> {1..16} \<and> as_handles s h \<noteq> None")
  case False
  then show ?thesis
    unfolding cntlr_deregister_asynchronous_event_hook_def guard_iff deregister_code_def
    by (auto simp: app_codes split: option.splits)
next
  case True
  then obtain d where d: "as_handles s h = Some d" by auto
  have ut: "unat t \<in> {1..10}" and r: "1 \<le> t" "t \<le> 10" "1 \<le> pr" "pr \<le> 16"
    using True by (auto simp: word_le_nat_alt)
  obtain nx l rcu where ev: "ev_list s d (unat t) = Some (nx, l, rcu)"
    "ev_ok s (X d (unat t)) (nx, l, rcu)" using app_inv_ev[OF inv d ut] .
  show ?thesis
  proof (cases "pr \<in> prio s ` set (X d (unat t))")
    case False
    then have "of_list_remove_where (\<lambda>n. prio s n = pr) (nx, l, rcu) = Some (None, nx, l, rcu)"
      using ev(2) by (intro of_list_remove_where_absent) (auto simp: ev_ok_def)
    then show ?thesis unfolding cntlr_deregister_asynchronous_event_hook_def guard_iff deregister_code_def
      using True d ev(1) False by simp
  next
    case in_use: True
    then obtain x where x: "x \<in> set (X d (unat t))" "prio s x = pr" by auto
    have "deregister_code s X h t pr = OF_SUCCESS" using in_use True d by (simp add: deregister_code_def)
    then show ?thesis using deregister_ok[OF inv d r x ev(1), of e] d ev(1) x by fastforce
  qed
qed

section \<open>Dispatch\<close>

text \<open>Calling a list of callbacks one after the other: the results and the final world.\<close>

fun call_all :: "('c \<Rightarrow> 'w \<Rightarrow> int \<times> 'w) \<Rightarrow> 'c list \<Rightarrow> 'w \<Rightarrow> int list \<times> 'w" where
  "call_all f [] w = ([], w)"
| "call_all f (c # cs) w = (fst (f c w) # fst (call_all f cs (snd (f c w))), snd (call_all f cs (snd (f c w))))"

text \<open>A dispatch calls a prefix of the callbacks, in order. No call but the last of them consumed the
  event, and the last one did unless all have been called.\<close>

definition dispatched :: "('c \<Rightarrow> 'w \<Rightarrow> int \<times> 'w) \<Rightarrow> 'c list \<Rightarrow> 'w \<Rightarrow> int list \<Rightarrow> 'w \<Rightarrow> bool" where
  "dispatched f cs w rs w1 \<longleftrightarrow> (\<exists>n\<le>length cs. call_all f (take n cs) w = (rs, w1) \<and>
     (\<forall>q\<in>set (butlast rs). q \<noteq> EVENT_CONSUMED_BY_APP) \<and>
     (n < length cs \<longrightarrow> rs \<noteq> [] \<and> last rs = EVENT_CONSUMED_BY_APP))"

lemma dispatched_Nil: "dispatched f [] w [] w"
  by (simp add: dispatched_def)

lemma dispatched_stop:
  assumes "f c w = (r, w1)" "r = EVENT_CONSUMED_BY_APP" shows "dispatched f (c # cs) w [r] w1"
  unfolding dispatched_def by (rule exI[of _ 1]) (simp add: assms)

lemma dispatched_Cons:
  assumes "f c w = (r, w1)" "r \<noteq> EVENT_CONSUMED_BY_APP" "dispatched f cs w1 rs w2"
  shows "dispatched f (c # cs) w (r # rs) w2"
proof -
  obtain n where "n \<le> length cs" "call_all f (take n cs) w1 = (rs, w2)"
    "\<forall>q\<in>set (butlast rs). q \<noteq> EVENT_CONSUMED_BY_APP"
    "n < length cs \<longrightarrow> rs \<noteq> [] \<and> last rs = EVENT_CONSUMED_BY_APP"
    using assms(3) unfolding dispatched_def by blast
  then show ?thesis unfolding dispatched_def by (intro exI[of _ "Suc n"]) (use assms(1,2) in auto)
qed

lemma inform_scan_dispatched:
  assumes "lseg nx p xs None" "\<forall>x\<in>set xs. ah_call_back (hk x) = Some (cbk x)"
  shows "\<exists>rs w1. dispatched f (map cbk xs) w rs w1 \<and> inform_scan f hk nx p r w = Some (last (r # rs), w1)"
  using assms
proof (induction xs arbitrary: p r w)
  case Nil
  then show ?case using dispatched_Nil[of f w] by (auto simp: inform_scan.simps[of _ _ _ None])
next
  case (Cons x xs)
  obtain q w' where rw: "f (cbk x) w = (q, w')" by (cases "f (cbk x) w")
  have step: "inform_scan f hk nx p r w =
      (if q = EVENT_CONSUMED_BY_APP then Some (q, w') else inform_scan f hk nx (nx x) q w')"
    using Cons.prems by (simp add: inform_scan.simps[of _ _ _ "Some _"] rw)
  show ?case
  proof (cases "q = EVENT_CONSUMED_BY_APP")
    case True
    then show ?thesis using step dispatched_stop[of f "cbk x" w q w' "map cbk xs"] rw True by fastforce
  next
    case False
    have "lseg nx (nx x) xs None" "\<forall>x\<in>set xs. ah_call_back (hk x) = Some (cbk x)" using Cons.prems by auto
    from Cons.IH[OF this, of w' q] obtain rs w1 where
      "dispatched f (map cbk xs) w' rs w1" "inform_scan f hk nx (nx x) q w' = Some (last (q # rs), w1)" by blast
    then show ?thesis using step False dispatched_Cons[of f "cbk x" w q w' "map cbk xs" rs w1] rw by fastforce
  qed
qed

lemma inform_ok:
  assumes inv: "app_inv s X" and D: "as_domains s d = Some D" and t: "t \<in> {1..10}"
  shows "\<exists>rs w1. dispatched (\<lambda>c. ee_call e c 0 (domain_handle D) dph i1 i2)
      (map (\<lambda>x. the (ah_call_back (as_hooks s x))) (X d (unat t))) w rs w1 \<and>
    inform_event_to_app e (Some (d, dph)) t i1 i2 s w =
      Some (if last (PASS_EVENT_TO_NEXT_APP # rs) = PASS_EVENT_TO_NEXT_APP
            then (case i1 of None \<Rightarrow> w1 | Some msg \<Rightarrow> ee_free e msg w1) else w1)"
proof -
  have ut: "unat t \<in> {1..10}" using u8_range[OF t] by simp
  have len: "length (app_event_info D) = 11" using inv D by (auto simp: app_inv_def)
  define l where "l = app_event_info D ! unat t"
  define f where "f = (\<lambda>c. ee_call e c 0 (domain_handle D) dph i1 i2)"
  define cbk where "cbk = (\<lambda>x. the (ah_call_back (as_hooks s x)))"
  have ev: "ev_list s d (unat t) = Some (as_links s, l, as_rcu s)"
    using D len ut by (simp add: ev_list_def l_def)
  then have "ev_ok s (X d (unat t)) (as_links s, l, as_rcu s)" using inv ut by (auto simp: app_inv_def)
  then have "lseg (as_links s) (ol_head l) (X d (unat t)) None"
    "\<forall>x\<in>set (X d (unat t)). ah_call_back (as_hooks s x) = Some (cbk x)"
    by (auto simp: ev_ok_def ol_rep_def hooks_ok_def cbk_def)
  from inform_scan_dispatched[OF this, of f w PASS_EVENT_TO_NEXT_APP] obtain rs w1 where
    c: "dispatched f (map cbk (X d (unat t))) w rs w1"
      "inform_scan f (as_hooks s) (as_links s) (ol_head l) PASS_EVENT_TO_NEXT_APP w =
        Some (last (PASS_EVENT_TO_NEXT_APP # rs), w1)" by blast
  have "inform_event_to_app e (Some (d, dph)) t i1 i2 s w =
      Some (if last (PASS_EVENT_TO_NEXT_APP # rs) = PASS_EVENT_TO_NEXT_APP
            then (case i1 of None \<Rightarrow> w1 | Some msg \<Rightarrow> ee_free e msg w1) else w1)"
    using ev D c(2) by (simp add: inform_event_to_app_def f_def)
  then show ?thesis using c(1) unfolding f_def cbk_def by blast
qed

section \<open>Runs\<close>

text \<open>Registrations and deregistrations from the initial lists; \<open>U\<close> collects the addresses \<^verbatim>\<open>calloc\<close> has
  returned, which are never freed.\<close>

inductive app_run :: "'c app_sys \<Rightarrow> addr set \<Rightarrow> bool" where
  init: "(\<And>d D. as_domains s d = Some D \<Longrightarrow> app_event_info D = init_app_event_info) \<Longrightarrow>
    (\<And>h d. as_handles s h = Some d \<Longrightarrow> as_domains s d \<noteq> None) \<Longrightarrow> app_run s {}"
| register: "app_run s U \<Longrightarrow> \<forall>n. a = Some n \<longrightarrow> n \<notin> U \<and> node_ok n \<Longrightarrow>
    cntlr_register_asynchronous_event_hook h t pr cb a1 a2 a s = Some (rc, s') \<Longrightarrow> app_run s' (U \<union> set_option a)"
| deregister: "app_run s U \<Longrightarrow>
    cntlr_deregister_asynchronous_event_hook e h t pr s = Some (rc, s') \<Longrightarrow> app_run s' U"

lemma app_init_inv:
  assumes "\<And>d D. as_domains s d = Some D \<Longrightarrow> app_event_info D = init_app_event_info"
    and h: "\<And>h d. as_handles s h = Some d \<Longrightarrow> as_domains s d \<noteq> None"
  shows "app_inv s (\<lambda>_ _. [])"
proof -
  have "ev_ok s [] st" if "t \<in> {1..10}" "ev_list s d t = Some st" for d t st
    using that assms(1)[of d]
    by (auto simp: ev_list_def ev_ok_def ol_rep_def hooks_ok_def ol_cnt_def init_app_event_info_def
        OF_LIST_INIT_def nth_Cons' split: Option.bind_splits if_splits)
  then show ?thesis using assms(1) h by (auto simp: app_inv_def init_app_event_info_def)
qed

lemma app_run_inv:
  "app_run s U \<Longrightarrow> \<exists>X. app_inv s X \<and> (\<forall>d t. set (X d t) \<subseteq> U)"
proof (induction rule: app_run.induct)
  case (init s)
  then show ?case using app_init_inv[of s] by (intro exI[of _ "\<lambda>_ _. []"]) simp
next
  case (register s U a h t pr cb a1 a2 rc s')
  then obtain X where X: "app_inv s X" "\<forall>d t. set (X d t) \<subseteq> U" by blast
  then have "\<forall>n. a = Some n \<longrightarrow> (\<forall>d t. n \<notin> set (X d t)) \<and> node_ok n" using register.hyps(2) by blast
  from register_codes[OF X(1) this, of h t pr cb a1 a2] register.hyps(3) consider "s' = s"
    | d n where "a = Some n" "app_inv s' (upd d (unat t) (desc_insert (prio s') n (X d (unat t))) X)"
    by auto
  then show ?case
  proof cases
    case 1 then show ?thesis using X by blast
  next
    case 2
    moreover have "set (upd d (unat t) (desc_insert (prio s') n (X d (unat t))) X d' t') \<subseteq> U \<union> set_option a" for d' t'
      using X(2) 2(1) by (auto simp: upd_def split: if_splits)
    ultimately show ?thesis by blast
  qed
next
  case (deregister s U e h t pr rc s')
  then obtain X where X: "app_inv s X" "\<forall>d t. set (X d t) \<subseteq> U" by blast
  from deregister_codes[OF X(1), of e h t pr] deregister.hyps(2) consider "s' = s"
    | d x st where "app_inv s' (upd d (unat t) (olist_remove x (ol_cnt st) (X d (unat t))) X)"
    by auto
  then show ?case
  proof cases
    case 1 then show ?thesis using X by blast
  next
    case 2
    moreover have "set (upd d (unat t) (olist_remove x (ol_cnt st) (X d (unat t))) X d' t') \<subseteq> U" for d' t'
    proof -
      have "set (olist_remove x (ol_cnt st) (X d (unat t))) \<subseteq> U"
        using X(2) set_remove1_subset[of x "X d (unat t)"] by (auto simp: olist_remove_def)
      then show ?thesis using X(2) by (simp add: upd_def)
    qed
    ultimately show ?thesis by blast
  qed
qed

text \<open>The event codes start where the messaging codes start, because \<^verbatim>\<open>CNTLR_OF_MSG_ERROR_END\<close> is
  computed from the start of the range before.\<close>

lemma app_error_codes_overlap: "CNTLR_APP_EVENT_ERROR_START = CNTLR_OF_MSG_ERROR_START"
  by (simp add: app_codes)

section \<open>A concrete state\<close>

definition demo_mem :: mem_sys where
  "demo_mem = \<lparr>ms_types = [], mempool_list_g = [], ms_pools = \<lambda>_. None, ms_links = \<lambda>_. None,
     ms_freed = [], mempool_index_g = 0\<rparr>"

definition demo_apps :: "nat app_sys" where
  "demo_apps = \<lparr>as_links = \<lambda>_. None,
     as_hooks = \<lambda>_. \<lparr>ah_priority = 0, ah_call_back = None, ah_cbk_arg1 = None, ah_cbk_arg2 = None, ah_is_heap = 0\<rparr>,
     as_domains = [7 \<mapsto> \<lparr>domain_handle = 1, app_event_info = init_app_event_info\<rparr>],
     as_handles = [1 \<mapsto> 7], as_rcu = [], as_mem = demo_mem\<rparr>"

lemma demo_apps_inv: "app_inv demo_apps (\<lambda>_ _. [])"
  by (rule app_init_inv) (auto simp: demo_apps_def split: if_splits)

lemma put_ev_list_domains:
  "as_domains (put_ev_list d t st s) d' = None \<longleftrightarrow> as_domains s d' = None"
  by (cases st) (simp add: put_ev_list_def)

lemma register_keeps:
  assumes "cntlr_register_asynchronous_event_hook h t pr cb a1 a2 a s = Some (rc, s')"
  shows "as_handles s' = as_handles s" "as_domains s' d = None \<longleftrightarrow> as_domains s d = None"
  using assms
  by (auto simp: cntlr_register_asynchronous_event_hook_def Let_def put_ev_list_domains
      cntlr_insert_app_event_hook_in_a_dscnding_priority_def
      split: if_splits Option.bind_splits option.splits)

lemma demo_register:
  obtains s1 where "cntlr_register_asynchronous_event_hook 1 4 5 (Some 3) None None (Some 100) demo_apps = Some (OF_SUCCESS, s1)"
    "app_inv s1 (upd 7 4 [100] (\<lambda>_ _. []))" "prio s1 100 = 5" "ah_call_back (as_hooks s1 100) = Some 3"
    "as_handles s1 1 = Some 7" "as_domains s1 7 \<noteq> None" "app_run s1 {100}"
proof -
  have r: "register_code demo_apps (\<lambda>_ _. []) 1 4 5 (Some 3) (Some 100) = OF_SUCCESS"
    by (simp add: register_code_def demo_apps_def)
  have h: "as_handles demo_apps 1 = Some 7" by (simp add: demo_apps_def)
  have t: "(4 :: u8) \<in> {1..10}" "(5 :: u8) \<in> {1..16}" by simp_all
  obtain s1 where s1: "cntlr_register_asynchronous_event_hook 1 4 5 (Some 3) None None (Some 100) demo_apps = Some (OF_SUCCESS, s1)"
    "app_inv s1 (upd 7 (unat (4 :: u8)) (desc_insert (prio s1) 100 []) (\<lambda>_ _. []))"
    "as_hooks s1 = (as_hooks demo_apps)(100 := \<lparr>ah_priority = 5, ah_call_back = Some 3,
         ah_cbk_arg1 = None, ah_cbk_arg2 = None, ah_is_heap = 0\<rparr>)"
    using register_codes[OF demo_apps_inv, of "Some 100" 1 4 5 "Some 3" None None] r h
    by (auto simp: node_ok_def)
  have k: "as_handles s1 1 = Some 7" "as_domains s1 7 \<noteq> None"
    using register_keeps[OF s1(1)] h by (simp_all add: demo_apps_def)
  have "app_run demo_apps {}" by (rule app_run.init) (auto simp: demo_apps_def split: if_splits)
  from app_run.register[OF this _ s1(1)] have "app_run s1 {100}" by (simp add: node_ok_def)
  moreover have "desc_insert (prio s1) 100 [] = [100]" by simp
  ultimately show thesis using that[OF s1(1)] s1(2,3) k by simp
qed

section \<open>Properties\<close>

text \<open>A registration checks the event type, the priority, the callback, the domain and a hook of the
  same priority, in this order, and then the allocation; each failed check has its code and changes
  nothing. Otherwise the new hook, with the given callback and arguments, is put behind all hooks of
  higher and before all hooks of lower priority, and the other lists keep their hooks.\<close>

theorem app_event_register_correct:
  assumes "app_inv s X" "\<forall>n. a = Some n \<longrightarrow> (\<forall>d t. n \<notin> set (X d t)) \<and> node_ok n"
  shows "\<exists>s'. cntlr_register_asynchronous_event_hook h t pr cb a1 a2 a s = Some (register_code s X h t pr cb a, s') \<and>
    (register_code s X h t pr cb a \<noteq> OF_SUCCESS \<longrightarrow> s' = s) \<and>
    (register_code s X h t pr cb a = OF_SUCCESS \<longrightarrow> (\<exists>d n ys zs. as_handles s h = Some d \<and> a = Some n \<and>
       X d (unat t) = ys @ zs \<and> (\<forall>y\<in>set ys. pr < prio s y) \<and> (\<forall>z\<in>set zs. prio s z < pr) \<and>
       app_inv s' (upd d (unat t) (ys @ n # zs) X) \<and>
       as_hooks s' = (as_hooks s)(n := \<lparr>ah_priority = pr, ah_call_back = cb,
         ah_cbk_arg1 = a1, ah_cbk_arg2 = a2, ah_is_heap = 0\<rparr>)))"
proof -
  obtain s' where reg: "cntlr_register_asynchronous_event_hook h t pr cb a1 a2 a s = Some (register_code s X h t pr cb a, s')"
    and same: "register_code s X h t pr cb a \<noteq> OF_SUCCESS \<longrightarrow> s' = s"
    and ok: "register_code s X h t pr cb a = OF_SUCCESS \<longrightarrow> (\<exists>d n. as_handles s h = Some d \<and> a = Some n \<and>
       app_inv s' (upd d (unat t) (desc_insert (prio s') n (X d (unat t))) X) \<and>
       as_hooks s' = (as_hooks s)(n := \<lparr>ah_priority = pr, ah_call_back = cb,
         ah_cbk_arg1 = a1, ah_cbk_arg2 = a2, ah_is_heap = 0\<rparr>))"
    using register_codes[OF assms, of h t pr cb a1 a2] by (elim exE conjE)
  show ?thesis
  proof (cases "register_code s X h t pr cb a = OF_SUCCESS")
    case True
    then obtain d n where dn: "as_handles s h = Some d" "a = Some n"
      "app_inv s' (upd d (unat t) (desc_insert (prio s') n (X d (unat t))) X)"
      "as_hooks s' = (as_hooks s)(n := \<lparr>ah_priority = pr, ah_call_back = cb,
         ah_cbk_arg1 = a1, ah_cbk_arg2 = a2, ah_is_heap = 0\<rparr>)" using ok by (elim impE exE conjE)
    let ?xs = "X d (unat t)"
    have n: "n \<notin> set ?xs" using assms(2) dn(2) by blast
    have ut: "unat t \<in> {1..10}" and new: "pr \<notin> prio s ` set ?xs"
      using True dn(1) by (auto simp: register_code_def word_le_nat_alt app_codes split: if_splits)
    obtain nx l rcu where "ev_ok s ?xs (nx, l, rcu)" using app_inv_ev[OF assms(1) dn(1) ut] .
    then have srt: "sorted_wrt (\<lambda>a b. prio s b < prio s a) ?xs" by (simp add: ev_ok_def hooks_ok_def)
    have split: "\<exists>ys zs. xs = ys @ zs \<and> (\<forall>y\<in>set ys. pr < prio s y) \<and> (\<forall>z\<in>set zs. prio s z < pr) \<and>
        desc_insert (prio s') n xs = ys @ n # zs"
      if "sorted_wrt (\<lambda>a b. prio s b < prio s a) xs" "pr \<notin> prio s ` set xs" "n \<notin> set xs" for xs
      using that
    proof (induction xs)
      case (Cons x xs)
      show ?case
      proof (cases "prio s x < pr")
        case True
        then show ?thesis using Cons.prems dn(4)
          by (intro exI[of _ "[]"] exI[of _ "x # xs"]) auto
      next
        case False
        obtain ys zs where "xs = ys @ zs" "\<forall>y\<in>set ys. pr < prio s y" "\<forall>z\<in>set zs. prio s z < pr"
          "desc_insert (prio s') n xs = ys @ n # zs" using Cons by auto
        then show ?thesis using False Cons.prems dn(4)
          by (intro exI[of _ "x # ys"] exI[of _ zs]) auto
      qed
    qed simp
    from split[OF srt new n] obtain ys zs where yz: "?xs = ys @ zs" "\<forall>y\<in>set ys. pr < prio s y"
      "\<forall>z\<in>set zs. prio s z < pr" "desc_insert (prio s') n ?xs = ys @ n # zs" by (elim exE conjE)
    have "app_inv s' (upd d (unat t) (ys @ n # zs) X)" using dn(3) yz(4) by simp
    then show ?thesis
      by (intro exI[of _ s'] conjI impI, simp_all add: reg True)
        (rule exI[of _ d], simp add: dn(1), rule exI[of _ n], simp add: dn(2), rule exI[of _ ys],
          rule exI[of _ zs], simp add: yz(1,2,3) dn(4))
  next
    case False
    then show ?thesis using reg same by (intro exI[of _ s'] conjI) simp_all
  qed
qed

theorem app_event_register_correct_witness:
  "\<exists>s'. cntlr_register_asynchronous_event_hook 1 4 5 (Some 3) None None (Some 100) demo_apps = Some (OF_SUCCESS, s') \<and>
    prio s' 100 = 5"
proof -
  have r: "register_code demo_apps (\<lambda>_ _. []) 1 4 5 (Some 3) (Some 100) = OF_SUCCESS"
    by (simp add: register_code_def demo_apps_def)
  show ?thesis
    using app_event_register_correct[OF demo_apps_inv, of "Some 100" 1 4 5 "Some 3" None None] r
    by (auto simp: node_ok_def)
qed

text \<open>A deregistration of a priority in use succeeds, of one not in use fails and changes nothing.
  It removes that hook only, unless the counter of the list is 1, as it is when all hooks but the
  first were inserted before others: then every hook of the event is lost. The hook's memory is never
  given back, because the pool it is released to does not exist.\<close>

theorem app_event_deregister_correct:
  assumes "app_inv s X"
  shows "\<exists>s'. cntlr_deregister_asynchronous_event_hook e h t pr s = Some (deregister_code s X h t pr, s') \<and>
    (deregister_code s X h t pr \<noteq> OF_SUCCESS \<longrightarrow> s' = s) \<and>
    (deregister_code s X h t pr = OF_SUCCESS \<longrightarrow> (\<exists>d x st. as_handles s h = Some d \<and>
       ev_list s d (unat t) = Some st \<and> x \<in> set (X d (unat t)) \<and> prio s x = pr \<and>
       app_inv s' (upd d (unat t) (if ol_cnt st = 1 then [] else remove1 x (X d (unat t))) X) \<and>
       as_hooks s' = as_hooks s \<and> as_mem s' = as_mem s))"
  using deregister_codes[OF assms, of e h t pr] unfolding olist_remove_def .

theorem app_event_deregister_correct_witness:
  "\<exists>s1 s2. cntlr_register_asynchronous_event_hook 1 4 5 (Some 3) None None (Some 100) demo_apps = Some (OF_SUCCESS, s1) \<and>
    cntlr_deregister_asynchronous_event_hook (demo_env 0) 1 4 5 s1 = Some (OF_SUCCESS, s2)"
proof -
  obtain s1 where s1: "cntlr_register_asynchronous_event_hook 1 4 5 (Some 3) None None (Some 100) demo_apps = Some (OF_SUCCESS, s1)"
    "app_inv s1 (upd 7 4 [100] (\<lambda>_ _. []))" "prio s1 100 = 5" "as_handles s1 1 = Some 7" by (rule demo_register)
  have "deregister_code s1 (upd 7 4 [100] (\<lambda>_ _. [])) 1 4 5 = OF_SUCCESS"
    using s1(3,4) by (simp add: deregister_code_def)
  then show ?thesis using app_event_deregister_correct[OF s1(2), of "demo_env 0" 1 4 5] s1(1) by auto
qed

text \<open>C27: an event is passed to the registered applications in descending priority until one consumes
  it; the message is freed exactly when the last application called passed it on, or none was
  registered. An application that drops the event does not stop the loop.\<close>

theorem app_event_dispatch:
  assumes "app_inv s X" "as_domains s d = Some D" "t \<in> {1..10}"
  shows "sorted_wrt (\<lambda>a b. prio s b < prio s a) (X d (unat t)) \<and>
    (\<exists>rs w1. dispatched (\<lambda>c. ee_call e c 0 (domain_handle D) dph i1 i2)
       (map (\<lambda>x. the (ah_call_back (as_hooks s x))) (X d (unat t))) w rs w1 \<and>
     inform_event_to_app e (Some (d, dph)) t i1 i2 s w =
       Some (if last (PASS_EVENT_TO_NEXT_APP # rs) = PASS_EVENT_TO_NEXT_APP
             then (case i1 of None \<Rightarrow> w1 | Some msg \<Rightarrow> ee_free e msg w1) else w1))"
proof -
  have "length (app_event_info D) = 11" using assms(1,2) by (auto simp: app_inv_def)
  then have "ev_list s d (unat t) = Some (as_links s, app_event_info D ! unat t, as_rcu s)"
    using assms(2) u8_range[OF assms(3)] by (simp add: ev_list_def)
  then have "sorted_wrt (\<lambda>a b. prio s b < prio s a) (X d (unat t))"
    using assms(1) u8_range[OF assms(3)] by (auto simp: app_inv_def ev_ok_def hooks_ok_def)
  then show ?thesis using inform_ok[OF assms, of e dph i1 i2 w] by blast
qed

theorem app_event_dispatch_witness:
  "\<exists>s1. cntlr_register_asynchronous_event_hook 1 4 5 (Some 3) None None (Some 100) demo_apps = Some (OF_SUCCESS, s1) \<and>
    inform_event_to_app \<lparr>ee_call = \<lambda>c _ _ _ _ _ w. (EVENT_CONSUMED_BY_APP, w @ [c]), ee_free = \<lambda>_ w. w @ [0]\<rparr>
      (Some (7, 2)) 4 (Some 55) None s1 [] = Some [3]"
proof -
  let ?e = "\<lparr>ee_call = \<lambda>c _ _ _ _ _ w. (EVENT_CONSUMED_BY_APP, w @ [c]), ee_free = \<lambda>_ w. w @ [0]\<rparr> :: (nat, nat list) event_env"
  obtain s1 where s1: "cntlr_register_asynchronous_event_hook 1 4 5 (Some 3) None None (Some 100) demo_apps = Some (OF_SUCCESS, s1)"
    "app_inv s1 (upd 7 4 [100] (\<lambda>_ _. []))" "ah_call_back (as_hooks s1 100) = Some 3" "as_domains s1 7 \<noteq> None"
    by (rule demo_register)
  then obtain D where D: "as_domains s1 7 = Some D" by auto
  have t: "(4 :: u8) \<in> {1..10}" by simp
  obtain rs w1 where r: "dispatched (\<lambda>c w. (EVENT_CONSUMED_BY_APP, w @ [c])) [3] [] rs w1"
    "inform_event_to_app ?e (Some (7, 2)) 4 (Some 55) None s1 [] =
       Some (if last (PASS_EVENT_TO_NEXT_APP # rs) = PASS_EVENT_TO_NEXT_APP then w1 @ [0] else w1)"
    using app_event_dispatch[OF s1(2) D t, of ?e 2 "Some 55" None "[]"] s1(3) by auto
  have "rs = [EVENT_CONSUMED_BY_APP] \<and> w1 = [3]"
    using r(1) by (auto simp: dispatched_def le_Suc_eq)
  then show ?thesis using r(2) s1(1) by simp
qed

text \<open>C26: whatever sequence of registrations and deregistrations is run, no later operation of this
  interface leaves the defined behaviour, and every event list of every domain is a proper list of at
  most sixteen hooks in descending priority.\<close>

theorem app_event_run_safe:
  assumes "app_run s U" "\<forall>n. a = Some n \<longrightarrow> n \<notin> U \<and> node_ok n"
    "as_domains s d = Some D" "t \<in> {1..10}"
  shows "cntlr_register_asynchronous_event_hook h t' pr cb a1 a2 a s \<noteq> None \<and>
    cntlr_deregister_asynchronous_event_hook e h t' pr s \<noteq> None \<and>
    inform_event_to_app ev (Some (d, dph)) t i1 i2 s w \<noteq> None \<and>
    (\<exists>nx l rcu xs. ev_list s d (unat t) = Some (nx, l, rcu) \<and> OF_LIST_SCAN nx (ol_head l) = Some xs \<and>
       sorted_wrt (\<lambda>a b. prio s b < prio s a) xs \<and> length xs \<le> 16)"
proof -
  obtain X where X: "app_inv s X" "\<forall>d t. set (X d t) \<subseteq> U" using app_run_inv[OF assms(1)] by blast
  then have fr: "\<forall>n. a = Some n \<longrightarrow> (\<forall>d t. n \<notin> set (X d t)) \<and> node_ok n" using assms(2) by blast
  have "length (app_event_info D) = 11" using X(1) assms(3) by (auto simp: app_inv_def)
  then have evl: "ev_list s d (unat t) = Some (as_links s, app_event_info D ! unat t, as_rcu s)"
    using assms(3) u8_range[OF assms(4)] by (simp add: ev_list_def)
  then have ok: "ev_ok s (X d (unat t)) (as_links s, app_event_info D ! unat t, as_rcu s)"
    using X(1) u8_range[OF assms(4)] by (auto simp: app_inv_def)
  then have scan: "OF_LIST_SCAN (as_links s) (ol_head (app_event_info D ! unat t)) = Some (X d (unat t))"
    by (intro OF_LIST_SCAN_rep) (simp add: ev_ok_def ol_rep_def)
  have hk: "hooks_ok s (X d (unat t))" using ok by (simp add: ev_ok_def)
  have "cntlr_register_asynchronous_event_hook h t' pr cb a1 a2 a s \<noteq> None"
    using register_codes[OF X(1) fr, of h t' pr cb a1 a2] by blast
  moreover have "cntlr_deregister_asynchronous_event_hook e h t' pr s \<noteq> None"
    using deregister_codes[OF X(1), of e h t' pr] by blast
  moreover have "inform_event_to_app ev (Some (d, dph)) t i1 i2 s w \<noteq> None"
    using inform_ok[OF X(1) assms(3,4), of ev dph i1 i2 w] by blast
  ultimately show ?thesis
    using evl scan hooks_ok_sorted[OF hk] hooks_ok_length[OF hk] by blast
qed

theorem app_event_run_safe_witness:
  "\<exists>s1. cntlr_register_asynchronous_event_hook 1 4 5 (Some 3) None None (Some 100) demo_apps = Some (OF_SUCCESS, s1) \<and>
    cntlr_deregister_asynchronous_event_hook (demo_env 0) 1 4 9 s1 \<noteq> None"
proof -
  obtain s1 where s1: "cntlr_register_asynchronous_event_hook 1 4 5 (Some 3) None None (Some 100) demo_apps = Some (OF_SUCCESS, s1)"
    "as_domains s1 7 \<noteq> None" "app_run s1 {100}" by (rule demo_register)
  then obtain D where "as_domains s1 7 = Some D" by auto
  from app_event_run_safe[OF s1(3) _ this, of None 4 _ _ _ _ _ _ "demo_env 0"] s1(1) show ?thesis by fastforce
qed

end
