(* ===== verification/Msg_Queue.thy ===== *)
theory Msg_Queue
  imports Mempool
begin

text \<open>
  The message queue box of \<^verbatim>\<open>utils/queue.c\<close> and \<^verbatim>\<open>cntrl_queue.h\<close>: several queues, each a ring of 64
  message pointers and an overflow list whose entries come from a memory pool. The write and read
  indices are \<^verbatim>\<open>int32_t\<close> and start at \<open>-1\<close>; the code compares them with a \<^verbatim>\<open>uint32_t\<close>, so the read
  index \<open>-1\<close> counts as \<open>2 ^ 32 - 1\<close> there.
\<close>

section \<open>State\<close>

abbreviation OF_MAX_MSGS_IN_RING :: int where "OF_MAX_MSGS_IN_RING \<equiv> 64"

text \<open>An entry of the overflow list: its block, the message and the heap flag of the block.\<close>

record 'm msg_entry =
  me_block :: addr
  me_msg :: 'm
  me_bHeap :: u8

record 'm msg_queue =
  ulWriteIndx :: int
  ulReadIndx :: int
  pMsgData :: "'m option list"
  mq_lock :: bool
  mq_list :: "'m msg_entry list"
  uiMsgListCnt :: u32

record 'm msg_q_box =
  MsgQueue :: "'m msg_queue list"
  pListMempool :: ptr
  iLoopbackSockFd :: int
  usLoopbackPort :: u16
  bSendEvent :: bool

text \<open>Conversion of an \<^verbatim>\<open>int32_t\<close> to \<^verbatim>\<open>uint32_t\<close>.\<close>

definition to_u32 :: "int \<Rightarrow> int" where "to_u32 x = x mod 2 ^ 32"

section \<open>Creation and deletion\<close>

definition empty_msg_queue :: "'m msg_queue" where
  "empty_msg_queue = \<lparr>ulWriteIndx = -1, ulReadIndx = -1, pMsgData = replicate 64 None,
     mq_lock = False, mq_list = [], uiMsgListCnt = 0\<rparr>"

text \<open>\<^verbatim>\<open>sizeof(of_MsgEntry_t)\<close> on a 64-bit target.\<close>

abbreviation sizeof_MsgEntry :: u32 where "sizeof_MsgEntry \<equiv> 24"

definition msg_list_params :: "u32 \<Rightarrow> mempool_params" where
  "msg_list_params max_lists = (let st = max_lists div 2 in
     \<lparr>pp_mempool_type = 0, pp_block_size = sizeof_MsgEntry, pp_max_blocks = max_lists,
      pp_memset_not_required = False, pp_list_per_thread_required = True, pp_noof_blocks_to_move = 0,
      pp_static_blocks = st, pp_threshold_min = st div 10, pp_threshold_max = st div 3,
      pp_replenish_count = st div 10\<rparr>)"

text \<open>The counter \<^verbatim>\<open>of_msgListMempoolId\<close> skips 0.\<close>

definition next_pool_id :: "u32 \<Rightarrow> u32" where
  "next_pool_id i = (if i + 1 = 0 then 1 else i + 1)"

text \<open>\<open>box_ok\<close> and \<open>queues_ok\<close> say whether the two allocations succeed, \<open>sock\<close> is the loopback socket and
  port if one can be opened, \<open>pool\<close> what \<^verbatim>\<open>calloc\<close> returns for the pool. The result is the box, NULL
  on failure, the socket descriptors closed again, the counter and the memory system.\<close>

definition of_MsgQBoxCreate ::
  "u32 \<Rightarrow> u32 \<Rightarrow> mem_env \<Rightarrow> bool \<Rightarrow> (int \<times> u16) option \<Rightarrow> bool \<Rightarrow> ptr \<Rightarrow> u32 \<Rightarrow> mem_sys \<Rightarrow>
   ('m msg_q_box option \<times> int list \<times> u32 \<times> mem_sys) option" where
  "of_MsgQBoxCreate nodes num_queues e box_ok sock queues_ok pool pool_id m =
    (if num_queues < 1 then Some (None, [], pool_id, m)
     else if \<not> box_ok then Some (None, [], pool_id, m)
     else case sock of None \<Rightarrow> Some (None, [], pool_id, m)
       | Some (fd, port) \<Rightarrow>
         if \<not> queues_ok then Some (None, [fd], pool_id, m)
         else let pid = next_pool_id pool_id
           in (case mempool_create_pool e pool (Some (''msg_list_'' @ dec_string (unat pid)))
                 (Some (msg_list_params (nodes * num_queues))) True m of
                 None \<Rightarrow> None
               | Some (rc, p, m1) \<Rightarrow>
                   if rc \<noteq> MEMPOOL_SUCCESS then Some (None, [fd], pid, m1)
                   else Some (Some \<lparr>MsgQueue = replicate (unat num_queues) empty_msg_queue,
                          pListMempool = p, iLoopbackSockFd = fd, usLoopbackPort = port,
                          bSendEvent = True\<rparr>, [], pid, m1)))"

text \<open>The socket to close and the memory system after the pool is gone; the return code of the pool
  deletion is not looked at.\<close>

definition of_MsgQBoxDelete :: "'m msg_q_box \<Rightarrow> mem_sys \<Rightarrow> (int \<times> mem_sys) option" where
  "of_MsgQBoxDelete box m = map_option (\<lambda>(rc, m1). (iLoopbackSockFd box, m1))
     (mempool_delete_pool (pListMempool box) m)"

section \<open>The ring\<close>

text \<open>The write index after the wrap-around test, as a \<^verbatim>\<open>uint32_t\<close>.\<close>

definition next_write_index :: "'m msg_queue \<Rightarrow> int" where
  "next_write_index q =
    (let n = to_u32 (ulWriteIndx q + 1)
     in if OF_MAX_MSGS_IN_RING \<le> n \<and> n mod OF_MAX_MSGS_IN_RING < to_u32 (ulReadIndx q)
        then n mod OF_MAX_MSGS_IN_RING else n)"

text \<open>Storing a message in the ring; \<^term>\<open>None\<close> when the message has to go to the overflow list.\<close>

definition ring_put :: "'m \<Rightarrow> 'm msg_queue \<Rightarrow> 'm msg_queue option" where
  "ring_put msg q =
    (let n = next_write_index q
     in if n \<noteq> to_u32 (ulReadIndx q) \<and> n < OF_MAX_MSGS_IN_RING
        then Some (q\<lparr>pMsgData := (pMsgData q)[nat n := Some msg], ulWriteIndx := n\<rparr>)
        else None)"

definition ring_empty :: "'m msg_queue \<Rightarrow> bool" where
  "ring_empty q \<longleftrightarrow> ulWriteIndx q < OF_MAX_MSGS_IN_RING \<and> ulWriteIndx q = ulReadIndx q"

text \<open>Taking the next slot of the ring; the slot may hold NULL.\<close>

definition ring_take :: "'m msg_queue \<Rightarrow> 'm option \<times> 'm msg_queue" where
  "ring_take q =
    (let r = (ulReadIndx q + 1) mod OF_MAX_MSGS_IN_RING
     in (pMsgData q ! nat r, q\<lparr>ulReadIndx := r, pMsgData := (pMsgData q)[nat r := None]\<rparr>))"

section \<open>Enqueue and dequeue\<close>

text \<open>Appending an entry to the overflow list.\<close>

definition list_put :: "addr \<Rightarrow> 'm \<Rightarrow> u8 \<Rightarrow> 'm msg_queue \<Rightarrow> 'm msg_queue" where
  "list_put b msg heap q = q\<lparr>mq_list := mq_list q @ [\<lparr>me_block = b, me_msg = msg, me_bHeap = heap\<rparr>],
     uiMsgListCnt := uiMsgListCnt q + 1\<rparr>"

text \<open>\<open>bheap\<close> is the value of the uninitialised local \<^verbatim>\<open>bHeap\<close> that the pool reads as the permission to
  use the heap. With \<open>try_lock_less\<close> the mutex is taken only for the overflow list.\<close>

definition of_MsgEnqueue ::
  "mem_env \<Rightarrow> u8 \<Rightarrow> nat \<Rightarrow> 'm \<Rightarrow> bool \<Rightarrow> 'm msg_q_box \<times> mem_sys \<Rightarrow> (int \<times> 'm msg_q_box \<times> mem_sys) option" where
  "of_MsgEnqueue e bheap qi msg try_lock_less = (\<lambda>(box, m).
    if length (MsgQueue box) \<le> qi then None
    else let q = MsgQueue box ! qi;
             put = (\<lambda>q'. box\<lparr>MsgQueue := (MsgQueue box)[qi := q']\<rparr>)
      in if \<not> try_lock_less \<and> mq_lock q then None
         else (case ring_put msg q of
             Some q' \<Rightarrow> Some (OF_SUCCESS, put q', m)
           | None \<Rightarrow>
               (case mempool_get_mem_block e (pListMempool box) bheap m of
                  None \<Rightarrow> None
                | Some ((rc, block, heap), m1) \<Rightarrow>
                    if rc \<noteq> OF_SUCCESS then Some (OF_FAILURE, put q, m1)
                    else (case block of None \<Rightarrow> None
                      | Some b \<Rightarrow> if mq_lock q then None
                                  else Some (OF_SUCCESS, put (list_put b msg heap q), m1)))))"

text \<open>The message is stored through the pointer only on success. In the branch for a write index
  outside the ring, an empty list is reported with the mutex still held.\<close>

definition of_MsgDequeue ::
  "mem_env \<Rightarrow> nat \<Rightarrow> bool \<Rightarrow> 'm msg_q_box \<times> mem_sys \<Rightarrow> (int \<times> 'm option \<times> 'm msg_q_box \<times> mem_sys) option" where
  "of_MsgDequeue e qi try_lock_less = (\<lambda>(box, m).
    if length (MsgQueue box) \<le> qi then None
    else let q = MsgQueue box ! qi;
             put = (\<lambda>q'. box\<lparr>MsgQueue := (MsgQueue box)[qi := q']\<rparr>)
      in if ring_empty q then Some (OF_FAILURE, None, box, m)
         else if ulWriteIndx q < OF_MAX_MSGS_IN_RING then
           (if \<not> try_lock_less \<and> mq_lock q then None
            else case ring_take q of (msg, q') \<Rightarrow> Some (OF_SUCCESS, msg, put q', m))
         else if mq_lock q then None
         else if uiMsgListCnt q = 0 then Some (OF_FAILURE, None, put (q\<lparr>mq_lock := True\<rparr>), m)
         else (case mq_list q of [] \<Rightarrow> None
           | en # rest \<Rightarrow>
               map_option (\<lambda>(rc, m1). (OF_SUCCESS, Some (me_msg en),
                   put (q\<lparr>mq_list := rest, uiMsgListCnt := uiMsgListCnt q - 1\<rparr>), m1))
                 (mempool_release_mem_block e (pListMempool box) (Some (me_block en)) (me_bHeap en) m)))"

section \<open>The messages in the ring\<close>

definition ring_count :: "'m msg_queue \<Rightarrow> nat" where
  "ring_count q = nat (if ulReadIndx q = -1 then ulWriteIndx q + 1
     else (ulWriteIndx q - ulReadIndx q) mod 64)"

text \<open>The slots behind the read index up to the write index, in reading order.\<close>

definition ring_slot :: "'m msg_queue \<Rightarrow> nat \<Rightarrow> nat" where
  "ring_slot q i = nat ((ulReadIndx q + 1 + int i) mod 64)"

definition ring_msgs :: "'m msg_queue \<Rightarrow> 'm option list" where
  "ring_msgs q = map (\<lambda>i. pMsgData q ! ring_slot q i) [0..<ring_count q]"

definition ring_inv :: "'m msg_queue \<Rightarrow> bool" where
  "ring_inv q \<longleftrightarrow> length (pMsgData q) = 64 \<and> -1 \<le> ulWriteIndx q \<and> ulWriteIndx q < 64 \<and>
     -1 \<le> ulReadIndx q \<and> ulReadIndx q < 64 \<and> (ulWriteIndx q = -1 \<longrightarrow> ulReadIndx q = -1) \<and> \<not> mq_lock q"

definition pending :: "'m msg_queue \<Rightarrow> 'm list" where
  "pending q = map the (ring_msgs q)"

text \<open>The invariant of a queue: all slots in use hold a message.\<close>

definition queue_inv :: "'m msg_queue \<Rightarrow> bool" where
  "queue_inv q \<longleftrightarrow> ring_inv q \<and> None \<notin> set (ring_msgs q)"

section \<open>Ring arithmetic\<close>

lemma mod64_cases: "-64 \<le> x \<Longrightarrow> x < 64 \<Longrightarrow> x mod 64 = (if x < 0 then x + 64 else x)" for x :: int
proof -
  assume "-64 \<le> x" "x < 64"
  moreover have "(x + 64) mod 64 = x mod 64" by simp
  ultimately show ?thesis using mod_pos_pos_trivial[of "x + 64" 64] by auto
qed

lemma succ64_cases: "-1 \<le> x \<Longrightarrow> x < 64 \<Longrightarrow> (x + 1) mod 64 = (if x = 63 then 0 else x + 1)" for x :: int
  by auto

lemma to_u32_small: "0 \<le> x \<Longrightarrow> x < 64 \<Longrightarrow> to_u32 x = x"
  by (simp add: to_u32_def)

lemma to_u32_minus_one: "to_u32 (-1) = 4294967295"
  by (simp add: to_u32_def)

lemma next_write_index_eq:
  assumes "ring_inv q"
  shows "next_write_index q = (if ulWriteIndx q = 63 \<and> ulReadIndx q = 0 then 64
    else (ulWriteIndx q + 1) mod 64)"
proof -
  let ?w = "ulWriteIndx q" and ?r = "ulReadIndx q"
  have b: "-1 \<le> ?w" "?w < 64" "-1 \<le> ?r" "?r < 64" using assms by (auto simp: ring_inv_def)
  have n: "to_u32 (?w + 1) = ?w + 1" using b by (simp add: to_u32_def)
  show ?thesis
  proof (cases "?w = 63")
    case True
    have "0 < to_u32 ?r \<longleftrightarrow> ?r \<noteq> 0"
      using b by (cases "?r = -1") (auto simp: to_u32_minus_one to_u32_small)
    then show ?thesis using True n by (simp add: next_write_index_def)
  next
    case False
    then show ?thesis using b n by (simp add: next_write_index_def)
  qed
qed

text \<open>A message is refused by the ring only when reading has begun and the next slot is the one last
  read.\<close>

lemma ring_put_eq:
  assumes "ring_inv q"
  shows "ring_put msg q = (if ulReadIndx q = (ulWriteIndx q + 1) mod 64 then None
    else Some (q\<lparr>pMsgData := (pMsgData q)[nat ((ulWriteIndx q + 1) mod 64) := Some msg],
                 ulWriteIndx := (ulWriteIndx q + 1) mod 64\<rparr>))"
proof -
  have b: "-1 \<le> ulReadIndx q" "ulReadIndx q < 64" using assms by (auto simp: ring_inv_def)
  have m: "0 \<le> (ulWriteIndx q + 1) mod 64" "(ulWriteIndx q + 1) mod 64 < 64" by simp_all
  have eq: "to_u32 (ulReadIndx q) = n \<longleftrightarrow> ulReadIndx q = n" if "0 \<le> n" "n < 64" for n
  proof (cases "ulReadIndx q = -1")
    case True
    then show ?thesis using that by (auto simp: to_u32_minus_one)
  next
    case False
    then show ?thesis using b by (simp add: to_u32_small)
  qed
  show ?thesis
  proof (cases "ulWriteIndx q = 63 \<and> ulReadIndx q = 0")
    case True
    then show ?thesis by (simp add: ring_put_def next_write_index_eq[OF assms] Let_def)
  next
    case False
    then have "next_write_index q = (ulWriteIndx q + 1) mod 64"
      using next_write_index_eq[OF assms] by auto
    then show ?thesis using eq[OF m] m unfolding ring_put_def Let_def by metis
  qed
qed

lemma ring_slot_less: "ring_slot q i < 64"
  by (simp add: ring_slot_def nat_less_iff)

lemma ring_slot_inj: "i < 64 \<Longrightarrow> j < 64 \<Longrightarrow> ring_slot q i = ring_slot q j \<Longrightarrow> i = j"
proof -
  assume "i < 64" "j < 64" "ring_slot q i = ring_slot q j"
  then have "(ulReadIndx q + 1 + int i) mod 64 = (ulReadIndx q + 1 + int j) mod 64"
    by (simp add: ring_slot_def)
  then have "int i mod 64 = int j mod 64"
    by (simp add: mod_eq_dvd_iff)
  then show ?thesis using \<open>i < 64\<close> \<open>j < 64\<close> by simp
qed

lemma ring_count_le: "ring_inv q \<Longrightarrow> ring_count q \<le> 64"
  using pos_mod_bound[of 64 "ulWriteIndx q - ulReadIndx q"]
  unfolding ring_count_def ring_inv_def by (auto simp: nat_le_iff)

lemma ring_count_read: "ring_inv q \<Longrightarrow> ulReadIndx q \<noteq> -1 \<Longrightarrow> ring_count q < 64"
  by (simp add: ring_count_def nat_less_iff)

lemma ring_slot_count:
  assumes "ring_inv q"
  shows "ring_slot q (ring_count q) = nat ((ulWriteIndx q + 1) mod 64)"
proof (cases "ulReadIndx q = -1")
  case True
  then show ?thesis using assms by (auto simp: ring_slot_def ring_count_def ring_inv_def)
next
  case False
  have "(ulReadIndx q + 1 + (ulWriteIndx q - ulReadIndx q) mod 64) mod 64 = (ulWriteIndx q + 1) mod 64"
    by (simp add: mod_add_right_eq add.commute)
  then show ?thesis using False by (simp add: ring_slot_def ring_count_def)
qed

lemma ring_full_iff:
  assumes "ring_inv q" "ulReadIndx q \<noteq> -1"
  shows "ulReadIndx q = (ulWriteIndx q + 1) mod 64 \<longleftrightarrow> ring_count q = 63"
proof -
  have b: "0 \<le> ulReadIndx q" "ulReadIndx q < 64" "-1 \<le> ulWriteIndx q" "ulWriteIndx q < 64"
    using assms by (auto simp: ring_inv_def)
  have "ring_count q = 63 \<longleftrightarrow> (ulWriteIndx q - ulReadIndx q) mod 64 = 63"
    using assms(2) by (auto simp: ring_count_def)
  also have "\<dots> \<longleftrightarrow> ulReadIndx q = (ulWriteIndx q + 1) mod 64"
    using b by (subst mod64_cases) (auto simp: succ64_cases)
  finally show ?thesis by simp
qed

lemma ring_put_room:
  assumes "ring_inv q" "ring_count q < 63"
  shows "\<exists>q'. ring_put msg q = Some q' \<and> ring_inv q' \<and> ring_msgs q' = ring_msgs q @ [Some msg] \<and>
    mq_list q' = mq_list q \<and> uiMsgListCnt q' = uiMsgListCnt q \<and> ulReadIndx q' = ulReadIndx q"
proof -
  have b: "-1 \<le> ulReadIndx q" "ulReadIndx q < 64" "-1 \<le> ulWriteIndx q" "ulWriteIndx q < 64"
    "length (pMsgData q) = 64" using assms(1) by (auto simp: ring_inv_def)
  let ?w = "(ulWriteIndx q + 1) mod 64"
  let ?q = "q\<lparr>pMsgData := (pMsgData q)[nat ?w := Some msg], ulWriteIndx := ?w\<rparr>"
  have ne: "ulReadIndx q \<noteq> ?w"
  proof (cases "ulReadIndx q = -1")
    case True
    have "0 \<le> ?w" by simp
    then show ?thesis using True by linarith
  next
    case False
    then show ?thesis using ring_full_iff[OF assms(1)] assms(2) by auto
  qed
  have w: "0 \<le> ?w" "?w < 64" by simp_all
  have inv: "ring_inv ?q" using assms(1) w b(1,2) unfolding ring_inv_def by auto
  have cnt: "ring_count ?q = Suc (ring_count q)"
  proof (cases "ulReadIndx q = -1")
    case True
    then have "ulWriteIndx q < 62" using assms(2) by (simp add: ring_count_def)
    then show ?thesis using True b by (simp add: ring_count_def)
  next
    case False
    have "(?w - ulReadIndx q) mod 64 = (ulWriteIndx q - ulReadIndx q) mod 64 + 1"
      using False b(1-4) ne by (auto simp: succ64_cases mod64_cases)
    then show ?thesis using False by (simp add: ring_count_def nat_add_distrib)
  qed
  have slot: "ring_slot ?q = ring_slot q" by (simp add: ring_slot_def fun_eq_iff)
  have "ring_msgs ?q = ring_msgs q @ [Some msg]"
  proof -
    have "(pMsgData ?q) ! ring_slot q i = pMsgData q ! ring_slot q i" if "i < ring_count q" for i
    proof -
      have "ring_slot q i \<noteq> ring_slot q (ring_count q)"
        using ring_slot_inj[of i "ring_count q" q] that assms(2) by auto
      then show ?thesis using ring_slot_count[OF assms(1)] by simp
    qed
    moreover have "(pMsgData ?q) ! ring_slot q (ring_count q) = Some msg"
      using ring_slot_count[OF assms(1)] ring_slot_less[of q "ring_count q"] b(5) by simp
    ultimately show ?thesis by (simp add: ring_msgs_def cnt slot)
  qed
  then show ?thesis using ring_put_eq[OF assms(1)] ne inv by simp
qed

lemma ring_take_msgs:
  assumes "ring_inv q" "\<not> ring_empty q"
  shows "\<exists>q'. ring_take q = (hd (ring_msgs q), q') \<and> ring_inv q' \<and> ring_msgs q \<noteq> [] \<and>
    ring_msgs q' = tl (ring_msgs q) \<and> mq_list q' = mq_list q \<and> uiMsgListCnt q' = uiMsgListCnt q \<and>
    ulReadIndx q' \<noteq> -1"
proof -
  have b: "-1 \<le> ulReadIndx q" "ulReadIndx q < 64" "-1 \<le> ulWriteIndx q" "ulWriteIndx q < 64"
    "length (pMsgData q) = 64" using assms(1) by (auto simp: ring_inv_def)
  have ne: "ulWriteIndx q \<noteq> ulReadIndx q" using assms(2) b(4) by (simp add: ring_empty_def)
  have w0: "0 \<le> ulWriteIndx q" using assms(1) ne b(3) by (auto simp: ring_inv_def)
  let ?r = "(ulReadIndx q + 1) mod 64"
  let ?q = "q\<lparr>ulReadIndx := ?r, pMsgData := (pMsgData q)[nat ?r := None]\<rparr>"
  have r: "0 \<le> ?r" "?r < 64" by simp_all
  have inv: "ring_inv ?q" using assms(1) r w0 b(3,4) unfolding ring_inv_def by auto
  have cnt: "ring_count q = Suc (ring_count ?q)"
  proof (cases "ulReadIndx q = -1")
    case True
    then show ?thesis using w0 b(4) by (simp add: ring_count_def)
  next
    case False
    have "(ulWriteIndx q - ulReadIndx q) mod 64 = (ulWriteIndx q - ?r) mod 64 + 1"
      using b(1-4) ne False w0 by (auto simp: succ64_cases mod64_cases)
    then show ?thesis using False r by (simp add: ring_count_def nat_add_distrib)
  qed
  have slot: "ring_slot ?q i = ring_slot q (Suc i)" for i
  proof -
    have "(?r + (1 + int i)) mod 64 = (ulReadIndx q + 1 + (1 + int i)) mod 64"
      by (rule mod_add_left_eq)
    then show ?thesis by (simp add: ring_slot_def ac_simps)
  qed
  have slot0: "ring_slot q 0 = nat ?r" by (simp add: ring_slot_def)
  have "pMsgData ?q ! ring_slot q (Suc i) = pMsgData q ! ring_slot q (Suc i)" if "i < ring_count ?q" for i
  proof -
    have "Suc i < 64" using that cnt ring_count_le[OF assms(1)] by simp
    then have "ring_slot q (Suc i) \<noteq> ring_slot q 0" using ring_slot_inj[of "Suc i" 0 q] by auto
    then show ?thesis by (simp add: slot0)
  qed
  then have "ring_msgs ?q = map (\<lambda>i. pMsgData q ! ring_slot q (Suc i)) [0..<ring_count ?q]"
    by (simp add: ring_msgs_def slot)
  moreover have "ring_msgs q = pMsgData q ! nat ?r # map (\<lambda>i. pMsgData q ! ring_slot q (Suc i)) [0..<ring_count ?q]"
    unfolding ring_msgs_def cnt by (simp add: upt_rec[of 0] slot0 map_Suc_upt[symmetric] del: upt_Suc)
  ultimately show ?thesis using inv r by (auto simp: ring_take_def Let_def)
qed

lemma ring_empty_msgs: "ring_inv q \<Longrightarrow> ring_empty q \<longleftrightarrow> ring_msgs q = []"
  using ring_take_msgs[of q] by (cases "ring_empty q") (auto simp: ring_empty_def ring_msgs_def ring_count_def)


section \<open>The ring as a bounded FIFO queue\<close>

text \<open>What a client of a bounded queue relies on: up to \<open>cap\<close> messages are accepted and come out in the
  order they went in.\<close>

locale bounded_fifo =
  fixes inv :: "'s \<Rightarrow> bool" and cont :: "'s \<Rightarrow> 'm list" and cap :: nat and frame :: "'s \<Rightarrow> 's \<Rightarrow> bool"
    and enq :: "'m \<Rightarrow> 's \<Rightarrow> 's option" and deq :: "'s \<Rightarrow> ('m \<times> 's) option"
  assumes enq_law: "inv s \<Longrightarrow> length (cont s) < cap \<Longrightarrow>
      \<exists>s'. enq x s = Some s' \<and> inv s' \<and> cont s' = cont s @ [x] \<and> frame s s'"
    and deq_law: "inv s \<Longrightarrow> cont s = x # xs \<Longrightarrow>
      \<exists>s'. deq s = Some (x, s') \<and> inv s' \<and> cont s' = xs \<and> frame s s'"
    and deq_empty: "inv s \<Longrightarrow> cont s = [] \<Longrightarrow> deq s = None"
    and frame_refl: "inv s \<Longrightarrow> frame s s"
    and frame_trans: "frame s s' \<Longrightarrow> frame s' s'' \<Longrightarrow> frame s s''"
begin

primrec enq_all :: "'m list \<Rightarrow> 's \<Rightarrow> 's option" where
  "enq_all [] s = Some s"
| "enq_all (x # xs) s = Option.bind (enq x s) (enq_all xs)"

text \<open>Taking at most \<open>n\<close> messages, until the queue reports that it is empty: the messages and the
  state after the last of them.\<close>

primrec deq_all :: "nat \<Rightarrow> 's \<Rightarrow> 'm list \<times> 's" where
  "deq_all 0 s = ([], s)"
| "deq_all (Suc n) s = (case deq s of None \<Rightarrow> ([], s) | Some (x, s') \<Rightarrow> apfst ((#) x) (deq_all n s'))"

lemma enq_all_cont:
  "inv s \<Longrightarrow> length (cont s) + length xs \<le> cap \<Longrightarrow>
   \<exists>s'. enq_all xs s = Some s' \<and> inv s' \<and> cont s' = cont s @ xs \<and> frame s s'"
proof (induction xs arbitrary: s)
  case (Cons x xs)
  obtain s1 where s1: "enq x s = Some s1" "inv s1" "cont s1 = cont s @ [x]" "frame s s1"
    using enq_law[OF Cons.prems(1), of x] Cons.prems(2) by auto
  then show ?case using Cons.IH[OF s1(2)] Cons.prems(2) frame_trans[OF s1(4)] by auto
qed (simp add: frame_refl)

lemma deq_all_cont:
  "inv s \<Longrightarrow> \<exists>s'. deq_all n s = (take n (cont s), s') \<and> inv s' \<and> cont s' = drop n (cont s) \<and> frame s s'"
proof (induction n arbitrary: s)
  case (Suc n)
  show ?case
  proof (cases "cont s")
    case Nil
    then show ?thesis using deq_empty[OF Suc.prems] Suc.prems frame_refl by simp
  next
    case (Cons x xs)
    then obtain s1 where s1: "deq s = Some (x, s1)" "inv s1" "cont s1 = xs" "frame s s1"
      using deq_law[OF Suc.prems Cons] by blast
    then show ?thesis using Suc.IH[OF s1(2)] Cons frame_trans[OF s1(4)] by auto
  qed
qed (simp add: frame_refl)

lemma fifo:
  assumes "inv s" "length (cont s) + length xs \<le> n" "n \<le> cap"
  shows "\<exists>s' s''. enq_all xs s = Some s' \<and> cont s' = cont s @ xs \<and> frame s s' \<and>
    deq_all n s' = (cont s @ xs, s'') \<and> deq s'' = None \<and> frame s s''"
proof -
  obtain s1 where s1: "enq_all xs s = Some s1" "inv s1" "cont s1 = cont s @ xs" "frame s s1"
    using enq_all_cont[OF assms(1), of xs] assms(2,3) by auto
  obtain s2 where s2: "deq_all n s1 = (take n (cont s1), s2)" "inv s2" "cont s2 = drop n (cont s1)" "frame s1 s2"
    using deq_all_cont[OF s1(2)] by blast
  show ?thesis
    using s1 s2 assms(2) deq_empty[OF s2(2)] frame_trans[OF s1(4) s2(4)] by auto
qed

end

text \<open>One queue of a box, through the box operations without lock elision.\<close>

definition box_put :: "mem_env \<Rightarrow> nat \<Rightarrow> 'm \<Rightarrow> 'm msg_q_box \<times> mem_sys \<Rightarrow> ('m msg_q_box \<times> mem_sys) option" where
  "box_put e qi msg s = (case of_MsgEnqueue e 0 qi msg False s of
     Some (rc, s') \<Rightarrow> if rc = OF_SUCCESS then Some s' else None | None \<Rightarrow> None)"

definition box_take :: "mem_env \<Rightarrow> nat \<Rightarrow> 'm msg_q_box \<times> mem_sys \<Rightarrow> ('m \<times> 'm msg_q_box \<times> mem_sys) option" where
  "box_take e qi s = (case of_MsgDequeue e qi False s of
     Some (rc, msg, s') \<Rightarrow> if rc = OF_SUCCESS then Some (the msg, s') else None | None \<Rightarrow> None)"

definition box_inv :: "nat \<Rightarrow> 'm msg_q_box \<times> mem_sys \<Rightarrow> bool" where
  "box_inv qi s \<longleftrightarrow> qi < length (MsgQueue (fst s)) \<and> queue_inv (MsgQueue (fst s) ! qi)"

definition box_pending :: "nat \<Rightarrow> 'm msg_q_box \<times> mem_sys \<Rightarrow> 'm list" where
  "box_pending qi s = pending (MsgQueue (fst s) ! qi)"

text \<open>All that an operation on the queue \<open>qi\<close> may change: the two indices and the slots of this queue.
  Its overflow list, counter and lock, every other queue, the other fields of the box and the memory
  system stay as they are.\<close>

definition ring_only :: "'m msg_queue \<Rightarrow> 'm msg_queue \<Rightarrow> bool" where
  "ring_only q q' \<longleftrightarrow> mq_list q' = mq_list q \<and> uiMsgListCnt q' = uiMsgListCnt q \<and> mq_lock q' = mq_lock q"

definition box_frame :: "nat \<Rightarrow> 'm msg_q_box \<times> mem_sys \<Rightarrow> 'm msg_q_box \<times> mem_sys \<Rightarrow> bool" where
  "box_frame qi s s' \<longleftrightarrow> snd s' = snd s \<and>
     fst s' = (fst s)\<lparr>MsgQueue := (MsgQueue (fst s))[qi := MsgQueue (fst s') ! qi]\<rparr> \<and>
     ring_only (MsgQueue (fst s) ! qi) (MsgQueue (fst s') ! qi)"

lemma ring_only_trans: "ring_only q q' \<Longrightarrow> ring_only q' q'' \<Longrightarrow> ring_only q q''"
  by (simp add: ring_only_def)

lemma box_frame_trans:
  assumes "box_frame qi s s'" "box_frame qi s' s''"
  shows "box_frame qi s s''"
proof -
  obtain q where q: "fst s' = (fst s)\<lparr>MsgQueue := (MsgQueue (fst s))[qi := q]\<rparr>"
    using assms(1) unfolding box_frame_def by blast
  obtain r where r: "fst s'' = (fst s')\<lparr>MsgQueue := (MsgQueue (fst s'))[qi := r]\<rparr>" "r = MsgQueue (fst s'') ! qi"
    using assms(2) unfolding box_frame_def by blast
  have "fst s'' = (fst s)\<lparr>MsgQueue := (MsgQueue (fst s))[qi := MsgQueue (fst s'') ! qi]\<rparr>"
    using r(1) unfolding r(2)[symmetric] by (simp add: q)
  then show ?thesis
    using assms ring_only_trans unfolding box_frame_def by metis
qed

lemma box_frame_fields:
  assumes "box_frame qi s s'"
  shows "snd s' = snd s \<and> pListMempool (fst s') = pListMempool (fst s) \<and>
      iLoopbackSockFd (fst s') = iLoopbackSockFd (fst s) \<and> usLoopbackPort (fst s') = usLoopbackPort (fst s) \<and>
      bSendEvent (fst s') = bSendEvent (fst s) \<and> length (MsgQueue (fst s')) = length (MsgQueue (fst s)) \<and>
      (\<forall>j. j \<noteq> qi \<longrightarrow> MsgQueue (fst s') ! j = MsgQueue (fst s) ! j) \<and>
      ring_only (MsgQueue (fst s) ! qi) (MsgQueue (fst s') ! qi)"
proof -
  obtain q where q: "fst s' = (fst s)\<lparr>MsgQueue := (MsgQueue (fst s))[qi := q]\<rparr>"
    using assms unfolding box_frame_def by blast
  have r: "snd s' = snd s" "ring_only (MsgQueue (fst s) ! qi) (MsgQueue (fst s') ! qi)"
    using assms unfolding box_frame_def by blast+
  have f: "pListMempool (fst s') = pListMempool (fst s)" "iLoopbackSockFd (fst s') = iLoopbackSockFd (fst s)"
    "usLoopbackPort (fst s') = usLoopbackPort (fst s)" "bSendEvent (fst s') = bSendEvent (fst s)"
    "length (MsgQueue (fst s')) = length (MsgQueue (fst s))" "\<forall>j. j \<noteq> qi \<longrightarrow> MsgQueue (fst s') ! j = MsgQueue (fst s) ! j"
    unfolding q by simp_all
  show ?thesis by (intro conjI r f)
qed

lemma box_frame_length: "box_frame qi s s' \<Longrightarrow> length (MsgQueue (fst s')) = length (MsgQueue (fst s))"
  using box_frame_fields by blast

lemma ring_put_only: "ring_put msg q = Some q' \<Longrightarrow> ring_only q q'"
  by (auto simp: ring_put_def ring_only_def Let_def split: if_splits)

lemma ring_take_only: "ring_take q = (x, q') \<Longrightarrow> ring_only q q'"
  by (auto simp: ring_take_def ring_only_def Let_def)

lemma enqueue_room:
  assumes "qi < length (MsgQueue box)" "queue_inv (MsgQueue box ! qi)"
    "length (pending (MsgQueue box ! qi)) < 63"
  shows "\<exists>box'. of_MsgEnqueue e bh qi msg tll (box, m) = Some (OF_SUCCESS, box', m) \<and>
    queue_inv (MsgQueue box' ! qi) \<and>
    pending (MsgQueue box' ! qi) = pending (MsgQueue box ! qi) @ [msg] \<and>
    mq_list (MsgQueue box' ! qi) = mq_list (MsgQueue box ! qi) \<and> box_frame qi (box, m) (box', m)"
proof -
  let ?q = "MsgQueue box ! qi"
  have inv: "ring_inv ?q" "None \<notin> set (ring_msgs ?q)" "\<not> mq_lock ?q"
    using assms(2) by (auto simp: queue_inv_def ring_inv_def)
  have "ring_count ?q < 63" using assms(3) by (simp add: pending_def ring_msgs_def)
  from ring_put_room[OF inv(1) this, of msg] obtain q' where
    q': "ring_put msg ?q = Some q'" "ring_inv q'" "ring_msgs q' = ring_msgs ?q @ [Some msg]"
      "mq_list q' = mq_list ?q" by blast
  then show ?thesis using assms(1) inv ring_put_only[OF q'(1)]
    by (auto simp: of_MsgEnqueue_def Let_def queue_inv_def pending_def box_frame_def)
qed

lemma dequeue_nonempty:
  assumes "qi < length (MsgQueue box)" "queue_inv (MsgQueue box ! qi)"
    "pending (MsgQueue box ! qi) = x # xs"
  shows "\<exists>box'. of_MsgDequeue e qi tll (box, m) = Some (OF_SUCCESS, Some x, box', m) \<and>
    queue_inv (MsgQueue box' ! qi) \<and> pending (MsgQueue box' ! qi) = xs \<and>
    mq_list (MsgQueue box' ! qi) = mq_list (MsgQueue box ! qi) \<and> box_frame qi (box, m) (box', m)"
proof -
  let ?q = "MsgQueue box ! qi"
  have inv: "ring_inv ?q" "None \<notin> set (ring_msgs ?q)" "\<not> mq_lock ?q" "ulWriteIndx ?q < 64"
    using assms(2) by (auto simp: queue_inv_def ring_inv_def)
  have ne: "\<not> ring_empty ?q"
    using assms(3) ring_empty_msgs[OF inv(1)] by (auto simp: pending_def)
  obtain q' where q': "ring_take ?q = (hd (ring_msgs ?q), q')" "ring_inv q'"
    "ring_msgs q' = tl (ring_msgs ?q)" "mq_list q' = mq_list ?q"
    using ring_take_msgs[OF inv(1) ne] by blast
  obtain y ys where y: "ring_msgs ?q = Some y # ys" "x = y" "map the ys = xs"
  proof (cases "ring_msgs ?q")
    case Nil
    then show ?thesis using assms(3) by (simp add: pending_def)
  next
    case (Cons a ys)
    then obtain y where "a = Some y" using inv(2) by (cases a) auto
    then show ?thesis using that Cons assms(3) by (simp add: pending_def)
  qed
  then show ?thesis using assms(1) inv ne q' ring_take_only[OF q'(1)]
    by (auto simp: of_MsgDequeue_def Let_def queue_inv_def pending_def box_frame_def)
qed

lemma dequeue_empty:
  assumes "qi < length (MsgQueue box)" "queue_inv (MsgQueue box ! qi)" "pending (MsgQueue box ! qi) = []"
  shows "of_MsgDequeue e qi tll (box, m) = Some (OF_FAILURE, None, box, m)"
  using assms ring_empty_msgs[of "MsgQueue box ! qi"]
  by (auto simp: of_MsgDequeue_def Let_def queue_inv_def pending_def)

interpretation mq: bounded_fifo "box_inv qi" "box_pending qi" 63 "box_frame qi" "box_put e qi" "box_take e qi" for qi e
proof unfold_locales
  fix s :: "'m msg_q_box \<times> mem_sys" and x :: 'm and xs
  assume inv: "box_inv qi s"
  obtain box m where s: "s = (box, m)" by (cases s)
  have q: "qi < length (MsgQueue box)" "queue_inv (MsgQueue box ! qi)"
    using inv by (simp_all add: box_inv_def s)
  show "\<exists>s'. box_put e qi x s = Some s' \<and> box_inv qi s' \<and> box_pending qi s' = box_pending qi s @ [x] \<and> box_frame qi s s'"
    if "length (box_pending qi s) < 63"
    using enqueue_room[OF q, of e 0 x False m] that q(1) box_frame_length
    by (fastforce simp: box_put_def box_inv_def box_pending_def s)
  show "\<exists>s'. box_take e qi s = Some (x, s') \<and> box_inv qi s' \<and> box_pending qi s' = xs \<and> box_frame qi s s'"
    if "box_pending qi s = x # xs"
    using dequeue_nonempty[OF q, of x xs e False m] that q(1) box_frame_length
    by (fastforce simp: box_take_def box_inv_def box_pending_def s)
  show "box_take e qi s = None" if "box_pending qi s = []"
    using dequeue_empty[OF q, of e False m] that by (simp add: box_take_def box_pending_def s)
  show "box_frame qi s s" by (simp add: box_frame_def ring_only_def)
next
  fix s s' s'' :: "'m msg_q_box \<times> mem_sys"
  assume "box_frame qi s s'" "box_frame qi s' s''"
  then show "box_frame qi s s''" using box_frame_trans by blast
qed

section \<open>Properties\<close>

text \<open>C25: a queue of a box is a FIFO queue for up to 63 messages: messages enqueued after those already
  in the ring are all accepted, and as many dequeues as there are messages return those already in the
  ring and then the new ones, in order, none lost, duplicated or reordered; the next dequeue reports that
  the queue is empty. Neither the enqueues nor the dequeues touch anything but the indices and slots of
  this ring: the overflow list, the counter and the lock of the queue, every other queue of the box, the
  other fields of the box and the memory system are unchanged.\<close>

theorem msg_queue_fifo:
  assumes "box_inv qi s" "length (box_pending qi s) + length msgs \<le> 63"
  shows "\<exists>s' s''. bounded_fifo.enq_all (box_put e qi) msgs s = Some s' \<and>
    bounded_fifo.deq_all (box_take e qi) (length (box_pending qi s) + length msgs) s' = (box_pending qi s @ msgs, s'') \<and>
    box_take e qi s'' = None \<and>
    (\<forall>t\<in>{s', s''}. snd t = snd s \<and> pListMempool (fst t) = pListMempool (fst s) \<and>
      iLoopbackSockFd (fst t) = iLoopbackSockFd (fst s) \<and> usLoopbackPort (fst t) = usLoopbackPort (fst s) \<and>
      bSendEvent (fst t) = bSendEvent (fst s) \<and> length (MsgQueue (fst t)) = length (MsgQueue (fst s)) \<and>
      (\<forall>j. j \<noteq> qi \<longrightarrow> MsgQueue (fst t) ! j = MsgQueue (fst s) ! j) \<and>
      ring_only (MsgQueue (fst s) ! qi) (MsgQueue (fst t) ! qi))"
proof -
  obtain s' s'' where f: "bounded_fifo.enq_all (box_put e qi) msgs s = Some s'"
    "bounded_fifo.deq_all (box_take e qi) (length (box_pending qi s) + length msgs) s' = (box_pending qi s @ msgs, s'')"
    "box_take e qi s'' = None" "box_frame qi s s'" "box_frame qi s s''"
    using mq.fifo[OF assms(1) order_refl assms(2), of e] by blast
  show ?thesis
    by (intro exI[of _ s'] exI[of _ s'']) (use f box_frame_fields[OF f(4)] box_frame_fields[OF f(5)] in auto)
qed

text \<open>A box with one empty queue, as \<^verbatim>\<open>of_MsgQBoxCreate\<close> sets it up.\<close>

definition demo_box :: "nat msg_q_box" where
  "demo_box = \<lparr>MsgQueue = [empty_msg_queue], pListMempool = Some 5, iLoopbackSockFd = 7,
     usLoopbackPort = 9, bSendEvent = True\<rparr>"

lemma demo_box_inv: "box_inv 0 (demo_box, m)" "box_pending 0 (demo_box, m) = []"
  by (simp_all add: box_inv_def demo_box_def queue_inv_def ring_inv_def empty_msg_queue_def
      ring_msgs_def ring_count_def box_pending_def pending_def)

theorem msg_queue_fifo_witness:
  "\<exists>s' s''. bounded_fifo.enq_all (box_put (demo_env 0) 0) [3, 1, 2] (demo_box, sys_of []) = Some s' \<and>
    bounded_fifo.deq_all (box_take (demo_env 0) 0) 3 s' = ([3, 1, 2], s'') \<and>
    box_take (demo_env 0) 0 s'' = None \<and> iLoopbackSockFd (fst s'') = 7"
proof -
  have l: "length (box_pending 0 (demo_box, sys_of [])) + length [3, 1, 2 :: nat] \<le> 63"
    by (simp add: demo_box_inv(2))
  have f: "iLoopbackSockFd (fst (demo_box, sys_of [])) = 7" by (simp add: demo_box_def)
  show ?thesis
    using msg_queue_fifo[OF demo_box_inv(1) l, of "demo_env 0"] f
    by (auto simp: demo_box_inv(2) numeral_3_eq_3)
qed

text \<open>Once reading has begun, the ring holds 63 messages. A further message is put on the overflow
  list, which the ring does not see, or is refused when the pool has no entry; and no dequeue ever
  looks at the overflow list, because the write index always is a ring index: whatever is put on it
  stays there.\<close>

theorem msg_queue_overflow_stuck:
  assumes "qi < length (MsgQueue box)" "queue_inv (MsgQueue box ! qi)"
  shows "(length (pending (MsgQueue box ! qi)) = 63 \<and> ulReadIndx (MsgQueue box ! qi) \<noteq> -1 \<and>
      of_MsgEnqueue e bh qi msg tll (box, m) = Some (rc, box', m') \<longrightarrow>
        pending (MsgQueue box' ! qi) = pending (MsgQueue box ! qi) \<and>
        (if rc = OF_SUCCESS then \<exists>b h. mq_list (MsgQueue box' ! qi) =
           mq_list (MsgQueue box ! qi) @ [\<lparr>me_block = b, me_msg = msg, me_bHeap = h\<rparr>]
         else mq_list (MsgQueue box' ! qi) = mq_list (MsgQueue box ! qi))) \<and>
    (\<exists>rc r b m'. of_MsgDequeue e qi tll (box, m) = Some (rc, r, b, m') \<and> m' = m \<and>
        mq_list (MsgQueue b ! qi) = mq_list (MsgQueue box ! qi))"
proof (intro conjI impI)
  let ?q = "MsgQueue box ! qi"
  show "\<exists>rc r b m'. of_MsgDequeue e qi tll (box, m) = Some (rc, r, b, m') \<and> m' = m \<and>
        mq_list (MsgQueue b ! qi) = mq_list (MsgQueue box ! qi)"
    using dequeue_empty[OF assms, of e tll m] dequeue_nonempty[OF assms, of _ _ e tll m]
    by (cases "pending ?q") auto
  assume a: "length (pending ?q) = 63 \<and> ulReadIndx ?q \<noteq> -1 \<and>
      of_MsgEnqueue e bh qi msg tll (box, m) = Some (rc, box', m')"
  have inv: "ring_inv ?q" "\<not> mq_lock ?q" using assms(2) by (auto simp: queue_inv_def ring_inv_def)
  have "ring_count ?q = 63" using a by (simp add: pending_def ring_msgs_def)
  then have "ring_put msg ?q = None"
    using a ring_full_iff[OF inv(1)] ring_put_eq[OF inv(1)] by auto
  then have box': "box' = box\<lparr>MsgQueue := (MsgQueue box)[qi := ?q]\<rparr> \<and> rc = OF_FAILURE \<or>
      (\<exists>b h. box' = box\<lparr>MsgQueue := (MsgQueue box)[qi := list_put b msg h ?q]\<rparr> \<and> rc = OF_SUCCESS)"
    using a assms(1) inv
    by (auto simp: of_MsgEnqueue_def Let_def split: option.splits if_splits) blast+
  have "pending (list_put b msg h ?q) = pending ?q" for b h
    by (simp add: pending_def ring_msgs_def ring_count_def ring_slot_def list_put_def)
  then show "pending (MsgQueue box' ! qi) = pending ?q"
    using box' assms(1) by auto
  show "if rc = OF_SUCCESS then \<exists>b h. mq_list (MsgQueue box' ! qi) =
           mq_list ?q @ [\<lparr>me_block = b, me_msg = msg, me_bHeap = h\<rparr>]
         else mq_list (MsgQueue box' ! qi) = mq_list ?q"
    using box' assms(1) by (auto simp: list_put_def)
qed

theorem msg_queue_overflow_stuck_witness:
  "\<exists>rc r b m'. of_MsgDequeue (demo_env 0) 0 True (demo_box, sys_of []) = Some (rc, r, b, m') \<and> m' = sys_of []"
proof -
  have "0 < length (MsgQueue demo_box)" "queue_inv (MsgQueue demo_box ! 0)"
    using demo_box_inv(1)[of "sys_of []"] by (auto simp: box_inv_def)
  from msg_queue_overflow_stuck[OF this, of "demo_env 0" 0 3 True "sys_of []"]
  show ?thesis by blast
qed

text \<open>Before the first dequeue the read index is \<open>-1\<close>, which the wrap-around test takes for a large
  number. So when 64 messages have been enqueued and none dequeued, the next enqueue reports success,
  overwrites the oldest message and makes the other 63 unreachable: only the new message is pending.\<close>

theorem msg_queue_wrap_loses_all:
  assumes "qi < length (MsgQueue box)" "queue_inv (MsgQueue box ! qi)"
    "ulReadIndx (MsgQueue box ! qi) = -1" "length (pending (MsgQueue box ! qi)) = 64"
  shows "\<exists>box'. of_MsgEnqueue e bh qi msg tll (box, m) = Some (OF_SUCCESS, box', m) \<and>
    pending (MsgQueue box' ! qi) = [msg]"
proof -
  let ?q = "MsgQueue box ! qi"
  have inv: "ring_inv ?q" "\<not> mq_lock ?q" "length (pMsgData ?q) = 64"
    using assms(2) by (auto simp: queue_inv_def ring_inv_def)
  have w: "ulWriteIndx ?q = 63"
    using assms(3,4) inv(1) by (auto simp: pending_def ring_msgs_def ring_count_def ring_inv_def)
  then have "ring_put msg ?q = Some (?q\<lparr>pMsgData := (pMsgData ?q)[0 := Some msg], ulWriteIndx := 0\<rparr>)"
    using ring_put_eq[OF inv(1)] assms(3) by simp
  then show ?thesis using assms(1,3) inv
    by (auto simp: of_MsgEnqueue_def Let_def pending_def ring_msgs_def ring_count_def ring_slot_def)
qed


text \<open>A queue with 64 messages of which none has been read.\<close>

definition demo_full :: "nat msg_queue" where
  "demo_full = empty_msg_queue\<lparr>ulWriteIndx := 63, pMsgData := map Some [0..<64]\<rparr>"

lemma demo_full_inv: "queue_inv demo_full" "length (pending demo_full) = 64"
proof -
  have "ring_msgs demo_full = map Some [0..<64]"
    by (rule nth_equalityI)
      (auto simp: demo_full_def empty_msg_queue_def ring_msgs_def ring_count_def ring_slot_def)
  then show "queue_inv demo_full" "length (pending demo_full) = 64"
    by (auto simp: queue_inv_def pending_def)
      (simp_all add: ring_inv_def demo_full_def empty_msg_queue_def)
qed

theorem msg_queue_wrap_loses_all_witness:
  "\<exists>box'. of_MsgEnqueue (demo_env 0) 0 0 99 False (demo_box\<lparr>MsgQueue := [demo_full]\<rparr>, sys_of []) =
     Some (OF_SUCCESS, box', sys_of []) \<and> pending (MsgQueue box' ! 0) = [99]"
proof -
  have "ulReadIndx demo_full = -1" by (simp add: demo_full_def empty_msg_queue_def)
  then show ?thesis
    using msg_queue_wrap_loses_all[of 0 "demo_box\<lparr>MsgQueue := [demo_full]\<rparr>" "demo_env 0" 0 99 False
        "sys_of []"] demo_full_inv by simp
qed

end
