(* ===== verification/Crm_Attribute.thy ===== *)
theory Crm_Attribute
  imports Mempool "HOL-Library.AList"
begin

text \<open>
  The attributes of the resources of the cloud resource manager (\<^verbatim>\<open>crm/crm_attribute.c\<close>): an
  \<^verbatim>\<open>of_list\<close> of name and value pairs. The entries are blocks of \<^verbatim>\<open>crm_attributes_mempool_g\<close>. The list
  is proved to implement an association list: an addition is an update in place or at the end, a
  lookup is the lookup of the association list, and the first and next entries enumerate it.
\<close>

section \<open>Data\<close>

abbreviation CRM_SUCCESS :: int where "CRM_SUCCESS \<equiv> 0"
abbreviation CRM_FAILURE :: int where "CRM_FAILURE \<equiv> -1"
abbreviation CRM_ERROR_NO_MORE_ENTRIES :: int where "CRM_ERROR_NO_MORE_ENTRIES \<equiv> -2"
abbreviation CRM_ERROR_TENANT_NAME_INVALID :: int where "CRM_ERROR_TENANT_NAME_INVALID \<equiv> -19"
abbreviation CRM_ERROR_DUPLICATE_TENANT_RESOURCE :: int where "CRM_ERROR_DUPLICATE_TENANT_RESOURCE \<equiv> -20"
abbreviation CRM_ERROR_TENANT_ADD_FAIL :: int where "CRM_ERROR_TENANT_ADD_FAIL \<equiv> -21"
abbreviation CRM_ERROR_INVALID_TENANT_HANDLE :: int where "CRM_ERROR_INVALID_TENANT_HANDLE \<equiv> -24"
abbreviation CRM_ERROR_RESOURCE_NOTEMPTY :: int where "CRM_ERROR_RESOURCE_NOTEMPTY \<equiv> -25"
abbreviation CRM_ERROR_ATTRIBUTE_NAME_NULL :: int where "CRM_ERROR_ATTRIBUTE_NAME_NULL \<equiv> -26"
abbreviation CRM_ERROR_INVALID_ATTRIBUTE_NAME_LEN :: int where "CRM_ERROR_INVALID_ATTRIBUTE_NAME_LEN \<equiv> -28"
abbreviation CRM_ERROR_INVALID_ATTRIBUTE_VALUE_LEN :: int where "CRM_ERROR_INVALID_ATTRIBUTE_VALUE_LEN \<equiv> -29"
abbreviation CRM_ERROR_NO_MEM :: int where "CRM_ERROR_NO_MEM \<equiv> -31"
abbreviation CRM_ERROR_INVALID_NAME :: int where "CRM_ERROR_INVALID_NAME \<equiv> -32"
abbreviation CRM_MAX_ATTRIBUTE_NAME_LEN :: nat where "CRM_MAX_ATTRIBUTE_NAME_LEN \<equiv> 128"
abbreviation CRM_MAX_ATTRIBUTE_VALUE_LEN :: nat where "CRM_MAX_ATTRIBUTE_VALUE_LEN \<equiv> 128"

text \<open>An entry without its link. A C string is the list of its characters before the NUL. The arrays
  have exactly the maximal length, so a string of that length does not fit with its NUL.\<close>

record crm_resource_attribute_entry =
  ra_heap_b :: u8
  ra_name :: string
  ra_value :: string

type_synonym attr_store = "addr \<Rightarrow> crm_resource_attribute_entry"

record crm_attribute_name_value_output_info =
  oi_name_string :: string
  oi_name_length :: int
  oi_value_string :: string
  oi_value_length :: int

text \<open>The unsigned comparison of a \<^verbatim>\<open>strlen\<close> with a 32-bit signed length.\<close>

definition exceeds :: "string \<Rightarrow> int \<Rightarrow> bool" where
  "exceeds s n \<longleftrightarrow> int (length s) > n mod 2 ^ 64"

section \<open>Operations\<close>

text \<open>The pair is an optional name and value (the arrays inside it are never NULL). \<open>st\<close> is the list of
  the resource, \<open>A\<close> the entries; copying a string that does not fit is undefined.\<close>

definition crm_add_attribute ::
  "mem_env \<Rightarrow> ptr \<Rightarrow> (string \<times> string) option \<Rightarrow> of_list_st \<times> attr_store \<times> mem_sys \<Rightarrow>
   (int \<times> of_list_st \<times> attr_store \<times> mem_sys) option" where
  "crm_add_attribute e pool info = (\<lambda>(st, A, m).
    case info of None \<Rightarrow> Some (CRM_FAILURE, st, A, m)
    | Some (nm, v) \<Rightarrow>
      if length nm > CRM_MAX_ATTRIBUTE_NAME_LEN then Some (CRM_ERROR_INVALID_ATTRIBUTE_NAME_LEN, st, A, m)
      else if length v > CRM_MAX_ATTRIBUTE_VALUE_LEN then Some (CRM_ERROR_INVALID_ATTRIBUTE_VALUE_LEN, st, A, m)
      else Option.bind (of_list_search (fst st) (\<lambda>n. ra_name (A n) = nm) None (ol_head (fst (snd st))))
        (\<lambda>(_, p). case p of
           Some n \<Rightarrow> if length v < CRM_MAX_ATTRIBUTE_VALUE_LEN
             then Some (CRM_SUCCESS, st, A(n := (A n)\<lparr>ra_value := v\<rparr>), m) else None
         | None \<Rightarrow> Option.bind (mempool_get_mem_block e pool 0 m) (\<lambda>((rc, b, hb), m1).
             if rc \<noteq> MEMPOOL_SUCCESS then Some (CRM_ERROR_NO_MEM, st, A, m1)
             else case b of None \<Rightarrow> None
             | Some n \<Rightarrow>
               if length nm < CRM_MAX_ATTRIBUTE_NAME_LEN \<and> length v < CRM_MAX_ATTRIBUTE_VALUE_LEN
               then map_option (\<lambda>st'. (CRM_SUCCESS, st', A(n := \<lparr>ra_heap_b = hb, ra_name = nm, ra_value = v\<rparr>), m1))
                      (OF_APPEND_NODE_TO_LIST n ((fst st)(n := None), snd st))
               else None)))"

text \<open>Copying an entry to the output; a string that does not fit has its length reported instead.\<close>

definition copy_attr :: "crm_resource_attribute_entry \<Rightarrow> crm_attribute_name_value_output_info" where
  "copy_attr a = \<lparr>oi_name_string = ra_name a, oi_name_length = int (length (ra_name a)) + 1,
     oi_value_string = ra_value a, oi_value_length = int (length (ra_value a)) + 1\<rparr>"

definition output_attr ::
  "crm_resource_attribute_entry \<Rightarrow> crm_attribute_name_value_output_info \<Rightarrow> int \<times> crm_attribute_name_value_output_info" where
  "output_attr a out =
    (if exceeds (ra_name a) (oi_name_length out)
     then (CRM_ERROR_INVALID_ATTRIBUTE_NAME_LEN, out\<lparr>oi_name_length := int (length (ra_name a)) + 1\<rparr>)
     else if exceeds (ra_value a) (oi_value_length out)
     then (CRM_ERROR_INVALID_ATTRIBUTE_VALUE_LEN, out\<lparr>oi_value_length := int (length (ra_value a)) + 1\<rparr>)
     else (CRM_SUCCESS, copy_attr a))"

definition crm_get_first_attribute ::
  "of_list_st option \<Rightarrow> attr_store \<Rightarrow> crm_attribute_name_value_output_info \<Rightarrow>
   int \<times> crm_attribute_name_value_output_info" where
  "crm_get_first_attribute st A out =
    (case st of None \<Rightarrow> (CRM_ERROR_ATTRIBUTE_NAME_NULL, out)
     | Some (nx, l, rcu) \<Rightarrow>
       (case ol_head l of None \<Rightarrow> (CRM_ERROR_ATTRIBUTE_NAME_NULL, out)
        | Some n \<Rightarrow> output_attr (A n) out))"

text \<open>The loop with its flag: after the entry of the current name, the first entry is taken.\<close>

partial_function (option) next_attr_scan ::
  "links \<Rightarrow> attr_store \<Rightarrow> string \<Rightarrow> bool \<Rightarrow> crm_attribute_name_value_output_info \<Rightarrow> ptr \<Rightarrow>
   (int \<times> crm_attribute_name_value_output_info) option" where
  "next_attr_scan nx A cur found out p =
    (if p = None then Some (if found then CRM_ERROR_NO_MORE_ENTRIES else CRM_ERROR_INVALID_NAME, out)
     else if \<not> found then next_attr_scan nx A cur (ra_name (A (the p)) = cur) out (nx (the p))
     else Some (output_attr (A (the p)) out))"

definition crm_get_next_attribute ::
  "of_list_st \<Rightarrow> attr_store \<Rightarrow> string option \<Rightarrow> crm_attribute_name_value_output_info option \<Rightarrow>
   (int \<times> crm_attribute_name_value_output_info option) option" where
  "crm_get_next_attribute st A cur out =
    (case (out, cur) of
       (Some ot, Some c) \<Rightarrow> map_option (\<lambda>(rc, ot'). (rc, Some ot'))
          (next_attr_scan (fst st) A c False ot (ol_head (fst (snd st))))
     | _ \<Rightarrow> Some (CRM_FAILURE, out))"

text \<open>\<^verbatim>\<open>crm_get_exact_attribute\<close> checks neither length.\<close>

definition crm_get_exact_attribute ::
  "of_list_st \<Rightarrow> attr_store \<Rightarrow> string \<Rightarrow> crm_attribute_name_value_output_info \<Rightarrow>
   (int \<times> crm_attribute_name_value_output_info) option" where
  "crm_get_exact_attribute st A nm out =
    map_option (\<lambda>(_, p). case p of None \<Rightarrow> (CRM_FAILURE, out) | Some n \<Rightarrow> (CRM_SUCCESS, copy_attr (A n)))
      (of_list_search (fst st) (\<lambda>n. ra_name (A n) = nm) None (ol_head (fst (snd st))))"

section \<open>Blocks handed out are new\<close>

text \<open>What a client of a pool needs of a request: it returns, and a block it hands out is in none of the
  client's uses \<open>U\<close>.\<close>

definition gives_fresh :: "mem_env \<Rightarrow> ptr \<Rightarrow> u8 \<Rightarrow> mem_sys \<Rightarrow> addr set \<Rightarrow> bool" where
  "gives_fresh e pool h m U \<longleftrightarrow> (\<exists>rc ob hb m'. mempool_get_mem_block e pool h m = Some ((rc, ob, hb), m') \<and>
     (case ob of None \<Rightarrow> rc \<noteq> MEMPOOL_SUCCESS | Some b \<Rightarrow> rc = MEMPOOL_SUCCESS \<and> b \<notin> U \<and> node_ok b))"

text \<open>Whether the request of a block succeeds.\<close>

definition block_given :: "mem_env \<Rightarrow> ptr \<Rightarrow> u8 \<Rightarrow> mem_sys \<Rightarrow> bool" where
  "block_given e pool h m \<longleftrightarrow>
     (case mempool_get_mem_block e pool h m of Some ((rc, ob, hb), m') \<Rightarrow> rc = MEMPOOL_SUCCESS | None \<Rightarrow> False)"

text \<open>Pools of the heap provider keep this promise.\<close>

lemma mheap_gives_fresh:
  assumes "ms_pools m a = Some p" "provider_of (int (mempool_type p)) m = Some mheap_callbacks"
    "pool_rep (ms_links m, p, ms_freed m) G T" "mheap_thread_ok e (ms_links m, p, ms_freed m)"
    "env_fresh e (U \<union> set (G @ concat T))" "U \<inter> set (G @ concat T) = {}"
    "\<forall>b. ev_heap e = Some b \<longrightarrow> node_ok b"
  shows "gives_fresh e (Some a) h m U"
proof -
  have fr: "env_fresh e (set (G @ concat T))" using assms(5) by (auto simp: env_fresh_def)
  obtain rc ob hb nx' p' G' T' bs k where g:
    "mempool_mheap_get_mem_block e h (ms_links m, p, ms_freed m) = Some ((rc, ob, hb), nx', p', ms_freed m)"
    "pool_rep (nx', p', ms_freed m) G' T'" "bs = chain_blocks (ev_chain e) 0 k"
    "get_outcome e h p p' (free_bag G T + mset bs) (free_bag G' T') rc ob hb"
    using get_mem_block_rep[OF assms(3) fr, of h] assms(4) by (auto simp: mheap_thread_ok_def)
  have "x \<notin> U \<and> node_ok x" if "x \<in> set bs" for x
    using chain_blocks_set[of x "ev_chain e" 0 k] that g(3) assms(5) unfolding env_fresh_def by blast
  then have bs: "set bs \<inter> U = {}" "\<forall>x\<in>set bs. node_ok x" by blast+
  have GT: "\<forall>x\<in>set (G @ concat T). node_ok x" using assms(3) by (auto simp: pool_rep_def)
  have "b \<notin> U \<and> node_ok b" if "free_bag G T + mset bs = add_mset b (free_bag G' T')" for b
  proof -
    have "mset (G @ concat T @ bs) = mset (b # G' @ concat T')" using that by (simp add: ac_simps)
    then have "b \<in> set (G @ concat T @ bs)" using mset_eq_setD by fastforce
    then show ?thesis using assms(6) bs GT by auto
  qed
  moreover have "b \<notin> U \<and> node_ok b" if "ev_heap e = Some b" for b
    using that assms(5,7) by (auto simp: env_fresh_def)
  ultimately have "case ob of None \<Rightarrow> rc \<noteq> MEMPOOL_SUCCESS | Some b \<Rightarrow> rc = MEMPOOL_SUCCESS \<and> b \<notin> U \<and> node_ok b"
    using g(4) by (cases ob) (auto simp: get_outcome_def)
  moreover have "\<exists>m'. mempool_get_mem_block e (Some a) h m = Some ((rc, ob, hb), m')"
    using g(1) assms(1,2) by (simp add: mempool_get_mem_block_def mheap_callbacks_def)
  ultimately show ?thesis unfolding gives_fresh_def by blast
qed

lemma gives_freshE:
  assumes "gives_fresh e pool h m U"
  obtains rc hb m' where "mempool_get_mem_block e pool h m = Some ((rc, None, hb), m')" "rc \<noteq> MEMPOOL_SUCCESS"
  | b hb m' where "mempool_get_mem_block e pool h m = Some ((MEMPOOL_SUCCESS, Some b, hb), m')" "b \<notin> U" "node_ok b"
  using assms by (auto simp: gives_fresh_def split: option.splits)

section \<open>The association list\<close>

definition names_ok :: "attr_store \<Rightarrow> addr list \<Rightarrow> bool" where
  "names_ok A xs \<longleftrightarrow> distinct (map (\<lambda>n. ra_name (A n)) xs) \<and>
     (\<forall>n\<in>set xs. length (ra_name (A n)) < CRM_MAX_ATTRIBUTE_NAME_LEN \<and>
        length (ra_value (A n)) < CRM_MAX_ATTRIBUTE_VALUE_LEN)"

definition attrs_ok :: "of_list_st \<Rightarrow> attr_store \<Rightarrow> addr list \<Rightarrow> bool" where
  "attrs_ok st A xs \<longleftrightarrow> ol_exact st xs \<and> names_ok A xs"

definition alist_of :: "attr_store \<Rightarrow> addr list \<Rightarrow> (string \<times> string) list" where
  "alist_of A xs = map (\<lambda>n. (ra_name (A n), ra_value (A n))) xs"

lemma alist_of_simps [simp]:
  "alist_of A [] = []" "alist_of A (x # xs) = (ra_name (A x), ra_value (A x)) # alist_of A xs"
  "alist_of A (xs @ ys) = alist_of A xs @ alist_of A ys" "length (alist_of A xs) = length xs"
  "map fst (alist_of A xs) = map (\<lambda>n. ra_name (A n)) xs"
  by (simp_all add: alist_of_def)

lemma alist_of_cong: "(\<And>n. n \<in> set xs \<Longrightarrow> A n = A' n) \<Longrightarrow> alist_of A xs = alist_of A' xs"
  by (simp add: alist_of_def)

lemma update_append:
  "k \<notin> fst ` set ys \<Longrightarrow> AList.update k v (ys @ (k, w) # zs) = ys @ (k, v) # zs"
  "k \<notin> fst ` set ys \<Longrightarrow> AList.update k v ys = ys @ [(k, v)]"
  by (induction ys) auto

lemma attrs_names:
  "attrs_ok st A (ys @ n # zs) \<Longrightarrow> \<forall>y\<in>set ys. ra_name (A y) \<noteq> ra_name (A n)"
  "attrs_ok st A (ys @ n # zs) \<Longrightarrow> \<forall>z\<in>set zs. ra_name (A z) \<noteq> ra_name (A n)"
  by (auto simp: attrs_ok_def names_ok_def image_iff)

lemma name_split:
  assumes "attrs_ok st A xs"
  obtains (absent) "nm \<notin> fst ` set (alist_of A xs)" "\<forall>n\<in>set xs. ra_name (A n) \<noteq> nm"
  | (present) ys n zs where "xs = ys @ n # zs" "ra_name (A n) = nm" "\<forall>y\<in>set ys. ra_name (A y) \<noteq> nm"
      "\<forall>z\<in>set zs. ra_name (A z) \<noteq> nm"
proof (cases "List.find (\<lambda>n. ra_name (A n) = nm) xs")
  case None
  then have "\<forall>n\<in>set xs. ra_name (A n) \<noteq> nm" by (auto simp: find_None_iff)
  then show ?thesis by (intro absent) (auto simp: alist_of_def)
next
  case (Some n)
  then obtain ys zs where "xs = ys @ n # zs" "\<forall>y\<in>set ys. ra_name (A y) \<noteq> nm" "ra_name (A n) = nm"
    using find_split by fastforce
  moreover from this have "\<forall>z\<in>set zs. ra_name (A z) \<noteq> nm" using attrs_names(2)[of st A ys n zs] assms by simp
  ultimately show ?thesis by (intro present)
qed

lemma attrs_head:
  assumes "ol_exact st xs"
  shows "lseg (fst st) (ol_head (fst (snd st))) xs None" "ol_rep st xs"
  using assms by (cases st; simp add: ol_exact_def ol_rep_def)+

text \<open>Adding an attribute is an update of the association list, unless the pool has no block.\<close>

definition attr_added ::
  "string \<Rightarrow> string \<Rightarrow> addr set \<Rightarrow> of_list_st \<Rightarrow> attr_store \<Rightarrow> mem_sys \<Rightarrow> addr list \<Rightarrow>
   int \<Rightarrow> of_list_st \<Rightarrow> attr_store \<Rightarrow> mem_sys \<Rightarrow> addr list \<Rightarrow> bool" where
  "attr_added nm v U st A m xs rc st' A' m' ys \<longleftrightarrow>
     attrs_ok st' A' ys \<and> snd (snd st') = snd (snd st) \<and> ol_free_cbk (fst (snd st')) = ol_free_cbk (fst (snd st)) \<and>
     (\<forall>n\<in>U - set xs. A' n = A n \<and> fst st' n = fst st n) \<and>
     (rc = CRM_SUCCESS \<and> alist_of A' ys = AList.update nm v (alist_of A xs) \<and>
        (nm \<in> fst ` set (alist_of A xs) \<and> ys = xs \<and> m' = m \<and> st' = st \<or>
         nm \<notin> fst ` set (alist_of A xs) \<and> (\<exists>n. ys = xs @ [n] \<and> n \<notin> U \<and> node_ok n)) \<or>
      rc = CRM_ERROR_NO_MEM \<and> nm \<notin> fst ` set (alist_of A xs) \<and> st' = st \<and> A' = A \<and> ys = xs)"

lemma add_attribute_ok:
  assumes ok: "attrs_ok st A xs" and len: "length nm < CRM_MAX_ATTRIBUTE_NAME_LEN" "length v < CRM_MAX_ATTRIBUTE_VALUE_LEN"
    and fresh: "gives_fresh e pool 0 m U" "set xs \<subseteq> U"
  obtains rc st' A' m' ys where "crm_add_attribute e pool (Some (nm, v)) (st, A, m) = Some (rc, st', A', m')"
    "attr_added nm v U st A m xs rc st' A' m' ys"
    "rc = CRM_SUCCESS \<longleftrightarrow> nm \<in> fst ` set (alist_of A xs) \<or> block_given e pool 0 m"
  using ok
proof (cases rule: name_split[where nm = nm])
  case (present ys n zs)
  have "of_list_search (fst st) (\<lambda>n. ra_name (A n) = nm) None (ol_head (fst (snd st))) =
      Some (if ys = [] then None else last_ptr ys, Some n)"
    by (rule of_list_search_present[of _ _ ys n zs])
      (use attrs_head(1)[of st xs] ok present in \<open>simp_all add: attrs_ok_def names_ok_def\<close>)
  then have run: "crm_add_attribute e pool (Some (nm, v)) (st, A, m) = Some (CRM_SUCCESS, st, A(n := (A n)\<lparr>ra_value := v\<rparr>), m)"
    using len by (simp add: crm_add_attribute_def)
  have n: "n \<notin> set ys" "n \<notin> set zs" using present by auto
  let ?A = "A(n := (A n)\<lparr>ra_value := v\<rparr>)"
  have names: "ra_name (?A x) = ra_name (A x)" for x by simp
  have "attrs_ok st ?A xs" using ok len unfolding attrs_ok_def names_ok_def names by auto
  moreover have "alist_of ?A xs = AList.update nm v (alist_of A xs)"
  proof -
    have "nm \<notin> fst ` set (alist_of A ys)" using present(3) by (auto simp: alist_of_def)
    moreover have "alist_of ?A ys = alist_of A ys" "alist_of ?A zs = alist_of A zs"
      using n by (auto intro: alist_of_cong)
    ultimately show ?thesis using present(1,2) by (simp add: update_append)
  qed
  moreover have "nm \<in> fst ` set (alist_of A xs)" using present(1,2) by (force simp: alist_of_def)
  ultimately have "attr_added nm v U st A m xs CRM_SUCCESS st ?A m xs"
    "CRM_SUCCESS = CRM_SUCCESS \<longleftrightarrow> nm \<in> fst ` set (alist_of A xs) \<or> block_given e pool 0 m"
    using present(1) by (auto simp: attr_added_def)
  with run show thesis by (rule that)
next
  case absent
  have exact: "ol_exact st xs" using ok by (simp add: attrs_ok_def names_ok_def)
  have srch: "of_list_search (fst st) (\<lambda>n. ra_name (A n) = nm) None (ol_head (fst (snd st))) =
      Some (if xs = [] then None else last_ptr xs, None)"
    by (rule of_list_search_absent[OF attrs_head(1)[OF exact]]) (use absent in simp)
  show thesis
  proof (rule gives_freshE[OF fresh(1)])
    fix rc hb m'
    assume g: "mempool_get_mem_block e pool 0 m = Some ((rc, None, hb), m')" "rc \<noteq> MEMPOOL_SUCCESS"
    have "crm_add_attribute e pool (Some (nm, v)) (st, A, m) = Some (CRM_ERROR_NO_MEM, st, A, m')"
      using srch len g by (simp add: crm_add_attribute_def)
    moreover have "attr_added nm v U st A m xs CRM_ERROR_NO_MEM st A m' xs"
      using ok absent(1) by (simp add: attr_added_def)
    moreover have "CRM_ERROR_NO_MEM = CRM_SUCCESS \<longleftrightarrow> nm \<in> fst ` set (alist_of A xs) \<or> block_given e pool 0 m"
      using absent(1) g by (simp add: block_given_def)
    ultimately show thesis by (rule that)
  next
    fix n hb m'
    assume g: "mempool_get_mem_block e pool 0 m = Some ((MEMPOOL_SUCCESS, Some n, hb), m')" "n \<notin> U" "node_ok n"
    let ?A = "A(n := \<lparr>ra_heap_b = hb, ra_name = nm, ra_value = v\<rparr>)"
    let ?st = "((fst st)(n := None), snd st)"
    have n: "n \<notin> set xs" using g(2) fresh(2) by blast
    have "ol_exact ?st xs" using exact n by (auto simp: ol_exact_def ol_rep_def ol_cnt_def split: prod.splits)
    then obtain st' where st': "OF_APPEND_NODE_TO_LIST n ?st = Some st'" "ol_exact st' (xs @ [n])"
      "snd (snd st') = snd (snd st)" "\<forall>m. m \<notin> set xs \<longrightarrow> fst st' m = fst ?st m"
      "ol_free_cbk (fst (snd st')) = ol_free_cbk (fst (snd st))"
      using ol_append[of ?st xs n] n g(3) by (auto simp: ol_exact_def)
    have run: "crm_add_attribute e pool (Some (nm, v)) (st, A, m) = Some (CRM_SUCCESS, st', ?A, m')"
      using srch len g(1) st'(1) by (simp add: crm_add_attribute_def)
    have al: "alist_of ?A xs = alist_of A xs" using n by (auto intro: alist_of_cong)
    have "?A x = A x" if "x \<in> set xs" for x using n that by auto
    then have eq: "map (\<lambda>x. ra_name (?A x)) xs = map (\<lambda>x. ra_name (A x)) xs" "\<forall>x\<in>set xs. ?A x = A x" by simp_all
    have "distinct (map (\<lambda>x. ra_name (?A x)) (xs @ [n]))"
      using ok absent(2) unfolding map_append eq(1) by (auto simp: attrs_ok_def names_ok_def)
    moreover have "\<forall>x\<in>set (xs @ [n]). length (ra_name (?A x)) < CRM_MAX_ATTRIBUTE_NAME_LEN \<and>
        length (ra_value (?A x)) < CRM_MAX_ATTRIBUTE_VALUE_LEN"
      using ok len by (auto simp: attrs_ok_def names_ok_def)
    ultimately have ok': "attrs_ok st' ?A (xs @ [n])" using st'(2) unfolding attrs_ok_def names_ok_def by blast
    have "\<forall>k\<in>U - set xs. ?A k = A k \<and> fst st' k = fst st k" using g(2) st'(4) by auto
    moreover have "alist_of ?A (xs @ [n]) = AList.update nm v (alist_of A xs)"
      using absent(1) by (simp add: al update_append)
    ultimately have "attr_added nm v U st A m xs CRM_SUCCESS st' ?A m' (xs @ [n])"
      unfolding attr_added_def using ok' st'(3,5) absent(1) g(2,3) by blast
    moreover have "CRM_SUCCESS = CRM_SUCCESS \<longleftrightarrow> nm \<in> fst ` set (alist_of A xs) \<or> block_given e pool 0 m"
      using g(1) by (simp add: block_given_def)
    ultimately show thesis using run by (intro that)
  qed
qed

text \<open>The wrong arguments, in the order of the checks.\<close>

lemma add_attribute_errors:
  "crm_add_attribute e pool None (st, A, m) = Some (CRM_FAILURE, st, A, m)"
  "length nm > CRM_MAX_ATTRIBUTE_NAME_LEN \<Longrightarrow>
    crm_add_attribute e pool (Some (nm, v)) (st, A, m) = Some (CRM_ERROR_INVALID_ATTRIBUTE_NAME_LEN, st, A, m)"
  "length nm \<le> CRM_MAX_ATTRIBUTE_NAME_LEN \<Longrightarrow> length v > CRM_MAX_ATTRIBUTE_VALUE_LEN \<Longrightarrow>
    crm_add_attribute e pool (Some (nm, v)) (st, A, m) = Some (CRM_ERROR_INVALID_ATTRIBUTE_VALUE_LEN, st, A, m)"
  by (simp_all add: crm_add_attribute_def)

lemma get_exact_ok:
  assumes "attrs_ok st A xs"
  shows "crm_get_exact_attribute st A nm out = Some (case map_of (alist_of A xs) nm of
    None \<Rightarrow> (CRM_FAILURE, out)
  | Some v \<Rightarrow> (CRM_SUCCESS, copy_attr \<lparr>ra_heap_b = 0, ra_name = nm, ra_value = v\<rparr>))"
  using assms
proof (cases rule: name_split[where nm = nm])
  case absent
  have "map_of (alist_of A xs) nm = None" using absent(1) by (simp add: map_of_eq_None_iff)
  then show ?thesis
    using of_list_search_absent[OF attrs_head(1), of st xs "\<lambda>n. ra_name (A n) = nm" None] assms absent(2)
    by (simp add: crm_get_exact_attribute_def attrs_ok_def names_ok_def)
next
  case (present ys n zs)
  have "nm \<notin> fst ` set (alist_of A ys)" using present(3) by (auto simp: alist_of_def)
  then have "map_of (alist_of A xs) nm = Some (ra_value (A n))"
    using present(1,2) by (simp add: map_add_def map_of_eq_None_iff[THEN iffD2])
  moreover have "of_list_search (fst st) (\<lambda>n. ra_name (A n) = nm) None (ol_head (fst (snd st))) =
      Some (if ys = [] then None else last_ptr ys, Some n)"
    by (rule of_list_search_present[of _ _ ys n zs])
      (use attrs_head(1)[of st xs] assms present in \<open>simp_all add: attrs_ok_def names_ok_def\<close>)
  ultimately show ?thesis using present(2) by (simp add: crm_get_exact_attribute_def copy_attr_def)
qed

lemma get_first_ok:
  assumes "attrs_ok st A xs"
  shows "crm_get_first_attribute (Some st) A out =
    (case xs of [] \<Rightarrow> (CRM_ERROR_ATTRIBUTE_NAME_NULL, out) | n # _ \<Rightarrow> output_attr (A n) out)"
  using lseg_start[OF attrs_head(1)[of st xs]] assms
  by (cases st; cases xs) (simp_all add: crm_get_first_attribute_def attrs_ok_def names_ok_def)

lemma next_attr_scan_Some:
  "next_attr_scan nx A cur found out None = Some (if found then CRM_ERROR_NO_MORE_ENTRIES else CRM_ERROR_INVALID_NAME, out)"
  "next_attr_scan nx A cur False out (Some n) = next_attr_scan nx A cur (ra_name (A n) = cur) out (nx n)"
  "next_attr_scan nx A cur True out (Some n) = Some (output_attr (A n) out)"
  by (simp_all add: next_attr_scan.simps[of _ _ _ _ _ None] next_attr_scan.simps[of _ _ _ _ _ "Some _"])

lemma next_attr_scan_absent:
  "lseg nx p xs None \<Longrightarrow> \<forall>n\<in>set xs. ra_name (A n) \<noteq> cur \<Longrightarrow>
   next_attr_scan nx A cur False out p = Some (CRM_ERROR_INVALID_NAME, out)"
  by (induction xs arbitrary: p) (auto simp: next_attr_scan_Some)

lemma next_attr_scan_present:
  "lseg nx p (ys @ n # zs) None \<Longrightarrow> \<forall>y\<in>set ys. ra_name (A y) \<noteq> cur \<Longrightarrow> ra_name (A n) = cur \<Longrightarrow>
   next_attr_scan nx A cur False out p =
     Some (case zs of [] \<Rightarrow> (CRM_ERROR_NO_MORE_ENTRIES, out) | z # _ \<Rightarrow> output_attr (A z) out)"
  by (induction ys arbitrary: p) (auto simp: next_attr_scan_Some split: list.splits)

lemma get_next_ok:
  assumes "attrs_ok st A xs"
  shows "(nm \<notin> fst ` set (alist_of A xs) \<longrightarrow>
      crm_get_next_attribute st A (Some nm) (Some out) = Some (CRM_ERROR_INVALID_NAME, Some out)) \<and>
    (\<forall>ys n zs. xs = ys @ n # zs \<longrightarrow> ra_name (A n) = nm \<longrightarrow>
      crm_get_next_attribute st A (Some nm) (Some out) =
        Some (case zs of [] \<Rightarrow> (CRM_ERROR_NO_MORE_ENTRIES, Some out)
              | z # _ \<Rightarrow> (fst (output_attr (A z) out), Some (snd (output_attr (A z) out)))))"
proof (intro conjI impI allI)
  assume "nm \<notin> fst ` set (alist_of A xs)"
  then have "\<forall>n\<in>set xs. ra_name (A n) \<noteq> nm" unfolding alist_of_def set_map image_image fst_conv by blast
  then show "crm_get_next_attribute st A (Some nm) (Some out) = Some (CRM_ERROR_INVALID_NAME, Some out)"
    using next_attr_scan_absent attrs_head(1)[of st xs] assms by (simp add: crm_get_next_attribute_def attrs_ok_def names_ok_def)
next
  fix ys n zs
  assume xs: "xs = ys @ n # zs" "ra_name (A n) = nm"
  then have "\<forall>y\<in>set ys. ra_name (A y) \<noteq> nm" using attrs_names(1)[of st A ys n zs] assms by simp
  then show "crm_get_next_attribute st A (Some nm) (Some out) =
      Some (case zs of [] \<Rightarrow> (CRM_ERROR_NO_MORE_ENTRIES, Some out)
            | z # _ \<Rightarrow> (fst (output_attr (A z) out), Some (snd (output_attr (A z) out))))"
    using next_attr_scan_present[of "fst st" _ ys n zs A nm out] attrs_head(1)[of st xs] assms xs
    by (auto simp: crm_get_next_attribute_def attrs_ok_def names_ok_def split: list.splits prod.splits)
qed

section \<open>Property\<close>

text \<open>C24: adding an attribute updates the association list the \<^verbatim>\<open>of_list\<close> represents, in place for a known
  name and at the end for a new one; only a missing block for a new name makes it fail, without effect.
  Afterwards the exact lookup of any name is the lookup in the association list.\<close>

theorem crm_attribute_refines_alist:
  assumes "attrs_ok st A xs" "length nm < CRM_MAX_ATTRIBUTE_NAME_LEN" "length v < CRM_MAX_ATTRIBUTE_VALUE_LEN"
    "gives_fresh e pool 0 m (set xs)"
  shows "\<exists>rc st' A' m' ys. crm_add_attribute e pool (Some (nm, v)) (st, A, m) = Some (rc, st', A', m') \<and>
    attrs_ok st' A' ys \<and>
    (rc = CRM_SUCCESS \<and> alist_of A' ys = AList.update nm v (alist_of A xs) \<or>
     rc = CRM_ERROR_NO_MEM \<and> nm \<notin> fst ` set (alist_of A xs) \<and> alist_of A' ys = alist_of A xs) \<and>
    (\<forall>k out. crm_get_exact_attribute st' A' k out = Some (case map_of (alist_of A' ys) k of
       None \<Rightarrow> (CRM_FAILURE, out)
     | Some w \<Rightarrow> (CRM_SUCCESS, \<lparr>oi_name_string = k, oi_name_length = int (length k) + 1,
         oi_value_string = w, oi_value_length = int (length w) + 1\<rparr>)))"
proof -
  obtain rc st' A' m' ys where r: "crm_add_attribute e pool (Some (nm, v)) (st, A, m) = Some (rc, st', A', m')"
    "attr_added nm v (set xs) st A m xs rc st' A' m' ys"
    using add_attribute_ok[OF assms(1-4) order.refl] by metis
  then have ok: "attrs_ok st' A' ys" by (simp add: attr_added_def)
  have "rc = CRM_SUCCESS \<and> alist_of A' ys = AList.update nm v (alist_of A xs) \<or>
     rc = CRM_ERROR_NO_MEM \<and> nm \<notin> fst ` set (alist_of A xs) \<and> alist_of A' ys = alist_of A xs"
    using r(2) by (auto simp: attr_added_def)
  moreover have "crm_get_exact_attribute st' A' k out = Some (case map_of (alist_of A' ys) k of
       None \<Rightarrow> (CRM_FAILURE, out)
     | Some w \<Rightarrow> (CRM_SUCCESS, \<lparr>oi_name_string = k, oi_name_length = int (length k) + 1,
         oi_value_string = w, oi_value_length = int (length w) + 1\<rparr>))" for k out
    unfolding get_exact_ok[OF ok] by (simp add: copy_attr_def split: option.splits)
  ultimately show ?thesis using r(1) ok by blast
qed

text \<open>A memory system with one pool, whose provider hands out the block of its environment.\<close>

definition demo_mem :: mem_sys where
  "demo_mem = \<lparr>ms_types = [(0, \<lparr>cb_mempool_create = \<lambda>e p s. None, cb_mempool_delete = \<lambda>s. None,
       cb_mempool_get_mem_block = \<lambda>e h s. Some ((if ev_heap e = None then MEMPOOL_FAILURE else MEMPOOL_SUCCESS, ev_heap e, 0), s),
       cb_mempool_release_mem_block = \<lambda>e b h s. Some (MEMPOOL_SUCCESS, s)\<rparr>)],
     mempool_list_g = [2], ms_pools = (\<lambda>a. if a = 2 then Some (zero_pool ''attrs'') else None),
     ms_links = \<lambda>_. None, ms_freed = [], mempool_index_g = 0\<rparr>"

abbreviation give :: "addr \<Rightarrow> mem_env" where
  "give b \<equiv> \<lparr>ev_thread = 0, ev_threads = 0, ev_chain = \<lambda>_. None, ev_heap = Some b, ev_lists_ok = True\<rparr>"

lemma demo_mem_get: "mempool_get_mem_block (give b) (Some 2) h demo_mem = Some ((MEMPOOL_SUCCESS, Some b, 0), demo_mem)"
proof -
  have "(\<lambda>a :: addr. if a = 2 then Some (zero_pool ''attrs'') else None)(2 \<mapsto> zero_pool ''attrs'') =
      (\<lambda>a. if a = 2 then Some (zero_pool ''attrs'') else None)" by auto
  then show ?thesis
    by (simp add: demo_mem_def mempool_get_mem_block_def provider_of_def zero_pool_def put_pool_def)
qed

lemma demo_mem_fresh: "b \<notin> U \<Longrightarrow> node_ok b \<Longrightarrow> gives_fresh (give b) (Some 2) h demo_mem U"
  by (simp add: gives_fresh_def demo_mem_get)

theorem crm_attribute_refines_alist_witness:
  "\<exists>st' A' m' ys. crm_add_attribute (give 9) (Some 2) (Some (''b'', ''2''))
     ((\<lambda>_. None, \<lparr>ol_head = Some 5, ol_tail = Some 5, ol_count = 1, ol_lock = False, ol_free_cbk = True\<rparr>, []),
      \<lambda>_. \<lparr>ra_heap_b = 0, ra_name = ''a'', ra_value = ''1''\<rparr>, demo_mem) = Some (CRM_SUCCESS, st', A', m') \<and>
     alist_of A' ys = [(''a'', ''1''), (''b'', ''2'')]"
proof -
  let ?st = "(\<lambda>_. None, \<lparr>ol_head = Some 5, ol_tail = Some 5, ol_count = 1, ol_lock = False, ol_free_cbk = True\<rparr>, []) :: of_list_st"
  let ?A = "\<lambda>_ :: addr. \<lparr>ra_heap_b = 0, ra_name = ''a'', ra_value = ''1''\<rparr>"
  have ok: "attrs_ok ?st ?A [5]" by (simp add: attrs_ok_def names_ok_def ol_exact_def ol_rep_def ol_cnt_def node_ok_def)
  have fr: "gives_fresh (give 9) (Some 2) 0 demo_mem (set [5])"
    by (rule demo_mem_fresh) (simp_all add: node_ok_def)
  have len: "length ''b'' < CRM_MAX_ATTRIBUTE_NAME_LEN" "length ''2'' < CRM_MAX_ATTRIBUTE_VALUE_LEN" by simp_all
  obtain rc st' A' m' ys where r: "crm_add_attribute (give 9) (Some 2) (Some (''b'', ''2'')) (?st, ?A, demo_mem) =
      Some (rc, st', A', m')"
    "rc = CRM_SUCCESS \<and> alist_of A' ys = AList.update ''b'' ''2'' (alist_of ?A [5]) \<or> rc = CRM_ERROR_NO_MEM"
    using crm_attribute_refines_alist[OF ok len fr] by blast
  have "rc = CRM_SUCCESS"
  proof (rule ccontr)
    assume "rc \<noteq> CRM_SUCCESS"
    then show False using r(1)
      by (auto simp: crm_add_attribute_def demo_mem_get split: Option.bind_splits option.splits if_splits)
  qed
  then have "alist_of A' ys = [(''a'', ''1''), (''b'', ''2'')]" using r(2) by auto
  then show ?thesis using r(1) \<open>rc = CRM_SUCCESS\<close> by blast
qed

end
