(* ===== verification/Mchash.thy ===== *)
theory Mchash
  imports Ond_Prelude
begin

text \<open>
  The multicore hash table of \<^verbatim>\<open>utils/mchash.c\<close> and \<^verbatim>\<open>mchash.h\<close>. Application nodes are linked into
  buckets; an indirection array gives each of them a safe reference, the pair of its index in the
  array and a magic number that changes with every use of the index. A node is identified with the
  \<^verbatim>\<open>mchash_table_link\<close> embedded in it at the offset the macros are given. Every macro releases each lock it
  takes before it ends and holds at most one at a time; they are left out of the model.
\<close>

section \<open>Data\<close>

abbreviation MCHASHTBL_SUCCESS :: int where "MCHASHTBL_SUCCESS \<equiv> 0"
abbreviation MCHASHTBL_ERROR_NO_MEM :: int where "MCHASHTBL_ERROR_NO_MEM \<equiv> -51"
abbreviation MCHASHTBL_ERROR_NOT_EMPTY :: int where "MCHASHTBL_ERROR_NOT_EMPTY \<equiv> -52"
abbreviation MCHASH_MAX_HASHBUCKET_CACHE_NODES :: nat where "MCHASH_MAX_HASHBUCKET_CACHE_NODES \<equiv> 10"

text \<open>A \<^verbatim>\<open>struct mchash_dll_node *\<close>: NULL, the head of a bucket, or the link of a node.\<close>

datatype dll_ref = Null | is_Head: Head nat | Link (link_node: addr)

record mchash_table_link =
  lk_prev :: dll_ref
  lk_next :: dll_ref
  lk_index :: u32
  lk_key :: u32

text \<open>The indirection array doubles as the queue of free entries, linked by their indices.\<close>

record array_indirect_entry =
  ae_prev :: ptr
  ae_next :: ptr
  ae_magic :: u32
  ae_node :: ptr

record mchash_bucket =
  bk_head_prev :: dll_ref
  bk_head_next :: dll_ref
  bk_count :: u32
  prefetch_nodes :: "dll_ref list"

text \<open>The table; \<open>mt_links\<close> are the links inside the application nodes, \<open>mt_rcu\<close> the nodes handed to
  \<^verbatim>\<open>call_rcu\<close> with the free callback of the table.\<close>

record mchash_table =
  buckets :: u32
  max_nodes :: u32
  active_nodes :: u32
  passive_nodes :: u32
  magic_no :: u32
  free_q_prev :: ptr
  free_q_next :: ptr
  indirection_array :: "array_indirect_entry list"
  bucket_list :: "mchash_bucket list"
  mt_links :: "addr \<Rightarrow> mchash_table_link"
  mt_rcu :: "addr list"

section \<open>Creation and deletion\<close>

abbreviation X86_CACHE_LINE_SIZE :: u64 where "X86_CACHE_LINE_SIZE \<equiv> 32"

text \<open>The aligned address of the table within its allocation.\<close>

definition cache_align :: "u64 \<Rightarrow> u64" where
  "cache_align a = (if a AND (X86_CACHE_LINE_SIZE - 1) \<noteq> 0
     then (a + X86_CACHE_LINE_SIZE) AND NOT (X86_CACHE_LINE_SIZE - 1) else a)"

definition free_entry :: "nat \<Rightarrow> nat \<Rightarrow> array_indirect_entry" where
  "free_entry n i = \<lparr>ae_prev = (if i \<noteq> 0 then Some (i - 1) else None),
     ae_next = (if i \<noteq> n - 1 then Some (i + 1) else None), ae_magic = 0, ae_node = None\<rparr>"

definition empty_bucket :: mchash_bucket where
  "empty_bucket = \<lparr>bk_head_prev = Null, bk_head_next = Null, bk_count = 0,
     prefetch_nodes = replicate MCHASH_MAX_HASHBUCKET_CACHE_NODES Null\<rparr>"

text \<open>The results of the two \<^verbatim>\<open>calloc\<close> calls are given: the address of the table and whether the array
  could be allocated. The outcome is the table, or the code and the address passed to \<^verbatim>\<open>free\<close>.
  Failed assertions do not return.\<close>

datatype create_result = Created mchash_table | Create_failed int "u64 option"

definition mchash_table_create ::
  "u32 \<Rightarrow> u32 \<Rightarrow> bool \<Rightarrow> u64 option \<Rightarrow> bool \<Rightarrow> (addr \<Rightarrow> mchash_table_link) \<Rightarrow> create_result option" where
  "mchash_table_create bs mx cbk base arr_ok links =
    (if bs = 0 \<or> mx = 0 \<or> \<not> cbk then None
     else case base of None \<Rightarrow> Some (Create_failed MCHASHTBL_ERROR_NO_MEM None)
     | Some b \<Rightarrow>
       if \<not> arr_ok then Some (Create_failed MCHASHTBL_ERROR_NO_MEM (Some (cache_align b)))
       else Some (Created
         \<lparr>buckets = bs, max_nodes = mx, active_nodes = 0, passive_nodes = 0, magic_no = 1,
          free_q_prev = Some (unat mx - 1), free_q_next = Some 0,
          indirection_array = map (free_entry (unat mx)) [0..<unat mx],
          bucket_list = replicate (unat bs) empty_bucket, mt_links = links, mt_rcu = []\<rparr>))"

definition mchash_table_delete :: "mchash_table \<Rightarrow> int" where
  "mchash_table_delete t = (if active_nodes t \<noteq> 0 then MCHASHTBL_ERROR_NOT_EMPTY else MCHASHTBL_SUCCESS)"

section \<open>Bucket lists\<close>

text \<open>Reading and writing the fields of a \<^verbatim>\<open>mchash_dll_node\<close>; writing through NULL is undefined.\<close>

fun rd_next :: "dll_ref \<Rightarrow> mchash_table \<Rightarrow> dll_ref" where
  "rd_next (Link a) t = lk_next (mt_links t a)"
| "rd_next (Head k) t = (if k < length (bucket_list t) then bk_head_next (bucket_list t ! k) else Null)"
| "rd_next Null t = Null"

fun wr_next :: "dll_ref \<Rightarrow> dll_ref \<Rightarrow> mchash_table \<Rightarrow> mchash_table option" where
  "wr_next (Link a) v t = Some (t\<lparr>mt_links := (mt_links t)(a := (mt_links t a)\<lparr>lk_next := v\<rparr>)\<rparr>)"
| "wr_next (Head k) v t = (if k < length (bucket_list t)
     then Some (t\<lparr>bucket_list := (bucket_list t)[k := (bucket_list t ! k)\<lparr>bk_head_next := v\<rparr>]\<rparr>) else None)"
| "wr_next Null v t = None"

fun wr_prev :: "dll_ref \<Rightarrow> dll_ref \<Rightarrow> mchash_table \<Rightarrow> mchash_table option" where
  "wr_prev (Link a) v t = Some (t\<lparr>mt_links := (mt_links t)(a := (mt_links t a)\<lparr>lk_prev := v\<rparr>)\<rparr>)"
| "wr_prev (Head k) v t = (if k < length (bucket_list t)
     then Some (t\<lparr>bucket_list := (bucket_list t)[k := (bucket_list t ! k)\<lparr>bk_head_prev := v\<rparr>]\<rparr>) else None)"
| "wr_prev Null v t = None"

text \<open>The first nodes of a bucket, padded with NULL.\<close>

fun prefetch_walk :: "nat \<Rightarrow> dll_ref \<Rightarrow> mchash_table \<Rightarrow> dll_ref list" where
  "prefetch_walk 0 r t = []"
| "prefetch_walk (Suc m) r t = (if r = Null then replicate (Suc m) Null else r # prefetch_walk m (rd_next r t) t)"

definition mchash_update_prefetch_nodes :: "nat \<Rightarrow> mchash_table \<Rightarrow> mchash_table" where
  "mchash_update_prefetch_nodes k t = t\<lparr>bucket_list := (bucket_list t)[k := (bucket_list t ! k)
     \<lparr>prefetch_nodes := prefetch_walk MCHASH_MAX_HASHBUCKET_CACHE_NODES (bk_head_next (bucket_list t ! k)) t\<rparr>]\<rparr>"

definition add_count :: "u32 \<Rightarrow> nat \<Rightarrow> mchash_table \<Rightarrow> mchash_table" where
  "add_count c k t = t\<lparr>bucket_list := (bucket_list t)[k := (bucket_list t ! k)\<lparr>bk_count := bk_count (bucket_list t ! k) + c\<rparr>]\<rparr>"

definition mchash_insert_node_in_middle :: "nat \<Rightarrow> dll_ref \<Rightarrow> addr \<Rightarrow> dll_ref \<Rightarrow> mchash_table \<Rightarrow> mchash_table option" where
  "mchash_insert_node_in_middle k prev n next t =
    (let t1 = t\<lparr>mt_links := (mt_links t)(n := (mt_links t n)\<lparr>lk_next := next, lk_prev := prev\<rparr>)\<rparr>;
         prev' = (if prev = Null then Head k else prev);
         next' = (if next = Null then Head k else next)
     in Option.bind (wr_next prev' (Link n) t1) (\<lambda>t2. Option.bind (wr_prev next' (Link n) t2) (\<lambda>t3.
          Some (add_count 1 k (mchash_update_prefetch_nodes k t3)))))"

text \<open>Unlinking a node from its bucket, as both deletion macros do.\<close>

definition bucket_unlink :: "nat \<Rightarrow> addr \<Rightarrow> mchash_table \<Rightarrow> mchash_table option" where
  "bucket_unlink k n t =
    (let next = lk_next (mt_links t n); prev = lk_prev (mt_links t n);
         prev' = (if prev = Null then Head k else prev)
     in Option.bind (wr_next prev' next t) (\<lambda>t1.
          let next' = (if next = Null then Head k else next)
          in Option.bind (wr_prev next' prev' t1) (\<lambda>t2.
               Some (mchash_update_prefetch_nodes k (add_count (-1) k t2)))))"

section \<open>The indirection array\<close>

definition set_entry :: "nat \<Rightarrow> (array_indirect_entry \<Rightarrow> array_indirect_entry) \<Rightarrow> mchash_table \<Rightarrow> mchash_table" where
  "set_entry i f t = t\<lparr>indirection_array := (indirection_array t)[i := f (indirection_array t ! i)]\<rparr>"

text \<open>Taking the first free entry and giving it the next magic number, which is never 0.\<close>

definition take_entry :: "nat \<Rightarrow> mchash_table \<Rightarrow> mchash_table option" where
  "take_entry i t =
    (if i < length (indirection_array t) then
       let nx = ae_next (indirection_array t ! i); t1 = t\<lparr>free_q_next := nx\<rparr> in
       Option.bind
         (case nx of None \<Rightarrow> Some (t1\<lparr>free_q_prev := None\<rparr>)
          | Some j \<Rightarrow> if j < length (indirection_array t1) then Some (set_entry j (ae_prev_update (\<lambda>_. None)) t1) else None)
         (\<lambda>t2. let t3 = set_entry i (ae_magic_update (\<lambda>_. magic_no t2)) t2;
                   m = magic_no t3 + 1
               in Some (t3\<lparr>magic_no := (if m = 0 then 1 else m), active_nodes := active_nodes t3 + 1\<rparr>))
     else None)"

text \<open>Putting an entry at the end of the free queue.\<close>

definition put_entry :: "nat \<Rightarrow> mchash_table \<Rightarrow> mchash_table option" where
  "put_entry i t =
    (let t1 = set_entry i (ae_next_update (\<lambda>_. None)) t; t2 = t1\<lparr>active_nodes := active_nodes t1 - 1\<rparr> in
     case free_q_prev t2 of
       Some j \<Rightarrow> if j < length (indirection_array t2)
         then Some ((set_entry j (ae_next_update (\<lambda>_. Some i)) (set_entry i (ae_prev_update (\<lambda>_. Some j)) t2))\<lparr>free_q_prev := Some i\<rparr>)
         else None
     | None \<Rightarrow> Some ((set_entry i (ae_prev_update (\<lambda>_. None)) t2)\<lparr>free_q_prev := Some i, free_q_next := Some i\<rparr>))"

section \<open>The macros\<close>

text \<open>The result is the index and magic number, or \<^term>\<open>None\<close> when \<^verbatim>\<open>status\<close> is FALSE. The first part is
  common to the three insertions.\<close>

definition new_ref :: "u32 \<Rightarrow> addr \<Rightarrow> nat \<Rightarrow> mchash_table \<Rightarrow> mchash_table option" where
  "new_ref keys n i t = map_option (\<lambda>t1.
     (set_entry i (ae_node_update (\<lambda>_. Some n)) t1)
       \<lparr>mt_links := (mt_links t1)(n := (mt_links t1 n)\<lparr>lk_index := of_nat i\<rparr>)\<rparr>) (take_entry i t)"

definition set_key :: "u32 \<Rightarrow> addr \<Rightarrow> mchash_table \<Rightarrow> mchash_table" where
  "set_key keys n t = t\<lparr>mt_links := (mt_links t)(n := (mt_links t n)\<lparr>lk_key := keys\<rparr>)\<rparr>"

definition MCHASH_APPEND_NODE :: "u32 \<Rightarrow> addr \<Rightarrow> mchash_table \<Rightarrow> ((u32 \<times> u32) option \<times> mchash_table) option" where
  "MCHASH_APPEND_NODE keys n t =
    (case free_q_next t of None \<Rightarrow> Some (None, t)
     | Some i \<Rightarrow> Option.bind (new_ref keys n i t) (\<lambda>t1.
         if unat keys < length (bucket_list t1)
         then map_option (\<lambda>t2. (Some (of_nat i, ae_magic (indirection_array t1 ! i)), add_count 1 (unat keys) (set_key keys n t2)))
                (mchash_insert_node_in_middle (unat keys) (bk_head_prev (bucket_list t1 ! unat keys)) n Null t1)
         else None))"

definition MCHASH_INSERT_NODE_AFTER :: "addr \<Rightarrow> u32 \<Rightarrow> addr \<Rightarrow> mchash_table \<Rightarrow> ((u32 \<times> u32) option \<times> mchash_table) option" where
  "MCHASH_INSERT_NODE_AFTER node keys n t =
    (case free_q_next t of None \<Rightarrow> Some (None, t)
     | Some i \<Rightarrow> Option.bind (new_ref keys n i t) (\<lambda>t1.
         if unat keys < length (bucket_list t1)
         then map_option (\<lambda>t2. (Some (of_nat i, ae_magic (indirection_array t1 ! i)), set_key keys n t2))
                (mchash_insert_node_in_middle (unat keys) (Link node) n (lk_next (mt_links t1 node)) t1)
         else None))"

definition MCHASH_INSERT_NODE_BEFORE :: "addr \<Rightarrow> u32 \<Rightarrow> addr \<Rightarrow> mchash_table \<Rightarrow> ((u32 \<times> u32) option \<times> mchash_table) option" where
  "MCHASH_INSERT_NODE_BEFORE node keys n t =
    (case free_q_next t of None \<Rightarrow> Some (None, t)
     | Some i \<Rightarrow> Option.bind (new_ref keys n i t) (\<lambda>t1.
         if unat keys < length (bucket_list t1)
         then map_option (\<lambda>t2. (Some (of_nat i, ae_magic (indirection_array t1 ! i)), set_key keys n t2))
                (mchash_insert_node_in_middle (unat keys) (lk_prev (mt_links t1 node)) n (Link node) t1)
         else None))"

text \<open>The node behind a safe reference (possibly NULL), or \<^term>\<open>None\<close> inside when \<^verbatim>\<open>status\<close> is FALSE. The
  index is not checked.\<close>

definition MCHASH_ACCESS_NODE :: "u32 \<Rightarrow> u32 \<Rightarrow> mchash_table \<Rightarrow> ptr option option" where
  "MCHASH_ACCESS_NODE i m t =
    (if unat i < length (indirection_array t)
     then Some (if m = ae_magic (indirection_array t ! unat i) then Some (ae_node (indirection_array t ! unat i)) else None)
     else None)"

definition MCHASH_ACCESS_NODE_AND_HASHKEY :: "u32 \<Rightarrow> u32 \<Rightarrow> mchash_table \<Rightarrow> (addr \<times> u32) option option" where
  "MCHASH_ACCESS_NODE_AND_HASHKEY i m t =
    Option.bind (MCHASH_ACCESS_NODE i m t) (\<lambda>r. case r of None \<Rightarrow> Some None
      | Some None \<Rightarrow> None | Some (Some n) \<Rightarrow> Some (Some (n, lk_key (mt_links t n))))"

definition MCHASH_DELETE_NODE_BY_REF :: "u32 \<Rightarrow> u32 \<Rightarrow> mchash_table \<Rightarrow> (bool \<times> mchash_table) option" where
  "MCHASH_DELETE_NODE_BY_REF i m t =
    (if unat i < length (indirection_array t) then
       if m = ae_magic (indirection_array t ! unat i) then
         (case ae_node (indirection_array t ! unat i) of None \<Rightarrow> None
          | Some n \<Rightarrow>
             let k = unat (lk_key (mt_links t n)) in
             if k < length (bucket_list t) then
               if ae_magic (indirection_array t ! unat i) \<noteq> 0 then
                 Option.bind (bucket_unlink k n (set_entry (unat i) (ae_magic_update (\<lambda>_. 0)) t)) (\<lambda>t1.
                   map_option (Pair True) (put_entry (unat i)
                     ((set_entry (unat i) (ae_node_update (\<lambda>_. None)) t1)\<lparr>mt_rcu := mt_rcu t1 @ [n]\<rparr>)))
               else Some (False, t)
             else None)
       else Some (False, t)
     else None)"

definition MCHASH_DELETE_NODE :: "addr \<Rightarrow> mchash_table \<Rightarrow> (bool \<times> mchash_table) option" where
  "MCHASH_DELETE_NODE n t =
    (let k = unat (lk_key (mt_links t n)); i = unat (lk_index (mt_links t n)) in
     if k < length (bucket_list t) \<and> i < length (indirection_array t) then
       if ae_node (indirection_array t ! i) = Some n then
         Option.bind (bucket_unlink k n
           (set_entry i (ae_node_update (\<lambda>_. None)) (set_entry i (ae_magic_update (\<lambda>_. 0)) t))) (\<lambda>t1.
             map_option (\<lambda>t2. (True, t2\<lparr>mt_rcu := mt_rcu t2 @ [n]\<rparr>)) (put_entry i t1))
       else Some (False, t)
     else None)"

text \<open>Scanning a bucket, its first node, the scan of all buckets and the node counter of a bucket.\<close>

partial_function (option) bucket_scan_from :: "mchash_table \<Rightarrow> dll_ref \<Rightarrow> addr list option" where
  "bucket_scan_from t r = (if r = Null then Some []
     else if is_Head r then None
     else Option.bind (bucket_scan_from t (rd_next r t)) (\<lambda>ns. Some (link_node r # ns)))"

definition MCHASH_BUCKET_SCAN :: "mchash_table \<Rightarrow> nat \<Rightarrow> addr list option" where
  "MCHASH_BUCKET_SCAN t k =
    (if k < length (bucket_list t) then bucket_scan_from t (bk_head_next (bucket_list t ! k)) else None)"

text \<open>The scan of a bucket by a client that stops at the first node with a property.\<close>

partial_function (option) bucket_find :: "mchash_table \<Rightarrow> (addr \<Rightarrow> bool) \<Rightarrow> dll_ref \<Rightarrow> ptr option" where
  "bucket_find t P r = (if r = Null then Some None else if is_Head r then None
     else if P (link_node r) then Some (Some (link_node r)) else bucket_find t P (rd_next r t))"

definition find_in_bucket :: "mchash_table \<Rightarrow> (addr \<Rightarrow> bool) \<Rightarrow> nat \<Rightarrow> ptr option" where
  "find_in_bucket t P k =
    (if k < length (bucket_list t) then bucket_find t P (bk_head_next (bucket_list t ! k)) else None)"

definition MCHASH_BUCKET_GET_HEAD_NODE :: "mchash_table \<Rightarrow> nat \<Rightarrow> ptr option" where
  "MCHASH_BUCKET_GET_HEAD_NODE t k =
    (if k < length (bucket_list t) then
       (case bk_head_next (bucket_list t ! k) of Null \<Rightarrow> Some None | Link a \<Rightarrow> Some (Some a) | Head _ \<Rightarrow> None)
     else None)"

definition MCHASH_TABLE_SCAN_FROM_GIVEN_KEY :: "mchash_table \<Rightarrow> nat \<Rightarrow> addr list list option" where
  "MCHASH_TABLE_SCAN_FROM_GIVEN_KEY t k0 = those (map (MCHASH_BUCKET_SCAN t) [k0..<unat (buckets t)])"

definition MCHASH_TABLE_SCAN :: "mchash_table \<Rightarrow> addr list list option" where
  "MCHASH_TABLE_SCAN t = those (map (MCHASH_BUCKET_SCAN t) [0..<unat (buckets t)])"

definition MCHASH_BUCKET_NODE_COUNT :: "mchash_table \<Rightarrow> nat \<Rightarrow> u32 option" where
  "MCHASH_BUCKET_NODE_COUNT t k = (if k < length (bucket_list t) then Some (bk_count (bucket_list t ! k)) else None)"

section \<open>Doubly linked segments\<close>

text \<open>The links of \<open>xs\<close>: the first node's previous reference is one of \<open>P\<close>, the last one's next is \<open>e\<close>.\<close>

primrec dl :: "(addr \<Rightarrow> mchash_table_link) \<Rightarrow> dll_ref set \<Rightarrow> addr list \<Rightarrow> dll_ref \<Rightarrow> bool" where
  "dl L P [] e = True"
| "dl L P (x # xs) e = (lk_prev (L x) \<in> P \<and> lk_next (L x) = (if xs = [] then e else Link (hd xs)) \<and>
     dl L {Link x} xs e)"

definition first_ref :: "addr list \<Rightarrow> dll_ref \<Rightarrow> dll_ref" where
  "first_ref xs e = (if xs = [] then e else Link (hd xs))"

definition last_refs :: "dll_ref set \<Rightarrow> addr list \<Rightarrow> dll_ref set" where
  "last_refs P xs = (if xs = [] then P else {Link (last xs)})"

lemma refs_simps [simp]:
  "first_ref [] e = e" "first_ref (x # xs) e = Link x" "last_refs P [] = P" "last_refs P (xs @ [x]) = {Link x}"
  by (simp_all add: first_ref_def last_refs_def)

lemma dl_append: "dl L P (ys @ zs) e \<longleftrightarrow> dl L P ys (first_ref zs e) \<and> dl L (last_refs P ys) zs e"
proof (induction ys arbitrary: P)
  case (Cons y ys)
  show ?case by (auto simp: Cons.IH last_refs_def first_ref_def)
qed simp

lemma dl_cong:
  "(\<And>x. x \<in> set xs \<Longrightarrow> lk_prev (L x) = lk_prev (L' x) \<and> lk_next (L x) = lk_next (L' x)) \<Longrightarrow>
   dl L P xs e = dl L' P xs e"
  by (induction xs arbitrary: P) auto

lemma dl_frame [simp]: "n \<notin> set xs \<Longrightarrow> dl (L(n := v)) P xs e = dl L P xs e"
  by (rule dl_cong) auto

lemma dl_set_next:
  assumes "dl L P (ys @ [y]) e" "y \<notin> set ys"
  shows "dl (L(y := (L y)\<lparr>lk_next := e'\<rparr>)) P (ys @ [y]) e'"
  using assms by (simp add: dl_append first_ref_def)

lemma dl_set_prev:
  assumes "dl L P (z # zs) e" "z \<notin> set zs" "q \<in> Q"
  shows "dl (L(z := (L z)\<lparr>lk_prev := q\<rparr>)) Q (z # zs) e"
  using assms by simp

lemma dl_weaken: "dl L P xs e \<Longrightarrow> P \<subseteq> Q \<Longrightarrow> dl L Q xs e"
  by (cases xs) auto

section \<open>Invariant\<close>

definition bucket_ok :: "mchash_table \<Rightarrow> nat \<Rightarrow> addr list \<Rightarrow> bool" where
  "bucket_ok t k xs \<longleftrightarrow> bk_head_next (bucket_list t ! k) = first_ref xs Null \<and>
     bk_head_prev (bucket_list t ! k) \<in> last_refs {Null, Head k} xs \<and>
     prefetch_nodes (bucket_list t ! k) = take 10 (map Link xs @ replicate 10 Null) \<and>
     dl (mt_links t) {Null, Head k} xs Null"

definition free_ok :: "mchash_table \<Rightarrow> nat list \<Rightarrow> bool" where
  "free_ok t F \<longleftrightarrow> distinct F \<and> set F = {i. i < length (indirection_array t) \<and> ae_node (indirection_array t ! i) = None} \<and>
     lseg (\<lambda>i. ae_next (indirection_array t ! i)) (free_q_next t) F None \<and> free_q_prev t = last_ptr F"

text \<open>\<open>B k\<close> are the nodes of bucket \<open>k\<close>, in order.\<close>

definition entries_ok :: "mchash_table \<Rightarrow> (nat \<Rightarrow> addr list) \<Rightarrow> bool" where
  "entries_ok t B \<longleftrightarrow>
     (\<forall>k n. n \<in> set (B k) \<longrightarrow> k < length (bucket_list t) \<and> unat (lk_key (mt_links t n)) = k \<and>
        unat (lk_index (mt_links t n)) < length (indirection_array t) \<and>
        ae_node (indirection_array t ! unat (lk_index (mt_links t n))) = Some n) \<and>
     (\<forall>i n. i < length (indirection_array t) \<longrightarrow> ae_node (indirection_array t ! i) = Some n \<longrightarrow>
        unat (lk_index (mt_links t n)) = i \<and> n \<in> set (B (unat (lk_key (mt_links t n))))) \<and>
     (\<forall>i < length (indirection_array t). ae_magic (indirection_array t ! i) = 0 \<longleftrightarrow> ae_node (indirection_array t ! i) = None)"

definition mch_inv :: "mchash_table \<Rightarrow> (nat \<Rightarrow> addr list) \<Rightarrow> bool" where
  "mch_inv t B \<longleftrightarrow> length (bucket_list t) = unat (buckets t) \<and> length (indirection_array t) = unat (max_nodes t) \<and>
     magic_no t \<noteq> 0 \<and> (\<forall>k. distinct (B k)) \<and> (\<forall>k < length (bucket_list t). bucket_ok t k (B k)) \<and> entries_ok t B \<and>
     (\<exists>F. free_ok t F \<and> active_nodes t + of_nat (length F) = of_nat (length (indirection_array t)))"

text \<open>The safe references: the node of an index and a magic number.\<close>

definition mch_refs :: "mchash_table \<Rightarrow> u32 \<times> u32 \<Rightarrow> ptr" where
  "mch_refs t r = (if unat (fst r) < length (indirection_array t) \<and> snd r \<noteq> 0 \<and>
     ae_magic (indirection_array t ! unat (fst r)) = snd r
     then ae_node (indirection_array t ! unat (fst r)) else None)"

section \<open>Inserting into and unlinking from a bucket\<close>

definition links_ins ::
  "(addr \<Rightarrow> mchash_table_link) \<Rightarrow> addr list \<Rightarrow> dll_ref \<Rightarrow> addr \<Rightarrow> dll_ref \<Rightarrow> addr list \<Rightarrow> addr \<Rightarrow> mchash_table_link" where
  "links_ins L ys prev n next zs =
    (let L1 = L(n := (L n)\<lparr>lk_next := next, lk_prev := prev\<rparr>);
         L2 = (if ys = [] then L1 else L1(last ys := (L1 (last ys))\<lparr>lk_next := Link n\<rparr>))
     in if zs = [] then L2 else L2(hd zs := (L2 (hd zs))\<lparr>lk_prev := Link n\<rparr>))"

lemma dl_relink_last:
  assumes "dl L P ys e" "distinct ys"
  shows "dl (if ys = [] then L else L(last ys := (L (last ys))\<lparr>lk_next := e'\<rparr>)) P ys e'"
proof (cases ys rule: rev_cases)
  case (snoc ws w)
  then show ?thesis using dl_set_next[of L P ws w e e'] assms by simp
qed simp

lemma dl_relink_first:
  assumes "dl L P zs e" "distinct zs" "q \<in> Q"
  shows "dl (if zs = [] then L else L(hd zs := (L (hd zs))\<lparr>lk_prev := q\<rparr>)) Q zs e"
proof (cases zs)
  case (Cons z ws)
  then show ?thesis using dl_set_prev[of L P z ws e q Q] assms by simp
qed simp

lemma links_ins_other:
  "m \<notin> set ys \<Longrightarrow> m \<notin> set zs \<Longrightarrow> m \<noteq> n \<Longrightarrow> links_ins L ys prev n next zs m = L m"
  by (cases ys rule: rev_cases; cases zs) (auto simp: links_ins_def Let_def)

lemma links_ins_ids [simp]:
  "lk_index (links_ins L ys prev n next zs m) = lk_index (L m)"
  "lk_key (links_ins L ys prev n next zs m) = lk_key (L m)"
  by (cases "ys = []"; cases "zs = []"; simp add: links_ins_def Let_def)+

lemma dl_ins:
  assumes dl: "dl L P (ys @ zs) Null" and d: "distinct (ys @ zs)" and n: "n \<notin> set (ys @ zs)"
    and prev: "prev \<in> last_refs P ys" and "next": "next = first_ref zs Null"
  shows "dl (links_ins L ys prev n next zs) P (ys @ n # zs) Null"
proof -
  let ?L1 = "L(n := (L n)\<lparr>lk_next := next, lk_prev := prev\<rparr>)"
  let ?L2 = "if ys = [] then ?L1 else ?L1(last ys := (?L1 (last ys))\<lparr>lk_next := Link n\<rparr>)"
  let ?L = "links_ins L ys prev n next zs"
  have L: "?L = (if zs = [] then ?L2 else ?L2(hd zs := (?L2 (hd zs))\<lparr>lk_prev := Link n\<rparr>))"
    by (simp add: links_ins_def Let_def)
  have ly: "ys \<noteq> [] \<Longrightarrow> last ys \<in> set ys" and hz: "zs \<noteq> [] \<Longrightarrow> hd zs \<in> set zs" by simp_all
  have ly2: "ys \<noteq> [] \<Longrightarrow> last ys \<notin> set zs" using d by (cases ys rule: rev_cases) auto
  have hz2: "zs \<noteq> [] \<Longrightarrow> hd zs \<notin> set ys" using d by (cases zs) auto
  have "dl ?L1 P ys (first_ref zs Null)" "dl ?L1 (last_refs P ys) zs Null"
    using dl n by (simp_all add: dl_append)
  then have 1: "dl ?L2 P ys (Link n)" and 2: "dl ?L2 (last_refs P ys) zs Null"
    using dl_relink_last[of ?L1 P ys "first_ref zs Null" "Link n"] d ly2
    by (simp, cases "ys = []") (simp_all del: fun_upd_apply)
  have 3: "dl ?L P ys (Link n)" using 1 hz2 unfolding L by (cases "zs = []") (simp_all del: fun_upd_apply)
  have 4: "dl ?L {Link n} zs Null" unfolding L using dl_relink_first[OF 2, of "Link n" "{Link n}"] d by simp
  have 5: "?L n = (L n)\<lparr>lk_next := next, lk_prev := prev\<rparr>"
  proof -
    have "ys \<noteq> [] \<Longrightarrow> last ys \<noteq> n" "zs \<noteq> [] \<Longrightarrow> hd zs \<noteq> n" using n ly hz by auto
    then show ?thesis unfolding L by (cases "ys = []"; cases "zs = []") simp_all
  qed
  show ?thesis using 3 4 5 prev "next" by (simp add: dl_append first_ref_def)
qed

lemma prefetch_walk_dl:
  "dl (mt_links t) P xs Null \<Longrightarrow>
   prefetch_walk m (first_ref xs Null) t = take m (map Link xs @ replicate m Null)"
proof (induction xs arbitrary: P m)
  case Nil
  then show ?case by (cases m) auto
next
  case (Cons x xs)
  show ?case
  proof (cases m)
    case (Suc m')
    have "lk_next (mt_links t x) = first_ref xs Null" using Cons.prems by (simp add: first_ref_def)
    moreover have "take m' (map Link xs @ replicate m' Null) = take m' (map Link xs @ replicate (Suc m') Null)"
      by (simp add: take_append del: replicate.simps)
    ultimately show ?thesis using Suc Cons.IH[of "{Link x}" m'] Cons.prems by simp
  qed simp
qed

text \<open>What the two operations leave alone: everything but bucket \<open>k\<close> and the links of the nodes \<open>N\<close>, whose
  index and key stay.\<close>

definition only_bucket :: "nat \<Rightarrow> addr set \<Rightarrow> mchash_table \<Rightarrow> mchash_table \<Rightarrow> bool" where
  "only_bucket k N t t' \<longleftrightarrow> t'\<lparr>bucket_list := bucket_list t, mt_links := mt_links t\<rparr> = t \<and>
     length (bucket_list t') = length (bucket_list t) \<and>
     (\<forall>j. j \<noteq> k \<longrightarrow> bucket_list t' ! j = bucket_list t ! j) \<and>
     (\<forall>m. m \<notin> N \<longrightarrow> mt_links t' m = mt_links t m) \<and>
     (\<forall>m. lk_index (mt_links t' m) = lk_index (mt_links t m) \<and> lk_key (mt_links t' m) = lk_key (mt_links t m))"

lemma insert_middle_ok:
  assumes ok: "bucket_ok t k (ys @ zs)" and k: "k < length (bucket_list t)" and d: "distinct (ys @ zs)"
    and n: "n \<notin> set (ys @ zs)" and prev: "prev \<in> last_refs {Null, Head k} ys" and "next": "next = first_ref zs Null"
  shows "\<exists>t'. mchash_insert_node_in_middle k prev n next t = Some t' \<and> bucket_ok t' k (ys @ n # zs) \<and>
    only_bucket k (insert n (set (ys @ zs))) t t' \<and>
    bk_count (bucket_list t' ! k) = bk_count (bucket_list t ! k) + 1"
proof -
  let ?b = "bucket_list t ! k" and ?L = "links_ins (mt_links t) ys prev n next zs"
  define b where "b = ?b\<lparr>bk_head_next := (if ys = [] then Link n else bk_head_next ?b),
    bk_head_prev := (if zs = [] then Link n else bk_head_prev ?b)\<rparr>"
  define t3 where "t3 = t\<lparr>mt_links := ?L, bucket_list := (bucket_list t)[k := b]\<rparr>"
  let ?t' = "add_count 1 k (mchash_update_prefetch_nodes k t3)"
  have prev': "(if prev = Null then Head k else prev) = (if ys = [] then Head k else Link (last ys))"
    using prev by (auto simp: last_refs_def split: if_splits)
  have next': "(if next = Null then Head k else next) = (if zs = [] then Head k else Link (hd zs))"
    using "next" by (auto simp: first_ref_def)
  have swap: "t\<lparr>bucket_list := bs, mt_links := ls\<rparr> = t\<lparr>mt_links := ls, bucket_list := bs\<rparr>" for bs ls by simp
  have ins: "mchash_insert_node_in_middle k prev n next t = Some ?t'"
    unfolding mchash_insert_node_in_middle_def Let_def prev' next' t3_def b_def links_ins_def
    using k by (cases "ys = []"; cases "zs = []") (simp_all add: swap)
  have dl: "dl ?L {Null, Head k} (ys @ n # zs) Null"
    using ok by (intro dl_ins[OF _ d n prev "next"]) (simp add: bucket_ok_def)
  have hn: "bk_head_next b = first_ref (ys @ n # zs) Null" and hp: "bk_head_prev b \<in> last_refs {Null, Head k} (ys @ n # zs)"
    using ok by (auto simp: b_def bucket_ok_def first_ref_def last_refs_def split: if_splits)
  have pw: "prefetch_walk 10 (bk_head_next b) t3 = take 10 (map Link (ys @ n # zs) @ replicate 10 Null)"
    using prefetch_walk_dl[of t3 "{Null, Head k}" "ys @ n # zs" 10] dl hn by (simp add: t3_def)
  have bl: "bucket_list ?t' = (bucket_list t)[k := b\<lparr>prefetch_nodes := prefetch_walk 10 (bk_head_next b) t3, bk_count := bk_count b + 1\<rparr>]"
    using k by (simp add: add_count_def mchash_update_prefetch_nodes_def t3_def)
  have ml: "mt_links ?t' = ?L" by (simp add: add_count_def mchash_update_prefetch_nodes_def t3_def)
  have "bucket_ok ?t' k (ys @ n # zs)"
    using k hn hp dl pw unfolding bucket_ok_def bl ml by (simp del: take_append map_append)
  moreover have "only_bucket k (insert n (set (ys @ zs))) t ?t'"
    unfolding only_bucket_def bl ml
    by (auto simp: add_count_def mchash_update_prefetch_nodes_def t3_def links_ins_other)
  moreover have "bk_count (bucket_list ?t' ! k) = bk_count ?b + 1"
    using k unfolding bl by (simp add: b_def)
  ultimately show ?thesis using ins by blast
qed

definition links_del :: "(addr \<Rightarrow> mchash_table_link) \<Rightarrow> addr list \<Rightarrow> dll_ref \<Rightarrow> dll_ref \<Rightarrow> addr list \<Rightarrow> addr \<Rightarrow> mchash_table_link" where
  "links_del L ys next prev zs =
    (let L2 = (if ys = [] then L else L(last ys := (L (last ys))\<lparr>lk_next := next\<rparr>))
     in if zs = [] then L2 else L2(hd zs := (L2 (hd zs))\<lparr>lk_prev := prev\<rparr>))"

lemma links_del_other: "m \<notin> set ys \<Longrightarrow> m \<notin> set zs \<Longrightarrow> links_del L ys next prev zs m = L m"
  by (cases ys rule: rev_cases; cases zs) (auto simp: links_del_def Let_def)

lemma links_del_ids [simp]:
  "lk_index (links_del L ys next prev zs m) = lk_index (L m)"
  "lk_key (links_del L ys next prev zs m) = lk_key (L m)"
  by (cases "ys = []"; cases "zs = []"; simp add: links_del_def Let_def)+

lemma dl_del:
  assumes dl: "dl L P (ys @ n # zs) Null" and d: "distinct (ys @ n # zs)"
    and "next": "next = first_ref zs Null" and prev: "prev \<in> last_refs P ys"
  shows "dl (links_del L ys next prev zs) P (ys @ zs) Null"
proof -
  let ?L2 = "if ys = [] then L else L(last ys := (L (last ys))\<lparr>lk_next := next\<rparr>)"
  let ?L = "links_del L ys next prev zs"
  have L: "?L = (if zs = [] then ?L2 else ?L2(hd zs := (?L2 (hd zs))\<lparr>lk_prev := prev\<rparr>))"
    by (simp add: links_del_def Let_def)
  have ly2: "ys \<noteq> [] \<Longrightarrow> last ys \<notin> set zs" using d by (cases ys rule: rev_cases) auto
  have hz2: "zs \<noteq> [] \<Longrightarrow> hd zs \<notin> set ys" using d by (cases zs) auto
  have "dl L P ys (Link n)" "dl L {Link n} zs Null" using dl by (simp_all add: dl_append)
  then have 1: "dl ?L2 P ys next" and 2: "dl ?L2 {Link n} zs Null"
    using dl_relink_last[of L P ys "Link n" "next"] d ly2
    by (simp, cases "ys = []") (simp_all del: fun_upd_apply)
  have 3: "dl ?L P ys next" using 1 hz2 unfolding L by (cases "zs = []") (simp_all del: fun_upd_apply)
  have 4: "dl ?L (last_refs P ys) zs Null" unfolding L using dl_relink_first[OF 2, of prev] d prev by simp
  show ?thesis using 3 4 "next" by (simp add: dl_append)
qed

lemma unlink_ok:
  assumes ok: "bucket_ok t k (ys @ n # zs)" and k: "k < length (bucket_list t)" and d: "distinct (ys @ n # zs)"
  shows "\<exists>t'. bucket_unlink k n t = Some t' \<and> bucket_ok t' k (ys @ zs) \<and>
    only_bucket k (set (ys @ zs)) t t' \<and>
    bk_count (bucket_list t' ! k) = bk_count (bucket_list t ! k) - 1"
proof -
  let ?b = "bucket_list t ! k"
  define prev where "prev = (if lk_prev (mt_links t n) = Null then Head k else lk_prev (mt_links t n))"
  define nx where "nx = lk_next (mt_links t n)"
  let ?L = "links_del (mt_links t) ys nx prev zs"
  have dl0: "dl (mt_links t) {Null, Head k} (ys @ n # zs) Null" using ok by (simp add: bucket_ok_def)
  have pn: "lk_prev (mt_links t n) \<in> last_refs {Null, Head k} ys" and nn: "nx = first_ref zs Null"
    using dl0 by (auto simp: dl_append nx_def first_ref_def)
  have prev': "prev = (if ys = [] then Head k else Link (last ys))"
    using pn by (auto simp: last_refs_def prev_def split: if_splits)
  have prev_in: "prev \<in> last_refs {Null, Head k} ys" by (simp add: prev' last_refs_def)
  have next': "(if nx = Null then Head k else nx) = (if zs = [] then Head k else Link (hd zs))"
    using nn by (auto simp: first_ref_def)
  define b where "b = ?b\<lparr>bk_head_next := (if ys = [] then nx else bk_head_next ?b),
    bk_head_prev := (if zs = [] then prev else bk_head_prev ?b)\<rparr>"
  define t3 where "t3 = t\<lparr>mt_links := ?L, bucket_list := (bucket_list t)[k := b]\<rparr>"
  let ?t' = "mchash_update_prefetch_nodes k (add_count (-1) k t3)"
  have swap: "t\<lparr>bucket_list := bs, mt_links := ls\<rparr> = t\<lparr>mt_links := ls, bucket_list := bs\<rparr>" for bs ls by simp
  have unl: "bucket_unlink k n t = Some ?t'"
    unfolding bucket_unlink_def Let_def prev_def[symmetric] nx_def[symmetric] next' t3_def b_def links_del_def
    using k by (cases "ys = []"; cases "zs = []") (simp_all add: swap prev')
  have dl: "dl ?L {Null, Head k} (ys @ zs) Null" by (rule dl_del[OF dl0 d nn prev_in])
  have hn: "bk_head_next b = first_ref (ys @ zs) Null" and hp: "bk_head_prev b \<in> last_refs {Null, Head k} (ys @ zs)"
    using ok prev_in nn by (auto simp: b_def bucket_ok_def first_ref_def last_refs_def prev' split: if_splits)
  have pw: "prefetch_walk 10 (bk_head_next b) (add_count (-1) k t3) = take 10 (map Link (ys @ zs) @ replicate 10 Null)"
    using prefetch_walk_dl[of "add_count (-1) k t3" "{Null, Head k}" "ys @ zs" 10] dl hn by (simp add: t3_def add_count_def)
  have bl: "bucket_list ?t' = (bucket_list t)[k := b\<lparr>bk_count := bk_count b + -1,
      prefetch_nodes := prefetch_walk 10 (bk_head_next b) (add_count (-1) k t3)\<rparr>]"
    using k by (simp add: add_count_def mchash_update_prefetch_nodes_def t3_def)
  have ml: "mt_links ?t' = ?L" by (simp add: add_count_def mchash_update_prefetch_nodes_def t3_def)
  have "bucket_ok ?t' k (ys @ zs)"
    using k hn hp dl pw unfolding bucket_ok_def bl ml by (simp del: take_append map_append)
  moreover have "only_bucket k (set (ys @ zs)) t ?t'"
    unfolding only_bucket_def bl ml
    by (auto simp: add_count_def mchash_update_prefetch_nodes_def t3_def links_del_other)
  moreover have "bk_count (bucket_list ?t' ! k) = bk_count ?b - 1"
    using k unfolding bl by (simp add: b_def)
  ultimately show ?thesis using unl by blast
qed

section \<open>Taking and returning entries\<close>

abbreviation arr :: "mchash_table \<Rightarrow> array_indirect_entry list" where "arr \<equiv> indirection_array"
abbreviation fnext :: "mchash_table \<Rightarrow> links" where "fnext t \<equiv> \<lambda>i. ae_next (arr t ! i)"

definition free_chain :: "mchash_table \<Rightarrow> nat list \<Rightarrow> bool" where
  "free_chain t F \<longleftrightarrow> lseg (fnext t) (free_q_next t) F None \<and> free_q_prev t = last_ptr F"

text \<open>Only the array, the free queue and its counters change.\<close>

definition only_array :: "mchash_table \<Rightarrow> mchash_table \<Rightarrow> bool" where
  "only_array t t' \<longleftrightarrow> bucket_list t' = bucket_list t \<and> mt_links t' = mt_links t \<and> mt_rcu t' = mt_rcu t \<and>
     buckets t' = buckets t \<and> max_nodes t' = max_nodes t \<and> length (arr t') = length (arr t) \<and>
     (\<forall>j. ae_node (arr t' ! j) = ae_node (arr t ! j))"

definition next_magic :: "u32 \<Rightarrow> u32" where "next_magic m = (if m + 1 = 0 then 1 else m + 1)"

lemma next_magic_nz [simp]: "next_magic m \<noteq> 0" by (simp add: next_magic_def)

lemma set_entry_simps [simp]:
  "length (arr (set_entry i f t)) = length (arr t)"
  "bucket_list (set_entry i f t) = bucket_list t" "mt_links (set_entry i f t) = mt_links t"
  "mt_rcu (set_entry i f t) = mt_rcu t" "buckets (set_entry i f t) = buckets t"
  "max_nodes (set_entry i f t) = max_nodes t" "magic_no (set_entry i f t) = magic_no t"
  "active_nodes (set_entry i f t) = active_nodes t" "free_q_prev (set_entry i f t) = free_q_prev t"
  "free_q_next (set_entry i f t) = free_q_next t"
  by (simp_all add: set_entry_def)

lemma arr_set_entry: "arr (set_entry i f t) ! j = (if i = j \<and> j < length (arr t) then f (arr t ! j) else arr t ! j)"
  by (cases "i < length (arr t)") (auto simp: set_entry_def list_update_beyond)

lemma take_entry_ok:
  assumes fc: "free_chain t (i # F)" and i: "\<forall>j\<in>set (i # F). j < length (arr t)"
  shows "\<exists>t'. take_entry i t = Some t' \<and> only_array t t' \<and> free_chain t' F \<and>
    (\<forall>j. ae_magic (arr t' ! j) = (if j = i then magic_no t else ae_magic (arr t ! j))) \<and>
    active_nodes t' = active_nodes t + 1 \<and> magic_no t' = next_magic (magic_no t)"
proof -
  let ?t1 = "t\<lparr>free_q_next := ae_next (arr t ! i)\<rparr>"
  define t2 where "t2 = (case F of [] \<Rightarrow> ?t1\<lparr>free_q_prev := None\<rparr> | j # _ \<Rightarrow> set_entry j (ae_prev_update (\<lambda>_. None)) ?t1)"
  let ?t3 = "set_entry i (ae_magic_update (\<lambda>_. magic_no t2)) t2"
  let ?t' = "?t3\<lparr>magic_no := next_magic (magic_no ?t3), active_nodes := active_nodes ?t3 + 1\<rparr>"
  have nx: "ae_next (arr t ! i) = (case F of [] \<Rightarrow> None | j # _ \<Rightarrow> Some j)"
    using fc by (auto simp: free_chain_def dest: lseg_start)
  have te: "take_entry i t = Some ?t'"
    using i nx by (cases F) (simp_all add: take_entry_def Let_def t2_def next_magic_def)
  have f2: "fnext t2 = fnext t" "free_q_next t2 = ae_next (arr t ! i)" "free_q_prev t2 = (if F = [] then None else free_q_prev t)"
    "\<And>j. ae_magic (arr t2 ! j) = ae_magic (arr t ! j)" "magic_no t2 = magic_no t" "active_nodes t2 = active_nodes t"
    by (cases F; auto simp: t2_def arr_set_entry)+
  have "lseg (fnext t) (ae_next (arr t ! i)) F None" "last_ptr (i # F) = free_q_prev t"
    using fc by (auto simp: free_chain_def)
  moreover have "fnext ?t' = fnext t"
    using f2(1)[THEN fun_cong] by (auto simp: fun_eq_iff arr_set_entry)
  ultimately have "free_chain ?t' F"
    using f2(2,3) by (cases F rule: rev_cases) (auto simp: free_chain_def last_ptr_append)
  moreover have "only_array t ?t'"
    by (cases F) (auto simp: only_array_def t2_def arr_set_entry)
  moreover have "ae_magic (arr ?t' ! j) = (if j = i then magic_no t else ae_magic (arr t ! j))" for j
    using i f2(4,5) by (cases F) (auto simp: arr_set_entry t2_def)
  ultimately show ?thesis using te f2(5,6) by auto
qed

lemma put_entry_ok:
  assumes fc: "free_chain t F" and d: "distinct F" "i \<notin> set F" and i: "\<forall>j\<in>set (i # F). j < length (arr t)"
  shows "\<exists>t'. put_entry i t = Some t' \<and> only_array t t' \<and> free_chain t' (F @ [i]) \<and>
    (\<forall>j. ae_magic (arr t' ! j) = ae_magic (arr t ! j)) \<and>
    active_nodes t' = active_nodes t - 1 \<and> magic_no t' = magic_no t"
proof (cases F rule: rev_cases)
  case Nil
  then have "free_q_prev t = None" using fc by (simp add: free_chain_def)
  then show ?thesis using i Nil
    by (auto simp: put_entry_def Let_def free_chain_def only_array_def arr_set_entry)
next
  case (snoc G j)
  have jp: "free_q_prev t = Some j" using fc snoc by (simp add: free_chain_def)
  have ji: "j \<noteq> i" "j < length (arr t)" "i < length (arr t)" using d i snoc by auto
  let ?t2 = "(set_entry i (ae_next_update (\<lambda>_. None)) t)\<lparr>active_nodes := active_nodes t - 1\<rparr>"
  let ?t' = "(set_entry j (ae_next_update (\<lambda>_. Some i)) (set_entry i (ae_prev_update (\<lambda>_. Some j)) ?t2))\<lparr>free_q_prev := Some i\<rparr>"
  have pe: "put_entry i t = Some ?t'" using jp ji by (simp add: put_entry_def Let_def)
  have fn: "fnext ?t' = (fnext t)(i := None, j := Some i)"
    using ji by (auto simp: arr_set_entry fun_eq_iff)
  have "lseg (fnext t) (free_q_next t) (G @ [j]) None" using fc snoc by (simp add: free_chain_def)
  then have "lseg ((fnext t)(i := None, j := Some i)) (free_q_next t) ((G @ [j]) @ [i]) None"
    using d snoc ji(1) by (simp add: lseg_append fun_upd_twist)
  then have "free_chain ?t' (F @ [i])" unfolding free_chain_def fn using snoc by (simp add: last_ptr_append)
  then show ?thesis using pe by (auto simp: only_array_def arr_set_entry)
qed

section \<open>Insertion\<close>

lemma free_ok_iff: "free_ok t F \<longleftrightarrow> distinct F \<and>
    set F = {i. i < length (arr t) \<and> ae_node (arr t ! i) = None} \<and> free_chain t F"
  by (simp add: free_ok_def free_chain_def)

lemma bucket_ok_cong:
  assumes "bucket_list t' ! k = bucket_list t ! k"
    "\<And>x. x \<in> set xs \<Longrightarrow> lk_prev (mt_links t' x) = lk_prev (mt_links t x) \<and> lk_next (mt_links t' x) = lk_next (mt_links t x)"
  shows "bucket_ok t' k xs = bucket_ok t k xs"
  using dl_cong[of xs "mt_links t'" "mt_links t"] assms by (simp add: bucket_ok_def)

lemma add_count_simps [simp]:
  "arr (add_count c k t) = arr t" "mt_links (add_count c k t) = mt_links t" "mt_rcu (add_count c k t) = mt_rcu t"
  "length (bucket_list (add_count c k t)) = length (bucket_list t)" "magic_no (add_count c k t) = magic_no t"
  "buckets (add_count c k t) = buckets t" "max_nodes (add_count c k t) = max_nodes t"
  "active_nodes (add_count c k t) = active_nodes t" "free_q_next (add_count c k t) = free_q_next t"
  "free_q_prev (add_count c k t) = free_q_prev t"
  by (simp_all add: add_count_def)

lemma add_count_bucket:
  "bk_head_prev (bucket_list (add_count c k t) ! j) = bk_head_prev (bucket_list t ! j)"
  "bk_head_next (bucket_list (add_count c k t) ! j) = bk_head_next (bucket_list t ! j)"
  "prefetch_nodes (bucket_list (add_count c k t) ! j) = prefetch_nodes (bucket_list t ! j)"
  by (cases "k < length (bucket_list t)"; cases "j = k"; simp add: add_count_def list_update_beyond)+

lemma add_count_inv [simp]:
  "mch_inv (add_count c k t) B = mch_inv t B" "mch_refs (add_count c k t) = mch_refs t"
proof -
  have "bucket_ok (add_count c k t) j xs = bucket_ok t j xs" for j xs
    by (simp add: bucket_ok_def add_count_bucket)
  then show "mch_inv (add_count c k t) B = mch_inv t B"
    by (simp add: mch_inv_def entries_ok_def free_ok_def)
  show "mch_refs (add_count c k t) = mch_refs t" by (simp add: mch_refs_def fun_eq_iff)
qed

lemma mch_inv_index:
  assumes "mch_inv t B" "i < length (arr t)" shows "unat (of_nat i :: u32) = i"
  using assms unat_u32_less[of "max_nodes t"] by (intro unat_of_nat_u32) (simp add: mch_inv_def)

lemma mch_inv_disjoint:
  assumes "mch_inv t B" "n \<in> set (B j)" "n \<in> set (B k)" shows "j = k"
proof -
  have "\<And>k. n \<in> set (B k) \<Longrightarrow> unat (lk_key (mt_links t n)) = k"
    using assms(1) by (simp add: mch_inv_def entries_ok_def)
  then show ?thesis using assms(2,3) by metis
qed

lemma only_bucket_fields:
  assumes "only_bucket k N t t'"
  shows "arr t' = arr t" "free_q_next t' = free_q_next t" "free_q_prev t' = free_q_prev t" "magic_no t' = magic_no t"
    "active_nodes t' = active_nodes t" "buckets t' = buckets t" "max_nodes t' = max_nodes t" "mt_rcu t' = mt_rcu t"
proof -
  have h: "t'\<lparr>bucket_list := bucket_list t, mt_links := mt_links t\<rparr> = t" using assms by (simp add: only_bucket_def)
  show "arr t' = arr t" using arg_cong[OF h, of arr] by simp
  show "free_q_next t' = free_q_next t" using arg_cong[OF h, of free_q_next] by simp
  show "free_q_prev t' = free_q_prev t" using arg_cong[OF h, of free_q_prev] by simp
  show "magic_no t' = magic_no t" using arg_cong[OF h, of magic_no] by simp
  show "active_nodes t' = active_nodes t" using arg_cong[OF h, of active_nodes] by simp
  show "buckets t' = buckets t" using arg_cong[OF h, of buckets] by simp
  show "max_nodes t' = max_nodes t" using arg_cong[OF h, of max_nodes] by simp
  show "mt_rcu t' = mt_rcu t" using arg_cong[OF h, of mt_rcu] by simp
qed

lemma free_ok_transfer:
  assumes "free_chain t F" "distinct F" "arr t' = arr t" "free_q_next t' = free_q_next t" "free_q_prev t' = free_q_prev t"
    "set F = {i. i < length (arr t) \<and> ae_node (arr t ! i) = None}"
  shows "free_ok t' F"
  using assms by (simp add: free_ok_iff free_chain_def)

lemma new_ref_insert:
  assumes inv: "mch_inv t B" and k: "unat keys < length (bucket_list t)" and B: "B (unat keys) = ys @ zs"
    and n: "\<forall>j. n \<notin> set (B j)" and i: "free_q_next t = Some i"
    and prev: "prev \<in> last_refs {Null, Head (unat keys)} ys" and "next": "next = first_ref zs Null"
  shows "\<exists>t1 t2. new_ref keys n i t = Some t1 \<and> bucket_list t1 = bucket_list t \<and> ae_magic (arr t1 ! i) = magic_no t \<and>
    (\<forall>m. m \<noteq> n \<longrightarrow> mt_links t1 m = mt_links t m) \<and>
    mchash_insert_node_in_middle (unat keys) prev n next t1 = Some t2 \<and>
    mch_inv (set_key keys n t2) (B(unat keys := ys @ n # zs)) \<and> i < length (arr t) \<and>
    mch_refs t (of_nat i, magic_no t) = None \<and>
    mch_refs (set_key keys n t2) = (mch_refs t)((of_nat i, magic_no t) := Some n) \<and>
    magic_no (set_key keys n t2) = next_magic (magic_no t) \<and> mt_rcu (set_key keys n t2) = mt_rcu t \<and>
    bk_count (bucket_list t2 ! unat keys) = bk_count (bucket_list t ! unat keys) + 1 \<and>
    buckets t2 = buckets t \<and> max_nodes t2 = max_nodes t"
proof -
  let ?k = "unat keys"
  obtain F0 where F0: "free_ok t F0" "active_nodes t + of_nat (length F0) = of_nat (length (arr t))"
    using inv by (auto simp: mch_inv_def)
  then obtain F where F: "F0 = i # F" using i lseg_start[of _ "free_q_next t" F0] by (cases F0) (auto simp: free_ok_def)
  have dF: "distinct (i # F)" and sF: "set (i # F) = {i. i < length (arr t) \<and> ae_node (arr t ! i) = None}"
    and fc: "free_chain t (i # F)" using F0(1) F by (simp_all add: free_ok_iff)
  have "i \<in> set (i # F)" by simp
  then have il: "i < length (arr t)" and inone: "ae_node (arr t ! i) = None" unfolding sF by auto
  have "\<forall>j\<in>set (i # F). j < length (arr t)" unfolding sF by blast
  from take_entry_ok[OF fc this] obtain t0 where t0: "take_entry i t = Some t0" "only_array t t0" "free_chain t0 F"
    "\<forall>j. ae_magic (arr t0 ! j) = (if j = i then magic_no t else ae_magic (arr t ! j))"
    "active_nodes t0 = active_nodes t + 1" "magic_no t0 = next_magic (magic_no t)" by blast
  note oa = t0(2)[unfolded only_array_def]
  define t1 where "t1 = (set_entry i (ae_node_update (\<lambda>_. Some n)) t0)\<lparr>mt_links := (mt_links t0)(n := (mt_links t0 n)\<lparr>lk_index := of_nat i\<rparr>)\<rparr>"
  have nr: "new_ref keys n i t = Some t1" using t0(1) by (simp add: new_ref_def t1_def)
  have a1: "length (arr t1) = length (arr t)" "\<And>j. ae_node (arr t1 ! j) = (if j = i then Some n else ae_node (arr t ! j))"
    "\<And>j. ae_magic (arr t1 ! j) = (if j = i then magic_no t else ae_magic (arr t ! j))" "fnext t1 = fnext t0"
    using oa il t0(4) by (auto simp: t1_def arr_set_entry fun_eq_iff)
  have l1: "mt_links t1 = (mt_links t)(n := (mt_links t n)\<lparr>lk_index := of_nat i\<rparr>)" "bucket_list t1 = bucket_list t"
    using oa by (simp_all add: t1_def)
  have nB: "n \<notin> set (ys @ zs)" using n B by metis
  have dB: "distinct (ys @ zs)" using inv B unfolding mch_inv_def by metis
  have bk: "bucket_ok t ?k (ys @ zs)" using inv k B unfolding mch_inv_def by metis
  have bk1: "bucket_ok t1 ?k (ys @ zs)"
    using bk bucket_ok_cong[of t1 ?k t "ys @ zs"] l1 nB by (metis fun_upd_other)
  have k1: "?k < length (bucket_list t1)" using k l1 by simp
  obtain t2 where t2: "mchash_insert_node_in_middle ?k prev n next t1 = Some t2" "bucket_ok t2 ?k (ys @ n # zs)"
    "only_bucket ?k (insert n (set (ys @ zs))) t1 t2"
    "bk_count (bucket_list t2 ! ?k) = bk_count (bucket_list t1 ! ?k) + 1"
    using insert_middle_ok[OF bk1 k1 dB nB prev "next"] by blast
  note ob = t2(3)[unfolded only_bucket_def]
  note f2 = only_bucket_fields[OF t2(3)]
  let ?t4 = "set_key keys n t2" and ?B = "B(?k := ys @ n # zs)"
  have f4: "arr ?t4 = arr t1" "free_q_next ?t4 = free_q_next t1" "free_q_prev ?t4 = free_q_prev t1"
    "magic_no ?t4 = magic_no t1" "active_nodes ?t4 = active_nodes t1" "buckets ?t4 = buckets t1"
    "max_nodes ?t4 = max_nodes t1" "mt_rcu ?t4 = mt_rcu t1" "bucket_list ?t4 = bucket_list t2"
    using f2 by (simp_all add: set_key_def)
  have f1: "magic_no t1 = next_magic (magic_no t)" "active_nodes t1 = active_nodes t + 1" "buckets t1 = buckets t"
    "max_nodes t1 = max_nodes t" "mt_rcu t1 = mt_rcu t" "free_q_next t1 = free_q_next t0" "free_q_prev t1 = free_q_prev t0"
    using oa t0(5,6) by (simp_all add: t1_def)
  have L4: "lk_prev (mt_links ?t4 m) = lk_prev (mt_links t2 m)" "lk_next (mt_links ?t4 m) = lk_next (mt_links t2 m)"
    "lk_key (mt_links ?t4 m) = (if m = n then keys else lk_key (mt_links t m))"
    "lk_index (mt_links ?t4 m) = (if m = n then of_nat i else lk_index (mt_links t m))" for m
    using ob l1(1) by (auto simp: set_key_def)
  have len: "length (bucket_list ?t4) = length (bucket_list t)" using ob l1(2) f4(9) by simp
  have ok: "bucket_ok ?t4 j (?B j)" if j: "j < length (bucket_list t)" for j
  proof (cases "j = ?k")
    case True
    have "bucket_ok ?t4 ?k (ys @ n # zs) = bucket_ok t2 ?k (ys @ n # zs)"
      by (rule bucket_ok_cong) (simp_all add: f4(9) L4(1,2))
    then show ?thesis using True t2(2) by simp
  next
    case False
    have "bucket_ok ?t4 j (B j) = bucket_ok t j (B j)"
    proof (rule bucket_ok_cong)
      show "bucket_list ?t4 ! j = bucket_list t ! j" using ob False l1(2) f4(9) by simp
      fix x assume x: "x \<in> set (B j)"
      have "x \<notin> insert n (set (ys @ zs))" using x n mch_inv_disjoint[OF inv x, of ?k] False B by (metis insertE)
      then show "lk_prev (mt_links ?t4 x) = lk_prev (mt_links t x) \<and> lk_next (mt_links ?t4 x) = lk_next (mt_links t x)"
        using ob l1(1) L4(1,2) by simp
    qed
    then show ?thesis using inv j False by (simp add: mch_inv_def)
  qed
  have ent: "entries_ok t B" using inv by (simp add: mch_inv_def)
  have iu: "unat (of_nat i :: u32) = i" by (rule mch_inv_index[OF inv il])
  have mB: "m \<in> set (?B j) \<longleftrightarrow> m \<in> set (B j) \<or> (m = n \<and> j = ?k)" for m j using B by auto
  have "entries_ok ?t4 ?B"
    unfolding entries_ok_def f4(1) a1(1) a1(2) a1(3) L4(3,4) len
  proof (intro conjI allI impI)
    fix j m assume m: "m \<in> set (?B j)"
    show "j < length (bucket_list t)" "unat (if m = n then keys else lk_key (mt_links t m)) = j"
      "unat (if m = n then of_nat i else lk_index (mt_links t m)) < length (arr t)"
      using m n k il iu ent unfolding mB entries_ok_def by auto
    show "(if unat (if m = n then of_nat i else lk_index (mt_links t m)) = i then Some n
        else ae_node (arr t ! unat (if m = n then of_nat i else lk_index (mt_links t m)))) = Some m"
      using m n iu ent inone unfolding mB entries_ok_def by fastforce
  next
    fix j m assume j: "j < length (arr t)" "(if j = i then Some n else ae_node (arr t ! j)) = Some m"
    have "m \<noteq> n" if "j \<noteq> i" using j that n ent unfolding entries_ok_def by fastforce
    then show "unat (if m = n then of_nat i else lk_index (mt_links t m)) = j"
      "m \<in> set (?B (unat (if m = n then keys else lk_key (mt_links t m))))"
      using j iu ent unfolding mB entries_ok_def by (auto split: if_splits)
  next
    fix j assume "j < length (arr t)"
    then show "((if j = i then magic_no t else ae_magic (arr t ! j)) = 0) = ((if j = i then Some n else ae_node (arr t ! j)) = None)"
      using ent inv unfolding entries_ok_def mch_inv_def by auto
  qed
  moreover have "free_ok ?t4 F"
  proof (rule free_ok_transfer[of t1])
    show "free_chain t1 F" using t0(3) f1(6,7) a1(4) by (simp add: free_chain_def)
    show "set F = {j. j < length (arr t1) \<and> ae_node (arr t1 ! j) = None}"
      using sF dF unfolding a1(1,2) by auto
  qed (use dF f4 in simp_all)
  moreover have "active_nodes ?t4 + of_nat (length F) = of_nat (length (arr ?t4))"
    using F0(2) F f4(1,5) f1(2) a1(1) by (simp add: algebra_simps)
  moreover have "distinct (?B j)" for j using inv dB nB by (simp add: mch_inv_def)
  ultimately have inv4: "mch_inv ?t4 ?B"
    using inv ok unfolding mch_inv_def f4(1,4,6,7) f1(1,3,4) a1(1) len by (simp, blast)
  have refs: "mch_refs ?t4 = (mch_refs t)((of_nat i, magic_no t) := Some n)"
  proof
    fix r :: "u32 \<times> u32" obtain a m where r: "r = (a, m)" by (cases r)
    show "mch_refs ?t4 r = ((mch_refs t)((of_nat i, magic_no t) := Some n)) r"
    proof (cases "unat a = i")
      case True
      then have "a = of_nat i" using iu by (metis word_unat_eq_iff)
      then show ?thesis using il inone iu inv unfolding mch_refs_def f4(1) a1 r
        by (auto simp: mch_inv_def)
    next
      case False
      then have "a \<noteq> of_nat i" using iu by auto
      then show ?thesis using False unfolding mch_refs_def f4(1) a1 r by simp
    qed
  qed
  have "mch_refs t (of_nat i, magic_no t) = None" using inone iu by (simp add: mch_refs_def)
  moreover have "ae_magic (arr t1 ! i) = magic_no t" using a1(3) by simp
  moreover have "\<forall>m. m \<noteq> n \<longrightarrow> mt_links t1 m = mt_links t m" using l1(1) by simp
  ultimately show ?thesis
    using nr l1(2) t2(1,4) inv4 il refs f4(4,8) f1(1,3,4,5) f2(6,7) by metis
qed

section \<open>Deletion\<close>

lemma mch_inv_rcu [simp]: "mch_inv (t\<lparr>mt_rcu := r\<rparr>) B = mch_inv t B" "mch_refs (t\<lparr>mt_rcu := r\<rparr>) = mch_refs t"
proof -
  have "bucket_ok (t\<lparr>mt_rcu := r\<rparr>) k xs = bucket_ok t k xs" for k xs by (simp add: bucket_ok_def)
  then show "mch_inv (t\<lparr>mt_rcu := r\<rparr>) B = mch_inv t B" by (simp add: mch_inv_def entries_ok_def free_ok_def)
  show "mch_refs (t\<lparr>mt_rcu := r\<rparr>) = mch_refs t" by (simp add: mch_refs_def fun_eq_iff)
qed

lemma put_unlinked:
  assumes inv: "mch_inv t B" and B: "B k = ys @ n # zs" and i: "i = unat (lk_index (mt_links t n))"
    and ob: "length (bucket_list u) = length (bucket_list t)" "\<forall>j. j \<noteq> k \<longrightarrow> bucket_list u ! j = bucket_list t ! j"
      "\<forall>m. m \<notin> set (ys @ zs) \<longrightarrow> mt_links u m = mt_links t m"
      "\<forall>m. lk_index (mt_links u m) = lk_index (mt_links t m) \<and> lk_key (mt_links u m) = lk_key (mt_links t m)"
    and bk: "bucket_ok u k (ys @ zs)"
    and a: "length (arr u) = length (arr t)" "\<forall>j. ae_node (arr u ! j) = (if j = i then None else ae_node (arr t ! j))"
      "\<forall>j. ae_magic (arr u ! j) = (if j = i then 0 else ae_magic (arr t ! j))" "fnext u = fnext t"
    and f: "free_q_next u = free_q_next t" "free_q_prev u = free_q_prev t" "magic_no u = magic_no t"
      "active_nodes u = active_nodes t" "buckets u = buckets t" "max_nodes u = max_nodes t"
  shows "\<exists>t3. put_entry i u = Some t3 \<and> mch_inv t3 (B(k := ys @ zs)) \<and>
    mch_refs t3 = (mch_refs t)((lk_index (mt_links t n), ae_magic (arr t ! i)) := None) \<and>
    mt_rcu t3 = mt_rcu u \<and> magic_no t3 = magic_no t \<and> bucket_list t3 = bucket_list u \<and>
    buckets t3 = buckets t \<and> max_nodes t3 = max_nodes t"
proof -
  have ent: "entries_ok t B" using inv by (simp add: mch_inv_def)
  have nk: "n \<in> set (B k)" using B by simp
  have il: "i < length (arr t)" and inode: "ae_node (arr t ! i) = Some n"
    using ent nk unfolding entries_ok_def i by blast+
  obtain F where F: "free_ok t F" "active_nodes t + of_nat (length F) = of_nat (length (arr t))"
    using inv by (auto simp: mch_inv_def)
  have dF: "distinct F" and sF: "set F = {i. i < length (arr t) \<and> ae_node (arr t ! i) = None}"
    and fc: "free_chain t F" using F(1) by (simp_all add: free_ok_iff)
  have fcu: "free_chain u F" using fc a(4) f(1,2) by (simp add: free_chain_def)
  have iF: "i \<notin> set F" using inode unfolding sF by simp
  have "\<forall>j\<in>set (i # F). j < length (arr u)" using il a(1) sF by auto
  from put_entry_ok[OF fcu dF iF this] obtain t3 where t3: "put_entry i u = Some t3" "only_array u t3"
    "free_chain t3 (F @ [i])" "\<forall>j. ae_magic (arr t3 ! j) = ae_magic (arr u ! j)"
    "active_nodes t3 = active_nodes u - 1" "magic_no t3 = magic_no u" by blast
  note oa = t3(2)[unfolded only_array_def]
  let ?B = "B(k := ys @ zs)"
  have dB: "distinct (ys @ n # zs)" using inv B unfolding mch_inv_def by metis
  have mB: "m \<in> set (?B j) \<longleftrightarrow> m \<in> set (B j) \<and> m \<noteq> n" for m j
  proof (cases "j = k")
    case False
    then have "n \<notin> set (B j)" using mch_inv_disjoint[OF inv nk, of j] by blast
    then show ?thesis using False by auto
  qed (use B dB in auto)
  have ok: "bucket_ok t3 j (?B j)" if j: "j < length (bucket_list t)" for j
  proof (cases "j = k")
    case True
    have "bucket_ok t3 k (ys @ zs) = bucket_ok u k (ys @ zs)" by (rule bucket_ok_cong) (simp_all add: oa)
    then show ?thesis using True bk by simp
  next
    case False
    have "bucket_ok t3 j (B j) = bucket_ok t j (B j)"
    proof (rule bucket_ok_cong)
      show "bucket_list t3 ! j = bucket_list t ! j" using ob(2) False oa by simp
      fix x assume x: "x \<in> set (B j)"
      have "x \<notin> set (ys @ zs)" using mch_inv_disjoint[OF inv x, of k] False B by auto
      then show "lk_prev (mt_links t3 x) = lk_prev (mt_links t x) \<and> lk_next (mt_links t3 x) = lk_next (mt_links t x)"
        using ob(3) oa by simp
    qed
    then show ?thesis using inv j False by (simp add: mch_inv_def)
  qed
  have nd: "ae_node (arr t3 ! j) = (if j = i then None else ae_node (arr t ! j))"
    "ae_magic (arr t3 ! j) = (if j = i then 0 else ae_magic (arr t ! j))"
    "lk_index (mt_links t3 m) = lk_index (mt_links t m)" "lk_key (mt_links t3 m) = lk_key (mt_links t m)" for j m
    using oa a(2,3) t3(4) ob(4) by simp_all
  have len3: "length (arr t3) = length (arr t)" "length (bucket_list t3) = length (bucket_list t)"
    using oa a(1) ob(1) by simp_all
  have idx_inj: "unat (lk_index (mt_links t m)) \<noteq> i" if "m \<in> set (B j)" "m \<noteq> n" for m j
  proof -
    have "ae_node (arr t ! unat (lk_index (mt_links t m))) = Some m"
      using ent that(1) unfolding entries_ok_def by blast
    then show ?thesis using inode that(2) by auto
  qed
  have e1: "entries_ok t3 ?B"
    unfolding entries_ok_def nd len3
  proof (intro conjI allI impI)
    fix j m assume "m \<in> set (?B j)"
    then have m: "m \<in> set (B j)" "m \<noteq> n" unfolding mB by simp_all
    note e = ent[unfolded entries_ok_def, THEN conjunct1, rule_format, OF m(1)]
    show "j < length (bucket_list t)" "unat (lk_key (mt_links t m)) = j"
      "unat (lk_index (mt_links t m)) < length (arr t)"
      "(if unat (lk_index (mt_links t m)) = i then None else ae_node (arr t ! unat (lk_index (mt_links t m)))) = Some m"
      using e idx_inj[OF m] by simp_all
  next
    fix j m assume j: "j < length (arr t)" "(if j = i then None else ae_node (arr t ! j)) = Some m"
    then have jm: "j \<noteq> i" "ae_node (arr t ! j) = Some m" by (auto split: if_splits)
    then have um: "unat (lk_index (mt_links t m)) = j" "m \<in> set (B (unat (lk_key (mt_links t m))))"
      using j(1) ent unfolding entries_ok_def by blast+
    then have "m \<noteq> n" using jm(1) i by auto
    then show "unat (lk_index (mt_links t m)) = j" "m \<in> set (?B (unat (lk_key (mt_links t m))))"
      using um unfolding mB by simp_all
  next
    fix j assume "j < length (arr t)"
    then show "((if j = i then 0 else ae_magic (arr t ! j)) = 0) = ((if j = i then None else ae_node (arr t ! j)) = None)"
      using ent unfolding entries_ok_def by simp
  qed
  have e2: "free_ok t3 (F @ [i])"
    unfolding free_ok_iff nd len3 using dF iF t3(3) sF il by auto
  have e3: "active_nodes t3 + of_nat (length (F @ [i])) = of_nat (length (arr t))"
    unfolding t3(5) f(4) using F(2) by (simp add: algebra_simps)
  have e4: "distinct (?B j)" for j using inv dB by (simp add: mch_inv_def)
  have "length (bucket_list t) = unat (buckets t3)" "length (arr t) = unat (max_nodes t3)" "magic_no t3 \<noteq> 0"
    using inv t3(6) f(3,5,6) oa by (simp_all add: mch_inv_def)
  then have "mch_inv t3 ?B" unfolding mch_inv_def len3 using e1 e2 e3 e4 ok by blast
  moreover have "mch_refs t3 = (mch_refs t)((lk_index (mt_links t n), ae_magic (arr t ! i)) := None)"
  proof
    fix r :: "u32 \<times> u32" obtain c m where r: "r = (c, m)" by (cases r)
    show "mch_refs t3 r = ((mch_refs t)((lk_index (mt_links t n), ae_magic (arr t ! i)) := None)) r"
    proof (cases "unat c = i")
      case True
      then have "c = lk_index (mt_links t n)" using i by (metis word_unat_eq_iff)
      then show ?thesis using True unfolding mch_refs_def nd len3 r by auto
    next
      case False
      then have "c \<noteq> lk_index (mt_links t n)" using i by auto
      then show ?thesis using False unfolding mch_refs_def nd len3 r by simp
    qed
  qed
  ultimately show ?thesis using t3(1,6) oa f(3,5,6) by metis
qed

section \<open>The macros implement a table of safe references\<close>

lemma mch_bucket:
  assumes "mch_inv t B" "k < length (bucket_list t)" shows "bucket_ok t k (B k)" "distinct (B k)"
  using assms by (simp_all add: mch_inv_def)

definition inserted ::
  "(nat \<Rightarrow> addr list) \<Rightarrow> u32 \<Rightarrow> addr list \<Rightarrow> addr \<Rightarrow> addr list \<Rightarrow> mchash_table \<Rightarrow> ((u32 \<times> u32) option \<times> mchash_table) option \<Rightarrow> bool" where
  "inserted B keys ys n zs t res \<longleftrightarrow>
     (if free_q_next t = None then res = Some (None, t)
      else \<exists>i t'. res = Some (Some (i, magic_no t), t') \<and> mch_inv t' (B(unat keys := ys @ n # zs)) \<and>
        mch_refs t (i, magic_no t) = None \<and> mch_refs t' = (mch_refs t)((i, magic_no t) := Some n) \<and>
        magic_no t' = next_magic (magic_no t) \<and> mt_rcu t' = mt_rcu t \<and>
        length (bucket_list t') = length (bucket_list t) \<and> length (arr t') = length (arr t) \<and> max_nodes t' = max_nodes t)"

lemma set_key_fields [simp]:
  "bucket_list (set_key keys n t) = bucket_list t" "arr (set_key keys n t) = arr t" "max_nodes (set_key keys n t) = max_nodes t"
  "buckets (set_key keys n t) = buckets t"
  by (simp_all add: set_key_def)

lemma inserted_intro:
  assumes inv: "mch_inv t B" and k: "unat keys < length (bucket_list t)" and B: "B (unat keys) = ys @ zs"
    and n: "\<forall>j. n \<notin> set (B j)" and prev: "prev \<in> last_refs {Null, Head (unat keys)} ys" and nxt: "nxt = first_ref zs Null"
    and res: "\<And>i t1. free_q_next t = Some i \<Longrightarrow> new_ref keys n i t = Some t1 \<Longrightarrow> bucket_list t1 = bucket_list t \<Longrightarrow>
        (\<forall>m. m \<noteq> n \<longrightarrow> mt_links t1 m = mt_links t m) \<Longrightarrow>
        res = map_option (\<lambda>t2. (Some (of_nat i, ae_magic (arr t1 ! i)), g (set_key keys n t2)))
          (mchash_insert_node_in_middle (unat keys) prev n nxt t1)"
    and none: "free_q_next t = None \<Longrightarrow> res = Some (None, t)"
    and g: "g = (\<lambda>t. t) \<or> g = add_count 1 (unat keys)"
  shows "inserted B keys ys n zs t res"
proof (cases "free_q_next t")
  case None
  then show ?thesis using none by (simp add: inserted_def)
next
  case (Some i)
  obtain t1 t2 where t: "new_ref keys n i t = Some t1" "bucket_list t1 = bucket_list t" "ae_magic (arr t1 ! i) = magic_no t"
    "\<forall>m. m \<noteq> n \<longrightarrow> mt_links t1 m = mt_links t m"
    "mchash_insert_node_in_middle (unat keys) prev n nxt t1 = Some t2"
    "mch_inv (set_key keys n t2) (B(unat keys := ys @ n # zs))" "mch_refs t (of_nat i, magic_no t) = None"
    "mch_refs (set_key keys n t2) = (mch_refs t)((of_nat i, magic_no t) := Some n)"
    "magic_no (set_key keys n t2) = next_magic (magic_no t)" "mt_rcu (set_key keys n t2) = mt_rcu t"
    "buckets t2 = buckets t" "max_nodes t2 = max_nodes t"
    using new_ref_insert[OF inv k B n Some prev nxt] by blast
  have "res = Some (Some (of_nat i, magic_no t), g (set_key keys n t2))"
    using res[OF Some t(1,2,4)] t(3,5) by simp
  moreover have "mch_inv (g (set_key keys n t2)) (B(unat keys := ys @ n # zs))"
    "mch_refs (g (set_key keys n t2)) = (mch_refs t)((of_nat i, magic_no t) := Some n)"
    "magic_no (g (set_key keys n t2)) = next_magic (magic_no t)" "mt_rcu (g (set_key keys n t2)) = mt_rcu t"
    "max_nodes (g (set_key keys n t2)) = max_nodes t" "buckets (g (set_key keys n t2)) = buckets t"
    using g t(6,8,9,10,11,12) by auto
  moreover from this(1,5,6) have "length (bucket_list (g (set_key keys n t2))) = length (bucket_list t)"
    "length (arr (g (set_key keys n t2))) = length (arr t)" using inv by (simp_all add: mch_inv_def)
  ultimately show ?thesis using t(7) Some unfolding inserted_def by (metis option.distinct(1))
qed

lemma append_ok:
  assumes inv: "mch_inv t B" and k: "unat keys < length (bucket_list t)" and n: "\<forall>j. n \<notin> set (B j)"
  shows "inserted B keys (B (unat keys)) n [] t (MCHASH_APPEND_NODE keys n t)"
proof (rule inserted_intro[OF inv k _ n, where prev = "bk_head_prev (bucket_list t ! unat keys)" and nxt = Null
      and g = "add_count 1 (unat keys)"])
  show "bk_head_prev (bucket_list t ! unat keys) \<in> last_refs {Null, Head (unat keys)} (B (unat keys))"
    using mch_bucket(1)[OF inv k] by (simp add: bucket_ok_def)
qed (use k in \<open>simp_all add: MCHASH_APPEND_NODE_def\<close>)

lemma node_prev_next:
  assumes inv: "mch_inv t B" and k: "k < length (bucket_list t)" and B: "B k = ys @ x # zs"
  shows "lk_next (mt_links t x) = first_ref zs Null" "lk_prev (mt_links t x) \<in> last_refs {Null, Head k} ys"
  using mch_bucket(1)[OF inv k] by (simp_all add: bucket_ok_def B dl_append first_ref_def)

lemma insert_after_ok:
  assumes inv: "mch_inv t B" and k: "unat keys < length (bucket_list t)" and n: "\<forall>j. n \<notin> set (B j)"
    and B: "B (unat keys) = ys @ x # zs"
  shows "inserted B keys (ys @ [x]) n zs t (MCHASH_INSERT_NODE_AFTER x keys n t)"
proof (rule inserted_intro[OF inv k _ n, where prev = "Link x" and nxt = "lk_next (mt_links t x)" and g = "\<lambda>t. t"])
  show "lk_next (mt_links t x) = first_ref zs Null" by (rule node_prev_next(1)[OF inv k B])
  have "x \<noteq> n" using n B by (metis in_set_conv_decomp)
  then show "MCHASH_INSERT_NODE_AFTER x keys n t = map_option (\<lambda>t2. (Some (of_nat i, ae_magic (arr t1 ! i)), set_key keys n t2))
      (mchash_insert_node_in_middle (unat keys) (Link x) n (lk_next (mt_links t x)) t1)"
    if "free_q_next t = Some i" "new_ref keys n i t = Some t1" "bucket_list t1 = bucket_list t"
      "\<forall>m. m \<noteq> n \<longrightarrow> mt_links t1 m = mt_links t m" for i t1
    using that k by (simp add: MCHASH_INSERT_NODE_AFTER_def)
qed (use B in \<open>simp_all add: MCHASH_INSERT_NODE_AFTER_def\<close>)

lemma insert_before_ok:
  assumes inv: "mch_inv t B" and k: "unat keys < length (bucket_list t)" and n: "\<forall>j. n \<notin> set (B j)"
    and B: "B (unat keys) = ys @ x # zs"
  shows "inserted B keys ys n (x # zs) t (MCHASH_INSERT_NODE_BEFORE x keys n t)"
proof (rule inserted_intro[OF inv k _ n, where prev = "lk_prev (mt_links t x)" and nxt = "Link x" and g = "\<lambda>t. t"])
  show "lk_prev (mt_links t x) \<in> last_refs {Null, Head (unat keys)} ys" by (rule node_prev_next(2)[OF inv k B])
  have "x \<noteq> n" using n B by (metis in_set_conv_decomp)
  then show "MCHASH_INSERT_NODE_BEFORE x keys n t = map_option (\<lambda>t2. (Some (of_nat i, ae_magic (arr t1 ! i)), set_key keys n t2))
      (mchash_insert_node_in_middle (unat keys) (lk_prev (mt_links t x)) n (Link x) t1)"
    if "free_q_next t = Some i" "new_ref keys n i t = Some t1" "bucket_list t1 = bucket_list t"
      "\<forall>m. m \<noteq> n \<longrightarrow> mt_links t1 m = mt_links t m" for i t1
    using that k by (simp add: MCHASH_INSERT_NODE_BEFORE_def)
qed (use B in \<open>simp_all add: MCHASH_INSERT_NODE_BEFORE_def\<close>)

definition deleted ::
  "(nat \<Rightarrow> addr list) \<Rightarrow> addr \<Rightarrow> mchash_table \<Rightarrow> (bool \<times> mchash_table) option \<Rightarrow> bool" where
  "deleted B n t res \<longleftrightarrow> (\<exists>t' k. res = Some (True, t') \<and> n \<in> set (B k) \<and> mch_inv t' (B(k := remove1 n (B k))) \<and>
     mch_refs t' = (mch_refs t)((lk_index (mt_links t n), ae_magic (arr t ! unat (lk_index (mt_links t n)))) := None) \<and>
     mt_rcu t' = mt_rcu t @ [n] \<and> magic_no t' = magic_no t \<and>
     length (bucket_list t') = length (bucket_list t) \<and> length (arr t') = length (arr t) \<and> max_nodes t' = max_nodes t)"

lemma unlink_put:
  assumes inv: "mch_inv t B" and k: "n \<in> set (B k)" and i: "i = unat (lk_index (mt_links t n))"
    and z: "bucket_list u0 = bucket_list t \<and> mt_links u0 = mt_links t \<and>
      free_q_next u0 = free_q_next t \<and> free_q_prev u0 = free_q_prev t \<and> magic_no u0 = magic_no t \<and>
      active_nodes u0 = active_nodes t \<and> buckets u0 = buckets t \<and> max_nodes u0 = max_nodes t \<and> mt_rcu u0 = mt_rcu t"
    and u: "\<forall>u1. arr u1 = arr u0 \<longrightarrow>
        length (arr (f u1)) = length (arr t) \<and> (\<forall>j. ae_node (arr (f u1) ! j) = (if j = i then None else ae_node (arr t ! j))) \<and>
        (\<forall>j. ae_magic (arr (f u1) ! j) = (if j = i then 0 else ae_magic (arr t ! j))) \<and> fnext (f u1) = fnext t \<and>
        bucket_list (f u1) = bucket_list u1 \<and> mt_links (f u1) = mt_links u1 \<and>
        free_q_next (f u1) = free_q_next u1 \<and> free_q_prev (f u1) = free_q_prev u1 \<and> magic_no (f u1) = magic_no u1 \<and>
        active_nodes (f u1) = active_nodes u1 \<and> buckets (f u1) = buckets u1 \<and> max_nodes (f u1) = max_nodes u1 \<and>
        mt_rcu (f u1) = mt_rcu u1 @ r"
  shows "\<exists>u1 t3. bucket_unlink k n u0 = Some u1 \<and> put_entry i (f u1) = Some t3 \<and> mch_inv t3 (B(k := remove1 n (B k))) \<and>
    mch_refs t3 = (mch_refs t)((lk_index (mt_links t n), ae_magic (arr t ! i)) := None) \<and>
    mt_rcu t3 = mt_rcu t @ r \<and> magic_no t3 = magic_no t \<and>
    length (bucket_list t3) = length (bucket_list t) \<and> length (arr t3) = length (arr t) \<and> max_nodes t3 = max_nodes t"
proof -
  have u0: "bucket_list u0 = bucket_list t" "mt_links u0 = mt_links t"
    and v: "free_q_next u0 = free_q_next t" "free_q_prev u0 = free_q_prev t" "magic_no u0 = magic_no t"
      "active_nodes u0 = active_nodes t" "buckets u0 = buckets t" "max_nodes u0 = max_nodes t" "mt_rcu u0 = mt_rcu t"
    using z by simp_all
  obtain ys zs where B: "B k = ys @ n # zs" using k by (auto dest: split_list)
  have kl: "k < length (bucket_list t)" using inv k by (auto simp: mch_inv_def entries_ok_def)
  have d: "distinct (ys @ n # zs)" using mch_bucket(2)[OF inv kl] B by simp
  have rm: "remove1 n (B k) = ys @ zs" using B d by (simp add: remove1_append)
  have "bucket_ok u0 k (ys @ n # zs) = bucket_ok t k (ys @ n # zs)" by (rule bucket_ok_cong) (simp_all add: u0)
  then have bk: "bucket_ok u0 k (ys @ n # zs)" using mch_bucket(1)[OF inv kl] B by simp
  from unlink_ok[OF bk _ d] kl u0 obtain u1 where u1: "bucket_unlink k n u0 = Some u1" "bucket_ok u1 k (ys @ zs)"
    "only_bucket k (set (ys @ zs)) u0 u1" by auto
  note ob = u1(3)[unfolded only_bucket_def] and fl = only_bucket_fields[OF u1(3)]
  note uu = u[rule_format, OF fl(1)]
  have "bucket_ok (f u1) k (ys @ zs) = bucket_ok u1 k (ys @ zs)" by (rule bucket_ok_cong) (simp_all add: uu)
  then have bk1: "bucket_ok (f u1) k (ys @ zs)" using u1(2) by simp
  obtain t3 where t3: "put_entry i (f u1) = Some t3" "mch_inv t3 (B(k := ys @ zs))"
    "mch_refs t3 = (mch_refs t)((lk_index (mt_links t n), ae_magic (arr t ! i)) := None)"
    "mt_rcu t3 = mt_rcu (f u1)" "magic_no t3 = magic_no t" "bucket_list t3 = bucket_list (f u1)"
    "buckets t3 = buckets t" "max_nodes t3 = max_nodes t"
  proof -
    have p: "length (bucket_list (f u1)) = length (bucket_list t)" "\<forall>j. j \<noteq> k \<longrightarrow> bucket_list (f u1) ! j = bucket_list t ! j"
      "\<forall>m. m \<notin> set (ys @ zs) \<longrightarrow> mt_links (f u1) m = mt_links t m"
      "\<forall>m. lk_index (mt_links (f u1) m) = lk_index (mt_links t m) \<and> lk_key (mt_links (f u1) m) = lk_key (mt_links t m)"
      using uu ob u0 by simp_all
    have q: "length (arr (f u1)) = length (arr t)" "\<forall>j. ae_node (arr (f u1) ! j) = (if j = i then None else ae_node (arr t ! j))"
      "\<forall>j. ae_magic (arr (f u1) ! j) = (if j = i then 0 else ae_magic (arr t ! j))" "fnext (f u1) = fnext t"
      "free_q_next (f u1) = free_q_next t" "free_q_prev (f u1) = free_q_prev t" "magic_no (f u1) = magic_no t"
      "active_nodes (f u1) = active_nodes t" "buckets (f u1) = buckets t" "max_nodes (f u1) = max_nodes t"
      using uu unfolding fl v by blast+
    show thesis using put_unlinked[OF inv B i p bk1 q] that by blast
  qed
  have "length (bucket_list t3) = length (bucket_list t)" "length (arr t3) = length (arr t)"
    using t3(2,7,8) inv by (simp_all add: mch_inv_def)
  moreover have "mt_rcu t3 = mt_rcu t @ r" using t3(4) uu fl(8) v(7) by simp
  ultimately show ?thesis unfolding rm by (intro exI[of _ u1] exI[of _ t3] conjI u1(1) t3(1,2,3,5,8))
qed

lemma refs_entry:
  assumes inv: "mch_inv t B" and r: "mch_refs t (i, m) = Some n"
  shows "unat i < length (arr t)" "ae_magic (arr t ! unat i) = m" "m \<noteq> 0" "ae_node (arr t ! unat i) = Some n"
    "i = lk_index (mt_links t n)" "n \<in> set (B (unat (lk_key (mt_links t n))))"
    "unat (lk_key (mt_links t n)) < length (bucket_list t)"
proof -
  show e: "unat i < length (arr t)" "ae_magic (arr t ! unat i) = m" "m \<noteq> 0" "ae_node (arr t ! unat i) = Some n"
    using r by (auto simp: mch_refs_def split: if_splits)
  have ent: "entries_ok t B" using inv by (simp add: mch_inv_def)
  have "unat (lk_index (mt_links t n)) = unat i" and nB: "n \<in> set (B (unat (lk_key (mt_links t n))))"
    using ent e(1,4) unfolding entries_ok_def by blast+
  then show "i = lk_index (mt_links t n)" "n \<in> set (B (unat (lk_key (mt_links t n))))"
    by (simp_all add: word_unat_eq_iff)
  show "unat (lk_key (mt_links t n)) < length (bucket_list t)" using ent nB unfolding entries_ok_def by blast
qed

lemma delete_by_ref_ok:
  assumes inv: "mch_inv t B" and i: "unat i < length (arr t)" and m: "m \<noteq> 0"
  shows "case mch_refs t (i, m) of None \<Rightarrow> MCHASH_DELETE_NODE_BY_REF i m t = Some (False, t)
    | Some n \<Rightarrow> deleted B n t (MCHASH_DELETE_NODE_BY_REF i m t)"
proof (cases "mch_refs t (i, m)")
  case None
  then have "m \<noteq> ae_magic (arr t ! unat i)"
    using inv i m by (auto simp: mch_refs_def mch_inv_def entries_ok_def)
  then show ?thesis using None i by (simp add: MCHASH_DELETE_NODE_BY_REF_def)
next
  case (Some n)
  note e = refs_entry[OF inv Some]
  let ?k = "unat (lk_key (mt_links t n))" and ?u0 = "set_entry (unat i) (ae_magic_update (\<lambda>_. 0)) t"
  let ?f = "\<lambda>u1. (set_entry (unat i) (ae_node_update (\<lambda>_. None)) u1)\<lparr>mt_rcu := mt_rcu u1 @ [n]\<rparr>"
  have U: "\<forall>u1. arr u1 = arr ?u0 \<longrightarrow> length (arr (?f u1)) = length (arr t) \<and>
      (\<forall>j. ae_node (arr (?f u1) ! j) = (if j = unat i then None else ae_node (arr t ! j))) \<and>
      (\<forall>j. ae_magic (arr (?f u1) ! j) = (if j = unat i then 0 else ae_magic (arr t ! j))) \<and> fnext (?f u1) = fnext t \<and>
      bucket_list (?f u1) = bucket_list u1 \<and> mt_links (?f u1) = mt_links u1 \<and>
      free_q_next (?f u1) = free_q_next u1 \<and> free_q_prev (?f u1) = free_q_prev u1 \<and> magic_no (?f u1) = magic_no u1 \<and>
      active_nodes (?f u1) = active_nodes u1 \<and> buckets (?f u1) = buckets u1 \<and> max_nodes (?f u1) = max_nodes u1 \<and>
      mt_rcu (?f u1) = mt_rcu u1 @ [n]"
    using e(1) by (simp add: arr_set_entry fun_eq_iff)
  have Z: "bucket_list ?u0 = bucket_list t \<and> mt_links ?u0 = mt_links t \<and>
      free_q_next ?u0 = free_q_next t \<and> free_q_prev ?u0 = free_q_prev t \<and> magic_no ?u0 = magic_no t \<and>
      active_nodes ?u0 = active_nodes t \<and> buckets ?u0 = buckets t \<and> max_nodes ?u0 = max_nodes t \<and> mt_rcu ?u0 = mt_rcu t"
    by simp
  obtain u1 t3 where t3: "bucket_unlink ?k n ?u0 = Some u1" "put_entry (unat i) (?f u1) = Some t3"
    "mch_inv t3 (B(?k := remove1 n (B ?k)))"
    "mch_refs t3 = (mch_refs t)((lk_index (mt_links t n), ae_magic (arr t ! unat i)) := None)"
    "mt_rcu t3 = mt_rcu t @ [n]" "magic_no t3 = magic_no t" "length (bucket_list t3) = length (bucket_list t)"
    "length (arr t3) = length (arr t)" "max_nodes t3 = max_nodes t"
    using unlink_put[where f = ?f, OF inv e(6) arg_cong[OF e(5), of unat] Z U] by (elim exE conjE) (simp add: e(5)[symmetric])
  have "MCHASH_DELETE_NODE_BY_REF i m t = Some (True, t3)"
    using e t3(1,2) m by (simp add: MCHASH_DELETE_NODE_BY_REF_def Let_def)
  then show ?thesis using Some t3 e(5,6) unfolding deleted_def by auto
qed

lemma delete_node_ok:
  assumes inv: "mch_inv t B"
  shows "n \<in> set (B k) \<Longrightarrow> deleted B n t (MCHASH_DELETE_NODE n t)"
    "\<forall>k. n \<notin> set (B k) \<Longrightarrow> unat (lk_key (mt_links t n)) < length (bucket_list t) \<Longrightarrow>
     unat (lk_index (mt_links t n)) < length (arr t) \<Longrightarrow> MCHASH_DELETE_NODE n t = Some (False, t)"
proof -
  assume n: "n \<in> set (B k)"
  let ?i = "unat (lk_index (mt_links t n))"
  let ?u0 = "set_entry ?i (ae_node_update (\<lambda>_. None)) (set_entry ?i (ae_magic_update (\<lambda>_. 0)) t)"
  have e: "k < length (bucket_list t)" "unat (lk_key (mt_links t n)) = k" "?i < length (arr t)" "ae_node (arr t ! ?i) = Some n"
    using inv n by (auto simp: mch_inv_def entries_ok_def)
  have U: "\<forall>u1. arr u1 = arr ?u0 \<longrightarrow> length (arr (u1)) = length (arr t) \<and>
      (\<forall>j. ae_node (arr (u1) ! j) = (if j = ?i then None else ae_node (arr t ! j))) \<and>
      (\<forall>j. ae_magic (arr (u1) ! j) = (if j = ?i then 0 else ae_magic (arr t ! j))) \<and> fnext (u1) = fnext t \<and>
      bucket_list (u1) = bucket_list u1 \<and> mt_links (u1) = mt_links u1 \<and>
      free_q_next (u1) = free_q_next u1 \<and> free_q_prev (u1) = free_q_prev u1 \<and> magic_no (u1) = magic_no u1 \<and>
      active_nodes (u1) = active_nodes u1 \<and> buckets (u1) = buckets u1 \<and> max_nodes (u1) = max_nodes u1 \<and>
      mt_rcu (u1) = mt_rcu u1 @ []"
    using e(3) by (simp add: arr_set_entry fun_eq_iff)
  have Z: "bucket_list ?u0 = bucket_list t \<and> mt_links ?u0 = mt_links t \<and>
      free_q_next ?u0 = free_q_next t \<and> free_q_prev ?u0 = free_q_prev t \<and> magic_no ?u0 = magic_no t \<and>
      active_nodes ?u0 = active_nodes t \<and> buckets ?u0 = buckets t \<and> max_nodes ?u0 = max_nodes t \<and> mt_rcu ?u0 = mt_rcu t"
    by simp
  obtain u1 t3 where t3: "bucket_unlink k n ?u0 = Some u1" "put_entry ?i u1 = Some t3" "mch_inv t3 (B(k := remove1 n (B k)))"
    "mch_refs t3 = (mch_refs t)((lk_index (mt_links t n), ae_magic (arr t ! ?i)) := None)"
    "mt_rcu t3 = mt_rcu t @ []" "magic_no t3 = magic_no t" "length (bucket_list t3) = length (bucket_list t)"
    "length (arr t3) = length (arr t)" "max_nodes t3 = max_nodes t"
    using unlink_put[where f = "\<lambda>u. u", OF inv n refl Z U] by (elim exE conjE)
  have "MCHASH_DELETE_NODE n t = Some (True, t3\<lparr>mt_rcu := mt_rcu t3 @ [n]\<rparr>)"
    using e t3(1,2) by (simp add: MCHASH_DELETE_NODE_def Let_def)
  then show "deleted B n t (MCHASH_DELETE_NODE n t)"
    unfolding deleted_def using t3 n by (intro exI[of _ "t3\<lparr>mt_rcu := mt_rcu t3 @ [n]\<rparr>"] exI[of _ k]) simp
next
  assume n: "\<forall>k. n \<notin> set (B k)" and r: "unat (lk_key (mt_links t n)) < length (bucket_list t)"
    "unat (lk_index (mt_links t n)) < length (arr t)"
  have "ae_node (arr t ! unat (lk_index (mt_links t n))) \<noteq> Some n"
    using inv n r(2) unfolding mch_inv_def entries_ok_def by blast
  then show "MCHASH_DELETE_NODE n t = Some (False, t)" using r by (simp add: MCHASH_DELETE_NODE_def Let_def)
qed

section \<open>Access and scans\<close>

lemma access_ok:
  assumes inv: "mch_inv t B" and i: "unat i < length (arr t)" and m: "m \<noteq> 0"
  shows "MCHASH_ACCESS_NODE i m t = Some (map_option Some (mch_refs t (i, m)))"
proof (cases "mch_refs t (i, m)")
  case None
  then have "m \<noteq> ae_magic (arr t ! unat i)"
    using inv i m by (auto simp: mch_refs_def mch_inv_def entries_ok_def)
  then show ?thesis using None i by (simp add: MCHASH_ACCESS_NODE_def)
next
  case (Some n)
  then show ?thesis using refs_entry[OF inv Some] by (simp add: MCHASH_ACCESS_NODE_def)
qed

lemma bucket_scan_dl:
  "dl (mt_links t) P xs Null \<Longrightarrow> bucket_scan_from t (first_ref xs Null) = Some xs"
proof (induction xs arbitrary: P)
  case Nil
  then show ?case by (simp add: bucket_scan_from.simps[of _ Null])
next
  case (Cons x xs)
  have "lk_next (mt_links t x) = first_ref xs Null" using Cons.prems by (simp add: first_ref_def)
  then show ?case using Cons.IH[of "{Link x}"] Cons.prems by (simp add: bucket_scan_from.simps[of _ "Link _"])
qed

lemma bucket_scan_ok:
  assumes "mch_inv t B" "k < length (bucket_list t)" shows "MCHASH_BUCKET_SCAN t k = Some (B k)"
  using mch_bucket(1)[OF assms] bucket_scan_dl[of t "{Null, Head k}" "B k"] assms(2)
  by (simp add: MCHASH_BUCKET_SCAN_def bucket_ok_def)

lemma bucket_find_dl:
  "dl L P xs Null \<Longrightarrow> mt_links t = L \<Longrightarrow> bucket_find t Q (first_ref xs Null) = Some (List.find Q xs)"
proof (induction xs arbitrary: P)
  case Nil
  show ?case by (simp add: bucket_find.simps[of _ _ Null])
next
  case (Cons x xs)
  have "rd_next (Link x) t = first_ref xs Null" using Cons.prems by (simp add: first_ref_def)
  then show ?case using Cons.IH[of "{Link x}"] Cons.prems by (simp add: bucket_find.simps[of _ _ "Link _"])
qed

lemma find_in_bucket_ok:
  assumes "mch_inv t B" "k < length (bucket_list t)"
  shows "find_in_bucket t Q k = Some (List.find Q (B k))"
  using mch_bucket(1)[OF assms] assms(2) bucket_find_dl[OF _ refl, of t "{Null, Head k}" "B k" Q]
  by (simp add: find_in_bucket_def bucket_ok_def)

text \<open>The nodes of a table.\<close>

definition nodes :: "(nat \<Rightarrow> addr list) \<Rightarrow> addr set" where "nodes B = (\<Union>k. set (B k))"

lemma those_map_Some: "(\<And>x. x \<in> set xs \<Longrightarrow> f x = Some (g x)) \<Longrightarrow> those (map f xs) = Some (map g xs)"
  by (induction xs) auto

lemma table_scan_ok: "mch_inv t B \<Longrightarrow> MCHASH_TABLE_SCAN t = Some (map B [0..<length (bucket_list t)])"
proof -
  assume inv: "mch_inv t B"
  then have len: "length (bucket_list t) = unat (buckets t)" by (simp add: mch_inv_def)
  show ?thesis unfolding MCHASH_TABLE_SCAN_def len
    by (rule those_map_Some) (simp add: bucket_scan_ok[OF inv] len)
qed

text \<open>The nodes of the table are those that have a reference.\<close>

lemma refs_iff_node:
  assumes "mch_inv t B" shows "(\<exists>r. mch_refs t r = Some n) \<longleftrightarrow> (\<exists>k. n \<in> set (B k))"
proof
  assume "\<exists>r. mch_refs t r = Some n"
  then show "\<exists>k. n \<in> set (B k)" using refs_entry(6)[OF assms] by (metis surj_pair)
next
  assume "\<exists>k. n \<in> set (B k)"
  then obtain k where "n \<in> set (B k)" ..
  then have "unat (lk_index (mt_links t n)) < length (arr t)" "ae_node (arr t ! unat (lk_index (mt_links t n))) = Some n"
    "ae_magic (arr t ! unat (lk_index (mt_links t n))) \<noteq> 0"
    using assms by (auto simp: mch_inv_def entries_ok_def)
  then have "mch_refs t (lk_index (mt_links t n), ae_magic (arr t ! unat (lk_index (mt_links t n)))) = Some n"
    by (simp add: mch_refs_def)
  then show "\<exists>r. mch_refs t r = Some n" ..
qed

section \<open>A new table\<close>

lemma lseg_upt:
  "\<forall>j. i \<le> j \<and> j < n \<longrightarrow> nx j = (if j \<noteq> n - 1 then Some (j + 1) else None) \<Longrightarrow>
   i \<le> n \<Longrightarrow> lseg nx (if i < n then Some i else None) [i..<n] None"
proof (induction "n - i" arbitrary: i)
  case (Suc d)
  then have i: "i < n" by simp
  have "lseg nx (if Suc i < n then Some (Suc i) else None) [Suc i..<n] None"
    by (rule Suc.hyps(1)) (use Suc in auto)
  moreover have "nx i = (if Suc i < n then Some (Suc i) else None)" using Suc.prems(1) i by auto
  ultimately show ?case using i by (simp add: upt_conv_Cons)
qed simp

lemma create_inv:
  assumes "mchash_table_create bs mx cbk base ok links = Some (Created t)"
  shows "mch_inv t (\<lambda>_. [])" "mch_refs t = (\<lambda>_. None)" "active_nodes t = 0" "length (arr t) = unat mx"
    "length (bucket_list t) = unat bs" "free_q_next t = Some 0" "magic_no t = 1" "max_nodes t = mx" "mt_rcu t = []"
proof -
  have mx: "unat mx > 0" using assms by (auto simp: mchash_table_create_def unat_gt_0 split: if_splits option.splits)
  have t: "t = \<lparr>buckets = bs, max_nodes = mx, active_nodes = 0, passive_nodes = 0, magic_no = 1,
      free_q_prev = Some (unat mx - 1), free_q_next = Some 0,
      indirection_array = map (free_entry (unat mx)) [0..<unat mx],
      bucket_list = replicate (unat bs) empty_bucket, mt_links = links, mt_rcu = []\<rparr>"
    using assms by (auto simp: mchash_table_create_def split: if_splits option.splits)
  show f: "active_nodes t = 0" "length (arr t) = unat mx" "length (bucket_list t) = unat bs" "free_q_next t = Some 0"
    "magic_no t = 1" "max_nodes t = mx" "mt_rcu t = []" by (simp_all add: t)
  have a: "j < unat mx \<Longrightarrow> arr t ! j = free_entry (unat mx) j" for j by (simp add: t)
  have "lseg (fnext t) (if 0 < unat mx then Some 0 else None) [0..<unat mx] None"
    by (rule lseg_upt) (auto simp: a free_entry_def)
  then have "free_chain t [0..<unat mx]" using mx by (simp add: free_chain_def t last_ptr_def)
  then have "free_ok t [0..<unat mx]" by (auto simp: free_ok_iff f a free_entry_def)
  moreover have "entries_ok t (\<lambda>_. [])" by (auto simp: entries_ok_def f a free_entry_def)
  moreover have "bucket_ok t k []" if "k < unat bs" for k
    using that by (simp add: bucket_ok_def t empty_bucket_def)
  moreover have "active_nodes t + of_nat (length [0..<unat mx]) = of_nat (length (arr t))" using f by simp
  moreover have "buckets t = bs" by (simp add: t)
  ultimately show "mch_inv t (\<lambda>_. [])" unfolding mch_inv_def using f by auto
  show "mch_refs t = (\<lambda>_. None)" by (auto simp: mch_refs_def f a free_entry_def fun_eq_iff)
qed

section \<open>Magic numbers\<close>

abbreviation magic_period :: nat where "magic_period \<equiv> 2 ^ 32 - 1"

lemma unat_next_magic:
  assumes "m \<noteq> 0" shows "unat (next_magic m) = Suc (unat m mod magic_period)"
proof (cases "m + 1 = 0")
  case True
  then have "m = - 1" by (simp add: add_eq_0_iff2)
  then have "m = 4294967295" by simp
  then show ?thesis by (simp add: next_magic_def)
next
  case False
  then have "unat (m + 1) = Suc (unat m)" by (metis Suc_eq_plus1 unatSuc add.commute)
  moreover have "unat m < magic_period"
  proof -
    have "unat m \<noteq> magic_period"
    proof
      assume "unat m = magic_period"
      then have "Suc (unat m) = 2 ^ 32" by simp
      then show False using unat_u32_less[of "m + 1"] \<open>unat (m + 1) = Suc (unat m)\<close> by simp
    qed
    then show ?thesis using unat_u32_less[of m] by simp
  qed
  ultimately show ?thesis using False by (simp add: next_magic_def)
qed

lemma unat_magic_at:
  assumes "m \<noteq> 0" shows "unat ((next_magic ^^ j) m) = Suc ((unat m - 1 + j) mod magic_period)"
proof (induction j)
  case 0
  have "unat m - 1 < magic_period" using unat_u32_less[of m] assms by (simp add: unat_gt_0)
  then show ?case using assms by (simp add: unat_gt_0)
next
  case (Suc j)
  have nz: "(next_magic ^^ j) m \<noteq> 0" using Suc by auto
  have "unat ((next_magic ^^ Suc j) m) = Suc (Suc ((unat m - 1 + j) mod magic_period) mod magic_period)"
    using unat_next_magic[OF nz] Suc by simp
  then show ?case by (simp add: mod_Suc_eq)
qed

lemma mod_shift_neq:
  assumes "a < p" "0 < j" "j < (p :: nat)" shows "(a + j) mod p \<noteq> a"
proof (cases "a + j < p")
  case False
  then have "(a + j) mod p = a + j - p" using assms by (simp add: le_mod_geq)
  then show ?thesis using assms False by linarith
qed (use assms in simp)

lemma magic_not_reused:
  assumes "m \<noteq> 0" "0 < j" "j < magic_period" shows "(next_magic ^^ j) m \<noteq> m"
proof
  assume "(next_magic ^^ j) m = m"
  then have "unat m = Suc ((unat m - 1 + j) mod magic_period)" using unat_magic_at[OF assms(1), of j] by metis
  moreover have "unat m - 1 < magic_period" using unat_u32_less[of m] assms(1) by (simp add: unat_gt_0)
  ultimately show False using mod_shift_neq[of "unat m - 1" magic_period j] assms(2,3) by (metis diff_Suc_1)
qed

section \<open>Runs\<close>

text \<open>Use of a table within the contract of its macros: nodes are inserted that are not in it, next to
  nodes that are, and references that are used for deletion have a magic number the table has
  issued. The number counts the successful insertions.\<close>

type_synonym mch_state = "mchash_table \<times> (nat \<Rightarrow> addr list)"

inductive mch_steps :: "mch_state \<Rightarrow> nat \<Rightarrow> mch_state \<Rightarrow> bool" where
  stay: "mch_steps s 0 s"
| append: "mch_steps s c (t, B) \<Longrightarrow> unat keys < length (bucket_list t) \<Longrightarrow> \<forall>j. n \<notin> set (B j) \<Longrightarrow>
    MCHASH_APPEND_NODE keys n t = Some (Some r, t') \<Longrightarrow>
    mch_steps s (Suc c) (t', B(unat keys := B (unat keys) @ [n]))"
| after: "mch_steps s c (t, B) \<Longrightarrow> unat keys < length (bucket_list t) \<Longrightarrow> \<forall>j. n \<notin> set (B j) \<Longrightarrow>
    B (unat keys) = ys @ x # zs \<Longrightarrow> MCHASH_INSERT_NODE_AFTER x keys n t = Some (Some r, t') \<Longrightarrow>
    mch_steps s (Suc c) (t', B(unat keys := ys @ x # n # zs))"
| before: "mch_steps s c (t, B) \<Longrightarrow> unat keys < length (bucket_list t) \<Longrightarrow> \<forall>j. n \<notin> set (B j) \<Longrightarrow>
    B (unat keys) = ys @ x # zs \<Longrightarrow> MCHASH_INSERT_NODE_BEFORE x keys n t = Some (Some r, t') \<Longrightarrow>
    mch_steps s (Suc c) (t', B(unat keys := ys @ n # x # zs))"
| delete_ref: "mch_steps s c (t, B) \<Longrightarrow> unat i < length (indirection_array t) \<Longrightarrow> m \<noteq> 0 \<Longrightarrow>
    MCHASH_DELETE_NODE_BY_REF i m t = Some (True, t') \<Longrightarrow> n \<in> set (B k) \<Longrightarrow>
    mch_refs t (i, m) = Some n \<Longrightarrow> mch_steps s c (t', B(k := remove1 n (B k)))"
| delete_node: "mch_steps s c (t, B) \<Longrightarrow> n \<in> set (B k) \<Longrightarrow> MCHASH_DELETE_NODE n t = Some (True, t') \<Longrightarrow>
    mch_steps s c (t', B(k := remove1 n (B k)))"

text \<open>What a run does to the references it does not issue.\<close>

definition mch_frame :: "mchash_table \<Rightarrow> nat \<Rightarrow> mchash_table \<Rightarrow> bool" where
  "mch_frame t c t' \<longleftrightarrow> magic_no t' = (next_magic ^^ c) (magic_no t) \<and> length (arr t') = length (arr t) \<and>
     length (bucket_list t') = length (bucket_list t) \<and>
     (\<forall>r. mch_refs t r = None \<longrightarrow> (\<forall>j<c. snd r \<noteq> (next_magic ^^ j) (magic_no t)) \<longrightarrow> mch_refs t' r = None) \<and>
     (\<exists>gone. mt_rcu t' = mt_rcu t @ gone \<and>
        (\<forall>r n. mch_refs t r = Some n \<longrightarrow> n \<notin> set gone \<longrightarrow> mch_refs t' r = Some n))"

lemma mch_frameI:
  assumes "mch_frame t0 c t" "magic_no t' = (next_magic ^^ d) (magic_no t)" "length (arr t') = length (arr t)"
    "length (bucket_list t') = length (bucket_list t)" "mt_rcu t' = mt_rcu t @ rest"
    "\<And>r. mch_refs t r = None \<Longrightarrow> (\<forall>j<d. snd r \<noteq> (next_magic ^^ j) (magic_no t)) \<Longrightarrow> mch_refs t' r = None"
    "\<And>r n. mch_refs t r = Some n \<Longrightarrow> n \<notin> set rest \<Longrightarrow> mch_refs t' r = Some n"
  shows "mch_frame t0 (c + d) t'"
proof -
  obtain gone where g: "mt_rcu t = mt_rcu t0 @ gone" "\<forall>r n. mch_refs t0 r = Some n \<longrightarrow> n \<notin> set gone \<longrightarrow> mch_refs t r = Some n"
    using assms(1) unfolding mch_frame_def by blast
  note f = assms(1)[unfolded mch_frame_def]
  have m: "(next_magic ^^ j) (magic_no t) = (next_magic ^^ (c + j)) (magic_no t0)" for j
  proof -
    have "(next_magic ^^ (c + j)) (magic_no t0) = (next_magic ^^ (j + c)) (magic_no t0)" by (simp only: add.commute)
    then show ?thesis using f by (simp add: funpow_add)
  qed
  have "mch_refs t' r = None" if "mch_refs t0 r = None" "\<forall>j<c + d. snd r \<noteq> (next_magic ^^ j) (magic_no t0)" for r
  proof (rule assms(6))
    have "\<forall>j<c. snd r \<noteq> (next_magic ^^ j) (magic_no t0)" using that(2) by simp
    then show "mch_refs t r = None" using f that(1) by blast
    show "\<forall>j<d. snd r \<noteq> (next_magic ^^ j) (magic_no t)" using that(2) unfolding m by simp
  qed
  moreover have "mt_rcu t' = mt_rcu t0 @ (gone @ rest) \<and>
      (\<forall>r n. mch_refs t0 r = Some n \<longrightarrow> n \<notin> set (gone @ rest) \<longrightarrow> mch_refs t' r = Some n)"
    using assms(5,7) g by simp
  moreover have "magic_no t' = (next_magic ^^ (c + d)) (magic_no t0)" using assms(2) m[of d] by simp
  moreover have "length (arr t') = length (arr t0)" "length (bucket_list t') = length (bucket_list t0)"
    using assms(3,4) f by simp_all
  ultimately show ?thesis unfolding mch_frame_def by blast
qed

lemma frame_insert:
  assumes f: "mch_frame t0 c t" and ins: "inserted B keys ys n zs t (Some (Some r, t'))"
  shows "mch_inv t' (B(unat keys := ys @ n # zs))" "mch_frame t0 (Suc c) t'"
proof -
  obtain i where i: "mch_inv t' (B(unat keys := ys @ n # zs))" "mch_refs t (i, magic_no t) = None"
    "mch_refs t' = (mch_refs t)((i, magic_no t) := Some n)" "magic_no t' = next_magic (magic_no t)" "mt_rcu t' = mt_rcu t"
    "length (bucket_list t') = length (bucket_list t)" "length (arr t') = length (arr t)"
    using ins unfolding inserted_def by (metis option.distinct(1) option.inject prod.inject)
  have "mch_frame t0 (c + 1) t'"
  proof (rule mch_frameI[OF f, where rest = "[]"])
    show "magic_no t' = (next_magic ^^ 1) (magic_no t)" using i(4) by simp
    show "mch_refs t' q = None" if "mch_refs t q = None" "\<forall>j<1. snd q \<noteq> (next_magic ^^ j) (magic_no t)" for q
      using that i(3) by auto
    show "mch_refs t' q = Some m" if "mch_refs t q = Some m" for q m using that i(2,3) by auto
  qed (use i in simp_all)
  then show "mch_inv t' (B(unat keys := ys @ n # zs))" "mch_frame t0 (Suc c) t'" using i(1) by simp_all
qed

lemma frame_delete:
  assumes f: "mch_frame t0 c t" and inv: "mch_inv t B" and n: "n \<in> set (B k)" and del: "deleted B n t (Some (True, t'))"
  shows "mch_inv t' (B(k := remove1 n (B k)))" "mch_frame t0 c t'"
proof -
  let ?r = "(lk_index (mt_links t n), ae_magic (arr t ! unat (lk_index (mt_links t n))))"
  obtain k' where k': "n \<in> set (B k')" "mch_inv t' (B(k' := remove1 n (B k')))" "mch_refs t' = (mch_refs t)(?r := None)"
    "mt_rcu t' = mt_rcu t @ [n]" "magic_no t' = magic_no t" "length (bucket_list t') = length (bucket_list t)"
    "length (arr t') = length (arr t)" using del unfolding deleted_def by (metis option.inject prod.inject)
  have kk: "k' = k" by (rule mch_inv_disjoint[OF inv k'(1) n])
  have e: "ae_node (arr t ! unat (lk_index (mt_links t n))) = Some n" "unat (lk_index (mt_links t n)) < length (arr t)"
    using inv n unfolding mch_inv_def entries_ok_def by blast+
  have "ae_magic (arr t ! unat (lk_index (mt_links t n))) \<noteq> 0"
    using e inv unfolding mch_inv_def entries_ok_def by (metis option.distinct(1))
  then have own: "mch_refs t ?r = Some n" using e by (simp add: mch_refs_def)
  have "mch_frame t0 (c + 0) t'"
  proof (rule mch_frameI[OF f, where rest = "[n]"])
    show "mch_refs t' q = None" if "mch_refs t q = None" for q using that k'(3) by simp
    show "mch_refs t' q = Some m" if "mch_refs t q = Some m" "m \<notin> set [n]" for q m
      using that k'(3) own by auto
  qed (use k' in simp_all)
  then show "mch_inv t' (B(k := remove1 n (B k)))" "mch_frame t0 c t'" using k'(2) kk by simp_all
qed

lemma mch_steps_frame:
  "mch_steps s c s' \<Longrightarrow> mch_inv (fst s) (snd s) \<Longrightarrow> mch_inv (fst s') (snd s') \<and> mch_frame (fst s) c (fst s')"
proof (induction rule: mch_steps.induct)
  case (stay s)
  then show ?case by (auto simp: mch_frame_def)
next
  case (append s c t B keys n r t')
  then have IH: "mch_inv t B" "mch_frame (fst s) c t" by simp_all
  have "inserted B keys (B (unat keys)) n [] t (Some (Some r, t'))"
    using append_ok[OF IH(1) append.hyps(2,3)] append.hyps(4) by simp
  from frame_insert[OF IH(2) this] show ?case unfolding fst_conv snd_conv by blast
next
  case (after s c t B keys n ys x zs r t')
  then have IH: "mch_inv t B" "mch_frame (fst s) c t" by simp_all
  have "inserted B keys (ys @ [x]) n zs t (Some (Some r, t'))"
    using insert_after_ok[OF IH(1) after.hyps(2,3,4)] after.hyps(5) by simp
  from frame_insert[OF IH(2) this] show ?case unfolding fst_conv snd_conv append_assoc append.simps by blast
next
  case (before s c t B keys n ys x zs r t')
  then have IH: "mch_inv t B" "mch_frame (fst s) c t" by simp_all
  have "inserted B keys ys n (x # zs) t (Some (Some r, t'))"
    using insert_before_ok[OF IH(1) before.hyps(2,3,4)] before.hyps(5) by simp
  from frame_insert[OF IH(2) this] show ?case unfolding fst_conv snd_conv by blast
next
  case (delete_ref s c t B i m t' n k)
  then have IH: "mch_inv t B" "mch_frame (fst s) c t" by simp_all
  have "deleted B n t (Some (True, t'))"
    using delete_by_ref_ok[OF IH(1) delete_ref.hyps(2,3)] delete_ref.hyps(4,6) by simp
  from frame_delete[OF IH(2,1) delete_ref.hyps(5) this] show ?case unfolding fst_conv snd_conv by blast
next
  case (delete_node s c t B n k t')
  then have IH: "mch_inv t B" "mch_frame (fst s) c t" by simp_all
  have "deleted B n t (Some (True, t'))" using delete_node_ok(1)[OF IH(1) delete_node.hyps(2)] delete_node.hyps(3) by simp
  from frame_delete[OF IH(2,1) delete_node.hyps(2) this] show ?case unfolding fst_conv snd_conv by blast
qed

section \<open>Safe references as an interface\<close>

text \<open>What the resource managers of the controller rely on: a new reference is one that meant nothing
  before, and the other references keep their meaning.\<close>

locale saferef_table =
  fixes inv :: "'s \<Rightarrow> bool" and fresh :: "'s \<Rightarrow> 'n \<Rightarrow> bool" and lookup :: "'s \<Rightarrow> 'r \<Rightarrow> 'n option"
    and add :: "'n \<Rightarrow> 's \<Rightarrow> ('r \<times> 's) option" and del :: "'r \<Rightarrow> 's \<Rightarrow> 's option"
  assumes add_law: "inv s \<Longrightarrow> fresh s n \<Longrightarrow> add n s = Some (r, s') \<Longrightarrow>
      inv s' \<and> lookup s r = None \<and> lookup s' = (lookup s)(r \<mapsto> n)"
    and fresh_law: "inv s \<Longrightarrow> fresh s n \<longleftrightarrow> n \<notin> ran (lookup s)"
    and del_law: "inv s \<Longrightarrow> lookup s r = Some n \<Longrightarrow>
      \<exists>s'. del r s = Some s' \<and> inv s' \<and> lookup s' = (lookup s)(r := None)"
begin

primrec add_all :: "'n list \<Rightarrow> 's \<Rightarrow> ('r list \<times> 's) option" where
  "add_all [] s = Some ([], s)"
| "add_all (n # ns) s = Option.bind (add n s) (\<lambda>(r, s1). map_option (\<lambda>(rs, s2). (r # rs, s2)) (add_all ns s1))"

primrec del_all :: "'r list \<Rightarrow> 's \<Rightarrow> 's option" where
  "del_all [] s = Some s"
| "del_all (r # rs) s = Option.bind (del r s) (del_all rs)"

lemma add_all_lookup:
  "inv s \<Longrightarrow> distinct ns \<Longrightarrow> \<forall>n\<in>set ns. fresh s n \<Longrightarrow> add_all ns s = Some (rs, s') \<Longrightarrow>
   inv s' \<and> length rs = length ns \<and> distinct rs \<and> (\<forall>r\<in>set rs. lookup s r = None) \<and>
   lookup s' = (lookup s)(rs [\<mapsto>] ns)"
proof (induction ns arbitrary: s rs)
  case (Cons n ns)
  obtain r s1 rs' where a: "add n s = Some (r, s1)" "add_all ns s1 = Some (rs', s')" "rs = r # rs'"
    using Cons.prems(4) by (auto split: Option.bind_splits)
  have l: "inv s1" "lookup s r = None" "lookup s1 = (lookup s)(r \<mapsto> n)"
    using add_law[OF Cons.prems(1) _ a(1)] Cons.prems(3) by simp_all
  have "\<forall>m\<in>set ns. fresh s1 m"
    using Cons.prems(1,2,3) l by (auto simp: fresh_law ran_def)
  with Cons.IH[OF l(1) _ _ a(2)] Cons.prems(2) have "inv s'" "length rs' = length ns" "distinct rs'"
    "\<forall>q\<in>set rs'. lookup s1 q = None" "lookup s' = (lookup s1)(rs' [\<mapsto>] ns)" by simp_all
  then show ?case using a(3) l by (auto split: if_splits)
qed simp

lemma del_all_lookup:
  "inv s \<Longrightarrow> distinct rs \<Longrightarrow> \<forall>r\<in>set rs. lookup s r \<noteq> None \<Longrightarrow>
   \<exists>s'. del_all rs s = Some s' \<and> inv s' \<and> lookup s' = (lookup s) |` (- set rs)"
proof (induction rs arbitrary: s)
  case (Cons r rs)
  then obtain n where "lookup s r = Some n" by auto
  from del_law[OF Cons.prems(1) this] obtain s1 where s1: "del r s = Some s1" "inv s1" "lookup s1 = (lookup s)(r := None)" by blast
  have "\<forall>q\<in>set rs. lookup s1 q \<noteq> None" using Cons.prems(2,3) s1(3) by auto
  from Cons.IH[OF s1(2) _ this] Cons.prems(2) obtain s' where s': "del_all rs s1 = Some s'" "inv s'"
    "lookup s' = (lookup s1) |` (- set rs)" by auto
  have "(lookup s1) |` (- set rs) = (lookup s) |` (- set (r # rs))"
    using s1(3) by (auto simp: restrict_map_def fun_eq_iff)
  then show ?case using s1(1) s' by auto
qed (auto simp: restrict_map_def)

lemma add_all_del_all:
  assumes "inv s" "distinct ns" "\<forall>n\<in>set ns. fresh s n" "add_all ns s = Some (rs, s1)"
  shows "\<exists>s2. del_all rs s1 = Some s2 \<and> inv s2 \<and> lookup s2 = lookup s"
proof -
  have a: "inv s1" "length rs = length ns" "distinct rs" "\<forall>r\<in>set rs. lookup s r = None" "lookup s1 = (lookup s)(rs [\<mapsto>] ns)"
    using add_all_lookup[OF assms] by simp_all
  have "dom (lookup s1) = set rs \<union> dom (lookup s)" using a(2,5) by simp
  then have "\<forall>r\<in>set rs. lookup s1 r \<noteq> None" by blast
  from del_all_lookup[OF a(1,3) this] obtain s2 where s2: "del_all rs s1 = Some s2" "inv s2"
    "lookup s2 = (lookup s1) |` (- set rs)" by blast
  have "(lookup s1) |` (- set rs) = lookup s"
    using a(4) by (auto simp: a(5) restrict_map_def fun_eq_iff map_upds_apply_nontin)
  then show ?thesis using s2 by simp
qed

end

text \<open>The table implements it for every bucket.\<close>

definition mch_ok :: "u32 \<Rightarrow> mchash_table \<Rightarrow> bool" where
  "mch_ok keys t \<longleftrightarrow> unat keys < length (bucket_list t) \<and> (\<exists>B. mch_inv t B)"

definition mch_fresh :: "mchash_table \<Rightarrow> addr \<Rightarrow> bool" where
  "mch_fresh t n \<longleftrightarrow> n \<notin> ran (mch_refs t)"

definition mch_add :: "u32 \<Rightarrow> addr \<Rightarrow> mchash_table \<Rightarrow> ((u32 \<times> u32) \<times> mchash_table) option" where
  "mch_add keys n t = (case MCHASH_APPEND_NODE keys n t of Some (Some r, t') \<Rightarrow> Some (r, t') | _ \<Rightarrow> None)"

definition mch_del :: "u32 \<times> u32 \<Rightarrow> mchash_table \<Rightarrow> mchash_table option" where
  "mch_del r t = (case MCHASH_DELETE_NODE_BY_REF (fst r) (snd r) t of Some (True, t') \<Rightarrow> Some t' | _ \<Rightarrow> None)"

lemma mch_fresh_iff: "mch_inv t B \<Longrightarrow> mch_fresh t n \<longleftrightarrow> (\<forall>k. n \<notin> set (B k))"
  using refs_iff_node[of t B n] by (auto simp: mch_fresh_def ran_def)

interpretation mch: saferef_table "mch_ok keys" mch_fresh mch_refs "mch_add keys" mch_del for keys
proof unfold_locales
  fix s n r s'
  assume ok: "mch_ok keys s" and fr: "mch_fresh s n" and add: "mch_add keys n s = Some (r, s')"
  obtain B where B: "mch_inv s B" and k: "unat keys < length (bucket_list s)" using ok by (auto simp: mch_ok_def)
  have "MCHASH_APPEND_NODE keys n s = Some (Some r, s')"
    using add by (auto simp: mch_add_def split: option.splits prod.splits)
  then have "inserted B keys (B (unat keys)) n [] s (Some (Some r, s'))"
    using append_ok[OF B k] mch_fresh_iff[OF B] fr by metis
  then show "mch_ok keys s' \<and> mch_refs s r = None \<and> mch_refs s' = (mch_refs s)(r \<mapsto> n)"
    using k unfolding inserted_def mch_ok_def by (auto split: if_splits)
next
  show "mch_fresh s n \<longleftrightarrow> n \<notin> ran (mch_refs s)" for s n by (simp add: mch_fresh_def)
next
  fix s r n
  assume ok: "mch_ok keys s" and l: "mch_refs s r = Some n"
  obtain B where B: "mch_inv s B" and k: "unat keys < length (bucket_list s)" using ok by (auto simp: mch_ok_def)
  obtain i m where r: "r = (i, m)" by (cases r)
  note e = refs_entry[OF B l[unfolded r]]
  have "deleted B n s (MCHASH_DELETE_NODE_BY_REF i m s)"
    using delete_by_ref_ok[OF B e(1,3)] l r by simp
  then obtain t' k' where "MCHASH_DELETE_NODE_BY_REF i m s = Some (True, t')" "mch_inv t' (B(k' := remove1 n (B k')))"
    "mch_refs t' = (mch_refs s)((i, m) := None)" "length (bucket_list t') = length (bucket_list s)"
    using e(2,5) unfolding deleted_def by metis
  then show "\<exists>s'. mch_del r s = Some s' \<and> mch_ok keys s' \<and> mch_refs s' = (mch_refs s)(r := None)"
    using k r by (auto simp: mch_del_def mch_ok_def)
qed

section \<open>A concrete table\<close>

definition demo_table :: mchash_table where
  "demo_table = (case mchash_table_create 2 3 True (Some 4096) True
     (\<lambda>_. \<lparr>lk_prev = Null, lk_next = Null, lk_index = 0, lk_key = 0\<rparr>) of Some (Created t) \<Rightarrow> t)"

lemma demo_created: "mchash_table_create 2 3 True (Some 4096) True
    (\<lambda>_. \<lparr>lk_prev = Null, lk_next = Null, lk_index = 0, lk_key = 0\<rparr>) = Some (Created demo_table)"
  by (simp add: demo_table_def mchash_table_create_def)

lemmas demo_facts = create_inv[OF demo_created]

lemma demo_append:
  obtains i t1 where "MCHASH_APPEND_NODE 1 7 demo_table = Some (Some (i, 1), t1)" "mch_inv t1 (\<lambda>k. if k = 1 then [7] else [])"
    "mch_refs t1 = [(i, 1) \<mapsto> 7]" "mt_rcu t1 = []" "length (arr t1) = 3" "length (bucket_list t1) = 2"
    "mch_steps (demo_table, \<lambda>_. []) (Suc 0) (t1, \<lambda>k. if k = 1 then [7] else [])"
proof -
  have k: "unat (1 :: u32) < length (bucket_list demo_table)" using demo_facts by simp
  have "inserted (\<lambda>_. []) 1 [] 7 [] demo_table (MCHASH_APPEND_NODE 1 7 demo_table)"
    using append_ok[OF demo_facts(1) k, of 7] by simp
  then obtain i t1 where t1: "MCHASH_APPEND_NODE 1 7 demo_table = Some (Some (i, 1), t1)"
    "mch_inv t1 ((\<lambda>_. [])(unat (1 :: u32) := [7]))" "mch_refs t1 = (\<lambda>_. None)((i, 1) := Some 7)" "mt_rcu t1 = []"
    "length (bucket_list t1) = length (bucket_list demo_table)" "length (arr t1) = length (arr demo_table)"
    unfolding inserted_def using demo_facts by auto
  have B: "(\<lambda>_. [])(unat (1 :: u32) := [7 :: nat]) = (\<lambda>k. if k = 1 then [7] else [])" by (simp add: fun_eq_iff)
  have st: "mch_steps (demo_table, \<lambda>_. []) (Suc 0) (t1, (\<lambda>_. [])(unat (1 :: u32) := [] @ [7]))"
    by (rule mch_steps.append[OF mch_steps.stay k _ t1(1)]) simp
  show thesis
  proof (rule that[OF t1(1)])
    show "mch_inv t1 (\<lambda>k. if k = 1 then [7] else [])" using t1(2) unfolding B .
    show "mch_refs t1 = [(i, 1) \<mapsto> 7]" using t1(3) .
    show "mt_rcu t1 = []" using t1(4) .
    show "length (arr t1) = 3" "length (bucket_list t1) = 2" using t1(5,6) demo_facts by simp_all
    show "mch_steps (demo_table, \<lambda>_. []) (Suc 0) (t1, \<lambda>k. if k = 1 then [7] else [])"
      using st unfolding append_Nil B .
  qed
qed

section \<open>Properties\<close>

lemma full_iff:
  assumes "mch_inv t B" "free_q_next t = None" shows "active_nodes t = max_nodes t"
proof -
  obtain F where F: "free_ok t F" "active_nodes t + of_nat (length F) = of_nat (length (arr t))"
    using assms(1) by (auto simp: mch_inv_def)
  have "F = []" using F(1) assms(2) by (simp add: free_ok_iff free_chain_def)
  then show ?thesis using F(2) assms(1) by (simp add: mch_inv_def)
qed

lemma inserted_refs:
  assumes "inserted B keys ys n zs t res" "mch_inv t B" "unat keys < length (bucket_list t)" "free_q_next t \<noteq> None"
  shows "\<exists>i t'. res = Some (Some (i, magic_no t), t') \<and> mch_inv t' (B(unat keys := ys @ n # zs)) \<and>
    mch_refs t' = (mch_refs t)((i, magic_no t) \<mapsto> n) \<and> mch_refs t (i, magic_no t) = None \<and>
    MCHASH_ACCESS_NODE i (magic_no t) t' = Some (Some (Some n)) \<and>
    MCHASH_BUCKET_SCAN t' (unat keys) = Some (ys @ n # zs)"
proof -
  obtain i t' where i: "res = Some (Some (i, magic_no t), t')" "mch_inv t' (B(unat keys := ys @ n # zs))"
    "mch_refs t (i, magic_no t) = None" "mch_refs t' = (mch_refs t)((i, magic_no t) := Some n)"
    "length (bucket_list t') = length (bucket_list t)"
    using assms(1,4) unfolding inserted_def by auto
  have r: "mch_refs t' (i, magic_no t) = Some n" using i(4) by simp
  note e = refs_entry[OF i(2) r]
  have "MCHASH_ACCESS_NODE i (magic_no t) t' = Some (Some (Some n))"
    using access_ok[OF i(2) e(1,3)] r by simp
  moreover have "MCHASH_BUCKET_SCAN t' (unat keys) = Some (ys @ n # zs)"
    using bucket_scan_ok[OF i(2), of "unat keys"] i(5) assms(3) by simp
  ultimately show ?thesis using i by blast
qed

text \<open>C5: on a well-formed table, an insertion of a node that is not in it - at the end of a bucket, or
  before or after a node of the bucket - fails exactly when every index is in use, and then changes
  nothing. Otherwise it puts the node at that place, keeps the table well-formed and the other
  references, and returns a new reference through which the node is accessed.\<close>

theorem mchash_insert_correct:
  assumes "mch_inv t B" "unat keys < length (bucket_list t)" "\<forall>j. n \<notin> set (B j)"
    "(res, ys, zs) \<in> {(MCHASH_APPEND_NODE keys n t, B (unat keys), [])} \<union>
       {(MCHASH_INSERT_NODE_AFTER x keys n t, us @ [x], vs) | x us vs. B (unat keys) = us @ x # vs} \<union>
       {(MCHASH_INSERT_NODE_BEFORE x keys n t, us, x # vs) | x us vs. B (unat keys) = us @ x # vs}"
  shows "(free_q_next t = None \<and> active_nodes t = max_nodes t \<and> res = Some (None, t)) \<or>
    (\<exists>i t'. res = Some (Some (i, magic_no t), t') \<and> mch_inv t' (B(unat keys := ys @ n # zs)) \<and>
       mch_refs t' = (mch_refs t)((i, magic_no t) \<mapsto> n) \<and> mch_refs t (i, magic_no t) = None \<and>
       MCHASH_ACCESS_NODE i (magic_no t) t' = Some (Some (Some n)) \<and>
       MCHASH_BUCKET_SCAN t' (unat keys) = Some (ys @ n # zs))"
proof -
  have ins: "inserted B keys ys n zs t res"
    using assms(4) append_ok[OF assms(1-3)] insert_after_ok[OF assms(1-3)] insert_before_ok[OF assms(1-3)] by auto
  show ?thesis
  proof (cases "free_q_next t = None")
    case True
    then show ?thesis using ins full_iff[OF assms(1)] by (simp add: inserted_def)
  qed (use inserted_refs[OF ins assms(1,2)] in blast)
qed

theorem mchash_insert_correct_witness:
  "\<exists>i t'. MCHASH_APPEND_NODE 1 7 demo_table = Some (Some (i, 1), t') \<and> MCHASH_BUCKET_SCAN t' 1 = Some [7] \<and>
    MCHASH_ACCESS_NODE i 1 t' = Some (Some (Some 7))"
proof -
  have "unat (1 :: u32) < length (bucket_list demo_table)" using demo_facts by simp
  from mchash_insert_correct[OF demo_facts(1) this, of 7 "MCHASH_APPEND_NODE 1 7 demo_table" "[]" "[]"]
  show ?thesis using demo_facts by auto
qed

text \<open>C6: a deletion by a reference succeeds exactly when the reference is valid: it unlinks the node,
  invalidates this reference only, hands the node to the RCU callback once and frees its index. A
  deletion by node does the same for a node of the table, whatever the state of its bucket.\<close>

theorem mchash_delete_correct:
  assumes "mch_inv t B" "unat i < length (indirection_array t)" "m \<noteq> 0"
  shows "(case mch_refs t (i, m) of
       None \<Rightarrow> MCHASH_DELETE_NODE_BY_REF i m t = Some (False, t)
     | Some n \<Rightarrow> \<forall>res\<in>{MCHASH_DELETE_NODE_BY_REF i m t, MCHASH_DELETE_NODE n t}. \<exists>t' k. res = Some (True, t') \<and>
         n \<in> set (B k) \<and> mch_inv t' (B(k := remove1 n (B k))) \<and> mch_refs t' = (mch_refs t)((i, m) := None) \<and>
         mt_rcu t' = mt_rcu t @ [n] \<and> MCHASH_ACCESS_NODE i m t' = Some None)"
proof (cases "mch_refs t (i, m)")
  case None
  then show ?thesis using delete_by_ref_ok[OF assms] by simp
next
  case (Some n)
  note e = refs_entry[OF assms(1) Some]
  have "\<exists>t' k. res = Some (True, t') \<and> n \<in> set (B k) \<and> mch_inv t' (B(k := remove1 n (B k))) \<and>
      mch_refs t' = (mch_refs t)((i, m) := None) \<and> mt_rcu t' = mt_rcu t @ [n] \<and> MCHASH_ACCESS_NODE i m t' = Some None"
    if del: "deleted B n t res" for res
  proof -
    obtain t' k where d: "res = Some (True, t')" "n \<in> set (B k)" "mch_inv t' (B(k := remove1 n (B k)))"
      "mch_refs t' = (mch_refs t)((i, m) := None)" "mt_rcu t' = mt_rcu t @ [n]" "length (arr t') = length (arr t)"
      using del e(2,5) unfolding deleted_def by metis
    have "MCHASH_ACCESS_NODE i m t' = Some None"
      using access_ok[OF d(3) _ assms(3), of i] d(4,6) assms(2) by simp
    then show ?thesis using d by blast
  qed
  then show ?thesis
    using Some delete_by_ref_ok[OF assms] delete_node_ok(1)[OF assms(1) e(6)] by simp
qed

theorem mchash_delete_correct_witness:
  "\<exists>i t1 t2. MCHASH_APPEND_NODE 1 7 demo_table = Some (Some (i, 1), t1) \<and>
    MCHASH_DELETE_NODE_BY_REF i 1 t1 = Some (True, t2) \<and> mt_rcu t2 = [7]"
proof -
  obtain i t1 where t1: "MCHASH_APPEND_NODE 1 7 demo_table = Some (Some (i, 1), t1)"
    "mch_inv t1 (\<lambda>k. if k = 1 then [7] else [])" "mch_refs t1 = [(i, 1) \<mapsto> 7]" "mt_rcu t1 = []" by (rule demo_append)
  have r: "mch_refs t1 (i, 1) = Some 7" using t1(3) by simp
  have "unat i < length (indirection_array t1)" by (rule refs_entry(1)[OF t1(2) r])
  from mchash_delete_correct[OF t1(2) this, of 1] show ?thesis using t1 r by auto
qed

text \<open>C4: a reference stays refused after its node was deleted, however the table is used, as long as
  fewer than \<open>2 ^ 32 - 2\<close> nodes are inserted after the one it was issued for; so no node is ever
  reached or deleted through a stale reference within that bound.\<close>

theorem mchash_stale_refused:
  assumes "mch_inv t B" "unat keys < length (bucket_list t)" "\<forall>j. n \<notin> set (B j)"
    "MCHASH_APPEND_NODE keys n t = Some (Some (i, m), t1)"
    "mch_steps (t1, B(unat keys := B (unat keys) @ [n])) c (t2, B2)"
    "MCHASH_DELETE_NODE_BY_REF i m t2 = Some (True, t3)" "mch_refs t2 (i, m) = Some n'" "n' \<in> set (B2 k)"
    "mch_steps (t3, B2(k := remove1 n' (B2 k))) d (t4, B4)"
    "c + d < 2 ^ 32 - 2"
  shows "MCHASH_ACCESS_NODE i m t4 = Some None \<and> MCHASH_DELETE_NODE_BY_REF i m t4 = Some (False, t4)"
proof -
  have ins: "inserted B keys (B (unat keys)) n [] t (Some (Some (i, m), t1))"
    using append_ok[OF assms(1-3)] assms(4) by simp
  then have m: "m = magic_no t" and inv1: "mch_inv t1 (B(unat keys := B (unat keys) @ [n]))"
    and mn1: "magic_no t1 = next_magic m" unfolding inserted_def by (auto split: if_splits)
  have m0: "m \<noteq> 0" using assms(1) m by (simp add: mch_inv_def)
  have inv2: "mch_inv t2 B2" and f12: "mch_frame t1 c t2" using mch_steps_frame[OF assms(5)] inv1 by simp_all
  note e = refs_entry[OF inv2 assms(7)]
  have "deleted B2 n' t2 (Some (True, t3))" using delete_by_ref_ok[OF inv2 e(1,3)] assms(6,7) by simp
  then obtain k' where k': "n' \<in> set (B2 k')" "mch_inv t3 (B2(k' := remove1 n' (B2 k')))"
    "mch_refs t3 (i, m) = None" "magic_no t3 = magic_no t2" "length (arr t3) = length (arr t2)"
    using e(2,5) unfolding deleted_def by auto
  have kk: "k' = k" by (rule mch_inv_disjoint[OF inv2 k'(1) assms(8)])
  have inv4: "mch_inv t4 B4" and f34: "mch_frame t3 d t4" using mch_steps_frame[OF assms(9)] k'(2) kk by simp_all
  have mn3: "magic_no t3 = (next_magic ^^ Suc c) m"
    using f12 k'(4) mn1 by (simp add: mch_frame_def funpow_swap1)
  have "\<forall>j<d. m \<noteq> (next_magic ^^ j) (magic_no t3)"
  proof (intro allI impI)
    fix j assume j: "j < d"
    have "(next_magic ^^ j) (magic_no t3) = (next_magic ^^ (j + Suc c)) m" unfolding mn3 by (simp only: funpow_add o_apply)
    moreover have "(next_magic ^^ (j + Suc c)) m \<noteq> m"
      by (rule magic_not_reused[OF m0]) (use j assms(10) in simp_all)
    ultimately show "m \<noteq> (next_magic ^^ j) (magic_no t3)" by simp
  qed
  then have none: "mch_refs t4 (i, m) = None" using f34 k'(3) unfolding mch_frame_def by fastforce
  have il: "unat i < length (arr t4)" using f34 e(1) k'(5) by (simp add: mch_frame_def)
  show ?thesis using access_ok[OF inv4 il m0] delete_by_ref_ok[OF inv4 il m0] none by simp
qed

theorem mchash_stale_refused_witness:
  "\<exists>i t1 t2. MCHASH_APPEND_NODE 1 7 demo_table = Some (Some (i, 1), t1) \<and>
    MCHASH_DELETE_NODE_BY_REF i 1 t1 = Some (True, t2) \<and> MCHASH_ACCESS_NODE i 1 t2 = Some None"
proof -
  obtain i t1 where t1: "MCHASH_APPEND_NODE 1 7 demo_table = Some (Some (i, 1), t1)"
    "mch_inv t1 (\<lambda>k. if k = 1 then [7] else [])" "mch_refs t1 = [(i, 1) \<mapsto> 7]" by (rule demo_append)
  have r: "mch_refs t1 (i, 1) = Some 7" using t1(3) by simp
  have "deleted (\<lambda>k. if k = 1 then [7] else []) 7 t1 (MCHASH_DELETE_NODE_BY_REF i 1 t1)"
    using delete_by_ref_ok[OF t1(2) refs_entry(1)[OF t1(2) r], of 1] r by simp
  then obtain t2 where t2: "MCHASH_DELETE_NODE_BY_REF i 1 t1 = Some (True, t2)" by (auto simp: deleted_def)
  have k: "unat (1 :: u32) < length (bucket_list demo_table)" using demo_facts by simp
  have n: "\<forall>j. (7 :: nat) \<notin> set []" by simp
  from mchash_stale_refused[OF demo_facts(1) k n t1(1) mch_steps.stay t2 r _ mch_steps.stay, of "unat (1 :: u32)"]
  show ?thesis using t1(1) t2 by auto
qed

text \<open>C3: from a new table, any use keeps the table well-formed: the scan of all buckets visits exactly the
  nodes inserted and not deleted, once each, bucket by bucket, and every reference that led to a
  node leads to it until that node is deleted.\<close>

theorem mchash_run_safe:
  assumes "mchash_table_create bs mx True base ok links = Some (Created t0)"
    "mch_steps (t0, \<lambda>_. []) c (t1, B1)" "mch_refs t1 r = Some n" "mch_steps (t1, B1) d (t2, B2)"
  shows "mch_inv t2 B2 \<and> MCHASH_TABLE_SCAN t2 = Some (map B2 [0..<unat bs]) \<and>
    (\<forall>k k' x. x \<in> set (B2 k) \<longrightarrow> x \<in> set (B2 k') \<longrightarrow> k = k') \<and> (\<forall>k. distinct (B2 k)) \<and>
    (MCHASH_ACCESS_NODE (fst r) (snd r) t2 = Some (Some (Some n)) \<or> n \<in> set (drop (length (mt_rcu t1)) (mt_rcu t2)))"
proof -
  have inv1: "mch_inv t1 B1" and f01: "mch_frame t0 c t1"
    using mch_steps_frame[OF assms(2)] create_inv(1)[OF assms(1)] by simp_all
  have inv2: "mch_inv t2 B2" and f12: "mch_frame t1 d t2" using mch_steps_frame[OF assms(4)] inv1 by simp_all
  obtain gone where g: "mt_rcu t2 = mt_rcu t1 @ gone" "\<forall>r n. mch_refs t1 r = Some n \<longrightarrow> n \<notin> set gone \<longrightarrow> mch_refs t2 r = Some n"
    using f12 unfolding mch_frame_def by blast
  have len: "length (bucket_list t2) = unat bs" using f01 f12 create_inv(5)[OF assms(1)] by (simp add: mch_frame_def)
  have "MCHASH_ACCESS_NODE (fst r) (snd r) t2 = Some (Some (Some n))" if "n \<notin> set gone"
  proof -
    have r: "mch_refs t2 (fst r, snd r) = Some n" using g(2) assms(3) that by (metis prod.collapse)
    show ?thesis using access_ok[OF inv2 refs_entry(1,3)[OF inv2 r]] r by simp
  qed
  moreover have "\<forall>k. distinct (B2 k)" using inv2 unfolding mch_inv_def by blast
  ultimately show ?thesis using inv2 table_scan_ok[OF inv2] len g(1) mch_inv_disjoint[OF inv2] by auto
qed

theorem mchash_run_safe_witness:
  "\<exists>i t1. MCHASH_APPEND_NODE 1 7 demo_table = Some (Some (i, 1), t1) \<and>
    MCHASH_TABLE_SCAN t1 = Some [[], [7]] \<and> MCHASH_ACCESS_NODE i 1 t1 = Some (Some (Some 7))"
proof -
  obtain i t1 where t1: "MCHASH_APPEND_NODE 1 7 demo_table = Some (Some (i, 1), t1)" "mch_refs t1 = [(i, 1) \<mapsto> 7]"
    "mch_steps (demo_table, \<lambda>_. []) (Suc 0) (t1, \<lambda>k. if k = 1 then [7] else [])" by (rule demo_append)
  have r: "mch_refs t1 (i, 1) = Some 7" using t1(2) by simp
  from mchash_run_safe[OF demo_created t1(3) r mch_steps.stay] show ?thesis using t1(1) by (auto simp: upt_rec)
qed

text \<open>Adding any list of new nodes to a bucket, as far as there is room, and deleting them by the
  references returned, restores the meaning of every reference.\<close>

theorem mchash_add_all_del_all:
  assumes "mch_ok keys t" "distinct ns" "\<forall>n\<in>set ns. mch_fresh t n" "mch.add_all keys ns t = Some (rs, t1)"
  shows "distinct rs \<and> mch_refs t1 = (mch_refs t)(rs [\<mapsto>] ns) \<and>
    (\<exists>t2. mch.del_all rs t1 = Some t2 \<and> mch_ok keys t2 \<and> mch_refs t2 = mch_refs t)"
  using mch.add_all_lookup[OF assms] mch.add_all_del_all[OF assms] by auto

theorem mchash_add_all_del_all_witness:
  "\<exists>rs t1 t2. mch.add_all 1 [7] demo_table = Some (rs, t1) \<and> mch.del_all rs t1 = Some t2 \<and> mch_refs t2 = (\<lambda>_. None)"
proof -
  obtain i t1 where t1: "MCHASH_APPEND_NODE 1 7 demo_table = Some (Some (i, 1), t1)" by (rule demo_append)
  have ok: "mch_ok 1 demo_table" using demo_facts by (auto simp: mch_ok_def)
  have fr: "\<forall>n\<in>set [7]. mch_fresh demo_table n" using demo_facts(2) by (simp add: mch_fresh_def)
  have "mch.add_all 1 [7] demo_table = Some ([(i, 1)], t1)" using t1 by (simp add: mch_add_def)
  from mchash_add_all_del_all[OF ok _ fr this] this show ?thesis using demo_facts(2) by auto
qed

text \<open>No check guards the magic number 0, which marks free indices: an access with it to a free index
  reports success and a NULL node, and a deletion with it dereferences that NULL.\<close>

theorem mchash_magic_zero:
  assumes "mch_inv t B" "unat i < length (indirection_array t)" "ae_node (indirection_array t ! unat i) = None"
  shows "MCHASH_ACCESS_NODE i 0 t = Some (Some None) \<and> MCHASH_DELETE_NODE_BY_REF i 0 t = None"
proof -
  have "ae_magic (arr t ! unat i) = 0" using assms by (auto simp: mch_inv_def entries_ok_def)
  then show ?thesis using assms(2,3) by (simp add: MCHASH_ACCESS_NODE_def MCHASH_DELETE_NODE_BY_REF_def)
qed

theorem mchash_magic_zero_witness:
  "MCHASH_ACCESS_NODE 0 0 demo_table = Some (Some None)"
proof -
  have "ae_node (indirection_array demo_table ! unat (0 :: u32)) = None"
    by (simp add: demo_table_def mchash_table_create_def free_entry_def upt_rec)
  then show ?thesis using mchash_magic_zero[OF demo_facts(1), of 0] demo_facts by simp
qed

end
