(* ===== verification/Mchash_Client.thy ===== *)
theory Mchash_Client
  imports Mchash
begin

text \<open>
  What the users of the safe-reference hash table share: the hash of a name, the handles that pack a
  reference in 64 bits, and the scans that enumerate a table. The macros are copied from module to
  module of the sources with other prefixes; the names here are those of the cloud resource manager.
\<close>

section \<open>Hashes\<close>

text \<open>\<^verbatim>\<open>CRM_DOBBS_MIX\<close> and \<^verbatim>\<open>CRM_DOBBS_WORDS4\<close> work on \<^verbatim>\<open>unsigned long\<close>, which has 64 bits.\<close>

definition CRM_DOBBS_MIX :: "u64 \<times> u64 \<times> u64 \<Rightarrow> u64 \<times> u64 \<times> u64" where
  "CRM_DOBBS_MIX = (\<lambda>(a0, b0, c0).
     let a1 = (a0 - b0 - c0) XOR drop_bit 13 c0; b1 = (b0 - c0 - a1) XOR push_bit 8 a1;
         c1 = (c0 - a1 - b1) XOR drop_bit 13 b1; a2 = (a1 - b1 - c1) XOR drop_bit 12 c1;
         b2 = (b1 - c1 - a2) XOR push_bit 16 a2; c2 = (c1 - a2 - b2) XOR drop_bit 5 b2;
         a3 = (a2 - b2 - c2) XOR drop_bit 3 c2; b3 = (b2 - c2 - a3) XOR push_bit 10 a3;
         c3 = (c2 - a3 - b3) XOR drop_bit 15 b3
     in (a3, b3, c3))"

definition CRM_DOBBS_WORDS4 :: "u32 \<Rightarrow> u32 \<Rightarrow> u32 \<Rightarrow> u32 \<Rightarrow> u64 \<Rightarrow> u32 \<Rightarrow> u32" where
  "CRM_DOBBS_WORDS4 word_a word_b word_c word_d initval hashmask =
     (let (a, b, c) = CRM_DOBBS_MIX (0x9e3779b9 + ucast word_a, 0x9e3779b9 + ucast word_b, initval + ucast word_c);
          (a', b', c') = CRM_DOBBS_MIX (a + ucast word_d, b, c)
      in ucast (c' AND ucast (hashmask - 1)))"

text \<open>The first sixteen bytes of the name, padded with zeros, as four little-endian words.\<close>

definition name_byte :: "string \<Rightarrow> nat \<Rightarrow> u32" where
  "name_byte s i = (if i < min 16 (length s) then of_char (s ! i) else 0)"

definition name_word :: "string \<Rightarrow> nat \<Rightarrow> u32" where
  "name_word s k = name_byte s (4 * k) OR push_bit 8 (name_byte s (4 * k + 1)) OR
     push_bit 16 (name_byte s (4 * k + 2)) OR push_bit 24 (name_byte s (4 * k + 3))"

section \<open>Handles\<close>

text \<open>A handle packs the magic number and the index of a safe reference.\<close>

definition handle_of :: "u32 \<Rightarrow> u32 \<Rightarrow> u64" where
  "handle_of magic index = push_bit 32 (ucast magic) OR ucast index"

definition magic_of :: "u64 \<Rightarrow> u32" where "magic_of h = ucast (drop_bit 32 h)"
definition index_of :: "u64 \<Rightarrow> u32" where "index_of h = ucast h"

section \<open>Scans\<close>

text \<open>The nested scans of the operations that enumerate a table, such as \<^verbatim>\<open>crm_get_first_tenant\<close> and
  \<^verbatim>\<open>crm_get_next_tenant\<close>, over the given buckets; the second carries the flag that the current entry was
  found.\<close>

fun first_scan :: "mchash_table \<Rightarrow> nat list \<Rightarrow> ptr option" where
  "first_scan t [] = Some None"
| "first_scan t (k # ks) = Option.bind (find_in_bucket t (\<lambda>_. True) k)
     (\<lambda>p. case p of None \<Rightarrow> first_scan t ks | Some n \<Rightarrow> Some (Some n))"

partial_function (option) bucket_next :: "mchash_table \<Rightarrow> (addr \<Rightarrow> bool) \<Rightarrow> bool \<Rightarrow> dll_ref \<Rightarrow> (bool \<times> ptr) option" where
  "bucket_next t P found r = (if r = Null then Some (found, None) else if is_Head r then None
     else if found then Some (True, Some (link_node r)) else bucket_next t P (P (link_node r)) (rd_next r t))"

fun next_scan :: "mchash_table \<Rightarrow> (addr \<Rightarrow> bool) \<Rightarrow> bool \<Rightarrow> nat list \<Rightarrow> (bool \<times> ptr) option" where
  "next_scan t P found [] = Some (found, None)"
| "next_scan t P found (k # ks) =
     (if k < length (bucket_list t)
      then Option.bind (bucket_next t P found (bk_head_next (bucket_list t ! k)))
        (\<lambda>(f, p). case p of None \<Rightarrow> next_scan t P f ks | Some n \<Rightarrow> Some (f, Some n))
      else None)"

section \<open>Hash and handle\<close>

lemma dobbs_bound:
  assumes "n \<noteq> 0" shows "unat (CRM_DOBBS_WORDS4 a b c d i n) < unat n"
proof -
  have le: "(x AND ucast (n - 1) :: u64) \<le> ucast (n - 1)" for x by (rule word_and_le1)
  have "unat (ucast (x AND ucast (n - 1) :: u64) :: u32) \<le> unat (n - 1)" for x :: u64
  proof -
    have "unat (ucast (x AND ucast (n - 1) :: u64) :: u32) \<le> unat (x AND ucast (n - 1))"
      by (simp add: unsigned_ucast_eq)
    also have "\<dots> \<le> unat (ucast (n - 1) :: u64)" using le word_le_nat_alt by blast
    also have "\<dots> = unat (n - 1)" by (simp add: unsigned_ucast_eq take_bit_nat_eq_self less_trans[OF unat_u32_less])
    finally show ?thesis .
  qed
  moreover have "unat (n - 1) < unat n" using assms by (simp add: unat_minus_one unat_gt_0)
  ultimately show ?thesis
    unfolding CRM_DOBBS_WORDS4_def by (auto simp: split_def Let_def intro: le_less_trans)
qed

lemma handle_sel [simp]: "index_of (handle_of m i) = i" "magic_of (handle_of m i) = m"
  by (rule bit_word_eqI; auto simp: index_of_def magic_of_def handle_of_def bit_simps dest: bit_imp_le_length)+

lemma handle_eq: "handle_of (magic_of h) (index_of h) = h"
  by (rule bit_word_eqI) (auto simp: index_of_def magic_of_def handle_of_def bit_simps not_less)

lemma handle_iff: "(index_of h, magic_of h) = (i, m) \<longleftrightarrow> h = handle_of m i"
  using handle_eq[of h] by auto

section \<open>Searching the table\<close>

lemma bucket_next_dl:
  "dl (mt_links t) P xs Null \<Longrightarrow> bucket_next t Q True (first_ref xs Null) = Some (True, if xs = [] then None else Some (hd xs))"
  "dl (mt_links t) P xs Null \<Longrightarrow> bucket_next t Q False (first_ref xs Null) =
     Some (case dropWhile (\<lambda>x. \<not> Q x) xs of [] \<Rightarrow> (False, None) | _ # zs \<Rightarrow> (True, if zs = [] then None else Some (hd zs)))"
proof -
  show first: "bucket_next t Q True (first_ref xs Null) = Some (True, if xs = [] then None else Some (hd xs))"
    if "dl (mt_links t) P xs Null" for xs P
    using that by (cases xs) (simp_all add: bucket_next.simps[of _ _ _ Null] bucket_next.simps[of _ _ _ "Link _"])
  show "bucket_next t Q False (first_ref xs Null) =
     Some (case dropWhile (\<lambda>x. \<not> Q x) xs of [] \<Rightarrow> (False, None) | _ # zs \<Rightarrow> (True, if zs = [] then None else Some (hd zs)))"
    if "dl (mt_links t) P xs Null"
    using that
  proof (induction xs arbitrary: P)
    case Nil
    show ?case by (simp add: bucket_next.simps[of _ _ _ Null])
  next
    case (Cons x xs)
    have n: "rd_next (Link x) t = first_ref xs Null" using Cons.prems by (simp add: first_ref_def)
    have d: "dl (mt_links t) {Link x} xs Null" using Cons.prems by simp
    show ?case using Cons.IH[OF d] first[OF d] n by (simp add: bucket_next.simps[of _ _ _ "Link _"])
  qed
qed

lemma first_scan_ok:
  assumes "mch_inv t B" "\<forall>k\<in>set ks. k < length (bucket_list t)"
  shows "first_scan t ks = Some (case concat (map B ks) of [] \<Rightarrow> None | n # _ \<Rightarrow> Some n)"
  using assms(2)
proof (induction ks)
  case (Cons k ks)
  have "find_in_bucket t (\<lambda>_. True) k = Some (case B k of [] \<Rightarrow> None | n # _ \<Rightarrow> Some n)"
    using find_in_bucket_ok[OF assms(1), of k "\<lambda>_. True"] Cons.prems by (cases "B k") auto
  then show ?case using Cons by (cases "B k") auto
qed simp

lemma dropWhile_append_case:
  "dropWhile P (xs @ ys) = (case dropWhile P xs of [] \<Rightarrow> dropWhile P ys | z # zs \<Rightarrow> z # zs @ ys)"
  by (induction xs) auto

lemma next_scan_ok:
  assumes inv: "mch_inv t B"
  shows "\<forall>k\<in>set ks. k < length (bucket_list t) \<Longrightarrow>
      next_scan t Q True ks = Some (True, case concat (map B ks) of [] \<Rightarrow> None | n # _ \<Rightarrow> Some n)"
    "\<forall>k\<in>set ks. k < length (bucket_list t) \<Longrightarrow>
      next_scan t Q False ks = Some (case dropWhile (\<lambda>x. \<not> Q x) (concat (map B ks)) of [] \<Rightarrow> (False, None)
        | _ # zs \<Rightarrow> (True, case zs of [] \<Rightarrow> None | n # _ \<Rightarrow> Some n))"
proof -
  have b: "bk_head_next (bucket_list t ! k) = first_ref (B k) Null" "dl (mt_links t) {Null, Head k} (B k) Null"
    if "k < length (bucket_list t)" for k using mch_bucket(1)[OF inv that] by (auto simp: bucket_ok_def)
  show found: "next_scan t Q True ks = Some (True, case concat (map B ks) of [] \<Rightarrow> None | n # _ \<Rightarrow> Some n)"
    if "\<forall>k\<in>set ks. k < length (bucket_list t)" for ks
    using that
  proof (induction ks)
    case (Cons k ks)
    then show ?case using b[of k] bucket_next_dl(1)[OF b(2)[of k], of Q] by (cases "B k") auto
  qed simp
  show "next_scan t Q False ks = Some (case dropWhile (\<lambda>x. \<not> Q x) (concat (map B ks)) of [] \<Rightarrow> (False, None)
        | _ # zs \<Rightarrow> (True, case zs of [] \<Rightarrow> None | n # _ \<Rightarrow> Some n))"
    if "\<forall>k\<in>set ks. k < length (bucket_list t)"
    using that
  proof (induction ks)
    case (Cons k ks)
    have k: "k < length (bucket_list t)" using Cons.prems by simp
    note dw = dropWhile_append_case[of _ "B k"]
    show ?case
    proof (cases "dropWhile (\<lambda>x. \<not> Q x) (B k)")
      case Nil
      then show ?thesis using bucket_next_dl(2)[OF b(2)[OF k], of Q] b(1)[OF k] k Cons dw
        by (simp del: dropWhile_eq_Nil_conv)
    next
      case (Cons z zs)
      then show ?thesis using bucket_next_dl(2)[OF b(2)[OF k], of Q] b(1)[OF k] k dw found[of ks] Cons.prems
        by (cases zs) (simp_all del: dropWhile_eq_Nil_conv)
    qed
  qed simp
qed

section \<open>Nodes\<close>

lemma in_nodes: "n \<in> nodes B \<longleftrightarrow> (\<exists>k. n \<in> set (B k))" by (simp add: nodes_def)

lemma nodesI: "n \<in> set (B k) \<Longrightarrow> n \<in> nodes B" by (auto simp: nodes_def)

lemma nodes_append: "n \<notin> nodes B \<Longrightarrow> nodes (B(k := B k @ [n])) = insert n (nodes B)"
  by (auto simp: nodes_def split: if_splits)

lemma nodes_remove:
  assumes "mch_inv t B" "n \<in> set (B k)" shows "nodes (B(k := remove1 n (B k))) = nodes B - {n}"
proof -
  have "distinct (B k)" using assms(1) by (simp add: mch_inv_def)
  moreover have "n \<notin> set (B j)" if "j \<noteq> k" for j using mch_inv_disjoint[OF assms(1)] assms(2) that by blast
  ultimately have "set ((B(k := remove1 n (B k))) j) = set (B j) - {n}" for j by (cases "j = k") auto
  then show ?thesis unfolding nodes_def by blast
qed

lemma find_SomeD: "List.find Q xs = Some n \<Longrightarrow> n \<in> set xs \<and> Q n" by (auto simp: find_Some_iff)

lemma full_card:
  assumes inv: "mch_inv t B" and full: "free_q_next t = None"
  shows "card (nodes B) = length (arr t)"
proof -
  obtain F where F: "free_ok t F" using inv by (auto simp: mch_inv_def)
  have "F = []" using F full by (simp add: free_ok_iff free_chain_def)
  then have used: "ae_node (arr t ! i) \<noteq> None" if "i < length (arr t)" for i using F that by (auto simp: free_ok_def)
  have ent: "entries_ok t B" using inv by (simp add: mch_inv_def)
  have bij: "bij_betw (\<lambda>n. unat (lk_index (mt_links t n))) (nodes B) {..<length (arr t)}"
  proof (rule bij_betw_byWitness[where f' = "\<lambda>i. the (ae_node (arr t ! i))"])
    show "\<forall>n\<in>nodes B. the (ae_node (arr t ! unat (lk_index (mt_links t n)))) = n"
      using ent by (auto simp: nodes_def entries_ok_def)
    show "\<forall>i\<in>{..<length (arr t)}. unat (lk_index (mt_links t (the (ae_node (arr t ! i))))) = i"
      using ent used by (auto simp: entries_ok_def)
    show "(\<lambda>n. unat (lk_index (mt_links t n))) ` nodes B \<subseteq> {..<length (arr t)}"
      using ent by (auto simp: nodes_def entries_ok_def)
    show "(\<lambda>i. the (ae_node (arr t ! i))) ` {..<length (arr t)} \<subseteq> nodes B"
    proof safe
      fix i assume "i < length (arr t)"
      with used[OF this] ent show "the (ae_node (arr t ! i)) \<in> nodes B" unfolding nodes_def entries_ok_def by fastforce
    qed
  qed
  then show ?thesis using bij_betw_same_card[OF bij] by simp
qed

lemma put_entry_links: "put_entry i t = Some t' \<Longrightarrow> mt_links t' = mt_links t"
  by (auto simp: put_entry_def Let_def set_entry_def split: option.splits if_splits)

lemma delete_keeps_link:
  assumes inv: "mch_inv t B" and n: "n \<in> set (B k)" and del: "MCHASH_DELETE_NODE n t = Some (True, t')"
  shows "mt_links t' n = mt_links t n"
proof -
  let ?i = "unat (lk_index (mt_links t n))"
  let ?u = "set_entry ?i (ae_node_update (\<lambda>_. None)) (set_entry ?i (ae_magic_update (\<lambda>_. 0)) t)"
  have e: "k < length (bucket_list t)" "unat (lk_key (mt_links t n)) = k"
    using inv n by (auto simp: mch_inv_def entries_ok_def)
  obtain ys zs where B: "B k = ys @ n # zs" using n by (auto dest: split_list)
  have d: "distinct (ys @ n # zs)" using mch_bucket(2)[OF inv e(1)] B by simp
  have "bucket_ok ?u k (ys @ n # zs) = bucket_ok t k (ys @ n # zs)" by (rule bucket_ok_cong) simp_all
  then have "bucket_ok ?u k (ys @ n # zs)" using mch_bucket(1)[OF inv e(1)] B by simp
  from unlink_ok[OF this _ d] e obtain u1 where u1: "bucket_unlink k n ?u = Some u1" "only_bucket k (set (ys @ zs)) ?u u1"
    by auto
  have "mt_links u1 n = mt_links ?u n" using u1(2) d unfolding only_bucket_def by auto
  moreover obtain t2 where "put_entry ?i u1 = Some t2" "t' = t2\<lparr>mt_rcu := mt_rcu t2 @ [n]\<rparr>"
    using del u1(1) e by (auto simp: MCHASH_DELETE_NODE_def Let_def split: if_splits)
  ultimately show ?thesis using put_entry_links by simp
qed

lemma delete_by_ref_keeps_link:
  assumes inv: "mch_inv t B" and r: "mch_refs t (i, m) = Some n" and del: "MCHASH_DELETE_NODE_BY_REF i m t = Some (True, t')"
  shows "mt_links t' n = mt_links t n"
proof -
  note e = refs_entry[OF inv r]
  let ?k = "unat (lk_key (mt_links t n))" and ?u = "set_entry (unat i) (ae_magic_update (\<lambda>_. 0)) t"
  obtain ys zs where B: "B ?k = ys @ n # zs" using e(6) by (auto dest: split_list)
  have d: "distinct (ys @ n # zs)" using mch_bucket(2)[OF inv e(7)] B by simp
  have "bucket_ok ?u ?k (ys @ n # zs) = bucket_ok t ?k (ys @ n # zs)" by (rule bucket_ok_cong) simp_all
  then have "bucket_ok ?u ?k (ys @ n # zs)" using mch_bucket(1)[OF inv e(7)] B by simp
  from unlink_ok[OF this _ d] e(7) obtain u1 where u1: "bucket_unlink ?k n ?u = Some u1" "only_bucket ?k (set (ys @ zs)) ?u u1"
    by auto
  have "mt_links u1 n = mt_links ?u n" using u1(2) d unfolding only_bucket_def by auto
  moreover have "put_entry (unat i) ((set_entry (unat i) (ae_node_update (\<lambda>_. None)) u1)\<lparr>mt_rcu := mt_rcu u1 @ [n]\<rparr>) = Some t'"
    using del u1(1) e by (simp add: MCHASH_DELETE_NODE_BY_REF_def Let_def)
  ultimately show ?thesis using put_entry_links by fastforce
qed

lemma nodes_refs: "mch_inv t B \<Longrightarrow> ran (mch_refs t) = nodes B"
  using refs_iff_node[of t B] by (auto simp: ran_def in_nodes)

end
