(* ===== verification/Crm_Tenant.thy ===== *)
theory Crm_Tenant
  imports Crm_Attribute Mchash_Client
begin

text \<open>
  The tenants of the cloud resource manager (\<^verbatim>\<open>crm/crm_tenant_api.c\<close>). Tenants are nodes of a safe
  reference hash table, by a hash of their name; a tenant handle is the safe reference packed in 64
  bits. A tenant carries two lists, its virtual networks and its attributes. Applications register for
  notifications per event type. The calls of the callbacks and of the view database are recorded in a
  trace; both only read what they are given.
\<close>

section \<open>Hash of a name\<close>

definition crm_get_hashval_byname :: "string \<Rightarrow> u32 \<Rightarrow> u32" where
  "crm_get_hashval_byname s no_of_buckets =
     CRM_DOBBS_WORDS4 (name_word s 0) (name_word s 1) (name_word s 2) (name_word s 3) 0xa2956174 no_of_buckets"

section \<open>State\<close>

abbreviation CRM_MAX_TENANT_NAME_LEN :: nat where "CRM_MAX_TENANT_NAME_LEN \<equiv> 128"
abbreviation CRM_MAX_VN_NAME_LEN :: nat where "CRM_MAX_VN_NAME_LEN \<equiv> 128"
abbreviation CRM_TENANT_ALL_NOTIFICATIONS :: nat where "CRM_TENANT_ALL_NOTIFICATIONS \<equiv> 0"
abbreviation CRM_TENANT_ADDED :: nat where "CRM_TENANT_ADDED \<equiv> 1"
abbreviation CRM_TENANT_DELETE :: nat where "CRM_TENANT_DELETE \<equiv> 2"
abbreviation CRM_TENANT_ATTRIBUTE_ADDED :: nat where "CRM_TENANT_ATTRIBUTE_ADDED \<equiv> 4"
abbreviation CRM_TENANT_ATTRIBUTE_DELETE :: nat where "CRM_TENANT_ATTRIBUTE_DELETE \<equiv> 5"
abbreviation CRM_TENANT_LAST_NOTIFICATION_TYPE :: nat where "CRM_TENANT_LAST_NOTIFICATION_TYPE \<equiv> 6"

text \<open>A tenant; its \<^verbatim>\<open>mchash_table_link\<close> is kept with the table.\<close>

record crm_tenant =
  tn_tenant_name :: string
  number_of_virtual_networks :: u32
  list_of_virtual_networks :: of_list
  number_of_attributes :: u32
  tn_attributes :: of_list
  tn_heap_b :: u8
  tn_magic :: u32
  tn_index :: u32
  tn_handle :: u64

record crm_tenant_vn_list =
  vl_heap_b :: u8
  vl_nw_name :: string
  vl_tenant_entry :: addr

record 'c crm_notification_app_hook_info =
  hk_call_back :: 'c
  hk_cbk_arg1 :: ptr
  hk_cbk_arg2 :: ptr
  hk_heap_b :: u8

text \<open>A string field that was never written is \<^term>\<open>None\<close>.\<close>

record crm_tenant_notification_data =
  nd_tenant_name :: "string option"
  nd_attribute_name :: "string option"
  nd_attribute_value :: "string option"

datatype 'c crm_call =
    Notify 'c nat u64 crm_tenant_notification_data ptr ptr
  | Create_view u64 string string
  | Remove_view string string

record 'c crm_sys =
  crm_tenant_table_g :: "mchash_table option"
  crm_no_of_tenant_buckets_g :: u32
  crm_tenant_mempool_g :: ptr
  crm_tenant_vnnames_mempool_g :: ptr
  crm_attributes_mempool_g :: ptr
  crm_notifications_mempool_g :: ptr
  crm_tenant_notifications :: "of_list list"
  cr_tenants :: "addr \<Rightarrow> crm_tenant"
  cr_attrs :: attr_store
  cr_vns :: "addr \<Rightarrow> crm_tenant_vn_list"
  cr_hooks :: "addr \<Rightarrow> 'c crm_notification_app_hook_info"
  cr_links :: links
  cr_rcu :: "addr list"
  cr_mem :: mem_sys
  cr_calls :: "'c crm_call list"
  cr_read_depth :: nat

text \<open>The memory environment, the indeterminate initial value of the local \<^verbatim>\<open>heap_b\<close>, the offset of the
  table link in a tenant, which depends on the platform, and the string that is found where the name of a
  tenant would be if its link were at that offset modulo 256.\<close>

record crm_env =
  ce_mem :: mem_env
  ce_heap_b :: u8
  ce_tbl_offset :: nat
  ce_string_at :: "addr \<Rightarrow> string"

section \<open>Access\<close>

definition rcu_lock :: "'c crm_sys \<Rightarrow> 'c crm_sys" where
  "rcu_lock s = s\<lparr>cr_read_depth := cr_read_depth s + 1\<rparr>"

definition rcu_unlock :: "'c crm_sys \<Rightarrow> 'c crm_sys" where
  "rcu_unlock s = s\<lparr>cr_read_depth := cr_read_depth s - 1\<rparr>"

text \<open>The lists of the component.\<close>

datatype crm_list = Attrs addr | Vns addr | Hooks nat

fun get_lst :: "'c crm_sys \<Rightarrow> crm_list \<Rightarrow> of_list_st" where
  "get_lst s (Attrs n) = (cr_links s, tn_attributes (cr_tenants s n), cr_rcu s)"
| "get_lst s (Vns n) = (cr_links s, list_of_virtual_networks (cr_tenants s n), cr_rcu s)"
| "get_lst s (Hooks i) = (cr_links s, crm_tenant_notifications s ! i, cr_rcu s)"

fun put_lst :: "crm_list \<Rightarrow> of_list_st \<Rightarrow> 'c crm_sys \<Rightarrow> 'c crm_sys" where
  "put_lst (Attrs n) (nx, l, rcu) s = s\<lparr>cr_links := nx, cr_rcu := rcu,
     cr_tenants := (cr_tenants s)(n := (cr_tenants s n)\<lparr>tn_attributes := l\<rparr>)\<rparr>"
| "put_lst (Vns n) (nx, l, rcu) s = s\<lparr>cr_links := nx, cr_rcu := rcu,
     cr_tenants := (cr_tenants s)(n := (cr_tenants s n)\<lparr>list_of_virtual_networks := l\<rparr>)\<rparr>"
| "put_lst (Hooks i) (nx, l, rcu) s = s\<lparr>cr_links := nx, cr_rcu := rcu,
     crm_tenant_notifications := (crm_tenant_notifications s)[i := l]\<rparr>"

definition name_bucket :: "'c crm_sys \<Rightarrow> string \<Rightarrow> nat" where
  "name_bucket s nm = unat (crm_get_hashval_byname nm (crm_no_of_tenant_buckets_g s))"

text \<open>The return code and the handle if it is stored.\<close>

definition crm_get_tenant_handle :: "string \<Rightarrow> 'c crm_sys \<Rightarrow> (int \<times> u64 option) option" where
  "crm_get_tenant_handle nm s =
    (case crm_tenant_table_g s of None \<Rightarrow> Some (CRM_FAILURE, None)
     | Some t \<Rightarrow> map_option (\<lambda>p. case p of None \<Rightarrow> (CRM_ERROR_TENANT_NAME_INVALID, None)
           | Some n \<Rightarrow> (CRM_SUCCESS, Some (handle_of (tn_magic (cr_tenants s n)) (tn_index (cr_tenants s n)))))
         (find_in_bucket t (\<lambda>n. tn_tenant_name (cr_tenants s n) = nm) (name_bucket s nm)))"

text \<open>The table is not checked for NULL; the tenant can be NULL.\<close>

definition get_tenant_byhandle :: "u64 \<Rightarrow> 'c crm_sys \<Rightarrow> (int \<times> ptr) option" where
  "get_tenant_byhandle h s = Option.bind (crm_tenant_table_g s) (\<lambda>t.
     map_option (\<lambda>r. case r of None \<Rightarrow> (CRM_ERROR_INVALID_TENANT_HANDLE, None) | Some p \<Rightarrow> (CRM_SUCCESS, p))
       (MCHASH_ACCESS_NODE (index_of h) (magic_of h) t))"

section \<open>Notifications\<close>

definition notify_list :: "nat \<Rightarrow> ('c crm_notification_app_hook_info \<Rightarrow> 'c crm_call) \<Rightarrow> 'c crm_sys \<Rightarrow> 'c crm_sys option" where
  "notify_list i f s =
    (if i < length (crm_tenant_notifications s)
     then map_option (\<lambda>ns. s\<lparr>cr_calls := cr_calls s @ map (\<lambda>n. f (cr_hooks s n)) ns\<rparr>)
            (OF_LIST_SCAN (cr_links s) (ol_head (crm_tenant_notifications s ! i)))
     else None)"

text \<open>The applications registered for the event, then those registered for all events.\<close>

definition crm_notify :: "nat \<Rightarrow> u64 \<Rightarrow> crm_tenant_notification_data \<Rightarrow> 'c crm_sys \<Rightarrow> 'c crm_sys option" where
  "crm_notify ty h d s =
    (let f = (\<lambda>hk. Notify (hk_call_back hk) ty h d (hk_cbk_arg1 hk) (hk_cbk_arg2 hk))
     in Option.bind (notify_list ty f s) (notify_list CRM_TENANT_ALL_NOTIFICATIONS f))"

definition crm_register_tenant_notifications ::
  "crm_env \<Rightarrow> nat \<Rightarrow> 'c option \<Rightarrow> ptr \<Rightarrow> ptr \<Rightarrow> 'c crm_sys \<Rightarrow> (int \<times> 'c crm_sys) option" where
  "crm_register_tenant_notifications e ty cb arg1 arg2 s =
    (if ty > CRM_TENANT_LAST_NOTIFICATION_TYPE then Some (CRM_FAILURE, s)
     else case cb of None \<Rightarrow> Some (CRM_FAILURE, s)
     | Some c \<Rightarrow> Option.bind (mempool_get_mem_block (ce_mem e) (crm_notifications_mempool_g s) (ce_heap_b e) (cr_mem s))
         (\<lambda>((rc, b, hb), m1).
            if rc \<noteq> MEMPOOL_SUCCESS then Some (CRM_FAILURE, s\<lparr>cr_mem := m1\<rparr>)
            else case b of None \<Rightarrow> None
            | Some n \<Rightarrow>
                let s1 = s\<lparr>cr_mem := m1, cr_links := (cr_links s)(n := None), cr_hooks := (cr_hooks s)
                      (n := \<lparr>hk_call_back = c, hk_cbk_arg1 = arg1, hk_cbk_arg2 = arg2, hk_heap_b = hb\<rparr>)\<rparr>
                in if ty < length (crm_tenant_notifications s)
                   then map_option (\<lambda>st. (CRM_SUCCESS, put_lst (Hooks ty) st s1))
                          (OF_APPEND_NODE_TO_LIST n (get_lst s1 (Hooks ty)))
                   else None))"

section \<open>Tenants\<close>

text \<open>What the duplicate check of \<^verbatim>\<open>crm_add_tenant\<close> reads as the name of a node: the offset of the table
  link is converted to an unsigned char there.\<close>

definition scanned_name :: "crm_env \<Rightarrow> 'c crm_sys \<Rightarrow> addr \<Rightarrow> string" where
  "scanned_name e s n = (if unat (of_nat (ce_tbl_offset e) :: u8) = ce_tbl_offset e
     then tn_tenant_name (cr_tenants s n) else ce_string_at e n)"

definition null_list :: of_list where
  "null_list = \<lparr>ol_head = None, ol_tail = None, ol_count = 0, ol_lock = False, ol_free_cbk = False\<rparr>"

definition init_list :: "of_list \<Rightarrow> of_list" where
  "init_list l = fst (snd (OF_LIST_INIT True (\<lambda>_. None, l, [])))"

text \<open>A zeroed block of the pool with the name copied in, and the tenant after the insertion.\<close>

definition blank_tenant :: "u8 \<Rightarrow> string \<Rightarrow> crm_tenant" where
  "blank_tenant hb nm = \<lparr>tn_tenant_name = nm, number_of_virtual_networks = 0, list_of_virtual_networks = null_list,
     number_of_attributes = 0, tn_attributes = null_list, tn_heap_b = hb, tn_magic = 0, tn_index = 0, tn_handle = 0\<rparr>"

definition finish_tenant :: "u32 \<Rightarrow> u32 \<Rightarrow> crm_tenant \<Rightarrow> crm_tenant" where
  "finish_tenant magic index T = T\<lparr>tn_magic := magic, tn_index := index, tn_handle := handle_of magic index,
     list_of_virtual_networks := init_list (list_of_virtual_networks T),
     tn_attributes := init_list (tn_attributes T)\<rparr>"

text \<open>The return code and the handle if it is stored.\<close>

definition crm_add_tenant :: "crm_env \<Rightarrow> string \<Rightarrow> 'c crm_sys \<Rightarrow> (int \<times> u64 option \<times> 'c crm_sys) option" where
  "crm_add_tenant e nm s =
    (case crm_tenant_table_g s of None \<Rightarrow> Some (CRM_FAILURE, None, s)
     | Some t \<Rightarrow>
       if length nm \<ge> CRM_MAX_TENANT_NAME_LEN then Some (CRM_ERROR_TENANT_NAME_INVALID, None, s)
       else let s0 = rcu_lock s; hashkey = crm_get_hashval_byname nm (crm_no_of_tenant_buckets_g s) in
         Option.bind (find_in_bucket t (\<lambda>n. scanned_name e s0 n = nm) (unat hashkey)) (\<lambda>dup.
           if dup \<noteq> None then Some (CRM_ERROR_DUPLICATE_TENANT_RESOURCE, None, rcu_unlock s0)
           else Option.bind (mempool_get_mem_block (ce_mem e) (crm_tenant_mempool_g s0) (ce_heap_b e) (cr_mem s0))
             (\<lambda>((rc, b, hb), m1).
               if rc \<noteq> MEMPOOL_SUCCESS then Some (rc, None, rcu_unlock (s0\<lparr>cr_mem := m1\<rparr>))
               else case b of None \<Rightarrow> None
               | Some n \<Rightarrow>
                 Option.bind (MCHASH_APPEND_NODE hashkey n t) (\<lambda>(ref, t1).
                   let s2 = s0\<lparr>cr_mem := m1, crm_tenant_table_g := Some t1,
                                cr_tenants := (cr_tenants s0)(n := blank_tenant hb nm)\<rparr>
                   in case ref of
                     None \<Rightarrow> Option.bind (mempool_release_mem_block (ce_mem e) (crm_tenant_mempool_g s2) (Some n) hb (cr_mem s2))
                       (\<lambda>(_, m2). Some (CRM_ERROR_TENANT_ADD_FAIL, None, rcu_unlock (s2\<lparr>cr_mem := m2\<rparr>)))
                   | Some (index, magic) \<Rightarrow>
                       let s3 = s2\<lparr>cr_tenants := (cr_tenants s2)(n := finish_tenant magic index (cr_tenants s2 n))\<rparr> in
                       Option.bind (crm_notify CRM_TENANT_ADDED (handle_of magic index)
                           \<lparr>nd_tenant_name = Some nm, nd_attribute_name = Some [], nd_attribute_value = Some []\<rparr> s3)
                         (\<lambda>s4. Some (CRM_SUCCESS, Some (handle_of magic index), rcu_unlock s4))))))"

text \<open>\<^verbatim>\<open>NSRM_SUPPORT\<close> is not defined. The attribute fields of the notification are uninitialised.\<close>

definition crm_del_tenant :: "string option \<Rightarrow> 'c crm_sys \<Rightarrow> (int \<times> 'c crm_sys) option" where
  "crm_del_tenant name s =
    (case crm_tenant_table_g s of None \<Rightarrow> Some (CRM_FAILURE, s)
     | Some t \<Rightarrow>
       (case name of None \<Rightarrow> Some (CRM_ERROR_TENANT_NAME_INVALID, s)
        | Some nm \<Rightarrow> Option.bind (crm_get_tenant_handle nm s) (\<lambda>(rc, ho).
            if rc \<noteq> CRM_SUCCESS then Some (CRM_ERROR_TENANT_NAME_INVALID, s)
            else case ho of None \<Rightarrow> None
            | Some h \<Rightarrow>
              let s0 = rcu_lock s in
              Option.bind (MCHASH_ACCESS_NODE (index_of h) (magic_of h) t) (\<lambda>r. case r of
                None \<Rightarrow> Some (CRM_ERROR_INVALID_TENANT_HANDLE, rcu_unlock s0)
              | Some None \<Rightarrow> None
              | Some (Some n) \<Rightarrow>
                let T = cr_tenants s0 n in
                if number_of_virtual_networks T \<noteq> 0 \<or> number_of_attributes T \<noteq> 0
                then Some (CRM_ERROR_RESOURCE_NOTEMPTY, rcu_unlock s0)
                else Option.bind (crm_notify CRM_TENANT_DELETE h
                    \<lparr>nd_tenant_name = Some (tn_tenant_name T), nd_attribute_name = None, nd_attribute_value = None\<rparr> s0) (\<lambda>s1.
                  Option.bind (MCHASH_DELETE_NODE_BY_REF (index_of h) (magic_of h) t) (\<lambda>(status, t1).
                    Some (if status then CRM_SUCCESS else CRM_FAILURE,
                          rcu_unlock (s1\<lparr>crm_tenant_table_g := Some t1\<rparr>))))))))"

section \<open>Virtual networks of a tenant\<close>

text \<open>An invalid handle makes both return without leaving the read-side critical section.\<close>

definition crm_add_vn_to_tenant :: "crm_env \<Rightarrow> u64 \<Rightarrow> string \<Rightarrow> 'c crm_sys \<Rightarrow> (int \<times> 'c crm_sys) option" where
  "crm_add_vn_to_tenant e h vn s = (let s0 = rcu_lock s in
     Option.bind (crm_tenant_table_g s0) (\<lambda>t.
       Option.bind (MCHASH_ACCESS_NODE (index_of h) (magic_of h) t) (\<lambda>r. case r of
         None \<Rightarrow> Some (CRM_ERROR_INVALID_TENANT_HANDLE, s0)
       | Some p \<Rightarrow>
         Option.bind (mempool_get_mem_block (ce_mem e) (crm_tenant_vnnames_mempool_g s0) (ce_heap_b e) (cr_mem s0))
           (\<lambda>((rc, b, hb), m1).
             if rc \<noteq> MEMPOOL_SUCCESS then Some (CRM_FAILURE, rcu_unlock (s0\<lparr>cr_mem := m1\<rparr>))
             else case b of None \<Rightarrow> None
             | Some v \<Rightarrow>
               (case p of None \<Rightarrow> None
                | Some n \<Rightarrow>
                  if length vn < CRM_MAX_VN_NAME_LEN then
                    let s1 = s0\<lparr>cr_mem := m1, cr_links := (cr_links s0)(v := None), cr_vns := (cr_vns s0)
                               (v := \<lparr>vl_heap_b = hb, vl_nw_name = vn, vl_tenant_entry = n\<rparr>)\<rparr> in
                    Option.bind (OF_APPEND_NODE_TO_LIST v (get_lst s1 (Vns n))) (\<lambda>st.
                      let s2 = put_lst (Vns n) st s1; T = cr_tenants s2 n in
                      Some (CRM_SUCCESS, rcu_unlock (s2\<lparr>cr_tenants := (cr_tenants s2)
                        (n := T\<lparr>number_of_virtual_networks := number_of_virtual_networks T + 1\<rparr>)\<rparr>)))
                  else None)))))"

definition crm_del_vn_from_tenant :: "u64 \<Rightarrow> string \<Rightarrow> 'c crm_sys \<Rightarrow> (int \<times> 'c crm_sys) option" where
  "crm_del_vn_from_tenant h vn s = (let s0 = rcu_lock s in
     Option.bind (crm_tenant_table_g s0) (\<lambda>t.
       Option.bind (MCHASH_ACCESS_NODE (index_of h) (magic_of h) t) (\<lambda>r. case r of
         None \<Rightarrow> Some (CRM_ERROR_INVALID_TENANT_HANDLE, s0)
       | Some None \<Rightarrow> None
       | Some (Some n) \<Rightarrow>
           Option.bind (of_list_remove_where (\<lambda>v. vl_nw_name (cr_vns s0 v) = vn) (get_lst s0 (Vns n))) (\<lambda>(p, st).
             case p of None \<Rightarrow> Some (CRM_FAILURE, rcu_unlock s0)
             | Some v \<Rightarrow> let s1 = put_lst (Vns n) st s0; T = cr_tenants s1 n in
                 Some (CRM_SUCCESS, rcu_unlock (s1\<lparr>cr_tenants := (cr_tenants s1)
                   (n := T\<lparr>number_of_virtual_networks := number_of_virtual_networks T - 1\<rparr>)\<rparr>))))))"

section \<open>Reading tenants\<close>

definition crm_get_tenant_by_name :: "string option \<Rightarrow> 'c crm_sys \<Rightarrow> (int \<times> string option) option" where
  "crm_get_tenant_by_name name s =
    (case crm_tenant_table_g s of None \<Rightarrow> Some (CRM_FAILURE, None)
     | Some t \<Rightarrow>
       (case name of None \<Rightarrow> Some (CRM_ERROR_TENANT_NAME_INVALID, None)
        | Some nm \<Rightarrow> map_option (\<lambda>p. case p of None \<Rightarrow> (CRM_ERROR_TENANT_NAME_INVALID, None)
            | Some n \<Rightarrow> (CRM_SUCCESS, Some (tn_tenant_name (cr_tenants s n))))
           (find_in_bucket t (\<lambda>n. nm = tn_tenant_name (cr_tenants s n)) (name_bucket s nm))))"

definition tenant_out :: "'c crm_sys \<Rightarrow> addr \<Rightarrow> string \<times> u64" where
  "tenant_out s n = (tn_tenant_name (cr_tenants s n), handle_of (tn_magic (cr_tenants s n)) (tn_index (cr_tenants s n)))"

definition crm_get_first_tenant :: "'c crm_sys \<Rightarrow> (int \<times> (string \<times> u64) option) option" where
  "crm_get_first_tenant s =
    (case crm_tenant_table_g s of None \<Rightarrow> Some (CRM_FAILURE, None)
     | Some t \<Rightarrow> map_option (\<lambda>p. case p of None \<Rightarrow> (CRM_ERROR_NO_MORE_ENTRIES, None)
           | Some n \<Rightarrow> (CRM_SUCCESS, Some (tenant_out s n)))
         (first_scan t [0..<unat (buckets t)]))"

definition crm_get_next_tenant :: "u64 \<Rightarrow> 'c crm_sys \<Rightarrow> (int \<times> (string \<times> u64) option) option" where
  "crm_get_next_tenant h s = Option.bind (crm_tenant_table_g s) (\<lambda>t.
     map_option (\<lambda>(found, p). case p of Some n \<Rightarrow> (CRM_SUCCESS, Some (tenant_out s n))
         | None \<Rightarrow> (if found then CRM_ERROR_NO_MORE_ENTRIES else CRM_ERROR_INVALID_TENANT_HANDLE, None))
       (next_scan t (\<lambda>n. tn_handle (cr_tenants s n) = h) False [0..<unat (buckets t)]))"

section \<open>Attributes of a tenant\<close>

text \<open>A pair with its name and value is given, or NULL.\<close>

definition crm_add_attribute_to_tenant ::
  "crm_env \<Rightarrow> u64 \<Rightarrow> (string \<times> string) option \<Rightarrow> 'c crm_sys \<Rightarrow> (int \<times> 'c crm_sys) option" where
  "crm_add_attribute_to_tenant e h info s = (let s0 = rcu_lock s in
     Option.bind (get_tenant_byhandle h s0) (\<lambda>(rc, p).
       if rc \<noteq> CRM_SUCCESS then Some (rc, rcu_unlock s0)
       else case p of None \<Rightarrow> None
       | Some n \<Rightarrow>
         Option.bind (crm_add_attribute (ce_mem e) (crm_attributes_mempool_g s0) info
             (get_lst s0 (Attrs n), cr_attrs s0, cr_mem s0)) (\<lambda>(rc1, st, A, m).
           let s1 = (put_lst (Attrs n) st s0)\<lparr>cr_attrs := A, cr_mem := m\<rparr> in
           if rc1 \<noteq> CRM_SUCCESS then Some (rc1, rcu_unlock s1)
           else case info of None \<Rightarrow> None
           | Some (nm, v) \<Rightarrow>
             let T = cr_tenants s1 n;
                 s2 = s1\<lparr>cr_tenants := (cr_tenants s1)(n := T\<lparr>number_of_attributes := number_of_attributes T + 1\<rparr>),
                         cr_calls := cr_calls s1 @ [Create_view h nm v]\<rparr>
             in Option.bind (crm_notify CRM_TENANT_ATTRIBUTE_ADDED h
                 \<lparr>nd_tenant_name = Some (tn_tenant_name T), nd_attribute_name = Some nm, nd_attribute_value = Some v\<rparr> s2)
               (\<lambda>s3. Some (CRM_SUCCESS, rcu_unlock s3)))))"

definition crm_delete_attribute_from_tenant :: "u64 \<Rightarrow> string \<Rightarrow> 'c crm_sys \<Rightarrow> (int \<times> 'c crm_sys) option" where
  "crm_delete_attribute_from_tenant h nm s = (let s0 = rcu_lock s in
     Option.bind (get_tenant_byhandle h s0) (\<lambda>(rc, p).
       if rc \<noteq> CRM_SUCCESS then Some (rc, rcu_unlock s0)
       else case p of None \<Rightarrow> None
       | Some n \<Rightarrow>
         Option.bind (of_list_search (cr_links s0) (\<lambda>a. ra_name (cr_attrs s0 a) = nm) None
             (ol_head (tn_attributes (cr_tenants s0 n)))) (\<lambda>(prev, q). case q of
           None \<Rightarrow> Some (CRM_FAILURE, rcu_unlock s0)
         | Some a \<Rightarrow>
           Option.bind (crm_notify CRM_TENANT_ATTRIBUTE_DELETE h
               \<lparr>nd_tenant_name = Some (tn_tenant_name (cr_tenants s0 n)), nd_attribute_name = Some (ra_name (cr_attrs s0 a)),
                nd_attribute_value = Some (ra_value (cr_attrs s0 a))\<rparr> s0) (\<lambda>s1.
             Option.bind (OF_REMOVE_NODE_FROM_LIST a prev (get_lst s1 (Attrs n))) (\<lambda>st.
               let s2 = put_lst (Attrs n) st s1; T = cr_tenants s2 n in
               Some (CRM_SUCCESS, rcu_unlock (s2\<lparr>cr_tenants := (cr_tenants s2)
                   (n := T\<lparr>number_of_attributes := number_of_attributes T - 1\<rparr>),
                 cr_calls := cr_calls s2 @ [Remove_view (ra_name (cr_attrs s2 a)) (ra_value (cr_attrs s2 a))]\<rparr>)))))))"

text \<open>The three readers: the tenant behind the handle and the attribute function on its list.\<close>

definition crm_get_tenant_first_attribute ::
  "u64 \<Rightarrow> crm_attribute_name_value_output_info option \<Rightarrow> 'c crm_sys \<Rightarrow>
   (int \<times> crm_attribute_name_value_output_info option) option" where
  "crm_get_tenant_first_attribute h out s =
    (case out of None \<Rightarrow> Some (CRM_FAILURE, None)
     | Some ot \<Rightarrow> Option.bind (get_tenant_byhandle h s) (\<lambda>(rc, p).
         if rc \<noteq> CRM_SUCCESS then Some (CRM_ERROR_INVALID_TENANT_HANDLE, Some ot)
         else case p of None \<Rightarrow> None
         | Some n \<Rightarrow> (case crm_get_first_attribute (Some (get_lst s (Attrs n))) (cr_attrs s) ot of
             (rc1, ot1) \<Rightarrow> Some (rc1, Some ot1))))"

definition crm_get_tenant_next_attribute ::
  "u64 \<Rightarrow> string option \<Rightarrow> crm_attribute_name_value_output_info option \<Rightarrow> 'c crm_sys \<Rightarrow>
   (int \<times> crm_attribute_name_value_output_info option) option" where
  "crm_get_tenant_next_attribute h cur out s =
    (if out = None \<or> cur = None then Some (CRM_FAILURE, out)
     else Option.bind (get_tenant_byhandle h s) (\<lambda>(rc, p).
         if rc \<noteq> CRM_SUCCESS then Some (CRM_ERROR_INVALID_TENANT_HANDLE, out)
         else case p of None \<Rightarrow> None
         | Some n \<Rightarrow> crm_get_next_attribute (get_lst s (Attrs n)) (cr_attrs s) cur out))"

definition crm_get_tenant_exact_attribute ::
  "u64 \<Rightarrow> string option \<Rightarrow> crm_attribute_name_value_output_info \<Rightarrow> 'c crm_sys \<Rightarrow>
   (int \<times> crm_attribute_name_value_output_info) option" where
  "crm_get_tenant_exact_attribute h name out s =
    (case name of None \<Rightarrow> Some (CRM_ERROR_ATTRIBUTE_NAME_NULL, out)
     | Some nm \<Rightarrow>
       if length nm > CRM_MAX_ATTRIBUTE_NAME_LEN then Some (CRM_ERROR_INVALID_ATTRIBUTE_NAME_LEN, out)
       else Option.bind (get_tenant_byhandle h s) (\<lambda>(rc, p).
         if rc \<noteq> CRM_SUCCESS then Some (CRM_ERROR_INVALID_TENANT_HANDLE, out)
         else case p of None \<Rightarrow> None
         | Some n \<Rightarrow> crm_get_exact_attribute (get_lst s (Attrs n)) (cr_attrs s) nm out))"

section \<open>Hash\<close>

lemma crm_hash_bound: "n \<noteq> 0 \<Longrightarrow> unat (crm_get_hashval_byname s n) < unat n"
  by (simp add: crm_get_hashval_byname_def dobbs_bound)

section \<open>Invariant\<close>

text \<open>\<open>L\<close> gives the nodes of every list, \<open>B\<close> the tenants of every bucket.\<close>

fun live :: "addr set \<Rightarrow> crm_list \<Rightarrow> bool" where
  "live N (Attrs n) = (n \<in> N)" | "live N (Vns n) = (n \<in> N)" | "live N (Hooks i) = (i < 7)"

definition used :: "(crm_list \<Rightarrow> addr list) \<Rightarrow> addr set" where "used L = (\<Union>\<kappa>. set (L \<kappa>))"

definition lists_ok :: "'c crm_sys \<Rightarrow> addr set \<Rightarrow> (crm_list \<Rightarrow> addr list) \<Rightarrow> bool" where
  "lists_ok s N L \<longleftrightarrow> length (crm_tenant_notifications s) = 7 \<and>
     (\<forall>\<kappa>. live N \<kappa> \<longrightarrow> ol_exact (get_lst s \<kappa>) (L \<kappa>)) \<and> (\<forall>\<kappa>. \<not> live N \<kappa> \<longrightarrow> L \<kappa> = []) \<and>
     (\<forall>\<kappa> \<kappa>'. \<kappa> \<noteq> \<kappa>' \<longrightarrow> set (L \<kappa>) \<inter> set (L \<kappa>') = {})"

definition tn_key :: "crm_tenant \<Rightarrow> string \<times> u32 \<times> u32 \<times> u64" where
  "tn_key T = (tn_tenant_name T, tn_magic T, tn_index T, tn_handle T)"

definition tenant_ok :: "mchash_table \<Rightarrow> nat \<Rightarrow> addr \<Rightarrow> crm_tenant \<Rightarrow> bool" where
  "tenant_ok t k n T \<longleftrightarrow> unat (crm_get_hashval_byname (tn_tenant_name T) (buckets t)) = k \<and>
     length (tn_tenant_name T) < CRM_MAX_TENANT_NAME_LEN \<and> mch_refs t (tn_index T, tn_magic T) = Some n \<and>
     tn_handle T = handle_of (tn_magic T) (tn_index T)"

definition table_ok :: "'c crm_sys \<Rightarrow> mchash_table \<Rightarrow> (nat \<Rightarrow> addr list) \<Rightarrow> bool" where
  "table_ok s t B \<longleftrightarrow> crm_tenant_table_g s = Some t \<and> mch_inv t B \<and> crm_no_of_tenant_buckets_g s = buckets t \<and>
     buckets t \<noteq> 0 \<and> (\<forall>k n. n \<in> set (B k) \<longrightarrow> tenant_ok t k n (cr_tenants s n))"

definition crm_inv :: "'c crm_sys \<Rightarrow> mchash_table \<Rightarrow> (nat \<Rightarrow> addr list) \<Rightarrow> (crm_list \<Rightarrow> addr list) \<Rightarrow> bool" where
  "crm_inv s t B L \<longleftrightarrow> table_ok s t B \<and> lists_ok s (nodes B) L \<and>
     (\<forall>n\<in>nodes B. names_ok (cr_attrs s) (L (Attrs n)) \<and>
        number_of_virtual_networks (cr_tenants s n) = of_nat (length (L (Vns n))))"

text \<open>The names of the tenants differ.\<close>

definition names_unique :: "'c crm_sys \<Rightarrow> (nat \<Rightarrow> addr list) \<Rightarrow> bool" where
  "names_unique s B \<longleftrightarrow> inj_on (\<lambda>n. tn_tenant_name (cr_tenants s n)) (nodes B)"

text \<open>The abstract database: by handle, the name of a tenant, its attributes, its virtual networks and the
  value of its attribute counter.\<close>

type_synonym tenant_val = "string \<times> (string \<times> string) list \<times> string list \<times> u32"

definition abs_tenant :: "'c crm_sys \<Rightarrow> (crm_list \<Rightarrow> addr list) \<Rightarrow> addr \<Rightarrow> tenant_val" where
  "abs_tenant s L n = (tn_tenant_name (cr_tenants s n), alist_of (cr_attrs s) (L (Attrs n)),
     map (\<lambda>v. vl_nw_name (cr_vns s v)) (L (Vns n)), number_of_attributes (cr_tenants s n))"

definition crm_abs :: "'c crm_sys \<Rightarrow> mchash_table \<Rightarrow> (crm_list \<Rightarrow> addr list) \<Rightarrow> u64 \<Rightarrow> tenant_val option" where
  "crm_abs s t L h = map_option (abs_tenant s L) (mch_refs t (index_of h, magic_of h))"

section \<open>Lists\<close>

lemma get_lst_fields [simp]:
  "fst (get_lst s \<kappa>) = cr_links s" "snd (snd (get_lst s \<kappa>)) = cr_rcu s"
  by (cases \<kappa>; simp)+

lemma get_lst_eq: "get_lst s \<kappa> = (cr_links s, fst (snd (get_lst s \<kappa>)), cr_rcu s)"
  by (cases \<kappa>) simp_all

lemma get_put_lst:
  assumes "\<And>i. \<kappa> = Hooks i \<Longrightarrow> i < length (crm_tenant_notifications s)"
  shows "get_lst (put_lst \<kappa> (nx, l, rcu) s) \<kappa>' =
    (if \<kappa>' = \<kappa> then (nx, l, rcu) else (nx, fst (snd (get_lst s \<kappa>')), rcu))"
  using assms by (cases \<kappa>; cases \<kappa>') auto

lemma put_lst_fields [simp]:
  "cr_links (put_lst \<kappa> st s) = fst st" "cr_rcu (put_lst \<kappa> st s) = snd (snd st)"
  "crm_tenant_table_g (put_lst \<kappa> st s) = crm_tenant_table_g s"
  "crm_no_of_tenant_buckets_g (put_lst \<kappa> st s) = crm_no_of_tenant_buckets_g s"
  "cr_attrs (put_lst \<kappa> st s) = cr_attrs s" "cr_vns (put_lst \<kappa> st s) = cr_vns s" "cr_hooks (put_lst \<kappa> st s) = cr_hooks s"
  "cr_calls (put_lst \<kappa> st s) = cr_calls s" "cr_read_depth (put_lst \<kappa> st s) = cr_read_depth s"
  "cr_mem (put_lst \<kappa> st s) = cr_mem s"
  "length (crm_tenant_notifications (put_lst \<kappa> st s)) = length (crm_tenant_notifications s)"
  "number_of_attributes (cr_tenants (put_lst \<kappa> st s) n) = number_of_attributes (cr_tenants s n)"
  "number_of_virtual_networks (cr_tenants (put_lst \<kappa> st s) n) = number_of_virtual_networks (cr_tenants s n)"
  "tn_tenant_name (cr_tenants (put_lst \<kappa> st s) n) = tn_tenant_name (cr_tenants s n)"
  "tn_key (cr_tenants (put_lst \<kappa> st s) n) = tn_key (cr_tenants s n)"
  "tn_magic (cr_tenants (put_lst \<kappa> st s) n) = tn_magic (cr_tenants s n)"
  "tn_index (cr_tenants (put_lst \<kappa> st s) n) = tn_index (cr_tenants s n)"
  "tn_handle (cr_tenants (put_lst \<kappa> st s) n) = tn_handle (cr_tenants s n)"
  by (cases st; cases \<kappa>; simp add: tn_key_def)+

lemma put_get_lst [simp]: "put_lst (Attrs n) (get_lst s (Attrs n)) (rcu_lock s) = rcu_lock s"
  by (simp add: rcu_lock_def)

lemma ol_exact_frame:
  "ol_exact (nx, l, rcu) xs \<Longrightarrow> \<forall>m\<in>set xs. nx' m = nx m \<Longrightarrow> ol_exact (nx', l, rcu') xs"
  using lseg_cong[of xs nx' nx] by (auto simp: ol_exact_def ol_rep_def ol_cnt_def)

lemma lists_okD:
  assumes "lists_ok s N L" "live N \<kappa>"
  shows "ol_exact (get_lst s \<kappa>) (L \<kappa>)" "\<And>i. \<kappa> = Hooks i \<Longrightarrow> i < length (crm_tenant_notifications s)"
    "\<And>\<kappa>' m. \<kappa>' \<noteq> \<kappa> \<Longrightarrow> m \<in> set (L \<kappa>') \<Longrightarrow> m \<notin> set (L \<kappa>)" "set (L \<kappa>) \<subseteq> used L"
proof -
  show "ol_exact (get_lst s \<kappa>) (L \<kappa>)" "\<And>i. \<kappa> = Hooks i \<Longrightarrow> i < length (crm_tenant_notifications s)"
    "set (L \<kappa>) \<subseteq> used L"
    using assms by (auto simp: lists_ok_def used_def)
  show "m \<notin> set (L \<kappa>)" if "\<kappa>' \<noteq> \<kappa>" "m \<in> set (L \<kappa>')" for \<kappa>' m
    using assms(1) that unfolding lists_ok_def by blast
qed

lemma lists_ok_put:
  assumes ok: "lists_ok s N L" and \<kappa>: "live N \<kappa>" and ex: "ol_exact (nx, l, rcu) ys"
    and fr: "\<And>\<kappa>' m. \<kappa>' \<noteq> \<kappa> \<Longrightarrow> m \<in> set (L \<kappa>') \<Longrightarrow> nx m = cr_links s m \<and> m \<notin> set ys"
  shows "lists_ok (put_lst \<kappa> (nx, l, rcu) s) N (L(\<kappa> := ys))"
proof -
  have get: "get_lst (put_lst \<kappa> (nx, l, rcu) s) \<kappa>' =
      (if \<kappa>' = \<kappa> then (nx, l, rcu) else (nx, fst (snd (get_lst s \<kappa>')), rcu))" for \<kappa>'
    by (rule get_put_lst) (use lists_okD(2)[OF ok \<kappa>] in simp)
  have "ol_exact (get_lst (put_lst \<kappa> (nx, l, rcu) s) \<kappa>') ((L(\<kappa> := ys)) \<kappa>')" if "live N \<kappa>'" for \<kappa>'
  proof (cases "\<kappa>' = \<kappa>")
    case False
    have "ol_exact (cr_links s, fst (snd (get_lst s \<kappa>')), cr_rcu s) (L \<kappa>')"
      using lists_okD(1)[OF ok that] get_lst_eq[of s \<kappa>'] by simp
    then have "ol_exact (nx, fst (snd (get_lst s \<kappa>')), rcu) (L \<kappa>')"
      by (rule ol_exact_frame) (use fr False in blast)
    then show ?thesis using get False by simp
  qed (simp add: get ex)
  moreover have "set ((L(\<kappa> := ys)) \<kappa>1) \<inter> set ((L(\<kappa> := ys)) \<kappa>2) = {}" if "\<kappa>1 \<noteq> \<kappa>2" for \<kappa>1 \<kappa>2
    using ok fr that by (auto simp: lists_ok_def)
  moreover have "\<forall>\<kappa>'. \<not> live N \<kappa>' \<longrightarrow> (L(\<kappa> := ys)) \<kappa>' = []" using ok \<kappa> by (auto simp: lists_ok_def)
  ultimately show ?thesis using ok unfolding lists_ok_def by simp
qed

lemma lists_ok_cong:
  assumes ok: "lists_ok s N L" and l: "\<And>\<kappa>. live N \<kappa> \<Longrightarrow> fst (snd (get_lst s' \<kappa>)) = fst (snd (get_lst s \<kappa>))"
    and nx: "\<And>m. m \<in> used L \<Longrightarrow> cr_links s' m = cr_links s m"
    and len: "length (crm_tenant_notifications s') = length (crm_tenant_notifications s)"
  shows "lists_ok s' N L"
proof -
  have "ol_exact (get_lst s' \<kappa>) (L \<kappa>)" if "live N \<kappa>" for \<kappa>
  proof -
    have "ol_exact (cr_links s, fst (snd (get_lst s \<kappa>)), cr_rcu s) (L \<kappa>)"
      using lists_okD(1)[OF ok that] get_lst_eq[of s \<kappa>] by simp
    then have "ol_exact (cr_links s', fst (snd (get_lst s' \<kappa>)), cr_rcu s') (L \<kappa>)"
      unfolding l[OF that] by (rule ol_exact_frame) (use nx lists_okD(4)[OF ok that] in blast)
    then show ?thesis using get_lst_eq[of s' \<kappa>] by simp
  qed
  then show ?thesis using ok len by (simp add: lists_ok_def)
qed

lemma lists_ok_ignores [simp]:
  "lists_ok (s\<lparr>cr_calls := c\<rparr>) N L = lists_ok s N L" "lists_ok (s\<lparr>cr_read_depth := d\<rparr>) N L = lists_ok s N L"
  "lists_ok (s\<lparr>cr_mem := m\<rparr>) N L = lists_ok s N L" "lists_ok (s\<lparr>cr_attrs := A\<rparr>) N L = lists_ok s N L"
  "lists_ok (s\<lparr>cr_vns := V\<rparr>) N L = lists_ok s N L" "lists_ok (s\<lparr>cr_hooks := H\<rparr>) N L = lists_ok s N L"
  "lists_ok (s\<lparr>crm_tenant_table_g := g\<rparr>) N L = lists_ok s N L"
proof -
  have "get_lst (s\<lparr>cr_calls := c\<rparr>) = get_lst s" "get_lst (s\<lparr>cr_read_depth := d\<rparr>) = get_lst s"
    "get_lst (s\<lparr>cr_mem := m\<rparr>) = get_lst s" "get_lst (s\<lparr>cr_attrs := A\<rparr>) = get_lst s"
    "get_lst (s\<lparr>cr_vns := V\<rparr>) = get_lst s" "get_lst (s\<lparr>cr_hooks := H\<rparr>) = get_lst s"
    "get_lst (s\<lparr>crm_tenant_table_g := g\<rparr>) = get_lst s"
    by (rule ext, rename_tac \<kappa>, case_tac \<kappa>; simp)+
  then show "lists_ok (s\<lparr>cr_calls := c\<rparr>) N L = lists_ok s N L" "lists_ok (s\<lparr>cr_read_depth := d\<rparr>) N L = lists_ok s N L"
    "lists_ok (s\<lparr>cr_mem := m\<rparr>) N L = lists_ok s N L" "lists_ok (s\<lparr>cr_attrs := A\<rparr>) N L = lists_ok s N L"
    "lists_ok (s\<lparr>cr_vns := V\<rparr>) N L = lists_ok s N L" "lists_ok (s\<lparr>cr_hooks := H\<rparr>) N L = lists_ok s N L"
    "lists_ok (s\<lparr>crm_tenant_table_g := g\<rparr>) N L = lists_ok s N L"
    by (simp_all add: lists_ok_def)
qed

section \<open>Framing\<close>

lemma tenant_ok_key: "tn_key T = tn_key T' \<Longrightarrow> tenant_ok t k n T = tenant_ok t k n T'"
  by (simp add: tenant_ok_def tn_key_def)

lemma table_ok_cong:
  assumes "table_ok s t B" "crm_tenant_table_g s' = crm_tenant_table_g s"
    "crm_no_of_tenant_buckets_g s' = crm_no_of_tenant_buckets_g s"
    "\<And>n. n \<in> nodes B \<Longrightarrow> tn_key (cr_tenants s' n) = tn_key (cr_tenants s n)"
  shows "table_ok s' t B"
proof -
  have "tenant_ok t k n (cr_tenants s' n)" if "n \<in> set (B k)" for k n
  proof -
    have "n \<in> nodes B" using that by (auto simp: nodes_def)
    then show ?thesis using tenant_ok_key[OF assms(4)] assms(1) that by (auto simp: table_ok_def)
  qed
  then show ?thesis using assms(1-3) by (simp add: table_ok_def)
qed

text \<open>An operation that changes the list \<open>\<kappa>\<close> of a tenant and other fields of it.\<close>

lemma crm_inv_ignores [simp]:
  "crm_inv (s\<lparr>cr_calls := c\<rparr>) t B L = crm_inv s t B L" "crm_inv (s\<lparr>cr_mem := m\<rparr>) t B L = crm_inv s t B L"
  "crm_inv (rcu_lock s) t B L = crm_inv s t B L" "crm_inv (rcu_unlock s) t B L = crm_inv s t B L"
  by (simp_all add: crm_inv_def table_ok_def rcu_lock_def rcu_unlock_def)

lemma crm_abs_ignores [simp]:
  "crm_abs (s\<lparr>cr_calls := c\<rparr>) t L = crm_abs s t L" "crm_abs (s\<lparr>cr_mem := m\<rparr>) t L = crm_abs s t L"
  "crm_abs (rcu_lock s) t L = crm_abs s t L" "crm_abs (rcu_unlock s) t L = crm_abs s t L"
  by (simp_all add: fun_eq_iff crm_abs_def abs_tenant_def[abs_def] rcu_lock_def rcu_unlock_def)

lemma rcu_fields [simp]:
  "crm_tenant_table_g (rcu_lock s) = crm_tenant_table_g s" "cr_tenants (rcu_lock s) = cr_tenants s"
  "cr_links (rcu_lock s) = cr_links s" "cr_attrs (rcu_lock s) = cr_attrs s" "cr_vns (rcu_lock s) = cr_vns s"
  "cr_mem (rcu_lock s) = cr_mem s" "get_lst (rcu_lock s) \<kappa> = get_lst s \<kappa>" "cr_calls (rcu_lock s) = cr_calls s"
  "crm_no_of_tenant_buckets_g (rcu_lock s) = crm_no_of_tenant_buckets_g s" "cr_read_depth (rcu_lock s) = cr_read_depth s + 1"
  "crm_tenant_table_g (rcu_unlock s) = crm_tenant_table_g s" "cr_tenants (rcu_unlock s) = cr_tenants s"
  "cr_links (rcu_unlock s) = cr_links s" "cr_attrs (rcu_unlock s) = cr_attrs s" "cr_vns (rcu_unlock s) = cr_vns s"
  "cr_mem (rcu_unlock s) = cr_mem s" "get_lst (rcu_unlock s) \<kappa> = get_lst s \<kappa>" "cr_calls (rcu_unlock s) = cr_calls s"
  "crm_no_of_tenant_buckets_g (rcu_unlock s) = crm_no_of_tenant_buckets_g s"
  "cr_read_depth (rcu_unlock s) = cr_read_depth s - 1"
  "cr_rcu (rcu_lock s) = cr_rcu s" "cr_hooks (rcu_lock s) = cr_hooks s"
  "crm_tenant_notifications (rcu_lock s) = crm_tenant_notifications s"
  "cr_rcu (rcu_unlock s) = cr_rcu s" "cr_hooks (rcu_unlock s) = cr_hooks s"
  "crm_tenant_notifications (rcu_unlock s) = crm_tenant_notifications s"
  "crm_tenant_mempool_g (rcu_lock s) = crm_tenant_mempool_g s"
  "crm_tenant_vnnames_mempool_g (rcu_lock s) = crm_tenant_vnnames_mempool_g s"
  "crm_attributes_mempool_g (rcu_lock s) = crm_attributes_mempool_g s"
  by (cases \<kappa>; simp add: rcu_lock_def rcu_unlock_def)+

lemma names_unique_cong:
  assumes "names_unique s B" "\<And>n. n \<in> nodes B \<Longrightarrow> tn_key (cr_tenants s' n) = tn_key (cr_tenants s n)"
  shows "names_unique s' B"
proof -
  have "tn_tenant_name (cr_tenants s' n) = tn_tenant_name (cr_tenants s n)" if "n \<in> nodes B" for n
    using assms(2)[OF that] by (simp add: tn_key_def)
  then show ?thesis using assms(1) by (simp add: names_unique_def inj_on_def)
qed

section \<open>Handles\<close>

lemma crm_invD:
  assumes "crm_inv s t B L"
  shows "crm_tenant_table_g s = Some t" "mch_inv t B" "crm_no_of_tenant_buckets_g s = buckets t" "buckets t \<noteq> 0"
    "lists_ok s (nodes B) L" "length (bucket_list t) = unat (buckets t)"
    "\<And>k n. n \<in> set (B k) \<Longrightarrow> tenant_ok t k n (cr_tenants s n)"
    "\<And>n. n \<in> nodes B \<Longrightarrow> names_ok (cr_attrs s) (L (Attrs n))"
    "\<And>n. n \<in> nodes B \<Longrightarrow> number_of_virtual_networks (cr_tenants s n) = of_nat (length (L (Vns n)))"
  using assms by (auto simp: crm_inv_def table_ok_def mch_inv_def)

lemma name_bucket_bound:
  assumes "crm_inv s t B L" shows "name_bucket s nm < length (bucket_list t)"
  using crm_hash_bound[OF crm_invD(4)[OF assms]] crm_invD(3,6)[OF assms] by (simp add: name_bucket_def)

text \<open>A usable handle: its index is in the table and its magic number is not 0.\<close>

definition handle_ok :: "mchash_table \<Rightarrow> u64 \<Rightarrow> bool" where
  "handle_ok t h \<longleftrightarrow> unat (index_of h) < length (indirection_array t) \<and> magic_of h \<noteq> 0"

abbreviation tenant_at :: "mchash_table \<Rightarrow> u64 \<Rightarrow> ptr" where
  "tenant_at t h \<equiv> mch_refs t (index_of h, magic_of h)"

lemma tenant_at_node:
  assumes "crm_inv s t B L" "tenant_at t h = Some n"
  shows "n \<in> nodes B" "handle_ok t h" "tn_handle (cr_tenants s n) = h" "tn_magic (cr_tenants s n) = magic_of h"
    "tn_index (cr_tenants s n) = index_of h"
proof -
  note e = refs_entry[OF crm_invD(2)[OF assms(1)] assms(2)]
  show "n \<in> nodes B" using e(6) by (auto simp: nodes_def)
  show "handle_ok t h" using e(1,3) by (simp add: handle_ok_def)
  have ok: "mch_refs t (tn_index (cr_tenants s n), tn_magic (cr_tenants s n)) = Some n"
    "tn_handle (cr_tenants s n) = handle_of (tn_magic (cr_tenants s n)) (tn_index (cr_tenants s n))"
    using crm_invD(7)[OF assms(1) e(6)] by (auto simp: tenant_ok_def)
  note e' = refs_entry[OF crm_invD(2)[OF assms(1)] ok(1)]
  show ix: "tn_index (cr_tenants s n) = index_of h" using e(5) e'(5) by simp
  show mg: "tn_magic (cr_tenants s n) = magic_of h" using e(2) e'(2) ix by simp
  show "tn_handle (cr_tenants s n) = h" using ok(2) ix mg handle_eq[of h] by simp
qed

lemma tenant_at_inj:
  assumes "crm_inv s t B L" "tenant_at t h = Some n" "tenant_at t h' = Some n" shows "h = h'"
  using tenant_at_node(3)[OF assms(1,2)] tenant_at_node(3)[OF assms(1,3)] by simp

lemma access_handle:
  assumes "crm_inv s t B L" "handle_ok t h"
  shows "MCHASH_ACCESS_NODE (index_of h) (magic_of h) t = Some (map_option Some (tenant_at t h))"
  using access_ok[OF crm_invD(2)[OF assms(1)]] assms(2) by (simp add: handle_ok_def)

lemma byhandle_ok:
  assumes "crm_inv s t B L" "handle_ok t h"
  shows "get_tenant_byhandle h s = Some (case tenant_at t h of
    None \<Rightarrow> (CRM_ERROR_INVALID_TENANT_HANDLE, None) | Some n \<Rightarrow> (CRM_SUCCESS, Some n))"
  using access_handle[OF assms] crm_invD(1)[OF assms(1)]
  by (simp add: get_tenant_byhandle_def split: option.splits)

lemma nodes_tenant:
  assumes "crm_inv s t B L" "n \<in> set (B k)"
  shows "tenant_at t (tn_handle (cr_tenants s n)) = Some n" "name_bucket s (tn_tenant_name (cr_tenants s n)) = k"
  using crm_invD(3,7)[OF assms(1)] assms(2) by (auto simp: tenant_ok_def name_bucket_def)

section \<open>Notifications\<close>

definition calls_for :: "'c crm_sys \<Rightarrow> (crm_list \<Rightarrow> addr list) \<Rightarrow> nat \<Rightarrow> u64 \<Rightarrow> crm_tenant_notification_data \<Rightarrow> 'c crm_call list" where
  "calls_for s L ty h d = map (\<lambda>n. Notify (hk_call_back (cr_hooks s n)) ty h d (hk_cbk_arg1 (cr_hooks s n)) (hk_cbk_arg2 (cr_hooks s n)))
     (L (Hooks ty) @ L (Hooks CRM_TENANT_ALL_NOTIFICATIONS))"

lemma notify_list_ok:
  assumes "lists_ok s N L" "i < 7"
  shows "notify_list i f s = Some (s\<lparr>cr_calls := cr_calls s @ map (\<lambda>n. f (cr_hooks s n)) (L (Hooks i))\<rparr>)"
proof -
  have "ol_exact (get_lst s (Hooks i)) (L (Hooks i))" by (rule lists_okD(1)[OF assms(1)]) (use assms(2) in simp)
  then have "lseg (cr_links s) (ol_head (crm_tenant_notifications s ! i)) (L (Hooks i)) None"
    by (simp add: ol_exact_def ol_rep_def)
  then show ?thesis using OF_LIST_SCAN_rep assms by (simp add: notify_list_def lists_ok_def)
qed

lemma crm_notify_ok:
  assumes "lists_ok s N L" "ty < 7"
  shows "crm_notify ty h d s = Some (s\<lparr>cr_calls := cr_calls s @ calls_for s L ty h d\<rparr>)"
proof -
  have "lists_ok (s\<lparr>cr_calls := c\<rparr>) N L" for c using assms(1) by simp
  note all = notify_list_ok[OF this, of 0]
  show ?thesis using notify_list_ok[OF assms] all by (simp add: crm_notify_def calls_for_def Let_def)
qed

section \<open>Attributes of a tenant\<close>

lemma crm_invI:
  "table_ok s t B \<Longrightarrow> lists_ok s (nodes B) L \<Longrightarrow> (\<And>n. n \<in> nodes B \<Longrightarrow> names_ok (cr_attrs s) (L (Attrs n))) \<Longrightarrow>
   (\<And>n. n \<in> nodes B \<Longrightarrow> number_of_virtual_networks (cr_tenants s n) = of_nat (length (L (Vns n)))) \<Longrightarrow> crm_inv s t B L"
  by (simp add: crm_inv_def)

lemma crm_abs_upd:
  assumes inv: "crm_inv s t B L" and at: "tenant_at t h = Some n" and v: "abs_tenant s' L' n = v"
    and other: "\<And>m. m \<in> nodes B \<Longrightarrow> m \<noteq> n \<Longrightarrow> abs_tenant s' L' m = abs_tenant s L m"
  shows "crm_abs s' t L' = (crm_abs s t L)(h \<mapsto> v)"
proof
  fix h' show "crm_abs s' t L' h' = ((crm_abs s t L)(h \<mapsto> v)) h'"
  proof (cases "tenant_at t h'")
    case None
    then show ?thesis using at by (auto simp: crm_abs_def)
  next
    case (Some m)
    show ?thesis
    proof (cases "m = n")
      case True
      then have "h' = h" using tenant_at_inj[OF inv] at Some by blast
      then show ?thesis using at v by (simp add: crm_abs_def)
    next
      case False
      then have "h' \<noteq> h" using at Some by auto
      then show ?thesis using other[OF tenant_at_node(1)[OF inv Some] False] Some by (simp add: crm_abs_def)
    qed
  qed
qed

lemma names_ok_cong: "(\<And>n. n \<in> set xs \<Longrightarrow> A' n = A n) \<Longrightarrow> names_ok A' xs = names_ok A xs"
  unfolding names_ok_def by (metis (mono_tags, lifting) map_eq_conv)

lemma used_disjoint:
  assumes "lists_ok s N L" "live N \<kappa>" "\<kappa>' \<noteq> \<kappa>" shows "set (L \<kappa>') \<subseteq> used L - set (L \<kappa>)"
  using lists_okD(3)[OF assms(1,2,3)] by (auto simp: used_def)

lemma abs_tenant_attrs:
  assumes "cr_tenants s' m = cr_tenants s m \<or> tn_tenant_name (cr_tenants s' m) = tn_tenant_name (cr_tenants s m) \<and>
      number_of_attributes (cr_tenants s' m) = number_of_attributes (cr_tenants s m)"
    "\<And>a. a \<in> set (L (Attrs m)) \<Longrightarrow> cr_attrs s' a = cr_attrs s a" "\<And>a. a \<in> set (L (Vns m)) \<Longrightarrow> cr_vns s' a = cr_vns s a"
    "L' (Attrs m) = L (Attrs m)" "L' (Vns m) = L (Vns m)"
  shows "abs_tenant s' L' m = abs_tenant s L m"
  using assms by (auto simp: abs_tenant_def intro!: alist_of_cong)

text \<open>The list \<open>\<kappa>\<close> of a tenant has become \<open>ys\<close>, with counters and entries of the tenant.\<close>

lemma put_lst_inv:
  assumes inv: "crm_inv s t B L" and \<kappa>: "live (nodes B) \<kappa>" and ex: "ol_exact st ys"
    and fr: "\<And>m. m \<in> used L - set (L \<kappa>) \<Longrightarrow> fst st m = cr_links s m \<and> cr_attrs s' m = cr_attrs s m"
    and ys: "set ys \<subseteq> set (L \<kappa>) \<union> - used L"
    and s': "crm_tenant_table_g s' = crm_tenant_table_g s" "crm_no_of_tenant_buckets_g s' = crm_no_of_tenant_buckets_g s"
      "crm_tenant_notifications s' = crm_tenant_notifications (put_lst \<kappa> st s)" "cr_links s' = fst st" 
      "\<And>n. tn_key (cr_tenants s' n) = tn_key (cr_tenants s n)"
      "\<And>n. list_of_virtual_networks (cr_tenants s' n) = list_of_virtual_networks (cr_tenants (put_lst \<kappa> st s) n)"
      "\<And>n. tn_attributes (cr_tenants s' n) = tn_attributes (cr_tenants (put_lst \<kappa> st s) n)"
    and nm: "\<And>n. \<kappa> = Attrs n \<Longrightarrow> names_ok (cr_attrs s') ys"
    and cnt: "\<And>n. n \<in> nodes B \<Longrightarrow> number_of_virtual_networks (cr_tenants s' n) = of_nat (length ((L(\<kappa> := ys)) (Vns n)))"
  shows "crm_inv s' t B (L(\<kappa> := ys))"
proof (rule crm_invI)
  note lo = crm_invD(5)[OF inv]
  obtain nx l rcu where st: "st = (nx, l, rcu)" by (cases st)
  have dis: "m \<in> used L - set (L \<kappa>)" if "\<kappa>' \<noteq> \<kappa>" "m \<in> set (L \<kappa>')" for \<kappa>' m
    using used_disjoint[OF lo \<kappa> that(1)] that(2) by blast
  have "lists_ok (put_lst \<kappa> st s) (nodes B) (L(\<kappa> := ys))"
  proof -
    have "nx m = cr_links s m \<and> m \<notin> set ys" if "\<kappa>' \<noteq> \<kappa>" "m \<in> set (L \<kappa>')" for \<kappa>' m
      using dis[OF that] fr[OF dis[OF that]] ys st by auto
    then show ?thesis unfolding st by (rule lists_ok_put[OF lo \<kappa> ex[unfolded st]])
  qed
  moreover have "fst (snd (get_lst s' \<kappa>')) = fst (snd (get_lst (put_lst \<kappa> st s) \<kappa>'))" for \<kappa>'
    by (cases \<kappa>') (simp_all add: s')
  ultimately show "lists_ok s' (nodes B) (L(\<kappa> := ys))"
    by (rule lists_ok_cong) (simp_all add: s')
  have "table_ok s t B" using inv by (simp add: crm_inv_def)
  then show "table_ok s' t B" by (rule table_ok_cong) (simp_all only: s'(1,2,5))
  show "names_ok (cr_attrs s') ((L(\<kappa> := ys)) (Attrs n))" if "n \<in> nodes B" for n
  proof (cases "\<kappa> = Attrs n")
    case False
    then have "names_ok (cr_attrs s') (L (Attrs n)) = names_ok (cr_attrs s) (L (Attrs n))"
      using fr[OF dis[of "Attrs n"]] by (intro names_ok_cong) blast
    then show ?thesis using crm_invD(8)[OF inv that] False by simp
  qed (simp add: nm)
  show "number_of_virtual_networks (cr_tenants s' n) = of_nat (length ((L(\<kappa> := ys)) (Vns n)))" if "n \<in> nodes B" for n
    by (rule cnt[OF that])
qed

lemma attrs_of_tenant:
  assumes "crm_inv s t B L" "n \<in> nodes B" shows "attrs_ok (get_lst s (Attrs n)) (cr_attrs s) (L (Attrs n))"
  using lists_okD(1)[OF crm_invD(5)[OF assms(1)], of "Attrs n"] crm_invD(8)[OF assms] assms(2) by (simp add: attrs_ok_def)

lemma add_attr_to_tenant_ok:
  assumes inv: "crm_inv s t B L" and at: "tenant_at t h = Some n" and abs: "crm_abs s t L h = Some (nm, al, vs, c)"
    and len: "length k < CRM_MAX_ATTRIBUTE_NAME_LEN" "length v < CRM_MAX_ATTRIBUTE_VALUE_LEN"
    and fresh: "gives_fresh (ce_mem e) (crm_attributes_mempool_g s) 0 (cr_mem s) (used L)"
  shows "\<exists>rc s' L'. crm_add_attribute_to_tenant e h (Some (k, v)) s = Some (rc, s') \<and> crm_inv s' t B L' \<and>
    (names_unique s B \<longrightarrow> names_unique s' B) \<and> cr_read_depth s' = cr_read_depth s \<and>
    (if k \<in> fst ` set al \<or> block_given (ce_mem e) (crm_attributes_mempool_g s) 0 (cr_mem s)
     then rc = CRM_SUCCESS \<and> crm_abs s' t L' = (crm_abs s t L)(h \<mapsto> (nm, AList.update k v al, vs, c + 1))
     else rc = CRM_ERROR_NO_MEM \<and> crm_abs s' t L' = crm_abs s t L \<and> cr_calls s' = cr_calls s)"
proof -
  note n = tenant_at_node(1)[OF inv at] and hok = tenant_at_node(2)[OF inv at]
  have val: "abs_tenant s L n = (nm, al, vs, c)" using abs at by (simp add: crm_abs_def)
  have \<kappa>: "live (nodes B) (Attrs n)" using n by simp
  have sub: "set (L (Attrs n)) \<subseteq> used L" by (auto simp: used_def)
  obtain rc st A m ys where r: "crm_add_attribute (ce_mem e) (crm_attributes_mempool_g s) (Some (k, v))
      (get_lst s (Attrs n), cr_attrs s, cr_mem s) = Some (rc, st, A, m)"
    "attr_added k v (used L) (get_lst s (Attrs n)) (cr_attrs s) (cr_mem s) (L (Attrs n)) rc st A m ys"
    "rc = CRM_SUCCESS \<longleftrightarrow> k \<in> fst ` set (alist_of (cr_attrs s) (L (Attrs n))) \<or>
       block_given (ce_mem e) (crm_attributes_mempool_g s) 0 (cr_mem s)"
    by (rule add_attribute_ok[OF attrs_of_tenant[OF inv n] len fresh sub])
  have al: "al = alist_of (cr_attrs s) (L (Attrs n))" using val by (simp add: abs_tenant_def)
  let ?s1 = "(put_lst (Attrs n) st (rcu_lock s))\<lparr>cr_attrs := A, cr_mem := m\<rparr>" and ?L = "L(Attrs n := ys)"
  have aok: "attrs_ok st A ys" and fr: "\<forall>a\<in>used L - set (L (Attrs n)). A a = cr_attrs s a \<and> fst st a = cr_links s a"
    and ys: "set ys \<subseteq> set (L (Attrs n)) \<union> - used L"
    using r(2) by (auto simp: attr_added_def)
  have byh: "get_tenant_byhandle h (rcu_lock s) = Some (CRM_SUCCESS, Some n)"
    using byhandle_ok[of "rcu_lock s" t B L h] inv hok at by simp
  have other: "A a = cr_attrs s a" if "a \<in> set (L (Attrs m'))" "m' \<noteq> n" for a m'
    using used_disjoint[OF crm_invD(5)[OF inv] \<kappa>, of "Attrs m'"] that fr by auto
  have inv': "crm_inv s' t B ?L"
    if "s' = ?s1\<lparr>cr_tenants := (cr_tenants ?s1)(n := T)\<rparr>" "tn_key T = tn_key (cr_tenants s n)"
      "number_of_virtual_networks T = number_of_virtual_networks (cr_tenants s n)"
      "list_of_virtual_networks T = list_of_virtual_networks (cr_tenants s n)" "tn_attributes T = fst (snd st)" for s' T
  proof (rule put_lst_inv[OF inv \<kappa>, of st])
    show "ol_exact st ys" using aok by (simp add: attrs_ok_def)
    show "names_ok (cr_attrs s') ys" using aok that by (simp add: attrs_ok_def)
    show "number_of_virtual_networks (cr_tenants s' x) = of_nat (length (?L (Vns x)))" if "x \<in> nodes B" for x
      using crm_invD(9)[OF inv that] \<open>s' = _\<close> \<open>number_of_virtual_networks T = _\<close> by (cases "x = n") simp_all
  qed (use that fr ys in \<open>cases st; auto simp: tn_key_def rcu_lock_def\<close>)+
  show ?thesis
  proof (cases "rc = CRM_SUCCESS")
    case True
    let ?T = "(cr_tenants ?s1 n)\<lparr>number_of_attributes := number_of_attributes (cr_tenants ?s1 n) + 1\<rparr>"
    let ?s2 = "?s1\<lparr>cr_tenants := (cr_tenants ?s1)(n := ?T)\<rparr>"
    have inv2: "crm_inv ?s2 t B ?L" by (rule inv'[OF refl]) (cases st; simp add: tn_key_def)+
    define C where "C = cr_calls ?s2 @ [Create_view h k v]"
    let ?d = "\<lparr>nd_tenant_name = Some (tn_tenant_name (cr_tenants ?s1 n)), nd_attribute_name = Some k, nd_attribute_value = Some v\<rparr>"
    have "lists_ok (?s2\<lparr>cr_calls := C\<rparr>) (nodes B) ?L" using crm_invD(5)[OF inv2] by simp
    then obtain C' where nt: "crm_notify CRM_TENANT_ATTRIBUTE_ADDED h ?d (?s2\<lparr>cr_calls := C\<rparr>) = Some (?s2\<lparr>cr_calls := C'\<rparr>)"
      using crm_notify_ok[of "?s2\<lparr>cr_calls := C\<rparr>" "nodes B" ?L CRM_TENANT_ATTRIBUTE_ADDED h ?d] by simp
    have run: "crm_add_attribute_to_tenant e h (Some (k, v)) s = Some (CRM_SUCCESS, rcu_unlock (?s2\<lparr>cr_calls := C'\<rparr>))"
      using nt byh r(1) True by (simp add: crm_add_attribute_to_tenant_def C_def Let_def)
    have "abs_tenant ?s2 ?L n = (nm, AList.update k v al, vs, c + 1)"
      using val r(2) True by (auto simp: abs_tenant_def attr_added_def)
    then have "crm_abs ?s2 t ?L = (crm_abs s t L)(h \<mapsto> (nm, AList.update k v al, vs, c + 1))"
      by (rule crm_abs_upd[OF inv at]) (rule abs_tenant_attrs; use other in simp)
    moreover have "names_unique (rcu_unlock (?s2\<lparr>cr_calls := C'\<rparr>)) B" if "names_unique s B"
      using that by (rule names_unique_cong) (simp add: tn_key_def)
    moreover have "crm_inv (rcu_unlock (?s2\<lparr>cr_calls := C'\<rparr>)) t B ?L" using inv2 by simp
    moreover have "cr_read_depth (rcu_unlock (?s2\<lparr>cr_calls := C'\<rparr>)) = cr_read_depth s" by simp
    ultimately show ?thesis using run r(3)[folded al] True
      by (intro exI[of _ CRM_SUCCESS] exI[of _ "rcu_unlock (?s2\<lparr>cr_calls := C'\<rparr>)"] exI[of _ ?L]) simp
  next
    case False
    then have f: "rc = CRM_ERROR_NO_MEM" "k \<notin> fst ` set al" "st = get_lst s (Attrs n)" "A = cr_attrs s" "ys = L (Attrs n)"
      using r(2) val by (auto simp: attr_added_def abs_tenant_def)
    let ?s' = "rcu_unlock ((rcu_lock s)\<lparr>cr_attrs := cr_attrs s, cr_mem := m\<rparr>)"
    have s': "?s' = s\<lparr>cr_mem := m\<rparr>" by (simp add: rcu_lock_def rcu_unlock_def)
    have "crm_add_attribute_to_tenant e h (Some (k, v)) s = Some (CRM_ERROR_NO_MEM, ?s')"
      using byh r(1) f by (simp add: crm_add_attribute_to_tenant_def Let_def) (simp add: rcu_lock_def)
    then show ?thesis using f(2) inv r(3)[folded al] False unfolding s'
      by (intro exI[of _ CRM_ERROR_NO_MEM] exI[of _ "s\<lparr>cr_mem := m\<rparr>"] exI[of _ L]) (simp add: names_unique_def)
  qed
qed

text \<open>Appending a new node to a list of the component and unlinking one.\<close>

lemma list_append_ok:
  assumes "lists_ok s N L" "live N \<kappa>" "b \<notin> used L" "node_ok b"
  obtains st where "OF_APPEND_NODE_TO_LIST b ((cr_links s)(b := None), snd (get_lst s \<kappa>)) = Some st"
    "ol_exact st (L \<kappa> @ [b])" "\<forall>m\<in>used L - set (L \<kappa>). fst st m = cr_links s m"
    "set (L \<kappa> @ [b]) \<subseteq> set (L \<kappa>) \<union> - used L"
proof -
  let ?st = "((cr_links s)(b := None), snd (get_lst s \<kappa>))"
  have b: "b \<notin> set (L \<kappa>)" using assms(3) by (auto simp: used_def)
  have "ol_exact (cr_links s, snd (get_lst s \<kappa>)) (L \<kappa>)" using lists_okD(1)[OF assms(1,2)] get_lst_fields(1)[of s \<kappa>]
    by (metis prod.collapse)
  then have "ol_exact ?st (L \<kappa>)"
    using ol_exact_frame[of "cr_links s" "fst (snd (get_lst s \<kappa>))" "cr_rcu s" "L \<kappa>" "(cr_links s)(b := None)" "cr_rcu s"] b
      prod.collapse[of "snd (get_lst s \<kappa>)"] by (auto simp del: prod.collapse)
  then obtain st where st: "OF_APPEND_NODE_TO_LIST b ?st = Some st" "ol_exact st (L \<kappa> @ [b])"
    "\<forall>m. m \<notin> set (L \<kappa>) \<longrightarrow> fst st m = fst ?st m"
    using ol_append[of ?st "L \<kappa>" b] b assms(4) by (auto simp: ol_exact_def)
  show thesis
  proof (rule that[OF st(1,2)])
    show "\<forall>m\<in>used L - set (L \<kappa>). fst st m = cr_links s m" using st(3) assms(3) by auto
    show "set (L \<kappa> @ [b]) \<subseteq> set (L \<kappa>) \<union> - used L" using assms(3) by auto
  qed
qed

lemma list_remove_ok:
  assumes "lists_ok s N L" "live N \<kappa>" "L \<kappa> = ys @ a # zs"
  obtains st where "OF_REMOVE_NODE_FROM_LIST a (last_ptr ys) (get_lst s \<kappa>) = Some st"
    "ol_exact st (ys @ zs)" "\<forall>m\<in>used L - set (L \<kappa>). fst st m = cr_links s m"
    "set (ys @ zs) \<subseteq> set (L \<kappa>) \<union> - used L"
proof -
  obtain st where st: "OF_REMOVE_NODE_FROM_LIST a (last_ptr ys) (get_lst s \<kappa>) = Some st" "ol_exact st (ys @ zs)"
    "\<forall>m. m \<notin> set ys \<longrightarrow> fst st m = fst (get_lst s \<kappa>) m"
    using ol_remove[of "get_lst s \<kappa>" ys a zs] lists_okD(1)[OF assms(1,2)] assms(3) by auto
  show thesis by (rule that[OF st(1,2)]) (use st(3) assms(3) in auto)
qed

lemma search_in_list:
  assumes "lists_ok s N L" "live N \<kappa>"
  shows "\<forall>a\<in>set (L \<kappa>). \<not> P a \<Longrightarrow> \<exists>prev. of_list_search (cr_links s) P None (ol_head (fst (snd (get_lst s \<kappa>)))) = Some (prev, None)"
    "L \<kappa> = ys @ a # zs \<Longrightarrow> \<forall>y\<in>set ys. \<not> P y \<Longrightarrow> P a \<Longrightarrow>
     of_list_search (cr_links s) P None (ol_head (fst (snd (get_lst s \<kappa>)))) = Some (last_ptr ys, Some a)"
proof -
  have h: "lseg (cr_links s) (ol_head (fst (snd (get_lst s \<kappa>)))) (L \<kappa>) None"
    using attrs_head(1)[OF lists_okD(1)[OF assms]] by simp
  show "\<exists>prev. of_list_search (cr_links s) P None (ol_head (fst (snd (get_lst s \<kappa>)))) = Some (prev, None)"
    if "\<forall>a\<in>set (L \<kappa>). \<not> P a" using of_list_search_absent[OF h that] by blast
  show "of_list_search (cr_links s) P None (ol_head (fst (snd (get_lst s \<kappa>)))) = Some (last_ptr ys, Some a)"
    if "L \<kappa> = ys @ a # zs" "\<forall>y\<in>set ys. \<not> P y" "P a"
    using of_list_search_present[OF h[unfolded that(1)] that(2,3), of None] by (simp add: last_ptr_def)
qed

lemma alist_of_delete:
  assumes "names_ok A (ys @ a # zs)"
  shows "AList.delete (ra_name (A a)) (alist_of A (ys @ a # zs)) = alist_of A (ys @ zs)"
proof -
  have "AList.delete k (xs' @ ys') = AList.delete k xs' @ AList.delete k ys'" for k :: string and xs' ys' :: "(string \<times> string) list"
    by (induction xs') auto
  moreover have "ra_name (A a) \<notin> fst ` set (alist_of A ys)" "ra_name (A a) \<notin> fst ` set (alist_of A zs)"
    using assms unfolding names_ok_def alist_of_def set_map image_image fst_conv by auto
  ultimately show ?thesis by simp
qed

lemma del_attr_from_tenant_ok:
  assumes inv: "crm_inv s t B L" and at: "tenant_at t h = Some n" and abs: "crm_abs s t L h = Some (nm, al, vs, c)"
  shows "\<exists>rc s' L'. crm_delete_attribute_from_tenant h k s = Some (rc, s') \<and> crm_inv s' t B L' \<and>
    (names_unique s B \<longrightarrow> names_unique s' B) \<and> cr_read_depth s' = cr_read_depth s \<and>
    (if k \<in> fst ` set al then rc = CRM_SUCCESS \<and> crm_abs s' t L' = (crm_abs s t L)(h \<mapsto> (nm, AList.delete k al, vs, c - 1))
     else rc = CRM_FAILURE \<and> s' = s \<and> L' = L)"
proof -
  note n = tenant_at_node(1)[OF inv at] and hok = tenant_at_node(2)[OF inv at]
  have val: "abs_tenant s L n = (nm, al, vs, c)" using abs at by (simp add: crm_abs_def)
  have \<kappa>: "live (nodes B) (Attrs n)" using n by simp
  have byh: "get_tenant_byhandle h (rcu_lock s) = Some (CRM_SUCCESS, Some n)"
    using byhandle_ok[of "rcu_lock s" t B L h] inv hok at by simp
  have aok: "names_ok (cr_attrs s) (L (Attrs n))" by (rule crm_invD(8)[OF inv n])
  have un: "rcu_unlock (rcu_lock s) = s" by (simp add: rcu_lock_def rcu_unlock_def)
  note lo = crm_invD(5)[OF inv]
  from attrs_of_tenant[OF inv n] show ?thesis
  proof (cases rule: name_split[where nm = k])
    case absent
    obtain prev where "of_list_search (cr_links s) (\<lambda>a. ra_name (cr_attrs s a) = k) None (ol_head (fst (snd (get_lst s (Attrs n))))) =
        Some (prev, None)"
      using search_in_list(1)[OF lo \<kappa>, of "\<lambda>a. ra_name (cr_attrs s a) = k"] absent(2) by blast
    then have "crm_delete_attribute_from_tenant h k s = Some (CRM_FAILURE, s)"
      using byh un by (simp add: crm_delete_attribute_from_tenant_def Let_def)
    moreover have "k \<notin> fst ` set al" using absent(1) val by (simp add: abs_tenant_def)
    ultimately show ?thesis using inv by auto
  next
    case (present ys a zs)
    have srch: "of_list_search (cr_links s) (\<lambda>a. ra_name (cr_attrs s a) = k) None (ol_head (fst (snd (get_lst s (Attrs n))))) =
        Some (last_ptr ys, Some a)"
      by (rule search_in_list(2)[OF lo \<kappa> present(1)]) (use present in auto)
    obtain st where st: "OF_REMOVE_NODE_FROM_LIST a (last_ptr ys) (get_lst s (Attrs n)) = Some st" "ol_exact st (ys @ zs)"
      "\<forall>m\<in>used L - set (L (Attrs n)). fst st m = cr_links s m" "set (ys @ zs) \<subseteq> set (L (Attrs n)) \<union> - used L"
      by (rule list_remove_ok[OF lo \<kappa> present(1)])
    let ?d = "\<lparr>nd_tenant_name = Some (tn_tenant_name (cr_tenants s n)), nd_attribute_name = Some k,
        nd_attribute_value = Some (ra_value (cr_attrs s a))\<rparr>"
    have "lists_ok (rcu_lock s) (nodes B) L" using inv crm_invD(5)[of "rcu_lock s" t B L] by simp
    then obtain C where nt: "crm_notify CRM_TENANT_ATTRIBUTE_DELETE h ?d (rcu_lock s) = Some ((rcu_lock s)\<lparr>cr_calls := C\<rparr>)"
      using crm_notify_ok[of "rcu_lock s" "nodes B" L CRM_TENANT_ATTRIBUTE_DELETE h ?d] by simp
    let ?s1 = "put_lst (Attrs n) st ((rcu_lock s)\<lparr>cr_calls := C\<rparr>)"
    let ?T = "(cr_tenants ?s1 n)\<lparr>number_of_attributes := number_of_attributes (cr_tenants ?s1 n) - 1\<rparr>"
    let ?C = "C @ [Remove_view k (ra_value (cr_attrs s a))]"
    let ?s2 = "rcu_unlock (?s1\<lparr>cr_tenants := (cr_tenants ?s1)(n := ?T), cr_calls := ?C\<rparr>)" and ?L = "L(Attrs n := ys @ zs)"
    have run: "crm_delete_attribute_from_tenant h k s = Some (CRM_SUCCESS, ?s2)"
      using byh srch nt st(1) present(2) by (simp add: crm_delete_attribute_from_tenant_def Let_def)
    have key: "tn_key (cr_tenants ?s2 x) = tn_key (cr_tenants s x)" for x by (simp add: tn_key_def)
    have inv2: "crm_inv ?s2 t B ?L"
    proof (rule put_lst_inv[OF inv \<kappa> st(2)])
      show "fst st m = cr_links s m \<and> cr_attrs ?s2 m = cr_attrs s m" if "m \<in> used L - set (L (Attrs n))" for m
        using st(3) that by simp
      show "names_ok (cr_attrs ?s2) (ys @ zs)"
        using aok present(1) by (auto simp: names_ok_def)
      show "number_of_virtual_networks (cr_tenants ?s2 x) = of_nat (length (?L (Vns x)))" if "x \<in> nodes B" for x
        using crm_invD(9)[OF inv that] by (cases "x = n") simp_all
    qed (use st(4) in \<open>cases st; simp add: tn_key_def\<close>)+
    have "abs_tenant ?s2 ?L n = (nm, AList.delete k al, vs, c - 1)"
      using val alist_of_delete[of "cr_attrs s" ys a zs] aok present(1,2) by (auto simp: abs_tenant_def)
    then have "crm_abs ?s2 t ?L = (crm_abs s t L)(h \<mapsto> (nm, AList.delete k al, vs, c - 1))"
      by (rule crm_abs_upd[OF inv at]) (rule abs_tenant_attrs; simp)
    moreover have "names_unique ?s2 B" if "names_unique s B" using that key by (rule names_unique_cong)
    moreover have "k \<in> fst ` set al" using val present(1,2) by (auto simp: abs_tenant_def)
    ultimately show ?thesis using run inv2 by (intro exI[of _ CRM_SUCCESS] exI[of _ ?s2] exI[of _ ?L]) simp
  qed
qed

section \<open>Virtual networks of a tenant\<close>

lemma get_lst_frame [simp]:
  "get_lst (s\<lparr>cr_mem := m, cr_links := nx, cr_vns := V\<rparr>) \<kappa> = (nx, snd (get_lst s \<kappa>))"
  by (cases \<kappa>) simp_all

lemma add_vn_to_tenant_ok:
  assumes inv: "crm_inv s t B L" and at: "tenant_at t h = Some n" and abs: "crm_abs s t L h = Some (nm, al, vs, c)"
    and len: "length vn < CRM_MAX_VN_NAME_LEN"
    and fresh: "gives_fresh (ce_mem e) (crm_tenant_vnnames_mempool_g s) (ce_heap_b e) (cr_mem s) (used L)"
  shows "\<exists>rc s' L'. crm_add_vn_to_tenant e h vn s = Some (rc, s') \<and> crm_inv s' t B L' \<and>
    (names_unique s B \<longrightarrow> names_unique s' B) \<and> cr_read_depth s' = cr_read_depth s \<and> cr_calls s' = cr_calls s \<and>
    (if block_given (ce_mem e) (crm_tenant_vnnames_mempool_g s) (ce_heap_b e) (cr_mem s)
     then rc = CRM_SUCCESS \<and> crm_abs s' t L' = (crm_abs s t L)(h \<mapsto> (nm, al, vs @ [vn], c))
     else rc = CRM_FAILURE \<and> crm_abs s' t L' = crm_abs s t L)"
proof -
  note n = tenant_at_node(1)[OF inv at] and hok = tenant_at_node(2)[OF inv at]
  note lo = crm_invD(5)[OF inv]
  have val: "abs_tenant s L n = (nm, al, vs, c)" using abs at by (simp add: crm_abs_def)
  have \<kappa>: "live (nodes B) (Vns n)" using n by simp
  have acc: "MCHASH_ACCESS_NODE (index_of h) (magic_of h) t = Some (Some (Some n))"
    using access_handle[OF inv hok] at by simp
  have tbl: "crm_tenant_table_g (rcu_lock s) = Some t" using crm_invD(1)[OF inv] by simp
  from fresh show ?thesis
  proof (cases rule: gives_freshE)
    case (1 rc hb m')
    have "crm_add_vn_to_tenant e h vn s = Some (CRM_FAILURE, s\<lparr>cr_mem := m'\<rparr>)"
      using 1 acc tbl by (simp add: crm_add_vn_to_tenant_def Let_def) (simp add: rcu_lock_def rcu_unlock_def)
    moreover have "\<not> block_given (ce_mem e) (crm_tenant_vnnames_mempool_g s) (ce_heap_b e) (cr_mem s)"
      using 1 by (simp add: block_given_def)
    ultimately show ?thesis using inv
      by (intro exI[of _ CRM_FAILURE] exI[of _ "s\<lparr>cr_mem := m'\<rparr>"] exI[of _ L]) (simp add: names_unique_def)
  next
    case (2 v hb m')
    have given: "block_given (ce_mem e) (crm_tenant_vnnames_mempool_g s) (ce_heap_b e) (cr_mem s)"
      using 2(1) by (simp add: block_given_def)
    define V where "V = (cr_vns s)(v := \<lparr>vl_heap_b = hb, vl_nw_name = vn, vl_tenant_entry = n\<rparr>)"
    let ?s1 = "(rcu_lock s)\<lparr>cr_mem := m', cr_links := (cr_links s)(v := None), cr_vns := V\<rparr>" and ?ys = "L (Vns n) @ [v]"
    obtain st where st: "OF_APPEND_NODE_TO_LIST v ((cr_links s)(v := None), snd (get_lst s (Vns n))) = Some st"
      "ol_exact st ?ys" "\<forall>m\<in>used L - set (L (Vns n)). fst st m = cr_links s m" "set ?ys \<subseteq> set (L (Vns n)) \<union> - used L"
      by (rule list_append_ok[OF lo \<kappa> 2(2,3)])
    let ?T = "(cr_tenants (put_lst (Vns n) st ?s1) n)
      \<lparr>number_of_virtual_networks := number_of_virtual_networks (cr_tenants (put_lst (Vns n) st ?s1) n) + 1\<rparr>"
    let ?s2 = "rcu_unlock ((put_lst (Vns n) st ?s1)\<lparr>cr_tenants := (cr_tenants (put_lst (Vns n) st ?s1))(n := ?T)\<rparr>)"
    let ?L = "L(Vns n := ?ys)"
    have app: "OF_APPEND_NODE_TO_LIST v (get_lst ?s1 (Vns n)) = Some st" using st(1) by simp
    have run: "crm_add_vn_to_tenant e h vn s = Some (CRM_SUCCESS, ?s2)"
      using 2(1) acc tbl len app by (simp add: crm_add_vn_to_tenant_def Let_def V_def)
    have inv2: "crm_inv ?s2 t B ?L"
    proof (rule put_lst_inv[OF inv \<kappa> st(2)])
      show "number_of_virtual_networks (cr_tenants ?s2 x) = of_nat (length (?L (Vns x)))" if "x \<in> nodes B" for x
        using crm_invD(9)[OF inv that] by (cases "x = n") simp_all
    qed (use st(3,4) in \<open>cases st; simp add: tn_key_def\<close>)+
    have v: "v \<notin> set (L \<kappa>')" for \<kappa>' using 2(2) by (auto simp: used_def)
    have V: "map (\<lambda>v. vl_nw_name (V v)) (L \<kappa>') = map (\<lambda>v. vl_nw_name (cr_vns s v)) (L \<kappa>')" for \<kappa>'
      using v[of \<kappa>'] by (auto simp: V_def)
    have "abs_tenant ?s2 ?L n = (nm, al, vs @ [vn], c)"
      using val V[of "Vns n"] by (auto simp: abs_tenant_def) (simp add: V_def)
    then have "crm_abs ?s2 t ?L = (crm_abs s t L)(h \<mapsto> (nm, al, vs @ [vn], c))"
      by (rule crm_abs_upd[OF inv at]) (simp add: abs_tenant_def V)
    moreover have "names_unique ?s2 B" if "names_unique s B" using that by (rule names_unique_cong) (simp add: tn_key_def)
    moreover have "cr_read_depth ?s2 = cr_read_depth s" "cr_calls ?s2 = cr_calls s" by simp_all
    ultimately show ?thesis unfolding if_P[OF given] using run inv2 by blast
  qed
qed

lemma remove_first_where:
  "\<forall>y\<in>set ys. f y \<noteq> x \<Longrightarrow> f v = x \<Longrightarrow> remove1 x (map f (ys @ v # zs)) = map f (ys @ zs)"
  by (induction ys) auto

lemma del_vn_from_tenant_ok:
  assumes inv: "crm_inv s t B L" and at: "tenant_at t h = Some n" and abs: "crm_abs s t L h = Some (nm, al, vs, c)"
  shows "\<exists>rc s' L'. crm_del_vn_from_tenant h vn s = Some (rc, s') \<and> crm_inv s' t B L' \<and>
    (names_unique s B \<longrightarrow> names_unique s' B) \<and> cr_read_depth s' = cr_read_depth s \<and> cr_calls s' = cr_calls s \<and>
    (if vn \<in> set vs then rc = CRM_SUCCESS \<and> crm_abs s' t L' = (crm_abs s t L)(h \<mapsto> (nm, al, remove1 vn vs, c))
     else rc = CRM_FAILURE \<and> s' = s \<and> L' = L)"
proof -
  note n = tenant_at_node(1)[OF inv at] and hok = tenant_at_node(2)[OF inv at]
  note lo = crm_invD(5)[OF inv]
  have val: "abs_tenant s L n = (nm, al, vs, c)" using abs at by (simp add: crm_abs_def)
  have \<kappa>: "live (nodes B) (Vns n)" using n by simp
  have acc: "MCHASH_ACCESS_NODE (index_of h) (magic_of h) t = Some (Some (Some n))"
    using access_handle[OF inv hok] at by simp
  have tbl: "crm_tenant_table_g (rcu_lock s) = Some t" using crm_invD(1)[OF inv] by simp
  have un: "rcu_unlock (rcu_lock s) = s" by (simp add: rcu_lock_def rcu_unlock_def)
  let ?P = "\<lambda>v. vl_nw_name (cr_vns s v) = vn"
  have vs: "vs = map (\<lambda>v. vl_nw_name (cr_vns s v)) (L (Vns n))" using val by (simp add: abs_tenant_def)
  have rep: "ol_rep (get_lst s (Vns n)) (L (Vns n))" using lists_okD(1)[OF lo \<kappa>] by (simp add: ol_exact_def)
  show ?thesis
  proof (cases "List.find ?P (L (Vns n))")
    case None
    then have no: "\<forall>x\<in>set (L (Vns n)). \<not> ?P x" by (auto simp: find_None_iff)
    have "crm_del_vn_from_tenant h vn s = Some (CRM_FAILURE, s)"
      using of_list_remove_where_absent[OF rep no] acc tbl un by (simp add: crm_del_vn_from_tenant_def Let_def)
    moreover have "vn \<notin> set vs" using no vs by auto
    ultimately show ?thesis using inv by auto
  next
    case (Some v)
    then obtain ys zs where sp: "L (Vns n) = ys @ v # zs" "\<forall>y\<in>set ys. \<not> ?P y" "?P v" using find_split[OF Some] by blast
    obtain st where st: "OF_REMOVE_NODE_FROM_LIST v (last_ptr ys) (get_lst s (Vns n)) = Some st" "ol_exact st (ys @ zs)"
      "\<forall>m\<in>used L - set (L (Vns n)). fst st m = cr_links s m" "set (ys @ zs) \<subseteq> set (L (Vns n)) \<union> - used L"
      by (rule list_remove_ok[OF lo \<kappa> sp(1)])
    have rem: "of_list_remove_where ?P (get_lst s (Vns n)) = Some (Some v, st)"
      using of_list_remove_where_present[OF rep[unfolded sp(1)] sp(2,3)] st(1) by simp
    let ?s1 = "put_lst (Vns n) st (rcu_lock s)"
    let ?T = "(cr_tenants ?s1 n)\<lparr>number_of_virtual_networks := number_of_virtual_networks (cr_tenants ?s1 n) - 1\<rparr>"
    let ?s2 = "rcu_unlock (?s1\<lparr>cr_tenants := (cr_tenants ?s1)(n := ?T)\<rparr>)" and ?L = "L(Vns n := ys @ zs)"
    have run: "crm_del_vn_from_tenant h vn s = Some (CRM_SUCCESS, ?s2)"
      using rem acc tbl by (simp add: crm_del_vn_from_tenant_def Let_def)
    have inv2: "crm_inv ?s2 t B ?L"
    proof (rule put_lst_inv[OF inv \<kappa> st(2)])
      show "number_of_virtual_networks (cr_tenants ?s2 x) = of_nat (length (?L (Vns x)))" if "x \<in> nodes B" for x
        using crm_invD(9)[OF inv that] sp(1) by (cases "x = n") simp_all
    qed (use st(3,4) in \<open>cases st; simp add: tn_key_def\<close>)+
    have r1: "remove1 vn vs = map (\<lambda>v. vl_nw_name (cr_vns s v)) (ys @ zs)"
      unfolding vs sp(1) by (rule remove_first_where) (use sp in auto)
    have "abs_tenant ?s2 ?L n = (nm, al, remove1 vn vs, c)" using val r1 by (simp add: abs_tenant_def)
    then have "crm_abs ?s2 t ?L = (crm_abs s t L)(h \<mapsto> (nm, al, remove1 vn vs, c))"
      by (rule crm_abs_upd[OF inv at]) (simp add: abs_tenant_def)
    moreover have "names_unique ?s2 B" if "names_unique s B" using that by (rule names_unique_cong) (simp add: tn_key_def)
    moreover have "vn \<in> set vs" using vs sp by auto
    moreover have "cr_read_depth ?s2 = cr_read_depth s" "cr_calls ?s2 = cr_calls s" by simp_all
    ultimately show ?thesis using run inv2 by (metis (no_types, lifting))
  qed
qed

section \<open>Adding a tenant\<close>

text \<open>The pool takes back a block that it has just given.\<close>

definition takes_back :: "mem_env \<Rightarrow> ptr \<Rightarrow> u8 \<Rightarrow> mem_sys \<Rightarrow> bool" where
  "takes_back e pool h m \<longleftrightarrow> (\<forall>b hb m'. mempool_get_mem_block e pool h m = Some ((MEMPOOL_SUCCESS, Some b, hb), m') \<longrightarrow>
     mempool_release_mem_block e pool (Some b) hb m' \<noteq> None)"

lemma lists_ok_tenant:
  assumes "lists_ok s N L" "n \<notin> N" shows "lists_ok (s\<lparr>cr_tenants := (cr_tenants s)(n := T)\<rparr>) N L"
  using assms(1)
proof (rule lists_ok_cong)
  show "fst (snd (get_lst (s\<lparr>cr_tenants := (cr_tenants s)(n := T)\<rparr>) \<kappa>)) = fst (snd (get_lst s \<kappa>))" if "live N \<kappa>" for \<kappa>
    using that assms(2) by (cases \<kappa>) auto
qed simp_all

lemma crm_inv_tenant:
  assumes "crm_inv s t B L" "n \<notin> nodes B" shows "crm_inv (s\<lparr>cr_tenants := (cr_tenants s)(n := T)\<rparr>) t B L"
proof (rule crm_invI)
  have "table_ok s t B" using assms(1) by (simp add: crm_inv_def)
  then show "table_ok (s\<lparr>cr_tenants := (cr_tenants s)(n := T)\<rparr>) t B" by (rule table_ok_cong) (use assms(2) in auto)
qed (use lists_ok_tenant[OF crm_invD(5)[OF assms(1)] assms(2)] crm_invD(8,9)[OF assms(1)] assms(2) in auto)

lemma crm_abs_tenant:
  assumes "crm_inv s t B L" "n \<notin> nodes B" shows "crm_abs (s\<lparr>cr_tenants := (cr_tenants s)(n := T)\<rparr>) t L = crm_abs s t L"
proof
  show "crm_abs (s\<lparr>cr_tenants := (cr_tenants s)(n := T)\<rparr>) t L h = crm_abs s t L h" for h
    using tenant_at_node(1)[OF assms(1), of h] assms(2)
    by (cases "tenant_at t h") (auto simp: crm_abs_def abs_tenant_def)
qed

lemma init_null_list [simp]: "ol_exact (nx, init_list null_list, rcu) []"
  by (simp add: init_list_def null_list_def OF_LIST_INIT_def ol_exact_def ol_rep_def ol_cnt_def)

text \<open>The state after the insertion: the new tenant is a node of the table with two empty lists.\<close>

lemma tenant_inserted:
  assumes inv: "crm_inv s t B L" and n: "n \<notin> nodes B" and nm: "length nm < CRM_MAX_TENANT_NAME_LEN"
    and key: "unat keys = name_bucket s nm"
    and t': "mch_inv t' (B(unat keys := B (unat keys) @ [n]))" "mch_refs t (i, m) = None"
      "mch_refs t' = (mch_refs t)((i, m) := Some n)" "length (bucket_list t') = length (bucket_list t)"
    and s': "s' = s\<lparr>cr_tenants := (cr_tenants s)(n := finish_tenant m i (blank_tenant hb nm)), crm_tenant_table_g := Some t'\<rparr>"
  shows "crm_inv s' t' (B(unat keys := B (unat keys) @ [n])) L"
    "crm_abs s t L (handle_of m i) = None" "crm_abs s' t' L = (crm_abs s t L)(handle_of m i \<mapsto> (nm, [], [], 0))"
proof -
  let ?B = "B(unat keys := B (unat keys) @ [n])" and ?T = "finish_tenant m i (blank_tenant hb nm)"
  have N: "nodes ?B = insert n (nodes B)" by (rule nodes_append[OF n])
  note lo = crm_invD(5)[OF inv]
  have bk: "buckets t' = buckets t" using t'(1,4) crm_invD(2)[OF inv] by (simp add: mch_inv_def word_unat_eq_iff)
  have empty: "L (Attrs n) = []" "L (Vns n) = []" using lo n by (simp_all add: lists_ok_def)
  have "tenant_ok t' k x (cr_tenants s' x)" if "x \<in> set (?B k)" for k x
  proof (cases "x = n")
    case True
    moreover have "k = unat keys" using True that n by (auto simp: nodes_def split: if_splits)
    ultimately show ?thesis using key t'(3) nm crm_invD(3)[OF inv] bk
      by (simp add: tenant_ok_def s' finish_tenant_def blank_tenant_def name_bucket_def)
  next
    case False
    then have "x \<in> set (B k)" using that by (auto split: if_splits)
    from crm_invD(7)[OF inv this] show ?thesis using False t'(2,3) bk by (auto simp: tenant_ok_def s')
  qed
  then have "table_ok s' t' ?B" using t'(1) crm_invD(3,4)[OF inv] bk by (simp add: table_ok_def s')
  moreover have "lists_ok s' (insert n (nodes B)) L"
  proof -
    have lo': "lists_ok s' (nodes B) L" unfolding s' using lists_ok_tenant[OF lo n, of ?T] by simp
    have "ol_exact (get_lst s' \<kappa>) (L \<kappa>)" if "live (insert n (nodes B)) \<kappa>" for \<kappa>
    proof (cases "live (nodes B) \<kappa>")
      case False
      then have "\<kappa> = Attrs n \<or> \<kappa> = Vns n" using that by (cases \<kappa>) auto
      then show ?thesis using empty by (auto simp: s' finish_tenant_def blank_tenant_def)
    qed (rule lists_okD(1)[OF lo'])
    moreover have "L \<kappa> = []" if "\<not> live (insert n (nodes B)) \<kappa>" for \<kappa>
    proof -
      have "\<not> live (nodes B) \<kappa>" using that by (cases \<kappa>) auto
      then show ?thesis using lo by (simp add: lists_ok_def)
    qed
    ultimately show ?thesis using lo' by (simp add: lists_ok_def)
  qed
  ultimately show "crm_inv s' t' ?B L"
    using crm_invD(8,9)[OF inv] empty
    by (intro crm_invI) (auto simp: N s' names_ok_def finish_tenant_def blank_tenant_def)
  show "crm_abs s t L (handle_of m i) = None" using t'(2) by (simp add: crm_abs_def)
  show "crm_abs s' t' L = (crm_abs s t L)(handle_of m i \<mapsto> (nm, [], [], 0))"
  proof
    fix h show "crm_abs s' t' L h = ((crm_abs s t L)(handle_of m i \<mapsto> (nm, [], [], 0))) h"
    proof (cases "h = handle_of m i")
      case True
      then show ?thesis using t'(3) empty by (simp add: crm_abs_def abs_tenant_def s' finish_tenant_def blank_tenant_def)
    next
      case False
      then have ne: "(index_of h, magic_of h) \<noteq> (i, m)" using handle_iff by simp
      show ?thesis
      proof (cases "tenant_at t h")
        case (Some x)
        then have "x \<noteq> n" using tenant_at_node(1)[OF inv Some] n by auto
        then show ?thesis using False ne Some t'(3) by (auto simp: crm_abs_def abs_tenant_def s')
      qed (use False ne t'(3) in \<open>simp add: crm_abs_def\<close>)
    qed
  qed
qed

definition add_data :: "string \<Rightarrow> crm_tenant_notification_data" where
  "add_data nm = \<lparr>nd_tenant_name = Some nm, nd_attribute_name = Some [], nd_attribute_value = Some []\<rparr>"

text \<open>The duplicate check finds the tenants of the same name exactly when the offset of the table link
  fits an unsigned char.\<close>

lemma dup_scan:
  assumes inv: "crm_inv s t B L"
  shows "find_in_bucket t P (name_bucket s nm) = Some (List.find P (B (name_bucket s nm)))"
    "n \<in> nodes B \<Longrightarrow> tn_tenant_name (cr_tenants s n) = nm \<Longrightarrow> n \<in> set (B (name_bucket s nm))"
proof -
  show "find_in_bucket t P (name_bucket s nm) = Some (List.find P (B (name_bucket s nm)))"
    by (rule find_in_bucket_ok[OF crm_invD(2)[OF inv] name_bucket_bound[OF inv]])
  show "n \<in> set (B (name_bucket s nm))" if "n \<in> nodes B" "tn_tenant_name (cr_tenants s n) = nm"
    using nodes_tenant(2)[OF inv] that by (auto simp: nodes_def)
qed

text \<open>What the duplicate check finds, and the room for another tenant: a block of the pool and an entry of
  the table.\<close>

definition name_taken :: "crm_env \<Rightarrow> string \<Rightarrow> 'c crm_sys \<Rightarrow> (nat \<Rightarrow> addr list) \<Rightarrow> bool" where
  "name_taken e nm s B \<longleftrightarrow> (\<exists>n\<in>set (B (name_bucket s nm)). scanned_name e s n = nm)"

definition tenant_block :: "crm_env \<Rightarrow> 'c crm_sys \<Rightarrow> bool" where
  "tenant_block e s \<longleftrightarrow> block_given (ce_mem e) (crm_tenant_mempool_g s) (ce_heap_b e) (cr_mem s)"

text \<open>The outcomes of an addition. It fails exactly if the name is too long or found by the check, the pool
  has no block or the table is full.\<close>

definition tenant_added ::
  "crm_env \<Rightarrow> string \<Rightarrow> 'c crm_sys \<Rightarrow> mchash_table \<Rightarrow> (nat \<Rightarrow> addr list) \<Rightarrow> (crm_list \<Rightarrow> addr list) \<Rightarrow>
   int \<Rightarrow> u64 option \<Rightarrow> 'c crm_sys \<Rightarrow> mchash_table \<Rightarrow> bool" where
  "tenant_added e nm s t B L rc ho s' t' \<longleftrightarrow>
    (if CRM_MAX_TENANT_NAME_LEN \<le> length nm then rc = CRM_ERROR_TENANT_NAME_INVALID \<and> ho = None \<and> s' = s \<and> t' = t
     else if name_taken e nm s B
     then rc = CRM_ERROR_DUPLICATE_TENANT_RESOURCE \<and> ho = None \<and> s' = s \<and> t' = t
     else if tenant_block e s \<and> free_q_next t \<noteq> None
     then rc = CRM_SUCCESS \<and> (\<exists>h. ho = Some h \<and> crm_abs s t L h = None \<and>
           crm_abs s' t' L = (crm_abs s t L)(h \<mapsto> (nm, [], [], 0)) \<and>
           cr_calls s' = cr_calls s @ calls_for s L CRM_TENANT_ADDED h (add_data nm))
     else rc \<noteq> CRM_SUCCESS \<and> (tenant_block e s \<longrightarrow> rc = CRM_ERROR_TENANT_ADD_FAIL) \<and> ho = None \<and> t' = t \<and>
           crm_abs s' t L = crm_abs s t L \<and> cr_calls s' = cr_calls s)"

lemma add_tenant_ok:
  assumes inv: "crm_inv s t B L"
    and fresh: "gives_fresh (ce_mem e) (crm_tenant_mempool_g s) (ce_heap_b e) (cr_mem s) (nodes B)"
    and tk: "takes_back (ce_mem e) (crm_tenant_mempool_g s) (ce_heap_b e) (cr_mem s)"
  shows "\<exists>rc ho s' t' B'. crm_add_tenant e nm s = Some (rc, ho, s') \<and> crm_inv s' t' B' L \<and>
    cr_read_depth s' = cr_read_depth s \<and> tenant_added e nm s t B L rc ho s' t' \<and>
    (ce_tbl_offset e < 256 \<and> names_unique s B \<longrightarrow> names_unique s' B')"
proof (cases "CRM_MAX_TENANT_NAME_LEN \<le> length nm")
  case True
  then have "crm_add_tenant e nm s = Some (CRM_ERROR_TENANT_NAME_INVALID, None, s)"
    using crm_invD(1)[OF inv] by (simp add: crm_add_tenant_def)
  then show ?thesis using inv True
    by (intro exI[of _ CRM_ERROR_TENANT_NAME_INVALID] exI[of _ None] exI[of _ s] exI[of _ t] exI[of _ B])
      (simp add: tenant_added_def)
next
  case len: False
  define P where "P = (\<lambda>n. scanned_name e s n = nm)"
  have sc: "scanned_name e (rcu_lock s) = scanned_name e s" by (rule ext) (simp add: scanned_name_def)
  let ?key = "crm_get_hashval_byname nm (crm_no_of_tenant_buckets_g s)"
  have key: "unat ?key = name_bucket s nm" by (simp add: name_bucket_def)
  note kb = name_bucket_bound[OF inv, of nm, folded key]
  note tb = crm_invD(1)[OF inv]
  have find: "find_in_bucket t (\<lambda>n. scanned_name e (rcu_lock s) n = nm) (unat ?key) = Some (List.find P (B (name_bucket s nm)))"
    using dup_scan(1)[OF inv, of P nm] by (simp add: key sc P_def)
  have un: "rcu_unlock (rcu_lock s) = s" by (simp add: rcu_lock_def rcu_unlock_def)
  show ?thesis
  proof (cases "List.find P (B (name_bucket s nm))")
    case (Some d)
    then have "crm_add_tenant e nm s = Some (CRM_ERROR_DUPLICATE_TENANT_RESOURCE, None, s)"
      using tb len find un by (simp add: crm_add_tenant_def Let_def)
    moreover have "name_taken e nm s B"
      using find_split[OF Some] by (auto simp: P_def name_taken_def)
    ultimately show ?thesis using inv len
      by (intro exI[of _ CRM_ERROR_DUPLICATE_TENANT_RESOURCE] exI[of _ None] exI[of _ s] exI[of _ t] exI[of _ B])
        (simp add: tenant_added_def)
  next
    case None
    then have nodup: "\<forall>n\<in>set (B (name_bucket s nm)). scanned_name e s n \<noteq> nm" by (auto simp: find_None_iff P_def)
    then have nt: "\<not> name_taken e nm s B" by (simp add: name_taken_def)
    have pool: "crm_tenant_mempool_g (rcu_lock s) = crm_tenant_mempool_g s" by simp
    from fresh show ?thesis
    proof (cases rule: gives_freshE)
      case (1 rc hb m')
      let ?s' = "s\<lparr>cr_mem := m'\<rparr>"
      have "crm_add_tenant e nm s = Some (rc, None, ?s')"
        using tb len find None 1 by (simp add: crm_add_tenant_def Let_def) (simp add: rcu_lock_def rcu_unlock_def)
      moreover have "rc \<noteq> CRM_SUCCESS" "\<not> tenant_block e s" using 1 by (simp_all add: tenant_block_def block_given_def)
      ultimately show ?thesis using inv len nt
        by (intro exI[of _ rc] exI[of _ None] exI[of _ ?s'] exI[of _ t] exI[of _ B]) (simp add: tenant_added_def names_unique_def)
    next
      case (2 n hb m')
      have tb': "tenant_block e s" using 2(1) by (simp add: tenant_block_def block_given_def)
      have n: "n \<notin> nodes B" by (rule 2(2))
      then have nj: "\<forall>j. n \<notin> set (B j)" by (auto simp: nodes_def)
      define sb where "sb = (rcu_lock s)\<lparr>cr_mem := m', crm_tenant_table_g := Some t,
        cr_tenants := (cr_tenants s)(n := blank_tenant hb nm)\<rparr>"
      note ins = append_ok[OF crm_invD(2)[OF inv] kb nj]
      show ?thesis
      proof (cases "free_q_next t = None")
        case True
        then have app: "MCHASH_APPEND_NODE ?key n t = Some (None, t)" using ins by (simp add: inserted_def)
        obtain rc2 m2 where rel: "mempool_release_mem_block (ce_mem e) (crm_tenant_mempool_g s) (Some n) hb m' = Some (rc2, m2)"
          using tk 2(1) by (auto simp: takes_back_def)
        let ?s' = "s\<lparr>cr_tenants := (cr_tenants s)(n := blank_tenant hb nm), cr_mem := m2\<rparr>"
        have "rcu_unlock (sb\<lparr>cr_mem := m2\<rparr>) = ?s'"
          by (rule crm_sys.equality) (simp_all add: sb_def rcu_lock_def rcu_unlock_def tb)
        moreover have "crm_add_tenant e nm s = Some (CRM_ERROR_TENANT_ADD_FAIL, None, rcu_unlock (sb\<lparr>cr_mem := m2\<rparr>))"
          using tb len find None 2(1) app rel by (simp add: crm_add_tenant_def Let_def sb_def)
        moreover have "crm_inv ?s' t B L" using crm_inv_tenant[OF inv n] by simp
        moreover have "crm_abs ?s' t L = crm_abs s t L" using crm_abs_tenant[OF inv n] by simp
        moreover have "names_unique ?s' B" if "names_unique s B"
          using that by (rule names_unique_cong) (use n in auto)
        ultimately show ?thesis using len nt True
          by (intro exI[of _ CRM_ERROR_TENANT_ADD_FAIL] exI[of _ None] exI[of _ ?s'] exI[of _ t] exI[of _ B])
            (simp add: tenant_added_def)
      next
        case False
        let ?B = "B(unat ?key := B (unat ?key) @ [n])"
        obtain i t' where t': "MCHASH_APPEND_NODE ?key n t = Some (Some (i, magic_no t), t')" "mch_inv t' ?B"
          "mch_refs t (i, magic_no t) = None" "mch_refs t' = (mch_refs t)((i, magic_no t) := Some n)"
          "length (bucket_list t') = length (bucket_list t)"
          using ins False by (auto simp: inserted_def)
        let ?h = "handle_of (magic_no t) i"
        define s3 where "s3 = s\<lparr>cr_tenants := (cr_tenants s)
          (n := finish_tenant (magic_no t) i (blank_tenant hb nm)), crm_tenant_table_g := Some t'\<rparr>"
        note new = tenant_inserted[OF inv n _ key t'(2-5) s3_def]
        have len': "length nm < CRM_MAX_TENANT_NAME_LEN" using len by simp
        define s4 where "s4 = (rcu_lock s3)\<lparr>cr_mem := m'\<rparr>"
        have s4: "(rcu_lock s)\<lparr>cr_mem := m', crm_tenant_table_g := Some t', cr_tenants := (cr_tenants s)
          (n := finish_tenant (magic_no t) i (blank_tenant hb nm))\<rparr> = s4"
          by (rule crm_sys.equality) (simp_all add: s4_def s3_def rcu_lock_def)
        have lo: "lists_ok s4 (nodes ?B) L" using crm_invD(5)[OF new(1)[OF len']] by (simp add: s4_def rcu_lock_def)
        let ?C = "cr_calls s4 @ calls_for s4 L CRM_TENANT_ADDED ?h (add_data nm)"
        have ntf: "crm_notify CRM_TENANT_ADDED ?h (add_data nm) s4 = Some (s4\<lparr>cr_calls := ?C\<rparr>)"
          by (rule crm_notify_ok[OF lo]) simp
        let ?s' = "rcu_unlock (s4\<lparr>cr_calls := ?C\<rparr>)"
        have run: "crm_add_tenant e nm s = Some (CRM_SUCCESS, Some ?h, ?s')"
          using tb len find None 2(1) t'(1) ntf by (simp add: crm_add_tenant_def Let_def s4 add_data_def)
        have inv': "crm_inv ?s' t' ?B L" using new(1)[OF len'] by (simp add: s4_def)
        have abs: "crm_abs ?s' t' L = (crm_abs s t L)(?h \<mapsto> (nm, [], [], 0))" using new(3)[OF len'] by (simp add: s4_def)
        have C: "cr_calls ?s' = cr_calls s @ calls_for s L CRM_TENANT_ADDED ?h (add_data nm)"
          by (simp add: s4_def s3_def calls_for_def)
        have d: "cr_read_depth ?s' = cr_read_depth s" by (simp add: s4_def s3_def)
        have u: "names_unique ?s' ?B" if off: "ce_tbl_offset e < 256" and un: "names_unique s B"
        proof -
          have off': "unat (of_nat (ce_tbl_offset e) :: u8) = ce_tbl_offset e"
            using off by (simp add: unat_of_nat)
          have "tn_tenant_name (cr_tenants s x) \<noteq> nm" if "x \<in> nodes B" for x
            using dup_scan(2)[OF inv that, of nm] nodup off' by (auto simp: scanned_name_def)
          then show ?thesis using un n unfolding names_unique_def nodes_append[OF n]
            by (auto simp: inj_on_def s4_def s3_def finish_tenant_def blank_tenant_def)
        qed
        have ta: "tenant_added e nm s t B L CRM_SUCCESS (Some ?h) ?s' t'"
          using len nt tb' False new(2)[OF len'] abs C unfolding tenant_added_def by simp
        show ?thesis using run inv' d ta u by blast
      qed
    qed
  qed
qed

section \<open>Finding and deleting a tenant\<close>

lemma find_by_name:
  assumes inv: "crm_inv s t B L"
  obtains (absent) "find_in_bucket t (\<lambda>n. tn_tenant_name (cr_tenants s n) = nm) (name_bucket s nm) = Some None"
      "\<forall>h v. crm_abs s t L h = Some v \<longrightarrow> fst v \<noteq> nm"
  | (present) n h where "find_in_bucket t (\<lambda>n. tn_tenant_name (cr_tenants s n) = nm) (name_bucket s nm) = Some (Some n)" "n \<in> set (B (name_bucket s nm))" "tn_tenant_name (cr_tenants s n) = nm"
      "tenant_at t h = Some n" "handle_of (tn_magic (cr_tenants s n)) (tn_index (cr_tenants s n)) = h"
proof -
  let ?f = "List.find (\<lambda>n. tn_tenant_name (cr_tenants s n) = nm) (B (name_bucket s nm))"
  have f: "find_in_bucket t (\<lambda>n. tn_tenant_name (cr_tenants s n) = nm) (name_bucket s nm) = Some ?f"
    by (rule dup_scan(1)[OF inv])
  show thesis
  proof (cases ?f)
    case None
    then have no: "n \<in> set (B (name_bucket s nm)) \<Longrightarrow> tn_tenant_name (cr_tenants s n) \<noteq> nm" for n
      by (auto simp: find_None_iff)
    have "fst v \<noteq> nm" if v: "crm_abs s t L h = Some v" for h v
    proof -
      obtain n where n: "tenant_at t h = Some n" "fst v = tn_tenant_name (cr_tenants s n)"
        using v by (auto simp: crm_abs_def abs_tenant_def)
      then show ?thesis using dup_scan(2)[OF inv tenant_at_node(1)[OF inv n(1)], of nm] no by auto
    qed
    then show thesis using f None by (intro absent) auto
  next
    case (Some n)
    then have n: "n \<in> set (B (name_bucket s nm))" "tn_tenant_name (cr_tenants s n) = nm"
      using find_split[OF Some] by auto
    note at = nodes_tenant(1)[OF inv n(1)]
    have "handle_of (tn_magic (cr_tenants s n)) (tn_index (cr_tenants s n)) = tn_handle (cr_tenants s n)"
      using tenant_at_node(4,5)[OF inv at] handle_eq by simp
    then show thesis using f Some by (intro present[OF _ n at]) simp_all
  qed
qed

lemma get_handle_ok:
  assumes inv: "crm_inv s t B L"
  obtains (absent) "crm_get_tenant_handle nm s = Some (CRM_ERROR_TENANT_NAME_INVALID, None)"
      "\<forall>h v. crm_abs s t L h = Some v \<longrightarrow> fst v \<noteq> nm"
  | (present) h n where "crm_get_tenant_handle nm s = Some (CRM_SUCCESS, Some h)" "tenant_at t h = Some n"
      "tn_tenant_name (cr_tenants s n) = nm" "n \<in> set (B (name_bucket s nm))"
proof -
  note tb = crm_invD(1)[OF inv]
  show thesis
  proof (cases rule: find_by_name[OF inv, of nm])
    case 1
    then show thesis using tb by (intro absent) (simp_all add: crm_get_tenant_handle_def)
  next
    case (2 n h)
    then show thesis using tb by (intro present) (simp_all add: crm_get_tenant_handle_def)
  qed
qed

definition tenant_deleted ::
  "string \<Rightarrow> 'c crm_sys \<Rightarrow> mchash_table \<Rightarrow> (crm_list \<Rightarrow> addr list) \<Rightarrow>
   int \<Rightarrow> 'c crm_sys \<Rightarrow> mchash_table \<Rightarrow> (crm_list \<Rightarrow> addr list) \<Rightarrow> bool" where
  "tenant_deleted nm s t L rc s' t' L' \<longleftrightarrow>
     (\<forall>h v. crm_abs s t L h = Some v \<longrightarrow> fst v \<noteq> nm) \<and> rc = CRM_ERROR_TENANT_NAME_INVALID \<and> s' = s \<and> t' = t \<and> L' = L \<or>
     (\<exists>h al vs c. crm_abs s t L h = Some (nm, al, vs, c) \<and>
        (if of_nat (length vs) \<noteq> (0 :: u32) \<or> c \<noteq> 0
         then rc = CRM_ERROR_RESOURCE_NOTEMPTY \<and> s' = s \<and> t' = t \<and> L' = L
         else rc = CRM_SUCCESS \<and> crm_abs s' t' L' = (crm_abs s t L)(h := None) \<and>
           (\<exists>n. tenant_at t h = Some n \<and> mt_rcu t' = mt_rcu t @ [n]) \<and>
           cr_calls s' = cr_calls s @ calls_for s L CRM_TENANT_DELETE h
             \<lparr>nd_tenant_name = Some nm, nd_attribute_name = None, nd_attribute_value = None\<rparr>))"

text \<open>The state after the deletion of the node.\<close>

lemma tenant_removed:
  assumes inv: "crm_inv s t B L" and at: "tenant_at t h = Some n" and del: "deleted B n t (Some (st, t'))"
    and s': "s' = s\<lparr>cr_calls := C, crm_tenant_table_g := Some t'\<rparr>" and L': "L' = L(Attrs n := [], Vns n := [])"
  shows "\<exists>B'. crm_inv s' t' B' L' \<and> nodes B' = nodes B - {n}" "crm_abs s' t' L' = (crm_abs s t L)(h := None)"
    "mt_rcu t' = mt_rcu t @ [n]" "st"
proof -
  note tinv = crm_invD(2)[OF inv] and lo = crm_invD(5)[OF inv]
  note e = refs_entry[OF tinv at]
  have ne: "n \<in> nodes B" by (rule tenant_at_node(1)[OF inv at])
  obtain k where d: "st" "n \<in> set (B k)" "mch_inv t' (B(k := remove1 n (B k)))"
    "mch_refs t' = (mch_refs t)((index_of h, magic_of h) := None)" "mt_rcu t' = mt_rcu t @ [n]"
    "length (bucket_list t') = length (bucket_list t)"
    using del e(2,5) unfolding deleted_def by auto
  let ?B = "B(k := remove1 n (B k))"
  have N: "nodes ?B = nodes B - {n}" by (rule nodes_remove[OF tinv d(2)])
  have bk: "buckets t' = buckets t" using d(3,6) tinv by (simp add: mch_inv_def word_unat_eq_iff)
  have "tenant_ok t' j x (cr_tenants s' x)" if x: "x \<in> set (?B j)" for j x
  proof -
    have "x \<in> set (B j)" using x set_remove1_subset[of n "B k"] by (auto split: if_splits)
    moreover have "x \<noteq> n" using x N by (auto simp: nodes_def)
    ultimately show ?thesis
      using crm_invD(7)[OF inv, of x j] at bk d(4) by (auto simp: tenant_ok_def s')
  qed
  then have "table_ok s' t' ?B" using d(3) crm_invD(3,4)[OF inv] bk by (simp add: table_ok_def s')
  moreover have "lists_ok s' (nodes ?B) L'"
  proof -
    have len: "length (crm_tenant_notifications s') = 7" using lo by (simp add: lists_ok_def s')
    have ex: "ol_exact (get_lst s' \<kappa>) (L' \<kappa>)" if "live (nodes ?B) \<kappa>" for \<kappa>
    proof -
      have "live (nodes B) \<kappa>" "L' \<kappa> = L \<kappa>" using that N by (cases \<kappa>; simp add: L')+
      moreover have "get_lst s' \<kappa> = get_lst s \<kappa>" by (cases \<kappa>) (simp_all add: s')
      ultimately show ?thesis using lists_okD(1)[OF lo] by simp
    qed
    have em: "L' \<kappa> = []" if "\<not> live (nodes ?B) \<kappa>" for \<kappa>
    proof (cases "live (nodes B) \<kappa>")
      case True
      then show ?thesis using that N by (cases \<kappa>) (auto simp: L')
    qed (use lo in \<open>simp add: lists_ok_def L'\<close>)
    have "set (L' \<kappa>1) \<inter> set (L' \<kappa>2) = {}" if "\<kappa>1 \<noteq> \<kappa>2" for \<kappa>1 \<kappa>2
      using lo that by (simp add: lists_ok_def L')
    then show ?thesis using len ex em by (simp add: lists_ok_def)
  qed
  ultimately have "crm_inv s' t' ?B L'"
    using crm_invD(8,9)[OF inv] by (intro crm_invI) (auto simp: N s' L')
  then show "\<exists>B'. crm_inv s' t' B' L' \<and> nodes B' = nodes B - {n}" using N by blast
  show "crm_abs s' t' L' = (crm_abs s t L)(h := None)"
  proof
    fix h' show "crm_abs s' t' L' h' = ((crm_abs s t L)(h := None)) h'"
    proof (cases "h' = h")
      case False
      then have "(index_of h', magic_of h') \<noteq> (index_of h, magic_of h)" using handle_iff[of h' "index_of h" "magic_of h"] handle_eq[of h] by simp
      then have same: "tenant_at t' h' = tenant_at t h'" using d(4) by auto
      show ?thesis
      proof (cases "tenant_at t h'")
        case (Some x)
        then have "x \<noteq> n" using tenant_at_inj[OF inv at] False by blast
        then show ?thesis using False same Some by (simp add: crm_abs_def abs_tenant_def s' L')
      qed (use False same in \<open>simp add: crm_abs_def\<close>)
    qed (use d(4) in \<open>simp add: crm_abs_def\<close>)
  qed
qed (use del in \<open>auto simp: deleted_def\<close>)

lemma del_tenant_ok:
  assumes inv: "crm_inv s t B L"
  shows "\<exists>rc s' t' B' L'. crm_del_tenant (Some nm) s = Some (rc, s') \<and> crm_inv s' t' B' L' \<and>
    cr_read_depth s' = cr_read_depth s \<and> (names_unique s B \<longrightarrow> names_unique s' B') \<and> tenant_deleted nm s t L rc s' t' L'"
proof -
  note tb = crm_invD(1)[OF inv]
  have un: "rcu_unlock (rcu_lock s) = s" by (simp add: rcu_lock_def rcu_unlock_def)
  show ?thesis
  proof (cases rule: get_handle_ok[OF inv, of nm])
    case 1
    then have "crm_del_tenant (Some nm) s = Some (CRM_ERROR_TENANT_NAME_INVALID, s)" using tb by (simp add: crm_del_tenant_def)
    then show ?thesis using inv 1(2)
      by (intro exI[of _ CRM_ERROR_TENANT_NAME_INVALID] exI[of _ s] exI[of _ t] exI[of _ B] exI[of _ L])
        (simp add: tenant_deleted_def)
  next
    case (2 h n)
    note n = tenant_at_node(1)[OF inv 2(2)] and hok = tenant_at_node(2)[OF inv 2(2)]
    obtain al vs c where val: "abs_tenant s L n = (nm, al, vs, c)" using 2(3) by (auto simp: abs_tenant_def)
    then have abs: "crm_abs s t L h = Some (nm, al, vs, c)" using 2(2) by (simp add: crm_abs_def)
    have cnt: "number_of_virtual_networks (cr_tenants s n) = of_nat (length vs)" "number_of_attributes (cr_tenants s n) = c"
      using val crm_invD(9)[OF inv n] by (auto simp: abs_tenant_def)
    have acc: "MCHASH_ACCESS_NODE (index_of h) (magic_of h) t = Some (Some (Some n))"
      using access_handle[OF inv hok] 2(2) by simp
    show ?thesis
    proof (cases "of_nat (length vs) \<noteq> (0 :: u32) \<or> c \<noteq> 0")
      case True
      then have "crm_del_tenant (Some nm) s = Some (CRM_ERROR_RESOURCE_NOTEMPTY, s)"
        using tb 2(1) acc cnt un by (auto simp: crm_del_tenant_def Let_def)
      then show ?thesis using inv abs True
        by (intro exI[of _ CRM_ERROR_RESOURCE_NOTEMPTY] exI[of _ s] exI[of _ t] exI[of _ B] exI[of _ L])
          (auto simp: tenant_deleted_def)
    next
      case False
      let ?d = "\<lparr>nd_tenant_name = Some nm, nd_attribute_name = None, nd_attribute_value = None\<rparr>"
      let ?C = "cr_calls s @ calls_for s L CRM_TENANT_DELETE h ?d" and ?L = "L(Attrs n := [], Vns n := [])"
      have lo: "lists_ok (rcu_lock s) (nodes B) L" using crm_invD(5)[of "rcu_lock s" t B L] inv by simp
      have nt: "crm_notify CRM_TENANT_DELETE h ?d (rcu_lock s) = Some ((rcu_lock s)\<lparr>cr_calls := ?C\<rparr>)"
        using crm_notify_ok[OF lo, of CRM_TENANT_DELETE h ?d] by (simp add: calls_for_def)
      note e = refs_entry[OF crm_invD(2)[OF inv] 2(2)]
      have "deleted B n t (MCHASH_DELETE_NODE_BY_REF (index_of h) (magic_of h) t)"
        using delete_by_ref_ok[OF crm_invD(2)[OF inv] e(1,3)] 2(2) by simp
      then obtain st t' where del: "MCHASH_DELETE_NODE_BY_REF (index_of h) (magic_of h) t = Some (st, t')"
        "deleted B n t (Some (st, t'))" unfolding deleted_def by auto
      define s' where "s' = s\<lparr>cr_calls := ?C, crm_tenant_table_g := Some t'\<rparr>"
      note r = tenant_removed[OF inv 2(2) del(2) s'_def refl]
      have s': "rcu_unlock ((rcu_lock s)\<lparr>cr_calls := ?C, crm_tenant_table_g := Some t'\<rparr>) = s'"
        by (rule crm_sys.equality) (simp_all add: s'_def rcu_lock_def rcu_unlock_def)
      have run: "crm_del_tenant (Some nm) s = Some (CRM_SUCCESS, s')"
        using tb 2(1,3) acc cnt False nt del(1) r(4) s' by (simp add: crm_del_tenant_def Let_def)
      obtain B' where B': "crm_inv s' t' B' ?L" "nodes B' = nodes B - {n}" using r(1) by blast
      have u: "names_unique s' B'" if "names_unique s B"
        using that B'(2) unfolding names_unique_def s'_def by (auto intro: inj_on_subset)
      have "tenant_deleted nm s t L CRM_SUCCESS s' t' ?L"
        unfolding tenant_deleted_def using abs False r(2,3) 2(2) by (intro disjI2 exI[of _ h] exI[of _ al] exI[of _ vs] exI[of _ c]) (simp add: s'_def)
      moreover have "cr_read_depth s' = cr_read_depth s" by (simp add: s'_def)
      ultimately show ?thesis using run B'(1) u by blast
    qed
  qed
qed

end
