(* ===== verification/Crm_Database.thy ===== *)
theory Crm_Database
  imports Crm_Tenant
begin

text \<open>
  The cloud resource manager as a database of tenants. An abstract database maps handles to the name, the
  attributes, the virtual networks and the attribute counter of a tenant; every operation of
  \<^verbatim>\<open>crm/crm_tenant_api.c\<close> is proved to implement a transition of it, and the sequences of operations to
  keep the invariant.
\<close>

section \<open>Operations\<close>

datatype 'c crm_op =
    Add_tenant string
  | Del_tenant string
  | Add_vn u64 string
  | Del_vn u64 string
  | Add_attr u64 string string
  | Del_attr u64 string
  | Register nat "'c option" ptr ptr

fun crm_exec :: "crm_env \<Rightarrow> 'c crm_op \<Rightarrow> 'c crm_sys \<Rightarrow> (int \<times> 'c crm_sys) option" where
  "crm_exec e (Add_tenant nm) s = map_option (\<lambda>(rc, _, s'). (rc, s')) (crm_add_tenant e nm s)"
| "crm_exec e (Del_tenant nm) s = crm_del_tenant (Some nm) s"
| "crm_exec e (Add_vn h vn) s = crm_add_vn_to_tenant e h vn s"
| "crm_exec e (Del_vn h vn) s = crm_del_vn_from_tenant h vn s"
| "crm_exec e (Add_attr h k v) s = crm_add_attribute_to_tenant e h (Some (k, v)) s"
| "crm_exec e (Del_attr h k) s = crm_delete_attribute_from_tenant h k s"
| "crm_exec e (Register ty cb a1 a2) s = crm_register_tenant_notifications e ty cb a1 a2 s"

text \<open>What the caller has to guarantee: strings that fit, handles with an index of the table and a magic
  number that is not 0, and pools that hand out unused blocks.\<close>

fun op_ok :: "crm_env \<Rightarrow> 'c crm_op \<Rightarrow> 'c crm_sys \<Rightarrow> mchash_table \<Rightarrow> (nat \<Rightarrow> addr list) \<Rightarrow> (crm_list \<Rightarrow> addr list) \<Rightarrow> bool" where
  "op_ok e (Add_tenant nm) s t B L \<longleftrightarrow>
     gives_fresh (ce_mem e) (crm_tenant_mempool_g s) (ce_heap_b e) (cr_mem s) (nodes B) \<and>
     takes_back (ce_mem e) (crm_tenant_mempool_g s) (ce_heap_b e) (cr_mem s)"
| "op_ok e (Del_tenant nm) s t B L \<longleftrightarrow> True"
| "op_ok e (Add_vn h vn) s t B L \<longleftrightarrow> handle_ok t h \<and> length vn < CRM_MAX_VN_NAME_LEN \<and>
     gives_fresh (ce_mem e) (crm_tenant_vnnames_mempool_g s) (ce_heap_b e) (cr_mem s) (used L)"
| "op_ok e (Del_vn h vn) s t B L \<longleftrightarrow> handle_ok t h"
| "op_ok e (Add_attr h k v) s t B L \<longleftrightarrow> handle_ok t h \<and> length k < CRM_MAX_ATTRIBUTE_NAME_LEN \<and>
     length v < CRM_MAX_ATTRIBUTE_VALUE_LEN \<and>
     gives_fresh (ce_mem e) (crm_attributes_mempool_g s) 0 (cr_mem s) (used L)"
| "op_ok e (Del_attr h k) s t B L \<longleftrightarrow> handle_ok t h"
| "op_ok e (Register ty cb a1 a2) s t B L \<longleftrightarrow>
     gives_fresh (ce_mem e) (crm_notifications_mempool_g s) (ce_heap_b e) (cr_mem s) (used L)"

section \<open>The abstract database\<close>

type_synonym db = "u64 \<Rightarrow> tenant_val option"

definition db_names :: "db \<Rightarrow> string set" where "db_names D = fst ` ran D"

text \<open>Whether the duplicate check of an addition finds the name, and whether the pool of the operation has a
  block and, for a tenant, the table an entry.\<close>

fun op_taken :: "crm_env \<Rightarrow> 'c crm_op \<Rightarrow> 'c crm_sys \<Rightarrow> (nat \<Rightarrow> addr list) \<Rightarrow> bool" where
  "op_taken e (Add_tenant nm) s B = name_taken e nm s B"
| "op_taken e _ s B = False"

fun op_room :: "crm_env \<Rightarrow> 'c crm_op \<Rightarrow> 'c crm_sys \<Rightarrow> mchash_table \<Rightarrow> bool" where
  "op_room e (Add_tenant nm) s t = (tenant_block e s \<and> free_q_next t \<noteq> None)"
| "op_room e (Add_vn h vn) s t = block_given (ce_mem e) (crm_tenant_vnnames_mempool_g s) (ce_heap_b e) (cr_mem s)"
| "op_room e (Add_attr h k v) s t = block_given (ce_mem e) (crm_attributes_mempool_g s) 0 (cr_mem s)"
| "op_room e (Register ty cb a1 a2) s t = block_given (ce_mem e) (crm_notifications_mempool_g s) (ce_heap_b e) (cr_mem s)"
| "op_room e _ s t = True"

text \<open>The transition of an operation, with the code it returns, given what its duplicate check finds and
  whether there is room. It is a function of these up to the handle of a new tenant and the code of a pool
  without a block: no operation fails without reason.\<close>

fun db_step :: "'c crm_op \<Rightarrow> bool \<Rightarrow> bool \<Rightarrow> int \<Rightarrow> db \<Rightarrow> db \<Rightarrow> bool" where
  "db_step (Add_tenant nm) taken room rc D D' \<longleftrightarrow>
     (if CRM_MAX_TENANT_NAME_LEN \<le> length nm then rc = CRM_ERROR_TENANT_NAME_INVALID \<and> D' = D
      else if taken then rc = CRM_ERROR_DUPLICATE_TENANT_RESOURCE \<and> D' = D
      else if room then rc = CRM_SUCCESS \<and> (\<exists>h. D h = None \<and> D' = D(h \<mapsto> (nm, [], [], 0)))
      else rc \<noteq> CRM_SUCCESS \<and> D' = D)"
| "db_step (Del_tenant nm) taken room rc D D' \<longleftrightarrow>
     (if nm \<notin> db_names D then rc = CRM_ERROR_TENANT_NAME_INVALID \<and> D' = D
      else \<exists>h al vs c. D h = Some (nm, al, vs, c) \<and>
        (if of_nat (length vs) = (0 :: u32) \<and> c = 0 then rc = CRM_SUCCESS \<and> D' = D(h := None)
         else rc = CRM_ERROR_RESOURCE_NOTEMPTY \<and> D' = D))"
| "db_step (Add_vn h vn) taken room rc D D' \<longleftrightarrow>
     (case D h of None \<Rightarrow> rc = CRM_ERROR_INVALID_TENANT_HANDLE \<and> D' = D
      | Some (nm, al, vs, c) \<Rightarrow> if room then rc = CRM_SUCCESS \<and> D' = D(h \<mapsto> (nm, al, vs @ [vn], c))
          else rc = CRM_FAILURE \<and> D' = D)"
| "db_step (Del_vn h vn) taken room rc D D' \<longleftrightarrow>
     (case D h of None \<Rightarrow> rc = CRM_ERROR_INVALID_TENANT_HANDLE \<and> D' = D
      | Some (nm, al, vs, c) \<Rightarrow> if vn \<in> set vs then rc = CRM_SUCCESS \<and> D' = D(h \<mapsto> (nm, al, remove1 vn vs, c))
          else rc = CRM_FAILURE \<and> D' = D)"
| "db_step (Add_attr h k v) taken room rc D D' \<longleftrightarrow>
     (case D h of None \<Rightarrow> rc = CRM_ERROR_INVALID_TENANT_HANDLE \<and> D' = D
      | Some (nm, al, vs, c) \<Rightarrow> if k \<in> fst ` set al \<or> room
          then rc = CRM_SUCCESS \<and> D' = D(h \<mapsto> (nm, AList.update k v al, vs, c + 1))
          else rc = CRM_ERROR_NO_MEM \<and> D' = D)"
| "db_step (Del_attr h k) taken room rc D D' \<longleftrightarrow>
     (case D h of None \<Rightarrow> rc = CRM_ERROR_INVALID_TENANT_HANDLE \<and> D' = D
      | Some (nm, al, vs, c) \<Rightarrow> if k \<in> fst ` set al then rc = CRM_SUCCESS \<and> D' = D(h \<mapsto> (nm, AList.delete k al, vs, c - 1))
          else rc = CRM_FAILURE \<and> D' = D)"
| "db_step (Register ty cb a1 a2) taken room rc D D' \<longleftrightarrow> D' = D \<and>
     rc = (if CRM_TENANT_LAST_NOTIFICATION_TYPE < ty \<or> cb = None \<or> \<not> room then CRM_FAILURE else CRM_SUCCESS)"

text \<open>A successful registration has put the callback at the end of the list of its type.\<close>

fun op_registered :: "'c crm_op \<Rightarrow> int \<Rightarrow> 'c crm_sys \<Rightarrow> (crm_list \<Rightarrow> addr list) \<Rightarrow> 'c crm_sys \<Rightarrow> (crm_list \<Rightarrow> addr list) \<Rightarrow> bool" where
  "op_registered (Register ty cb a1 a2) rc s L s' L' \<longleftrightarrow>
     (if rc = CRM_SUCCESS then \<exists>n hb. n \<notin> used L \<and> L' = L(Hooks ty := L (Hooks ty) @ [n]) \<and>
        cr_hooks s' = (cr_hooks s)(n := \<lparr>hk_call_back = the cb, hk_cbk_arg1 = a1, hk_cbk_arg2 = a2, hk_heap_b = hb\<rparr>)
      else L' = L \<and> cr_hooks s' = cr_hooks s)"
| "op_registered _ rc s L s' L' \<longleftrightarrow> True"

section \<open>Registering for notifications\<close>

lemma get_lst_hooks [simp]:
  "get_lst (s\<lparr>cr_mem := m, cr_links := nx, cr_hooks := H\<rparr>) \<kappa> = (nx, snd (get_lst s \<kappa>))"
  by (cases \<kappa>) simp_all

lemma register_notifications_ok:
  assumes inv: "crm_inv s t B L"
    and fresh: "gives_fresh (ce_mem e) (crm_notifications_mempool_g s) (ce_heap_b e) (cr_mem s) (used L)"
  shows "\<exists>rc s' L'. crm_register_tenant_notifications e ty cb a1 a2 s = Some (rc, s') \<and> crm_inv s' t B L' \<and>
    (names_unique s B \<longrightarrow> names_unique s' B) \<and> cr_read_depth s' = cr_read_depth s \<and> crm_abs s' t L' = crm_abs s t L \<and>
    rc = (if CRM_TENANT_LAST_NOTIFICATION_TYPE < ty \<or> cb = None \<or> \<not> op_room e (Register ty cb a1 a2) s t
      then CRM_FAILURE else CRM_SUCCESS) \<and> op_registered (Register ty cb a1 a2) rc s L s' L'"
proof -
  have fail: ?thesis if "crm_register_tenant_notifications e ty cb a1 a2 s = Some (CRM_FAILURE, s\<lparr>cr_mem := m\<rparr>)"
      "CRM_TENANT_LAST_NOTIFICATION_TYPE < ty \<or> cb = None \<or> \<not> op_room e (Register ty cb a1 a2) s t" for m
    using that inv by (intro exI[of _ CRM_FAILURE] exI[of _ "s\<lparr>cr_mem := m\<rparr>"] exI[of _ L]) (simp add: names_unique_def)
  show ?thesis
  proof (cases "ty > CRM_TENANT_LAST_NOTIFICATION_TYPE \<or> cb = None")
    case True
    then show ?thesis
      by (intro fail[of "cr_mem s"]) (auto simp: crm_register_tenant_notifications_def split: option.splits)
  next
    case False
    then obtain c where c: "cb = Some c" "ty < 7" by auto
    from fresh show ?thesis
    proof (cases rule: gives_freshE)
      case (1 rc hb m')
      then show ?thesis using c
        by (intro fail[of m']) (simp_all add: crm_register_tenant_notifications_def block_given_def)
    next
      case (2 n hb m')
      let ?H = "(cr_hooks s)(n := \<lparr>hk_call_back = c, hk_cbk_arg1 = a1, hk_cbk_arg2 = a2, hk_heap_b = hb\<rparr>)"
      let ?s1 = "s\<lparr>cr_mem := m', cr_links := (cr_links s)(n := None), cr_hooks := ?H\<rparr>" and ?ys = "L (Hooks ty) @ [n]"
      have \<kappa>: "live (nodes B) (Hooks ty)" using c(2) by simp
      note lo = crm_invD(5)[OF inv]
      obtain st where st: "OF_APPEND_NODE_TO_LIST n ((cr_links s)(n := None), snd (get_lst s (Hooks ty))) = Some st"
        "ol_exact st ?ys" "\<forall>m\<in>used L - set (L (Hooks ty)). fst st m = cr_links s m" "set ?ys \<subseteq> set (L (Hooks ty)) \<union> - used L"
        by (rule list_append_ok[OF lo \<kappa> 2(2,3)])
      let ?s2 = "put_lst (Hooks ty) st ?s1"
      have len: "ty < length (crm_tenant_notifications s)" using lo c(2) by (simp add: lists_ok_def)
      have run: "crm_register_tenant_notifications e ty cb a1 a2 s = Some (CRM_SUCCESS, ?s2)"
        using c 2(1) len st(1) by (simp add: crm_register_tenant_notifications_def Let_def)
      have ten: "cr_tenants ?s2 = cr_tenants s" by (cases st) simp
      have inv2: "crm_inv ?s2 t B (L(Hooks ty := ?ys))"
      proof (rule put_lst_inv[OF inv \<kappa> st(2)])
        show "number_of_virtual_networks (cr_tenants ?s2 x) = of_nat (length ((L(Hooks ty := ?ys)) (Vns x)))"
          if "x \<in> nodes B" for x using crm_invD(9)[OF inv that] ten by simp
      qed (use st(3,4) in \<open>cases st; simp\<close>)+
      have "crm_abs ?s2 t (L(Hooks ty := ?ys)) = crm_abs s t L"
        by (rule ext) (simp add: crm_abs_def abs_tenant_def[abs_def] ten)
      moreover have "names_unique ?s2 B" if "names_unique s B" using that ten by (simp add: names_unique_def)
      moreover have "cr_read_depth ?s2 = cr_read_depth s" by simp
      moreover have "CRM_SUCCESS = (if CRM_TENANT_LAST_NOTIFICATION_TYPE < ty \<or> cb = None \<or>
          \<not> op_room e (Register ty cb a1 a2) s t then CRM_FAILURE else CRM_SUCCESS)"
        using c 2(1) by (simp add: block_given_def)
      moreover have "op_registered (Register ty cb a1 a2) CRM_SUCCESS s L ?s2 (L(Hooks ty := ?ys))"
        using c 2(2) by (cases st; simp; intro exI[of _ n] conjI exI[of _ hb]; simp)
      ultimately show ?thesis using run inv2 by blast
    qed
  qed
qed

section \<open>Every operation implements a transition\<close>

lemma db_names_iff: "nm \<in> db_names D \<longleftrightarrow> (\<exists>h v. D h = Some v \<and> fst v = nm)"
  by (simp add: db_names_def ran_def image_iff) metis

lemma names_found:
  assumes inv: "crm_inv s t B L" and off: "ce_tbl_offset e < 256"
  shows "name_taken e nm s B \<longleftrightarrow> nm \<in> db_names (crm_abs s t L)"
proof -
  have "unat (of_nat (ce_tbl_offset e) :: u8) = ce_tbl_offset e" using off by (simp add: unat_of_nat)
  then have sc: "scanned_name e s n = tn_tenant_name (cr_tenants s n)" for n by (simp add: scanned_name_def)
  show ?thesis unfolding name_taken_def
  proof
    assume "\<exists>n\<in>set (B (name_bucket s nm)). scanned_name e s n = nm"
    then obtain n where n: "n \<in> set (B (name_bucket s nm))" "tn_tenant_name (cr_tenants s n) = nm" using sc by auto
    then have "crm_abs s t L (tn_handle (cr_tenants s n)) = Some (abs_tenant s L n)"
      using nodes_tenant(1)[OF inv n(1)] by (simp add: crm_abs_def)
    then show "nm \<in> db_names (crm_abs s t L)" unfolding db_names_iff using n(2) by (force simp: abs_tenant_def)
  next
    assume "nm \<in> db_names (crm_abs s t L)"
    then obtain h n where n: "tenant_at t h = Some n" "tn_tenant_name (cr_tenants s n) = nm"
      by (auto simp: db_names_iff crm_abs_def abs_tenant_def)
    then show "\<exists>n\<in>set (B (name_bucket s nm)). scanned_name e s n = nm"
      using dup_scan(2)[OF inv tenant_at_node(1)[OF inv n(1)]] sc by blast
  qed
qed

lemma absent_handle:
  assumes inv: "crm_inv s t B L" and h: "handle_ok t h" and no: "crm_abs s t L h = None"
  shows "crm_add_vn_to_tenant e h vn s = Some (CRM_ERROR_INVALID_TENANT_HANDLE, rcu_lock s)"
    "crm_del_vn_from_tenant h vn s = Some (CRM_ERROR_INVALID_TENANT_HANDLE, rcu_lock s)"
    "crm_add_attribute_to_tenant e h info s = Some (CRM_ERROR_INVALID_TENANT_HANDLE, s)"
    "crm_delete_attribute_from_tenant h k s = Some (CRM_ERROR_INVALID_TENANT_HANDLE, s)"
proof -
  have at: "tenant_at t h = None" using no by (simp add: crm_abs_def)
  have acc: "MCHASH_ACCESS_NODE (index_of h) (magic_of h) t = Some None" using access_handle[OF inv h] at by simp
  have byh: "get_tenant_byhandle h (rcu_lock s) = Some (CRM_ERROR_INVALID_TENANT_HANDLE, None)"
    using byhandle_ok[of "rcu_lock s" t B L h] inv h at by simp
  have un: "rcu_unlock (rcu_lock s) = s" by (simp add: rcu_lock_def rcu_unlock_def)
  note tb = crm_invD(1)[OF inv]
  show "crm_add_vn_to_tenant e h vn s = Some (CRM_ERROR_INVALID_TENANT_HANDLE, rcu_lock s)"
    "crm_del_vn_from_tenant h vn s = Some (CRM_ERROR_INVALID_TENANT_HANDLE, rcu_lock s)"
    using acc tb by (simp_all add: crm_add_vn_to_tenant_def crm_del_vn_from_tenant_def Let_def)
  show "crm_add_attribute_to_tenant e h info s = Some (CRM_ERROR_INVALID_TENANT_HANDLE, s)"
    "crm_delete_attribute_from_tenant h k s = Some (CRM_ERROR_INVALID_TENANT_HANDLE, s)"
    using byh un by (simp_all add: crm_add_attribute_to_tenant_def crm_delete_attribute_from_tenant_def Let_def)
qed

text \<open>The operations that return without leaving the read-side critical section.\<close>

fun leaves_lock :: "'c crm_op \<Rightarrow> db \<Rightarrow> bool" where
  "leaves_lock (Add_vn h vn) D = (D h = None)"
| "leaves_lock (Del_vn h vn) D = (D h = None)"
| "leaves_lock _ D = False"

definition op_result ::
  "crm_env \<Rightarrow> 'c crm_op \<Rightarrow> 'c crm_sys \<Rightarrow> mchash_table \<Rightarrow> (nat \<Rightarrow> addr list) \<Rightarrow> (crm_list \<Rightarrow> addr list) \<Rightarrow> bool" where
  "op_result e op s t B L \<longleftrightarrow> (\<exists>rc s' t' B' L'. crm_exec e op s = Some (rc, s') \<and> crm_inv s' t' B' L' \<and>
     db_step op (op_taken e op s B) (op_room e op s t) rc (crm_abs s t L) (crm_abs s' t' L') \<and>
     op_registered op rc s L s' L' \<and> (ce_tbl_offset e < 256 \<longrightarrow> names_unique s B \<longrightarrow> names_unique s' B') \<and>
     cr_read_depth s' = cr_read_depth s + (if leaves_lock op (crm_abs s t L) then 1 else 0))"

lemma op_resultI:
  assumes "crm_exec e op s = Some (rc, s')" "crm_inv s' t' B' L'"
    "db_step op (op_taken e op s B) (op_room e op s t) rc (crm_abs s t L) (crm_abs s' t' L')" "op_registered op rc s L s' L'"
    "ce_tbl_offset e < 256 \<Longrightarrow> names_unique s B \<Longrightarrow> names_unique s' B'"
    "cr_read_depth s' = cr_read_depth s + (if leaves_lock op (crm_abs s t L) then 1 else 0)"
  shows "op_result e op s t B L"
  unfolding op_result_def using assms by blast

lemma add_tenant_step:
  assumes inv: "crm_inv s t B L" and ok: "op_ok e (Add_tenant nm) s t B L"
  shows "op_result e (Add_tenant nm) s t B L"
proof -
  obtain rc ho s' t' B' where r: "crm_add_tenant e nm s = Some (rc, ho, s')" "crm_inv s' t' B' L"
    "cr_read_depth s' = cr_read_depth s" "tenant_added e nm s t B L rc ho s' t'"
    "ce_tbl_offset e < 256 \<and> names_unique s B \<longrightarrow> names_unique s' B'"
    using add_tenant_ok[OF inv, of e nm] ok[unfolded op_ok.simps] by blast
  have "db_step (Add_tenant nm) (name_taken e nm s B) (op_room e (Add_tenant nm) s t) rc (crm_abs s t L) (crm_abs s' t' L)"
    using r(4) unfolding tenant_added_def by (auto split: if_splits)
  then show ?thesis using r by (intro op_resultI[of _ _ _ rc s' t' B' L]) simp_all
qed

lemma tenant_deleted_step:
  assumes "tenant_deleted nm s t L rc s' t' L'"
  shows "db_step (Del_tenant nm) taken room rc (crm_abs s t L) (crm_abs s' t' L')"
  using assms unfolding tenant_deleted_def
proof (elim disjE exE conjE)
  assume "\<forall>h v. crm_abs s t L h = Some v \<longrightarrow> fst v \<noteq> nm" "rc = CRM_ERROR_TENANT_NAME_INVALID" "s' = s" "t' = t" "L' = L"
  moreover from this(1) have "nm \<notin> db_names (crm_abs s t L)" unfolding db_names_iff by blast
  ultimately show ?thesis by simp
next
  fix h al vs c
  assume h: "crm_abs s t L h = Some (nm, al, vs, c)"
  then have "nm \<in> db_names (crm_abs s t L)" unfolding db_names_iff by force
  moreover assume "if of_nat (length vs) \<noteq> (0 :: u32) \<or> c \<noteq> 0 then rc = CRM_ERROR_RESOURCE_NOTEMPTY \<and> s' = s \<and> t' = t \<and> L' = L
       else rc = CRM_SUCCESS \<and> crm_abs s' t' L' = (crm_abs s t L)(h := None) \<and>
         (\<exists>n. tenant_at t h = Some n \<and> mt_rcu t' = mt_rcu t @ [n]) \<and>
         cr_calls s' = cr_calls s @ calls_for s L CRM_TENANT_DELETE h
           \<lparr>nd_tenant_name = Some nm, nd_attribute_name = None, nd_attribute_value = None\<rparr>"
  ultimately show ?thesis using h
    by (simp del: One_nat_def) (intro exI[of _ h] exI[of _ al] exI[of _ vs] exI[of _ c], auto split: if_splits)
qed

lemma del_tenant_step:
  assumes inv: "crm_inv s t B L" shows "op_result e (Del_tenant nm) s t B L"
proof -
  obtain rc s' t' B' L' where r: "crm_del_tenant (Some nm) s = Some (rc, s')" "crm_inv s' t' B' L'"
    "cr_read_depth s' = cr_read_depth s" "names_unique s B \<longrightarrow> names_unique s' B'" "tenant_deleted nm s t L rc s' t' L'"
    using del_tenant_ok[OF inv, of nm] by auto
  then show ?thesis using tenant_deleted_step[OF r(5)] by (intro op_resultI[of _ _ _ rc s' t' B' L']) simp_all
qed

lemma add_vn_step:
  assumes inv: "crm_inv s t B L" and ok: "op_ok e (Add_vn h vn) s t B L" shows "op_result e (Add_vn h vn) s t B L"
proof (cases "crm_abs s t L h")
  case None
  then show ?thesis using absent_handle(1)[OF inv _ None, of e vn] ok inv
    by (intro op_resultI[of _ _ _ CRM_ERROR_INVALID_TENANT_HANDLE "rcu_lock s" t B L]) (simp_all add: names_unique_def)
next
  case (Some v)
  obtain nm al vs c where v: "crm_abs s t L h = Some (nm, al, vs, c)" using Some by (cases v) auto
  obtain n where at: "tenant_at t h = Some n" using v by (auto simp: crm_abs_def)
  obtain rc s' L' where "crm_add_vn_to_tenant e h vn s = Some (rc, s')" "crm_inv s' t B L'"
    "names_unique s B \<longrightarrow> names_unique s' B" "cr_read_depth s' = cr_read_depth s"
    "if op_room e (Add_vn h vn) s t then rc = CRM_SUCCESS \<and> crm_abs s' t L' = (crm_abs s t L)(h \<mapsto> (nm, al, vs @ [vn], c))
     else rc = CRM_FAILURE \<and> crm_abs s' t L' = crm_abs s t L"
    using add_vn_to_tenant_ok[OF inv at v, of vn e] ok by auto
  then show ?thesis using v by (intro op_resultI[of _ _ _ rc s' t B L']) auto
qed

lemma del_vn_step:
  assumes inv: "crm_inv s t B L" and ok: "op_ok e (Del_vn h vn) s t B L" shows "op_result e (Del_vn h vn) s t B L"
proof (cases "crm_abs s t L h")
  case None
  then show ?thesis using absent_handle(2)[OF inv _ None, of vn] ok inv
    by (intro op_resultI[of _ _ _ CRM_ERROR_INVALID_TENANT_HANDLE "rcu_lock s" t B L]) (simp_all add: names_unique_def)
next
  case (Some v)
  obtain nm al vs c where v: "crm_abs s t L h = Some (nm, al, vs, c)" using Some by (cases v) auto
  obtain n where at: "tenant_at t h = Some n" using v by (auto simp: crm_abs_def)
  obtain rc s' L' where "crm_del_vn_from_tenant h vn s = Some (rc, s')" "crm_inv s' t B L'"
    "names_unique s B \<longrightarrow> names_unique s' B" "cr_read_depth s' = cr_read_depth s"
    "if vn \<in> set vs then rc = CRM_SUCCESS \<and> crm_abs s' t L' = (crm_abs s t L)(h \<mapsto> (nm, al, remove1 vn vs, c))
     else rc = CRM_FAILURE \<and> s' = s \<and> L' = L"
    using del_vn_from_tenant_ok[OF inv at v, of vn] by blast
  then show ?thesis using v by (intro op_resultI[of _ _ _ rc s' t B L']) (auto split: if_splits)
qed

lemma add_attr_step:
  assumes inv: "crm_inv s t B L" and ok: "op_ok e (Add_attr h k w) s t B L" shows "op_result e (Add_attr h k w) s t B L"
proof (cases "crm_abs s t L h")
  case None
  then show ?thesis using absent_handle(3)[OF inv _ None, of e] ok inv
    by (intro op_resultI[of _ _ _ CRM_ERROR_INVALID_TENANT_HANDLE s t B L]) simp_all
next
  case (Some v)
  obtain nm al vs c where v: "crm_abs s t L h = Some (nm, al, vs, c)" using Some by (cases v) auto
  obtain n where at: "tenant_at t h = Some n" using v by (auto simp: crm_abs_def)
  obtain rc s' L' where "crm_add_attribute_to_tenant e h (Some (k, w)) s = Some (rc, s')" "crm_inv s' t B L'"
    "names_unique s B \<longrightarrow> names_unique s' B" "cr_read_depth s' = cr_read_depth s"
    "if k \<in> fst ` set al \<or> op_room e (Add_attr h k w) s t
     then rc = CRM_SUCCESS \<and> crm_abs s' t L' = (crm_abs s t L)(h \<mapsto> (nm, AList.update k w al, vs, c + 1))
     else rc = CRM_ERROR_NO_MEM \<and> crm_abs s' t L' = crm_abs s t L \<and> cr_calls s' = cr_calls s"
    using add_attr_to_tenant_ok[OF inv at v, of k w e] ok by auto
  then show ?thesis using v by (intro op_resultI[of _ _ _ rc s' t B L']) auto
qed

lemma del_attr_step:
  assumes inv: "crm_inv s t B L" and ok: "op_ok e (Del_attr h k) s t B L" shows "op_result e (Del_attr h k) s t B L"
proof (cases "crm_abs s t L h")
  case None
  then show ?thesis using absent_handle(4)[OF inv _ None, of k] ok inv
    by (intro op_resultI[of _ _ _ CRM_ERROR_INVALID_TENANT_HANDLE s t B L]) simp_all
next
  case (Some v)
  obtain nm al vs c where v: "crm_abs s t L h = Some (nm, al, vs, c)" using Some by (cases v) auto
  obtain n where at: "tenant_at t h = Some n" using v by (auto simp: crm_abs_def)
  obtain rc s' L' where "crm_delete_attribute_from_tenant h k s = Some (rc, s')" "crm_inv s' t B L'"
    "names_unique s B \<longrightarrow> names_unique s' B" "cr_read_depth s' = cr_read_depth s"
    "if k \<in> fst ` set al then rc = CRM_SUCCESS \<and> crm_abs s' t L' = (crm_abs s t L)(h \<mapsto> (nm, AList.delete k al, vs, c - 1))
     else rc = CRM_FAILURE \<and> s' = s \<and> L' = L"
    using del_attr_from_tenant_ok[OF inv at v, of k] by blast
  then show ?thesis using v by (intro op_resultI[of _ _ _ rc s' t B L']) (auto split: if_splits)
qed

lemma register_step:
  assumes inv: "crm_inv s t B L" and ok: "op_ok e (Register ty cb a1 a2) s t B L"
  shows "op_result e (Register ty cb a1 a2) s t B L"
proof -
  obtain rc s' L' where "crm_register_tenant_notifications e ty cb a1 a2 s = Some (rc, s')" "crm_inv s' t B L'"
    "names_unique s B \<longrightarrow> names_unique s' B" "cr_read_depth s' = cr_read_depth s" "crm_abs s' t L' = crm_abs s t L"
    "rc = (if CRM_TENANT_LAST_NOTIFICATION_TYPE < ty \<or> cb = None \<or> \<not> op_room e (Register ty cb a1 a2) s t
      then CRM_FAILURE else CRM_SUCCESS)" "op_registered (Register ty cb a1 a2) rc s L s' L'"
    using register_notifications_ok[OF inv, of e ty cb a1 a2] ok by auto
  then show ?thesis by (intro op_resultI[of _ _ _ rc s' t B L']) simp_all
qed

lemma op_step:
  assumes "crm_inv s t B L" "op_ok e op s t B L" shows "op_result e op s t B L"
proof (cases op)
qed (use assms in \<open>simp_all only: add_tenant_step del_tenant_step add_vn_step del_vn_step add_attr_step del_attr_step register_step\<close>)

section \<open>Runs\<close>

text \<open>The states reached from \<open>s0\<close> by operations of well-behaved callers, on a platform whose compiler puts
  the table link at the offset \<open>off\<close> of a tenant.\<close>

inductive crm_run :: "nat \<Rightarrow> 'c crm_sys \<Rightarrow> 'c crm_sys \<Rightarrow> bool" for off s0 where
  start: "crm_run off s0 s0"
| step: "crm_run off s0 s \<Longrightarrow> ce_tbl_offset e = off \<Longrightarrow> (\<And>t B L. crm_inv s t B L \<Longrightarrow> op_ok e op s t B L) \<Longrightarrow>
    crm_exec e op s = Some (rc, s') \<Longrightarrow> crm_run off s0 s'"

lemma crm_run_inv:
  assumes "crm_run off s0 s" "crm_inv s0 t0 B0 L0"
  shows "\<exists>t B L. crm_inv s t B L \<and> (off < 256 \<longrightarrow> names_unique s0 B0 \<longrightarrow> names_unique s B)"
  using assms
proof (induction rule: crm_run.induct)
  case (step s e op rc s')
  obtain t B L where i: "crm_inv s t B L" "off < 256 \<longrightarrow> names_unique s0 B0 \<longrightarrow> names_unique s B"
    using step.IH step.prems by blast
  have "op_result e op s t B L" by (rule op_step[OF i(1) step.hyps(3)[OF i(1)]])
  then show ?case unfolding op_result_def using i(2) step.hyps(2,4) by auto
qed blast

text \<open>The handle found for a name is the handle of a tenant of that name.\<close>

lemma handle_by_name:
  assumes inv: "crm_inv s t B L"
  shows "crm_get_tenant_handle nm s = Some (CRM_ERROR_TENANT_NAME_INVALID, None) \<and> nm \<notin> db_names (crm_abs s t L) \<or>
    (\<exists>h v. crm_get_tenant_handle nm s = Some (CRM_SUCCESS, Some h) \<and> crm_abs s t L h = Some v \<and> fst v = nm)"
proof (cases rule: get_handle_ok[OF inv, of nm])
  case 1
  then show ?thesis unfolding db_names_iff by blast
next
  case (2 h n)
  then have "crm_abs s t L h = Some (abs_tenant s L n)" "fst (abs_tenant s L n) = nm"
    by (simp_all add: crm_abs_def abs_tenant_def)
  then show ?thesis using 2(1) by blast
qed

lemma handle_of_name:
  assumes inv: "crm_inv s t B L" and un: "names_unique s B"
  shows "crm_get_tenant_handle nm s = Some (CRM_SUCCESS, Some h) \<longleftrightarrow> (\<exists>v. crm_abs s t L h = Some v \<and> fst v = nm)"
proof (cases rule: get_handle_ok[OF inv, of nm])
  case (2 h' n)
  have "h = h'" if v: "crm_abs s t L h = Some v" "fst v = nm" for v
  proof -
    obtain m where m: "tenant_at t h = Some m" "tn_tenant_name (cr_tenants s m) = nm"
      using v by (auto simp: crm_abs_def abs_tenant_def)
    have "m = n" using un m(2) 2(3) tenant_at_node(1)[OF inv m(1)] tenant_at_node(1)[OF inv 2(2)]
      by (auto simp: names_unique_def inj_on_def)
    then show ?thesis using tenant_at_inj[OF inv m(1)] 2(2) by simp
  qed
  moreover have "crm_abs s t L h' = Some (abs_tenant s L n)" "fst (abs_tenant s L n) = nm"
    using 2(2,3) by (simp_all add: crm_abs_def abs_tenant_def)
  ultimately show ?thesis unfolding 2(1) by blast
next
  case 1
  then show ?thesis by (simp del: split_paired_Ex split_paired_All)
qed

lemma by_name_ok:
  assumes inv: "crm_inv s t B L"
  shows "crm_get_tenant_by_name (Some nm) s = Some (if nm \<in> db_names (crm_abs s t L)
    then (CRM_SUCCESS, Some nm) else (CRM_ERROR_TENANT_NAME_INVALID, None))"
proof (cases rule: find_by_name[OF inv, of nm])
  case 1
  then have "nm \<notin> db_names (crm_abs s t L)" unfolding db_names_iff by blast
  then show ?thesis using 1(1) crm_invD(1)[OF inv] by (simp add: crm_get_tenant_by_name_def eq_commute[of nm])
next
  case (2 n h)
  have "crm_abs s t L h = Some (abs_tenant s L n)" "fst (abs_tenant s L n) = nm"
    using 2(3,4) by (simp_all add: crm_abs_def abs_tenant_def)
  then have "nm \<in> db_names (crm_abs s t L)" unfolding db_names_iff by blast
  then show ?thesis using 2(1,3) crm_invD(1)[OF inv] by (simp add: crm_get_tenant_by_name_def eq_commute[of nm])
qed

section \<open>Enumeration\<close>

definition table_order :: "mchash_table \<Rightarrow> (nat \<Rightarrow> addr list) \<Rightarrow> addr list" where
  "table_order t B = concat (map B [0..<unat (buckets t)])"

lemma table_order_nodes:
  assumes inv: "crm_inv s t B L"
  shows "set (table_order t B) = nodes B" "distinct (table_order t B)"
    "\<And>h. n \<in> nodes B \<Longrightarrow> tn_handle (cr_tenants s n) = h \<longleftrightarrow> tenant_at t h = Some n"
proof -
  note m = crm_invD(2)[OF inv]
  have bnd: "k < unat (buckets t)" if "n \<in> set (B k)" for n k
    using crm_invD(7)[OF inv that] crm_hash_bound[OF crm_invD(4)[OF inv]] by (auto simp: tenant_ok_def)
  then show "set (table_order t B) = nodes B" unfolding table_order_def nodes_def by fastforce
  have "distinct (B k)" for k using m by (simp add: mch_inv_def)
  then have "distinct (concat (map B ks))" if "distinct ks" for ks
    using that
  proof (induction ks)
    case (Cons k ks)
    have "set (B k) \<inter> set (B j) = {}" if "j \<in> set ks" for j using mch_inv_disjoint[OF m] that Cons.prems by fastforce
    then show ?case using Cons by auto
  qed simp
  then show "distinct (table_order t B)" by (simp add: table_order_def)
  show "tn_handle (cr_tenants s n) = h \<longleftrightarrow> tenant_at t h = Some n" if "n \<in> nodes B" for h
    using that nodes_tenant(1)[OF inv] tenant_at_node(3)[OF inv] by (auto simp: nodes_def)
qed

lemma tenant_out_handle:
  assumes "crm_inv s t B L" "n \<in> nodes B"
  shows "tenant_out s n = (tn_tenant_name (cr_tenants s n), tn_handle (cr_tenants s n))"
proof -
  have "tenant_at t (tn_handle (cr_tenants s n)) = Some n" using table_order_nodes(3)[OF assms] by blast
  from tenant_at_node(3-5)[OF assms(1) this] show ?thesis using handle_eq by (simp add: tenant_out_def)
qed

lemma enumeration_first:
  assumes inv: "crm_inv s t B L"
  shows "crm_get_first_tenant s = Some (case table_order t B of [] \<Rightarrow> (CRM_ERROR_NO_MORE_ENTRIES, None)
      | n # _ \<Rightarrow> (CRM_SUCCESS, Some (tenant_out s n)))"
proof -
  have "\<forall>k\<in>set [0..<unat (buckets t)]. k < length (bucket_list t)" using crm_invD(6)[OF inv] by simp
  note f = first_scan_ok[OF crm_invD(2)[OF inv] this, folded table_order_def]
  show ?thesis using crm_invD(1)[OF inv]
    by (cases "table_order t B") (simp_all add: crm_get_first_tenant_def f)
qed

lemma enumeration_next:
  assumes inv: "crm_inv s t B L"
  shows "crm_get_next_tenant h s = Some (case dropWhile (\<lambda>n. tn_handle (cr_tenants s n) \<noteq> h) (table_order t B) of
      [] \<Rightarrow> (CRM_ERROR_INVALID_TENANT_HANDLE, None)
    | n # ns \<Rightarrow> (case ns of [] \<Rightarrow> (CRM_ERROR_NO_MORE_ENTRIES, None) | m # _ \<Rightarrow> (CRM_SUCCESS, Some (tenant_out s m))))"
proof -
  have "\<forall>k\<in>set [0..<unat (buckets t)]. k < length (bucket_list t)" using crm_invD(6)[OF inv] by simp
  note f = next_scan_ok(2)[OF crm_invD(2)[OF inv] this, folded table_order_def, of "\<lambda>n. tn_handle (cr_tenants s n) = h"]
  show ?thesis using crm_invD(1)[OF inv] unfolding crm_get_next_tenant_def
    by (cases "dropWhile (\<lambda>n. tn_handle (cr_tenants s n) \<noteq> h) (table_order t B)")
      (simp_all add: f del: dropWhile_eq_Nil_conv split: list.split)
qed

lemma enumeration_ok:
  assumes inv: "crm_inv s t B L"
  shows "table_order t B = ys @ n # zs \<Longrightarrow> crm_get_next_tenant (tn_handle (cr_tenants s n)) s = Some (case zs of
       [] \<Rightarrow> (CRM_ERROR_NO_MORE_ENTRIES, None) | m # _ \<Rightarrow> (CRM_SUCCESS, Some (tenant_out s m)))"
    "crm_abs s t L h = None \<Longrightarrow> crm_get_next_tenant h s = Some (CRM_ERROR_INVALID_TENANT_HANDLE, None)"
proof -
  assume sp: "table_order t B = ys @ n # zs"
  have n: "n \<in> nodes B" "\<forall>y\<in>set ys. y \<in> nodes B \<and> y \<noteq> n"
    using table_order_nodes(1,2)[OF inv] sp by auto
  have "tn_handle (cr_tenants s y) \<noteq> tn_handle (cr_tenants s n)" if "y \<in> set ys" for y
  proof
    assume eq: "tn_handle (cr_tenants s y) = tn_handle (cr_tenants s n)"
    have "tenant_at t (tn_handle (cr_tenants s n)) = Some n" using table_order_nodes(3)[OF inv n(1)] by blast
    moreover have "tenant_at t (tn_handle (cr_tenants s n)) = Some y" using table_order_nodes(3)[OF inv] n(2) that eq by blast
    ultimately show False using n(2) that by simp
  qed
  then have "dropWhile (\<lambda>x. tn_handle (cr_tenants s x) \<noteq> tn_handle (cr_tenants s n)) (table_order t B) = n # zs"
    unfolding sp by (subst dropWhile_append2) auto
  then show "crm_get_next_tenant (tn_handle (cr_tenants s n)) s = Some (case zs of
       [] \<Rightarrow> (CRM_ERROR_NO_MORE_ENTRIES, None) | m # _ \<Rightarrow> (CRM_SUCCESS, Some (tenant_out s m)))"
    unfolding enumeration_next[OF inv] by simp
next
  assume "crm_abs s t L h = None"
  then have "tenant_at t h = None" by (simp add: crm_abs_def)
  then have "tn_handle (cr_tenants s x) \<noteq> h" if "x \<in> set (table_order t B)" for x
    using table_order_nodes(1)[OF inv] table_order_nodes(3)[OF inv, of x h] that by auto
  then have "dropWhile (\<lambda>x. tn_handle (cr_tenants s x) \<noteq> h) (table_order t B) = []" by simp
  then show "crm_get_next_tenant h s = Some (CRM_ERROR_INVALID_TENANT_HANDLE, None)"
    unfolding enumeration_next[OF inv] by (simp del: dropWhile_eq_Nil_conv)
qed

text \<open>What a reader puts out for an attribute.\<close>

definition attr_info :: "string \<times> string \<Rightarrow> crm_attribute_name_value_output_info" where
  "attr_info p = \<lparr>oi_name_string = fst p, oi_name_length = int (length (fst p)) + 1,
     oi_value_string = snd p, oi_value_length = int (length (snd p)) + 1\<rparr>"

section \<open>A database for the examples\<close>

lemma not_full:
  assumes inv: "mch_inv t B" and j: "j < length (indirection_array t)" and no: "\<And>m. mch_refs t (of_nat j, m) = None"
  shows "free_q_next t \<noteq> None"
proof -
  obtain F where F: "free_ok t F" using inv by (auto simp: mch_inv_def)
  have j': "unat (of_nat j :: u32) = j" by (rule mch_inv_index[OF inv j])
  have "ae_node (indirection_array t ! j) = None"
    using no[of "ae_magic (indirection_array t ! j)"] j j' inv by (auto simp: mch_refs_def mch_inv_def entries_ok_def split: if_splits)
  then have "j \<in> set F" using F j by (simp add: free_ok_def)
  then have "F \<noteq> []" by auto
  then show ?thesis using F by (cases F) (auto simp: free_ok_def dest: lseg_start)
qed

definition one_bucket :: mchash_table where
  "one_bucket = (case mchash_table_create 1 3 True (Some 4096) True
     (\<lambda>_. \<lparr>lk_prev = Null, lk_next = Null, lk_index = 0, lk_key = 0\<rparr>) of Some (Created t) \<Rightarrow> t)"

lemma one_bucket_created: "mchash_table_create 1 3 True (Some 4096) True
    (\<lambda>_. \<lparr>lk_prev = Null, lk_next = Null, lk_index = 0, lk_key = 0\<rparr>) = Some (Created one_bucket)"
  by (simp add: one_bucket_def mchash_table_create_def)

lemmas one_bucket_facts = create_inv[OF one_bucket_created]

definition demo_B :: "nat \<Rightarrow> addr list" where "demo_B = (\<lambda>k. if k = 0 then [7] else [])"

text \<open>A table of one bucket whose only tenant is the node 7.\<close>

definition demo_tab :: "u32 \<Rightarrow> mchash_table \<Rightarrow> bool" where
  "demo_tab i t \<longleftrightarrow> mch_inv t demo_B \<and> mch_refs t = [(i, 1) \<mapsto> 7] \<and> buckets t = 1 \<and> length (indirection_array t) = 3"

lemma demo_tab_exists: "\<exists>i t. demo_tab i t"
proof -
  have k: "unat (0 :: u32) < length (bucket_list one_bucket)" using one_bucket_facts by simp
  have "inserted (\<lambda>_. []) 0 [] 7 [] one_bucket (MCHASH_APPEND_NODE 0 7 one_bucket)"
    using append_ok[OF one_bucket_facts(1) k, of 7] by simp
  then obtain i t where t: "mch_inv t ((\<lambda>_. [])(unat (0 :: u32) := [7]))" "mch_refs t = (\<lambda>_. None)((i, 1) := Some 7)"
    "length (bucket_list t) = length (bucket_list one_bucket)" "length (arr t) = length (arr one_bucket)"
    unfolding inserted_def using one_bucket_facts by auto
  have B: "(\<lambda>_. [])(unat (0 :: u32) := [7 :: nat]) = demo_B" by (simp add: fun_eq_iff demo_B_def)
  have "unat (buckets t) = 1" using t(1,3) one_bucket_facts by (simp add: mch_inv_def)
  then have "buckets t = 1" by (simp add: word_unat_eq_iff)
  then show ?thesis using t B one_bucket_facts unfolding demo_tab_def by (intro exI[of _ i] exI[of _ t]) simp
qed

lemma demo_tab_not_full: "demo_tab i t \<Longrightarrow> free_q_next t \<noteq> None"
proof (rule not_full[of t demo_B "if i = 0 then 1 else 0"])
  assume d: "demo_tab i t"
  show "mch_inv t demo_B" "(if i = 0 then 1 else 0) < length (indirection_array t)" using d by (simp_all add: demo_tab_def)
  show "mch_refs t (of_nat (if i = 0 then 1 else 0), m) = None" for m using d by (auto simp: demo_tab_def)
qed

text \<open>The tenant ''a'' has the attribute ''x'' with the value ''1'', at address 5.\<close>

definition demo_crm :: "u32 \<Rightarrow> mchash_table \<Rightarrow> unit crm_sys" where
  "demo_crm i t = \<lparr>crm_tenant_table_g = Some t, crm_no_of_tenant_buckets_g = 1, crm_tenant_mempool_g = Some 2,
     crm_tenant_vnnames_mempool_g = Some 2, crm_attributes_mempool_g = Some 2, crm_notifications_mempool_g = Some 2,
     crm_tenant_notifications = replicate 7 null_list,
     cr_tenants = \<lambda>_. (finish_tenant 1 i (blank_tenant 0 ''a''))\<lparr>number_of_attributes := 1,
       tn_attributes := \<lparr>ol_head = Some 5, ol_tail = Some 5, ol_count = 1, ol_lock = False, ol_free_cbk = True\<rparr>\<rparr>,
     cr_attrs = \<lambda>_. \<lparr>ra_heap_b = 0, ra_name = ''x'', ra_value = ''1''\<rparr>,
     cr_vns = \<lambda>_. \<lparr>vl_heap_b = 0, vl_nw_name = [], vl_tenant_entry = 7\<rparr>,
     cr_hooks = \<lambda>_. \<lparr>hk_call_back = (), hk_cbk_arg1 = None, hk_cbk_arg2 = None, hk_heap_b = 0\<rparr>,
     cr_links = \<lambda>_. None, cr_rcu = [], cr_mem = demo_mem, cr_calls = [], cr_read_depth = 0\<rparr>"

definition demo_L :: "crm_list \<Rightarrow> addr list" where "demo_L = (\<lambda>_. [])(Attrs 7 := [5])"

definition demo_env :: "addr \<Rightarrow> nat \<Rightarrow> crm_env" where
  "demo_env b off = \<lparr>ce_mem = give b, ce_heap_b = 0, ce_tbl_offset = off, ce_string_at = \<lambda>_. []\<rparr>"

lemma demo_crm_ok:
  assumes d: "demo_tab i t"
  shows "crm_inv (demo_crm i t) t demo_B demo_L" "names_unique (demo_crm i t) demo_B"
    "crm_abs (demo_crm i t) t demo_L = [handle_of 1 i \<mapsto> (''a'', [(''x'', ''1'')], [], 1)]" "used demo_L = {5}" "nodes demo_B = {7}"
proof -
  let ?s = "demo_crm i t"
  show N: "nodes demo_B = {7}" by (auto simp: nodes_def demo_B_def split: if_splits)
  have hash: "unat (crm_get_hashval_byname ''a'' 1) = 0" using crm_hash_bound[of 1 "''a''"] by simp
  have "tenant_ok t k n (cr_tenants ?s n)" if "n \<in> set (demo_B k)" for k n
    using that d hash
    by (auto simp: demo_B_def demo_tab_def tenant_ok_def demo_crm_def finish_tenant_def blank_tenant_def split: if_splits)
  then have "table_ok ?s t demo_B" using d by (simp add: table_ok_def demo_tab_def) (simp add: demo_crm_def)
  moreover have "lists_ok ?s {7} demo_L"
  proof -
    have "ol_exact (get_lst ?s \<kappa>) (demo_L \<kappa>)" if "live {7} \<kappa>" for \<kappa>
    proof (cases \<kappa>)
      case (Hooks j)
      then show ?thesis using that
        by (simp add: demo_crm_def demo_L_def null_list_def ol_exact_def ol_rep_def ol_cnt_def)
    qed (use that in \<open>auto simp: demo_crm_def demo_L_def finish_tenant_def blank_tenant_def ol_exact_def ol_rep_def ol_cnt_def
        node_ok_def init_list_def OF_LIST_INIT_def null_list_def\<close>)
    moreover have "demo_L \<kappa> = []" if "\<not> live {7} \<kappa>" for \<kappa> using that by (auto simp: demo_L_def)
    ultimately show ?thesis unfolding lists_ok_def by (auto simp: demo_L_def demo_crm_def)
  qed
  ultimately show "crm_inv ?s t demo_B demo_L"
    by (intro crm_invI) (auto simp: N names_ok_def demo_L_def demo_crm_def finish_tenant_def blank_tenant_def)
  show "names_unique ?s demo_B" by (simp add: names_unique_def N)
  show "used demo_L = {5}" by (auto simp: used_def demo_L_def split: if_splits)
  have "abs_tenant ?s demo_L 7 = (''a'', [(''x'', ''1'')], [], 1)"
    by (simp add: abs_tenant_def demo_crm_def demo_L_def finish_tenant_def blank_tenant_def)
  then show "crm_abs ?s t demo_L = [handle_of 1 i \<mapsto> (''a'', [(''x'', ''1'')], [], 1)]"
    using d handle_iff by (auto simp: fun_eq_iff crm_abs_def demo_tab_def)
qed

lemma demo_pool:
  assumes "b \<notin> U" "node_ok b" shows "gives_fresh (ce_mem (demo_env b off)) (Some 2) h demo_mem U"
    "takes_back (ce_mem (demo_env b off)) (Some 2) h demo_mem"
proof -
  show "gives_fresh (ce_mem (demo_env b off)) (Some 2) h demo_mem U"
    using demo_mem_fresh[OF assms] by (simp add: demo_env_def)
  show "takes_back (ce_mem (demo_env b off)) (Some 2) h demo_mem"
    by (simp add: takes_back_def demo_env_def demo_mem_get) (simp add: demo_mem_def mempool_release_mem_block_def provider_of_def zero_pool_def)
qed

lemma demo_crm_fields [simp]:
  "cr_mem (demo_crm i t) = demo_mem" "crm_tenant_mempool_g (demo_crm i t) = Some 2" "crm_attributes_mempool_g (demo_crm i t) = Some 2"
  "crm_tenant_vnnames_mempool_g (demo_crm i t) = Some 2" "cr_read_depth (demo_crm i t) = 0"
  "crm_notifications_mempool_g (demo_crm i t) = Some 2"
  "ce_tbl_offset (demo_env b off) = off" "ce_heap_b (demo_env b off) = 0" "ce_string_at (demo_env b off) n = []"
  by (simp_all add: demo_crm_def demo_env_def)

section \<open>Properties\<close>

text \<open>The states of the examples are those of a platform with the table link at the offset 296, the offset
  with pointers of 8 and mutexes of 40 bytes, where the duplicate check reads other bytes than the names, and
  of a platform with the offset 200.\<close>

text \<open>C1: every operation of the tenant component - adding and deleting a tenant, a virtual network or an
  attribute, and registering a callback - returns, keeps the invariant, and implements the corresponding
  transition of the abstract database with the code of that transition, on every platform. An addition of a
  tenant fails exactly when the name is too long, the duplicate check finds it, or the pool or the table has
  no room; a deletion exactly when the name is unknown or a counter of the tenant is not 0; an addition of a
  virtual network or of an attribute exactly when the handle is unknown or the pool has no block for it. The
  duplicate check finds exactly the names in use where the offset of the table link in a tenant is below
  256; otherwise it compares whatever strings are at other places with the new name. A registration has put
  the callback at the end of its list.\<close>

theorem crm_refines_database:
  assumes "crm_inv s t B L" "op_ok e op s t B L"
  shows "\<exists>rc s' t' B' L'. crm_exec e op s = Some (rc, s') \<and> crm_inv s' t' B' L' \<and>
    db_step op (op_taken e op s B) (op_room e op s t) rc (crm_abs s t L) (crm_abs s' t' L') \<and>
    op_registered op rc s L s' L' \<and>
    (\<forall>nm. op = Add_tenant nm \<longrightarrow> op_taken e op s B =
       (if ce_tbl_offset e < 256 then nm \<in> db_names (crm_abs s t L)
        else \<exists>n\<in>set (B (name_bucket s nm)). ce_string_at e n = nm))"
proof -
  have wrap: "unat (of_nat (ce_tbl_offset e) :: u8) < 256" using unsigned_less[of "of_nat (ce_tbl_offset e) :: u8"] by simp
  have "name_taken e nm s B = (if ce_tbl_offset e < 256 then nm \<in> db_names (crm_abs s t L)
        else \<exists>n\<in>set (B (name_bucket s nm)). ce_string_at e n = nm)" for nm
    using names_found[OF assms(1), of e nm] wrap by (auto simp: name_taken_def scanned_name_def)
  then show ?thesis using op_step[OF assms] unfolding op_result_def by fastforce
qed

theorem crm_refines_database_witness:
  "\<exists>i t s' s2. demo_tab i t \<and> crm_exec (demo_env 8 296) (Add_tenant ''a'') (demo_crm i t) = Some (CRM_SUCCESS, s') \<and>
     crm_exec (demo_env 8 200) (Add_tenant ''a'') (demo_crm i t) = Some (CRM_ERROR_DUPLICATE_TENANT_RESOURCE, s2)"
proof -
  obtain i t where d: "demo_tab i t" using demo_tab_exists by blast
  note ok = demo_crm_ok[OF d]
  have o: "op_ok (demo_env 8 off) (Add_tenant ''a'') (demo_crm i t) t demo_B demo_L" for off
    using demo_pool[of 8 "{7}" off 0] ok(5) by (simp add: node_ok_def)
  have room: "op_room (demo_env 8 off) (Add_tenant ''a'') (demo_crm i t) t" for off
    using demo_tab_not_full[OF d] by (simp add: tenant_block_def block_given_def) (simp add: demo_env_def demo_mem_get)
  have nm: "''a'' \<in> db_names (crm_abs (demo_crm i t) t demo_L)" unfolding db_names_iff ok(3) by simp
  obtain rc s' where "crm_exec (demo_env 8 296) (Add_tenant ''a'') (demo_crm i t) = Some (rc, s')" "rc = CRM_SUCCESS"
    using crm_refines_database[OF ok(1) o[of 296]] room[of 296] by fastforce
  moreover obtain rc s2 where "crm_exec (demo_env 8 200) (Add_tenant ''a'') (demo_crm i t) = Some (rc, s2)"
      "rc = CRM_ERROR_DUPLICATE_TENANT_RESOURCE"
    using crm_refines_database[OF ok(1) o[of 200]] nm by fastforce
  ultimately show ?thesis using d by blast
qed

text \<open>C2: after any sequence of operations on any platform the invariant holds, the lookup of a name succeeds
  exactly for the names of the tenants, the handle found for a name is the handle of a tenant of that name,
  and a further operation never runs into undefined behaviour. Where the offset of the table link in a
  tenant is below 256 and the names differed at the start, the names of the tenants differ, so the handle
  found is that of the only tenant of the name; at the offset 296 of a 64-bit build they need not, because
  the duplicate check reads other bytes than the names (\<^verbatim>\<open>crm_duplicate_accepted\<close>).\<close>

theorem crm_run_safe:
  assumes "crm_inv s0 t0 B0 L0" "crm_run off s0 s"
  shows "\<exists>t B L. crm_inv s t B L \<and>
    (\<forall>nm. crm_get_tenant_by_name (Some nm) s = Some (if nm \<in> fst ` ran (crm_abs s t L)
       then (CRM_SUCCESS, Some nm) else (CRM_ERROR_TENANT_NAME_INVALID, None))) \<and>
    (\<forall>nm. if nm \<in> fst ` ran (crm_abs s t L)
       then \<exists>h v. crm_get_tenant_handle nm s = Some (CRM_SUCCESS, Some h) \<and> crm_abs s t L h = Some v \<and> fst v = nm
       else crm_get_tenant_handle nm s = Some (CRM_ERROR_TENANT_NAME_INVALID, None)) \<and>
    (\<forall>e op. op_ok e op s t B L \<longrightarrow> crm_exec e op s \<noteq> None) \<and>
    (off < 256 \<longrightarrow> names_unique s0 B0 \<longrightarrow> names_unique s B \<and>
      (\<forall>nm h. crm_get_tenant_handle nm s = Some (CRM_SUCCESS, Some h) \<longleftrightarrow> (\<exists>v. crm_abs s t L h = Some v \<and> fst v = nm)))"
proof -
  obtain t B L where i: "crm_inv s t B L" "off < 256 \<longrightarrow> names_unique s0 B0 \<longrightarrow> names_unique s B"
    using crm_run_inv[OF assms(2,1)] by blast
  have "crm_exec e op s \<noteq> None" if "op_ok e op s t B L" for e op
    using op_step[OF i(1) that] by (auto simp: op_result_def)
  moreover have "if nm \<in> fst ` ran (crm_abs s t L)
     then \<exists>h v. crm_get_tenant_handle nm s = Some (CRM_SUCCESS, Some h) \<and> crm_abs s t L h = Some v \<and> fst v = nm
     else crm_get_tenant_handle nm s = Some (CRM_ERROR_TENANT_NAME_INVALID, None)" for nm
    using handle_by_name[OF i(1), of nm] db_names_iff[of nm "crm_abs s t L"] unfolding db_names_def by auto
  ultimately show ?thesis using i handle_of_name[OF i(1)] by_name_ok[OF i(1), unfolded db_names_def] by blast
qed

theorem crm_run_safe_witness:
  "\<exists>i t s h. demo_tab i t \<and> crm_exec (demo_env 8 200) (Del_tenant ''a'') (demo_crm i t) = Some (CRM_ERROR_RESOURCE_NOTEMPTY, s) \<and>
     crm_get_tenant_handle ''a'' s = Some (CRM_SUCCESS, Some h)"
proof -
  obtain i t where d: "demo_tab i t" using demo_tab_exists by blast
  note ok = demo_crm_ok[OF d]
  obtain rc s' t' L' where r: "crm_del_tenant (Some ''a'') (demo_crm i t) = Some (rc, s')"
    "tenant_deleted ''a'' (demo_crm i t) t demo_L rc s' t' L'"
    using del_tenant_ok[OF ok(1), of "''a''"] by blast
  have "crm_abs (demo_crm i t) t demo_L (handle_of 1 i) = Some (''a'', [(''x'', ''1'')], [], 1)" using ok(3) by simp
  then have "rc = CRM_ERROR_RESOURCE_NOTEMPTY \<and> s' = demo_crm i t"
    using r(2) unfolding tenant_deleted_def ok(3) by (auto split: if_splits)
  then have ex: "crm_exec (demo_env 8 200) (Del_tenant ''a'') (demo_crm i t) = Some (CRM_ERROR_RESOURCE_NOTEMPTY, demo_crm i t)"
    using r(1) by simp
  have run: "crm_run 200 (demo_crm i t) (demo_crm i t)"
    by (rule crm_run.step[OF crm_run.start _ _ ex]) simp_all
  obtain t'' L'' where l: "\<forall>nm h. crm_get_tenant_handle nm (demo_crm i t) = Some (CRM_SUCCESS, Some h) \<longleftrightarrow>
      (\<exists>v. crm_abs (demo_crm i t) t'' L'' h = Some v \<and> fst v = nm)" "\<exists>B. crm_inv (demo_crm i t) t'' B L''"
    using crm_run_safe[OF ok(1) run] ok(2) by auto
  have "t'' = t" using crm_invD(1)[OF ok(1)] l(2) crm_invD(1) by fastforce
  then have "crm_abs (demo_crm i t) t'' L'' (handle_of 1 i) = Some (abs_tenant (demo_crm i t) L'' 7)"
    using d by (simp add: crm_abs_def demo_tab_def)
  moreover have "fst (abs_tenant (demo_crm i t) L'' 7) = ''a''"
    by (simp add: abs_tenant_def demo_crm_def finish_tenant_def blank_tenant_def)
  ultimately have "crm_get_tenant_handle ''a'' (demo_crm i t) = Some (CRM_SUCCESS, Some (handle_of 1 i))" using l(1) by blast
  then show ?thesis using ex d by blast
qed

text \<open>C23: \<^verbatim>\<open>crm_get_first_tenant\<close> and repeated calls of \<^verbatim>\<open>crm_get_next_tenant\<close> visit every tenant of the database
  exactly once and then report the end; a handle that is not in the database is refused.\<close>

theorem crm_enumerates_tenants:
  assumes "crm_inv s t B L"
  shows "\<exists>T. distinct (map snd T) \<and> set T = {(fst v, h) | h v. crm_abs s t L h = Some v} \<and>
    crm_get_first_tenant s = Some (case T of [] \<Rightarrow> (CRM_ERROR_NO_MORE_ENTRIES, None) | x # _ \<Rightarrow> (CRM_SUCCESS, Some x)) \<and>
    (\<forall>ys x zs. T = ys @ x # zs \<longrightarrow> crm_get_next_tenant (snd x) s =
       Some (case zs of [] \<Rightarrow> (CRM_ERROR_NO_MORE_ENTRIES, None) | y # _ \<Rightarrow> (CRM_SUCCESS, Some y))) \<and>
    (\<forall>h. crm_abs s t L h = None \<longrightarrow> crm_get_next_tenant h s = Some (CRM_ERROR_INVALID_TENANT_HANDLE, None))"
proof -
  define ns where "ns = table_order t B"
  note N = table_order_nodes[OF assms, folded ns_def]
  let ?T = "map (tenant_out s) ns"
  have out: "tenant_out s n = (tn_tenant_name (cr_tenants s n), tn_handle (cr_tenants s n))" if "n \<in> set ns" for n
    using tenant_out_handle[OF assms] that N(1) by simp
  have at: "tenant_at t (tn_handle (cr_tenants s n)) = Some n" if "n \<in> set ns" for n using N(1,3) that by blast
  have "inj_on (\<lambda>n. tn_handle (cr_tenants s n)) (set ns)" by (rule inj_onI) (metis at option.inject)
  then have "distinct (map (\<lambda>n. tn_handle (cr_tenants s n)) ns)" using N(2) by (simp add: distinct_map)
  moreover have "map snd ?T = map (\<lambda>n. tn_handle (cr_tenants s n)) ns" using out by simp
  ultimately have "distinct (map snd ?T)" by (simp only:)
  moreover have "set ?T = {(fst v, h) | h v. crm_abs s t L h = Some v}"
  proof (intro equalityI subsetI)
    fix x assume "x \<in> set ?T"
    then obtain n where n: "n \<in> set ns" "x = tenant_out s n" by auto
    then have "crm_abs s t L (tn_handle (cr_tenants s n)) = Some (abs_tenant s L n)" "fst (abs_tenant s L n) = tn_tenant_name (cr_tenants s n)"
      using at by (simp_all add: crm_abs_def abs_tenant_def)
    then show "x \<in> {(fst v, h) | h v. crm_abs s t L h = Some v}" using n out[of n]
      by (intro CollectI exI[of _ "tn_handle (cr_tenants s n)"] exI[of _ "abs_tenant s L n"]) simp
  next
    fix x assume "x \<in> {(fst v, h) | h v. crm_abs s t L h = Some v}"
    then obtain h v where v: "x = (fst v, h)" "crm_abs s t L h = Some v" by blast
    then obtain n where h: "x = (fst v, h)" "tenant_at t h = Some n" "v = abs_tenant s L n" by (auto simp: crm_abs_def)
    then have "n \<in> set ns" "tn_handle (cr_tenants s n) = h" using tenant_at_node(1,3)[OF assms h(2)] N(1) by auto
    then show "x \<in> set ?T" using out h by (auto simp: abs_tenant_def image_iff)
  qed
  moreover have "crm_get_first_tenant s = Some (case ?T of [] \<Rightarrow> (CRM_ERROR_NO_MORE_ENTRIES, None) | x # _ \<Rightarrow> (CRM_SUCCESS, Some x))"
    using enumeration_first[OF assms] by (cases ns) (simp_all add: ns_def)
  moreover have "crm_get_next_tenant (snd x) s =
       Some (case zs of [] \<Rightarrow> (CRM_ERROR_NO_MORE_ENTRIES, None) | y # _ \<Rightarrow> (CRM_SUCCESS, Some y))"
    if T: "?T = ys @ x # zs" for ys x zs
  proof -
    obtain as n bs where sp: "ns = as @ n # bs" "ys = map (tenant_out s) as" "x = tenant_out s n" "zs = map (tenant_out s) bs"
      using T by (auto simp: map_eq_append_conv map_eq_Cons_conv)
    then have "snd x = tn_handle (cr_tenants s n)" using out by simp
    then show ?thesis using enumeration_ok(1)[OF assms, of as n bs] sp ns_def by (cases bs) simp_all
  qed
  ultimately show ?thesis using enumeration_ok(2)[OF assms] by (intro exI[of _ ?T]) (simp del: map_map)
qed

theorem crm_enumerates_tenants_witness:
  "\<exists>i t. demo_tab i t \<and> crm_get_first_tenant (demo_crm i t) = Some (CRM_SUCCESS, Some (''a'', handle_of 1 i)) \<and>
     crm_get_next_tenant (handle_of 1 i) (demo_crm i t) = Some (CRM_ERROR_NO_MORE_ENTRIES, None)"
proof -
  obtain i t where d: "demo_tab i t" using demo_tab_exists by blast
  note ok = demo_crm_ok[OF d]
  obtain T where T: "distinct (map snd T)" "set T = {(fst v, h) | h v. crm_abs (demo_crm i t) t demo_L h = Some v}"
    "crm_get_first_tenant (demo_crm i t) = Some (case T of [] \<Rightarrow> (CRM_ERROR_NO_MORE_ENTRIES, None) | x # _ \<Rightarrow> (CRM_SUCCESS, Some x))"
    "\<forall>ys x zs. T = ys @ x # zs \<longrightarrow> crm_get_next_tenant (snd x) (demo_crm i t) =
       Some (case zs of [] \<Rightarrow> (CRM_ERROR_NO_MORE_ENTRIES, None) | y # _ \<Rightarrow> (CRM_SUCCESS, Some y))"
    using crm_enumerates_tenants[OF ok(1)] by blast
  have "set T = {(''a'', handle_of 1 i)}" unfolding T(2) ok(3) by (auto split: if_splits)
  moreover have "distinct T" using T(1) by (simp add: distinct_map)
  ultimately have "T = [(''a'', handle_of 1 i)]" by (cases T; cases "tl T") auto
  then show ?thesis using T(3) T(4)[rule_format, of "[]" "(''a'', handle_of 1 i)" "[]"] d
    by (intro exI[of _ i] exI[of _ t]) simp
qed

text \<open>An update of an existing attribute counts it again, so removing the attribute leaves the counter at
  its old value: a tenant whose only attribute was updated and then removed has neither attributes nor
  virtual networks, but its deletion is refused for not being empty.\<close>

theorem crm_update_blocks_delete:
  assumes inv: "crm_inv s t B L" and un: "names_unique s B"
    and h: "crm_abs s t L h = Some (nm, [(k, v)], [], 1)"
    and len: "length k < CRM_MAX_ATTRIBUTE_NAME_LEN" "length w < CRM_MAX_ATTRIBUTE_VALUE_LEN"
    and fresh: "gives_fresh (ce_mem e) (crm_attributes_mempool_g s) 0 (cr_mem s) (used L)"
  shows "\<exists>s1 s2 t2 L2. crm_add_attribute_to_tenant e h (Some (k, w)) s = Some (CRM_SUCCESS, s1) \<and>
    crm_delete_attribute_from_tenant h k s1 = Some (CRM_SUCCESS, s2) \<and> crm_inv s2 t2 B L2 \<and>
    crm_abs s2 t2 L2 = (crm_abs s t L)(h \<mapsto> (nm, [], [], 1)) \<and>
    crm_del_tenant (Some nm) s2 = Some (CRM_ERROR_RESOURCE_NOTEMPTY, s2)"
proof -
  obtain n where at: "tenant_at t h = Some n" using h by (auto simp: crm_abs_def)
  obtain s1 L1 where a: "crm_add_attribute_to_tenant e h (Some (k, w)) s = Some (CRM_SUCCESS, s1)" "crm_inv s1 t B L1"
    "names_unique s1 B" "crm_abs s1 t L1 = (crm_abs s t L)(h \<mapsto> (nm, [(k, w)], [], 2))"
    using add_attr_to_tenant_ok[OF inv at h len fresh] un by auto
  have h1: "crm_abs s1 t L1 h = Some (nm, [(k, w)], [], 2)" using a(4) by simp
  obtain s2 L2 where b: "crm_delete_attribute_from_tenant h k s1 = Some (CRM_SUCCESS, s2)" "crm_inv s2 t B L2"
    "names_unique s2 B" "crm_abs s2 t L2 = (crm_abs s1 t L1)(h \<mapsto> (nm, [], [], 1))"
    using del_attr_from_tenant_ok[OF a(2) at h1, of k] a(3) by auto
  have abs: "crm_abs s2 t L2 = (crm_abs s t L)(h \<mapsto> (nm, [], [], 1))" using b(4) a(4) by simp
  obtain rc s' t' L' where r: "crm_del_tenant (Some nm) s2 = Some (rc, s')" "tenant_deleted nm s2 t L2 rc s' t' L'"
    using del_tenant_ok[OF b(2), of nm] by blast
  have only: "crm_abs s2 t L2 h' = Some (nm, al, vs, c) \<Longrightarrow> c = 1" for h' al vs c
    using handle_of_name[OF b(2,3), of nm h'] handle_of_name[OF b(2,3), of nm h] abs by auto
  have "rc = CRM_ERROR_RESOURCE_NOTEMPTY \<and> s' = s2"
    using r(2) unfolding tenant_deleted_def
  proof (elim disjE exE conjE)
    assume no: "\<forall>h' v. crm_abs s2 t L2 h' = Some v \<longrightarrow> fst v \<noteq> nm"
    have "crm_abs s2 t L2 h = Some (nm, [], [], 1)" using abs by simp
    then have False using no by fastforce
    then show ?thesis ..
  qed (auto split: if_splits dest: only)
  then show ?thesis using a(1) b(1,2) abs r(1) by blast
qed

theorem crm_update_blocks_delete_witness:
  "\<exists>i t s1 s2. demo_tab i t \<and> crm_add_attribute_to_tenant (demo_env 8 200) (handle_of 1 i) (Some (''x'', ''2'')) (demo_crm i t) =
       Some (CRM_SUCCESS, s1) \<and> crm_delete_attribute_from_tenant (handle_of 1 i) ''x'' s1 = Some (CRM_SUCCESS, s2) \<and>
     crm_del_tenant (Some ''a'') s2 = Some (CRM_ERROR_RESOURCE_NOTEMPTY, s2)"
proof -
  obtain i t where d: "demo_tab i t" using demo_tab_exists by blast
  note ok = demo_crm_ok[OF d]
  have h: "crm_abs (demo_crm i t) t demo_L (handle_of 1 i) = Some (''a'', [(''x'', ''1'')], [], 1)" using ok(3) by simp
  have "gives_fresh (ce_mem (demo_env 8 200)) (crm_attributes_mempool_g (demo_crm i t)) 0 (cr_mem (demo_crm i t)) (used demo_L)"
    using demo_pool(1)[of 8 "{5}" 200 0] ok(4) by (simp add: node_ok_def)
  from crm_update_blocks_delete[OF ok(1,2) h _ _ this, of "''2''"] show ?thesis using d by auto
qed

text \<open>Where the offset of the table link does not fit an unsigned char, the duplicate check of
  \<^verbatim>\<open>crm_add_tenant\<close> reads other bytes than the names of the tenants: if none of them is the new name, a
  second tenant of a name in use is added.\<close>

theorem crm_duplicate_accepted:
  assumes inv: "crm_inv s t B L" and h: "crm_abs s t L h = Some (nm, al, vs, c)" and nm: "length nm < CRM_MAX_TENANT_NAME_LEN"
    and off: "256 \<le> ce_tbl_offset e" and str: "\<forall>n. ce_string_at e n \<noteq> nm"
    and room: "free_q_next t \<noteq> None" "tenant_block e s"
    and pool: "gives_fresh (ce_mem e) (crm_tenant_mempool_g s) (ce_heap_b e) (cr_mem s) (nodes B)"
      "takes_back (ce_mem e) (crm_tenant_mempool_g s) (ce_heap_b e) (cr_mem s)"
  shows "\<exists>h' s' t' B'. crm_add_tenant e nm s = Some (CRM_SUCCESS, Some h', s') \<and> crm_inv s' t' B' L \<and> h' \<noteq> h \<and>
    crm_abs s' t' L h = Some (nm, al, vs, c) \<and> crm_abs s' t' L h' = Some (nm, [], [], 0)"
proof -
  obtain rc ho s' t' B' where r: "crm_add_tenant e nm s = Some (rc, ho, s')" "crm_inv s' t' B' L" "tenant_added e nm s t B L rc ho s' t'"
    using add_tenant_ok[OF inv pool, of nm] by blast
  have "unat (of_nat (ce_tbl_offset e) :: u8) < 256"
    using unsigned_less[of "of_nat (ce_tbl_offset e) :: u8"] by simp
  then have "unat (of_nat (ce_tbl_offset e) :: u8) \<noteq> ce_tbl_offset e" using off by linarith
  then have "\<not> name_taken e nm s B" using str by (simp add: name_taken_def scanned_name_def)
  then obtain h' where "rc = CRM_SUCCESS" "ho = Some h'" "crm_abs s t L h' = None"
    "crm_abs s' t' L = (crm_abs s t L)(h' \<mapsto> (nm, [], [], 0))"
    using r(3) nm room unfolding tenant_added_def by auto
  then show ?thesis using r(1,2) h by (intro exI[of _ h'] exI[of _ s'] exI[of _ t'] exI[of _ B']) auto
qed

theorem crm_duplicate_accepted_witness:
  "\<exists>i t h' s' t'. demo_tab i t \<and> crm_add_tenant (demo_env 8 296) ''a'' (demo_crm i t) = Some (CRM_SUCCESS, Some h', s') \<and>
     crm_abs s' t' demo_L (handle_of 1 i) = Some (''a'', [(''x'', ''1'')], [], 1) \<and> crm_abs s' t' demo_L h' = Some (''a'', [], [], 0)"
proof -
  obtain i t where d: "demo_tab i t" using demo_tab_exists by blast
  note ok = demo_crm_ok[OF d]
  have h: "crm_abs (demo_crm i t) t demo_L (handle_of 1 i) = Some (''a'', [(''x'', ''1'')], [], 1)" using ok(3) by simp
  have nb: "tenant_block (demo_env 8 296) (demo_crm i t)"
    by (simp add: tenant_block_def block_given_def) (simp add: demo_env_def demo_mem_get)
  have "length ''a'' < CRM_MAX_TENANT_NAME_LEN" "256 \<le> ce_tbl_offset (demo_env 8 296)" "\<forall>n. ce_string_at (demo_env 8 296) n \<noteq> ''a''"
    by simp_all
  from crm_duplicate_accepted[OF ok(1) h this demo_tab_not_full[OF d] nb] show ?thesis
    using d demo_pool[of 8 "{7}" 296 0] ok(5) by (fastforce simp: node_ok_def)
qed

text \<open>The operations leave the read-side critical section that they enter, except the addition and the
  removal of a virtual network with an invalid handle, which return inside it.\<close>

theorem crm_read_sections:
  assumes "crm_inv s t B L" "op_ok e op s t B L"
  shows "\<exists>rc s'. crm_exec e op s = Some (rc, s') \<and>
    cr_read_depth s' = cr_read_depth s +
      (case op of Add_vn h _ \<Rightarrow> if crm_abs s t L h = None then 1 else 0
        | Del_vn h _ \<Rightarrow> if crm_abs s t L h = None then 1 else 0 | _ \<Rightarrow> 0)"
  using op_step[OF assms] unfolding op_result_def by (cases op) auto

theorem crm_read_sections_witness:
  "\<exists>i t rc s'. demo_tab i t \<and> crm_exec (demo_env 8 200) (Del_vn (handle_of 2 i) ''net'') (demo_crm i t) = Some (rc, s') \<and>
     cr_read_depth s' = 1"
proof -
  obtain i t where d: "demo_tab i t" using demo_tab_exists by blast
  note ok = demo_crm_ok[OF d]
  have at: "tenant_at t (handle_of 1 i) = Some 7" using d by (simp add: demo_tab_def)
  have "handle_of 2 i \<noteq> handle_of 1 i"
  proof
    assume "handle_of 2 i = handle_of 1 i"
    from arg_cong[OF this, of magic_of] show False by simp
  qed
  then have no: "crm_abs (demo_crm i t) t demo_L (handle_of 2 i) = None" using ok(3) by simp
  have "op_ok (demo_env 8 200) (Del_vn (handle_of 2 i) ''net'') (demo_crm i t) t demo_B demo_L"
    using tenant_at_node(2)[OF ok(1) at] by (simp add: handle_ok_def)
  from crm_read_sections[OF ok(1) this] show ?thesis using d no by auto
qed

text \<open>The readers of the attributes of a tenant follow its association list: a name is found exactly
  when it is bound, and the first and next attributes enumerate the list in order, as far as the caller's
  buffers are large enough.\<close>

theorem crm_attribute_queries:
  assumes inv: "crm_inv s t B L" and h: "crm_abs s t L h = Some (nm, al, vs, c)"
    and big: "\<forall>(k, v)\<in>set al. \<not> exceeds k (oi_name_length out) \<and> \<not> exceeds v (oi_value_length out)"
  shows "(\<forall>k. length k \<le> CRM_MAX_ATTRIBUTE_NAME_LEN \<longrightarrow> crm_get_tenant_exact_attribute h (Some k) out s =
       Some (case map_of al k of None \<Rightarrow> (CRM_FAILURE, out) | Some v \<Rightarrow> (CRM_SUCCESS, attr_info (k, v)))) \<and>
    crm_get_tenant_first_attribute h (Some out) s =
      Some (case al of [] \<Rightarrow> (CRM_ERROR_ATTRIBUTE_NAME_NULL, Some out) | p # _ \<Rightarrow> (CRM_SUCCESS, Some (attr_info p))) \<and>
    (\<forall>ys k v zs. al = ys @ (k, v) # zs \<longrightarrow> crm_get_tenant_next_attribute h (Some k) (Some out) s =
      Some (case zs of [] \<Rightarrow> (CRM_ERROR_NO_MORE_ENTRIES, Some out) | p # _ \<Rightarrow> (CRM_SUCCESS, Some (attr_info p)))) \<and>
    (\<forall>k. k \<notin> fst ` set al \<longrightarrow> crm_get_tenant_next_attribute h (Some k) (Some out) s = Some (CRM_ERROR_INVALID_NAME, Some out))"
proof -
  obtain n where at: "tenant_at t h = Some n" and v: "abs_tenant s L n = (nm, al, vs, c)" using h by (auto simp: crm_abs_def)
  note n = tenant_at_node(1)[OF inv at]
  note ok = attrs_of_tenant[OF inv n]
  have byh: "get_tenant_byhandle h s = Some (CRM_SUCCESS, Some n)"
    using byhandle_ok[OF inv tenant_at_node(2)[OF inv at]] at by simp
  have al: "al = alist_of (cr_attrs s) (L (Attrs n))" using v by (simp add: abs_tenant_def)
  have out: "output_attr (cr_attrs s a) out = (CRM_SUCCESS, attr_info (ra_name (cr_attrs s a), ra_value (cr_attrs s a)))"
    if "a \<in> set (L (Attrs n))" for a
  proof -
    have "(ra_name (cr_attrs s a), ra_value (cr_attrs s a)) \<in> set al" using that by (auto simp: al alist_of_def)
    then show ?thesis using big by (auto simp: output_attr_def attr_info_def copy_attr_def)
  qed
  show ?thesis
  proof (intro conjI allI impI)
    show "crm_get_tenant_exact_attribute h (Some k) out s =
       Some (case map_of al k of None \<Rightarrow> (CRM_FAILURE, out) | Some v \<Rightarrow> (CRM_SUCCESS, attr_info (k, v)))"
      if "length k \<le> CRM_MAX_ATTRIBUTE_NAME_LEN" for k
      using that byh get_exact_ok[OF ok, of k out]
      by (auto simp: crm_get_tenant_exact_attribute_def al attr_info_def copy_attr_def split: option.splits)
    show "crm_get_tenant_first_attribute h (Some out) s =
      Some (case al of [] \<Rightarrow> (CRM_ERROR_ATTRIBUTE_NAME_NULL, Some out) | p # _ \<Rightarrow> (CRM_SUCCESS, Some (attr_info p)))"
      using byh get_first_ok[OF ok, of out] out
      by (cases "L (Attrs n)") (simp_all add: crm_get_tenant_first_attribute_def al)
    show "crm_get_tenant_next_attribute h (Some k) (Some out) s =
      Some (case zs of [] \<Rightarrow> (CRM_ERROR_NO_MORE_ENTRIES, Some out) | p # _ \<Rightarrow> (CRM_SUCCESS, Some (attr_info p)))"
      if sp: "al = ys @ (k, v) # zs" for ys k v zs
    proof -
      obtain as a bs where L: "L (Attrs n) = as @ a # bs" "(k, v) = (ra_name (cr_attrs s a), ra_value (cr_attrs s a))"
        "zs = alist_of (cr_attrs s) bs"
        using sp unfolding al alist_of_def by (auto simp: map_eq_append_conv map_eq_Cons_conv)
      then show ?thesis using byh get_next_ok[OF ok, of k out] out
        by (cases bs) (simp_all add: crm_get_tenant_next_attribute_def)
    qed
    show "crm_get_tenant_next_attribute h (Some k) (Some out) s = Some (CRM_ERROR_INVALID_NAME, Some out)"
      if "k \<notin> fst ` set al" for k
      using that byh get_next_ok[OF ok, of k out] by (simp add: crm_get_tenant_next_attribute_def al)
  qed
qed

theorem crm_attribute_queries_witness:
  "\<exists>i t. demo_tab i t \<and> crm_get_tenant_exact_attribute (handle_of 1 i) (Some ''x'')
       \<lparr>oi_name_string = [], oi_name_length = 10, oi_value_string = [], oi_value_length = 10\<rparr> (demo_crm i t) =
     Some (CRM_SUCCESS, attr_info (''x'', ''1''))"
proof -
  obtain i t where d: "demo_tab i t" using demo_tab_exists by blast
  note ok = demo_crm_ok[OF d]
  let ?o = "\<lparr>oi_name_string = [], oi_name_length = 10, oi_value_string = [], oi_value_length = 10\<rparr>"
  have h: "crm_abs (demo_crm i t) t demo_L (handle_of 1 i) = Some (''a'', [(''x'', ''1'')], [], 1)" using ok(3) by simp
  have "\<forall>(k, v)\<in>set [(''x'', ''1'')]. \<not> exceeds k (oi_name_length ?o) \<and> \<not> exceeds v (oi_value_length ?o)"
    by (simp add: exceeds_def)
  from conjunct1[OF crm_attribute_queries[OF ok(1) h this], rule_format, of "''x''"] show ?thesis
    using d by (intro exI[of _ i] exI[of _ t]) simp
qed

text \<open>The bucket computed for a name is a bucket of the table, and a handle is the pair of a magic number
  and an index: packing and unpacking are inverse to each other.\<close>

theorem crm_hash_and_handles:
  assumes "n \<noteq> 0"
  shows "unat (crm_get_hashval_byname s n) < unat n \<and> index_of (handle_of m i) = i \<and> magic_of (handle_of m i) = m \<and>
    handle_of (magic_of h) (index_of h) = h"
  using crm_hash_bound[OF assms] handle_eq by simp

theorem crm_hash_and_handles_witness:
  "unat (crm_get_hashval_byname ''tenant'' 0x65) < 101 \<and> handle_of (magic_of 0x500000007) (index_of 0x500000007) = 0x500000007"
  using crm_hash_and_handles[of "0x65 :: u32" "''tenant''" 0 0 "0x500000007"] by simp

end
