(* ===== verification/Channel_Data.thy ===== *)
theory Channel_Data
  imports Mchash
begin

text \<open>
  The connections of switches to the controller: the data of \<^verbatim>\<open>transport/base\<close>. A channel is one
  connection; a datapath has one main channel and a circular list of auxiliary ones. A channel is a
  node of the connection table of its transport, a safe-reference hash table. Bytes arrive over the
  TCP plugin. Calls into epoll, the timers and the datapath manager are recorded in a trace; their
  results, where the code looks at them, are given by the environment. Logging is switched off.
\<close>

section \<open>Data\<close>

datatype xprt_proto_channel_state_e =
  STATE_INIT | STATE_WAIT_FOR_HANDSHAKE | STATE_BOUND_TO_DP | STATE_CLOSE_CONN

text \<open>The event of attaching a datapath has the number of the learn event.\<close>

datatype xprt_proto_channel_event_e =
  LEARN_EVENT | DP_DETACH_EVENT | READ_EVENT | WRITE_EVENT | READ_FAIL_EVENT | WRITE_FAIL_EVENT
| ERROR_EVENT | CLOSE_EVENT

abbreviation (input) DP_ATTACH_EVENT :: xprt_proto_channel_event_e where "DP_ATTACH_EVENT \<equiv> LEARN_EVENT"

text \<open>The states of the message being read; a zeroed channel is in none of them.\<close>

datatype chn_msg_state =
  CHN_ZERO | CHN_WAITING_FOR_NEW_MSG | CHN_WAITING_FOR_MSG_HEADER | CHN_START_READING_MSG
| CHN_WAITING_FOR_COMPLETE_MSG | CHN_RCVD_COMPLETE_MSG | CHN_DRAIN_OUT_COMPLETE_MSG

abbreviation (input) OF_TRNSPRT_MAIN_CONN_ID :: u8 where "OF_TRNSPRT_MAIN_CONN_ID \<equiv> 0"
abbreviation (input) KEEP_ALIVE_NOT_READY :: u8 where "KEEP_ALIVE_NOT_READY \<equiv> 0"
abbreviation (input) KEEP_ALIVE_MSG_READY_TO_SEND :: u8 where "KEEP_ALIVE_MSG_READY_TO_SEND \<equiv> 1"
abbreviation (input) KEEP_ALIVE_MSG_SENT :: u8 where "KEEP_ALIVE_MSG_SENT \<equiv> 2"
abbreviation (input) CHN_SENT_HELLO_TO_DP :: int where "CHN_SENT_HELLO_TO_DP \<equiv> 0"
abbreviation (input) CHN_CONN_REQ_HANDSHAKE_WITH_DP :: int where "CHN_CONN_REQ_HANDSHAKE_WITH_DP \<equiv> 2"
abbreviation (input) CHN_CONN_ESTBD :: int where "CHN_CONN_ESTBD \<equiv> 3"
abbreviation (input) CHN_HANDSHAKE_WITH_DP_DONE :: int where "CHN_HANDSHAKE_WITH_DP_DONE \<equiv> 4"
abbreviation (input) CHN_CLOSE_INITIATED :: int where "CHN_CLOSE_INITIATED \<equiv> 5"
abbreviation (input) CHN_CONN_CLOSED :: int where "CHN_CONN_CLOSED \<equiv> 7"
abbreviation (input) FD_TYPE_DEDICATED :: u8 where "FD_TYPE_DEDICATED \<equiv> 2"
abbreviation (input) FD_TYPE_SHARED_AND_DEDICATED :: u8 where "FD_TYPE_SHARED_AND_DEDICATED \<equiv> 3"
abbreviation (input) CNTLR_TRANSPORT_TYPE_UDP :: u8 where "CNTLR_TRANSPORT_TYPE_UDP \<equiv> 4"
abbreviation (input) CNTLR_CONN_READ_SUCCESS :: int where "CNTLR_CONN_READ_SUCCESS \<equiv> 0"
abbreviation (input) CNTLR_CONN_READ_ERROR :: int where "CNTLR_CONN_READ_ERROR \<equiv> -1"
abbreviation (input) CNTLR_CONN_NO_DATA :: int where "CNTLR_CONN_NO_DATA \<equiv> 1"
abbreviation (input) OF_FAILURE_DP_INVALID :: int where "OF_FAILURE_DP_INVALID \<equiv> -11"
abbreviation (input) OFPT_HELLO :: u8 where "OFPT_HELLO \<equiv> 0"
abbreviation (input) OFPT_FEATURES_REQUEST :: u8 where "OFPT_FEATURES_REQUEST \<equiv> 5"
abbreviation (input) OFPT_FEATURES_REPLY :: u8 where "OFPT_FEATURES_REPLY \<equiv> 6"
abbreviation (input) OFP_VERSION :: u8 where "OFP_VERSION \<equiv> 4"

text \<open>A message buffer: the bytes from \<^verbatim>\<open>start_of_data\<close> to the end of the block, and \<^verbatim>\<open>ptr1\<close> as an
  offset into them.\<close>

record of_msg =
  om_data :: "u8 list"
  om_ptr1 :: nat
  om_length1 :: u16
  om_data_len :: u16

record cntlr_channel_info =
  ch_trnsprt_info :: addr
  ch_auxiliary_id :: u8
  ch_thread :: ptr
  ch_msg_q_box :: ptr
  ch_trnsprt_type :: u8
  ch_trnsprt_fd :: int
  ch_keep_alive_state :: u8
  ch_state :: int
  ch_fsm_state :: xprt_proto_channel_state_e
  ch_fsm_event :: xprt_proto_channel_event_e
  ch_msg_state :: chn_msg_state
  ch_msg_hdr :: "u8 list"
  ch_hdr_len_read :: u8
  ch_msg_len_read :: u8
  ch_msg_buf :: "of_msg option"
  ch_is_chn_added_to_dp :: bool
  ch_is_chn_added_2_hash_tbl :: bool
  ch_safe_ref :: "(u32 \<times> u32) option"
  ch_dp_handle :: u64
  ch_datapath :: ptr
  ch_recv_bytes :: u64
  ch_tx_bytes :: u64
  ch_drain_out_bytes :: u32
  ch_uiKeepAliveCount :: u32
  ch_conn_spec_info :: ptr

record cntlr_trnsprt_info =
  xi_fd_type :: u8
  xi_connection_tbl :: addr

record dprm_dp_channel_entry =
  ce_next :: ptr
  ce_prev :: ptr
  ce_auxiliary_id :: u32
  ce_dp_handle :: u64
  ce_datapath :: ptr
  ce_conn_table :: ptr
  ce_conn_safe_ref :: "u32 \<times> u32"

text \<open>The part of \<^verbatim>\<open>struct dprm_datapath_entry\<close> about channels.\<close>

record dprm_datapath_entry =
  dp_datapath_handle :: u64
  dp_no_of_buffers :: u32
  dp_no_of_tables :: u8
  dp_capabilities :: u32
  dp_is_main_conn_present :: bool
  dp_main_channel :: dprm_dp_channel_entry
  dp_curr_no_of_aux_chanels :: u8
  dp_aux_channels :: ptr
  dp_aux_chn_tail :: ptr
  dp_curr_chn_used_2_q_msg :: ptr
  dp_is_dp_active :: bool

text \<open>A list entry zeroed by \<^verbatim>\<open>calloc\<close> or \<^verbatim>\<open>memset\<close>.\<close>

definition zero_entry :: dprm_dp_channel_entry where
  "zero_entry = \<lparr>ce_next = None, ce_prev = None, ce_auxiliary_id = 0, ce_dp_handle = 0, ce_datapath = None,
     ce_conn_table = None, ce_conn_safe_ref = (0, 0)\<rparr>"

record of_conn_properties =
  cp_trnsprt_type :: u8
  cp_trnsprt_fd :: int
  cp_conn_spec_info :: ptr

section \<open>State and environment\<close>

text \<open>What the successive \<^verbatim>\<open>recv\<close> calls on a connection find; when nothing is left, no data is there.\<close>

datatype rx_event = Rx "u8 list" | Rx_again | Rx_error | Rx_reset

datatype epoll_handler = Handle_handshake | Handle_dp_msg | Handle_ctrl_thread_msgs

datatype chan_call =
  Epoll_add ptr int epoll_handler | Epoll_del ptr int | Epoll_modify int bool
| Timer_start addr | Resp_timer_start addr | Stop_resp_timer addr | Stop_timer addr
| Inform_detach addr | Detach_handler u64
| Transport_close int | Transport_write int "u8 list"
| Free_msg of_msg | Channel_closed addr | Send_echo addr
| Configure_switch u64 | Send_desc_requests u64 | Get_async_cfg u64

text \<open>Freed list entries are absent from \<open>cs_ent\<close>.\<close>

record chan_sys =
  cs_chan :: "addr \<Rightarrow> cntlr_channel_info"
  cs_info :: "addr \<Rightarrow> cntlr_trnsprt_info"
  cs_dp :: "addr \<Rightarrow> dprm_datapath_entry"
  cs_ent :: "addr \<Rightarrow> dprm_dp_channel_entry option"
  cs_tbl :: "addr \<Rightarrow> mchash_table"
  cs_rx :: "addr \<Rightarrow> rx_event list"
  invalid_channel_state_g :: int
  cs_calls :: "chan_call list"
  curr_thrd_2_which_ch_assnd :: u32

text \<open>The environment: the byte order of the host, the results of closing and of adding to epoll by file
  descriptor, of a write, of starting a timer; for a new channel the thread table, the message box and
  its loopback socket, the hash of the peer and the block for the safe reference; for a features reply
  the garbage on the stack, the datapath table, the block for a list entry and the results of the calls
  that configure a switch; the result of queueing an echo request.\<close>

record chan_env =
  en_little_endian :: bool
  en_close_ok :: "int \<Rightarrow> bool"
  en_epoll_ok :: "int \<Rightarrow> bool"
  en_write :: "nat \<Rightarrow> bool \<times> u16 \<times> bool"
  en_alloc_msg :: bool
  en_timer_ok :: bool
  en_number_of_threads :: u32
  en_thread :: "u32 \<Rightarrow> ptr"
  en_box :: "(addr \<times> int) option"
  en_hash :: "u32 option"
  en_ref_block :: bool
  en_stack :: "u8 list"
  en_dp_handle :: "u64 \<Rightarrow> u64 option"
  en_first_dp :: bool
  en_dp_byhandle :: "u64 \<Rightarrow> ptr"
  en_new_entry :: ptr
  en_tables_ok :: bool
  en_configure_ok :: bool
  en_async_ok :: bool
  en_send_ok :: bool

section \<open>Access\<close>

definition upd_ch :: "addr \<Rightarrow> (cntlr_channel_info \<Rightarrow> cntlr_channel_info) \<Rightarrow> chan_sys \<Rightarrow> chan_sys" where
  "upd_ch c f s = s\<lparr>cs_chan := (cs_chan s)(c := f (cs_chan s c))\<rparr>"

definition upd_dp :: "addr \<Rightarrow> (dprm_datapath_entry \<Rightarrow> dprm_datapath_entry) \<Rightarrow> chan_sys \<Rightarrow> chan_sys" where
  "upd_dp p f s = s\<lparr>cs_dp := (cs_dp s)(p := f (cs_dp s p))\<rparr>"

definition call :: "chan_call \<Rightarrow> chan_sys \<Rightarrow> chan_sys" where
  "call x s = s\<lparr>cs_calls := cs_calls s @ [x]\<rparr>"

definition set_event :: "addr \<Rightarrow> xprt_proto_channel_event_e \<Rightarrow> chan_sys \<Rightarrow> chan_sys" where
  "set_event c ev = upd_ch c (ch_fsm_event_update (\<lambda>_. ev))"

definition set_state :: "addr \<Rightarrow> xprt_proto_channel_state_e \<Rightarrow> chan_sys \<Rightarrow> chan_sys" where
  "set_state c st = upd_ch c (ch_fsm_state_update (\<lambda>_. st))"

definition OF_TRNSPRT_CHN_RESET_2_READ_NEW_MSG :: "addr \<Rightarrow> chan_sys \<Rightarrow> chan_sys" where
  "OF_TRNSPRT_CHN_RESET_2_READ_NEW_MSG c = upd_ch c (\<lambda>x. x\<lparr>ch_msg_buf := None,
     ch_msg_state := CHN_WAITING_FOR_NEW_MSG, ch_hdr_len_read := 0\<rparr>)"

text \<open>The length of a header in network order, and as the host reads the two bytes.\<close>

definition u16_of :: "u8 \<Rightarrow> u8 \<Rightarrow> u16" where
  "u16_of hi lo = push_bit 8 (ucast hi) OR ucast lo"

definition ntohs_length :: "u8 list \<Rightarrow> u16" where
  "ntohs_length h = u16_of (h ! 2) (h ! 3)"

definition host_length :: "chan_env \<Rightarrow> u8 list \<Rightarrow> u16" where
  "host_length e h = (if en_little_endian e then u16_of (h ! 3) (h ! 2) else u16_of (h ! 2) (h ! 3))"

section \<open>The TCP plugin\<close>

text \<open>The code, the bytes written to the buffer (as many as \<^verbatim>\<open>*len_read\<close> says) and
  \<^verbatim>\<open>peer_closed_conn\<close>. A length of 0 leaves \<^verbatim>\<open>*len_read\<close> alone.\<close>

definition tcp_transport_read_data :: "addr \<Rightarrow> u16 \<Rightarrow> chan_sys \<Rightarrow> int \<times> u8 list \<times> bool \<times> chan_sys" where
  "tcp_transport_read_data c n s =
    (if n = 0 then (CNTLR_CONN_READ_SUCCESS, [], False, s)
     else case cs_rx s c of
       [] \<Rightarrow> (CNTLR_CONN_NO_DATA, [], False, s)
     | Rx bs # r \<Rightarrow>
         if bs = [] then (CNTLR_CONN_READ_ERROR, [], True, s\<lparr>cs_rx := (cs_rx s)(c := r)\<rparr>)
         else if length bs \<le> unat n then (CNTLR_CONN_READ_SUCCESS, bs, False, s\<lparr>cs_rx := (cs_rx s)(c := r)\<rparr>)
         else (CNTLR_CONN_READ_SUCCESS, take (unat n) bs, False,
               s\<lparr>cs_rx := (cs_rx s)(c := Rx (drop (unat n) bs) # r)\<rparr>)
     | Rx_again # r \<Rightarrow> (CNTLR_CONN_NO_DATA, [], False, s\<lparr>cs_rx := (cs_rx s)(c := r)\<rparr>)
     | Rx_error # r \<Rightarrow> (CNTLR_CONN_READ_ERROR, [], False, s\<lparr>cs_rx := (cs_rx s)(c := r)\<rparr>)
     | Rx_reset # r \<Rightarrow> (CNTLR_CONN_READ_ERROR, [], True, s\<lparr>cs_rx := (cs_rx s)(c := r)\<rparr>))"

text \<open>Overwriting bytes at an offset; beyond the end of the buffer it is undefined.\<close>

definition write_at :: "nat \<Rightarrow> u8 list \<Rightarrow> u8 list \<Rightarrow> u8 list option" where
  "write_at p bs buf = (if p + length bs \<le> length buf
     then Some (take p buf @ bs @ drop (p + length bs) buf) else None)"

section \<open>A concrete system\<close>

text \<open>One channel per address, all of a transport whose connection table has the address 0, and one
  datapath per address without auxiliary channels.\<close>

definition demo_channel :: cntlr_channel_info where
  "demo_channel = \<lparr>ch_trnsprt_info = 0, ch_auxiliary_id = 0, ch_thread = Some 1, ch_msg_q_box = None, ch_trnsprt_type = 2,
     ch_trnsprt_fd = 5, ch_keep_alive_state = 0, ch_state = CHN_CONN_ESTBD, ch_fsm_state = STATE_WAIT_FOR_HANDSHAKE,
     ch_fsm_event = READ_EVENT, ch_msg_state = CHN_WAITING_FOR_NEW_MSG, ch_msg_hdr = replicate 8 0, ch_hdr_len_read = 0,
     ch_msg_len_read = 0, ch_msg_buf = None, ch_is_chn_added_to_dp = False, ch_is_chn_added_2_hash_tbl = False,
     ch_safe_ref = None, ch_dp_handle = 0, ch_datapath = None, ch_recv_bytes = 0, ch_tx_bytes = 0,
     ch_drain_out_bytes = 0, ch_uiKeepAliveCount = 0, ch_conn_spec_info = None\<rparr>"

definition demo_chan_sys :: chan_sys where
  "demo_chan_sys = \<lparr>cs_chan = (\<lambda>_. demo_channel),
     cs_info = (\<lambda>_. \<lparr>xi_fd_type = FD_TYPE_SHARED_AND_DEDICATED, xi_connection_tbl = 0\<rparr>),
     cs_dp = (\<lambda>_. \<lparr>dp_datapath_handle = 7, dp_no_of_buffers = 0, dp_no_of_tables = 0,
       dp_capabilities = 0, dp_is_main_conn_present = False,
       dp_main_channel = zero_entry, dp_curr_no_of_aux_chanels = 0, dp_aux_channels = None, dp_aux_chn_tail = None,
       dp_curr_chn_used_2_q_msg = None, dp_is_dp_active = False\<rparr>),
     cs_ent = (\<lambda>_. None), cs_tbl = (\<lambda>_. demo_table), cs_rx = (\<lambda>_. []), invalid_channel_state_g = 0,
     cs_calls = [], curr_thrd_2_which_ch_assnd = 0\<rparr>"

definition demo_chan_env :: "bool \<Rightarrow> chan_env" where
  "demo_chan_env le = \<lparr>en_little_endian = le, en_close_ok = (\<lambda>_. True), en_epoll_ok = (\<lambda>_. True),
     en_write = (\<lambda>_. (True, 8, False)), en_alloc_msg = True, en_timer_ok = True, en_number_of_threads = 2,
     en_thread = (\<lambda>t. Some (unat t)), en_box = Some (9, 3), en_hash = Some 1, en_ref_block = True,
     en_stack = replicate 24 0, en_dp_handle = (\<lambda>_. Some 7), en_first_dp = True, en_dp_byhandle = (\<lambda>_. Some 1),
     en_new_entry = Some 2, en_tables_ok = True, en_configure_ok = True, en_async_ok = True,
     en_send_ok = True\<rparr>"

end
