(* ===== verification/Channel_Fsm.thy ===== *)
theory Channel_Fsm
  imports Channel_Data
begin

text \<open>
  The state machine of a channel (\<^verbatim>\<open>transport/base/channel_fsm.c\<close>) with the creation and release of a
  channel (\<^verbatim>\<open>trnsprt_channel.c\<close>) and the draining of a message that is given up
  (\<^verbatim>\<open>of_cntlr_msg.c\<close>). A handler can run the state machine again through the handler table: handlers
  get the dispatcher as an argument, and \<open>dispatch k\<close> is the dispatcher with at most \<open>k\<close> nested calls.
  Four are enough.
\<close>

type_synonym chan_fn = "addr \<Rightarrow> of_conn_properties option \<Rightarrow> chan_sys \<Rightarrow> (int \<times> chan_sys) option"

text \<open>Setting the event and running its handler for the present state.\<close>

definition fire :: "chan_fn \<Rightarrow> xprt_proto_channel_event_e \<Rightarrow> addr \<Rightarrow> chan_sys \<Rightarrow> (int \<times> chan_sys) option" where
  "fire d ev c s = d c None (set_event c ev s)"

section \<open>Messages from and to the switch\<close>

text \<open>The status and the bytes read, as many as \<^verbatim>\<open>*len_read\<close> says.\<close>

definition fsm_xprt_proto_channel_read_msg_from_dp ::
  "chan_env \<Rightarrow> chan_fn \<Rightarrow> addr \<Rightarrow> u16 \<Rightarrow> chan_sys \<Rightarrow> (int \<times> u8 list \<times> chan_sys) option" where
  "fsm_xprt_proto_channel_read_msg_from_dp e d c n s =
    (let (ret, bs, closed, s1) = tcp_transport_read_data c n s in
     if ret \<noteq> CNTLR_CONN_READ_SUCCESS then
       let s2 = upd_ch c (ch_msg_state_update (\<lambda>_. CHN_DRAIN_OUT_COMPLETE_MSG)) s1 in
       if \<not> closed \<and> ch_fsm_event (cs_chan s2 c) = READ_FAIL_EVENT then Some (OF_FAILURE, [], s2)
       else let ev = (if closed then CLOSE_EVENT else READ_FAIL_EVENT);
                s3 = upd_ch c (\<lambda>x. x\<lparr>ch_drain_out_bytes := ucast (host_length e (ch_msg_hdr x)) - 8\<rparr>) s2
            in Option.bind (fire d ev c s3) (\<lambda>(_, s4). Some (OF_FAILURE, [], s4))
     else Some (OF_SUCCESS, bs, upd_ch c (\<lambda>x. x\<lparr>ch_recv_bytes := ch_recv_bytes x + of_nat (length bs)\<rparr>) s1))"

text \<open>Draining reads at most 256 bytes at a time. \<open>left\<close> is \<^verbatim>\<open>bytes_to_read\<close>. A read of a positive
  length that succeeds brings at least one byte, so \<open>left\<close> rounds are enough.\<close>

abbreviation (input) DRAIN_OUT_LENGTH :: int where "DRAIN_OUT_LENGTH \<equiv> 256"

fun drain_loop :: "chan_env \<Rightarrow> chan_fn \<Rightarrow> addr \<Rightarrow> nat \<Rightarrow> int \<Rightarrow> chan_sys \<Rightarrow> (int \<times> chan_sys) option" where
  "drain_loop e d c rounds left s =
    (if left \<le> 0 then Some (OF_SUCCESS, s)
     else case rounds of 0 \<Rightarrow> None
     | Suc r \<Rightarrow>
       Option.bind (fsm_xprt_proto_channel_read_msg_from_dp e d c (of_int (min left DRAIN_OUT_LENGTH)) s) (\<lambda>(ret, bs, s1).
         if ret = CNTLR_CONN_NO_DATA then
           Some (OF_FAILURE, upd_ch c (ch_drain_out_bytes_update (\<lambda>_. of_int left)) s1)
         else if ret = OF_FAILURE then
           Some (OF_FAILURE, upd_ch c (\<lambda>x. x\<lparr>ch_msg_state := CHN_WAITING_FOR_NEW_MSG, ch_drain_out_bytes := 0\<rparr>) s1)
         else let left' = left - int (length bs);
                  s2 = (if left' = 0
                        then upd_ch c (\<lambda>x. x\<lparr>ch_msg_state := CHN_WAITING_FOR_NEW_MSG, ch_drain_out_bytes := 0\<rparr>) s1
                        else s1)
              in drain_loop e d c r left' s2))"

declare drain_loop.simps [simp del]

definition of_drain_out_socket_buf :: "chan_env \<Rightarrow> chan_fn \<Rightarrow> addr \<Rightarrow> u16 \<Rightarrow> chan_sys \<Rightarrow> (int \<times> chan_sys) option" where
  "of_drain_out_socket_buf e d c n s = drain_loop e d c (unat n) (uint n) s"

text \<open>The write of \<^verbatim>\<open>msg\<close> from the offset \<open>sent\<close>; the result of the plugin depends on the number of calls
  made so far. The outcome is the status and \<^verbatim>\<open>*len_sent_currently\<close>.\<close>

definition fsm_xprt_proto_channel_write_msg_to_dp ::
  "chan_env \<Rightarrow> chan_fn \<Rightarrow> addr \<Rightarrow> u8 list \<Rightarrow> nat \<Rightarrow> chan_sys \<Rightarrow> (int \<times> u16 \<times> chan_sys) option" where
  "fsm_xprt_proto_channel_write_msg_to_dp e d c msg sent s =
    (if ch_trnsprt_fd (cs_chan s c) = -1 then Some (OF_FAILURE, 0, s)
     else let (ok, n, closed) = en_write e (length (cs_calls s));
              s1 = call (Transport_write (ch_trnsprt_fd (cs_chan s c)) (drop sent msg)) s
          in if \<not> ok then
               Option.bind (if closed
                   then Option.bind (fire d DP_DETACH_EVENT c s1) (\<lambda>(_, s2). fire d CLOSE_EVENT c s2)
                   else fire d WRITE_FAIL_EVENT c s1)
                 (\<lambda>(_, s3). Some (OF_FAILURE, n, s3))
             else Some (OF_SUCCESS, n, upd_ch c (\<lambda>x. x\<lparr>ch_tx_bytes := ch_tx_bytes x + ucast n\<rparr>) s1))"

text \<open>The handshake and hello messages: a header in network order without a body.\<close>

definition header_msg :: "u8 \<Rightarrow> u8 list" where
  "header_msg t = [OFP_VERSION, t, 0, 8, 0, 0, 0, 0]"

definition cntlr_trnsprt_send_handshake_msg :: "chan_env \<Rightarrow> chan_fn \<Rightarrow> addr \<Rightarrow> chan_sys \<Rightarrow> (int \<times> chan_sys) option" where
  "cntlr_trnsprt_send_handshake_msg e d c s =
    (if \<not> en_alloc_msg e then Some (OF_FAILURE, s)
     else Option.bind (fsm_xprt_proto_channel_write_msg_to_dp e d c (header_msg OFPT_FEATURES_REQUEST) 0 s)
       (\<lambda>(r, _, s1). Some (if r = OF_FAILURE then OF_FAILURE else OF_SUCCESS, s1)))"

definition cntlr_trnsprt_send_hello_msg :: "chan_env \<Rightarrow> chan_fn \<Rightarrow> addr \<Rightarrow> chan_sys \<Rightarrow> (int \<times> chan_sys) option" where
  "cntlr_trnsprt_send_hello_msg e d c s =
    (if \<not> en_alloc_msg e then Some (OF_FAILURE, s)
     else Option.bind (fsm_xprt_proto_channel_write_msg_to_dp e d c (header_msg OFPT_HELLO) 0 s)
       (\<lambda>(r, _, s1). Some (if r = OF_FAILURE then OF_FAILURE else OF_SUCCESS, s1)))"

section \<open>Events from outside\<close>

definition fsm_send_channel_event :: "chan_fn \<Rightarrow> addr \<Rightarrow> xprt_proto_channel_event_e \<Rightarrow> chan_sys \<Rightarrow> chan_sys option" where
  "fsm_send_channel_event d c ev s =
    Option.bind (fire d ev c s) (\<lambda>(_, s1).
      Some (if ev = DP_DETACH_EVENT then set_state c STATE_WAIT_FOR_HANDSHAKE s1 else s1))"

definition fsm_update_channel_state :: "chan_fn \<Rightarrow> addr \<Rightarrow> xprt_proto_channel_state_e \<Rightarrow> chan_sys \<Rightarrow> chan_sys option" where
  "fsm_update_channel_state d c st s =
    (let s0 = set_state c st s in
     case st of
       STATE_BOUND_TO_DP \<Rightarrow> Option.bind (fire d LEARN_EVENT c s0) (\<lambda>(_, s1). Some s1)
     | STATE_CLOSE_CONN \<Rightarrow> Option.bind (fire d CLOSE_EVENT c s0) (\<lambda>(_, s1). Some (set_state c STATE_CLOSE_CONN s1))
     | _ \<Rightarrow> Some s0)"

section \<open>Creation and release of a channel\<close>

text \<open>The call runs from the grace period of the connection table. The message buffer pointer is not
  reset; the blocks of the safe reference and of the channel return to their pools.\<close>

definition cntlr_trnsprt_conn_close :: "addr \<Rightarrow> chan_sys \<Rightarrow> chan_sys" where
  "cntlr_trnsprt_conn_close c s =
    (let s1 = upd_ch c (ch_msg_q_box_update (\<lambda>_. None)) s;
         s2 = (case ch_msg_buf (cs_chan s1 c) of None \<Rightarrow> s1 | Some m \<Rightarrow> call (Free_msg m) s1)
     in call (Channel_closed c) (upd_ch c (ch_state_update (\<lambda>_. CHN_CONN_CLOSED)) s2))"

text \<open>The thread of a new channel: the next one in turn, numbered from 1.\<close>

definition next_thread :: "chan_env \<Rightarrow> u8 \<Rightarrow> chan_sys \<Rightarrow> (u32 \<times> chan_sys) option" where
  "next_thread e t s =
    (if t = CNTLR_TRANSPORT_TYPE_UDP then Some (1, s)
     else if en_number_of_threads e = 0 then None
     else let k = curr_thrd_2_which_ch_assnd s + 1; i = k mod en_number_of_threads e
          in Some (if i \<noteq> 0 then i else en_number_of_threads e, s\<lparr>curr_thrd_2_which_ch_assnd := k\<rparr>))"

definition reset_channel :: "of_conn_properties \<Rightarrow> cntlr_channel_info \<Rightarrow> cntlr_channel_info" where
  "reset_channel p x = x\<lparr>ch_is_chn_added_to_dp := False, ch_trnsprt_type := cp_trnsprt_type p,
     ch_conn_spec_info := cp_conn_spec_info p, ch_trnsprt_fd := cp_trnsprt_fd p, ch_auxiliary_id := 0, ch_state := -1\<rparr>"

text \<open>Without the load balancing of UDP. The first part prepares the channel and finds its thread, the
  second one enters it into the connection table; a failure of either releases the channel.\<close>

definition channel_setup :: "chan_env \<Rightarrow> chan_fn \<Rightarrow> addr \<Rightarrow> of_conn_properties \<Rightarrow> chan_sys \<Rightarrow> (bool \<times> chan_sys) option" where
  "channel_setup e d c p s =
    Option.bind (fsm_update_channel_state d c STATE_INIT (upd_ch c (reset_channel p) s)) (\<lambda>s1.
      let s2 = upd_ch c (ch_keep_alive_state_update (\<lambda>_. KEEP_ALIVE_NOT_READY)) (OF_TRNSPRT_CHN_RESET_2_READ_NEW_MSG c s1)
      in Option.bind (next_thread e (cp_trnsprt_type p) s2) (\<lambda>(t, s3).
        let s4 = upd_ch c (ch_thread_update (\<lambda>_. en_thread e t)) s3 in
        if en_thread e t = None then Some (False, s4)
        else case en_box e of None \<Rightarrow> Some (False, upd_ch c (ch_msg_q_box_update (\<lambda>_. None)) s4)
        | Some (b, fd) \<Rightarrow>
            Some (en_epoll_ok e fd, call (Epoll_add (en_thread e t) fd Handle_ctrl_thread_msgs)
              (upd_ch c (ch_msg_q_box_update (\<lambda>_. Some b)) s4))))"

definition channel_enter :: "chan_env \<Rightarrow> addr \<Rightarrow> chan_sys \<Rightarrow> (bool \<times> chan_sys) option" where
  "channel_enter e c s =
    (case en_hash e of None \<Rightarrow> Some (False, s)
     | Some hash \<Rightarrow>
       if \<not> en_ref_block e then Some (False, s)
       else let tb = xi_connection_tbl (cs_info s (ch_trnsprt_info (cs_chan s c))) in
         Option.bind (MCHASH_APPEND_NODE hash c (cs_tbl s tb)) (\<lambda>(ref, t').
           let s1 = s\<lparr>cs_tbl := (cs_tbl s)(tb := t')\<rparr> in
           case ref of
             None \<Rightarrow> Some (False, upd_ch c (ch_safe_ref_update (\<lambda>_. Some (0, 0))) s1)
           | Some r \<Rightarrow> Some (True, upd_ch c (\<lambda>x. x\<lparr>ch_safe_ref := Some r,
               ch_is_chn_added_2_hash_tbl := True, ch_state := CHN_CONN_ESTBD\<rparr>) s1)))"

definition cntlr_trnsprt_channel_init ::
  "chan_env \<Rightarrow> chan_fn \<Rightarrow> addr \<Rightarrow> of_conn_properties \<Rightarrow> chan_sys \<Rightarrow> (int \<times> chan_sys) option" where
  "cntlr_trnsprt_channel_init e d c p s =
    Option.bind (channel_setup e d c p s) (\<lambda>(ok, s1).
      if \<not> ok then Some (OF_FAILURE, cntlr_trnsprt_conn_close c s1)
      else Option.bind (channel_enter e c s1) (\<lambda>(ok2, s2).
        if \<not> ok2 then Some (OF_FAILURE, cntlr_trnsprt_conn_close c s2) else Some (OF_SUCCESS, s2)))"

section \<open>Handlers that do not run the state machine\<close>

definition has_own_fd :: "addr \<Rightarrow> chan_sys \<Rightarrow> bool" where
  "has_own_fd c s \<longleftrightarrow> xi_fd_type (cs_info s (ch_trnsprt_info (cs_chan s c))) = FD_TYPE_SHARED_AND_DEDICATED \<or>
     xi_fd_type (cs_info s (ch_trnsprt_info (cs_chan s c))) = FD_TYPE_DEDICATED"

definition fsm_xprt_proto_channel_learn :: "chan_env \<Rightarrow> chan_fn \<Rightarrow> chan_fn" where
  "fsm_xprt_proto_channel_learn e d c arg s =
    (case arg of None \<Rightarrow> None
     | Some p \<Rightarrow> Option.bind (cntlr_trnsprt_channel_init e d c p s) (\<lambda>(r, s1).
         if r = OF_FAILURE then Some (OF_FAILURE, s1)
         else let fd = ch_trnsprt_fd (cs_chan s1 c);
                  s2 = (if has_own_fd c s1
                        then call (Epoll_add (ch_thread (cs_chan s1 c)) fd Handle_handshake)
                               (set_state c STATE_WAIT_FOR_HANDSHAKE s1) else s1)
              in if has_own_fd c s1 \<and> \<not> en_epoll_ok e fd then Some (OF_FAILURE, s2)
              else let s3 = set_state c STATE_WAIT_FOR_HANDSHAKE s2 in
                if xi_fd_type (cs_info s3 (ch_trnsprt_info (cs_chan s3 c))) = FD_TYPE_SHARED_AND_DEDICATED then
                  Option.bind (cntlr_trnsprt_send_hello_msg e d c s3) (\<lambda>(r, s4).
                    if r = OF_FAILURE then Some (OF_FAILURE, s4)
                    else Some (OF_SUCCESS, upd_ch c (ch_state_update (\<lambda>_. CHN_SENT_HELLO_TO_DP)) s4))
                else Some (OF_SUCCESS, s3)))"

text \<open>The epoll context of the calling thread is \<^term>\<open>None\<close> in the trace.\<close>

definition fsm_xprt_proto_channel_learn_dp :: "chan_env \<Rightarrow> addr \<Rightarrow> chan_sys \<Rightarrow> (int \<times> chan_sys) option" where
  "fsm_xprt_proto_channel_learn_dp e c s =
    (let s1 = upd_ch c (\<lambda>x. x\<lparr>ch_is_chn_added_to_dp := True, ch_fsm_state := STATE_BOUND_TO_DP\<rparr>) s;
         fd = ch_trnsprt_fd (cs_chan s1 c)
     in if has_own_fd c s1
        then Some (if en_epoll_ok e fd then OF_SUCCESS else OF_FAILURE,
                   call (Epoll_add None fd Handle_dp_msg) (call (Epoll_del None fd) s1))
        else Some (OF_SUCCESS, s1))"

text \<open>Stopping the timers of a channel, which both kinds of channels do.\<close>

definition stop_timers :: "addr \<Rightarrow> chan_sys \<Rightarrow> chan_sys" where
  "stop_timers c s =
    (let k = ch_keep_alive_state (cs_chan s c);
         s1 = (if k = KEEP_ALIVE_MSG_SENT then call (Stop_resp_timer c) s else s)
     in if k \<ge> KEEP_ALIVE_MSG_READY_TO_SEND then call (Stop_timer c) s1 else s1)"

definition fsm_xprt_proto_channel_detach_dp :: "chan_env \<Rightarrow> addr \<Rightarrow> chan_sys \<Rightarrow> (int \<times> chan_sys) option" where
  "fsm_xprt_proto_channel_detach_dp e c s =
    (if \<not> ch_is_chn_added_to_dp (cs_chan s c) then Some (OF_SUCCESS, s)
     else let s1 = stop_timers c s in
       case ch_datapath (cs_chan s c) of None \<Rightarrow> None
       | Some p \<Rightarrow>
         let s2 = (if ch_auxiliary_id (cs_chan s c) = OF_TRNSPRT_MAIN_CONN_ID
                   then call (Detach_handler (dp_datapath_handle (cs_dp s1 p))) (call (Inform_detach p) s1) else s1);
             th = ch_thread (cs_chan s c); fd = ch_trnsprt_fd (cs_chan s c);
             main = (fd > 0 \<and> ch_auxiliary_id (cs_chan s c) = 0);
             s3 = (if has_own_fd c s2
                   then if main then call (Epoll_add th fd Handle_handshake) (call (Epoll_del th fd) s2)
                        else call (Epoll_del th fd) s2
                   else s2)
         in if has_own_fd c s2 \<and> main \<and> \<not> en_epoll_ok e fd then Some (OF_FAILURE, s3)
            else Some (OF_SUCCESS,
              upd_ch c (\<lambda>x. x\<lparr>ch_state := CHN_CONN_ESTBD, ch_datapath := None, ch_dp_handle := 0,
                   ch_is_chn_added_to_dp := False, ch_fsm_state := STATE_WAIT_FOR_HANDSHAKE\<rparr>)
                (upd_dp p (\<lambda>x. x\<lparr>dp_is_main_conn_present := False, dp_is_dp_active := False,
                   dp_main_channel := zero_entry\<rparr>) s3)))"

definition fsm_xprt_proto_channel_write :: "addr \<Rightarrow> chan_sys \<Rightarrow> (int \<times> chan_sys) option" where
  "fsm_xprt_proto_channel_write c s = Some (OF_SUCCESS, s)"

definition fsm_xprt_proto_channel_write_error :: "addr \<Rightarrow> chan_sys \<Rightarrow> (int \<times> chan_sys) option" where
  "fsm_xprt_proto_channel_write_error c s = Some (OF_SUCCESS, s)"

definition fsm_xprt_proto_channel_error :: "addr \<Rightarrow> chan_sys \<Rightarrow> (int \<times> chan_sys) option" where
  "fsm_xprt_proto_channel_error c s = Some (OF_SUCCESS, s)"

section \<open>Handlers that run the state machine\<close>

definition fsm_xprt_proto_channel_read_error :: "chan_env \<Rightarrow> chan_fn \<Rightarrow> addr \<Rightarrow> chan_sys \<Rightarrow> (int \<times> chan_sys) option" where
  "fsm_xprt_proto_channel_read_error e d c s =
    (if ch_msg_state (cs_chan s c) \<noteq> CHN_DRAIN_OUT_COMPLETE_MSG then Some (OF_SUCCESS, s)
     else Option.bind (of_drain_out_socket_buf e d c (ucast (ch_drain_out_bytes (cs_chan s c))) s)
       (\<lambda>(r, s1). Some (if r \<noteq> OF_SUCCESS then OF_FAILURE else OF_SUCCESS, s1)))"

definition xprt_proto_channel_close :: "chan_env \<Rightarrow> chan_fn \<Rightarrow> addr \<Rightarrow> chan_sys \<Rightarrow> (int \<times> chan_sys) option" where
  "xprt_proto_channel_close e d c s =
    Option.bind (fire d DP_DETACH_EVENT c s) (\<lambda>(_, s1).
      let fd = ch_trnsprt_fd (cs_chan s1 c); s2 = call (Transport_close fd) s1 in
      if \<not> en_close_ok e fd then Some (OF_FAILURE, s2)
      else let s3 = set_state c STATE_CLOSE_CONN s2; x = cs_chan s3 c in
        if ch_state x \<noteq> CHN_CLOSE_INITIATED \<and> ch_is_chn_added_2_hash_tbl x then
          (case ch_safe_ref x of None \<Rightarrow> None
           | Some (i, m) \<Rightarrow>
             let tb = xi_connection_tbl (cs_info s3 (ch_trnsprt_info x)) in
             Option.bind (MCHASH_DELETE_NODE_BY_REF i m (cs_tbl s3 tb)) (\<lambda>(_, t').
               Some (OF_SUCCESS, upd_ch c (\<lambda>x. x\<lparr>ch_is_chn_added_2_hash_tbl := False, ch_state := CHN_CLOSE_INITIATED\<rparr>)
                 (s3\<lparr>cs_tbl := (cs_tbl s3)(tb := t')\<rparr>))))
        else Some (OF_SUCCESS, s3))"

text \<open>Removing the last entry of the circular list of auxiliary channels of the datapath \<open>p\<close>.\<close>

definition free_aux_tail :: "addr \<Rightarrow> addr \<Rightarrow> chan_sys \<Rightarrow> chan_sys option" where
  "free_aux_tail p x s =
    Option.bind
      (if dp_aux_chn_tail (cs_dp s p) \<noteq> dp_aux_channels (cs_dp s p) then
         (case cs_ent s x of None \<Rightarrow> None
          | Some en \<Rightarrow> (case ce_prev en of None \<Rightarrow> None
            | Some y \<Rightarrow> (case cs_ent s y of None \<Rightarrow> None
              | Some ey \<Rightarrow> Some ((upd_dp p (dp_aux_chn_tail_update (\<lambda>_. Some y)) s)
                  \<lparr>cs_ent := (cs_ent s)(y := Some (ey\<lparr>ce_next := dp_aux_channels (cs_dp s p)\<rparr>))\<rparr>))))
       else Some s)
      (\<lambda>s1. case cs_ent s1 x of None \<Rightarrow> None
       | Some _ \<Rightarrow>
         let s2 = upd_dp p (\<lambda>q. q\<lparr>dp_curr_no_of_aux_chanels := dp_curr_no_of_aux_chanels q - 1\<rparr>)
                    (s1\<lparr>cs_ent := (cs_ent s1)(x := None)\<rparr>)
         in Some (if dp_curr_no_of_aux_chanels (cs_dp s2 p) = 0
              then upd_dp p (\<lambda>q. q\<lparr>dp_aux_channels := None, dp_aux_chn_tail := None\<rparr>) s2 else s2))"

text \<open>The loop over the auxiliary channels; the counter of the datapath decreases with every round, so
  it bounds the rounds. The flag says whether the loop was left by \<^verbatim>\<open>break\<close>.\<close>

fun close_aux_loop :: "chan_env \<Rightarrow> chan_fn \<Rightarrow> addr \<Rightarrow> nat \<Rightarrow> chan_sys \<Rightarrow> (bool \<times> chan_sys) option" where
  "close_aux_loop e d c rounds s =
    (case ch_datapath (cs_chan s c) of None \<Rightarrow> None
     | Some p \<Rightarrow>
       if dp_curr_no_of_aux_chanels (cs_dp s p) = 0 then Some (False, s)
       else (case rounds of 0 \<Rightarrow> None
       | Suc k \<Rightarrow> (case dp_aux_chn_tail (cs_dp s p) of None \<Rightarrow> None
         | Some x \<Rightarrow> (case cs_ent s x of None \<Rightarrow> None
           | Some en \<Rightarrow> (case ce_conn_table en of None \<Rightarrow> None
             | Some tb \<Rightarrow>
               Option.bind (MCHASH_ACCESS_NODE (fst (ce_conn_safe_ref en)) (snd (ce_conn_safe_ref en)) (cs_tbl s tb))
                 (\<lambda>r. case r of
                    Some (Some a) \<Rightarrow> Option.bind (xprt_proto_channel_close e d a s) (\<lambda>(ret, s1).
                      if ret \<noteq> OF_SUCCESS then Some (True, s1)
                      else (case ch_datapath (cs_chan s1 c) of None \<Rightarrow> None
                        | Some p1 \<Rightarrow> Option.bind (free_aux_tail p1 x s1) (close_aux_loop e d c k)))
                  | _ \<Rightarrow> Some (True, s)))))))"

declare close_aux_loop.simps [simp del]

definition fsm_xprt_proto_channel_close :: "chan_env \<Rightarrow> chan_fn \<Rightarrow> addr \<Rightarrow> chan_sys \<Rightarrow> (int \<times> chan_sys) option" where
  "fsm_xprt_proto_channel_close e d c s =
    Option.bind
      (if ch_auxiliary_id (cs_chan s c) = OF_TRNSPRT_MAIN_CONN_ID \<and> ch_is_chn_added_to_dp (cs_chan s c) then
         (case ch_datapath (cs_chan s c) of None \<Rightarrow> None
          | Some p \<Rightarrow> if dp_aux_channels (cs_dp s p) \<noteq> None
                       then close_aux_loop e d c (unat (dp_curr_no_of_aux_chanels (cs_dp s p))) s
                       else Some (False, s))
       else Some (False, s))
      (\<lambda>(broke, s1). Option.bind (xprt_proto_channel_close e d c s1) (\<lambda>(ret, s2).
         Some (if broke \<or> ret \<noteq> OF_SUCCESS then OF_FAILURE else OF_SUCCESS, s2)))"

section \<open>Reading a message\<close>

text \<open>A read error while the body of a message is not being read: the header states.\<close>

definition header_read_failed :: "chan_fn \<Rightarrow> addr \<Rightarrow> bool \<Rightarrow> bool \<Rightarrow> chan_sys \<Rightarrow> (int \<times> chan_sys) option" where
  "header_read_failed d c detach_first closed s =
    (let ev = (if closed then CLOSE_EVENT else READ_FAIL_EVENT) in
     Option.bind (if closed \<and> detach_first then fire d DP_DETACH_EVENT c s else Some (OF_SUCCESS, s))
       (\<lambda>(_, s1). Option.bind (fire d ev c s1) (\<lambda>(_, s2). Some (OF_FAILURE, s2))))"

definition read_new_msg :: "chan_fn \<Rightarrow> addr \<Rightarrow> chan_sys \<Rightarrow> (int \<times> chan_sys) option" where
  "read_new_msg d c s =
    (let (ret, bs, closed, s1) = tcp_transport_read_data c 8 s in
     if ret \<noteq> CNTLR_CONN_READ_SUCCESS then header_read_failed d c False closed s1
     else case write_at 0 bs (ch_msg_hdr (cs_chan s1 c)) of None \<Rightarrow> None
     | Some h \<Rightarrow>
       let s2 = upd_ch c (\<lambda>x. x\<lparr>ch_msg_hdr := h, ch_msg_len_read := 0, ch_hdr_len_read := of_nat (length bs)\<rparr>) s1
       in Some (OF_SUCCESS,
            if length bs = 8 then upd_ch c (\<lambda>x. x\<lparr>ch_msg_state := CHN_START_READING_MSG, ch_msg_buf := None\<rparr>) s2
            else upd_ch c (ch_msg_state_update (\<lambda>_. CHN_WAITING_FOR_MSG_HEADER)) s2))"

definition read_msg_header :: "chan_fn \<Rightarrow> addr \<Rightarrow> chan_sys \<Rightarrow> (int \<times> chan_sys) option" where
  "read_msg_header d c s =
    (let got = ch_hdr_len_read (cs_chan s c);
         (ret, bs, closed, s1) = tcp_transport_read_data c (8 - ucast got) s in
     if ret \<noteq> CNTLR_CONN_READ_SUCCESS then header_read_failed d c True closed s1
     else case write_at (unat got) bs (ch_msg_hdr (cs_chan s1 c)) of None \<Rightarrow> None
     | Some h \<Rightarrow>
       let s2 = upd_ch c (\<lambda>x. x\<lparr>ch_msg_hdr := h, ch_hdr_len_read := got + of_nat (length bs)\<rparr>) s1
       in Some (OF_SUCCESS,
            if length bs + unat got = 8
            then upd_ch c (\<lambda>x. x\<lparr>ch_msg_state := CHN_START_READING_MSG, ch_msg_buf := None\<rparr>) s2 else s2))"

text \<open>A read event in a state in which it is not expected; from the given count on the channel is
  closed.\<close>

definition invalid_channel_state :: "chan_fn \<Rightarrow> addr \<Rightarrow> int \<Rightarrow> chan_sys \<Rightarrow> (int \<times> chan_sys) option" where
  "invalid_channel_state d c limit s =
    (let s1 = s\<lparr>invalid_channel_state_g := invalid_channel_state_g s + 1\<rparr> in
     if invalid_channel_state_g s1 \<ge> limit
     then Option.bind (fsm_send_channel_event d c CLOSE_EVENT s1) (\<lambda>s2. Some (OF_SUCCESS, s2))
     else Some (OF_SUCCESS, s1))"

definition free_msg_buf :: "addr \<Rightarrow> chan_sys \<Rightarrow> chan_sys" where
  "free_msg_buf c s = (case ch_msg_buf (cs_chan s c) of None \<Rightarrow> s
     | Some m \<Rightarrow> upd_ch c (ch_msg_buf_update (\<lambda>_. None)) (call (Free_msg m) s))"

text \<open>The number of bytes missing is computed on the header as the host reads it. It has 32 bits, the
  length given to the plugin 16.\<close>

definition read_complete_msg :: "chan_env \<Rightarrow> chan_fn \<Rightarrow> addr \<Rightarrow> chan_sys \<Rightarrow> (int \<times> chan_sys) option" where
  "read_complete_msg e d c s =
    (let x = cs_chan s c; len = host_length e (ch_msg_hdr x) in
     case ch_msg_buf x of None \<Rightarrow> None
     | Some m \<Rightarrow>
       let todo = (ucast len :: u32) - ucast (om_length1 m) in
       if len = 0 \<or> ch_msg_len_read x = 0 then invalid_channel_state d c 10 s
       else if todo = 0 then Some (OF_SUCCESS, upd_ch c (ch_msg_state_update (\<lambda>_. CHN_RCVD_COMPLETE_MSG)) s)
       else let (ret, bs, closed, s1) = tcp_transport_read_data c (ucast todo) s in
         if ret \<noteq> CNTLR_CONN_READ_SUCCESS then
           let s2 = upd_ch c (\<lambda>x. x\<lparr>ch_msg_state := CHN_DRAIN_OUT_COMPLETE_MSG,
                 ch_drain_out_bytes := ucast len - 8\<rparr>) s1
           in Option.bind (fire d (if closed then CLOSE_EVENT else READ_FAIL_EVENT) c s2)
                (\<lambda>(_, s3). Some (OF_FAILURE, free_msg_buf c s3))
         else (case write_at (om_ptr1 m + unat (ch_msg_len_read x)) bs (om_data m) of None \<Rightarrow> None
         | Some b \<Rightarrow>
           let n = length bs in
           Some (OF_SUCCESS,
             if n = unat todo then upd_ch c (\<lambda>x. x\<lparr>ch_msg_state := CHN_RCVD_COMPLETE_MSG,
                 ch_msg_buf := Some (m\<lparr>om_data := b, om_data_len := om_length1 m + of_nat n\<rparr>)\<rparr>) s1
             else upd_ch c (\<lambda>x. x\<lparr>ch_msg_buf := Some (m\<lparr>om_data := b, om_length1 := om_length1 m + of_nat n\<rparr>),
                 ch_msg_len_read := ch_msg_len_read x + of_nat n\<rparr>) s1)))"

definition fsm_xprt_proto_channel_read :: "chan_env \<Rightarrow> chan_fn \<Rightarrow> addr \<Rightarrow> chan_sys \<Rightarrow> (int \<times> chan_sys) option" where
  "fsm_xprt_proto_channel_read e d c s =
    (case ch_msg_state (cs_chan s c) of
       CHN_WAITING_FOR_NEW_MSG \<Rightarrow> read_new_msg d c s
     | CHN_WAITING_FOR_MSG_HEADER \<Rightarrow> read_msg_header d c s
     | CHN_WAITING_FOR_COMPLETE_MSG \<Rightarrow> read_complete_msg e d c s
     | _ \<Rightarrow> invalid_channel_state d c 5 s)"

section \<open>The handler table and the dispatcher\<close>

datatype fsm_handler = H_learn | H_learn_dp | H_detach_dp | H_read | H_write | H_read_error | H_write_error | H_error | H_close

fun cntlr_xprt_proto_channel_fsm_handler :: "xprt_proto_channel_state_e \<Rightarrow> xprt_proto_channel_event_e \<Rightarrow> fsm_handler option" where
  "cntlr_xprt_proto_channel_fsm_handler STATE_INIT ev = (if ev = LEARN_EVENT then Some H_learn else None)"
| "cntlr_xprt_proto_channel_fsm_handler STATE_CLOSE_CONN ev = Some H_error"
| "cntlr_xprt_proto_channel_fsm_handler st LEARN_EVENT = (if st = STATE_WAIT_FOR_HANDSHAKE then Some H_learn_dp else None)"
| "cntlr_xprt_proto_channel_fsm_handler st DP_DETACH_EVENT = Some H_detach_dp"
| "cntlr_xprt_proto_channel_fsm_handler st READ_EVENT = Some H_read"
| "cntlr_xprt_proto_channel_fsm_handler st WRITE_EVENT = Some H_write"
| "cntlr_xprt_proto_channel_fsm_handler st READ_FAIL_EVENT = Some H_read_error"
| "cntlr_xprt_proto_channel_fsm_handler st WRITE_FAIL_EVENT = Some H_write_error"
| "cntlr_xprt_proto_channel_fsm_handler st ERROR_EVENT = Some H_error"
| "cntlr_xprt_proto_channel_fsm_handler st CLOSE_EVENT = Some H_close"

primrec run_handler :: "fsm_handler \<Rightarrow> chan_env \<Rightarrow> chan_fn \<Rightarrow> chan_fn" where
  "run_handler H_learn e d = fsm_xprt_proto_channel_learn e d"
| "run_handler H_learn_dp e d = (\<lambda>c arg. fsm_xprt_proto_channel_learn_dp e c)"
| "run_handler H_detach_dp e d = (\<lambda>c arg. fsm_xprt_proto_channel_detach_dp e c)"
| "run_handler H_read e d = (\<lambda>c arg. fsm_xprt_proto_channel_read e d c)"
| "run_handler H_write e d = (\<lambda>c arg. fsm_xprt_proto_channel_write c)"
| "run_handler H_read_error e d = (\<lambda>c arg. fsm_xprt_proto_channel_read_error e d c)"
| "run_handler H_write_error e d = (\<lambda>c arg. fsm_xprt_proto_channel_write_error c)"
| "run_handler H_error e d = (\<lambda>c arg. fsm_xprt_proto_channel_error c)"
| "run_handler H_close e d = (\<lambda>c arg. fsm_xprt_proto_channel_close e d c)"

text \<open>Calling the handler of the present state and event; an empty entry of the table is a NULL call.\<close>

primrec dispatch :: "nat \<Rightarrow> chan_env \<Rightarrow> chan_fn" where
  "dispatch 0 e = (\<lambda>c arg s. None)"
| "dispatch (Suc k) e = (\<lambda>c arg s.
     case cntlr_xprt_proto_channel_fsm_handler (ch_fsm_state (cs_chan s c)) (ch_fsm_event (cs_chan s c)) of
       None \<Rightarrow> None | Some h \<Rightarrow> run_handler h e (dispatch k e) c arg s)"

definition fsm_run :: "chan_env \<Rightarrow> chan_fn" where "fsm_run e = dispatch 4 e"

section \<open>The nesting of handlers is bounded\<close>

text \<open>An event of a smaller rank is all a handler can run: a read error only closes, as does a failing
  hello message of a new channel, and closing only detaches.\<close>

fun event_rank :: "xprt_proto_channel_event_e \<Rightarrow> nat" where
  "event_rank READ_EVENT = 4"
| "event_rank READ_FAIL_EVENT = 3"
| "event_rank LEARN_EVENT = 3"
| "event_rank CLOSE_EVENT = 2"
| "event_rank _ = 1"

definition same_upto :: "nat \<Rightarrow> chan_fn \<Rightarrow> chan_fn \<Rightarrow> bool" where
  "same_upto n d d' \<longleftrightarrow> (\<forall>c arg s. event_rank (ch_fsm_event (cs_chan s c)) \<le> n \<longrightarrow> d c arg s = d' c arg s)"

lemma upd_ch_fields [simp]:
  "cs_chan (upd_ch c f s) = (cs_chan s)(c := f (cs_chan s c))"
  "cs_info (upd_ch c f s) = cs_info s" "cs_dp (upd_ch c f s) = cs_dp s" "cs_ent (upd_ch c f s) = cs_ent s"
  "cs_tbl (upd_ch c f s) = cs_tbl s" "cs_rx (upd_ch c f s) = cs_rx s"
  "invalid_channel_state_g (upd_ch c f s) = invalid_channel_state_g s"
  "cs_calls (upd_ch c f s) = cs_calls s" "curr_thrd_2_which_ch_assnd (upd_ch c f s) = curr_thrd_2_which_ch_assnd s"
  by (simp_all add: upd_ch_def)

lemma upd_dp_fields [simp]:
  "cs_chan (upd_dp p g s) = cs_chan s"
  "cs_info (upd_dp p g s) = cs_info s" "cs_dp (upd_dp p g s) = (cs_dp s)(p := g (cs_dp s p))" "cs_ent (upd_dp p g s) = cs_ent s"
  "cs_tbl (upd_dp p g s) = cs_tbl s" "cs_rx (upd_dp p g s) = cs_rx s"
  "invalid_channel_state_g (upd_dp p g s) = invalid_channel_state_g s"
  "cs_calls (upd_dp p g s) = cs_calls s" "curr_thrd_2_which_ch_assnd (upd_dp p g s) = curr_thrd_2_which_ch_assnd s"
  by (simp_all add: upd_dp_def)

lemma call_fields [simp]:
  "cs_chan (call x s) = cs_chan s" "cs_info (call x s) = cs_info s" "cs_dp (call x s) = cs_dp s"
  "cs_ent (call x s) = cs_ent s" "cs_tbl (call x s) = cs_tbl s" "cs_rx (call x s) = cs_rx s"
  "invalid_channel_state_g (call x s) = invalid_channel_state_g s"
  "cs_calls (call x s) = cs_calls s @ [x]" "curr_thrd_2_which_ch_assnd (call x s) = curr_thrd_2_which_ch_assnd s"
  by (simp_all add: call_def)

lemma fire_same: "same_upto n d d' \<Longrightarrow> event_rank ev \<le> n \<Longrightarrow> fire d ev c s = fire d' ev c s"
  by (simp add: same_upto_def fire_def set_event_def)

lemma close_same: "same_upto 1 d d' \<Longrightarrow> xprt_proto_channel_close e d c s = xprt_proto_channel_close e d' c s"
  by (simp add: xprt_proto_channel_close_def fire_same[of 1 d d'])

lemma close_aux_same: "same_upto 1 d d' \<Longrightarrow> close_aux_loop e d c n s = close_aux_loop e d' c n s"
proof (induction n arbitrary: s)
  case 0
  show ?case by (simp add: close_aux_loop.simps split: option.splits)
next
  case (Suc n)
  have "close_aux_loop e d c n = close_aux_loop e d' c n" using Suc by auto
  then show ?case
    by (simp only: close_aux_loop.simps[of e d c "Suc n"] close_aux_loop.simps[of e d' c "Suc n"] nat.case
        close_same[OF Suc.prems])
qed

lemma tcp_read_fields:
  "tcp_transport_read_data c n s = (ret, bs, closed, s1) \<Longrightarrow>
   cs_chan s1 = cs_chan s \<and> cs_info s1 = cs_info s \<and> cs_dp s1 = cs_dp s \<and> cs_ent s1 = cs_ent s \<and> cs_tbl s1 = cs_tbl s \<and>
   invalid_channel_state_g s1 = invalid_channel_state_g s \<and> cs_calls s1 = cs_calls s \<and>
   curr_thrd_2_which_ch_assnd s1 = curr_thrd_2_which_ch_assnd s \<and> (\<forall>c'. c' \<noteq> c \<longrightarrow> cs_rx s1 c' = cs_rx s c') \<and>
   ret \<in> {CNTLR_CONN_READ_SUCCESS, CNTLR_CONN_NO_DATA, CNTLR_CONN_READ_ERROR}"
  by (auto simp: tcp_transport_read_data_def split: if_splits list.splits rx_event.splits)

lemma read_msg_same:
  "same_upto 2 d d' \<Longrightarrow> ch_fsm_event (cs_chan s c) = READ_FAIL_EVENT \<Longrightarrow>
   fsm_xprt_proto_channel_read_msg_from_dp e d c n s = fsm_xprt_proto_channel_read_msg_from_dp e d' c n s"
  by (cases "tcp_transport_read_data c n s")
    (auto simp: fsm_xprt_proto_channel_read_msg_from_dp_def Let_def fire_same[of 2 d d'] dest!: tcp_read_fields)

lemma read_msg_event:
  "fsm_xprt_proto_channel_read_msg_from_dp e d c n s = Some (OF_SUCCESS, bs, s1) \<Longrightarrow>
   ch_fsm_event (cs_chan s1 c) = ch_fsm_event (cs_chan s c)"
  by (cases "tcp_transport_read_data c n s")
    (auto simp: fsm_xprt_proto_channel_read_msg_from_dp_def Let_def dest!: tcp_read_fields
      split: if_splits Option.bind_splits)

lemma read_msg_status:
  "fsm_xprt_proto_channel_read_msg_from_dp e d c n s = Some (r, bs, s1) \<Longrightarrow> r = OF_SUCCESS \<or> r = OF_FAILURE"
  by (cases "tcp_transport_read_data c n s")
    (auto simp: fsm_xprt_proto_channel_read_msg_from_dp_def Let_def split: if_splits Option.bind_splits)

lemma drain_same:
  "same_upto 2 d d' \<Longrightarrow> ch_fsm_event (cs_chan s c) = READ_FAIL_EVENT \<Longrightarrow>
   drain_loop e d c n todo s = drain_loop e d' c n todo s"
proof (induction n arbitrary: todo s)
  case 0
  show ?case by (simp add: drain_loop.simps)
next
  case (Suc n)
  show ?case
  proof (cases "fsm_xprt_proto_channel_read_msg_from_dp e d' c (of_int (min todo DRAIN_OUT_LENGTH)) s")
    case None
    then show ?thesis using read_msg_same[OF Suc.prems] by (simp add: drain_loop.simps[of e _ c "Suc n"])
  next
    case (Some x)
    obtain r bs s1 where x: "x = (r, bs, s1)" using prod_cases3 by blast
    show ?thesis
    proof (cases "r = OF_SUCCESS")
      case True
      then have "ch_fsm_event (cs_chan s1 c) = READ_FAIL_EVENT"
        using read_msg_event Some x Suc.prems(2) by metis
      then show ?thesis using Some x True Suc read_msg_same[OF Suc.prems]
        by (simp add: drain_loop.simps[of e _ c "Suc n"])
    next
      case False
      then show ?thesis using Some x read_msg_status[of e d' c _ s r bs s1] read_msg_same[OF Suc.prems]
        by (simp add: drain_loop.simps[of e _ c "Suc n"])
    qed
  qed
qed

lemma same_upto_mono: "same_upto n d d' \<Longrightarrow> m \<le> n \<Longrightarrow> same_upto m d d'"
  by (auto simp: same_upto_def)

lemma write_msg_same:
  "same_upto 2 d d' \<Longrightarrow> fsm_xprt_proto_channel_write_msg_to_dp e d c m k s = fsm_xprt_proto_channel_write_msg_to_dp e d' c m k s"
proof -
  assume d: "same_upto 2 d d'"
  have f: "fire d WRITE_FAIL_EVENT = fire d' WRITE_FAIL_EVENT" "fire d CLOSE_EVENT = fire d' CLOSE_EVENT"
    "fire d DP_DETACH_EVENT = fire d' DP_DETACH_EVENT"
    by (intro ext fire_same[OF d], simp)+
  show ?thesis unfolding fsm_xprt_proto_channel_write_msg_to_dp_def f ..
qed

lemma learn_same:
  assumes "same_upto 2 d d'"
  shows "fsm_xprt_proto_channel_learn e d c arg s = fsm_xprt_proto_channel_learn e d' c arg s"
proof -
  have i: "cntlr_trnsprt_channel_init e d c p s = cntlr_trnsprt_channel_init e d' c p s" for p s
    by (simp add: cntlr_trnsprt_channel_init_def channel_setup_def fsm_update_channel_state_def)
  have h: "cntlr_trnsprt_send_hello_msg e d c s = cntlr_trnsprt_send_hello_msg e d' c s" for s
    by (simp add: cntlr_trnsprt_send_hello_msg_def write_msg_same[OF assms])
  show ?thesis unfolding fsm_xprt_proto_channel_learn_def i h ..
qed

lemma main_close_same:
  "same_upto 1 d d' \<Longrightarrow> fsm_xprt_proto_channel_close e d c s = fsm_xprt_proto_channel_close e d' c s"
proof -
  assume d: "same_upto 1 d d'"
  have a: "close_aux_loop e d c n s = close_aux_loop e d' c n s" for n s by (rule close_aux_same[OF d])
  have b: "xprt_proto_channel_close e d c s = xprt_proto_channel_close e d' c s" for s by (rule close_same[OF d])
  show ?thesis unfolding fsm_xprt_proto_channel_close_def a b ..
qed

lemma read_error_same:
  "same_upto 2 d d' \<Longrightarrow> ch_fsm_event (cs_chan s c) = READ_FAIL_EVENT \<Longrightarrow>
   fsm_xprt_proto_channel_read_error e d c s = fsm_xprt_proto_channel_read_error e d' c s"
  by (simp add: fsm_xprt_proto_channel_read_error_def of_drain_out_socket_buf_def drain_same)

lemma read_same:
  assumes "same_upto 3 d d'"
  shows "fsm_xprt_proto_channel_read e d c s = fsm_xprt_proto_channel_read e d' c s"
proof -
  have f: "fire d ev c' s' = fire d' ev c' s'" if "event_rank ev \<le> 3" for ev c' s'
    by (rule fire_same[OF assms that])
  have h: "header_read_failed d c b cl s' = header_read_failed d' c b cl s'" for b cl s'
    by (cases b; cases cl) (simp_all add: header_read_failed_def Let_def f)
  have i: "invalid_channel_state d c k s' = invalid_channel_state d' c k s'" for k s'
  proof -
    have "fire d CLOSE_EVENT = fire d' CLOSE_EVENT" by (intro ext f) simp
    then show ?thesis unfolding invalid_channel_state_def fsm_send_channel_event_def by (simp only:)
  qed
  have g: "fire d (if b then CLOSE_EVENT else READ_FAIL_EVENT) = fire d' (if b then CLOSE_EVENT else READ_FAIL_EVENT)" for b
    by (intro ext f) simp
  show ?thesis
    unfolding fsm_xprt_proto_channel_read_def read_new_msg_def read_msg_header_def read_complete_msg_def h i g ..
qed

lemma handler_of_event:
  assumes "cntlr_xprt_proto_channel_fsm_handler st ev = Some h"
  shows "h = H_learn \<Longrightarrow> ev = LEARN_EVENT" "h = H_close \<Longrightarrow> ev = CLOSE_EVENT"
    "h = H_read_error \<Longrightarrow> ev = READ_FAIL_EVENT" "h = H_read \<Longrightarrow> ev = READ_EVENT"
  using assms by (cases "(st, ev)" rule: cntlr_xprt_proto_channel_fsm_handler.cases; auto split: if_splits)+

lemma handler_same:
  assumes h: "cntlr_xprt_proto_channel_fsm_handler (ch_fsm_state (cs_chan s c)) (ch_fsm_event (cs_chan s c)) = Some h"
    and d: "same_upto n d d'" and r: "event_rank (ch_fsm_event (cs_chan s c)) \<le> Suc n"
  shows "run_handler h e d c arg s = run_handler h e d' c arg s"
proof (cases h)
  case H_learn
  then have "2 \<le> n" using handler_of_event(1)[OF h] r by simp
  then show ?thesis using learn_same[OF same_upto_mono[OF d]] H_learn by simp
next
  case H_close
  then have "1 \<le> n" using handler_of_event(2)[OF h] r by simp
  then show ?thesis using main_close_same[OF same_upto_mono[OF d]] H_close by simp
next
  case H_read_error
  then have "2 \<le> n" "ch_fsm_event (cs_chan s c) = READ_FAIL_EVENT" using handler_of_event(3)[OF h] r by simp_all
  then show ?thesis using read_error_same[OF same_upto_mono[OF d]] H_read_error by simp
next
  case H_read
  then have "3 \<le> n" using handler_of_event(4)[OF h] r by simp
  then show ?thesis using read_same[OF same_upto_mono[OF d]] H_read by simp
qed simp_all

lemma dispatch_stable: "event_rank (ch_fsm_event (cs_chan s c)) \<le> n \<Longrightarrow> dispatch (n + k) e c arg s = dispatch n e c arg s"
proof (induction n arbitrary: c arg s)
  case 0
  then show ?case by (cases "ch_fsm_event (cs_chan s c)") simp_all
next
  case (Suc n)
  have "same_upto n (dispatch (n + k) e) (dispatch n e)" using Suc.IH by (simp add: same_upto_def)
  then show ?case using handler_same[OF _ _ Suc.prems] by (simp split: option.split)
qed

lemma event_rank_le: "event_rank ev \<le> 4" by (cases ev) simp_all

lemma dispatch_enough: "4 \<le> k \<Longrightarrow> dispatch k e = fsm_run e"
  using dispatch_stable[of _ _ 4 "k - 4" e] event_rank_le by (auto simp: fsm_run_def fun_eq_iff)

end
