(* ===== verification/Channel_Msg.thy ===== *)
theory Channel_Msg
  imports Channel_Fsm
begin

text \<open>
  Reading a message of a switch: the header through the state machine of the channel, then the body
  into a buffer (\<^verbatim>\<open>messages/of_cntlr_msg.c\<close>) and, when it arrives in pieces, through the state machine
  again. \<^verbatim>\<open>transport/base/trnsprt_epoll.c\<close> is the entry from epoll.
\<close>

section \<open>Reading the body\<close>

text \<open>The memory primitive of a type of asynchronous messages: the callback gives the bytes of the block
  from \<^verbatim>\<open>start_of_data\<close> on.\<close>

record async_msg_mem_primitive =
  mp_is_configured :: bool
  mp_head_room_size :: u16
  mp_msg_alloc_cbk :: "(u8 \<Rightarrow> u16 \<Rightarrow> u8 list option) option"

text \<open>The other allocators: \<^verbatim>\<open>ofu_alloc_message\<close>, and the packet buffers for packet-in messages when their
  callbacks are registered.\<close>

record msg_alloc =
  al_ofu :: "u8 \<Rightarrow> u16 \<Rightarrow> u8 list option"
  al_pktbuf :: "(u16 \<Rightarrow> u8 list option) option"

definition new_msg :: "u8 list \<Rightarrow> of_msg" where
  "new_msg b = \<lparr>om_data = b, om_ptr1 = 0, om_length1 = 0, om_data_len = 0\<rparr>"

text \<open>The new value of \<^verbatim>\<open>channel->msg_buf\<close>, which is \<open>old\<close> before, \<^verbatim>\<open>msg_buf_len\<close> and \<^verbatim>\<open>status\<close>: the macro
  that allocates packet buffers sets the status to TRUE or FALSE. The default primitive needs a callback.\<close>

definition alloc_async_buf ::
  "msg_alloc \<Rightarrow> async_msg_mem_primitive \<Rightarrow> async_msg_mem_primitive \<Rightarrow> u8 \<Rightarrow> u16 \<Rightarrow> of_msg option \<Rightarrow>
   (of_msg option \<times> u16 \<times> int) option" where
  "alloc_async_buf al mp dflt t len old =
    (if mp_is_configured mp then
       let n = mp_head_room_size mp + len in
       (case mp_msg_alloc_cbk mp of
          Some cbk \<Rightarrow> Some (map_option new_msg (cbk t n), n, OF_SUCCESS)
        | None \<Rightarrow> (case al_ofu al t n of None \<Rightarrow> None
            | Some b \<Rightarrow> Some (Some (new_msg (drop (unat (mp_head_room_size mp)) b)), n, OF_SUCCESS)))
     else if mp_is_configured dflt then
       let n = mp_head_room_size dflt + len in
       (case mp_msg_alloc_cbk dflt of None \<Rightarrow> None
        | Some cbk \<Rightarrow> Some (map_option new_msg (cbk t n), n, OF_SUCCESS))
     else if t = 10 then
       (case al_pktbuf al of None \<Rightarrow> Some (map_option new_msg (al_ofu al t len), 0, 1)
        | Some cbk \<Rightarrow> (case cbk len of None \<Rightarrow> Some (old, 0, OF_FAILURE)
            | Some b \<Rightarrow> Some (Some (new_msg b), 0, 1)))
     else Some (map_option new_msg (al_ofu al t len), 0, OF_SUCCESS))"

text \<open>Copying the header into the block.\<close>

definition start_msg :: "u8 list \<Rightarrow> of_msg \<Rightarrow> of_msg option" where
  "start_msg h m = map_option (\<lambda>b. m\<lparr>om_data := b, om_length1 := 8, om_data_len := 8, om_ptr1 := 8\<rparr>) (write_at 0 h (om_data m))"

text \<open>Reading \<open>n\<close> bytes to \<^verbatim>\<open>ptr1\<close>: the status and the number of bytes.\<close>

definition read_body :: "chan_env \<Rightarrow> chan_fn \<Rightarrow> addr \<Rightarrow> u16 \<Rightarrow> chan_sys \<Rightarrow> (int \<times> nat \<times> chan_sys) option" where
  "read_body e d c n s =
    Option.bind (fsm_xprt_proto_channel_read_msg_from_dp e d c n s) (\<lambda>(ret, bs, s1).
      if ret = OF_FAILURE then Some (OF_FAILURE, 0, s1)
      else case ch_msg_buf (cs_chan s1 c) of None \<Rightarrow> None
      | Some m \<Rightarrow> map_option (\<lambda>b. (OF_SUCCESS, length bs, upd_ch c (ch_msg_buf_update (\<lambda>_. Some (m\<lparr>om_data := b\<rparr>))) s1))
          (write_at (om_ptr1 m) bs (om_data m)))"

definition upd_msg :: "addr \<Rightarrow> (of_msg \<Rightarrow> of_msg) \<Rightarrow> chan_sys \<Rightarrow> chan_sys" where
  "upd_msg c f = upd_ch c (ch_msg_buf_update (map_option f))"

definition set_msg_state :: "addr \<Rightarrow> chn_msg_state \<Rightarrow> chan_sys \<Rightarrow> chan_sys" where
  "set_msg_state c st = upd_ch c (ch_msg_state_update (\<lambda>_. st))"

text \<open>All bytes are there.\<close>

definition msg_complete :: "addr \<Rightarrow> nat \<Rightarrow> chan_sys \<Rightarrow> chan_sys" where
  "msg_complete c n s = upd_msg c (\<lambda>m. m\<lparr>om_data_len := om_length1 m + of_nat n\<rparr>) (set_msg_state c CHN_RCVD_COMPLETE_MSG s)"

text \<open>Reading on with \<^verbatim>\<open>ptr1\<close> and \<^verbatim>\<open>length1\<close>, in both functions.\<close>

definition continue_msg :: "chan_env \<Rightarrow> chan_fn \<Rightarrow> addr \<Rightarrow> chan_sys \<Rightarrow> (int \<times> chan_sys) option" where
  "continue_msg e d c s =
    (case ch_msg_buf (cs_chan s c) of None \<Rightarrow> None
     | Some m \<Rightarrow> let n = ntohs_length (ch_msg_hdr (cs_chan s c)) - om_length1 m in
         Option.bind (read_body e d c n s) (\<lambda>(ret, k, s1).
           if ret = OF_FAILURE then Some (OF_FAILURE, s1)
           else if k = unat n then Some (OF_SUCCESS, msg_complete c k s1)
           else Some (OF_SUCCESS, upd_msg c (\<lambda>m. m\<lparr>om_ptr1 := om_ptr1 m + k, om_length1 := om_length1 m + of_nat k\<rparr>) s1)))"

text \<open>The first read does not advance \<^verbatim>\<open>ptr1\<close>; the state machine adds \<^verbatim>\<open>msg_len_read\<close> to it.\<close>

definition start_async_msg ::
  "chan_env \<Rightarrow> chan_fn \<Rightarrow> msg_alloc \<Rightarrow> async_msg_mem_primitive \<Rightarrow> async_msg_mem_primitive \<Rightarrow> addr \<Rightarrow> chan_sys \<Rightarrow>
   (int \<times> chan_sys) option" where
  "start_async_msg e d al mp dflt c s =
    (let h = ch_msg_hdr (cs_chan s c); len = ntohs_length h in
     Option.bind (alloc_async_buf al mp dflt (h ! 1) len (ch_msg_buf (cs_chan s c))) (\<lambda>(mo, n, status).
       case mo of None \<Rightarrow>
         Option.bind (of_drain_out_socket_buf e d c ((if n = 0 then len else n) - 8)
             (upd_ch c (ch_msg_buf_update (\<lambda>_. None)) s)) (\<lambda>(_, s1). Some (OF_FAILURE, s1))
       | Some m0 \<Rightarrow> Option.bind (start_msg h m0) (\<lambda>m.
           let s1 = upd_ch c (\<lambda>x. x\<lparr>ch_msg_buf := Some m, ch_msg_state := CHN_WAITING_FOR_COMPLETE_MSG\<rparr>) s;
               todo = len - 8
           in if todo = 0 then Some (status, set_msg_state c CHN_RCVD_COMPLETE_MSG s1)
           else Option.bind (read_body e d c todo s1) (\<lambda>(ret, k, s2).
             if ret = OF_FAILURE then Some (OF_FAILURE, s2)
             else let s3 = (if k = unat todo then msg_complete c k s2
                            else upd_msg c (\<lambda>m. m\<lparr>om_length1 := om_length1 m + of_nat k\<rparr>) s2)
                  in Some (status,
                    if ch_msg_state (cs_chan s3 c) = CHN_WAITING_FOR_COMPLETE_MSG
                    then upd_ch c (ch_msg_len_read_update (\<lambda>_. of_nat k)) s3 else s3)))))"

definition of_alloc_and_read_async_message ::
  "chan_env \<Rightarrow> chan_fn \<Rightarrow> msg_alloc \<Rightarrow> async_msg_mem_primitive \<Rightarrow> async_msg_mem_primitive \<Rightarrow> addr \<Rightarrow> chan_sys \<Rightarrow>
   (int \<times> chan_sys) option" where
  "of_alloc_and_read_async_message e d al mp dflt c s =
    (case ch_msg_state (cs_chan s c) of
       CHN_START_READING_MSG \<Rightarrow> Option.bind (start_async_msg e d al mp dflt c s)
         (\<lambda>(ret, s1). Some (ret, if ret = OF_FAILURE then free_msg_buf c s1 else s1))
     | CHN_WAITING_FOR_COMPLETE_MSG \<Rightarrow> Option.bind (continue_msg e d c s)
         (\<lambda>(ret, s1). Some (ret, if ret = OF_FAILURE then free_msg_buf c s1 else s1))
     | CHN_WAITING_FOR_MSG_HEADER \<Rightarrow> Option.bind (continue_msg e d c s)
         (\<lambda>(ret, s1). Some (ret, if ret = OF_FAILURE then free_msg_buf c s1 else s1))
     | _ \<Rightarrow> Some (OF_SUCCESS, s))"

text \<open>The messages that are not asynchronous: the buffer is freed on failure only if this call has
  allocated it.\<close>

definition of_alloc_and_read_message_from_dp ::
  "chan_env \<Rightarrow> chan_fn \<Rightarrow> msg_alloc \<Rightarrow> addr \<Rightarrow> chan_sys \<Rightarrow> (int \<times> chan_sys) option" where
  "of_alloc_and_read_message_from_dp e d al c s =
    (case ch_msg_state (cs_chan s c) of
       CHN_START_READING_MSG \<Rightarrow>
         (let h = ch_msg_hdr (cs_chan s c); len = ntohs_length h in
          case al_ofu al (h ! 1) len of None \<Rightarrow>
            Option.bind (of_drain_out_socket_buf e d c (len - 8) s) (\<lambda>(_, s1). Some (OF_FAILURE, s1))
          | Some b \<Rightarrow> Option.bind (start_msg h (new_msg b)) (\<lambda>m.
              let s1 = upd_ch c (ch_msg_buf_update (\<lambda>_. Some m)) s; todo = len - 8 in
              if todo = 0 then Some (OF_SUCCESS, set_msg_state c CHN_RCVD_COMPLETE_MSG s1)
              else Option.bind (read_body e d c todo s1) (\<lambda>(ret, k, s2).
                if ret = OF_FAILURE then Some (OF_FAILURE, upd_ch c (ch_msg_buf_update (\<lambda>_. None)) (call (Free_msg m) s2))
                else Some (OF_SUCCESS, if k = unat todo then msg_complete c k s2
                  else set_msg_state c CHN_WAITING_FOR_COMPLETE_MSG
                    (upd_msg c (\<lambda>m. m\<lparr>om_ptr1 := om_ptr1 m + k, om_length1 := om_length1 m + of_nat k\<rparr>) s2)))))
     | CHN_WAITING_FOR_COMPLETE_MSG \<Rightarrow> continue_msg e d c s
     | _ \<Rightarrow> Some (OF_SUCCESS, s))"

section \<open>Dispatch of a message\<close>

text \<open>\<open>cbk\<close> is the table \<^verbatim>\<open>cntlr_cbk\<close> of the handlers by message type.\<close>

type_synonym msg_cbk = "(addr \<Rightarrow> chan_sys \<Rightarrow> chan_sys option) option list"

definition of_process_dp_message :: "msg_cbk \<Rightarrow> addr \<Rightarrow> chan_sys \<Rightarrow> (int \<times> chan_sys) option" where
  "of_process_dp_message cbk c s =
    (let x = cs_chan s c; t = unat (ch_msg_hdr x ! 1) in
     if t < length cbk then
       (case cbk ! t of None \<Rightarrow> Some (OF_SUCCESS, s) | Some f \<Rightarrow>
         map_option (Pair OF_SUCCESS) (f c (upd_ch c (ch_uiKeepAliveCount_update (\<lambda>_. 0)) s)))
     else let s1 = (case ch_msg_buf x of None \<Rightarrow> s | Some m \<Rightarrow> call (Free_msg m) s)
          in Some (OF_FAILURE, OF_TRNSPRT_CHN_RESET_2_READ_NEW_MSG c s1))"

abbreviation (input) FSLX_VERSION :: u8 where "FSLX_VERSION \<equiv> 0x81"
abbreviation (input) OFPT_EXPERIMENTER :: u8 where "OFPT_EXPERIMENTER \<equiv> 4"

definition of_read_and_process_msg_from_dp :: "chan_env \<Rightarrow> msg_cbk \<Rightarrow> addr \<Rightarrow> chan_sys \<Rightarrow> chan_sys option" where
  "of_read_and_process_msg_from_dp e cbk c s =
    (let s0 = set_event c READ_EVENT s in
     if ch_fsm_state (cs_chan s0 c) = STATE_CLOSE_CONN then Some s0
     else Option.bind (fsm_run e c None s0) (\<lambda>(ret, s1).
       let h = ch_msg_hdr (cs_chan s1 c); len = host_length e h in
       if ret = OF_FAILURE then Some s1
       else if h ! 0 \<noteq> OFP_VERSION \<and> h ! 0 \<noteq> FSLX_VERSION then Some (OF_TRNSPRT_CHN_RESET_2_READ_NEW_MSG c s1)
       else if h ! 1 \<noteq> OFPT_EXPERIMENTER \<and> h ! 0 = FSLX_VERSION then
         Option.bind (if len \<noteq> 0 \<and> len \<noteq> 8 then of_drain_out_socket_buf e (fsm_run e) c (len - 8) s1 else Some (OF_SUCCESS, s1))
           (\<lambda>(_, s2). let s3 = (case ch_msg_buf (cs_chan s2 c) of None \<Rightarrow> s2 | Some m \<Rightarrow> call (Free_msg m) s2)
              in Some (OF_TRNSPRT_CHN_RESET_2_READ_NEW_MSG c s3))
       else if ch_msg_state (cs_chan s1 c) = CHN_START_READING_MSG \<or> ch_msg_state (cs_chan s1 c) = CHN_RCVD_COMPLETE_MSG
       then map_option snd (of_process_dp_message cbk c s1)
       else Some s1))"

text \<open>The handler of epoll events for a channel that is bound to a datapath, by its connection table and
  safe reference. Sending the waiting messages is a parameter.\<close>

record poll_events = ev_pollin :: bool ev_pollout :: bool ev_pollhup :: bool ev_pollerr :: bool

definition of_handle_dp_msg ::
  "chan_env \<Rightarrow> msg_cbk \<Rightarrow> (addr \<Rightarrow> chan_sys \<Rightarrow> chan_sys option) \<Rightarrow> addr \<Rightarrow> u32 \<times> u32 \<Rightarrow> poll_events \<Rightarrow> chan_sys \<Rightarrow> chan_sys option" where
  "of_handle_dp_msg e cbk send tb ref ev s =
    Option.bind (MCHASH_ACCESS_NODE (fst ref) (snd ref) (cs_tbl s tb)) (\<lambda>r. case r of
       None \<Rightarrow> Some s
     | Some None \<Rightarrow> None
     | Some (Some c) \<Rightarrow>
       Option.bind (if ev_pollhup ev \<or> ev_pollerr ev then fire (fsm_run e) CLOSE_EVENT c s else Some (OF_SUCCESS, s))
         (\<lambda>(ret, s1). if ret = OF_FAILURE then Some s1
           else if ev_pollin ev then of_read_and_process_msg_from_dp e cbk c s1
           else if ev_pollout ev then send c s1 else Some s1))"

section \<open>Reading in pieces\<close>

text \<open>Successive read events that succeed.\<close>

primrec read_events :: "chan_env \<Rightarrow> nat \<Rightarrow> addr \<Rightarrow> chan_sys \<Rightarrow> chan_sys option" where
  "read_events e 0 c s = Some s"
| "read_events e (Suc k) c s = Option.bind (fire (fsm_run e) READ_EVENT c s)
     (\<lambda>(r, s1). if r = OF_SUCCESS then read_events e k c s1 else None)"

definition open_channel :: "cntlr_channel_info \<Rightarrow> bool" where
  "open_channel x \<longleftrightarrow> ch_fsm_state x = STATE_WAIT_FOR_HANDSHAKE \<or> ch_fsm_state x = STATE_BOUND_TO_DP"

lemma handler_read:
  "open_channel x \<Longrightarrow> cntlr_xprt_proto_channel_fsm_handler (ch_fsm_state x) READ_EVENT = Some H_read"
  by (auto simp: open_channel_def)

lemma fire_read:
  assumes "open_channel (cs_chan s c)"
  shows "fire (fsm_run e) READ_EVENT c s = fsm_xprt_proto_channel_read e (dispatch 3 e) c (set_event c READ_EVENT s)"
  using handler_read[OF assms] by (simp add: fire_def fsm_run_def eval_nat_numeral set_event_def)

lemma tcp_read_chunk:
  assumes "n \<noteq> 0" "cs_rx s c = Rx b # r" "b \<noteq> []"
  shows "tcp_transport_read_data c n s = (CNTLR_CONN_READ_SUCCESS, take (unat n) b, False,
    s\<lparr>cs_rx := (cs_rx s)(c := (if length b \<le> unat n then r else Rx (drop (unat n) b) # r))\<rparr>)"
  using assms by (simp add: tcp_transport_read_data_def)

text \<open>The channel after \<open>j\<close> of the bytes \<open>h\<close> of a header.\<close>

lemma chan_sys_eqI:
  assumes "cs_chan s = (cs_chan r)(c := x)" "cs_chan s' = (cs_chan r)(c := x')" "x = x'"
    "cs_info s = cs_info s'" "cs_dp s = cs_dp s'" "cs_ent s = cs_ent s'" "cs_tbl s = cs_tbl s'" "cs_rx s = cs_rx s'"
    "invalid_channel_state_g s = invalid_channel_state_g s'" "cs_calls s = cs_calls s'"
    "curr_thrd_2_which_ch_assnd s = curr_thrd_2_which_ch_assnd s'"
  shows "s = (s' :: chan_sys)"
  by (rule chan_sys.equality) (simp_all add: assms)

definition hdr_read :: "addr \<Rightarrow> u8 list \<Rightarrow> nat \<Rightarrow> rx_event list \<Rightarrow> chan_sys \<Rightarrow> chan_sys" where
  "hdr_read c h j rx s = (upd_ch c (\<lambda>x. x\<lparr>ch_fsm_event := READ_EVENT, ch_msg_hdr := take j h @ drop j (ch_msg_hdr x),
     ch_hdr_len_read := of_nat j, ch_msg_len_read := 0, ch_msg_state := CHN_WAITING_FOR_MSG_HEADER\<rparr>) s)
     \<lparr>cs_rx := (cs_rx s)(c := rx)\<rparr>"

definition hdr_done :: "addr \<Rightarrow> u8 list \<Rightarrow> rx_event list \<Rightarrow> chan_sys \<Rightarrow> chan_sys" where
  "hdr_done c h rx s = (upd_ch c (\<lambda>x. x\<lparr>ch_fsm_event := READ_EVENT, ch_msg_hdr := h, ch_hdr_len_read := 8,
     ch_msg_len_read := 0, ch_msg_state := CHN_START_READING_MSG, ch_msg_buf := None\<rparr>) s)
     \<lparr>cs_rx := (cs_rx s)(c := rx)\<rparr>"

text \<open>One piece \<open>b\<close> of the stream \<open>t\<close>, of which \<open>n\<close> bytes are wanted.\<close>

definition rest_rx :: "nat \<Rightarrow> u8 list \<Rightarrow> u8 list list \<Rightarrow> u8 list list" where
  "rest_rx n b fs = (if length b \<le> n then fs else drop n b # fs)"

lemma rest_rx:
  "concat (rest_rx n b fs) = drop (min n (length b)) (b @ concat fs)"
  "\<forall>x\<in>set fs. x \<noteq> [] \<Longrightarrow> \<forall>x\<in>set (rest_rx n b fs). x \<noteq> []"
  "map Rx (rest_rx n b fs) = (if length b \<le> n then map Rx fs else Rx (drop n b) # map Rx fs)"
  by (auto simp: rest_rx_def)

lemma write_at_take:
  "j + k \<le> 8 \<Longrightarrow> length h = 8 \<Longrightarrow> length old = 8 \<Longrightarrow>
   write_at j (take k (drop j h)) (take j h @ drop j old) = Some (take (j + k) h @ drop (j + k) old)"
  by (simp add: write_at_def take_add add.commute)

lemma open_set_event [simp]: "open_channel (cs_chan (set_event c ev s) c) = open_channel (cs_chan s c)"
  by (simp add: set_event_def open_channel_def)

lemma read_new_step:
  assumes o: "open_channel (cs_chan s c)" and st: "ch_msg_state (cs_chan s c) = CHN_WAITING_FOR_NEW_MSG"
    and l: "length (ch_msg_hdr (cs_chan s c)) = 8" and rx: "cs_rx s c = map Rx (b # fs)" "b \<noteq> []"
    and h: "length h = 8" "h = take 8 (b @ concat fs)"
  shows "fire (fsm_run e) READ_EVENT c s = Some (OF_SUCCESS,
    if length b < 8 then hdr_read c h (length b) (map Rx fs) s else hdr_done c h (map Rx (rest_rx 8 b fs)) s)"
proof -
  have t: "tcp_transport_read_data c 8 (set_event c READ_EVENT s) = (CNTLR_CONN_READ_SUCCESS, take 8 b, False,
      (set_event c READ_EVENT s)\<lparr>cs_rx := (cs_rx s)(c := map Rx (rest_rx 8 b fs))\<rparr>)"
    using tcp_read_chunk[of 8 "set_event c READ_EVENT s" c b "map Rx fs"] rx
    by (simp add: set_event_def rest_rx(3))
  note t = t[unfolded set_event_def upd_ch_def]
  have k: "take 8 b = take (min 8 (length b)) h" using h(2) by (simp add: min_def)
  have w: "write_at 0 (take 8 b) (ch_msg_hdr (cs_chan s c)) = Some (take (min 8 (length b)) h @ drop (min 8 (length b)) (ch_msg_hdr (cs_chan s c)))"
    unfolding k using l h by (simp add: write_at_def)
  show ?thesis
  proof (cases "length b < 8")
    case True
    then show ?thesis using w l
      apply (simp add: fire_read[OF o] fsm_xprt_proto_channel_read_def read_new_msg_def t st set_event_def hdr_read_def
          upd_ch_def rest_rx_def Let_def)
      apply (rule chan_sys_eqI[where c = c and r = s], simp, simp)
      by (rule cntlr_channel_info.equality; simp) simp_all
  next
    case False
    then show ?thesis using w l h
      apply (simp add: fire_read[OF o] fsm_xprt_proto_channel_read_def read_new_msg_def t st set_event_def hdr_done_def
          upd_ch_def Let_def)
      apply (rule chan_sys_eqI[where c = c and r = s], simp, simp)
      by (rule cntlr_channel_info.equality; simp) simp_all
  qed
qed

lemma hdr_read_fields:
  "ch_fsm_state (cs_chan (hdr_read c h j rx s) c) = ch_fsm_state (cs_chan s c)"
  "ch_msg_state (cs_chan (hdr_read c h j rx s) c) = CHN_WAITING_FOR_MSG_HEADER"
  "ch_hdr_len_read (cs_chan (hdr_read c h j rx s) c) = of_nat j"
  "ch_msg_hdr (cs_chan (hdr_read c h j rx s) c) = take j h @ drop j (ch_msg_hdr (cs_chan s c))"
  "cs_rx (hdr_read c h j rx s) c = rx"
  by (simp_all add: hdr_read_def)

lemma read_header_step:
  assumes o: "open_channel (cs_chan s c)" and l: "length (ch_msg_hdr (cs_chan s c)) = 8" and h: "length h = 8"
    and j: "0 < j" "j < 8" and b: "b \<noteq> []" and hb: "drop j h = take (8 - j) (b @ concat fs)"
  shows "fire (fsm_run e) READ_EVENT c (hdr_read c h j (map Rx (b # fs)) s) = Some (OF_SUCCESS,
    if length b < 8 - j then hdr_read c h (j + length b) (map Rx fs) s else hdr_done c h (map Rx (rest_rx (8 - j) b fs)) s)"
proof -
  let ?s = "hdr_read c h j (Rx b # map Rx fs) s"
  have o': "open_channel (cs_chan ?s c)" using o by (simp add: open_channel_def hdr_read_fields)
  have u: "unat (of_nat j :: u8) = j" using j by (simp add: unat_of_nat)
  have "uint (8 - ucast (of_nat j :: u8) :: u16) = 8 - int j"
    using j by (simp add: uint_word_ariths unsigned_ucast_eq unsigned_of_nat take_bit_nat_eq_self take_bit_int_eq_self of_nat_take_bit)
  then have n: "unat (8 - ucast (of_nat j :: u8) :: u16) = 8 - j" using j by (simp add: unat_eq_nat_uint)
  then have n0: "(8 - ucast (of_nat j :: u8) :: u16) \<noteq> 0" using j by (metis unat_0 zero_less_diff less_irrefl)
  have t: "tcp_transport_read_data c (8 - ucast (of_nat j :: u8)) (set_event c READ_EVENT ?s) =
      (CNTLR_CONN_READ_SUCCESS, take (8 - j) b, False,
      (set_event c READ_EVENT ?s)\<lparr>cs_rx := (cs_rx s)(c := map Rx (rest_rx (8 - j) b fs))\<rparr>)"
    using tcp_read_chunk[OF n0, of "set_event c READ_EVENT ?s" c b "map Rx fs"] b
    by (simp add: set_event_def rest_rx(3) n hdr_read_def)
  note t = t[unfolded set_event_def upd_ch_def]
  let ?k = "min (8 - j) (length b)"
  have k: "take (8 - j) b = take ?k (drop j h)" unfolding hb by (simp add: min_def)
  have w: "write_at j (take (8 - j) b) (take j h @ drop j (ch_msg_hdr (cs_chan s c))) =
      Some (take (j + ?k) h @ drop (j + ?k) (ch_msg_hdr (cs_chan s c)))"
    unfolding k by (rule write_at_take) (use l h j in auto)
  have st: "ch_msg_state (cs_chan (set_event c READ_EVENT ?s) c) = CHN_WAITING_FOR_MSG_HEADER"
    by (simp add: set_event_def hdr_read_def)
  show ?thesis
  proof (cases "length b < 8 - j")
    case True
    then have len: "length b + j \<noteq> 8" by simp
    show ?thesis using w l True len
      apply (simp add: fire_read[OF o'] fsm_xprt_proto_channel_read_def read_msg_header_def t set_event_def hdr_read_fields
          upd_ch_def rest_rx_def Let_def u)
      apply (rule chan_sys_eqI[where c = c and r = s], simp add: hdr_read_def upd_ch_def, simp add: hdr_read_def upd_ch_def)
      by (rule cntlr_channel_info.equality; simp) (simp_all add: hdr_read_def add.commute)
  next
    case False
    then have len: "length (take (8 - j) b) + j = 8" using j by simp
    have e: "(of_nat j + of_nat (8 - j) :: u8) = 8" using j by (simp flip: of_nat_add)
    show ?thesis using w l h False len j e
      apply (simp add: fire_read[OF o'] fsm_xprt_proto_channel_read_def read_msg_header_def t set_event_def hdr_read_fields
          upd_ch_def Let_def u)
      apply (rule chan_sys_eqI[where c = c and r = s], simp add: hdr_read_def upd_ch_def, simp add: hdr_done_def upd_ch_def)
      by (rule cntlr_channel_info.equality; simp) (simp_all add: hdr_read_def hdr_done_def)
  qed
qed

lemma read_header_loop:
  assumes o: "open_channel (cs_chan s c)" and l: "length (ch_msg_hdr (cs_chan s c)) = 8" and h: "length h = 8"
  shows "0 < j \<Longrightarrow> j < 8 \<Longrightarrow> drop j h = take (8 - j) (concat fs) \<Longrightarrow> \<forall>x\<in>set fs. x \<noteq> [] \<Longrightarrow>
    \<exists>k fs'. k \<le> 8 - j \<and> read_events e k c (hdr_read c h j (map Rx fs) s) = Some (hdr_done c h (map Rx fs') s) \<and>
      concat fs' = drop (8 - j) (concat fs) \<and> (\<forall>x\<in>set fs'. x \<noteq> [])"
proof (induction fs arbitrary: j)
  case Nil
  then have "drop j h = []" by simp
  then show ?case using h Nil.prems by simp
next
  case (Cons b fs)
  have b: "b \<noteq> []" using Cons.prems(4) by simp
  have hb: "drop j h = take (8 - j) (b @ concat fs)" using Cons.prems(3) by simp
  note step = read_header_step[OF o l h Cons.prems(1,2) b hb, of e]
  show ?case
  proof (cases "length b < 8 - j")
    case True
    let ?j = "j + length b"
    have "drop ?j h = take (8 - ?j) (concat fs)"
      using arg_cong[OF hb, of "drop (length b)"] True by (simp add: drop_take add.commute)
    moreover have "0 < ?j" "?j < 8" using Cons.prems(1) True by simp_all
    ultimately obtain k fs' where k: "k \<le> 8 - ?j" "read_events e k c (hdr_read c h ?j (map Rx fs) s) = Some (hdr_done c h (map Rx fs') s)"
      "concat fs' = drop (8 - ?j) (concat fs)" "\<forall>x\<in>set fs'. x \<noteq> []"
      using Cons.IH[of ?j] Cons.prems(4) by auto
    have "Suc k \<le> 8 - j" using k(1) True b by (cases b) auto
    moreover have "read_events e (Suc k) c (hdr_read c h j (map Rx (b # fs)) s) = Some (hdr_done c h (map Rx fs') s)"
      using k(2) step True by simp
    moreover have "concat fs' = drop (8 - j) (concat (b # fs))" using k(3) True by simp
    ultimately show ?thesis using k(4) by blast
  next
    case False
    have "read_events e 1 c (hdr_read c h j (map Rx (b # fs)) s) = Some (hdr_done c h (map Rx (rest_rx (8 - j) b fs)) s)"
      using step False by simp
    moreover have "concat (rest_rx (8 - j) b fs) = drop (8 - j) (concat (b # fs))"
      using False by (simp add: rest_rx(1) min_def)
    ultimately show ?thesis using rest_rx(2)[of fs "8 - j" b] Cons.prems(2,4)
      by (intro exI[of _ 1] exI[of _ "rest_rx (8 - j) b fs"]) auto
  qed
qed

lemma header_reassembled:
  assumes "open_channel (cs_chan s c)" "ch_msg_state (cs_chan s c) = CHN_WAITING_FOR_NEW_MSG"
    "length (ch_msg_hdr (cs_chan s c)) = 8" "cs_rx s c = map Rx fs" "\<forall>b\<in>set fs. b \<noteq> []" "8 \<le> length (concat fs)"
  shows "\<exists>k fs'. k \<le> 8 \<and> read_events e k c s = Some (hdr_done c (take 8 (concat fs)) (map Rx fs') s) \<and>
    concat fs' = drop 8 (concat fs) \<and> (\<forall>b\<in>set fs'. b \<noteq> [])"
proof (cases fs)
  case Nil
  then show ?thesis using assms(6) by simp
next
  case (Cons b gs)
  let ?h = "take 8 (concat fs)"
  have b: "b \<noteq> []" and g: "\<forall>x\<in>set gs. x \<noteq> []" and h: "length ?h = 8" using assms(5,6) Cons by simp_all
  note step = read_new_step[OF assms(1,2,3) assms(4)[unfolded Cons] b h, of e]
  show ?thesis
  proof (cases "length b < 8")
    case True
    have "0 < length b" "drop (length b) ?h = take (8 - length b) (concat gs)"
      using b Cons True by (simp_all add: drop_take min_def)
    from read_header_loop[OF assms(1,3) h this(1) True this(2) g]
    obtain k fs' where k: "k \<le> 8 - length b" "read_events e k c (hdr_read c ?h (length b) (map Rx gs) s) = Some (hdr_done c ?h (map Rx fs') s)"
      "concat fs' = drop (8 - length b) (concat gs)" "\<forall>x\<in>set fs'. x \<noteq> []" by blast
    have "Suc k \<le> 8" using k(1) \<open>0 < length b\<close> True by linarith
    moreover have "read_events e (Suc k) c s = Some (hdr_done c ?h (map Rx fs') s)" using k(2) step True Cons by simp
    moreover have "concat fs' = drop 8 (concat fs)" using k(3) True Cons by simp
    ultimately show ?thesis using k(4) by blast
  next
    case False
    have "read_events e 1 c s = Some (hdr_done c ?h (map Rx (rest_rx 8 b gs)) s)" using step False Cons by simp
    moreover have "concat (rest_rx 8 b gs) = drop 8 (concat fs)" using False Cons by (simp add: rest_rx(1) min_def)
    ultimately show ?thesis using rest_rx(2)[OF g, of 8 b]
      by (intro exI[of _ 1] exI[of _ "rest_rx 8 b gs"]) auto
  qed
qed

section \<open>The body of an asynchronous message\<close>

text \<open>The buffer of a message with the header \<open>h\<close> and \<open>j\<close> bytes of its body.\<close>

definition body_read :: "u8 list \<Rightarrow> u8 list \<Rightarrow> nat \<Rightarrow> cntlr_channel_info \<Rightarrow> bool" where
  "body_read h body j x \<longleftrightarrow> open_channel x \<and> ch_msg_hdr x = h \<and> ch_msg_state x = CHN_WAITING_FOR_COMPLETE_MSG \<and>
     ch_msg_len_read x = of_nat j \<and>
     (\<exists>m. ch_msg_buf x = Some m \<and> om_ptr1 m = 8 \<and> om_length1 m = of_nat (8 + j) \<and> 8 + length body \<le> length (om_data m) \<and>
        take (8 + j) (om_data m) = h @ take j body)"

definition body_done :: "u8 list \<Rightarrow> u8 list \<Rightarrow> cntlr_channel_info \<Rightarrow> bool" where
  "body_done h body x \<longleftrightarrow> ch_msg_state x = CHN_RCVD_COMPLETE_MSG \<and>
     (\<exists>m. ch_msg_buf x = Some m \<and> unat (om_data_len m) = 8 + length body \<and> take (8 + length body) (om_data m) = h @ body)"

lemma write_next:
  assumes "take (8 + j) d = h @ take j body" "length h = 8" "8 + length body \<le> length d" "j + k \<le> length body"
  shows "\<exists>b. write_at (8 + j) (take k (drop j body)) d = Some b \<and> length b = length d \<and>
    take (8 + (j + k)) b = h @ take (j + k) body"
proof -
  let ?b = "take (8 + j) d @ take k (drop j body) @ drop (8 + j + k) d"
  have "write_at (8 + j) (take k (drop j body)) d = Some ?b" using assms(3,4) by (simp add: write_at_def)
  moreover have "length ?b = length d" using assms(3,4) by simp
  moreover have "take (8 + (j + k)) ?b = h @ take (j + k) body"
    using assms by (simp add: take_add)
  ultimately show ?thesis by blast
qed

text \<open>A read event that brings bytes of the body.\<close>

lemma read_complete_data:
  assumes "ch_msg_buf (cs_chan s c) = Some m" "len = host_length e (ch_msg_hdr (cs_chan s c))" "len \<noteq> 0"
    "ch_msg_len_read (cs_chan s c) \<noteq> 0" "todo = (ucast len :: u32) - ucast (om_length1 m)" "todo \<noteq> 0"
    "tcp_transport_read_data c (ucast todo) s = (CNTLR_CONN_READ_SUCCESS, bs, False, s1)"
    "write_at (om_ptr1 m + unat (ch_msg_len_read (cs_chan s c))) bs (om_data m) = Some b"
  shows "read_complete_msg e d c s = Some (OF_SUCCESS,
    if length bs = unat todo then upd_ch c (\<lambda>x. x\<lparr>ch_msg_state := CHN_RCVD_COMPLETE_MSG,
      ch_msg_buf := Some (m\<lparr>om_data := b, om_data_len := om_length1 m + of_nat (length bs)\<rparr>)\<rparr>) s1
    else upd_ch c (\<lambda>x. x\<lparr>ch_msg_buf := Some (m\<lparr>om_data := b, om_length1 := om_length1 m + of_nat (length bs)\<rparr>),
      ch_msg_len_read := ch_msg_len_read x + of_nat (length bs)\<rparr>) s1)"
  using assms(1-4,6-8) unfolding read_complete_msg_def Let_def assms(5) by simp

lemma read_complete_overflow:
  assumes "ch_msg_buf (cs_chan s c) = Some m" "len = host_length e (ch_msg_hdr (cs_chan s c))" "len \<noteq> 0"
    "ch_msg_len_read (cs_chan s c) \<noteq> 0" "todo = (ucast len :: u32) - ucast (om_length1 m)" "todo \<noteq> 0"
    "tcp_transport_read_data c (ucast todo) s = (CNTLR_CONN_READ_SUCCESS, bs, False, s1)"
    "write_at (om_ptr1 m + unat (ch_msg_len_read (cs_chan s c))) bs (om_data m) = None"
  shows "read_complete_msg e d c s = None"
  using assms(1-4,6-8) unfolding read_complete_msg_def Let_def assms(5) by simp

text \<open>Reading on through the state machine on a big-endian host.\<close>

lemma read_body_step:
  assumes be: "\<not> en_little_endian e" and r: "body_read h body j (cs_chan s c)" and h: "length h = 8"
    and L: "unat (ntohs_length h) = 8 + length body" and j: "0 < j" "j < length body" "length body \<le> 256"
    and rx: "cs_rx s c = map Rx (b # fs)" "b \<noteq> []" "drop j body = take (length body - j) (b @ concat fs)"
  shows "\<exists>s'. fire (fsm_run e) READ_EVENT c s = Some (OF_SUCCESS, s') \<and>
    (if length b < length body - j then body_read h body (j + length b) (cs_chan s' c) \<and> cs_rx s' c = map Rx fs
     else body_done h body (cs_chan s' c) \<and> cs_rx s' c = map Rx (rest_rx (length body - j) b fs))"
proof -
  obtain m where m: "ch_msg_buf (cs_chan s c) = Some m" "om_ptr1 m = 8" "om_length1 m = of_nat (8 + j)"
    "8 + length body \<le> length (om_data m)" "take (8 + j) (om_data m) = h @ take j body"
    and o: "open_channel (cs_chan s c)" and x: "ch_msg_hdr (cs_chan s c) = h"
      "ch_msg_state (cs_chan s c) = CHN_WAITING_FOR_COMPLETE_MSG" "ch_msg_len_read (cs_chan s c) = of_nat j"
    using r by (auto simp: body_read_def)
  have hl: "host_length e h = ntohs_length h" using be by (simp add: host_length_def ntohs_length_def)
  have L': "ntohs_length h = of_nat (8 + length body)" by (simp flip: L)
  have nz: "ntohs_length h \<noteq> 0" using L by auto
  have j8: "unat (of_nat j :: u8) = j" "(of_nat j :: u8) \<noteq> 0"
    using j by (simp_all add: unat_of_nat word_of_nat_eq_0_iff) (auto dest: dvd_imp_le)
  let ?n = "length body - j"
  let ?todo = "(ucast (ntohs_length h) :: u32) - ucast (om_length1 m)"
  have todo: "?todo = of_nat ?n"
  proof -
    have c: "(ucast (of_nat n :: u16) :: u32) = of_nat n" if "n < 65536" for n
      using that by (simp add: word_unat_eq_iff unsigned_ucast_eq unsigned_of_nat take_bit_nat_eq_self)
    have "?todo = of_nat (8 + length body) - of_nat (8 + j)" unfolding L' m(3)
      by (subst c, use j in simp, subst c, use j in simp, rule refl)
    also have "\<dots> = of_nat (8 + length body - (8 + j))" by (rule of_nat_diff[symmetric]) (use j in simp)
    finally show ?thesis by simp
  qed
  have un: "unat ?todo = ?n" "unat (ucast ?todo :: u16) = ?n"
  proof -
    have "unat (of_nat n :: u32) = n \<and> unat (ucast (of_nat n :: u32) :: u16) = n" if "n \<le> 256" for n
      using that by (simp add: unsigned_ucast_eq unsigned_of_nat take_bit_nat_eq_self)
    from this[of ?n] j(3) show "unat ?todo = ?n" "unat (ucast ?todo :: u16) = ?n" unfolding todo by simp_all
  qed
  have td0: "?todo \<noteq> 0" "(ucast ?todo :: u16) \<noteq> 0" using un j by force+
  have t: "tcp_transport_read_data c (ucast ?todo) (set_event c READ_EVENT s) =
      (CNTLR_CONN_READ_SUCCESS, take ?n b, False,
      (set_event c READ_EVENT s)\<lparr>cs_rx := (cs_rx s)(c := map Rx (rest_rx ?n b fs))\<rparr>)"
    using tcp_read_chunk[OF td0(2), of "set_event c READ_EVENT s" c b "map Rx fs"] rx
    by (simp add: set_event_def rest_rx(3) un)
  let ?k = "min ?n (length b)"
  have k: "take ?n b = take ?k (drop j body)" unfolding rx(3) by (simp add: min_def)
  obtain d where d: "write_at (8 + j) (take ?n b) (om_data m) = Some d" "length d = length (om_data m)"
    "take (8 + (j + ?k)) d = h @ take (j + ?k) body"
  proof -
    have "j + ?k \<le> length body" using j by simp
    from write_next[OF m(5) h m(4) this] show ?thesis unfolding k[symmetric] using that by blast
  qed
  have len0: "\<not> (ntohs_length h = 0 \<or> (of_nat j :: u8) = 0)" using nz j8(2) by simp
  have r1: "fire (fsm_run e) READ_EVENT c s = read_complete_msg e (dispatch 3 e) c (set_event c READ_EVENT s)"
    using x by (simp add: fire_read[OF o] fsm_xprt_proto_channel_read_def set_event_def)
  have ev: "ch_msg_buf (cs_chan (set_event c READ_EVENT s) c) = Some m"
      "ntohs_length h = host_length e (ch_msg_hdr (cs_chan (set_event c READ_EVENT s) c))"
      "ch_msg_len_read (cs_chan (set_event c READ_EVENT s) c) = of_nat j"
    using m(1) x hl by (simp_all add: set_event_def)
  obtain todo where T: "todo = ?todo" "todo \<noteq> 0" "unat todo = ?n" using td0 un by blast
  have w: "write_at (om_ptr1 m + unat (ch_msg_len_read (cs_chan (set_event c READ_EVENT s) c))) (take ?n b) (om_data m) = Some d"
    using d(1) unfolding ev(3) m(2) j8 .
  have lr: "ch_msg_len_read (cs_chan (set_event c READ_EVENT s) c) \<noteq> 0" unfolding ev(3) by (rule j8(2))
  note step = read_complete_data[OF ev(1,2) nz lr T(1,2) t[folded T(1)] w, of "dispatch 3 e", folded r1]
  have l: "length (take ?n b) = ?k" by (simp add: min.commute)
  show ?thesis
  proof (cases "length b < ?n")
    case True
    then have ne: "?k \<noteq> unat todo" "?k = length b" using T(3) by simp_all
    note step = step[unfolded l if_not_P[OF ne(1)], unfolded ne(2)]
    have lr1: "of_nat j + of_nat (length b) = (of_nat (j + length b) :: u8)"
      "om_length1 m + of_nat (length b) = of_nat (8 + (j + length b))" unfolding m(3) by simp_all
    have rest: "rest_rx ?n b fs = fs" using True by (simp add: rest_rx_def)
    have "take (8 + (j + length b)) d = h @ take (j + length b) body" using d(3) unfolding ne(2) .
    moreover have "8 + length body \<le> length d" using d(2) m(4) by simp
    ultimately have buf: "\<exists>m'. Some (m\<lparr>om_data := d, om_length1 := om_length1 m + of_nat (length b)\<rparr>) = Some m' \<and> om_ptr1 m' = 8 \<and>
        om_length1 m' = of_nat (8 + (j + length b)) \<and> 8 + length body \<le> length (om_data m') \<and>
        take (8 + (j + length b)) (om_data m') = h @ take (j + length b) body"
      using m(2) unfolding lr1(2) by simp
    show ?thesis
      unfolding step if_P[OF True] rest
      by (intro exI conjI, rule refl, unfold body_read_def)
        (use o x buf lr1(1) in \<open>simp_all add: set_event_def open_channel_def del: of_nat_add\<close>)
  next
    case False
    then have ne: "?k = unat todo" "?k = ?n" using T(3) by simp_all
    note step = step[unfolded l if_P[OF ne(1)], unfolded ne(2)]
    have "om_length1 m + of_nat ?n = (of_nat (8 + j + ?n) :: u16)" unfolding m(3) by (rule of_nat_add[symmetric])
    also have "8 + j + ?n = 8 + length body" using j by simp
    finally have dl: "unat (om_length1 m + of_nat ?n) = 8 + length body" using L L' by simp
    have "j + ?n = length body" using j by simp
    then show ?thesis unfolding step if_not_P[OF False] using dl d(3)[unfolded ne(2)]
      by (simp add: body_done_def del: of_nat_diff)
  qed
qed

lemma read_body_loop:
  assumes be: "\<not> en_little_endian e" and h: "length h = 8" and L: "unat (ntohs_length h) = 8 + length body" "length body \<le> 256"
  shows "body_read h body j (cs_chan s c) \<Longrightarrow> 0 < j \<Longrightarrow> j < length body \<Longrightarrow> cs_rx s c = map Rx fs \<Longrightarrow> \<forall>b\<in>set fs. b \<noteq> [] \<Longrightarrow>
    drop j body = take (length body - j) (concat fs) \<Longrightarrow>
    \<exists>k s' fs'. read_events e k c s = Some s' \<and> body_done h body (cs_chan s' c) \<and>
      cs_rx s' c = map Rx fs' \<and> concat fs' = drop (length body - j) (concat fs)"
proof (induction fs arbitrary: j s)
  case Nil
  then have "drop j body = []" by simp
  then show ?case using Nil.prems by simp
next
  case (Cons b fs)
  have b: "b \<noteq> []" and db: "drop j body = take (length body - j) (b @ concat fs)" using Cons.prems(5,6) by simp_all
  obtain s1 where s1: "fire (fsm_run e) READ_EVENT c s = Some (OF_SUCCESS, s1)"
    "if length b < length body - j then body_read h body (j + length b) (cs_chan s1 c) \<and> cs_rx s1 c = map Rx fs
     else body_done h body (cs_chan s1 c) \<and> cs_rx s1 c = map Rx (rest_rx (length body - j) b fs)"
    using read_body_step[OF be Cons.prems(1) h L(1) Cons.prems(2,3) L(2) Cons.prems(4) b db] by blast
  show ?case
  proof (cases "length b < length body - j")
    case True
    have "drop (j + length b) body = take (length body - (j + length b)) (concat fs)"
      using arg_cong[OF db, of "drop (length b)"] True by (simp add: drop_take add.commute)
    moreover have "0 < j + length b" "j + length b < length body" using Cons.prems(2) True by simp_all
    ultimately obtain k s' fs' where k: "read_events e k c s1 = Some s'" "body_done h body (cs_chan s' c)"
      "cs_rx s' c = map Rx fs'" "concat fs' = drop (length body - (j + length b)) (concat fs)"
      using Cons.IH[of "j + length b" s1] s1(2) True Cons.prems(5) by auto
    have "read_events e (Suc k) c s = Some s'" using s1(1) k(1) by simp
    moreover have "concat fs' = drop (length body - j) (concat (b # fs))" using k(4) True by simp
    ultimately show ?thesis using k(2,3) by blast
  next
    case False
    have "read_events e 1 c s = Some s1" using s1(1) by simp
    moreover have "concat (rest_rx (length body - j) b fs) = drop (length body - j) (concat (b # fs))"
      using False by (simp add: rest_rx(1) min_def)
    ultimately show ?thesis using s1(2) False by (metis (no_types))
  qed
qed

lemma read_msg_chunk:
  assumes "n \<noteq> 0" "cs_rx s c = map Rx (b # fs)" "b \<noteq> []"
  shows "fsm_xprt_proto_channel_read_msg_from_dp e d c n s = Some (OF_SUCCESS, take (unat n) b,
    upd_ch c (\<lambda>x. x\<lparr>ch_recv_bytes := ch_recv_bytes x + of_nat (length (take (unat n) b))\<rparr>)
      (s\<lparr>cs_rx := (cs_rx s)(c := map Rx (rest_rx (unat n) b fs))\<rparr>))"
  using tcp_read_chunk[OF assms(1) _ assms(3), of s c "map Rx fs"] assms(2)
  by (simp add: fsm_xprt_proto_channel_read_msg_from_dp_def rest_rx(3))

text \<open>The message buffer a handler starts to fill.\<close>

definition ready_for_body :: "u8 list \<Rightarrow> cntlr_channel_info \<Rightarrow> bool" where
  "ready_for_body h x \<longleftrightarrow> open_channel x \<and> ch_msg_hdr x = h \<and> ch_msg_state x = CHN_START_READING_MSG"

lemma start_msg_ok:
  assumes "length h = 8" "8 + n \<le> length d"
  shows "start_msg h (new_msg d) = Some \<lparr>om_data = h @ drop 8 d, om_ptr1 = 8, om_length1 = 8, om_data_len = 8\<rparr>"
  using assms by (simp add: start_msg_def new_msg_def write_at_def)

text \<open>What \<open>read_body\<close> leaves after the piece \<open>b\<close>.\<close>

definition body_got :: "addr \<Rightarrow> nat \<Rightarrow> u8 list \<Rightarrow> u8 list list \<Rightarrow> of_msg \<Rightarrow> chan_sys \<Rightarrow> chan_sys" where
  "body_got c n b fs m s = upd_ch c (ch_msg_buf_update (\<lambda>_. Some m))
     (upd_ch c (\<lambda>x. x\<lparr>ch_recv_bytes := ch_recv_bytes x + of_nat (length (take n b))\<rparr>)
       (s\<lparr>cs_rx := (cs_rx s)(c := map Rx (rest_rx n b fs))\<rparr>))"

lemma read_body_ok:
  assumes "ch_msg_buf (cs_chan s c) = Some m" "n \<noteq> 0" "cs_rx s c = map Rx (b # fs)" "b \<noteq> []"
    "write_at (om_ptr1 m) (take (unat n) b) (om_data m) = Some d"
  shows "read_body e f c n s = Some (OF_SUCCESS, length (take (unat n) b), body_got c (unat n) b fs (m\<lparr>om_data := d\<rparr>) s)"
  using assms(1,5) unfolding read_body_def read_msg_chunk[OF assms(2-4)] body_got_def by simp

lemma body_got_fields:
  "cs_rx (body_got c n b fs m s) c = map Rx (rest_rx n b fs)"
  "ch_msg_buf (cs_chan (body_got c n b fs m s) c) = Some m"
  "ch_fsm_state (cs_chan (body_got c n b fs m s) c) = ch_fsm_state (cs_chan s c)"
  "ch_msg_hdr (cs_chan (body_got c n b fs m s) c) = ch_msg_hdr (cs_chan s c)"
  "ch_msg_state (cs_chan (body_got c n b fs m s) c) = ch_msg_state (cs_chan s c)"
  "ch_msg_len_read (cs_chan (body_got c n b fs m s) c) = ch_msg_len_read (cs_chan s c)"
  by (simp_all add: body_got_def)

lemma write_first:
  assumes "length h = 8" "8 + length body \<le> length d" "body = take (length body) (b @ concat fs)"
  defines "k \<equiv> min (length body) (length b)"
  shows "\<exists>d'. write_at 8 (take (length body) b) (h @ drop 8 d) = Some d' \<and> length d' = length d \<and> take (8 + k) d' = h @ take k body"
proof -
  have k: "take (length body) b = take k (drop 0 body)" unfolding k_def by (subst assms(3)) (simp add: min_def)
  have "take (8 + 0) (h @ drop 8 d) = h @ take 0 body" "8 + length body \<le> length (h @ drop 8 d)" "0 + k \<le> length body"
    using assms by simp_all
  from write_next[OF this(1) assms(1) this(2,3)] show ?thesis using assms(1,2) unfolding k by auto
qed

lemma start_async_data:
  assumes "ch_msg_hdr (cs_chan s c) = h" "ch_msg_state (cs_chan s c) = CHN_START_READING_MSG"
    "alloc_async_buf al mp dflt (h ! 1) (ntohs_length h) (ch_msg_buf (cs_chan s c)) = Some (Some m0, n, st)" "st \<noteq> OF_FAILURE"
    "start_msg h m0 = Some m"
    "ntohs_length h - 8 \<noteq> 0"
    "read_body e f c (ntohs_length h - 8)
       (upd_ch c (\<lambda>x. x\<lparr>ch_msg_buf := Some m, ch_msg_state := CHN_WAITING_FOR_COMPLETE_MSG\<rparr>) s) = Some (OF_SUCCESS, k, s2)"
    "s3 = (if k = unat (ntohs_length h - 8) then msg_complete c k s2
           else upd_msg c (\<lambda>m. m\<lparr>om_length1 := om_length1 m + of_nat k\<rparr>) s2)"
  shows "of_alloc_and_read_async_message e f al mp dflt c s = Some (st,
      if ch_msg_state (cs_chan s3 c) = CHN_WAITING_FOR_COMPLETE_MSG
      then upd_ch c (ch_msg_len_read_update (\<lambda>_. of_nat k)) s3 else s3)"
  using assms(1-7) unfolding of_alloc_and_read_async_message_def start_async_msg_def Let_def assms(8) by simp

lemma start_async_ok:
  assumes r: "ready_for_body h (cs_chan s c)" and h: "length h = 8" and L: "unat (ntohs_length h) = 8 + length body"
    and body: "body \<noteq> []" and al: "alloc_async_buf al mp dflt (h ! 1) (ntohs_length h) (ch_msg_buf (cs_chan s c)) = Some (Some (new_msg d), n, st)"
      "8 + length body \<le> length d" "st \<noteq> OF_FAILURE"
    and rx: "cs_rx s c = map Rx (b # fs)" "b \<noteq> []" "body = take (length body) (b @ concat fs)"
  shows "\<exists>s'. of_alloc_and_read_async_message e f al mp dflt c s = Some (st, s') \<and>
    (if length b < length body then body_read h body (length b) (cs_chan s' c) \<and> cs_rx s' c = map Rx fs
     else body_done h body (cs_chan s' c) \<and> cs_rx s' c = map Rx (rest_rx (length body) b fs))"
proof -
  let ?N = "length body" and ?k = "min (length body) (length b)" and ?todo = "ntohs_length h - 8"
  define m where "m = \<lparr>om_data = h @ drop 8 d, om_ptr1 = 8, om_length1 = 8, om_data_len = 8\<rparr>"
  define s1 where "s1 = upd_ch c (\<lambda>x. x\<lparr>ch_msg_buf := Some m, ch_msg_state := CHN_WAITING_FOR_COMPLETE_MSG\<rparr>) s"
  have todo: "unat ?todo = ?N" using L by (subst unat_sub) (simp_all add: word_le_nat_alt)
  then have todo0: "?todo \<noteq> 0" using body by (metis length_0_conv unat_0)
  obtain d' where d': "write_at 8 (take ?N b) (h @ drop 8 d) = Some d'" "length d' = length d" "take (8 + ?k) d' = h @ take ?k body"
    using write_first[OF h al(2) rx(3)] by blast
  have b1: "ch_msg_buf (cs_chan s1 c) = Some m" "cs_rx s1 c = map Rx (b # fs)" using rx(1) by (simp_all add: s1_def)
  have "write_at (om_ptr1 m) (take (unat ?todo) b) (om_data m) = Some d'" using d'(1) unfolding todo m_def by simp
  note rd = read_body_ok[OF b1(1) todo0 b1(2) rx(2) this, unfolded todo, of e f]
  let ?s2 = "body_got c ?N b fs (m\<lparr>om_data := d'\<rparr>) s1"
  have x: "ch_msg_hdr (cs_chan s c) = h" "ch_msg_state (cs_chan s c) = CHN_START_READING_MSG" "open_channel (cs_chan s c)"
    using r by (simp_all add: ready_for_body_def)
  note eq = start_async_data[OF x(1,2) al(1,3) start_msg_ok[OF h al(2), folded m_def] todo0 rd[unfolded s1_def] refl, folded s1_def, unfolded todo]
  have l: "length (take ?N b) = ?k" by (simp add: min.commute)
  have st: "ch_msg_state (cs_chan ?s2 c) = CHN_WAITING_FOR_COMPLETE_MSG" "ch_msg_hdr (cs_chan ?s2 c) = h"
    "open_channel (cs_chan ?s2 c)" "cs_rx ?s2 c = map Rx (rest_rx ?N b fs)" "ch_msg_buf (cs_chan ?s2 c) = Some (m\<lparr>om_data := d'\<rparr>)"
    using x by (simp_all add: body_got_fields s1_def open_channel_def)
  show ?thesis
  proof (cases "length b < ?N")
    case True
    then have ne: "?k \<noteq> ?N" "?k = length b" by simp_all
    have rest: "rest_rx ?N b fs = fs" using True by (simp add: rest_rx_def)
    note eq = eq[unfolded l if_not_P[OF ne(1)], unfolded ne(2)]
    show ?thesis unfolding eq if_P[OF True] body_read_def
      using st d'(2) d'(3)[unfolded ne(2)] al(2)
      by (simp add: upd_msg_def rest open_channel_def m_def)
  next
    case False
    then have ne: "?k = ?N" by simp
    note eq = eq[unfolded l if_P[OF ne], unfolded ne]
    have "om_length1 m + of_nat ?N = 8 + (ntohs_length h - 8)" unfolding todo[symmetric] by (simp add: m_def)
    then have dl: "unat (om_length1 m + of_nat ?N) = 8 + ?N" using L by simp
    show ?thesis unfolding eq if_not_P[OF False] body_done_def
      using st dl d'(3)[unfolded ne] by (simp add: msg_complete_def upd_msg_def set_msg_state_def)
  qed
qed

text \<open>C36: the header of a message is put together from the pieces in which it arrives. Whatever the sizes
  of the pieces, at most eight read events make the channel hold exactly the first eight bytes of the
  stream, ready for the body; the rest of the stream is left for later reads and nothing else of the
  system changes.\<close>

theorem chan_header_reassembly:
  assumes "open_channel (cs_chan s c)" "ch_msg_state (cs_chan s c) = CHN_WAITING_FOR_NEW_MSG"
    "length (ch_msg_hdr (cs_chan s c)) = 8" "cs_rx s c = map Rx fs" "\<forall>b\<in>set fs. b \<noteq> []" "8 \<le> length (concat fs)"
  shows "\<exists>k fs'. k \<le> 8 \<and> read_events e k c s = Some (hdr_done c (take 8 (concat fs)) (map Rx fs') s) \<and>
    concat fs' = drop 8 (concat fs) \<and> (\<forall>b\<in>set fs'. b \<noteq> [])"
  using header_reassembled[OF assms] .

text \<open>C37: on a big-endian host, an asynchronous message with a body of at most 256 bytes is put together
  from the pieces in which its body arrives: the first piece is read by the message handler, the others by
  the state machine of the channel. In the end the buffer holds the header and the body, the length of the
  data is that of the message, and the bytes behind the message are left for later reads.\<close>

theorem chan_body_reassembly:
  assumes "\<not> en_little_endian e" "ready_for_body h (cs_chan s c)" "length h = 8"
    "unat (ntohs_length h) = 8 + length body" "body \<noteq> []" "length body \<le> 256"
    "alloc_async_buf al mp dflt (h ! 1) (ntohs_length h) (ch_msg_buf (cs_chan s c)) = Some (Some (new_msg d), n, st)"
    "8 + length body \<le> length d" "st \<noteq> OF_FAILURE"
    "cs_rx s c = map Rx fs" "\<forall>b\<in>set fs. b \<noteq> []" "body = take (length body) (concat fs)"
  shows "\<exists>s1 k s' fs'. of_alloc_and_read_async_message e f al mp dflt c s = Some (st, s1) \<and>
    read_events e k c s1 = Some s' \<and> body_done h body (cs_chan s' c) \<and>
    cs_rx s' c = map Rx fs' \<and> concat fs' = drop (length body) (concat fs)"
proof (cases fs)
  case Nil
  then show ?thesis using assms(5,12) by simp
next
  case (Cons b gs)
  have b: "b \<noteq> []" and g: "\<forall>x\<in>set gs. x \<noteq> []" and bd: "body = take (length body) (b @ concat gs)"
    using assms(11,12) Cons by simp_all
  obtain s1 where s1: "of_alloc_and_read_async_message e f al mp dflt c s = Some (st, s1)"
    "if length b < length body then body_read h body (length b) (cs_chan s1 c) \<and> cs_rx s1 c = map Rx gs
     else body_done h body (cs_chan s1 c) \<and> cs_rx s1 c = map Rx (rest_rx (length body) b gs)"
    using start_async_ok[OF assms(2,3,4,5,7,8,9) assms(10)[unfolded Cons] b bd] by blast
  show ?thesis
  proof (cases "length b < length body")
    case True
    have lb: "0 < length b" using b by simp
    have db: "drop (length b) body = take (length body - length b) (concat gs)"
      using arg_cong[OF bd, of "drop (length b)"] True by (simp add: drop_take)
    obtain k s' fs' where k: "read_events e k c s1 = Some s'" "body_done h body (cs_chan s' c)" "cs_rx s' c = map Rx fs'"
      "concat fs' = drop (length body - length b) (concat gs)"
      using read_body_loop[OF assms(1,3,4,6) _ lb True _ g db, where c = c and s = s1] s1(2) True by auto
    moreover have "concat fs' = drop (length body) (concat fs)" using k(4) True Cons by simp
    ultimately show ?thesis using s1(1) by blast
  next
    case False
    have "read_events e 0 c s1 = Some s1" by simp
    moreover have "concat (rest_rx (length body) b gs) = drop (length body) (concat fs)"
      using False Cons by (simp add: rest_rx(1) min_def)
    moreover have "body_done h body (cs_chan s1 c)" "cs_rx s1 c = map Rx (rest_rx (length body) b gs)" using s1(2) False by simp_all
    ultimately show ?thesis using s1(1) by (intro exI[of _ s1] exI[of _ 0] exI[of _ s1] exI[of _ "rest_rx (length body) b gs"] conjI)
  qed
qed

section \<open>Bodies that are not read\<close>

lemma unat_u8_less: "unat (x :: u8) < 256"
  by (rule less_le_trans[OF unsigned_less]) simp

text \<open>On a little-endian host the length of a message below 256 bytes looks 256 times as large.\<close>

lemma swapped_length:
  assumes "en_little_endian e" "h ! 2 = 0" "unat (h ! 3) = L"
  shows "unat (host_length e h) = 256 * L" "unat (ntohs_length h) = L"
proof -
  have L: "L < 256" using unat_u8_less[of "h ! 3"] assms(3) by simp
  have "unat (push_bit 8 (ucast (h ! 3)) OR 0 :: u16) = 256 * L"
    using L assms(3) by (simp add: push_bit_eq_mult unat_word_ariths unsigned_ucast_eq take_bit_nat_eq_self)
  then show "unat (host_length e h) = 256 * L" using assms(1,2) by (simp add: host_length_def u16_of_def)
  show "unat (ntohs_length h) = L" using L assms(2,3) by (simp add: ntohs_length_def u16_of_def unsigned_ucast_eq take_bit_nat_eq_self)
qed

text \<open>C38: on a little-endian host the state machine reads the length of a message that arrives in pieces
  without swapping its bytes. If the rest of the body arrives alone, the message is not recognised as
  complete; if more bytes arrive with it, for example the next message, they are written behind the end of
  the buffer.\<close>

theorem chan_little_endian_overflow:
  assumes "en_little_endian e" "h ! 2 = 0" "unat (h ! 3) = 8 + length body" "body_read h body j (cs_chan s c)"
    "ch_msg_buf (cs_chan s c) = Some m" "length (om_data m) = 8 + length body" "0 < j" "j < length body"
    "cs_rx s c = Rx b # r"
  shows "(length b > length body - j \<longrightarrow> fire (fsm_run e) READ_EVENT c s = None) \<and>
    (length b = length body - j \<longrightarrow> (\<exists>s'. fire (fsm_run e) READ_EVENT c s = Some (OF_SUCCESS, s') \<and>
       ch_msg_state (cs_chan s' c) = CHN_WAITING_FOR_COMPLETE_MSG \<and> cs_rx s' c = r))"
proof -
  have x: "open_channel (cs_chan s c)" "ch_msg_hdr (cs_chan s c) = h" "ch_msg_state (cs_chan s c) = CHN_WAITING_FOR_COMPLETE_MSG"
    "ch_msg_len_read (cs_chan s c) = of_nat j" "om_ptr1 m = 8" "om_length1 m = of_nat (8 + j)"
    using assms(4,5) by (auto simp: body_read_def)
  let ?L = "8 + length body"
  have L: "?L < 256" using unat_u8_less[of "h ! 3"] assms(3) by simp
  define todo where "todo = (ucast (host_length e h) :: u32) - ucast (om_length1 m)"
  have hl: "unat (host_length e h) = 256 * ?L" by (rule swapped_length(1)[OF assms(1-3)])
  have "unat (ucast (om_length1 m) :: u32) = 8 + j"
    unfolding x(6) using L assms(8) by (simp add: unsigned_ucast_eq unsigned_of_nat take_bit_nat_eq_self del: of_nat_add)
  moreover have "unat (ucast (host_length e h) :: u32) = 256 * ?L"
    using hl L by (simp add: unsigned_ucast_eq take_bit_nat_eq_self)
  ultimately have todo: "unat todo = 256 * ?L - (8 + j)"
    unfolding todo_def using assms(8) by (subst unat_sub) (simp_all add: word_le_nat_alt)
  then have todo16: "unat (ucast todo :: u16) = 256 * ?L - (8 + j)"
    using L by (simp add: unsigned_ucast_eq take_bit_nat_eq_self)
  have more: "256 * ?L - (8 + j) > length body" using assms(8) by simp
  have nz: "todo \<noteq> 0" "(ucast todo :: u16) \<noteq> 0" "host_length e h \<noteq> 0"
    using todo todo16 hl more by force+
  have j8: "unat (of_nat j :: u8) = j" "(of_nat j :: u8) \<noteq> 0"
    using assms(7,8) L by (simp_all add: unat_of_nat word_of_nat_eq_0_iff) (auto dest: dvd_imp_le)
  have r1: "fire (fsm_run e) READ_EVENT c s = read_complete_msg e (dispatch 3 e) c (set_event c READ_EVENT s)"
    using x(3) by (simp add: fire_read[OF x(1)] fsm_xprt_proto_channel_read_def set_event_def)
  let ?s0 = "set_event c READ_EVENT s"
  have ev: "ch_msg_buf (cs_chan ?s0 c) = Some m" "host_length e h = host_length e (ch_msg_hdr (cs_chan ?s0 c))"
    "ch_msg_len_read (cs_chan ?s0 c) = of_nat j" "cs_rx ?s0 c = Rx b # r"
    using assms(5,9) x by (simp_all add: set_event_def)
  have lr: "ch_msg_len_read (cs_chan ?s0 c) \<noteq> 0" unfolding ev(3) by (rule j8(2))
  show ?thesis
  proof (cases "length b < length body - j")
    case False
    then have "b \<noteq> []" using assms(8) by auto
    note t = tcp_read_chunk[OF nz(2) ev(4) this]
    let ?bs = "take (unat (ucast todo :: u16)) b"
    have big: "length ?bs > length body - j" if "length b > length body - j" using that more todo16 by simp
    have whole: "?bs = b" "\<not> unat (ucast todo :: u16) < length b" if "length b = length body - j" using that more todo16 by simp_all
    have over: "write_at (om_ptr1 m + unat (ch_msg_len_read (cs_chan ?s0 c))) ?bs (om_data m) = None"
      if "length b > length body - j"
    proof -
      have "\<not> 8 + j + length ?bs \<le> length (om_data m)" using big[OF that] assms(6,8) by linarith
      then show ?thesis unfolding ev(3) j8 x(5) write_at_def by (rule if_not_P)
    qed
    have fits: "\<exists>d. write_at (om_ptr1 m + unat (ch_msg_len_read (cs_chan ?s0 c))) ?bs (om_data m) = Some d"
      if "length b = length body - j"
      using that assms(6,8) unfolding ev(3) j8 x(5) whole(1)[OF that] by (simp add: write_at_def)
    have "fire (fsm_run e) READ_EVENT c s = None" if "length b > length body - j"
      unfolding r1 by (rule read_complete_overflow[OF ev(1,2) nz(3) lr todo_def nz(1) t over[OF that]])
    moreover have "\<exists>s'. fire (fsm_run e) READ_EVENT c s = Some (OF_SUCCESS, s') \<and>
       ch_msg_state (cs_chan s' c) = CHN_WAITING_FOR_COMPLETE_MSG \<and> cs_rx s' c = r" if l: "length b = length body - j"
    proof -
      obtain d where d: "write_at (om_ptr1 m + unat (ch_msg_len_read (cs_chan ?s0 c))) ?bs (om_data m) = Some d" using fits[OF l] by blast
      have ne: "length ?bs \<noteq> unat todo" using todo todo16 l more whole(1)[OF l] by simp
      show ?thesis
        unfolding r1 read_complete_data[OF ev(1,2) nz(3) lr todo_def nz(1) t d] if_not_P[OF ne]
        using x(3) whole[OF l] by (simp add: set_event_def)
    qed
    ultimately show ?thesis by blast
  qed simp
qed

section \<open>Concrete channels\<close>

text \<open>A header of a message of 12 bytes.\<close>

definition demo_header :: "u8 list" where "demo_header = [4, 10, 0, 12, 0, 0, 0, 1]"

definition demo_rx :: "u8 list list \<Rightarrow> chan_sys" where
  "demo_rx fs = demo_chan_sys\<lparr>cs_rx := (\<lambda>_. map Rx fs)\<rparr>"

definition demo_body :: "u8 list list \<Rightarrow> chan_sys" where
  "demo_body fs = upd_ch 3 (\<lambda>x. x\<lparr>ch_msg_state := CHN_START_READING_MSG, ch_msg_hdr := demo_header\<rparr>) (demo_rx fs)"

definition demo_alloc :: msg_alloc where
  "demo_alloc = \<lparr>al_ofu = (\<lambda>_ n. Some (replicate (unat n) 0)), al_pktbuf = Some (\<lambda>n. Some (replicate (unat n) 0))\<rparr>"

definition demo_prim :: async_msg_mem_primitive where
  "demo_prim = \<lparr>mp_is_configured = False, mp_head_room_size = 0, mp_msg_alloc_cbk = None\<rparr>"

lemma demo_length: "ntohs_length demo_header = 12" "length demo_header = 8"
  by (simp_all add: ntohs_length_def demo_header_def u16_of_def)

lemma demo_ready: "ready_for_body demo_header (cs_chan (demo_body fs) 3)"
  by (simp add: ready_for_body_def demo_body_def demo_rx_def demo_chan_sys_def demo_channel_def open_channel_def)

theorem chan_header_reassembly_witness:
  "\<exists>k fs'. k \<le> 8 \<and> read_events (demo_chan_env True) k 3 (demo_rx [[4, 10, 0], [12, 0, 0, 0], [1, 8, 8]]) =
      Some (hdr_done 3 [4, 10, 0, 12, 0, 0, 0, 1] (map Rx fs') (demo_rx [[4, 10, 0], [12, 0, 0, 0], [1, 8, 8]])) \<and>
    concat fs' = [8, 8] \<and> (\<forall>b\<in>set fs'. b \<noteq> [])"
proof -
  let ?s = "demo_rx [[4, 10, 0], [12, 0, 0, 0], [1, 8, 8]]"
  have "open_channel (cs_chan ?s 3)" "ch_msg_state (cs_chan ?s 3) = CHN_WAITING_FOR_NEW_MSG"
    "length (ch_msg_hdr (cs_chan ?s 3)) = 8" "cs_rx ?s 3 = map Rx [[4, 10, 0], [12, 0, 0, 0], [1, 8, 8]]"
    by (simp_all add: demo_rx_def demo_chan_sys_def demo_channel_def open_channel_def)
  from chan_header_reassembly[OF this, of "demo_chan_env True"] show ?thesis by simp
qed

theorem chan_body_reassembly_witness:
  "\<exists>s1 k s' fs'. of_alloc_and_read_async_message (demo_chan_env False) (fsm_run (demo_chan_env False)) demo_alloc demo_prim demo_prim 3
      (demo_body [[1], [2, 3], [4, 5]]) = Some (1, s1) \<and>
    read_events (demo_chan_env False) k 3 s1 = Some s' \<and> body_done demo_header [1, 2, 3, 4] (cs_chan s' 3) \<and>
    cs_rx s' 3 = map Rx fs' \<and> concat fs' = [5]"
proof -
  have al: "alloc_async_buf demo_alloc demo_prim demo_prim (demo_header ! 1) (ntohs_length demo_header)
      (ch_msg_buf (cs_chan (demo_body [[1], [2, 3], [4, 5]]) 3)) = Some (Some (new_msg (replicate 12 0)), 0, 1)"
    using demo_length(1) by (simp add: alloc_async_buf_def demo_prim_def demo_alloc_def demo_header_def)
  have le: "\<not> en_little_endian (demo_chan_env False)" by (simp add: demo_chan_env_def)
  have rx: "cs_rx (demo_body [[1], [2, 3], [4, 5]]) 3 = map Rx [[1], [2, 3], [4, 5]]"
    by (simp add: demo_body_def demo_rx_def)
  show ?thesis
    using chan_body_reassembly[OF le demo_ready demo_length(2) _ _ _ al _ _ rx, of "[1, 2, 3, 4]" "fsm_run (demo_chan_env False)"]
    by (simp add: demo_length)
qed

theorem chan_little_endian_overflow_witness:
  "fire (fsm_run (demo_chan_env True)) READ_EVENT 3
     (upd_ch 3 (\<lambda>x. x\<lparr>ch_msg_state := CHN_WAITING_FOR_COMPLETE_MSG, ch_msg_len_read := 1, ch_msg_hdr := demo_header,
        ch_msg_buf := Some \<lparr>om_data = demo_header @ [1, 0, 0, 0], om_ptr1 = 8, om_length1 = 9, om_data_len = 8\<rparr>\<rparr>)
      (demo_rx [[2, 3, 4, 5]])) = None"
proof -
  let ?m = "\<lparr>om_data = demo_header @ [1, 0, 0, 0], om_ptr1 = 8, om_length1 = 9, om_data_len = 8\<rparr>"
  let ?s = "upd_ch 3 (\<lambda>x. x\<lparr>ch_msg_state := CHN_WAITING_FOR_COMPLETE_MSG, ch_msg_len_read := 1, ch_msg_hdr := demo_header,
        ch_msg_buf := Some ?m\<rparr>) (demo_rx [[2, 3, 4, 5]])"
  have b: "body_read demo_header [1, 2, 3, 4] 1 (cs_chan ?s 3)"
    by (simp add: body_read_def demo_rx_def demo_chan_sys_def demo_channel_def open_channel_def demo_length)
  show ?thesis
    using chan_little_endian_overflow[OF _ _ _ b, of "demo_chan_env True" ?m "[2, 3, 4, 5]" "[]"]
    by (simp add: demo_chan_env_def demo_header_def demo_rx_def)
qed

end
