(* ===== verification/Channel_Faults.thy ===== *)
theory Channel_Faults
  imports Channel_Msg
begin

text \<open>
  Messages a channel does not put together: a reply whose body arrives in pieces, and a body that has
  not arrived when its header is handled.
\<close>

section \<open>A reply in pieces\<close>

lemma alloc_and_read_data:
  assumes "ch_msg_hdr (cs_chan s c) = h" "ch_msg_state (cs_chan s c) = CHN_START_READING_MSG"
    "al_ofu al (h ! 1) (ntohs_length h) = Some d" "start_msg h (new_msg d) = Some m" "ntohs_length h - 8 \<noteq> 0"
    "read_body e f c (ntohs_length h - 8) (upd_ch c (ch_msg_buf_update (\<lambda>_. Some m)) s) = Some (OF_SUCCESS, k, s2)"
    "k \<noteq> unat (ntohs_length h - 8)"
  shows "of_alloc_and_read_message_from_dp e f al c s = Some (OF_SUCCESS, set_msg_state c CHN_WAITING_FOR_COMPLETE_MSG
      (upd_msg c (\<lambda>m. m\<lparr>om_ptr1 := om_ptr1 m + k, om_length1 := om_length1 m + of_nat k\<rparr>) s2))"
  using assms unfolding of_alloc_and_read_message_from_dp_def Let_def by simp

text \<open>A channel that waits for the rest of a body but has counted no byte of it.\<close>

definition stuck_channel :: "cntlr_channel_info \<Rightarrow> bool" where
  "stuck_channel x \<longleftrightarrow> open_channel x \<and> ch_msg_state x = CHN_WAITING_FOR_COMPLETE_MSG \<and> ch_msg_len_read x = 0 \<and> ch_msg_buf x \<noteq> None"

lemma stuck_read:
  assumes "stuck_channel (cs_chan s c)" "invalid_channel_state_g s < 9"
  shows "fire (fsm_run e) READ_EVENT c s = Some (OF_SUCCESS,
    (set_event c READ_EVENT s)\<lparr>invalid_channel_state_g := invalid_channel_state_g s + 1\<rparr>)"
proof -
  have o: "open_channel (cs_chan s c)" using assms(1) by (simp add: stuck_channel_def)
  obtain m where "ch_msg_buf (cs_chan s c) = Some m" using assms(1) by (auto simp: stuck_channel_def)
  then show ?thesis using assms
    by (simp add: fire_read[OF o] fsm_xprt_proto_channel_read_def set_event_def stuck_channel_def read_complete_msg_def
        invalid_channel_state_def)
qed

lemma stuck_close:
  assumes "stuck_channel (cs_chan s c)" "9 \<le> invalid_channel_state_g s"
  shows "fire (fsm_run e) READ_EVENT c s = map_option (\<lambda>(_, s'). (OF_SUCCESS, s'))
    (fire (fsm_run e) CLOSE_EVENT c (s\<lparr>invalid_channel_state_g := invalid_channel_state_g s + 1\<rparr>))"
proof -
  have o: "open_channel (cs_chan s c)" using assms(1) by (simp add: stuck_channel_def)
  obtain m where m: "ch_msg_buf (cs_chan s c) = Some m" using assms(1) by (auto simp: stuck_channel_def)
  let ?s = "(set_event c READ_EVENT s)\<lparr>invalid_channel_state_g := invalid_channel_state_g s + 1\<rparr>"
  have "set_event c CLOSE_EVENT ?s = set_event c CLOSE_EVENT (s\<lparr>invalid_channel_state_g := invalid_channel_state_g s + 1\<rparr>)"
    by (simp add: set_event_def upd_ch_def)
  moreover have "dispatch 3 e c a r = fsm_run e c a r" if "event_rank (ch_fsm_event (cs_chan r c)) \<le> 3" for a r
    using dispatch_stable[OF that, of 1] by (simp add: fsm_run_def)
  ultimately have "fire (dispatch 3 e) CLOSE_EVENT c ?s =
      fire (fsm_run e) CLOSE_EVENT c (s\<lparr>invalid_channel_state_g := invalid_channel_state_g s + 1\<rparr>)"
    by (simp add: fire_def set_event_def upd_ch_def)
  then show ?thesis using assms m
    by (simp add: fire_read[OF o] fsm_xprt_proto_channel_read_def stuck_channel_def read_complete_msg_def
        invalid_channel_state_def fsm_send_channel_event_def set_event_def map_option_case split: option.split Option.bind_split)
qed

lemma stuck_reads:
  "stuck_channel (cs_chan s c) \<Longrightarrow> invalid_channel_state_g s + int k \<le> 9 \<Longrightarrow>
   \<exists>s'. read_events e k c s = Some s' \<and> stuck_channel (cs_chan s' c) \<and> cs_rx s' = cs_rx s \<and>
     ch_msg_buf (cs_chan s' c) = ch_msg_buf (cs_chan s c) \<and> invalid_channel_state_g s' = invalid_channel_state_g s + int k"
proof (induction k arbitrary: s)
  case (Suc k)
  let ?s = "(set_event c READ_EVENT s)\<lparr>invalid_channel_state_g := invalid_channel_state_g s + 1\<rparr>"
  have "stuck_channel (cs_chan ?s c)" "invalid_channel_state_g ?s + int k \<le> 9"
    using Suc.prems by (simp_all add: stuck_channel_def set_event_def open_channel_def)
  from Suc.IH[OF this] stuck_read[OF Suc.prems(1), of e] Suc.prems(2) show ?case
    by (simp add: set_event_def add.assoc)
qed simp

text \<open>A message that is not asynchronous and whose body arrives in more than one piece is never
  completed: the handler reads the first piece without counting it in \<^verbatim>\<open>msg_len_read\<close>, so every later read
  event takes the state of the channel for invalid and reads nothing, although the rest of the message is
  there. The tenth event so counted (over all channels) closes the channel.\<close>

theorem chan_fragmented_reply_stuck:
  assumes "ready_for_body h (cs_chan s c)" "ch_msg_len_read (cs_chan s c) = 0" "length h = 8"
    "unat (ntohs_length h) = 8 + length body" "al_ofu al (h ! 1) (ntohs_length h) = Some d" "8 + length body \<le> length d"
    "cs_rx s c = map Rx (b # fs)" "b \<noteq> []" "length b < length body" "body = take (length body) (b @ concat fs)"
  shows "\<exists>s1. of_alloc_and_read_message_from_dp e f al c s = Some (OF_SUCCESS, s1) \<and>
    cs_rx s1 c = map Rx fs \<and> (\<forall>k. invalid_channel_state_g s + int k \<le> 9 \<longrightarrow>
      (\<exists>s2. read_events e k c s1 = Some s2 \<and> ch_msg_state (cs_chan s2 c) = CHN_WAITING_FOR_COMPLETE_MSG \<and>
         ch_msg_buf (cs_chan s2 c) = ch_msg_buf (cs_chan s1 c) \<and> cs_rx s2 c = map Rx fs \<and>
         (invalid_channel_state_g s + int k = 9 \<longrightarrow> fire (fsm_run e) READ_EVENT c s2 = map_option (\<lambda>(_, s'). (OF_SUCCESS, s'))
            (fire (fsm_run e) CLOSE_EVENT c (s2\<lparr>invalid_channel_state_g := 10\<rparr>)))))"
proof -
  let ?N = "length body" and ?todo = "ntohs_length h - 8"
  define m where "m = \<lparr>om_data = h @ drop 8 d, om_ptr1 = 8, om_length1 = 8, om_data_len = 8\<rparr>"
  define s0 where "s0 = upd_ch c (ch_msg_buf_update (\<lambda>_. Some m)) s"
  have x: "open_channel (cs_chan s c)" "ch_msg_hdr (cs_chan s c) = h" "ch_msg_state (cs_chan s c) = CHN_START_READING_MSG"
    using assms(1) by (simp_all add: ready_for_body_def)
  have todo: "unat ?todo = ?N" using assms(4) by (subst unat_sub) (simp_all add: word_le_nat_alt)
  then have todo0: "?todo \<noteq> 0" using assms(9) by (metis unat_0 not_less_zero)
  obtain d' where d': "write_at 8 (take ?N b) (h @ drop 8 d) = Some d'"
    using write_first[OF assms(3,6,10)] by blast
  have b0: "ch_msg_buf (cs_chan s0 c) = Some m" "cs_rx s0 c = map Rx (b # fs)" using assms(7) by (simp_all add: s0_def)
  have "write_at (om_ptr1 m) (take (unat ?todo) b) (om_data m) = Some d'" using d' unfolding todo m_def by simp
  note rd = read_body_ok[OF b0(1) todo0 b0(2) assms(8) this, unfolded todo, of e f]
  let ?s2 = "body_got c ?N b fs (m\<lparr>om_data := d'\<rparr>) s0"
  have l: "length (take ?N b) = length b" and rest: "rest_rx ?N b fs = fs" using assms(9) by (simp_all add: rest_rx_def)
  have ne: "length (take ?N b) \<noteq> unat ?todo" using assms(9) unfolding l todo by simp
  define s1 where "s1 = set_msg_state c CHN_WAITING_FOR_COMPLETE_MSG
      (upd_msg c (\<lambda>m. m\<lparr>om_ptr1 := om_ptr1 m + length b, om_length1 := om_length1 m + of_nat (length b)\<rparr>) ?s2)"
  have run: "of_alloc_and_read_message_from_dp e f al c s = Some (OF_SUCCESS, s1)"
    using alloc_and_read_data[OF x(2,3) assms(5) start_msg_ok[OF assms(3,6), folded m_def] todo0 rd[unfolded s0_def] ne]
    unfolding l s1_def s0_def .
  have rx: "cs_rx s1 c = map Rx fs" by (simp add: s1_def set_msg_state_def upd_msg_def body_got_fields rest)
  have st: "stuck_channel (cs_chan s1 c)"
    using x(1) assms(2) by (simp add: s1_def set_msg_state_def upd_msg_def body_got_fields stuck_channel_def open_channel_def s0_def)
  have inv: "invalid_channel_state_g s1 = invalid_channel_state_g s"
    by (simp add: s1_def set_msg_state_def upd_msg_def body_got_def s0_def)
  have "\<exists>s2. read_events e k c s1 = Some s2 \<and> ch_msg_state (cs_chan s2 c) = CHN_WAITING_FOR_COMPLETE_MSG \<and>
         ch_msg_buf (cs_chan s2 c) = ch_msg_buf (cs_chan s1 c) \<and> cs_rx s2 c = map Rx fs \<and>
         (invalid_channel_state_g s + int k = 9 \<longrightarrow> fire (fsm_run e) READ_EVENT c s2 = map_option (\<lambda>(_, s'). (OF_SUCCESS, s'))
            (fire (fsm_run e) CLOSE_EVENT c (s2\<lparr>invalid_channel_state_g := 10\<rparr>)))"
    if k: "invalid_channel_state_g s + int k \<le> 9" for k
  proof -
    obtain s2 where s2: "read_events e k c s1 = Some s2" "stuck_channel (cs_chan s2 c)" "cs_rx s2 = cs_rx s1"
      "ch_msg_buf (cs_chan s2 c) = ch_msg_buf (cs_chan s1 c)" "invalid_channel_state_g s2 = invalid_channel_state_g s + int k"
      using stuck_reads[OF st, of k e] k inv by auto
    then show ?thesis using stuck_close[OF s2(2), of e] rx by (intro exI[of _ s2]) (simp add: stuck_channel_def)
  qed
  then show ?thesis using run rx by blast
qed

section \<open>A body that has not arrived\<close>

lemma drain_length: "(ucast (ucast (x :: u16) - 8 :: u32) :: u16) = x - 8"
  by (simp add: word_uint_eq_iff unsigned_ucast_eq uint_word_ariths take_bit_eq_mod mod_simps mod_mod_cancel)

lemma u16_positive: "n \<noteq> (0 :: u16) \<Longrightarrow> \<not> uint n \<le> 0"
  by (metis unsigned_greater_eq unsigned_eq_0_iff order_antisym)

lemma drain_piece: "n \<noteq> (0 :: u16) \<Longrightarrow> (of_int (min (uint n) DRAIN_OUT_LENGTH) :: u16) \<noteq> 0"
proof -
  assume "n \<noteq> 0"
  then have "0 < uint n" using u16_positive[of n] by linarith
  then show ?thesis using zdvd_imp_le[of 65536 "uint n"] by (auto simp: min_def word_of_int_eq_0_iff)
qed

text \<open>Without data, the nested read error drains nothing and resets the channel.\<close>

lemma no_data_read:
  assumes "cs_rx s c = []" "n \<noteq> 0" "open_channel (cs_chan s c)" "ch_fsm_event (cs_chan s c) \<noteq> READ_FAIL_EVENT"
    "host_length e (ch_msg_hdr (cs_chan s c)) \<noteq> 8"
  shows "\<exists>s1. fsm_xprt_proto_channel_read_msg_from_dp e (fsm_run e) c n s = Some (OF_FAILURE, [], s1) \<and>
    cs_chan s1 = (cs_chan s)(c := (cs_chan s c)\<lparr>ch_fsm_event := READ_FAIL_EVENT,
      ch_msg_state := CHN_WAITING_FOR_NEW_MSG, ch_drain_out_bytes := 0\<rparr>) \<and> cs_rx s1 = cs_rx s"
proof -
  define s3 where "s3 = set_event c READ_FAIL_EVENT (upd_ch c (\<lambda>x. x\<lparr>ch_drain_out_bytes := ucast (host_length e (ch_msg_hdr x)) - 8\<rparr>)
    (upd_ch c (ch_msg_state_update (\<lambda>_. CHN_DRAIN_OUT_COMPLETE_MSG)) s))"
  define n16 :: u16 where "n16 = ucast (ucast (host_length e (ch_msg_hdr (cs_chan s c))) - 8 :: u32)"
  have "n16 = host_length e (ch_msg_hdr (cs_chan s c)) - 8"
    unfolding n16_def by (rule drain_length)
  then have n16: "n16 \<noteq> 0" using assms(5) by simp
  have s3: "cs_rx s3 c = []" "ch_fsm_event (cs_chan s3 c) = READ_FAIL_EVENT" "ch_fsm_state (cs_chan s3 c) = ch_fsm_state (cs_chan s c)"
    "ch_msg_state (cs_chan s3 c) = CHN_DRAIN_OUT_COMPLETE_MSG" "ucast (ch_drain_out_bytes (cs_chan s3 c)) = n16"
    using assms(1) by (simp_all add: s3_def set_event_def n16_def)
  have quiet: "fsm_xprt_proto_channel_read_msg_from_dp e f c k s3 = Some (OF_FAILURE, [],
      upd_ch c (ch_msg_state_update (\<lambda>_. CHN_DRAIN_OUT_COMPLETE_MSG)) s3)" if "k \<noteq> 0" for f k
    using s3(1,2) that by (simp add: fsm_xprt_proto_channel_read_msg_from_dp_def tcp_transport_read_data_def)
  have drain: "of_drain_out_socket_buf e f c n16 s3 = Some (OF_FAILURE,
      upd_ch c (\<lambda>x. x\<lparr>ch_msg_state := CHN_WAITING_FOR_NEW_MSG, ch_drain_out_bytes := 0\<rparr>)
        (upd_ch c (ch_msg_state_update (\<lambda>_. CHN_DRAIN_OUT_COMPLETE_MSG)) s3))" for f
  proof -
    obtain r where r: "unat n16 = Suc r" using n16 by (metis not0_implies_Suc unat_eq_zero)
    show ?thesis
      unfolding of_drain_out_socket_buf_def r drain_loop.simps[of e f c "Suc r"] quiet[OF drain_piece[OF n16]]
        if_not_P[OF u16_positive[OF n16]] nat.case by simp
  qed
  have "cntlr_xprt_proto_channel_fsm_handler (ch_fsm_state (cs_chan s c)) READ_FAIL_EVENT = Some H_read_error"
    using assms(3) by (auto simp: open_channel_def)
  then have "fsm_run e c None s3 = Some (OF_FAILURE,
      upd_ch c (\<lambda>x. x\<lparr>ch_msg_state := CHN_WAITING_FOR_NEW_MSG, ch_drain_out_bytes := 0\<rparr>)
        (upd_ch c (ch_msg_state_update (\<lambda>_. CHN_DRAIN_OUT_COMPLETE_MSG)) s3))"
    using s3 drain by (simp add: fsm_run_def eval_nat_numeral fsm_xprt_proto_channel_read_error_def)
  moreover have "fsm_xprt_proto_channel_read_msg_from_dp e (fsm_run e) c n s =
      Option.bind (fsm_run e c None s3) (\<lambda>(_, s4). Some (OF_FAILURE, [], s4))"
    using assms(1,2,4) by (simp add: fsm_xprt_proto_channel_read_msg_from_dp_def tcp_transport_read_data_def fire_def s3_def)
  ultimately show ?thesis by (simp add: s3_def set_event_def)
qed

text \<open>A body that has not arrived when its header is handled is lost, and with it the framing of the
  stream. The handler fails and frees the buffer, and the channel waits for a new message although the whole
  body is still to come: when it arrives, its first eight bytes are taken for the header of a message.\<close>

theorem chan_late_body_misread:
  assumes "ready_for_body h (cs_chan s c)" "ch_fsm_event (cs_chan s c) = READ_EVENT" "length h = 8"
    "8 < unat (ntohs_length h)" "host_length e h \<noteq> 8" "al_ofu al (h ! 1) (ntohs_length h) = Some d"
    "unat (ntohs_length h) \<le> length d" "cs_rx s c = []"
    "\<forall>b\<in>set fs. b \<noteq> []" "8 \<le> length (concat fs)"
  shows "\<exists>s1 k s2. of_alloc_and_read_message_from_dp e (fsm_run e) al c s = Some (OF_FAILURE, s1) \<and>
    ch_msg_buf (cs_chan s1 c) = None \<and> ch_msg_state (cs_chan s1 c) = CHN_WAITING_FOR_NEW_MSG \<and>
    read_events e k c (s1\<lparr>cs_rx := (cs_rx s1)(c := map Rx fs)\<rparr>) = Some s2 \<and>
    ch_msg_state (cs_chan s2 c) = CHN_START_READING_MSG \<and> ch_msg_hdr (cs_chan s2 c) = take 8 (concat fs)"
proof -
  define m where "m = \<lparr>om_data = h @ drop 8 d, om_ptr1 = 8, om_length1 = 8, om_data_len = 8\<rparr>"
  define s0 where "s0 = upd_ch c (ch_msg_buf_update (\<lambda>_. Some m)) s"
  have x: "open_channel (cs_chan s c)" "ch_msg_hdr (cs_chan s c) = h" "ch_msg_state (cs_chan s c) = CHN_START_READING_MSG"
    using assms(1) by (simp_all add: ready_for_body_def)
  have todo0: "ntohs_length h - 8 \<noteq> 0" using assms(4) by auto
  have sm: "start_msg h (new_msg d) = Some m"
    using start_msg_ok[OF assms(3), of "unat (ntohs_length h) - 8" d] assms(4,7) by (simp add: m_def)
  have s0: "cs_rx s0 c = []" "open_channel (cs_chan s0 c)" "ch_fsm_event (cs_chan s0 c) \<noteq> READ_FAIL_EVENT"
    "host_length e (ch_msg_hdr (cs_chan s0 c)) \<noteq> 8"
    using x assms(2,5,8) by (simp_all add: s0_def open_channel_def)
  obtain s1 where s1: "fsm_xprt_proto_channel_read_msg_from_dp e (fsm_run e) c (ntohs_length h - 8) s0 = Some (OF_FAILURE, [], s1)"
    "cs_chan s1 = (cs_chan s0)(c := (cs_chan s0 c)\<lparr>ch_fsm_event := READ_FAIL_EVENT,
      ch_msg_state := CHN_WAITING_FOR_NEW_MSG, ch_drain_out_bytes := 0\<rparr>)" "cs_rx s1 = cs_rx s0"
    using no_data_read[OF s0(1) todo0 s0(2,3,4)] by blast
  let ?s2 = "upd_ch c (ch_msg_buf_update (\<lambda>_. None)) (call (Free_msg m) s1)"
  have run: "of_alloc_and_read_message_from_dp e (fsm_run e) al c s = Some (OF_FAILURE, ?s2)"
    using x(2,3) assms(6) sm todo0 s1(1)
    by (simp add: of_alloc_and_read_message_from_dp_def Let_def s0_def read_body_def)
  let ?s3 = "?s2\<lparr>cs_rx := (cs_rx ?s2)(c := map Rx fs)\<rparr>"
  have "open_channel (cs_chan ?s3 c)" "ch_msg_state (cs_chan ?s3 c) = CHN_WAITING_FOR_NEW_MSG"
    "length (ch_msg_hdr (cs_chan ?s3 c)) = 8" "cs_rx ?s3 c = map Rx fs"
    using x(1,2) assms(3) by (simp_all add: s1(2) s0_def open_channel_def)
  from header_reassembled[OF this assms(9,10), of e] obtain k fs' where
    k: "read_events e k c ?s3 = Some (hdr_done c (take 8 (concat fs)) (map Rx fs') ?s3)" by blast
  show ?thesis
    by (intro exI conjI, rule run, simp, simp add: s1(2), rule k) (simp_all add: hdr_done_def)
qed

theorem chan_fragmented_reply_stuck_witness:
  "\<exists>s1. of_alloc_and_read_message_from_dp (demo_chan_env False) (fsm_run (demo_chan_env False)) demo_alloc 3
      (demo_body [[1], [2, 3], [4, 5]]) = Some (OF_SUCCESS, s1) \<and>
    cs_rx s1 3 = map Rx [[2, 3], [4, 5]] \<and> (\<forall>k. int k \<le> 9 \<longrightarrow>
      (\<exists>s2. read_events (demo_chan_env False) k 3 s1 = Some s2 \<and> ch_msg_state (cs_chan s2 3) = CHN_WAITING_FOR_COMPLETE_MSG \<and>
         ch_msg_buf (cs_chan s2 3) = ch_msg_buf (cs_chan s1 3) \<and> cs_rx s2 3 = map Rx [[2, 3], [4, 5]] \<and>
         (int k = 9 \<longrightarrow> fire (fsm_run (demo_chan_env False)) READ_EVENT 3 s2 = map_option (\<lambda>(_, s'). (OF_SUCCESS, s'))
            (fire (fsm_run (demo_chan_env False)) CLOSE_EVENT 3 (s2\<lparr>invalid_channel_state_g := 10\<rparr>)))))"
proof -
  let ?s = "demo_body [[1], [2, 3], [4, 5]]"
  have s: "ch_msg_len_read (cs_chan ?s 3) = 0" "cs_rx ?s 3 = map Rx ([1] # [[2, 3], [4, 5]])" "invalid_channel_state_g ?s = 0"
    by (simp_all add: demo_body_def demo_rx_def demo_chan_sys_def demo_channel_def)
  have al: "al_ofu demo_alloc (demo_header ! 1) (ntohs_length demo_header) = Some (replicate 12 0)"
    by (simp add: demo_alloc_def demo_length)
  show ?thesis
    using chan_fragmented_reply_stuck[OF demo_ready s(1) demo_length(2) _ al _ s(2), of "[1, 2, 3, 4]"]
    by (simp add: demo_length s(3))
qed

theorem chan_late_body_misread_witness:
  "\<exists>s1 k s2. of_alloc_and_read_message_from_dp (demo_chan_env False) (fsm_run (demo_chan_env False)) demo_alloc 3 (demo_body []) =
      Some (OF_FAILURE, s1) \<and>
    ch_msg_buf (cs_chan s1 3) = None \<and> ch_msg_state (cs_chan s1 3) = CHN_WAITING_FOR_NEW_MSG \<and>
    read_events (demo_chan_env False) k 3 (s1\<lparr>cs_rx := (cs_rx s1)(3 := map Rx [[1, 2, 3, 4], [4, 6, 0, 8, 0, 0, 0, 2]])\<rparr>) = Some s2 \<and>
    ch_msg_state (cs_chan s2 3) = CHN_START_READING_MSG \<and> ch_msg_hdr (cs_chan s2 3) = [1, 2, 3, 4, 4, 6, 0, 8]"
proof -
  have s: "ch_fsm_event (cs_chan (demo_body []) 3) = READ_EVENT" "cs_rx (demo_body []) 3 = []"
    by (simp_all add: demo_body_def demo_rx_def demo_chan_sys_def demo_channel_def)
  have al: "al_ofu demo_alloc (demo_header ! 1) (ntohs_length demo_header) = Some (replicate 12 0)"
    by (simp add: demo_alloc_def demo_length)
  have h: "host_length (demo_chan_env False) demo_header \<noteq> 8"
    using demo_length(1) by (simp add: host_length_def ntohs_length_def demo_chan_env_def)
  show ?thesis
    using chan_late_body_misread[OF demo_ready s(1) demo_length(2) _ h al _ s(2), of "[[1, 2, 3, 4], [4, 6, 0, 8, 0, 0, 0, 2]]"]
    by (simp add: demo_length)
qed

end
