(* ===== verification/Channel_Dp.thy ===== *)
theory Channel_Dp
  imports Channel_Msg
begin

text \<open>
  The channels of a datapath. The features reply of a switch attaches its channel to the datapath of its
  id, as the main channel or at the end of the circular list of auxiliary channels
  (\<^verbatim>\<open>transport/base/trnsprt_channel.c\<close>, \<^verbatim>\<open>trnsprt_msg.c\<close>, \<^verbatim>\<open>trnsprt_epoll.c\<close>); \<^verbatim>\<open>dprm/dprm.c\<close> searches and
  enumerates the list. With the keep-alive timers of an attached channel (\<^verbatim>\<open>trnsprt_msg.c\<close>,
  \<^verbatim>\<open>messages/of_symmetric_msgapi.c\<close>, \<^verbatim>\<open>coreapp/cntlr_app.c\<close>) and the release of all channels of a datapath.
\<close>

section \<open>The circular list of auxiliary channels\<close>

text \<open>The block of a new entry is \<open>x\<close>.\<close>

definition append_aux :: "addr \<Rightarrow> addr \<Rightarrow> chan_sys \<Rightarrow> chan_sys option" where
  "append_aux p x s =
    (let s0 = s\<lparr>cs_ent := (cs_ent s)(x \<mapsto> zero_entry)\<rparr>;
         link = (case dp_aux_channels (cs_dp s0 p) of
           None \<Rightarrow> Some ((upd_dp p (\<lambda>q. q\<lparr>dp_aux_channels := Some x, dp_curr_chn_used_2_q_msg := Some x\<rparr>) s0)
             \<lparr>cs_ent := (cs_ent s0)(x \<mapsto> zero_entry\<lparr>ce_prev := Some x\<rparr>)\<rparr>)
         | Some _ \<Rightarrow> (case dp_aux_chn_tail (cs_dp s0 p) of None \<Rightarrow> None
             | Some t \<Rightarrow> (case cs_ent s0 t of None \<Rightarrow> None
               | Some en \<Rightarrow> Some (s0\<lparr>cs_ent := (cs_ent s0)(t \<mapsto> en\<lparr>ce_next := Some x\<rparr>, x \<mapsto> zero_entry\<lparr>ce_prev := Some t\<rparr>)\<rparr>))))
     in Option.bind link (\<lambda>s1. case cs_ent s1 x of None \<Rightarrow> None
       | Some en \<Rightarrow> Some (upd_dp p (\<lambda>q. q\<lparr>dp_aux_chn_tail := Some x, dp_curr_no_of_aux_chanels := dp_curr_no_of_aux_chanels q + 1\<rparr>)
           (s1\<lparr>cs_ent := (cs_ent s1)(x \<mapsto> en\<lparr>ce_next := dp_aux_channels (cs_dp s1 p)\<rparr>)\<rparr>))))"

text \<open>A list entry, the main one being a part of the datapath.\<close>

datatype dp_entry = Main_entry addr | Aux_entry addr

text \<open>The search goes round the list once; it may follow a dangling pointer or never meet the head again.
  At most \<open>rounds\<close> entries are visited.\<close>

fun aux_search :: "(addr \<Rightarrow> dprm_dp_channel_entry option) \<Rightarrow> ptr \<Rightarrow> u32 \<Rightarrow> nat \<Rightarrow> ptr \<Rightarrow> ptr option" where
  "aux_search ent head i rounds cur =
    (case rounds of 0 \<Rightarrow> None
     | Suc k \<Rightarrow> (case cur of None \<Rightarrow> None
       | Some x \<Rightarrow> (case ent x of None \<Rightarrow> None
         | Some en \<Rightarrow> if ce_auxiliary_id en = i then Some (Some x)
             else if ce_next en = head then Some None else aux_search ent head i k (ce_next en))))"

declare aux_search.simps [simp del]

text \<open>The outer option is \<^term>\<open>None\<close> when the operation is undefined: the result of the lookup is compared with
  \<^verbatim>\<open>OF_FAILURE\<close>, which it never is, so an unknown handle makes \<^verbatim>\<open>datapath\<close> NULL.\<close>

definition of_get_dp_channel :: "chan_env \<Rightarrow> nat \<Rightarrow> u64 \<Rightarrow> u32 \<Rightarrow> chan_sys \<Rightarrow> dp_entry option option" where
  "of_get_dp_channel e rounds h i s =
    (case en_dp_byhandle e h of None \<Rightarrow> None
     | Some p \<Rightarrow> if i = 0 then Some (Some (Main_entry p))
         else map_option (map_option Aux_entry)
           (aux_search (cs_ent s) (dp_aux_channels (cs_dp s p)) i rounds (dp_aux_channels (cs_dp s p))))"

definition of_get_first_aux_channel :: "addr \<Rightarrow> chan_sys \<Rightarrow> ptr" where
  "of_get_first_aux_channel p s = dp_aux_channels (cs_dp s p)"

definition of_get_next_aux_channel :: "addr \<Rightarrow> addr \<Rightarrow> chan_sys \<Rightarrow> ptr option" where
  "of_get_next_aux_channel p x s =
    (case cs_ent s x of None \<Rightarrow> None
     | Some en \<Rightarrow> Some (if ce_next en = dp_aux_channels (cs_dp s p) then None else ce_next en))"

section \<open>Attaching a channel to a datapath\<close>

text \<open>The fields of a features reply behind its header, in network order.\<close>

definition u32_of :: "u8 list \<Rightarrow> u32" where
  "u32_of b = foldl (\<lambda>a x. push_bit 8 a OR ucast x) 0 b"

definition u64_of :: "u8 list \<Rightarrow> u64" where
  "u64_of b = foldl (\<lambda>a x. push_bit 8 a OR ucast x) 0 b"

record ofp_switch_features =
  sf_datapath_id :: u64
  sf_n_buffers :: u32
  sf_n_tables :: u8
  sf_auxiliary_id :: u8
  sf_capabilities :: u32

definition features_of :: "u8 list \<Rightarrow> ofp_switch_features" where
  "features_of b = \<lparr>sf_datapath_id = u64_of (take 8 b), sf_n_buffers = u32_of (take 4 (drop 8 b)),
     sf_n_tables = b ! 12, sf_auxiliary_id = b ! 13, sf_capabilities = u32_of (take 4 (drop 16 b))\<rparr>"

text \<open>What is remembered in the entry of an attached channel.\<close>

definition fill_entry :: "ptr \<Rightarrow> u64 \<Rightarrow> addr \<Rightarrow> u32 \<times> u32 \<Rightarrow> dprm_dp_channel_entry \<Rightarrow> dprm_dp_channel_entry" where
  "fill_entry tb h p ref en = en\<lparr>ce_conn_table := tb, ce_dp_handle := h, ce_datapath := Some p, ce_conn_safe_ref := ref\<rparr>"

text \<open>The code, and the datapath with its handle on success.\<close>

definition of_add_channel_to_dp ::
  "chan_env \<Rightarrow> addr \<Rightarrow> u32 \<times> u32 \<Rightarrow> ofp_switch_features \<Rightarrow> chan_sys \<Rightarrow> (int \<times> (addr \<times> u64) option \<times> chan_sys) option" where
  "of_add_channel_to_dp e tb ref f s =
    (case en_dp_handle e (sf_datapath_id f) of
       None \<Rightarrow> Some (if en_first_dp e then OF_FAILURE else OF_FAILURE_DP_INVALID, None, s)
     | Some h \<Rightarrow> (case en_dp_byhandle e h of None \<Rightarrow> Some (OF_FAILURE, None, s)
       | Some p \<Rightarrow>
         let main = (\<not> dp_is_main_conn_present (cs_dp s p)) in
         if sf_auxiliary_id f \<noteq> OF_TRNSPRT_MAIN_CONN_ID \<and> main then Some (OF_FAILURE, None, s)
         else if \<not> main then
           (case en_new_entry e of None \<Rightarrow> Some (OF_FAILURE, None, s)
            | Some x \<Rightarrow> Option.bind (append_aux p x s) (\<lambda>s1. case cs_ent s1 x of None \<Rightarrow> None
              | Some en \<Rightarrow> Some (OF_SUCCESS, Some (p, h), s1\<lparr>cs_ent := (cs_ent s1)
                  (x \<mapsto> fill_entry (Some tb) h p ref (en\<lparr>ce_auxiliary_id := ucast (sf_auxiliary_id f)\<rparr>))\<rparr>)))
         else if \<not> en_tables_ok e then Some (OF_FAILURE, None, s)
         else Some (OF_SUCCESS, Some (p, h), upd_dp p (\<lambda>q. q\<lparr>dp_no_of_buffers := sf_n_buffers f, dp_no_of_tables := sf_n_tables f,
             dp_capabilities := sf_capabilities f, dp_is_main_conn_present := True,
             dp_main_channel := fill_entry (Some tb) h p ref ((dp_main_channel q)\<lparr>ce_auxiliary_id := 0\<rparr>)\<rparr>) s)))"
section \<open>The handshake\<close>

definition set_keep_alive :: "addr \<Rightarrow> u8 \<Rightarrow> chan_sys \<Rightarrow> chan_sys" where
  "set_keep_alive c k = upd_ch c (ch_keep_alive_state_update (\<lambda>_. k))"

text \<open>Configuring the switch over its main channel.\<close>

definition configure_main :: "chan_env \<Rightarrow> addr \<Rightarrow> chan_sys \<Rightarrow> bool \<times> chan_sys" where
  "configure_main e c s =
    (let h = ch_dp_handle (cs_chan s c); s1 = call (Configure_switch h) s in
     if \<not> en_configure_ok e then (False, s1)
     else (en_async_ok e, call (Get_async_cfg h) (call (Send_desc_requests h) s1)))"

text \<open>The status before the error handling at the end: the attachment with the configuration of the switch
  and the start of the keep-alive timer.\<close>

definition attach_channel :: "chan_env \<Rightarrow> addr \<Rightarrow> ofp_switch_features \<Rightarrow> chan_sys \<Rightarrow> (int \<times> chan_sys) option" where
  "attach_channel e c f s =
    (let s1 = upd_ch c (ch_auxiliary_id_update (\<lambda>_. sf_auxiliary_id f)) s in
     case ch_safe_ref (cs_chan s1 c) of None \<Rightarrow> None
     | Some ref \<Rightarrow>
       Option.bind (of_add_channel_to_dp e (xi_connection_tbl (cs_info s1 (ch_trnsprt_info (cs_chan s1 c)))) ref f s1) (\<lambda>(r, dh, s2).
         case dh of None \<Rightarrow> Some (r, s2)
         | Some (p, h) \<Rightarrow>
           Option.bind (fsm_send_channel_event (fsm_run e) c DP_ATTACH_EVENT
               (upd_ch c (\<lambda>x. x\<lparr>ch_datapath := Some p, ch_dp_handle := h\<rparr>) s2)) (\<lambda>s3.
             let s4 = OF_TRNSPRT_CHN_RESET_2_READ_NEW_MSG c s3;
                 (ok, s5) = (if ch_auxiliary_id (cs_chan s4 c) = OF_TRNSPRT_MAIN_CONN_ID then configure_main e c s4 else (True, s4))
             in if \<not> ok then Some (OF_FAILURE, s5)
                else let s6 = call (Timer_start c) (set_keep_alive c KEEP_ALIVE_MSG_READY_TO_SEND s5) in
                  Some (if en_timer_ok e then (OF_SUCCESS, OF_TRNSPRT_CHN_RESET_2_READ_NEW_MSG c s6) else (OF_FAILURE, s6)))))"

definition of_process_feature_reply_msg :: "chan_env \<Rightarrow> addr \<Rightarrow> ofp_switch_features \<Rightarrow> chan_sys \<Rightarrow> (int \<times> chan_sys) option" where
  "of_process_feature_reply_msg e c f s =
    (if ch_is_chn_added_to_dp (cs_chan s c) then Some (OF_SUCCESS, OF_TRNSPRT_CHN_RESET_2_READ_NEW_MSG c s)
     else Option.bind (attach_channel e c f s) (\<lambda>(status, s1).
       if status = OF_FAILURE then map_option (Pair OF_FAILURE) (fsm_send_channel_event (fsm_run e) c CLOSE_EVENT s1)
       else if status = OF_FAILURE_DP_INVALID then
         map_option (Pair OF_FAILURE) (fsm_send_channel_event (fsm_run e) c CLOSE_EVENT (OF_TRNSPRT_CHN_RESET_2_READ_NEW_MSG c s1))
       else Some (OF_SUCCESS, s1)))"

text \<open>The reply is read into a structure on the stack, of which a read in pieces fills only the start.\<close>

definition of_handle_feature_reply_message :: "chan_env \<Rightarrow> addr \<Rightarrow> chan_sys \<Rightarrow> chan_sys option" where
  "of_handle_feature_reply_message e c s =
    (if ch_msg_hdr (cs_chan s c) ! 1 \<noteq> OFPT_FEATURES_REPLY then Some s
     else Option.bind (fsm_xprt_proto_channel_read_msg_from_dp e (fsm_run e) c 24 s) (\<lambda>(r, bs, s1).
       if r \<noteq> OF_SUCCESS then Some s1
       else Option.bind (of_process_feature_reply_msg e c (features_of (bs @ drop (length bs) (en_stack e))) s1) (\<lambda>(r, s2).
         Some (if r = OF_FAILURE then s2 else upd_ch c (ch_state_update (\<lambda>_. CHN_HANDSHAKE_WITH_DP_DONE)) s2))))"

text \<open>Asking for the features of the switch, after a hello message when none has been sent.\<close>

definition request_features :: "chan_env \<Rightarrow> addr \<Rightarrow> chan_sys \<Rightarrow> chan_sys option" where
  "request_features e c s = Option.bind (cntlr_trnsprt_send_handshake_msg e (fsm_run e) c s) (\<lambda>(r, s1).
     Some (if r = OF_FAILURE then s1 else OF_TRNSPRT_CHN_RESET_2_READ_NEW_MSG c
       (upd_ch c (ch_state_update (\<lambda>_. CHN_CONN_REQ_HANDSHAKE_WITH_DP)) s1)))"

text \<open>The rest of a hello message is read into a buffer of 1024 bytes.\<close>

definition of_handle_hello_message :: "chan_env \<Rightarrow> addr \<Rightarrow> chan_sys \<Rightarrow> chan_sys option" where
  "of_handle_hello_message e c s =
    (let h = ch_msg_hdr (cs_chan s c); n = ntohs_length h in
     if h ! 1 \<noteq> OFPT_HELLO then Some s
     else if h ! 0 \<noteq> OFP_VERSION then fsm_send_channel_event (fsm_run e) c ERROR_EVENT s
     else Option.bind
       (if n > 8 then Option.bind (fsm_xprt_proto_channel_read_msg_from_dp e (fsm_run e) c (n - 8) s)
          (\<lambda>(r, bs, s1). if length bs > 1024 then None else Some (r = OF_SUCCESS, s1))
        else Some (True, s))
       (\<lambda>(ok, s1). if \<not> ok then Some s1
         else let s2 = OF_TRNSPRT_CHN_RESET_2_READ_NEW_MSG c s1 in
           if ch_state (cs_chan s2 c) \<ge> CHN_SENT_HELLO_TO_DP then request_features e c s2
           else Option.bind (cntlr_trnsprt_send_hello_msg e (fsm_run e) c s2) (\<lambda>(_, s3).
             request_features e c (OF_TRNSPRT_CHN_RESET_2_READ_NEW_MSG c
               (upd_ch c (ch_state_update (\<lambda>_. CHN_SENT_HELLO_TO_DP)) s3)))))"

definition of_process_handshake_msg :: "chan_env \<Rightarrow> msg_cbk \<Rightarrow> addr \<Rightarrow> chan_sys \<Rightarrow> (int \<times> chan_sys) option" where
  "of_process_handshake_msg e cbk c s =
    (let h = ch_msg_hdr (cs_chan s c) in
     if h ! 0 \<noteq> OFP_VERSION then map_option (Pair OF_FAILURE) (fsm_send_channel_event (fsm_run e) c CLOSE_EVENT s)
     else if \<not> (h ! 1 = OFPT_HELLO \<or> h ! 1 = OFPT_FEATURES_REPLY) then
       map_option (Pair OF_FAILURE) (fsm_send_channel_event (fsm_run e) c CLOSE_EVENT s)
     else if unat (h ! 1) < length cbk then
       (case cbk ! unat (h ! 1) of None \<Rightarrow> Some (OF_FAILURE, s) | Some f \<Rightarrow> map_option (Pair OF_SUCCESS) (f c s))
     else None)"

text \<open>The part of the handler table the handshake uses.\<close>

definition handshake_cbk :: "chan_env \<Rightarrow> msg_cbk" where
  "handshake_cbk e = (replicate 30 None)[0 := Some (of_handle_hello_message e), 6 := Some (of_handle_feature_reply_message e)]"

definition cntlr_trnsprt_handle_handshake :: "chan_env \<Rightarrow> msg_cbk \<Rightarrow> addr \<Rightarrow> poll_events \<Rightarrow> chan_sys \<Rightarrow> chan_sys option" where
  "cntlr_trnsprt_handle_handshake e cbk c ev s =
    (if ev_pollhup ev \<or> ev_pollerr ev then Some s
     else Option.bind (fire (fsm_run e) READ_EVENT c s) (\<lambda>(r, s1).
       if r = OF_FAILURE then Some s1 else map_option snd (of_process_handshake_msg e cbk c s1)))"

section \<open>Keeping a connection alive\<close>

abbreviation (input) CNTLR_SEND_MSG_TO_DP_ERROR :: int where "CNTLR_SEND_MSG_TO_DP_ERROR \<equiv> 11"
abbreviation (input) DPRM_INVALID_DATAPATH_HANDLE :: int where "DPRM_INVALID_DATAPATH_HANDLE \<equiv> 111"

text \<open>The echo request goes to the channel of the auxiliary id \<open>a\<close> of the datapath; its counter is
  incremented when the request has been queued.\<close>

definition ofp_prepare_and_send_echo_request :: "chan_env \<Rightarrow> nat \<Rightarrow> u64 \<Rightarrow> u8 \<Rightarrow> chan_sys \<Rightarrow> (int \<times> chan_sys) option" where
  "ofp_prepare_and_send_echo_request e rounds h a s =
    (if \<not> en_alloc_msg e then Some (OF_FAILURE, s)
     else case en_dp_byhandle e h of None \<Rightarrow> Some (DPRM_INVALID_DATAPATH_HANDLE, s)
     | Some p \<Rightarrow>
       Option.bind
         (if a \<noteq> 0 then Option.bind (of_get_dp_channel e rounds h (ucast a) s) (\<lambda>r. case r of
            Some (Aux_entry x) \<Rightarrow> cs_ent s x | Some (Main_entry p) \<Rightarrow> Some (dp_main_channel (cs_dp s p)) | None \<Rightarrow> None)
          else Some (dp_main_channel (cs_dp s p)))
         (\<lambda>en. case ce_conn_table en of None \<Rightarrow> if a = 0 then Some (OF_FAILURE, s) else None
          | Some tb \<Rightarrow>
            if \<not> en_send_ok e then Some (CNTLR_SEND_MSG_TO_DP_ERROR, s)
            else Option.bind (MCHASH_ACCESS_NODE (fst (ce_conn_safe_ref en)) (snd (ce_conn_safe_ref en)) (cs_tbl s tb)) (\<lambda>r.
              case r of None \<Rightarrow> Some (OF_FAILURE, s) | Some None \<Rightarrow> None
              | Some (Some c) \<Rightarrow> Some (OF_SUCCESS, call (Send_echo c) (upd_ch c (\<lambda>x. x\<lparr>ch_uiKeepAliveCount := ch_uiKeepAliveCount x + 1\<rparr>) s)))))"

abbreviation (input) KEEP_ALIVE_MSG_RESP_RCVD :: u8 where "KEEP_ALIVE_MSG_RESP_RCVD \<equiv> 4"

definition of_transprt_send_keep_alive_msg :: "chan_env \<Rightarrow> nat \<Rightarrow> addr \<Rightarrow> chan_sys \<Rightarrow> chan_sys option" where
  "of_transprt_send_keep_alive_msg e rounds c s =
    Option.bind (ofp_prepare_and_send_echo_request e rounds (ch_dp_handle (cs_chan s c)) (ch_auxiliary_id (cs_chan s c)) s) (\<lambda>(r, s1).
      Some (if r \<noteq> OF_SUCCESS then s1 else call (Resp_timer_start c) (set_keep_alive c KEEP_ALIVE_MSG_SENT s1)))"

definition of_transprt_check_keepalive_response_msg :: "chan_env \<Rightarrow> addr \<Rightarrow> chan_sys \<Rightarrow> chan_sys option" where
  "of_transprt_check_keepalive_response_msg e c s =
    (let k = ch_keep_alive_state (cs_chan s c) in
     if k AND KEEP_ALIVE_MSG_RESP_RCVD = 0 \<and> k AND KEEP_ALIVE_MSG_SENT \<noteq> 0 \<and> ch_uiKeepAliveCount (cs_chan s c) > 3
     then fsm_send_channel_event (fsm_run e) c CLOSE_EVENT s
     else if k AND KEEP_ALIVE_MSG_RESP_RCVD \<noteq> 0
       then Some (upd_ch c (\<lambda>x. x\<lparr>ch_keep_alive_state := KEEP_ALIVE_MSG_READY_TO_SEND, ch_uiKeepAliveCount := 0\<rparr>) s)
     else Some s)"

text \<open>The reply to an echo request, which always marks the main channel.\<close>

definition cntlr_echo_reply_clbk_fn :: "chan_env \<Rightarrow> u64 \<Rightarrow> chan_sys \<Rightarrow> chan_sys option" where
  "cntlr_echo_reply_clbk_fn e h s =
    (case en_dp_byhandle e h of None \<Rightarrow> Some s
     | Some p \<Rightarrow> (case ce_conn_table (dp_main_channel (cs_dp s p)) of None \<Rightarrow> Some s
       | Some tb \<Rightarrow> (let ref = ce_conn_safe_ref (dp_main_channel (cs_dp s p)) in
           Option.bind (MCHASH_ACCESS_NODE (fst ref) (snd ref) (cs_tbl s tb)) (\<lambda>r. case r of
             None \<Rightarrow> Some s | Some None \<Rightarrow> None
           | Some (Some c) \<Rightarrow> Some (upd_ch c (\<lambda>x. x\<lparr>ch_keep_alive_state := ch_keep_alive_state x OR KEEP_ALIVE_MSG_RESP_RCVD\<rparr>) s)))))"
section \<open>Releasing the channels of a datapath\<close>

text \<open>An entry that is no longer valid is tried again forever, which is \<^term>\<open>None\<close> as well. The counter of the
  datapath bounds the rounds.\<close>

fun detach_aux_loop :: "chan_env \<Rightarrow> addr \<Rightarrow> nat \<Rightarrow> ptr \<Rightarrow> chan_sys \<Rightarrow> chan_sys option" where
  "detach_aux_loop e p rounds cur s =
    (if dp_curr_no_of_aux_chanels (cs_dp s p) = 0 then Some s
     else case rounds of 0 \<Rightarrow> None
     | Suc k \<Rightarrow> (case cur of None \<Rightarrow> None
       | Some x \<Rightarrow> (case cs_ent s x of None \<Rightarrow> None
         | Some en \<Rightarrow> (case ce_conn_table en of None \<Rightarrow> None
           | Some tb \<Rightarrow>
             Option.bind (MCHASH_ACCESS_NODE (fst (ce_conn_safe_ref en)) (snd (ce_conn_safe_ref en)) (cs_tbl s tb)) (\<lambda>r.
               case r of Some (Some c) \<Rightarrow>
                 Option.bind (fsm_send_channel_event (fsm_run e) c DP_DETACH_EVENT s) (\<lambda>s1.
                   case cs_ent s1 x of None \<Rightarrow> None
                   | Some en1 \<Rightarrow> detach_aux_loop e p k (ce_next en1)
                       (upd_dp p (\<lambda>q. q\<lparr>dp_curr_no_of_aux_chanels := dp_curr_no_of_aux_chanels q - 1\<rparr>) s1))
               | _ \<Rightarrow> None)))))"

declare detach_aux_loop.simps [simp del]

definition dprm_free_datapath_channels :: "chan_env \<Rightarrow> ptr \<Rightarrow> chan_sys \<Rightarrow> chan_sys option" where
  "dprm_free_datapath_channels e dp s =
    (case dp of None \<Rightarrow> Some s
     | Some p \<Rightarrow>
       if \<not> dp_is_main_conn_present (cs_dp s p) then Some s
       else Option.bind (detach_aux_loop e p (unat (dp_curr_no_of_aux_chanels (cs_dp s p))) (dp_aux_channels (cs_dp s p)) s) (\<lambda>s1.
         let en = dp_main_channel (cs_dp s1 p) in
         case ce_conn_table en of None \<Rightarrow> None
         | Some tb \<Rightarrow>
           Option.bind (MCHASH_ACCESS_NODE (fst (ce_conn_safe_ref en)) (snd (ce_conn_safe_ref en)) (cs_tbl s1 tb)) (\<lambda>r.
             case r of None \<Rightarrow> Some s1 | Some None \<Rightarrow> None
             | Some (Some c) \<Rightarrow> fsm_send_channel_event (fsm_run e) c DP_DETACH_EVENT s1)))"

end
