(* ===== verification/Channel_Ring.thy ===== *)
theory Channel_Ring
  imports Channel_Dp
begin

text \<open>
  The circular list of the auxiliary channels of a datapath represents the sequence of its entries.
  Attaching appends to it, the searches enumerate it, closing the main channel empties it.
\<close>

section \<open>The sequence a list represents\<close>

text \<open>The head has itself as its predecessor.\<close>

definition aux_ring :: "addr \<Rightarrow> addr list \<Rightarrow> chan_sys \<Rightarrow> bool" where
  "aux_ring p xs s \<longleftrightarrow> distinct xs \<and> length xs < 256 \<and> dp_curr_no_of_aux_chanels (cs_dp s p) = of_nat (length xs) \<and>
     dp_aux_channels (cs_dp s p) = (if xs = [] then None else Some (hd xs)) \<and>
     (xs \<noteq> [] \<longrightarrow> dp_aux_chn_tail (cs_dp s p) = Some (last xs)) \<and>
     (\<forall>i < length xs. \<exists>en. cs_ent s (xs ! i) = Some en \<and> ce_prev en = Some (xs ! (i - 1)) \<and>
        ce_next en = Some (if Suc i < length xs then xs ! Suc i else hd xs))"

lemma aux_ring_count: "aux_ring p xs s \<Longrightarrow> unat (dp_curr_no_of_aux_chanels (cs_dp s p)) = length xs"
  by (simp add: aux_ring_def unsigned_of_nat take_bit_nat_eq_self)

lemma aux_ring_entry:
  assumes "aux_ring p xs s" "i < length xs"
  obtains en where "cs_ent s (xs ! i) = Some en" "ce_prev en = Some (xs ! (i - 1))"
    "ce_next en = Some (if Suc i < length xs then xs ! Suc i else hd xs)"
  using assms by (auto simp: aux_ring_def)

lemma aux_ring_cong:
  assumes "aux_ring p xs s" "\<forall>x\<in>set xs. cs_ent s' x = cs_ent s x"
    "dp_curr_no_of_aux_chanels (cs_dp s' p) = dp_curr_no_of_aux_chanels (cs_dp s p)"
    "dp_aux_channels (cs_dp s' p) = dp_aux_channels (cs_dp s p)" "dp_aux_chn_tail (cs_dp s' p) = dp_aux_chn_tail (cs_dp s p)"
  shows "aux_ring p xs s'"
  using assms by (simp add: aux_ring_def)

lemma keeps_next [simp]: "\<exists>nx. en = en\<lparr>ce_next := nx\<rparr>"
  by (intro exI[of _ "ce_next en"]) simp

text \<open>Appending.\<close>

lemma append_aux_ok:
  assumes r: "aux_ring p xs s" and x: "x \<notin> set xs" and n: "length xs < 255"
  shows "\<exists>s' en. append_aux p x s = Some s' \<and> aux_ring p (xs @ [x]) s' \<and> cs_ent s' x = Some en \<and>
    (\<forall>y en. y \<noteq> x \<longrightarrow> cs_ent s y = Some en \<longrightarrow> (\<exists>nx. cs_ent s' y = Some (en\<lparr>ce_next := nx\<rparr>))) \<and>
    cs_chan s' = cs_chan s \<and> cs_info s' = cs_info s \<and> cs_tbl s' = cs_tbl s \<and> cs_rx s' = cs_rx s \<and> cs_calls s' = cs_calls s \<and>
    dp_is_main_conn_present (cs_dp s' p) = dp_is_main_conn_present (cs_dp s p) \<and>
    dp_main_channel (cs_dp s' p) = dp_main_channel (cs_dp s p) \<and> (\<forall>q. q \<noteq> p \<longrightarrow> cs_dp s' q = cs_dp s q)"
proof (cases xs rule: rev_cases)
  case Nil
  let ?s = "upd_dp p (\<lambda>q. q\<lparr>dp_aux_channels := Some x, dp_curr_chn_used_2_q_msg := Some x, dp_aux_chn_tail := Some x,
      dp_curr_no_of_aux_chanels := dp_curr_no_of_aux_chanels q + 1\<rparr>)
    (s\<lparr>cs_ent := (cs_ent s)(x \<mapsto> zero_entry\<lparr>ce_prev := Some x, ce_next := Some x\<rparr>)\<rparr>)"
  have "append_aux p x s = Some ?s" using r Nil by (simp add: append_aux_def aux_ring_def upd_dp_def)
  moreover have "aux_ring p (xs @ [x]) ?s" using r Nil by (simp add: aux_ring_def)
  ultimately show ?thesis using n by (intro exI[of _ ?s]) auto
next
  case (snoc ys t)
  let ?n = "length xs"
  have last: "xs ! (?n - 1) = t" and le: "?n - 1 < ?n" using snoc by simp_all
  obtain en where en: "cs_ent s t = Some en" "ce_prev en = Some (xs ! (?n - 1 - 1))" using aux_ring_entry[OF r le] last by metis
  have dp: "dp_aux_channels (cs_dp s p) = Some (hd xs)" "dp_aux_chn_tail (cs_dp s p) = Some t"
    "dp_curr_no_of_aux_chanels (cs_dp s p) = of_nat ?n"
    using r snoc by (simp_all add: aux_ring_def)
  have tx: "t \<noteq> x" using x snoc by auto
  define E where "E = (cs_ent s)(x \<mapsto> zero_entry\<lparr>ce_prev := Some t, ce_next := Some (hd xs)\<rparr>, t \<mapsto> en\<lparr>ce_next := Some x\<rparr>)"
  let ?s = "upd_dp p (\<lambda>q. q\<lparr>dp_aux_chn_tail := Some x, dp_curr_no_of_aux_chanels := dp_curr_no_of_aux_chanels q + 1\<rparr>)
    (s\<lparr>cs_ent := E\<rparr>)"
  have a: "append_aux p x s = Some ?s" using dp en(1) tx by (simp add: append_aux_def fun_upd_twist E_def)
  have ring: "\<exists>en. E ((xs @ [x]) ! i) = Some en \<and> ce_prev en = Some ((xs @ [x]) ! (i - 1)) \<and>
      ce_next en = Some (if Suc i < Suc ?n then (xs @ [x]) ! Suc i else hd xs)" if i: "i < Suc ?n" for i
  proof -
    consider "i = ?n" | "i = ?n - 1" | "Suc i < ?n" using i by linarith
    then show ?thesis
    proof cases
      case 1
      then show ?thesis using tx last snoc by (simp add: nth_append E_def)
    next
      case 2
      then show ?thesis using en last snoc by (simp add: nth_append E_def)
    next
      case 3
      then have il: "i < ?n" "i - 1 < ?n" by simp_all
      obtain e where e: "cs_ent s (xs ! i) = Some e" "ce_prev e = Some (xs ! (i - 1))" "ce_next e = Some (xs ! Suc i)"
        using aux_ring_entry[OF r il(1)] 3 by (metis (full_types))
      have "xs ! i \<noteq> x" using x il(1) by auto
      moreover have "xs ! i \<noteq> t" using r 3 last le nth_eq_iff_index_eq[of xs i "?n - 1"] by (simp add: aux_ring_def)
      ultimately show ?thesis using e 3 il(2) by (simp add: nth_append E_def)
    qed
  qed
  have ne: "xs \<noteq> []" using snoc by simp
  then have hd: "hd (xs @ [x]) = hd xs" by simp
  have "\<forall>i < length (xs @ [x]). \<exists>en. cs_ent ?s ((xs @ [x]) ! i) = Some en \<and> ce_prev en = Some ((xs @ [x]) ! (i - 1)) \<and>
      ce_next en = Some (if Suc i < length (xs @ [x]) then (xs @ [x]) ! Suc i else hd (xs @ [x]))"
    unfolding hd using ring by simp
  then have "aux_ring p (xs @ [x]) ?s"
    unfolding aux_ring_def using r x n dp ne hd by (intro conjI) (simp_all add: aux_ring_def add.commute)
  moreover have "\<exists>en. E x = Some en" "\<And>y en. y \<noteq> x \<Longrightarrow> cs_ent s y = Some en \<Longrightarrow> \<exists>nx. E y = Some (en\<lparr>ce_next := nx\<rparr>)"
    using tx en(1) by (auto simp: E_def)
  ultimately show ?thesis using a by (intro exI[of _ ?s]) simp
qed
section \<open>Closing a channel that is attached\<close>

abbreviation conn_tbl :: "chan_sys \<Rightarrow> addr \<Rightarrow> addr" where
  "conn_tbl s a \<equiv> xi_connection_tbl (cs_info s (ch_trnsprt_info (cs_chan s a)))"

definition tables_ok :: "chan_sys \<Rightarrow> bool" where
  "tables_ok s \<longleftrightarrow> (\<forall>tb. \<exists>B. mch_inv (cs_tbl s tb) B)"

definition attached :: "addr \<Rightarrow> addr \<Rightarrow> u32 \<times> u32 \<Rightarrow> chan_sys \<Rightarrow> bool" where
  "attached p a r s \<longleftrightarrow> open_channel (cs_chan s a) \<and> ch_is_chn_added_to_dp (cs_chan s a) \<and> ch_datapath (cs_chan s a) = Some p \<and>
     ch_is_chn_added_2_hash_tbl (cs_chan s a) \<and> ch_state (cs_chan s a) \<noteq> CHN_CLOSE_INITIATED \<and>
     ch_safe_ref (cs_chan s a) = Some r \<and> mch_refs (cs_tbl s (conn_tbl s a)) r = Some a"

text \<open>The descriptors closed so far.\<close>

definition closes :: "chan_sys \<Rightarrow> int list" where
  "closes s = concat (map (\<lambda>x. case x of Transport_close fd \<Rightarrow> [fd] | _ \<Rightarrow> []) (cs_calls s))"

lemma closes_simps [simp]:
  "closes (upd_ch c f s) = closes s" "closes (upd_dp p g s) = closes s" "closes (s\<lparr>cs_tbl := t\<rparr>) = closes s"
  "closes (s\<lparr>cs_ent := en\<rparr>) = closes s" "closes (set_event c ev s) = closes s" "closes (set_state c st s) = closes s"
  "closes (call x s) = closes s @ (case x of Transport_close fd \<Rightarrow> [fd] | _ \<Rightarrow> [])"
  by (simp_all add: closes_def call_def set_event_def set_state_def)

definition same_aux :: "dprm_datapath_entry \<Rightarrow> dprm_datapath_entry \<Rightarrow> bool" where
  "same_aux q' q \<longleftrightarrow> dp_curr_no_of_aux_chanels q' = dp_curr_no_of_aux_chanels q \<and> dp_aux_channels q' = dp_aux_channels q \<and>
     dp_aux_chn_tail q' = dp_aux_chn_tail q"

text \<open>Detaching leaves everything alone but the channel and the flags and main entry of its datapath.\<close>

definition detached :: "addr \<Rightarrow> addr \<Rightarrow> chan_sys \<Rightarrow> chan_sys \<Rightarrow> bool" where
  "detached p a s s' \<longleftrightarrow> cs_ent s' = cs_ent s \<and> cs_info s' = cs_info s \<and> cs_tbl s' = cs_tbl s \<and> cs_rx s' = cs_rx s \<and> closes s' = closes s \<and>
     (\<forall>b. b \<noteq> a \<longrightarrow> cs_chan s' b = cs_chan s b) \<and> (\<forall>q. q \<noteq> p \<longrightarrow> cs_dp s' q = cs_dp s q) \<and>
     same_aux (cs_dp s' p) (cs_dp s p) \<and> ch_state (cs_chan s' a) \<noteq> CHN_CLOSE_INITIATED \<and>
     ch_trnsprt_fd (cs_chan s' a) = ch_trnsprt_fd (cs_chan s a) \<and> ch_trnsprt_info (cs_chan s' a) = ch_trnsprt_info (cs_chan s a) \<and>
     ch_safe_ref (cs_chan s' a) = ch_safe_ref (cs_chan s a) \<and>
     ch_is_chn_added_2_hash_tbl (cs_chan s' a) = ch_is_chn_added_2_hash_tbl (cs_chan s a)"

lemma stop_timers_fields [simp]:
  "cs_chan (stop_timers c s) = cs_chan s" "cs_info (stop_timers c s) = cs_info s" "cs_dp (stop_timers c s) = cs_dp s"
  "cs_ent (stop_timers c s) = cs_ent s" "cs_tbl (stop_timers c s) = cs_tbl s" "cs_rx (stop_timers c s) = cs_rx s"
  "closes (stop_timers c s) = closes s"
  by (simp_all add: stop_timers_def Let_def)

lemma detach_ok:
  assumes "ch_is_chn_added_to_dp (cs_chan s a)" "ch_datapath (cs_chan s a) = Some p" "ch_state (cs_chan s a) \<noteq> CHN_CLOSE_INITIATED"
  shows "\<exists>r s'. fsm_xprt_proto_channel_detach_dp e a s = Some (r, s') \<and> detached p a s s' \<and>
    (ch_auxiliary_id (cs_chan s a) \<noteq> 0 \<longrightarrow> r = OF_SUCCESS \<and> ch_fsm_state (cs_chan s' a) = STATE_WAIT_FOR_HANDSHAKE \<and>
       dp_main_channel (cs_dp s' p) = zero_entry \<and> \<not> dp_is_main_conn_present (cs_dp s' p))"
  using assms unfolding fsm_xprt_proto_channel_detach_dp_def Let_def
  by (auto simp: detached_def same_aux_def has_own_fd_def)

lemma handler_detach:
  "open_channel x \<Longrightarrow> cntlr_xprt_proto_channel_fsm_handler (ch_fsm_state x) DP_DETACH_EVENT = Some H_detach_dp"
  by (auto simp: open_channel_def)

lemma fire_detach:
  assumes "attached p a r s"
  shows "\<exists>ret s'. fire (dispatch (Suc k) e) DP_DETACH_EVENT a s = Some (ret, s') \<and> detached p a s s' \<and>
    (ch_auxiliary_id (cs_chan s a) \<noteq> 0 \<longrightarrow> ret = OF_SUCCESS \<and> ch_fsm_state (cs_chan s' a) = STATE_WAIT_FOR_HANDSHAKE \<and>
       dp_main_channel (cs_dp s' p) = zero_entry \<and> \<not> dp_is_main_conn_present (cs_dp s' p))"
proof -
  let ?s = "set_event a DP_DETACH_EVENT s"
  have "open_channel (cs_chan s a)" using assms by (simp add: attached_def)
  then have f: "fire (dispatch (Suc k) e) DP_DETACH_EVENT a s = fsm_xprt_proto_channel_detach_dp e a ?s"
    using handler_detach[of "cs_chan s a"] by (simp add: fire_def set_event_def)
  obtain r s' where d: "fsm_xprt_proto_channel_detach_dp e a ?s = Some (r, s')" "detached p a ?s s'"
    "ch_auxiliary_id (cs_chan ?s a) \<noteq> 0 \<longrightarrow> r = OF_SUCCESS \<and> ch_fsm_state (cs_chan s' a) = STATE_WAIT_FOR_HANDSHAKE \<and>
       dp_main_channel (cs_dp s' p) = zero_entry \<and> \<not> dp_is_main_conn_present (cs_dp s' p)"
    using detach_ok[of ?s a p e] assms by (auto simp: attached_def set_event_def)
  have "detached p a s s'" using d(2) by (simp add: detached_def set_event_def)
  then show ?thesis unfolding f using d(1,3) by (auto simp: set_event_def)
qed
text \<open>Closing also takes the channel out of its table and hands it to the grace period.\<close>

definition closed_from :: "addr \<Rightarrow> addr \<Rightarrow> u32 \<times> u32 \<Rightarrow> chan_sys \<Rightarrow> chan_sys \<Rightarrow> bool" where
  "closed_from p a r s s' \<longleftrightarrow> cs_ent s' = cs_ent s \<and> cs_info s' = cs_info s \<and> cs_rx s' = cs_rx s \<and>
     (\<forall>b. b \<noteq> a \<longrightarrow> cs_chan s' b = cs_chan s b) \<and> (\<forall>q. q \<noteq> p \<longrightarrow> cs_dp s' q = cs_dp s q) \<and> same_aux (cs_dp s' p) (cs_dp s p) \<and>
     ch_fsm_state (cs_chan s' a) = STATE_CLOSE_CONN \<and> ch_state (cs_chan s' a) = CHN_CLOSE_INITIATED \<and>
     \<not> ch_is_chn_added_2_hash_tbl (cs_chan s' a) \<and> ch_trnsprt_info (cs_chan s' a) = ch_trnsprt_info (cs_chan s a) \<and>
     closes s' = closes s @ [ch_trnsprt_fd (cs_chan s a)] \<and> tables_ok s' \<and>
     (\<forall>tb. tb \<noteq> conn_tbl s a \<longrightarrow> cs_tbl s' tb = cs_tbl s tb) \<and>
     mch_refs (cs_tbl s' (conn_tbl s a)) = (mch_refs (cs_tbl s (conn_tbl s a)))(r := None) \<and>
     length (arr (cs_tbl s' (conn_tbl s a))) = length (arr (cs_tbl s (conn_tbl s a))) \<and>
     mt_rcu (cs_tbl s' (conn_tbl s a)) = mt_rcu (cs_tbl s (conn_tbl s a)) @ [a]"

lemma tables_okD: "tables_ok s \<Longrightarrow> \<exists>B. mch_inv (cs_tbl s tb) B"
  by (simp add: tables_ok_def)

lemma delete_ref:
  assumes "mch_inv t B" "mch_refs t (i, m) = Some n"
  shows "\<exists>t' B'. MCHASH_DELETE_NODE_BY_REF i m t = Some (True, t') \<and> mch_inv t' B' \<and> mch_refs t' = (mch_refs t)((i, m) := None) \<and>
    length (arr t') = length (arr t) \<and> mt_rcu t' = mt_rcu t @ [n]"
  using delete_by_ref_ok[OF assms(1) refs_entry(1,3)[OF assms]] refs_entry(2,5)[OF assms] assms(2)
  by (auto simp: deleted_def)

lemma access_ref: "mch_inv t B \<Longrightarrow> mch_refs t (i, m) = Some n \<Longrightarrow> MCHASH_ACCESS_NODE i m t = Some (Some (Some n))"
  using access_ok refs_entry(1,3) by fastforce

lemma close_attached:
  assumes a: "attached p a r s" and t: "tables_ok s" and ok: "en_close_ok e (ch_trnsprt_fd (cs_chan s a))"
  shows "\<exists>s'. xprt_proto_channel_close e (dispatch (Suc k) e) a s = Some (OF_SUCCESS, s') \<and> closed_from p a r s s' \<and>
    (ch_auxiliary_id (cs_chan s a) \<noteq> 0 \<longrightarrow> dp_main_channel (cs_dp s' p) = zero_entry \<and> \<not> dp_is_main_conn_present (cs_dp s' p))"
proof -
  obtain i m where r: "r = (i, m)" by fastforce
  let ?tb = "conn_tbl s a"
  obtain ret s1 where d: "fire (dispatch (Suc k) e) DP_DETACH_EVENT a s = Some (ret, s1)" "detached p a s s1"
    "ch_auxiliary_id (cs_chan s a) \<noteq> 0 \<longrightarrow> dp_main_channel (cs_dp s1 p) = zero_entry \<and> \<not> dp_is_main_conn_present (cs_dp s1 p)"
    using fire_detach[OF a] by blast
  obtain B where "mch_inv (cs_tbl s ?tb) B" using tables_okD[OF t] by blast
  moreover have "mch_refs (cs_tbl s ?tb) (i, m) = Some a" using a r by (simp add: attached_def)
  ultimately obtain t' B' where t': "MCHASH_DELETE_NODE_BY_REF i m (cs_tbl s ?tb) = Some (True, t')" "mch_inv t' B'"
    "mch_refs t' = (mch_refs (cs_tbl s ?tb))((i, m) := None)" "length (arr t') = length (arr (cs_tbl s ?tb))"
    "mt_rcu t' = mt_rcu (cs_tbl s ?tb) @ [a]"
    using delete_ref by blast
  have x: "ch_safe_ref (cs_chan s1 a) = Some (i, m)" "ch_state (cs_chan s1 a) \<noteq> CHN_CLOSE_INITIATED"
    "ch_is_chn_added_2_hash_tbl (cs_chan s1 a)" "conn_tbl s1 a = ?tb" "cs_tbl s1 = cs_tbl s"
    "ch_trnsprt_fd (cs_chan s1 a) = ch_trnsprt_fd (cs_chan s a)"
    using d(2) a r by (simp_all add: detached_def attached_def)
  let ?s2 = "set_state a STATE_CLOSE_CONN (call (Transport_close (ch_trnsprt_fd (cs_chan s a))) s1)"
  let ?s3 = "upd_ch a (\<lambda>x. x\<lparr>ch_is_chn_added_2_hash_tbl := False, ch_state := CHN_CLOSE_INITIATED\<rparr>)
    (?s2\<lparr>cs_tbl := (cs_tbl ?s2)(?tb := t')\<rparr>)"
  have "xprt_proto_channel_close e (dispatch (Suc k) e) a s = Some (OF_SUCCESS, ?s3)"
    unfolding xprt_proto_channel_close_def d(1) using x t'(1) ok by (simp add: Let_def set_state_def)
  moreover have "closed_from p a r s ?s3"
    using d(2) t' t x(5) r unfolding closed_from_def detached_def tables_ok_def by (auto simp: set_state_def same_aux_def)
  ultimately show ?thesis using d(3) by (intro exI[of _ ?s3]) (simp add: set_state_def)
qed

section \<open>Closing the auxiliary channels\<close>

text \<open>Freeing the last entry.\<close>

lemma free_aux_tail_ok:
  assumes r: "aux_ring p (ys @ [x]) s"
  shows "\<exists>s'. free_aux_tail p x s = Some s' \<and> aux_ring p ys s' \<and> cs_ent s' x = None \<and> (\<forall>y. cs_ent s y = None \<longrightarrow> cs_ent s' y = None) \<and>
    (\<forall>y en. y \<noteq> x \<longrightarrow> cs_ent s y = Some en \<longrightarrow> (\<exists>nx. cs_ent s' y = Some (en\<lparr>ce_next := nx\<rparr>))) \<and>
    cs_chan s' = cs_chan s \<and> cs_info s' = cs_info s \<and> cs_tbl s' = cs_tbl s \<and> cs_rx s' = cs_rx s \<and> closes s' = closes s \<and>
    (\<forall>q. q \<noteq> p \<longrightarrow> cs_dp s' q = cs_dp s q)"
proof -
  have n: "length ys < 255" "distinct (ys @ [x])" "dp_curr_no_of_aux_chanels (cs_dp s p) = of_nat (length ys) + 1"
    "dp_aux_chn_tail (cs_dp s p) = Some x" "dp_aux_channels (cs_dp s p) = Some (hd (ys @ [x]))"
    using r by (simp_all add: aux_ring_def add.commute)
  have xl: "length ys < length (ys @ [x])" by simp
  obtain en where en: "cs_ent s x = Some en" "ce_prev en = Some ((ys @ [x]) ! (length ys - 1))"
    using aux_ring_entry[OF r xl] by (metis nth_append_length)
  show ?thesis
  proof (cases ys rule: rev_cases)
    case Nil
    let ?s = "upd_dp p (\<lambda>q. q\<lparr>dp_curr_no_of_aux_chanels := 0, dp_aux_channels := None, dp_aux_chn_tail := None\<rparr>)
      (s\<lparr>cs_ent := (cs_ent s)(x := None)\<rparr>)"
    have "free_aux_tail p x s = Some ?s" using n en(1) Nil by (simp add: free_aux_tail_def Let_def upd_dp_def)
    then show ?thesis using Nil by (intro exI[of _ ?s]) (auto simp: aux_ring_def)
  next
    case (snoc zs y)
    let ?n = "length ys"
    have il: "?n - 1 < length (ys @ [x])" and y: "(ys @ [x]) ! (?n - 1) = y" "y \<noteq> x" using snoc n(2) by (auto simp: nth_append)
    obtain ey where ey: "cs_ent s y = Some ey" "ce_prev ey = Some ((ys @ [x]) ! (?n - 1 - 1))"
      using aux_ring_entry[OF r il] unfolding y by metis
    have hd: "hd (ys @ [x]) = hd ys" "hd ys \<noteq> x" using snoc n(2) by (cases zs; simp)+
    define E where "E = (cs_ent s)(y \<mapsto> ey\<lparr>ce_next := Some (hd ys)\<rparr>, x := None)"
    let ?s = "upd_dp p (\<lambda>q. q\<lparr>dp_aux_chn_tail := Some y, dp_curr_no_of_aux_chanels := of_nat ?n\<rparr>) (s\<lparr>cs_ent := E\<rparr>)"
    have "unat (of_nat ?n :: u8) = ?n" using n(1) by (simp add: unsigned_of_nat take_bit_nat_eq_self)
    moreover have "0 < ?n" using snoc by simp
    ultimately have nz: "(of_nat ?n :: u8) \<noteq> 0" by (intro notI) simp
    have "free_aux_tail p x s = Some ?s"
      using n(3-5) en(1) en(2)[unfolded y(1)] ey(1) y(2) hd nz by (simp add: free_aux_tail_def Let_def upd_dp_def E_def)
    moreover have "\<exists>en. E (ys ! i) = Some en \<and> ce_prev en = Some (ys ! (i - 1)) \<and>
        ce_next en = Some (if Suc i < ?n then ys ! Suc i else hd ys)" if i: "i < ?n" for i
    proof -
      have neq: "ys ! i \<noteq> x" using n(2) i by auto
      consider "i = ?n - 1" | "Suc i < ?n" using i by linarith
      then show ?thesis
      proof cases
        case 1
        then show ?thesis using ey y(1) i neq snoc by (simp add: E_def nth_append)
      next
        case 2
        have il: "i < length (ys @ [x])" "i - 1 < ?n" using i by simp_all
        obtain en where e: "cs_ent s (ys ! i) = Some en" "ce_prev en = Some (ys ! (i - 1))" "ce_next en = Some (ys ! Suc i)"
          using aux_ring_entry[OF r il(1)] 2 i il(2) by (auto simp: nth_append)
        have "ys ! i \<noteq> y" using n(2) 2 y(1) snoc nth_eq_iff_index_eq[of ys i "?n - 1"] by (simp add: nth_append)
        then show ?thesis using e 2 neq by (simp add: E_def)
      qed
    qed
    then have "aux_ring p ys ?s" unfolding aux_ring_def using n r snoc hd by (intro conjI) (simp_all add: aux_ring_def)
    moreover have "E x = None" "\<And>z. cs_ent s z = None \<Longrightarrow> E z = None" "\<And>z en. z \<noteq> x \<Longrightarrow> cs_ent s z = Some en \<Longrightarrow> \<exists>nx. E z = Some (en\<lparr>ce_next := nx\<rparr>)"
      using ey(1) by (auto simp: E_def)
    ultimately show ?thesis by (intro exI[of _ ?s]) simp
  qed
qed
text \<open>The auxiliary channels \<open>ch\<close> of the datapath \<open>p\<close> with their entries: \<open>c\<close> is the channel and \<open>r\<close> the safe
  reference of an entry.\<close>

definition aux_channel :: "chan_env \<Rightarrow> addr \<Rightarrow> chan_sys \<Rightarrow> addr \<times> addr \<times> u32 \<times> u32 \<Rightarrow> bool" where
  "aux_channel e p s = (\<lambda>(x, c, r). attached p c r s \<and> ch_auxiliary_id (cs_chan s c) \<noteq> 0 \<and>
     en_close_ok e (ch_trnsprt_fd (cs_chan s c)) \<and>
     (\<exists>en. cs_ent s x = Some en \<and> ce_conn_table en = Some (conn_tbl s c) \<and> ce_conn_safe_ref en = r))"

abbreviation ents :: "(addr \<times> addr \<times> u32 \<times> u32) list \<Rightarrow> addr list" where "ents \<equiv> map fst"
abbreviation chans :: "(addr \<times> addr \<times> u32 \<times> u32) list \<Rightarrow> addr list" where "chans \<equiv> map (fst \<circ> snd)"

text \<open>Another channel stays attached while one is closed.\<close>

lemma attached_after_close:
  assumes "closed_from p a r s s'" "attached p a r s" "attached p' b r' s" "b \<noteq> a"
  shows "attached p' b r' s'" "conn_tbl s' b = conn_tbl s b" "cs_chan s' b = cs_chan s b"
proof -
  show c: "conn_tbl s' b = conn_tbl s b" "cs_chan s' b = cs_chan s b" using assms(1,4) by (simp_all add: closed_from_def)
  have "r' \<noteq> r" if "conn_tbl s b = conn_tbl s a" using assms(2-4) that by (auto simp: attached_def)
  then have "mch_refs (cs_tbl s' (conn_tbl s b)) r' = Some b"
    using assms(1,3) by (cases "conn_tbl s b = conn_tbl s a") (auto simp: closed_from_def attached_def)
  then show "attached p' b r' s'" using assms(3) c by (simp add: attached_def)
qed

text \<open>What closing the auxiliary channels leaves: everything else is as before, but for the entry of the
  main channel in the datapath.\<close>

definition all_closed :: "addr \<Rightarrow> (addr \<times> addr \<times> u32 \<times> u32) list \<Rightarrow> chan_sys \<Rightarrow> chan_sys \<Rightarrow> bool" where
  "all_closed p ch s s' \<longleftrightarrow> tables_ok s' \<and> cs_info s' = cs_info s \<and>
     (\<forall>b. b \<notin> set (chans ch) \<longrightarrow> cs_chan s' b = cs_chan s b) \<and> (\<forall>q. q \<noteq> p \<longrightarrow> cs_dp s' q = cs_dp s q) \<and>
     (\<forall>(x, c, r)\<in>set ch. cs_ent s' x = None \<and> ch_fsm_state (cs_chan s' c) = STATE_CLOSE_CONN) \<and>
     (\<forall>y. cs_ent s y = None \<longrightarrow> cs_ent s' y = None) \<and>
     (\<forall>tb. mch_refs (cs_tbl s' tb) = (\<lambda>r. if \<exists>(x, c, r')\<in>set ch. r' = r \<and> conn_tbl s c = tb then None
        else mch_refs (cs_tbl s tb) r)) \<and>
     closes s' = closes s @ map (\<lambda>c. ch_trnsprt_fd (cs_chan s c)) (rev (chans ch))"

lemma close_aux_loop_ok:
  assumes "aux_ring p (ents ch) s" "tables_ok s" "\<forall>z\<in>set ch. aux_channel e p s z" "distinct (chans ch)"
    "c \<notin> set (chans ch)" "ch_datapath (cs_chan s c) = Some p"
  shows "\<exists>s'. close_aux_loop e (dispatch (Suc k) e) c (length ch) s = Some (False, s') \<and> aux_ring p [] s' \<and> all_closed p ch s s'"
  using assms
proof (induction ch arbitrary: s rule: rev_induct)
  case Nil
  then show ?case by (simp add: close_aux_loop.simps[of _ _ _ 0] aux_ring_def all_closed_def)
next
  case (snoc z zs)
  obtain x a r where z: "z = (x, a, r)" by (metis prod.exhaust)
  have az: "attached p a r s" "ch_auxiliary_id (cs_chan s a) \<noteq> 0" "en_close_ok e (ch_trnsprt_fd (cs_chan s a))"
    using snoc.prems(3) z by (simp_all add: aux_channel_def)
  obtain en where en: "cs_ent s x = Some en" "ce_conn_table en = Some (conn_tbl s a)" "ce_conn_safe_ref en = r"
    using snoc.prems(3) z by (auto simp: aux_channel_def)
  have ac: "a \<noteq> c" "a \<notin> set (chans zs)" "x \<notin> set (ents zs)" using snoc.prems(1,4,5) z by (auto simp: aux_ring_def)
  have ring: "aux_ring p (ents zs @ [x]) s" using snoc.prems(1) z by simp
  have cnt: "dp_curr_no_of_aux_chanels (cs_dp s p) \<noteq> 0" "dp_aux_chn_tail (cs_dp s p) = Some x"
    using aux_ring_count[OF ring] ring by (auto simp: aux_ring_def)
  obtain B where B: "mch_inv (cs_tbl s (conn_tbl s a)) B" using tables_okD[OF snoc.prems(2)] by blast
  have acc: "MCHASH_ACCESS_NODE (fst r) (snd r) (cs_tbl s (conn_tbl s a)) = Some (Some (Some a))"
    by (rule access_ref[OF B]) (use az(1) in \<open>simp add: attached_def\<close>)
  obtain s1 where s1: "xprt_proto_channel_close e (dispatch (Suc k) e) a s = Some (OF_SUCCESS, s1)" "closed_from p a r s s1"
    using close_attached[OF az(1) snoc.prems(2) az(3)] by blast
  have ring1: "aux_ring p (ents zs @ [x]) s1"
    by (rule aux_ring_cong[OF ring]) (use s1(2) in \<open>simp_all add: closed_from_def same_aux_def\<close>)
  obtain s2 where s2: "free_aux_tail p x s1 = Some s2" "aux_ring p (ents zs) s2" "cs_ent s2 x = None"
    "\<And>y en. y \<noteq> x \<Longrightarrow> cs_ent s1 y = Some en \<Longrightarrow> \<exists>nx. cs_ent s2 y = Some (en\<lparr>ce_next := nx\<rparr>)"
    "\<And>y. cs_ent s1 y = None \<Longrightarrow> cs_ent s2 y = None" "cs_chan s2 = cs_chan s1" "cs_info s2 = cs_info s1" "cs_tbl s2 = cs_tbl s1" "cs_rx s2 = cs_rx s1" "closes s2 = closes s1"
    "\<And>q. q \<noteq> p \<Longrightarrow> cs_dp s2 q = cs_dp s1 q"
    using free_aux_tail_ok[OF ring1] by blast
  have c1: "ch_datapath (cs_chan s1 c) = Some p" "cs_chan s2 c = cs_chan s1 c"
    using s1(2) ac(1) snoc.prems(6) s2(6) by (simp_all add: closed_from_def)
  have step: "close_aux_loop e (dispatch (Suc k) e) c (length (zs @ [z])) s = close_aux_loop e (dispatch (Suc k) e) c (length zs) s2"
    using snoc.prems(6) cnt en acc s1(1) c1(1) s2(1) by (simp add: close_aux_loop.simps[of _ _ _ "Suc _"])
  have keep: "attached p b r' s2 \<and> conn_tbl s2 b = conn_tbl s b \<and> cs_chan s2 b = cs_chan s b"
    if "attached p b r' s" "b \<noteq> a" for b r'
    using attached_after_close[OF s1(2) az(1) that] s2(6-8) by (simp add: attached_def)
  have aux: "aux_channel e p s2 w" if w: "w \<in> set zs" for w
  proof -
    obtain y b r' where y: "w = (y, b, r')" by (metis prod.exhaust)
    have "aux_channel e p s (y, b, r')" using snoc.prems(3) w y by simp
    moreover have yx: "y \<noteq> x" "b \<noteq> a" using ac(2,3) w y by force+
    ultimately have b: "attached p b r' s2" "conn_tbl s2 b = conn_tbl s b" "cs_chan s2 b = cs_chan s b"
      and o: "ch_auxiliary_id (cs_chan s b) \<noteq> 0" "en_close_ok e (ch_trnsprt_fd (cs_chan s b))"
        "\<exists>en. cs_ent s1 y = Some en \<and> ce_conn_table en = Some (conn_tbl s b) \<and> ce_conn_safe_ref en = r'"
      using keep[of b r'] s1(2) by (auto simp: aux_channel_def closed_from_def)
    then show ?thesis using s2(4)[OF yx(1)] y by (fastforce simp: aux_channel_def)
  qed
  obtain s' where s': "close_aux_loop e (dispatch (Suc k) e) c (length zs) s2 = Some (False, s')" "aux_ring p [] s'" "all_closed p zs s2 s'"
    using snoc.IH[OF s2(2) _ _ _ _] aux snoc.prems(4,5) c1 s1(2) s2(8) by (auto simp: closed_from_def tables_ok_def)
  have zc: "cs_chan s2 b = cs_chan s b" "conn_tbl s2 b = conn_tbl s b" if "b \<noteq> a" for b
    using s1(2) s2(6,7) that by (simp_all add: closed_from_def)
  have zs: "cs_chan s2 b = cs_chan s b" "conn_tbl s2 b = conn_tbl s b" if "(y, b, r') \<in> set zs" for y b r'
    by (rule zc; use ac(2) that in force)+
  have refs: "mch_refs (cs_tbl s2 tb) = (\<lambda>r'. if r' = r \<and> tb = conn_tbl s a then None else mch_refs (cs_tbl s tb) r')" for tb
    using s1(2) s2(8) by (cases "tb = conn_tbl s a") (auto simp: closed_from_def)
  have "(\<exists>(x, c, r')\<in>set zs. r' = q \<and> conn_tbl s2 c = tb) \<longleftrightarrow> (\<exists>(x, c, r')\<in>set zs. r' = q \<and> conn_tbl s c = tb)" for q tb
    using zs(2) by fastforce
  then have "\<forall>tb. mch_refs (cs_tbl s' tb) = (\<lambda>r'. if \<exists>(x, c, r'')\<in>set (zs @ [z]). r'' = r' \<and> conn_tbl s c = tb then None
      else mch_refs (cs_tbl s tb) r')"
    using s'(3) refs z unfolding all_closed_def by (auto simp: fun_eq_iff)
  moreover have "map (\<lambda>b. ch_trnsprt_fd (cs_chan s2 b)) (rev (chans zs)) = map (\<lambda>b. ch_trnsprt_fd (cs_chan s b)) (rev (chans zs))"
    using zs(1) by (intro map_cong refl) fastforce
  then have "closes s' = closes s @ map (\<lambda>b. ch_trnsprt_fd (cs_chan s b)) (rev (chans (zs @ [z])))"
    using s'(3) s1(2) s2(10) z by (simp add: all_closed_def closed_from_def)
  moreover have "cs_ent s' x = None \<and> ch_fsm_state (cs_chan s' a) = STATE_CLOSE_CONN"
    using s'(3) s2(3,6) ac(2) s1(2) by (simp add: all_closed_def closed_from_def)
  moreover have "\<forall>y. cs_ent s y = None \<longrightarrow> cs_ent s' y = None" using s'(3) s2(5) s1(2) by (simp add: all_closed_def closed_from_def)
  ultimately have "all_closed p (zs @ [z]) s s'"
    using s'(3) s1(2) s2(6,7,11) z unfolding all_closed_def closed_from_def by auto
  then show ?case using s'(1,2) unfolding step by blast
qed
section \<open>Closing the main channel\<close>

lemma set_event_fields [simp]:
  "cs_info (set_event c ev s) = cs_info s" "cs_dp (set_event c ev s) = cs_dp s" "cs_ent (set_event c ev s) = cs_ent s"
  "cs_tbl (set_event c ev s) = cs_tbl s" "attached p b r (set_event c ev s) = attached p b r s"
  "ch_trnsprt_info (cs_chan (set_event c ev s) b) = ch_trnsprt_info (cs_chan s b)"
  "ch_trnsprt_fd (cs_chan (set_event c ev s) b) = ch_trnsprt_fd (cs_chan s b)" "tables_ok (set_event c ev s) = tables_ok s"
  "aux_ring p xs (set_event c ev s) = aux_ring p xs s" "aux_channel e p (set_event c ev s) z = aux_channel e p s z"
  by (auto simp: set_event_def attached_def tables_ok_def aux_ring_def aux_channel_def open_channel_def split: prod.splits)

lemma set_event_other [simp]: "b \<noteq> c \<Longrightarrow> cs_chan (set_event c ev s) b = cs_chan s b"
  by (simp add: set_event_def)

lemma fire_close:
  assumes "open_channel (cs_chan s c)"
  shows "fire (fsm_run e) CLOSE_EVENT c s = fsm_xprt_proto_channel_close e (dispatch (Suc 2) e) c (set_event c CLOSE_EVENT s)"
  using assms by (auto simp: fire_def fsm_run_def eval_nat_numeral set_event_def open_channel_def)

text \<open>The first part of closing the main channel, for any auxiliary channels.\<close>

lemma close_after_aux:
  assumes "attached p c r s" "ch_auxiliary_id (cs_chan s c) = 0"
    "(if dp_aux_channels (cs_dp s p) \<noteq> None
      then close_aux_loop e d c (unat (dp_curr_no_of_aux_chanels (cs_dp s p))) s else Some (False, s)) = Some (broke, s1)"
    "xprt_proto_channel_close e d c s1 = Some (OF_SUCCESS, s2)"
  shows "fsm_xprt_proto_channel_close e d c s = Some (if broke then OF_FAILURE else OF_SUCCESS, s2)"
proof (cases "dp_aux_channels (cs_dp s p)")
  case None
  then show ?thesis using assms by (simp add: fsm_xprt_proto_channel_close_def attached_def)
next
  case (Some x)
  then have "close_aux_loop e d c (unat (dp_curr_no_of_aux_chanels (cs_dp s p))) s = Some (broke, s1)" using assms(3) by simp
  then show ?thesis using assms(1,2,4) Some by (simp add: fsm_xprt_proto_channel_close_def attached_def)
qed

lemma aux_part_ok:
  assumes "aux_ring p (ents ch) s" "tables_ok s" "\<forall>z\<in>set ch. aux_channel e p s z" "distinct (chans ch)"
    "c \<notin> set (chans ch)" "ch_datapath (cs_chan s c) = Some p"
  shows "\<exists>s'. (if dp_aux_channels (cs_dp s p) \<noteq> None
      then close_aux_loop e (dispatch (Suc k) e) c (unat (dp_curr_no_of_aux_chanels (cs_dp s p))) s else Some (False, s)) =
        Some (False, s') \<and> aux_ring p [] s' \<and> all_closed p ch s s'"
proof (cases "ch = []")
  case True
  then show ?thesis using assms by (auto simp: aux_ring_def all_closed_def)
next
  case False
  then have "dp_aux_channels (cs_dp s p) \<noteq> None" using assms(1) by (simp add: aux_ring_def)
  moreover have "unat (dp_curr_no_of_aux_chanels (cs_dp s p)) = length ch" using aux_ring_count[OF assms(1)] by simp
  ultimately show ?thesis using close_aux_loop_ok[OF assms, of k] by simp
qed

lemma main_close_all:
  assumes "aux_ring p (ents ch) s" "tables_ok s" "\<forall>z\<in>set ch. aux_channel e p s z" "distinct (chans ch)"
    "c \<notin> set (chans ch)" "attached p c r s" "ch_auxiliary_id (cs_chan s c) = 0" "en_close_ok e (ch_trnsprt_fd (cs_chan s c))"
  shows "\<exists>s'. fire (fsm_run e) CLOSE_EVENT c s = Some (OF_SUCCESS, s') \<and> aux_ring p [] s' \<and>
    (\<forall>(x, a, q)\<in>set ch. cs_ent s' x = None \<and> ch_fsm_state (cs_chan s' a) = STATE_CLOSE_CONN \<and>
       mch_refs (cs_tbl s' (conn_tbl s a)) q = None) \<and>
    ch_fsm_state (cs_chan s' c) = STATE_CLOSE_CONN \<and> mch_refs (cs_tbl s' (conn_tbl s c)) r = None \<and>
    (\<forall>tb q b. mch_refs (cs_tbl s tb) q = Some b \<longrightarrow> b \<notin> set (c # chans ch) \<longrightarrow> mch_refs (cs_tbl s' tb) q = Some b) \<and>
    closes s' = closes s @ map (\<lambda>b. ch_trnsprt_fd (cs_chan s b)) (rev (chans ch) @ [c]) \<and>
    (\<forall>b. b \<notin> set (c # chans ch) \<longrightarrow> cs_chan s' b = cs_chan s b) \<and> (\<forall>q. q \<noteq> p \<longrightarrow> cs_dp s' q = cs_dp s q)"
proof -
  let ?s = "set_event c CLOSE_EVENT s"
  have sc: "cs_chan ?s b = cs_chan s b" if "b \<noteq> c" for b using that by (simp add: set_event_def)
  have dp: "ch_datapath (cs_chan ?s c) = Some p" "ch_trnsprt_fd (cs_chan ?s c) = ch_trnsprt_fd (cs_chan s c)"
    "ch_auxiliary_id (cs_chan ?s c) = 0" "open_channel (cs_chan s c)"
    using assms(6,7) by (simp_all add: attached_def set_event_def)
  have pre: "aux_ring p (ents ch) ?s" "tables_ok ?s" "\<forall>z\<in>set ch. aux_channel e p ?s z" "attached p c r ?s"
    using assms(1-3,6) by simp_all
  obtain s1 where s1: "(if dp_aux_channels (cs_dp ?s p) \<noteq> None
      then close_aux_loop e (dispatch (Suc 2) e) c (unat (dp_curr_no_of_aux_chanels (cs_dp ?s p))) ?s else Some (False, ?s)) =
        Some (False, s1)" "aux_ring p [] s1" "all_closed p ch ?s s1"
    using aux_part_ok[OF pre(1-3) assms(4,5) dp(1), of 2] by blast
  have c1: "cs_chan s1 c = cs_chan ?s c" "conn_tbl s1 c = conn_tbl s c"
    using s1(3) assms(5) by (simp_all add: all_closed_def set_event_def)
  have refs1: "mch_refs (cs_tbl s1 tb) q = (if \<exists>(x, a, q')\<in>set ch. q' = q \<and> conn_tbl s a = tb then None else mch_refs (cs_tbl s tb) q)"
    for tb q using s1(3) unfolding all_closed_def set_event_fields by simp
  have node: "mch_refs (cs_tbl s (conn_tbl s a)) q = Some a" if "(x, a, q) \<in> set ch" for x a q
    using assms(3) that by (auto simp: aux_channel_def attached_def)
  have old: "\<not> (\<exists>(x, a, q')\<in>set ch. q' = q \<and> conn_tbl s a = tb)" if "mch_refs (cs_tbl s tb) q = Some b" "b \<notin> set (chans ch)" for tb q b
  proof
    assume "\<exists>(x, a, q')\<in>set ch. q' = q \<and> conn_tbl s a = tb"
    then obtain x a where xa: "(x, a, q) \<in> set ch" "conn_tbl s a = tb" by auto
    then have "a = b" using node[OF xa(1)] that(1) by simp
    then show False using xa(1) that(2) by force
  qed
  have "mch_refs (cs_tbl s (conn_tbl s c)) r = Some c" using assms(6) by (simp add: attached_def)
  then have "mch_refs (cs_tbl s1 (conn_tbl s c)) r = Some c" using refs1 old[OF _ assms(5)] by simp
  then have att1: "attached p c r s1" using pre(4) c1 by (simp add: attached_def)
  obtain s2 where s2: "xprt_proto_channel_close e (dispatch (Suc 2) e) c s1 = Some (OF_SUCCESS, s2)" "closed_from p c r s1 s2"
    using close_attached[OF att1, of e 2] s1(3) c1 dp(2) assms(8) by (auto simp: all_closed_def)
  have "fire (fsm_run e) CLOSE_EVENT c s = Some (OF_SUCCESS, s2)"
    unfolding fire_close[OF dp(4)] using close_after_aux[OF pre(4) dp(3) s1(1) s2(1)] by simp
  moreover have "aux_ring p [] s2" using s1(2) s2(2) by (simp add: aux_ring_def closed_from_def same_aux_def)
  moreover have refs2: "mch_refs (cs_tbl s2 tb) q = (if tb = conn_tbl s c \<and> q = r then None else mch_refs (cs_tbl s1 tb) q)" for tb q
    using s2(2) c1(2) by (cases "tb = conn_tbl s c") (auto simp: closed_from_def)
  then have "mch_refs (cs_tbl s2 (conn_tbl s c)) r = None" by simp
  moreover have "cs_ent s2 x = None \<and> ch_fsm_state (cs_chan s2 a) = STATE_CLOSE_CONN \<and> mch_refs (cs_tbl s2 (conn_tbl s a)) q = None"
    if z: "(x, a, q) \<in> set ch" for x a q
  proof -
    have "a \<noteq> c" using assms(5) z by force
    moreover have "mch_refs (cs_tbl s1 (conn_tbl s a)) q = None" using refs1 z by auto
    ultimately show ?thesis using s1(3) s2(2) z refs2 by (auto simp: all_closed_def closed_from_def)
  qed
  moreover have "mch_refs (cs_tbl s2 tb) q = Some b" if "mch_refs (cs_tbl s tb) q = Some b" "b \<notin> set (c # chans ch)" for tb q b
    using that refs1 refs2 old[OF that(1)] \<open>mch_refs (cs_tbl s (conn_tbl s c)) r = Some c\<close> by (auto split: if_splits)
  moreover have "closes s2 = closes s @ map (\<lambda>b. ch_trnsprt_fd (cs_chan s b)) (rev (chans ch) @ [c])"
    using s1(3) s2(2) c1(1) dp(2) by (simp add: all_closed_def closed_from_def set_event_def)
  moreover have "cs_chan s2 b = cs_chan s b" if "b \<notin> set (c # chans ch)" for b
    using s1(3) s2(2) that sc by (simp add: all_closed_def closed_from_def)
  moreover have "\<forall>q. q \<noteq> p \<longrightarrow> cs_dp s2 q = cs_dp s q" using s1(3) s2(2) by (simp add: all_closed_def closed_from_def)
  moreover have "ch_fsm_state (cs_chan s2 c) = STATE_CLOSE_CONN" using s2(2) by (simp add: closed_from_def)
  ultimately show ?thesis by (intro exI[of _ s2] conjI) blast+
qed
text \<open>C29: closing the main channel of a datapath closes the datapath's auxiliary channels as well, from the
  last to the first, and then itself. Every descriptor is closed exactly once, all channels are in the
  closed state, their safe references are refused from then on while all others stay valid, the list
  entries are freed and the list is empty; no other channel or datapath is touched.\<close>

theorem chan_main_close_closes_all:
  assumes "aux_ring p (ents ch) s" "tables_ok s" "\<forall>z\<in>set ch. aux_channel e p s z" "distinct (chans ch)"
    "c \<notin> set (chans ch)" "attached p c r s" "ch_auxiliary_id (cs_chan s c) = 0" "en_close_ok e (ch_trnsprt_fd (cs_chan s c))"
  shows "\<exists>s'. fire (fsm_run e) CLOSE_EVENT c s = Some (OF_SUCCESS, s') \<and> aux_ring p [] s' \<and>
    (\<forall>(x, a, q)\<in>set ch. cs_ent s' x = None \<and> ch_fsm_state (cs_chan s' a) = STATE_CLOSE_CONN \<and>
       mch_refs (cs_tbl s' (conn_tbl s a)) q = None) \<and>
    ch_fsm_state (cs_chan s' c) = STATE_CLOSE_CONN \<and> mch_refs (cs_tbl s' (conn_tbl s c)) r = None \<and>
    (\<forall>tb q b. mch_refs (cs_tbl s tb) q = Some b \<longrightarrow> b \<notin> set (c # chans ch) \<longrightarrow> mch_refs (cs_tbl s' tb) q = Some b) \<and>
    closes s' = closes s @ map (\<lambda>b. ch_trnsprt_fd (cs_chan s b)) (rev (chans ch) @ [c]) \<and>
    (\<forall>b. b \<notin> set (c # chans ch) \<longrightarrow> cs_chan s' b = cs_chan s b) \<and> (\<forall>q. q \<noteq> p \<longrightarrow> cs_dp s' q = cs_dp s q)"
  using main_close_all[OF assms] .

section \<open>Enumerating and searching\<close>

text \<open>Walking over the list with the functions for the first and the next entry.\<close>

fun aux_walk :: "addr \<Rightarrow> chan_sys \<Rightarrow> nat \<Rightarrow> ptr \<Rightarrow> addr list option" where
  "aux_walk p s rounds cur = (case cur of None \<Rightarrow> Some []
     | Some x \<Rightarrow> (case rounds of 0 \<Rightarrow> None
       | Suc k \<Rightarrow> Option.bind (of_get_next_aux_channel p x s) (\<lambda>n. map_option (Cons x) (aux_walk p s k n))))"

declare aux_walk.simps [simp del]

abbreviation entry_id :: "chan_sys \<Rightarrow> addr \<Rightarrow> u32" where "entry_id s x \<equiv> ce_auxiliary_id (the (cs_ent s x))"

lemma ring_next:
  assumes r: "aux_ring p xs s" and i: "i < length xs"
  shows "of_get_next_aux_channel p (xs ! i) s = Some (if Suc i < length xs then Some (xs ! Suc i) else None)"
proof -
  obtain en where en: "cs_ent s (xs ! i) = Some en" "ce_next en = Some (if Suc i < length xs then xs ! Suc i else hd xs)"
    using aux_ring_entry[OF r i] by metis
  have "hd xs = xs ! 0" using i by (cases xs) simp_all
  then have "xs ! Suc i \<noteq> hd xs" if "Suc i < length xs"
    using r i that nth_eq_iff_index_eq[of xs "Suc i" 0] by (cases xs) (simp_all add: aux_ring_def)
  then show ?thesis using r i en by (auto simp: of_get_next_aux_channel_def aux_ring_def)
qed

lemma ring_walk:
  assumes r: "aux_ring p xs s" and n: "length xs \<le> n"
  shows "aux_walk p s n (of_get_first_aux_channel p s) = Some xs"
proof -
  have step: "aux_walk p s k (if i < length xs then Some (xs ! i) else None) = Some (drop i xs)" if "length xs \<le> k + i" for k i
    using that
  proof (induction k arbitrary: i)
    case 0
    then show ?case by (simp add: aux_walk.simps)
  next
    case (Suc k)
    show ?case
    proof (cases "i < length xs")
      case True
      have "length xs \<le> k + Suc i" using Suc.prems by simp
      then have "aux_walk p s k (if Suc i < length xs then Some (xs ! Suc i) else None) = Some (drop (Suc i) xs)"
        by (rule Suc.IH)
      then show ?thesis using True ring_next[OF r True] by (simp add: aux_walk.simps[of _ _ "Suc k"] Cons_nth_drop_Suc)
    qed (simp add: aux_walk.simps[of _ _ _ None])
  qed
  have "of_get_first_aux_channel p s = (if 0 < length xs then Some (xs ! 0) else None)"
    using r by (auto simp: of_get_first_aux_channel_def aux_ring_def hd_conv_nth)
  then show ?thesis using step[of n 0] n by simp
qed

lemma ring_search:
  assumes r: "aux_ring p xs s" and n: "length xs \<le> n" "xs \<noteq> []"
  shows "aux_search (cs_ent s) (dp_aux_channels (cs_dp s p)) i n (dp_aux_channels (cs_dp s p)) = Some (find (\<lambda>x. entry_id s x = i) xs)"
proof -
  have h: "dp_aux_channels (cs_dp s p) = Some (xs ! 0)" using r n(2) by (simp add: aux_ring_def hd_conv_nth)
  have step: "aux_search (cs_ent s) (Some (xs ! 0)) i k (Some (xs ! j)) = Some (find (\<lambda>x. entry_id s x = i) (drop j xs))"
    if "length xs \<le> k + j" "j < length xs" for k j
    using that
  proof (induction k arbitrary: j)
    case (Suc k)
    obtain en where en: "cs_ent s (xs ! j) = Some en" "ce_next en = Some (if Suc j < length xs then xs ! Suc j else hd xs)"
      using aux_ring_entry[OF r Suc.prems(2)] by metis
    have d: "drop j xs = xs ! j # drop (Suc j) xs" using Suc.prems(2) by (simp add: Cons_nth_drop_Suc)
    show ?case
    proof (cases "Suc j < length xs")
      case True
      have "length xs \<le> k + Suc j" using Suc.prems by simp
      note IH = Suc.IH[OF this True]
      have "xs ! Suc j \<noteq> xs ! 0"
        using r True n(2) nth_eq_iff_index_eq[of xs "Suc j" 0] by (simp add: aux_ring_def)
      then show ?thesis using en d True IH by (simp add: aux_search.simps[of _ _ _ "Suc k"])
    next
      case False
      then show ?thesis using en d n(2) by (simp add: aux_search.simps[of _ _ _ "Suc k"] hd_conv_nth)
    qed
  qed simp
  show ?thesis using step[of n 0] n unfolding h by simp
qed

text \<open>C31: attaching an auxiliary channel appends its entry to the sequence the circular list represents.
  The entry holds the auxiliary id, the connection table and the safe reference of the channel; the other
  entries keep their contents, and neither the main channel nor any connection changes. The walk over the
  list then visits exactly the sequence, and the search by auxiliary id returns its first entry with that
  id.\<close>

theorem dp_attach_refines_list:
  assumes "aux_ring p xs s" "length xs < 255" "x \<notin> set xs" "en_dp_handle e (sf_datapath_id f) = Some h"
    "en_dp_byhandle e h = Some p" "dp_is_main_conn_present (cs_dp s p)" "en_new_entry e = Some x"
  shows "\<exists>s' en. of_add_channel_to_dp e tb ref f s = Some (OF_SUCCESS, Some (p, h), s') \<and> aux_ring p (xs @ [x]) s' \<and>
    cs_ent s' x = Some en \<and> ce_auxiliary_id en = ucast (sf_auxiliary_id f) \<and> ce_conn_table en = Some tb \<and>
    ce_conn_safe_ref en = ref \<and> ce_dp_handle en = h \<and> ce_datapath en = Some p \<and>
    (\<forall>y en. y \<noteq> x \<longrightarrow> cs_ent s y = Some en \<longrightarrow> (\<exists>nx. cs_ent s' y = Some (en\<lparr>ce_next := nx\<rparr>))) \<and>
    cs_chan s' = cs_chan s \<and> cs_tbl s' = cs_tbl s \<and> dp_main_channel (cs_dp s' p) = dp_main_channel (cs_dp s p) \<and>
    aux_walk p s' (Suc (length xs)) (of_get_first_aux_channel p s') = Some (xs @ [x]) \<and>
    (\<forall>i. i \<noteq> 0 \<longrightarrow> of_get_dp_channel e (Suc (length xs)) h i s' =
      Some (map_option Aux_entry (find (\<lambda>y. entry_id s' y = i) (xs @ [x]))))"
proof -
  obtain s1 en where s1: "append_aux p x s = Some s1" "aux_ring p (xs @ [x]) s1" "cs_ent s1 x = Some en"
    "\<And>y en. y \<noteq> x \<Longrightarrow> cs_ent s y = Some en \<Longrightarrow> \<exists>nx. cs_ent s1 y = Some (en\<lparr>ce_next := nx\<rparr>)"
    "cs_chan s1 = cs_chan s" "cs_tbl s1 = cs_tbl s" "dp_main_channel (cs_dp s1 p) = dp_main_channel (cs_dp s p)"
    using append_aux_ok[OF assms(1,3,2)] by blast
  let ?en = "fill_entry (Some tb) h p ref (en\<lparr>ce_auxiliary_id := ucast (sf_auxiliary_id f)\<rparr>)"
  let ?s = "s1\<lparr>cs_ent := (cs_ent s1)(x \<mapsto> ?en)\<rparr>"
  have eq: "of_add_channel_to_dp e tb ref f s = Some (OF_SUCCESS, Some (p, h), ?s)"
    using assms(4-7) s1(1,3) by (simp add: of_add_channel_to_dp_def)
  have "\<exists>e. cs_ent ?s y = Some e \<and> ce_prev e = a \<and> ce_next e = b"
    if "\<exists>e. cs_ent s1 y = Some e \<and> ce_prev e = a \<and> ce_next e = b" for y a b
    using that s1(3) by (auto simp: fill_entry_def)
  then have ring: "aux_ring p (xs @ [x]) ?s" using s1(2) unfolding aux_ring_def by simp
  have len: "length (xs @ [x]) \<le> Suc (length xs)" by simp
  have walk: "aux_walk p ?s (Suc (length xs)) (of_get_first_aux_channel p ?s) = Some (xs @ [x])" by (rule ring_walk[OF ring len])
  have search: "of_get_dp_channel e (Suc (length xs)) h i ?s = Some (map_option Aux_entry (find (\<lambda>y. entry_id ?s y = i) (xs @ [x])))"
    if "i \<noteq> 0" for i
    unfolding of_get_dp_channel_def using that assms(5) ring_search[OF ring len, of i] by simp
  show ?thesis
    by (rule exI[of _ ?s], rule exI[of _ ?en], intro conjI allI impI eq ring walk search)
      (use s1 in \<open>simp_all add: fill_entry_def\<close>)
qed
section \<open>A concrete datapath\<close>

text \<open>Every channel \<open>c\<close> is the only node of the connection table \<open>c\<close> of its own transport. The datapath 1 has
  the main channel 5 and the auxiliary channels 6 and 7 with the entries 20 and 21.\<close>

definition demo_tbl :: "addr \<Rightarrow> mchash_table" where
  "demo_tbl n = snd (the (MCHASH_APPEND_NODE 1 n demo_table))"

definition demo_ref :: "addr \<Rightarrow> u32 \<times> u32" where
  "demo_ref n = the (fst (the (MCHASH_APPEND_NODE 1 n demo_table)))"

definition demo_entry :: "addr \<Rightarrow> addr \<Rightarrow> addr \<Rightarrow> dprm_dp_channel_entry" where
  "demo_entry c x y = \<lparr>ce_next = Some x, ce_prev = Some y, ce_auxiliary_id = of_nat (c - 5), ce_dp_handle = 7, ce_datapath = Some 1,
     ce_conn_table = Some c, ce_conn_safe_ref = demo_ref c\<rparr>"

definition demo_ring :: chan_sys where
  "demo_ring = demo_chan_sys\<lparr>
     cs_chan := (\<lambda>c. demo_channel\<lparr>ch_trnsprt_info := c, ch_auxiliary_id := of_nat (c - 5), ch_trnsprt_fd := int c + 10,
       ch_fsm_state := STATE_BOUND_TO_DP, ch_is_chn_added_to_dp := True, ch_is_chn_added_2_hash_tbl := True,
       ch_safe_ref := Some (demo_ref c), ch_datapath := Some 1, ch_dp_handle := 7\<rparr>),
     cs_info := (\<lambda>i. \<lparr>xi_fd_type = FD_TYPE_SHARED_AND_DEDICATED, xi_connection_tbl = i\<rparr>),
     cs_tbl := demo_tbl,
     cs_dp := (\<lambda>p. (cs_dp demo_chan_sys p)\<lparr>dp_is_main_conn_present := True, dp_is_dp_active := True,
       dp_main_channel := demo_entry 5 0 0, dp_curr_no_of_aux_chanels := 2, dp_aux_channels := Some 20, dp_aux_chn_tail := Some 21\<rparr>),
     cs_ent := [20 \<mapsto> demo_entry 6 21 20, 21 \<mapsto> demo_entry 7 20 20]\<rparr>"

lemma demo_tbl: "\<exists>B. mch_inv (demo_tbl n) B" "mch_refs (demo_tbl n) (demo_ref n) = Some n"
proof -
  have "unat (1 :: u32) < length (bucket_list demo_table)" using demo_facts by simp
  from append_ok[OF demo_facts(1) this, of n] demo_facts obtain i t B where
    "MCHASH_APPEND_NODE 1 n demo_table = Some (Some (i, magic_no demo_table), t)" "mch_inv t B"
    "mch_refs t = (mch_refs demo_table)((i, magic_no demo_table) \<mapsto> n)"
    by (auto simp: inserted_def)
  then show "\<exists>B. mch_inv (demo_tbl n) B" "mch_refs (demo_tbl n) (demo_ref n) = Some n"
    by (auto simp: demo_tbl_def demo_ref_def)
qed

lemma demo_ring_ok:
  "aux_ring 1 (ents [(20, 6, demo_ref 6), (21, 7, demo_ref 7)]) demo_ring" "tables_ok demo_ring" "attached 1 c (demo_ref c) demo_ring"
  "\<forall>z\<in>set [(20, 6, demo_ref 6), (21, 7, demo_ref 7)]. aux_channel (demo_chan_env True) 1 demo_ring z"
  by (auto simp: aux_ring_def demo_ring_def demo_entry_def less_Suc_eq tables_ok_def demo_tbl attached_def open_channel_def
      aux_channel_def demo_chan_env_def demo_channel_def)

theorem chan_main_close_closes_all_witness:
  "\<exists>s'. fire (fsm_run (demo_chan_env True)) CLOSE_EVENT 5 demo_ring = Some (OF_SUCCESS, s') \<and> aux_ring 1 [] s' \<and>
    cs_ent s' 20 = None \<and> cs_ent s' 21 = None \<and> closes s' = [17, 16, 15] \<and> mch_refs (cs_tbl s' 6) (demo_ref 6) = None"
proof -
  have "ch_auxiliary_id (cs_chan demo_ring 5) = 0" "en_close_ok (demo_chan_env True) (ch_trnsprt_fd (cs_chan demo_ring 5))"
    "distinct (chans [(20, 6, demo_ref 6), (21, 7, demo_ref 7)])" "5 \<notin> set (chans [(20, 6, demo_ref 6), (21, 7, demo_ref 7)])"
    by (simp_all add: demo_ring_def demo_chan_env_def)
  from chan_main_close_closes_all[OF demo_ring_ok(1,2,4) this(3,4) demo_ring_ok(3) this(1,2)]
  show ?thesis by (auto simp: demo_ring_def closes_def demo_chan_sys_def)
qed

theorem dp_attach_refines_list_witness:
  "\<exists>s' en. of_add_channel_to_dp (demo_chan_env True) 8 (1, 1) \<lparr>sf_datapath_id = 9, sf_n_buffers = 0, sf_n_tables = 1,
      sf_auxiliary_id = 3, sf_capabilities = 0\<rparr> demo_ring = Some (OF_SUCCESS, Some (1, 7), s') \<and>
    aux_ring 1 [20, 21, 2] s' \<and> cs_ent s' 2 = Some en \<and> ce_auxiliary_id en = 3 \<and>
    aux_walk 1 s' 3 (of_get_first_aux_channel 1 s') = Some [20, 21, 2]"
proof -
  let ?e = "demo_chan_env True"
  let ?f = "\<lparr>sf_datapath_id = 9, sf_n_buffers = 0, sf_n_tables = 1, sf_auxiliary_id = 3, sf_capabilities = 0\<rparr>"
  have e: "en_dp_handle ?e (sf_datapath_id ?f) = Some 7" "en_dp_byhandle ?e 7 = Some 1"
    "dp_is_main_conn_present (cs_dp demo_ring 1)" "en_new_entry ?e = Some 2"
    by (simp_all add: demo_chan_env_def demo_ring_def)
  have x: "length (ents [(20, 6, demo_ref 6), (21, 7, demo_ref 7)]) < 255" "2 \<notin> set (ents [(20, 6, demo_ref 6), (21, 7, demo_ref 7)])"
    by simp_all
  obtain s' en where r: "of_add_channel_to_dp ?e 8 (1, 1) ?f demo_ring = Some (OF_SUCCESS, Some (1, 7), s')"
    "aux_ring 1 (ents [(20, 6, demo_ref 6), (21, 7, demo_ref 7)] @ [2]) s'" "cs_ent s' 2 = Some en"
    "ce_auxiliary_id en = ucast (sf_auxiliary_id ?f)"
    "aux_walk 1 s' (Suc (length (ents [(20, 6, demo_ref 6), (21, 7, demo_ref 7)]))) (of_get_first_aux_channel 1 s') =
       Some (ents [(20, 6, demo_ref 6), (21, 7, demo_ref 7)] @ [2])"
    using dp_attach_refines_list[OF demo_ring_ok(1) x e, of 8 "(1, 1)"] by (elim exE conjE)
  have n: "Suc (length (ents [(20, 6, demo_ref 6), (21, 7, demo_ref 7)])) = 3"
    "ents [(20, 6, demo_ref 6), (21, 7, demo_ref 7)] @ [2] = [20, 21, 2]" by simp_all
  show ?thesis using r(1-4) r(5)[unfolded n(1)] unfolding n(2) by (intro exI conjI) simp_all
qed

end
