(* ===== verification/Channel_Release.thy ===== *)
theory Channel_Release
  imports Channel_Ring
begin

text \<open>
  Releases that go wrong: an auxiliary channel closed on its own, and the channels of a datapath released
  with the datapath.
\<close>

section \<open>An auxiliary channel closed on its own\<close>

lemma close_aux_alone:
  assumes "attached p a r s" "ch_auxiliary_id (cs_chan s a) \<noteq> 0" "tables_ok s" "en_close_ok e (ch_trnsprt_fd (cs_chan s a))"
  shows "\<exists>s'. fire (fsm_run e) CLOSE_EVENT a s = Some (OF_SUCCESS, s') \<and> closed_from p a r (set_event a CLOSE_EVENT s) s' \<and>
    dp_main_channel (cs_dp s' p) = zero_entry \<and> \<not> dp_is_main_conn_present (cs_dp s' p)"
proof -
  let ?s = "set_event a CLOSE_EVENT s"
  have x: "open_channel (cs_chan s a)" "ch_auxiliary_id (cs_chan ?s a) \<noteq> 0" using assms(1,2) by (simp_all add: attached_def set_event_def)
  obtain s' where "xprt_proto_channel_close e (dispatch (Suc 2) e) a ?s = Some (OF_SUCCESS, s')" "closed_from p a r ?s s'"
    "dp_main_channel (cs_dp s' p) = zero_entry" "\<not> dp_is_main_conn_present (cs_dp s' p)"
    using close_attached[of p a r ?s e 2] assms x(2) by auto
  then show ?thesis unfolding fire_close[OF x(1)] using x(2) by (simp add: fsm_xprt_proto_channel_close_def)
qed

text \<open>The loop over the auxiliary channels stops at an entry whose reference is stale.\<close>

lemma close_aux_loop_stale:
  assumes "aux_ring p (xs @ [x]) s" "ch_datapath (cs_chan s c) = Some p" "cs_ent s x = Some en" "ce_conn_table en = Some tb"
    "mch_inv (cs_tbl s tb) B" "mch_refs (cs_tbl s tb) (ce_conn_safe_ref en) = None"
    "unat (fst (ce_conn_safe_ref en)) < length (arr (cs_tbl s tb))" "snd (ce_conn_safe_ref en) \<noteq> 0"
  shows "close_aux_loop e d c (unat (dp_curr_no_of_aux_chanels (cs_dp s p))) s = Some (True, s)"
proof -
  have "unat (dp_curr_no_of_aux_chanels (cs_dp s p)) = Suc (length xs)" "dp_aux_chn_tail (cs_dp s p) = Some x"
    using aux_ring_count[OF assms(1)] assms(1) by (simp_all add: aux_ring_def)
  moreover from this(1) have "dp_curr_no_of_aux_chanels (cs_dp s p) \<noteq> 0" by (intro notI) simp
  moreover have "MCHASH_ACCESS_NODE (fst (ce_conn_safe_ref en)) (snd (ce_conn_safe_ref en)) (cs_tbl s tb) = Some None"
    using access_ok[OF assms(5,7,8)] assms(6) by simp
  ultimately show ?thesis using assms(2-4) by (simp add: close_aux_loop.simps[of _ _ _ "Suc _"])
qed

text \<open>C35: when the last auxiliary channel of a datapath is closed on its own, the datapath loses the entry of
  its main channel although that stays open, and keeps the list entry of the closed channel. Closing the
  main channel afterwards reports a failure at that entry: the main channel is closed, but every other
  auxiliary channel stays open and the list as it is.\<close>

theorem chan_aux_close_strands:
  assumes "aux_ring p (ents (zs @ [(x, a, ra)])) s" "tables_ok s" "\<forall>z\<in>set (zs @ [(x, a, ra)]). aux_channel e p s z"
    "distinct (chans (zs @ [(x, a, ra)]))" "c \<notin> set (chans (zs @ [(x, a, ra)]))" "attached p c r s"
    "ch_auxiliary_id (cs_chan s c) = 0" "en_close_ok e (ch_trnsprt_fd (cs_chan s c))"
  shows "\<exists>s1 s2. fire (fsm_run e) CLOSE_EVENT a s = Some (OF_SUCCESS, s1) \<and> cs_chan s1 c = cs_chan s c \<and>
    dp_main_channel (cs_dp s1 p) = zero_entry \<and> \<not> dp_is_main_conn_present (cs_dp s1 p) \<and>
    aux_ring p (ents (zs @ [(x, a, ra)])) s1 \<and>
    fire (fsm_run e) CLOSE_EVENT c s1 = Some (OF_FAILURE, s2) \<and> ch_fsm_state (cs_chan s2 c) = STATE_CLOSE_CONN \<and>
    aux_ring p (ents (zs @ [(x, a, ra)])) s2 \<and>
    (\<forall>(y, b, q)\<in>set zs. cs_chan s2 b = cs_chan s b \<and> attached p b q s2)"
proof -
  have xa: "attached p a ra s" "ch_auxiliary_id (cs_chan s a) \<noteq> 0" "en_close_ok e (ch_trnsprt_fd (cs_chan s a))"
    using assms(3) by (simp_all add: aux_channel_def)
  obtain en where en: "cs_ent s x = Some en" "ce_conn_table en = Some (conn_tbl s a)" "ce_conn_safe_ref en = ra"
    using assms(3) by (auto simp: aux_channel_def)
  have ac: "a \<noteq> c" "a \<notin> set (chans zs)" "c \<notin> set (chans zs)" using assms(4,5) by auto
  let ?sa = "set_event a CLOSE_EVENT s"
  obtain s1 where s1: "fire (fsm_run e) CLOSE_EVENT a s = Some (OF_SUCCESS, s1)" "closed_from p a ra ?sa s1"
    "dp_main_channel (cs_dp s1 p) = zero_entry" "\<not> dp_is_main_conn_present (cs_dp s1 p)"
    using close_aux_alone[OF xa(1,2) assms(2) xa(3)] by blast
  have att: "attached p b q s1" "cs_chan s1 b = cs_chan s b" if "attached p b q s" "b \<noteq> a" for b q
    using attached_after_close[OF s1(2), of p b q] xa(1) that by simp_all
  have ring1: "aux_ring p (ents (zs @ [(x, a, ra)])) s1"
    by (rule aux_ring_cong[OF assms(1)]) (use s1(2) in \<open>simp_all add: closed_from_def same_aux_def\<close>)
  let ?s1 = "set_event c CLOSE_EVENT s1"
  have c1: "attached p c r s1" "cs_chan s1 c = cs_chan s c" using att[OF assms(6)] ac(1) by simp_all
  have t1: "tables_ok s1" using s1(2) by (simp add: closed_from_def)
  obtain B where B: "mch_inv (cs_tbl s (conn_tbl s a)) B" using tables_okD[OF assms(2)] by blast
  obtain B1 where B1: "mch_inv (cs_tbl ?s1 (conn_tbl s a)) B1" using tables_okD[OF t1] by auto
  have ra: "mch_refs (cs_tbl s (conn_tbl s a)) (fst ra, snd ra) = Some a" using xa(1) by (simp add: attached_def)
  note rr = refs_entry(1,3)[OF B ra]
  have stale: "mch_refs (cs_tbl ?s1 (conn_tbl s a)) ra = None" "length (arr (cs_tbl ?s1 (conn_tbl s a))) = length (arr (cs_tbl s (conn_tbl s a)))"
    "cs_ent ?s1 x = Some en"
    using s1(2) en(1) by (simp_all add: closed_from_def)
  have dpc: "ch_datapath (cs_chan ?s1 c) = Some p" using c1(1) by (simp add: attached_def set_event_def)
  have "close_aux_loop e (dispatch (Suc 2) e) c (unat (dp_curr_no_of_aux_chanels (cs_dp ?s1 p))) ?s1 = Some (True, ?s1)"
    by (rule close_aux_loop_stale[OF _ dpc stale(3) en(2) B1, of "ents zs"])
      (use ring1 stale rr en(3) in simp_all)
  moreover have "dp_aux_channels (cs_dp ?s1 p) \<noteq> None" using ring1 by (simp add: aux_ring_def)
  ultimately have loop: "(if dp_aux_channels (cs_dp ?s1 p) \<noteq> None
      then close_aux_loop e (dispatch (Suc 2) e) c (unat (dp_curr_no_of_aux_chanels (cs_dp ?s1 p))) ?s1 else Some (False, ?s1)) = Some (True, ?s1)"
    by (simp only: if_True not_False_eq_True)
  have "ch_auxiliary_id (cs_chan ?s1 c) = ch_auxiliary_id (cs_chan s1 c)" by (simp add: set_event_def)
  then have cc: "attached p c r ?s1" "tables_ok ?s1" "en_close_ok e (ch_trnsprt_fd (cs_chan ?s1 c))" "ch_auxiliary_id (cs_chan ?s1 c) = 0"
    using c1 t1 assms(7,8) by simp_all
  have op: "open_channel (cs_chan s1 c)" using c1(1) by (simp add: attached_def)
  obtain s2 where s2: "xprt_proto_channel_close e (dispatch (Suc 2) e) c ?s1 = Some (OF_SUCCESS, s2)" "closed_from p c r ?s1 s2"
    using close_attached[OF cc(1,2,3)] by blast
  have "fire (fsm_run e) CLOSE_EVENT c s1 = Some (OF_FAILURE, s2)"
    unfolding fire_close[OF op] using close_after_aux[OF cc(1,4) loop s2(1)] by simp
  moreover have "aux_ring p (ents (zs @ [(x, a, ra)])) s2"
    by (rule aux_ring_cong[OF ring1]) (use s2(2) in \<open>simp_all add: closed_from_def same_aux_def\<close>)
  moreover have "cs_chan s2 b = cs_chan s b \<and> attached p b q s2" if z: "(y, b, q) \<in> set zs" for y b q
  proof -
    have "attached p b q s" using assms(3) z by (auto simp: aux_channel_def)
    moreover have ne: "b \<noteq> a" "b \<noteq> c" using ac(2,3) z by force+
    ultimately show ?thesis
      using att[of b q] attached_after_close[OF s2(2) cc(1), of p b q] by simp
  qed
  moreover have "ch_fsm_state (cs_chan s2 c) = STATE_CLOSE_CONN" using s2(2) by (simp add: closed_from_def)
  ultimately show ?thesis using s1(1,3,4) c1(2) ring1 by (intro exI[of _ s1] exI[of _ s2] conjI) blast+
qed

section \<open>The channels of a datapath that is deleted\<close>

text \<open>Detaching never restores the entry of a main channel.\<close>

lemma detach_keeps_zero:
  assumes "fsm_xprt_proto_channel_detach_dp e c s = Some (r, s')" "dp_main_channel (cs_dp s p) = zero_entry"
  shows "dp_main_channel (cs_dp s' p) = zero_entry"
  using assms unfolding fsm_xprt_proto_channel_detach_dp_def Let_def
  by (auto split: if_splits option.splits)

lemma detach_event_keeps_zero:
  assumes "fsm_send_channel_event (fsm_run e) c DP_DETACH_EVENT s = Some s'" "dp_main_channel (cs_dp s p) = zero_entry"
  shows "dp_main_channel (cs_dp s' p) = zero_entry"
proof -
  let ?s = "set_event c DP_DETACH_EVENT s"
  obtain r s1 where s1: "fire (fsm_run e) DP_DETACH_EVENT c s = Some (r, s1)" "s' = set_state c STATE_WAIT_FOR_HANDSHAKE s1"
    using assms(1) by (auto simp: fsm_send_channel_event_def split: Option.bind_splits)
  have ev: "ch_fsm_state (cs_chan ?s c) = ch_fsm_state (cs_chan s c)" "ch_fsm_event (cs_chan ?s c) = DP_DETACH_EVENT" "(4 :: nat) = Suc 3"
    by (simp_all add: set_event_def)
  have "fire (fsm_run e) DP_DETACH_EVENT c s = (case cntlr_xprt_proto_channel_fsm_handler (ch_fsm_state (cs_chan s c)) DP_DETACH_EVENT of
      None \<Rightarrow> None | Some h \<Rightarrow> run_handler h e (dispatch 3 e) c None ?s)"
    unfolding fire_def fsm_run_def ev(3) dispatch.simps by (simp only: ev)
  then consider "fsm_xprt_proto_channel_detach_dp e c ?s = Some (r, s1)" | "s1 = ?s"
    using s1(1) by (cases "ch_fsm_state (cs_chan s c)") (auto simp: fsm_xprt_proto_channel_error_def)
  then have "dp_main_channel (cs_dp s1 p) = zero_entry"
    by cases (use assms(2) detach_keeps_zero[of e c ?s r s1 p] in simp_all)
  then show ?thesis using s1(2) by (simp add: set_state_def)
qed

lemma detach_aux_loop_zero:
  assumes "detach_aux_loop e p k cur s = Some s'" "dp_main_channel (cs_dp s p) = zero_entry"
  shows "dp_main_channel (cs_dp s' p) = zero_entry"
  using assms
proof (induction k arbitrary: cur s)
  case 0
  then show ?case by (simp add: detach_aux_loop.simps[of _ _ 0] split: if_splits)
next
  case (Suc k)
  show ?case
  proof (cases "dp_curr_no_of_aux_chanels (cs_dp s p) = 0")
    case True
    then show ?thesis using Suc.prems by (simp add: detach_aux_loop.simps[of _ _ "Suc k"])
  next
    case False
    then obtain c s1 cur' where "fsm_send_channel_event (fsm_run e) c DP_DETACH_EVENT s = Some s1"
      "detach_aux_loop e p k cur' (upd_dp p (\<lambda>q. q\<lparr>dp_curr_no_of_aux_chanels := dp_curr_no_of_aux_chanels q - 1\<rparr>) s1) = Some s'"
      using Suc.prems(1)
      by (auto simp: detach_aux_loop.simps[of _ _ "Suc k"] split: option.splits Option.bind_splits)
    then show ?thesis using Suc.IH detach_event_keeps_zero Suc.prems(2) by fastforce
  qed
qed

text \<open>Releasing the channels of a datapath that has auxiliary channels never succeeds: detaching the
  first one clears the datapath's entry of the main channel, which is used at the end to find that channel,
  so a NULL table is accessed unless the loop did not end before.\<close>

theorem dp_free_channels_undefined:
  assumes "aux_ring p (ents ((x, a, r) # zs)) s" "aux_channel e p s (x, a, r)" "tables_ok s" "dp_is_main_conn_present (cs_dp s p)"
  shows "dprm_free_datapath_channels e (Some p) s = None"
proof -
  have at: "attached p a r s" "ch_auxiliary_id (cs_chan s a) \<noteq> 0" using assms(2) by (simp_all add: aux_channel_def)
  obtain en where en: "cs_ent s x = Some en" "ce_conn_table en = Some (conn_tbl s a)" "ce_conn_safe_ref en = r"
    using assms(2) by (auto simp: aux_channel_def)
  have n: "unat (dp_curr_no_of_aux_chanels (cs_dp s p)) = Suc (length zs)" "dp_aux_channels (cs_dp s p) = Some x"
    using aux_ring_count[OF assms(1)] assms(1) by (simp_all add: aux_ring_def)
  then have nz: "dp_curr_no_of_aux_chanels (cs_dp s p) \<noteq> 0" by (intro notI) simp
  obtain B where B: "mch_inv (cs_tbl s (conn_tbl s a)) B" using tables_okD[OF assms(3)] by blast
  have acc: "MCHASH_ACCESS_NODE (fst r) (snd r) (cs_tbl s (conn_tbl s a)) = Some (Some (Some a))"
    by (rule access_ref[OF B]) (use at(1) in \<open>simp add: attached_def\<close>)
  obtain ret s1 where d: "fire (dispatch (Suc 3) e) DP_DETACH_EVENT a s = Some (ret, s1)" "dp_main_channel (cs_dp s1 p) = zero_entry"
    using fire_detach[OF at(1), of 3 e] at(2) by blast
  have f: "fsm_send_channel_event (fsm_run e) a DP_DETACH_EVENT s = Some (set_state a STATE_WAIT_FOR_HANDSHAKE s1)"
    using d(1) by (simp add: fsm_send_channel_event_def fsm_run_def eval_nat_numeral)
  have "ce_conn_table (dp_main_channel (cs_dp s2 p)) = None"
    if l: "detach_aux_loop e p (Suc (length zs)) (Some x) s = Some s2" for s2
  proof -
    obtain cur' where "detach_aux_loop e p (length zs) cur'
        (upd_dp p (\<lambda>q. q\<lparr>dp_curr_no_of_aux_chanels := dp_curr_no_of_aux_chanels q - 1\<rparr>) (set_state a STATE_WAIT_FOR_HANDSHAKE s1)) = Some s2"
      using l nz en acc f by (auto simp: detach_aux_loop.simps[of _ _ "Suc _"] split: option.splits)
    then have "dp_main_channel (cs_dp s2 p) = zero_entry"
      by (rule detach_aux_loop_zero) (use d(2) in \<open>simp add: set_state_def\<close>)
    then show ?thesis by (simp add: zero_entry_def)
  qed
  then show ?thesis using assms(4) n
    by (cases "detach_aux_loop e p (Suc (length zs)) (Some x) s") (simp_all add: dprm_free_datapath_channels_def Let_def)
qed

section \<open>Witnesses\<close>

theorem chan_aux_close_strands_witness:
  "\<exists>s1 s2. fire (fsm_run (demo_chan_env True)) CLOSE_EVENT 7 demo_ring = Some (OF_SUCCESS, s1) \<and>
    fire (fsm_run (demo_chan_env True)) CLOSE_EVENT 5 s1 = Some (OF_FAILURE, s2) \<and> ch_fsm_state (cs_chan s2 6) = STATE_BOUND_TO_DP \<and>
    aux_ring 1 [20, 21] s2"
proof -
  let ?zs = "[(20 :: addr, 6 :: addr, demo_ref 6)]"
  have "ch_auxiliary_id (cs_chan demo_ring 5) = 0" "en_close_ok (demo_chan_env True) (ch_trnsprt_fd (cs_chan demo_ring 5))"
    "distinct (chans (?zs @ [(21, 7, demo_ref 7)]))" "5 \<notin> set (chans (?zs @ [(21, 7, demo_ref 7)]))"
    by (simp_all add: demo_ring_def demo_chan_env_def)
  moreover have "aux_ring 1 (ents (?zs @ [(21, 7, demo_ref 7)])) demo_ring"
    "\<forall>z\<in>set (?zs @ [(21, 7, demo_ref 7)]). aux_channel (demo_chan_env True) 1 demo_ring z"
    using demo_ring_ok(1,4) by simp_all
  ultimately obtain s1 s2 where r: "fire (fsm_run (demo_chan_env True)) CLOSE_EVENT 7 demo_ring = Some (OF_SUCCESS, s1)"
    "fire (fsm_run (demo_chan_env True)) CLOSE_EVENT 5 s1 = Some (OF_FAILURE, s2)" "aux_ring 1 (ents (?zs @ [(21, 7, demo_ref 7)])) s2"
    "\<forall>(y, b, q)\<in>set ?zs. cs_chan s2 b = cs_chan demo_ring b \<and> attached 1 b q s2"
    using chan_aux_close_strands[OF _ demo_ring_ok(2) _ _ _ demo_ring_ok(3), of ?zs 21 7 "demo_ref 7" "demo_chan_env True" 5] by blast
  then show ?thesis by (intro exI[of _ s1] exI[of _ s2]) (simp add: demo_ring_def)
qed

theorem dp_free_channels_undefined_witness:
  "dprm_free_datapath_channels (demo_chan_env True) (Some 1) demo_ring = None"
  using dp_free_channels_undefined[of 1 20 6 "demo_ref 6" "[(21, 7, demo_ref 7)]" demo_ring "demo_chan_env True"] demo_ring_ok(1,2,4)
  by (simp add: demo_ring_def)

end
