(* ===== verification/Channel_Types.thy ===== *)
theory Channel_Types
  imports Channel_Dp
begin

text \<open>
  What every event preserves: a channel is well-formed, and its state only moves from creation over the
  two open states to the closed one, however deep the handlers nest.
\<close>

section \<open>Well-formed channels and the order of the states\<close>

text \<open>A header being read has room for its next byte; a channel in the bound state has been added to a
  datapath.\<close>

definition chan_wf :: "cntlr_channel_info \<Rightarrow> bool" where
  "chan_wf x \<longleftrightarrow> length (ch_msg_hdr x) = 8 \<and> (ch_msg_state x = CHN_WAITING_FOR_MSG_HEADER \<longrightarrow> ch_hdr_len_read x < 8) \<and>
     (ch_fsm_state x = STATE_BOUND_TO_DP \<longrightarrow> ch_is_chn_added_to_dp x)"

fun phase :: "xprt_proto_channel_state_e \<Rightarrow> nat" where
  "phase STATE_INIT = 0"
| "phase STATE_WAIT_FOR_HANDSHAKE = 1"
| "phase STATE_BOUND_TO_DP = 1"
| "phase STATE_CLOSE_CONN = 2"

definition chan_le :: "cntlr_channel_info \<Rightarrow> cntlr_channel_info \<Rightarrow> bool" where
  "chan_le x y \<longleftrightarrow> (chan_wf x \<longrightarrow> chan_wf y) \<and> phase (ch_fsm_state x) \<le> phase (ch_fsm_state y)"

definition keeps :: "chan_sys \<Rightarrow> chan_sys \<Rightarrow> bool" where
  "keeps s s' \<longleftrightarrow> (\<forall>c. chan_le (cs_chan s c) (cs_chan s' c))"

lemma chan_le_refl [simp]: "chan_le x x" by (simp add: chan_le_def)

lemma chan_le_trans: "chan_le x y \<Longrightarrow> chan_le y z \<Longrightarrow> chan_le x z" by (auto simp: chan_le_def)

lemma keeps_refl [simp]: "keeps s s" by (simp add: keeps_def)

lemma keeps_trans [trans]: "keeps s s' \<Longrightarrow> keeps s' s'' \<Longrightarrow> keeps s s''"
  unfolding keeps_def using chan_le_trans by blast

lemma keeps_same: "cs_chan s' = cs_chan s'' \<Longrightarrow> keeps s s' = keeps s s''" by (simp add: keeps_def)

lemma keeps_simps [simp]:
  "keeps s (call x s') = keeps s s'" "keeps s (upd_dp p g s') = keeps s s'" "keeps s (s'\<lparr>cs_tbl := t\<rparr>) = keeps s s'"
  "keeps s (s'\<lparr>cs_ent := en\<rparr>) = keeps s s'" "keeps s (s'\<lparr>cs_rx := rx\<rparr>) = keeps s s'"
  "keeps s (s'\<lparr>invalid_channel_state_g := k\<rparr>) = keeps s s'" "keeps s (s'\<lparr>curr_thrd_2_which_ch_assnd := n\<rparr>) = keeps s s'"
  by (simp_all add: keeps_def)

lemma keeps_upd: "keeps s s' \<Longrightarrow> chan_le (cs_chan s' c) (f (cs_chan s' c)) \<Longrightarrow> keeps s (upd_ch c f s')"
  using chan_le_trans by (fastforce simp: keeps_def)

text \<open>Updates of the other fields.\<close>

lemma chan_le_simps [simp]:
  "chan_le x (x\<lparr>ch_fsm_event := a\<rparr>)" "chan_le x (x\<lparr>ch_msg_buf := b\<rparr>)" "chan_le x (x\<lparr>ch_recv_bytes := n\<rparr>)"
  "chan_le x (x\<lparr>ch_tx_bytes := n\<rparr>)" "chan_le x (x\<lparr>ch_drain_out_bytes := k\<rparr>)" "chan_le x (x\<lparr>ch_state := i\<rparr>)"
  "chan_le x (x\<lparr>ch_msg_q_box := q\<rparr>)" "chan_le x (x\<lparr>ch_thread := q\<rparr>)" "chan_le x (x\<lparr>ch_keep_alive_state := w\<rparr>)"
  "chan_le x (x\<lparr>ch_safe_ref := r\<rparr>)" "chan_le x (x\<lparr>ch_is_chn_added_2_hash_tbl := h, ch_state := i\<rparr>)"
  "chan_le x (x\<lparr>ch_safe_ref := r, ch_is_chn_added_2_hash_tbl := h, ch_state := i\<rparr>)"
  "chan_le x (x\<lparr>ch_msg_state := CHN_DRAIN_OUT_COMPLETE_MSG\<rparr>)" "chan_le x (x\<lparr>ch_msg_state := CHN_DRAIN_OUT_COMPLETE_MSG, ch_drain_out_bytes := k\<rparr>)"
  "chan_le x (x\<lparr>ch_msg_state := CHN_WAITING_FOR_NEW_MSG, ch_drain_out_bytes := k\<rparr>)"
  "chan_le x (x\<lparr>ch_msg_state := CHN_RCVD_COMPLETE_MSG\<rparr>)" "chan_le x (x\<lparr>ch_msg_state := CHN_RCVD_COMPLETE_MSG, ch_msg_buf := b\<rparr>)"
  "chan_le x (x\<lparr>ch_msg_buf := b, ch_msg_len_read := w\<rparr>)" "chan_le x (x\<lparr>ch_msg_state := CHN_START_READING_MSG, ch_msg_buf := b\<rparr>)"
  "chan_le x (x\<lparr>ch_msg_buf := b, ch_msg_state := CHN_WAITING_FOR_NEW_MSG, ch_hdr_len_read := w\<rparr>)"
  "chan_le x (x\<lparr>ch_fsm_state := STATE_CLOSE_CONN\<rparr>)"
  by (auto simp: chan_le_def chan_wf_def) (cases "ch_fsm_state x"; simp)+

text \<open>A result: the state is kept and the code is one of two.\<close>

definition result_ok :: "chan_sys \<Rightarrow> (int \<times> chan_sys) option \<Rightarrow> bool" where
  "result_ok s m \<longleftrightarrow> (\<forall>r s'. m = Some (r, s') \<longrightarrow> keeps s s' \<and> (r = OF_SUCCESS \<or> r = OF_FAILURE))"

definition fn_ok :: "chan_fn \<Rightarrow> bool" where
  "fn_ok d \<longleftrightarrow> (\<forall>c arg s. result_ok s (d c arg s))"

lemma result_okI: "(\<And>r s'. m = Some (r, s') \<Longrightarrow> keeps s s' \<and> (r = OF_SUCCESS \<or> r = OF_FAILURE)) \<Longrightarrow> result_ok s m"
  by (simp add: result_ok_def)

lemma result_ok_simps [simp]:
  "result_ok s None" "result_ok s (Some (r, s')) \<longleftrightarrow> keeps s s' \<and> (r = OF_SUCCESS \<or> r = OF_FAILURE)"
  by (auto simp: result_ok_def)

lemma result_ok_trans: "keeps s s' \<Longrightarrow> result_ok s' m \<Longrightarrow> result_ok s m"
  by (auto simp: result_ok_def intro: keeps_trans)

lemma result_ok_bind:
  assumes "result_ok s m" "\<And>r s'. m = Some (r, s') \<Longrightarrow> keeps s s' \<Longrightarrow> r = OF_SUCCESS \<or> r = OF_FAILURE \<Longrightarrow> result_ok s (f (r, s'))"
  shows "result_ok s (Option.bind m f)"
  using assms by (cases m) (auto simp: result_ok_def)

lemma fire_ok: "fn_ok d \<Longrightarrow> keeps s s' \<Longrightarrow> result_ok s (fire d ev c s')"
  by (rule result_ok_trans[of s "set_event c ev s'"])
    (auto simp: fn_ok_def fire_def set_event_def intro!: keeps_upd)
section \<open>The operations\<close>

lemma tcp_read_keeps:
  assumes "tcp_transport_read_data c n s = (ret, bs, closed, s1)" shows "keeps s s1" "length bs \<le> unat n"
proof -
  show "keeps s s1" using tcp_read_fields[OF assms] by (simp add: keeps_def)
  show "length bs \<le> unat n" using assms by (auto simp: tcp_transport_read_data_def split: if_splits list.splits rx_event.splits)
qed

lemma read_msg_keeps:
  assumes "fn_ok d" "fsm_xprt_proto_channel_read_msg_from_dp e d c n s = Some (r, bs, s')"
  shows "keeps s s' \<and> (r = OF_SUCCESS \<or> r = OF_FAILURE)"
proof -
  obtain ret b closed s1 where t: "tcp_transport_read_data c n s = (ret, b, closed, s1)" by (metis prod_cases4)
  have k: "keeps s (upd_ch c (\<lambda>x. x\<lparr>ch_drain_out_bytes := w x\<rparr>) (upd_ch c (ch_msg_state_update (\<lambda>_. CHN_DRAIN_OUT_COMPLETE_MSG)) s1))"
    "keeps s (upd_ch c (ch_msg_state_update (\<lambda>_. CHN_DRAIN_OUT_COMPLETE_MSG)) s1)"
    "keeps s (upd_ch c (\<lambda>x. x\<lparr>ch_recv_bytes := v x\<rparr>) s1)" for w v
    using tcp_read_keeps(1)[OF t] by (auto intro!: keeps_upd)
  show ?thesis
  proof (cases "ret = CNTLR_CONN_READ_SUCCESS")
    case True
    then show ?thesis using assms(2) t k(3) by (auto simp: fsm_xprt_proto_channel_read_msg_from_dp_def)
  next
    case False
    let ?s2 = "upd_ch c (ch_msg_state_update (\<lambda>_. CHN_DRAIN_OUT_COMPLETE_MSG)) s1"
    let ?s3 = "upd_ch c (\<lambda>x. x\<lparr>ch_drain_out_bytes := ucast (host_length e (ch_msg_hdr x)) - 8\<rparr>) ?s2"
    consider "r = OF_FAILURE" "s' = ?s2" | q where "r = OF_FAILURE" "fire d (if closed then CLOSE_EVENT else READ_FAIL_EVENT) c ?s3 = Some (q, s')"
      using assms(2) t False by (auto simp: fsm_xprt_proto_channel_read_msg_from_dp_def Let_def split: if_splits Option.bind_splits)
    then show ?thesis
    proof cases
      case 2
      then show ?thesis using fire_ok[OF assms(1) k(1)] by (fastforce simp: result_ok_def)
    qed (use k in simp)
  qed
qed

lemma drain_ok: "fn_ok d \<Longrightarrow> result_ok s (drain_loop e d c n left s)"
proof (induction n arbitrary: left s)
  case 0
  then show ?case by (simp add: drain_loop.simps)
next
  case (Suc n)
  show ?case
  proof (cases "left \<le> 0")
    case False
    show ?thesis
    proof (cases "fsm_xprt_proto_channel_read_msg_from_dp e d c (of_int (min left DRAIN_OUT_LENGTH)) s")
      case (Some x)
      obtain r bs s1 where x: "x = (r, bs, s1)" by (metis prod_cases3)
      note k = read_msg_keeps[OF Suc.prems Some[unfolded x]]
      let ?s2 = "if left - int (length bs) = 0
        then upd_ch c (\<lambda>x. x\<lparr>ch_msg_state := CHN_WAITING_FOR_NEW_MSG, ch_drain_out_bytes := 0\<rparr>) s1 else s1"
      have k2: "keeps s ?s2" "keeps s (upd_ch c (\<lambda>x. x\<lparr>ch_msg_state := CHN_WAITING_FOR_NEW_MSG, ch_drain_out_bytes := 0\<rparr>) s1)"
        using k by (auto intro!: keeps_upd)
      show ?thesis using False Some x k k2(2) result_ok_trans[OF k2(1) Suc.IH[OF Suc.prems]]
        by (cases "r = OF_SUCCESS") (simp_all add: drain_loop.simps[of _ _ _ "Suc n"] Let_def)
    qed (use False in \<open>simp add: drain_loop.simps[of _ _ _ "Suc n"]\<close>)
  qed (simp add: drain_loop.simps[of _ _ _ "Suc n"])
qed

lemma write_msg_keeps:
  assumes "fn_ok d" "fsm_xprt_proto_channel_write_msg_to_dp e d c m k s = Some (r, n, s')"
  shows "keeps s s' \<and> (r = OF_SUCCESS \<or> r = OF_FAILURE)"
proof -
  obtain ok n' closed where w: "en_write e (length (cs_calls s)) = (ok, n', closed)" by (metis prod_cases3)
  let ?s1 = "call (Transport_write (ch_trnsprt_fd (cs_chan s c)) (drop k m)) s"
  have f: "keeps s s2" if "fire d ev c s1 = Some (q, s2)" "keeps s s1" for ev s1 q s2
    using fire_ok[OF assms(1) that(2)] that(1) by (auto simp: result_ok_def)
  have k1: "keeps s ?s1" by simp
  have u: "keeps s (upd_ch c (\<lambda>x. x\<lparr>ch_tx_bytes := v x\<rparr>) ?s1)" for v by (rule keeps_upd[OF k1]) simp
  show ?thesis using assms(2) w u f[OF _ k1] f[OF _ f[OF _ k1]]
    by (auto simp: fsm_xprt_proto_channel_write_msg_to_dp_def Let_def split: if_splits Option.bind_splits)
qed

lemma send_hello_ok: "fn_ok d \<Longrightarrow> result_ok s (cntlr_trnsprt_send_hello_msg e d c s)"
  using write_msg_keeps
  by (intro result_okI) (fastforce simp: cntlr_trnsprt_send_hello_msg_def split: if_splits Option.bind_splits)

lemma conn_close_keeps: "keeps s (cntlr_trnsprt_conn_close c s)"
  by (auto simp: cntlr_trnsprt_conn_close_def Let_def intro!: keeps_upd split: option.split)
section \<open>The handlers\<close>

lemma next_thread_chan: "next_thread e t s = Some (k, s') \<Longrightarrow> cs_chan s' = cs_chan s"
  by (auto simp: next_thread_def Let_def split: if_splits)

text \<open>A new channel is in its initial state, so that starting over does not take it back.\<close>

lemma channel_setup_keeps:
  assumes "channel_setup e d c p s = Some (ok, s')" "ch_fsm_state (cs_chan s c) = STATE_INIT"
  shows "keeps s s'" "ch_fsm_state (cs_chan s' c) = STATE_INIT"
proof -
  have x: "(\<forall>b. b \<noteq> c \<longrightarrow> cs_chan s' b = cs_chan s b) \<and> ch_fsm_state (cs_chan s' c) = STATE_INIT \<and>
      ch_msg_hdr (cs_chan s' c) = ch_msg_hdr (cs_chan s c) \<and> ch_msg_state (cs_chan s' c) = CHN_WAITING_FOR_NEW_MSG"
    using assms(1)
    by (auto simp: channel_setup_def fsm_update_channel_state_def set_state_def OF_TRNSPRT_CHN_RESET_2_READ_NEW_MSG_def
        reset_channel_def Let_def dest!: next_thread_chan split: Option.bind_splits if_splits option.splits)
  have "chan_le (cs_chan s b) (cs_chan s' b)" for b
    by (cases "b = c") (use x assms(2) in \<open>simp_all add: chan_le_def chan_wf_def\<close>)
  then show "keeps s s'" "ch_fsm_state (cs_chan s' c) = STATE_INIT" using x by (simp_all add: keeps_def)
qed

lemma channel_enter_keeps:
  assumes "channel_enter e c s = Some (ok, s')"
  shows "keeps s s'" "ch_fsm_state (cs_chan s' c) = ch_fsm_state (cs_chan s c)"
  using assms by (auto simp: channel_enter_def Let_def split: option.splits if_splits Option.bind_splits intro!: keeps_upd)

lemma channel_init_keeps:
  assumes "cntlr_trnsprt_channel_init e d c p s = Some (r, s')" "ch_fsm_state (cs_chan s c) = STATE_INIT"
  shows "keeps s s' \<and> ch_fsm_state (cs_chan s' c) = STATE_INIT \<and> (r = OF_SUCCESS \<or> r = OF_FAILURE)"
proof -
  obtain ok s1 where s1: "channel_setup e d c p s = Some (ok, s1)"
    using assms(1) by (auto simp: cntlr_trnsprt_channel_init_def split: Option.bind_splits)
  note k1 = channel_setup_keeps[OF s1 assms(2)]
  have cl: "ch_fsm_state (cs_chan (cntlr_trnsprt_conn_close c t) c) = ch_fsm_state (cs_chan t c)" for t
    by (simp add: cntlr_trnsprt_conn_close_def Let_def split: option.split)
  have c1: "keeps s (cntlr_trnsprt_conn_close c s1)" by (rule keeps_trans[OF k1(1) conn_close_keeps])
  have k2: "keeps s s2" "keeps s (cntlr_trnsprt_conn_close c s2)" "ch_fsm_state (cs_chan s2 c) = STATE_INIT"
    if "channel_enter e c s1 = Some (ok2, s2)" for ok2 s2
    using keeps_trans[OF k1(1) channel_enter_keeps(1)[OF that]] keeps_trans[OF _ conn_close_keeps] channel_enter_keeps(2)[OF that] k1(2)
    by auto
  show ?thesis
    using assms(1) s1 c1 k2 cl k1(2) by (auto simp: cntlr_trnsprt_channel_init_def split: Option.bind_splits if_splits)
qed

lemma learn_ok:
  assumes "fn_ok d" "ch_fsm_state (cs_chan s c) = STATE_INIT"
  shows "result_ok s (fsm_xprt_proto_channel_learn e d c arg s)"
proof (cases arg)
  case (Some p)
  show ?thesis
  proof (rule result_okI)
    fix r s' assume a: "fsm_xprt_proto_channel_learn e d c arg s = Some (r, s')"
    then obtain q s1 where s1: "cntlr_trnsprt_channel_init e d c p s = Some (q, s1)"
      using Some by (auto simp: fsm_xprt_proto_channel_learn_def split: Option.bind_splits)
    note k1 = channel_init_keeps[OF s1 assms(2)]
    have w: "keeps s (set_state c STATE_WAIT_FOR_HANDSHAKE t)" if "keeps s t" "phase (ch_fsm_state (cs_chan t c)) \<le> 1" for t
      unfolding set_state_def by (rule keeps_upd[OF that(1)]) (use that(2) in \<open>auto simp: chan_le_def chan_wf_def\<close>)
    have w1: "keeps s (set_state c STATE_WAIT_FOR_HANDSHAKE s1)" using k1 by (intro w) simp_all
    have st: "ch_fsm_state (cs_chan (set_state c st t) c) = st" for st t by (simp add: set_state_def)
    have w2: "keeps s (set_state c STATE_WAIT_FOR_HANDSHAKE (call x (set_state c STATE_WAIT_FOR_HANDSHAKE s1)))" for x
      by (rule w) (simp_all add: w1 st)
    have h: "keeps s t' \<and> keeps s (upd_ch c (ch_state_update (\<lambda>_. v)) t') \<and> (q' = OF_SUCCESS \<or> q' = OF_FAILURE)"
      if "cntlr_trnsprt_send_hello_msg e d c t = Some (q', t')" "keeps s t" for q' t t' v
      using keeps_trans[OF that(2)] send_hello_ok[OF assms(1), of t e c] that(1) by (auto simp: result_ok_def intro!: keeps_upd)
    show "keeps s s' \<and> (r = OF_SUCCESS \<or> r = OF_FAILURE)"
      using a s1 k1 w1 w2 h[OF _ w1] h[OF _ w2] Some
      by (auto simp: fsm_xprt_proto_channel_learn_def Let_def split: if_splits Option.bind_splits)
  qed
qed (simp add: fsm_xprt_proto_channel_learn_def)

lemma learn_dp_ok:
  "ch_fsm_state (cs_chan s c) = STATE_WAIT_FOR_HANDSHAKE \<Longrightarrow> result_ok s (fsm_xprt_proto_channel_learn_dp e c s)"
proof -
  assume "ch_fsm_state (cs_chan s c) = STATE_WAIT_FOR_HANDSHAKE"
  then have "keeps s (upd_ch c (\<lambda>x. x\<lparr>ch_is_chn_added_to_dp := True, ch_fsm_state := STATE_BOUND_TO_DP\<rparr>) s)"
    by (intro keeps_upd) (simp_all add: chan_le_def chan_wf_def)
  then show ?thesis by (simp add: fsm_xprt_proto_channel_learn_dp_def Let_def)
qed

lemma detach_keeps_ok:
  assumes "open_channel (cs_chan s c)"
  shows "result_ok s (fsm_xprt_proto_channel_detach_dp e c s)"
proof -
  have p: "phase (ch_fsm_state (cs_chan s c)) = 1" using assms by (auto simp: open_channel_def)
  let ?f = "\<lambda>x. x\<lparr>ch_state := CHN_CONN_ESTBD, ch_datapath := None, ch_dp_handle := 0,
     ch_is_chn_added_to_dp := False, ch_fsm_state := STATE_WAIT_FOR_HANDSHAKE\<rparr>"
  have "keeps s s'" if "cs_chan s' = (cs_chan s)(c := ?f (cs_chan s c))" for s'
    using that p by (auto simp: keeps_def chan_le_def chan_wf_def)
  moreover have st: "keeps s (stop_timers c s)" by (simp add: stop_timers_def Let_def)
  have sc: "cs_chan (stop_timers c s) = cs_chan s" by (simp add: stop_timers_def Let_def)
  ultimately show ?thesis using st sc
    by (auto simp: fsm_xprt_proto_channel_detach_dp_def Let_def split: option.split)
qed

lemma read_error_ok: "fn_ok d \<Longrightarrow> result_ok s (fsm_xprt_proto_channel_read_error e d c s)"
  using drain_ok
  by (intro result_okI)
    (fastforce simp: fsm_xprt_proto_channel_read_error_def of_drain_out_socket_buf_def result_ok_def split: if_splits Option.bind_splits)

lemma close_ok:
  assumes "fn_ok d" shows "result_ok s (xprt_proto_channel_close e d c s)"
  unfolding xprt_proto_channel_close_def
proof (rule result_ok_bind[OF fire_ok[OF assms keeps_refl]])
  fix r :: int and s1 assume k: "keeps s s1"
  let ?s3 = "set_state c STATE_CLOSE_CONN (call (Transport_close (ch_trnsprt_fd (cs_chan s1 c))) s1)"
  have k3: "keeps s ?s3" using k by (auto simp: set_state_def intro!: keeps_upd)
  have k4: "keeps s (upd_ch c (\<lambda>x. x\<lparr>ch_is_chn_added_2_hash_tbl := False, ch_state := CHN_CLOSE_INITIATED\<rparr>) (?s3\<lparr>cs_tbl := t\<rparr>))" for t
    using k3 by (intro keeps_upd) simp_all
  show "result_ok s ((\<lambda>(_, s1). let fd = ch_trnsprt_fd (cs_chan s1 c); s2 = call (Transport_close fd) s1 in
      if \<not> en_close_ok e fd then Some (OF_FAILURE, s2)
      else let s3 = set_state c STATE_CLOSE_CONN s2; x = cs_chan s3 c in
        if ch_state x \<noteq> CHN_CLOSE_INITIATED \<and> ch_is_chn_added_2_hash_tbl x then
          (case ch_safe_ref x of None \<Rightarrow> None
           | Some (i, m) \<Rightarrow>
             let tb = xi_connection_tbl (cs_info s3 (ch_trnsprt_info x)) in
             Option.bind (MCHASH_DELETE_NODE_BY_REF i m (cs_tbl s3 tb)) (\<lambda>(_, t').
               Some (OF_SUCCESS, upd_ch c (\<lambda>x. x\<lparr>ch_is_chn_added_2_hash_tbl := False, ch_state := CHN_CLOSE_INITIATED\<rparr>)
                 (s3\<lparr>cs_tbl := (cs_tbl s3)(tb := t')\<rparr>))))
        else Some (OF_SUCCESS, s3)) (r, s1))"
    using k k3 k4 by (auto simp: Let_def split: option.split Option.bind_split)
qed
lemma free_aux_tail_chan: "free_aux_tail p x s = Some s' \<Longrightarrow> cs_chan s' = cs_chan s"
  by (auto simp: free_aux_tail_def Let_def split: option.splits if_splits Option.bind_splits)

lemma close_aux_keeps:
  assumes "fn_ok d" shows "close_aux_loop e d c n s = Some (broke, s') \<Longrightarrow> keeps s s'"
proof (induction n arbitrary: s)
  case 0
  then show ?case by (auto simp: close_aux_loop.simps[of _ _ _ 0] split: option.splits if_splits)
next
  case (Suc n)
  have k: "keeps s t" if "xprt_proto_channel_close e d a s = Some (r, t)" for a r t
    using close_ok[OF assms, of s e a] that by (auto simp: result_ok_def)
  have k2: "keeps s s'" if "keeps s t" "free_aux_tail p x t = Some t'" "close_aux_loop e d c n t' = Some (broke, s')" for p x t t'
  proof -
    have "keeps s t'" using that(1) keeps_same[OF free_aux_tail_chan[OF that(2)]] by simp
    then show ?thesis using Suc.IH[OF that(3)] by (rule keeps_trans)
  qed
  show ?case using Suc.prems k k2
    by (subst (asm) close_aux_loop.simps) (auto split: option.splits if_splits Option.bind_splits, metis+)
qed

lemma main_close_ok:
  assumes "fn_ok d" shows "result_ok s (fsm_xprt_proto_channel_close e d c s)"
proof (rule result_okI)
  fix r s' assume a: "fsm_xprt_proto_channel_close e d c s = Some (r, s')"
  then obtain broke s1 q where m: "(if ch_auxiliary_id (cs_chan s c) = OF_TRNSPRT_MAIN_CONN_ID \<and> ch_is_chn_added_to_dp (cs_chan s c) then
         (case ch_datapath (cs_chan s c) of None \<Rightarrow> None
          | Some p \<Rightarrow> if dp_aux_channels (cs_dp s p) \<noteq> None
                       then close_aux_loop e d c (unat (dp_curr_no_of_aux_chanels (cs_dp s p))) s
                       else Some (False, s))
       else Some (False, s)) = Some (broke, s1)"
    and s1: "xprt_proto_channel_close e d c s1 = Some (q, s')" "r = (if broke \<or> q \<noteq> OF_SUCCESS then OF_FAILURE else OF_SUCCESS)"
    unfolding fsm_xprt_proto_channel_close_def by (auto split: Option.bind_splits)
  have "keeps s s1" using m close_aux_keeps[OF assms] by (auto split: option.splits if_splits)
  then show "keeps s s' \<and> (r = OF_SUCCESS \<or> r = OF_FAILURE)"
    using close_ok[OF assms, of s1 e c] s1 by (auto simp: result_ok_def intro: keeps_trans)
qed

lemma header_read_failed_ok:
  assumes "fn_ok d" "keeps s s1" shows "result_ok s (header_read_failed d c b cl s1)"
  unfolding header_read_failed_def Let_def
proof (rule result_ok_bind)
  show "result_ok s (if cl \<and> b then fire d DP_DETACH_EVENT c s1 else Some (OF_SUCCESS, s1))"
    using fire_ok[OF assms] assms(2) by simp
  fix r :: int and s2 assume k: "keeps s s2"
  show "result_ok s ((\<lambda>(_, s1). Option.bind (fire d (if cl then CLOSE_EVENT else READ_FAIL_EVENT) c s1) (\<lambda>(_, s2). Some (OF_FAILURE, s2))) (r, s2))"
    by (auto intro!: result_ok_bind[OF fire_ok[OF assms(1) k]])
qed

lemma invalid_state_ok: "fn_ok d \<Longrightarrow> result_ok s (invalid_channel_state d c k s)"
  using fire_ok[of d s "s\<lparr>invalid_channel_state_g := invalid_channel_state_g s + 1\<rparr>" CLOSE_EVENT c]
  by (auto simp: result_ok_def invalid_channel_state_def fsm_send_channel_event_def Let_def split: if_splits Option.bind_splits)

lemma write_at_length: "write_at p bs b = Some b' \<Longrightarrow> length b' = length b"
  by (auto simp: write_at_def split: if_splits)

lemma upd_ch_twice: "upd_ch c g (upd_ch c f s) = upd_ch c (g \<circ> f) s" by (simp add: upd_ch_def)

lemma read_new_ok:
  assumes "fn_ok d" shows "result_ok s (read_new_msg d c s)"
proof -
  obtain ret bs cl s1 where t: "tcp_transport_read_data c 8 s = (ret, bs, cl, s1)" by (metis prod_cases4)
  note k = tcp_read_keeps[OF t]
  have l: "length bs \<noteq> 8 \<Longrightarrow> (of_nat (length bs) :: u8) < 8"
    using k(2) by (simp add: word_less_nat_alt unsigned_of_nat take_bit_nat_eq_self)
  show ?thesis using header_read_failed_ok[OF assms k(1)] t l
    by (auto simp: read_new_msg_def Let_def upd_ch_twice chan_le_def chan_wf_def dest: write_at_length split: option.split intro!: keeps_upd[OF k(1)])
qed

lemma read_header_ok:
  assumes "fn_ok d" "ch_msg_state (cs_chan s c) = CHN_WAITING_FOR_MSG_HEADER" shows "result_ok s (read_msg_header d c s)"
proof -
  let ?g = "ch_hdr_len_read (cs_chan s c)"
  obtain ret bs cl s1 where t: "tcp_transport_read_data c (8 - ucast ?g) s = (ret, bs, cl, s1)" by (metis prod_cases4)
  note k = tcp_read_keeps[OF t]
  have x: "cs_chan s1 c = cs_chan s c" using tcp_read_fields[OF t] by simp
  have l: "?g + of_nat (length bs) < 8" if "?g < 8" "length bs + unat ?g \<noteq> 8"
  proof -
    have g: "unat ?g < 8" using that(1) by (simp add: word_less_nat_alt)
    then have "unat (8 - ucast ?g :: u16) = 8 - unat ?g"
      by (subst unat_sub) (simp_all add: word_le_nat_alt unsigned_ucast_eq take_bit_nat_eq_self)
    then have "length bs + unat ?g < 8" using k(2) that(2) g by simp
    then show ?thesis by (simp add: word_less_nat_alt unat_word_ariths unsigned_of_nat take_bit_nat_eq_self add.commute)
  qed
  show ?thesis using header_read_failed_ok[OF assms(1) k(1)] t l x assms(2)
    by (auto simp: read_msg_header_def Let_def upd_ch_twice chan_le_def chan_wf_def dest: write_at_length split: option.split intro!: keeps_upd[OF k(1)])
qed

lemma read_complete_ok:
  assumes "fn_ok d" shows "result_ok s (read_complete_msg e d c s)"
proof (cases "ch_msg_buf (cs_chan s c)")
  case (Some m)
  let ?len = "host_length e (ch_msg_hdr (cs_chan s c))"
  let ?todo = "(ucast ?len :: u32) - ucast (om_length1 m)"
  obtain ret bs cl s1 where t: "tcp_transport_read_data c (ucast ?todo) s = (ret, bs, cl, s1)" by (metis prod_cases4)
  note k = tcp_read_keeps(1)[OF t]
  have u: "keeps s (upd_ch c f s1)" if "chan_le (cs_chan s1 c) (f (cs_chan s1 c))" for f using k that by (rule keeps_upd)
  have free: "keeps s (free_msg_buf c s')" if "keeps s s'" for s'
    using that by (auto simp: free_msg_buf_def split: option.split intro!: keeps_upd)
  have f: "result_ok s (Option.bind (fire d ev c (upd_ch c (\<lambda>x. x\<lparr>ch_msg_state := CHN_DRAIN_OUT_COMPLETE_MSG, ch_drain_out_bytes := w\<rparr>) s1))
      (\<lambda>(_, s3). Some (OF_FAILURE, free_msg_buf c s3)))" for ev w
    using free by (auto intro!: result_ok_bind[OF fire_ok[OF assms u]])
  have v: "keeps s (upd_ch c (ch_msg_state_update (\<lambda>_. CHN_RCVD_COMPLETE_MSG)) s)" by (auto intro!: keeps_upd)
  show ?thesis using Some t f v invalid_state_ok[OF assms]
    by (auto simp: read_complete_msg_def Let_def split: option.split intro!: u)
qed (simp add: read_complete_msg_def)

lemma read_ok: "fn_ok d \<Longrightarrow> result_ok s (fsm_xprt_proto_channel_read e d c s)"
  using read_new_ok read_header_ok read_complete_ok invalid_state_ok
  by (simp add: fsm_xprt_proto_channel_read_def split: chn_msg_state.split)

section \<open>The state machine\<close>

lemma handler_ok:
  assumes "fn_ok d" "cntlr_xprt_proto_channel_fsm_handler (ch_fsm_state (cs_chan s c)) ev = Some h"
  shows "result_ok s (run_handler h e d c arg s)"
proof (cases h)
  case H_learn
  then have "ch_fsm_state (cs_chan s c) = STATE_INIT"
    using assms(2) by (cases "(ch_fsm_state (cs_chan s c), ev)" rule: cntlr_xprt_proto_channel_fsm_handler.cases) (auto split: if_splits)
  then show ?thesis using learn_ok[OF assms(1)] H_learn by simp
next
  case H_learn_dp
  then have "ch_fsm_state (cs_chan s c) = STATE_WAIT_FOR_HANDSHAKE"
    using assms(2) by (cases "(ch_fsm_state (cs_chan s c), ev)" rule: cntlr_xprt_proto_channel_fsm_handler.cases) (auto split: if_splits)
  then show ?thesis using learn_dp_ok H_learn_dp by simp
next
  case H_detach_dp
  then have "open_channel (cs_chan s c)"
    using assms(2) by (cases "(ch_fsm_state (cs_chan s c), ev)" rule: cntlr_xprt_proto_channel_fsm_handler.cases)
      (auto simp: open_channel_def split: if_splits)
  then show ?thesis using detach_keeps_ok H_detach_dp by simp
qed (use assms(1) read_ok read_error_ok main_close_ok in
    \<open>simp_all add: fsm_xprt_proto_channel_write_def fsm_xprt_proto_channel_write_error_def fsm_xprt_proto_channel_error_def\<close>)

lemma dispatch_ok: "fn_ok (dispatch k e)"
proof (induction k)
  case (Suc k)
  then show ?case using handler_ok[OF Suc] by (auto simp: fn_ok_def split: option.split)
qed (simp add: fn_ok_def)

lemma event_keeps:
  assumes "fire (fsm_run e) ev c s = Some (r, s')"
  shows "keeps s s'" "r = OF_SUCCESS \<or> r = OF_FAILURE"
proof -
  have "result_ok s (fire (fsm_run e) ev c s)" unfolding fsm_run_def by (rule fire_ok[OF dispatch_ok keeps_refl])
  then show "keeps s s'" "r = OF_SUCCESS \<or> r = OF_FAILURE" using assms by (simp_all add: result_ok_def)
qed

text \<open>The state machine satisfies the recursion of the code.\<close>

lemma fsm_run_unfold:
  "fsm_run e c arg s =
    (case cntlr_xprt_proto_channel_fsm_handler (ch_fsm_state (cs_chan s c)) (ch_fsm_event (cs_chan s c)) of
       None \<Rightarrow> None | Some h \<Rightarrow> run_handler h e (fsm_run e) c arg s)"
proof -
  have f: "dispatch (Suc 4) e = fsm_run e" by (rule dispatch_enough) simp
  have "fsm_run e c arg s = dispatch (Suc 4) e c arg s" by (simp only: f)
  then show ?thesis by (simp only: dispatch.simps fsm_run_def)
qed

lemma no_handler_iff:
  "cntlr_xprt_proto_channel_fsm_handler st ev = None \<longleftrightarrow>
     st = STATE_INIT \<and> ev \<noteq> LEARN_EVENT \<or> st = STATE_BOUND_TO_DP \<and> ev = LEARN_EVENT"
  by (cases st; cases ev) simp_all

text \<open>The NULL entries of the handler table.\<close>

lemma no_handler_fire:
  "cntlr_xprt_proto_channel_fsm_handler (ch_fsm_state (cs_chan s c)) ev = None \<Longrightarrow> fire (fsm_run e) ev c s = None"
  by (simp add: fire_def fsm_run_unfold set_event_def)

text \<open>C30: An event dispatched by the state machine for which the handler table has an entry, and whose
  handler comes to its end without dereferencing NULL, returns one of the two status codes, and every channel
  of the system that was well-formed is well-formed afterwards: the header being read never overflows, and a
  channel in the bound state has been added to a datapath. It takes no channel back to the initial state and
  no channel out of the closed state. The table has no entry, and the code calls NULL, exactly for an event
  other than the first one of a new channel and for learning a channel that is bound already. Through
  \<^verbatim>\<open>fsm_send_channel_event\<close> the same holds with one exception: after the detach event that function
  writes the handshake state into the channel, whatever its state was, so that a closed channel is reopened.\<close>

theorem chan_event_typed:
  "(\<forall>r s'. fire (fsm_run e) ev c s = Some (r, s') \<longrightarrow>
      (r = OF_SUCCESS \<or> r = OF_FAILURE) \<and> (\<forall>b. chan_wf (cs_chan s b) \<longrightarrow> chan_wf (cs_chan s' b)) \<and>
      (\<forall>b. phase (ch_fsm_state (cs_chan s b)) \<le> phase (ch_fsm_state (cs_chan s' b))) \<and>
      (\<forall>b. ch_fsm_state (cs_chan s b) = STATE_CLOSE_CONN \<longrightarrow> ch_fsm_state (cs_chan s' b) = STATE_CLOSE_CONN)) \<and>
   (ch_fsm_state (cs_chan s c) = STATE_INIT \<and> ev \<noteq> LEARN_EVENT \<or>
    ch_fsm_state (cs_chan s c) = STATE_BOUND_TO_DP \<and> ev = LEARN_EVENT \<longrightarrow>
      cntlr_xprt_proto_channel_fsm_handler (ch_fsm_state (cs_chan s c)) ev = None \<and> fire (fsm_run e) ev c s = None) \<and>
   (\<not> (ch_fsm_state (cs_chan s c) = STATE_INIT \<and> ev \<noteq> LEARN_EVENT \<or>
    ch_fsm_state (cs_chan s c) = STATE_BOUND_TO_DP \<and> ev = LEARN_EVENT) \<longrightarrow>
      (\<exists>h. cntlr_xprt_proto_channel_fsm_handler (ch_fsm_state (cs_chan s c)) ev = Some h)) \<and>
   (\<forall>s'. fsm_send_channel_event (fsm_run e) c ev s = Some s' \<longrightarrow>
      (\<forall>b. chan_wf (cs_chan s b) \<longrightarrow> chan_wf (cs_chan s' b)) \<and>
      (\<forall>b. b \<noteq> c \<or> ev \<noteq> DP_DETACH_EVENT \<longrightarrow> phase (ch_fsm_state (cs_chan s b)) \<le> phase (ch_fsm_state (cs_chan s' b))) \<and>
      (ev = DP_DETACH_EVENT \<longrightarrow> ch_fsm_state (cs_chan s' c) = STATE_WAIT_FOR_HANDSHAKE))"
proof (intro conjI)
  have two: "phase x \<ge> 2 \<Longrightarrow> x = STATE_CLOSE_CONN" for x by (cases x) simp_all
  show "\<forall>r s'. fire (fsm_run e) ev c s = Some (r, s') \<longrightarrow>
      (r = OF_SUCCESS \<or> r = OF_FAILURE) \<and> (\<forall>b. chan_wf (cs_chan s b) \<longrightarrow> chan_wf (cs_chan s' b)) \<and>
      (\<forall>b. phase (ch_fsm_state (cs_chan s b)) \<le> phase (ch_fsm_state (cs_chan s' b))) \<and>
      (\<forall>b. ch_fsm_state (cs_chan s b) = STATE_CLOSE_CONN \<longrightarrow> ch_fsm_state (cs_chan s' b) = STATE_CLOSE_CONN)"
  proof (intro allI impI)
    fix r s' assume f: "fire (fsm_run e) ev c s = Some (r, s')"
    have ph: "phase (ch_fsm_state (cs_chan s b)) \<le> phase (ch_fsm_state (cs_chan s' b))" for b
      using event_keeps(1)[OF f] by (simp add: keeps_def chan_le_def)
    have "ch_fsm_state (cs_chan s' b) = STATE_CLOSE_CONN" if "ch_fsm_state (cs_chan s b) = STATE_CLOSE_CONN" for b
      using ph[of b] two that by simp
    then show "(r = OF_SUCCESS \<or> r = OF_FAILURE) \<and> (\<forall>b. chan_wf (cs_chan s b) \<longrightarrow> chan_wf (cs_chan s' b)) \<and>
        (\<forall>b. phase (ch_fsm_state (cs_chan s b)) \<le> phase (ch_fsm_state (cs_chan s' b))) \<and>
        (\<forall>b. ch_fsm_state (cs_chan s b) = STATE_CLOSE_CONN \<longrightarrow> ch_fsm_state (cs_chan s' b) = STATE_CLOSE_CONN)"
      using event_keeps[OF f] ph by (simp add: keeps_def chan_le_def)
  qed
  show "\<forall>s'. fsm_send_channel_event (fsm_run e) c ev s = Some s' \<longrightarrow>
      (\<forall>b. chan_wf (cs_chan s b) \<longrightarrow> chan_wf (cs_chan s' b)) \<and>
      (\<forall>b. b \<noteq> c \<or> ev \<noteq> DP_DETACH_EVENT \<longrightarrow> phase (ch_fsm_state (cs_chan s b)) \<le> phase (ch_fsm_state (cs_chan s' b))) \<and>
      (ev = DP_DETACH_EVENT \<longrightarrow> ch_fsm_state (cs_chan s' c) = STATE_WAIT_FOR_HANDSHAKE)"
  proof (intro allI impI)
    fix s' assume "fsm_send_channel_event (fsm_run e) c ev s = Some s'"
    then obtain r s1 where f: "fire (fsm_run e) ev c s = Some (r, s1)"
      "s' = (if ev = DP_DETACH_EVENT then set_state c STATE_WAIT_FOR_HANDSHAKE s1 else s1)"
      by (auto simp: fsm_send_channel_event_def split: Option.bind_splits)
    then show "(\<forall>b. chan_wf (cs_chan s b) \<longrightarrow> chan_wf (cs_chan s' b)) \<and>
      (\<forall>b. b \<noteq> c \<or> ev \<noteq> DP_DETACH_EVENT \<longrightarrow> phase (ch_fsm_state (cs_chan s b)) \<le> phase (ch_fsm_state (cs_chan s' b))) \<and>
      (ev = DP_DETACH_EVENT \<longrightarrow> ch_fsm_state (cs_chan s' c) = STATE_WAIT_FOR_HANDSHAKE)"
      using event_keeps(1)[OF f(1)] by (auto simp: keeps_def chan_le_def set_state_def chan_wf_def)
  qed
qed (use no_handler_iff no_handler_fire in auto)

section \<open>The loops end\<close>

lemma read_msg_success:
  assumes "fsm_xprt_proto_channel_read_msg_from_dp e d c n s = Some (OF_SUCCESS, bs, s')" "n \<noteq> 0"
  shows "bs \<noteq> []"
proof -
  obtain ret b closed s1 where t: "tcp_transport_read_data c n s = (ret, b, closed, s1)" by (metis prod_cases4)
  have "ret = CNTLR_CONN_READ_SUCCESS" "b = bs"
    using assms(1) t by (auto simp: fsm_xprt_proto_channel_read_msg_from_dp_def Let_def split: if_splits Option.bind_splits)
  moreover have "unat n \<noteq> 0" using assms(2) by (simp add: unat_eq_0)
  ultimately show ?thesis using t assms(2)
    by (auto simp: tcp_transport_read_data_def split: if_splits list.splits rx_event.splits)
qed

text \<open>The bounds of the model: the same recursions with something arbitrary (\<open>below\<close>, \<open>out\<close>) in the place of the
  end of the bound. That their results do not depend on it shows that the end is never reached: no event
  is dispatched below the last level, and no loop goes into a further round.\<close>

primrec dispatch_from :: "chan_fn \<Rightarrow> nat \<Rightarrow> chan_env \<Rightarrow> chan_fn" where
  "dispatch_from below 0 e = below"
| "dispatch_from below (Suc k) e = (\<lambda>c arg s.
     case cntlr_xprt_proto_channel_fsm_handler (ch_fsm_state (cs_chan s c)) (ch_fsm_event (cs_chan s c)) of
       None \<Rightarrow> None | Some h \<Rightarrow> run_handler h e (dispatch_from below k e) c arg s)"

fun drain_from :: "(int \<Rightarrow> chan_sys \<Rightarrow> (int \<times> chan_sys) option) \<Rightarrow> chan_env \<Rightarrow> chan_fn \<Rightarrow> addr \<Rightarrow> nat \<Rightarrow> int \<Rightarrow> chan_sys \<Rightarrow>
   (int \<times> chan_sys) option" where
  "drain_from out e d c rounds left s =
    (if left \<le> 0 then Some (OF_SUCCESS, s)
     else case rounds of 0 \<Rightarrow> out left s
     | Suc r \<Rightarrow>
       Option.bind (fsm_xprt_proto_channel_read_msg_from_dp e d c (of_int (min left DRAIN_OUT_LENGTH)) s) (\<lambda>(ret, bs, s1).
         if ret = CNTLR_CONN_NO_DATA then
           Some (OF_FAILURE, upd_ch c (ch_drain_out_bytes_update (\<lambda>_. of_int left)) s1)
         else if ret = OF_FAILURE then
           Some (OF_FAILURE, upd_ch c (\<lambda>x. x\<lparr>ch_msg_state := CHN_WAITING_FOR_NEW_MSG, ch_drain_out_bytes := 0\<rparr>) s1)
         else let left' = left - int (length bs);
                  s2 = (if left' = 0
                        then upd_ch c (\<lambda>x. x\<lparr>ch_msg_state := CHN_WAITING_FOR_NEW_MSG, ch_drain_out_bytes := 0\<rparr>) s1
                        else s1)
              in drain_from out e d c r left' s2))"

declare drain_from.simps [simp del]

fun close_aux_from :: "(chan_sys \<Rightarrow> (bool \<times> chan_sys) option) \<Rightarrow> chan_env \<Rightarrow> chan_fn \<Rightarrow> addr \<Rightarrow> nat \<Rightarrow> chan_sys \<Rightarrow>
   (bool \<times> chan_sys) option" where
  "close_aux_from out e d c rounds s =
    (case ch_datapath (cs_chan s c) of None \<Rightarrow> None
     | Some p \<Rightarrow>
       if dp_curr_no_of_aux_chanels (cs_dp s p) = 0 then Some (False, s)
       else (case rounds of 0 \<Rightarrow> out s
       | Suc k \<Rightarrow> (case dp_aux_chn_tail (cs_dp s p) of None \<Rightarrow> None
         | Some x \<Rightarrow> (case cs_ent s x of None \<Rightarrow> None
           | Some en \<Rightarrow> (case ce_conn_table en of None \<Rightarrow> None
             | Some tb \<Rightarrow>
               Option.bind (MCHASH_ACCESS_NODE (fst (ce_conn_safe_ref en)) (snd (ce_conn_safe_ref en)) (cs_tbl s tb))
                 (\<lambda>r. case r of
                    Some (Some a) \<Rightarrow> Option.bind (xprt_proto_channel_close e d a s) (\<lambda>(ret, s1).
                      if ret \<noteq> OF_SUCCESS then Some (True, s1)
                      else (case ch_datapath (cs_chan s1 c) of None \<Rightarrow> None
                        | Some p1 \<Rightarrow> Option.bind (free_aux_tail p1 x s1) (close_aux_from out e d c k)))
                  | _ \<Rightarrow> Some (True, s)))))))"

declare close_aux_from.simps [simp del]

lemma dispatch_from_stable:
  "event_rank (ch_fsm_event (cs_chan s c)) \<le> n \<Longrightarrow> dispatch_from below (n + k) e c arg s = dispatch n e c arg s"
proof (induction n arbitrary: c arg s)
  case 0
  then show ?case by (cases "ch_fsm_event (cs_chan s c)") simp_all
next
  case (Suc n)
  have "same_upto n (dispatch_from below (n + k) e) (dispatch n e)" using Suc.IH by (simp add: same_upto_def)
  then show ?case using handler_same[OF _ _ Suc.prems] by (simp split: option.split)
qed

lemma dispatch_from_enough: "4 \<le> k \<Longrightarrow> dispatch_from below k e = fsm_run e"
  using dispatch_from_stable[of _ _ 4 below "k - 4" e] event_rank_le by (auto simp: fsm_run_def fun_eq_iff)

text \<open>A function that dispatches as the code does is its own lower levels.\<close>

lemma dispatch_from_unique:
  assumes "\<And>c arg s. d c arg s =
     (case cntlr_xprt_proto_channel_fsm_handler (ch_fsm_state (cs_chan s c)) (ch_fsm_event (cs_chan s c)) of
        None \<Rightarrow> None | Some h \<Rightarrow> run_handler h e d c arg s)"
  shows "d = fsm_run e"
proof -
  have "dispatch_from d k e = d" for k
  proof (induction k)
    case (Suc k)
    show ?case by (intro ext) (subst (2) assms, simp add: Suc split: option.split)
  qed simp
  then show ?thesis using dispatch_from_enough[of 4 d e] by simp
qed

lemma drain_from_fuel:
  "nat left \<le> n \<Longrightarrow> nat left \<le> m \<Longrightarrow> left < 65536 \<Longrightarrow> drain_from out e d c n left s = drain_loop e d c m left s"
proof (induction n arbitrary: m left s)
  case 0
  then show ?case by (simp add: drain_loop.simps drain_from.simps)
next
  case (Suc n)
  show ?case
  proof (cases "left \<le> 0")
    case True
    then show ?thesis by (simp add: drain_loop.simps drain_from.simps)
  next
    case False
    then obtain k where m: "m = Suc k" using Suc.prems(2) by (cases m) simp_all
    have nz: "(of_int (min left DRAIN_OUT_LENGTH) :: u16) \<noteq> 0"
      using False Suc.prems(3) by (auto simp: word_uint_eq_iff uint_word_of_int min_def)
    have "drain_from out e d c n (left - int (length bs)) s' = drain_loop e d c k (left - int (length bs)) s'"
      if "fsm_xprt_proto_channel_read_msg_from_dp e d c (of_int (min left DRAIN_OUT_LENGTH)) s = Some (OF_SUCCESS, bs, s1)" for bs s1 s'
    proof -
      have "0 < length bs" using read_msg_success[OF that nz] by simp
      then show ?thesis using Suc.prems m by (intro Suc.IH) linarith+
    qed
    then have step: "drain_from out e d c n (left - int (length bs)) s' = drain_loop e d c k (left - int (length bs)) s'"
      if "fsm_xprt_proto_channel_read_msg_from_dp e d c (of_int (min left DRAIN_OUT_LENGTH)) s = Some (OF_SUCCESS, bs, s1)" for bs s1 s'
      using that by blast
    show ?thesis
    proof (cases "fsm_xprt_proto_channel_read_msg_from_dp e d c (of_int (min left DRAIN_OUT_LENGTH)) s")
      case (Some x)
      obtain r bs s1 where x: "x = (r, bs, s1)" by (metis prod_cases3)
      consider "r = OF_SUCCESS" | "r = OF_FAILURE" using read_msg_status[OF Some[unfolded x]] by blast
      then show ?thesis
        by cases (use False m x Some step in \<open>simp_all add: drain_loop.simps[of e d c "Suc _"] drain_from.simps[of _ e d c "Suc _"] Let_def\<close>)
    qed (use False m in \<open>simp add: drain_loop.simps[of e d c "Suc _"] drain_from.simps[of _ e d c "Suc _"]\<close>)
  qed
qed

text \<open>Closing an auxiliary channel changes neither the counter of a datapath nor the datapath of another
  channel, so every round lowers the counter of the datapath by one.\<close>

definition aux_frame :: "addr \<Rightarrow> chan_sys \<Rightarrow> chan_sys \<Rightarrow> bool" where
  "aux_frame a s s' \<longleftrightarrow> (\<forall>p. dp_curr_no_of_aux_chanels (cs_dp s' p) = dp_curr_no_of_aux_chanels (cs_dp s p)) \<and>
     (\<forall>b. ch_datapath (cs_chan s' b) = ch_datapath (cs_chan s b) \<or> b = a \<and> ch_datapath (cs_chan s' b) = None)"

lemma detach_frame:
  assumes "fire (fsm_run e) DP_DETACH_EVENT a s = Some (r, s')"
  shows "aux_frame a s s'"
proof -
  let ?s = "set_event a DP_DETACH_EVENT s"
  have f: "fsm_run e a None ?s = Some (r, s')" using assms by (simp add: fire_def)
  have st: "ch_fsm_state (cs_chan ?s a) = ch_fsm_state (cs_chan s a)" "ch_fsm_event (cs_chan ?s a) = DP_DETACH_EVENT"
    by (simp_all add: set_event_def)
  have t: "aux_frame a s (stop_timers a ?s)" "cs_chan (stop_timers a ?s) = cs_chan ?s" "cs_dp (stop_timers a ?s) = cs_dp ?s"
    by (auto simp: aux_frame_def stop_timers_def Let_def set_event_def)
  have "fsm_xprt_proto_channel_detach_dp e a ?s = Some (r, s') \<or> s' = ?s"
    using f by (cases "ch_fsm_state (cs_chan s a)") (auto simp: fsm_run_unfold st fsm_xprt_proto_channel_error_def)
  then show ?thesis
    using t by (auto simp: fsm_xprt_proto_channel_detach_dp_def Let_def aux_frame_def set_event_def split: option.splits if_splits)
qed

lemma close_frame:
  assumes "xprt_proto_channel_close e (fsm_run e) a s = Some (r, s')"
  shows "aux_frame a s s'"
proof -
  obtain q s1 where f: "fire (fsm_run e) DP_DETACH_EVENT a s = Some (q, s1)"
    using assms by (auto simp: xprt_proto_channel_close_def split: Option.bind_splits)
  have "cs_dp s' = cs_dp s1 \<and> (\<forall>b. ch_datapath (cs_chan s' b) = ch_datapath (cs_chan s1 b))"
    using assms unfolding xprt_proto_channel_close_def f
    by (auto simp: Let_def set_state_def split: Option.bind_splits if_splits option.splits)
  then show ?thesis using detach_frame[OF f] by (simp add: aux_frame_def)
qed

lemma free_aux_tail_count:
  "free_aux_tail p x s = Some s' \<Longrightarrow> dp_curr_no_of_aux_chanels (cs_dp s' p) = dp_curr_no_of_aux_chanels (cs_dp s p) - 1"
  by (auto simp: free_aux_tail_def Let_def split: option.splits if_splits Option.bind_splits)

lemma close_aux_from_fuel:
  "(\<And>p. ch_datapath (cs_chan s c) = Some p \<Longrightarrow>
      unat (dp_curr_no_of_aux_chanels (cs_dp s p)) \<le> n \<and> unat (dp_curr_no_of_aux_chanels (cs_dp s p)) \<le> m) \<Longrightarrow>
   close_aux_from out e (fsm_run e) c n s = close_aux_loop e (fsm_run e) c m s"
proof (induction n arbitrary: m s)
  case 0
  have "dp_curr_no_of_aux_chanels (cs_dp s p) = 0" if "ch_datapath (cs_chan s c) = Some p" for p
    using 0[OF that] by (simp add: unat_eq_0)
  then show ?case by (simp add: close_aux_from.simps close_aux_loop.simps split: option.split)
next
  case (Suc n)
  show ?case
  proof (cases "\<exists>p. ch_datapath (cs_chan s c) = Some p \<and> dp_curr_no_of_aux_chanels (cs_dp s p) \<noteq> 0")
    case False
    then show ?thesis by (auto simp: close_aux_from.simps close_aux_loop.simps split: option.split)
  next
    case True
    then obtain p where p: "ch_datapath (cs_chan s c) = Some p" "dp_curr_no_of_aux_chanels (cs_dp s p) \<noteq> 0" by blast
    have "unat (dp_curr_no_of_aux_chanels (cs_dp s p)) \<noteq> 0" using p(2) by (simp add: unat_eq_0)
    then obtain k where m: "m = Suc k" using Suc.prems[OF p(1)] by (cases m) auto
    have step: "close_aux_from out e (fsm_run e) c n t = close_aux_loop e (fsm_run e) c k t"
      if cl: "xprt_proto_channel_close e (fsm_run e) a s = Some (r, s1)" and d1: "ch_datapath (cs_chan s1 c) = Some p1"
        and fr: "free_aux_tail p1 x s1 = Some t" for a r s1 p1 x t
    proof (rule Suc.IH)
      fix p2 assume "ch_datapath (cs_chan t c) = Some p2"
      then have p2: "p2 = p1" using free_aux_tail_chan[OF fr] d1 by simp
      have "ch_datapath (cs_chan s1 c) = ch_datapath (cs_chan s c) \<or> c = a \<and> ch_datapath (cs_chan s1 c) = None"
        using close_frame[OF cl] unfolding aux_frame_def by blast
      then have "p1 = p" using d1 p(1) by auto
      then have "dp_curr_no_of_aux_chanels (cs_dp t p2) = dp_curr_no_of_aux_chanels (cs_dp s p) - 1"
        using free_aux_tail_count[OF fr] close_frame[OF cl] p2 by (simp add: aux_frame_def)
      then have "unat (dp_curr_no_of_aux_chanels (cs_dp t p2)) = unat (dp_curr_no_of_aux_chanels (cs_dp s p)) - 1"
        using p(2) by (simp add: unat_minus_one)
      then show "unat (dp_curr_no_of_aux_chanels (cs_dp t p2)) \<le> n \<and> unat (dp_curr_no_of_aux_chanels (cs_dp t p2)) \<le> k"
        using Suc.prems[OF p(1)] m by (simp add: le_diff_conv)
    qed
    show ?thesis
      unfolding m close_aux_from.simps[of out e _ c "Suc n"] close_aux_loop.simps[of e _ c "Suc k"]
      using p step by (auto split: option.split Option.bind_split)
  qed
qed

text \<open>C34: The recursions of the channels end, and where the model bounds them the bound is never reached:
  dispatching an event goes at most four calls deep, draining a message takes at most as many rounds as there
  are bytes to drain, and closing the auxiliary channels at most as many as the datapath has. Whatever stands
  in the place of a further call (\<open>below\<close>) or of a further round (\<open>out\<close>, \<open>out2\<close>), even something that gives a
  result where the model gives none, the outcome is the same. So the state machine of the model satisfies the
  recursion of the code, and it is the only function that does.\<close>

theorem chan_loops_bounded:
  assumes "4 \<le> k" "unat n \<le> rounds"
    "\<And>p. ch_datapath (cs_chan s c) = Some p \<Longrightarrow> unat (dp_curr_no_of_aux_chanels (cs_dp s p)) \<le> rounds2"
  shows "dispatch_from below k e = fsm_run e \<and>
    drain_from out e d c rounds (uint n) s = of_drain_out_socket_buf e d c n s \<and>
    (\<forall>p. ch_datapath (cs_chan s c) = Some p \<longrightarrow> close_aux_from out2 e (fsm_run e) c rounds2 s =
       close_aux_loop e (fsm_run e) c (unat (dp_curr_no_of_aux_chanels (cs_dp s p))) s) \<and>
    (\<forall>f. (\<forall>c arg s. f c arg s =
        (case cntlr_xprt_proto_channel_fsm_handler (ch_fsm_state (cs_chan s c)) (ch_fsm_event (cs_chan s c)) of
           None \<Rightarrow> None | Some h \<Rightarrow> run_handler h e f c arg s)) \<longleftrightarrow> f = fsm_run e)"
proof (intro conjI allI impI)
  show "dispatch_from below k e = fsm_run e" by (rule dispatch_from_enough[OF assms(1)])
  have n: "nat (uint n) = unat n" by simp
  have "uint n < 2 ^ 16" using uint_lt2p[of n] by simp
  then have l: "uint n < 65536" by simp
  show "drain_from out e d c rounds (uint n) s = of_drain_out_socket_buf e d c n s"
    unfolding of_drain_out_socket_buf_def by (rule drain_from_fuel) (use assms(2) l in \<open>simp_all only: n order_refl\<close>)
  show "close_aux_from out2 e (fsm_run e) c rounds2 s =
      close_aux_loop e (fsm_run e) c (unat (dp_curr_no_of_aux_chanels (cs_dp s p))) s"
    if "ch_datapath (cs_chan s c) = Some p" for p
    by (rule close_aux_from_fuel) (use assms(3) that in simp)
  show "(\<forall>c arg s. f c arg s =
        (case cntlr_xprt_proto_channel_fsm_handler (ch_fsm_state (cs_chan s c)) (ch_fsm_event (cs_chan s c)) of
           None \<Rightarrow> None | Some h \<Rightarrow> run_handler h e f c arg s)) \<longleftrightarrow> f = fsm_run e" for f
    using dispatch_from_unique[of f e] fsm_run_unfold[of e] by blast
qed

section \<open>Witnesses\<close>

text \<open>A read event on an open channel, and one on a channel that is in its initial state.\<close>

theorem chan_event_typed_witness:
  "\<exists>s'. fire (fsm_run (demo_chan_env True)) READ_EVENT 3 (demo_rx [[4, 10, 0]]) = Some (OF_SUCCESS, s') \<and>
    ch_msg_state (cs_chan s' 3) = CHN_WAITING_FOR_MSG_HEADER \<and> chan_wf (cs_chan s' 3) \<and>
    fire (fsm_run (demo_chan_env True)) READ_EVENT 3 (set_state 3 STATE_INIT s') = None"
proof -
  let ?s = "demo_rx [[4, 10, 0]]"
  have o: "open_channel (cs_chan ?s 3)" and w: "chan_wf (cs_chan ?s 3)"
    by (simp_all add: demo_rx_def demo_chan_sys_def demo_channel_def open_channel_def chan_wf_def)
  obtain s' where r: "fire (fsm_run (demo_chan_env True)) READ_EVENT 3 ?s = Some (OF_SUCCESS, s')"
    "ch_msg_state (cs_chan s' 3) = CHN_WAITING_FOR_MSG_HEADER"
    unfolding fire_read[OF o]
    by (simp add: demo_rx_def demo_chan_sys_def demo_channel_def fsm_xprt_proto_channel_read_def read_new_msg_def
        tcp_transport_read_data_def write_at_def set_event_def)
  have i: "ch_fsm_state (cs_chan (set_state 3 STATE_INIT s') 3) = STATE_INIT" by (simp add: set_state_def)
  note read = chan_event_typed[where e = "demo_chan_env True" and ev = READ_EVENT and c = 3 and s = ?s, THEN conjunct1]
  note new = chan_event_typed[where e = "demo_chan_env True" and ev = READ_EVENT and c = 3 and s = "set_state 3 STATE_INIT s'",
      THEN conjunct2, THEN conjunct1]
  have "chan_wf (cs_chan s' 3)" using read r(1) w by blast
  moreover have "fire (fsm_run (demo_chan_env True)) READ_EVENT 3 (set_state 3 STATE_INIT s') = None"
    using new i by blast
  ultimately show ?thesis using r by blast
qed

text \<open>A further call that would return 7 and further rounds that would return 7 make no difference.\<close>

theorem chan_loops_bounded_witness:
  "dispatch_from (\<lambda>c arg s. Some (7, s)) 4 (demo_chan_env True) = fsm_run (demo_chan_env True) \<and>
    drain_from (\<lambda>left s. Some (7, s)) (demo_chan_env True) (fsm_run (demo_chan_env True)) 3 9 (uint (4 :: u16)) demo_chan_sys =
      of_drain_out_socket_buf (demo_chan_env True) (fsm_run (demo_chan_env True)) 3 4 demo_chan_sys"
proof -
  have "unat (dp_curr_no_of_aux_chanels (cs_dp demo_chan_sys p)) \<le> 255" for p
    using unsigned_less[of "dp_curr_no_of_aux_chanels (cs_dp demo_chan_sys p)", where ?'a = nat] by simp
  then show ?thesis
    using chan_loops_bounded[of 4 "4 :: u16" 9 demo_chan_sys 3 255 "\<lambda>c arg s. Some (7, s)" "demo_chan_env True"
        "\<lambda>left s. Some (7, s)" "fsm_run (demo_chan_env True)"] by simp
qed

end
