(* ===== verification/Channel_Handshake.thy ===== *)
theory Channel_Handshake
  imports Channel_Ring
begin

text \<open>
  The way of a channel from its handshake to its end: the features reply attaches it, the keep-alive timers
  close it when the switch no longer answers, and a long hello message overflows its buffer.
\<close>

section \<open>The features reply\<close>

lemma handler_attach: "cntlr_xprt_proto_channel_fsm_handler STATE_WAIT_FOR_HANDSHAKE DP_ATTACH_EVENT = Some H_learn_dp"
  by simp

lemma send_attach:
  assumes "ch_fsm_state (cs_chan s c) = STATE_WAIT_FOR_HANDSHAKE" "has_own_fd c s" "en_epoll_ok e (ch_trnsprt_fd (cs_chan s c))"
  shows "fsm_send_channel_event (fsm_run e) c DP_ATTACH_EVENT s = Some
    (call (Epoll_add None (ch_trnsprt_fd (cs_chan s c)) Handle_dp_msg) (call (Epoll_del None (ch_trnsprt_fd (cs_chan s c)))
      (upd_ch c (\<lambda>x. x\<lparr>ch_is_chn_added_to_dp := True, ch_fsm_state := STATE_BOUND_TO_DP\<rparr>) (set_event c DP_ATTACH_EVENT s))))"
  using assms
  by (simp add: fsm_send_channel_event_def fire_def fsm_run_def eval_nat_numeral set_event_def fsm_xprt_proto_channel_learn_dp_def
      has_own_fd_def Let_def)

lemma features_append: "length b = 24 \<Longrightarrow> features_of (b @ x) = features_of b"
  by (simp add: features_of_def nth_append)

text \<open>C32: the features reply of a switch over a channel that waits for the handshake makes the channel the main
  channel of the switch's datapath when that has none: the channel is bound, the datapath holds its
  connection table and safe reference, the handshake handler of the descriptor is replaced by the message
  handler, the switch is configured, the keep-alive timer started, and the channel waits for a new message.\<close>

theorem chan_handshake_attaches_main:
  assumes "ch_fsm_state (cs_chan s c) = STATE_WAIT_FOR_HANDSHAKE" "\<not> ch_is_chn_added_to_dp (cs_chan s c)"
    "ch_msg_hdr (cs_chan s c) = h" "h ! 0 = OFP_VERSION" "h ! 1 = OFPT_FEATURES_REPLY" "cs_rx s c = Rx b # rx" "length b = 24"
    "ch_safe_ref (cs_chan s c) = Some ref" "has_own_fd c s" "en_epoll_ok e (ch_trnsprt_fd (cs_chan s c))"
    "f = features_of b" "sf_auxiliary_id f = 0" "en_dp_handle e (sf_datapath_id f) = Some dh" "en_dp_byhandle e dh = Some p"
    "\<not> dp_is_main_conn_present (cs_dp s p)" "en_tables_ok e" "en_configure_ok e" "en_async_ok e" "en_timer_ok e"
  shows "\<exists>s'. of_process_handshake_msg e (handshake_cbk e) c s = Some (OF_SUCCESS, s') \<and>
    ch_fsm_state (cs_chan s' c) = STATE_BOUND_TO_DP \<and> ch_is_chn_added_to_dp (cs_chan s' c) \<and>
    ch_datapath (cs_chan s' c) = Some p \<and> ch_dp_handle (cs_chan s' c) = dh \<and> ch_auxiliary_id (cs_chan s' c) = 0 \<and>
    ch_state (cs_chan s' c) = CHN_HANDSHAKE_WITH_DP_DONE \<and> ch_keep_alive_state (cs_chan s' c) = KEEP_ALIVE_MSG_READY_TO_SEND \<and>
    ch_msg_state (cs_chan s' c) = CHN_WAITING_FOR_NEW_MSG \<and> cs_rx s' c = rx \<and>
    dp_is_main_conn_present (cs_dp s' p) \<and> ce_conn_table (dp_main_channel (cs_dp s' p)) = Some (conn_tbl s c) \<and>
    ce_conn_safe_ref (dp_main_channel (cs_dp s' p)) = ref \<and> dp_no_of_tables (cs_dp s' p) = sf_n_tables f \<and>
    cs_calls s' = cs_calls s @ [Epoll_del None (ch_trnsprt_fd (cs_chan s c)), Epoll_add None (ch_trnsprt_fd (cs_chan s c)) Handle_dp_msg,
      Configure_switch dh, Send_desc_requests dh, Get_async_cfg dh, Timer_start c] \<and>
    (\<forall>a. a \<noteq> c \<longrightarrow> cs_chan s' a = cs_chan s a)"
proof -
  let ?d = "fsm_run e"
  let ?s1 = "upd_ch c (\<lambda>x. x\<lparr>ch_recv_bytes := ch_recv_bytes x + 24\<rparr>) (s\<lparr>cs_rx := (cs_rx s)(c := rx)\<rparr>)"
  have rd: "fsm_xprt_proto_channel_read_msg_from_dp e ?d c 24 s = Some (OF_SUCCESS, b, ?s1)"
    using assms(6,7) by (auto simp: fsm_xprt_proto_channel_read_msg_from_dp_def tcp_transport_read_data_def)
  let ?s2 = "upd_ch c (ch_auxiliary_id_update (\<lambda>_. 0)) ?s1"
  have add: "of_add_channel_to_dp e (conn_tbl s c) ref f ?s2 = Some (OF_SUCCESS, Some (p, dh),
      upd_dp p (\<lambda>q. q\<lparr>dp_no_of_buffers := sf_n_buffers f, dp_no_of_tables := sf_n_tables f,
        dp_capabilities := sf_capabilities f, dp_is_main_conn_present := True,
        dp_main_channel := fill_entry (Some (conn_tbl s c)) dh p ref ((dp_main_channel q)\<lparr>ce_auxiliary_id := 0\<rparr>)\<rparr>) ?s2)"
    (is "_ = Some (_, _, ?s3)")
    using assms(12-16) by (simp add: of_add_channel_to_dp_def)
  let ?s4 = "upd_ch c (\<lambda>x. x\<lparr>ch_datapath := Some p, ch_dp_handle := dh\<rparr>) ?s3"
  have at: "fsm_send_channel_event ?d c DP_ATTACH_EVENT ?s4 = Some
    (call (Epoll_add None (ch_trnsprt_fd (cs_chan s c)) Handle_dp_msg) (call (Epoll_del None (ch_trnsprt_fd (cs_chan s c)))
      (upd_ch c (\<lambda>x. x\<lparr>ch_is_chn_added_to_dp := True, ch_fsm_state := STATE_BOUND_TO_DP\<rparr>) (set_event c DP_ATTACH_EVENT ?s4))))"
    (is "_ = Some ?s5")
    using send_attach[of ?s4 c e] assms(1,9,10) by (simp add: has_own_fd_def)
  obtain s6 where s6: "attach_channel e c f ?s1 = Some (OF_SUCCESS, s6)" "ch_fsm_state (cs_chan s6 c) = STATE_BOUND_TO_DP"
    "ch_is_chn_added_to_dp (cs_chan s6 c)" "ch_datapath (cs_chan s6 c) = Some p" "ch_dp_handle (cs_chan s6 c) = dh"
    "ch_auxiliary_id (cs_chan s6 c) = 0" "ch_keep_alive_state (cs_chan s6 c) = KEEP_ALIVE_MSG_READY_TO_SEND"
    "ch_msg_state (cs_chan s6 c) = CHN_WAITING_FOR_NEW_MSG" "cs_rx s6 c = rx" "cs_dp s6 = cs_dp ?s3"
    "cs_calls s6 = cs_calls s @ [Epoll_del None (ch_trnsprt_fd (cs_chan s c)), Epoll_add None (ch_trnsprt_fd (cs_chan s c)) Handle_dp_msg,
      Configure_switch dh, Send_desc_requests dh, Get_async_cfg dh, Timer_start c]" "\<forall>a. a \<noteq> c \<longrightarrow> cs_chan s6 a = cs_chan s a"
    using assms(8,12,17-19) add at
    by (simp add: attach_channel_def configure_main_def set_keep_alive_def OF_TRNSPRT_CHN_RESET_2_READ_NEW_MSG_def set_event_def Let_def)
  have "of_process_feature_reply_msg e c f ?s1 = Some (OF_SUCCESS, s6)"
    using s6(1) assms(2) by (simp add: of_process_feature_reply_msg_def)
  then have "of_handle_feature_reply_message e c s = Some (upd_ch c (ch_state_update (\<lambda>_. CHN_HANDSHAKE_WITH_DP_DONE)) s6)"
    using rd assms(3,5,7,11) by (simp add: of_handle_feature_reply_message_def features_append)
  then have "of_process_handshake_msg e (handshake_cbk e) c s = Some (OF_SUCCESS, upd_ch c (ch_state_update (\<lambda>_. CHN_HANDSHAKE_WITH_DP_DONE)) s6)"
    using assms(3-5) by (simp add: of_process_handshake_msg_def handshake_cbk_def Let_def)
  then show ?thesis using s6(2-) by (simp add: fill_entry_def)
qed

section \<open>Hello messages\<close>

text \<open>A hello message whose length field claims more than 1032 bytes overflows the buffer on the stack as
  soon as more than 1024 bytes of it have arrived.\<close>

theorem chan_hello_overflow:
  assumes "ch_msg_hdr (cs_chan s c) = h" "h ! 0 = OFP_VERSION" "h ! 1 = OFPT_HELLO" "1032 < unat (ntohs_length h)"
    "cs_rx s c = Rx b # rx" "1024 < length b"
  shows "of_process_handshake_msg e (handshake_cbk e) c s = None"
proof -
  let ?n = "ntohs_length h - 8"
  have n: "unat ?n = unat (ntohs_length h) - 8" using assms(4) by (subst unat_sub) (simp_all add: word_le_nat_alt)
  then have nz: "?n \<noteq> 0" using assms(4) by (intro notI) simp
  have gt: "ntohs_length h > 8" using assms(4) by (simp add: word_less_nat_alt)
  have t: "tcp_transport_read_data c ?n s = (CNTLR_CONN_READ_SUCCESS, take (unat ?n) b, False,
      snd (snd (snd (tcp_transport_read_data c ?n s))))"
    using assms(5,6) nz by (auto simp: tcp_transport_read_data_def)
  have "\<exists>s1. fsm_xprt_proto_channel_read_msg_from_dp e (fsm_run e) c ?n s = Some (OF_SUCCESS, take (unat ?n) b, s1)"
    unfolding fsm_xprt_proto_channel_read_msg_from_dp_def by (subst t) simp
  then obtain s1 where r: "fsm_xprt_proto_channel_read_msg_from_dp e (fsm_run e) c ?n s = Some (OF_SUCCESS, take (unat ?n) b, s1)" ..
  have "1024 < unat ?n" using assms(4) n by simp
  then have "of_handle_hello_message e c s = None"
    using r gt assms(1-3,6) by (simp add: of_handle_hello_message_def Let_def)
  then show ?thesis using assms(1-3) by (simp add: of_process_handshake_msg_def handshake_cbk_def Let_def)
qed
section \<open>Keeping a connection alive\<close>

text \<open>One period of the keep-alive timer: an echo request and, later, the check for its answer.\<close>

definition keep_alive_round :: "chan_env \<Rightarrow> addr \<Rightarrow> chan_sys \<Rightarrow> chan_sys option" where
  "keep_alive_round e c s = Option.bind (of_transprt_send_keep_alive_msg e 0 c s) (of_transprt_check_keepalive_response_msg e c)"

primrec keep_alive_rounds :: "chan_env \<Rightarrow> addr \<Rightarrow> nat \<Rightarrow> chan_sys \<Rightarrow> chan_sys option" where
  "keep_alive_rounds e c 0 s = Some s"
| "keep_alive_rounds e c (Suc k) s = Option.bind (keep_alive_rounds e c k s) (keep_alive_round e c)"

text \<open>A main channel over which requests can be sent.\<close>

definition alive :: "chan_env \<Rightarrow> addr \<Rightarrow> addr \<Rightarrow> u32 \<times> u32 \<Rightarrow> chan_sys \<Rightarrow> bool" where
  "alive e p c r s \<longleftrightarrow> attached p c r s \<and> tables_ok s \<and> ch_auxiliary_id (cs_chan s c) = 0 \<and>
     en_dp_byhandle e (ch_dp_handle (cs_chan s c)) = Some p \<and> en_alloc_msg e \<and> en_send_ok e \<and>
     ce_conn_table (dp_main_channel (cs_dp s p)) = Some (conn_tbl s c) \<and> ce_conn_safe_ref (dp_main_channel (cs_dp s p)) = r"

definition unanswered :: "addr \<Rightarrow> chan_sys \<Rightarrow> chan_sys" where
  "unanswered c s = call (Resp_timer_start c) (set_keep_alive c KEEP_ALIVE_MSG_SENT
     (call (Send_echo c) (upd_ch c (\<lambda>x. x\<lparr>ch_uiKeepAliveCount := ch_uiKeepAliveCount x + 1\<rparr>) s)))"

lemma unanswered_fields [simp]:
  "ch_uiKeepAliveCount (cs_chan (unanswered c s) c) = ch_uiKeepAliveCount (cs_chan s c) + 1"
  "ch_keep_alive_state (cs_chan (unanswered c s) c) = KEEP_ALIVE_MSG_SENT"
  "cs_info (unanswered c s) = cs_info s" "cs_dp (unanswered c s) = cs_dp s" "cs_ent (unanswered c s) = cs_ent s"
  "cs_tbl (unanswered c s) = cs_tbl s"
  by (simp_all add: unanswered_def set_keep_alive_def)

lemma unanswered_channel [simp]:
  "ch_fsm_state (cs_chan (unanswered c s) b) = ch_fsm_state (cs_chan s b)"
  "ch_is_chn_added_to_dp (cs_chan (unanswered c s) b) = ch_is_chn_added_to_dp (cs_chan s b)"
  "ch_is_chn_added_2_hash_tbl (cs_chan (unanswered c s) b) = ch_is_chn_added_2_hash_tbl (cs_chan s b)"
  "ch_datapath (cs_chan (unanswered c s) b) = ch_datapath (cs_chan s b)"
  "ch_dp_handle (cs_chan (unanswered c s) b) = ch_dp_handle (cs_chan s b)"
  "ch_state (cs_chan (unanswered c s) b) = ch_state (cs_chan s b)"
  "ch_safe_ref (cs_chan (unanswered c s) b) = ch_safe_ref (cs_chan s b)"
  "ch_trnsprt_info (cs_chan (unanswered c s) b) = ch_trnsprt_info (cs_chan s b)"
  "ch_trnsprt_fd (cs_chan (unanswered c s) b) = ch_trnsprt_fd (cs_chan s b)"
  "ch_auxiliary_id (cs_chan (unanswered c s) b) = ch_auxiliary_id (cs_chan s b)"
  by (simp_all add: unanswered_def set_keep_alive_def)

lemma unanswered_keeps [simp]:
  "attached p b r (unanswered c s) = attached p b r s" "tables_ok (unanswered c s) = tables_ok s"
  "aux_ring p xs (unanswered c s) = aux_ring p xs s" "aux_channel e p (unanswered c s) z = aux_channel e p s z"
  "alive e p b r (unanswered c s) = alive e p b r s"
  by (simp_all add: attached_def open_channel_def tables_ok_def aux_ring_def aux_channel_def alive_def split: prod.split)

lemma send_alive: "alive e p c r s \<Longrightarrow> of_transprt_send_keep_alive_msg e n c s = Some (unanswered c s)"
proof -
  assume a: "alive e p c r s"
  obtain B where B: "mch_inv (cs_tbl s (conn_tbl s c)) B" using a tables_okD unfolding alive_def by blast
  have "MCHASH_ACCESS_NODE (fst r) (snd r) (cs_tbl s (conn_tbl s c)) = Some (Some (Some c))"
    by (rule access_ref[OF B]) (use a in \<open>simp add: alive_def attached_def\<close>)
  then show ?thesis using a
    by (simp add: of_transprt_send_keep_alive_msg_def ofp_prepare_and_send_echo_request_def alive_def unanswered_def Let_def)
qed

lemma check_early:
  assumes "ch_keep_alive_state (cs_chan s c) = KEEP_ALIVE_MSG_SENT" "ch_uiKeepAliveCount (cs_chan s c) \<le> 3"
  shows "of_transprt_check_keepalive_response_msg e c s = Some s"
  using assms by (simp add: of_transprt_check_keepalive_response_msg_def not_less[symmetric])

lemma keep_alive_early:
  assumes "alive e p c r s" "ch_uiKeepAliveCount (cs_chan s c) = 0"
  shows "k \<le> 3 \<Longrightarrow> keep_alive_rounds e c k s = Some ((unanswered c ^^ k) s) \<and>
    alive e p c r ((unanswered c ^^ k) s) \<and> ch_uiKeepAliveCount (cs_chan ((unanswered c ^^ k) s) c) = of_nat k"
proof (induction k)
  case 0
  then show ?case using assms by simp
next
  case (Suc k)
  let ?s = "(unanswered c ^^ k) s"
  have "of_nat k + 1 \<le> (3 :: u32)" using Suc.prems by (simp add: word_le_nat_alt unat_word_ariths unsigned_of_nat take_bit_nat_eq_self)
  then show ?case using Suc send_alive[of e p c r ?s 0] check_early[of "unanswered c ?s" c e]
    by (simp add: keep_alive_round_def add.commute)
qed

text \<open>C33: the keep-alive timer of a main channel. The first three echo requests that stay unanswered leave the
  connection as it is; at the check after the fourth the main channel and all auxiliary channels of the
  datapath are closed.\<close>

theorem chan_keep_alive_closes:
  assumes "alive e p c r s" "ch_uiKeepAliveCount (cs_chan s c) = 0" "en_close_ok e (ch_trnsprt_fd (cs_chan s c))"
    "aux_ring p (ents ch) s" "\<forall>z\<in>set ch. aux_channel e p s z" "distinct (chans ch)" "c \<notin> set (chans ch)"
  shows "(\<forall>k \<le> 3. \<exists>s'. keep_alive_rounds e c k s = Some s' \<and> (\<forall>b. ch_fsm_state (cs_chan s' b) = ch_fsm_state (cs_chan s b))) \<and>
    (\<exists>s'. keep_alive_rounds e c 4 s = Some s' \<and> (\<forall>b\<in>set (c # chans ch). ch_fsm_state (cs_chan s' b) = STATE_CLOSE_CONN) \<and>
      aux_ring p [] s')"
proof
  have st: "ch_fsm_state (cs_chan ((unanswered c ^^ k) s) b) = ch_fsm_state (cs_chan s b)" for k b by (induction k) simp_all
  show "\<forall>k \<le> 3. \<exists>s'. keep_alive_rounds e c k s = Some s' \<and> (\<forall>b. ch_fsm_state (cs_chan s' b) = ch_fsm_state (cs_chan s b))"
  proof (intro allI impI)
    fix k :: nat assume "k \<le> 3"
    then show "\<exists>s'. keep_alive_rounds e c k s = Some s' \<and> (\<forall>b. ch_fsm_state (cs_chan s' b) = ch_fsm_state (cs_chan s b))"
      using keep_alive_early[OF assms(1,2)] st
      by (intro exI[of _ "(unanswered c ^^ k) s"]) simp
  qed
  let ?s = "unanswered c ((unanswered c ^^ 3) s)"
  have e3: "keep_alive_rounds e c 3 s = Some ((unanswered c ^^ 3) s)" "alive e p c r ((unanswered c ^^ 3) s)"
    "ch_uiKeepAliveCount (cs_chan ((unanswered c ^^ 3) s) c) = 3"
    using keep_alive_early[OF assms(1,2), of 3] by simp_all
  have fd: "ch_trnsprt_fd (cs_chan ((unanswered c ^^ k) s) b) = ch_trnsprt_fd (cs_chan s b)"
    "aux_ring p xs ((unanswered c ^^ k) s) = aux_ring p xs s" "aux_channel e p ((unanswered c ^^ k) s) z = aux_channel e p s z" for k b xs z
    by (induction k) simp_all
  have pre: "aux_ring p (ents ch) ?s" "tables_ok ?s" "\<forall>z\<in>set ch. aux_channel e p ?s z" "attached p c r ?s"
    "ch_auxiliary_id (cs_chan ?s c) = 0" "en_close_ok e (ch_trnsprt_fd (cs_chan ?s c))"
    using assms(3-5) e3(2) by (simp_all add: fd alive_def)
  obtain s' where s': "fire (fsm_run e) CLOSE_EVENT c ?s = Some (OF_SUCCESS, s')" "aux_ring p [] s'"
    "\<forall>(x, a, q)\<in>set ch. cs_ent s' x = None \<and> ch_fsm_state (cs_chan s' a) = STATE_CLOSE_CONN \<and> mch_refs (cs_tbl s' (conn_tbl ?s a)) q = None"
    "ch_fsm_state (cs_chan s' c) = STATE_CLOSE_CONN"
    using main_close_all[OF pre(1-3) assms(6,7) pre(4-6)] by blast
  have "keep_alive_round e c ((unanswered c ^^ 3) s) = Some s'"
    using send_alive[OF e3(2), of 0] e3(3) s'(1)
    by (simp add: keep_alive_round_def of_transprt_check_keepalive_response_msg_def fsm_send_channel_event_def)
  then have "keep_alive_rounds e c 4 s = Some s'" using e3(1) by (simp add: numeral_eq_Suc)
  then show "\<exists>s'. keep_alive_rounds e c 4 s = Some s' \<and> (\<forall>b\<in>set (c # chans ch). ch_fsm_state (cs_chan s' b) = STATE_CLOSE_CONN) \<and>
      aux_ring p [] s'"
    using s'(2-4) by fastforce
qed
section \<open>Witnesses\<close>

definition demo_reply :: "u8 list" where
  "demo_reply = [0, 0, 0, 0, 0, 0, 0, 9, 0, 0, 0, 0, 5, 0, 0, 0, 0, 0, 0, 0, 0, 0, 0, 0]"

definition demo_handshake :: "u8 list \<Rightarrow> u8 list \<Rightarrow> chan_sys" where
  "demo_handshake h b = upd_ch 3 (\<lambda>x. x\<lparr>ch_msg_hdr := h, ch_msg_state := CHN_START_READING_MSG, ch_safe_ref := Some (2, 1)\<rparr>) (demo_rx [b])"

theorem chan_handshake_attaches_main_witness:
  "\<exists>s'. of_process_handshake_msg (demo_chan_env True) (handshake_cbk (demo_chan_env True)) 3
      (demo_handshake [4, 6, 0, 32, 0, 0, 0, 0] demo_reply) = Some (OF_SUCCESS, s') \<and>
    ch_fsm_state (cs_chan s' 3) = STATE_BOUND_TO_DP \<and> dp_no_of_tables (cs_dp s' 1) = 5"
proof -
  let ?e = "demo_chan_env True"
  let ?s = "demo_handshake [4, 6, 0, 32, 0, 0, 0, 0] demo_reply"
  have s: "ch_fsm_state (cs_chan ?s 3) = STATE_WAIT_FOR_HANDSHAKE" "\<not> ch_is_chn_added_to_dp (cs_chan ?s 3)"
    "ch_msg_hdr (cs_chan ?s 3) = [4, 6, 0, 32, 0, 0, 0, 0]" "cs_rx ?s 3 = Rx demo_reply # []" "ch_safe_ref (cs_chan ?s 3) = Some (2, 1)"
    "has_own_fd 3 ?s" "\<not> dp_is_main_conn_present (cs_dp ?s 1)"
    by (simp_all add: demo_handshake_def demo_rx_def demo_chan_sys_def demo_channel_def has_own_fd_def)
  have h: "[4, 6, 0, 32, 0, 0, 0, 0 :: u8] ! 0 = OFP_VERSION" "[4, 6, 0, 32, 0, 0, 0, 0 :: u8] ! 1 = OFPT_FEATURES_REPLY"
    "length demo_reply = 24" "sf_auxiliary_id (features_of demo_reply) = 0" "sf_n_tables (features_of demo_reply) = 5"
    by (simp_all add: demo_reply_def features_of_def)
  have e: "en_epoll_ok ?e (ch_trnsprt_fd (cs_chan ?s 3))" "en_dp_handle ?e (sf_datapath_id (features_of demo_reply)) = Some 7"
    "en_dp_byhandle ?e 7 = Some 1" "en_tables_ok ?e" "en_configure_ok ?e" "en_async_ok ?e" "en_timer_ok ?e"
    by (simp_all add: demo_chan_env_def)
  show ?thesis
    using chan_handshake_attaches_main[OF s(1-3) h(1,2) s(4) h(3) s(5,6) e(1) refl h(4) e(2,3) s(7) e(4-7)] h(5) by auto
qed

theorem chan_hello_overflow_witness:
  "of_process_handshake_msg (demo_chan_env True) (handshake_cbk (demo_chan_env True)) 3
     (demo_handshake [4, 0, 5, 0, 0, 0, 0, 0] (replicate 1100 7)) = None"
proof (rule chan_hello_overflow[where b = "replicate 1100 7" and rx = "[]"])
  show "ch_msg_hdr (cs_chan (demo_handshake [4, 0, 5, 0, 0, 0, 0, 0] (replicate 1100 7)) 3) = [4, 0, 5, 0, 0, 0, 0, 0]"
    "cs_rx (demo_handshake [4, 0, 5, 0, 0, 0, 0, 0] (replicate 1100 7)) 3 = Rx (replicate 1100 7) # []"
    by (simp_all add: demo_handshake_def demo_rx_def)
  show "1032 < unat (ntohs_length [4, 0, 5, 0, 0, 0, 0, 0])" by (simp add: ntohs_length_def u16_of_def)
qed simp_all

theorem chan_keep_alive_closes_witness:
  "\<exists>s3 s4. keep_alive_rounds (demo_chan_env True) 5 3 demo_ring = Some s3 \<and> ch_fsm_state (cs_chan s3 5) = STATE_BOUND_TO_DP \<and>
    keep_alive_rounds (demo_chan_env True) 5 4 demo_ring = Some s4 \<and> ch_fsm_state (cs_chan s4 6) = STATE_CLOSE_CONN"
proof -
  let ?ch = "[(20 :: addr, 6 :: addr, demo_ref 6), (21, 7, demo_ref 7)]"
  have "alive (demo_chan_env True) 1 5 (demo_ref 5) demo_ring"
    using demo_ring_ok(2,3) by (simp add: alive_def) (simp add: demo_ring_def demo_chan_env_def demo_entry_def)
  moreover have "ch_uiKeepAliveCount (cs_chan demo_ring 5) = 0" "en_close_ok (demo_chan_env True) (ch_trnsprt_fd (cs_chan demo_ring 5))"
    "distinct (chans ?ch)" "5 \<notin> set (chans ?ch)" "ch_fsm_state (cs_chan demo_ring 5) = STATE_BOUND_TO_DP"
    by (simp_all add: demo_ring_def demo_chan_env_def demo_channel_def)
  ultimately show ?thesis
    using chan_keep_alive_closes[of "demo_chan_env True" 1 5 "demo_ref 5" demo_ring ?ch] demo_ring_ok(1,4)
    by (auto dest: spec[of _ 3])
qed

end
