(* ===== verification/Channel_Send.thy ===== *)
theory Channel_Send
  imports Channel_Msg Msg_Queue
begin

text \<open>
  Sending messages to a switch (\<^verbatim>\<open>transport/base/trnsprt_core.c\<close>, \<^verbatim>\<open>trnsprt_thread.c\<close>, \<^verbatim>\<open>trnsprt_channel.c\<close>,
  \<^verbatim>\<open>transport/tcp/tcp_api.c\<close>). A message is written to the socket at once; what the kernel does not accept
  waits on the \<^verbatim>\<open>send_msg_list\<close> of the channel until epoll reports the socket writable. The state adds to
  the channels their lists, the bytes of the messages and the bytes the kernel has accepted. A released
  message keeps its bytes here: it goes back to a pool, which does not clear it.
\<close>

section \<open>State\<close>

record cntlr_send_msg_buf =
  sb_length_sent :: u16
  sb_msg :: addr

text \<open>What a \<^verbatim>\<open>send\<close> does: it accepts at most so many bytes, or fails with EAGAIN, ENOMEM or EINTR, with
  ECONNRESET, or otherwise. When nothing is said, the buffer of the kernel is full.\<close>

datatype tx_event = Tx nat | Tx_again | Tx_reset | Tx_error

text \<open>\<open>sn_alloc\<close> are the blocks the next \<^verbatim>\<open>calloc\<close>s return, none when it is empty.\<close>

record send_sys =
  sn_sys :: chan_sys
  sn_links :: links
  sn_list :: "addr \<Rightarrow> of_list"
  sn_bufs :: "addr \<Rightarrow> cntlr_send_msg_buf"
  sn_wr :: "addr \<Rightarrow> bool"
  sn_box :: "addr \<Rightarrow> addr msg_q_box"
  sn_mem :: mem_sys
  sn_data :: "addr \<Rightarrow> u8 list"
  sn_released :: "addr list"
  sn_freed :: "addr list"
  sn_alloc :: "ptr list"
  sn_net :: "addr \<Rightarrow> tx_event list"
  sn_wire :: "addr \<Rightarrow> u8 list"

text \<open>The environment of the channels; whether the caller runs in the thread of the channel; the results
  of changing the epoll events, of opening a socket to wake that thread and of sending to it; whether
  \<^verbatim>\<open>errno\<close> asks to try again when no system call was made.\<close>

record send_env =
  se_chan :: chan_env
  se_same_thread :: bool
  se_modify_ok :: bool
  se_socket_ok :: bool
  se_sendto_ok :: bool
  se_errno_again :: bool
  se_mem :: mem_env

definition lst :: "addr \<Rightarrow> send_sys \<Rightarrow> of_list_st" where
  "lst c S = (sn_links S, sn_list S c, [])"

definition put_sends :: "addr \<Rightarrow> of_list_st \<Rightarrow> send_sys \<Rightarrow> send_sys" where
  "put_sends c l S = S\<lparr>sn_links := fst l, sn_list := (sn_list S)(c := fst (snd l))\<rparr>"

definition of_check_pkt_mbuf_and_free :: "addr \<Rightarrow> send_sys \<Rightarrow> send_sys" where
  "of_check_pkt_mbuf_and_free m S = S\<lparr>sn_released := sn_released S @ [m]\<rparr>"

definition record_call :: "chan_call \<Rightarrow> send_sys \<Rightarrow> send_sys" where
  "record_call x S = S\<lparr>sn_sys := call x (sn_sys S)\<rparr>"

section \<open>Writing to the socket\<close>

text \<open>The status, the number of bytes sent, whether the peer closed the connection, whether \<^verbatim>\<open>errno\<close> asks to
  try again, and the later events.\<close>

fun tcp_write_loop :: "nat \<Rightarrow> nat \<Rightarrow> tx_event list \<Rightarrow> bool \<times> nat \<times> bool \<times> bool \<times> tx_event list" where
  "tcp_write_loop left sent [] = (False, sent, False, True, [])"
| "tcp_write_loop left sent (Tx k # r) =
     (if left - k > 0 then tcp_write_loop (left - k) (sent + k) r else (True, sent + min k left, False, False, r))"
| "tcp_write_loop left sent (Tx_again # r) = (False, sent, False, True, r)"
| "tcp_write_loop left sent (Tx_reset # r) = (False, sent, True, False, r)"
| "tcp_write_loop left sent (Tx_error # r) = (False, sent, False, False, r)"

definition tcp_transport_write_data :: "u8 list \<Rightarrow> tx_event list \<Rightarrow> bool \<times> nat \<times> bool \<times> bool \<times> tx_event list" where
  "tcp_transport_write_data msg evs = tcp_write_loop (length msg) 0 evs"

text \<open>\<^verbatim>\<open>of_send_msg_to_xprt\<close>: the code, the value of the length and whether \<^verbatim>\<open>errno\<close> asks to try again.\<close>

definition of_send_msg_to_xprt :: "send_env \<Rightarrow> addr \<Rightarrow> addr \<Rightarrow> u16 \<Rightarrow> send_sys \<Rightarrow> (int \<times> u16 \<times> bool \<times> send_sys) option" where
  "of_send_msg_to_xprt e c m off S =
    (let bytes = sn_data S m in
     if length bytes < unat off then None
     else if ch_trnsprt_fd (cs_chan (sn_sys S) c) = -1 then Some (OF_FAILURE, 0, se_errno_again e, S)
     else let (ok, n, closed, again, r) = tcp_transport_write_data (drop (unat off) bytes) (sn_net S c);
              e' = (se_chan e)\<lparr>en_write := (\<lambda>_. (ok, of_nat n, closed))\<rparr>;
              S1 = S\<lparr>sn_net := (sn_net S)(c := r), sn_wire := (sn_wire S)(c := sn_wire S c @ take n (drop (unat off) bytes))\<rparr>
          in Option.bind (fsm_xprt_proto_channel_write_msg_to_dp e' (fsm_run e') c bytes (unat off) (sn_sys S1))
               (\<lambda>(ret, k, s'). Some (ret, k, again, S1\<lparr>sn_sys := s'\<rparr>)))"

section \<open>Waiting for the socket\<close>

definition cntlr_send_epoll_write_event_2_xprt_conn :: "send_env \<Rightarrow> addr \<Rightarrow> send_sys \<Rightarrow> (int \<times> send_sys) option" where
  "cntlr_send_epoll_write_event_2_xprt_conn e c S =
    (if sn_wr S c then Some (OF_SUCCESS, S)
     else case ch_msg_q_box (cs_chan (sn_sys S) c) of None \<Rightarrow> None
     | Some b \<Rightarrow>
       if \<not> bSendEvent (sn_box S b) then Some (OF_SUCCESS, S)
       else if \<not> se_socket_ok e \<or> \<not> se_sendto_ok e then Some (OF_FAILURE, S)
       else Some (OF_SUCCESS, S\<lparr>sn_box := (sn_box S)(b := (sn_box S b)\<lparr>bSendEvent := False\<rparr>)\<rparr>))"

definition of_register_write_event_to_epoll_fd :: "send_env \<Rightarrow> addr \<Rightarrow> send_sys \<Rightarrow> send_sys" where
  "of_register_write_event_to_epoll_fd e c S =
    (if sn_wr S c then S
     else let S1 = record_call (Epoll_modify (ch_trnsprt_fd (cs_chan (sn_sys S) c)) True) S
          in if se_modify_ok e then S1\<lparr>sn_wr := (sn_wr S1)(c := True)\<rparr> else S1)"

text \<open>Putting a new message on the list; \<open>None\<close> inside when there is no block for it.\<close>

definition queue_msg :: "addr \<Rightarrow> addr \<Rightarrow> u16 \<Rightarrow> send_sys \<Rightarrow> (bool \<times> send_sys) option" where
  "queue_msg c m n S = (case sn_alloc S of
     Some x # r \<Rightarrow> map_option (\<lambda>l. (True, put_sends c l (S\<lparr>sn_alloc := r,
         sn_bufs := (sn_bufs S)(x := \<lparr>sb_length_sent = n, sb_msg = m\<rparr>)\<rparr>)))
       (OF_APPEND_NODE_TO_LIST x ((sn_links S)(x := None), sn_list S c, []))
   | None # r \<Rightarrow> Some (False, S\<lparr>sn_alloc := r\<rparr>)
   | [] \<Rightarrow> Some (False, S))"

definition of_add_2_epoll_4_wr_event :: "send_env \<Rightarrow> addr \<Rightarrow> addr \<Rightarrow> bool \<Rightarrow> u16 \<Rightarrow> send_sys \<Rightarrow> send_sys option" where
  "of_add_2_epoll_4_wr_event e c m is_new n S =
    Option.bind (if is_new then queue_msg c m n S else Some (True, S)) (\<lambda>(ok, S1).
      if \<not> ok \<or> sn_wr S1 c then Some S1
      else if ch_thread (cs_chan (sn_sys S1) c) = None then None
      else if se_same_thread e then Some (of_register_write_event_to_epoll_fd e c S1)
      else map_option snd (cntlr_send_epoll_write_event_2_xprt_conn e c S1))"

section \<open>Sending a message\<close>

text \<open>The code and the length if it is stored.\<close>

definition cntlr_tnsprt_try_2_send_msg_on_line ::
  "send_env \<Rightarrow> addr \<Rightarrow> addr \<Rightarrow> bool \<Rightarrow> u16 \<Rightarrow> send_sys \<Rightarrow> (int \<times> u16 option \<times> send_sys) option" where
  "cntlr_tnsprt_try_2_send_msg_on_line e c m is_new off S =
    Option.bind (of_send_msg_to_xprt e c m off S) (\<lambda>(ret, n, again, S1).
      if ret = OF_FAILURE \<and> \<not> again then Some (OF_FAILURE, None, of_check_pkt_mbuf_and_free m S1)
      else if ret = OF_FAILURE \<or> unat n < length (sn_data S1 m)
      then map_option (\<lambda>S2. (OF_SUCCESS, Some n, S2)) (of_add_2_epoll_4_wr_event e c m is_new n S1)
      else Some (OF_SUCCESS, Some n, of_check_pkt_mbuf_and_free m S1))"

definition cntlr_tnsprt_send_msg_to_dp_channel ::
  "send_env \<Rightarrow> addr \<Rightarrow> addr \<Rightarrow> bool \<Rightarrow> u16 \<Rightarrow> send_sys \<Rightarrow> (int \<times> send_sys) option" where
  "cntlr_tnsprt_send_msg_to_dp_channel e c m is_new off S =
    (if ol_count (sn_list S c) > 0
     then map_option (\<lambda>S1. (OF_SUCCESS, S1)) (of_add_2_epoll_4_wr_event e c m is_new off S)
     else map_option (\<lambda>(ret, _, S1). (ret, S1)) (cntlr_tnsprt_try_2_send_msg_on_line e c m is_new off S))"

definition cntlr_transprt_send_to_dp_locally :: "send_env \<Rightarrow> addr \<Rightarrow> addr \<Rightarrow> u32 \<times> u32 \<Rightarrow> send_sys \<Rightarrow> (int \<times> send_sys) option" where
  "cntlr_transprt_send_to_dp_locally e m tb ref S =
    Option.bind (MCHASH_ACCESS_NODE (fst ref) (snd ref) (cs_tbl (sn_sys S) tb)) (\<lambda>r. case r of
       None \<Rightarrow> Some (OF_FAILURE, S)
     | Some None \<Rightarrow> None
     | Some (Some c) \<Rightarrow> cntlr_tnsprt_send_msg_to_dp_channel e c m True 0 S)"

section \<open>Sending what waits\<close>

text \<open>The loop is left with \<^verbatim>\<open>break\<close>, which keeps the head of the list, or goes on after removing it.
  The length is stored only when the message was not dropped; before that it is uninitialised.\<close>

definition drop_head :: "addr \<Rightarrow> send_sys \<Rightarrow> send_sys option" where
  "drop_head c S = map_option (\<lambda>(l, fr). (put_sends c l S)\<lparr>sn_freed := fr\<rparr>) (of_list_drop_head (lst c S, sn_freed S))"

definition flush_step :: "send_env \<Rightarrow> addr \<Rightarrow> addr \<Rightarrow> u16 option \<Rightarrow> send_sys \<Rightarrow> (bool \<times> u16 \<times> send_sys) option" where
  "flush_step e c x len S =
    (let m = sb_msg (sn_bufs S x) in
     Option.bind (cntlr_tnsprt_try_2_send_msg_on_line e c m False (sb_length_sent (sn_bufs S x)) S) (\<lambda>(ret, n, S1).
       case (case n of None \<Rightarrow> len | Some k \<Rightarrow> Some k) of None \<Rightarrow> None
       | Some k \<Rightarrow>
         let empty = (sn_data S1 m = []) in
         if k = 0 then Some (empty, k, S1)
         else let n2 = sb_length_sent (sn_bufs S1 x) + k;
                  S2 = S1\<lparr>sn_bufs := (sn_bufs S1)(x := (sn_bufs S1 x)\<lparr>sb_length_sent := n2\<rparr>)\<rparr>
              in Some (unat n2 = length (sn_data S2 m) \<or> empty, k, S2)))"

partial_function (option) flush_loop :: "send_env \<Rightarrow> addr \<Rightarrow> u16 option \<Rightarrow> send_sys \<Rightarrow> send_sys option" where
  "flush_loop e c len S = (case ol_head (sn_list S c) of None \<Rightarrow> Some S
     | Some x \<Rightarrow> Option.bind (flush_step e c x len S) (\<lambda>(go_on, k, S1).
         if go_on then Option.bind (drop_head c S1) (flush_loop e c (Some k)) else Some S1))"

definition of_send_all_msgs_waiting_on_chn_to_dp :: "send_env \<Rightarrow> addr \<Rightarrow> send_sys \<Rightarrow> send_sys option" where
  "of_send_all_msgs_waiting_on_chn_to_dp e c S =
    map_option (\<lambda>S1. if ol_count (sn_list S1 c) = 0
        then (record_call (Epoll_modify (ch_trnsprt_fd (cs_chan (sn_sys S1) c)) False) S1)\<lparr>sn_wr := (sn_wr S1)(c := False)\<rparr>
        else S1)
      (flush_loop e c None S)"

section \<open>Messages from other threads and the end of a channel\<close>

text \<open>The message received from the loopback socket: nothing, a wake-up for a queue, or for writing.\<close>

datatype thread_event = Recv_failed | MSG_RCVD nat | EPOLL_EVENT_RCVD

definition set_box :: "addr \<Rightarrow> bool \<Rightarrow> send_sys \<Rightarrow> send_sys" where
  "set_box b v S = S\<lparr>sn_box := (sn_box S)(b := (sn_box S b)\<lparr>bSendEvent := v\<rparr>)\<rparr>"

partial_function (option) drain_box :: "send_env \<Rightarrow> addr \<Rightarrow> addr \<Rightarrow> nat \<Rightarrow> send_sys \<Rightarrow> send_sys option" where
  "drain_box e c b q S = Option.bind (of_MsgDequeue (se_mem e) q True (sn_box S b, sn_mem S)) (\<lambda>r. case r of (rc, msg, box, mem) \<Rightarrow>
     let S1 = S\<lparr>sn_box := (sn_box S)(b := box), sn_mem := mem\<rparr> in
     if rc \<noteq> OF_SUCCESS then Some S1
     else (case msg of None \<Rightarrow> None
     | Some m \<Rightarrow> Option.bind (cntlr_tnsprt_send_msg_to_dp_channel e c m True 0 S1)
         (\<lambda>r2. if fst r2 = OF_FAILURE then Some (snd r2) else drain_box e c b q (snd r2))))"

definition cntlr_trnsprt_handle_ctrl_thread_msgs :: "send_env \<Rightarrow> addr \<Rightarrow> thread_event \<Rightarrow> send_sys \<Rightarrow> send_sys option" where
  "cntlr_trnsprt_handle_ctrl_thread_msgs e c ev S =
    (case ev of Recv_failed \<Rightarrow> Some S
     | MSG_RCVD q \<Rightarrow> Option.bind (ch_msg_q_box (cs_chan (sn_sys S) c)) (\<lambda>b.
         map_option (set_box b True) (drain_box e c b q S))
     | EPOLL_EVENT_RCVD \<Rightarrow> Option.bind (ch_msg_q_box (cs_chan (sn_sys S) c)) (\<lambda>b.
         Some (set_box b True (of_register_write_event_to_epoll_fd e c S))))"

text \<open>The part of \<^verbatim>\<open>cntlr_trnsprt_conn_close\<close> about waiting messages.\<close>

partial_function (option) drop_loop :: "addr \<Rightarrow> send_sys \<Rightarrow> send_sys option" where
  "drop_loop c S = (case ol_head (sn_list S c) of None \<Rightarrow> Some S
     | Some x \<Rightarrow> Option.bind (drop_head c (of_check_pkt_mbuf_and_free (sb_msg (sn_bufs S x)) S)) (drop_loop c))"

definition drop_pending :: "addr \<Rightarrow> send_sys \<Rightarrow> send_sys option" where
  "drop_pending c S = (if ol_count (sn_list S c) > 0 then drop_loop c S else Some S)"

section \<open>Writing while the connection lasts\<close>

text \<open>A connected channel whose socket at worst asks to try again.\<close>

fun benign :: "tx_event \<Rightarrow> bool" where
  "benign (Tx k) = True" | "benign Tx_again = True" | "benign Tx_reset = False" | "benign Tx_error = False"

definition connected :: "addr \<Rightarrow> addr \<Rightarrow> chan_sys \<Rightarrow> bool" where
  "connected q c s \<longleftrightarrow> open_channel (cs_chan s c) \<and> ch_trnsprt_fd (cs_chan s c) \<noteq> -1 \<and>
     ch_thread (cs_chan s c) \<noteq> None \<and> ch_msg_q_box (cs_chan s c) = Some q"

definition calm :: "addr \<Rightarrow> addr \<Rightarrow> send_sys \<Rightarrow> bool" where
  "calm q c S \<longleftrightarrow> connected q c (sn_sys S) \<and> (\<forall>ev\<in>set (sn_net S c). benign ev)"

lemma write_loop_result:
  assumes "tcp_write_loop left sent evs = (ok, n, closed, again, r)" "\<forall>ev\<in>set evs. benign ev"
  shows "sent \<le> n \<and> n \<le> sent + left \<and> \<not> closed \<and> (ok \<longrightarrow> n = sent + left) \<and> (\<not> ok \<longrightarrow> again) \<and>
    (\<not> ok \<longrightarrow> 0 < left \<longrightarrow> n < sent + left) \<and> (\<forall>ev\<in>set r. benign ev)"
  using assms
proof (induction left sent evs rule: tcp_write_loop.induct)
  case (2 left sent k r')
  show ?case
  proof (cases "left - k > 0")
    case True
    then show ?thesis using 2 by auto
  next
    case False
    then show ?thesis using 2 by auto
  qed
qed auto

lemma fire_write_fail:
  assumes "open_channel (cs_chan s c)"
  shows "fire (fsm_run e) WRITE_FAIL_EVENT c s = Some (OF_SUCCESS, set_event c WRITE_FAIL_EVENT s)"
  using assms by (auto simp: fire_def fsm_run_def eval_nat_numeral set_event_def open_channel_def fsm_xprt_proto_channel_write_error_def)

lemma connected_upd [simp]:
  "connected q c (set_event c ev s) = connected q c s" "connected q c (call x s) = connected q c s"
  "connected q c (upd_ch c (\<lambda>x. x\<lparr>ch_tx_bytes := f x\<rparr>) s) = connected q c s"
  by (simp_all add: connected_def set_event_def open_channel_def upd_ch_def call_def)

lemma write_msg_result:
  assumes "connected q c s"
  shows "\<exists>s'. fsm_xprt_proto_channel_write_msg_to_dp (e\<lparr>en_write := (\<lambda>_. (ok, n, False))\<rparr>) (fsm_run e') c m k s =
    Some (if ok then OF_SUCCESS else OF_FAILURE, n, s') \<and> connected q c s'"
proof -
  let ?t = "call (Transport_write (ch_trnsprt_fd (cs_chan s c)) (drop k m)) s"
  have t: "connected q c ?t" "ch_trnsprt_fd (cs_chan s c) \<noteq> -1" using assms by (simp_all add: connected_def[of q c s])
  then have f: "fire (fsm_run e') WRITE_FAIL_EVENT c ?t = Some (OF_SUCCESS, set_event c WRITE_FAIL_EVENT ?t)"
    by (intro fire_write_fail) (simp add: connected_def)
  show ?thesis
  proof (cases ok)
    case True
    then show ?thesis using t
      by (intro exI[of _ "upd_ch c (\<lambda>x. x\<lparr>ch_tx_bytes := ch_tx_bytes x + ucast n\<rparr>) ?t"])
        (simp add: fsm_xprt_proto_channel_write_msg_to_dp_def)
  next
    case False
    then show ?thesis using t f
      by (intro exI[of _ "set_event c WRITE_FAIL_EVENT ?t"]) (simp add: fsm_xprt_proto_channel_write_msg_to_dp_def)
  qed
qed

text \<open>What a write changes: the channel itself, the events still to come and the bytes accepted.\<close>

definition written :: "addr \<Rightarrow> addr \<Rightarrow> u8 list \<Rightarrow> send_sys \<Rightarrow> send_sys \<Rightarrow> bool" where
  "written q c bs S S' \<longleftrightarrow> (\<exists>s' evs. S' = S\<lparr>sn_sys := s', sn_net := (sn_net S)(c := evs),
     sn_wire := (sn_wire S)(c := sn_wire S c @ bs)\<rparr>) \<and> calm q c S'"

lemma send_to_xprt_result:
  assumes "calm q c S" "unat off \<le> length (sn_data S m)" "length (sn_data S m) < 65536"
  shows "\<exists>ret n again S'. of_send_msg_to_xprt e c m off S = Some (ret, of_nat n, again, S') \<and>
    n \<le> length (sn_data S m) - unat off \<and> written q c (take n (drop (unat off) (sn_data S m))) S S' \<and>
    (ret = OF_SUCCESS \<and> n = length (sn_data S m) - unat off \<or>
     ret = OF_FAILURE \<and> again \<and> (unat off < length (sn_data S m) \<longrightarrow> n < length (sn_data S m) - unat off))"
proof -
  obtain ok n closed again r where w: "tcp_write_loop (length (sn_data S m) - unat off) 0 (sn_net S c) = (ok, n, closed, again, r)"
    by (metis prod_cases5)
  have b: "\<forall>ev\<in>set (sn_net S c). benign ev" and con: "connected q c (sn_sys S)" using assms(1) by (auto simp: calm_def)
  note res = write_loop_result[OF w b]
  obtain s' where s': "fsm_xprt_proto_channel_write_msg_to_dp ((se_chan e)\<lparr>en_write := (\<lambda>_. (ok, of_nat n, False))\<rparr>)
      (fsm_run ((se_chan e)\<lparr>en_write := (\<lambda>_. (ok, of_nat n, False))\<rparr>)) c (sn_data S m) (unat off) (sn_sys S) =
      Some (if ok then OF_SUCCESS else OF_FAILURE, of_nat n, s')" "connected q c s'"
    using write_msg_result[OF con] by metis
  let ?S' = "S\<lparr>sn_sys := s', sn_net := (sn_net S)(c := r),
    sn_wire := (sn_wire S)(c := sn_wire S c @ take n (drop (unat off) (sn_data S m)))\<rparr>"
  have fd: "ch_trnsprt_fd (cs_chan (sn_sys S) c) \<noteq> -1" using con by (simp add: connected_def)
  have eq: "of_send_msg_to_xprt e c m off S = Some (if ok then OF_SUCCESS else OF_FAILURE, of_nat n, again, ?S')"
    using assms(2) fd w s'(1) res by (simp add: of_send_msg_to_xprt_def tcp_transport_write_data_def Let_def)
  have "written q c (take n (drop (unat off) (sn_data S m))) S ?S'"
    unfolding written_def using s'(2) res by (intro conjI exI[of _ s'] exI[of _ r]) (simp_all add: calm_def)
  then show ?thesis using eq res by (cases ok) auto
qed
section \<open>The bytes that wait\<close>

text \<open>The list represents the waiting messages, each of which has bytes left; the blocks that will be allocated
  are new. A message has less than 65536 bytes, \<^verbatim>\<open>data_len\<close> being an \<^verbatim>\<open>uint16_t\<close>.\<close>

definition send_inv :: "addr \<Rightarrow> send_sys \<Rightarrow> addr list \<Rightarrow> bool" where
  "send_inv c S xs \<longleftrightarrow> ol_exact (lst c S) xs \<and> \<not> ol_free_cbk (sn_list S c) \<and>
     (\<forall>x\<in>set xs. unat (sb_length_sent (sn_bufs S x)) < length (sn_data S (sb_msg (sn_bufs S x)))) \<and>
     (\<forall>m. length (sn_data S m) < 65536) \<and> distinct (sn_alloc S) \<and>
     (\<forall>y\<in>set (sn_alloc S). \<exists>x. y = Some x \<and> node_ok x \<and> x \<notin> set xs)"

definition rest_of :: "send_sys \<Rightarrow> addr \<Rightarrow> u8 list" where
  "rest_of S x = drop (unat (sb_length_sent (sn_bufs S x))) (sn_data S (sb_msg (sn_bufs S x)))"

definition waiting :: "send_sys \<Rightarrow> addr list \<Rightarrow> u8 list" where
  "waiting S xs = concat (map (rest_of S) xs)"

lemma waiting_simps [simp]: "waiting S [] = []" "waiting S (x # xs) = rest_of S x @ waiting S xs"
  "waiting S (xs @ ys) = waiting S xs @ waiting S ys"
  by (simp_all add: waiting_def)

lemma waiting_cong:
  "(\<And>x. x \<in> set xs \<Longrightarrow> sn_bufs S' x = sn_bufs S x) \<Longrightarrow> sn_data S' = sn_data S \<Longrightarrow> waiting S' xs = waiting S xs"
  by (induction xs) (auto simp: rest_of_def)

lemma send_inv_cong:
  "sn_links S' = sn_links S \<Longrightarrow> sn_list S' c = sn_list S c \<Longrightarrow> sn_bufs S' = sn_bufs S \<Longrightarrow> sn_data S' = sn_data S \<Longrightarrow>
   sn_alloc S' = sn_alloc S \<Longrightarrow> send_inv c S' xs = send_inv c S xs"
  by (simp add: send_inv_def lst_def)

text \<open>The messages queued by other threads.\<close>

definition same_boxes :: "send_sys \<Rightarrow> send_sys \<Rightarrow> bool" where
  "same_boxes S S' \<longleftrightarrow> sn_mem S' = sn_mem S \<and> (\<forall>y. MsgQueue (sn_box S' y) = MsgQueue (sn_box S y))"

text \<open>What registering for the write event changes.\<close>

definition poked :: "addr \<Rightarrow> addr \<Rightarrow> send_sys \<Rightarrow> send_sys \<Rightarrow> bool" where
  "poked q c S S' \<longleftrightarrow> (\<exists>s w b. S' = S\<lparr>sn_sys := s, sn_wr := w, sn_box := b\<rparr> \<and> connected q c s \<and> (\<forall>y. MsgQueue (b y) = MsgQueue (sn_box S y)))"

lemma pokedI: "S' = S\<lparr>sn_sys := s, sn_wr := w, sn_box := b\<rparr> \<Longrightarrow> connected q c s \<Longrightarrow> (\<And>y. MsgQueue (b y) = MsgQueue (sn_box S y)) \<Longrightarrow> poked q c S S'"
  unfolding poked_def by blast

lemma poked_simps:
  "connected q c (sn_sys S) \<Longrightarrow> poked q c S S" "connected q c s \<Longrightarrow> poked q c S (S\<lparr>sn_sys := s\<rparr>)"
  "connected q c s \<Longrightarrow> poked q c S (S\<lparr>sn_sys := s, sn_wr := w\<rparr>)"
  using pokedI[where S = S and s = "sn_sys S" and w = "sn_wr S" and b = "sn_box S"]
    pokedI[where S = S and s = s and w = "sn_wr S" and b = "sn_box S"] pokedI[where S = S and s = s and w = w and b = "sn_box S"]
  by auto

lemmas poked_refl = poked_simps(1)

lemma poked_register: "connected q c (sn_sys S) \<Longrightarrow> poked q c S (of_register_write_event_to_epoll_fd e c S)"
  by (auto simp: of_register_write_event_to_epoll_fd_def record_call_def Let_def intro!: poked_simps)

lemma poked_event:
  assumes "connected q c (sn_sys S)"
  shows "\<exists>rc S'. cntlr_send_epoll_write_event_2_xprt_conn e c S = Some (rc, S') \<and> poked q c S S'"
proof -
  obtain b where b: "ch_msg_q_box (cs_chan (sn_sys S) c) = Some b" using assms by (auto simp: connected_def)
  have "poked q c S (S\<lparr>sn_box := (sn_box S)(b := (sn_box S b)\<lparr>bSendEvent := False\<rparr>)\<rparr>)"
    by (rule pokedI[where s = "sn_sys S" and w = "sn_wr S" and b = "(sn_box S)(b := (sn_box S b)\<lparr>bSendEvent := False\<rparr>)"])
      (use assms in auto)
  then show ?thesis using b poked_refl[OF assms] by (auto simp: cntlr_send_epoll_write_event_2_xprt_conn_def)
qed

lemma poked_fields:
  assumes "poked q c S S'"
  shows "sn_links S' = sn_links S" "sn_list S' = sn_list S" "sn_bufs S' = sn_bufs S" "sn_data S' = sn_data S"
    "sn_alloc S' = sn_alloc S" "sn_net S' = sn_net S" "sn_wire S' = sn_wire S" "sn_released S' = sn_released S"
    "sn_freed S' = sn_freed S" "connected q c (sn_sys S')"
    "same_boxes S S'"
  using assms by (auto simp: poked_def same_boxes_def)

lemma add_to_epoll:
  assumes "connected q c (sn_sys S)"
  shows "\<exists>S'. of_add_2_epoll_4_wr_event e c m False n S = Some S' \<and> poked q c S S' \<and>
    (se_same_thread e \<and> se_modify_ok e \<longrightarrow> sn_wr S' c)"
proof -
  have "sn_wr (of_register_write_event_to_epoll_fd e c S) c" if "se_modify_ok e"
    using that by (simp add: of_register_write_event_to_epoll_fd_def Let_def)
  then show ?thesis
    using assms poked_register[OF assms, of e] poked_event[OF assms, of e] poked_refl[OF assms]
    by (auto simp: of_add_2_epoll_4_wr_event_def connected_def)
qed

lemma queue_msg_result:
  assumes inv: "send_inv c S xs" and n: "unat n < length (sn_data S m)" and al: "sn_alloc S = a # al"
  shows "\<exists>x S'. a = Some x \<and> queue_msg c m n S = Some (True, S') \<and> send_inv c S' (xs @ [x]) \<and>
    waiting S' (xs @ [x]) = waiting S xs @ drop (unat n) (sn_data S m) \<and> sn_alloc S' = al \<and> sn_sys S' = sn_sys S \<and>
    sn_net S' = sn_net S \<and> sn_wire S' = sn_wire S \<and> sn_data S' = sn_data S \<and> sn_released S' = sn_released S \<and>
    same_boxes S S'"
proof -
  obtain x where x: "a = Some x" "node_ok x" "x \<notin> set xs" using inv al by (auto simp: send_inv_def)
  have d: "distinct (a # al)" "\<forall>y\<in>set al. \<exists>z. y = Some z \<and> node_ok z \<and> z \<notin> set xs" using inv al by (auto simp: send_inv_def)
  let ?l = "((sn_links S)(x := None), sn_list S c, []) :: of_list_st"
  have "ol_exact ?l xs" using inv x(3) by (simp add: send_inv_def ol_exact_def ol_rep_def ol_cnt_def lst_def)
  then obtain l' where l': "OF_APPEND_NODE_TO_LIST x ?l = Some l'" "ol_exact l' (xs @ [x])"
    "snd (snd l') = []" "ol_free_cbk (fst (snd l')) = ol_free_cbk (sn_list S c)"
    using ol_append[of ?l xs x] x by (auto simp: ol_exact_def)
  let ?S' = "put_sends c l' (S\<lparr>sn_alloc := al, sn_bufs := (sn_bufs S)(x := \<lparr>sb_length_sent = n, sb_msg = m\<rparr>)\<rparr>)"
  have q: "queue_msg c m n S = Some (True, ?S')" using al x(1) l'(1) by (simp add: queue_msg_def)
  have "lst c ?S' = l'" using l'(3) by (cases l') (simp add: lst_def put_sends_def)
  moreover have "\<forall>y\<in>set al. \<exists>z. y = Some z \<and> node_ok z \<and> z \<notin> set (xs @ [x])" using d x(1) by fastforce
  ultimately have i: "send_inv c ?S' (xs @ [x])"
    using inv x l'(2,4) n d(1) by (auto simp: send_inv_def put_sends_def)
  have "waiting ?S' xs = waiting S xs" by (rule waiting_cong) (use x(3) in \<open>auto simp: put_sends_def\<close>)
  then show ?thesis using q i x(1) by (auto simp: rest_of_def put_sends_def same_boxes_def)
qed

lemma add_new_message:
  assumes inv: "send_inv c S xs" and con: "connected q c (sn_sys S)" and n: "unat n < length (sn_data S m)" and al: "sn_alloc S = a # al"
  shows "\<exists>x S'. of_add_2_epoll_4_wr_event e c m True n S = Some S' \<and> send_inv c S' (xs @ [x]) \<and>
    waiting S' (xs @ [x]) = waiting S xs @ drop (unat n) (sn_data S m) \<and> sn_alloc S' = al \<and> connected q c (sn_sys S') \<and>
    sn_net S' = sn_net S \<and> sn_wire S' = sn_wire S \<and> sn_data S' = sn_data S \<and> same_boxes S S' \<and>
    (se_same_thread e \<and> se_modify_ok e \<longrightarrow> sn_wr S' c)"
proof -
  obtain x S1 where q: "queue_msg c m n S = Some (True, S1)" "send_inv c S1 (xs @ [x])"
    "waiting S1 (xs @ [x]) = waiting S xs @ drop (unat n) (sn_data S m)" "sn_alloc S1 = al" "sn_sys S1 = sn_sys S"
    "sn_net S1 = sn_net S" "sn_wire S1 = sn_wire S" "sn_data S1 = sn_data S" "same_boxes S S1"
    using queue_msg_result[OF inv n al] by blast
  have con1: "connected q c (sn_sys S1)" using con q(5) by simp
  obtain S' where S': "of_add_2_epoll_4_wr_event e c m False n S1 = Some S'" "poked q c S1 S'"
    "se_same_thread e \<and> se_modify_ok e \<longrightarrow> sn_wr S' c"
    using add_to_epoll[OF con1] by blast
  have "of_add_2_epoll_4_wr_event e c m True n S = Some S'" using S'(1) q(1) by (simp add: of_add_2_epoll_4_wr_event_def)
  moreover have "send_inv c S' (xs @ [x])" using send_inv_cong q(2) poked_fields[OF S'(2)] by metis
  moreover have "waiting S' (xs @ [x]) = waiting S1 (xs @ [x])" by (rule waiting_cong) (simp_all add: poked_fields[OF S'(2)])
  ultimately show ?thesis using q S'(3) poked_fields[OF S'(2)] by (intro exI[of _ x] exI[of _ S']) (simp add: same_boxes_def)
qed
section \<open>The bytes sent are those given, in order\<close>

lemma written_fields:
  assumes "written q c bs S S'"
  shows "sn_links S' = sn_links S" "sn_list S' = sn_list S" "sn_bufs S' = sn_bufs S" "sn_data S' = sn_data S"
    "sn_alloc S' = sn_alloc S" "sn_wire S' c = sn_wire S c @ bs" "sn_released S' = sn_released S" "sn_freed S' = sn_freed S"
    "calm q c S'" "connected q c (sn_sys S')" "same_boxes S S'"
  using assms by (auto simp: written_def calm_def same_boxes_def)

lemma calm_cong: "connected q c (sn_sys S') \<Longrightarrow> sn_net S' = sn_net S \<Longrightarrow> calm q c S \<Longrightarrow> calm q c S'"
  by (simp add: calm_def)

lemma list_empty_iff:
  assumes "send_inv c S xs" shows "ol_count (sn_list S c) > 0 \<longleftrightarrow> xs \<noteq> []"
proof -
  have "ol_exact (lst c S) xs" using assms by (simp add: send_inv_def)
  then have "ol_count (sn_list S c) = of_nat (length xs)" "distinct xs" "\<forall>x\<in>set xs. node_ok x"
    by (auto simp: ol_exact_def ol_cnt_def ol_rep_def lst_def)
  then show ?thesis using count_zero_iff[of xs] by (simp add: word_gt_0)
qed

lemma unat_of_nat_u16: "n < 65536 \<Longrightarrow> unat (of_nat n :: u16) = n"
  by (simp add: unsigned_of_nat take_bit_nat_eq_self)

text \<open>A kernel with room for the whole message.\<close>

lemma send_to_xprt_all:
  assumes "calm q c S" "sn_net S c = Tx k # r" "unat off < length (sn_data S m)" "length (sn_data S m) < 65536"
    "length (sn_data S m) - unat off \<le> k"
  shows "\<exists>again S'. of_send_msg_to_xprt e c m off S = Some (OF_SUCCESS, of_nat (length (sn_data S m) - unat off), again, S') \<and>
    written q c (drop (unat off) (sn_data S m)) S S' \<and> sn_net S' c = r"
proof -
  obtain ret n again S' where w: "of_send_msg_to_xprt e c m off S = Some (ret, of_nat n, again, S')"
    "written q c (take n (drop (unat off) (sn_data S m))) S S'"
    "ret = OF_SUCCESS \<and> n = length (sn_data S m) - unat off \<or> ret = OF_FAILURE \<and> again"
    using send_to_xprt_result[OF assms(1) less_imp_le[OF assms(3)] assms(4), of e] by blast
  have d: "ch_trnsprt_fd (cs_chan (sn_sys S) c) \<noteq> -1" using assms(1) by (simp add: calm_def connected_def)
  have "\<not> again \<and> sn_net S' c = r"
    using w(1) d assms(2,3,5) by (auto simp: of_send_msg_to_xprt_def tcp_transport_write_data_def Let_def bind_eq_Some_conv)
  then show ?thesis using w by auto
qed

lemma send_new:
  assumes inv: "send_inv c S xs" and calm: "calm q c S" and m: "sn_data S m \<noteq> []" and al: "sn_alloc S = a # al"
  shows "\<exists>S' xs'. cntlr_tnsprt_send_msg_to_dp_channel e c m True 0 S = Some (OF_SUCCESS, S') \<and> send_inv c S' xs' \<and>
    calm q c S' \<and> sn_wire S' c @ waiting S' xs' = sn_wire S c @ waiting S xs @ sn_data S m \<and> sn_data S' = sn_data S \<and>
    sn_alloc S' \<in> {a # al, al} \<and> same_boxes S S' \<and> length xs' \<le> Suc (length xs) \<and>
    (se_same_thread e \<and> se_modify_ok e \<and> xs' \<noteq> [] \<longrightarrow> sn_wr S' c) \<and>
    (\<forall>k r. xs = [] \<and> sn_net S c = Tx k # r \<and> 65535 \<le> k \<longrightarrow> xs' = [] \<and> sn_net S' c = r)"
proof (cases "xs = []")
  case False
  then have cnt: "ol_count (sn_list S c) > 0" using list_empty_iff[OF inv] by simp
  obtain x S' where S': "of_add_2_epoll_4_wr_event e c m True 0 S = Some S'" "send_inv c S' (xs @ [x])"
    "waiting S' (xs @ [x]) = waiting S xs @ drop (unat (0 :: u16)) (sn_data S m)" "sn_alloc S' = al" "connected q c (sn_sys S')"
    "sn_net S' = sn_net S" "sn_wire S' = sn_wire S" "sn_data S' = sn_data S" "same_boxes S S'"
    "se_same_thread e \<and> se_modify_ok e \<longrightarrow> sn_wr S' c"
    using add_new_message[OF inv _ _ al, of q 0 m e] calm m by (auto simp: calm_def)
  have "calm q c S'" by (rule calm_cong[OF S'(5,6) calm])
  then show ?thesis using S' cnt False by (intro exI[of _ S'] exI[of _ "xs @ [x]"]) (simp add: cntlr_tnsprt_send_msg_to_dp_channel_def)
next
  case True
  let ?L = "length (sn_data S m)"
  have cnt: "\<not> ol_count (sn_list S c) > 0" using True list_empty_iff[OF inv] by simp
  have L: "?L < 65536" using inv by (simp add: send_inv_def)
  obtain ret n again S1 where w: "of_send_msg_to_xprt e c m 0 S = Some (ret, of_nat n, again, S1)" "n \<le> ?L"
    "written q c (take n (sn_data S m)) S S1"
    "ret = OF_SUCCESS \<and> n = ?L \<or> ret = OF_FAILURE \<and> again \<and> n < ?L"
    using send_to_xprt_result[OF calm, of 0 m e] L m by auto
  note f = written_fields[OF w(3)]
  have inv1: "send_inv c S1 []" using inv f True by (simp add: send_inv_cong[of S1 S c])
  have u: "unat (of_nat n :: u16) = n" using w(2) L by (intro unat_of_nat_u16) simp
  have room: "n = ?L \<and> sn_net S1 c = r" if k: "sn_net S c = Tx k # r" "65535 \<le> k" for k r
  proof -
    have z: "unat (0 :: u16) < ?L" "?L - unat (0 :: u16) \<le> k" using m L k(2) by auto
    obtain again' S2 where "of_send_msg_to_xprt e c m 0 S = Some (OF_SUCCESS, of_nat ?L, again', S2)" "sn_net S2 c = r"
      using send_to_xprt_all[OF calm k(1) z(1) L z(2), of e] by auto
    then show ?thesis using w(1,4) by auto
  qed
  show ?thesis
  proof (cases "n = ?L")
    case full: True
    let ?S' = "of_check_pkt_mbuf_and_free m S1"
    have "cntlr_tnsprt_try_2_send_msg_on_line e c m True 0 S = Some (OF_SUCCESS, Some (of_nat n), ?S')"
      using w full u f(4) by (auto simp: cntlr_tnsprt_try_2_send_msg_on_line_def)
    then show ?thesis using cnt inv1 f full True al room
      by (intro exI[of _ ?S'] exI[of _ "[]"])
        (simp add: cntlr_tnsprt_send_msg_to_dp_channel_def of_check_pkt_mbuf_and_free_def calm_def send_inv_def lst_def same_boxes_def)
  next
    case part: False
    obtain x S' where S': "of_add_2_epoll_4_wr_event e c m True (of_nat n) S1 = Some S'" "send_inv c S' [x]"
      "waiting S' [x] = drop n (sn_data S m)" "sn_alloc S' = al" "connected q c (sn_sys S')"
      "sn_net S' = sn_net S1" "sn_wire S' = sn_wire S1" "sn_data S' = sn_data S" "same_boxes S1 S'"
      "se_same_thread e \<and> se_modify_ok e \<longrightarrow> sn_wr S' c"
      using add_new_message[OF inv1 f(10), of "of_nat n" m a al e] part w(2) u al f(4,5) by auto
    have "cntlr_tnsprt_try_2_send_msg_on_line e c m True 0 S = Some (OF_SUCCESS, Some (of_nat n), S')"
      using w(1,2,4) part u f(4) S'(1) by (auto simp: cntlr_tnsprt_try_2_send_msg_on_line_def)
    moreover have "calm q c S'" by (rule calm_cong[OF S'(5,6) f(9)])
    moreover have "\<not> (sn_net S c = Tx k # r \<and> 65535 \<le> k)" for k r using part room by blast
    ultimately show ?thesis using cnt S' True f(6,11)
      by (intro exI[of _ S'] exI[of _ "[x]"]) (simp add: cntlr_tnsprt_send_msg_to_dp_channel_def same_boxes_def)
  qed
qed

text \<open>One round of the loop over the waiting messages: it goes on when the whole rest was sent, and it
  releases the message only if nothing of it had been sent before.\<close>

lemma flush_step_result:
  fixes x c S
  defines "m \<equiv> sb_msg (sn_bufs S x)" and "off \<equiv> sb_length_sent (sn_bufs S x)"
  assumes inv: "send_inv c S (x # xs)"
    and w: "of_send_msg_to_xprt e c m off S = Some (ret, of_nat n, again, S1)" "n \<le> length (rest_of S x)"
    "written q c (take n (rest_of S x)) S S1"
    "ret = OF_SUCCESS \<and> n = length (rest_of S x) \<or> ret = OF_FAILURE \<and> again \<and> n < length (rest_of S x)"
  shows "\<exists>S'. flush_step e c x len S = Some (n = length (rest_of S x), of_nat n, S') \<and> calm q c S' \<and>
    sn_links S' = sn_links S \<and> sn_list S' = sn_list S \<and> sn_data S' = sn_data S \<and> sn_alloc S' = sn_alloc S \<and>
    sn_bufs S' = (sn_bufs S)(x := \<lparr>sb_length_sent = off + of_nat n, sb_msg = m\<rparr>) \<and> sn_net S' = sn_net S1 \<and>
    sn_wire S' c = sn_wire S c @ take n (rest_of S x) \<and>
    sn_released S' = (if ret = OF_SUCCESS \<and> off = 0 then sn_released S @ [m] else sn_released S)"
proof -
  let ?L = "length (sn_data S m)"
  note f = written_fields[OF w(3)]
  have L: "?L < 65536" "unat off < ?L" using inv by (auto simp: send_inv_def m_def off_def)
  have r: "length (rest_of S x) = ?L - unat off" by (simp add: rest_of_def m_def off_def)
  have u: "unat (of_nat n :: u16) = n" using w(2) L r by (intro unat_of_nat_u16) simp
  have u2: "unat (off + of_nat n) = unat off + n"
    using w(2) L r u by (subst unat_plus_simple[THEN iffD1]) (auto simp: no_olen_add_nat)
  have z: "(of_nat n :: u16) = 0 \<longleftrightarrow> n = 0" using u by (auto simp: word_unat_eq_iff)
  obtain S2 where S2: "cntlr_tnsprt_try_2_send_msg_on_line e c m False off S = Some (OF_SUCCESS, Some (of_nat n), S2)"
    "calm q c S2" "sn_links S2 = sn_links S" "sn_list S2 = sn_list S" "sn_data S2 = sn_data S" "sn_alloc S2 = sn_alloc S"
    "sn_bufs S2 = sn_bufs S" "sn_net S2 = sn_net S1" "sn_wire S2 = sn_wire S1"
    "sn_released S2 = (if ret = OF_SUCCESS \<and> off = 0 then sn_released S @ [m] else sn_released S)"
  proof (cases "ret = OF_SUCCESS \<and> off = 0")
    case True
    then have "n = ?L" using w(4) r by auto
    then have "cntlr_tnsprt_try_2_send_msg_on_line e c m False off S = Some (OF_SUCCESS, Some (of_nat n), of_check_pkt_mbuf_and_free m S1)"
      using w(1) True u f(4) by (auto simp: cntlr_tnsprt_try_2_send_msg_on_line_def)
    then show ?thesis using True f by (intro that[of "of_check_pkt_mbuf_and_free m S1"]) (simp_all add: of_check_pkt_mbuf_and_free_def calm_def)
  next
    case False
    have "unat off \<noteq> 0 \<or> n < ?L" using False w(4) r by (auto simp: unat_eq_zero)
    then have n: "n < ?L" using w(2) r L by auto
    obtain S2 where S2: "of_add_2_epoll_4_wr_event e c m False (of_nat n) S1 = Some S2" "poked q c S1 S2"
      using add_to_epoll[OF f(10)] by blast
    have "cntlr_tnsprt_try_2_send_msg_on_line e c m False off S = Some (OF_SUCCESS, Some (of_nat n), S2)"
      using w(1,4) n u f(4) S2(1) by (auto simp: cntlr_tnsprt_try_2_send_msg_on_line_def)
    moreover have "calm q c S2" by (rule calm_cong[OF poked_fields(10)[OF S2(2)] poked_fields(6)[OF S2(2)] f(9)])
    ultimately show ?thesis using False f poked_fields[OF S2(2)] by (intro that[of S2]) simp_all
  qed
  have upd: "(sn_bufs S)(x := (sn_bufs S x)\<lparr>sb_length_sent := off + of_nat n\<rparr>) = (sn_bufs S)(x := \<lparr>sb_length_sent = off + of_nat n, sb_msg = m\<rparr>)"
    by (cases "sn_bufs S x") (simp add: m_def)
  show ?thesis
  proof (cases "n = 0")
    case True
    then have nf: "n \<noteq> length (rest_of S x)" using r L by simp
    have "flush_step e c x len S = Some (False, 0, S2)"
      using S2(1,5) True L z by (auto simp: flush_step_def m_def[symmetric] off_def[symmetric] Let_def)
    moreover have "(sn_bufs S)(x := \<lparr>sb_length_sent = off, sb_msg = m\<rparr>) = sn_bufs S"
      by (cases "sn_bufs S x") (auto simp: m_def off_def)
    ultimately show ?thesis using S2 f(6) nf True by (intro exI[of _ S2]) simp
  next
    case False
    let ?S' = "S2\<lparr>sn_bufs := (sn_bufs S)(x := (sn_bufs S x)\<lparr>sb_length_sent := off + of_nat n\<rparr>)\<rparr>"
    have "flush_step e c x len S = Some (unat off + n = ?L, of_nat n, ?S')"
      using S2(1,5,7) False L z u2 by (auto simp: flush_step_def m_def[symmetric] off_def[symmetric] Let_def)
    moreover have "unat off + n = ?L \<longleftrightarrow> n = length (rest_of S x)" using r L by auto
    ultimately show ?thesis using S2 f(6) upd by (intro exI[of _ ?S']) (simp add: calm_def)
  qed
qed
lemma drop_head_result:
  assumes "ol_exact (lst c S) (x # xs)" "\<not> ol_free_cbk (sn_list S c)"
  shows "\<exists>S' l. drop_head c S = Some S' \<and> S' = S\<lparr>sn_list := (sn_list S)(c := l), sn_freed := sn_freed S @ [x]\<rparr> \<and>
    ol_exact (lst c S') xs \<and> \<not> ol_free_cbk l"
proof -
  obtain l' where l': "of_list_drop_head (lst c S, sn_freed S) = Some (l', sn_freed S @ [x])" "ol_exact l' xs"
    "\<not> ol_free_cbk (fst (snd l'))" "snd (snd l') = []"
    using ol_drop_head[OF assms(1), of "sn_freed S"] assms(2) by (auto simp: lst_def)
  have nx: "fst l' = sn_links S"
    using l'(1) by (auto simp: of_list_drop_head_def lst_def Let_def split: option.splits if_splits)
  let ?S' = "S\<lparr>sn_list := (sn_list S)(c := fst (snd l')), sn_freed := sn_freed S @ [x]\<rparr>"
  have "drop_head c S = Some ?S'" using l'(1) nx by (simp add: drop_head_def put_sends_def)
  moreover have "lst c ?S' = l'" using nx l'(4) by (cases l') (simp add: lst_def)
  ultimately show ?thesis using l'(2,3) by (intro exI[of _ ?S'] exI[of _ "fst (snd l')"]) simp
qed

text \<open>After a round that sent the whole rest, the head is removed.\<close>

lemma flush_next:
  assumes inv: "send_inv c S (x # xs)"
    and S1: "sn_links S1 = sn_links S" "sn_list S1 = sn_list S" "sn_data S1 = sn_data S" "sn_alloc S1 = sn_alloc S"
      "sn_bufs S1 = (sn_bufs S)(x := b)"
  shows "\<exists>S2. drop_head c S1 = Some S2 \<and> send_inv c S2 xs \<and> waiting S2 xs = waiting S xs \<and> sn_sys S2 = sn_sys S1 \<and>
    sn_net S2 = sn_net S1 \<and> sn_wire S2 = sn_wire S1 \<and> sn_data S2 = sn_data S \<and> sn_alloc S2 = sn_alloc S \<and>
    sn_released S2 = sn_released S1 \<and> (\<forall>y\<in>set xs. sn_bufs S2 y = sn_bufs S y)"
proof -
  have ex: "ol_exact (lst c S) (x # xs)" "\<not> ol_free_cbk (sn_list S c)" using inv by (auto simp: send_inv_def)
  then have nx: "x \<notin> set xs" by (auto simp: ol_exact_def ol_rep_def split: prod.splits)
  have "lst c S1 = lst c S" using S1 by (simp add: lst_def)
  then obtain S2 l where S2: "drop_head c S1 = Some S2" "S2 = S1\<lparr>sn_list := (sn_list S1)(c := l), sn_freed := sn_freed S1 @ [x]\<rparr>"
    "ol_exact (lst c S2) xs" "\<not> ol_free_cbk l"
    using drop_head_result[of c S1 x xs] ex S1(2) by auto
  have bufs: "\<forall>y\<in>set xs. sn_bufs S2 y = sn_bufs S y" using S2(2) S1(5) nx by auto
  have "send_inv c S2 xs"
    unfolding send_inv_def using inv S2 S1 bufs by (auto simp: send_inv_def)
  moreover have "waiting S2 xs = waiting S xs" by (rule waiting_cong) (use bufs S2(2) S1(3) in auto)
  ultimately show ?thesis using S2 S1 bufs by (intro exI[of _ S2]) auto
qed

lemma list_head:
  assumes "send_inv c S xs" shows "ol_head (sn_list S c) = (case xs of [] \<Rightarrow> None | x # _ \<Rightarrow> Some x)"
  using assms lseg_start by (auto simp: send_inv_def ol_exact_def ol_rep_def lst_def)

lemma flush_loop_result:
  "send_inv c S xs \<Longrightarrow> calm q c S \<Longrightarrow> \<exists>S' ys zs. flush_loop e c len S = Some S' \<and> xs = ys @ zs \<and> send_inv c S' zs \<and> calm q c S' \<and>
     sn_wire S' c @ waiting S' zs = sn_wire S c @ waiting S xs \<and> sn_data S' = sn_data S \<and> sn_alloc S' = sn_alloc S"
proof (induction xs arbitrary: S len)
  case Nil
  then have "flush_loop e c len S = Some S" using list_head[OF Nil.prems(1)] by (subst flush_loop.simps) simp
  then show ?case using Nil.prems by (intro exI[of _ S]) simp
next
  case (Cons x xs)
  let ?m = "sb_msg (sn_bufs S x)" let ?off = "sb_length_sent (sn_bufs S x)"
  note inv = Cons.prems(1) and calm = Cons.prems(2)
  have hd: "ol_head (sn_list S c) = Some x" using list_head[OF inv] by simp
  have L: "length (sn_data S ?m) < 65536" "unat ?off < length (sn_data S ?m)" using inv by (auto simp: send_inv_def)
  obtain ret n again S1 where w: "of_send_msg_to_xprt e c ?m ?off S = Some (ret, of_nat n, again, S1)" "n \<le> length (rest_of S x)"
    "written q c (take n (rest_of S x)) S S1"
    "ret = OF_SUCCESS \<and> n = length (rest_of S x) \<or> ret = OF_FAILURE \<and> again \<and> n < length (rest_of S x)"
    using send_to_xprt_result[OF calm, of ?off ?m e] L by (auto simp: rest_of_def)
  obtain S2 where S2: "flush_step e c x len S = Some (n = length (rest_of S x), of_nat n, S2)" "calm q c S2"
    "sn_links S2 = sn_links S" "sn_list S2 = sn_list S" "sn_data S2 = sn_data S" "sn_alloc S2 = sn_alloc S"
    "sn_bufs S2 = (sn_bufs S)(x := \<lparr>sb_length_sent = ?off + of_nat n, sb_msg = ?m\<rparr>)"
    "sn_wire S2 c = sn_wire S c @ take n (rest_of S x)"
    using flush_step_result[OF inv w] by blast
  show ?case
  proof (cases "n = length (rest_of S x)")
    case True
    obtain S3 where S3: "drop_head c S2 = Some S3" "send_inv c S3 xs" "waiting S3 xs = waiting S xs" "sn_sys S3 = sn_sys S2"
      "sn_net S3 = sn_net S2" "sn_wire S3 = sn_wire S2" "sn_data S3 = sn_data S" "sn_alloc S3 = sn_alloc S"
      using flush_next[OF inv S2(3-7)] by blast
    have "calm q c S3" using S2(2) S3(4,5) by (simp add: calm_def)
    then obtain S' ys zs where S': "flush_loop e c (Some (of_nat n)) S3 = Some S'" "xs = ys @ zs" "send_inv c S' zs" "calm q c S'"
      "sn_wire S' c @ waiting S' zs = sn_wire S3 c @ waiting S3 xs" "sn_data S' = sn_data S3" "sn_alloc S' = sn_alloc S3"
      using Cons.IH[OF S3(2)] by blast
    have "flush_loop e c len S = Some S'" using hd S2(1) S3(1) S'(1) True by (subst flush_loop.simps) simp
    then show ?thesis using S' S3 S2 True by (intro exI[of _ S'] exI[of _ "x # ys"] exI[of _ zs]) simp
  next
    case False
    have "\<forall>y\<in>set xs. y \<noteq> x" using inv by (auto simp: send_inv_def ol_exact_def ol_rep_def lst_def)
    then have wt: "waiting S2 xs = waiting S xs" using S2(5,7) by (intro waiting_cong) auto
    have n: "n < length (sn_data S ?m) - unat ?off" using False w(2) by (simp add: rest_of_def)
    have u: "unat (?off + of_nat n) = unat ?off + n"
      using n L by (subst unat_plus_simple[THEN iffD1]) (auto simp: no_olen_add_nat unat_of_nat_u16)
    have "send_inv c S2 (x # xs)" using inv S2(3-7) n u \<open>\<forall>y\<in>set xs. y \<noteq> x\<close> by (auto simp: send_inv_def lst_def)
    moreover have spl: "take n (rest_of S x) @ rest_of S2 x = rest_of S x"
    proof -
      have "rest_of S2 x = drop n (rest_of S x)" using S2(5,7) u by (simp add: rest_of_def add.commute)
      then show ?thesis by simp
    qed
    moreover have "flush_loop e c len S = Some S2" using hd S2(1) False by (subst flush_loop.simps) simp
    moreover have "sn_wire S2 c @ waiting S2 (x # xs) = sn_wire S c @ waiting S (x # xs)"
      using S2(8) wt spl by (metis append.assoc waiting_simps(2))
    ultimately show ?thesis using S2(2,5,6)
      by (intro exI[of _ S2] exI[of _ "[]"] exI[of _ "x # xs"]) simp
  qed
qed

section \<open>Any sequence of sends and write events\<close>

datatype send_op = Send addr | Flush

fun send_exec :: "send_env \<Rightarrow> addr \<Rightarrow> send_op \<Rightarrow> send_sys \<Rightarrow> send_sys option" where
  "send_exec e c (Send m) S = map_option snd (cntlr_tnsprt_send_msg_to_dp_channel e c m True 0 S)"
| "send_exec e c Flush S = of_send_all_msgs_waiting_on_chn_to_dp e c S"

primrec send_run :: "send_env \<Rightarrow> addr \<Rightarrow> send_op list \<Rightarrow> send_sys \<Rightarrow> send_sys option" where
  "send_run e c [] S = Some S"
| "send_run e c (x # xs) S = Option.bind (send_exec e c x S) (send_run e c xs)"

fun op_bytes :: "send_sys \<Rightarrow> send_op \<Rightarrow> u8 list" where
  "op_bytes S (Send m) = sn_data S m" | "op_bytes S Flush = []"

lemma record_call_inv:
  assumes "send_inv c S xs" "calm q c S" "S' = (record_call x S)\<lparr>sn_wr := w\<rparr>"
  shows "send_inv c S' xs \<and> calm q c S' \<and> waiting S' xs = waiting S xs"
proof -
  have "send_inv c S' xs" using assms by (simp add: record_call_def send_inv_def lst_def)
  moreover have "waiting S' xs = waiting S xs" by (rule waiting_cong) (simp_all add: assms(3) record_call_def)
  ultimately show ?thesis using assms(2,3) by (simp add: calm_def record_call_def)
qed

lemma flush_result:
  assumes "send_inv c S xs" "calm q c S"
  shows "\<exists>S' zs. of_send_all_msgs_waiting_on_chn_to_dp e c S = Some S' \<and> send_inv c S' zs \<and> calm q c S' \<and>
     sn_wire S' c @ waiting S' zs = sn_wire S c @ waiting S xs \<and> sn_data S' = sn_data S \<and> sn_alloc S' = sn_alloc S"
proof -
  obtain S1 zs where S1: "flush_loop e c None S = Some S1" "send_inv c S1 zs" "calm q c S1"
    "sn_wire S1 c @ waiting S1 zs = sn_wire S c @ waiting S xs" "sn_data S1 = sn_data S" "sn_alloc S1 = sn_alloc S"
    using flush_loop_result[OF assms] by blast
  let ?S' = "(record_call (Epoll_modify (ch_trnsprt_fd (cs_chan (sn_sys S1) c)) False) S1)\<lparr>sn_wr := (sn_wr S1)(c := False)\<rparr>"
  have r: "send_inv c ?S' zs \<and> calm q c ?S' \<and> waiting ?S' zs = waiting S1 zs"
    by (rule record_call_inv[OF S1(2,3)]) (simp add: record_call_def)
  show ?thesis
  proof (cases "ol_count (sn_list S1 c) = 0")
    case True
    then show ?thesis using S1 r
      by (intro exI[of _ ?S'] exI[of _ zs]) (simp add: of_send_all_msgs_waiting_on_chn_to_dp_def record_call_def)
  next
    case False
    then show ?thesis using S1 by (intro exI[of _ S1] exI[of _ zs]) (simp add: of_send_all_msgs_waiting_on_chn_to_dp_def)
  qed
qed

lemma send_exec_result:
  assumes "send_inv c S xs" "calm q c S" "sn_alloc S \<noteq> []" "\<forall>m. opn = Send m \<longrightarrow> sn_data S m \<noteq> []"
  shows "\<exists>S' zs. send_exec e c opn S = Some S' \<and> send_inv c S' zs \<and> calm q c S' \<and>
     sn_wire S' c @ waiting S' zs = sn_wire S c @ waiting S xs @ op_bytes S opn \<and> sn_data S' = sn_data S \<and>
     length (sn_alloc S) \<le> Suc (length (sn_alloc S'))"
proof (cases opn)
  case (Send m)
  obtain a al where al: "sn_alloc S = a # al" using assms(3) by (cases "sn_alloc S") auto
  show ?thesis using send_new[OF assms(1,2) _ al, of m e] assms(4) al unfolding Send by fastforce
next
  case Flush
  show ?thesis using flush_result[OF assms(1,2), of e] unfolding Flush by fastforce
qed

text \<open>C11: Whatever part of each message the kernel accepts at a time, no byte is lost, repeated or
  reordered: after any sequence of sends and write events the bytes on the wire followed by those that
  wait are the ones that were there before followed by the messages sent, in order. Nothing gets stuck.\<close>

theorem chan_send_stream:
  assumes "send_inv c S xs" "calm q c S" "length ops \<le> length (sn_alloc S)" "\<forall>m. Send m \<in> set ops \<longrightarrow> sn_data S m \<noteq> []"
  shows "\<exists>S' zs. send_run e c ops S = Some S' \<and> send_inv c S' zs \<and>
    sn_wire S' c @ waiting S' zs = sn_wire S c @ waiting S xs @ concat (map (op_bytes S) ops)"
  using assms
proof (induction ops arbitrary: S xs)
  case Nil
  then show ?case by auto
next
  case (Cons opn ops)
  obtain S1 zs where S1: "send_exec e c opn S = Some S1" "send_inv c S1 zs" "calm q c S1"
    "sn_wire S1 c @ waiting S1 zs = sn_wire S c @ waiting S xs @ op_bytes S opn" "sn_data S1 = sn_data S"
    "length (sn_alloc S) \<le> Suc (length (sn_alloc S1))"
    using send_exec_result[OF Cons.prems(1,2), of opn e] Cons.prems(3,4) by fastforce
  have ob: "op_bytes S1 = op_bytes S"
  proof
    fix y show "op_bytes S1 y = op_bytes S y" using S1(5) by (cases y) simp_all
  qed
  have "length ops \<le> length (sn_alloc S1)" using Cons.prems(3) S1(6) by simp
  then obtain S' zs' where "send_run e c ops S1 = Some S'" "send_inv c S' zs'"
    "sn_wire S' c @ waiting S' zs' = sn_wire S1 c @ waiting S1 zs @ concat (map (op_bytes S1) ops)"
    using Cons.IH[OF S1(2,3)] Cons.prems(4) S1(5) by fastforce
  then show ?case using S1(1,4) ob by (intro exI[of _ S'] exI[of _ zs']) (simp flip: append_assoc)
qed
section \<open>A flush that sends everything\<close>

lemma flush_loop_all:
  "send_inv c S xs \<Longrightarrow> calm q c S \<Longrightarrow> sn_net S c = map Tx ks @ r \<Longrightarrow> length xs \<le> length ks \<Longrightarrow> \<forall>k\<in>set ks. 65535 \<le> k \<Longrightarrow>
   \<exists>S'. flush_loop e c len S = Some S' \<and> send_inv c S' [] \<and> calm q c S' \<and> sn_wire S' c = sn_wire S c @ waiting S xs \<and>
     sn_released S' = sn_released S @ map (\<lambda>x. sb_msg (sn_bufs S x)) (filter (\<lambda>x. sb_length_sent (sn_bufs S x) = 0) xs)"
proof (induction xs arbitrary: S len ks)
  case Nil
  then have "flush_loop e c len S = Some S" using list_head[OF Nil.prems(1)] by (subst flush_loop.simps) simp
  then show ?case using Nil.prems by (intro exI[of _ S]) simp
next
  case (Cons x xs)
  let ?m = "sb_msg (sn_bufs S x)" let ?off = "sb_length_sent (sn_bufs S x)"
  note inv = Cons.prems(1) and calm = Cons.prems(2)
  have hd: "ol_head (sn_list S c) = Some x" using list_head[OF inv] by simp
  have L: "length (sn_data S ?m) < 65536" "unat ?off < length (sn_data S ?m)" using inv by (auto simp: send_inv_def)
  obtain k ks' where ks: "ks = k # ks'" using Cons.prems(4) by (cases ks) auto
  have k: "length (sn_data S ?m) - unat ?off \<le> k" using L(1) Cons.prems(5) ks by auto
  obtain again S1 where w: "of_send_msg_to_xprt e c ?m ?off S = Some (OF_SUCCESS, of_nat (length (rest_of S x)), again, S1)"
    "written q c (rest_of S x) S S1" "sn_net S1 c = map Tx ks' @ r"
    using send_to_xprt_all[OF calm _ L(2,1) k, of "map Tx ks' @ r" e] Cons.prems(3) ks by (auto simp: rest_of_def)
  have w': "written q c (take (length (rest_of S x)) (rest_of S x)) S S1" using w(2) by simp
  obtain S2 where S2: "flush_step e c x len S = Some (True, of_nat (length (rest_of S x)), S2)" "calm q c S2"
    "sn_links S2 = sn_links S" "sn_list S2 = sn_list S" "sn_data S2 = sn_data S" "sn_alloc S2 = sn_alloc S"
    "sn_bufs S2 = (sn_bufs S)(x := \<lparr>sb_length_sent = ?off + of_nat (length (rest_of S x)), sb_msg = ?m\<rparr>)" "sn_net S2 = sn_net S1"
    "sn_wire S2 c = sn_wire S c @ rest_of S x"
    "sn_released S2 = (if ?off = 0 then sn_released S @ [?m] else sn_released S)"
    using flush_step_result[OF inv w(1) order.refl w', of len] by auto
  obtain S3 where S3: "drop_head c S2 = Some S3" "send_inv c S3 xs" "waiting S3 xs = waiting S xs" "sn_sys S3 = sn_sys S2"
    "sn_net S3 = sn_net S2" "sn_wire S3 = sn_wire S2" "sn_released S3 = sn_released S2" "\<forall>y\<in>set xs. sn_bufs S3 y = sn_bufs S y"
    using flush_next[OF inv S2(3-7)] by blast
  have "calm q c S3" using S2(2) S3(4,5) by (simp add: calm_def)
  then obtain S' where S': "flush_loop e c (Some (of_nat (length (rest_of S x)))) S3 = Some S'" "send_inv c S' []" "calm q c S'"
    "sn_wire S' c = sn_wire S3 c @ waiting S3 xs"
    "sn_released S' = sn_released S3 @ map (\<lambda>x. sb_msg (sn_bufs S3 x)) (filter (\<lambda>x. sb_length_sent (sn_bufs S3 x) = 0) xs)"
    using Cons.IH[OF S3(2) _ _ _, of ks' "Some (of_nat (length (rest_of S x)))"] S3(5) S2(8) w(3) Cons.prems(4,5) ks by auto
  have "map (\<lambda>x. sb_msg (sn_bufs S3 x)) (filter (\<lambda>x. sb_length_sent (sn_bufs S3 x) = 0) xs) =
      map (\<lambda>x. sb_msg (sn_bufs S x)) (filter (\<lambda>x. sb_length_sent (sn_bufs S x) = 0) xs)"
    using S3(8) by (intro map_cong filter_cong) auto
  moreover have "flush_loop e c len S = Some S'" using hd S2(1) S3(1) S'(1) by (subst flush_loop.simps) simp
  ultimately show ?case using S' S3 S2 by (intro exI[of _ S']) simp
qed

lemma flush_drains:
  assumes "send_inv c S xs" "calm q c S" "sn_net S c = map Tx ks @ r" "length xs \<le> length ks" "\<forall>k\<in>set ks. 65535 \<le> k"
  shows "\<exists>S'. of_send_all_msgs_waiting_on_chn_to_dp e c S = Some S' \<and> ol_exact (lst c S') [] \<and> \<not> sn_wr S' c \<and>
    sn_wire S' c = sn_wire S c @ waiting S xs \<and>
    sn_released S' = sn_released S @ map (\<lambda>x. sb_msg (sn_bufs S x)) (filter (\<lambda>x. sb_length_sent (sn_bufs S x) = 0) xs)"
proof -
  obtain S1 where S1: "flush_loop e c None S = Some S1" "send_inv c S1 []" "calm q c S1" "sn_wire S1 c = sn_wire S c @ waiting S xs"
    "sn_released S1 = sn_released S @ map (\<lambda>x. sb_msg (sn_bufs S x)) (filter (\<lambda>x. sb_length_sent (sn_bufs S x) = 0) xs)"
    using flush_loop_all[OF assms] by blast
  have "ol_count (sn_list S1 c) = 0" using list_empty_iff[OF S1(2)] by (simp add: word_gt_0)
  then show ?thesis using S1 by (simp add: of_send_all_msgs_waiting_on_chn_to_dp_def record_call_def send_inv_def lst_def)
qed

text \<open>C14: When the kernel accepts every message whole, a write event sends all that waits, empties the list
  and stops waiting for the socket. Of the messages sent only those are released of which nothing had been
  sent before: a message that was sent in two parts is never released.\<close>

theorem chan_flush_drains:
  assumes "send_inv c S xs" "calm q c S" "sn_net S c = map Tx ks @ r" "length xs \<le> length ks" "\<forall>k\<in>set ks. 65535 \<le> k"
  shows "\<exists>S'. of_send_all_msgs_waiting_on_chn_to_dp e c S = Some S' \<and> ol_exact (lst c S') [] \<and> \<not> sn_wr S' c \<and>
    sn_wire S' c = sn_wire S c @ waiting S xs \<and>
    sn_released S' = sn_released S @ map (\<lambda>x. sb_msg (sn_bufs S x)) (filter (\<lambda>x. sb_length_sent (sn_bufs S x) = 0) xs)"
  by (rule flush_drains[OF assms])

text \<open>A hard error of the socket on the first waiting message makes the loop read a length that was
  never written.\<close>

theorem chan_flush_hard_error:
  assumes "send_inv c S (x # xs)" "connected q c (sn_sys S)" "sn_net S c = Tx_error # r"
  shows "of_send_all_msgs_waiting_on_chn_to_dp e c S = None"
proof -
  let ?m = "sb_msg (sn_bufs S x)" let ?off = "sb_length_sent (sn_bufs S x)"
  have L: "unat ?off < length (sn_data S ?m)" using assms(1) by (auto simp: send_inv_def)
  have fd: "ch_trnsprt_fd (cs_chan (sn_sys S) c) \<noteq> -1" using assms(2) by (simp add: connected_def)
  let ?e = "(se_chan e)\<lparr>en_write := (\<lambda>_. (False, 0, False))\<rparr>"
  obtain s' where "fsm_xprt_proto_channel_write_msg_to_dp ?e (fsm_run ?e) c (sn_data S ?m) (unat ?off) (sn_sys S) = Some (OF_FAILURE, 0, s')"
    using write_msg_result[OF assms(2), where e = "se_chan e" and e' = ?e and ok = False and n = 0 and m = "sn_data S ?m" and k = "unat ?off"] by auto
  then have "\<exists>S1. of_send_msg_to_xprt e c ?m ?off S = Some (OF_FAILURE, 0, False, S1)"
    using L fd assms(3) by (auto simp: of_send_msg_to_xprt_def tcp_transport_write_data_def Let_def)
  then have "flush_step e c x None S = None" by (auto simp: flush_step_def cntlr_tnsprt_try_2_send_msg_on_line_def Let_def)
  then show ?thesis using list_head[OF assms(1)] by (simp add: of_send_all_msgs_waiting_on_chn_to_dp_def flush_loop.simps)
qed

lemma drain_box_result:
  assumes "send_inv c S xs" "calm q c S" "k < length (MsgQueue (sn_box S q))" "queue_inv (MsgQueue (sn_box S q) ! k)"
    "pending (MsgQueue (sn_box S q) ! k) = ms" "length ms \<le> length (sn_alloc S)" "\<forall>m\<in>set ms. sn_data S m \<noteq> []"
  shows "\<exists>S' zs. drain_box e c q k S = Some S' \<and> send_inv c S' zs \<and> calm q c S' \<and>
    sn_wire S' c @ waiting S' zs = sn_wire S c @ waiting S xs @ concat (map (sn_data S) ms) \<and>
    pending (MsgQueue (sn_box S' q) ! k) = [] \<and> length zs \<le> length xs + length ms \<and>
    (se_same_thread e \<and> se_modify_ok e \<and> (xs \<noteq> [] \<longrightarrow> sn_wr S c) \<and> zs \<noteq> [] \<longrightarrow> sn_wr S' c) \<and>
    (\<forall>ks r. xs = [] \<and> sn_net S c = map Tx ks @ r \<and> length ms \<le> length ks \<and> (\<forall>k\<in>set ks. 65535 \<le> k) \<longrightarrow> zs = [])"
  using assms
proof (induction ms arbitrary: S xs)
  case Nil
  then have "of_MsgDequeue (se_mem e) k True (sn_box S q, sn_mem S) = Some (OF_FAILURE, None, sn_box S q, sn_mem S)"
    by (intro dequeue_empty)
  moreover have "S\<lparr>sn_box := (sn_box S)(q := sn_box S q), sn_mem := sn_mem S\<rparr> = S" by simp
  ultimately have "drain_box e c q k S = Some S" by (subst drain_box.simps) simp
  then show ?case using Nil.prems by (intro exI[of _ S] exI[of _ xs]) simp
next
  case (Cons m ms)
  obtain box' where d: "of_MsgDequeue (se_mem e) k True (sn_box S q, sn_mem S) = Some (OF_SUCCESS, Some m, box', sn_mem S)"
    "queue_inv (MsgQueue box' ! k)" "pending (MsgQueue box' ! k) = ms" "box_frame k (sn_box S q, sn_mem S) (box', sn_mem S)"
    using dequeue_nonempty[OF Cons.prems(3-5)] by blast
  let ?S1 = "S\<lparr>sn_box := (sn_box S)(q := box'), sn_mem := sn_mem S\<rparr>"
  have i1: "send_inv c ?S1 xs" "calm q c ?S1" using Cons.prems(1,2) by (simp_all add: send_inv_def lst_def calm_def)
  have wt: "waiting ?S1 xs = waiting S xs" by (rule waiting_cong) simp_all
  obtain a al where al: "sn_alloc S = a # al" using Cons.prems(6) by (cases "sn_alloc S") auto
  obtain S2 zs where S2: "cntlr_tnsprt_send_msg_to_dp_channel e c m True 0 ?S1 = Some (OF_SUCCESS, S2)" "send_inv c S2 zs" "calm q c S2"
    "sn_wire S2 c @ waiting S2 zs = sn_wire S c @ waiting S xs @ sn_data S m" "sn_data S2 = sn_data S"
    "sn_alloc S2 \<in> {a # al, al}" "same_boxes ?S1 S2" "length zs \<le> Suc (length xs)"
    "se_same_thread e \<and> se_modify_ok e \<and> zs \<noteq> [] \<longrightarrow> sn_wr S2 c"
    "\<forall>k r. xs = [] \<and> sn_net S c = Tx k # r \<and> 65535 \<le> k \<longrightarrow> zs = [] \<and> sn_net S2 c = r"
    using send_new[OF i1, of m a al e] al Cons.prems(7) wt by auto
  have q: "MsgQueue (sn_box S2 q) = MsgQueue box'" using S2(7) by (simp add: same_boxes_def)
  have l: "length ms \<le> length (sn_alloc S2)" using S2(6) Cons.prems(6) al by auto
  have kk: "k < length (MsgQueue (sn_box S2 q))" using box_frame_length[OF d(4)] Cons.prems(3) q by simp
  obtain S' zs' where "drain_box e c q k S2 = Some S'" "send_inv c S' zs'" "calm q c S'"
    "sn_wire S' c @ waiting S' zs' = sn_wire S2 c @ waiting S2 zs @ concat (map (sn_data S2) ms)"
    "pending (MsgQueue (sn_box S' q) ! k) = []" "length zs' \<le> length zs + length ms"
    "se_same_thread e \<and> se_modify_ok e \<and> (zs \<noteq> [] \<longrightarrow> sn_wr S2 c) \<and> zs' \<noteq> [] \<longrightarrow> sn_wr S' c"
    "\<forall>ks r. zs = [] \<and> sn_net S2 c = map Tx ks @ r \<and> length ms \<le> length ks \<and> (\<forall>k\<in>set ks. 65535 \<le> k) \<longrightarrow> zs' = []"
    using Cons.IH[OF S2(2,3) kk] d(2,3) q l Cons.prems(7) S2(5) by auto
  moreover from this(1) have "drain_box e c q k S = Some S'" using d(1) S2(1) by (subst drain_box.simps) simp
  moreover note rest = calculation(8)
  have "\<forall>ks r. xs = [] \<and> sn_net S c = map Tx ks @ r \<and> length (m # ms) \<le> length ks \<and> (\<forall>k\<in>set ks. 65535 \<le> k) \<longrightarrow> zs' = []"
  proof (intro allI impI)
    fix ks r assume room: "xs = [] \<and> sn_net S c = map Tx ks @ r \<and> length (m # ms) \<le> length ks \<and> (\<forall>k\<in>set ks. 65535 \<le> k)"
    obtain k' ks' where ks: "ks = k' # ks'" using room by (cases ks) auto
    then have "zs = [] \<and> sn_net S2 c = map Tx ks' @ r" using room S2(10) by simp
    moreover have "length ms \<le> length ks' \<and> (\<forall>k\<in>set ks'. 65535 \<le> k)" using room ks by simp
    ultimately show "zs' = []" using rest by blast
  qed
  ultimately show ?case using S2(4,5,8,9) by (intro exI[of _ S'] exI[of _ zs']) (simp flip: append_assoc)
qed

text \<open>C12: A thread that wakes the thread of the channel has every message it queued taken out of the queue
  and put, in the order it queued them and behind what waited already, on the wire or on the waiting list,
  and it can wake the thread again. This is while the socket at worst asks to try again and \<^verbatim>\<open>calloc\<close> finds a
  block for each message. When nothing waited and the kernel accepts the messages whole, all of them are on
  the wire at once. Otherwise, in the thread of the channel and when epoll accepts the change, the channel
  waits for the write event as long as anything waits; and a write event at which the kernel accepts
  everything leaves all of them on the wire and nothing waiting.\<close>

theorem chan_box_delivery:
  assumes "send_inv c S xs" "calm q c S" "k < length (MsgQueue (sn_box S q))" "queue_inv (MsgQueue (sn_box S q) ! k)"
    "length (pending (MsgQueue (sn_box S q) ! k)) \<le> length (sn_alloc S)"
    "\<forall>m\<in>set (pending (MsgQueue (sn_box S q) ! k)). sn_data S m \<noteq> []"
  shows "\<exists>S' zs. cntlr_trnsprt_handle_ctrl_thread_msgs e c (MSG_RCVD k) S = Some S' \<and> send_inv c S' zs \<and>
    sn_wire S' c @ waiting S' zs = sn_wire S c @ waiting S xs @ concat (map (sn_data S) (pending (MsgQueue (sn_box S q) ! k))) \<and>
    pending (MsgQueue (sn_box S' q) ! k) = [] \<and> bSendEvent (sn_box S' q) \<and>
    length zs \<le> length xs + length (pending (MsgQueue (sn_box S q) ! k)) \<and>
    (\<forall>ks r. xs = [] \<and> sn_net S c = map Tx ks @ r \<and> length (pending (MsgQueue (sn_box S q) ! k)) \<le> length ks \<and>
      (\<forall>j\<in>set ks. 65535 \<le> j) \<longrightarrow>
        zs = [] \<and> sn_wire S' c = sn_wire S c @ concat (map (sn_data S) (pending (MsgQueue (sn_box S q) ! k)))) \<and>
    (se_same_thread e \<and> se_modify_ok e \<and> (xs \<noteq> [] \<longrightarrow> sn_wr S c) \<and> zs \<noteq> [] \<longrightarrow> sn_wr S' c) \<and>
    (\<forall>ks. length zs \<le> length ks \<and> (\<forall>j\<in>set ks. 65535 \<le> j) \<longrightarrow>
      (\<exists>S''. of_send_all_msgs_waiting_on_chn_to_dp e c (S'\<lparr>sn_net := (sn_net S')(c := map Tx ks)\<rparr>) = Some S'' \<and>
        sn_wire S'' c = sn_wire S c @ waiting S xs @ concat (map (sn_data S) (pending (MsgQueue (sn_box S q) ! k))) \<and>
        ol_exact (lst c S'') [] \<and> \<not> sn_wr S'' c))"
proof -
  let ?ms = "pending (MsgQueue (sn_box S q) ! k)"
  obtain S1 zs where S1: "drain_box e c q k S = Some S1" "send_inv c S1 zs" "calm q c S1"
    "sn_wire S1 c @ waiting S1 zs = sn_wire S c @ waiting S xs @ concat (map (sn_data S) ?ms)"
    "pending (MsgQueue (sn_box S1 q) ! k) = []" "length zs \<le> length xs + length ?ms"
    "se_same_thread e \<and> se_modify_ok e \<and> (xs \<noteq> [] \<longrightarrow> sn_wr S c) \<and> zs \<noteq> [] \<longrightarrow> sn_wr S1 c"
    "\<forall>ks r. xs = [] \<and> sn_net S c = map Tx ks @ r \<and> length ?ms \<le> length ks \<and> (\<forall>k\<in>set ks. 65535 \<le> k) \<longrightarrow> zs = []"
    using drain_box_result[OF assms(1-4) refl assms(5,6)] by blast
  let ?S' = "set_box q True S1"
  have b: "ch_msg_q_box (cs_chan (sn_sys S) c) = Some q" using assms(2) by (simp add: calm_def connected_def)
  have w: "waiting ?S' zs = waiting S1 zs" by (rule waiting_cong) (simp_all add: set_box_def)
  have later: "\<exists>S''. of_send_all_msgs_waiting_on_chn_to_dp e c (?S'\<lparr>sn_net := (sn_net ?S')(c := map Tx ks)\<rparr>) = Some S'' \<and>
      sn_wire S'' c = sn_wire S c @ waiting S xs @ concat (map (sn_data S) ?ms) \<and> ol_exact (lst c S'') [] \<and> \<not> sn_wr S'' c"
    if ks: "length zs \<le> length ks" "\<forall>j\<in>set ks. 65535 \<le> j" for ks
  proof -
    let ?T = "?S'\<lparr>sn_net := (sn_net ?S')(c := map Tx ks)\<rparr>"
    have "send_inv c ?T zs" using S1(2) by (simp add: send_inv_def lst_def set_box_def)
    moreover have "calm q c ?T" using S1(3) by (auto simp: calm_def set_box_def)
    moreover have "waiting ?T zs = waiting S1 zs" by (rule waiting_cong) (simp_all add: set_box_def)
    ultimately show ?thesis using flush_drains[of c ?T zs q ks "[]" e] ks S1(4) by (auto simp: set_box_def)
  qed
  have at_once: "zs = [] \<and> sn_wire ?S' c = sn_wire S c @ concat (map (sn_data S) ?ms)"
    if "xs = [] \<and> sn_net S c = map Tx ks @ r \<and> length ?ms \<le> length ks \<and> (\<forall>j\<in>set ks. 65535 \<le> j)" for ks r
  proof -
    have "zs = []" using S1(8) that by blast
    then show ?thesis using S1(4) that by (simp add: set_box_def)
  qed
  show ?thesis
  proof (rule exI[of _ ?S'], rule exI[of _ zs], intro conjI)
    show "cntlr_trnsprt_handle_ctrl_thread_msgs e c (MSG_RCVD k) S = Some ?S'"
      using S1(1) b by (simp add: cntlr_trnsprt_handle_ctrl_thread_msgs_def)
    show "send_inv c ?S' zs" using S1(2) by (simp add: set_box_def send_inv_def lst_def)
    show "sn_wire ?S' c @ waiting ?S' zs = sn_wire S c @ waiting S xs @ concat (map (sn_data S) ?ms)"
      using S1(4) w by (simp add: set_box_def)
    show "se_same_thread e \<and> se_modify_ok e \<and> (xs \<noteq> [] \<longrightarrow> sn_wr S c) \<and> zs \<noteq> [] \<longrightarrow> sn_wr ?S' c"
      using S1(7) by (simp add: set_box_def)
    show "\<forall>ks r. xs = [] \<and> sn_net S c = map Tx ks @ r \<and> length ?ms \<le> length ks \<and> (\<forall>j\<in>set ks. 65535 \<le> j) \<longrightarrow>
        zs = [] \<and> sn_wire ?S' c = sn_wire S c @ concat (map (sn_data S) ?ms)"
      using at_once by blast
    show "\<forall>ks. length zs \<le> length ks \<and> (\<forall>j\<in>set ks. 65535 \<le> j) \<longrightarrow>
      (\<exists>S''. of_send_all_msgs_waiting_on_chn_to_dp e c (?S'\<lparr>sn_net := (sn_net ?S')(c := map Tx ks)\<rparr>) = Some S'' \<and>
        sn_wire S'' c = sn_wire S c @ waiting S xs @ concat (map (sn_data S) ?ms) \<and> ol_exact (lst c S'') [] \<and> \<not> sn_wr S'' c)"
      using later by blast
  qed (use S1(5,6) in \<open>simp_all add: set_box_def\<close>)
qed

text \<open>Closing the channel releases every waiting message once and empties the list.\<close>

lemma drop_loop_result:
  "send_inv c S xs \<Longrightarrow> \<exists>S'. drop_loop c S = Some S' \<and> send_inv c S' [] \<and>
     sn_released S' = sn_released S @ map (\<lambda>x. sb_msg (sn_bufs S x)) xs"
proof (induction xs arbitrary: S)
  case Nil
  then have "drop_loop c S = Some S" using list_head[OF Nil.prems] by (subst drop_loop.simps) simp
  then show ?case using Nil.prems by simp
next
  case (Cons x xs)
  let ?S1 = "of_check_pkt_mbuf_and_free (sb_msg (sn_bufs S x)) S"
  have "sn_bufs ?S1 = (sn_bufs S)(x := sn_bufs S x)" by (simp add: of_check_pkt_mbuf_and_free_def)
  then obtain S2 where S2: "drop_head c ?S1 = Some S2" "send_inv c S2 xs" "sn_released S2 = sn_released ?S1"
    "\<forall>y\<in>set xs. sn_bufs S2 y = sn_bufs S y"
    using flush_next[OF Cons.prems, of ?S1 "sn_bufs S x"] by (auto simp: of_check_pkt_mbuf_and_free_def)
  obtain S' where S': "drop_loop c S2 = Some S'" "send_inv c S' []" "sn_released S' = sn_released S2 @ map (\<lambda>x. sb_msg (sn_bufs S2 x)) xs"
    using Cons.IH[OF S2(2)] by blast
  have "drop_loop c S = Some S'" using list_head[OF Cons.prems] S2(1) S'(1) by (subst drop_loop.simps) simp
  moreover have "map (\<lambda>x. sb_msg (sn_bufs S2 x)) xs = map (\<lambda>x. sb_msg (sn_bufs S x)) xs" using S2(4) by simp
  ultimately show ?case using S' S2(3) by (simp add: of_check_pkt_mbuf_and_free_def)
qed

theorem chan_close_releases_waiting:
  assumes "send_inv c S xs"
  shows "\<exists>S'. drop_pending c S = Some S' \<and> ol_exact (lst c S') [] \<and>
    sn_released S' = sn_released S @ map (\<lambda>x. sb_msg (sn_bufs S x)) xs"
  using drop_loop_result[OF assms] list_empty_iff[OF assms] assms by (auto simp: drop_pending_def send_inv_def)

section \<open>Concrete channels\<close>

text \<open>A connected channel at address 0 with two waiting messages; of the first one, two bytes are sent.\<close>

definition demo_send_sys :: "tx_event list \<Rightarrow> send_sys" where
  "demo_send_sys evs = \<lparr>sn_sys = upd_ch 0 (ch_msg_q_box_update (\<lambda>_. Some 9)) demo_chan_sys, sn_links = (\<lambda>_. None)(1 := Some 2),
     sn_list = (\<lambda>_. \<lparr>ol_head = Some 1, ol_tail = Some 2, ol_count = 2, ol_lock = False, ol_free_cbk = False\<rparr>),
     sn_bufs = (\<lambda>x. \<lparr>sb_length_sent = (if x = 1 then 2 else 0), sb_msg = x\<rparr>), sn_wr = (\<lambda>_. True),
     sn_box = (\<lambda>_. demo_box), sn_mem = \<lparr>ms_types = [], mempool_list_g = [], ms_pools = (\<lambda>_. None), ms_links = (\<lambda>_. None),
       ms_freed = [], mempool_index_g = 0\<rparr>, sn_data = (\<lambda>m. [of_nat m, of_nat m, of_nat m, of_nat m]), sn_released = [], sn_freed = [], sn_alloc = [Some 3, Some 4],
     sn_net = (\<lambda>_. evs), sn_wire = (\<lambda>_. [1, 1])\<rparr>"

definition demo_send_env :: send_env where
  "demo_send_env = \<lparr>se_chan = demo_chan_env True, se_same_thread = True, se_modify_ok = True, se_socket_ok = True,
     se_sendto_ok = True, se_errno_again = False,
     se_mem = \<lparr>ev_thread = 0, ev_threads = 0, ev_chain = \<lambda>_. None, ev_heap = None, ev_lists_ok = True\<rparr>\<rparr>"

lemma demo_send_inv: "send_inv 0 (demo_send_sys evs) [1, 2]"
  by (auto simp: send_inv_def demo_send_sys_def ol_exact_def ol_rep_def ol_cnt_def lst_def node_ok_def last_ptr_def)

lemma demo_connected: "connected 9 0 (sn_sys (demo_send_sys evs))"
  by (simp add: connected_def demo_send_sys_def upd_ch_def demo_chan_sys_def demo_channel_def open_channel_def)

lemma demo_fields: "sn_net (demo_send_sys evs) 0 = evs" "sn_alloc (demo_send_sys evs) = [Some 3, Some 4]"
  "sn_wire (demo_send_sys evs) 0 = [1, 1]" "sn_data (demo_send_sys evs) m = [of_nat m, of_nat m, of_nat m, of_nat m]"
  "rest_of (demo_send_sys evs) (Suc 0) = [1, 1]" "rest_of (demo_send_sys evs) 2 = [2, 2, 2, 2]"
  by (simp_all add: demo_send_sys_def rest_of_def)

text \<open>A third message is sent and the socket then reports that it is writable.\<close>

theorem chan_send_stream_witness:
  "\<exists>S' zs. send_run demo_send_env 0 [Send 5, Flush] (demo_send_sys [Tx 1, Tx_again, Tx 1, Tx 1, Tx_again]) = Some S' \<and>
    sn_wire S' 0 @ waiting S' zs = [1, 1, 1, 1, 2, 2, 2, 2, 5, 5, 5, 5]"
proof -
  let ?S = "demo_send_sys [Tx 1, Tx_again, Tx 1, Tx 1, Tx_again]"
  have c: "calm 9 0 ?S" using demo_connected by (simp add: calm_def demo_fields)
  have "length [Send 5, Flush] \<le> length (sn_alloc ?S)" "\<forall>m. Send m \<in> set [Send 5, Flush] \<longrightarrow> sn_data ?S m \<noteq> []"
    by (simp_all add: demo_fields)
  from chan_send_stream[OF demo_send_inv c this, of demo_send_env]
  show ?thesis by (auto simp: demo_fields simp del: send_run.simps)
qed

theorem chan_flush_drains_witness:
  "\<exists>S'. of_send_all_msgs_waiting_on_chn_to_dp demo_send_env 0 (demo_send_sys [Tx 65535, Tx 65535]) = Some S' \<and>
    sn_wire S' 0 = [1, 1, 1, 1, 2, 2, 2, 2] \<and> sn_released S' = [2]"
proof -
  let ?S = "demo_send_sys [Tx 65535, Tx 65535]"
  have c: "calm 9 0 ?S" using demo_connected by (simp add: calm_def demo_fields)
  have n: "sn_net ?S 0 = map Tx [65535, 65535] @ []" by (simp add: demo_fields)
  obtain S' where S': "of_send_all_msgs_waiting_on_chn_to_dp demo_send_env 0 ?S = Some S'" "sn_wire S' 0 = sn_wire ?S 0 @ waiting ?S [1, 2]"
    "sn_released S' = sn_released ?S @ map (\<lambda>x. sb_msg (sn_bufs ?S x)) (filter (\<lambda>x. sb_length_sent (sn_bufs ?S x) = 0) [1, 2])"
    using chan_flush_drains[OF demo_send_inv c n, of demo_send_env] by auto
  moreover have "sn_released ?S = []" "sn_bufs ?S = (\<lambda>x. \<lparr>sb_length_sent = (if x = 1 then 2 else 0), sb_msg = x\<rparr>)"
    by (simp_all add: demo_send_sys_def)
  ultimately show ?thesis by (auto simp: demo_fields)
qed

theorem chan_flush_hard_error_witness:
  "of_send_all_msgs_waiting_on_chn_to_dp demo_send_env 0 (demo_send_sys [Tx_error]) = None"
  by (rule chan_flush_hard_error[OF demo_send_inv demo_connected]) (simp add: demo_fields)

text \<open>A waiting message 5 in queue 0 of the box.\<close>

definition demo_boxed :: "tx_event list \<Rightarrow> send_sys" where
  "demo_boxed evs = (demo_send_sys evs)\<lparr>sn_box := (\<lambda>_. demo_box\<lparr>MsgQueue :=
     [empty_msg_queue\<lparr>ulWriteIndx := 0, pMsgData := (replicate 64 None)[0 := Some 5]\<rparr>]\<rparr>)\<rparr>"

theorem chan_box_delivery_witness:
  "\<exists>S' S''. cntlr_trnsprt_handle_ctrl_thread_msgs demo_send_env 0 (MSG_RCVD 0) (demo_boxed []) = Some S' \<and>
    bSendEvent (sn_box S' 9) \<and> pending (MsgQueue (sn_box S' 9) ! 0) = [] \<and>
    of_send_all_msgs_waiting_on_chn_to_dp demo_send_env 0
      (S'\<lparr>sn_net := (sn_net S')(0 := map Tx [65535, 65535, 65535])\<rparr>) = Some S'' \<and>
    sn_wire S'' 0 = [1, 1, 1, 1, 2, 2, 2, 2, 5, 5, 5, 5] \<and> \<not> sn_wr S'' 0"
proof -
  let ?S = "demo_boxed []" let ?q = "MsgQueue (sn_box ?S 9) ! 0"
  have inv: "send_inv 0 ?S [1, 2]" using demo_send_inv[of "[]"] by (simp add: demo_boxed_def send_inv_def lst_def)
  have c: "calm 9 0 ?S" using demo_connected by (simp add: calm_def demo_fields demo_boxed_def)
  have r: "ring_msgs ?q = [Some 5]"
    by (simp add: demo_boxed_def demo_box_def empty_msg_queue_def ring_msgs_def ring_count_def ring_slot_def)
  then have q: "queue_inv ?q" "pending ?q = [5]"
    by (simp_all add: queue_inv_def pending_def) (simp add: ring_inv_def demo_boxed_def demo_box_def empty_msg_queue_def)
  have k: "0 < length (MsgQueue (sn_box ?S 9))" by (simp add: demo_boxed_def demo_box_def)
  have "waiting ?S [1, 2] = waiting (demo_send_sys []) [1, 2]" by (rule waiting_cong) (simp_all add: demo_boxed_def)
  then have w: "waiting ?S [1, 2] = [1, 1, 2, 2, 2, 2]" by (simp add: demo_fields)
  have a: "length (pending ?q) \<le> length (sn_alloc ?S)" "\<forall>m\<in>set (pending ?q). sn_data ?S m \<noteq> []"
    "sn_wire ?S 0 = [1, 1]" "sn_data ?S 5 = [5, 5, 5, 5]"
    unfolding q(2) by (simp_all add: demo_boxed_def demo_fields)
  have all: "sn_wire ?S 0 @ waiting ?S [1, 2] @ concat (map (sn_data ?S) (pending ?q)) = [1, 1, 1, 1, 2, 2, 2, 2, 5, 5, 5, 5]"
    unfolding q(2) a(3) w by (simp add: a(4))
  obtain S' zs where S': "cntlr_trnsprt_handle_ctrl_thread_msgs demo_send_env 0 (MSG_RCVD 0) ?S = Some S'"
    "pending (MsgQueue (sn_box S' 9) ! 0) = []" "bSendEvent (sn_box S' 9)" "length (zs :: addr list) \<le> length [1, 2 :: addr] + length (pending ?q)"
    "\<forall>ks. length zs \<le> length ks \<and> (\<forall>j\<in>set ks. 65535 \<le> j) \<longrightarrow>
      (\<exists>S''. of_send_all_msgs_waiting_on_chn_to_dp demo_send_env 0 (S'\<lparr>sn_net := (sn_net S')(0 := map Tx ks)\<rparr>) = Some S'' \<and>
        sn_wire S'' 0 = sn_wire ?S 0 @ waiting ?S [1, 2] @ concat (map (sn_data ?S) (pending ?q)) \<and>
        ol_exact (lst 0 S'') [] \<and> \<not> sn_wr S'' 0)"
    using chan_box_delivery[OF inv c k q(1) a(1,2), of demo_send_env] by (elim exE conjE) (rule that)
  have "length zs \<le> length [65535, 65535, 65535 :: nat] \<and> (\<forall>j\<in>set [65535, 65535, 65535 :: nat]. 65535 \<le> j)"
    using S'(4) q(2) by simp
  with S'(5) obtain S'' where "of_send_all_msgs_waiting_on_chn_to_dp demo_send_env 0
      (S'\<lparr>sn_net := (sn_net S')(0 := map Tx [65535, 65535, 65535])\<rparr>) = Some S''"
    "sn_wire S'' 0 = [1, 1, 1, 1, 2, 2, 2, 2, 5, 5, 5, 5]" "\<not> sn_wr S'' 0"
    unfolding all by blast
  with S'(1-3) show ?thesis by blast
qed

end
