(* ===== verification/Mempool_Bound.thy ===== *)
theory Mempool_Bound
  imports Mempool
begin

text \<open>
  The memory pools as most of the controller uses them: a pool of the heap provider without
  per-thread lists, with the blocks its users hold. The number of
  blocks held never exceeds the configured maximum, whatever the outcomes of \<^verbatim>\<open>calloc\<close>. The contract is
  the locale \<open>block_pool\<close>; the clients of the pools rely on its interpretation.
\<close>

section \<open>The contract\<close>

text \<open>\<open>H\<close> are the blocks held, with the heap flag each was given with.\<close>

locale block_pool =
  fixes ok :: "'m \<Rightarrow> (addr \<rightharpoonup> u8) \<Rightarrow> bool"
    and fresh :: "'e \<Rightarrow> 'm \<Rightarrow> (addr \<rightharpoonup> u8) \<Rightarrow> bool"
    and get :: "'e \<Rightarrow> u8 \<Rightarrow> 'm \<Rightarrow> ((int \<times> ptr \<times> u8) \<times> 'm) option"
    and release :: "'e \<Rightarrow> addr \<Rightarrow> u8 \<Rightarrow> 'm \<Rightarrow> (int \<times> 'm) option"
    and limit :: nat
  assumes get_law: "ok m H \<Longrightarrow> fresh e m H \<Longrightarrow> \<exists>rc ob hb m'. get e h m = Some ((rc, ob, hb), m') \<and>
      (case ob of None \<Rightarrow> rc \<noteq> MEMPOOL_SUCCESS \<and> ok m' H
       | Some b \<Rightarrow> rc = MEMPOOL_SUCCESS \<and> b \<notin> dom H \<and> ok m' (H(b \<mapsto> hb)))"
    and release_law: "ok m H \<Longrightarrow> H b = Some hb \<Longrightarrow> \<exists>m'. release e b hb m = Some (MEMPOOL_SUCCESS, m') \<and> ok m' (H(b := None))"
    and limit_law: "ok m H \<Longrightarrow> finite (dom H) \<and> card (dom H) \<le> limit"
begin

lemma get_then_release:
  assumes "ok m H" "fresh e m H" "get e h m = Some ((rc, Some b, hb), m1)"
  shows "\<exists>m2. release e' b hb m1 = Some (MEMPOOL_SUCCESS, m2) \<and> ok m2 H"
proof -
  have g: "b \<notin> dom H" "ok m1 (H(b \<mapsto> hb))" using get_law[OF assms(1,2), of h] assms(3) by auto
  from release_law[OF g(2), of b hb e'] obtain m2 where "release e' b hb m1 = Some (MEMPOOL_SUCCESS, m2)"
    "ok m2 ((H(b \<mapsto> hb))(b := None))" by auto
  moreover have "(H(b \<mapsto> hb))(b := None) = H" using g(1) by (auto simp: fun_eq_iff)
  ultimately show ?thesis by auto
qed

text \<open>Blocks that are held fit into a table with \<open>limit\<close> places, with one place left for each block that
  is not in the table.\<close>

lemma room:
  assumes "ok m H" "N \<subseteq> dom H" "b \<in> dom H" "b \<notin> N" shows "card N < limit"
proof -
  note f = limit_law[OF assms(1)]
  have "card (insert b N) \<le> card (dom H)" by (rule card_mono) (use f assms in auto)
  moreover have "card (insert b N) = Suc (card N)" using assms f finite_subset[of N "dom H"] by simp
  ultimately show ?thesis using f by simp
qed

end

section \<open>A pool without per-thread lists\<close>

definition pool_cfg :: "memory_pool \<Rightarrow> u32 \<times> u32 \<times> u32 \<times> u32 \<times> nat \<times> per_thread_mem_node list option" where
  "pool_cfg p = (static_blocks p, replenish_count p, threshold_max p, heap_allowed_blocks_count p, mempool_type p, per_thread_list_p p)"

definition central_pool :: "memory_pool \<Rightarrow> bool" where
  "central_pool p \<longleftrightarrow> per_thread_list_p p = None \<and> mempool_type p = 0 \<and> unat (threshold_max p) \<le> unat (static_blocks p) \<and>
     unat (replenish_count p) \<le> unat (static_blocks p) \<and> unat (static_blocks p) < 2 ^ 30"

lemma central_pool_cong: "pool_cfg q = pool_cfg p \<Longrightarrow> central_pool q = central_pool p"
  by (simp add: pool_cfg_def central_pool_def)

definition held :: "u8 \<Rightarrow> (addr \<rightharpoonup> u8) \<Rightarrow> addr set" where "held f H = {b. H b = Some f}"

definition held_inv :: "pool_st \<Rightarrow> (addr \<rightharpoonup> u8) \<Rightarrow> addr list \<Rightarrow> bool" where
  "held_inv s H G \<longleftrightarrow> (case s of (nx, p, fr) \<Rightarrow> pool_rep s G [] \<and> central_pool p \<and> finite (dom H) \<and> ran H \<subseteq> {0, 1} \<and>
     set G \<inter> dom H = {} \<and> (\<forall>b\<in>held 0 H. node_ok b) \<and> length G + card (held 0 H) \<le> unat (static_blocks p) \<and>
     static_allocated_blocks_count p = of_nat (length G + card (held 0 H)) \<and>
     unat (heap_free_blocks_count p) + card (held 1 H) \<le> unat (heap_allowed_blocks_count p))"

lemma held_dom: "ran H \<subseteq> {0, 1} \<Longrightarrow> dom H = held 0 H \<union> held 1 H" "held 0 H \<inter> held 1 H = {}" "held f H \<subseteq> dom H"
  by (auto simp: held_def ran_def)

lemma held_upd: "b \<notin> dom H \<Longrightarrow> held f (H(b \<mapsto> g)) = (if f = g then insert b (held f H) else held f H)"
  by (auto simp: held_def domIff)

lemma held_del: "held f (H(b := None)) = held f H - {b}"
  by (auto simp: held_def)

text \<open>A refill does not bring in more than the static blocks still allowed.\<close>

lemma refill_chunk_bound:
  assumes "central_pool p" "static_allocated_blocks_count p = of_nat k" "k \<le> unat (static_blocks p)"
    "free_blocks_count p = of_nat g" "g \<le> k"
  shows "k + unat (refill_chunk p) \<le> unat (static_blocks p)"
proof -
  let ?S = "unat (static_blocks p)" and ?R = "unat (replenish_count p)" and ?M = "unat (threshold_max p)"
  have c: "?M \<le> ?S" "?R \<le> ?S" "?S < 2 ^ 30" using assms(1) by (simp_all add: central_pool_def)
  have u: "unat (static_allocated_blocks_count p) = k" "unat (free_blocks_count p) = g"
    using assms c by (simp_all add: unat_of_nat_u32)
  have s1: "unat (replenish_count p + static_allocated_blocks_count p) = ?R + k"
    using u c assms(3) by (simp add: unat_word_ariths)
  define c where "c = (if replenish_count p + static_allocated_blocks_count p \<le> static_blocks p
      then replenish_count p else static_blocks p - static_allocated_blocks_count p)"
  have cb: "k + unat c \<le> ?S"
  proof (cases "replenish_count p + static_allocated_blocks_count p \<le> static_blocks p")
    case True
    then show ?thesis using s1 by (simp add: c_def word_le_nat_alt)
  next
    case False
    have "static_allocated_blocks_count p \<le> static_blocks p" using u(1) assms(3) by (simp add: word_le_nat_alt)
    then have "unat (static_blocks p - static_allocated_blocks_count p) = ?S - k" using u(1) by (simp add: unat_sub)
    then show ?thesis using False assms(3) by (simp add: c_def)
  qed
  have s2: "unat (free_blocks_count p + c) = g + unat c"
    using u(2) cb assms(5) \<open>?S < 2 ^ 30\<close> by (simp add: unat_word_ariths)
  have "unat (refill_chunk p) \<le> unat c"
  proof (cases "threshold_max p \<le> free_blocks_count p \<or> c = 0")
    case False
    then have "free_blocks_count p \<le> threshold_max p" by (meson linear)
    then have m: "unat (threshold_max p - free_blocks_count p) = ?M - g" using u(2) by (simp add: unat_sub)
    have "refill_chunk p = (if threshold_max p < free_blocks_count p + c then threshold_max p - free_blocks_count p else c)"
      using False by (simp add: refill_chunk_def Let_def c_def)
    then show ?thesis using m s2 by (auto simp: word_less_nat_alt split: if_splits)
  qed (auto simp: refill_chunk_def Let_def c_def)
  then show ?thesis using cb by linarith
qed

lemma refill_cfg:
  "refill_if_low e (nx, p, fr) = (nx', p', fr') \<Longrightarrow> pool_cfg p' = pool_cfg p"
  by (auto simp: refill_if_low_def mempool_check_and_refill_def Let_def pool_cfg_def split: if_splits prod.splits option.splits)

lemma refill_bounded:
  assumes "pool_rep (nx, p, fr) G []" "env_fresh e (set G)" "central_pool p"
    "static_allocated_blocks_count p = of_nat k" "k \<le> unat (static_blocks p)" "length G \<le> k"
  shows "\<exists>bs nx' p'. refill_if_low e (nx, p, fr) = (nx', p', fr) \<and> pool_rep (nx', p', fr) (G @ bs) [] \<and>
    (\<exists>j. bs = chain_blocks (ev_chain e) 0 j) \<and> same_config p p' \<and> k + length bs \<le> unat (static_blocks p) \<and>
    static_allocated_blocks_count p' = of_nat (k + length bs)"
proof (cases "MEMP_CHECK_STATIC_FREECNT_AND_REFILL p")
  case True
  have fresh: "env_fresh e (set (G @ concat []))" using assms(2) by simp
  obtain bs nx' p' rc where r: "mempool_check_and_refill e (nx, p, fr) = (rc, nx', p', fr)"
    "pool_rep (nx', p', fr) (G @ bs) []"
    "bs = (if rc = MEMPOOL_SUCCESS then chain_blocks (ev_chain e) 0 (unat (refill_chunk p)) else [])"
    "same_config p p'" "static_allocated_blocks_count p' = static_allocated_blocks_count p + of_nat (length bs)"
    using refill_rep[OF assms(1) fresh] by blast
  have "free_blocks_count p = of_nat (length G)" using assms(1) by (simp add: pool_rep_def)
  from refill_chunk_bound[OF assms(3,4,5) this assms(6)] have "k + unat (refill_chunk p) \<le> unat (static_blocks p)" .
  moreover have "length bs \<le> unat (refill_chunk p)" using r(3) chain_blocks_length[of "ev_chain e" 0] by simp
  moreover have "\<exists>j. bs = chain_blocks (ev_chain e) 0 j"
    using r(3) by (cases "rc = MEMPOOL_SUCCESS") (auto intro: exI[of _ 0])
  ultimately show ?thesis using True r(1,2,4,5) assms(4)
    by (intro exI[of _ bs] exI[of _ nx'] exI[of _ p']) (simp add: refill_if_low_def)
next
  case False
  have "[] = chain_blocks (ev_chain e) 0 0" by simp
  then show ?thesis using False assms
    by (intro exI[of _ "[]"] exI[of _ nx] exI[of _ p]) (auto simp: refill_if_low_def same_config_def intro: exI[of _ 0])
qed

section \<open>Requests and releases\<close>

lemma held_invE:
  assumes "held_inv (nx, p, fr) H G"
  obtains "pool_rep (nx, p, fr) G []" "central_pool p" "finite (dom H)" "ran H \<subseteq> {0, 1}" "set G \<inter> dom H = {}"
    "\<forall>b\<in>held 0 H. node_ok b" "length G + card (held 0 H) \<le> unat (static_blocks p)"
    "static_allocated_blocks_count p = of_nat (length G + card (held 0 H))"
    "unat (heap_free_blocks_count p) + card (held 1 H) \<le> unat (heap_allowed_blocks_count p)"
  using assms by (simp add: held_inv_def)

text \<open>The blocks that \<^verbatim>\<open>calloc\<close> may return during a call.\<close>

definition env_blocks :: "mem_env \<Rightarrow> addr set" where
  "env_blocks e = {b. (\<exists>i. ev_chain e i = Some b) \<or> ev_heap e = Some b}"

lemma chain_in_env: "set (chain_blocks (ev_chain e) i k) \<subseteq> env_blocks e"
  using chain_blocks_set[of _ "ev_chain e" i k] by (auto simp: env_blocks_def)

lemma tail_in:
  assumes "pool_rep (nx, p, fr) G T" "tail_p p = Some q" shows "q \<in> set G"
proof -
  have "last_ptr G = Some q" using assms by (simp add: pool_rep_def)
  then obtain ys where "G = ys @ [q]" using last_ptr_Some by blast
  then show ?thesis by simp
qed

text \<open>A refill links the new blocks behind the last free block.\<close>

lemma refill_frame:
  assumes r: "refill_if_low e (nx, p, fr) = (nx', p', fr')" and rep: "pool_rep (nx, p, fr) G []" and fresh: "env_fresh e (set G)"
    and x: "x \<notin> set G \<union> env_blocks e"
  shows "nx' x = nx x"
proof -
  let ?c = "refill_chunk p" and ?bs = "chain_blocks (ev_chain e) 0 (unat (refill_chunk p))"
  obtain nx1 h t c where ch: "memory_alloc_chain_memchunks ?c (ev_chain e) 0 nx = (nx1, h, t, c)" by (metis prod_cases4)
  have "x \<notin> set ?bs" using chain_in_env[of e 0 "unat ?c"] x by auto
  then have nx1: "nx1 x = nx x" using memory_alloc_chain_rep[OF ch env_fresh_chain(1)[OF fresh]] by blast
  have tl: "tail_p p = Some q \<Longrightarrow> q \<noteq> x" for q
    using tail_in[OF rep] x by auto
  obtain rc nx2 p2 fr2 where m: "mempool_check_and_refill e (nx, p, fr) = (rc, nx2, p2, fr2)" by (metis prod_cases4)
  have "nx2 x = nx x"
  proof (cases "?c = 0 \<or> h = None")
    case True
    then show ?thesis using m ch nx1 by (cases "?c = 0") (auto simp: mempool_check_and_refill_def Let_def)
  next
    case False
    then obtain h0 where h: "h = Some h0" by auto
    show ?thesis using False m ch nx1 tl h by (cases "tail_p p") (auto simp: mempool_check_and_refill_def Let_def)
  qed
  then show ?thesis using r m by (simp add: refill_if_low_def split: if_splits)
qed

lemma global_take_cfg: "global_take b (nx, p, fr) = (r, nx', p', fr') \<Longrightarrow> pool_cfg p' = pool_cfg p"
  by (auto simp: global_take_def Let_def pool_cfg_def split: if_splits)

lemma held_get:
  assumes inv: "held_inv (nx, p, fr) H G" and fresh: "env_fresh e (set G \<union> dom H)"
  shows "\<exists>rc ob hb nx' p' G'. mempool_mheap_get_mem_block e h (nx, p, fr) = Some ((rc, ob, hb), nx', p', fr) \<and>
    pool_cfg p' = pool_cfg p \<and> set G' \<subseteq> set G \<union> env_blocks e \<and> (\<forall>x. x \<notin> set G \<union> env_blocks e \<longrightarrow> nx' x = nx x) \<and>
    (G \<noteq> [] \<longrightarrow> ob \<noteq> None) \<and>
    (case ob of None \<Rightarrow> rc \<noteq> MEMPOOL_SUCCESS \<and> held_inv (nx', p', fr) H G'
     | Some b \<Rightarrow> rc = MEMPOOL_SUCCESS \<and> b \<in> set G \<union> env_blocks e \<and> b \<notin> dom H \<and> held_inv (nx', p', fr) (H(b \<mapsto> hb)) G')"
proof -
  note I = held_invE[OF inv]
  have rep: "pool_rep (nx, p, fr) G []" and cen: "central_pool p" and fin: "finite (dom H)" and ran: "ran H \<subseteq> {0, 1}"
    and dis: "set G \<inter> dom H = {}" and ok: "\<forall>b\<in>held 0 H. node_ok b"
    and len: "length G + card (held 0 H) \<le> unat (static_blocks p)"
    and sal: "static_allocated_blocks_count p = of_nat (length G + card (held 0 H))"
    and hp: "unat (heap_free_blocks_count p) + card (held 1 H) \<le> unat (heap_allowed_blocks_count p)"
    using I by auto
  have frG: "env_fresh e (set G)" using fresh by (auto simp: env_fresh_def)
  have fh: "finite (held f H)" for f using fin held_dom(3)[of f H] finite_subset ran by blast
  obtain bs nx1 p1 j where r: "refill_if_low e (nx, p, fr) = (nx1, p1, fr)" "pool_rep (nx1, p1, fr) (G @ bs) []"
    "bs = chain_blocks (ev_chain e) 0 j" "same_config p p1"
    "length G + card (held 0 H) + length bs \<le> unat (static_blocks p)"
    "static_allocated_blocks_count p1 = of_nat (length G + card (held 0 H) + length bs)"
    using refill_bounded[OF rep frG cen sal len] by auto
  note c1 = refill_cfg[OF r(1)]
  have bs: "set bs \<inter> dom H = {}" using env_fresh_chain(2)[OF fresh, of j] r(3) by auto
  have bse: "set (G @ bs) \<subseteq> set G \<union> env_blocks e" using r(3) chain_in_env[of e 0 j] by auto
  have fr1: "x \<notin> set G \<union> env_blocks e \<Longrightarrow> nx1 x = nx x" for x by (rule refill_frame[OF r(1) rep frG])
  have pt: "per_thread_list_p p = None" "\<not> mempool_lock p" using cen rep by (auto simp: central_pool_def pool_rep_def)
  have st1: "static_blocks p1 = static_blocks p" "heap_allowed_blocks_count p1 = heap_allowed_blocks_count p"
    "heap_free_blocks_count p1 = heap_free_blocks_count p"
    using c1 r(4) by (auto simp: pool_cfg_def same_config_def)
  have run: "mempool_mheap_get_mem_block e h (nx, p, fr) =
      (case head_p p1 of Some b \<Rightarrow> Some (global_take b (nx1, p1, fr)) | None \<Rightarrow> Some (heap_take e h (nx1, p1, fr)))"
    using pt r(1) by (auto simp: mempool_mheap_get_mem_block_def split: option.splits)
  have start: "head_p p1 = (case G @ bs of [] \<Rightarrow> None | b # _ \<Rightarrow> Some b)"
    using r(2) lseg_start by (auto simp: pool_rep_def)
  show ?thesis
  proof (cases "G @ bs")
    case Nil
    let ?q = "p1\<lparr>heap_allocated_blocks_count := heap_allocated_blocks_count p1 + 1,
      heap_free_blocks_count := heap_free_blocks_count p1 - 1,
      heap_allocation_fail_blocks_count := (if ev_heap e = None then heap_allocation_fail_blocks_count p1 + 1
         else heap_allocation_fail_blocks_count p1)\<rparr>"
    let ?r = "p1\<lparr>allocation_fail_blocks_count := allocation_fail_blocks_count p1 + 1\<rparr>"
    have run': "mempool_mheap_get_mem_block e h (nx, p, fr) = Some (heap_take e h (nx1, p1, fr))"
      using run start Nil by simp
    have sal1: "static_allocated_blocks_count p1 = of_nat (card (held 0 H))" using r(6) Nil by simp
    have G: "G = []" using Nil by simp
    show ?thesis
    proof (cases "h \<noteq> 0 \<and> heap_free_blocks_count p1 \<noteq> 0")
      case True
      then have f1: "unat (heap_free_blocks_count p1 - 1) = unat (heap_free_blocks_count p) - 1" "unat (heap_free_blocks_count p) > 0"
        using st1(3) by (simp_all add: unat_minus_one unat_gt_0)
      have rep': "pool_rep (case ev_heap e of None \<Rightarrow> nx1 | Some b \<Rightarrow> nx1(b := None), ?q, fr) [] []"
        by (rule pool_rep_heap) (use r(2) Nil in simp_all)
      have cfg: "pool_cfg ?q = pool_cfg p" using c1 by (simp add: pool_cfg_def)
      show ?thesis
      proof (cases "ev_heap e")
        case None
        have "held_inv (nx1, ?q, fr) H []"
          using rep' None central_pool_cong[OF cfg] cen fin ran ok len st1 sal1 hp f1 by (simp add: held_inv_def)
        then show ?thesis unfolding run' using True None cfg fr1 G
          by (intro exI[of _ MEMPOOL_ERROR_MEM_ALLOCATION_FROM_HEAP_FAILURE] exI[of _ None] exI[of _ h] exI[of _ nx1]
              exI[of _ ?q] exI[of _ "[]"]) (simp add: heap_take_cases)
      next
        case (Some b)
        have b: "b \<notin> dom H" using fresh Some by (auto simp: env_fresh_def)
        have b1: "b \<notin> held 1 H" using b held_dom(3)[of 1 H] by blast
        have "card (held 1 (H(b \<mapsto> 1))) = Suc (card (held 1 H))"
          using held_upd[OF b, of 1 1] b1 fh[of 1] by simp
        moreover have "held 0 (H(b \<mapsto> 1)) = held 0 H" using held_upd[OF b, of 0 1] by simp
        moreover have "ran (H(b \<mapsto> 1)) \<subseteq> {0, 1}" using ran b by (auto simp: ran_def)
        ultimately have "held_inv (nx1(b := None), ?q, fr) (H(b \<mapsto> 1)) []"
          using rep' Some central_pool_cong[OF cfg] cen fin ok len st1 sal1 hp f1 by (simp add: held_inv_def)
        moreover have "b \<in> env_blocks e" using Some by (simp add: env_blocks_def)
        ultimately show ?thesis unfolding run' using True Some cfg b fr1 G
          by (intro exI[of _ MEMPOOL_SUCCESS] exI[of _ "Some b"] exI[of _ 1] exI[of _ "nx1(b := None)"]
              exI[of _ ?q] exI[of _ "[]"]) (simp add: heap_take_cases)
      qed
    next
      case False
      have "pool_rep (nx1, ?r, fr) [] []"
        using pool_rep_heap[of nx1 p1 fr "[]" "[]" None ?r fr] r(2) Nil by simp
      moreover have cfg: "pool_cfg ?r = pool_cfg p" using c1 by (simp add: pool_cfg_def)
      ultimately have "held_inv (nx1, ?r, fr) H []"
        using central_pool_cong[OF cfg] cen fin ran ok len st1 sal1 hp by (simp add: held_inv_def)
      moreover have "heap_take e h (nx1, p1, fr) = ((MEMPOOL_FAILURE, None, h), nx1, ?r, fr)"
        by (simp only: heap_take_cases False if_False)
      ultimately show ?thesis unfolding run' using cfg fr1 G
        by (intro exI[of _ MEMPOOL_FAILURE] exI[of _ None] exI[of _ h] exI[of _ nx1] exI[of _ ?r] exI[of _ "[]"]) simp
    qed
  next
    case (Cons b G')
    obtain nx2 p2 where t: "global_take b (nx1, p1, fr) = ((MEMPOOL_SUCCESS, Some b, 0), nx2, p2, fr)"
      "pool_rep (nx2, p2, fr) G' []" "same_config p1 p2"
      "static_allocated_blocks_count p2 = static_allocated_blocks_count p1"
      using global_take_rep r(2) unfolding Cons by blast
    have cfg: "pool_cfg p2 = pool_cfg p" using global_take_cfg[OF t(1)] c1 by simp
    have st2: "static_blocks p2 = static_blocks p" "heap_allowed_blocks_count p2 = heap_allowed_blocks_count p"
      "heap_free_blocks_count p2 = heap_free_blocks_count p"
      using cfg st1(3) t(3) by (simp_all add: pool_cfg_def same_config_def)
    have mem: "set (b # G') = set G \<union> set bs" using arg_cong[OF Cons, of set] by simp
    have b: "b \<notin> dom H" "set G' \<inter> dom H = {}" using mem dis bs by auto
    have all: "\<forall>x\<in>set (G @ bs). node_ok x" "distinct (G @ bs)" using r(2) by (simp_all add: pool_rep_def)
    have bG: "b \<notin> set G'" "node_ok b" using all unfolding Cons by simp_all
    have b0: "b \<notin> held 0 H" using b(1) held_dom(3)[of 0 H] by blast
    have c0: "card (held 0 (H(b \<mapsto> 0))) = Suc (card (held 0 H))"
      using held_upd[OF b(1), of 0 0] b0 fh[of 0] by simp
    have h0: "held 1 (H(b \<mapsto> 0)) = held 1 H" "held 0 (H(b \<mapsto> 0)) = insert b (held 0 H)"
      using held_upd[OF b(1), of 1 0] held_upd[OF b(1), of 0 0] by simp_all
    have ln: "length G + length bs = Suc (length G')" using arg_cong[OF Cons, of length] by simp
    then have e: "length G + card (held 0 H) + length bs = length G' + card (held 0 (H(b \<mapsto> 0)))" using c0 by simp
    have "ran (H(b \<mapsto> 0)) \<subseteq> {0, 1}" using ran b(1) by (auto simp: ran_def)
    then have "held_inv (nx2, p2, fr) (H(b \<mapsto> 0)) G'"
      using t(2,4) central_pool_cong[OF cfg] cen fin ok b bG h0 st2 hp r(5,6) unfolding e by (simp add: held_inv_def)
    moreover have "set G' \<subseteq> set G \<union> env_blocks e" "b \<in> set G \<union> env_blocks e" using bse Cons by auto
    moreover have "nx2 x = nx x" if "x \<notin> set G \<union> env_blocks e" for x
    proof -
      have "nx2 = nx1(b := None)" using t(1) by (simp add: global_take_def Let_def)
      then show ?thesis using that fr1 \<open>b \<in> set G \<union> env_blocks e\<close> by auto
    qed
    ultimately show ?thesis using run start Cons t(1) cfg b(1)
      by (intro exI[of _ MEMPOOL_SUCCESS] exI[of _ "Some b"] exI[of _ 0] exI[of _ nx2] exI[of _ p2] exI[of _ G']) simp
  qed
qed

lemma release_to_global_cfg: "release_to_global b (nx, p, fr) = (nx', p', fr') \<Longrightarrow> pool_cfg p' = pool_cfg p"
  by (auto simp: release_to_global_def Let_def pool_cfg_def split: if_splits option.splits)

lemma held_release:
  assumes inv: "held_inv (nx, p, fr) H G" and b: "H b = Some hb"
  shows "\<exists>nx' p' fr' G'. mempool_mheap_release_mem_block e b hb (nx, p, fr) = Some (MEMPOOL_SUCCESS, nx', p', fr') \<and>
    pool_cfg p' = pool_cfg p \<and> set G' \<subseteq> insert b (set G) \<and> (\<forall>x. x \<notin> insert b (set G) \<longrightarrow> nx' x = nx x) \<and>
    held_inv (nx', p', fr') (H(b := None)) G'"
proof -
  note I = held_invE[OF inv]
  have rep: "pool_rep (nx, p, fr) G []" and cen: "central_pool p" and fin: "finite (dom H)" and ran: "ran H \<subseteq> {0, 1}"
    and dis: "set G \<inter> dom H = {}" and ok: "\<forall>b\<in>held 0 H. node_ok b"
    and len: "length G + card (held 0 H) \<le> unat (static_blocks p)"
    and sal: "static_allocated_blocks_count p = of_nat (length G + card (held 0 H))"
    and hp: "unat (heap_free_blocks_count p) + card (held 1 H) \<le> unat (heap_allowed_blocks_count p)"
    using I by auto
  have fh: "finite (held f H)" for f using fin held_dom(3)[of f H] finite_subset ran by blast
  have hb: "hb = 0 \<or> hb = 1" "b \<in> held hb H" "b \<in> dom H" using ran b by (auto simp: ran_def held_def)
  have lk: "\<not> mempool_lock p" using rep by (simp add: pool_rep_def)
  have ran': "ran (H(b := None)) \<subseteq> {0, 1}" using ran by (auto simp: ran_def split: if_splits)
  have fin': "finite (dom (H(b := None)))" using fin by simp
  have ok': "\<forall>c\<in>held 0 (H(b := None)). node_ok c" using ok by (simp add: held_del)
  consider "hb = 0" | "hb = 1" using hb(1) by blast
  then show ?thesis
  proof cases
    case 1
    have bn: "b \<notin> set (G @ concat [])" "node_ok b" using dis hb ok 1 by auto
    obtain nx1 where m: "release_memset b (nx, p, fr) = (nx1, p, fr)" "pool_rep (nx1, p, fr) G []"
      using release_memset_rep[OF rep bn(1)] by blast
    obtain nx' p' fr' G' where g: "release_to_global b (nx1, p, fr) = (nx', p', fr')" "pool_rep (nx', p', fr') G' []"
      "heap_state p' = heap_state p"
      "if unat (threshold_max p) \<le> length G then G' = G \<and> fr' = fr @ [b] \<and>
         static_allocated_blocks_count p' = static_allocated_blocks_count p - 1
       else G' = G @ [b] \<and> fr' = fr \<and> static_allocated_blocks_count p' = static_allocated_blocks_count p"
      using release_to_global_rep[OF m(2) bn] by blast
    have cfg: "pool_cfg p' = pool_cfg p" using release_to_global_cfg[OF g(1)] .
    have st: "static_blocks p' = static_blocks p" "heap_allowed_blocks_count p' = heap_allowed_blocks_count p"
      "heap_free_blocks_count p' = heap_free_blocks_count p"
      using cfg g(3) by (simp_all add: pool_cfg_def)
    have c0: "card (held 0 H) = Suc (card (held 0 (H(b := None))))"
      using hb(2) 1 fh[of 0] card_Suc_Diff1[of "held 0 H" b] by (simp add: held_del)
    have c1: "held 1 (H(b := None)) = held 1 H" using b 1 by (auto simp: held_def)
    have sG: "set G' \<inter> dom (H(b := None)) = {}" using g(4) dis by (auto split: if_splits)
    have "length G' + card (held 0 (H(b := None))) \<le> unat (static_blocks p') \<and>
        static_allocated_blocks_count p' = of_nat (length G' + card (held 0 (H(b := None))))"
      using g(4) len sal c0 st(1) by (cases "unat (threshold_max p) \<le> length G") auto
    then have "held_inv (nx', p', fr') (H(b := None)) G'"
      unfolding held_inv_def using g(2) central_pool_cong[OF cfg] cen fin' ran' sG ok' hp st c1 by simp
    moreover have "set G' \<subseteq> insert b (set G)" using g(4) by (auto split: if_splits)
    moreover have "nx' x = nx x" if "x \<notin> insert b (set G)" for x
    proof -
      have "nx1 x = nx x" using m(1) that by (auto simp: release_memset_def split: if_splits)
      moreover have "tail_p p = Some q \<Longrightarrow> q \<noteq> x" for q using tail_in[OF rep] that by auto
      ultimately show ?thesis using g(1) that by (auto simp: release_to_global_def Let_def split: if_splits option.splits)
    qed
    moreover have "mempool_mheap_release_mem_block e b hb (nx, p, fr) = Some (MEMPOOL_SUCCESS, nx', p', fr')"
      using cen lk m(1) g(1) 1 by (simp add: mempool_mheap_release_mem_block_def central_pool_def Let_def)
    ultimately show ?thesis using cfg by (intro exI[of _ nx'] exI[of _ p'] exI[of _ fr'] exI[of _ G']) simp
  next
    case 2
    let ?q = "p\<lparr>heap_released_blocks_count := heap_released_blocks_count p + 1,
      heap_free_blocks_count := heap_free_blocks_count p + 1\<rparr>"
    have c1: "card (held 1 H) = Suc (card (held 1 (H(b := None))))"
      using hb(2) 2 fh[of 1] card_Suc_Diff1[of "held 1 H" b] by (simp add: held_del)
    have c0: "held 0 (H(b := None)) = held 0 H" using b 2 by (auto simp: held_def)
    have "unat (heap_free_blocks_count p) < unat (heap_allowed_blocks_count p)" using hp c1 by simp
    then have "unat (heap_free_blocks_count p) + 1 < 2 ^ 32" using unat_u32_less[of "heap_allowed_blocks_count p"] by simp
    then have f: "unat (heap_free_blocks_count p + 1) = unat (heap_free_blocks_count p) + 1"
      by (simp add: unat_word_ariths)
    have cfg: "pool_cfg ?q = pool_cfg p" by (simp add: pool_cfg_def)
    have "pool_rep (nx, ?q, fr @ [b]) G []" using rep by (simp add: pool_rep_def)
    moreover have "set G \<inter> dom (H(b := None)) = {}" using dis by auto
    ultimately have "held_inv (nx, ?q, fr @ [b]) (H(b := None)) G"
      unfolding held_inv_def using central_pool_cong[OF cfg] cen fin' ran' ok' len sal c0 c1 hp f by simp
    moreover have "mempool_mheap_release_mem_block e b hb (nx, p, fr) = Some (MEMPOOL_SUCCESS, nx, ?q, fr @ [b])"
      using lk 2 by (simp add: mempool_mheap_release_mem_block_def)
    ultimately show ?thesis using cfg
      by (intro exI[of _ nx] exI[of _ ?q] exI[of _ "fr @ [b]"] exI[of _ G]) (simp add: subset_insertI)
  qed
qed

section \<open>Behind the front end\<close>

text \<open>The pool at \<open>a\<close>, with at most \<open>lim\<close> blocks, and the blocks it has handed out. The requests see
  memory from \<^verbatim>\<open>calloc\<close> that is not in use.\<close>

definition pool_ok :: "addr \<Rightarrow> nat \<Rightarrow> mem_sys \<Rightarrow> (addr \<rightharpoonup> u8) \<Rightarrow> bool" where
  "pool_ok a lim m H \<longleftrightarrow> (\<exists>p G. ms_pools m a = Some p \<and> provider_of 0 m = Some mheap_callbacks \<and>
     held_inv (ms_links m, p, ms_freed m) H G \<and> unat (static_blocks p) + unat (heap_allowed_blocks_count p) \<le> lim)"

definition calls_fresh :: "addr \<Rightarrow> mem_env \<Rightarrow> mem_sys \<Rightarrow> (addr \<rightharpoonup> u8) \<Rightarrow> bool" where
  "calls_fresh a e m H \<longleftrightarrow> (\<forall>p G. ms_pools m a = Some p \<longrightarrow> pool_rep (ms_links m, p, ms_freed m) G [] \<longrightarrow>
     env_fresh e (set G \<union> dom H))"

interpretation pool: block_pool "pool_ok a lim" "calls_fresh a" "\<lambda>e. mempool_get_mem_block e (Some a)"
  "\<lambda>e b. mempool_release_mem_block e (Some a) (Some b)" lim for a lim
proof unfold_locales
  fix m H e h
  assume ok: "pool_ok a lim m H" and fr: "calls_fresh a e m H"
  obtain p G where p: "ms_pools m a = Some p" "provider_of 0 m = Some mheap_callbacks"
    "held_inv (ms_links m, p, ms_freed m) H G" "unat (static_blocks p) + unat (heap_allowed_blocks_count p) \<le> lim"
    using ok unfolding pool_ok_def by blast
  have "pool_rep (ms_links m, p, ms_freed m) G []" using p(3) by (simp add: held_inv_def)
  then have "env_fresh e (set G \<union> dom H)" using fr p(1) unfolding calls_fresh_def by blast
  note gl = held_get[OF p(3) this, of h]
  obtain rc ob hb nx' p' G' where g:
    "mempool_mheap_get_mem_block e h (ms_links m, p, ms_freed m) = Some ((rc, ob, hb), nx', p', ms_freed m)"
    "pool_cfg p' = pool_cfg p" "case ob of None \<Rightarrow> rc \<noteq> MEMPOOL_SUCCESS \<and> held_inv (nx', p', ms_freed m) H G'
     | Some b \<Rightarrow> rc = MEMPOOL_SUCCESS \<and> b \<in> set G \<union> env_blocks e \<and> b \<notin> dom H \<and> held_inv (nx', p', ms_freed m) (H(b \<mapsto> hb)) G'"
    using gl by (elim exE conjE) (rule that)
  let ?m = "put_pool a (nx', p', ms_freed m) m"
  have t: "mempool_type p = 0" using p(3) by (simp add: held_inv_def central_pool_def)
  have run: "mempool_get_mem_block e (Some a) h m = Some ((rc, ob, hb), ?m)"
    using p(1,2) g(1) t by (simp add: mempool_get_mem_block_def mheap_callbacks_def)
  have put: "pool_ok a lim ?m K" if "held_inv (nx', p', ms_freed m) K G'" for K
    unfolding pool_ok_def using that p(2,4) g(2)
    by (intro exI[of _ p'] exI[of _ G']) (simp add: put_pool_def provider_of_def pool_cfg_def)
  show "\<exists>rc ob hb m'. mempool_get_mem_block e (Some a) h m = Some ((rc, ob, hb), m') \<and>
      (case ob of None \<Rightarrow> rc \<noteq> MEMPOOL_SUCCESS \<and> pool_ok a lim m' H
       | Some b \<Rightarrow> rc = MEMPOOL_SUCCESS \<and> b \<notin> dom H \<and> pool_ok a lim m' (H(b \<mapsto> hb)))"
    using run g(3) put by (intro exI[of _ rc] exI[of _ ob] exI[of _ hb] exI[of _ ?m]) (auto split: option.splits)
next
  fix m H b hb e
  assume ok: "pool_ok a lim m H" and b: "H b = Some hb"
  obtain p G where p: "ms_pools m a = Some p" "provider_of 0 m = Some mheap_callbacks"
    "held_inv (ms_links m, p, ms_freed m) H G" "unat (static_blocks p) + unat (heap_allowed_blocks_count p) \<le> lim"
    using ok unfolding pool_ok_def by blast
  from held_release[OF p(3) b, of e] obtain nx' p' fr' G' where g:
    "mempool_mheap_release_mem_block e b hb (ms_links m, p, ms_freed m) = Some (MEMPOOL_SUCCESS, nx', p', fr')"
    "pool_cfg p' = pool_cfg p" "held_inv (nx', p', fr') (H(b := None)) G'" by blast
  let ?m = "put_pool a (nx', p', fr') m"
  have t: "mempool_type p = 0" using p(3) by (simp add: held_inv_def central_pool_def)
  have "mempool_release_mem_block e (Some a) (Some b) hb m = Some (MEMPOOL_SUCCESS, ?m)"
    using p(1,2) g(1) t by (simp add: mempool_release_mem_block_def mheap_callbacks_def)
  moreover have "pool_ok a lim ?m (H(b := None))"
    unfolding pool_ok_def using p(2,4) g(2,3)
    by (intro exI[of _ p'] exI[of _ G']) (simp add: put_pool_def provider_of_def pool_cfg_def)
  ultimately show "\<exists>m'. mempool_release_mem_block e (Some a) (Some b) hb m = Some (MEMPOOL_SUCCESS, m') \<and>
      pool_ok a lim m' (H(b := None))" by blast
next
  fix m H
  assume "pool_ok a lim m H"
  then obtain p G where p: "held_inv (ms_links m, p, ms_freed m) H G"
    "unat (static_blocks p) + unat (heap_allowed_blocks_count p) \<le> lim" unfolding pool_ok_def by blast
  then have r: "ran H \<subseteq> {0, 1}" and f: "finite (dom H)" by (auto simp: held_inv_def)
  have "card (dom H) \<le> card (held 0 H) + card (held 1 H)"
    unfolding held_dom(1)[OF r] by (rule card_Un_le)
  then show "finite (dom H) \<and> card (dom H) \<le> lim" using f p by (simp add: held_inv_def)
qed

section \<open>A new pool\<close>

lemma create_cfg:
  assumes "mempool_create_mheap_pool e (Some pp) (nx, pool_for name pp, fr0) = Some (MEMPOOL_SUCCESS, nx', Some p, fr)"
    "\<not> pp_list_per_thread_required pp"
  shows "pool_cfg p = (pp_static_blocks pp, pp_replenish_count pp, pp_threshold_max pp, pp_max_blocks pp - pp_static_blocks pp, 0, None)"
  using assms by (auto simp: mempool_create_mheap_pool_def mempool_set_threshold_values_def set_mempool_attributes_def
      pool_for_def zero_pool_def mheap_prepare_def Let_def pool_cfg_def split: if_splits prod.splits option.splits)

text \<open>The thresholds of the pools in the sources are below their static blocks.\<close>

definition small_params :: "mempool_params \<Rightarrow> bool" where
  "small_params pp \<longleftrightarrow> pp_mempool_type pp = 0 \<and> \<not> pp_list_per_thread_required pp \<and>
     unat (pp_threshold_max pp) \<le> unat (pp_static_blocks pp) \<and> unat (pp_replenish_count pp) \<le> unat (pp_static_blocks pp) \<and>
     unat (pp_static_blocks pp) < 2 ^ 30 \<and> pp_static_blocks pp \<le> pp_max_blocks pp"

lemma create_pool_ok:
  assumes prov: "provider_of 0 m = Some mheap_callbacks" and pp: "small_params pp" and fresh: "env_fresh e {}"
    and cr: "mempool_create_pool e ob (Some nm) (Some pp) True m = Some (MEMPOOL_SUCCESS, oa, m1)"
  shows "\<exists>a. ob = Some a \<and> oa = Some a \<and> pool_ok a (unat (pp_max_blocks pp)) m1 Map.empty"
proof -
  have pp': "pp_mempool_type pp = 0" "\<not> pp_list_per_thread_required pp" using pp by (simp_all add: small_params_def)
  obtain a nm' ix nx p fr where c: "ob = Some a" "oa = Some a"
    "mempool_create_mheap_pool e (Some pp) (ms_links m, pool_for nm' pp, ms_freed m) = Some (MEMPOOL_SUCCESS, nx, p, fr)"
    "m1 = m\<lparr>mempool_index_g := ix, ms_links := nx, ms_freed := fr, ms_pools := (ms_pools m)(a := p),
       mempool_list_g := mempool_list_g m @ [a]\<rparr>"
    using cr prov pp' by (auto simp: mempool_create_pool_def mheap_callbacks_def Let_def split: if_splits option.splits prod.splits)
  obtain q where q: "p = Some q"
    using c(3) by (auto simp: mempool_create_mheap_pool_def Let_def split: if_splits prod.splits option.splits Option.bind_splits)
  note cfg = create_cfg[OF c(3)[unfolded q] pp'(2)]
  have pt: "per_thread_list_p q = None" using cfg by (simp add: pool_cfg_def)
  obtain G where G: "pool_rep (nx, q, fr) G []" "G = chain_blocks (ev_chain e) 0 (unat (pp_threshold_max pp))"
    "static_allocated_blocks_count q = of_nat (length G)"
    "heap_state q = (pp_max_blocks pp - pp_static_blocks pp, 0, pp_max_blocks pp - pp_static_blocks pp)"
    using create_rep[OF c(3)[unfolded q] refl fresh] pt by auto
  have st: "static_blocks q = pp_static_blocks pp" "threshold_max q = pp_threshold_max pp"
    "replenish_count q = pp_replenish_count pp" "mempool_type q = 0"
    "heap_allowed_blocks_count q = pp_max_blocks pp - pp_static_blocks pp"
    "heap_free_blocks_count q = pp_max_blocks pp - pp_static_blocks pp"
    using cfg G(4) by (simp_all add: pool_cfg_def)
  have "length G \<le> unat (pp_static_blocks pp)"
    using G(2) chain_blocks_length[of "ev_chain e" 0 "unat (pp_threshold_max pp)"] pp by (simp add: small_params_def)
  then have "held_inv (nx, q, fr) Map.empty G"
    using G(1,3) pt st pp by (simp add: held_inv_def central_pool_def small_params_def held_def)
  moreover have "unat (static_blocks q) + unat (heap_allowed_blocks_count q) = unat (pp_max_blocks pp)"
    using st pp by (simp add: small_params_def unat_sub word_le_nat_alt)
  ultimately have "pool_ok a (unat (pp_max_blocks pp)) m1 Map.empty"
    unfolding pool_ok_def using c(4) q prov by (intro exI[of _ q] exI[of _ G]) (simp add: provider_of_def)
  then show ?thesis using c by simp
qed

end
