(* ===== verification/Xtn.thy ===== *)
theory Xtn
  imports Mempool_Bound Mchash_Client
begin

text \<open>
  The transactions of the controller (\<^verbatim>\<open>coreapp/cntlr_xtn.c\<close>): a request to a switch that will be
  answered is stamped with a transaction id and recorded with its callback in a safe-reference table;
  the answer is matched by the id; a record that is not answered in time is removed by its timer. A record
  deleted from the table is released after a grace period. Of the timers the model keeps which records
  have one running. The code of the applications is not modelled, their calls are recorded.
\<close>

section \<open>Data\<close>

abbreviation (input) OFPT_MULTIPART_REQUEST :: u8 where "OFPT_MULTIPART_REQUEST \<equiv> 18"
abbreviation (input) OFPMP_QUEUE :: u16 where "OFPMP_QUEUE \<equiv> 5"
abbreviation (input) OF_TRANSACTION_TABLE_MAX_NO_OF_NODES :: u32 where "OF_TRANSACTION_TABLE_MAX_NO_OF_NODES \<equiv> 5000"
abbreviation (input) TIMER_SUCCESS :: int where "TIMER_SUCCESS \<equiv> 0"

record 'c cntlr_transactn_rec =
  rec_safe_ref :: "u32 \<times> u32"
  rc_xid :: u32
  rc_dp_handle :: u64
  rc_msg_type :: u8
  rc_msg_subtype :: u16
  rc_time_stamp :: u64
  rc_callback_fn :: "'c option"
  rc_app_pvt_arg1 :: ptr
  rc_app_pvt_arg2 :: ptr
  rc_is_heap :: u8

definition zero_rec :: "'c cntlr_transactn_rec" where
  "zero_rec = \<lparr>rec_safe_ref = (0, 0), rc_xid = 0, rc_dp_handle = 0, rc_msg_type = 0, rc_msg_subtype = 0, rc_time_stamp = 0,
     rc_callback_fn = None, rc_app_pvt_arg1 = None, rc_app_pvt_arg2 = None, rc_is_heap = 0\<rparr>"

text \<open>A callback called because its request was not answered: with the kind of the request and, but for
  the description of a switch, the handle of the datapath.\<close>

datatype 'c timeout_call = Timeout 'c u16 "u64 option"

text \<open>\<open>xt_timer\<close> are the records whose timer runs.\<close>

record 'c xtn_sys =
  cntlr_xtn_table :: "mchash_table option"
  cntlr_xtn_seq_no_g :: u32
  cntlr_xtn_hash_table_init_value_g :: u32
  cntlr_xtn_nodes_mempool_g :: ptr
  xt_mem :: mem_sys
  xt_recs :: "addr \<Rightarrow> 'c cntlr_transactn_rec"
  xt_timer :: "addr \<Rightarrow> bool"
  xt_timeouts :: "'c timeout_call list"

text \<open>What the memory pools get, the value of the uninitialised \<^verbatim>\<open>is_heap\<close>, the code of starting a timer,
  the byte order of the host, the time, and for the start: a random number, the block of the pool, and
  what \<^verbatim>\<open>mchash_table_create\<close> gets.\<close>

record xtn_env =
  xe_mem :: mem_env
  xe_is_heap :: u8
  xe_timer :: int
  xe_little_endian :: bool
  xe_time :: u64
  xe_rand :: u32
  xe_pool :: ptr
  xe_table :: "u64 option"
  xe_array_ok :: bool
  xe_links :: "addr \<Rightarrow> mchash_table_link"

section \<open>The hash of a transaction\<close>

definition OF_DOBBS_MIX :: "u32 \<times> u32 \<times> u32 \<Rightarrow> u32 \<times> u32 \<times> u32" where
  "OF_DOBBS_MIX = (\<lambda>(a0, b0, c0).
     let a1 = (a0 - b0 - c0) XOR drop_bit 13 c0; b1 = (b0 - c0 - a1) XOR push_bit 8 a1;
         c1 = (c0 - a1 - b1) XOR drop_bit 13 b1; a2 = (a1 - b1 - c1) XOR drop_bit 12 c1;
         b2 = (b1 - c1 - a2) XOR push_bit 16 a2; c2 = (c1 - a2 - b2) XOR drop_bit 5 b2;
         a3 = (a2 - b2 - c2) XOR drop_bit 3 c2; b3 = (b2 - c2 - a3) XOR push_bit 10 a3;
         c3 = (c2 - a3 - b3) XOR drop_bit 15 b3
     in (a3, b3, c3))"

text \<open>The table size is the unparenthesised \<^verbatim>\<open>5000/5\<close>, so that the code computes \<open>c % 5000 / 5\<close>.\<close>

definition OF_TRANSACTION_TABLE_HASH :: "u32 \<Rightarrow> u32 \<Rightarrow> u32 \<Rightarrow> u32 \<Rightarrow> u32" where
  "OF_TRANSACTION_TABLE_HASH xid hi lo initval =
     (let (a, b, c) = OF_DOBBS_MIX (0x9e3779b9 + xid, 0x9e3779b9 + hi, initval + lo)
      in c mod OF_TRANSACTION_TABLE_MAX_NO_OF_NODES div 5)"

text \<open>The words \<^verbatim>\<open>ul[0]\<close> and \<^verbatim>\<open>ul[1]\<close> of a datapath id.\<close>

definition id_ul0 :: "bool \<Rightarrow> u64 \<Rightarrow> u32" where
  "id_ul0 le d = (if le then ucast d else ucast (drop_bit 32 d))"

definition id_ul1 :: "bool \<Rightarrow> u64 \<Rightarrow> u32" where
  "id_ul1 le d = (if le then ucast (drop_bit 32 d) else ucast d)"

definition xtn_hash :: "xtn_env \<Rightarrow> u32 \<Rightarrow> u64 \<Rightarrow> 'c xtn_sys \<Rightarrow> u32" where
  "xtn_hash e xid d s = OF_TRANSACTION_TABLE_HASH xid (id_ul0 (xe_little_endian e) d) (id_ul1 (xe_little_endian e) d)
     (cntlr_xtn_hash_table_init_value_g s)"

section \<open>Creation of the table\<close>

text \<open>The maximum and the static number of entries.\<close>

definition cntlr_get_xtn_node_mempool_entries :: "u32 \<times> u32" where
  "cntlr_get_xtn_node_mempool_entries = (OF_TRANSACTION_TABLE_MAX_NO_OF_NODES, 5000 * 4 div 5)"

text \<open>\<^verbatim>\<open>sizeof(cntlr_transactn_rec_t)\<close> is a parameter. The initialisation runs once, when the global pointer
  to the table is NULL, so that its error path has no table to delete.\<close>

definition xtn_pool_params :: "u32 \<Rightarrow> mempool_params" where
  "xtn_pool_params sz = (let (mx, st) = cntlr_get_xtn_node_mempool_entries in
     \<lparr>pp_mempool_type = 0, pp_block_size = sz, pp_max_blocks = mx,
      pp_memset_not_required = False, pp_list_per_thread_required = False, pp_noof_blocks_to_move = 0,
      pp_static_blocks = st, pp_threshold_min = st div 10, pp_threshold_max = st div 3,
      pp_replenish_count = st div 10\<rparr>)"

definition cntlr_xtn_table_init :: "xtn_env \<Rightarrow> u32 \<Rightarrow> 'c xtn_sys \<Rightarrow> (int \<times> 'c xtn_sys) option" where
  "cntlr_xtn_table_init e sz s =
    (let cleanup = (\<lambda>u. Option.bind (case cntlr_xtn_nodes_mempool_g u of None \<Rightarrow> Some u
             | Some p \<Rightarrow> map_option (\<lambda>(_, m). u\<lparr>xt_mem := m\<rparr>) (mempool_delete_pool (Some p) (xt_mem u)))
           (\<lambda>v. Some (OF_FAILURE, v)))
     in Option.bind (mempool_create_pool (xe_mem e) (xe_pool e) (Some ''of_Xtn_Nodes_pool'') (Some (xtn_pool_params sz)) True (xt_mem s))
       (\<lambda>(rc, p, m1).
         let s1 = s\<lparr>xt_mem := m1, cntlr_xtn_nodes_mempool_g := (if rc = MEMPOOL_SUCCESS then p else cntlr_xtn_nodes_mempool_g s)\<rparr> in
         if rc \<noteq> MEMPOOL_SUCCESS then cleanup s1
         else let s2 = s1\<lparr>cntlr_xtn_hash_table_init_value_g := xe_rand e\<rparr> in
           Option.bind (mchash_table_create (5000 div 5 + 1) 5000 True (xe_table e) (xe_array_ok e) (xe_links e)) (\<lambda>r. case r of
               Created t \<Rightarrow> Some (OF_SUCCESS, s2\<lparr>cntlr_xtn_table := Some t, cntlr_xtn_seq_no_g := 0\<rparr>)
             | Create_failed _ _ \<Rightarrow> cleanup s2)))"

section \<open>Recording and finding\<close>

definition next_xid :: "u32 \<Rightarrow> u32" where
  "next_xid x = (if x + 1 = 0 then 1 else x + 1)"

text \<open>\<^verbatim>\<open>htonl\<close> of the id in bytes 4 to 7 of the message.\<close>

definition stamp_xid :: "u32 \<Rightarrow> u8 list \<Rightarrow> u8 list" where
  "stamp_xid x b = b[4 := ucast (drop_bit 24 x), 5 := ucast (drop_bit 16 x), 6 := ucast (drop_bit 8 x), 7 := ucast x]"

text \<open>The kind of a multipart request, as the host reads its two bytes.\<close>

definition host_u16 :: "bool \<Rightarrow> u8 \<Rightarrow> u8 \<Rightarrow> u16" where
  "host_u16 le b0 b1 = (if le then push_bit 8 (ucast b1) OR ucast b0 else push_bit 8 (ucast b0) OR ucast b1)"

definition new_rec :: "bool \<Rightarrow> u32 \<Rightarrow> u8 list \<Rightarrow> u64 \<Rightarrow> 'c option \<Rightarrow> ptr \<Rightarrow> ptr \<Rightarrow> u8 \<Rightarrow> 'c cntlr_transactn_rec" where
  "new_rec le x msg h cb a1 a2 hb = zero_rec\<lparr>rc_xid := x, rc_dp_handle := h, rc_msg_type := msg ! 1,
     rc_msg_subtype := (if msg ! 1 = OFPT_MULTIPART_REQUEST then host_u16 le (msg ! 8) (msg ! 9) else 0),
     rc_callback_fn := cb, rc_app_pvt_arg1 := a1, rc_app_pvt_arg2 := a2, rc_is_heap := hb\<rparr>"

text \<open>The code, the reference and the message with its id. \<open>h\<close> and \<open>d\<close> are handle and id of the datapath.
  Starting a timer can fail with other codes than \<^verbatim>\<open>OF_FAILURE\<close>, which are not noticed.\<close>

definition cntlr_record_xtn_details ::
  "xtn_env \<Rightarrow> u8 list \<Rightarrow> u64 \<Rightarrow> u64 \<Rightarrow> 'c option \<Rightarrow> ptr \<Rightarrow> ptr \<Rightarrow> 'c xtn_sys \<Rightarrow>
   (int \<times> (u32 \<times> u32) option \<times> u8 list \<times> 'c xtn_sys) option" where
  "cntlr_record_xtn_details e msg h d cb a1 a2 s =
    Option.bind (mempool_get_mem_block (xe_mem e) (cntlr_xtn_nodes_mempool_g s) (xe_is_heap e) (xt_mem s)) (\<lambda>((rc, b, hb), m1).
      let s0 = s\<lparr>xt_mem := m1\<rparr> in
      if rc \<noteq> OF_SUCCESS then Some (OF_FAILURE, None, msg, s0)
      else case b of None \<Rightarrow> None
      | Some n \<Rightarrow>
        if length msg < 8 \<or> msg ! 1 = OFPT_MULTIPART_REQUEST \<and> length msg < 10 then None
        else
          let x = next_xid (cntlr_xtn_seq_no_g s0);
              s1 = s0\<lparr>cntlr_xtn_seq_no_g := x, xt_recs := (xt_recs s0)(n := new_rec (xe_little_endian e) x msg h cb a1 a2 hb)\<rparr>;
              msg1 = stamp_xid x msg
          in if xe_timer e = OF_FAILURE then Some (OF_FAILURE, None, msg1, s1)
          else let s2 = s1\<lparr>xt_timer := (xt_timer s1)(n := xe_timer e = TIMER_SUCCESS)\<rparr> in
            (case cntlr_xtn_table s2 of None \<Rightarrow> None
             | Some t \<Rightarrow> Option.bind (MCHASH_APPEND_NODE (xtn_hash e x d s2) n t) (\<lambda>(ref, t1).
                 let s3 = s2\<lparr>cntlr_xtn_table := Some t1\<rparr> in
                 case ref of None \<Rightarrow> Some (OF_FAILURE, None, msg1, s3)
                 | Some r \<Rightarrow> Some (OF_SUCCESS, Some r, msg1,
                     s3\<lparr>xt_recs := (xt_recs s3)(n := (xt_recs s3 n)\<lparr>rec_safe_ref := r\<rparr>)\<rparr>))))"

definition cntlr_get_xtn_details :: "xtn_env \<Rightarrow> u32 \<Rightarrow> u64 \<Rightarrow> 'c xtn_sys \<Rightarrow> (int \<times> ptr) option" where
  "cntlr_get_xtn_details e xid d s = Option.bind (cntlr_xtn_table s) (\<lambda>t.
     map_option (\<lambda>p. case p of None \<Rightarrow> (OF_FAILURE, None) | Some n \<Rightarrow> (OF_SUCCESS, Some n))
       (find_in_bucket t (\<lambda>n. rc_xid (xt_recs s n) = xid) (unat (xtn_hash e xid d s))))"

section \<open>Deleting\<close>

text \<open>The RCU callback of the table.\<close>

definition cntlr_free_xtn_node_rcu :: "xtn_env \<Rightarrow> addr \<Rightarrow> 'c xtn_sys \<Rightarrow> 'c xtn_sys option" where
  "cntlr_free_xtn_node_rcu e n s =
    (let s1 = s\<lparr>xt_timer := (xt_timer s)(n := False)\<rparr> in
     map_option (\<lambda>(_, m). s1\<lparr>xt_mem := m\<rparr>)
       (mempool_release_mem_block (xe_mem e) (cntlr_xtn_nodes_mempool_g s1) (Some n) (rc_is_heap (xt_recs s1 n)) (xt_mem s1)))"

definition put_table :: "(bool \<times> mchash_table) \<Rightarrow> 'c xtn_sys \<Rightarrow> int \<times> 'c xtn_sys" where
  "put_table r s = (if fst r then OF_SUCCESS else OF_FAILURE, s\<lparr>cntlr_xtn_table := Some (snd r)\<rparr>)"

definition cntlr_del_xtn_with_rec :: "addr \<Rightarrow> 'c xtn_sys \<Rightarrow> (int \<times> 'c xtn_sys) option" where
  "cntlr_del_xtn_with_rec n s = Option.bind (cntlr_xtn_table s) (\<lambda>t. map_option (\<lambda>r. put_table r s) (MCHASH_DELETE_NODE n t))"

definition cntlr_del_xtn_with_safe_ref :: "u32 \<times> u32 \<Rightarrow> 'c xtn_sys \<Rightarrow> (int \<times> 'c xtn_sys) option" where
  "cntlr_del_xtn_with_safe_ref r s = Option.bind (cntlr_xtn_table s) (\<lambda>t.
     map_option (\<lambda>r. put_table r s) (MCHASH_DELETE_NODE_BY_REF (fst r) (snd r) t))"

text \<open>The scan goes on after a deletion, from the link of the deleted node.\<close>

partial_function (option) del_scan :: "(addr \<Rightarrow> bool) \<Rightarrow> dll_ref \<Rightarrow> mchash_table \<Rightarrow> (bool \<times> mchash_table) option" where
  "del_scan P r t = (if r = Null then Some (True, t) else if is_Head r then None
     else if P (link_node r)
     then Option.bind (MCHASH_DELETE_NODE (link_node r) t) (\<lambda>d. if \<not> fst d then Some d else del_scan P (rd_next r (snd d)) (snd d))
     else del_scan P (rd_next r t) t)"

definition cntlr_del_xtn_rec :: "xtn_env \<Rightarrow> u32 \<Rightarrow> u64 \<Rightarrow> 'c xtn_sys \<Rightarrow> (int \<times> 'c xtn_sys) option" where
  "cntlr_del_xtn_rec e xid d s = Option.bind (cntlr_xtn_table s) (\<lambda>t. let k = unat (xtn_hash e xid d s) in
     if k < length (bucket_list t)
     then map_option (\<lambda>r. put_table r s) (del_scan (\<lambda>n. rc_xid (xt_recs s n) = xid) (bk_head_next (bucket_list t ! k)) t)
     else None)"

definition cntlr_time_stamp_xtn_rec :: "xtn_env \<Rightarrow> u32 \<Rightarrow> u64 \<Rightarrow> 'c xtn_sys \<Rightarrow> 'c xtn_sys option" where
  "cntlr_time_stamp_xtn_rec e xid d s = Option.bind (cntlr_xtn_table s) (\<lambda>t.
     map_option (\<lambda>ns. s\<lparr>xt_recs := (\<lambda>n. if n \<in> set ns \<and> rc_xid (xt_recs s n) = xid
         then (xt_recs s n)\<lparr>rc_time_stamp := xe_time e\<rparr> else xt_recs s n)\<rparr>)
       (MCHASH_BUCKET_SCAN t (unat (xtn_hash e xid d s))))"

section \<open>Time-out\<close>

text \<open>The kinds of multipart requests are the numbers 0 to 13; queues have no callback.\<close>

definition clean_multipart_req_msgs :: "addr \<Rightarrow> 'c xtn_sys \<Rightarrow> 'c xtn_sys option" where
  "clean_multipart_req_msgs n s = (let r = xt_recs s n; k = rc_msg_subtype r in
     if k \<le> 13 \<and> k \<noteq> OFPMP_QUEUE
     then map_option (\<lambda>c. s\<lparr>xt_timeouts := xt_timeouts s @ [Timeout c k (if k = 0 then None else Some (rc_dp_handle r))]\<rparr>) (rc_callback_fn r)
     else Some s)"

definition cntlr_xtn_recrod_cleanup_func :: "ptr \<Rightarrow> 'c xtn_sys \<Rightarrow> 'c xtn_sys option" where
  "cntlr_xtn_recrod_cleanup_func p s = (case p of None \<Rightarrow> Some s
     | Some n \<Rightarrow> Option.bind (if rc_msg_type (xt_recs s n) = OFPT_MULTIPART_REQUEST then clean_multipart_req_msgs n s else Some s)
         (\<lambda>s1. map_option snd (cntlr_del_xtn_with_safe_ref (rec_safe_ref (xt_recs s1 n)) s1)))"

section \<open>The table of the transactions\<close>

lemma hash_less: "unat (OF_TRANSACTION_TABLE_HASH xid hi lo iv) < 1000"
proof -
  have "unat (c mod 5000 div 5) < 1000" for c :: u32
    by (simp add: unat_div_distrib unat_mod_distrib less_mult_imp_div_less)
  then show ?thesis by (simp add: OF_TRANSACTION_TABLE_HASH_def split: prod.splits)
qed

lemma del_scan_skip:
  "dl L P (ys @ zs) Null \<Longrightarrow> mt_links t = L \<Longrightarrow> \<forall>m\<in>set ys. \<not> Q m \<Longrightarrow>
   del_scan Q (first_ref (ys @ zs) Null) t = del_scan Q (first_ref zs Null) t"
proof (induction ys arbitrary: P)
  case (Cons y ys)
  have "rd_next (Link y) t = first_ref (ys @ zs) Null" using Cons.prems by (simp add: first_ref_def)
  then show ?case using Cons.IH[of "{Link y}"] Cons.prems by (simp add: del_scan.simps[of _ "Link _"])
qed simp

lemma del_scan_none:
  "dl L P zs Null \<Longrightarrow> mt_links t = L \<Longrightarrow> \<forall>m\<in>set zs. \<not> Q m \<Longrightarrow> del_scan Q (first_ref zs Null) t = Some (True, t)"
  using del_scan_skip[of L P zs "[]" t Q] by (simp add: del_scan.simps[of _ Null])

lemma del_scan_one:
  assumes inv: "mch_inv t B" and B: "B k = ys @ n # zs" and Q: "Q n" "\<forall>m\<in>set (ys @ zs). \<not> Q m"
  shows "\<exists>t'. deleted B n t (Some (True, t')) \<and> del_scan Q (bk_head_next (bucket_list t ! k)) t = Some (True, t')"
proof -
  have n: "n \<in> set (B k)" by (simp add: B)
  have k: "k < length (bucket_list t)" using inv n by (auto simp: mch_inv_def entries_ok_def)
  have d: "distinct (ys @ n # zs)" using mch_bucket(2)[OF inv k] B by simp
  have bk: "bucket_ok t k (ys @ n # zs)" using mch_bucket(1)[OF inv k] B by simp
  have dl0: "dl (mt_links t) {Null, Head k} (ys @ n # zs) Null" using bk by (simp add: bucket_ok_def)
  obtain t' k' where t': "MCHASH_DELETE_NODE n t = Some (True, t')" "n \<in> set (B k')" "mch_inv t' (B(k' := remove1 n (B k')))"
    "length (bucket_list t') = length (bucket_list t)"
    using delete_node_ok(1)[OF inv n] unfolding deleted_def by blast
  have kk: "k' = k" using mch_inv_disjoint[OF inv t'(2) n] .
  have "deleted B n t (Some (True, t'))" using delete_node_ok(1)[OF inv n] t'(1) by simp
  moreover have "bucket_ok t' k (ys @ zs)"
    using mch_bucket(1)[OF t'(3), of k] k t'(4) kk d B by (simp add: remove1_append)
  then have dl1: "dl (mt_links t') (last_refs {Null, Head k} ys) zs Null" by (simp add: bucket_ok_def dl_append)
  have "rd_next (Link n) t' = first_ref zs Null"
    using dl0 delete_keeps_link[OF inv n t'(1)] by (simp add: dl_append first_ref_def)
  then have "del_scan Q (Link n) t = Some (True, t')"
    using Q t'(1) del_scan_none[OF dl1 refl, of Q] by (simp add: del_scan.simps[of _ "Link _"])
  then have "del_scan Q (bk_head_next (bucket_list t ! k)) t = Some (True, t')"
    using del_scan_skip[OF dl0 refl, of Q] Q bk by (simp add: bucket_ok_def)
  ultimately show ?thesis by blast
qed

section \<open>Invariant\<close>

text \<open>\<open>a\<close> is the pool, \<open>P\<close> the records in the table with the datapath id each was recorded for, \<open>H\<close> the
  blocks of the pool in use. \<^verbatim>\<open>mt_rcu\<close> are the records that wait for a grace period.\<close>

definition xid_hash :: "bool \<Rightarrow> u32 \<Rightarrow> u32 \<Rightarrow> u64 \<Rightarrow> nat" where
  "xid_hash le iv xid d = unat (OF_TRANSACTION_TABLE_HASH xid (id_ul0 le d) (id_ul1 le d) iv)"

lemma xtn_hash_eq: "unat (xtn_hash e xid d s) = xid_hash (xe_little_endian e) (cntlr_xtn_hash_table_init_value_g s) xid d"
  by (simp add: xtn_hash_def xid_hash_def)

lemma xid_hash_less: "xid_hash le iv xid d < 1001"
  using hash_less[of xid "id_ul0 le d" "id_ul1 le d" iv] by (simp add: xid_hash_def)

definition recs_ok :: "bool \<Rightarrow> u32 \<Rightarrow> u32 \<Rightarrow> (addr \<Rightarrow> 'c cntlr_transactn_rec) \<Rightarrow> (addr \<Rightarrow> bool) \<Rightarrow>
    mchash_table \<Rightarrow> (nat \<Rightarrow> addr list) \<Rightarrow> (addr \<rightharpoonup> u64) \<Rightarrow> (addr \<rightharpoonup> u8) \<Rightarrow> bool" where
  "recs_ok le iv sq R tm t B P H \<longleftrightarrow>
     (\<forall>n \<in> nodes B \<union> set (mt_rcu t). H n = Some (rc_is_heap (R n)) \<and> unat (fst (rec_safe_ref (R n))) < 5000 \<and>
        0 < unat (snd (rec_safe_ref (R n))) \<and> unat (snd (rec_safe_ref (R n))) < unat (magic_no t)) \<and>
     (\<forall>n \<in> set (mt_rcu t). mch_refs t (rec_safe_ref (R n)) = None) \<and>
     (\<forall>k. \<forall>n \<in> set (B k). (\<exists>d. P n = Some d \<and> xid_hash le iv (rc_xid (R n)) d = k) \<and>
        mch_refs t (rec_safe_ref (R n)) = Some n \<and> 0 < unat (rc_xid (R n)) \<and> unat (rc_xid (R n)) \<le> unat sq) \<and>
     inj_on (\<lambda>n. rc_xid (R n)) (nodes B) \<and> unat (magic_no t) \<le> unat sq + 1 \<and>
     (\<forall>n. tm n \<longrightarrow> n \<in> nodes B \<union> set (mt_rcu t))"

definition xtn_inv :: "bool \<Rightarrow> 'c xtn_sys \<Rightarrow> addr \<Rightarrow> mchash_table \<Rightarrow> (nat \<Rightarrow> addr list) \<Rightarrow> (addr \<rightharpoonup> u64) \<Rightarrow> (addr \<rightharpoonup> u8) \<Rightarrow> bool" where
  "xtn_inv le s a t B P H \<longleftrightarrow> cntlr_xtn_nodes_mempool_g s = Some a \<and> pool_ok a 5000 (xt_mem s) H \<and>
     cntlr_xtn_table s = Some t \<and> mch_inv t B \<and> length (bucket_list t) = 1001 \<and> length (arr t) = 5000 \<and>
     dom P = nodes B \<and> distinct (mt_rcu t) \<and> nodes B \<inter> set (mt_rcu t) = {} \<and>
     recs_ok le (cntlr_xtn_hash_table_init_value_g s) (cntlr_xtn_seq_no_g s) (xt_recs s) (xt_timer s) t B P H"

lemma recs_okD:
  assumes "recs_ok le iv sq R tm t B P H"
  shows "n \<in> nodes B \<union> set (mt_rcu t) \<Longrightarrow> H n = Some (rc_is_heap (R n)) \<and> unat (fst (rec_safe_ref (R n))) < 5000 \<and>
      0 < unat (snd (rec_safe_ref (R n))) \<and> unat (snd (rec_safe_ref (R n))) < unat (magic_no t)"
    "n \<in> set (mt_rcu t) \<Longrightarrow> mch_refs t (rec_safe_ref (R n)) = None"
    "n \<in> set (B k) \<Longrightarrow> mch_refs t (rec_safe_ref (R n)) = Some n \<and> 0 < unat (rc_xid (R n)) \<and> unat (rc_xid (R n)) \<le> unat sq"
    "n \<in> set (B k) \<Longrightarrow> \<exists>d. P n = Some d \<and> xid_hash le iv (rc_xid (R n)) d = k"
    "inj_on (\<lambda>n. rc_xid (R n)) (nodes B)" "unat (magic_no t) \<le> unat sq + 1" "tm n \<Longrightarrow> n \<in> nodes B \<union> set (mt_rcu t)"
  using assms unfolding recs_ok_def by blast+

text \<open>The bucket of a pending record.\<close>

lemma xtn_bucket:
  assumes "xtn_inv le s a t B P H" "P n = Some d"
  shows "n \<in> set (B (xid_hash le (cntlr_xtn_hash_table_init_value_g s) (rc_xid (xt_recs s n)) d))"
proof -
  have "n \<in> nodes B" using assms by (auto simp: xtn_inv_def)
  then obtain k where k: "n \<in> set (B k)" by (auto simp: in_nodes)
  have r: "recs_ok le (cntlr_xtn_hash_table_init_value_g s) (cntlr_xtn_seq_no_g s) (xt_recs s) (xt_timer s) t B P H"
    using assms(1) by (simp add: xtn_inv_def)
  show ?thesis using recs_okD(4)[OF r k] k assms(2) by simp
qed

lemma get_ok:
  assumes inv: "xtn_inv le s a t B P H" and le: "xe_little_endian e = le"
  shows "cntlr_get_xtn_details e x d s = Some (case List.find (\<lambda>n. rc_xid (xt_recs s n) = x)
      (B (xid_hash le (cntlr_xtn_hash_table_init_value_g s) x d)) of None \<Rightarrow> (OF_FAILURE, None) | Some n \<Rightarrow> (OF_SUCCESS, Some n))"
proof -
  have t: "cntlr_xtn_table s = Some t" "mch_inv t B" "length (bucket_list t) = 1001" using inv by (simp_all add: xtn_inv_def)
  have "xid_hash le (cntlr_xtn_hash_table_init_value_g s) x d < length (bucket_list t)" using xid_hash_less t(3) by simp
  from find_in_bucket_ok[OF t(2) this, of "\<lambda>n. rc_xid (xt_recs s n) = x"] show ?thesis
    using t(1) le by (simp add: cntlr_get_xtn_details_def xtn_hash_eq)
qed

lemma get_pending:
  assumes inv: "xtn_inv le s a t B P H" and le: "xe_little_endian e = le" and n: "P n = Some d"
  shows "cntlr_get_xtn_details e (rc_xid (xt_recs s n)) d s = Some (OF_SUCCESS, Some n)"
proof -
  let ?k = "xid_hash le (cntlr_xtn_hash_table_init_value_g s) (rc_xid (xt_recs s n)) d"
  have nB: "n \<in> set (B ?k)" by (rule xtn_bucket[OF inv n])
  have inj: "inj_on (\<lambda>n. rc_xid (xt_recs s n)) (nodes B)" using inv by (auto simp: xtn_inv_def recs_ok_def)
  obtain m where m: "List.find (\<lambda>m. rc_xid (xt_recs s m) = rc_xid (xt_recs s n)) (B ?k) = Some m"
    using nB by (cases "List.find (\<lambda>m. rc_xid (xt_recs s m) = rc_xid (xt_recs s n)) (B ?k)") (auto simp: find_None_iff)
  then have "m \<in> nodes B" "rc_xid (xt_recs s m) = rc_xid (xt_recs s n)" using find_SomeD[OF m] nodesI by auto
  then have "m = n" using inj_onD[OF inj] nodesI[where B = B, OF nB] by blast
  then show ?thesis using m get_ok[OF inv le] by simp
qed

lemma get_sound:
  assumes inv: "xtn_inv le s a t B P H" and le: "xe_little_endian e = le"
    and g: "cntlr_get_xtn_details e x d s = Some (rc, Some n)"
  shows "rc = OF_SUCCESS \<and> n \<in> dom P \<and> rc_xid (xt_recs s n) = x"
proof -
  have "List.find (\<lambda>n. rc_xid (xt_recs s n) = x) (B (xid_hash le (cntlr_xtn_hash_table_init_value_g s) x d)) = Some n \<and> rc = OF_SUCCESS"
    using g get_ok[OF inv le, of x d] by (auto split: option.splits)
  then have "rc = OF_SUCCESS" "n \<in> nodes B" "rc_xid (xt_recs s n) = x" using find_SomeD nodesI by fast+
  then show ?thesis using inv by (simp add: xtn_inv_def)
qed

text \<open>Fields that the invariant does not depend on.\<close>

lemma xtn_inv_cong:
  assumes inv: "xtn_inv le s a t B P H" and "cntlr_xtn_nodes_mempool_g s' = cntlr_xtn_nodes_mempool_g s" "xt_mem s' = xt_mem s"
    "cntlr_xtn_table s' = cntlr_xtn_table s" "cntlr_xtn_hash_table_init_value_g s' = cntlr_xtn_hash_table_init_value_g s"
    "cntlr_xtn_seq_no_g s' = cntlr_xtn_seq_no_g s" "\<forall>n. xt_timer s' n \<longrightarrow> xt_timer s n"
    "\<forall>n. rec_safe_ref (xt_recs s' n) = rec_safe_ref (xt_recs s n) \<and> rc_xid (xt_recs s' n) = rc_xid (xt_recs s n) \<and>
       rc_is_heap (xt_recs s' n) = rc_is_heap (xt_recs s n)"
  shows "xtn_inv le s' a t B P H"
  using assms by (simp add: xtn_inv_def recs_ok_def)

section \<open>Recording keeps the invariant\<close>

text \<open>Fewer than \<open>2^32 - 2\<close> requests have been recorded.\<close>

lemma next_xid_no_wrap: "unat x + 2 < 2 ^ 32 \<Longrightarrow> unat (next_xid x) = unat x + 1"
  by (simp add: next_xid_def unat_word_ariths word_unat_eq_iff)

lemma next_magic_no_wrap: "unat x + 1 < 2 ^ 32 \<Longrightarrow> unat (next_magic x) = unat x + 1"
  by (simp add: next_magic_def unat_word_ariths word_unat_eq_iff)

text \<open>A new record in the table.\<close>

lemma recs_ok_insert:
  assumes ok: "recs_ok le iv sq R tm t B P H" and inv: "mch_inv t B" and n: "n \<notin> dom H"
    and len: "length (arr t) = 5000" and sq: "unat sq + 2 < 2 ^ 32"
    and new: "mch_inv t' (B(k := B k @ [n]))" "mch_refs t (i, magic_no t) = None"
      "mch_refs t' = (mch_refs t)((i, magic_no t) := Some n)" "magic_no t' = next_magic (magic_no t)" "mt_rcu t' = mt_rcu t"
      "length (arr t') = length (arr t)"
    and k: "k = xid_hash le iv (next_xid sq) d" and x: "rc_xid r = next_xid sq" "rec_safe_ref r = (i, magic_no t)" "rc_is_heap r = hb"
    and P: "dom P = nodes B" and tm: "\<forall>m. tm' m \<longrightarrow> m = n \<or> tm m"
  shows "recs_ok le iv (next_xid sq) (R(n := r)) tm' t' (B(k := B k @ [n])) (P(n \<mapsto> d)) (H(n \<mapsto> hb))"
proof -
  note D = recs_okD[OF ok]
  have mz: "magic_no t \<noteq> 0" using inv by (simp add: mch_inv_def)
  have nx: "unat (next_xid sq) = unat sq + 1" by (rule next_xid_no_wrap[OF sq])
  have "unat (magic_no t) + 1 < 2 ^ 32" using D(6) sq by simp
  then have nm: "unat (next_magic (magic_no t)) = unat (magic_no t) + 1" by (rule next_magic_no_wrap)
  have nB: "n \<notin> nodes B" "n \<notin> set (mt_rcu t)" using D(1)[of n] n by auto
  have N: "nodes (B(k := B k @ [n])) = insert n (nodes B)" by (auto simp: nodes_def split: if_splits)
  have r: "mch_refs t' (i, magic_no t) = Some n" using new(3) by simp
  have i: "unat i < 5000" using refs_entry(1)[OF new(1) r] new(6) len by simp
  have old: "rec_safe_ref (R m) \<noteq> (i, magic_no t)" if "m \<in> nodes B \<union> set (mt_rcu t)" for m using D(1)[OF that] by auto
  have "(H(n \<mapsto> hb)) m = Some (rc_is_heap ((R(n := r)) m)) \<and> unat (fst (rec_safe_ref ((R(n := r)) m))) < 5000 \<and>
      0 < unat (snd (rec_safe_ref ((R(n := r)) m))) \<and> unat (snd (rec_safe_ref ((R(n := r)) m))) < unat (magic_no t')"
    if "m \<in> nodes (B(k := B k @ [n])) \<union> set (mt_rcu t')" for m
    using that D(1)[of m] N nB i mz x nm new(4,5) by (auto simp: unat_gt_0)
  moreover have "mch_refs t' (rec_safe_ref ((R(n := r)) m)) = None" if "m \<in> set (mt_rcu t')" for m
    using that D(2)[of m] old[of m] nB(2) new(3,5) by auto
  moreover have "(\<exists>d'. (P(n \<mapsto> d)) m = Some d' \<and> xid_hash le iv (rc_xid ((R(n := r)) m)) d' = j) \<and>
      mch_refs t' (rec_safe_ref ((R(n := r)) m)) = Some m \<and> 0 < unat (rc_xid ((R(n := r)) m)) \<and>
      unat (rc_xid ((R(n := r)) m)) \<le> unat (next_xid sq)" if m: "m \<in> set ((B(k := B k @ [n])) j)" for j m
  proof (cases "m = n")
    case True
    have "n \<notin> set (B j)" using nB(1) nodesI by fast
    then have "j = k" using m True by (auto split: if_splits)
    then show ?thesis using True x nx k r by simp
  next
    case False
    then have mB: "m \<in> set (B j)" using m by (auto split: if_splits)
    have mN: "m \<in> nodes B \<union> set (mt_rcu t)" using nodesI[where B = B, OF mB] by simp
    show ?thesis using False D(3)[OF mB] D(4)[OF mB] old[OF mN] nx new(3) by auto
  qed
  moreover have "inj_on (\<lambda>m. rc_xid ((R(n := r)) m)) (nodes (B(k := B k @ [n])))"
  proof -
    have "rc_xid (R m) \<noteq> next_xid sq" if "m \<in> nodes B" for m
      using that D(3)[of m] nx by (auto simp: in_nodes)
    then have "next_xid sq \<notin> (\<lambda>m. rc_xid (R m)) ` nodes B" by fastforce
    moreover have "inj_on (\<lambda>m. rc_xid ((R(n := r)) m)) (nodes B)" using D(5) nB(1) by (auto simp: inj_on_def)
    moreover have "(\<lambda>m. rc_xid ((R(n := r)) m)) ` (nodes B - {n}) = (\<lambda>m. rc_xid (R m)) ` nodes B" using nB(1) by auto
    ultimately show ?thesis unfolding N inj_on_insert using x(1) by simp
  qed
  moreover have "unat (magic_no t') \<le> unat (next_xid sq) + 1" using D(6) nm nx new(4) by simp
  moreover have "m \<in> nodes (B(k := B k @ [n])) \<union> set (mt_rcu t')" if "tm' m" for m
    using that tm D(7)[of m] N new(5) by auto
  ultimately show ?thesis unfolding recs_ok_def by blast
qed

lemma recs_ok_unused:
  assumes "recs_ok le iv sq R tm t B P H" "n \<notin> dom H" "unat sq \<le> unat sq'"
  shows "recs_ok le iv sq' (R(n := r)) tm t B P (H(n := v))"
proof -
  note D = recs_okD[OF assms(1)]
  have "n \<notin> nodes B \<union> set (mt_rcu t)" using D(1)[of n] assms(2) by auto
  then have e: "m \<in> nodes B \<union> set (mt_rcu t) \<Longrightarrow> (R(n := r)) m = R m \<and> (H(n := v)) m = H m" for m by auto
  have "inj_on (\<lambda>m. rc_xid ((R(n := r)) m)) (nodes B)" using D(5) e by (auto simp: inj_on_def)
  moreover have "mch_refs t (rec_safe_ref ((R(n := r)) m)) = Some m \<and> 0 < unat (rc_xid ((R(n := r)) m)) \<and>
     unat (rc_xid ((R(n := r)) m)) \<le> unat sq'" "\<exists>d. P m = Some d \<and> xid_hash le iv (rc_xid ((R(n := r)) m)) d = k"
    if "m \<in> set (B k)" for m k
    using D(3)[OF that] D(4)[OF that] e[of m] nodesI[where B = B, OF that] assms(3) by auto
  moreover have "(H(n := v)) m = Some (rc_is_heap ((R(n := r)) m)) \<and> unat (fst (rec_safe_ref ((R(n := r)) m))) < 5000 \<and>
      0 < unat (snd (rec_safe_ref ((R(n := r)) m))) \<and> unat (snd (rec_safe_ref ((R(n := r)) m))) < unat (magic_no t)"
    if "m \<in> nodes B \<union> set (mt_rcu t)" for m using D(1)[OF that] e[OF that] by simp
  moreover have "mch_refs t (rec_safe_ref ((R(n := r)) m)) = None" if "m \<in> set (mt_rcu t)" for m
    using D(2)[OF that] e[of m] that by simp
  moreover have "unat (magic_no t) \<le> unat sq' + 1" using D(6) assms(3) by simp
  ultimately show ?thesis using D(7) unfolding recs_ok_def by blast
qed

definition recorded :: "bool \<Rightarrow> xtn_env \<Rightarrow> u8 list \<Rightarrow> u64 \<Rightarrow> u64 \<Rightarrow> 'c option \<Rightarrow> ptr \<Rightarrow> ptr \<Rightarrow> 'c xtn_sys \<Rightarrow> addr \<Rightarrow>
    mchash_table \<Rightarrow> (nat \<Rightarrow> addr list) \<Rightarrow> (addr \<rightharpoonup> u64) \<Rightarrow> (addr \<rightharpoonup> u8) \<Rightarrow> ptr \<Rightarrow> u8 \<Rightarrow>
    int \<Rightarrow> (u32 \<times> u32) option \<Rightarrow> u8 list \<Rightarrow> 'c xtn_sys \<Rightarrow> bool" where
  "recorded le e msg h d cb a1 a2 s a t B P H ob hb rc ref msg' s' \<longleftrightarrow> (let x = next_xid (cntlr_xtn_seq_no_g s) in
     case ob of None \<Rightarrow> rc = OF_FAILURE \<and> ref = None \<and> msg' = msg \<and> xt_recs s' = xt_recs s \<and> xt_timer s' = xt_timer s \<and>
         cntlr_xtn_seq_no_g s' = cntlr_xtn_seq_no_g s \<and> xtn_inv le s' a t B P H
     | Some n \<Rightarrow> n \<notin> dom H \<and> msg' = stamp_xid x msg \<and> cntlr_xtn_seq_no_g s' = x \<and>
         (if xe_timer e = OF_FAILURE
          then rc = OF_FAILURE \<and> ref = None \<and> xt_timer s' = xt_timer s \<and> xtn_inv le s' a t B P (H(n \<mapsto> hb))
          else \<exists>r t' B'. rc = OF_SUCCESS \<and> ref = Some r \<and> xt_timer s' = (xt_timer s)(n := xe_timer e = TIMER_SUCCESS) \<and>
            xt_recs s' = (xt_recs s)(n := (new_rec le x msg h cb a1 a2 hb)\<lparr>rec_safe_ref := r\<rparr>) \<and> mch_refs t r = None \<and>
            mch_refs t' = (mch_refs t)(r \<mapsto> n) \<and> mt_rcu t' = mt_rcu t \<and> xtn_inv le s' a t' B' (P(n \<mapsto> d)) (H(n \<mapsto> hb))))"

lemma record_ok:
  assumes inv: "xtn_inv le s a t B P H" and le: "xe_little_endian e = le"
    and fresh: "calls_fresh a (xe_mem e) (xt_mem s) H" and sq: "unat (cntlr_xtn_seq_no_g s) + 2 < 2 ^ 32" and msg: "10 \<le> length msg"
  shows "\<exists>rc0 ob hb m1 rc ref msg' s'.
    mempool_get_mem_block (xe_mem e) (Some a) (xe_is_heap e) (xt_mem s) = Some ((rc0, ob, hb), m1) \<and>
    cntlr_record_xtn_details e msg h d cb a1 a2 s = Some (rc, ref, msg', s') \<and>
    recorded le e msg h d cb a1 a2 s a t B P H ob hb rc ref msg' s'"
proof -
  let ?x = "next_xid (cntlr_xtn_seq_no_g s)" and ?iv = "cntlr_xtn_hash_table_init_value_g s"
  have I: "cntlr_xtn_nodes_mempool_g s = Some a" "pool_ok a 5000 (xt_mem s) H" "cntlr_xtn_table s = Some t" "mch_inv t B"
    "length (bucket_list t) = 1001" "length (arr t) = 5000" "dom P = nodes B" "distinct (mt_rcu t)" "nodes B \<inter> set (mt_rcu t) = {}"
    and ok: "recs_ok le ?iv (cntlr_xtn_seq_no_g s) (xt_recs s) (xt_timer s) t B P H"
    using inv by (simp_all add: xtn_inv_def)
  obtain rc0 ob hb m1 where g: "mempool_get_mem_block (xe_mem e) (Some a) (xe_is_heap e) (xt_mem s) = Some ((rc0, ob, hb), m1)"
    "case ob of None \<Rightarrow> rc0 \<noteq> MEMPOOL_SUCCESS \<and> pool_ok a 5000 m1 H
     | Some b \<Rightarrow> rc0 = MEMPOOL_SUCCESS \<and> b \<notin> dom H \<and> pool_ok a 5000 m1 (H(b \<mapsto> hb))"
    using pool.get_law[OF I(2) fresh, of "xe_is_heap e"] by (elim exE conjE) (rule that)
  have nx: "unat (cntlr_xtn_seq_no_g s) \<le> unat ?x" using next_xid_no_wrap[OF sq] by simp
  show ?thesis
  proof (cases ob)
    case None
    then have "cntlr_record_xtn_details e msg h d cb a1 a2 s = Some (OF_FAILURE, None, msg, s\<lparr>xt_mem := m1\<rparr>)"
      using g I(1) by (simp add: cntlr_record_xtn_details_def)
    moreover have "xtn_inv le (s\<lparr>xt_mem := m1\<rparr>) a t B P H" using g(2) None I ok by (simp add: xtn_inv_def)
    ultimately show ?thesis using g(1) None
      by (intro exI[of _ rc0] exI[of _ ob] exI[of _ hb] exI[of _ m1] exI[of _ OF_FAILURE] exI[of _ None] exI[of _ msg]
          exI[of _ "s\<lparr>xt_mem := m1\<rparr>"]) (simp add: recorded_def)
  next
    case (Some n)
    then have G: "rc0 = OF_SUCCESS" "n \<notin> dom H" "pool_ok a 5000 m1 (H(n \<mapsto> hb))" using g(2) by simp_all
    let ?r = "new_rec le ?x msg h cb a1 a2 hb"
    define s1 where "s1 = s\<lparr>xt_mem := m1, cntlr_xtn_seq_no_g := ?x, xt_recs := (xt_recs s)(n := ?r)\<rparr>"
    have inv1: "xtn_inv le s1 a t B P (H(n \<mapsto> hb))"
      using I G(3) recs_ok_unused[OF ok G(2) nx, of ?r "Some hb"] by (simp add: xtn_inv_def s1_def)
    have m8: "\<not> length msg < 8" "\<not> length msg < 10" using msg by simp_all
    note run = cntlr_record_xtn_details_def I(1) g(1) Some G(1) m8 le
    show ?thesis
    proof (cases "xe_timer e = OF_FAILURE")
      case True
      then have "cntlr_record_xtn_details e msg h d cb a1 a2 s = Some (OF_FAILURE, None, stamp_xid ?x msg, s1)"
        by (simp add: run s1_def Let_def)
      then show ?thesis using g(1) inv1 G(2) True Some
        by (intro exI[of _ rc0] exI[of _ ob] exI[of _ hb] exI[of _ m1] exI[of _ OF_FAILURE] exI[of _ None]
            exI[of _ "stamp_xid ?x msg"] exI[of _ s1]) (simp add: recorded_def s1_def)
    next
      case False
      define s2 where "s2 = s1\<lparr>xt_timer := (xt_timer s1)(n := xe_timer e = TIMER_SUCCESS)\<rparr>"
      let ?keys = "xtn_hash e ?x d s2" and ?k = "xid_hash le ?iv ?x d"
      have keys: "unat ?keys = ?k" using le by (simp add: xtn_hash_eq s2_def s1_def)
      have kb: "unat ?keys < length (bucket_list t)" using I(5) keys xid_hash_less by simp
      have nB: "n \<notin> nodes B" using recs_okD(1)[OF ok, of n] G(2) by auto
      have nodesH: "nodes B \<subseteq> dom (H(n \<mapsto> hb))" using recs_okD(1)[OF ok] by auto
      have fq: "free_q_next t \<noteq> None"
        using full_card[OF I(4)] pool.room[OF G(3) nodesH _ nB] I(6) by fastforce
      have nj: "\<forall>j. n \<notin> set (B j)" using nB by (simp add: in_nodes)
      obtain i t1 where ap: "MCHASH_APPEND_NODE ?keys n t = Some (Some (i, magic_no t), t1)"
        "mch_inv t1 (B(unat ?keys := B (unat ?keys) @ [n]))" "mch_refs t (i, magic_no t) = None"
        "mch_refs t1 = (mch_refs t)((i, magic_no t) := Some n)" "magic_no t1 = next_magic (magic_no t)" "mt_rcu t1 = mt_rcu t"
        "length (bucket_list t1) = length (bucket_list t)" "length (arr t1) = length (arr t)"
        using append_ok[OF I(4) kb nj] fq unfolding inserted_def by (simp only: if_False) blast
      let ?ref = "(i, magic_no t)" and ?B = "B(?k := B ?k @ [n])"
      define s3 where "s3 = s2\<lparr>cntlr_xtn_table := Some t1, xt_recs := (xt_recs s)(n := ?r\<lparr>rec_safe_ref := ?ref\<rparr>)\<rparr>"
      have "cntlr_record_xtn_details e msg h d cb a1 a2 s = Some (OF_SUCCESS, Some ?ref, stamp_xid ?x msg, s3)"
        unfolding run using False ap(1) I(3) by (simp add: s3_def s2_def s1_def Let_def le m8)
      moreover have "xtn_inv le s3 a t1 ?B (P(n \<mapsto> d)) (H(n \<mapsto> hb))"
      proof -
        have N: "nodes ?B = insert n (nodes B)" by (auto simp: nodes_def split: if_splits)
        have "n \<notin> set (mt_rcu t)" using recs_okD(1)[OF ok, of n] G(2) by auto
        moreover have "recs_ok le ?iv ?x ((xt_recs s)(n := ?r\<lparr>rec_safe_ref := ?ref\<rparr>)) ((xt_timer s)(n := xe_timer e = TIMER_SUCCESS))
            t1 ?B (P(n \<mapsto> d)) (H(n \<mapsto> hb))"
        proof (rule recs_ok_insert[OF ok I(4) G(2) I(6) sq])
          show "mch_inv t1 ?B" using ap(2) unfolding keys .
        qed (use ap I(7) in \<open>simp_all add: new_rec_def\<close>)
        ultimately show ?thesis
          using I(1,5-9) G(3) ap(5-8) N ap(2)[unfolded keys] by (simp add: xtn_inv_def s3_def s2_def s1_def)
      qed
      ultimately show ?thesis using g(1) G(2) False Some ap
        by (intro exI[of _ rc0] exI[of _ ob] exI[of _ hb] exI[of _ m1] exI[of _ OF_SUCCESS] exI[of _ "Some ?ref"]
            exI[of _ "stamp_xid ?x msg"] exI[of _ s3])
          (auto simp: recorded_def Let_def s3_def s2_def s1_def intro!: exI[of _ t1] exI[of _ ?B])
    qed
  qed
qed

section \<open>Deleting keeps the invariant\<close>

text \<open>A record leaves the table and waits for the grace period.\<close>

lemma recs_ok_delete:
  assumes ok: "recs_ok le iv sq R tm t B P H" and inv: "mch_inv t B" and n: "n \<in> set (B k)"
    and new: "mch_refs t' = (mch_refs t)(rec_safe_ref (R n) := None)" "magic_no t' = magic_no t" "mt_rcu t' = mt_rcu t @ [n]"
  shows "recs_ok le iv sq R tm t' (B(k := remove1 n (B k))) (P(n := None)) H"
    "nodes (B(k := remove1 n (B k))) = nodes B - {n}"
proof -
  note D = recs_okD[OF ok]
  have d: "distinct (B k)" using inv by (simp add: mch_inv_def)
  have other: "n \<notin> set (B j)" if "j \<noteq> k" for j using mch_inv_disjoint[OF inv n, of j] that by auto
  show N: "nodes (B(k := remove1 n (B k))) = nodes B - {n}"
    using d other unfolding nodes_def by (auto split: if_splits)
  have nN: "n \<in> nodes B" using n by (rule nodesI)
  have "inj_on (\<lambda>m. rc_xid (R m)) (nodes B - {n})" using D(5) by (rule inj_on_subset) auto
  moreover have "(\<exists>d. (P(n := None)) m = Some d \<and> xid_hash le iv (rc_xid (R m)) d = j) \<and> mch_refs t' (rec_safe_ref (R m)) = Some m \<and>
      0 < unat (rc_xid (R m)) \<and> unat (rc_xid (R m)) \<le> unat sq" if m: "m \<in> set ((B(k := remove1 n (B k))) j)" for m j
  proof -
    have mB: "m \<in> set (B j)" "m \<noteq> n" using m d other by (auto split: if_splits)
    have "rec_safe_ref (R m) \<noteq> rec_safe_ref (R n)" using D(3)[OF mB(1)] D(3)[OF n] mB(2) by auto
    then show ?thesis using D(3)[OF mB(1)] D(4)[OF mB(1)] mB(2) new(1) by simp
  qed
  moreover have "mch_refs t' (rec_safe_ref (R m)) = None" if "m \<in> set (mt_rcu t')" for m
    using that D(2)[of m] new(1,3) by auto
  moreover have "H m = Some (rc_is_heap (R m)) \<and> unat (fst (rec_safe_ref (R m))) < 5000 \<and>
      0 < unat (snd (rec_safe_ref (R m))) \<and> unat (snd (rec_safe_ref (R m))) < unat (magic_no t')"
    if "m \<in> nodes B - {n} \<union> set (mt_rcu t')" for m
    using that new(2,3) nN D(1)[of m] by auto
  moreover have "m \<in> nodes B - {n} \<union> set (mt_rcu t')" if "tm m" for m using D(7)[OF that] new(3) by auto
  ultimately show "recs_ok le iv sq R tm t' (B(k := remove1 n (B k))) (P(n := None)) H"
    using D(6)[folded new(2)] unfolding recs_ok_def N by blast
qed

lemma inv_deleted:
  assumes inv: "xtn_inv le s a t B P H" and n: "n \<in> nodes B" and del: "deleted B n t (Some (True, t'))"
  shows "\<exists>B'. xtn_inv le (s\<lparr>cntlr_xtn_table := Some t'\<rparr>) a t' B' (P(n := None)) H \<and> mt_rcu t' = mt_rcu t @ [n] \<and>
    mch_refs t' = (mch_refs t)(rec_safe_ref (xt_recs s n) := None)"
proof -
  have I: "cntlr_xtn_nodes_mempool_g s = Some a" "pool_ok a 5000 (xt_mem s) H" "cntlr_xtn_table s = Some t" "mch_inv t B"
    "length (bucket_list t) = 1001" "length (arr t) = 5000" "dom P = nodes B" "distinct (mt_rcu t)" "nodes B \<inter> set (mt_rcu t) = {}"
    and ok: "recs_ok le (cntlr_xtn_hash_table_init_value_g s) (cntlr_xtn_seq_no_g s) (xt_recs s) (xt_timer s) t B P H"
    using inv by (simp_all add: xtn_inv_def)
  obtain k where k: "n \<in> set (B k)" "mch_inv t' (B(k := remove1 n (B k)))"
    "mch_refs t' = (mch_refs t)((lk_index (mt_links t n), ae_magic (arr t ! unat (lk_index (mt_links t n)))) := None)"
    "mt_rcu t' = mt_rcu t @ [n]" "magic_no t' = magic_no t" "length (bucket_list t') = length (bucket_list t)"
    "length (arr t') = length (arr t)"
    using del unfolding deleted_def by blast
  have "mch_refs t (rec_safe_ref (xt_recs s n)) = Some n" using recs_okD(3)[OF ok k(1)] by simp
  then have r: "mch_refs t (fst (rec_safe_ref (xt_recs s n)), snd (rec_safe_ref (xt_recs s n))) = Some n" by simp
  have "(lk_index (mt_links t n), ae_magic (arr t ! unat (lk_index (mt_links t n)))) = rec_safe_ref (xt_recs s n)"
    using refs_entry(2,5)[OF I(4) r] by (simp add: prod_eq_iff)
  then have refs: "mch_refs t' = (mch_refs t)(rec_safe_ref (xt_recs s n) := None)" using k(3) by simp
  note ok' = recs_ok_delete[OF ok I(4) k(1) refs k(5,4)]
  have "xtn_inv le (s\<lparr>cntlr_xtn_table := Some t'\<rparr>) a t' (B(k := remove1 n (B k))) (P(n := None)) H"
    using I k ok' n by (auto simp: xtn_inv_def)
  then show ?thesis using k(4) refs by blast
qed

lemma del_rec_ok:
  assumes inv: "xtn_inv le s a t B P H" and n: "P n = Some d"
  shows "\<exists>s' t' B'. cntlr_del_xtn_with_rec n s = Some (OF_SUCCESS, s') \<and> s' = s\<lparr>cntlr_xtn_table := Some t'\<rparr> \<and>
    xtn_inv le s' a t' B' (P(n := None)) H \<and> mt_rcu t' = mt_rcu t @ [n]"
proof -
  have t: "cntlr_xtn_table s = Some t" "mch_inv t B" "n \<in> nodes B" using inv n by (auto simp: xtn_inv_def)
  obtain k where k: "n \<in> set (B k)" using t(3) by (auto simp: in_nodes)
  obtain t' where t': "MCHASH_DELETE_NODE n t = Some (True, t')" "deleted B n t (Some (True, t'))"
    using delete_node_ok(1)[OF t(2) k] unfolding deleted_def by auto
  then show ?thesis using inv_deleted[OF inv t(3) t'(2)] t(1)
    by (auto simp: cntlr_del_xtn_with_rec_def put_table_def)
qed

text \<open>A reference in range whose magic number is not 0: the record behind it, if any, is removed.\<close>

lemma del_ref_ok:
  assumes inv: "xtn_inv le s a t B P H" and r: "unat (fst r) < 5000" "snd r \<noteq> 0"
  shows "case mch_refs t r of
      None \<Rightarrow> cntlr_del_xtn_with_safe_ref r s = Some (OF_FAILURE, s)
    | Some n \<Rightarrow> n \<in> dom P \<and> (\<exists>s' t' B'. cntlr_del_xtn_with_safe_ref r s = Some (OF_SUCCESS, s') \<and> s' = s\<lparr>cntlr_xtn_table := Some t'\<rparr> \<and>
        xtn_inv le s' a t' B' (P(n := None)) H \<and> mt_rcu t' = mt_rcu t @ [n] \<and> rec_safe_ref (xt_recs s n) = r)"
proof -
  have t: "cntlr_xtn_table s = Some t" "mch_inv t B" "length (arr t) = 5000" "dom P = nodes B"
    and ok: "recs_ok le (cntlr_xtn_hash_table_init_value_g s) (cntlr_xtn_seq_no_g s) (xt_recs s) (xt_timer s) t B P H"
    using inv by (simp_all add: xtn_inv_def)
  note d = delete_by_ref_ok[OF t(2), of "fst r" "snd r"]
  show ?thesis
  proof (cases "mch_refs t r")
    case None
    then have "MCHASH_DELETE_NODE_BY_REF (fst r) (snd r) t = Some (False, t)" using d r t(3) by simp
    then show ?thesis using None t(1) by (simp add: cntlr_del_xtn_with_safe_ref_def put_table_def)
  next
    case (Some n)
    then have "deleted B n t (MCHASH_DELETE_NODE_BY_REF (fst r) (snd r) t)" using d r t(3) by simp
    then obtain t' where t': "MCHASH_DELETE_NODE_BY_REF (fst r) (snd r) t = Some (True, t')" "deleted B n t (Some (True, t'))"
      unfolding deleted_def by auto
    have rr: "mch_refs t (fst r, snd r) = Some n" using Some by simp
    have nB: "n \<in> set (B (unat (lk_key (mt_links t n))))" using refs_entry(6)[OF t(2) rr] .
    have nN: "n \<in> nodes B" by (rule nodesI[where B = B, OF nB])
    have "mch_refs t (rec_safe_ref (xt_recs s n)) = Some n" using recs_okD(3)[OF ok nB] by simp
    then have r2: "mch_refs t (fst (rec_safe_ref (xt_recs s n)), snd (rec_safe_ref (xt_recs s n))) = Some n" by simp
    have "fst r = fst (rec_safe_ref (xt_recs s n))" "snd r = snd (rec_safe_ref (xt_recs s n))"
      using refs_entry(2,5)[OF t(2) r2] refs_entry(2,5)[OF t(2) rr] by simp_all
    then have "rec_safe_ref (xt_recs s n) = r" by (simp add: prod_eq_iff)
    then show ?thesis using Some t' inv_deleted[OF inv nN t'(2)] t(1,4) nN
      by (auto simp: cntlr_del_xtn_with_safe_ref_def put_table_def)
  qed
qed

text \<open>Deletion by transaction id removes the record that a search with the same arguments finds.\<close>

lemma del_xid_ok:
  assumes inv: "xtn_inv le s a t B P H" and le: "xe_little_endian e = le"
  shows "case List.find (\<lambda>n. rc_xid (xt_recs s n) = x) (B (xid_hash le (cntlr_xtn_hash_table_init_value_g s) x d)) of
      None \<Rightarrow> cntlr_del_xtn_rec e x d s = Some (OF_SUCCESS, s)
    | Some n \<Rightarrow> \<exists>s' t' B'. cntlr_del_xtn_rec e x d s = Some (OF_SUCCESS, s') \<and> s' = s\<lparr>cntlr_xtn_table := Some t'\<rparr> \<and>
        xtn_inv le s' a t' B' (P(n := None)) H \<and> mt_rcu t' = mt_rcu t @ [n]"
proof -
  let ?k = "xid_hash le (cntlr_xtn_hash_table_init_value_g s) x d" and ?Q = "\<lambda>n. rc_xid (xt_recs s n) = x"
  have t: "cntlr_xtn_table s = Some t" "mch_inv t B" "length (bucket_list t) = 1001"
    and ok: "recs_ok le (cntlr_xtn_hash_table_init_value_g s) (cntlr_xtn_seq_no_g s) (xt_recs s) (xt_timer s) t B P H"
    using inv by (simp_all add: xtn_inv_def)
  have k: "?k < length (bucket_list t)" using xid_hash_less t(3) by simp
  have bk: "bucket_ok t ?k (B ?k)" "distinct (B ?k)" using mch_bucket[OF t(2) k] .
  have run: "cntlr_del_xtn_rec e x d s = map_option (\<lambda>r. put_table r s) (del_scan ?Q (bk_head_next (bucket_list t ! ?k)) t)"
    using t(1) k le by (simp add: cntlr_del_xtn_rec_def xtn_hash_eq Let_def)
  show ?thesis
  proof (cases "List.find ?Q (B ?k)")
    case None
    then have "del_scan ?Q (bk_head_next (bucket_list t ! ?k)) t = Some (True, t)"
      using del_scan_none[of "mt_links t" "{Null, Head ?k}" "B ?k" t ?Q] bk by (simp add: bucket_ok_def find_None_iff)
    then show ?thesis using None run t(1) by (simp add: put_table_def)
  next
    case (Some n)
    note f = find_SomeD[OF Some]
    obtain ys zs where B: "B ?k = ys @ n # zs" using f by (auto dest: split_list)
    have "\<forall>m\<in>set (ys @ zs). \<not> ?Q m"
    proof
      fix m assume m: "m \<in> set (ys @ zs)"
      then have "m \<in> nodes B" "n \<in> nodes B" "m \<noteq> n" using nodesI[where B = B and k = ?k] f bk(2) unfolding B by auto
      then show "\<not> ?Q m" using inj_onD[OF recs_okD(5)[OF ok], of m n] f by auto
    qed
    from del_scan_one[where Q = ?Q, OF t(2) B conjunct2[OF f] this] obtain t' where t': "deleted B n t (Some (True, t'))"
      "del_scan ?Q (bk_head_next (bucket_list t ! ?k)) t = Some (True, t')" by blast
    have "n \<in> nodes B" using f nodesI[where B = B and k = ?k] by blast
    from inv_deleted[OF inv this t'(1)] show ?thesis using Some run t'(2) by (auto simp: put_table_def)
  qed
qed

section \<open>Grace periods and timers\<close>

text \<open>The end of the grace period of a record: \<^verbatim>\<open>call_rcu\<close> runs the callback of the table.\<close>

definition grace :: "xtn_env \<Rightarrow> addr \<Rightarrow> mchash_table \<Rightarrow> 'c xtn_sys \<Rightarrow> 'c xtn_sys option" where
  "grace e n t s = cntlr_free_xtn_node_rcu e n (s\<lparr>cntlr_xtn_table := Some (t\<lparr>mt_rcu := remove1 n (mt_rcu t)\<rparr>)\<rparr>)"

lemma grace_ok:
  assumes inv: "xtn_inv le s a t B P H" and n: "n \<in> set (mt_rcu t)"
  shows "\<exists>s'. grace e n t s = Some s' \<and> xtn_inv le s' a (t\<lparr>mt_rcu := remove1 n (mt_rcu t)\<rparr>) B P (H(n := None))"
proof -
  let ?t = "t\<lparr>mt_rcu := remove1 n (mt_rcu t)\<rparr>"
  have I: "cntlr_xtn_nodes_mempool_g s = Some a" "pool_ok a 5000 (xt_mem s) H" "mch_inv t B"
    "length (bucket_list t) = 1001" "length (arr t) = 5000" "dom P = nodes B" "distinct (mt_rcu t)" "nodes B \<inter> set (mt_rcu t) = {}"
    and ok: "recs_ok le (cntlr_xtn_hash_table_init_value_g s) (cntlr_xtn_seq_no_g s) (xt_recs s) (xt_timer s) t B P H"
    using inv by (simp_all add: xtn_inv_def)
  note D = recs_okD[OF ok]
  have h: "H n = Some (rc_is_heap (xt_recs s n))" using D(1)[of n] n by simp
  obtain m where m: "mempool_release_mem_block (xe_mem e) (Some a) (Some n) (rc_is_heap (xt_recs s n)) (xt_mem s) =
      Some (MEMPOOL_SUCCESS, m)" "pool_ok a 5000 m (H(n := None))"
    using pool.release_law[OF I(2) h, of "xe_mem e"] by blast
  let ?s = "s\<lparr>cntlr_xtn_table := Some ?t, xt_timer := (xt_timer s)(n := False), xt_mem := m\<rparr>"
  have run: "grace e n t s = Some ?s"
    using m(1) I(1) by (simp add: grace_def cntlr_free_xtn_node_rcu_def Let_def)
  have nB: "n \<notin> nodes B" using I(8) n by auto
  have sub: "set (mt_rcu ?t) = set (mt_rcu t) - {n}" using I(7) by simp
  have "(H(n := None)) m = Some (rc_is_heap (xt_recs s m)) \<and> unat (fst (rec_safe_ref (xt_recs s m))) < 5000 \<and>
      0 < unat (snd (rec_safe_ref (xt_recs s m))) \<and> unat (snd (rec_safe_ref (xt_recs s m))) < unat (magic_no ?t)"
    if "m \<in> nodes B \<union> set (mt_rcu ?t)" for m
    using that D(1)[of m] nB sub by auto
  moreover have "m \<in> nodes B \<union> set (mt_rcu ?t)" if "((xt_timer s)(n := False)) m" for m
    using that D(7)[of m] sub by (auto split: if_splits)
  moreover have "mch_refs ?t (rec_safe_ref (xt_recs s m)) = None" if "m \<in> set (mt_rcu ?t)" for m
    using D(2)[of m] that sub by simp
  ultimately have "recs_ok le (cntlr_xtn_hash_table_init_value_g s) (cntlr_xtn_seq_no_g s) (xt_recs s)
      ((xt_timer s)(n := False)) ?t B P (H(n := None))"
    using D(3,4,5,6) unfolding recs_ok_def by simp
  then have "xtn_inv le ?s a ?t B P (H(n := None))" using I m(2) nB sub by (auto simp: xtn_inv_def)
  then show ?thesis using run by blast
qed

text \<open>A timer that is not periodic stops when it expires.\<close>

definition expire :: "addr \<Rightarrow> 'c xtn_sys \<Rightarrow> 'c xtn_sys option" where
  "expire n s = cntlr_xtn_recrod_cleanup_func (Some n) (s\<lparr>xt_timer := (xt_timer s)(n := False)\<rparr>)"

text \<open>The applications an expiry notifies.\<close>

definition notified :: "'c cntlr_transactn_rec \<Rightarrow> 'c timeout_call list option" where
  "notified r = (if rc_msg_type r = OFPT_MULTIPART_REQUEST \<and> rc_msg_subtype r \<le> 13 \<and> rc_msg_subtype r \<noteq> OFPMP_QUEUE
     then map_option (\<lambda>c. [Timeout c (rc_msg_subtype r) (if rc_msg_subtype r = 0 then None else Some (rc_dp_handle r))]) (rc_callback_fn r)
     else Some [])"

lemma expire_ok:
  assumes inv: "xtn_inv le s a t B P H" and n: "n \<in> nodes B \<union> set (mt_rcu t)" and cs: "notified (xt_recs s n) = Some cs"
  shows "\<exists>s' t' B'. expire n s = Some s' \<and> xt_timeouts s' = xt_timeouts s @ cs \<and> xt_timer s' = (xt_timer s)(n := False) \<and>
    xt_recs s' = xt_recs s \<and> xtn_inv le s' a t' B' (P(n := None)) H \<and> mt_rcu t' = mt_rcu t @ (if n \<in> dom P then [n] else [])"
proof -
  let ?r = "rec_safe_ref (xt_recs s n)"
  define s1 where "s1 = s\<lparr>xt_timer := (xt_timer s)(n := False), xt_timeouts := xt_timeouts s @ cs\<rparr>"
  have I: "dom P = nodes B" "nodes B \<inter> set (mt_rcu t) = {}" "cntlr_xtn_table s = Some t"
    and ok: "recs_ok le (cntlr_xtn_hash_table_init_value_g s) (cntlr_xtn_seq_no_g s) (xt_recs s) (xt_timer s) t B P H"
    using inv by (simp_all add: xtn_inv_def)
  have inv1: "xtn_inv le s1 a t B P H" by (rule xtn_inv_cong[OF inv]) (simp_all add: s1_def)
  have run: "expire n s = map_option snd (cntlr_del_xtn_with_safe_ref ?r s1)"
    using cs by (auto simp: expire_def cntlr_xtn_recrod_cleanup_func_def notified_def clean_multipart_req_msgs_def Let_def s1_def
        split: if_splits)
  have r: "unat (fst ?r) < 5000" "snd ?r \<noteq> 0" using recs_okD(1)[OF ok n] by auto
  note d = del_ref_ok[OF inv1 r]
  show ?thesis
  proof (cases "n \<in> dom P")
    case True
    then obtain k where "n \<in> set (B k)" using I(1) by (auto simp: in_nodes)
    then have "mch_refs t ?r = Some n" using recs_okD(3)[OF ok] by blast
    then obtain s' t' B' where s': "cntlr_del_xtn_with_safe_ref ?r s1 = Some (OF_SUCCESS, s')" "s' = s1\<lparr>cntlr_xtn_table := Some t'\<rparr>"
      "xtn_inv le s' a t' B' (P(n := None)) H" "mt_rcu t' = mt_rcu t @ [n]" using d by auto
    then show ?thesis using run True
      by (intro exI[of _ s'] exI[of _ t'] exI[of _ B']) (simp add: s1_def)
  next
    case False
    then have "mch_refs t ?r = None" using n I(1) recs_okD(2)[OF ok] by auto
    then have "cntlr_del_xtn_with_safe_ref ?r s1 = Some (OF_FAILURE, s1)" using d by simp
    moreover have "P(n := None) = P" using False by auto
    ultimately show ?thesis using run False inv1
      by (intro exI[of _ s1] exI[of _ t] exI[of _ B]) (simp add: s1_def)
  qed
qed

lemma time_stamp_ok:
  assumes inv: "xtn_inv le s a t B P H" and le: "xe_little_endian e = le"
  shows "\<exists>s'. cntlr_time_stamp_xtn_rec e x d s = Some s' \<and> xtn_inv le s' a t B P H \<and>
    (\<forall>n. xt_recs s' n = (if cntlr_get_xtn_details e x d s = Some (OF_SUCCESS, Some n) then (xt_recs s n)\<lparr>rc_time_stamp := xe_time e\<rparr>
       else xt_recs s n))"
proof -
  let ?k = "xid_hash le (cntlr_xtn_hash_table_init_value_g s) x d"
  have t: "cntlr_xtn_table s = Some t" "mch_inv t B" "length (bucket_list t) = 1001"
    and inj: "inj_on (\<lambda>n. rc_xid (xt_recs s n)) (nodes B)" using inv by (auto simp: xtn_inv_def recs_ok_def)
  have "MCHASH_BUCKET_SCAN t (unat (xtn_hash e x d s)) = Some (B ?k)"
    using bucket_scan_ok[OF t(2)] t(3) xid_hash_less le by (simp add: xtn_hash_eq)
  then have run: "cntlr_time_stamp_xtn_rec e x d s = Some (s\<lparr>xt_recs := (\<lambda>n. if n \<in> set (B ?k) \<and> rc_xid (xt_recs s n) = x
      then (xt_recs s n)\<lparr>rc_time_stamp := xe_time e\<rparr> else xt_recs s n)\<rparr>)"
    using t(1) by (simp add: cntlr_time_stamp_xtn_rec_def)
  have "n \<in> set (B ?k) \<and> rc_xid (xt_recs s n) = x \<longleftrightarrow> cntlr_get_xtn_details e x d s = Some (OF_SUCCESS, Some n)" for n
  proof
    assume n: "n \<in> set (B ?k) \<and> rc_xid (xt_recs s n) = x"
    then obtain m where m: "List.find (\<lambda>n. rc_xid (xt_recs s n) = x) (B ?k) = Some m"
      by (cases "List.find (\<lambda>n. rc_xid (xt_recs s n) = x) (B ?k)") (auto simp: find_None_iff)
    have "m = n" using inj_onD[OF inj, of m n] find_SomeD[OF m] n nodesI[where B = B and k = ?k] by auto
    then show "cntlr_get_xtn_details e x d s = Some (OF_SUCCESS, Some n)" using m get_ok[OF inv le] by simp
  next
    assume "cntlr_get_xtn_details e x d s = Some (OF_SUCCESS, Some n)"
    then have "List.find (\<lambda>n. rc_xid (xt_recs s n) = x) (B ?k) = Some n" using get_ok[OF inv le, of x d] by (auto split: option.splits)
    then show "n \<in> set (B ?k) \<and> rc_xid (xt_recs s n) = x" using find_SomeD by fast
  qed
  moreover have "xtn_inv le (s\<lparr>xt_recs := (\<lambda>n. if n \<in> set (B ?k) \<and> rc_xid (xt_recs s n) = x
      then (xt_recs s n)\<lparr>rc_time_stamp := xe_time e\<rparr> else xt_recs s n)\<rparr>) a t B P H"
    by (rule xtn_inv_cong[OF inv]) simp_all
  ultimately show ?thesis unfolding run by simp
qed

section \<open>Runs\<close>

text \<open>The state with the pending records \<open>P\<close> and the blocks in use \<open>H\<close>, after any sequence of the
  operations. References are those an earlier call has returned.\<close>

inductive xtn_run :: "bool \<Rightarrow> addr \<Rightarrow> 'c xtn_sys \<Rightarrow> (addr \<rightharpoonup> u64) \<Rightarrow> (addr \<rightharpoonup> u8) \<Rightarrow> bool" for le a where
  run_init: "cntlr_xtn_table_init e sz s = Some (OF_SUCCESS, s') \<Longrightarrow> provider_of 0 (xt_mem s) = Some mheap_callbacks \<Longrightarrow>
    env_fresh (xe_mem e) {} \<Longrightarrow> \<forall>n. \<not> xt_timer s n \<Longrightarrow> xe_pool e = Some a \<Longrightarrow> xtn_run le a s' Map.empty Map.empty"
| run_record: "xtn_run le a s P H \<Longrightarrow> xe_little_endian e = le \<Longrightarrow> calls_fresh a (xe_mem e) (xt_mem s) H \<Longrightarrow>
    unat (cntlr_xtn_seq_no_g s) + 2 < 2 ^ 32 \<Longrightarrow> 10 \<le> length msg \<Longrightarrow>
    mempool_get_mem_block (xe_mem e) (Some a) (xe_is_heap e) (xt_mem s) = Some ((rc0, ob, hb), m1) \<Longrightarrow>
    cntlr_record_xtn_details e msg h d cb a1 a2 s = Some (rc, ref, msg', s') \<Longrightarrow>
    xtn_run le a s' (case ref of None \<Rightarrow> P | Some _ \<Rightarrow> P(the ob \<mapsto> d)) (case ob of None \<Rightarrow> H | Some n \<Rightarrow> H(n \<mapsto> hb))"
| run_stamp: "xtn_run le a s P H \<Longrightarrow> xe_little_endian e = le \<Longrightarrow> cntlr_time_stamp_xtn_rec e x d s = Some s' \<Longrightarrow> xtn_run le a s' P H"
| run_del_rec: "xtn_run le a s P H \<Longrightarrow> n \<in> dom P \<Longrightarrow> cntlr_del_xtn_with_rec n s = Some (rc, s') \<Longrightarrow> xtn_run le a s' (P(n := None)) H"
| run_del_ref: "xtn_run le a s P H \<Longrightarrow> cntlr_xtn_table s = Some t \<Longrightarrow> unat (fst r) < 5000 \<Longrightarrow> snd r \<noteq> 0 \<Longrightarrow>
    cntlr_del_xtn_with_safe_ref r s = Some (rc, s') \<Longrightarrow>
    xtn_run le a s' (case mch_refs t r of None \<Rightarrow> P | Some n \<Rightarrow> P(n := None)) H"
| run_del_xid: "xtn_run le a s P H \<Longrightarrow> xe_little_endian e = le \<Longrightarrow> cntlr_get_xtn_details e x d s = Some (rc0, p) \<Longrightarrow>
    cntlr_del_xtn_rec e x d s = Some (rc, s') \<Longrightarrow> xtn_run le a s' (case p of None \<Rightarrow> P | Some n \<Rightarrow> P(n := None)) H"
| run_expire: "xtn_run le a s P H \<Longrightarrow> xt_timer s n \<Longrightarrow> expire n s = Some s' \<Longrightarrow> xtn_run le a s' (P(n := None)) H"
| run_grace: "xtn_run le a s P H \<Longrightarrow> cntlr_xtn_table s = Some t \<Longrightarrow> n \<in> set (mt_rcu t) \<Longrightarrow> grace e n t s = Some s' \<Longrightarrow>
    xtn_run le a s' P (H(n := None))"

lemma xtn_params_small: "small_params (xtn_pool_params sz)" "unat (pp_max_blocks (xtn_pool_params sz)) = 5000"
  by (simp_all add: small_params_def xtn_pool_params_def cntlr_get_xtn_node_mempool_entries_def Let_def unat_div_distrib word_le_nat_alt)

lemma init_ok:
  assumes init: "cntlr_xtn_table_init e sz s = Some (OF_SUCCESS, s')" and prov: "provider_of 0 (xt_mem s) = Some mheap_callbacks"
    and fresh: "env_fresh (xe_mem e) {}" and tm: "\<forall>n. \<not> xt_timer s n" and a: "xe_pool e = Some a"
  shows "\<exists>t. xtn_inv le s' a t (\<lambda>_. []) Map.empty Map.empty"
proof -
  obtain rc p m1 where c: "mempool_create_pool (xe_mem e) (xe_pool e) (Some ''of_Xtn_Nodes_pool'') (Some (xtn_pool_params sz)) True (xt_mem s)
      = Some (rc, p, m1)"
    using init by (auto simp: cntlr_xtn_table_init_def Let_def split: Option.bind_splits)
  have rc: "rc = MEMPOOL_SUCCESS"
    using init c by (auto simp: cntlr_xtn_table_init_def Let_def split: if_splits Option.bind_splits option.splits)
  have p: "p = Some a" "pool_ok a 5000 m1 Map.empty"
    using create_pool_ok[OF prov xtn_params_small(1)[of sz] fresh] c a unfolding rc xtn_params_small(2) by auto
  obtain t where t: "mchash_table_create (5000 div 5 + 1) 5000 True (xe_table e) (xe_array_ok e) (xe_links e) = Some (Created t)"
    "s' = s\<lparr>xt_mem := m1, cntlr_xtn_nodes_mempool_g := p, cntlr_xtn_hash_table_init_value_g := xe_rand e,
       cntlr_xtn_table := Some t, cntlr_xtn_seq_no_g := 0\<rparr>"
    using init c rc by (auto simp: cntlr_xtn_table_init_def Let_def split: if_splits Option.bind_splits option.splits create_result.splits)
  note ci = create_inv[OF t(1)]
  have N: "nodes (\<lambda>_. []) = {}" by (simp add: nodes_def)
  have "recs_ok le (xe_rand e) 0 (xt_recs s) (xt_timer s) t (\<lambda>_. []) Map.empty Map.empty"
    using ci tm by (simp add: recs_ok_def N)
  then have "xtn_inv le s' a t (\<lambda>_. []) Map.empty Map.empty"
    using ci p by (simp add: xtn_inv_def N t(2))
  then show ?thesis by blast
qed

lemma recorded_inv:
  assumes "recorded le e msg h d cb a1 a2 s a t B P H ob hb rc ref msg' s'"
  shows "\<exists>t B. xtn_inv le s' a t B (case ref of None \<Rightarrow> P | Some _ \<Rightarrow> P(the ob \<mapsto> d)) (case ob of None \<Rightarrow> H | Some n \<Rightarrow> H(n \<mapsto> hb))"
proof (cases ob)
  case None
  then show ?thesis using assms by (intro exI[of _ t] exI[of _ B]) (simp add: recorded_def Let_def)
next
  case (Some n)
  show ?thesis
  proof (cases "xe_timer e = OF_FAILURE")
    case True
    then show ?thesis using assms Some by (intro exI[of _ t] exI[of _ B]) (simp add: recorded_def Let_def)
  next
    case False
    then obtain r t' B' where "ref = Some r" "xtn_inv le s' a t' B' (P(n \<mapsto> d)) (H(n \<mapsto> hb))"
      using assms unfolding recorded_def Let_def Some option.case if_not_P[OF False] by blast
    then show ?thesis using Some by (intro exI[of _ t'] exI[of _ B']) simp
  qed
qed

lemma xtn_run_inv: "xtn_run le a s P H \<Longrightarrow> \<exists>t B. xtn_inv le s a t B P H"
proof (induction rule: xtn_run.induct)
  case (run_init e sz s s')
  show ?case using init_ok[OF run_init(1-5)] by blast
next
  case (run_record s P H e msg rc0 ob hb m1 h d cb a1 a2 rc ref msg' s')
  then obtain t B where inv: "xtn_inv le s a t B P H" by blast
  obtain rc0' ob' hb' m1' rc' ref' msg'' s'' where
    r: "mempool_get_mem_block (xe_mem e) (Some a) (xe_is_heap e) (xt_mem s) = Some ((rc0', ob', hb'), m1')"
      "cntlr_record_xtn_details e msg h d cb a1 a2 s = Some (rc', ref', msg'', s'')"
      "recorded le e msg h d cb a1 a2 s a t B P H ob' hb' rc' ref' msg'' s''"
    using record_ok[OF inv run_record(2-5), of h d cb a1 a2] by (elim exE conjE) (rule that)
  then have "recorded le e msg h d cb a1 a2 s a t B P H ob hb rc ref msg' s'" using run_record(6,7) by simp
  then show ?case by (rule recorded_inv)
next
  case (run_stamp s P H e x d s')
  then obtain t B where inv: "xtn_inv le s a t B P H" by blast
  show ?case using time_stamp_ok[OF inv run_stamp(2), of x d] run_stamp(3) by auto
next
  case (run_del_rec s P H n rc s')
  then obtain t B d where inv: "xtn_inv le s a t B P H" "P n = Some d" by blast
  obtain s1 t' B' where d: "cntlr_del_xtn_with_rec n s = Some (OF_SUCCESS, s1)" "xtn_inv le s1 a t' B' (P(n := None)) H"
    using del_rec_ok[OF inv] by blast
  moreover have "s' = s1" using d(1) run_del_rec(3) by simp
  ultimately show ?case by blast
next
  case (run_del_ref s P H t r rc s')
  then obtain t' B where inv: "xtn_inv le s a t' B P H" by blast
  then have "t' = t" using run_del_ref(2) by (simp add: xtn_inv_def)
  then show ?case using del_ref_ok[OF inv run_del_ref(3,4)] run_del_ref(5) inv by (auto split: option.splits)
next
  case (run_del_xid s P H e x d rc0 p rc s')
  then obtain t B where inv: "xtn_inv le s a t B P H" by blast
  show ?case using del_xid_ok[OF inv run_del_xid(2), of x d] get_ok[OF inv run_del_xid(2), of x d] run_del_xid(3,4) inv
    by (auto split: option.splits)
next
  case (run_expire s P H n s')
  then obtain t B where inv: "xtn_inv le s a t B P H" by blast
  have n: "n \<in> nodes B \<union> set (mt_rcu t)" using inv run_expire(2) unfolding xtn_inv_def recs_ok_def by blast
  have "\<exists>cs. notified (xt_recs s n) = Some cs"
    using run_expire(3) by (auto simp: expire_def cntlr_xtn_recrod_cleanup_func_def notified_def clean_multipart_req_msgs_def Let_def
        split: if_splits Option.bind_splits)
  then obtain cs where "notified (xt_recs s n) = Some cs" ..
  from expire_ok[OF inv n this] obtain s1 t' B' where d: "expire n s = Some s1" "xtn_inv le s1 a t' B' (P(n := None)) H" by blast
  moreover have "s' = s1" using d(1) run_expire(3) by simp
  ultimately show ?case by blast
next
  case (run_grace s P H t n e s')
  then obtain t' B where inv: "xtn_inv le s a t' B P H" by blast
  then have "t' = t" using run_grace(2) by (simp add: xtn_inv_def)
  have n: "n \<in> set (mt_rcu t')" using run_grace(3) \<open>t' = t\<close> by simp
  from grace_ok[OF inv n, of e] obtain s1 where d: "grace e n t' s = Some s1"
    "xtn_inv le s1 a (t'\<lparr>mt_rcu := remove1 n (mt_rcu t')\<rparr>) B P (H(n := None))" by blast
  moreover have "s' = s1" using d(1) run_grace(4) \<open>t' = t\<close> by simp
  ultimately show ?case by blast
qed

section \<open>A small system\<close>

definition demo_xmem :: mem_sys where
  "demo_xmem = \<lparr>ms_types = [(0, mheap_callbacks)], mempool_list_g = [], ms_pools = \<lambda>_. None,
     ms_links = \<lambda>_. None, ms_freed = [], mempool_index_g = 0\<rparr>"

definition demo_xtn :: "nat xtn_sys" where
  "demo_xtn = \<lparr>cntlr_xtn_table = None, cntlr_xtn_seq_no_g = 0, cntlr_xtn_hash_table_init_value_g = 0,
     cntlr_xtn_nodes_mempool_g = None, xt_mem = demo_xmem, xt_recs = \<lambda>_. zero_rec, xt_timer = \<lambda>_. False, xt_timeouts = []\<rparr>"

definition demo_xenv :: xtn_env where
  "demo_xenv = \<lparr>xe_mem = demo_env 0, xe_is_heap = 0, xe_timer = 0, xe_little_endian = True, xe_time = 0, xe_rand = 12345,
     xe_pool = Some 5, xe_table = Some 4096, xe_array_ok = True,
     xe_links = \<lambda>_. \<lparr>lk_prev = Null, lk_next = Null, lk_index = 0, lk_key = 0\<rparr>\<rparr>"

definition demo_xenv2 :: xtn_env where
  "demo_xenv2 = demo_xenv\<lparr>xe_mem := (demo_env 0)\<lparr>ev_chain := \<lambda>_. None\<rparr>\<rparr>"

lemma demo_chain_loop:
  "chain_loop (ev_chain (demo_env 0)) 0 (Suc (Suc (Suc k))) (\<lambda>_. None) None None 0 =
     ((\<lambda>_. None)(10 \<mapsto> 11), Some 10, Some 11, 2)"
  by (simp add: demo_env_def)

lemma demo_chain_xtn:
  "memory_alloc_chain_memchunks 1333 (ev_chain (demo_env 0)) 0 (\<lambda>_. None) = ((\<lambda>_. None)(10 \<mapsto> 11), Some 10, Some 11, 2)"
proof -
  have "unat (1333 :: u32) = Suc (Suc (Suc 1330))" by simp
  then show ?thesis unfolding memory_alloc_chain_memchunks_def
    by (simp only: demo_chain_loop) (simp add: fun_eq_iff)
qed

lemma demo_params_xtn: "xtn_pool_params 64 = \<lparr>pp_mempool_type = 0, pp_block_size = 64, pp_max_blocks = 5000,
     pp_memset_not_required = False, pp_list_per_thread_required = False, pp_noof_blocks_to_move = 0,
     pp_static_blocks = 4000, pp_threshold_min = 400, pp_threshold_max = 1333, pp_replenish_count = 400\<rparr>"
  by (simp add: xtn_pool_params_def cntlr_get_xtn_node_mempool_entries_def)

definition demo_xpool :: memory_pool where
  "demo_xpool = (pool_for ''of_Xtn_Nodes_pool'' (xtn_pool_params 64))\<lparr>head_p := Some 10, tail_p := Some 11, bit_map := 3,
     free_blocks_count := 2, heap_free_blocks_count := 1000, heap_allowed_blocks_count := 1000, static_blocks := 4000,
     static_allocated_blocks_count := 2, threshold_max := 1333, threshold_min := 400, replenish_count := 400\<rparr>"

definition demo_xmem1 :: mem_sys where
  "demo_xmem1 = demo_xmem\<lparr>mempool_list_g := [5], ms_pools := [5 \<mapsto> demo_xpool], ms_links := [10 \<mapsto> 11]\<rparr>"

lemma demo_pool_created:
  "mempool_create_pool (demo_env 0) (Some 5) (Some ''of_Xtn_Nodes_pool'') (Some (xtn_pool_params 64)) True demo_xmem =
     Some (MEMPOOL_SUCCESS, Some 5, demo_xmem1)"
  by (simp add: mempool_create_pool_def pool_name_for_def provider_of_def mheap_callbacks_def demo_params_xtn demo_xmem_def
      mempool_create_mheap_pool_def demo_chain_xtn mempool_set_threshold_values_def demo_xmem1_def demo_xpool_def
      set_mempool_attributes_def mheap_prepare_def Let_def pool_for_def zero_pool_def)

lemma chain_none: "chain_loop (\<lambda>_. None) ii k nx h p c = (nx, h, p, c)" by (cases k) simp_all

lemma demo_get:
  "\<exists>m2. mempool_get_mem_block ((demo_env 0)\<lparr>ev_chain := \<lambda>_. None\<rparr>) (Some 5) 0 demo_xmem1 = Some ((MEMPOOL_SUCCESS, Some 10, 0), m2)"
proof -
  have "refill_if_low ((demo_env 0)\<lparr>ev_chain := \<lambda>_. None\<rparr>) ([10 \<mapsto> 11], demo_xpool, []) = ([10 \<mapsto> 11], demo_xpool, [])"
    by (simp add: refill_if_low_def mempool_check_and_refill_def memory_alloc_chain_memchunks_def chain_none Let_def)
  then show ?thesis
    by (simp add: mempool_get_mem_block_def demo_xmem1_def demo_xmem_def provider_of_def mheap_callbacks_def
        mempool_mheap_get_mem_block_def demo_xpool_def pool_for_def zero_pool_def global_take_def Let_def)
qed

lemma demo_inited:
  obtains s1 where "cntlr_xtn_table_init demo_xenv 64 demo_xtn = Some (OF_SUCCESS, s1)" "xtn_run True 5 s1 Map.empty Map.empty"
    "xt_mem s1 = demo_xmem1" "cntlr_xtn_seq_no_g s1 = 0" "xt_timer s1 = (\<lambda>_. False)" "xt_timeouts s1 = []"
proof -
  obtain t where t: "mchash_table_create (5000 div 5 + 1) 5000 True (xe_table demo_xenv) (xe_array_ok demo_xenv) (xe_links demo_xenv) =
      Some (Created t)"
    by (simp add: mchash_table_create_def demo_xenv_def)
  define s1 where "s1 = demo_xtn\<lparr>xt_mem := demo_xmem1, cntlr_xtn_nodes_mempool_g := Some 5,
    cntlr_xtn_hash_table_init_value_g := xe_rand demo_xenv, cntlr_xtn_table := Some t, cntlr_xtn_seq_no_g := 0\<rparr>"
  have c: "mempool_create_pool (xe_mem demo_xenv) (xe_pool demo_xenv) (Some ''of_Xtn_Nodes_pool'') (Some (xtn_pool_params 64)) True
      (xt_mem demo_xtn) = Some (MEMPOOL_SUCCESS, Some 5, demo_xmem1)"
    using demo_pool_created by (simp add: demo_xenv_def demo_xtn_def)
  have i: "cntlr_xtn_table_init demo_xenv 64 demo_xtn = Some (OF_SUCCESS, s1)"
    using c t by (simp add: cntlr_xtn_table_init_def s1_def)
  have f: "env_fresh (xe_mem demo_xenv) {}" using demo_fresh[of "{}" 0] by (simp add: demo_xenv_def)
  show thesis
  proof (rule that[OF i])
    show "xtn_run True 5 s1 Map.empty Map.empty"
      by (rule run_init[OF i]) (use f in \<open>simp_all add: demo_xtn_def demo_xmem_def demo_xenv_def provider_of_def\<close>)
  qed (simp_all add: s1_def demo_xtn_def)
qed

text \<open>A barrier request recorded in it.\<close>

definition demo_msg :: "u8 list" where "demo_msg = [4, 20, 0, 8, 0, 0, 0, 0, 0, 0]"

lemma demo_fresh2: "calls_fresh a (xe_mem demo_xenv2) m H"
  by (simp add: calls_fresh_def demo_xenv2_def demo_xenv_def env_fresh_def)

lemma demo_recorded_msg:
  assumes s1: "xtn_run True 5 s1 Map.empty Map.empty" "xt_mem (s1 :: nat xtn_sys) = demo_xmem1" "cntlr_xtn_seq_no_g s1 = 0"
    and len: "10 \<le> length msg"
  obtains s2 msg1 r where "cntlr_record_xtn_details demo_xenv2 msg 77 3 (Some 9) None None s1 = Some (OF_SUCCESS, Some r, msg1, s2)"
    "xtn_run True 5 s2 [10 \<mapsto> 3] [10 \<mapsto> 0]" "rc_xid (xt_recs s2 10) = 1" "xt_timer s2 10" 
    "xt_recs s2 10 = (new_rec True 1 msg 77 (Some 9) None None 0)\<lparr>rec_safe_ref := r\<rparr>"
proof -
  have e: "xe_little_endian demo_xenv2 = True" "xe_timer demo_xenv2 = 0" "xe_is_heap demo_xenv2 = 0"
    "xe_mem demo_xenv2 = (demo_env 0)\<lparr>ev_chain := \<lambda>_. None\<rparr>" by (simp_all add: demo_xenv2_def demo_xenv_def)
  have pre: "unat (cntlr_xtn_seq_no_g s1) + 2 < 2 ^ 32" "10 \<le> length msg" using s1(3) len by simp_all
  obtain t B where inv: "xtn_inv True s1 5 t B Map.empty Map.empty" using xtn_run_inv[OF s1(1)] by blast
  obtain m2 where g: "mempool_get_mem_block (xe_mem demo_xenv2) (Some 5) (xe_is_heap demo_xenv2) (xt_mem s1) =
      Some ((MEMPOOL_SUCCESS, Some 10, 0), m2)"
    using demo_get s1(2) e(3,4) by auto
  obtain rc ref msg' s2 where r: "cntlr_record_xtn_details demo_xenv2 msg 77 3 (Some (9 :: nat)) None None s1 = Some (rc, ref, msg', s2)"
    "recorded True demo_xenv2 msg 77 3 (Some 9) None None s1 5 t B Map.empty Map.empty (Some 10) 0 rc ref msg' s2"
    using record_ok[OF inv e(1) demo_fresh2 pre, of 77 3 "Some 9" None None] g by auto
  then obtain q where q: "rc = OF_SUCCESS" "ref = Some q" "xt_timer s2 = (xt_timer s1)(10 := True)"
    "xt_recs s2 = (xt_recs s1)(10 := (new_rec True (next_xid 0) msg 77 (Some 9) None None 0)\<lparr>rec_safe_ref := q\<rparr>)"
    using s1(3) e(2) by (auto simp: recorded_def Let_def)
  have "xtn_run True 5 s2 (case ref of None \<Rightarrow> Map.empty | Some _ \<Rightarrow> Map.empty(the (Some 10) \<mapsto> 3))
      (case Some 10 of None \<Rightarrow> Map.empty | Some n \<Rightarrow> Map.empty(n \<mapsto> 0))"
    by (rule run_record[OF s1(1) e(1) demo_fresh2 pre g r(1)])
  then show thesis using that r(1) q by (simp add: new_rec_def next_xid_def)
qed

lemma demo_recorded:
  assumes s1: "xtn_run True 5 s1 Map.empty Map.empty" "xt_mem (s1 :: nat xtn_sys) = demo_xmem1" "cntlr_xtn_seq_no_g s1 = 0"
  obtains s2 msg1 r where "cntlr_record_xtn_details demo_xenv2 demo_msg 77 3 (Some 9) None None s1 = Some (OF_SUCCESS, Some r, msg1, s2)"
    "xtn_run True 5 s2 [10 \<mapsto> 3] [10 \<mapsto> 0]" "rc_xid (xt_recs s2 10) = 1" "xt_timer s2 10" "rc_msg_type (xt_recs s2 10) = 20"
proof -
  have "10 \<le> length demo_msg" by (simp add: demo_msg_def)
  from demo_recorded_msg[OF s1 this] obtain s2 msg1 r where
    "cntlr_record_xtn_details demo_xenv2 demo_msg 77 3 (Some 9) None None s1 = Some (OF_SUCCESS, Some r, msg1, s2)"
    "xtn_run True 5 s2 [10 \<mapsto> 3] [10 \<mapsto> 0]" "rc_xid (xt_recs s2 10) = 1" "xt_timer s2 10"
    "xt_recs s2 10 = (new_rec True 1 demo_msg 77 (Some 9) None None 0)\<lparr>rec_safe_ref := r\<rparr>" .
  then show thesis using that by (simp add: new_rec_def demo_msg_def)
qed

section \<open>Properties\<close>

text \<open>C8: in every run, the requests that are pending are exactly those a search can find: a search with the
  id of a pending request and the datapath it was sent to returns its record; a search always returns,
  and what it returns is a pending record with that id. Ids of pending requests are distinct. At most
  5000 records are in use, and no record is at the same time in the table and waiting to be released;
  only these two kinds of records have a running timer.\<close>

theorem xtn_lookup_exact:
  assumes "xtn_run le a s P H" "xe_little_endian e = le"
  shows "(\<forall>n d. P n = Some d \<longrightarrow> cntlr_get_xtn_details e (rc_xid (xt_recs s n)) d s = Some (OF_SUCCESS, Some n)) \<and>
    (\<forall>x d. \<exists>rc p. cntlr_get_xtn_details e x d s = Some (rc, p) \<and>
       (case p of None \<Rightarrow> rc = OF_FAILURE | Some n \<Rightarrow> rc = OF_SUCCESS \<and> n \<in> dom P \<and> rc_xid (xt_recs s n) = x)) \<and>
    inj_on (\<lambda>n. rc_xid (xt_recs s n)) (dom P) \<and> finite (dom H) \<and> card (dom H) \<le> 5000 \<and>
    (\<exists>t. cntlr_xtn_table s = Some t \<and> dom P \<union> set (mt_rcu t) \<subseteq> dom H \<and> dom P \<inter> set (mt_rcu t) = {} \<and> distinct (mt_rcu t) \<and>
       {n. xt_timer s n} \<subseteq> dom P \<union> set (mt_rcu t))"
proof -
  obtain t B where inv: "xtn_inv le s a t B P H" using xtn_run_inv[OF assms(1)] by blast
  have ok: "recs_ok le (cntlr_xtn_hash_table_init_value_g s) (cntlr_xtn_seq_no_g s) (xt_recs s) (xt_timer s) t B P H"
    and I: "cntlr_xtn_table s = Some t" "dom P = nodes B" "nodes B \<inter> set (mt_rcu t) = {}" "distinct (mt_rcu t)"
      "pool_ok a 5000 (xt_mem s) H"
    using inv by (simp_all add: xtn_inv_def)
  have "\<exists>rc p. cntlr_get_xtn_details e x d s = Some (rc, p) \<and>
      (case p of None \<Rightarrow> rc = OF_FAILURE | Some n \<Rightarrow> rc = OF_SUCCESS \<and> n \<in> dom P \<and> rc_xid (xt_recs s n) = x)" for x d
  proof -
    obtain rc p where g: "cntlr_get_xtn_details e x d s = Some (rc, p)"
      using get_ok[OF inv assms(2), of x d] by (auto split: option.splits)
    then have "p = None \<Longrightarrow> rc = OF_FAILURE" using get_ok[OF inv assms(2), of x d] by (auto split: option.splits)
    then show ?thesis using g get_sound[OF inv assms(2)] by (cases p) auto
  qed
  moreover have "dom P \<union> set (mt_rcu t) \<subseteq> dom H" using recs_okD(1)[OF ok] I(2) by auto
  moreover have "{n. xt_timer s n} \<subseteq> dom P \<union> set (mt_rcu t)" using recs_okD(7)[OF ok] I(2) by auto
  ultimately show ?thesis using get_pending[OF inv assms(2)] recs_okD(5)[OF ok] pool.limit_law[OF I(5)] I by simp
qed

theorem xtn_lookup_exact_witness:
  "\<exists>s :: nat xtn_sys. cntlr_get_xtn_details demo_xenv2 1 3 s = Some (OF_SUCCESS, Some 10)"
proof -
  obtain s1 :: "nat xtn_sys" where s1: "xtn_run True 5 s1 Map.empty Map.empty" "xt_mem s1 = demo_xmem1" "cntlr_xtn_seq_no_g s1 = 0"
    by (rule demo_inited)
  obtain s2 :: "nat xtn_sys" where s2: "xtn_run True 5 s2 [10 \<mapsto> 3] [10 \<mapsto> 0]" "rc_xid (xt_recs s2 10) = 1"
    by (rule demo_recorded[OF s1])
  have "xe_little_endian demo_xenv2 = True" by (simp add: demo_xenv2_def demo_xenv_def)
  from xtn_lookup_exact[OF s2(1) this, THEN conjunct1, rule_format, of 10 3] show ?thesis
    by (intro exI[of _ s2]) (simp add: s2(2))
qed

text \<open>C9: recording a request. Without a block nothing happens. Otherwise the request gets the next id, which no
  pending request has, in its header; when the timer cannot be started with \<^verbatim>\<open>OF_FAILURE\<close> the request is
  refused and its block is lost: it is neither in the table nor released. In every other case - also when
  the timer has failed with another code - the request becomes pending, so that a search finds it;
  there is always room in the table.\<close>

theorem xtn_record_correct:
  assumes "xtn_run le a s P H" "xe_little_endian e = le" "calls_fresh a (xe_mem e) (xt_mem s) H"
    "unat (cntlr_xtn_seq_no_g s) + 2 < 2 ^ 32" "10 \<le> length msg"
  shows "\<exists>rc0 ob hb m1 rc ref msg' s'.
    mempool_get_mem_block (xe_mem e) (Some a) (xe_is_heap e) (xt_mem s) = Some ((rc0, ob, hb), m1) \<and>
    cntlr_record_xtn_details e msg h d cb a1 a2 s = Some (rc, ref, msg', s') \<and>
    (case ob of None \<Rightarrow> rc = OF_FAILURE \<and> ref = None \<and> msg' = msg \<and> xtn_run le a s' P H
     | Some n \<Rightarrow> n \<notin> dom H \<and> msg' = stamp_xid (next_xid (cntlr_xtn_seq_no_g s)) msg \<and>
        (\<forall>m\<in>dom P. rc_xid (xt_recs s m) \<noteq> next_xid (cntlr_xtn_seq_no_g s)) \<and>
        (if xe_timer e = OF_FAILURE
         then rc = OF_FAILURE \<and> ref = None \<and> \<not> xt_timer s' n \<and> xtn_run le a s' P (H(n \<mapsto> hb))
         else rc = OF_SUCCESS \<and> ref \<noteq> None \<and> (xt_timer s' n \<longleftrightarrow> xe_timer e = TIMER_SUCCESS) \<and>
           xtn_run le a s' (P(n \<mapsto> d)) (H(n \<mapsto> hb)) \<and>
           cntlr_get_xtn_details e (next_xid (cntlr_xtn_seq_no_g s)) d s' = Some (OF_SUCCESS, Some n) \<and>
           xt_recs s' n = (new_rec le (next_xid (cntlr_xtn_seq_no_g s)) msg h cb a1 a2 hb)\<lparr>rec_safe_ref := the ref\<rparr>))"
proof -
  let ?x = "next_xid (cntlr_xtn_seq_no_g s)"
  obtain t B where inv: "xtn_inv le s a t B P H" using xtn_run_inv[OF assms(1)] by blast
  have ok: "recs_ok le (cntlr_xtn_hash_table_init_value_g s) (cntlr_xtn_seq_no_g s) (xt_recs s) (xt_timer s) t B P H"
    and P: "dom P = nodes B" using inv by (simp_all add: xtn_inv_def)
  obtain rc0 ob hb m1 rc ref msg' s' where
    g: "mempool_get_mem_block (xe_mem e) (Some a) (xe_is_heap e) (xt_mem s) = Some ((rc0, ob, hb), m1)"
    and r: "cntlr_record_xtn_details e msg h d cb a1 a2 s = Some (rc, ref, msg', s')"
    and R: "recorded le e msg h d cb a1 a2 s a t B P H ob hb rc ref msg' s'"
    using record_ok[OF inv assms(2-5), of h d cb a1 a2] by (elim exE conjE) (rule that)
  note run = run_record[OF assms g r]
  have new: "rc_xid (xt_recs s m) \<noteq> ?x" if "m \<in> dom P" for m
  proof -
    have "m \<in> nodes B" using that P by simp
    then obtain k where "m \<in> set (B k)" unfolding in_nodes ..
    from recs_okD(3)[OF ok this] show ?thesis using next_xid_no_wrap[OF assms(4)] by auto
  qed
  have res: "case ob of None \<Rightarrow> rc = OF_FAILURE \<and> ref = None \<and> msg' = msg \<and> xtn_run le a s' P H
     | Some n \<Rightarrow> n \<notin> dom H \<and> msg' = stamp_xid ?x msg \<and> (\<forall>m\<in>dom P. rc_xid (xt_recs s m) \<noteq> ?x) \<and>
        (if xe_timer e = OF_FAILURE
         then rc = OF_FAILURE \<and> ref = None \<and> \<not> xt_timer s' n \<and> xtn_run le a s' P (H(n \<mapsto> hb))
         else rc = OF_SUCCESS \<and> ref \<noteq> None \<and> (xt_timer s' n \<longleftrightarrow> xe_timer e = TIMER_SUCCESS) \<and>
           xtn_run le a s' (P(n \<mapsto> d)) (H(n \<mapsto> hb)) \<and> cntlr_get_xtn_details e ?x d s' = Some (OF_SUCCESS, Some n) \<and>
           xt_recs s' n = (new_rec le ?x msg h cb a1 a2 hb)\<lparr>rec_safe_ref := the ref\<rparr>)"
  proof (cases ob)
    case None
    then show ?thesis using R run by (simp add: recorded_def Let_def)
  next
    case (Some n)
    show ?thesis
    proof (cases "xe_timer e = OF_FAILURE")
      case True
      have "n \<notin> dom H" using R Some by (simp add: recorded_def Let_def)
      then have "\<not> xt_timer s n" using recs_okD(7)[OF ok, of n] recs_okD(1)[OF ok, of n] by auto
      then show ?thesis using R run Some True new by (simp add: recorded_def Let_def)
    next
      case False
      have R': "n \<notin> dom H" "msg' = stamp_xid ?x msg" using R Some by (simp_all add: recorded_def Let_def)
      obtain q t' B' where q: "rc = OF_SUCCESS" "ref = Some q" "xt_timer s' = (xt_timer s)(n := xe_timer e = TIMER_SUCCESS)"
        "xt_recs s' = (xt_recs s)(n := (new_rec le ?x msg h cb a1 a2 hb)\<lparr>rec_safe_ref := q\<rparr>)"
        "xtn_inv le s' a t' B' (P(n \<mapsto> d)) (H(n \<mapsto> hb))"
        using R unfolding recorded_def Let_def Some option.case if_not_P[OF False] by blast
      have "rc_xid (xt_recs s' n) = ?x" using q(4) by (simp add: new_rec_def)
      then have "cntlr_get_xtn_details e ?x d s' = Some (OF_SUCCESS, Some n)"
        using get_pending[OF q(5) assms(2), of n d] by simp
      then show ?thesis using R' run Some False new q by simp
    qed
  qed
  show ?thesis using g r res by blast
qed

theorem xtn_record_correct_witness:
  "\<exists>(s :: nat xtn_sys) rc ref msg' s'. cntlr_record_xtn_details demo_xenv2 demo_msg 77 3 (Some 9) None None s = Some (rc, ref, msg', s')"
proof -
  obtain s1 :: "nat xtn_sys" where s1: "xtn_run True 5 s1 Map.empty Map.empty" "xt_mem s1 = demo_xmem1" "cntlr_xtn_seq_no_g s1 = 0"
    by (rule demo_inited)
  have "xe_little_endian demo_xenv2 = True" "unat (cntlr_xtn_seq_no_g s1) + 2 < 2 ^ 32" "10 \<le> length demo_msg"
    using s1(3) by (simp_all add: demo_xenv2_def demo_xenv_def demo_msg_def)
  from xtn_record_correct[OF s1(1) this(1) demo_fresh2 this(2,3), of 77 3 "Some 9" None None] show ?thesis by blast
qed

text \<open>C10: a request is answered once: deleting a pending record - by the record, by its reference or by its id -
  succeeds and only removes this record. Afterwards a search for its id finds nothing, its reference
  is refused, and when the grace period ends its block is released.\<close>

theorem xtn_answered_once:
  assumes "xtn_run le a s P H" "xe_little_endian e = le" "P n = Some d"
    "res \<in> {cntlr_del_xtn_with_rec n s, cntlr_del_xtn_with_safe_ref (rec_safe_ref (xt_recs s n)) s,
       cntlr_del_xtn_rec e (rc_xid (xt_recs s n)) d s}"
  shows "\<exists>s' t' s''. res = Some (OF_SUCCESS, s') \<and> xtn_run le a s' (P(n := None)) H \<and>
    cntlr_get_xtn_details e (rc_xid (xt_recs s n)) d s' = Some (OF_FAILURE, None) \<and>
    cntlr_del_xtn_with_safe_ref (rec_safe_ref (xt_recs s n)) s' = Some (OF_FAILURE, s') \<and>
    cntlr_xtn_table s' = Some t' \<and> n \<in> set (mt_rcu t') \<and>
    grace e n t' s' = Some s'' \<and> xtn_run le a s'' (P(n := None)) (H(n := None))"
proof -
  obtain t B where inv: "xtn_inv le s a t B P H" using xtn_run_inv[OF assms(1)] by blast
  have I: "cntlr_xtn_table s = Some t" "dom P = nodes B" "mch_inv t B"
    and ok: "recs_ok le (cntlr_xtn_hash_table_init_value_g s) (cntlr_xtn_seq_no_g s) (xt_recs s) (xt_timer s) t B P H"
    using inv by (simp_all add: xtn_inv_def)
  have nB: "n \<in> set (B (xid_hash le (cntlr_xtn_hash_table_init_value_g s) (rc_xid (xt_recs s n)) d))"
    by (rule xtn_bucket[OF inv assms(3)])
  have nN: "n \<in> nodes B" by (rule nodesI[where B = B, OF nB])
  have ref: "mch_refs t (rec_safe_ref (xt_recs s n)) = Some n" using recs_okD(3)[OF ok nB] by simp
  have rng: "unat (fst (rec_safe_ref (xt_recs s n))) < 5000" "snd (rec_safe_ref (xt_recs s n)) \<noteq> 0"
    using recs_okD(1)[OF ok, of n] nN by auto
  have get: "cntlr_get_xtn_details e (rc_xid (xt_recs s n)) d s = Some (OF_SUCCESS, Some n)"
    by (rule get_pending[OF inv assms(2,3)])
  then have find: "List.find (\<lambda>m. rc_xid (xt_recs s m) = rc_xid (xt_recs s n))
      (B (xid_hash le (cntlr_xtn_hash_table_init_value_g s) (rc_xid (xt_recs s n)) d)) = Some n"
    using get_ok[OF inv assms(2), of "rc_xid (xt_recs s n)" d] by (auto split: option.splits)
  obtain s' t' B' where s': "res = Some (OF_SUCCESS, s')" "s' = s\<lparr>cntlr_xtn_table := Some t'\<rparr>"
    "xtn_inv le s' a t' B' (P(n := None)) H" "mt_rcu t' = mt_rcu t @ [n]"
    using assms(4) del_rec_ok[OF inv assms(3)] del_ref_ok[OF inv rng] del_xid_ok[OF inv assms(2), of "rc_xid (xt_recs s n)" d]
    unfolding ref find option.case by (elim insertE emptyE) (simp_all, blast+)
  have run: "xtn_run le a s' (P(n := None)) H"
    using assms(4) run_del_rec[OF assms(1), of n OF_SUCCESS s'] run_del_ref[OF assms(1) I(1) rng, of OF_SUCCESS s']
      run_del_xid[OF assms(1,2) get, of OF_SUCCESS s'] assms(3) s'(1) unfolding ref
    by (elim insertE emptyE) (simp_all add: domI)
  have "cntlr_get_xtn_details e (rc_xid (xt_recs s n)) d s' = Some (OF_FAILURE, None)"
  proof -
    obtain rc p where g: "cntlr_get_xtn_details e (rc_xid (xt_recs s n)) d s' = Some (rc, p)"
      "p = None \<Longrightarrow> rc = OF_FAILURE"
      using get_ok[OF s'(3) assms(2), of "rc_xid (xt_recs s n)" d] by (auto split: option.splits)
    have "p = None"
    proof (cases p)
      case (Some m)
      then have m: "m \<in> dom (P(n := None))" "rc_xid (xt_recs s m) = rc_xid (xt_recs s n)"
        using get_sound[OF s'(3) assms(2), of "rc_xid (xt_recs s n)" d rc m] g(1) s'(2) by simp_all
      then have "m \<in> nodes B" "m \<noteq> n" using I(2) by auto
      then show ?thesis using inj_onD[OF recs_okD(5)[OF ok] m(2)] nN by blast
    qed simp
    then show ?thesis using g by simp
  qed
  moreover have "cntlr_del_xtn_with_safe_ref (rec_safe_ref (xt_recs s n)) s' = Some (OF_FAILURE, s')"
  proof -
    have "recs_ok le (cntlr_xtn_hash_table_init_value_g s') (cntlr_xtn_seq_no_g s') (xt_recs s') (xt_timer s') t' B' (P(n := None)) H"
      using s'(3) by (simp add: xtn_inv_def)
    from recs_okD(2)[OF this, of n] have "mch_refs t' (rec_safe_ref (xt_recs s n)) = None" using s'(2,4) by simp
    then show ?thesis using del_ref_ok[OF s'(3) rng] by simp
  qed
  moreover have n': "cntlr_xtn_table s' = Some t'" "n \<in> set (mt_rcu t')" using s'(2,4) by simp_all
  moreover obtain s'' where g: "grace e n t' s' = Some s''" using grace_ok[OF s'(3) n'(2), of e] by blast
  moreover have "xtn_run le a s'' (P(n := None)) (H(n := None))" by (rule run_grace[OF run n' g])
  ultimately show ?thesis using s'(1) run by blast
qed

theorem xtn_answered_once_witness:
  "\<exists>(s :: nat xtn_sys) s'. cntlr_del_xtn_with_rec 10 s = Some (OF_SUCCESS, s') \<and>
     cntlr_get_xtn_details demo_xenv2 1 3 s' = Some (OF_FAILURE, None)"
proof -
  obtain s1 :: "nat xtn_sys" where s1: "xtn_run True 5 s1 Map.empty Map.empty" "xt_mem s1 = demo_xmem1" "cntlr_xtn_seq_no_g s1 = 0"
    by (rule demo_inited)
  obtain s2 :: "nat xtn_sys" where s2: "xtn_run True 5 s2 [10 \<mapsto> 3] [10 \<mapsto> 0]" "rc_xid (xt_recs s2 10) = 1"
    by (rule demo_recorded[OF s1])
  have "xe_little_endian demo_xenv2 = True" "[10 \<mapsto> 3] 10 = Some (3 :: u64)" by (simp_all add: demo_xenv2_def demo_xenv_def)
  from xtn_answered_once[OF s2(1) this, of "cntlr_del_xtn_with_rec 10 s2"] s2(2) show ?thesis by auto
qed

text \<open>The records whose application is called when the timer expires, and the record of a message: its type
  and, of a multipart request, the kind as the host reads it.\<close>

definition told :: "'c cntlr_transactn_rec \<Rightarrow> bool" where
  "told r \<longleftrightarrow> rc_msg_type r = OFPT_MULTIPART_REQUEST \<and> rc_msg_subtype r \<le> 13 \<and> rc_msg_subtype r \<noteq> OFPMP_QUEUE"

definition rec_of_msg :: "bool \<Rightarrow> u8 list \<Rightarrow> 'c cntlr_transactn_rec \<Rightarrow> bool" where
  "rec_of_msg le msg r \<longleftrightarrow> rc_msg_type r = msg ! 1 \<and>
     (msg ! 1 = OFPT_MULTIPART_REQUEST \<longrightarrow> rc_msg_subtype r = host_u16 le (msg ! 8) (msg ! 9))"

lemma rec_of_new_rec: "rec_of_msg le msg ((new_rec le x msg h cb a1 a2 hb)\<lparr>rec_safe_ref := q\<rparr>)"
  by (simp add: rec_of_msg_def new_rec_def)

lemma host_u16_kind:
  "host_u16 True 0 k \<le> 13 \<longleftrightarrow> k = 0" "host_u16 False 0 k \<le> 13 \<longleftrightarrow> k \<le> 13" "host_u16 False 0 k = 5 \<longleftrightarrow> k = 5"
  "host_u16 True 0 0 = 0"
proof -
  have u: "unat (ucast k :: u16) = unat k" using unsigned_less[of k, where ?'a = nat] by (simp add: unsigned_ucast_eq take_bit_nat_eq_self_iff)
  have p: "unat (push_bit 8 (ucast k) :: u16) = unat k * 256"
    using unsigned_less[of k, where ?'a = nat] u by (simp add: push_bit_eq_mult unat_word_ariths)
  show "host_u16 True 0 k \<le> 13 \<longleftrightarrow> k = 0" using p by (auto simp: host_u16_def word_le_nat_alt word_unat_eq_iff)
  show "host_u16 False 0 k \<le> 13 \<longleftrightarrow> k \<le> 13" using u by (simp add: host_u16_def word_le_nat_alt)
  show "host_u16 False 0 k = 5 \<longleftrightarrow> k = 5" using u by (simp add: host_u16_def word_unat_eq_iff)
  show "host_u16 True 0 0 = 0" by (simp add: host_u16_def)
qed

text \<open>C13: the timer of a record expires. Unless the request is one whose application has to be called and no
  callback is set, where NULL is called, the record is removed from the table if it is still pending and
  waits for its grace period; a request that has been answered already and waits for its grace period is
  treated the same, as it still has its timer. The application is called only for a multipart request
  whose stored kind is at most 13 and not queues: then its callback is called exactly once, with this kind, and
  for every other request nobody is told. The kind is stored as the host reads the two bytes of the message:
  of the kinds below 256, a big-endian host tells the application about 0 to 13 except queues, a
  little-endian host about 0, the description of the switch, alone.\<close>

theorem xtn_timeout:
  assumes "xtn_run le a s P H" "xt_timer s n"
  shows "(if told (xt_recs s n) \<and> rc_callback_fn (xt_recs s n) = None then expire n s = None
     else \<exists>s' t t'. expire n s = Some s' \<and>
       xt_timeouts s' = xt_timeouts s @ (if told (xt_recs s n)
         then [Timeout (the (rc_callback_fn (xt_recs s n))) (rc_msg_subtype (xt_recs s n))
           (if rc_msg_subtype (xt_recs s n) = 0 then None else Some (rc_dp_handle (xt_recs s n)))] else []) \<and>
       \<not> xt_timer s' n \<and> xtn_run le a s' (P(n := None)) H \<and> cntlr_xtn_table s = Some t \<and> cntlr_xtn_table s' = Some t' \<and>
       mt_rcu t' = mt_rcu t @ (if n \<in> dom P then [n] else []) \<and> n \<in> set (mt_rcu t')) \<and>
    (\<forall>msg. rec_of_msg le msg (xt_recs s n) \<and> msg ! 8 = 0 \<longrightarrow>
       told (xt_recs s n) = (msg ! 1 = OFPT_MULTIPART_REQUEST \<and> (if le then msg ! 9 = 0 else msg ! 9 \<le> 13 \<and> msg ! 9 \<noteq> 5)))"
proof
  let ?r = "xt_recs s n"
  show "if told ?r \<and> rc_callback_fn ?r = None then expire n s = None
     else \<exists>s' t t'. expire n s = Some s' \<and>
       xt_timeouts s' = xt_timeouts s @ (if told ?r then [Timeout (the (rc_callback_fn ?r)) (rc_msg_subtype ?r)
           (if rc_msg_subtype ?r = 0 then None else Some (rc_dp_handle ?r))] else []) \<and>
       \<not> xt_timer s' n \<and> xtn_run le a s' (P(n := None)) H \<and> cntlr_xtn_table s = Some t \<and> cntlr_xtn_table s' = Some t' \<and>
       mt_rcu t' = mt_rcu t @ (if n \<in> dom P then [n] else []) \<and> n \<in> set (mt_rcu t')"
  proof (cases "told ?r \<and> rc_callback_fn ?r = None")
    case True
    then have "expire n s = None"
      by (auto simp: told_def expire_def cntlr_xtn_recrod_cleanup_func_def clean_multipart_req_msgs_def Let_def)
    then show ?thesis using True by simp
  next
    case False
    let ?cs = "if told ?r then [Timeout (the (rc_callback_fn ?r)) (rc_msg_subtype ?r)
           (if rc_msg_subtype ?r = 0 then None else Some (rc_dp_handle ?r))] else []"
    have cs: "notified ?r = Some ?cs" using False by (auto simp: notified_def told_def)
    obtain t B where inv: "xtn_inv le s a t B P H" using xtn_run_inv[OF assms(1)] by blast
    have I: "cntlr_xtn_table s = Some t" "dom P = nodes B"
      and ok: "recs_ok le (cntlr_xtn_hash_table_init_value_g s) (cntlr_xtn_seq_no_g s) (xt_recs s) (xt_timer s) t B P H"
      using inv by (simp_all add: xtn_inv_def)
    have n: "n \<in> nodes B \<union> set (mt_rcu t)" by (rule recs_okD(7)[OF ok assms(2)])
    obtain s' t' B' where s': "expire n s = Some s'" "xt_timeouts s' = xt_timeouts s @ ?cs" "xt_timer s' = (xt_timer s)(n := False)"
      "xtn_inv le s' a t' B' (P(n := None)) H" "mt_rcu t' = mt_rcu t @ (if n \<in> dom P then [n] else [])"
      using expire_ok[OF inv n cs] by (elim exE conjE) (rule that)
    have "cntlr_xtn_table s' = Some t'" using s'(4) by (simp add: xtn_inv_def)
    moreover have "n \<in> set (mt_rcu t')" using s'(5) n I(2) by auto
    moreover have "\<not> xt_timer s' n" using s'(3) by simp
    ultimately show ?thesis unfolding if_not_P[OF False] using s'(1,2,5) I(1) run_expire[OF assms s'(1)] by blast
  qed
  show "\<forall>msg. rec_of_msg le msg ?r \<and> msg ! 8 = 0 \<longrightarrow>
       told ?r = (msg ! 1 = OFPT_MULTIPART_REQUEST \<and> (if le then msg ! 9 = 0 else msg ! 9 \<le> 13 \<and> msg ! 9 \<noteq> 5))"
    using host_u16_kind by (cases le) (auto simp: told_def rec_of_msg_def)
qed

text \<open>A request for the description of a switch on a little-endian host: the application 9 is called.\<close>

theorem xtn_timeout_witness:
  "\<exists>(s :: nat xtn_sys) s'. expire 10 s = Some s' \<and> xt_timeouts s' = xt_timeouts s @ [Timeout 9 0 None] \<and>
     xtn_run True 5 s' Map.empty [10 \<mapsto> 0]"
proof -
  let ?msg = "[4, 18, 0, 16, 0, 0, 0, 0, 0, 0] :: u8 list"
  obtain s1 :: "nat xtn_sys" where s1: "xtn_run True 5 s1 Map.empty Map.empty" "xt_mem s1 = demo_xmem1" "cntlr_xtn_seq_no_g s1 = 0"
    by (rule demo_inited)
  have "10 \<le> length ?msg" by simp
  from demo_recorded_msg[OF s1 this] obtain s2 :: "nat xtn_sys" and r where
    s2: "xtn_run True 5 s2 [10 \<mapsto> 3] [10 \<mapsto> 0]" "xt_timer s2 10"
      "xt_recs s2 10 = (new_rec True 1 ?msg 77 (Some 9) None None 0)\<lparr>rec_safe_ref := r\<rparr>"
    by blast
  have k: "rc_callback_fn (xt_recs s2 10) = Some 9" "rc_msg_subtype (xt_recs s2 10) = 0"
    by (simp_all add: s2(3) new_rec_def host_u16_def)
  have m: "rec_of_msg True ?msg (xt_recs s2 10)" unfolding s2(3) by (rule rec_of_new_rec)
  have "told (xt_recs s2 10)"
    using xtn_timeout[OF s2(1,2), THEN conjunct2, rule_format, of ?msg] m by simp
  with xtn_timeout[OF s2(1,2), THEN conjunct1] k show ?thesis by auto
qed

text \<open>The kind of a multipart request is read in the byte order of the host but compared in the byte order of
  the network: on a little-endian host the application of an expired multipart request of any kind but
  0 (the description of a switch) is never told, on a big-endian host it is, except for queues.\<close>

theorem xtn_multipart_byte_order:
  assumes "msg ! 1 = OFPT_MULTIPART_REQUEST" "msg ! 8 = 0" "0 < msg ! 9" "msg ! 9 \<le> 13" "msg ! 9 \<noteq> 5"
  shows "notified (new_rec True x msg h (Some c) a1 a2 hb) = Some [] \<and>
    notified (new_rec False x msg h (Some c) a1 a2 hb) = Some [Timeout c (ucast (msg ! 9)) (Some h)]"
proof -
  let ?k = "msg ! 9"
  have u: "0 < unat ?k" "unat ?k \<le> 13" "unat ?k \<noteq> 5"
    using assms(3-5) by (simp_all add: word_less_nat_alt word_le_nat_alt word_unat_eq_iff)
  have "unat (ucast ?k :: u16) = unat ?k" using u(2) by (simp add: unsigned_ucast_eq take_bit_nat_eq_self_iff)
  then have b: "(ucast ?k :: u16) \<le> 13" "(ucast ?k :: u16) \<noteq> 5" "(ucast ?k :: u16) \<noteq> 0"
    using u by (auto simp: word_le_nat_alt word_unat_eq_iff)
  have "unat (push_bit 8 (ucast ?k) :: u16) = unat ?k * 256"
    using u(2) \<open>unat (ucast ?k :: u16) = unat ?k\<close> by (simp add: push_bit_eq_mult unat_word_ariths)
  then have l: "\<not> (push_bit 8 (ucast ?k) :: u16) \<le> 13" using u(1) by (simp add: word_le_nat_alt)
  show ?thesis using assms(1,2) b l by (simp add: notified_def new_rec_def host_u16_def)
qed

theorem xtn_multipart_byte_order_witness:
  "notified (new_rec True 1 [4, 18, 0, 16, 0, 0, 0, 0, 0, 1] 77 (Some (9 :: nat)) None None 0) = Some []"
  using xtn_multipart_byte_order[of "[4, 18, 0, 16, 0, 0, 0, 0, 0, 1]" 1 77 "9 :: nat" None None 0] by simp

end
