(* ===== verification/Nem_Util.thy ===== *)
theory Nem_Util
  imports Mchash_Client
begin

text \<open>
  The network element manager maps the namespaces of the system to numbers and to the datapaths and
  ports attached to them. This theory holds its codes and constants (\<^verbatim>\<open>nemldef.h\<close>), the hashes of the keys
  of its databases (\<^verbatim>\<open>nem/nemutil.c\<close>) and the two generators of numbers: of namespaces, and of the
  namespaces of a datapath (the array \<^verbatim>\<open>of_nem_dpid_ns_info_g\<close> of \<^verbatim>\<open>nem/nemdpnsid.c\<close>).
\<close>

section \<open>Codes and constants\<close>

abbreviation (input) NEM_SUCCESS :: int where "NEM_SUCCESS \<equiv> 0"
abbreviation (input) NEM_FAILURE :: int where "NEM_FAILURE \<equiv> -1"
abbreviation (input) NEM_ERROR_NAME_LENGTH_NOT_ENOUGH :: int where "NEM_ERROR_NAME_LENGTH_NOT_ENOUGH \<equiv> -3"
abbreviation (input) NEM_ERROR_NO_MORE_ENTRIES :: int where "NEM_ERROR_NO_MORE_ENTRIES \<equiv> -4"
abbreviation (input) NEM_ERROR_INVALID_NAME :: int where "NEM_ERROR_INVALID_NAME \<equiv> -5"
abbreviation (input) NEM_ERROR_INVALID_HANDLE :: int where "NEM_ERROR_INVALID_HANDLE \<equiv> -6"
abbreviation (input) NEM_ERROR_DUPLICATE_RESOURCE :: int where "NEM_ERROR_DUPLICATE_RESOURCE \<equiv> -7"
abbreviation (input) NEM_ERROR_INVALID_NSID :: int where "NEM_ERROR_INVALID_NSID \<equiv> -10"

abbreviation (input) OF_NEM_MAX_NAMESPACE_ENTRIES :: u32 where "OF_NEM_MAX_NAMESPACE_ENTRIES \<equiv> 1024"
abbreviation (input) OF_NEM_MAX_NAMESPACE_STATIC_ENTRIES :: u32 where "OF_NEM_MAX_NAMESPACE_STATIC_ENTRIES \<equiv> 256"
abbreviation (input) NEM_MAX_NS_ID :: u32 where "NEM_MAX_NS_ID \<equiv> 50000"
abbreviation (input) NEM_MAX_NS_NAME_LEN :: nat where "NEM_MAX_NS_NAME_LEN \<equiv> 16"
abbreviation (input) NEM_MAX_IFACE_NAME_LEN :: nat where "NEM_MAX_IFACE_NAME_LEN \<equiv> 16"

section \<open>Hashes\<close>

text \<open>\<^verbatim>\<open>DPRM_COMPUTE_HASH\<close>; its macros are those of the cloud resource manager with another prefix. The
  parameters \<^verbatim>\<open>parm3\<close> and \<^verbatim>\<open>parm4\<close> are misspelled, so that it takes the local variables \<^verbatim>\<open>param3\<close> and
  \<^verbatim>\<open>param4\<close>, which are its arguments wherever it is used.\<close>

definition DPRM_COMPUTE_HASH :: "u32 \<Rightarrow> u32 \<Rightarrow> u32 \<Rightarrow> u32 \<Rightarrow> u32 \<Rightarrow> u32" where
  "DPRM_COMPUTE_HASH param1 param2 param3 param4 no_of_buckets =
     CRM_DOBBS_WORDS4 param1 param2 param3 param4 0xa2956174 no_of_buckets"

definition nem_get_hashval_by_32bitvalue :: "u32 \<Rightarrow> u32 \<Rightarrow> u32" where
  "nem_get_hashval_by_32bitvalue value_32 no_of_buckets = DPRM_COMPUTE_HASH value_32 1 1 1 no_of_buckets"

definition nem_get_hashval_by_64bitvalue_and_32bitvalue :: "u64 \<Rightarrow> u32 \<Rightarrow> u32 \<Rightarrow> u32" where
  "nem_get_hashval_by_64bitvalue_and_32bitvalue value_64 value_32 no_of_buckets =
     DPRM_COMPUTE_HASH (ucast (drop_bit 32 value_64)) (ucast value_64) value_32 1 no_of_buckets"

text \<open>The first eight bytes of the string, as two little-endian words.\<close>

definition nem_get_hashval_by_64bitvalue_and_string :: "u64 \<Rightarrow> string \<Rightarrow> u32 \<Rightarrow> u32" where
  "nem_get_hashval_by_64bitvalue_and_string value_64 s no_of_buckets =
     DPRM_COMPUTE_HASH (ucast (drop_bit 32 value_64)) (ucast value_64) (name_word s 0) (name_word s 1) no_of_buckets"

definition nem_get_hashval_by_32bitvalue_and_string :: "u32 \<Rightarrow> string \<Rightarrow> u32 \<Rightarrow> u32" where
  "nem_get_hashval_by_32bitvalue_and_string value_32 s no_of_buckets =
     DPRM_COMPUTE_HASH value_32 1 (name_word s 0) (name_word s 1) no_of_buckets"

definition nem_get_hashval_by_32bitvalue_and_32bitvalue :: "u32 \<Rightarrow> u32 \<Rightarrow> u32 \<Rightarrow> u32" where
  "nem_get_hashval_by_32bitvalue_and_32bitvalue value1_32 value2_32 no_of_buckets =
     DPRM_COMPUTE_HASH value1_32 value2_32 1 1 no_of_buckets"

definition nem_get_hashval_by_dpid_and_nsname :: "u64 \<Rightarrow> string \<Rightarrow> u32 \<Rightarrow> u32" where
  "nem_get_hashval_by_dpid_and_nsname dpid s no_of_buckets = nem_get_hashval_by_64bitvalue_and_string dpid s no_of_buckets"

definition nem_get_hashval_by_dpid_and_portname :: "u64 \<Rightarrow> string \<Rightarrow> u32 \<Rightarrow> u32" where
  "nem_get_hashval_by_dpid_and_portname dpid s no_of_buckets = nem_get_hashval_by_64bitvalue_and_string dpid s no_of_buckets"

definition nem_get_hashval_by_dpid_and_portid :: "u64 \<Rightarrow> u32 \<Rightarrow> u32 \<Rightarrow> u32" where
  "nem_get_hashval_by_dpid_and_portid dpid port_id no_of_buckets =
     nem_get_hashval_by_64bitvalue_and_32bitvalue dpid port_id no_of_buckets"

definition nem_get_hashval_by_nsid_and_peth :: "u32 \<Rightarrow> string \<Rightarrow> u32 \<Rightarrow> u32" where
  "nem_get_hashval_by_nsid_and_peth nsid s no_of_buckets = nem_get_hashval_by_32bitvalue_and_string nsid s no_of_buckets"

definition nem_get_hashval_by_nsid_and_peth_id :: "u32 \<Rightarrow> u32 \<Rightarrow> u32 \<Rightarrow> u32" where
  "nem_get_hashval_by_nsid_and_peth_id nsid peth_id no_of_buckets =
     nem_get_hashval_by_32bitvalue_and_32bitvalue nsid peth_id no_of_buckets"

definition nem_get_hashval_by_dpid_and_nsid :: "u64 \<Rightarrow> u32 \<Rightarrow> u32 \<Rightarrow> u32" where
  "nem_get_hashval_by_dpid_and_nsid dpid nsid no_of_buckets = nem_get_hashval_by_64bitvalue_and_32bitvalue dpid nsid no_of_buckets"

definition nem_get_hashval_by_nsid :: "u32 \<Rightarrow> u32 \<Rightarrow> u32" where
  "nem_get_hashval_by_nsid nsid no_of_buckets = nem_get_hashval_by_32bitvalue nsid no_of_buckets"

text \<open>The hash of a name, of the datapath resource manager.\<close>

definition dprm_get_hashval_byname :: "string \<Rightarrow> u32 \<Rightarrow> u32" where
  "dprm_get_hashval_byname s no_of_buckets =
     DPRM_COMPUTE_HASH (name_word s 0) (name_word s 1) (name_word s 2) (name_word s 3) no_of_buckets"

lemmas nem_hash_defs = nem_get_hashval_by_32bitvalue_def nem_get_hashval_by_64bitvalue_and_32bitvalue_def
  nem_get_hashval_by_64bitvalue_and_string_def nem_get_hashval_by_32bitvalue_and_string_def
  nem_get_hashval_by_32bitvalue_and_32bitvalue_def nem_get_hashval_by_dpid_and_nsname_def
  nem_get_hashval_by_dpid_and_portname_def nem_get_hashval_by_dpid_and_portid_def nem_get_hashval_by_nsid_and_peth_def
  nem_get_hashval_by_nsid_and_peth_id_def nem_get_hashval_by_dpid_and_nsid_def nem_get_hashval_by_nsid_def dprm_get_hashval_byname_def

lemma dprm_hash_bound: "n \<noteq> 0 \<Longrightarrow> unat (DPRM_COMPUTE_HASH a b c d n) < unat n"
  by (simp add: DPRM_COMPUTE_HASH_def dobbs_bound)

section \<open>Numbers of namespaces\<close>

definition NEM_GENERATE_NS_ID :: "u32 \<Rightarrow> u32" where
  "NEM_GENERATE_NS_ID nem_ns_id_g = (let n = nem_ns_id_g + 1 in if n = NEM_MAX_NS_ID then 0 else n)"

section \<open>Numbers of the namespaces of a datapath\<close>

record nem_dpid_ns_info =
  dn_dp_id :: u64
  dn_dp_ns_id :: u16
  dn_valid :: bool

definition unused_dp :: nem_dpid_ns_info where
  "unused_dp = \<lparr>dn_dp_id = 0, dn_dp_ns_id = 0, dn_valid = False\<rparr>"

abbreviation (input) DPRM_MAX_DATAPATH_ENTRIES :: nat where "DPRM_MAX_DATAPATH_ENTRIES \<equiv> 128"

definition nem_dpid_and_dpnsid_list_init :: "nem_dpid_ns_info list" where
  "nem_dpid_and_dpnsid_list_init = replicate DPRM_MAX_DATAPATH_ENTRIES unused_dp"

text \<open>The loops over the array: the first entry with a property is updated.\<close>

fun update_first :: "('a \<Rightarrow> bool) \<Rightarrow> ('a \<Rightarrow> 'a) \<Rightarrow> 'a list \<Rightarrow> ('a \<times> 'a list) option" where
  "update_first P f [] = None"
| "update_first P f (x # xs) = (if P x then Some (x, f x # xs) else map_option (\<lambda>(y, ys). (y, x # ys)) (update_first P f xs))"

definition dp_entry :: "u64 \<Rightarrow> nem_dpid_ns_info \<Rightarrow> bool" where
  "dp_entry dp_id x \<longleftrightarrow> dn_valid x \<and> dn_dp_id x = dp_id"

definition nem_generate_dpnsid_for_dpid :: "u64 \<Rightarrow> nem_dpid_ns_info list \<Rightarrow> int \<times> u16 option \<times> nem_dpid_ns_info list" where
  "nem_generate_dpnsid_for_dpid dp_id l =
    (case update_first (dp_entry dp_id) (\<lambda>x. x\<lparr>dn_dp_ns_id := dn_dp_ns_id x + 1\<rparr>) l of
       Some (x, l') \<Rightarrow> (NEM_SUCCESS, Some (dn_dp_ns_id x), l')
     | None \<Rightarrow>
       (case update_first (\<lambda>x. \<not> dn_valid x) (\<lambda>x. \<lparr>dn_dp_id = dp_id, dn_dp_ns_id = 0 + 1, dn_valid = True\<rparr>) l of
          Some (_, l') \<Rightarrow> (NEM_SUCCESS, Some 0, l')
        | None \<Rightarrow> (NEM_FAILURE, None, l)))"

definition nem_get_max_dpnsid_for_dpid :: "u64 \<Rightarrow> nem_dpid_ns_info list \<Rightarrow> int \<times> u16 option" where
  "nem_get_max_dpnsid_for_dpid dp_id l =
    (case List.find (dp_entry dp_id) l of Some x \<Rightarrow> (NEM_SUCCESS, Some (dn_dp_ns_id x)) | None \<Rightarrow> (NEM_FAILURE, None))"

definition nem_delete_dpid_from_dpid_and_dpnsid_list :: "u64 \<Rightarrow> nem_dpid_ns_info list \<Rightarrow> int \<times> nem_dpid_ns_info list" where
  "nem_delete_dpid_from_dpid_and_dpnsid_list dp_id l =
    (case update_first (dp_entry dp_id) (\<lambda>_. unused_dp) l of Some (_, l') \<Rightarrow> (NEM_SUCCESS, l') | None \<Rightarrow> (NEM_FAILURE, l))"

text \<open>The numbers given out: the next number of each datapath. The array holds each datapath at most once.\<close>

definition dpn_ok :: "nem_dpid_ns_info list \<Rightarrow> bool" where
  "dpn_ok l \<longleftrightarrow> distinct (map dn_dp_id (filter dn_valid l))"

definition dpn_next :: "nem_dpid_ns_info list \<Rightarrow> u64 \<rightharpoonup> u16" where
  "dpn_next l dp = map_option dn_dp_ns_id (List.find (dp_entry dp) l)"

lemma update_first_None: "update_first P f xs = None \<longleftrightarrow> (\<forall>x\<in>set xs. \<not> P x)"
  by (induction xs) auto

lemma update_first_Some: "update_first P f xs = Some (x, ys) \<Longrightarrow>
   \<exists>us vs. xs = us @ x # vs \<and> ys = us @ f x # vs \<and> P x \<and> (\<forall>u\<in>set us. \<not> P u)"
proof (induction xs arbitrary: ys)
  case (Cons y xs)
  show ?case
  proof (cases "P y")
    case True
    then show ?thesis using Cons.prems by (intro exI[of _ "[]"] exI[of _ xs]) auto
  next
    case False
    then obtain zs where z: "update_first P f xs = Some (x, zs)" "ys = y # zs" using Cons.prems by auto
    obtain us vs where "xs = us @ x # vs" "zs = us @ f x # vs" "P x" "\<forall>u\<in>set us. \<not> P u" using Cons.IH[OF z(1)] by blast
    then show ?thesis using z(2) False by (intro exI[of _ "y # us"] exI[of _ vs]) auto
  qed
qed simp

lemma find_append: "List.find P (xs @ ys) = (case List.find P xs of None \<Rightarrow> List.find P ys | Some x \<Rightarrow> Some x)"
  by (induction xs) auto

lemma find_none: "\<forall>x\<in>set xs. \<not> P x \<Longrightarrow> List.find P xs = None"
  by (simp add: find_None_iff)

lemma dpn_next_append: "dpn_next (xs @ ys) dp = (case dpn_next xs dp of None \<Rightarrow> dpn_next ys dp | Some n \<Rightarrow> Some n)"
  by (simp add: dpn_next_def find_append split: option.splits)

lemma dpn_next_Cons: "dpn_next (x # xs) dp = (if dp_entry dp x then Some (dn_dp_ns_id x) else dpn_next xs dp)"
  by (simp add: dpn_next_def)

lemma dpn_next_None: "dpn_next l dp = None \<longleftrightarrow> (\<forall>x\<in>set l. \<not> dp_entry dp x)"
  by (auto simp: dpn_next_def find_None_iff)

lemma dpn_ok_other: "dpn_ok (us @ x # vs) \<Longrightarrow> dp_entry dp x \<Longrightarrow> dpn_next us dp = None \<and> dpn_next vs dp = None"
  unfolding dpn_next_None dpn_ok_def dp_entry_def by (auto simp: image_iff)

lemma dpn_init: "dpn_ok nem_dpid_and_dpnsid_list_init \<and> (\<forall>dp. dpn_next nem_dpid_and_dpnsid_list_init dp = None)"
  by (simp add: nem_dpid_and_dpnsid_list_init_def dpn_ok_def unused_dp_def dpn_next_None dp_entry_def)

lemma dpn_generate:
  assumes ok: "dpn_ok l" and g: "nem_generate_dpnsid_for_dpid dp l = (rc, r, l')"
  shows "dpn_ok l' \<and> length l' = length l \<and> (case r of None \<Rightarrow> rc = NEM_FAILURE \<and> l' = l \<and> dpn_next l dp = None \<and> (\<forall>x\<in>set l. dn_valid x)
    | Some n \<Rightarrow> rc = NEM_SUCCESS \<and> n = (case dpn_next l dp of None \<Rightarrow> 0 | Some k \<Rightarrow> k) \<and> dpn_next l' = (dpn_next l)(dp \<mapsto> n + 1))"
proof (cases "update_first (dp_entry dp) (\<lambda>x. x\<lparr>dn_dp_ns_id := dn_dp_ns_id x + 1\<rparr>) l")
  case (Some p)
  obtain x l1 where p: "p = (x, l1)" by (cases p)
  obtain us vs where u: "l = us @ x # vs" "l1 = us @ x\<lparr>dn_dp_ns_id := dn_dp_ns_id x + 1\<rparr> # vs" "dp_entry dp x"
    "\<forall>u\<in>set us. \<not> dp_entry dp u" using update_first_Some[OF Some[unfolded p]] by blast
  have r: "rc = NEM_SUCCESS" "r = Some (dn_dp_ns_id x)" "l' = l1" using g Some p by (simp_all add: nem_generate_dpnsid_for_dpid_def)
  have us: "dpn_next us dp = None" using u(4) by (simp add: dpn_next_None)
  have "dpn_next l1 = (dpn_next l)(dp \<mapsto> dn_dp_ns_id x + 1)"
    using u us by (auto simp: fun_eq_iff dpn_next_append dpn_next_Cons dp_entry_def split: option.splits)
  moreover have "dpn_next l dp = Some (dn_dp_ns_id x)" using u us by (simp add: dpn_next_append dpn_next_Cons)
  moreover have "dpn_ok l1" using ok u by (auto simp: dpn_ok_def dp_entry_def)
  ultimately show ?thesis using r u by simp
next
  case None
  note no = None
  then have nx: "dpn_next l dp = None" by (simp add: update_first_None dpn_next_None)
  show ?thesis
  proof (cases "update_first (\<lambda>x. \<not> dn_valid x) (\<lambda>x. \<lparr>dn_dp_id = dp, dn_dp_ns_id = 0 + 1, dn_valid = True\<rparr>) l")
    case None
    then have "\<forall>x\<in>set l. dn_valid x" by (simp add: update_first_None)
    moreover have "rc = NEM_FAILURE" "r = None" "l' = l" using g unfolding nem_generate_dpnsid_for_dpid_def no None by auto
    ultimately show ?thesis using ok nx by simp
  next
    case (Some p)
    let ?n = "\<lparr>dn_dp_id = dp, dn_dp_ns_id = 1, dn_valid = True\<rparr>"
    obtain x l1 where p: "p = (x, l1)" by (cases p)
    obtain us vs where u: "l = us @ x # vs" "l1 = us @ ?n # vs" "\<not> dn_valid x"
      using update_first_Some[OF Some[unfolded p]] by auto
    have r: "rc = NEM_SUCCESS" "r = Some 0" "l' = l1" using g no Some p by (simp_all add: nem_generate_dpnsid_for_dpid_def)
    have none: "dpn_next us dp = None" "dpn_next vs dp = None" using nx u by (simp_all add: dpn_next_None)
    have "dpn_next l1 = (dpn_next l)(dp \<mapsto> 1)"
      using u none by (auto simp: fun_eq_iff dpn_next_append dpn_next_Cons dp_entry_def split: option.splits)
    moreover have "dpn_ok l1" using ok u none by (auto simp: dpn_ok_def dpn_next_None dp_entry_def)
    ultimately show ?thesis using r u nx by simp
  qed
qed

lemma dpn_delete:
  assumes ok: "dpn_ok l" and d: "nem_delete_dpid_from_dpid_and_dpnsid_list dp l = (rc, l')"
  shows "dpn_ok l' \<and> length l' = length l \<and> rc = (if dpn_next l dp = None then NEM_FAILURE else NEM_SUCCESS) \<and>
    dpn_next l' = (dpn_next l)(dp := None)"
proof (cases "update_first (dp_entry dp) (\<lambda>_. unused_dp) l")
  case None
  then have "dpn_next l dp = None" by (simp add: update_first_None dpn_next_None)
  then show ?thesis using None d ok by (auto simp: nem_delete_dpid_from_dpid_and_dpnsid_list_def)
next
  case (Some p)
  obtain x l1 where p: "p = (x, l1)" by (cases p)
  obtain us vs where u: "l = us @ x # vs" "l1 = us @ unused_dp # vs" "dp_entry dp x"
    using update_first_Some[OF Some[unfolded p]] by auto
  note o = dpn_ok_other[OF ok[unfolded u(1)] u(3)]
  have "dpn_next l1 = (dpn_next l)(dp := None)"
    using u o by (auto simp: fun_eq_iff dpn_next_append dpn_next_Cons dp_entry_def unused_dp_def split: option.splits)
  moreover have "dpn_next l dp \<noteq> None" using u o by (simp add: dpn_next_append dpn_next_Cons)
  moreover have "dpn_ok l1" using ok u by (auto simp: dpn_ok_def unused_dp_def split: if_splits)
  moreover have "length l1 = length l" using u by simp
  moreover have "rc = NEM_SUCCESS" "l' = l1" using Some p d by (simp_all add: nem_delete_dpid_from_dpid_and_dpnsid_list_def)
  ultimately show ?thesis by simp
qed

end
