(* ===== verification/Mempool_Shared.thy ===== *)
theory Mempool_Shared
  imports Mempool_Bound
begin

text \<open>
  Several pools in one memory. Their blocks are disjoint, and a request to one of them leaves the others
  as they are. The contract is the locale \<open>pool_set\<close>, an extension of the contract of a single pool to a
  family of pools that share the state; the databases of the network element manager rely on it.
\<close>

section \<open>The contract\<close>

text \<open>\<open>Hs\<close> are the pools, each with the blocks held of it.\<close>

type_synonym holdings = "addr \<rightharpoonup> addr \<rightharpoonup> u8"

locale pool_set =
  fixes ok :: "'m \<Rightarrow> holdings \<Rightarrow> bool"
    and fresh :: "'e \<Rightarrow> 'm \<Rightarrow> holdings \<Rightarrow> bool"
    and get :: "'e \<Rightarrow> addr \<Rightarrow> u8 \<Rightarrow> 'm \<Rightarrow> ((int \<times> ptr \<times> u8) \<times> 'm) option"
    and release :: "'e \<Rightarrow> addr \<Rightarrow> addr \<Rightarrow> u8 \<Rightarrow> 'm \<Rightarrow> (int \<times> 'm) option"
    and has_free :: "'m \<Rightarrow> addr \<Rightarrow> bool"
    and limit :: nat
  assumes get_law: "ok m Hs \<Longrightarrow> Hs a = Some H \<Longrightarrow> fresh e m Hs \<Longrightarrow> \<exists>rc ob hb m'. get e a h m = Some ((rc, ob, hb), m') \<and>
      (case ob of None \<Rightarrow> rc \<noteq> MEMPOOL_SUCCESS \<and> ok m' Hs \<and> \<not> has_free m a
       | Some b \<Rightarrow> rc = MEMPOOL_SUCCESS \<and> (\<forall>K\<in>ran Hs. b \<notin> dom K) \<and> ok m' (Hs(a \<mapsto> H(b \<mapsto> hb))))"
    and get_frame: "get e a h m = Some (r, m') \<Longrightarrow> c \<noteq> a \<Longrightarrow> has_free m' c = has_free m c"
    and release_law: "ok m Hs \<Longrightarrow> Hs a = Some H \<Longrightarrow> H b = Some hb \<Longrightarrow>
      \<exists>m'. release e a b hb m = Some (MEMPOOL_SUCCESS, m') \<and> ok m' (Hs(a \<mapsto> H(b := None)))"
    and limit_law: "ok m Hs \<Longrightarrow> Hs a = Some H \<Longrightarrow> finite (dom H) \<and> card (dom H) \<le> limit"
    and disjoint_law: "ok m Hs \<Longrightarrow> Hs a = Some H \<Longrightarrow> Hs b = Some K \<Longrightarrow> a \<noteq> b \<Longrightarrow> dom H \<inter> dom K = {}"
begin

lemma get_cases:
  assumes "ok m Hs" "Hs a = Some H" "fresh e m Hs"
  obtains (none) rc hb m' where "get e a h m = Some ((rc, None, hb), m')" "rc \<noteq> MEMPOOL_SUCCESS" "ok m' Hs" "\<not> has_free m a"
  | (block) b hb m' where "get e a h m = Some ((MEMPOOL_SUCCESS, Some b, hb), m')" "b \<notin> dom H" "ok m' (Hs(a \<mapsto> H(b \<mapsto> hb)))"
proof -
  obtain rc ob hb m' where g: "get e a h m = Some ((rc, ob, hb), m')"
    "case ob of None \<Rightarrow> rc \<noteq> MEMPOOL_SUCCESS \<and> ok m' Hs \<and> \<not> has_free m a
       | Some b \<Rightarrow> rc = MEMPOOL_SUCCESS \<and> (\<forall>K\<in>ran Hs. b \<notin> dom K) \<and> ok m' (Hs(a \<mapsto> H(b \<mapsto> hb)))"
    using get_law[OF assms, of h] by (elim exE conjE) (rule that)
  show thesis
  proof (cases ob)
    case None
    then show ?thesis using g none by simp
  next
    case (Some b)
    have "H \<in> ran Hs" using assms(2) by (auto simp: ran_def)
    then show ?thesis using g Some block by simp
  qed
qed

text \<open>A pool has room for a block that is not in a table of its held blocks.\<close>

lemma room:
  assumes "ok m Hs" "Hs a = Some H" "N \<subseteq> dom H" "b \<in> dom H" "b \<notin> N" shows "card N < limit"
proof -
  note f = limit_law[OF assms(1,2)]
  have "card (insert b N) \<le> card (dom H)" by (rule card_mono) (use f assms in auto)
  moreover have "card (insert b N) = Suc (card N)" using assms f finite_subset[of N "dom H"] by simp
  ultimately show ?thesis using f by simp
qed

lemma get_then_release:
  assumes "ok m Hs" "Hs a = Some H" "fresh e m Hs" "get e a h m = Some ((rc, Some b, hb), m1)"
  shows "\<exists>m2. release e' a b hb m1 = Some (MEMPOOL_SUCCESS, m2) \<and> ok m2 Hs"
proof -
  have "b \<notin> dom H" "ok m1 (Hs(a \<mapsto> H(b \<mapsto> hb)))"
    using get_law[OF assms(1-3), of h] assms(2,4) by (auto simp: ran_def)
  moreover from release_law[OF this(2), of a "H(b \<mapsto> hb)" b hb e'] obtain m2 where
    "release e' a b hb m1 = Some (MEMPOOL_SUCCESS, m2)" "ok m2 (Hs(a \<mapsto> (H(b \<mapsto> hb))(b := None)))" by auto
  moreover have "Hs(a \<mapsto> (H(b \<mapsto> hb))(b := None)) = Hs" using \<open>b \<notin> dom H\<close> assms(2) by (auto simp: fun_eq_iff)
  ultimately show ?thesis by auto
qed

end

section \<open>The pools of the heap provider\<close>

lemma held_inv_cong:
  "held_inv (nx, p, fr) H G \<Longrightarrow> \<forall>x\<in>set G. nx' x = nx x \<Longrightarrow> held_inv (nx', p, fr') H G"
  using lseg_cong[of G nx' nx] by (auto simp: held_inv_def pool_rep_def central_pool_def)

text \<open>\<open>G a\<close> are the free blocks of the pool at \<open>a\<close>.\<close>

definition pool_at :: "nat \<Rightarrow> mem_sys \<Rightarrow> addr \<Rightarrow> (addr \<rightharpoonup> u8) \<Rightarrow> addr list \<Rightarrow> bool" where
  "pool_at lim m a H G \<longleftrightarrow> (\<exists>p. ms_pools m a = Some p \<and> held_inv (ms_links m, p, ms_freed m) H G \<and>
     unat (static_blocks p) + unat (heap_allowed_blocks_count p) \<le> lim)"

definition blocks_of :: "(addr \<Rightarrow> addr list) \<Rightarrow> addr \<Rightarrow> (addr \<rightharpoonup> u8) \<Rightarrow> addr set" where
  "blocks_of G a H = set (G a) \<union> dom H"

definition pools_inv :: "nat \<Rightarrow> mem_sys \<Rightarrow> holdings \<Rightarrow> (addr \<Rightarrow> addr list) \<Rightarrow> bool" where
  "pools_inv lim m Hs G \<longleftrightarrow> provider_of 0 m = Some mheap_callbacks \<and> (\<forall>a H. Hs a = Some H \<longrightarrow> pool_at lim m a H (G a)) \<and>
     (\<forall>a b H K. Hs a = Some H \<longrightarrow> Hs b = Some K \<longrightarrow> a \<noteq> b \<longrightarrow> blocks_of G a H \<inter> blocks_of G b K = {})"

definition pools_ok :: "nat \<Rightarrow> mem_sys \<Rightarrow> holdings \<Rightarrow> bool" where
  "pools_ok lim m Hs \<longleftrightarrow> (\<exists>G. pools_inv lim m Hs G)"

text \<open>What \<^verbatim>\<open>calloc\<close> returns during a call is not in use.\<close>

definition shared_fresh :: "mem_env \<Rightarrow> mem_sys \<Rightarrow> holdings \<Rightarrow> bool" where
  "shared_fresh e m Hs \<longleftrightarrow> (\<forall>G. (\<forall>a\<in>dom Hs. \<exists>p. ms_pools m a = Some p \<and> pool_rep (ms_links m, p, ms_freed m) (G a) []) \<longrightarrow>
     env_fresh e (\<Union>a\<in>dom Hs. blocks_of G a (the (Hs a))))"

lemma env_fresh_blocks: "env_fresh e U \<Longrightarrow> b \<in> env_blocks e \<Longrightarrow> b \<notin> U"
  by (auto simp: env_fresh_def env_blocks_def)

lemma env_fresh_mono: "env_fresh e U \<Longrightarrow> V \<subseteq> U \<Longrightarrow> env_fresh e V"
  by (auto simp: env_fresh_def)

text \<open>After a call on the pool at \<open>a\<close> that changes nothing but the links of its own and of new blocks.\<close>

lemma pools_inv_put:
  assumes inv: "pools_inv lim m Hs G" and a: "Hs a = Some H" and own: "W \<subseteq> set (G a) \<union> dom H \<union> N"
    and new: "\<forall>b K. Hs b = Some K \<longrightarrow> N \<inter> blocks_of G b K = {}"
    and links: "\<forall>x. x \<notin> W \<longrightarrow> nx x = ms_links m x" and held: "held_inv (nx, p, fr) H' G'"
    and lim: "unat (static_blocks p) + unat (heap_allowed_blocks_count p) \<le> lim"
    and sub: "set G' \<union> dom H' \<subseteq> set (G a) \<union> dom H \<union> N"
  shows "pools_inv lim (put_pool a (nx, p, fr) m) (Hs(a \<mapsto> H')) (G(a := G'))"
proof -
  have dis: "blocks_of G c K \<inter> blocks_of G a H = {}" if "Hs c = Some K" "c \<noteq> a" for c K
    using inv that a unfolding pools_inv_def by blast
  have "pool_at lim (put_pool a (nx, p, fr) m) c K (G c)" if c: "Hs c = Some K" "c \<noteq> a" for c K
  proof -
    obtain q where q: "ms_pools m c = Some q" "held_inv (ms_links m, q, ms_freed m) K (G c)"
      "unat (static_blocks q) + unat (heap_allowed_blocks_count q) \<le> lim"
      using inv c(1) unfolding pools_inv_def pool_at_def by blast
    have "set (G c) \<inter> W = {}" using dis[OF c] new c(1) own unfolding blocks_of_def by blast
    then have "held_inv (nx, q, fr) K (G c)" using held_inv_cong[OF q(2)] links by blast
    then show ?thesis using q c(2) by (simp add: pool_at_def put_pool_def)
  qed
  moreover have "pool_at lim (put_pool a (nx, p, fr) m) a H' G'" using held lim by (simp add: pool_at_def put_pool_def)
  moreover have "blocks_of (G(a := G')) b K \<inter> blocks_of (G(a := G')) c L = {}"
    if "(Hs(a \<mapsto> H')) b = Some K" "(Hs(a \<mapsto> H')) c = Some L" "b \<noteq> c" for b c K L
  proof -
    have o: "blocks_of (G(a := G')) d M \<inter> blocks_of (G(a := G')) a H' = {}" if "Hs d = Some M" "d \<noteq> a" for d M
    proof -
      have "blocks_of G d M \<inter> blocks_of G a H = {}" "N \<inter> blocks_of G d M = {}" using dis[OF that] new that by blast+
      moreover have "blocks_of (G(a := G')) a H' \<subseteq> blocks_of G a H \<union> N" using sub by (simp add: blocks_of_def)
      moreover have "blocks_of (G(a := G')) d M = blocks_of G d M" using that by (simp add: blocks_of_def)
      ultimately show ?thesis by blast
    qed
    show ?thesis
    proof (cases "b = a \<or> c = a")
      case True
      then show ?thesis using that o[of c L] o[of b K] by auto
    next
      case False
      then have "blocks_of G b K \<inter> blocks_of G c L = {}" using inv that unfolding pools_inv_def by auto
      then show ?thesis using False by (simp add: blocks_of_def)
    qed
  qed
  moreover have "provider_of 0 (put_pool a (nx, p, fr) m) = Some mheap_callbacks"
    using inv by (simp add: pools_inv_def provider_of_def put_pool_def)
  ultimately show ?thesis unfolding pools_inv_def by (auto simp: all_conj_distrib split: if_splits)
qed

lemma pools_invD:
  assumes "pools_inv lim m Hs G" "Hs a = Some H"
  obtains p where "ms_pools m a = Some p" "provider_of 0 m = Some mheap_callbacks" "held_inv (ms_links m, p, ms_freed m) H (G a)"
    "unat (static_blocks p) + unat (heap_allowed_blocks_count p) \<le> lim" "mempool_type p = 0"
  using assms unfolding pools_inv_def pool_at_def by (metis held_invE central_pool_def)

lemma pool_cfg_sizes: "pool_cfg q = pool_cfg p \<Longrightarrow> static_blocks q = static_blocks p \<and>
    heap_allowed_blocks_count q = heap_allowed_blocks_count p"
  by (simp add: pool_cfg_def)

lemma shared_freshD:
  assumes "shared_fresh e m Hs" "pools_inv lim m Hs G"
  shows "Hs a = Some H \<Longrightarrow> env_fresh e (blocks_of G a H)"
proof -
  have "\<exists>p. ms_pools m c = Some p \<and> pool_rep (ms_links m, p, ms_freed m) (G c) []" if c: "c \<in> dom Hs" for c
  proof -
    obtain K where "Hs c = Some K" using c by blast
    from pools_invD[OF assms(2) this] show ?thesis by (metis held_invE)
  qed
  then have f: "env_fresh e (\<Union>a\<in>dom Hs. blocks_of G a (the (Hs a)))" using assms(1) unfolding shared_fresh_def by blast
  assume a: "Hs a = Some H"
  then have "blocks_of G a H \<subseteq> (\<Union>a\<in>dom Hs. blocks_of G a (the (Hs a)))" by force
  then show "env_fresh e (blocks_of G a H)" by (rule env_fresh_mono[OF f])
qed

text \<open>A pool with a free block has a head.\<close>

definition pool_has_free :: "mem_sys \<Rightarrow> addr \<Rightarrow> bool" where
  "pool_has_free m a \<longleftrightarrow> (\<exists>p. ms_pools m a = Some p \<and> head_p p \<noteq> None)"

lemma head_free: "held_inv (nx, p, fr) H G \<Longrightarrow> head_p p \<noteq> None \<longleftrightarrow> G \<noteq> []"
  using lseg_start[of nx "head_p p" G] by (cases G) (auto simp: held_inv_def pool_rep_def)

interpretation pools: pool_set "pools_ok lim" shared_fresh "\<lambda>e a. mempool_get_mem_block e (Some a)"
  "\<lambda>e a b. mempool_release_mem_block e (Some a) (Some b)" pool_has_free lim for lim
proof unfold_locales
  fix m Hs a H e h
  assume ok: "pools_ok lim m Hs" and a: "Hs a = Some H" and fr: "shared_fresh e m Hs"
  obtain G where inv: "pools_inv lim m Hs G" using ok unfolding pools_ok_def ..
  obtain p where p: "ms_pools m a = Some p" "provider_of 0 m = Some mheap_callbacks" "held_inv (ms_links m, p, ms_freed m) H (G a)"
    "unat (static_blocks p) + unat (heap_allowed_blocks_count p) \<le> lim" "mempool_type p = 0" by (rule pools_invD[OF inv a])
  have f: "env_fresh e (set (G a) \<union> dom H)" using shared_freshD[OF fr inv a] by (simp add: blocks_of_def)
  have new: "\<forall>b K. Hs b = Some K \<longrightarrow> env_blocks e \<inter> blocks_of G b K = {}"
    using shared_freshD[OF fr inv] env_fresh_blocks by blast
  obtain rc ob hb nx' p' G' where g:
    "mempool_mheap_get_mem_block e h (ms_links m, p, ms_freed m) = Some ((rc, ob, hb), nx', p', ms_freed m)"
    "pool_cfg p' = pool_cfg p" "set G' \<subseteq> set (G a) \<union> env_blocks e" "\<forall>x. x \<notin> set (G a) \<union> env_blocks e \<longrightarrow> nx' x = ms_links m x"
    "G a \<noteq> [] \<longrightarrow> ob \<noteq> None"
    "case ob of None \<Rightarrow> rc \<noteq> MEMPOOL_SUCCESS \<and> held_inv (nx', p', ms_freed m) H G'
     | Some b \<Rightarrow> rc = MEMPOOL_SUCCESS \<and> b \<in> set (G a) \<union> env_blocks e \<and> b \<notin> dom H \<and> held_inv (nx', p', ms_freed m) (H(b \<mapsto> hb)) G'"
    using held_get[OF p(3) f, of h] by (elim exE conjE) (rule that)
  let ?m = "put_pool a (nx', p', ms_freed m) m"
  have run: "mempool_get_mem_block e (Some a) h m = Some ((rc, ob, hb), ?m)"
    using p(1,2,5) g(1) by (simp add: mempool_get_mem_block_def mheap_callbacks_def)
  have sz: "unat (static_blocks p') + unat (heap_allowed_blocks_count p') \<le> lim" using p(4) pool_cfg_sizes[OF g(2)] by simp
  have put: "pools_ok lim ?m (Hs(a \<mapsto> K))" if "held_inv (nx', p', ms_freed m) K G'" "dom K \<subseteq> set (G a) \<union> dom H \<union> env_blocks e" for K
    unfolding pools_ok_def
    using pools_inv_put[OF inv a _ new g(4) that(1) sz] that(2) g(3) by (intro exI[of _ "G(a := G')"]) blast
  show "\<exists>rc ob hb m'. mempool_get_mem_block e (Some a) h m = Some ((rc, ob, hb), m') \<and>
      (case ob of None \<Rightarrow> rc \<noteq> MEMPOOL_SUCCESS \<and> pools_ok lim m' Hs \<and> \<not> pool_has_free m a
       | Some b \<Rightarrow> rc = MEMPOOL_SUCCESS \<and> (\<forall>K\<in>ran Hs. b \<notin> dom K) \<and> pools_ok lim m' (Hs(a \<mapsto> H(b \<mapsto> hb))))"
  proof (cases ob)
    case None
    have "Hs(a \<mapsto> H) = Hs" using a by (simp add: map_upd_triv)
    then have "pools_ok lim ?m Hs" using put[of H] g(6) None by auto
    moreover have "\<not> pool_has_free m a" using g(5) None head_free[OF p(3)] p(1) by (simp add: pool_has_free_def)
    ultimately show ?thesis using run g(6) None by (intro exI[of _ rc] exI[of _ ob] exI[of _ hb] exI[of _ ?m]) simp
  next
    case (Some b)
    have h: "b \<in> set (G a) \<union> env_blocks e" "b \<notin> dom H" "held_inv (nx', p', ms_freed m) (H(b \<mapsto> hb)) G'" using g(6) Some by auto
    have "b \<notin> dom K" if K: "K \<in> ran Hs" for K
    proof -
      obtain c where c: "Hs c = Some K" using K by (auto simp: ran_def)
      show ?thesis
      proof (cases "c = a")
        case True
        then show ?thesis using c a h(2) by simp
      next
        case False
        then have "blocks_of G a H \<inter> blocks_of G c K = {}" using inv a c unfolding pools_inv_def by blast
        then show ?thesis using h(1) new c unfolding blocks_of_def by blast
      qed
    qed
    moreover have "pools_ok lim ?m (Hs(a \<mapsto> H(b \<mapsto> hb)))" by (rule put[OF h(3)]) (use h(1) in auto)
    ultimately show ?thesis using run g(6) Some by (intro exI[of _ rc] exI[of _ ob] exI[of _ hb] exI[of _ ?m]) simp
  qed
next
  fix e a h m r m' c
  assume "mempool_get_mem_block e (Some a) h m = Some (r, m')" "c \<noteq> a"
  then show "pool_has_free m' c = pool_has_free m c"
    by (auto simp: mempool_get_mem_block_def pool_has_free_def put_pool_def split: option.splits prod.splits)
next
  fix m Hs a H b hb e
  assume ok: "pools_ok lim m Hs" and a: "Hs a = Some H" and b: "H b = Some hb"
  obtain G where inv: "pools_inv lim m Hs G" using ok unfolding pools_ok_def ..
  obtain p where p: "ms_pools m a = Some p" "provider_of 0 m = Some mheap_callbacks" "held_inv (ms_links m, p, ms_freed m) H (G a)"
    "unat (static_blocks p) + unat (heap_allowed_blocks_count p) \<le> lim" "mempool_type p = 0" by (rule pools_invD[OF inv a])
  obtain nx' p' fr' G' where g:
    "mempool_mheap_release_mem_block e b hb (ms_links m, p, ms_freed m) = Some (MEMPOOL_SUCCESS, nx', p', fr')"
    "pool_cfg p' = pool_cfg p" "set G' \<subseteq> insert b (set (G a))" "\<forall>x. x \<notin> insert b (set (G a)) \<longrightarrow> nx' x = ms_links m x"
    "held_inv (nx', p', fr') (H(b := None)) G'"
    using held_release[OF p(3) b, of e] by (elim exE conjE) (rule that)
  let ?m = "put_pool a (nx', p', fr') m"
  have "mempool_release_mem_block e (Some a) (Some b) hb m = Some (MEMPOOL_SUCCESS, ?m)"
    using p(1,2,5) g(1) by (simp add: mempool_release_mem_block_def mheap_callbacks_def)
  moreover have "pools_inv lim ?m (Hs(a \<mapsto> H(b := None))) (G(a := G'))"
  proof (rule pools_inv_put[OF inv a _ _ g(4,5)])
    show "insert b (set (G a)) \<subseteq> set (G a) \<union> dom H \<union> {}" using b by auto
    show "set G' \<union> dom (H(b := None)) \<subseteq> set (G a) \<union> dom H \<union> {}" using g(3) b by auto
    show "unat (static_blocks p') + unat (heap_allowed_blocks_count p') \<le> lim" using p(4) pool_cfg_sizes[OF g(2)] by simp
  qed simp
  ultimately show "\<exists>m'. mempool_release_mem_block e (Some a) (Some b) hb m = Some (MEMPOOL_SUCCESS, m') \<and>
      pools_ok lim m' (Hs(a \<mapsto> H(b := None)))" unfolding pools_ok_def by blast
next
  fix m Hs a H
  assume "pools_ok lim m Hs" and a: "Hs a = Some H"
  then obtain G where inv: "pools_inv lim m Hs G" unfolding pools_ok_def by blast
  obtain p where p: "held_inv (ms_links m, p, ms_freed m) H (G a)"
    "unat (static_blocks p) + unat (heap_allowed_blocks_count p) \<le> lim" by (rule pools_invD[OF inv a])
  then have r: "ran H \<subseteq> {0, 1}" and f: "finite (dom H)" by (auto simp: held_inv_def)
  have "card (dom H) \<le> card (held 0 H) + card (held 1 H)" unfolding held_dom(1)[OF r] by (rule card_Un_le)
  then show "finite (dom H) \<and> card (dom H) \<le> lim" using f p by (simp add: held_inv_def)
next
  fix m Hs a H b K
  assume "pools_ok lim m Hs" "Hs a = Some H" "Hs b = Some K" "a \<noteq> b"
  then show "dom H \<inter> dom K = {}" unfolding pools_ok_def pools_inv_def blocks_of_def by blast
qed

section \<open>Creating the pools\<close>

text \<open>A new pool beside others.\<close>

lemma create_pools_inv:
  assumes inv: "pools_inv lim m Hs G" and new: "Hs a = None" and pp: "small_params pp" "unat (pp_max_blocks pp) \<le> lim"
    and fresh: "shared_fresh e m Hs" "env_fresh e {}"
    and cr: "mempool_create_pool e (Some a) (Some nm) (Some pp) True m = Some (MEMPOOL_SUCCESS, oa, m1)"
  shows "oa = Some a \<and> (\<exists>C. set C \<subseteq> env_blocks e \<and> pools_inv lim m1 (Hs(a \<mapsto> Map.empty)) (G(a := C))) \<and>
    (\<forall>c. c \<noteq> a \<longrightarrow> pool_has_free m1 c = pool_has_free m c)"
proof -
  have prov: "provider_of 0 m = Some mheap_callbacks" using inv by (simp add: pools_inv_def)
  have pp': "pp_mempool_type pp = 0" "\<not> pp_list_per_thread_required pp" using pp(1) by (simp_all add: small_params_def)
  obtain nm' ix nx q fr where c: "oa = Some a"
    "mempool_create_mheap_pool e (Some pp) (ms_links m, pool_for nm' pp, ms_freed m) = Some (MEMPOOL_SUCCESS, nx, q, fr)"
    "m1 = m\<lparr>mempool_index_g := ix, ms_links := nx, ms_freed := fr, ms_pools := (ms_pools m)(a := q),
       mempool_list_g := mempool_list_g m @ [a]\<rparr>"
    using cr prov pp' by (auto simp: mempool_create_pool_def mheap_callbacks_def Let_def split: if_splits option.splits prod.splits)
  obtain p where p: "q = Some p"
    using c(2) by (auto simp: mempool_create_mheap_pool_def Let_def split: if_splits prod.splits option.splits Option.bind_splits)
  let ?G = "chain_blocks (ev_chain e) 0 (unat (pp_threshold_max pp))"
  have "\<exists>b. Some a = Some b \<and> oa = Some b \<and> pool_ok b (unat (pp_max_blocks pp)) m1 Map.empty"
    by (rule create_pool_ok[OF prov pp(1) fresh(2) cr])
  obtain nx1 h t n where ch: "memory_alloc_chain_memchunks (pp_threshold_max pp) (ev_chain e) 0 (ms_links m) = (nx1, h, t, n)"
    by (metis prod_cases4)
  have nx1: "x \<notin> set ?G \<Longrightarrow> nx1 x = ms_links m x" for x
    using memory_alloc_chain_rep[OF ch env_fresh_chain(1)[OF fresh(2)]] by blast
  have "nx = nx1" using c(2) ch p unfolding mempool_create_mheap_pool_def Let_def
    by (auto split: if_splits prod.splits option.splits Option.bind_splits)
  note cfg = create_cfg[OF c(2)[unfolded p] pp'(2)]
  have pt: "per_thread_list_p p = None" using cfg by (simp add: pool_cfg_def)
  have cG: "pool_rep (nx, p, fr) ?G []" "static_allocated_blocks_count p = of_nat (length ?G)"
    "heap_state p = (pp_max_blocks pp - pp_static_blocks pp, 0, pp_max_blocks pp - pp_static_blocks pp)"
    using create_rep[OF c(2)[unfolded p] refl fresh(2)] pt by auto
  have st: "static_blocks p = pp_static_blocks pp" "threshold_max p = pp_threshold_max pp"
    "replenish_count p = pp_replenish_count pp" "mempool_type p = 0"
    "heap_allowed_blocks_count p = pp_max_blocks pp - pp_static_blocks pp"
    "heap_free_blocks_count p = pp_max_blocks pp - pp_static_blocks pp"
    using cfg cG(3) by (simp_all add: pool_cfg_def)
  have "length ?G \<le> unat (pp_static_blocks pp)"
    using chain_blocks_length[of "ev_chain e" 0 "unat (pp_threshold_max pp)"] pp(1) by (simp add: small_params_def)
  then have held: "held_inv (nx, p, fr) Map.empty ?G"
    using cG(1,2) pt st pp(1) by (simp add: held_inv_def central_pool_def small_params_def held_def)
  have "unat (static_blocks p) + unat (heap_allowed_blocks_count p) = unat (pp_max_blocks pp)"
    using st pp(1) by (simp add: small_params_def unat_sub word_le_nat_alt)
  then have mine: "pool_at lim m1 a Map.empty ?G" using held c(3) p pp(2) by (simp add: pool_at_def)
  have env: "env_blocks e \<inter> blocks_of G b K = {}" if "Hs b = Some K" for b K
    using shared_freshD[OF fresh(1) inv that] env_fresh_blocks by blast
  then have sep: "set ?G \<inter> blocks_of G b K = {}" if "Hs b = Some K" for b K
    using that chain_in_env[of e 0 "unat (pp_threshold_max pp)"] by blast
  have other: "pool_at lim m1 b K (G b)" if b: "Hs b = Some K" for b K
  proof -
    obtain r where r: "ms_pools m b = Some r" "held_inv (ms_links m, r, ms_freed m) K (G b)"
      "unat (static_blocks r) + unat (heap_allowed_blocks_count r) \<le> lim" by (rule pools_invD[OF inv b])
    have "\<forall>x\<in>set (G b). nx x = ms_links m x" using nx1 sep[OF b] \<open>nx = nx1\<close> unfolding blocks_of_def by blast
    then have "held_inv (nx, r, fr) K (G b)" by (rule held_inv_cong[OF r(2)])
    moreover have "b \<noteq> a" using b new by auto
    ultimately show ?thesis using r c(3) by (simp add: pool_at_def)
  qed
  have own: "blocks_of (G(a := ?G)) a Map.empty = set ?G" by (simp add: blocks_of_def)
  have oth: "blocks_of (G(a := ?G)) b K = blocks_of G b K" if "Hs b = Some K" for b K
    using that new by (auto simp: blocks_of_def)
  have "pools_inv lim m1 (Hs(a \<mapsto> Map.empty)) (G(a := ?G))"
    unfolding pools_inv_def
  proof (intro conjI allI impI)
    show "provider_of 0 m1 = Some mheap_callbacks" using prov c(3) by (simp add: provider_of_def)
    show "pool_at lim m1 b K ((G(a := ?G)) b)" if "(Hs(a \<mapsto> Map.empty)) b = Some K" for b K
      using that mine other by (auto split: if_splits)
    show "blocks_of (G(a := ?G)) b K \<inter> blocks_of (G(a := ?G)) d L = {}"
      if two: "(Hs(a \<mapsto> Map.empty)) b = Some K" "(Hs(a \<mapsto> Map.empty)) d = Some L" "b \<noteq> d" for b d K L
    proof -
      have b: "Hs b = Some K" if "b \<noteq> a" using two(1) that by simp
      have d: "Hs d = Some L" if "d \<noteq> a" using two(2) that by simp
      show ?thesis
      proof (cases "b = a")
        case True
        then have "d \<noteq> a" "K = Map.empty" using two(1,3) by auto
        then show ?thesis using True own oth[OF d] sep[OF d] by simp
      next
        case False
        note bb = b[OF False]
        show ?thesis
        proof (cases "d = a")
          case True
          then have "L = Map.empty" using two(2) by auto
          then show ?thesis using True own oth[OF bb] sep[OF bb] by (simp add: Int_commute)
        next
          case False
          then show ?thesis using inv bb d[OF False] two(3) oth unfolding pools_inv_def by simp
        qed
      qed
    qed
  qed
  moreover have "set ?G \<subseteq> env_blocks e" by (rule chain_in_env)
  moreover have "c \<noteq> a \<Longrightarrow> pool_has_free m1 c = pool_has_free m c" for c using c(3) by (simp add: pool_has_free_def)
  ultimately show ?thesis using c(1) by blast
qed

lemma create_pools_ok:
  assumes "pools_ok lim m Hs" "Hs a = None" "small_params pp" "unat (pp_max_blocks pp) \<le> lim"
    "shared_fresh e m Hs" "env_fresh e {}" "mempool_create_pool e (Some a) (Some nm) (Some pp) True m = Some (MEMPOOL_SUCCESS, oa, m1)"
  shows "oa = Some a \<and> pools_ok lim m1 (Hs(a \<mapsto> Map.empty))"
  using assms(1) create_pools_inv[OF _ assms(2-7)] unfolding pools_ok_def by blast

text \<open>The blocks of the pools lie within a set. Then what \<^verbatim>\<open>calloc\<close> returns is not in use when it is outside.\<close>

definition pools_within :: "nat \<Rightarrow> mem_sys \<Rightarrow> holdings \<Rightarrow> addr set \<Rightarrow> bool" where
  "pools_within lim m Hs U \<longleftrightarrow> (\<exists>G. pools_inv lim m Hs G \<and> (\<forall>a H. Hs a = Some H \<longrightarrow> blocks_of G a H \<subseteq> U))"

lemma within_fresh:
  assumes "pools_within lim m Hs U" "env_fresh e U" shows "shared_fresh e m Hs"
  unfolding shared_fresh_def
proof (intro allI impI)
  fix G'
  assume G': "\<forall>a\<in>dom Hs. \<exists>p. ms_pools m a = Some p \<and> pool_rep (ms_links m, p, ms_freed m) (G' a) []"
  obtain G where G: "pools_inv lim m Hs G" "\<forall>a H. Hs a = Some H \<longrightarrow> blocks_of G a H \<subseteq> U"
    using assms(1) unfolding pools_within_def by blast
  have "blocks_of G' a (the (Hs a)) \<subseteq> U" if "a \<in> dom Hs" for a
  proof -
    have "\<exists>H. Hs a = Some H" using that by (simp add: domD)
    then obtain H where H: "Hs a = Some H" ..
    obtain p where p: "ms_pools m a = Some p" "held_inv (ms_links m, p, ms_freed m) H (G a)"
      by (rule pools_invD[OF G(1) H])
    have "lseg (ms_links m) (head_p p) (G a) None" using p(2) by (simp add: held_inv_def pool_rep_def)
    moreover have "lseg (ms_links m) (head_p p) (G' a) None" using bspec[OF G' that] p(1) by (auto simp: pool_rep_def)
    ultimately have "G' a = G a" by (rule lseg_unique[symmetric])
    then show ?thesis using G(2) H by (simp add: blocks_of_def)
  qed
  then show "env_fresh e (\<Union>a\<in>dom Hs. blocks_of G' a (the (Hs a)))" by (intro env_fresh_mono[OF assms(2)]) blast
qed

lemma within_create:
  assumes w: "pools_within lim m Hs U" and new: "Hs a = None" and pp: "small_params pp" "unat (pp_max_blocks pp) \<le> lim"
    and fresh: "env_fresh e U" and cr: "mempool_create_pool e (Some a) (Some nm) (Some pp) True m = Some (MEMPOOL_SUCCESS, oa, m1)"
  shows "oa = Some a \<and> pools_within lim m1 (Hs(a \<mapsto> Map.empty)) (U \<union> env_blocks e)"
proof -
  obtain G where G: "pools_inv lim m Hs G" "\<forall>a H. Hs a = Some H \<longrightarrow> blocks_of G a H \<subseteq> U"
    using w unfolding pools_within_def by blast
  obtain C where C: "set C \<subseteq> env_blocks e" "pools_inv lim m1 (Hs(a \<mapsto> Map.empty)) (G(a := C))" "oa = Some a"
    using create_pools_inv[OF G(1) new pp within_fresh[OF w fresh] env_fresh_mono[OF fresh empty_subsetI] cr] by blast
  have "blocks_of (G(a := C)) b K \<subseteq> U \<union> env_blocks e" if "(Hs(a \<mapsto> Map.empty)) b = Some K" for b K
  proof (cases "b = a")
    case True
    then show ?thesis using that C(1) by (auto simp: blocks_of_def)
  next
    case False
    then have "blocks_of G b K \<subseteq> U" using that G(2) by simp
    then show ?thesis using False by (auto simp: blocks_of_def)
  qed
  then show ?thesis using C(2,3) unfolding pools_within_def by blast
qed

lemma create_keeps_free:
  assumes "mempool_create_pool e (Some a) (Some nm) (Some pp) True m = Some (MEMPOOL_SUCCESS, oa, m1)" "pools_within lim m Hs U" "Hs a = None"
    "small_params pp" "unat (pp_max_blocks pp) \<le> lim" "env_fresh e U" "c \<noteq> a"
  shows "pool_has_free m1 c = pool_has_free m c"
proof -
  obtain G where G: "pools_inv lim m Hs G" using assms(2) unfolding pools_within_def by blast
  show ?thesis using create_pools_inv[OF G assms(3-5) within_fresh[OF assms(2,6)] env_fresh_mono[OF assms(6) empty_subsetI] assms(1)] assms(7)
    by blast
qed

text \<open>The parameters are accepted and \<^verbatim>\<open>calloc\<close> returns at least one block.\<close>

definition good_params :: "mempool_params \<Rightarrow> bool" where
  "good_params pp \<longleftrightarrow> 8 < pp_block_size pp \<and> pp_mempool_type pp = 0 \<and> \<not> pp_list_per_thread_required pp \<and> pp_threshold_max pp \<noteq> 0 \<and>
     pp_threshold_min pp \<le> pp_threshold_max pp \<and> pp_replenish_count pp \<le> pp_threshold_max pp \<and> pp_threshold_max pp \<le> pp_max_blocks pp"

definition pool_names :: "mem_sys \<Rightarrow> string set" where
  "pool_names m = {mempool_name p | a p. a \<in> set (mempool_list_g m) \<and> ms_pools m a = Some p}"

lemma create_succeeds:
  assumes prov: "provider_of 0 m = Some mheap_callbacks" and pp: "good_params pp" and e: "ev_chain e 0 \<noteq> None" "env_fresh e {}"
    and nm: "nm \<notin> pool_names m"
  obtains m1 where "mempool_create_pool e (Some a) (Some nm) (Some pp) True m = Some (MEMPOOL_SUCCESS, Some a, m1)"
    "ms_types m1 = ms_types m" "pool_names m1 \<subseteq> insert (take 32 nm) (pool_names m)" "pool_has_free m1 a"
proof -
  obtain nx1 h t n where ch: "memory_alloc_chain_memchunks (pp_threshold_max pp) (ev_chain e) 0 (ms_links m) = (nx1, h, t, n)"
    by (metis prod_cases4)
  obtain k where k: "unat (pp_threshold_max pp) = Suc k" using pp by (metis good_params_def not0_implies_Suc unat_eq_zero)
  have "lseg nx1 h (chain_blocks (ev_chain e) 0 (unat (pp_threshold_max pp))) None"
    using memory_alloc_chain_rep[OF ch env_fresh_chain(1)[OF e(2)]] by blast
  then obtain h0 where h: "h = Some h0" using e(1) k by (auto split: option.splits)
  have n: "pool_name_for nm m = Some (take 32 nm, mempool_index_g m)"
    using nm by (auto simp: pool_name_for_def pool_names_def)
  obtain p where p: "mempool_create_mheap_pool e (Some pp) (ms_links m, pool_for (take 32 nm) pp, ms_freed m) =
      Some (MEMPOOL_SUCCESS, nx1, Some p, ms_freed m)" "mempool_name p = take 32 nm" "head_p p = Some h0"
    using pp ch h by (simp add: good_params_def mempool_create_mheap_pool_def Let_def mempool_set_threshold_values_def
        set_mempool_attributes_def pool_for_def zero_pool_def mheap_prepare_def not_less not_le)
  let ?m = "m\<lparr>ms_links := nx1, ms_pools := (ms_pools m)(a \<mapsto> p), mempool_list_g := mempool_list_g m @ [a]\<rparr>"
  have "mempool_create_pool e (Some a) (Some nm) (Some pp) True m = Some (MEMPOOL_SUCCESS, Some a, ?m)"
    using prov pp n p by (simp add: mempool_create_pool_def mheap_callbacks_def good_params_def Let_def not_le)
  moreover have "pool_names ?m \<subseteq> insert (take 32 nm) (pool_names m)"
    using p(2) by (auto simp: pool_names_def split: if_splits)
  moreover have "pool_has_free ?m a" using p(3) by (simp add: pool_has_free_def)
  ultimately show thesis by (intro that) simp_all
qed

end
