(* ===== verification/Nem_Table.thy ===== *)
theory Nem_Table
  imports Nem_Util Mempool_Shared
begin

text \<open>
  A database of the network element manager. The files \<^verbatim>\<open>nemns2id.c\<close>, \<^verbatim>\<open>nemid2ns.c\<close>, \<^verbatim>\<open>nemdp2ns.c\<close>,
  \<^verbatim>\<open>nemns2dp.c\<close>, \<^verbatim>\<open>nemdp2peth.c\<close>, \<^verbatim>\<open>nempeth2dp.c\<close> and \<^verbatim>\<open>nemdpnsid.c\<close> of \<^verbatim>\<open>ofproto/src/nem\<close> each hold one, and
  are copies of one another: entries from a memory pool are linked into a safe-reference table by the
  hash of their key. Here is the code they share, with what differs in a description; the operations of
  each file are its instances in \<^verbatim>\<open>Nem_Db\<close>. What a database holds is the set of its rows, each an
  information with its handle.
\<close>

section \<open>Data\<close>

record 'i nem_entry =
  me_info :: 'i
  me_index :: u32
  me_magic :: u32
  me_heap_b :: u8

text \<open>The global pointer to the table; after \<^verbatim>\<open>mchash_table_delete\<close> it still points to the freed table. What
  waits for a grace period is kept.\<close>

datatype table_ptr = No_table | Table mchash_table | Freed_table "addr list"

text \<open>The globals of a database. An entry is in use when a pool has given its block out.\<close>

record 'i nem_db =
  nd_pool :: ptr
  nd_buckets :: u32
  nd_table :: table_ptr
  nd_entries :: "addr \<Rightarrow> 'i nem_entry"

text \<open>What differs: the key of an entry and its hash in a number of buckets, the check of the information
  of a new entry, the check of a key that is searched, the code when it is not found, the copy into an
  entry (undefined when \<^verbatim>\<open>strcpy\<close> would write past its array) and the name of the pool.\<close>

record ('i, 'k) nem_desc =
  ds_key :: "'i \<Rightarrow> 'k"
  ds_hash :: "'k \<Rightarrow> u32 \<Rightarrow> u32"
  ds_check :: "'i \<Rightarrow> int option"
  ds_find_check :: "'k \<Rightarrow> int option"
  ds_missing :: int
  ds_copy :: "'i \<Rightarrow> 'i option"
  ds_pool_name :: string

definition entry_handle :: "'i nem_db \<Rightarrow> addr \<Rightarrow> u64" where
  "entry_handle d n = handle_of (me_magic (nd_entries d n)) (me_index (nd_entries d n))"

text \<open>The value of the uninitialised \<^verbatim>\<open>heap_b\<close>, and for the start the size of an entry, which depends on the
  compiler, and what \<^verbatim>\<open>calloc\<close> returns for the pool and the table.\<close>

record nem_env =
  ne_mem :: mem_env
  ne_heap_b :: u8
  ne_size :: u32
  ne_pool :: ptr
  ne_table :: "u64 option"
  ne_array_ok :: bool
  ne_links :: "addr \<Rightarrow> mchash_table_link"

section \<open>Start and end\<close>

definition nem_pool_params :: "u32 \<Rightarrow> u32 \<times> u32 \<Rightarrow> mempool_params" where
  "nem_pool_params sz = (\<lambda>(mx, st).
     \<lparr>pp_mempool_type = 0, pp_block_size = sz, pp_max_blocks = mx,
      pp_memset_not_required = False, pp_list_per_thread_required = False, pp_noof_blocks_to_move = 0,
      pp_static_blocks = st, pp_threshold_min = st div 10, pp_threshold_max = st div 3,
      pp_replenish_count = st div 10\<rparr>)"

text \<open>The code of \<^verbatim>\<open>nem_..._db_mempool_init\<close>, \<^verbatim>\<open>nem_..._db_mchash_table_init\<close> and \<^verbatim>\<open>nem_..._db_init\<close>. A pool that
  cannot be created leaves the global as it is, and so does a table; the pool is not deleted then.\<close>

definition db_mempool_init :: "('i, 'k) nem_desc \<Rightarrow> nem_env \<Rightarrow> u32 \<times> u32 \<Rightarrow> 'i nem_db \<Rightarrow> mem_sys \<Rightarrow> (int \<times> 'i nem_db \<times> mem_sys) option" where
  "db_mempool_init D e entries d m =
     map_option (\<lambda>(rc, p, m1). if rc \<noteq> MEMPOOL_SUCCESS then (NEM_FAILURE, d, m1) else (NEM_SUCCESS, d\<lparr>nd_pool := p\<rparr>, m1))
       (mempool_create_pool (ne_mem e) (ne_pool e) (Some (ds_pool_name D)) (Some (nem_pool_params (ne_size e) entries)) True m)"

definition db_mchash_table_init :: "nem_env \<Rightarrow> u32 \<times> u32 \<Rightarrow> 'i nem_db \<Rightarrow> (int \<times> 'i nem_db) option" where
  "db_mchash_table_init e entries d = (let d1 = d\<lparr>nd_buckets := fst entries div 5 + 1\<rparr> in
     map_option (\<lambda>r. case r of Created t \<Rightarrow> (NEM_SUCCESS, d1\<lparr>nd_table := Table t\<rparr>) | Create_failed _ _ \<Rightarrow> (NEM_FAILURE, d1))
       (mchash_table_create (nd_buckets d1) (fst entries) True (ne_table e) (ne_array_ok e) (ne_links e)))"

definition db_init :: "('i, 'k) nem_desc \<Rightarrow> nem_env \<Rightarrow> u32 \<times> u32 \<Rightarrow> 'i nem_db \<Rightarrow> mem_sys \<Rightarrow> (int \<times> 'i nem_db \<times> mem_sys) option" where
  "db_init D e entries d m = Option.bind (db_mempool_init D e entries d m) (\<lambda>(rc, d1, m1).
     if rc \<noteq> NEM_SUCCESS then Some (NEM_FAILURE, d1, m1)
     else map_option (\<lambda>(rc2, d2). (if rc2 \<noteq> NEM_SUCCESS then NEM_FAILURE else NEM_SUCCESS, d2, m1)) (db_mchash_table_init e entries d1))"

section \<open>Finding an entry\<close>

definition db_get_handle :: "('i, 'k) nem_desc \<Rightarrow> 'k \<Rightarrow> 'i nem_db \<Rightarrow> (int \<times> u64 option) option" where
  "db_get_handle D k d =
    (case nd_table d of No_table \<Rightarrow> Some (NEM_FAILURE, None) | Freed_table _ \<Rightarrow> None
     | Table t \<Rightarrow>
       (case ds_find_check D k of Some rc \<Rightarrow> Some (rc, None)
        | None \<Rightarrow> map_option (\<lambda>p. case p of None \<Rightarrow> (ds_missing D, None) | Some n \<Rightarrow> (NEM_SUCCESS, Some (entry_handle d n)))
            (find_in_bucket t (\<lambda>n. ds_key D (me_info (nd_entries d n)) = k) (unat (ds_hash D k (nd_buckets d))))))"

text \<open>No check for a NULL table.\<close>

definition db_get_exact :: "u64 \<Rightarrow> 'i nem_db \<Rightarrow> (int \<times> 'i option) option" where
  "db_get_exact h d =
    (case nd_table d of Table t \<Rightarrow>
       Option.bind (MCHASH_ACCESS_NODE (index_of h) (magic_of h) t) (\<lambda>r. case r of
           None \<Rightarrow> Some (NEM_ERROR_INVALID_HANDLE, None)
         | Some None \<Rightarrow> None
         | Some (Some n) \<Rightarrow> Some (NEM_SUCCESS, Some (me_info (nd_entries d n))))
     | _ \<Rightarrow> None)"

text \<open>The first row, and the row after the one of a handle.\<close>

definition db_get_first :: "'i nem_db \<Rightarrow> (int \<times> ('i \<times> u64) option) option" where
  "db_get_first d =
    (case nd_table d of No_table \<Rightarrow> Some (NEM_FAILURE, None) | Freed_table _ \<Rightarrow> None
     | Table t \<Rightarrow> map_option (\<lambda>p. case p of None \<Rightarrow> (NEM_ERROR_NO_MORE_ENTRIES, None)
           | Some n \<Rightarrow> (NEM_SUCCESS, Some (me_info (nd_entries d n), entry_handle d n)))
         (first_scan t [0..<unat (buckets t)]))"

definition db_get_next :: "u64 \<Rightarrow> 'i nem_db \<Rightarrow> (int \<times> ('i \<times> u64) option) option" where
  "db_get_next h d =
    (case nd_table d of Table t \<Rightarrow>
       map_option (\<lambda>(found, p). case p of Some n \<Rightarrow> (NEM_SUCCESS, Some (me_info (nd_entries d n), entry_handle d n))
           | None \<Rightarrow> (if found then NEM_ERROR_NO_MORE_ENTRIES else NEM_ERROR_INVALID_HANDLE, None))
         (next_scan t (\<lambda>n. me_magic (nd_entries d n) = magic_of h \<and> me_index (nd_entries d n) = index_of h) False
            [0..<unat (buckets t)])
     | _ \<Rightarrow> None)"

text \<open>The operations that look up an information by a key, after their own checks.\<close>

definition db_lookup :: "('i, 'k) nem_desc \<Rightarrow> int option \<Rightarrow> 'k \<Rightarrow> 'i nem_db \<Rightarrow> (int \<times> 'i option) option" where
  "db_lookup D bad k d =
    (if nd_table d = No_table then Some (NEM_FAILURE, None)
     else case bad of Some rc \<Rightarrow> Some (rc, None)
     | None \<Rightarrow> Option.bind (db_get_handle D k d) (\<lambda>(rc, h).
         if rc \<noteq> NEM_SUCCESS then Some (NEM_ERROR_INVALID_HANDLE, None)
         else case h of None \<Rightarrow> None
         | Some h \<Rightarrow> Option.bind (db_get_exact h d) (\<lambda>(rc, i).
             if rc \<noteq> NEM_SUCCESS then Some (NEM_ERROR_INVALID_HANDLE, None) else Some (NEM_SUCCESS, i))))"

section \<open>Adding and removing an entry\<close>

definition release_entry :: "nem_env \<Rightarrow> 'i nem_db \<Rightarrow> ptr \<Rightarrow> mem_sys \<Rightarrow> mem_sys option" where
  "release_entry e d b m = (case b of None \<Rightarrow> Some m
     | Some n \<Rightarrow> map_option snd (mempool_release_mem_block (ne_mem e) (nd_pool d) (Some n) (me_heap_b (nd_entries d n)) m))"

text \<open>The code, the handle stored through the pointer, and the state. \<^verbatim>\<open>NULL\<close> may be passed.\<close>

definition db_map ::
  "('i, 'k) nem_desc \<Rightarrow> nem_env \<Rightarrow> 'i option \<Rightarrow> 'i nem_db \<Rightarrow> mem_sys \<Rightarrow> (int \<times> u64 option \<times> 'i nem_db \<times> mem_sys) option" where
  "db_map D e info d m =
    (case nd_table d of No_table \<Rightarrow> Some (NEM_FAILURE, None, d, m) | Freed_table _ \<Rightarrow> None
     | Table t \<Rightarrow> (case info of None \<Rightarrow> Some (NEM_FAILURE, None, d, m)
     | Some i \<Rightarrow> (case ds_check D i of Some rc \<Rightarrow> Some (rc, None, d, m)
     | None \<Rightarrow> Option.bind (db_get_handle D (ds_key D i) d) (\<lambda>(found, h).
         if found = NEM_SUCCESS then Some (NEM_ERROR_DUPLICATE_RESOURCE, h, d, m)
         else Option.bind (mempool_get_mem_block (ne_mem e) (nd_pool d) (ne_heap_b e) m) (\<lambda>((rc, b, hb), m1).
           if rc \<noteq> MEMPOOL_SUCCESS then map_option (\<lambda>m2. (NEM_FAILURE, None, d, m2)) (release_entry e d b m1)
           else case b of None \<Rightarrow> None
           | Some n \<Rightarrow> Option.bind (ds_copy D i) (\<lambda>j.
               let d1 = d\<lparr>nd_entries := (nd_entries d)(n := (nd_entries d n)\<lparr>me_info := j, me_heap_b := hb\<rparr>)\<rparr> in
               Option.bind (MCHASH_APPEND_NODE (ds_hash D (ds_key D i) (nd_buckets d)) n t) (\<lambda>(ref, t1).
                 let d2 = d1\<lparr>nd_table := Table t1\<rparr> in
                 case ref of None \<Rightarrow> map_option (\<lambda>m2. (NEM_FAILURE, None, d2, m2)) (release_entry e d2 (Some n) m1)
                 | Some (index, magic) \<Rightarrow> Some (NEM_SUCCESS, Some (handle_of magic index),
                     d2\<lparr>nd_entries := (nd_entries d2)(n := (nd_entries d2 n)\<lparr>me_magic := magic, me_index := index\<rparr>)\<rparr>, m1))))))))"

text \<open>Modification is not supported.\<close>

definition db_update :: "u64 \<Rightarrow> 'i \<Rightarrow> int" where
  "db_update h i = NEM_FAILURE"

definition db_unmap :: "u64 \<Rightarrow> 'i nem_db \<Rightarrow> (int \<times> 'i nem_db) option" where
  "db_unmap h d =
    (case nd_table d of No_table \<Rightarrow> Some (NEM_FAILURE, d) | Freed_table _ \<Rightarrow> None
     | Table t \<Rightarrow> Option.bind (MCHASH_ACCESS_NODE (index_of h) (magic_of h) t) (\<lambda>r. case r of
           None \<Rightarrow> Some (NEM_ERROR_INVALID_HANDLE, d)
         | Some _ \<Rightarrow> map_option (\<lambda>(status, t1). (if status then NEM_SUCCESS else NEM_FAILURE, d\<lparr>nd_table := Table t1\<rparr>))
             (MCHASH_DELETE_NODE_BY_REF (index_of h) (magic_of h) t)))"

text \<open>Removing all entries. Before an entry is deleted, \<open>pre\<close> runs, which is the step that only one of the
  databases has; its failure leaves the bucket. The code is that of the last attempt.\<close>

partial_function (option) unmap_bucket ::
  "(addr \<Rightarrow> 'x \<Rightarrow> 'x option) \<Rightarrow> (addr \<Rightarrow> u32 \<times> u32) \<Rightarrow> dll_ref \<Rightarrow> int \<Rightarrow> 'x \<Rightarrow> mchash_table \<Rightarrow> (int \<times> 'x \<times> mchash_table) option" where
  "unmap_bucket pre R r st x t = (if r = Null then Some (st, x, t) else if is_Head r then None
     else case pre (link_node r) x of None \<Rightarrow> Some (NEM_FAILURE, x, t)
     | Some y \<Rightarrow> Option.bind (MCHASH_DELETE_NODE_BY_REF (fst (R (link_node r))) (snd (R (link_node r))) t)
         (\<lambda>(ok, t1). unmap_bucket pre R (rd_next r t1) (if ok then NEM_SUCCESS else NEM_FAILURE) y t1))"

fun unmap_buckets ::
  "(addr \<Rightarrow> 'x \<Rightarrow> 'x option) \<Rightarrow> (addr \<Rightarrow> u32 \<times> u32) \<Rightarrow> nat list \<Rightarrow> int \<Rightarrow> 'x \<Rightarrow> mchash_table \<Rightarrow> (int \<times> 'x \<times> mchash_table) option" where
  "unmap_buckets pre R [] st x t = Some (st, x, t)"
| "unmap_buckets pre R (k # ks) st x t =
    (if k < length (bucket_list t)
     then Option.bind (unmap_bucket pre R (bk_head_next (bucket_list t ! k)) st x t) (\<lambda>(st1, x1, t1). unmap_buckets pre R ks st1 x1 t1)
     else None)"

definition entry_ref :: "'i nem_db \<Rightarrow> addr \<Rightarrow> u32 \<times> u32" where
  "entry_ref d n = (me_index (nd_entries d n), me_magic (nd_entries d n))"

definition db_unmap_all :: "(addr \<Rightarrow> 'x \<Rightarrow> 'x option) \<Rightarrow> 'x \<Rightarrow> 'i nem_db \<Rightarrow> (int \<times> 'x \<times> 'i nem_db) option" where
  "db_unmap_all pre x d =
    (case nd_table d of No_table \<Rightarrow> Some (NEM_FAILURE, x, d) | Freed_table _ \<Rightarrow> None
     | Table t \<Rightarrow> map_option (\<lambda>(st, y, t1). (st, y, d\<lparr>nd_table := Table t1\<rparr>))
         (unmap_buckets pre (entry_ref d) [0..<unat (buckets t)] NEM_SUCCESS x t))"

text \<open>The RCU callback of the table, run at the end of the grace period of an entry.\<close>

definition db_free_rcu :: "nem_env \<Rightarrow> addr \<Rightarrow> 'i nem_db \<Rightarrow> mem_sys \<Rightarrow> mem_sys option" where
  "db_free_rcu e n d m =
     map_option snd (mempool_release_mem_block (ne_mem e) (nd_pool d) (Some n) (me_heap_b (nd_entries d n)) m)"

text \<open>The end: \<^verbatim>\<open>mchash_table_delete\<close> of a NULL table is undefined. The globals keep their values.\<close>

definition db_deinit :: "(addr \<Rightarrow> 'x \<Rightarrow> 'x option) \<Rightarrow> 'x \<Rightarrow> 'i nem_db \<Rightarrow> mem_sys \<Rightarrow> (int \<times> 'x \<times> 'i nem_db \<times> mem_sys) option" where
  "db_deinit pre x d m = Option.bind (db_unmap_all pre x d) (\<lambda>(rc, y, d1).
     let status = (if rc \<noteq> OF_SUCCESS then NEM_FAILURE else NEM_SUCCESS) in
     case nd_table d1 of Table t \<Rightarrow>
       if mchash_table_delete t \<noteq> OF_SUCCESS then Some (NEM_FAILURE, y, d1, m)
       else map_option (\<lambda>(rc2, m1). (if rc2 \<noteq> OF_SUCCESS then NEM_FAILURE else status, y, d1\<lparr>nd_table := Freed_table (mt_rcu t)\<rparr>, m1))
         (mempool_delete_pool (nd_pool d1) m)
     | _ \<Rightarrow> None)"

end
