(* ===== verification/Nem_Rows.thy ===== *)
theory Nem_Rows
  imports Nem_Table
begin

text \<open>
  What a database of the network element manager keeps and what its operations do: the invariant of a
  database, the map from handles to information that it holds, and the laws of its operations, proved
  once for every description that satisfies the contract \<open>nem_table\<close>.
\<close>

section \<open>The invariant and the abstract map\<close>

abbreviation (input) nem_limit :: nat where "nem_limit \<equiv> 1024"

abbreviation row_key :: "('i, 'k) nem_desc \<Rightarrow> 'i nem_db \<Rightarrow> addr \<Rightarrow> 'k" where
  "row_key D d n \<equiv> ds_key D (me_info (nd_entries d n))"

definition row_ok :: "('i, 'k) nem_desc \<Rightarrow> 'i nem_db \<Rightarrow> mchash_table \<Rightarrow> nat \<Rightarrow> addr \<Rightarrow> bool" where
  "row_ok D d t k n \<longleftrightarrow> unat (ds_hash D (row_key D d n) (nd_buckets d)) = k \<and> mch_refs t (entry_ref d n) = Some n"

definition keys_unique :: "('i, 'k) nem_desc \<Rightarrow> 'i nem_db \<Rightarrow> addr set \<Rightarrow> bool" where
  "keys_unique D d N \<longleftrightarrow> (\<forall>n\<in>N. \<forall>n'\<in>N. row_key D d n = row_key D d n' \<longrightarrow> ds_find_check D (row_key D d n) = None \<longrightarrow> n = n')"

definition db_inv :: "('i, 'k) nem_desc \<Rightarrow> 'i nem_db \<Rightarrow> mchash_table \<Rightarrow> (nat \<Rightarrow> addr list) \<Rightarrow> bool" where
  "db_inv D d t B \<longleftrightarrow> nd_table d = Table t \<and> mch_inv t B \<and> nd_buckets d = buckets t \<and> buckets t \<noteq> 0 \<and>
     length (indirection_array t) = nem_limit \<and> distinct (mt_rcu t) \<and> set (mt_rcu t) \<inter> nodes B = {} \<and>
     (\<forall>k n. n \<in> set (B k) \<longrightarrow> row_ok D d t k n) \<and> keys_unique D d (nodes B)"

definition db_ok :: "('i, 'k) nem_desc \<Rightarrow> 'i nem_db \<Rightarrow> bool" where
  "db_ok D d \<longleftrightarrow> (\<exists>t B. db_inv D d t B)"

text \<open>The rows by handle, and the blocks of the pool in use: the entries of the table and those that wait
  for a grace period.\<close>

definition db_abs :: "'i nem_db \<Rightarrow> u64 \<rightharpoonup> 'i" where
  "db_abs d h = (case nd_table d of Table t \<Rightarrow> map_option (\<lambda>n. me_info (nd_entries d n)) (mch_refs t (index_of h, magic_of h)) | _ \<Rightarrow> None)"

definition db_held :: "'i nem_db \<Rightarrow> addr \<rightharpoonup> u8" where
  "db_held d n = (case nd_table d of
       Table t \<Rightarrow> if n \<in> ran (mch_refs t) \<or> n \<in> set (mt_rcu t) then Some (me_heap_b (nd_entries d n)) else None
     | Freed_table w \<Rightarrow> if n \<in> set w then Some (me_heap_b (nd_entries d n)) else None
     | No_table \<Rightarrow> None)"

text \<open>A handle whose index lies in the table.\<close>

definition handle_in :: "u64 \<Rightarrow> bool" where
  "handle_in h \<longleftrightarrow> unat (index_of h) < nem_limit \<and> magic_of h \<noteq> 0"

lemma db_invD:
  assumes "db_inv D d t B"
  shows "nd_table d = Table t" "mch_inv t B" "nd_buckets d = buckets t" "buckets t \<noteq> 0" "length (indirection_array t) = nem_limit"
    "length (bucket_list t) = unat (buckets t)" "distinct (mt_rcu t)" "set (mt_rcu t) \<inter> nodes B = {}" "keys_unique D d (nodes B)"
    "n \<in> set (B k) \<Longrightarrow> row_ok D d t k n"
proof -
  have "mch_inv t B" using assms by (simp add: db_inv_def)
  then show "length (bucket_list t) = unat (buckets t)" by (simp add: mch_inv_def)
qed (use assms in \<open>auto simp: db_inv_def\<close>)

lemma db_heldE:
  assumes "db_inv D d t B"
  shows "db_held d n = (if n \<in> nodes B \<or> n \<in> set (mt_rcu t) then Some (me_heap_b (nd_entries d n)) else None)"
  using db_invD(1)[OF assms] nodes_refs[OF db_invD(2)[OF assms]] by (simp add: db_held_def)

lemma db_absE: "db_inv D d t B \<Longrightarrow> db_abs d h = map_option (\<lambda>n. me_info (nd_entries d n)) (mch_refs t (index_of h, magic_of h))"
  using db_invD(1)[of D d t B] by (simp add: db_abs_def)

lemma node_row:
  assumes inv: "db_inv D d t B" and n: "n \<in> nodes B"
  shows "mch_refs t (entry_ref d n) = Some n" "db_abs d (entry_handle d n) = Some (me_info (nd_entries d n))"
    "n \<in> set (B (unat (ds_hash D (row_key D d n) (nd_buckets d))))"
proof -
  obtain k where "n \<in> set (B k)" using n by (auto simp: nodes_def)
  note this db_invD(10)[OF inv this]
  then show r: "mch_refs t (entry_ref d n) = Some n" "n \<in> set (B (unat (ds_hash D (row_key D d n) (nd_buckets d))))"
    by (auto simp: row_ok_def)
  show "db_abs d (entry_handle d n) = Some (me_info (nd_entries d n))"
    using r by (simp add: db_absE[OF inv] entry_handle_def entry_ref_def)
qed

lemma refs_inj:
  assumes inv: "mch_inv t B" and r: "mch_refs t (i, m) = Some n" "mch_refs t (i', m') = Some n"
  shows "i = i' \<and> m = m'"
  using refs_entry(2,5)[OF inv r(1)] refs_entry(2,5)[OF inv r(2)] by simp

lemma row_at:
  assumes inv: "db_inv D d t B" and r: "mch_refs t (index_of h, magic_of h) = Some n"
  shows "n \<in> nodes B" "handle_in h" "entry_handle d n = h" "entry_ref d n = (index_of h, magic_of h)"
proof -
  note e = refs_entry[OF db_invD(2)[OF inv] r]
  show n: "n \<in> nodes B" using e(6) by (rule nodesI)
  show "handle_in h" using e(1,3) db_invD(5)[OF inv] by (simp add: handle_in_def)
  have "me_index (nd_entries d n) = index_of h \<and> me_magic (nd_entries d n) = magic_of h"
    by (rule refs_inj[OF db_invD(2)[OF inv] _ r]) (use node_row(1)[OF inv n] in \<open>simp add: entry_ref_def\<close>)
  then show "entry_handle d n = h" "entry_ref d n = (index_of h, magic_of h)"
    using handle_eq[of h] by (simp_all add: entry_handle_def entry_ref_def)
qed

lemma abs_SomeE:
  assumes "db_inv D d t B" "db_abs d h = Some i"
  obtains n where "mch_refs t (index_of h, magic_of h) = Some n" "n \<in> nodes B" "me_info (nd_entries d n) = i" "entry_handle d n = h"
    "handle_in h"
  using assms(2) row_at[OF assms(1)] by (auto simp: db_absE[OF assms(1)])

section \<open>The contract of a description\<close>

locale nem_table =
  fixes D :: "('i, 'k) nem_desc"
  assumes hash_bound: "b \<noteq> 0 \<Longrightarrow> unat (ds_hash D k b) < unat b"
    and copy_same: "ds_copy D i = Some j \<Longrightarrow> j = i"
    and error_codes: "ds_missing D \<noteq> NEM_SUCCESS" "ds_find_check D k = Some rc \<Longrightarrow> rc \<noteq> NEM_SUCCESS"
      "ds_check D i = Some rc \<Longrightarrow> rc \<noteq> NEM_SUCCESS"
begin

lemma scan_key:
  assumes inv: "db_inv D d t B"
  shows "find_in_bucket t (\<lambda>n. row_key D d n = k) (unat (ds_hash D k (nd_buckets d))) =
      Some (List.find (\<lambda>n. row_key D d n = k) (B (unat (ds_hash D k (nd_buckets d)))))"
  by (rule find_in_bucket_ok[OF db_invD(2)[OF inv]]) (use hash_bound[of "nd_buckets d"] db_invD(3,4,6)[OF inv] in simp)

text \<open>The handle of a key: the cases of a key that is refused, found and missing.\<close>

lemma get_handle_cases:
  assumes inv: "db_inv D d t B"
  obtains (bad) rc where "ds_find_check D k = Some rc" "db_get_handle D k d = Some (rc, None)"
  | (found) n where "ds_find_check D k = None" "n \<in> nodes B" "row_key D d n = k"
      "db_get_handle D k d = Some (NEM_SUCCESS, Some (entry_handle d n))"
  | (missing) "ds_find_check D k = None" "\<forall>n\<in>nodes B. row_key D d n \<noteq> k" "db_get_handle D k d = Some (ds_missing D, None)"
proof (cases "ds_find_check D k")
  case (Some rc)
  then show ?thesis using db_invD(1)[OF inv] by (intro bad) (simp_all add: db_get_handle_def)
next
  case None
  let ?b = "unat (ds_hash D k (nd_buckets d))"
  show ?thesis
  proof (cases "List.find (\<lambda>n. row_key D d n = k) (B ?b)")
    case no: None
    then have "\<forall>n\<in>nodes B. row_key D d n \<noteq> k" using node_row(3)[OF inv] by (auto simp: find_None_iff)
    then show ?thesis using no None scan_key[OF inv, of k] db_invD(1)[OF inv] by (intro missing) (simp_all add: db_get_handle_def)
  next
    case (Some n)
    then have "n \<in> nodes B \<and> row_key D d n = k" using find_SomeD[OF Some] by (auto intro: nodesI)
    then show ?thesis using Some None scan_key[OF inv, of k] db_invD(1)[OF inv] by (intro found) (simp_all add: db_get_handle_def)
  qed
qed

lemma get_handle_row:
  assumes inv: "db_inv D d t B" and row: "db_abs d h = Some i" and k: "ds_key D i = k" "ds_find_check D k = None"
  shows "db_get_handle D k d = Some (NEM_SUCCESS, Some h)"
proof -
  obtain n where n: "n \<in> nodes B" "me_info (nd_entries d n) = i" "entry_handle d n = h" by (rule abs_SomeE[OF inv row])
  show ?thesis
  proof (cases rule: get_handle_cases[OF inv, of k])
    case (2 n')
    then have "n' = n" using db_invD(9)[OF inv] n k unfolding keys_unique_def by auto
    then show ?thesis using 2 n by simp
  qed (use n k in auto)
qed

lemma handle_found_ok:
  assumes "db_ok D d"
  shows "case ds_find_check D k of Some rc \<Rightarrow> db_get_handle D k d = Some (rc, None)
    | None \<Rightarrow> (\<exists>h i. db_abs d h = Some i \<and> ds_key D i = k \<and> db_get_handle D k d = Some (NEM_SUCCESS, Some h)) \<or>
        (\<forall>h i. db_abs d h = Some i \<longrightarrow> ds_key D i \<noteq> k) \<and> db_get_handle D k d = Some (ds_missing D, None)"
proof -
  obtain t B where inv: "db_inv D d t B" using assms unfolding db_ok_def by blast
  show ?thesis
  proof (cases rule: get_handle_cases[OF inv, of k])
    case (2 n)
    then show ?thesis using node_row(2)[OF inv 2(2)] by auto
  next
    case 3
    have "ds_key D i \<noteq> k" if "db_abs d h = Some i" for h i using 3(2) abs_SomeE[OF inv that] by metis
    then show ?thesis using 3 by simp
  qed simp
qed

lemma exact_ok:
  assumes "db_ok D d" "handle_in h"
  shows "db_get_exact h d = Some (case db_abs d h of None \<Rightarrow> (NEM_ERROR_INVALID_HANDLE, None) | Some i \<Rightarrow> (NEM_SUCCESS, Some i))"
proof -
  obtain t B where inv: "db_inv D d t B" using assms unfolding db_ok_def by blast
  have "MCHASH_ACCESS_NODE (index_of h) (magic_of h) t = Some (map_option Some (mch_refs t (index_of h, magic_of h)))"
    using access_ok[OF db_invD(2)[OF inv]] assms(2) db_invD(5)[OF inv] by (simp add: handle_in_def)
  then show ?thesis using db_invD(1)[OF inv] by (simp add: db_get_exact_def db_absE[OF inv] split: option.splits)
qed

lemma unique_key:
  assumes "db_ok D d" "db_abs d h = Some i" "db_abs d h' = Some j" "ds_key D i = ds_key D j" "ds_find_check D (ds_key D i) = None"
  shows "h = h'"
proof -
  obtain t B where inv: "db_inv D d t B" using assms(1) unfolding db_ok_def by blast
  show ?thesis using get_handle_row[OF inv assms(2) refl assms(5)] get_handle_row[OF inv assms(3)] assms(4,5) by simp
qed

lemma abs_handle_in: "db_ok D d \<Longrightarrow> db_abs d h = Some i \<Longrightarrow> handle_in h"
  unfolding db_ok_def by (meson abs_SomeE)

end

section \<open>Adding a row\<close>

lemma entry_filled:
  "(x :: 'i nem_entry)\<lparr>me_info := i, me_heap_b := hb, me_magic := mg, me_index := ix\<rparr> =
     \<lparr>me_info = i, me_index = ix, me_magic = mg, me_heap_b = hb\<rparr>"
  by (cases x) simp

lemma row_ok_frame:
  assumes "row_ok D d t k n" "nd_entries d' n = nd_entries d n" "nd_buckets d' = nd_buckets d"
    "mch_refs t' (entry_ref d n) = mch_refs t (entry_ref d n)"
  shows "row_ok D d' t' k n"
  using assms by (simp add: row_ok_def entry_ref_def)

lemma row_added:
  assumes inv: "db_inv D d t B" and n: "n \<notin> nodes B" "n \<notin> set (mt_rcu t)"
    and k: "k = unat (ds_hash D (ds_key D i) (nd_buckets d))"
    and t': "mch_inv t' (B(k := B k @ [n]))" "mch_refs t (ix, mg) = None" "mch_refs t' = (mch_refs t)((ix, mg) := Some n)"
      "mt_rcu t' = mt_rcu t" "length (bucket_list t') = length (bucket_list t)"
      "length (indirection_array t') = length (indirection_array t)"
    and new: "ds_find_check D (ds_key D i) = None \<Longrightarrow> \<forall>n'\<in>nodes B. row_key D d n' \<noteq> ds_key D i"
    and d': "d' = d\<lparr>nd_table := Table t', nd_entries := (nd_entries d)(n := \<lparr>me_info = i, me_index = ix, me_magic = mg, me_heap_b = hb\<rparr>)\<rparr>"
  shows "db_inv D d' t' (B(k := B k @ [n]))" "db_abs d (handle_of mg ix) = None"
    "db_abs d' = (db_abs d)(handle_of mg ix \<mapsto> i)" "db_held d' = (db_held d)(n \<mapsto> hb)"
proof -
  let ?B = "B(k := B k @ [n])"
  have N: "nodes ?B = insert n (nodes B)" by (rule nodes_append[OF n(1)])
  have bk: "buckets t' = buckets t"
    using t'(1,5) db_invD(2,6)[OF inv] by (simp add: mch_inv_def word_unat_eq_iff)
  have "row_ok D d' t' j x" if x: "x \<in> set (?B j)" for j x
  proof (cases "x = n")
    case True
    then have "j = k" using x n by (auto simp: in_nodes split: if_splits)
    then show ?thesis using True k t'(3) by (simp add: row_ok_def entry_ref_def d')
  next
    case False
    then have xj: "x \<in> set (B j)" using x by (auto split: if_splits)
    note r = db_invD(10)[OF inv xj]
    have "entry_ref d x \<noteq> (ix, mg)" using r t'(2) by (auto simp: row_ok_def)
    then show ?thesis using row_ok_frame[OF r, of d' t'] False t'(3) by (simp add: d')
  qed
  moreover have "keys_unique D d' (nodes ?B)"
    unfolding keys_unique_def N
  proof (intro ballI impI)
    fix x y
    assume x: "x \<in> insert n (nodes B)" and y: "y \<in> insert n (nodes B)" and eq: "row_key D d' x = row_key D d' y"
      and c: "ds_find_check D (row_key D d' x) = None"
    have old: "row_key D d' z = row_key D d z" if "z \<in> nodes B" for z using that n(1) by (auto simp: d')
    have nk: "row_key D d' n = ds_key D i" by (simp add: d')
    have "z \<noteq> n \<Longrightarrow> z \<in> insert n (nodes B) \<Longrightarrow> ds_find_check D (ds_key D i) = None \<Longrightarrow> row_key D d' z \<noteq> ds_key D i" for z
      using new old by auto
    then show "x = y"
      using x y eq c nk old db_invD(9)[OF inv] unfolding keys_unique_def by (metis insertE)
  qed
  ultimately show inv': "db_inv D d' t' ?B"
    using db_invD[OF inv] t' n(2) bk unfolding db_inv_def N by (auto simp: d')
  show none: "db_abs d (handle_of mg ix) = None" using t'(2) by (simp add: db_absE[OF inv])
  show "db_abs d' = (db_abs d)(handle_of mg ix \<mapsto> i)"
  proof
    fix h
    show "db_abs d' h = ((db_abs d)(handle_of mg ix \<mapsto> i)) h"
    proof (cases "h = handle_of mg ix")
      case True
      then show ?thesis using t'(3) by (simp add: db_abs_def d')
    next
      case False
      then have ne: "(index_of h, magic_of h) \<noteq> (ix, mg)" using handle_iff by simp
      show ?thesis
      proof (cases "mch_refs t (index_of h, magic_of h)")
        case None
        then show ?thesis using False ne t'(3) by (simp add: db_absE[OF inv]) (simp add: db_abs_def d')
      next
        case (Some x)
        then have "x \<noteq> n" using row_at(1)[OF inv Some] n(1) by auto
        then show ?thesis using False ne Some t'(3) by (auto simp: db_absE[OF inv]) (auto simp: db_abs_def d')
      qed
    qed
  qed
  have "nd_entries d' = (nd_entries d)(n := \<lparr>me_info = i, me_index = ix, me_magic = mg, me_heap_b = hb\<rparr>)" by (simp add: d')
  then show "db_held d' = (db_held d)(n \<mapsto> hb)"
    using N t'(4) by (simp add: fun_eq_iff db_heldE[OF inv] db_heldE[OF inv'])
qed

context nem_table
begin

text \<open>The end of an addition, when a block was obtained: the table has room, because the pool has no more
  blocks than the table entries.\<close>

lemma append_row:
  assumes inv: "db_inv D d t B" and ok: "pools_ok nem_limit m1 Hs" and a: "Hs a = Some H"
    and held: "nodes B \<subseteq> dom H" "n \<in> dom H" and n: "n \<notin> nodes B"
  obtains ix mg t' where "MCHASH_APPEND_NODE (ds_hash D k (nd_buckets d)) n t = Some (Some (ix, mg), t')"
    "mch_inv t' (B(unat (ds_hash D k (nd_buckets d)) := B (unat (ds_hash D k (nd_buckets d))) @ [n]))"
    "mch_refs t (ix, mg) = None" "mch_refs t' = (mch_refs t)((ix, mg) := Some n)" "mt_rcu t' = mt_rcu t"
    "length (bucket_list t') = length (bucket_list t)" "length (indirection_array t') = length (indirection_array t)"
proof -
  let ?key = "ds_hash D k (nd_buckets d)"
  have kb: "unat ?key < length (bucket_list t)" using hash_bound[of "nd_buckets d" k] db_invD(3,4,6)[OF inv] by simp
  have "card (nodes B) < nem_limit" by (rule pools.room[OF ok a held n])
  then have "free_q_next t \<noteq> None" using full_card[OF db_invD(2)[OF inv]] db_invD(5)[OF inv] by auto
  moreover have "inserted B ?key (B (unat ?key)) n [] t (MCHASH_APPEND_NODE ?key n t)"
    by (rule append_ok[OF db_invD(2)[OF inv] kb]) (use n in \<open>simp add: in_nodes\<close>)
  ultimately obtain ix t' where "MCHASH_APPEND_NODE ?key n t = Some (Some (ix, magic_no t), t')"
    "mch_inv t' (B(unat ?key := B (unat ?key) @ [n]))" "mch_refs t (ix, magic_no t) = None"
    "mch_refs t' = (mch_refs t)((ix, magic_no t) := Some n)" "mt_rcu t' = mt_rcu t"
    "length (bucket_list t') = length (bucket_list t)" "length (indirection_array t') = length (indirection_array t)"
    unfolding inserted_def by auto
  then show thesis by (rule that)
qed

lemma map_cases:
  assumes ok: "db_ok D d" and pool: "nd_pool d = Some a" "pools_ok nem_limit m Hs" "Hs a = Some (db_held d)"
    and fresh: "shared_fresh (ne_mem e) m Hs" and i: "ds_check D i = None" "ds_copy D i \<noteq> None"
  obtains (duplicate) h j where "db_abs d h = Some j" "ds_key D j = ds_key D i" "ds_find_check D (ds_key D i) = None"
      "db_map D e (Some i) d m = Some (NEM_ERROR_DUPLICATE_RESOURCE, Some h, d, m)"
  | (failed) m' where "db_map D e (Some i) d m = Some (NEM_FAILURE, None, d, m')" "pools_ok nem_limit m' Hs"
      "\<not> pool_has_free m a" "\<forall>c. c \<noteq> a \<longrightarrow> pool_has_free m' c = pool_has_free m c"
      "ds_find_check D (ds_key D i) = None \<longrightarrow> (\<forall>h j. db_abs d h = Some j \<longrightarrow> ds_key D j \<noteq> ds_key D i)"
  | (added) h d' m' where "db_map D e (Some i) d m = Some (NEM_SUCCESS, Some h, d', m')" "db_ok D d'" "nd_pool d' = nd_pool d"
      "db_abs d h = None" "db_abs d' = (db_abs d)(h \<mapsto> i)" "pools_ok nem_limit m' (Hs(a \<mapsto> db_held d'))"
      "\<forall>c. c \<noteq> a \<longrightarrow> pool_has_free m' c = pool_has_free m c"
      "ds_find_check D (ds_key D i) = None \<longrightarrow> (\<forall>h j. db_abs d h = Some j \<longrightarrow> ds_key D j \<noteq> ds_key D i)"
proof -
  obtain t B where inv: "db_inv D d t B" using ok unfolding db_ok_def by blast
  note tb = db_invD(1)[OF inv]
  have cp: "ds_copy D i = Some i" using i(2) copy_same by (cases "ds_copy D i") auto
  obtain rc0 h0 where g: "db_get_handle D (ds_key D i) d = Some (rc0, h0)"
    by (cases rule: get_handle_cases[OF inv, of "ds_key D i"]) auto
  show thesis
  proof (cases "rc0 = NEM_SUCCESS")
    case True
    then obtain n where n: "ds_find_check D (ds_key D i) = None" "n \<in> nodes B" "row_key D d n = ds_key D i"
      "h0 = Some (entry_handle d n)" using g error_codes
      by (cases rule: get_handle_cases[OF inv, of "ds_key D i"]) auto
    have "db_map D e (Some i) d m = Some (NEM_ERROR_DUPLICATE_RESOURCE, Some (entry_handle d n), d, m)"
      using tb i(1) g True n(4) by (simp add: db_map_def)
    then show thesis using duplicate[OF node_row(2)[OF inv n(2)] n(3) n(1)] by simp
  next
    case False
    have new: "\<forall>n'\<in>nodes B. row_key D d n' \<noteq> ds_key D i" if "ds_find_check D (ds_key D i) = None"
      using g False that by (cases rule: get_handle_cases[OF inv, of "ds_key D i"]) auto
    then have nodup: "ds_find_check D (ds_key D i) = None \<longrightarrow> (\<forall>h j. db_abs d h = Some j \<longrightarrow> ds_key D j \<noteq> ds_key D i)"
      using abs_SomeE[OF inv] by metis
    from pool(2,3) fresh show thesis
    proof (cases rule: pools.get_cases[where h = "ne_heap_b e"])
      case (none rc hb m')
      then have "db_map D e (Some i) d m = Some (NEM_FAILURE, None, d, m')"
        using tb i(1) g False pool(1) by (simp add: db_map_def release_entry_def)
      then show thesis by (rule failed[OF _ none(3,4) _ nodup]) (use pools.get_frame[OF none(1)] in blast)
    next
      case (block n hb m')
      let ?Hs = "Hs(a \<mapsto> (db_held d)(n \<mapsto> hb))"
      have n: "n \<notin> nodes B" "n \<notin> set (mt_rcu t)" using block(2) by (auto simp: db_heldE[OF inv] dom_def split: if_splits)
      have sub: "nodes B \<subseteq> dom ((db_held d)(n \<mapsto> hb))" by (auto simp: db_heldE[OF inv])
      have a: "?Hs a = Some ((db_held d)(n \<mapsto> hb))" by simp
      obtain ix mg t' where t': "MCHASH_APPEND_NODE (ds_hash D (ds_key D i) (nd_buckets d)) n t = Some (Some (ix, mg), t')"
        "mch_inv t' (B(unat (ds_hash D (ds_key D i) (nd_buckets d)) := B (unat (ds_hash D (ds_key D i) (nd_buckets d))) @ [n]))"
        "mch_refs t (ix, mg) = None" "mch_refs t' = (mch_refs t)((ix, mg) := Some n)" "mt_rcu t' = mt_rcu t"
        "length (bucket_list t') = length (bucket_list t)" "length (indirection_array t') = length (indirection_array t)"
        by (rule append_row[OF inv block(3) a sub _ n(1), of "ds_key D i"]) simp
      let ?d = "d\<lparr>nd_table := Table t', nd_entries := (nd_entries d)(n := \<lparr>me_info = i, me_index = ix, me_magic = mg, me_heap_b = hb\<rparr>)\<rparr>"
      have run: "db_map D e (Some i) d m = Some (NEM_SUCCESS, Some (handle_of mg ix), ?d, m')"
        using tb i(1) g False pool(1) block(1) cp t'(1) by (simp add: db_map_def Let_def entry_filled)
      note r = row_added[where hb = hb, OF inv n refl t'(2-7) new refl]
      have "db_ok D ?d" using r(1) unfolding db_ok_def by blast
      then show thesis using added[OF run _ _ r(2,3) _ _ nodup] r(4) block(3) pools.get_frame[OF block(1)] by simp
    qed
  qed
qed

end

section \<open>Removing a row\<close>

text \<open>The entries that wait for a grace period.\<close>

definition db_pending :: "'i nem_db \<Rightarrow> addr list" where
  "db_pending d = (case nd_table d of Table t \<Rightarrow> mt_rcu t | Freed_table w \<Rightarrow> w | No_table \<Rightarrow> [])"

text \<open>The end of the grace period of one of them, with the callback.\<close>

definition db_grace :: "nem_env \<Rightarrow> addr \<Rightarrow> 'i nem_db \<Rightarrow> mem_sys \<Rightarrow> ('i nem_db \<times> mem_sys) option" where
  "db_grace e n d m = (if n \<notin> set (db_pending d) then None else
     map_option (Pair (d\<lparr>nd_table := (case nd_table d of Table t \<Rightarrow> Table (t\<lparr>mt_rcu := remove1 n (mt_rcu t)\<rparr>)
         | Freed_table w \<Rightarrow> Freed_table (remove1 n w) | No_table \<Rightarrow> No_table)\<rparr>)) (db_free_rcu e n d m))"

lemma row_removed:
  assumes inv: "db_inv D d t B" and r: "mch_refs t (index_of h, magic_of h) = Some n" and del: "deleted B n t (Some (st, t'))"
    and d': "d' = d\<lparr>nd_table := Table t'\<rparr>"
  shows "\<exists>B'. db_inv D d' t' B' \<and> nodes B' = nodes B - {n}" "db_abs d' = (db_abs d)(h := None)" "db_held d' = db_held d"
    "db_pending d' = db_pending d @ [n]" "st"
proof -
  note e = refs_entry[OF db_invD(2)[OF inv] r]
  obtain k where d: "st" "n \<in> set (B k)" "mch_inv t' (B(k := remove1 n (B k)))"
    "mch_refs t' = (mch_refs t)((index_of h, magic_of h) := None)" "mt_rcu t' = mt_rcu t @ [n]"
    "length (bucket_list t') = length (bucket_list t)" "length (indirection_array t') = length (indirection_array t)"
    using del e(2,5) unfolding deleted_def by auto
  let ?B = "B(k := remove1 n (B k))"
  have N: "nodes ?B = nodes B - {n}" by (rule nodes_remove[OF db_invD(2)[OF inv] d(2)])
  have bk: "buckets t' = buckets t" using d(3,6) db_invD(2,6)[OF inv] by (simp add: mch_inv_def word_unat_eq_iff)
  have row: "row_ok D d' t' j x" if x: "x \<in> set (?B j)" for j x
  proof -
    have "x \<in> set (B j)" using x set_remove1_subset[of n "B k"] by (auto split: if_splits)
    note q = db_invD(10)[OF inv this]
    have "x \<noteq> n" using x N by (auto simp: nodes_def)
    then have "entry_ref d x \<noteq> (index_of h, magic_of h)" using q r by (auto simp: row_ok_def)
    then show ?thesis using row_ok_frame[OF q, of d' t'] d(4) by (simp add: d')
  qed
  have u: "keys_unique D d' (nodes ?B)" using db_invD(9)[OF inv] by (auto simp: keys_unique_def N d')
  have nr: "n \<in> nodes B" "n \<notin> set (mt_rcu t)" using d(2) db_invD(8)[OF inv] by (auto simp: nodes_def)
  have inv': "db_inv D d' t' ?B"
    unfolding db_inv_def using db_invD(1-8)[OF inv] d(3,5-7) bk row u nr N by (auto simp: d')
  then show "\<exists>B'. db_inv D d' t' B' \<and> nodes B' = nodes B - {n}" using N by blast
  show "db_abs d' = (db_abs d)(h := None)"
  proof
    fix h'
    show "db_abs d' h' = ((db_abs d)(h := None)) h'"
    proof (cases "h' = h")
      case False
      then have "(index_of h', magic_of h') \<noteq> (index_of h, magic_of h)"
        using handle_iff[of h' "index_of h" "magic_of h"] handle_eq[of h] by simp
      then show ?thesis using False d(4) by (auto simp: db_absE[OF inv]) (auto simp: db_abs_def d')
    qed (simp add: db_abs_def d' d(4))
  qed
  have "nd_entries d' = nd_entries d" by (simp add: d')
  then show "db_held d' = db_held d"
    using N nr d(5) by (auto simp: fun_eq_iff db_heldE[OF inv] db_heldE[OF inv'])
  show "db_pending d' = db_pending d @ [n]" using d(5) db_invD(1)[OF inv] by (simp add: db_pending_def d')
qed (use del in \<open>auto simp: deleted_def\<close>)

context nem_table
begin

lemma unmap_cases:
  assumes ok: "db_ok D d" and h: "handle_in h"
  obtains (invalid) "db_abs d h = None" "db_unmap h d = Some (NEM_ERROR_INVALID_HANDLE, d)"
  | (removed) i d' n where "db_abs d h = Some i" "db_unmap h d = Some (NEM_SUCCESS, d')" "db_ok D d'"
      "db_abs d' = (db_abs d)(h := None)" "db_held d' = db_held d" "nd_pool d' = nd_pool d" "db_pending d' = db_pending d @ [n]"
proof -
  obtain t B where inv: "db_inv D d t B" using ok unfolding db_ok_def by blast
  note m = db_invD(2)[OF inv]
  have acc: "MCHASH_ACCESS_NODE (index_of h) (magic_of h) t = Some (map_option Some (mch_refs t (index_of h, magic_of h)))"
    using access_ok[OF m] h db_invD(5)[OF inv] by (simp add: handle_in_def)
  show thesis
  proof (cases "mch_refs t (index_of h, magic_of h)")
    case None
    then show thesis using acc db_invD(1)[OF inv] by (intro invalid) (simp_all add: db_absE[OF inv] db_unmap_def)
  next
    case (Some n)
    note e = refs_entry[OF m Some]
    have "deleted B n t (MCHASH_DELETE_NODE_BY_REF (index_of h) (magic_of h) t)"
      using delete_by_ref_ok[OF m e(1,3)] Some by simp
    then obtain st t' where del: "MCHASH_DELETE_NODE_BY_REF (index_of h) (magic_of h) t = Some (st, t')"
      "deleted B n t (Some (st, t'))" unfolding deleted_def by auto
    note r = row_removed[OF inv Some del(2) refl]
    have "db_unmap h d = Some (NEM_SUCCESS, d\<lparr>nd_table := Table t'\<rparr>)"
      using acc Some del(1) r(5) db_invD(1)[OF inv] by (simp add: db_unmap_def)
    moreover have "db_ok D (d\<lparr>nd_table := Table t'\<rparr>)" using r(1) unfolding db_ok_def by blast
    ultimately show thesis
      using Some by (intro removed[OF _ _ _ r(2,3) _ r(4)]) (simp_all add: db_absE[OF inv])
  qed
qed

text \<open>The end of a grace period returns the block to the pool.\<close>

lemma grace_freed_ok:
  assumes ok: "db_ok D d" and pool: "nd_pool d = Some a" "pools_ok nem_limit m Hs" "Hs a = Some (db_held d)"
    and n: "n \<in> set (db_pending d)"
  shows "\<exists>d' m'. db_grace e n d m = Some (d', m') \<and> db_ok D d' \<and> db_abs d' = db_abs d \<and> nd_pool d' = nd_pool d \<and>
    db_held d' = (db_held d)(n := None) \<and> db_pending d' = remove1 n (db_pending d) \<and> pools_ok nem_limit m' (Hs(a \<mapsto> db_held d'))"
proof -
  obtain t B where inv: "db_inv D d t B" using ok unfolding db_ok_def by blast
  note tb = db_invD(1)[OF inv]
  have nt: "n \<in> set (mt_rcu t)" "n \<notin> nodes B" using n tb db_invD(8)[OF inv] by (auto simp: db_pending_def)
  have hb: "db_held d n = Some (me_heap_b (nd_entries d n))" using nt by (simp add: db_heldE[OF inv])
  obtain m' where m': "mempool_release_mem_block (ne_mem e) (Some a) (Some n) (me_heap_b (nd_entries d n)) m = Some (MEMPOOL_SUCCESS, m')"
    "pools_ok nem_limit m' (Hs(a \<mapsto> (db_held d)(n := None)))"
    using pools.release_law[OF pool(2,3) hb] by blast
  let ?t = "t\<lparr>mt_rcu := remove1 n (mt_rcu t)\<rparr>"
  let ?d = "d\<lparr>nd_table := Table ?t\<rparr>"
  have "row_ok D ?d ?t k x" if "x \<in> set (B k)" for k x
    using row_ok_frame[OF db_invD(10)[OF inv that], of ?d ?t] by simp
  moreover have "keys_unique D ?d (nodes B)" using db_invD(9)[OF inv] by (simp add: keys_unique_def)
  ultimately have inv': "db_inv D ?d ?t B"
    unfolding db_inv_def using db_invD(1-8)[OF inv] by (auto dest: notin_set_remove1)
  have "db_grace e n d m = Some (?d, m')" using n tb m'(1) pool(1) by (simp add: db_grace_def db_free_rcu_def)
  moreover have "db_abs ?d = db_abs d" by (simp add: fun_eq_iff db_absE[OF inv] db_absE[OF inv'])
  moreover have held: "db_held ?d = (db_held d)(n := None)"
    using nt db_invD(7)[OF inv] by (auto simp: fun_eq_iff db_heldE[OF inv] db_heldE[OF inv'])
  moreover have "db_pending ?d = remove1 n (db_pending d)" using tb by (simp add: db_pending_def)
  moreover have "db_ok D ?d" using inv' unfolding db_ok_def by blast
  ultimately show ?thesis using m'(2) by (intro exI[of _ ?d] exI[of _ m']) simp
qed

end

section \<open>Enumeration\<close>

definition db_rows :: "'i nem_db \<Rightarrow> addr list \<Rightarrow> ('i \<times> u64) list" where
  "db_rows d ns = map (\<lambda>n. (me_info (nd_entries d n), entry_handle d n)) ns"

lemma distinct_concat_buckets:
  assumes "mch_inv t B" "distinct ks" shows "distinct (concat (map B ks))"
  using assms(2)
proof (induction ks)
  case (Cons k ks)
  have "set (B k) \<inter> set (B j) = {}" if "j \<in> set ks" for j
  proof -
    have "j \<noteq> k" using Cons.prems that by auto
    then show ?thesis using mch_inv_disjoint[OF assms(1)] by blast
  qed
  moreover have "distinct (B k)" using assms(1) by (simp add: mch_inv_def)
  ultimately show ?case using Cons by auto
qed simp

lemma set_all_buckets:
  assumes "mch_inv t B" shows "set (concat (map B [0..<unat (buckets t)])) = nodes B"
proof -
  have "k < unat (buckets t)" if "n \<in> set (B k)" for n k using assms that by (auto simp: mch_inv_def entries_ok_def)
  then show ?thesis by (fastforce simp: nodes_def)
qed

lemma entry_handle_inj:
  assumes "db_inv D d t B" "n \<in> nodes B" "n' \<in> nodes B" "entry_handle d n = entry_handle d n'" shows "n = n'"
proof -
  have "index_of (entry_handle d n) = index_of (entry_handle d n')" "magic_of (entry_handle d n) = magic_of (entry_handle d n')"
    using assms(4) by simp_all
  then have "entry_ref d n = entry_ref d n'" by (simp add: entry_handle_def entry_ref_def)
  then have "Some n = Some n'" using node_row(1)[OF assms(1,2)] node_row(1)[OF assms(1,3)] by argo
  then show ?thesis by blast
qed

context nem_table
begin

text \<open>The operations that enumerate follow one list of the rows.\<close>

lemma enumerate_ok:
  assumes ok: "db_ok D d"
  shows "\<exists>rs. distinct (map snd rs) \<and> (\<forall>i h. (i, h) \<in> set rs \<longleftrightarrow> db_abs d h = Some i) \<and>
    db_get_first d = Some (case rs of [] \<Rightarrow> (NEM_ERROR_NO_MORE_ENTRIES, None) | r # _ \<Rightarrow> (NEM_SUCCESS, Some r)) \<and>
    (\<forall>h. db_get_next h d = Some (case dropWhile (\<lambda>r. snd r \<noteq> h) rs of [] \<Rightarrow> (NEM_ERROR_INVALID_HANDLE, None)
       | _ # [] \<Rightarrow> (NEM_ERROR_NO_MORE_ENTRIES, None) | _ # r # _ \<Rightarrow> (NEM_SUCCESS, Some r)))"
proof -
  obtain t B where inv: "db_inv D d t B" using ok unfolding db_ok_def by blast
  note m = db_invD(2)[OF inv] and tb = db_invD(1)[OF inv]
  define ns where "ns = concat (map B [0..<unat (buckets t)])"
  have N: "set ns = nodes B" unfolding ns_def by (rule set_all_buckets[OF m])
  have d: "distinct ns" unfolding ns_def by (rule distinct_concat_buckets[OF m]) simp
  have ks: "\<forall>k\<in>set [0..<unat (buckets t)]. k < length (bucket_list t)" using db_invD(6)[OF inv] by simp
  let ?rs = "db_rows d ns"
  have hs: "map snd ?rs = map (entry_handle d) ns" by (simp add: db_rows_def)
  have "inj_on (entry_handle d) (set ns)" using entry_handle_inj[OF inv] unfolding N by (meson inj_onI)
  then have 1: "distinct (map snd ?rs)" using d unfolding hs distinct_map by blast
  have 2: "(i, h) \<in> set ?rs \<longleftrightarrow> db_abs d h = Some i" for i h
  proof
    assume "(i, h) \<in> set ?rs"
    then obtain n where n: "n \<in> nodes B" "i = me_info (nd_entries d n)" "h = entry_handle d n" using N by (auto simp: db_rows_def)
    show "db_abs d h = Some i" using node_row(2)[OF inv n(1)] n by simp
  next
    assume "db_abs d h = Some i"
    then obtain n where n: "n \<in> nodes B" "me_info (nd_entries d n) = i" "entry_handle d n = h" by (rule abs_SomeE[OF inv])
    then show "(i, h) \<in> set ?rs" unfolding db_rows_def set_map N by auto
  qed
  have 3: "db_get_first d = Some (case ?rs of [] \<Rightarrow> (NEM_ERROR_NO_MORE_ENTRIES, None) | r # _ \<Rightarrow> (NEM_SUCCESS, Some r))"
    using first_scan_ok[OF m ks, folded ns_def] tb by (simp add: db_get_first_def db_rows_def split: list.split)
  have 4: "db_get_next h d = Some (case dropWhile (\<lambda>r. snd r \<noteq> h) ?rs of [] \<Rightarrow> (NEM_ERROR_INVALID_HANDLE, None)
       | _ # [] \<Rightarrow> (NEM_ERROR_NO_MORE_ENTRIES, None) | _ # r # _ \<Rightarrow> (NEM_SUCCESS, Some r))" for h
  proof -
    let ?Q = "\<lambda>n. me_magic (nd_entries d n) = magic_of h \<and> me_index (nd_entries d n) = index_of h"
    have q: "?Q n \<longleftrightarrow> entry_handle d n = h" for n
      using handle_iff[of h "me_index (nd_entries d n)" "me_magic (nd_entries d n)"] by (auto simp: entry_handle_def)
    define zs where "zs = dropWhile (\<lambda>n. \<not> ?Q n) ns"
    have "dropWhile (\<lambda>r. snd r \<noteq> h) ?rs = db_rows d zs"
      unfolding db_rows_def dropWhile_map zs_def q by (simp add: comp_def)
    moreover have "db_get_next h d = Some (case zs of [] \<Rightarrow> (NEM_ERROR_INVALID_HANDLE, None) | [_] \<Rightarrow> (NEM_ERROR_NO_MORE_ENTRIES, None)
        | _ # n # _ \<Rightarrow> (NEM_SUCCESS, Some (me_info (nd_entries d n), entry_handle d n)))"
      using next_scan_ok(2)[OF m ks, of ?Q, folded ns_def, folded zs_def] tb
      by (cases zs rule: remdups_adj.cases) (simp_all add: db_get_next_def)
    ultimately show ?thesis
      by (cases zs rule: remdups_adj.cases) (simp_all add: db_rows_def del: dropWhile_eq_Nil_conv)
  qed
  show ?thesis using 1 2 3 4 by (intro exI[of _ ?rs]) blast
qed

end

section \<open>Removing all rows\<close>

lemma unmap_bucket_ok:
  assumes inv: "mch_inv t B" and k: "k < length (bucket_list t)" and R: "\<forall>n\<in>set (B k). mch_refs t (R n) = Some n"
  shows "\<exists>t'. unmap_bucket (\<lambda>_. Some) R (first_ref (B k) Null) st x t = Some (if B k = [] then st else NEM_SUCCESS, x, t') \<and>
    mch_inv t' (B(k := [])) \<and> length (bucket_list t') = length (bucket_list t) \<and>
    length (indirection_array t') = length (indirection_array t) \<and> mt_rcu t' = mt_rcu t @ B k \<and>
    (\<forall>r n. mch_refs t' r = Some n \<longleftrightarrow> mch_refs t r = Some n \<and> n \<notin> set (B k))"
  using assms
proof (induction "B k" arbitrary: B t st)
  case Nil
  have "B(k := []) = B" using Nil.hyps by auto
  then show ?case using Nil by (intro exI[of _ t]) (simp add: unmap_bucket.simps[of _ _ Null] flip: Nil.hyps)
next
  case (Cons n ns)
  have B: "B k = n # ns" using Cons.hyps(2) by simp
  obtain i mg where R: "R n = (i, mg)" "mch_refs t (i, mg) = Some n" using Cons.prems(3) B by (cases "R n") auto
  note e = refs_entry[OF Cons.prems(1) R(2)]
  have "deleted B n t (MCHASH_DELETE_NODE_BY_REF i mg t)" using delete_by_ref_ok[OF Cons.prems(1) e(1,3)] R(2) by simp
  then obtain t1 j where d: "MCHASH_DELETE_NODE_BY_REF i mg t = Some (True, t1)" "n \<in> set (B j)" "mch_inv t1 (B(j := remove1 n (B j)))"
    "mch_refs t1 = (mch_refs t)((i, mg) := None)" "mt_rcu t1 = mt_rcu t @ [n]" "length (bucket_list t1) = length (bucket_list t)"
    "length (indirection_array t1) = length (indirection_array t)"
    using e(2,5) unfolding deleted_def by auto
  have "j = k" using mch_inv_disjoint[OF Cons.prems(1), of n j k] d(2) B by simp
  let ?B = "B(k := ns)"
  have inv1: "mch_inv t1 ?B" using d(3) B \<open>j = k\<close> by simp
  have dn: "n \<notin> set ns" using Cons.prems(1) B by (metis distinct.simps(2) mch_inv_def)
  have R1: "\<forall>m\<in>set (?B k). mch_refs t1 (R m) = Some m"
  proof
    fix m assume m: "m \<in> set (?B k)"
    then have "mch_refs t (R m) = Some m" "m \<noteq> n" using Cons.prems(3) B dn by auto
    then show "mch_refs t1 (R m) = Some m" using d(4) R(2) by auto
  qed
  have "rd_next (Link n) t = first_ref ns Null"
    using mch_bucket(1)[OF Cons.prems(1,2)] B by (simp add: bucket_ok_def first_ref_def)
  then have nx: "rd_next (Link n) t1 = first_ref ns Null"
    using delete_by_ref_keeps_link[OF Cons.prems(1) R(2) d(1)] by simp
  have k1: "k < length (bucket_list t1)" using d(6) Cons.prems(2) by simp
  obtain t' where t': "unmap_bucket (\<lambda>_. Some) R (first_ref ns Null) NEM_SUCCESS x t1 = Some (NEM_SUCCESS, x, t')"
    "mch_inv t' (B(k := []))" "length (bucket_list t') = length (bucket_list t)"
    "length (indirection_array t') = length (indirection_array t)" "mt_rcu t' = mt_rcu t1 @ ns"
    "\<forall>r m. mch_refs t' r = Some m \<longleftrightarrow> mch_refs t1 r = Some m \<and> m \<notin> set ns"
    using Cons.hyps(1)[of ?B, OF _ inv1 k1 R1, of NEM_SUCCESS] d(6,7) by auto
  have "mch_refs t' r = Some m \<longleftrightarrow> mch_refs t r = Some m \<and> m \<notin> set (B k)" for r m
  proof (cases "r = (i, mg)")
    case True
    then show ?thesis using spec[OF spec[OF t'(6), of r], of m] d(4) R(2) B by auto
  next
    case False
    then have "m \<noteq> n" if "mch_refs t r = Some m" using refs_inj[OF Cons.prems(1) R(2), of "fst r" "snd r"] that by auto
    then show ?thesis using spec[OF spec[OF t'(6), of r], of m] False d(4) B by auto
  qed
  then show ?case using t' nx d(1,5) R(1) B
    by (intro exI[of _ t']) (simp add: unmap_bucket.simps[of _ _ "Link _"])
qed

lemma unmap_buckets_ok:
  assumes "mch_inv t B" "\<forall>k\<in>set ks. k < length (bucket_list t)" "\<forall>n\<in>nodes B. mch_refs t (R n) = Some n" "distinct ks"
  shows "\<exists>t'. unmap_buckets (\<lambda>_. Some) R ks NEM_SUCCESS x t = Some (NEM_SUCCESS, x, t') \<and>
    mch_inv t' (\<lambda>k. if k \<in> set ks then [] else B k) \<and> length (bucket_list t') = length (bucket_list t) \<and>
    length (indirection_array t') = length (indirection_array t) \<and> mt_rcu t' = mt_rcu t @ concat (map B ks)"
  using assms
proof (induction ks arbitrary: t B)
  case (Cons k ks)
  have k: "k < length (bucket_list t)" using Cons.prems(2) by simp
  have bk: "bk_head_next (bucket_list t ! k) = first_ref (B k) Null" using mch_bucket(1)[OF Cons.prems(1) k] by (simp add: bucket_ok_def)
  have Rk: "\<forall>n\<in>set (B k). mch_refs t (R n) = Some n" using Cons.prems(3) by (auto simp: nodes_def)
  obtain t1 where t1: "unmap_bucket (\<lambda>_. Some) R (first_ref (B k) Null) NEM_SUCCESS x t = Some (NEM_SUCCESS, x, t1)"
    "mch_inv t1 (B(k := []))" "length (bucket_list t1) = length (bucket_list t)"
    "length (indirection_array t1) = length (indirection_array t)" "mt_rcu t1 = mt_rcu t @ B k"
    "\<forall>r n. mch_refs t1 r = Some n \<longleftrightarrow> mch_refs t r = Some n \<and> n \<notin> set (B k)"
    using unmap_bucket_ok[OF Cons.prems(1) k Rk, of NEM_SUCCESS x] by auto
  have R1: "\<forall>n\<in>nodes (B(k := [])). mch_refs t1 (R n) = Some n"
  proof
    fix n assume "n \<in> nodes (B(k := []))"
    then obtain j where j: "j \<noteq> k" "n \<in> set (B j)" by (auto simp: nodes_def split: if_splits)
    then have "n \<notin> set (B k)" using mch_inv_disjoint[OF Cons.prems(1)] by blast
    moreover have "mch_refs t (R n) = Some n" using Cons.prems(3) j(2) by (auto simp: nodes_def)
    ultimately show "mch_refs t1 (R n) = Some n" using t1(6) by blast
  qed
  have ks: "\<forall>j\<in>set ks. j < length (bucket_list t1)" "distinct ks" using Cons.prems(2,4) t1(3) by simp_all
  obtain t' where t': "unmap_buckets (\<lambda>_. Some) R ks NEM_SUCCESS x t1 = Some (NEM_SUCCESS, x, t')"
    "mch_inv t' (\<lambda>j. if j \<in> set ks then [] else (B(k := [])) j)" "length (bucket_list t') = length (bucket_list t1)"
    "length (indirection_array t') = length (indirection_array t1)" "mt_rcu t' = mt_rcu t1 @ concat (map (B(k := [])) ks)"
    using Cons.IH[OF t1(2) ks(1) R1 ks(2)] by (elim exE conjE) (rule that)
  have "(\<lambda>j. if j \<in> set ks then [] else (B(k := [])) j) = (\<lambda>j. if j \<in> set (k # ks) then [] else B j)" by auto
  moreover have "concat (map (B(k := [])) ks) = concat (map B ks)" using Cons.prems(4) by (intro arg_cong[of _ _ concat]) auto
  ultimately show ?case using t' t1 bk k by (intro exI[of _ t']) simp
qed (simp add: fun_upd_def)

context nem_table
begin

lemma unmap_all_ok:
  assumes ok: "db_ok D d"
  shows "\<exists>d'. db_unmap_all (\<lambda>_. Some) x d = Some (NEM_SUCCESS, x, d') \<and> db_ok D d' \<and> db_abs d' = Map.empty \<and>
    db_held d' = db_held d \<and> nd_pool d' = nd_pool d \<and> set (db_pending d') = dom (db_held d)"
proof -
  obtain t B where inv: "db_inv D d t B" using ok unfolding db_ok_def by blast
  note m = db_invD(2)[OF inv] and tb = db_invD(1)[OF inv]
  let ?ks = "[0..<unat (buckets t)]"
  have ks: "\<forall>k\<in>set ?ks. k < length (bucket_list t)" using db_invD(6)[OF inv] by simp
  obtain t' where t': "unmap_buckets (\<lambda>_. Some) (entry_ref d) ?ks NEM_SUCCESS x t = Some (NEM_SUCCESS, x, t')"
    "mch_inv t' (\<lambda>k. if k \<in> set ?ks then [] else B k)" "length (bucket_list t') = length (bucket_list t)"
    "length (indirection_array t') = length (indirection_array t)" "mt_rcu t' = mt_rcu t @ concat (map B ?ks)"
    using unmap_buckets_ok[OF m ks, of "entry_ref d" x] node_row(1)[OF inv] by auto
  have "B k = []" if "k \<notin> set ?ks" for k
  proof (rule ccontr)
    assume "B k \<noteq> []"
    then have "hd (B k) \<in> set (B k)" by simp
    then have "k < length (bucket_list t)" using m unfolding mch_inv_def entries_ok_def by blast
    then show False using that db_invD(6)[OF inv] by simp
  qed
  then have "(\<lambda>k. if k \<in> set ?ks then [] else B k) = (\<lambda>_. [])" by auto
  then have inv1: "mch_inv t' (\<lambda>_. [])" using t'(2) by simp
  have bk: "buckets t' = buckets t" using inv1 t'(3) m by (simp add: mch_inv_def word_unat_eq_iff)
  let ?d = "d\<lparr>nd_table := Table t'\<rparr>"
  have rcu: "distinct (mt_rcu t')" "set (mt_rcu t') = set (mt_rcu t) \<union> nodes B"
    using t'(5) db_invD(7,8)[OF inv] distinct_concat_buckets[OF m, of ?ks] set_all_buckets[OF m] by auto
  have inv': "db_inv D ?d t' (\<lambda>_. [])"
    using db_invD(3-5)[OF inv] inv1 t'(4) bk rcu(1) by (simp add: db_inv_def keys_unique_def nodes_def)
  have "db_unmap_all (\<lambda>_. Some) x d = Some (NEM_SUCCESS, x, ?d)" using tb t'(1) by (simp add: db_unmap_all_def)
  moreover have "mch_refs t' r = None" for r using nodes_refs[OF inv1] by (cases r, cases "mch_refs t' r") (auto simp: nodes_def ran_def)
  then have "db_abs ?d = Map.empty" by (simp add: fun_eq_iff db_absE[OF inv'])
  moreover have "db_held ?d = db_held d"
    using rcu(2) by (auto simp: fun_eq_iff db_heldE[OF inv] db_heldE[OF inv'] nodes_def)
  moreover have "set (db_pending ?d) = dom (db_held d)"
    using rcu(2) by (auto simp: db_pending_def db_heldE[OF inv] dom_def)
  moreover have "db_ok D ?d" using inv' unfolding db_ok_def by blast
  ultimately show ?thesis by (intro exI[of _ ?d]) simp
qed

end

section \<open>Creation\<close>

text \<open>The start of a database, with the numbers of entries that \<^verbatim>\<open>nemdb.c\<close> gives. It may fail for lack of
  memory.\<close>

abbreviation (input) nem_entries :: "u32 \<times> u32" where
  "nem_entries \<equiv> (OF_NEM_MAX_NAMESPACE_ENTRIES, OF_NEM_MAX_NAMESPACE_STATIC_ENTRIES)"

lemma nem_params_small: "sz > 8 \<Longrightarrow> small_params (nem_pool_params sz nem_entries)"
  by (simp add: small_params_def nem_pool_params_def)

lemma nem_params_good: "sz > 8 \<Longrightarrow> good_params (nem_pool_params sz nem_entries)"
  by (simp add: good_params_def nem_pool_params_def)

lemma table_init_ok:
  assumes "db_mchash_table_init e nem_entries d = Some (NEM_SUCCESS, d')"
  obtains t where "d' = d\<lparr>nd_buckets := 205, nd_table := Table t\<rparr>" "db_inv D d' t (\<lambda>_. [])" "mch_refs t = Map.empty" "mt_rcu t = []"
proof -
  obtain r where r: "mchash_table_create 205 1024 True (ne_table e) (ne_array_ok e) (ne_links e) = Some r"
    using assms by (auto simp: db_mchash_table_init_def Let_def)
  then obtain t where t: "mchash_table_create 205 1024 True (ne_table e) (ne_array_ok e) (ne_links e) = Some (Created t)"
    "d' = d\<lparr>nd_buckets := 205, nd_table := Table t\<rparr>"
    using assms by (cases r) (auto simp: db_mchash_table_init_def Let_def)
  note c = create_inv[OF t(1)]
  have "buckets t = 205" using c(1,5) by (simp add: mch_inv_def word_unat_eq_iff)
  then have "db_inv D d' t (\<lambda>_. [])" using c t(2) by (simp add: db_inv_def keys_unique_def nodes_def)
  then show thesis using that t(2) c(2,9) by simp
qed

text \<open>What is needed of the allocator: a block for the pool, the table, its array and a first chain of blocks.\<close>

definition good_env :: "nem_env \<Rightarrow> bool" where
  "good_env e \<longleftrightarrow> 8 < ne_size e \<and> ne_pool e \<noteq> None \<and> ne_table e \<noteq> None \<and> ne_array_ok e \<and> ev_chain (ne_mem e) 0 \<noteq> None"

definition fresh_db :: "('i, 'k) nem_desc \<Rightarrow> addr \<Rightarrow> 'i nem_db \<Rightarrow> bool" where
  "fresh_db D a d \<longleftrightarrow> db_ok D d \<and> nd_pool d = Some a \<and> db_abs d = Map.empty \<and> db_held d = Map.empty"

lemma init_step:
  assumes prov: "provider_of 0 m = Some mheap_callbacks" and e: "good_env e" "ne_pool e = Some a"
    and nm: "ds_pool_name D \<notin> pool_names m" "length (ds_pool_name D) \<le> 32"
    and w: "pools_within nem_limit m Hs U" "env_fresh (ne_mem e) U" "Hs a = None"
  obtains d' m' where "db_init D e nem_entries d m = Some (NEM_SUCCESS, d', m')" "fresh_db D a d'"
    "pools_within nem_limit m' (Hs(a \<mapsto> Map.empty)) (U \<union> env_blocks (ne_mem e))" "provider_of 0 m' = Some mheap_callbacks"
    "pool_names m' \<subseteq> insert (ds_pool_name D) (pool_names m)" "pool_has_free m' a"
    "\<forall>c. c \<noteq> a \<longrightarrow> pool_has_free m' c = pool_has_free m c"
proof -
  let ?pp = "nem_pool_params (ne_size e) nem_entries"
  have sz: "8 < ne_size e" "ev_chain (ne_mem e) 0 \<noteq> None" "env_fresh (ne_mem e) {}"
    using e env_fresh_mono[OF w(2), of "{}"] by (simp_all add: good_env_def)
  obtain m1 where m1: "mempool_create_pool (ne_mem e) (Some a) (Some (ds_pool_name D)) (Some ?pp) True m = Some (MEMPOOL_SUCCESS, Some a, m1)"
    "ms_types m1 = ms_types m" "pool_names m1 \<subseteq> insert (take 32 (ds_pool_name D)) (pool_names m)" "pool_has_free m1 a"
    by (rule create_succeeds[OF prov nem_params_good[OF sz(1)] sz(2,3) nm(1)])
  have mx: "unat (pp_max_blocks ?pp) \<le> nem_limit" by (simp add: nem_pool_params_def)
  have w1: "pools_within nem_limit m1 (Hs(a \<mapsto> Map.empty)) (U \<union> env_blocks (ne_mem e))"
    using within_create[OF w(1,3) nem_params_small[OF sz(1)] mx w(2) m1(1)] by simp
  let ?d1 = "d\<lparr>nd_pool := Some a\<rparr>"
  obtain t0 where t0: "db_mchash_table_init e nem_entries ?d1 = Some (NEM_SUCCESS, ?d1\<lparr>nd_buckets := 205, nd_table := Table t0\<rparr>)"
    using e by (auto simp: good_env_def db_mchash_table_init_def Let_def mchash_table_create_def)
  obtain t where t: "?d1\<lparr>nd_buckets := 205, nd_table := Table t0\<rparr> = ?d1\<lparr>nd_buckets := 205, nd_table := Table t\<rparr>"
    "db_inv D (?d1\<lparr>nd_buckets := 205, nd_table := Table t0\<rparr>) t (\<lambda>_. [])" "mch_refs t = Map.empty" "mt_rcu t = []"
    by (rule table_init_ok[OF t0])
  let ?d = "?d1\<lparr>nd_buckets := 205, nd_table := Table t\<rparr>"
  have "db_abs ?d = Map.empty" "db_held ?d = Map.empty" by (rule ext; simp add: t(3,4) db_abs_def db_held_def)+
  then have "fresh_db D a ?d" using t(1,2) unfolding fresh_db_def db_ok_def by auto
  moreover have "db_init D e nem_entries d m = Some (NEM_SUCCESS, ?d, m1)"
    using m1(1) t0 e(2) t(1) by (simp add: db_init_def db_mempool_init_def)
  moreover have "provider_of 0 m1 = Some mheap_callbacks" using prov m1(2) by (simp add: provider_of_def)
  moreover have "pool_names m1 \<subseteq> insert (ds_pool_name D) (pool_names m)" using m1(3) nm(2) by simp
  ultimately show thesis
    using that w1 m1(4) create_keeps_free[OF m1(1) w(1,3) nem_params_small[OF sz(1)] mx w(2)] by blast
qed

section \<open>The hash of the keys\<close>

text \<open>The number of buckets is 205, so that the mask is 204, which has four bits set.\<close>

lemma dobbs_mask:
  "CRM_DOBBS_WORDS4 a b c d i 205 AND NOT 204 = 0"
proof -
  have "(ucast (x AND ucast (205 - 1 :: u32) :: u64) :: u32) AND NOT 204 = 0" for x :: u64
    by (rule bit_word_eqI) (simp add: bit_simps)
  then show ?thesis by (simp add: CRM_DOBBS_WORDS4_def split_def Let_def)
qed

lemma nem_hash_bits: "(h :: u32) AND NOT 204 = 0 \<Longrightarrow>
   h = (if bit h 2 then 4 else 0) OR (if bit h 3 then 8 else 0) OR (if bit h 6 then 64 else 0) OR (if bit h 7 then 128 else 0)"
proof -
  assume z: "h AND NOT 204 = 0"
  have b: "n = 2 \<or> n = 3 \<or> n = 6 \<or> n = 7" if "bit h n" for n
  proof -
    have n: "n < 32" using that bit_imp_le_length by fastforce
    have "\<not> bit (h AND NOT 204) n" using z by simp
    then have "bit (204 :: u32) n" using that n by (auto simp: bit_simps)
    moreover have "list_all (\<lambda>n. bit (204 :: u32) n \<longrightarrow> n \<in> {2, 3, 6, 7}) [0..<32]" by code_simp
    ultimately show ?thesis using n by (auto simp: list_all_iff)
  qed
  have p: "bit (4 :: u32) n \<longleftrightarrow> n = 2" "bit (8 :: u32) n \<longleftrightarrow> n = 3" "bit (64 :: u32) n \<longleftrightarrow> n = 6"
    "bit (128 :: u32) n \<longleftrightarrow> n = 7" for n
    using bit_exp_iff[of 2 n, where 'a = "32 word"] bit_exp_iff[of 3 n, where 'a = "32 word"]
      bit_exp_iff[of 6 n, where 'a = "32 word"] bit_exp_iff[of 7 n, where 'a = "32 word"] by auto
  have "bit h n \<longleftrightarrow> bit ((if bit h 2 then 4 else 0 :: u32) OR (if bit h 3 then 8 else 0) OR (if bit h 6 then 64 else 0) OR (if bit h 7 then 128 else 0)) n" for n
    unfolding bit_or_iff if_distrib[of "\<lambda>w. bit w n"] p using b[of n] by (auto simp: p)
  then show ?thesis by (intro bit_word_eqI)
qed

lemma nem_hash_values: "unat (DPRM_COMPUTE_HASH a b c d 205) \<in> {0, 4, 8, 12, 64, 68, 72, 76, 128, 132, 136, 140, 192, 196, 200, 204}"
proof -
  define h where "h = DPRM_COMPUTE_HASH a b c d 205"
  have "h AND NOT 204 = 0" unfolding h_def DPRM_COMPUTE_HASH_def by (rule dobbs_mask)
  note e = nem_hash_bits[OF this]
  show ?thesis unfolding h_def[symmetric]
    by (subst e) (cases "bit h 2"; cases "bit h 3"; cases "bit h 6"; cases "bit h 7"; simp)
qed

end
