(* ===== verification/Nem_Db.thy ===== *)
theory Nem_Db
  imports Nem_Rows
begin

text \<open>
  The databases of the network element manager: the seven files of \<^verbatim>\<open>ofproto/src/nem\<close> that hold a table each,
  as instances of the operations of \<^verbatim>\<open>Nem_Table\<close>, and the handlers of \<^verbatim>\<open>nemdb.c\<close>, which keep a pair of databases
  for each relation, one per direction.
\<close>

section \<open>Data\<close>

text \<open>The fields \<^verbatim>\<open>port_name\<close> and \<^verbatim>\<open>domain_name\<close> of \<^verbatim>\<open>of_nem_dp_peth_info\<close> are not used; its \<^verbatim>\<open>ns_id\<close> is signed.\<close>

record of_nem_ns_info =
  ni_id :: u32
  ni_name :: string

record of_nem_dp_ns_info =
  dni_ns_id :: u32
  dni_dp_id :: u64
  dni_dp_ns_id :: u16

record of_nem_dp_peth_info =
  pi_dp_id :: u64
  pi_ns_id :: u32
  pi_port_id :: u32
  pi_peth_id :: u32
  pi_peth_name :: string

record of_nem_dpid_dpns_info =
  dd_dp_id :: u64
  dd_dp_ns_id :: u16
  dd_namespace_name :: string

text \<open>The state: the globals of the module, the memory, and the depth of the RCU read lock that the operations
  leave behind, which is zero when they are balanced.\<close>

record nem_sys =
  nem_ns_id_g :: u32
  db_ns_2_nsid :: "of_nem_ns_info nem_db"
  db_nsid_2_ns :: "of_nem_ns_info nem_db"
  db_dpid_2_nsid :: "of_nem_dp_ns_info nem_db"
  db_nsid_2_dpid :: "of_nem_dp_ns_info nem_db"
  db_dpid_2_peth :: "of_nem_dp_peth_info nem_db"
  db_peth_2_dpid :: "of_nem_dp_peth_info nem_db"
  db_dpid_and_dpnsid :: "of_nem_dpid_dpns_info nem_db"
  of_nem_dpid_ns_info_g :: "nem_dpid_ns_info list"
  nem_mem :: mem_sys
  nem_rcu :: int

section \<open>Descriptions\<close>

text \<open>\<^verbatim>\<open>0 > id\<close> is false for an unsigned number.\<close>

definition ns_id_check :: "int \<Rightarrow> u32 \<Rightarrow> int option" where
  "ns_id_check rc ns_id = (if OF_NEM_MAX_NAMESPACE_ENTRIES < ns_id then Some rc else None)"

definition signed_ns_id_check :: "u32 \<Rightarrow> int option" where
  "signed_ns_id_check ns_id = (if sint ns_id < 0 \<or> 1024 < sint ns_id then Some NEM_ERROR_NAME_LENGTH_NOT_ENOUGH else None)"

definition fits :: "nat \<Rightarrow> ('i \<Rightarrow> string) \<Rightarrow> 'i \<Rightarrow> 'i option" where
  "fits n f i = (if length (f i) < n then Some i else None)"

definition ns_2_nsid_desc :: "(of_nem_ns_info, string) nem_desc" where
  "ns_2_nsid_desc = \<lparr>ds_key = ni_name, ds_hash = dprm_get_hashval_byname,
     ds_check = (\<lambda>i. if length (ni_name i) < 3 then Some NEM_ERROR_NAME_LENGTH_NOT_ENOUGH else None), ds_find_check = (\<lambda>_. None),
     ds_missing = NEM_ERROR_INVALID_NAME, ds_copy = fits NEM_MAX_NS_NAME_LEN ni_name, ds_pool_name = ''nem_ns_2_nsid_db_pool''\<rparr>"

definition nsid_2_ns_desc :: "(of_nem_ns_info, u32) nem_desc" where
  "nsid_2_ns_desc = \<lparr>ds_key = ni_id, ds_hash = nem_get_hashval_by_nsid,
     ds_check = (\<lambda>i. ns_id_check NEM_ERROR_NAME_LENGTH_NOT_ENOUGH (ni_id i)), ds_find_check = ns_id_check NEM_ERROR_INVALID_NSID,
     ds_missing = NEM_ERROR_INVALID_NSID, ds_copy = fits NEM_MAX_NS_NAME_LEN ni_name, ds_pool_name = ''nem_nsid_2_ns_db_pool''\<rparr>"

definition dpid_2_nsid_desc :: "(of_nem_dp_ns_info, u64 \<times> u16) nem_desc" where
  "dpid_2_nsid_desc = \<lparr>ds_key = (\<lambda>i. (dni_dp_id i, dni_dp_ns_id i)),
     ds_hash = (\<lambda>(dp_id, dp_ns_id). nem_get_hashval_by_dpid_and_nsid dp_id (ucast dp_ns_id)),
     ds_check = (\<lambda>i. ns_id_check NEM_ERROR_NAME_LENGTH_NOT_ENOUGH (dni_ns_id i)), ds_find_check = (\<lambda>_. None),
     ds_missing = NEM_ERROR_INVALID_NAME, ds_copy = Some, ds_pool_name = ''nem_dpid_2_nsid_db_pool''\<rparr>"

definition nsid_2_dpid_desc :: "(of_nem_dp_ns_info, u32) nem_desc" where
  "nsid_2_dpid_desc = \<lparr>ds_key = dni_ns_id, ds_hash = nem_get_hashval_by_nsid,
     ds_check = (\<lambda>i. ns_id_check NEM_ERROR_NAME_LENGTH_NOT_ENOUGH (dni_ns_id i)), ds_find_check = (\<lambda>_. None),
     ds_missing = NEM_ERROR_INVALID_NAME, ds_copy = Some, ds_pool_name = ''nem_nsid_2_dpid_db_pool''\<rparr>"

definition dpid_2_peth_desc :: "(of_nem_dp_peth_info, u64 \<times> u32) nem_desc" where
  "dpid_2_peth_desc = \<lparr>ds_key = (\<lambda>i. (pi_dp_id i, pi_port_id i)),
     ds_hash = (\<lambda>(dp_id, port_id). nem_get_hashval_by_dpid_and_portid dp_id port_id),
     ds_check = (\<lambda>_. None), ds_find_check = (\<lambda>_. None),
     ds_missing = NEM_ERROR_INVALID_NAME, ds_copy = fits NEM_MAX_IFACE_NAME_LEN pi_peth_name, ds_pool_name = ''nem_dpid_2_peth_db_pool''\<rparr>"

definition peth_2_dpid_desc :: "(of_nem_dp_peth_info, u32 \<times> u32) nem_desc" where
  "peth_2_dpid_desc = \<lparr>ds_key = (\<lambda>i. (pi_ns_id i, pi_peth_id i)),
     ds_hash = (\<lambda>(ns_id, peth_id). nem_get_hashval_by_nsid_and_peth_id ns_id peth_id),
     ds_check = (\<lambda>i. signed_ns_id_check (pi_ns_id i)),
     ds_find_check = (\<lambda>(ns_id, peth_id). if peth_id = 0 then Some NEM_FAILURE else None),
     ds_missing = NEM_ERROR_INVALID_NAME, ds_copy = fits NEM_MAX_IFACE_NAME_LEN pi_peth_name, ds_pool_name = ''nem_peth_2_dpid_db_pool''\<rparr>"

definition dpid_and_dpnsid_desc :: "(of_nem_dpid_dpns_info, u64 \<times> string) nem_desc" where
  "dpid_and_dpnsid_desc = \<lparr>ds_key = (\<lambda>i. (dd_dp_id i, dd_namespace_name i)),
     ds_hash = (\<lambda>(dp_id, name). nem_get_hashval_by_dpid_and_nsname dp_id name),
     ds_check = (\<lambda>_. None), ds_find_check = (\<lambda>_. None),
     ds_missing = NEM_ERROR_INVALID_NAME, ds_copy = fits NEM_MAX_NS_NAME_LEN dd_namespace_name,
     ds_pool_name = ''nem_dpid_and_dpnsid_db_pool''\<rparr>"

section \<open>Operations on the state\<close>

text \<open>A slot is a database of the state, with its description.\<close>

record ('i, 'k) nem_slot =
  sl_desc :: "('i, 'k) nem_desc"
  sl_get :: "nem_sys \<Rightarrow> 'i nem_db"
  sl_put :: "'i nem_db \<Rightarrow> nem_sys \<Rightarrow> nem_sys"

definition slot_mempool_init :: "('i, 'k) nem_slot \<Rightarrow> nem_env \<Rightarrow> nem_sys \<Rightarrow> (int \<times> nem_sys) option" where
  "slot_mempool_init S e s = map_option (\<lambda>(rc, d, m). (rc, sl_put S d (s\<lparr>nem_mem := m\<rparr>)))
     (db_mempool_init (sl_desc S) e nem_entries (sl_get S s) (nem_mem s))"

definition slot_table_init :: "('i, 'k) nem_slot \<Rightarrow> nem_env \<Rightarrow> nem_sys \<Rightarrow> (int \<times> nem_sys) option" where
  "slot_table_init S e s = map_option (\<lambda>(rc, d). (rc, sl_put S d s)) (db_mchash_table_init e nem_entries (sl_get S s))"

definition slot_init :: "('i, 'k) nem_slot \<Rightarrow> nem_env \<Rightarrow> nem_sys \<Rightarrow> (int \<times> nem_sys) option" where
  "slot_init S e s = map_option (\<lambda>(rc, d, m). (rc, sl_put S d (s\<lparr>nem_mem := m\<rparr>)))
     (db_init (sl_desc S) e nem_entries (sl_get S s) (nem_mem s))"

definition slot_deinit :: "('i, 'k) nem_slot \<Rightarrow> nem_sys \<Rightarrow> (int \<times> nem_sys) option" where
  "slot_deinit S s = map_option (\<lambda>(rc, _, d, m). (rc, sl_put S d (s\<lparr>nem_mem := m\<rparr>))) (db_deinit (\<lambda>_. Some) () (sl_get S s) (nem_mem s))"

definition slot_free_rcu :: "('i, 'k) nem_slot \<Rightarrow> nem_env \<Rightarrow> ptr \<Rightarrow> nem_sys \<Rightarrow> nem_sys option" where
  "slot_free_rcu S e n s = (case n of None \<Rightarrow> Some s
     | Some n \<Rightarrow> map_option (\<lambda>m. s\<lparr>nem_mem := m\<rparr>) (db_free_rcu e n (sl_get S s) (nem_mem s)))"

definition slot_map :: "('i, 'k) nem_slot \<Rightarrow> nem_env \<Rightarrow> 'i option \<Rightarrow> nem_sys \<Rightarrow> (int \<times> u64 option \<times> nem_sys) option" where
  "slot_map S e i s = map_option (\<lambda>(rc, h, d, m). (rc, h, sl_put S d (s\<lparr>nem_mem := m\<rparr>)))
     (db_map (sl_desc S) e i (sl_get S s) (nem_mem s))"

definition slot_unmap :: "('i, 'k) nem_slot \<Rightarrow> u64 \<Rightarrow> nem_sys \<Rightarrow> (int \<times> nem_sys) option" where
  "slot_unmap S h s = map_option (\<lambda>(rc, d). (rc, sl_put S d s)) (db_unmap h (sl_get S s))"

definition slot_unmap_all :: "('i, 'k) nem_slot \<Rightarrow> nem_sys \<Rightarrow> (int \<times> nem_sys) option" where
  "slot_unmap_all S s = map_option (\<lambda>(rc, _, d). (rc, sl_put S d s)) (db_unmap_all (\<lambda>_. Some) () (sl_get S s))"

definition slot_handle :: "('i, 'k) nem_slot \<Rightarrow> 'k \<Rightarrow> nem_sys \<Rightarrow> (int \<times> u64 option) option" where
  "slot_handle S k s = db_get_handle (sl_desc S) k (sl_get S s)"

definition slot_exact :: "('i, 'k) nem_slot \<Rightarrow> u64 \<Rightarrow> nem_sys \<Rightarrow> (int \<times> 'i option) option" where
  "slot_exact S h s = db_get_exact h (sl_get S s)"

definition slot_first :: "('i, 'k) nem_slot \<Rightarrow> nem_sys \<Rightarrow> (int \<times> ('i \<times> u64) option) option" where
  "slot_first S s = db_get_first (sl_get S s)"

definition slot_next :: "('i, 'k) nem_slot \<Rightarrow> u64 \<Rightarrow> nem_sys \<Rightarrow> (int \<times> ('i \<times> u64) option) option" where
  "slot_next S h s = db_get_next h (sl_get S s)"

definition slot_lookup :: "('i, 'k) nem_slot \<Rightarrow> int option \<Rightarrow> 'k \<Rightarrow> nem_sys \<Rightarrow> (int \<times> 'i option) option" where
  "slot_lookup S bad k s = db_lookup (sl_desc S) bad k (sl_get S s)"

section \<open>\<^verbatim>\<open>nemns2id.c\<close>\<close>

definition ns_2_nsid_slot :: "(of_nem_ns_info, string) nem_slot" where
  "ns_2_nsid_slot = \<lparr>sl_desc = ns_2_nsid_desc, sl_get = db_ns_2_nsid, sl_put = (\<lambda>d s. s\<lparr>db_ns_2_nsid := d\<rparr>)\<rparr>"

definition nem_ns_2_nsid_db_mempool_init :: "nem_env \<Rightarrow> nem_sys \<Rightarrow> (int \<times> nem_sys) option" where
  "nem_ns_2_nsid_db_mempool_init = slot_mempool_init ns_2_nsid_slot"

definition nem_ns_2_nsid_db_mchash_table_init :: "nem_env \<Rightarrow> nem_sys \<Rightarrow> (int \<times> nem_sys) option" where
  "nem_ns_2_nsid_db_mchash_table_init = slot_table_init ns_2_nsid_slot"

definition nem_ns_2_nsid_db_init :: "nem_env \<Rightarrow> nem_sys \<Rightarrow> (int \<times> nem_sys) option" where
  "nem_ns_2_nsid_db_init = slot_init ns_2_nsid_slot"

definition nem_free_ns_2_nsid_dbentry_rcu :: "nem_env \<Rightarrow> ptr \<Rightarrow> nem_sys \<Rightarrow> nem_sys option" where
  "nem_free_ns_2_nsid_dbentry_rcu = slot_free_rcu ns_2_nsid_slot"

definition nem_map_ns_to_nsid :: "nem_env \<Rightarrow> of_nem_ns_info option \<Rightarrow> nem_sys \<Rightarrow> (int \<times> u64 option \<times> nem_sys) option" where
  "nem_map_ns_to_nsid = slot_map ns_2_nsid_slot"

definition nem_update_ns_to_nsid_map_entry :: "u64 \<Rightarrow> of_nem_ns_info \<Rightarrow> int" where
  "nem_update_ns_to_nsid_map_entry = db_update"

definition nem_unmap_ns_to_nsid :: "u64 \<Rightarrow> nem_sys \<Rightarrow> (int \<times> nem_sys) option" where
  "nem_unmap_ns_to_nsid = slot_unmap ns_2_nsid_slot"

definition nem_ns_to_nsid_unmap_all_entries :: "nem_sys \<Rightarrow> (int \<times> nem_sys) option" where
  "nem_ns_to_nsid_unmap_all_entries = slot_unmap_all ns_2_nsid_slot"

definition nem_ns_2_nsid_db_deinit :: "nem_sys \<Rightarrow> (int \<times> nem_sys) option" where
  "nem_ns_2_nsid_db_deinit = slot_deinit ns_2_nsid_slot"

definition of_nem_ns_2_nsid_db_get_map_entry_handle :: "string \<Rightarrow> nem_sys \<Rightarrow> (int \<times> u64 option) option" where
  "of_nem_ns_2_nsid_db_get_map_entry_handle name = slot_handle ns_2_nsid_slot name"

definition of_nem_ns_2_nsid_db_get_first_map_entry :: "nem_sys \<Rightarrow> (int \<times> (of_nem_ns_info \<times> u64) option) option" where
  "of_nem_ns_2_nsid_db_get_first_map_entry = slot_first ns_2_nsid_slot"

definition of_nem_ns_2_nsid_db_get_next_map_entry :: "u64 \<Rightarrow> nem_sys \<Rightarrow> (int \<times> (of_nem_ns_info \<times> u64) option) option" where
  "of_nem_ns_2_nsid_db_get_next_map_entry = slot_next ns_2_nsid_slot"

definition of_nem_ns_2_nsid_db_get_exact_map_entry :: "u64 \<Rightarrow> nem_sys \<Rightarrow> (int \<times> of_nem_ns_info option) option" where
  "of_nem_ns_2_nsid_db_get_exact_map_entry = slot_exact ns_2_nsid_slot"

definition nem_validate_namespace_and_generate_nsid :: "string option \<Rightarrow> nem_sys \<Rightarrow> (int \<times> u32 option \<times> nem_sys) option" where
  "nem_validate_namespace_and_generate_nsid name s =
    (if nd_table (db_ns_2_nsid s) = No_table then Some (NEM_FAILURE, None, s)
     else case name of None \<Rightarrow> Some (NEM_FAILURE, None, s)
     | Some nm \<Rightarrow> if length nm < 3 then Some (NEM_ERROR_NAME_LENGTH_NOT_ENOUGH, None, s)
       else Option.bind (of_nem_ns_2_nsid_db_get_map_entry_handle nm s) (\<lambda>(rc, _).
         if rc = NEM_SUCCESS then Some (NEM_ERROR_DUPLICATE_RESOURCE, None, s)
         else let nsid = NEM_GENERATE_NS_ID (nem_ns_id_g s) in Some (NEM_SUCCESS, Some nsid, s\<lparr>nem_ns_id_g := nsid\<rparr>)))"

definition of_nem_get_nsid_from_namespace :: "string option \<Rightarrow> nem_sys \<Rightarrow> (int \<times> u32 option) option" where
  "of_nem_get_nsid_from_namespace name s = map_option (apsnd (map_option ni_id))
     (slot_lookup ns_2_nsid_slot (case name of None \<Rightarrow> Some NEM_FAILURE
        | Some nm \<Rightarrow> if length nm < 3 then Some NEM_ERROR_NAME_LENGTH_NOT_ENOUGH else None) (the name) s)"

section \<open>\<^verbatim>\<open>nemid2ns.c\<close>\<close>

definition nsid_2_ns_slot :: "(of_nem_ns_info, u32) nem_slot" where
  "nsid_2_ns_slot = \<lparr>sl_desc = nsid_2_ns_desc, sl_get = db_nsid_2_ns, sl_put = (\<lambda>d s. s\<lparr>db_nsid_2_ns := d\<rparr>)\<rparr>"

definition nem_nsid_2_ns_db_mempool_init :: "nem_env \<Rightarrow> nem_sys \<Rightarrow> (int \<times> nem_sys) option" where
  "nem_nsid_2_ns_db_mempool_init = slot_mempool_init nsid_2_ns_slot"

definition nem_nsid_2_ns_db_mchash_table_init :: "nem_env \<Rightarrow> nem_sys \<Rightarrow> (int \<times> nem_sys) option" where
  "nem_nsid_2_ns_db_mchash_table_init = slot_table_init nsid_2_ns_slot"

definition nem_nsid_2_ns_db_init :: "nem_env \<Rightarrow> nem_sys \<Rightarrow> (int \<times> nem_sys) option" where
  "nem_nsid_2_ns_db_init = slot_init nsid_2_ns_slot"

definition nem_free_nsid_2_ns_dbentry_rcu :: "nem_env \<Rightarrow> ptr \<Rightarrow> nem_sys \<Rightarrow> nem_sys option" where
  "nem_free_nsid_2_ns_dbentry_rcu = slot_free_rcu nsid_2_ns_slot"

definition nem_map_nsid_to_ns :: "nem_env \<Rightarrow> of_nem_ns_info option \<Rightarrow> nem_sys \<Rightarrow> (int \<times> u64 option \<times> nem_sys) option" where
  "nem_map_nsid_to_ns = slot_map nsid_2_ns_slot"

definition nem_update_nsid_to_ns_map_entry :: "u64 \<Rightarrow> of_nem_ns_info \<Rightarrow> int" where
  "nem_update_nsid_to_ns_map_entry = db_update"

definition nem_unmap_nsid_to_ns :: "u64 \<Rightarrow> nem_sys \<Rightarrow> (int \<times> nem_sys) option" where
  "nem_unmap_nsid_to_ns = slot_unmap nsid_2_ns_slot"

definition nem_nsid_to_ns_unmap_all_entries :: "nem_sys \<Rightarrow> (int \<times> nem_sys) option" where
  "nem_nsid_to_ns_unmap_all_entries = slot_unmap_all nsid_2_ns_slot"

definition nem_nsid_2_ns_db_deinit :: "nem_sys \<Rightarrow> (int \<times> nem_sys) option" where
  "nem_nsid_2_ns_db_deinit = slot_deinit nsid_2_ns_slot"

definition of_nem_nsid_2_ns_db_get_map_entry_handle :: "u32 \<Rightarrow> nem_sys \<Rightarrow> (int \<times> u64 option) option" where
  "of_nem_nsid_2_ns_db_get_map_entry_handle ns_id = slot_handle nsid_2_ns_slot ns_id"

definition of_nem_nsid_2_ns_db_get_first_map_entry :: "nem_sys \<Rightarrow> (int \<times> (of_nem_ns_info \<times> u64) option) option" where
  "of_nem_nsid_2_ns_db_get_first_map_entry = slot_first nsid_2_ns_slot"

definition of_nem_nsid_2_ns_db_get_next_map_entry :: "u64 \<Rightarrow> nem_sys \<Rightarrow> (int \<times> (of_nem_ns_info \<times> u64) option) option" where
  "of_nem_nsid_2_ns_db_get_next_map_entry = slot_next nsid_2_ns_slot"

definition of_nem_nsid_2_ns_db_get_exact_map_entry :: "u64 \<Rightarrow> nem_sys \<Rightarrow> (int \<times> of_nem_ns_info option) option" where
  "of_nem_nsid_2_ns_db_get_exact_map_entry = slot_exact nsid_2_ns_slot"

text \<open>The flag tells whether the pointer for the result is not NULL.\<close>

definition of_nem_get_namespace_from_nsid :: "u32 \<Rightarrow> bool \<Rightarrow> nem_sys \<Rightarrow> (int \<times> string option) option" where
  "of_nem_get_namespace_from_nsid ns_id namespace_p s = map_option (apsnd (map_option ni_name))
     (slot_lookup nsid_2_ns_slot (if \<not> namespace_p then Some NEM_FAILURE else ns_id_check NEM_ERROR_NAME_LENGTH_NOT_ENOUGH ns_id) ns_id s)"

section \<open>\<^verbatim>\<open>nemdp2ns.c\<close>\<close>

definition dpid_2_nsid_slot :: "(of_nem_dp_ns_info, u64 \<times> u16) nem_slot" where
  "dpid_2_nsid_slot = \<lparr>sl_desc = dpid_2_nsid_desc, sl_get = db_dpid_2_nsid, sl_put = (\<lambda>d s. s\<lparr>db_dpid_2_nsid := d\<rparr>)\<rparr>"

definition nem_dpid_2_nsid_db_mempool_init :: "nem_env \<Rightarrow> nem_sys \<Rightarrow> (int \<times> nem_sys) option" where
  "nem_dpid_2_nsid_db_mempool_init = slot_mempool_init dpid_2_nsid_slot"

definition nem_dpid_2_nsid_db_mchash_table_init :: "nem_env \<Rightarrow> nem_sys \<Rightarrow> (int \<times> nem_sys) option" where
  "nem_dpid_2_nsid_db_mchash_table_init = slot_table_init dpid_2_nsid_slot"

definition nem_dpid_2_nsid_db_init :: "nem_env \<Rightarrow> nem_sys \<Rightarrow> (int \<times> nem_sys) option" where
  "nem_dpid_2_nsid_db_init = slot_init dpid_2_nsid_slot"

definition nem_free_dpid_2_nsid_dbentry_rcu :: "nem_env \<Rightarrow> ptr \<Rightarrow> nem_sys \<Rightarrow> nem_sys option" where
  "nem_free_dpid_2_nsid_dbentry_rcu = slot_free_rcu dpid_2_nsid_slot"

definition nem_map_dpid_to_nsid :: "nem_env \<Rightarrow> of_nem_dp_ns_info option \<Rightarrow> nem_sys \<Rightarrow> (int \<times> u64 option \<times> nem_sys) option" where
  "nem_map_dpid_to_nsid = slot_map dpid_2_nsid_slot"

definition nem_update_dpid_to_nsid_map_entry :: "u64 \<Rightarrow> of_nem_dp_ns_info \<Rightarrow> int" where
  "nem_update_dpid_to_nsid_map_entry = db_update"

definition nem_unmap_dpid_to_nsid :: "u64 \<Rightarrow> nem_sys \<Rightarrow> (int \<times> nem_sys) option" where
  "nem_unmap_dpid_to_nsid = slot_unmap dpid_2_nsid_slot"

definition nem_dpid_to_nsid_unmap_all_entries :: "nem_sys \<Rightarrow> (int \<times> nem_sys) option" where
  "nem_dpid_to_nsid_unmap_all_entries = slot_unmap_all dpid_2_nsid_slot"

definition nem_dpid_2_nsid_db_deinit :: "nem_sys \<Rightarrow> (int \<times> nem_sys) option" where
  "nem_dpid_2_nsid_db_deinit = slot_deinit dpid_2_nsid_slot"

definition of_nem_dpid_2_nsid_db_get_map_entry_handle :: "u64 \<Rightarrow> u16 \<Rightarrow> nem_sys \<Rightarrow> (int \<times> u64 option) option" where
  "of_nem_dpid_2_nsid_db_get_map_entry_handle dp_id dp_ns_id = slot_handle dpid_2_nsid_slot (dp_id, dp_ns_id)"

definition of_nem_dpid_2_nsid_db_get_first_map_entry :: "nem_sys \<Rightarrow> (int \<times> (of_nem_dp_ns_info \<times> u64) option) option" where
  "of_nem_dpid_2_nsid_db_get_first_map_entry = slot_first dpid_2_nsid_slot"

definition of_nem_dpid_2_nsid_db_get_next_map_entry :: "u64 \<Rightarrow> nem_sys \<Rightarrow> (int \<times> (of_nem_dp_ns_info \<times> u64) option) option" where
  "of_nem_dpid_2_nsid_db_get_next_map_entry = slot_next dpid_2_nsid_slot"

definition of_nem_dpid_2_nsid_db_get_exact_map_entry :: "u64 \<Rightarrow> nem_sys \<Rightarrow> (int \<times> of_nem_dp_ns_info option) option" where
  "of_nem_dpid_2_nsid_db_get_exact_map_entry = slot_exact dpid_2_nsid_slot"

definition of_nem_get_nsid_from_dpid_and_dp_ns_id :: "u64 \<Rightarrow> u16 \<Rightarrow> nem_sys \<Rightarrow> (int \<times> u32 option) option" where
  "of_nem_get_nsid_from_dpid_and_dp_ns_id dp_id dp_ns_id s = map_option (apsnd (map_option dni_ns_id))
     (slot_lookup dpid_2_nsid_slot None (dp_id, dp_ns_id) s)"

section \<open>\<^verbatim>\<open>nemns2dp.c\<close>\<close>

definition nsid_2_dpid_slot :: "(of_nem_dp_ns_info, u32) nem_slot" where
  "nsid_2_dpid_slot = \<lparr>sl_desc = nsid_2_dpid_desc, sl_get = db_nsid_2_dpid, sl_put = (\<lambda>d s. s\<lparr>db_nsid_2_dpid := d\<rparr>)\<rparr>"

definition nem_nsid_2_dpid_db_mempool_init :: "nem_env \<Rightarrow> nem_sys \<Rightarrow> (int \<times> nem_sys) option" where
  "nem_nsid_2_dpid_db_mempool_init = slot_mempool_init nsid_2_dpid_slot"

definition nem_nsid_2_dpid_db_mchash_table_init :: "nem_env \<Rightarrow> nem_sys \<Rightarrow> (int \<times> nem_sys) option" where
  "nem_nsid_2_dpid_db_mchash_table_init = slot_table_init nsid_2_dpid_slot"

definition nem_nsid_2_dpid_db_init :: "nem_env \<Rightarrow> nem_sys \<Rightarrow> (int \<times> nem_sys) option" where
  "nem_nsid_2_dpid_db_init = slot_init nsid_2_dpid_slot"

definition nem_free_nsid_2_dpid_dbentry_rcu :: "nem_env \<Rightarrow> ptr \<Rightarrow> nem_sys \<Rightarrow> nem_sys option" where
  "nem_free_nsid_2_dpid_dbentry_rcu = slot_free_rcu nsid_2_dpid_slot"

definition nem_map_nsid_to_dpid :: "nem_env \<Rightarrow> of_nem_dp_ns_info option \<Rightarrow> nem_sys \<Rightarrow> (int \<times> u64 option \<times> nem_sys) option" where
  "nem_map_nsid_to_dpid = slot_map nsid_2_dpid_slot"

definition nem_update_nsid_to_dpid_map_entry :: "u64 \<Rightarrow> of_nem_dp_ns_info \<Rightarrow> int" where
  "nem_update_nsid_to_dpid_map_entry = db_update"

text \<open>The read lock is released twice when the entry is found.\<close>

definition nem_unmap_nsid_to_dpid :: "u64 \<Rightarrow> nem_sys \<Rightarrow> (int \<times> nem_sys) option" where
  "nem_unmap_nsid_to_dpid h s = map_option (\<lambda>(rc, s1).
     (rc, if rc \<noteq> NEM_ERROR_INVALID_HANDLE \<and> nd_table (db_nsid_2_dpid s) \<noteq> No_table then s1\<lparr>nem_rcu := nem_rcu s1 - 1\<rparr> else s1))
     (slot_unmap nsid_2_dpid_slot h s)"

definition nem_nsid_to_dpid_unmap_all_entries :: "nem_sys \<Rightarrow> (int \<times> nem_sys) option" where
  "nem_nsid_to_dpid_unmap_all_entries = slot_unmap_all nsid_2_dpid_slot"

definition nem_nsid_2_dpid_db_deinit :: "nem_sys \<Rightarrow> (int \<times> nem_sys) option" where
  "nem_nsid_2_dpid_db_deinit = slot_deinit nsid_2_dpid_slot"

definition of_nem_nsid_2_dpid_db_get_map_entry_handle :: "u32 \<Rightarrow> nem_sys \<Rightarrow> (int \<times> u64 option) option" where
  "of_nem_nsid_2_dpid_db_get_map_entry_handle ns_id = slot_handle nsid_2_dpid_slot ns_id"

definition of_nem_nsid_2_dpid_db_get_first_map_entry :: "nem_sys \<Rightarrow> (int \<times> (of_nem_dp_ns_info \<times> u64) option) option" where
  "of_nem_nsid_2_dpid_db_get_first_map_entry = slot_first nsid_2_dpid_slot"

definition of_nem_nsid_2_dpid_db_get_next_map_entry :: "u64 \<Rightarrow> nem_sys \<Rightarrow> (int \<times> (of_nem_dp_ns_info \<times> u64) option) option" where
  "of_nem_nsid_2_dpid_db_get_next_map_entry = slot_next nsid_2_dpid_slot"

definition of_nem_nsid_2_dpid_db_get_exact_map_entry :: "u64 \<Rightarrow> nem_sys \<Rightarrow> (int \<times> of_nem_dp_ns_info option) option" where
  "of_nem_nsid_2_dpid_db_get_exact_map_entry = slot_exact nsid_2_dpid_slot"

definition of_nem_get_dpid_and_dp_ns_id_from_ns_id :: "u32 \<Rightarrow> nem_sys \<Rightarrow> (int \<times> (u64 \<times> u16) option) option" where
  "of_nem_get_dpid_and_dp_ns_id_from_ns_id ns_id s = map_option (apsnd (map_option (\<lambda>i. (dni_dp_id i, dni_dp_ns_id i))))
     (slot_lookup nsid_2_dpid_slot None ns_id s)"

section \<open>\<^verbatim>\<open>nemdp2peth.c\<close>\<close>

definition dpid_2_peth_slot :: "(of_nem_dp_peth_info, u64 \<times> u32) nem_slot" where
  "dpid_2_peth_slot = \<lparr>sl_desc = dpid_2_peth_desc, sl_get = db_dpid_2_peth, sl_put = (\<lambda>d s. s\<lparr>db_dpid_2_peth := d\<rparr>)\<rparr>"

definition nem_dpid_2_peth_db_mempool_init :: "nem_env \<Rightarrow> nem_sys \<Rightarrow> (int \<times> nem_sys) option" where
  "nem_dpid_2_peth_db_mempool_init = slot_mempool_init dpid_2_peth_slot"

definition nem_dpid_2_peth_db_mchash_table_init :: "nem_env \<Rightarrow> nem_sys \<Rightarrow> (int \<times> nem_sys) option" where
  "nem_dpid_2_peth_db_mchash_table_init = slot_table_init dpid_2_peth_slot"

definition nem_dpid_2_peth_db_init :: "nem_env \<Rightarrow> nem_sys \<Rightarrow> (int \<times> nem_sys) option" where
  "nem_dpid_2_peth_db_init = slot_init dpid_2_peth_slot"

definition nem_free_dpid_2_peth_dbentry_rcu :: "nem_env \<Rightarrow> ptr \<Rightarrow> nem_sys \<Rightarrow> nem_sys option" where
  "nem_free_dpid_2_peth_dbentry_rcu = slot_free_rcu dpid_2_peth_slot"

definition nem_map_dpid_to_peth :: "nem_env \<Rightarrow> of_nem_dp_peth_info option \<Rightarrow> nem_sys \<Rightarrow> (int \<times> u64 option \<times> nem_sys) option" where
  "nem_map_dpid_to_peth = slot_map dpid_2_peth_slot"

definition nem_update_dpid_to_peth_map_entry :: "u64 \<Rightarrow> of_nem_dp_peth_info \<Rightarrow> int" where
  "nem_update_dpid_to_peth_map_entry = db_update"

definition nem_unmap_dpid_to_peth :: "u64 \<Rightarrow> nem_sys \<Rightarrow> (int \<times> nem_sys) option" where
  "nem_unmap_dpid_to_peth = slot_unmap dpid_2_peth_slot"

definition nem_dpid_to_peth_unmap_all_entries :: "nem_sys \<Rightarrow> (int \<times> nem_sys) option" where
  "nem_dpid_to_peth_unmap_all_entries = slot_unmap_all dpid_2_peth_slot"

definition nem_dpid_2_peth_db_deinit :: "nem_sys \<Rightarrow> (int \<times> nem_sys) option" where
  "nem_dpid_2_peth_db_deinit = slot_deinit dpid_2_peth_slot"

definition of_nem_dpid_2_peth_db_get_map_entry_handle :: "u64 \<Rightarrow> u32 \<Rightarrow> nem_sys \<Rightarrow> (int \<times> u64 option) option" where
  "of_nem_dpid_2_peth_db_get_map_entry_handle dp_id port_id = slot_handle dpid_2_peth_slot (dp_id, port_id)"

definition of_nem_dpid_2_peth_db_get_first_map_entry :: "nem_sys \<Rightarrow> (int \<times> (of_nem_dp_peth_info \<times> u64) option) option" where
  "of_nem_dpid_2_peth_db_get_first_map_entry = slot_first dpid_2_peth_slot"

definition of_nem_dpid_2_peth_db_get_next_map_entry :: "u64 \<Rightarrow> nem_sys \<Rightarrow> (int \<times> (of_nem_dp_peth_info \<times> u64) option) option" where
  "of_nem_dpid_2_peth_db_get_next_map_entry = slot_next dpid_2_peth_slot"

definition of_nem_dpid_2_peth_db_get_exact_map_entry :: "u64 \<Rightarrow> nem_sys \<Rightarrow> (int \<times> of_nem_dp_peth_info option) option" where
  "of_nem_dpid_2_peth_db_get_exact_map_entry = slot_exact dpid_2_peth_slot"

definition of_nem_get_nsid_and_peth_from_dpid_and_port_id :: "u64 \<Rightarrow> u32 \<Rightarrow> bool \<Rightarrow> nem_sys \<Rightarrow> (int \<times> (u32 \<times> string \<times> u32) option) option" where
  "of_nem_get_nsid_and_peth_from_dpid_and_port_id dp_id port_id peth_name_p s =
     map_option (apsnd (map_option (\<lambda>i. (pi_ns_id i, pi_peth_name i, pi_peth_id i))))
     (slot_lookup dpid_2_peth_slot (if \<not> peth_name_p then Some NEM_FAILURE else None) (dp_id, port_id) s)"

section \<open>\<^verbatim>\<open>nempeth2dp.c\<close>\<close>

definition peth_2_dpid_slot :: "(of_nem_dp_peth_info, u32 \<times> u32) nem_slot" where
  "peth_2_dpid_slot = \<lparr>sl_desc = peth_2_dpid_desc, sl_get = db_peth_2_dpid, sl_put = (\<lambda>d s. s\<lparr>db_peth_2_dpid := d\<rparr>)\<rparr>"

definition nem_peth_2_dpid_db_mempool_init :: "nem_env \<Rightarrow> nem_sys \<Rightarrow> (int \<times> nem_sys) option" where
  "nem_peth_2_dpid_db_mempool_init = slot_mempool_init peth_2_dpid_slot"

definition nem_peth_2_dpid_db_mchash_table_init :: "nem_env \<Rightarrow> nem_sys \<Rightarrow> (int \<times> nem_sys) option" where
  "nem_peth_2_dpid_db_mchash_table_init = slot_table_init peth_2_dpid_slot"

definition nem_peth_2_dpid_db_init :: "nem_env \<Rightarrow> nem_sys \<Rightarrow> (int \<times> nem_sys) option" where
  "nem_peth_2_dpid_db_init = slot_init peth_2_dpid_slot"

definition nem_free_peth_2_dpid_dbentry_rcu :: "nem_env \<Rightarrow> ptr \<Rightarrow> nem_sys \<Rightarrow> nem_sys option" where
  "nem_free_peth_2_dpid_dbentry_rcu = slot_free_rcu peth_2_dpid_slot"

definition nem_map_peth_to_dpid :: "nem_env \<Rightarrow> of_nem_dp_peth_info option \<Rightarrow> nem_sys \<Rightarrow> (int \<times> u64 option \<times> nem_sys) option" where
  "nem_map_peth_to_dpid = slot_map peth_2_dpid_slot"

definition nem_update_peth_to_dpid_map_entry :: "u64 \<Rightarrow> of_nem_dp_peth_info \<Rightarrow> int" where
  "nem_update_peth_to_dpid_map_entry = db_update"

definition nem_unmap_peth_to_dpid :: "u64 \<Rightarrow> nem_sys \<Rightarrow> (int \<times> nem_sys) option" where
  "nem_unmap_peth_to_dpid = slot_unmap peth_2_dpid_slot"

definition nem_peth_to_dpid_unmap_all_entries :: "nem_sys \<Rightarrow> (int \<times> nem_sys) option" where
  "nem_peth_to_dpid_unmap_all_entries = slot_unmap_all peth_2_dpid_slot"

definition nem_peth_2_dpid_db_deinit :: "nem_sys \<Rightarrow> (int \<times> nem_sys) option" where
  "nem_peth_2_dpid_db_deinit = slot_deinit peth_2_dpid_slot"

definition of_nem_peth_2_dpid_db_get_map_entry_handle :: "u32 \<Rightarrow> u32 \<Rightarrow> nem_sys \<Rightarrow> (int \<times> u64 option) option" where
  "of_nem_peth_2_dpid_db_get_map_entry_handle ns_id peth_id = slot_handle peth_2_dpid_slot (ns_id, peth_id)"

text \<open>In this file the field \<^verbatim>\<open>peth_id\<close> of an entry is not copied to the structure of the caller, which keeps the
  number \<open>old\<close> it had there.\<close>

definition keep_peth_id :: "u32 \<Rightarrow> of_nem_dp_peth_info \<Rightarrow> of_nem_dp_peth_info" where
  "keep_peth_id old i = i\<lparr>pi_peth_id := old\<rparr>"

definition of_nem_peth_2_dpid_db_get_first_map_entry :: "u32 \<Rightarrow> nem_sys \<Rightarrow> (int \<times> (of_nem_dp_peth_info \<times> u64) option) option" where
  "of_nem_peth_2_dpid_db_get_first_map_entry old s =
     map_option (apsnd (map_option (apfst (keep_peth_id old)))) (slot_first peth_2_dpid_slot s)"

definition of_nem_peth_2_dpid_db_get_next_map_entry :: "u32 \<Rightarrow> u64 \<Rightarrow> nem_sys \<Rightarrow> (int \<times> (of_nem_dp_peth_info \<times> u64) option) option" where
  "of_nem_peth_2_dpid_db_get_next_map_entry old h s =
     map_option (apsnd (map_option (apfst (keep_peth_id old)))) (slot_next peth_2_dpid_slot h s)"

definition of_nem_peth_2_dpid_db_get_exact_map_entry :: "u32 \<Rightarrow> u64 \<Rightarrow> nem_sys \<Rightarrow> (int \<times> of_nem_dp_peth_info option) option" where
  "of_nem_peth_2_dpid_db_get_exact_map_entry old h s =
     map_option (apsnd (map_option (keep_peth_id old))) (slot_exact peth_2_dpid_slot h s)"

text \<open>The search by name uses a hash of the name, while the entries are linked by the hash of the number.\<close>

definition peth_by_name_desc :: "(of_nem_dp_peth_info, u32 \<times> string option) nem_desc" where
  "peth_by_name_desc = \<lparr>ds_key = (\<lambda>i. (pi_ns_id i, Some (pi_peth_name i))),
     ds_hash = (\<lambda>(ns_id, name). nem_get_hashval_by_nsid_and_peth ns_id (the name)), ds_check = (\<lambda>_. None),
     ds_find_check = (\<lambda>(ns_id, name). if name = None then Some NEM_FAILURE else None),
     ds_missing = NEM_ERROR_INVALID_NAME, ds_copy = Some, ds_pool_name = []\<rparr>"

definition of_nem_peth_2_dpid_db_get_map_entry_handle_by_pethname :: "u32 \<Rightarrow> string option \<Rightarrow> nem_sys \<Rightarrow> (int \<times> u64 option) option" where
  "of_nem_peth_2_dpid_db_get_map_entry_handle_by_pethname ns_id peth_name s =
     db_get_handle peth_by_name_desc (ns_id, peth_name) (db_peth_2_dpid s)"

definition of_nem_get_dpid_and_port_id_from_nsid_and_peth_id :: "u32 \<Rightarrow> u32 \<Rightarrow> nem_sys \<Rightarrow> (int \<times> (u64 \<times> u32) option) option" where
  "of_nem_get_dpid_and_port_id_from_nsid_and_peth_id ns_id peth_id s =
     map_option (apsnd (map_option (\<lambda>i. (pi_dp_id i, pi_port_id i))))
     (slot_lookup peth_2_dpid_slot (if peth_id = 0 then Some NEM_FAILURE else ns_id_check NEM_ERROR_NAME_LENGTH_NOT_ENOUGH ns_id) (ns_id, peth_id) s)"

definition of_nem_get_dpid_and_port_id_from_nsid_and_peth_name :: "u32 \<Rightarrow> string option \<Rightarrow> nem_sys \<Rightarrow> (int \<times> (u64 \<times> u32) option) option" where
  "of_nem_get_dpid_and_port_id_from_nsid_and_peth_name ns_id peth_name s =
     map_option (apsnd (map_option (\<lambda>i. (pi_dp_id i, pi_port_id i))))
     (db_lookup peth_by_name_desc (if peth_name = None then Some NEM_FAILURE else ns_id_check NEM_ERROR_NAME_LENGTH_NOT_ENOUGH ns_id)
        (ns_id, peth_name) (db_peth_2_dpid s))"

section \<open>\<^verbatim>\<open>nemdpnsid.c\<close>\<close>

definition dpid_and_dpnsid_slot :: "(of_nem_dpid_dpns_info, u64 \<times> string) nem_slot" where
  "dpid_and_dpnsid_slot = \<lparr>sl_desc = dpid_and_dpnsid_desc, sl_get = db_dpid_and_dpnsid, sl_put = (\<lambda>d s. s\<lparr>db_dpid_and_dpnsid := d\<rparr>)\<rparr>"

definition nem_dpid_and_dpnsid_db_mempool_init :: "nem_env \<Rightarrow> nem_sys \<Rightarrow> (int \<times> nem_sys) option" where
  "nem_dpid_and_dpnsid_db_mempool_init = slot_mempool_init dpid_and_dpnsid_slot"

definition nem_dpid_and_dpnsid_db_mchash_table_init :: "nem_env \<Rightarrow> nem_sys \<Rightarrow> (int \<times> nem_sys) option" where
  "nem_dpid_and_dpnsid_db_mchash_table_init = slot_table_init dpid_and_dpnsid_slot"

definition nem_dpid_and_dpnsid_db_init :: "nem_env \<Rightarrow> nem_sys \<Rightarrow> (int \<times> nem_sys) option" where
  "nem_dpid_and_dpnsid_db_init = slot_init dpid_and_dpnsid_slot"

definition nem_free_dpid_and_dpnsid_dbentry_rcu :: "nem_env \<Rightarrow> ptr \<Rightarrow> nem_sys \<Rightarrow> nem_sys option" where
  "nem_free_dpid_and_dpnsid_dbentry_rcu = slot_free_rcu dpid_and_dpnsid_slot"

definition nem_map_dpid_to_dpnsid :: "nem_env \<Rightarrow> of_nem_dpid_dpns_info option \<Rightarrow> nem_sys \<Rightarrow> (int \<times> u64 option \<times> nem_sys) option" where
  "nem_map_dpid_to_dpnsid = slot_map dpid_and_dpnsid_slot"

definition nem_update_dpid_to_dpnsid_map_entry :: "u64 \<Rightarrow> of_nem_dpid_dpns_info \<Rightarrow> int" where
  "nem_update_dpid_to_dpnsid_map_entry = db_update"

text \<open>Before an entry is removed its datapath is removed from the array of numbers. If it is not there, the
  read lock is not released.\<close>

definition nem_unmap_dpid_to_dpnsid :: "u64 \<Rightarrow> nem_sys \<Rightarrow> (int \<times> nem_sys) option" where
  "nem_unmap_dpid_to_dpnsid h s =
    (case nd_table (db_dpid_and_dpnsid s) of No_table \<Rightarrow> Some (NEM_FAILURE, s) | Freed_table _ \<Rightarrow> None
     | Table t \<Rightarrow> Option.bind (MCHASH_ACCESS_NODE (index_of h) (magic_of h) t) (\<lambda>r. case r of
           None \<Rightarrow> Some (NEM_ERROR_INVALID_HANDLE, s)
         | Some None \<Rightarrow> None
         | Some (Some n) \<Rightarrow>
             (let (rc, l) = nem_delete_dpid_from_dpid_and_dpnsid_list (dd_dp_id (me_info (nd_entries (db_dpid_and_dpnsid s) n))) (of_nem_dpid_ns_info_g s)
              in if rc \<noteq> NEM_SUCCESS then Some (NEM_FAILURE, s\<lparr>nem_rcu := nem_rcu s + 1\<rparr>)
                 else slot_unmap dpid_and_dpnsid_slot h (s\<lparr>of_nem_dpid_ns_info_g := l\<rparr>))))"

definition dpnsid_forget :: "of_nem_dpid_dpns_info nem_db \<Rightarrow> addr \<Rightarrow> nem_dpid_ns_info list \<Rightarrow> nem_dpid_ns_info list option" where
  "dpnsid_forget d n l = (let (rc, l') = nem_delete_dpid_from_dpid_and_dpnsid_list (dd_dp_id (me_info (nd_entries d n))) l
     in if rc \<noteq> NEM_SUCCESS then None else Some l')"

definition nem_dpid_and_dpnsid_unmap_all_entries :: "nem_sys \<Rightarrow> (int \<times> nem_sys) option" where
  "nem_dpid_and_dpnsid_unmap_all_entries s = map_option (\<lambda>(rc, l, d). (rc, s\<lparr>db_dpid_and_dpnsid := d, of_nem_dpid_ns_info_g := l\<rparr>))
     (db_unmap_all (dpnsid_forget (db_dpid_and_dpnsid s)) (of_nem_dpid_ns_info_g s) (db_dpid_and_dpnsid s))"

definition nem_dpid_and_dpnsid_db_deinit :: "nem_sys \<Rightarrow> (int \<times> nem_sys) option" where
  "nem_dpid_and_dpnsid_db_deinit s =
     map_option (\<lambda>(rc, l, d, m). (rc, s\<lparr>db_dpid_and_dpnsid := d, of_nem_dpid_ns_info_g := l, nem_mem := m\<rparr>))
     (db_deinit (dpnsid_forget (db_dpid_and_dpnsid s)) (of_nem_dpid_ns_info_g s) (db_dpid_and_dpnsid s) (nem_mem s))"

definition nem_dpid_and_dpnsid_db_get_map_entry_handle :: "u64 \<Rightarrow> string \<Rightarrow> nem_sys \<Rightarrow> (int \<times> u64 option) option" where
  "nem_dpid_and_dpnsid_db_get_map_entry_handle dp_id name = slot_handle dpid_and_dpnsid_slot (dp_id, name)"

definition nem_dpid_and_dpnsid_db_get_first_map_entry :: "nem_sys \<Rightarrow> (int \<times> (of_nem_dpid_dpns_info \<times> u64) option) option" where
  "nem_dpid_and_dpnsid_db_get_first_map_entry = slot_first dpid_and_dpnsid_slot"

definition nem_dpid_and_dpnsid_db_get_next_map_entry :: "u64 \<Rightarrow> nem_sys \<Rightarrow> (int \<times> (of_nem_dpid_dpns_info \<times> u64) option) option" where
  "nem_dpid_and_dpnsid_db_get_next_map_entry = slot_next dpid_and_dpnsid_slot"

definition nem_dpid_and_dpnsid_db_get_exact_map_entry :: "u64 \<Rightarrow> nem_sys \<Rightarrow> (int \<times> of_nem_dpid_dpns_info option) option" where
  "nem_dpid_and_dpnsid_db_get_exact_map_entry = slot_exact dpid_and_dpnsid_slot"

definition of_nem_get_dpnsid_from_dpid_and_namespace :: "u64 \<Rightarrow> string option \<Rightarrow> nem_sys \<Rightarrow> (int \<times> u16 option) option" where
  "of_nem_get_dpnsid_from_dpid_and_namespace dp_id name s = map_option (apsnd (map_option dd_dp_ns_id))
     (slot_lookup dpid_and_dpnsid_slot (if name = None then Some NEM_FAILURE else None) (dp_id, the name) s)"

definition nem_validate_namespace_and_generate_dpnsid_for_dpid :: "u64 \<Rightarrow> string option \<Rightarrow> nem_sys \<Rightarrow> (int \<times> u16 option \<times> nem_sys) option" where
  "nem_validate_namespace_and_generate_dpnsid_for_dpid dp_id name s =
    (if nd_table (db_dpid_and_dpnsid s) = No_table then Some (NEM_FAILURE, None, s)
     else case name of None \<Rightarrow> Some (NEM_FAILURE, None, s)
     | Some nm \<Rightarrow> if length nm < 3 then Some (NEM_ERROR_NAME_LENGTH_NOT_ENOUGH, None, s)
       else Option.bind (of_nem_get_dpnsid_from_dpid_and_namespace dp_id name s) (\<lambda>(rc, _).
         if rc = NEM_SUCCESS then Some (NEM_ERROR_DUPLICATE_RESOURCE, None, s)
         else let (rc2, n, l) = nem_generate_dpnsid_for_dpid dp_id (of_nem_dpid_ns_info_g s)
           in if rc2 \<noteq> NEM_SUCCESS then Some (NEM_ERROR_INVALID_HANDLE, None, s)
              else Some (NEM_SUCCESS, n, s\<lparr>of_nem_dpid_ns_info_g := l\<rparr>)))"

section \<open>\<^verbatim>\<open>nemdb.c\<close>\<close>

text \<open>The numbers of entries of each database.\<close>

definition nem_ns_and_nsid_db_get_map_entry_mempoolentries :: "u32 \<times> u32" where
  "nem_ns_and_nsid_db_get_map_entry_mempoolentries = nem_entries"

definition nem_dpid_and_nsid_db_get_map_entry_mempoolentries :: "u32 \<times> u32" where
  "nem_dpid_and_nsid_db_get_map_entry_mempoolentries = nem_entries"

definition nem_dpid_and_peth_db_get_map_entry_mempoolentries :: "u32 \<times> u32" where
  "nem_dpid_and_peth_db_get_map_entry_mempoolentries = nem_entries"

text \<open>The start stops at the first database that fails; what was created before remains. \<open>es\<close> gives what the
  allocator returns for each database. The end runs to completion.\<close>

definition init_then :: "(nem_sys \<Rightarrow> (int \<times> nem_sys) option) \<Rightarrow> (nem_sys \<Rightarrow> (int \<times> nem_sys) option) \<Rightarrow> nem_sys \<Rightarrow> (int \<times> nem_sys) option" where
  "init_then f g s = Option.bind (f s) (\<lambda>(rc, s1). if rc \<noteq> NEM_SUCCESS then Some (NEM_FAILURE, s1) else g s1)"

definition nem_db_init :: "(nat \<Rightarrow> nem_env) \<Rightarrow> nem_sys \<Rightarrow> (int \<times> nem_sys) option" where
  "nem_db_init es = init_then (nem_ns_2_nsid_db_init (es 0)) (init_then (nem_nsid_2_ns_db_init (es 1))
     (init_then (nem_dpid_2_nsid_db_init (es 2)) (init_then (nem_nsid_2_dpid_db_init (es 3))
     (init_then (nem_dpid_2_peth_db_init (es 4)) (init_then (nem_peth_2_dpid_db_init (es 5))
     (init_then (nem_dpid_and_dpnsid_db_init (es 6))
        (\<lambda>s. Some (NEM_SUCCESS, s\<lparr>of_nem_dpid_ns_info_g := nem_dpid_and_dpnsid_list_init\<rparr>))))))))"

definition deinit_then :: "(nem_sys \<Rightarrow> (int \<times> nem_sys) option) \<Rightarrow> (nem_sys \<Rightarrow> (int \<times> nem_sys) option) \<Rightarrow> nem_sys \<Rightarrow> (int \<times> nem_sys) option" where
  "deinit_then f g s = Option.bind (f s) (\<lambda>(rc, s1). map_option (\<lambda>(st, s2). (if rc \<noteq> NEM_SUCCESS then NEM_FAILURE else st, s2)) (g s1))"

definition nem_db_deinit :: "nem_sys \<Rightarrow> (int \<times> nem_sys) option" where
  "nem_db_deinit = deinit_then nem_ns_2_nsid_db_deinit (deinit_then nem_nsid_2_ns_db_deinit
     (deinit_then nem_dpid_2_nsid_db_deinit (deinit_then nem_nsid_2_dpid_db_deinit
     (deinit_then nem_dpid_2_peth_db_deinit (deinit_then nem_peth_2_dpid_db_deinit
     (deinit_then nem_dpid_and_dpnsid_db_deinit (\<lambda>s. Some (NEM_SUCCESS, s))))))))"

text \<open>Mapping in both directions. When the second fails the first is not undone.\<close>

definition map_both ::
  "('i option \<Rightarrow> nem_sys \<Rightarrow> (int \<times> u64 option \<times> nem_sys) option) \<Rightarrow> ('i option \<Rightarrow> nem_sys \<Rightarrow> (int \<times> u64 option \<times> nem_sys) option) \<Rightarrow>
   'i \<Rightarrow> nem_sys \<Rightarrow> (int \<times> nem_sys) option" where
  "map_both f g i s = Option.bind (f (Some i) s) (\<lambda>(rc, _, s1). if rc \<noteq> NEM_SUCCESS then Some (NEM_FAILURE, s1)
     else map_option (\<lambda>(rc2, _, s2). (if rc2 \<noteq> NEM_SUCCESS then NEM_FAILURE else NEM_SUCCESS, s2)) (g (Some i) s1))"

text \<open>The name is copied into an array of the stack.\<close>

definition nem_ns_and_nsid_mapping_handler :: "nem_env \<Rightarrow> nem_env \<Rightarrow> string option \<Rightarrow> u32 \<Rightarrow> nem_sys \<Rightarrow> (int \<times> nem_sys) option" where
  "nem_ns_and_nsid_mapping_handler e1 e2 name ns_id s =
    (case name of None \<Rightarrow> Some (NEM_FAILURE, s)
     | Some nm \<Rightarrow> if NEM_MAX_NS_NAME_LEN \<le> length nm then None
       else map_both (nem_map_ns_to_nsid e1) (nem_map_nsid_to_ns e2) \<lparr>ni_id = ns_id, ni_name = nm\<rparr> s)"

definition nem_dpid_dpnsid_mapping_handler :: "nem_env \<Rightarrow> u64 \<Rightarrow> string option \<Rightarrow> nem_sys \<Rightarrow> (int \<times> u16 option \<times> nem_sys) option" where
  "nem_dpid_dpnsid_mapping_handler e dp_id name s =
    (case name of None \<Rightarrow> Some (NEM_FAILURE, None, s)
     | Some nm \<Rightarrow> Option.bind (nem_validate_namespace_and_generate_dpnsid_for_dpid dp_id name s) (\<lambda>(rc, n, s1).
         if rc \<noteq> NEM_SUCCESS then Some (NEM_FAILURE, n, s1)
         else if NEM_MAX_NS_NAME_LEN \<le> length nm then None
         else case n of None \<Rightarrow> None
         | Some dp_ns_id \<Rightarrow>
           map_option (\<lambda>(rc2, _, s2). (if rc2 \<noteq> NEM_SUCCESS then NEM_FAILURE else NEM_SUCCESS, n, s2))
             (nem_map_dpid_to_dpnsid e (Some \<lparr>dd_dp_id = dp_id, dd_dp_ns_id = dp_ns_id, dd_namespace_name = nm\<rparr>) s1)))"

definition nem_dpid_nsid_mapping_handler :: "nem_env \<Rightarrow> nem_env \<Rightarrow> u64 \<Rightarrow> u16 \<Rightarrow> u32 \<Rightarrow> nem_sys \<Rightarrow> (int \<times> nem_sys) option" where
  "nem_dpid_nsid_mapping_handler e1 e2 dp_id dp_ns_id ns_id =
     map_both (nem_map_dpid_to_nsid e1) (nem_map_nsid_to_dpid e2) \<lparr>dni_ns_id = ns_id, dni_dp_id = dp_id, dni_dp_ns_id = dp_ns_id\<rparr>"

definition nem_dpid_peth_mapping_handler ::
  "nem_env \<Rightarrow> nem_env \<Rightarrow> u64 \<Rightarrow> u32 \<Rightarrow> u32 \<Rightarrow> string option \<Rightarrow> u32 \<Rightarrow> nem_sys \<Rightarrow> (int \<times> nem_sys) option" where
  "nem_dpid_peth_mapping_handler e1 e2 dp_id port_id ns_id peth_name peth_id s =
    (case peth_name of None \<Rightarrow> Some (NEM_FAILURE, s)
     | Some nm \<Rightarrow> if NEM_MAX_IFACE_NAME_LEN \<le> length nm then None
       else map_both (nem_map_dpid_to_peth e1) (nem_map_peth_to_dpid e2)
         \<lparr>pi_dp_id = dp_id, pi_ns_id = ns_id, pi_port_id = port_id, pi_peth_id = peth_id, pi_peth_name = nm\<rparr> s)"

text \<open>The steps of the handlers that unmap: the row of a key is looked up, read if it is needed, and removed.\<close>

definition unmap_row ::
  "(nem_sys \<Rightarrow> (int \<times> u64 option) option) \<Rightarrow> (u64 \<Rightarrow> nem_sys \<Rightarrow> (int \<times> nem_sys) option) \<Rightarrow> nem_sys \<Rightarrow> (int \<times> nem_sys) option" where
  "unmap_row search del s = Option.bind (search s) (\<lambda>(rc, h). if rc \<noteq> NEM_SUCCESS then Some (NEM_FAILURE, s)
     else case h of None \<Rightarrow> None
     | Some h \<Rightarrow> map_option (\<lambda>(rc2, s1). (if rc2 \<noteq> NEM_SUCCESS then NEM_FAILURE else NEM_SUCCESS, s1)) (del h s))"

definition unmap_read ::
  "(nem_sys \<Rightarrow> (int \<times> u64 option) option) \<Rightarrow> (u64 \<Rightarrow> nem_sys \<Rightarrow> (int \<times> 'i option) option) \<Rightarrow>
   (u64 \<Rightarrow> nem_sys \<Rightarrow> (int \<times> nem_sys) option) \<Rightarrow> nem_sys \<Rightarrow> (int \<times> 'i option \<times> nem_sys) option" where
  "unmap_read search exact del s = Option.bind (search s) (\<lambda>(rc, h). if rc \<noteq> NEM_SUCCESS then Some (NEM_FAILURE, None, s)
     else case h of None \<Rightarrow> None
     | Some h \<Rightarrow> Option.bind (exact h s) (\<lambda>(rc2, i). if rc2 \<noteq> NEM_SUCCESS then Some (NEM_FAILURE, None, s)
         else map_option (\<lambda>(rc3, s1). (if rc3 \<noteq> NEM_SUCCESS then NEM_FAILURE else NEM_SUCCESS, i, s1)) (del h s)))"

definition nem_ns_and_nsid_unmapping_handler :: "string option \<Rightarrow> u32 \<Rightarrow> nem_sys \<Rightarrow> (int \<times> nem_sys) option" where
  "nem_ns_and_nsid_unmapping_handler name ns_id s =
    (case name of None \<Rightarrow> Some (NEM_FAILURE, s)
     | Some nm \<Rightarrow> if NEM_MAX_NS_NAME_LEN \<le> length nm then None
       else init_then (unmap_row (of_nem_ns_2_nsid_db_get_map_entry_handle nm) nem_unmap_ns_to_nsid)
         (\<lambda>s1. map_option (\<lambda>(rc, _, s2). (rc, s2))
            (unmap_read (of_nem_nsid_2_ns_db_get_map_entry_handle ns_id) of_nem_nsid_2_ns_db_get_exact_map_entry nem_unmap_nsid_to_ns s1)) s)"

text \<open>The number of the namespace is stored through the pointer only after a success.\<close>

definition nem_dpid_dpnsid_unmapping_handler :: "u64 \<Rightarrow> string option \<Rightarrow> nem_sys \<Rightarrow> (int \<times> u16 option \<times> nem_sys) option" where
  "nem_dpid_dpnsid_unmapping_handler dp_id name s =
    (case name of None \<Rightarrow> Some (NEM_FAILURE, None, s)
     | Some nm \<Rightarrow> map_option (\<lambda>(rc, i, s1). (rc, if rc \<noteq> NEM_SUCCESS then None else map_option dd_dp_ns_id i, s1))
         (unmap_read (nem_dpid_and_dpnsid_db_get_map_entry_handle dp_id nm) nem_dpid_and_dpnsid_db_get_exact_map_entry
            nem_unmap_dpid_to_dpnsid s))"

definition nem_dpid_nsid_unmapping_handler :: "u64 \<Rightarrow> u32 \<Rightarrow> u16 \<Rightarrow> nem_sys \<Rightarrow> (int \<times> nem_sys) option" where
  "nem_dpid_nsid_unmapping_handler dp_id ns_id dp_ns_id =
     init_then (\<lambda>s. map_option (\<lambda>(rc, _, s1). (rc, s1)) (unmap_read (of_nem_dpid_2_nsid_db_get_map_entry_handle dp_id dp_ns_id)
         of_nem_dpid_2_nsid_db_get_exact_map_entry nem_unmap_dpid_to_nsid s))
       (unmap_row (of_nem_nsid_2_dpid_db_get_map_entry_handle ns_id) nem_unmap_nsid_to_dpid)"

text \<open>The entry of the other direction is looked up and left. The name is stored when the entry was read.\<close>

definition nem_dpid_peth_unmapping_handler :: "u64 \<Rightarrow> u32 \<Rightarrow> nem_sys \<Rightarrow> (int \<times> string option \<times> nem_sys) option" where
  "nem_dpid_peth_unmapping_handler dp_id port_id s =
     Option.bind (unmap_read (of_nem_dpid_2_peth_db_get_map_entry_handle dp_id port_id)
         of_nem_dpid_2_peth_db_get_exact_map_entry nem_unmap_dpid_to_peth s) (\<lambda>(rc, i, s1).
       case i of None \<Rightarrow> Some (rc, None, s1)
       | Some i \<Rightarrow> if rc \<noteq> NEM_SUCCESS then Some (rc, Some (pi_peth_name i), s1)
         else map_option (\<lambda>(rc2, _). (if rc2 \<noteq> NEM_SUCCESS then NEM_FAILURE else NEM_SUCCESS, Some (pi_peth_name i), s1))
           (of_nem_peth_2_dpid_db_get_map_entry_handle (pi_ns_id i) (pi_peth_id i) s1))"

end
