(* ===== verification/Nem_Sys.thy ===== *)
theory Nem_Sys
  imports Nem_Db
begin

text \<open>
  The network element manager as a whole: its invariant, the contract of a database in a state that holds
  several (\<open>nem_database\<close>), that of a pair of databases for the two directions of a relation (\<open>nem_pair\<close>), and
  their interpretations on the seven databases and on the handlers of \<^verbatim>\<open>nemdb.c\<close>.
\<close>

section \<open>The contract of a database in a state\<close>

text \<open>\<open>rows\<close> are the rows by handle; what the description \<open>D\<close> says of checks, keys and codes is part of the
  contract.\<close>

locale nem_database =
  fixes D :: "('i, 'k) nem_desc"
    and ok :: "nem_sys \<Rightarrow> bool"
    and fresh :: "nem_env \<Rightarrow> nem_sys \<Rightarrow> bool"
    and room :: "nem_sys \<Rightarrow> bool"
    and rows :: "nem_sys \<Rightarrow> u64 \<rightharpoonup> 'i"
    and add :: "nem_env \<Rightarrow> 'i option \<Rightarrow> nem_sys \<Rightarrow> (int \<times> u64 option \<times> nem_sys) option"
    and search :: "'k \<Rightarrow> nem_sys \<Rightarrow> (int \<times> u64 option) option"
    and exact :: "u64 \<Rightarrow> nem_sys \<Rightarrow> (int \<times> 'i option) option"
    and del :: "u64 \<Rightarrow> nem_sys \<Rightarrow> (int \<times> nem_sys) option"
  assumes add_law: "ok s \<Longrightarrow> fresh e s \<Longrightarrow> ds_copy D i \<noteq> None \<Longrightarrow> \<exists>rc h s'. add e (Some i) s = Some (rc, h, s') \<and> ok s' \<and>
      (case ds_check D i of Some r \<Rightarrow> rc = r \<and> rows s' = rows s
       | None \<Rightarrow>
          if ds_find_check D (ds_key D i) = None \<and> (\<exists>a j. rows s a = Some j \<and> ds_key D j = ds_key D i)
          then rc = NEM_ERROR_DUPLICATE_RESOURCE \<and> rows s' = rows s
          else rc = NEM_FAILURE \<and> rows s' = rows s \<and> \<not> room s \<or>
            rc = NEM_SUCCESS \<and> (\<exists>a. h = Some a \<and> rows s a = None \<and> rows s' = (rows s)(a \<mapsto> i)))"
    and search_law: "ok s \<Longrightarrow> (case ds_find_check D k of Some rc \<Rightarrow> search k s = Some (rc, None)
      | None \<Rightarrow> (\<exists>h i. rows s h = Some i \<and> ds_key D i = k \<and> search k s = Some (NEM_SUCCESS, Some h)) \<or>
         (\<forall>h i. rows s h = Some i \<longrightarrow> ds_key D i \<noteq> k) \<and> search k s = Some (ds_missing D, None))"
    and exact_law: "ok s \<Longrightarrow> rows s h = Some i \<Longrightarrow> exact h s = Some (NEM_SUCCESS, Some i)"
    and del_law: "ok s \<Longrightarrow> rows s h = Some i \<Longrightarrow> \<exists>s'. del h s = Some (NEM_SUCCESS, s') \<and> ok s' \<and> rows s' = (rows s)(h := None)"
    and unique_law: "ok s \<Longrightarrow> rows s h = Some i \<Longrightarrow> rows s h' = Some j \<Longrightarrow> ds_key D i = ds_key D j \<Longrightarrow>
      ds_find_check D (ds_key D i) = None \<Longrightarrow> h = h'"
    and codes_law: "ds_missing D \<noteq> NEM_SUCCESS" "ds_find_check D k = Some rc \<Longrightarrow> rc \<noteq> NEM_SUCCESS"
      "ds_check D i = Some rc \<Longrightarrow> rc \<noteq> NEM_SUCCESS"
begin

lemma search_row:
  assumes "ok s" "rows s h = Some i" "ds_find_check D (ds_key D i) = None"
  shows "search (ds_key D i) s = Some (NEM_SUCCESS, Some h)"
proof -
  have "(\<exists>a j. rows s a = Some j \<and> ds_key D j = ds_key D i \<and> search (ds_key D i) s = Some (NEM_SUCCESS, Some a))"
    using search_law[OF assms(1), of "ds_key D i"] assms(2,3) by auto
  then obtain a j where a: "rows s a = Some j" "ds_key D j = ds_key D i" "search (ds_key D i) s = Some (NEM_SUCCESS, Some a)" by blast
  have "h = a" by (rule unique_law[OF assms(1,2) a(1) a(2)[symmetric] assms(3)])
  then show ?thesis using a(3) by simp
qed

lemma search_none: "ok s \<Longrightarrow> \<forall>h i. rows s h = Some i \<longrightarrow> ds_key D i \<noteq> k \<Longrightarrow> \<exists>rc. rc \<noteq> NEM_SUCCESS \<and> search k s = Some (rc, None)"
  using search_law[of s k] codes_law(1) codes_law(2)[of k] by (cases "ds_find_check D k") auto

lemma unmap_row_present:
  assumes "ok s" "rows s h = Some i" "ds_find_check D (ds_key D i) = None"
  shows "\<exists>s'. unmap_row (search (ds_key D i)) del s = Some (NEM_SUCCESS, s') \<and> del h s = Some (NEM_SUCCESS, s') \<and> ok s' \<and> rows s' = (rows s)(h := None)"
  using search_row[OF assms] del_law[OF assms(1,2)] by (auto simp: unmap_row_def)

lemma unmap_read_present:
  assumes "ok s" "rows s h = Some i" "ds_find_check D (ds_key D i) = None"
  shows "\<exists>s'. unmap_read (search (ds_key D i)) exact del s = Some (NEM_SUCCESS, Some i, s') \<and> del h s = Some (NEM_SUCCESS, s') \<and> ok s' \<and>
    rows s' = (rows s)(h := None)"
  using search_row[OF assms] del_law[OF assms(1,2)] exact_law[OF assms(1,2)] by (auto simp: unmap_read_def)

lemma unmap_absent:
  assumes "ok s" "\<forall>h i. rows s h = Some i \<longrightarrow> ds_key D i \<noteq> k"
  shows "unmap_row (search k) del s = Some (NEM_FAILURE, s)" "unmap_read (search k) exact del s = Some (NEM_FAILURE, None, s)"
  using search_none[OF assms] by (auto simp: unmap_row_def unmap_read_def)

lemma add_succeeds:
  assumes "ok s" "fresh e s" "ds_copy D i \<noteq> None" "ds_check D i = None" "room s"
    "ds_find_check D (ds_key D i) = None \<Longrightarrow> \<forall>a j. rows s a = Some j \<longrightarrow> ds_key D j \<noteq> ds_key D i"
  shows "\<exists>h s'. add e (Some i) s = Some (NEM_SUCCESS, Some h, s') \<and> ok s' \<and> rows s h = None \<and> rows s' = (rows s)(h \<mapsto> i)"
proof -
  have "\<not> (ds_find_check D (ds_key D i) = None \<and> (\<exists>a j. rows s a = Some j \<and> ds_key D j = ds_key D i))" using assms(6) by blast
  then show ?thesis
    using add_law[OF assms(1-3)] assms(5) unfolding assms(4) option.case(1) by (simp only: if_not_P if_False) blast
qed

text \<open>The cases of an addition by its code.\<close>

lemma add_cases:
  assumes "ok s" "fresh e s" "ds_copy D i \<noteq> None"
  obtains (refused) rc h s' where "add e (Some i) s = Some (rc, h, s')" "rc \<noteq> NEM_SUCCESS" "ok s'" "rows s' = rows s"
  | (added) h s' where "add e (Some i) s = Some (NEM_SUCCESS, Some h, s')" "ok s'" "rows s h = None" "rows s' = (rows s)(h \<mapsto> i)"
      "ds_check D i = None" "ds_find_check D (ds_key D i) = None \<Longrightarrow> \<forall>a j. rows s a = Some j \<longrightarrow> ds_key D j \<noteq> ds_key D i"
proof -
  obtain rc h s' where a: "add e (Some i) s = Some (rc, h, s')" "ok s'"
    "case ds_check D i of Some r \<Rightarrow> rc = r \<and> rows s' = rows s
       | None \<Rightarrow>
          if ds_find_check D (ds_key D i) = None \<and> (\<exists>a j. rows s a = Some j \<and> ds_key D j = ds_key D i)
          then rc = NEM_ERROR_DUPLICATE_RESOURCE \<and> rows s' = rows s
          else rc = NEM_FAILURE \<and> rows s' = rows s \<and> \<not> room s \<or>
            rc = NEM_SUCCESS \<and> (\<exists>a. h = Some a \<and> rows s a = None \<and> rows s' = (rows s)(a \<mapsto> i))"
    using add_law[OF assms] by (elim exE conjE) (rule that)
  show thesis
  proof (cases "rc = NEM_SUCCESS")
    case True
    then have "ds_check D i = None" using a(3) codes_law(3)[of i] by (cases "ds_check D i") auto
    then show thesis using a True added[of _ s'] by (auto split: if_splits)
  next
    case False
    then have "rows s' = rows s" using a(3) by (auto split: option.splits if_splits)
    then show thesis using refused a False by blast
  qed
qed

end

section \<open>The contract of a pair\<close>

text \<open>Two databases hold the two directions of a relation when they have the same information.\<close>

locale nem_pair =
  fwd: nem_database D1 ok fresh room1 rows1 add1 search1 exact1 del1 +
  rev: nem_database D2 ok fresh room2 rows2 add2 search2 exact2 del2
  for D1 :: "('i, 'k) nem_desc" and D2 :: "('i, 'l) nem_desc" and ok fresh room1 room2
    and rows1 rows2 :: "nem_sys \<Rightarrow> u64 \<rightharpoonup> 'i" and add1 add2 search1 search2 exact1 exact2 del1 del2 +
  assumes add1_room: "ok s \<Longrightarrow> fresh e s \<Longrightarrow> ds_copy D1 i \<noteq> None \<Longrightarrow> add1 e (Some i) s = Some (rc, h, s') \<Longrightarrow> room2 s' = room2 s"
    and add1_frame: "add1 e k s = Some (rc, h, s') \<Longrightarrow> rows2 s' = rows2 s"
    and add2_frame: "add2 e k s = Some (rc, h, s') \<Longrightarrow> rows1 s' = rows1 s"
    and del1_frame: "del1 a s = Some (rc, s') \<Longrightarrow> rows2 s' = rows2 s"
    and del2_frame: "del2 a s = Some (rc, s') \<Longrightarrow> rows1 s' = rows1 s"
begin

text \<open>What \<open>calloc\<close> returns in the second call is not in use after the first.\<close>

definition fresh2 :: "nem_env \<Rightarrow> nem_env \<Rightarrow> 'i \<Rightarrow> nem_sys \<Rightarrow> bool" where
  "fresh2 e1 e2 i s \<longleftrightarrow> fresh e1 s \<and> (\<forall>rc h s1. add1 e1 (Some i) s = Some (rc, h, s1) \<longrightarrow> fresh e2 s1)"

text \<open>A mapping is added in both directions, in none, or only in the first.\<close>

lemma map_both_cases:
  assumes ok: "ok s" and fr: "fresh2 e1 e2 i s" and cp: "ds_copy D1 i \<noteq> None" "ds_copy D2 i \<noteq> None"
  obtains (both) s' a b where "map_both (add1 e1) (add2 e2) i s = Some (NEM_SUCCESS, s')" "ok s'"
      "rows1 s a = None" "rows1 s' = (rows1 s)(a \<mapsto> i)" "rows2 s b = None" "rows2 s' = (rows2 s)(b \<mapsto> i)"
      "ds_check D1 i = None" "ds_check D2 i = None"
  | (neither) s' where "map_both (add1 e1) (add2 e2) i s = Some (NEM_FAILURE, s')" "ok s'" "rows1 s' = rows1 s" "rows2 s' = rows2 s"
  | (half) s' a where "map_both (add1 e1) (add2 e2) i s = Some (NEM_FAILURE, s')" "ok s'"
      "rows1 s a = None" "rows1 s' = (rows1 s)(a \<mapsto> i)" "rows2 s' = rows2 s" "ds_check D1 i = None"
proof -
  have fr1: "fresh e1 s" using fr by (simp add: fresh2_def)
  from ok fr1 cp(1) show thesis
  proof (cases rule: fwd.add_cases)
    case (refused rc h s1)
    then show thesis using add1_frame[OF refused(1)] by (intro neither[of s1]) (simp_all add: map_both_def)
  next
    case (added h s1)
    note fwd_added = added
    have fr2: "fresh e2 s1" using fr added(1) by (auto simp: fresh2_def)
    have r2: "rows2 s1 = rows2 s" by (rule add1_frame[OF added(1)])
    from added(2) fr2 cp(2) show thesis
    proof (cases rule: rev.add_cases)
      case (refused rc h' s2)
      then show thesis using fwd_added add2_frame[OF refused(1)] r2 by (intro half[of s2 h]) (simp_all add: map_both_def)
    next
      case (added h' s2)
      then show thesis using fwd_added add2_frame[OF added(1)] r2 by (intro both[of s2 h h']) (simp_all add: map_both_def)
    qed
  qed
qed

lemma map_both_refused:
  assumes "ok s" "fresh e1 s" "ds_copy D1 i \<noteq> None" "ds_check D1 i = Some r"
  shows "\<exists>s'. map_both (add1 e1) g i s = Some (NEM_FAILURE, s') \<and> ok s' \<and> rows1 s' = rows1 s \<and> rows2 s' = rows2 s"
proof -
  obtain h s' where a: "add1 e1 (Some i) s = Some (r, h, s')" "ok s'" "rows1 s' = rows1 s"
    using fwd.add_law[OF assms(1-3)] assms(4) by auto
  then show ?thesis using fwd.codes_law(3)[OF assms(4)] add1_frame[OF a(1)] by (auto simp: map_both_def)
qed

text \<open>It is added in both when nothing stands against it.\<close>

lemma map_both_succeeds:
  assumes ok: "ok s" and fr: "fresh2 e1 e2 i s" and cp: "ds_copy D1 i \<noteq> None" "ds_copy D2 i \<noteq> None"
    and c: "ds_check D1 i = None" "ds_check D2 i = None" and room: "room1 s" "room2 s"
    and new: "\<forall>a j. rows1 s a = Some j \<longrightarrow> ds_key D1 j \<noteq> ds_key D1 i" "\<forall>a j. rows2 s a = Some j \<longrightarrow> ds_key D2 j \<noteq> ds_key D2 i"
  obtains s' a b where "map_both (add1 e1) (add2 e2) i s = Some (NEM_SUCCESS, s')" "ok s'"
      "rows1 s a = None" "rows1 s' = (rows1 s)(a \<mapsto> i)" "rows2 s b = None" "rows2 s' = (rows2 s)(b \<mapsto> i)"
proof -
  have fr1: "fresh e1 s" using fr by (simp add: fresh2_def)
  obtain a s1 where a: "add1 e1 (Some i) s = Some (NEM_SUCCESS, Some a, s1)" "ok s1" "rows1 s a = None" "rows1 s1 = (rows1 s)(a \<mapsto> i)"
    using fwd.add_succeeds[OF ok fr1 cp(1) c(1) room(1)] new(1) by blast
  have s1: "fresh e2 s1" "rows2 s1 = rows2 s" "room2 s1"
    using fr a(1) add1_frame[OF a(1)] add1_room[OF ok fr1 cp(1) a(1)] room(2) by (auto simp: fresh2_def)
  obtain b s' where b: "add2 e2 (Some i) s1 = Some (NEM_SUCCESS, Some b, s')" "ok s'" "rows2 s1 b = None" "rows2 s' = (rows2 s1)(b \<mapsto> i)"
    using rev.add_succeeds[OF a(2) s1(1) cp(2) c(2) s1(3)] new(2) s1(2) by auto
  have "map_both (add1 e1) (add2 e2) i s = Some (NEM_SUCCESS, s')" using a(1) b(1) by (simp add: map_both_def)
  then show thesis using that b(2-4) a(3,4) add2_frame[OF b(1)] s1(2) by simp
qed

text \<open>It is left half done when only the second direction refuses it.\<close>

lemma map_both_known:
  assumes "ok s" "fresh e1 s" "ds_copy D1 i \<noteq> None" "ds_check D1 i = None" "ds_find_check D1 (ds_key D1 i) = None"
    "rows1 s a = Some j" "ds_key D1 j = ds_key D1 i"
  shows "\<exists>s'. map_both (add1 e1) g i s = Some (NEM_FAILURE, s') \<and> ok s' \<and> rows1 s' = rows1 s \<and> rows2 s' = rows2 s"
proof -
  have "\<exists>rc h s'. add1 e1 (Some i) s = Some (rc, h, s') \<and> ok s' \<and> rc = NEM_ERROR_DUPLICATE_RESOURCE \<and> rows1 s' = rows1 s"
    using fwd.add_law[OF assms(1-3)] assms(4-7) by (auto split: if_splits)
  then show ?thesis using add1_frame by (fastforce simp: map_both_def)
qed

lemma map_both_half:
  assumes ok: "ok s" and fr: "fresh2 e1 e2 i s" and cp: "ds_copy D1 i \<noteq> None" "ds_copy D2 i \<noteq> None"
    and c: "ds_check D1 i = None" "room1 s" "\<forall>a j. rows1 s a = Some j \<longrightarrow> ds_key D1 j \<noteq> ds_key D1 i"
    and no: "ds_check D2 i \<noteq> None \<or> ds_find_check D2 (ds_key D2 i) = None \<and> (\<exists>b j. rows2 s b = Some j \<and> ds_key D2 j = ds_key D2 i)"
  obtains s' a where "map_both (add1 e1) (add2 e2) i s = Some (NEM_FAILURE, s')" "ok s'"
      "rows1 s a = None" "rows1 s' = (rows1 s)(a \<mapsto> i)" "rows2 s' = rows2 s"
proof -
  have fr1: "fresh e1 s" using fr by (simp add: fresh2_def)
  obtain a s1 where a: "add1 e1 (Some i) s = Some (NEM_SUCCESS, Some a, s1)" "ok s1" "rows1 s a = None" "rows1 s1 = (rows1 s)(a \<mapsto> i)"
    using fwd.add_succeeds[OF ok fr1 cp(1) c(1,2)] c(3) by blast
  have s1: "fresh e2 s1" "rows2 s1 = rows2 s" using fr a(1) add1_frame[OF a(1)] by (auto simp: fresh2_def)
  have "\<exists>rc h s'. add2 e2 (Some i) s1 = Some (rc, h, s') \<and> ok s' \<and> rc \<noteq> NEM_SUCCESS \<and> rows2 s' = rows2 s1"
    using rev.add_law[OF a(2) s1(1) cp(2)] no rev.codes_law(3)[of i] s1(2) by (cases "ds_check D2 i") (auto split: if_splits)
  then obtain rc h s' where b: "add2 e2 (Some i) s1 = Some (rc, h, s')" "ok s'" "rc \<noteq> NEM_SUCCESS" "rows2 s' = rows2 s1" by blast
  have "map_both (add1 e1) (add2 e2) i s = Some (NEM_FAILURE, s')" using a(1) b(1,3) by (simp add: map_both_def)
  then show thesis using that b(2,4) a(3,4) add2_frame[OF b(1)] s1(2) by simp
qed

text \<open>A pair of rows is removed, whichever of the two steps reads the row.\<close>

lemma unmap_both:
  assumes ok: "ok s" and rows: "rows1 s a = Some i" "rows2 s b = Some i"
    and c: "ds_find_check D1 (ds_key D1 i) = None" "ds_find_check D2 (ds_key D2 i) = None"
  obtains s1 s' where "unmap_row (search1 (ds_key D1 i)) del1 s = Some (NEM_SUCCESS, s1)"
    "unmap_read (search1 (ds_key D1 i)) exact1 del1 s = Some (NEM_SUCCESS, Some i, s1)"
    "unmap_row (search2 (ds_key D2 i)) del2 s1 = Some (NEM_SUCCESS, s')"
    "unmap_read (search2 (ds_key D2 i)) exact2 del2 s1 = Some (NEM_SUCCESS, Some i, s')"
    "ok s'" "rows1 s' = (rows1 s)(a := None)" "rows2 s' = (rows2 s)(b := None)"
proof -
  obtain s1 where s1: "unmap_row (search1 (ds_key D1 i)) del1 s = Some (NEM_SUCCESS, s1)" "del1 a s = Some (NEM_SUCCESS, s1)"
    "ok s1" "rows1 s1 = (rows1 s)(a := None)" using fwd.unmap_row_present[OF ok rows(1) c(1)] by auto
  have r1: "unmap_read (search1 (ds_key D1 i)) exact1 del1 s = Some (NEM_SUCCESS, Some i, s1)"
    using fwd.unmap_read_present[OF ok rows(1) c(1)] s1(2) by auto
  have r2: "rows2 s1 = rows2 s" by (rule del1_frame[OF s1(2)])
  then have b: "rows2 s1 b = Some i" using rows(2) by simp
  obtain s' where s': "unmap_row (search2 (ds_key D2 i)) del2 s1 = Some (NEM_SUCCESS, s')" "del2 b s1 = Some (NEM_SUCCESS, s')"
    "ok s'" "rows2 s' = (rows2 s1)(b := None)" using rev.unmap_row_present[OF s1(3) b c(2)] by auto
  have "unmap_read (search2 (ds_key D2 i)) exact2 del2 s1 = Some (NEM_SUCCESS, Some i, s')"
    using rev.unmap_read_present[OF s1(3) b c(2)] s'(2) by auto
  then show thesis using that[OF s1(1) r1 s'(1)] s'(3,4) s1(4) del2_frame[OF s'(2)] r2 by simp
qed

end

section \<open>The invariant\<close>

definition nem_pools :: "nem_sys \<Rightarrow> (addr \<times> (addr \<rightharpoonup> u8)) list" where
  "nem_pools s = [(the (nd_pool (db_ns_2_nsid s)), db_held (db_ns_2_nsid s)), (the (nd_pool (db_nsid_2_ns s)), db_held (db_nsid_2_ns s)),
     (the (nd_pool (db_dpid_2_nsid s)), db_held (db_dpid_2_nsid s)), (the (nd_pool (db_nsid_2_dpid s)), db_held (db_nsid_2_dpid s)),
     (the (nd_pool (db_dpid_2_peth s)), db_held (db_dpid_2_peth s)), (the (nd_pool (db_peth_2_dpid s)), db_held (db_peth_2_dpid s)),
     (the (nd_pool (db_dpid_and_dpnsid s)), db_held (db_dpid_and_dpnsid s))]"

definition nem_held :: "nem_sys \<Rightarrow> holdings" where
  "nem_held s = map_of (nem_pools s)"

definition slot_ok :: "('i, 'k) nem_desc \<Rightarrow> 'i nem_db \<Rightarrow> bool" where
  "slot_ok D d \<longleftrightarrow> db_ok D d \<and> nd_pool d \<noteq> None"

definition nem_inv :: "nem_sys \<Rightarrow> bool" where
  "nem_inv s \<longleftrightarrow> slot_ok ns_2_nsid_desc (db_ns_2_nsid s) \<and> slot_ok nsid_2_ns_desc (db_nsid_2_ns s) \<and>
     slot_ok dpid_2_nsid_desc (db_dpid_2_nsid s) \<and> slot_ok nsid_2_dpid_desc (db_nsid_2_dpid s) \<and>
     slot_ok dpid_2_peth_desc (db_dpid_2_peth s) \<and> slot_ok peth_2_dpid_desc (db_peth_2_dpid s) \<and>
     slot_ok dpid_and_dpnsid_desc (db_dpid_and_dpnsid s) \<and>
     distinct (map fst (nem_pools s)) \<and> pools_ok nem_limit (nem_mem s) (nem_held s) \<and> dpn_ok (of_nem_dpid_ns_info_g s)"

definition nem_fresh :: "nem_env \<Rightarrow> nem_sys \<Rightarrow> bool" where
  "nem_fresh e s \<longleftrightarrow> shared_fresh (ne_mem e) (nem_mem s) (nem_held s)"

lemma length_nem_pools [simp]: "length (nem_pools s) = 7"
  by (simp add: nem_pools_def)

lemma map_of_list_update:
  "distinct (map fst xs) \<Longrightarrow> j < length xs \<Longrightarrow> fst (xs ! j) = p \<Longrightarrow> map_of (xs[j := (p, v)]) = (map_of xs)(p \<mapsto> v)"
proof (induction xs arbitrary: j)
  case (Cons x xs)
  show ?case
  proof (cases j)
    case 0
    then show ?thesis using Cons.prems by (cases x) auto
  next
    case (Suc i)
    then have "map_of (xs[i := (p, v)]) = (map_of xs)(p \<mapsto> v)" "p \<in> fst ` set xs" using Cons by auto
    then show ?thesis using Cons.prems(1) Suc by (cases x) (auto simp: fun_eq_iff)
  qed
qed simp

section \<open>Slots\<close>

text \<open>The pool of a database has a free block.\<close>

definition nem_room :: "(nem_sys \<Rightarrow> 'i nem_db) \<Rightarrow> nem_sys \<Rightarrow> bool" where
  "nem_room db s \<longleftrightarrow> pool_has_free (nem_mem s) (the (nd_pool (db s)))"

locale nem_slot_laws = nem_table "sl_desc S" for S :: "('i, 'k) nem_slot" +
  fixes j :: nat
  assumes get_put: "sl_get S (sl_put S d s) = d"
    and get_mem: "sl_get S (s\<lparr>nem_mem := m\<rparr>) = sl_get S s"
    and pools_get: "j < 7" "nem_pools s ! j = (the (nd_pool (sl_get S s)), db_held (sl_get S s))"
    and pools_put: "nem_pools (sl_put S d (s\<lparr>nem_mem := m\<rparr>)) = (nem_pools s)[j := (the (nd_pool d), db_held d)]"
    and mem_put: "nem_mem (sl_put S d s) = nem_mem s" "of_nem_dpid_ns_info_g (sl_put S d s) = of_nem_dpid_ns_info_g s"
    and inv_slot: "nem_inv s \<Longrightarrow> slot_ok (sl_desc S) (sl_get S s)"
    and inv_put: "nem_inv s \<Longrightarrow> slot_ok (sl_desc S) d \<Longrightarrow> distinct (map fst (nem_pools (sl_put S d (s\<lparr>nem_mem := m\<rparr>)))) \<Longrightarrow>
      pools_ok nem_limit m (nem_held (sl_put S d (s\<lparr>nem_mem := m\<rparr>))) \<Longrightarrow> nem_inv (sl_put S d (s\<lparr>nem_mem := m\<rparr>))"
begin

abbreviation sroom :: "nem_sys \<Rightarrow> bool" where "sroom s \<equiv> nem_room (sl_get S) s"
abbreviation srows :: "nem_sys \<Rightarrow> u64 \<rightharpoonup> 'i" where "srows s \<equiv> db_abs (sl_get S s)"

lemma slot_facts:
  assumes "nem_inv s"
  obtains a where "db_ok (sl_desc S) (sl_get S s)" "nd_pool (sl_get S s) = Some a" "pools_ok nem_limit (nem_mem s) (nem_held s)"
    "nem_held s a = Some (db_held (sl_get S s))"
proof -
  obtain a where a: "db_ok (sl_desc S) (sl_get S s)" "nd_pool (sl_get S s) = Some a" using inv_slot[OF assms] by (auto simp: slot_ok_def)
  have d: "distinct (map fst (nem_pools s))" "pools_ok nem_limit (nem_mem s) (nem_held s)" using assms by (simp_all add: nem_inv_def)
  have "(a, db_held (sl_get S s)) \<in> set (nem_pools s)"
    using pools_get(2)[of s] a(2) nth_mem[of j "nem_pools s"] pools_get(1) by simp
  then have "nem_held s a = Some (db_held (sl_get S s))" unfolding nem_held_def using d(1) by simp
  then show thesis using that a d(2) by blast
qed

lemma slot_db_ok: "nem_inv s \<Longrightarrow> db_ok (sl_desc S) (sl_get S s)"
  using inv_slot by (simp add: slot_ok_def)

lemma put_inv:
  assumes inv: "nem_inv s" and d: "db_ok (sl_desc S) d" "nd_pool d = nd_pool (sl_get S s)" "nd_pool d = Some a"
    and m: "pools_ok nem_limit m ((nem_held s)(a \<mapsto> db_held d))"
  shows "nem_inv (sl_put S d (s\<lparr>nem_mem := m\<rparr>))"
proof -
  let ?s = "sl_put S d (s\<lparr>nem_mem := m\<rparr>)"
  have dist: "distinct (map fst (nem_pools s))" using inv by (simp add: nem_inv_def)
  have "nd_pool (sl_get S s) = Some a" using d(2,3) by simp
  then have j: "j < length (nem_pools s)" "fst (nem_pools s ! j) = a" using pools_get(1) pools_get(2)[of s] by simp_all
  have p: "nem_pools ?s = (nem_pools s)[j := (a, db_held d)]" using pools_put[where d = d and s = s and m = m] d(3) by simp
  have "map fst (nem_pools ?s) = map fst (nem_pools s)"
    unfolding p map_update using j list_update_id[of "map fst (nem_pools s)" j] by simp
  moreover have "nem_held ?s = (nem_held s)(a \<mapsto> db_held d)"
    unfolding nem_held_def p by (rule map_of_list_update[OF dist j])
  moreover have "slot_ok (sl_desc S) d" using d(1,3) by (simp add: slot_ok_def)
  ultimately show ?thesis using inv_put[OF inv, where d = d and m = m] m dist by simp
qed

lemma put_same_inv:
  assumes inv: "nem_inv s" and d: "db_ok (sl_desc S) d" "nd_pool d = nd_pool (sl_get S s)" "db_held d = db_held (sl_get S s)"
  shows "nem_inv (sl_put S d s)"
proof -
  obtain a where a: "nd_pool (sl_get S s) = Some a" "pools_ok nem_limit (nem_mem s) (nem_held s)"
    "nem_held s a = Some (db_held (sl_get S s))" by (rule slot_facts[OF inv])
  have "(nem_held s)(a \<mapsto> db_held d) = nem_held s" using a(3) d(3) by (simp add: map_upd_triv)
  then show ?thesis using put_inv[OF inv d(1,2), of a "nem_mem s"] a d(2) by simp
qed

end

context nem_slot_laws
begin

lemma slot_add:
  assumes inv: "nem_inv s" and fr: "nem_fresh e s" and cp: "ds_copy (sl_desc S) i \<noteq> None"
  shows "\<exists>rc h s'. slot_map S e (Some i) s = Some (rc, h, s') \<and> nem_inv s' \<and>
      (case ds_check (sl_desc S) i of Some r \<Rightarrow> rc = r \<and> srows s' = srows s
       | None \<Rightarrow>
          if ds_find_check (sl_desc S) (ds_key (sl_desc S) i) = None \<and>
             (\<exists>a j. srows s a = Some j \<and> ds_key (sl_desc S) j = ds_key (sl_desc S) i)
          then rc = NEM_ERROR_DUPLICATE_RESOURCE \<and> srows s' = srows s
          else rc = NEM_FAILURE \<and> srows s' = srows s \<and> \<not> sroom s \<or>
            rc = NEM_SUCCESS \<and> (\<exists>a. h = Some a \<and> srows s a = None \<and> srows s' = (srows s)(a \<mapsto> i)))"
proof -
  let ?D = "sl_desc S" and ?d = "sl_get S s"
  obtain a where a: "db_ok ?D ?d" "nd_pool ?d = Some a" "pools_ok nem_limit (nem_mem s) (nem_held s)" "nem_held s a = Some (db_held ?d)"
    by (rule slot_facts[OF inv])
  have same: "nem_inv (sl_put S ?d (s\<lparr>nem_mem := m\<rparr>))" if "pools_ok nem_limit m (nem_held s)" for m
    using put_inv[OF inv a(1) refl a(2), of m] a(4) that by (simp add: map_upd_triv)
  obtain t where tb: "nd_table ?d = Table t" using a(1) unfolding db_ok_def db_inv_def by blast
  show ?thesis
  proof (cases "ds_check ?D i")
    case (Some r)
    then have "slot_map S e (Some i) s = Some (r, None, sl_put S ?d (s\<lparr>nem_mem := nem_mem s\<rparr>))"
      using tb by (simp add: slot_map_def db_map_def)
    then show ?thesis using same[OF a(3)] Some by (simp add: get_put)
  next
    case None
    from a(1-4) fr[unfolded nem_fresh_def] None cp show ?thesis
    proof (cases rule: map_cases)
      case (duplicate h i')
      then have "slot_map S e (Some i) s = Some (NEM_ERROR_DUPLICATE_RESOURCE, Some h, sl_put S ?d (s\<lparr>nem_mem := nem_mem s\<rparr>))"
        by (simp add: slot_map_def)
      moreover have "\<exists>a j. srows s a = Some j \<and> ds_key ?D j = ds_key ?D i" using duplicate(1,2) by blast
      ultimately show ?thesis using same[OF a(3)] None duplicate(3) by (simp add: get_put)
    next
      case (failed m')
      then have "slot_map S e (Some i) s = Some (NEM_FAILURE, None, sl_put S ?d (s\<lparr>nem_mem := m'\<rparr>))" by (simp add: slot_map_def)
      then show ?thesis using same[OF failed(2)] None failed(3,5) a(2) by (auto simp: get_put nem_room_def)
    next
      case (added h d' m')
      have "nem_inv (sl_put S d' (s\<lparr>nem_mem := m'\<rparr>))" by (rule put_inv[OF inv added(2,3)]) (use added a in auto)
      moreover have "slot_map S e (Some i) s = Some (NEM_SUCCESS, Some h, sl_put S d' (s\<lparr>nem_mem := m'\<rparr>))"
        using added(1) by (simp add: slot_map_def)
      ultimately show ?thesis using None added(4,5,8) by (auto simp: get_put)
    qed
  qed
qed

lemma slot_add_room:
  assumes inv: "nem_inv s" and fr: "nem_fresh e s" and cp: "ds_copy (sl_desc S) i \<noteq> None"
    and run: "slot_map S e (Some i) s = Some (rc, h, s')" and db: "db s' = db s" "the (nd_pool (db s)) \<noteq> the (nd_pool (sl_get S s))"
  shows "nem_room db s' = nem_room db s"
proof -
  let ?D = "sl_desc S" and ?d = "sl_get S s"
  obtain a where a: "db_ok ?D ?d" "nd_pool ?d = Some a" "pools_ok nem_limit (nem_mem s) (nem_held s)" "nem_held s a = Some (db_held ?d)"
    by (rule slot_facts[OF inv])
  obtain t where tb: "nd_table ?d = Table t" using a(1) unfolding db_ok_def db_inv_def by blast
  have "\<forall>c. c \<noteq> a \<longrightarrow> pool_has_free (nem_mem s') c = pool_has_free (nem_mem s) c"
  proof (cases "ds_check ?D i")
    case (Some r)
    then show ?thesis using run tb by (auto simp: slot_map_def db_map_def mem_put)
  next
    case None
    from a(1-4) fr[unfolded nem_fresh_def] None cp show ?thesis
      by (cases rule: map_cases) (use run in \<open>auto simp: slot_map_def mem_put\<close>)
  qed
  then show ?thesis using db a(2) by (simp add: nem_room_def)
qed

lemma slot_del:
  assumes inv: "nem_inv s" and h: "handle_in h"
  shows "case srows s h of None \<Rightarrow> slot_unmap S h s = Some (NEM_ERROR_INVALID_HANDLE, sl_put S (sl_get S s) s)
    | Some i \<Rightarrow> (\<exists>s'. slot_unmap S h s = Some (NEM_SUCCESS, s') \<and> nem_inv s' \<and> srows s' = (srows s)(h := None))"
proof -
  note a = slot_db_ok[OF inv]
  from a h show ?thesis
  proof (cases rule: unmap_cases)
    case invalid
    then show ?thesis by (simp add: slot_unmap_def)
  next
    case (removed i d' n)
    then show ?thesis using put_same_inv[OF inv removed(3,6,5)] by (auto simp: slot_unmap_def get_put)
  qed
qed

lemma slot_database:
  "nem_database (sl_desc S) nem_inv nem_fresh sroom srows (slot_map S) (slot_handle S) (slot_exact S) (slot_unmap S)"
proof unfold_locales
  fix s :: nem_sys and h i
  assume inv: "nem_inv s" and h: "srows s h = Some i"
  note a = slot_db_ok[OF inv]
  note hi = abs_handle_in[OF a h]
  show "slot_exact S h s = Some (NEM_SUCCESS, Some i)" using exact_ok[OF a hi] h by (simp add: slot_exact_def)
  show "\<exists>s'. slot_unmap S h s = Some (NEM_SUCCESS, s') \<and> nem_inv s' \<and> srows s' = (srows s)(h := None)"
    using slot_del[OF inv hi] h by simp
next
  fix s :: nem_sys and k
  assume inv: "nem_inv s"
  note a = slot_db_ok[OF inv]
  show "case ds_find_check (sl_desc S) k of Some rc \<Rightarrow> slot_handle S k s = Some (rc, None)
      | None \<Rightarrow> (\<exists>h i. srows s h = Some i \<and> ds_key (sl_desc S) i = k \<and> slot_handle S k s = Some (NEM_SUCCESS, Some h)) \<or>
         (\<forall>h i. srows s h = Some i \<longrightarrow> ds_key (sl_desc S) i \<noteq> k) \<and> slot_handle S k s = Some (ds_missing (sl_desc S), None)"
    using handle_found_ok[OF a, of k] unfolding slot_handle_def .
next
  fix s :: nem_sys and h i h' i'
  assume inv: "nem_inv s" and r: "srows s h = Some i" "srows s h' = Some i'" "ds_key (sl_desc S) i = ds_key (sl_desc S) i'"
    "ds_find_check (sl_desc S) (ds_key (sl_desc S) i) = None"
  note a = slot_db_ok[OF inv]
  show "h = h'" by (rule unique_key[OF a r])
qed (use slot_add error_codes in auto)

end

sublocale nem_slot_laws \<subseteq> db: nem_database "sl_desc S" nem_inv nem_fresh
  "nem_room (sl_get S)" "\<lambda>s. db_abs (sl_get S s)" "slot_map S" "slot_handle S"
  "slot_exact S" "slot_unmap S"
  by (rule slot_database)

section \<open>The seven databases\<close>

lemmas nem_desc_defs = ns_2_nsid_desc_def nsid_2_ns_desc_def dpid_2_nsid_desc_def nsid_2_dpid_desc_def dpid_2_peth_desc_def
  peth_2_dpid_desc_def dpid_and_dpnsid_desc_def

lemmas nem_slot_defs = ns_2_nsid_slot_def nsid_2_ns_slot_def dpid_2_nsid_slot_def nsid_2_dpid_slot_def dpid_2_peth_slot_def
  peth_2_dpid_slot_def dpid_and_dpnsid_slot_def

lemma fits_same: "fits n f i = Some j \<Longrightarrow> j = i"
  by (auto simp: fits_def split: if_splits)

lemma check_codes: "ns_id_check rc n = Some r \<Longrightarrow> r = rc" "signed_ns_id_check n = Some r \<Longrightarrow> r = NEM_ERROR_NAME_LENGTH_NOT_ENOUGH"
  by (auto simp: ns_id_check_def signed_ns_id_check_def split: if_splits)

lemma nem_tables: "nem_table ns_2_nsid_desc"
  "nem_table nsid_2_ns_desc"
  "nem_table dpid_2_nsid_desc"
  "nem_table nsid_2_dpid_desc"
  "nem_table dpid_2_peth_desc"
  "nem_table peth_2_dpid_desc"
  "nem_table dpid_and_dpnsid_desc"
  by (unfold_locales; auto simp: nem_desc_defs nem_hash_defs dprm_hash_bound fits_same dest: check_codes split: if_splits)+

lemmas nem_slot_simps = nem_slot_defs nem_tables

interpretation ns2nsid: nem_slot_laws ns_2_nsid_slot 0
  by (intro nem_slot_laws.intro, simp add: nem_slot_simps, unfold_locales; simp add: nem_slot_simps nem_pools_def nem_inv_def)

interpretation nsid2ns: nem_slot_laws nsid_2_ns_slot 1
  by (intro nem_slot_laws.intro, simp add: nem_slot_simps, unfold_locales; simp add: nem_slot_simps nem_pools_def nem_inv_def)

interpretation dpid2nsid: nem_slot_laws dpid_2_nsid_slot 2
  by (intro nem_slot_laws.intro, simp add: nem_slot_simps, unfold_locales; simp add: nem_slot_simps nem_pools_def nem_inv_def)

interpretation nsid2dpid: nem_slot_laws nsid_2_dpid_slot 3
  by (intro nem_slot_laws.intro, simp add: nem_slot_simps, unfold_locales; simp add: nem_slot_simps nem_pools_def nem_inv_def)

interpretation dpid2peth: nem_slot_laws dpid_2_peth_slot 4
  by (intro nem_slot_laws.intro, simp add: nem_slot_simps, unfold_locales; simp add: nem_slot_simps nem_pools_def nem_inv_def)

interpretation peth2dpid: nem_slot_laws peth_2_dpid_slot 5
  by (intro nem_slot_laws.intro, simp add: nem_slot_simps, unfold_locales; simp add: nem_slot_simps nem_pools_def nem_inv_def)

interpretation dpnsid: nem_slot_laws dpid_and_dpnsid_slot 6
  by (intro nem_slot_laws.intro, simp add: nem_slot_simps, unfold_locales; simp add: nem_slot_simps nem_pools_def nem_inv_def)

section \<open>The databases by their operations\<close>

definition ns_2_nsid_rows :: "nem_sys \<Rightarrow> u64 \<rightharpoonup> of_nem_ns_info" where "ns_2_nsid_rows s = db_abs (db_ns_2_nsid s)"
definition nsid_2_ns_rows :: "nem_sys \<Rightarrow> u64 \<rightharpoonup> of_nem_ns_info" where "nsid_2_ns_rows s = db_abs (db_nsid_2_ns s)"
definition dpid_2_nsid_rows :: "nem_sys \<Rightarrow> u64 \<rightharpoonup> of_nem_dp_ns_info" where "dpid_2_nsid_rows s = db_abs (db_dpid_2_nsid s)"
definition nsid_2_dpid_rows :: "nem_sys \<Rightarrow> u64 \<rightharpoonup> of_nem_dp_ns_info" where "nsid_2_dpid_rows s = db_abs (db_nsid_2_dpid s)"
definition dpid_2_peth_rows :: "nem_sys \<Rightarrow> u64 \<rightharpoonup> of_nem_dp_peth_info" where "dpid_2_peth_rows s = db_abs (db_dpid_2_peth s)"
definition peth_2_dpid_rows :: "nem_sys \<Rightarrow> u64 \<rightharpoonup> of_nem_dp_peth_info" where "peth_2_dpid_rows s = db_abs (db_peth_2_dpid s)"
definition dpnsid_rows :: "nem_sys \<Rightarrow> u64 \<rightharpoonup> of_nem_dpid_dpns_info" where "dpnsid_rows s = db_abs (db_dpid_and_dpnsid s)"

lemmas nem_rows_defs = ns_2_nsid_rows_def nsid_2_ns_rows_def dpid_2_nsid_rows_def nsid_2_dpid_rows_def dpid_2_peth_rows_def
  peth_2_dpid_rows_def dpnsid_rows_def

lemmas nem_op_defs = nem_map_ns_to_nsid_def nem_map_nsid_to_ns_def nem_map_dpid_to_nsid_def nem_map_nsid_to_dpid_def
  nem_map_dpid_to_peth_def nem_map_peth_to_dpid_def nem_map_dpid_to_dpnsid_def
  of_nem_ns_2_nsid_db_get_map_entry_handle_def of_nem_nsid_2_ns_db_get_map_entry_handle_def
  of_nem_dpid_2_nsid_db_get_map_entry_handle_def of_nem_nsid_2_dpid_db_get_map_entry_handle_def
  of_nem_dpid_2_peth_db_get_map_entry_handle_def of_nem_peth_2_dpid_db_get_map_entry_handle_def
  nem_dpid_and_dpnsid_db_get_map_entry_handle_def
  of_nem_ns_2_nsid_db_get_exact_map_entry_def of_nem_nsid_2_ns_db_get_exact_map_entry_def
  of_nem_dpid_2_nsid_db_get_exact_map_entry_def of_nem_nsid_2_dpid_db_get_exact_map_entry_def
  of_nem_dpid_2_peth_db_get_exact_map_entry_def
  nem_dpid_and_dpnsid_db_get_exact_map_entry_def
  nem_unmap_ns_to_nsid_def nem_unmap_nsid_to_ns_def nem_unmap_dpid_to_nsid_def nem_unmap_dpid_to_peth_def
  nem_unmap_peth_to_dpid_def

lemma slot_sel [simp]:
  "sl_desc ns_2_nsid_slot = ns_2_nsid_desc" "sl_get ns_2_nsid_slot = db_ns_2_nsid"
  "sl_desc nsid_2_ns_slot = nsid_2_ns_desc" "sl_get nsid_2_ns_slot = db_nsid_2_ns"
  "sl_desc dpid_2_nsid_slot = dpid_2_nsid_desc" "sl_get dpid_2_nsid_slot = db_dpid_2_nsid"
  "sl_desc nsid_2_dpid_slot = nsid_2_dpid_desc" "sl_get nsid_2_dpid_slot = db_nsid_2_dpid"
  "sl_desc dpid_2_peth_slot = dpid_2_peth_desc" "sl_get dpid_2_peth_slot = db_dpid_2_peth"
  "sl_desc peth_2_dpid_slot = peth_2_dpid_desc" "sl_get peth_2_dpid_slot = db_peth_2_dpid"
  "sl_desc dpid_and_dpnsid_slot = dpid_and_dpnsid_desc" "sl_get dpid_and_dpnsid_slot = db_dpid_and_dpnsid"
  by (simp_all add: nem_slot_defs)

text \<open>The operations whose handle takes two keys are given them as a pair.\<close>

lemma pair_handles:
  "case_prod of_nem_dpid_2_nsid_db_get_map_entry_handle = slot_handle dpid_2_nsid_slot"
  "case_prod of_nem_dpid_2_peth_db_get_map_entry_handle = slot_handle dpid_2_peth_slot"
  "case_prod of_nem_peth_2_dpid_db_get_map_entry_handle = slot_handle peth_2_dpid_slot"
  "case_prod nem_dpid_and_dpnsid_db_get_map_entry_handle = slot_handle dpid_and_dpnsid_slot"
  by (auto simp: fun_eq_iff of_nem_dpid_2_nsid_db_get_map_entry_handle_def of_nem_dpid_2_peth_db_get_map_entry_handle_def
      of_nem_peth_2_dpid_db_get_map_entry_handle_def nem_dpid_and_dpnsid_db_get_map_entry_handle_def)

text \<open>Reading an entry of the database from port numbers to datapaths is stated of the entry itself, of which the
  operation of the code returns all fields but \<^verbatim>\<open>peth_id\<close>.\<close>

lemma nem_databases:
  "nem_database ns_2_nsid_desc nem_inv nem_fresh (nem_room db_ns_2_nsid) ns_2_nsid_rows nem_map_ns_to_nsid of_nem_ns_2_nsid_db_get_map_entry_handle
     of_nem_ns_2_nsid_db_get_exact_map_entry nem_unmap_ns_to_nsid"
  "nem_database nsid_2_ns_desc nem_inv nem_fresh (nem_room db_nsid_2_ns) nsid_2_ns_rows nem_map_nsid_to_ns of_nem_nsid_2_ns_db_get_map_entry_handle
     of_nem_nsid_2_ns_db_get_exact_map_entry nem_unmap_nsid_to_ns"
  "nem_database dpid_2_nsid_desc nem_inv nem_fresh (nem_room db_dpid_2_nsid) dpid_2_nsid_rows nem_map_dpid_to_nsid (case_prod of_nem_dpid_2_nsid_db_get_map_entry_handle)
     of_nem_dpid_2_nsid_db_get_exact_map_entry nem_unmap_dpid_to_nsid"
  "nem_database nsid_2_dpid_desc nem_inv nem_fresh (nem_room db_nsid_2_dpid) nsid_2_dpid_rows nem_map_nsid_to_dpid of_nem_nsid_2_dpid_db_get_map_entry_handle
     of_nem_nsid_2_dpid_db_get_exact_map_entry (slot_unmap nsid_2_dpid_slot)"
  "nem_database dpid_2_peth_desc nem_inv nem_fresh (nem_room db_dpid_2_peth) dpid_2_peth_rows nem_map_dpid_to_peth (case_prod of_nem_dpid_2_peth_db_get_map_entry_handle)
     of_nem_dpid_2_peth_db_get_exact_map_entry nem_unmap_dpid_to_peth"
  "nem_database peth_2_dpid_desc nem_inv nem_fresh (nem_room db_peth_2_dpid) peth_2_dpid_rows nem_map_peth_to_dpid (case_prod of_nem_peth_2_dpid_db_get_map_entry_handle)
     (slot_exact peth_2_dpid_slot) nem_unmap_peth_to_dpid"
  "nem_database dpid_and_dpnsid_desc nem_inv nem_fresh (nem_room db_dpid_and_dpnsid) dpnsid_rows nem_map_dpid_to_dpnsid (case_prod nem_dpid_and_dpnsid_db_get_map_entry_handle)
     nem_dpid_and_dpnsid_db_get_exact_map_entry (slot_unmap dpid_and_dpnsid_slot)"
  using ns2nsid.slot_database nsid2ns.slot_database dpid2nsid.slot_database nsid2dpid.slot_database dpid2peth.slot_database
    peth2dpid.slot_database dpnsid.slot_database
  unfolding pair_handles nem_op_defs nem_rows_defs slot_sel by simp_all

lemma nem_inv_rcu [simp]: "nem_inv (s\<lparr>nem_rcu := r\<rparr>) = nem_inv s"
  by (simp add: nem_inv_def nem_held_def nem_pools_def)

lemma nem_rows_rcu [simp]: "ns_2_nsid_rows (s\<lparr>nem_rcu := r\<rparr>) = ns_2_nsid_rows s" "nsid_2_ns_rows (s\<lparr>nem_rcu := r\<rparr>) = nsid_2_ns_rows s"
  "dpid_2_nsid_rows (s\<lparr>nem_rcu := r\<rparr>) = dpid_2_nsid_rows s" "nsid_2_dpid_rows (s\<lparr>nem_rcu := r\<rparr>) = nsid_2_dpid_rows s"
  "dpid_2_peth_rows (s\<lparr>nem_rcu := r\<rparr>) = dpid_2_peth_rows s" "peth_2_dpid_rows (s\<lparr>nem_rcu := r\<rparr>) = peth_2_dpid_rows s"
  "dpnsid_rows (s\<lparr>nem_rcu := r\<rparr>) = dpnsid_rows s"
  by (simp_all add: nem_rows_defs)

interpretation ns_db: nem_database ns_2_nsid_desc nem_inv nem_fresh "nem_room db_ns_2_nsid" ns_2_nsid_rows nem_map_ns_to_nsid of_nem_ns_2_nsid_db_get_map_entry_handle
     of_nem_ns_2_nsid_db_get_exact_map_entry nem_unmap_ns_to_nsid by (rule nem_databases)

interpretation dpns_db: nem_database dpid_and_dpnsid_desc nem_inv nem_fresh "nem_room db_dpid_and_dpnsid" dpnsid_rows nem_map_dpid_to_dpnsid
     "case_prod nem_dpid_and_dpnsid_db_get_map_entry_handle" nem_dpid_and_dpnsid_db_get_exact_map_entry "slot_unmap dpid_and_dpnsid_slot"
  by (rule nem_databases)


text \<open>The double release of the read lock does not matter for the contract.\<close>

lemma unmap_nsid_to_dpid_del:
  assumes "nem_inv s" "nsid_2_dpid_rows s h = Some i"
  shows "\<exists>s'. nem_unmap_nsid_to_dpid h s = Some (NEM_SUCCESS, s'\<lparr>nem_rcu := nem_rcu s' - 1\<rparr>) \<and>
    slot_unmap nsid_2_dpid_slot h s = Some (NEM_SUCCESS, s')"
proof -
  obtain s' where s': "slot_unmap nsid_2_dpid_slot h s = Some (NEM_SUCCESS, s')"
    using nem_database.del_law[OF nem_databases(4) assms] by blast
  have "nd_table (db_nsid_2_dpid s) \<noteq> No_table" using assms(2) by (auto simp: nsid_2_dpid_rows_def db_abs_def split: table_ptr.splits)
  then show ?thesis using s' by (simp add: nem_unmap_nsid_to_dpid_def)
qed

lemma nsdp_database:
  "nem_database nsid_2_dpid_desc nem_inv nem_fresh (nem_room db_nsid_2_dpid) nsid_2_dpid_rows nem_map_nsid_to_dpid of_nem_nsid_2_dpid_db_get_map_entry_handle
     of_nem_nsid_2_dpid_db_get_exact_map_entry nem_unmap_nsid_to_dpid"
proof (rule nem_database.intro)
  show "\<exists>s'. nem_unmap_nsid_to_dpid h s = Some (NEM_SUCCESS, s') \<and> nem_inv s' \<and> nsid_2_dpid_rows s' = (nsid_2_dpid_rows s)(h := None)"
    if "nem_inv s" "nsid_2_dpid_rows s h = Some i" for s h i
    using unmap_nsid_to_dpid_del[OF that] nem_database.del_law[OF nem_databases(4) that] by auto
qed (use nem_database.add_law[OF nem_databases(4)] nem_database.search_law[OF nem_databases(4)] nem_database.exact_law[OF nem_databases(4)]
    nem_database.unique_law[OF nem_databases(4)] nem_database.codes_law[OF nem_databases(4)] in blast)+

lemma slot_ops_put:
  "slot_map S e i s = Some (rc, h, s') \<Longrightarrow> \<exists>d m. s' = sl_put S d (s\<lparr>nem_mem := m\<rparr>)"
  "slot_unmap S h0 s = Some (rc, s') \<Longrightarrow> \<exists>d. s' = sl_put S d s"
  by (auto simp: slot_map_def slot_unmap_def)

lemma nem_pair_room:
  assumes inv: "nem_inv s"
  shows "nem_fresh e s \<Longrightarrow> ds_copy ns_2_nsid_desc i \<noteq> None \<Longrightarrow> nem_map_ns_to_nsid e (Some i) s = Some (rc, h, s') \<Longrightarrow>
      nem_room db_nsid_2_ns s' = nem_room db_nsid_2_ns s"
    "nem_fresh e s \<Longrightarrow> ds_copy dpid_2_nsid_desc j \<noteq> None \<Longrightarrow> nem_map_dpid_to_nsid e (Some j) s = Some (rc, h, s') \<Longrightarrow>
      nem_room db_nsid_2_dpid s' = nem_room db_nsid_2_dpid s"
    "nem_fresh e s \<Longrightarrow> ds_copy dpid_2_peth_desc k \<noteq> None \<Longrightarrow> nem_map_dpid_to_peth e (Some k) s = Some (rc, h, s') \<Longrightarrow>
      nem_room db_peth_2_dpid s' = nem_room db_peth_2_dpid s"
proof -
  have d: "distinct (map fst (nem_pools s))" using inv by (simp add: nem_inv_def)
  then have ne: "the (nd_pool (db_nsid_2_ns s)) \<noteq> the (nd_pool (db_ns_2_nsid s))"
    "the (nd_pool (db_nsid_2_dpid s)) \<noteq> the (nd_pool (db_dpid_2_nsid s))" "the (nd_pool (db_peth_2_dpid s)) \<noteq> the (nd_pool (db_dpid_2_peth s))"
    by (simp_all add: nem_pools_def eq_commute)
  show "nem_fresh e s \<Longrightarrow> ds_copy ns_2_nsid_desc i \<noteq> None \<Longrightarrow> nem_map_ns_to_nsid e (Some i) s = Some (rc, h, s') \<Longrightarrow>
      nem_room db_nsid_2_ns s' = nem_room db_nsid_2_ns s"
    using ns2nsid.slot_add_room[OF inv, of e i rc h s' db_nsid_2_ns] ne(1) by (auto simp: nem_op_defs nem_slot_defs dest!: slot_ops_put)
  show "nem_fresh e s \<Longrightarrow> ds_copy dpid_2_nsid_desc j \<noteq> None \<Longrightarrow> nem_map_dpid_to_nsid e (Some j) s = Some (rc, h, s') \<Longrightarrow>
      nem_room db_nsid_2_dpid s' = nem_room db_nsid_2_dpid s"
    using dpid2nsid.slot_add_room[OF inv, of e j rc h s' db_nsid_2_dpid] ne(2) by (auto simp: nem_op_defs nem_slot_defs dest!: slot_ops_put)
  show "nem_fresh e s \<Longrightarrow> ds_copy dpid_2_peth_desc k \<noteq> None \<Longrightarrow> nem_map_dpid_to_peth e (Some k) s = Some (rc, h, s') \<Longrightarrow>
      nem_room db_peth_2_dpid s' = nem_room db_peth_2_dpid s"
    using dpid2peth.slot_add_room[OF inv, of e k rc h s' db_peth_2_dpid] ne(3) by (auto simp: nem_op_defs nem_slot_defs dest!: slot_ops_put)
qed

interpretation ns_pair: nem_pair ns_2_nsid_desc nsid_2_ns_desc nem_inv nem_fresh "nem_room db_ns_2_nsid" "nem_room db_nsid_2_ns" ns_2_nsid_rows nsid_2_ns_rows
  nem_map_ns_to_nsid nem_map_nsid_to_ns of_nem_ns_2_nsid_db_get_map_entry_handle of_nem_nsid_2_ns_db_get_map_entry_handle
  of_nem_ns_2_nsid_db_get_exact_map_entry of_nem_nsid_2_ns_db_get_exact_map_entry nem_unmap_ns_to_nsid nem_unmap_nsid_to_ns
  by (intro nem_pair.intro nem_databases nem_pair_axioms.intro; (rule nem_pair_room; assumption)?)
    (auto simp: nem_op_defs nem_rows_defs nem_slot_defs dest!: slot_ops_put)

interpretation dp_pair: nem_pair dpid_2_nsid_desc nsid_2_dpid_desc nem_inv nem_fresh "nem_room db_dpid_2_nsid" "nem_room db_nsid_2_dpid" dpid_2_nsid_rows nsid_2_dpid_rows
  nem_map_dpid_to_nsid nem_map_nsid_to_dpid "case_prod of_nem_dpid_2_nsid_db_get_map_entry_handle" of_nem_nsid_2_dpid_db_get_map_entry_handle
  of_nem_dpid_2_nsid_db_get_exact_map_entry of_nem_nsid_2_dpid_db_get_exact_map_entry nem_unmap_dpid_to_nsid nem_unmap_nsid_to_dpid
  by (intro nem_pair.intro nem_databases nsdp_database nem_pair_axioms.intro; (rule nem_pair_room; assumption)?)
    (auto simp: nem_op_defs nem_rows_defs nem_slot_defs nem_unmap_nsid_to_dpid_def dest!: slot_ops_put split: if_splits)

interpretation peth_pair: nem_pair dpid_2_peth_desc peth_2_dpid_desc nem_inv nem_fresh "nem_room db_dpid_2_peth" "nem_room db_peth_2_dpid" dpid_2_peth_rows peth_2_dpid_rows
  nem_map_dpid_to_peth nem_map_peth_to_dpid "case_prod of_nem_dpid_2_peth_db_get_map_entry_handle"
  "case_prod of_nem_peth_2_dpid_db_get_map_entry_handle"
  of_nem_dpid_2_peth_db_get_exact_map_entry "slot_exact peth_2_dpid_slot" nem_unmap_dpid_to_peth nem_unmap_peth_to_dpid
  by (intro nem_pair.intro nem_databases nem_pair_axioms.intro; (rule nem_pair_room; assumption)?)
    (auto simp: nem_op_defs nem_rows_defs nem_slot_defs dest!: slot_ops_put)

end
