(* ===== verification/Nem_Props.thy ===== *)
theory Nem_Props
  imports Nem_Sys
begin

text \<open>
  The properties of the databases of the network element manager: their start, the relations that the
  handlers keep in pairs of databases, the enumeration of the rows, and the places where the code loses a
  relation.
\<close>

section \<open>Start\<close>

definition nem_pool_names :: "string list" where
  "nem_pool_names = [''nem_ns_2_nsid_db_pool'', ''nem_nsid_2_ns_db_pool'', ''nem_dpid_2_nsid_db_pool'', ''nem_nsid_2_dpid_db_pool'',
     ''nem_dpid_2_peth_db_pool'', ''nem_peth_2_dpid_db_pool'', ''nem_dpid_and_dpnsid_db_pool'']"

text \<open>The allocator serves the seven starts with distinct blocks.\<close>

definition env_used :: "(nat \<Rightarrow> nem_env) \<Rightarrow> nat \<Rightarrow> addr set" where
  "env_used es i = (\<Union>k<i. env_blocks (ne_mem (es k)))"

definition good_envs :: "(nat \<Rightarrow> nem_env) \<Rightarrow> mem_sys \<Rightarrow> bool" where
  "good_envs es m \<longleftrightarrow> provider_of 0 m = Some mheap_callbacks \<and> pool_names m \<inter> set nem_pool_names = {} \<and>
     (\<forall>i<7. good_env (es i) \<and> env_fresh (ne_mem (es i)) (env_used es i)) \<and>
     (\<forall>i<7. \<forall>k<7. i \<noteq> k \<longrightarrow> ne_pool (es i) \<noteq> ne_pool (es k))"

lemma init_thenI: "f s = Some (NEM_SUCCESS, s1) \<Longrightarrow> init_then f g s = g s1"
  by (simp add: init_then_def)

lemma env_used_Suc: "env_used es (Suc i) = env_used es i \<union> env_blocks (ne_mem (es i))"
  by (auto simp: env_used_def less_Suc_eq)

text \<open>All rows of the manager.\<close>

definition nem_empty :: "nem_sys \<Rightarrow> bool" where
  "nem_empty s \<longleftrightarrow> ns_2_nsid_rows s = Map.empty \<and> nsid_2_ns_rows s = Map.empty \<and> dpid_2_nsid_rows s = Map.empty \<and>
     nsid_2_dpid_rows s = Map.empty \<and> dpid_2_peth_rows s = Map.empty \<and> peth_2_dpid_rows s = Map.empty \<and> dpnsid_rows s = Map.empty"

definition nem_ready :: "nem_sys \<Rightarrow> bool" where
  "nem_ready s \<longleftrightarrow> (\<forall>x\<in>set (nem_pools s). pool_has_free (nem_mem s) (fst x))"

text \<open>The state after the start of the first \<open>i\<close> databases.\<close>

definition pool_nth :: "(nat \<Rightarrow> nem_env) \<Rightarrow> nat \<Rightarrow> addr" where
  "pool_nth es i = the (ne_pool (es i))"

definition init_upto :: "(nat \<Rightarrow> nem_env) \<Rightarrow> nem_sys \<Rightarrow> nat \<Rightarrow> nem_sys \<Rightarrow> bool" where
  "init_upto es s0 i s \<longleftrightarrow> provider_of 0 (nem_mem s) = Some mheap_callbacks \<and>
     pools_within nem_limit (nem_mem s) (map_of (take i (nem_pools s))) (env_used es i) \<and>
     map fst (take i (nem_pools s)) = map (pool_nth es) [0..<i] \<and>
     pool_names (nem_mem s) \<subseteq> pool_names (nem_mem s0) \<union> set (take i nem_pool_names) \<and>
     (\<forall>k<i. pool_has_free (nem_mem s) (pool_nth es k)) \<and> nem_ns_id_g s = nem_ns_id_g s0 \<and> nem_rcu s = nem_rcu s0"

lemma good_envsD:
  assumes "good_envs es m" "i < 7"
  shows "good_env (es i)" "ne_pool (es i) = Some (pool_nth es i)" "env_fresh (ne_mem (es i)) (env_used es i)"
    "k < 7 \<Longrightarrow> k \<noteq> i \<Longrightarrow> pool_nth es k \<noteq> pool_nth es i"
proof -
  show "good_env (es i)" "ne_pool (es i) = Some (pool_nth es i)" "env_fresh (ne_mem (es i)) (env_used es i)"
    using assms by (auto simp: good_envs_def good_env_def pool_nth_def)
  assume k: "k < 7" "k \<noteq> i"
  have "ne_pool (es k) \<noteq> ne_pool (es i)" "ne_pool (es k) \<noteq> None" "ne_pool (es i) \<noteq> None"
    using assms k unfolding good_envs_def good_env_def by blast+
  then show "pool_nth es k \<noteq> pool_nth es i" by (auto simp: pool_nth_def)
qed

context nem_slot_laws
begin

lemma slot_init_step:
  assumes g: "good_envs es (nem_mem s0)" and up: "init_upto es s0 j s" and nm: "ds_pool_name (sl_desc S) = nem_pool_names ! j"
    and keep: "\<And>d m. nem_ns_id_g (sl_put S d (s\<lparr>nem_mem := m\<rparr>)) = nem_ns_id_g s \<and> nem_rcu (sl_put S d (s\<lparr>nem_mem := m\<rparr>)) = nem_rcu s"
  obtains d m where "slot_init S (es j) s = Some (NEM_SUCCESS, sl_put S d (s\<lparr>nem_mem := m\<rparr>))" "fresh_db (sl_desc S) (pool_nth es j) d"
    "init_upto es s0 (Suc j) (sl_put S d (s\<lparr>nem_mem := m\<rparr>))"
proof -
  note e = good_envsD[OF g pools_get(1)]
  let ?Hs = "map_of (take j (nem_pools s))" and ?a = "pool_nth es j"
  have u: "provider_of 0 (nem_mem s) = Some mheap_callbacks" "pools_within nem_limit (nem_mem s) ?Hs (env_used es j)"
    "map fst (take j (nem_pools s)) = map (pool_nth es) [0..<j]" "pool_names (nem_mem s) \<subseteq> pool_names (nem_mem s0) \<union> set (take j nem_pool_names)"
    using up by (simp_all add: init_upto_def)
  have len: "length nem_pool_names = 7" "distinct nem_pool_names" "\<forall>n\<in>set nem_pool_names. length n \<le> 32"
    by (simp_all add: nem_pool_names_def)
  have "ds_pool_name (sl_desc S) \<notin> set (take j nem_pool_names)" unfolding nm using len pools_get(1)
    by (auto simp: in_set_conv_nth nth_eq_iff_index_eq)
  moreover have "ds_pool_name (sl_desc S) \<in> set nem_pool_names" unfolding nm using len(1) pools_get(1) by simp
  ultimately have new: "ds_pool_name (sl_desc S) \<notin> pool_names (nem_mem s)" "length (ds_pool_name (sl_desc S)) \<le> 32"
    using u(4) g len(3) unfolding good_envs_def by auto
  have fsts: "fst ` set (take j (nem_pools s)) = pool_nth es ` {0..<j}" using arg_cong[OF u(3), of set] by simp
  have "?a \<notin> fst ` set (take j (nem_pools s))" 
  proof
    assume "?a \<in> fst ` set (take j (nem_pools s))"
    then obtain k where "k < j" "?a = pool_nth es k" unfolding fsts by auto
    then show False using e(4)[of k] pools_get(1) by simp
  qed
  then have na: "?Hs ?a = None" by (simp add: map_of_eq_None_iff)
  obtain d m where d: "db_init (sl_desc S) (es j) nem_entries (sl_get S s) (nem_mem s) = Some (NEM_SUCCESS, d, m)" "fresh_db (sl_desc S) ?a d"
    "pools_within nem_limit m (?Hs(?a \<mapsto> Map.empty)) (env_used es j \<union> env_blocks (ne_mem (es j)))"
    "provider_of 0 m = Some mheap_callbacks" "pool_names m \<subseteq> insert (ds_pool_name (sl_desc S)) (pool_names (nem_mem s))" "pool_has_free m ?a"
    "\<forall>c. c \<noteq> ?a \<longrightarrow> pool_has_free m c = pool_has_free (nem_mem s) c"
    by (rule init_step[OF u(1) e(1,2) new u(2) e(3) na])
  let ?s = "sl_put S d (s\<lparr>nem_mem := m\<rparr>)"
  have "nem_pools ?s = (nem_pools s)[j := (?a, Map.empty)]" using pools_put[where d = d and s = s and m = m] d(2) by (simp add: fresh_db_def)
  then have t: "take (Suc j) (nem_pools ?s) = take j (nem_pools s) @ [(?a, Map.empty)]" using pools_get(1) by (simp add: take_Suc_conv_app_nth)
  have hs: "map_of (take (Suc j) (nem_pools ?s)) = ?Hs(?a \<mapsto> Map.empty)"
    unfolding t using na by (auto simp: fun_eq_iff map_add_def split: option.splits)
  have "init_upto es s0 (Suc j) ?s"
    unfolding init_upto_def hs env_used_Suc
  proof (intro conjI)
    show "map fst (take (Suc j) (nem_pools ?s)) = map (pool_nth es) [0..<Suc j]" unfolding t using u(3) by simp
    show "pool_names (nem_mem ?s) \<subseteq> pool_names (nem_mem s0) \<union> set (take (Suc j) nem_pool_names)"
      using d(5) u(4) nm len(1) pools_get(1) by (auto simp: mem_put take_Suc_conv_app_nth)
    show "\<forall>k<Suc j. pool_has_free (nem_mem ?s) (pool_nth es k)"
    proof (intro allI impI)
      fix k
      assume k: "k < Suc j"
      show "pool_has_free (nem_mem ?s) (pool_nth es k)"
      proof (cases "pool_nth es k = ?a")
        case False
        then have "k < j" using k by (auto simp: less_Suc_eq)
        then show ?thesis using up d(7) False by (simp add: mem_put init_upto_def)
      qed (use d(6) in \<open>simp add: mem_put\<close>)
    qed
  qed (use d keep[of d m] up in \<open>simp_all add: mem_put init_upto_def\<close>)
  moreover have "slot_init S (es j) s = Some (NEM_SUCCESS, ?s)" using d(1) by (simp add: slot_init_def)
  ultimately show thesis using that d(2) by blast
qed

end

lemmas init_slot_simps = nem_slot_defs nem_desc_defs nem_pool_names_def eval_nat_numeral


text \<open>The seven starts in turn.\<close>

lemma nem_init_ok:
  assumes g: "good_envs es (nem_mem s0)"
  obtains s' where "nem_db_init es s0 = Some (NEM_SUCCESS, s')" "nem_inv s'" "nem_empty s'" "nem_ready s'"
    "pools_within nem_limit (nem_mem s') (nem_held s') (env_used es 7)" "of_nem_dpid_ns_info_g s' = nem_dpid_and_dpnsid_list_init"
    "nem_ns_id_g s' = nem_ns_id_g s0" "nem_rcu s' = nem_rcu s0"
proof -
  have w0: "init_upto es s0 0 s0"
    using g by (simp add: init_upto_def good_envs_def pools_within_def pools_inv_def)
  obtain d0 m0 where 0: "slot_init ns_2_nsid_slot (es 0) s0 = Some (NEM_SUCCESS, s0\<lparr>nem_mem := m0, db_ns_2_nsid := d0\<rparr>)"
    "fresh_db ns_2_nsid_desc (pool_nth es 0) d0" "init_upto es s0 1 (s0\<lparr>nem_mem := m0, db_ns_2_nsid := d0\<rparr>)"
    by (rule ns2nsid.slot_init_step[OF g w0]) (simp_all add: init_slot_simps)
  define s1 where "s1 = s0\<lparr>nem_mem := m0, db_ns_2_nsid := d0\<rparr>"
  note r0 = 0[folded s1_def]
  obtain d1 m1 where 1: "slot_init nsid_2_ns_slot (es 1) s1 = Some (NEM_SUCCESS, s1\<lparr>nem_mem := m1, db_nsid_2_ns := d1\<rparr>)"
    "fresh_db nsid_2_ns_desc (pool_nth es 1) d1" "init_upto es s0 2 (s1\<lparr>nem_mem := m1, db_nsid_2_ns := d1\<rparr>)"
    by (rule nsid2ns.slot_init_step[OF g r0(3)]) (simp_all add: init_slot_simps)
  define s2 where "s2 = s1\<lparr>nem_mem := m1, db_nsid_2_ns := d1\<rparr>"
  note r1 = 1[folded s2_def]
  obtain d2 m2 where 2: "slot_init dpid_2_nsid_slot (es 2) s2 = Some (NEM_SUCCESS, s2\<lparr>nem_mem := m2, db_dpid_2_nsid := d2\<rparr>)"
    "fresh_db dpid_2_nsid_desc (pool_nth es 2) d2" "init_upto es s0 3 (s2\<lparr>nem_mem := m2, db_dpid_2_nsid := d2\<rparr>)"
    by (rule dpid2nsid.slot_init_step[OF g r1(3)]) (simp_all add: init_slot_simps)
  define s3 where "s3 = s2\<lparr>nem_mem := m2, db_dpid_2_nsid := d2\<rparr>"
  note r2 = 2[folded s3_def]
  obtain d3 m3 where 3: "slot_init nsid_2_dpid_slot (es 3) s3 = Some (NEM_SUCCESS, s3\<lparr>nem_mem := m3, db_nsid_2_dpid := d3\<rparr>)"
    "fresh_db nsid_2_dpid_desc (pool_nth es 3) d3" "init_upto es s0 4 (s3\<lparr>nem_mem := m3, db_nsid_2_dpid := d3\<rparr>)"
    by (rule nsid2dpid.slot_init_step[OF g r2(3)]) (simp_all add: init_slot_simps)
  define s4 where "s4 = s3\<lparr>nem_mem := m3, db_nsid_2_dpid := d3\<rparr>"
  note r3 = 3[folded s4_def]
  obtain d4 m4 where 4: "slot_init dpid_2_peth_slot (es 4) s4 = Some (NEM_SUCCESS, s4\<lparr>nem_mem := m4, db_dpid_2_peth := d4\<rparr>)"
    "fresh_db dpid_2_peth_desc (pool_nth es 4) d4" "init_upto es s0 5 (s4\<lparr>nem_mem := m4, db_dpid_2_peth := d4\<rparr>)"
    by (rule dpid2peth.slot_init_step[OF g r3(3)]) (simp_all add: init_slot_simps)
  define s5 where "s5 = s4\<lparr>nem_mem := m4, db_dpid_2_peth := d4\<rparr>"
  note r4 = 4[folded s5_def]
  obtain d5 m5 where 5: "slot_init peth_2_dpid_slot (es 5) s5 = Some (NEM_SUCCESS, s5\<lparr>nem_mem := m5, db_peth_2_dpid := d5\<rparr>)"
    "fresh_db peth_2_dpid_desc (pool_nth es 5) d5" "init_upto es s0 6 (s5\<lparr>nem_mem := m5, db_peth_2_dpid := d5\<rparr>)"
    by (rule peth2dpid.slot_init_step[OF g r4(3)]) (simp_all add: init_slot_simps)
  define s6 where "s6 = s5\<lparr>nem_mem := m5, db_peth_2_dpid := d5\<rparr>"
  note r5 = 5[folded s6_def]
  obtain d6 m6 where 6: "slot_init dpid_and_dpnsid_slot (es 6) s6 = Some (NEM_SUCCESS, s6\<lparr>nem_mem := m6, db_dpid_and_dpnsid := d6\<rparr>)"
    "fresh_db dpid_and_dpnsid_desc (pool_nth es 6) d6" "init_upto es s0 7 (s6\<lparr>nem_mem := m6, db_dpid_and_dpnsid := d6\<rparr>)"
    by (rule dpnsid.slot_init_step[OF g r5(3)]) (simp_all add: init_slot_simps)
  define s7 where "s7 = s6\<lparr>nem_mem := m6, db_dpid_and_dpnsid := d6\<rparr>"
  note r6 = 6[folded s7_def]
  let ?s = "s7\<lparr>of_nem_dpid_ns_info_g := nem_dpid_and_dpnsid_list_init\<rparr>"
  note s_defs = s7_def s6_def s5_def s4_def s3_def s2_def s1_def
  note fresh = 0(2) 1(2) 2(2) 3(2) 4(2) 5(2) 6(2)
  have run: "nem_db_init es s0 = Some (NEM_SUCCESS, ?s)"
    using r0(1) r1(1) r2(1) r3(1) r4(1) r5(1) r6(1)
    by (simp add: nem_db_init_def nem_ns_2_nsid_db_init_def nem_nsid_2_ns_db_init_def nem_dpid_2_nsid_db_init_def nem_nsid_2_dpid_db_init_def
        nem_dpid_2_peth_db_init_def nem_peth_2_dpid_db_init_def nem_dpid_and_dpnsid_db_init_def init_thenI)
  have dbs: "db_ns_2_nsid ?s = d0" "db_nsid_2_ns ?s = d1" "db_dpid_2_nsid ?s = d2" "db_nsid_2_dpid ?s = d3" "db_dpid_2_peth ?s = d4"
    "db_peth_2_dpid ?s = d5" "db_dpid_and_dpnsid ?s = d6" by (simp_all add: s_defs)
  have pools: "nem_pools ?s = nem_pools s7" by (simp add: nem_pools_def)
  note up = r6(3)[unfolded init_upto_def]
  have fsts: "map fst (nem_pools s7) = map (pool_nth es) [0..<7]" and within: "pools_within nem_limit (nem_mem ?s) (nem_held ?s) (env_used es 7)"
    and free: "\<forall>k<7. pool_has_free (nem_mem ?s) (pool_nth es k)" and keep: "nem_ns_id_g ?s = nem_ns_id_g s0" "nem_rcu ?s = nem_rcu s0"
    using up by (simp_all add: nem_held_def pools)
  have "inj_on (pool_nth es) {0..<7}" by (rule inj_onI, rule ccontr) (use good_envsD(4)[OF g] in auto)
  then have "distinct (map (pool_nth es) [0..<7])" by (simp add: distinct_map)
  then have "distinct (map fst (nem_pools ?s))" using fsts pools by simp
  moreover have "pools_ok nem_limit (nem_mem ?s) (nem_held ?s)" using within by (auto simp: pools_within_def pools_ok_def)
  moreover have "dpn_ok (of_nem_dpid_ns_info_g ?s)" by (simp add: dpn_init)
  ultimately have inv: "nem_inv ?s" using fresh unfolding nem_inv_def dbs by (simp add: slot_ok_def fresh_db_def)
  have empty: "nem_empty ?s" using fresh by (simp add: nem_empty_def nem_rows_defs dbs fresh_db_def)
  have "fst ` set (nem_pools ?s) = pool_nth es ` {0..<7}" using arg_cong[OF fsts, of set] pools by simp
  then have "fst x \<in> pool_nth es ` {0..<7}" if "x \<in> set (nem_pools ?s)" for x using imageI[OF that, of fst] by simp
  then have "\<forall>x\<in>set (nem_pools ?s). pool_has_free (nem_mem ?s) (fst x)" using free by (metis atLeastLessThan_iff imageE)
  then have "nem_ready ?s" by (simp only: nem_ready_def)
  then show thesis using that[OF run inv empty _ within _ keep] by simp
qed

text \<open>C15: with memory for the seven pools and tables, the start of the module succeeds: the databases exist and are empty,
  each pool has a block to give, the array of numbers is unused, and the invariant of the module holds.\<close>

theorem nem_db_init_ok:
  assumes "good_envs es (nem_mem s)"
  shows "\<exists>s'. nem_db_init es s = Some (NEM_SUCCESS, s') \<and> nem_inv s' \<and> nem_empty s' \<and> nem_ready s' \<and>
    of_nem_dpid_ns_info_g s' = nem_dpid_and_dpnsid_list_init \<and> nem_ns_id_g s' = nem_ns_id_g s \<and> nem_rcu s' = nem_rcu s"
  by (rule nem_init_ok[OF assms]) blast

text \<open>A module that has just been started.\<close>

definition demo_nem_env :: "nat \<Rightarrow> nem_env" where
  "demo_nem_env i = \<lparr>ne_mem = \<lparr>ev_thread = 0, ev_threads = 1, ev_chain = (\<lambda>k. if k = 0 then Some (100 + i) else None), ev_heap = None,
     ev_lists_ok = True\<rparr>, ne_heap_b = 0, ne_size = 100, ne_pool = Some i, ne_table = Some 7, ne_array_ok = True,
     ne_links = (\<lambda>_. \<lparr>lk_prev = Null, lk_next = Null, lk_index = 0, lk_key = 0\<rparr>)\<rparr>"

definition no_memory_env :: nem_env where
  "no_memory_env = (demo_nem_env 0)\<lparr>ne_mem := (ne_mem (demo_nem_env 0))\<lparr>ev_chain := \<lambda>_. None\<rparr>\<rparr>"

definition no_db :: "'i \<Rightarrow> 'i nem_db" where
  "no_db i = \<lparr>nd_pool = None, nd_buckets = 0, nd_table = No_table, nd_entries = (\<lambda>_. \<lparr>me_info = i, me_index = 0, me_magic = 0, me_heap_b = 0\<rparr>)\<rparr>"

definition demo_nem_start :: nem_sys where
  "demo_nem_start = \<lparr>nem_ns_id_g = 0, db_ns_2_nsid = no_db \<lparr>ni_id = 0, ni_name = []\<rparr>, db_nsid_2_ns = no_db \<lparr>ni_id = 0, ni_name = []\<rparr>,
     db_dpid_2_nsid = no_db \<lparr>dni_ns_id = 0, dni_dp_id = 0, dni_dp_ns_id = 0\<rparr>,
     db_nsid_2_dpid = no_db \<lparr>dni_ns_id = 0, dni_dp_id = 0, dni_dp_ns_id = 0\<rparr>,
     db_dpid_2_peth = no_db \<lparr>pi_dp_id = 0, pi_ns_id = 0, pi_port_id = 0, pi_peth_id = 0, pi_peth_name = []\<rparr>,
     db_peth_2_dpid = no_db \<lparr>pi_dp_id = 0, pi_ns_id = 0, pi_port_id = 0, pi_peth_id = 0, pi_peth_name = []\<rparr>,
     db_dpid_and_dpnsid = no_db \<lparr>dd_dp_id = 0, dd_dp_ns_id = 0, dd_namespace_name = []\<rparr>, of_nem_dpid_ns_info_g = [],
     nem_mem = \<lparr>ms_types = [(0, mheap_callbacks)], mempool_list_g = [], ms_pools = \<lambda>_. None, ms_links = \<lambda>_. None, ms_freed = [],
       mempool_index_g = 0\<rparr>, nem_rcu = 0\<rparr>"

definition demo_nem :: nem_sys where
  "demo_nem = snd (the (nem_db_init demo_nem_env demo_nem_start))"

lemma demo_good: "good_envs demo_nem_env (nem_mem demo_nem_start)"
  by (auto simp: good_envs_def good_env_def demo_nem_env_def demo_nem_start_def provider_of_def pool_names_def env_fresh_def env_used_def
      env_blocks_def node_ok_def split: if_splits)

theorem nem_db_init_ok_witness: "nem_inv (snd (the (nem_db_init demo_nem_env demo_nem_start)))"
  using nem_db_init_ok[OF demo_good] by auto

lemma demo_nem_facts: "nem_inv demo_nem" "nem_empty demo_nem" "nem_ready demo_nem"
  "of_nem_dpid_ns_info_g demo_nem = nem_dpid_and_dpnsid_list_init" "nem_rcu demo_nem = 0"
  by (rule nem_init_ok[OF demo_good]; simp add: demo_nem_def; simp add: demo_nem_start_def)+

lemma no_memory_fresh: "nem_fresh no_memory_env s"
  by (simp add: nem_fresh_def shared_fresh_def env_fresh_def no_memory_env_def demo_nem_env_def)

section \<open>Lookups\<close>

context nem_slot_laws
begin

lemma slot_lookup_cases:
  assumes inv: "nem_inv s" and k: "ds_find_check (sl_desc S) k = None"
  obtains (row) h i where "srows s h = Some i" "ds_key (sl_desc S) i = k" "slot_lookup S None k s = Some (NEM_SUCCESS, Some i)"
  | (none) "\<forall>h i. srows s h = Some i \<longrightarrow> ds_key (sl_desc S) i \<noteq> k" "slot_lookup S None k s = Some (NEM_ERROR_INVALID_HANDLE, None)"
proof -
  have t: "nd_table (sl_get S s) \<noteq> No_table" using slot_db_ok[OF inv] by (auto simp: db_ok_def db_inv_def)
  consider (row) h i where "srows s h = Some i" "ds_key (sl_desc S) i = k" "slot_handle S k s = Some (NEM_SUCCESS, Some h)"
    | (none) "\<forall>h i. srows s h = Some i \<longrightarrow> ds_key (sl_desc S) i \<noteq> k" "slot_handle S k s = Some (ds_missing (sl_desc S), None)"
    using db.search_law[OF inv, of k] k by auto
  then show thesis
  proof cases
    case (row h i)
    then show thesis using that(1)[OF row(1,2)] db.exact_law[OF inv row(1)] t
      by (simp add: slot_lookup_def db_lookup_def slot_handle_def slot_exact_def)
  next
    case none
    then show thesis using that(2)[OF none(1)] db.codes_law(1) t by (simp add: slot_lookup_def db_lookup_def slot_handle_def)
  qed
qed

lemma slot_lookup_row:
  assumes inv: "nem_inv s" and r: "srows s h = Some i" "ds_find_check (sl_desc S) (ds_key (sl_desc S) i) = None"
  shows "slot_lookup S None (ds_key (sl_desc S) i) s = Some (NEM_SUCCESS, Some i)"
  using inv r(2)
proof (cases rule: slot_lookup_cases)
  case (row h' j)
  then have "h = h'" using db.unique_law[OF inv r(1) row(1)] r(2) by simp
  then show ?thesis using row r(1) by simp
next
  case none
  then show ?thesis using r(1) by blast
qed

lemma slot_lookup_none:
  assumes inv: "nem_inv s" and k: "ds_find_check (sl_desc S) k = None" "\<forall>h i. srows s h = Some i \<longrightarrow> ds_key (sl_desc S) i \<noteq> k"
  shows "slot_lookup S None k s = Some (NEM_ERROR_INVALID_HANDLE, None)"
  using inv k(1) by (cases rule: slot_lookup_cases) (use k(2) in blast)+

lemma slot_lookup_bad: "nem_inv s \<Longrightarrow> slot_lookup S (Some rc) k s = Some (rc, None)"
  using slot_db_ok[of s] by (auto simp: slot_lookup_def db_lookup_def db_ok_def db_inv_def)

end

lemma no_row_ran: "(\<forall>h j. rows h = Some j \<longrightarrow> f j \<noteq> k) \<longleftrightarrow> k \<notin> f ` ran rows"
  by (auto simp: ran_def)

section \<open>Namespaces and their numbers\<close>

lemma ns_desc [simp]:
  "ds_key ns_2_nsid_desc = ni_name" "ds_key nsid_2_ns_desc = ni_id" "ds_find_check ns_2_nsid_desc k = None"
  "ds_find_check nsid_2_ns_desc n = (if 1024 < n then Some NEM_ERROR_INVALID_NSID else None)"
  "ds_check ns_2_nsid_desc i = (if length (ni_name i) < 3 then Some NEM_ERROR_NAME_LENGTH_NOT_ENOUGH else None)"
  "ds_check nsid_2_ns_desc i = (if 1024 < ni_id i then Some NEM_ERROR_NAME_LENGTH_NOT_ENOUGH else None)"
  "ds_copy ns_2_nsid_desc i \<noteq> None \<longleftrightarrow> length (ni_name i) < 16" "ds_copy nsid_2_ns_desc i \<noteq> None \<longleftrightarrow> length (ni_name i) < 16"
  by (simp_all add: nem_desc_defs ns_id_check_def fits_def)

lemma ns_lookups:
  assumes "nem_inv s"
  shows "3 \<le> length nm \<Longrightarrow> ns_2_nsid_rows s h = Some i \<Longrightarrow> ni_name i = nm \<Longrightarrow> of_nem_get_nsid_from_namespace (Some nm) s = Some (NEM_SUCCESS, Some (ni_id i))"
    "3 \<le> length nm \<Longrightarrow> nm \<notin> ni_name ` ran (ns_2_nsid_rows s) \<Longrightarrow> of_nem_get_nsid_from_namespace (Some nm) s = Some (NEM_ERROR_INVALID_HANDLE, None)"
    "n \<le> 1024 \<Longrightarrow> nsid_2_ns_rows s h = Some i \<Longrightarrow> ni_id i = n \<Longrightarrow> of_nem_get_namespace_from_nsid n True s = Some (NEM_SUCCESS, Some (ni_name i))"
    "n \<le> 1024 \<Longrightarrow> n \<notin> ni_id ` ran (nsid_2_ns_rows s) \<Longrightarrow> of_nem_get_namespace_from_nsid n True s = Some (NEM_ERROR_INVALID_HANDLE, None)"
    "1024 < n \<Longrightarrow> of_nem_get_namespace_from_nsid n True s = Some (NEM_ERROR_NAME_LENGTH_NOT_ENOUGH, None)"
  using ns2nsid.slot_lookup_row[OF assms, of h i] ns2nsid.slot_lookup_none[OF assms, of nm, unfolded no_row_ran]
    nsid2ns.slot_lookup_row[OF assms, of h i] nsid2ns.slot_lookup_none[OF assms, of n, unfolded no_row_ran] nsid2ns.slot_lookup_bad[OF assms]
  by (auto simp: of_nem_get_nsid_from_namespace_def of_nem_get_namespace_from_nsid_def nem_rows_defs ns_id_check_def)

section \<open>Mapping a pair\<close>

context nem_pair
begin

lemma map_both_spec:
  assumes ok: "ok s" and fr: "fresh2 e1 e2 i s" and cp: "ds_copy D1 i \<noteq> None" "ds_copy D2 i \<noteq> None"
    and find: "ds_find_check D1 (ds_key D1 i) = None"
  shows "\<exists>rc s'. map_both (add1 e1) (add2 e2) i s = Some (rc, s') \<and> ok s' \<and>
    (if rc = NEM_SUCCESS then ran (rows1 s') = insert i (ran (rows1 s)) \<and> ran (rows2 s') = insert i (ran (rows2 s))
     else rc = NEM_FAILURE \<and> ran (rows2 s') = ran (rows2 s) \<and> ran (rows1 s') \<in> {ran (rows1 s), insert i (ran (rows1 s))}) \<and>
    (ds_check D1 i \<noteq> None \<or> ds_key D1 i \<in> ds_key D1 ` ran (rows1 s) \<longrightarrow> rc = NEM_FAILURE \<and> ran (rows1 s') = ran (rows1 s)) \<and>
    (ds_check D1 i = None \<and> ds_key D1 i \<notin> ds_key D1 ` ran (rows1 s) \<and> room1 s \<and>
       (ds_check D2 i \<noteq> None \<or> ds_find_check D2 (ds_key D2 i) = None \<and> ds_key D2 i \<in> ds_key D2 ` ran (rows2 s)) \<longrightarrow>
       rc = NEM_FAILURE \<and> ran (rows1 s') = insert i (ran (rows1 s))) \<and>
    (ds_check D1 i = None \<and> ds_check D2 i = None \<and> ds_key D1 i \<notin> ds_key D1 ` ran (rows1 s) \<and>
       ds_key D2 i \<notin> ds_key D2 ` ran (rows2 s) \<and> room1 s \<and> room2 s \<longrightarrow> rc = NEM_SUCCESS)"
proof -
  let ?m = "map_both (add1 e1) (add2 e2) i s"
  have f1: "fresh e1 s" using fr by (simp add: fresh2_def)
  have no: "\<exists>s'. ?m = Some (NEM_FAILURE, s') \<and> rows1 s' = rows1 s"
    if d: "ds_check D1 i \<noteq> None \<or> ds_key D1 i \<in> ds_key D1 ` ran (rows1 s)"
  proof (cases "ds_check D1 i")
    case (Some r)
    then show ?thesis using map_both_refused[OF ok f1 cp(1) Some] by blast
  next
    case None
    then obtain j where "j \<in> ran (rows1 s)" "ds_key D1 j = ds_key D1 i" using d by force
    then obtain a where "rows1 s a = Some j" "ds_key D1 j = ds_key D1 i" by (auto simp: ran_def)
    then show ?thesis using map_both_known[OF ok f1 cp(1) None find] by blast
  qed
  have half: "\<exists>s'. ?m = Some (NEM_FAILURE, s') \<and> ran (rows1 s') = insert i (ran (rows1 s))"
    if "ds_check D1 i = None" "ds_key D1 i \<notin> ds_key D1 ` ran (rows1 s)" "room1 s"
      "ds_check D2 i \<noteq> None \<or> ds_find_check D2 (ds_key D2 i) = None \<and> ds_key D2 i \<in> ds_key D2 ` ran (rows2 s)"
  proof -
    have 1: "\<forall>a j. rows1 s a = Some j \<longrightarrow> ds_key D1 j \<noteq> ds_key D1 i" using that(2) by (simp add: no_row_ran)
    have 2: "ds_check D2 i \<noteq> None \<or> ds_find_check D2 (ds_key D2 i) = None \<and> (\<exists>b j. rows2 s b = Some j \<and> ds_key D2 j = ds_key D2 i)"
      using that(4) unfolding ran_def by fastforce
    show ?thesis by (rule map_both_half[OF ok fr cp that(1,3) 1 2]) simp
  qed
  have all: "\<exists>s'. ?m = Some (NEM_SUCCESS, s')"
    if "ds_check D1 i = None" "ds_check D2 i = None" "ds_key D1 i \<notin> ds_key D1 ` ran (rows1 s)" "ds_key D2 i \<notin> ds_key D2 ` ran (rows2 s)"
      "room1 s" "room2 s"
    by (rule map_both_succeeds[OF ok fr cp that(1,2,5,6)]) (use that(3,4) in \<open>simp_all add: no_row_ran\<close>)
  have 1: "ds_check D1 i \<noteq> None \<or> ds_key D1 i \<in> ds_key D1 ` ran (rows1 s) \<longrightarrow> rc = NEM_FAILURE \<and> ran (rows1 s') = ran (rows1 s)"
    if "?m = Some (rc, s')" for rc s' using no that by fastforce
  have 2: "ds_check D1 i = None \<and> ds_key D1 i \<notin> ds_key D1 ` ran (rows1 s) \<and> room1 s \<and>
       (ds_check D2 i \<noteq> None \<or> ds_find_check D2 (ds_key D2 i) = None \<and> ds_key D2 i \<in> ds_key D2 ` ran (rows2 s)) \<longrightarrow>
       rc = NEM_FAILURE \<and> ran (rows1 s') = insert i (ran (rows1 s))"
    if "?m = Some (rc, s')" for rc s' using half that by fastforce
  have 3: "ds_check D1 i = None \<and> ds_check D2 i = None \<and> ds_key D1 i \<notin> ds_key D1 ` ran (rows1 s) \<and>
       ds_key D2 i \<notin> ds_key D2 ` ran (rows2 s) \<and> room1 s \<and> room2 s \<longrightarrow> rc = NEM_SUCCESS"
    if "?m = Some (rc, s')" for rc s' using all that by fastforce
  from ok fr cp show ?thesis
  proof (cases rule: map_both_cases)
    case (both s' a b)
    show ?thesis
      by (intro exI[of _ NEM_SUCCESS] exI[of _ s'] conjI;
          (rule both(1) both(2) 1[OF both(1)] 2[OF both(1)] 3[OF both(1)])?) (use both in simp)
  next
    case (neither s')
    show ?thesis
      by (intro exI[of _ NEM_FAILURE] exI[of _ s'] conjI;
          (rule neither(1) neither(2) 1[OF neither(1)] 2[OF neither(1)] 3[OF neither(1)])?) (use neither in simp)
  next
    case (half s' a)
    note h = half
    show ?thesis
      by (intro exI[of _ NEM_FAILURE] exI[of _ s'] conjI;
          (rule h(1) h(2) 1[OF h(1)] 2[OF h(1)] 3[OF h(1)])?) (use h in simp)
  qed
qed

end

text \<open>The information in the rows of the two databases of a relation.\<close>

definition ns_names :: "nem_sys \<Rightarrow> of_nem_ns_info set" where "ns_names s = ran (ns_2_nsid_rows s)"
definition ns_ids :: "nem_sys \<Rightarrow> of_nem_ns_info set" where "ns_ids s = ran (nsid_2_ns_rows s)"

text \<open>What \<open>calloc\<close> returns for the two rows of a mapping is not in use.\<close>

definition nem_fresh2 :: "(nem_env \<Rightarrow> 'i option \<Rightarrow> nem_sys \<Rightarrow> (int \<times> u64 option \<times> nem_sys) option) \<Rightarrow> nem_env \<Rightarrow> nem_env \<Rightarrow> 'i \<Rightarrow> nem_sys \<Rightarrow> bool" where
  "nem_fresh2 add e1 e2 i s \<longleftrightarrow> nem_fresh e1 s \<and> (\<forall>rc h s1. add e1 (Some i) s = Some (rc, h, s1) \<longrightarrow> nem_fresh e2 s1)"

lemma nem_fresh2_pairs:
  "nem_fresh2 nem_map_ns_to_nsid = ns_pair.fresh2" "nem_fresh2 nem_map_dpid_to_nsid = dp_pair.fresh2" "nem_fresh2 nem_map_dpid_to_peth = peth_pair.fresh2"
  by (auto simp: fun_eq_iff nem_fresh2_def ns_pair.fresh2_def dp_pair.fresh2_def peth_pair.fresh2_def)

lemma no_memory_fresh2: "nem_fresh2 add no_memory_env no_memory_env i s"
  by (simp add: nem_fresh2_def no_memory_fresh)

text \<open>C16: mapping a namespace returns success exactly when the pair of name and number is added to both databases, and otherwise leaves
  the numbers alone. A name that is too short or in use changes nothing; a new name whose number is above 1024 or in use fails and leaves
  the name behind; and when both are new, the number is at most 1024 and both pools have a block, it succeeds.\<close>

theorem nem_ns_mapping_ok:
  assumes "nem_inv s" "nem_fresh2 nem_map_ns_to_nsid e1 e2 \<lparr>ni_id = ns_id, ni_name = nm\<rparr> s" "length nm < 16"
  shows "\<exists>rc s'. nem_ns_and_nsid_mapping_handler e1 e2 (Some nm) ns_id s = Some (rc, s') \<and> nem_inv s' \<and>
    (if rc = NEM_SUCCESS then ns_names s' = insert \<lparr>ni_id = ns_id, ni_name = nm\<rparr> (ns_names s) \<and> ns_ids s' = insert \<lparr>ni_id = ns_id, ni_name = nm\<rparr> (ns_ids s)
     else rc = NEM_FAILURE \<and> ns_ids s' = ns_ids s \<and> ns_names s' \<in> {ns_names s, insert \<lparr>ni_id = ns_id, ni_name = nm\<rparr> (ns_names s)}) \<and>
    (length nm < 3 \<or> nm \<in> ni_name ` ns_names s \<longrightarrow> rc = NEM_FAILURE \<and> ns_names s' = ns_names s) \<and>
    (3 \<le> length nm \<and> nm \<notin> ni_name ` ns_names s \<and> nem_room db_ns_2_nsid s \<and> (1024 < ns_id \<or> ns_id \<in> ni_id ` ns_ids s) \<longrightarrow>
       rc = NEM_FAILURE \<and> ns_names s' = insert \<lparr>ni_id = ns_id, ni_name = nm\<rparr> (ns_names s)) \<and>
    (3 \<le> length nm \<and> ns_id \<le> 1024 \<and> nm \<notin> ni_name ` ns_names s \<and> ns_id \<notin> ni_id ` ns_ids s \<and>
       nem_room db_ns_2_nsid s \<and> nem_room db_nsid_2_ns s \<longrightarrow> rc = NEM_SUCCESS)"
proof -
  have l: "(if P then Some (a::int) else None) \<noteq> None \<longleftrightarrow> P" "(if P then Some a else None) = None \<longleftrightarrow> \<not> P" for P a by simp_all
  have c: "1024 < ns_id \<or> ns_id \<le> 1024 \<and> Q \<longleftrightarrow> 1024 < ns_id \<or> Q" for Q by auto
  show ?thesis
    using ns_pair.map_both_spec[OF assms(1) assms(2)[unfolded nem_fresh2_pairs]] assms(3)
    by (simp only: nem_ns_and_nsid_mapping_handler_def option.case if_not_P not_le ns_desc l c of_nem_ns_info.simps ns_names_def ns_ids_def
        refl simp_thms not_less True_implies_equals)
qed

theorem nem_ns_mapping_ok_witness:
  "fst (the (nem_ns_and_nsid_mapping_handler no_memory_env no_memory_env (Some ''blue'') 7 demo_nem)) = NEM_SUCCESS"
proof -
  have r: "nem_room db_ns_2_nsid demo_nem" "nem_room db_nsid_2_ns demo_nem"
    using demo_nem_facts(3) by (simp_all add: nem_ready_def nem_pools_def nem_room_def)
  have e: "ns_names demo_nem = {}" "ns_ids demo_nem = {}" using demo_nem_facts(2) by (simp_all add: ns_names_def ns_ids_def nem_empty_def)
  have l: "length ''blue'' < 16" by simp
  obtain rc s' where m: "nem_ns_and_nsid_mapping_handler no_memory_env no_memory_env (Some ''blue'') 7 demo_nem = Some (rc, s')"
    and c: "3 \<le> length ''blue'' \<and> (7 :: u32) \<le> 1024 \<and> ''blue'' \<notin> ni_name ` ns_names demo_nem \<and> (7 :: u32) \<notin> ni_id ` ns_ids demo_nem \<and>
       nem_room db_ns_2_nsid demo_nem \<and> nem_room db_nsid_2_ns demo_nem \<longrightarrow> rc = NEM_SUCCESS"
    using nem_ns_mapping_ok[OF demo_nem_facts(1) no_memory_fresh2 l, of 7] by (elim exE conjE) (rule that)
  have "rc = NEM_SUCCESS" by (rule c[THEN mp]) (simp add: e r)
  then show ?thesis by (simp add: m)
qed

lemma demo_rooms: "nem_room db_ns_2_nsid demo_nem" "nem_room db_nsid_2_ns demo_nem" "nem_room db_dpid_2_peth demo_nem"
  "nem_room db_peth_2_dpid demo_nem" "nem_room db_dpid_and_dpnsid demo_nem"
  using demo_nem_facts(3) by (simp_all add: nem_ready_def nem_pools_def nem_room_def)

lemma ns_mapped:
  assumes inv: "nem_inv s" and fr: "nem_fresh2 nem_map_ns_to_nsid e1 e2 \<lparr>ni_id = ns_id, ni_name = nm\<rparr> s" and len: "length nm < 16"
    and run: "nem_ns_and_nsid_mapping_handler e1 e2 (Some nm) ns_id s = Some (NEM_SUCCESS, s1)"
  obtains a b where "nem_inv s1" "3 \<le> length nm" "ns_id \<le> 1024"
    "ns_2_nsid_rows s a = None" "ns_2_nsid_rows s1 = (ns_2_nsid_rows s)(a \<mapsto> \<lparr>ni_id = ns_id, ni_name = nm\<rparr>)" "nm \<notin> ni_name ` ns_names s"
    "nsid_2_ns_rows s b = None" "nsid_2_ns_rows s1 = (nsid_2_ns_rows s)(b \<mapsto> \<lparr>ni_id = ns_id, ni_name = nm\<rparr>)" "ns_id \<notin> ni_id ` ns_ids s"
proof -
  let ?i = "\<lparr>ni_id = ns_id, ni_name = nm\<rparr>"
  have cp: "ds_copy ns_2_nsid_desc ?i \<noteq> None" "ds_copy nsid_2_ns_desc ?i \<noteq> None" unfolding ns_desc using len by simp_all
  have m: "map_both (nem_map_ns_to_nsid e1) (nem_map_nsid_to_ns e2) ?i s = Some (NEM_SUCCESS, s1)"
    using run len by (simp add: nem_ns_and_nsid_mapping_handler_def)
  obtain a b where r: "nem_inv s1" "ns_2_nsid_rows s a = None" "ns_2_nsid_rows s1 = (ns_2_nsid_rows s)(a \<mapsto> ?i)"
    "nsid_2_ns_rows s b = None" "nsid_2_ns_rows s1 = (nsid_2_ns_rows s)(b \<mapsto> ?i)" "3 \<le> length nm" "ns_id \<le> 1024"
  proof -
    from inv fr[unfolded nem_fresh2_pairs] cp show thesis
    proof (cases rule: ns_pair.map_both_cases)
      case (both s' a b)
      then have "s' = s1" using m by simp
      moreover have "3 \<le> length nm" "ns_id \<le> 1024" using both(7,8) by (simp_all split: if_splits)
      ultimately show thesis using that both(2-6) by blast
    qed (use m in simp_all)
  qed
  have "nm \<notin> ni_name ` ns_names s"
  proof
    assume "nm \<in> ni_name ` ns_names s"
    then obtain h j where j: "ns_2_nsid_rows s h = Some j" "ni_name j = nm" by (auto simp: ns_names_def ran_def)
    then have n: "h \<noteq> a" "ns_2_nsid_rows s1 h = Some j" using r(2,3) by auto
    then show False using ns_db.unique_law[OF r(1) n(2), of a ?i] r(3) j(2) by simp
  qed
  moreover have "ns_id \<notin> ni_id ` ns_ids s"
  proof
    assume "ns_id \<in> ni_id ` ns_ids s"
    then obtain h j where j: "nsid_2_ns_rows s h = Some j" "ni_id j = ns_id" by (auto simp: ns_ids_def ran_def)
    then have n: "h \<noteq> b" "nsid_2_ns_rows s1 h = Some j" using r(4,5) by auto
    then show False using ns_pair.rev.unique_law[OF r(1) n(2), of b ?i] r(5,7) j(2) by simp
  qed
  ultimately show thesis using that r by blast
qed

text \<open>C17: a namespace that was mapped is found by its name and by its number, and unmapping it restores both databases as they were:
  then neither is found.\<close>

theorem nem_ns_roundtrip:
  assumes "nem_inv s" "nem_fresh2 nem_map_ns_to_nsid e1 e2 \<lparr>ni_id = ns_id, ni_name = nm\<rparr> s" "length nm < 16"
    "nem_ns_and_nsid_mapping_handler e1 e2 (Some nm) ns_id s = Some (NEM_SUCCESS, s1)"
  shows "of_nem_get_nsid_from_namespace (Some nm) s1 = Some (NEM_SUCCESS, Some ns_id) \<and>
    of_nem_get_namespace_from_nsid ns_id True s1 = Some (NEM_SUCCESS, Some nm) \<and>
    (\<exists>s2. nem_ns_and_nsid_unmapping_handler (Some nm) ns_id s1 = Some (NEM_SUCCESS, s2) \<and> nem_inv s2 \<and>
       ns_2_nsid_rows s2 = ns_2_nsid_rows s \<and> nsid_2_ns_rows s2 = nsid_2_ns_rows s \<and>
       of_nem_get_nsid_from_namespace (Some nm) s2 = Some (NEM_ERROR_INVALID_HANDLE, None) \<and>
       of_nem_get_namespace_from_nsid ns_id True s2 = Some (NEM_ERROR_INVALID_HANDLE, None))"
proof -
  let ?i = "\<lparr>ni_id = ns_id, ni_name = nm\<rparr>"
  obtain a b where r: "nem_inv s1" "3 \<le> length nm" "ns_id \<le> 1024"
    "ns_2_nsid_rows s a = None" "ns_2_nsid_rows s1 = (ns_2_nsid_rows s)(a \<mapsto> ?i)" "nm \<notin> ni_name ` ns_names s"
    "nsid_2_ns_rows s b = None" "nsid_2_ns_rows s1 = (nsid_2_ns_rows s)(b \<mapsto> ?i)" "ns_id \<notin> ni_id ` ns_ids s"
    by (rule ns_mapped[OF assms])
  have rows: "ns_2_nsid_rows s1 a = Some ?i" "nsid_2_ns_rows s1 b = Some ?i" using r by simp_all
  have c: "ds_find_check nsid_2_ns_desc (ds_key nsid_2_ns_desc ?i) = None" using r(3) by simp
  obtain s3 s2 where u: "unmap_row (of_nem_ns_2_nsid_db_get_map_entry_handle nm) nem_unmap_ns_to_nsid s1 = Some (NEM_SUCCESS, s3)"
    "unmap_read (of_nem_nsid_2_ns_db_get_map_entry_handle ns_id) of_nem_nsid_2_ns_db_get_exact_map_entry nem_unmap_nsid_to_ns s3 =
      Some (NEM_SUCCESS, Some ?i, s2)"
    "nem_inv s2" "ns_2_nsid_rows s2 = (ns_2_nsid_rows s1)(a := None)" "nsid_2_ns_rows s2 = (nsid_2_ns_rows s1)(b := None)"
    by (rule ns_pair.unmap_both[OF r(1) rows _ c]) simp_all
  have same: "ns_2_nsid_rows s2 = ns_2_nsid_rows s" "nsid_2_ns_rows s2 = nsid_2_ns_rows s" using u(4,5) r(4,5,7,8) by auto
  have "nem_ns_and_nsid_unmapping_handler (Some nm) ns_id s1 = Some (NEM_SUCCESS, s2)"
    using u(1,2) assms(3) by (simp add: nem_ns_and_nsid_unmapping_handler_def init_then_def)
  then show ?thesis
    using ns_lookups(1)[OF r(1) r(2) rows(1)] ns_lookups(3)[OF r(1) r(3) rows(2)] ns_lookups(2)[OF u(3) r(2)] ns_lookups(4)[OF u(3) r(3)]
      u(3) same r(6,9) by (simp add: ns_names_def ns_ids_def)
qed

lemma demo_mapped: "\<exists>s1. nem_ns_and_nsid_mapping_handler no_memory_env no_memory_env (Some ''blue'') 7 demo_nem = Some (NEM_SUCCESS, s1)"
proof -
  have e: "ns_2_nsid_rows demo_nem = Map.empty" "nsid_2_ns_rows demo_nem = Map.empty" using demo_nem_facts(2) by (simp_all add: nem_empty_def)
  let ?i = "\<lparr>ni_id = 7, ni_name = ''blue''\<rparr>"
  have cp: "ds_copy ns_2_nsid_desc ?i \<noteq> None" "ds_copy nsid_2_ns_desc ?i \<noteq> None" unfolding ns_desc by simp_all
  show ?thesis
    by (rule ns_pair.map_both_succeeds[OF demo_nem_facts(1) no_memory_fresh2[of nem_map_ns_to_nsid, unfolded nem_fresh2_pairs] cp])
      (simp_all add: demo_rooms e nem_ns_and_nsid_mapping_handler_def)
qed

theorem nem_ns_roundtrip_witness:
  "of_nem_get_namespace_from_nsid 7 True (snd (the (nem_ns_and_nsid_mapping_handler no_memory_env no_memory_env (Some ''blue'') 7 demo_nem))) =
    Some (NEM_SUCCESS, Some ''blue'')"
  using demo_mapped nem_ns_roundtrip[OF demo_nem_facts(1) no_memory_fresh2, of "''blue''" 7] by auto

text \<open>C20: a number above 1024, which the generator produces up to 49999, is mapped in one direction only although the handler fails:
  the name is found with the number, the number is not found, mapping the name again changes nothing, and unmapping fails too, but takes
  the name away.\<close>

theorem nem_large_number_half_mapped:
  assumes inv: "nem_inv s" and fr: "nem_fresh2 nem_map_ns_to_nsid e1 e2 \<lparr>ni_id = ns_id, ni_name = nm\<rparr> s"
    and nm: "3 \<le> length nm" "length nm < 16" "nm \<notin> ni_name ` ns_names s" and id: "1024 < ns_id" and room: "nem_room db_ns_2_nsid s"
  shows "\<exists>s1. nem_ns_and_nsid_mapping_handler e1 e2 (Some nm) ns_id s = Some (NEM_FAILURE, s1) \<and> nem_inv s1 \<and>
    of_nem_get_nsid_from_namespace (Some nm) s1 = Some (NEM_SUCCESS, Some ns_id) \<and>
    of_nem_get_namespace_from_nsid ns_id True s1 = Some (NEM_ERROR_NAME_LENGTH_NOT_ENOUGH, None) \<and>
    (\<forall>e3 e4 n. nem_fresh e3 s1 \<longrightarrow> (\<exists>s2. nem_ns_and_nsid_mapping_handler e3 e4 (Some nm) n s1 = Some (NEM_FAILURE, s2) \<and>
       ns_names s2 = ns_names s1 \<and> ns_ids s2 = ns_ids s1)) \<and>
    (\<exists>s2. nem_ns_and_nsid_unmapping_handler (Some nm) ns_id s1 = Some (NEM_FAILURE, s2) \<and> nem_inv s2 \<and>
       ns_2_nsid_rows s2 = ns_2_nsid_rows s \<and> nsid_2_ns_rows s2 = nsid_2_ns_rows s)"
proof -
  let ?i = "\<lparr>ni_id = ns_id, ni_name = nm\<rparr>"
  have cp: "ds_copy ns_2_nsid_desc ?i \<noteq> None" "ds_copy nsid_2_ns_desc ?i \<noteq> None" unfolding ns_desc using nm by simp_all
  have c: "ds_check ns_2_nsid_desc ?i = None" "ds_check nsid_2_ns_desc ?i \<noteq> None \<or> P" for P using nm id by simp_all
  have new: "\<forall>a j. ns_2_nsid_rows s a = Some j \<longrightarrow> ds_key ns_2_nsid_desc j \<noteq> ds_key ns_2_nsid_desc ?i"
    using nm(3) by (auto simp: ns_names_def ran_def)
  obtain s1 a where m: "map_both (nem_map_ns_to_nsid e1) (nem_map_nsid_to_ns e2) ?i s = Some (NEM_FAILURE, s1)" "nem_inv s1"
    "ns_2_nsid_rows s a = None" "ns_2_nsid_rows s1 = (ns_2_nsid_rows s)(a \<mapsto> ?i)" "nsid_2_ns_rows s1 = nsid_2_ns_rows s"
    by (rule ns_pair.map_both_half[OF inv fr[unfolded nem_fresh2_pairs] cp c(1) room new c(2)])
  have row: "ns_2_nsid_rows s1 a = Some ?i" using m(4) by simp
  have again: "\<exists>s2. nem_ns_and_nsid_mapping_handler e3 e4 (Some nm) n s1 = Some (NEM_FAILURE, s2) \<and> ns_names s2 = ns_names s1 \<and> ns_ids s2 = ns_ids s1"
    if "nem_fresh e3 s1" for e3 e4 n
  proof -
    let ?k = "\<lparr>ni_id = n, ni_name = nm\<rparr>"
    have "ds_copy ns_2_nsid_desc ?k \<noteq> None" "ds_check ns_2_nsid_desc ?k = None" "ds_key ns_2_nsid_desc ?i = ds_key ns_2_nsid_desc ?k"
      using cp(1) nm unfolding ns_desc by simp_all
    from ns_pair.map_both_known[OF m(2) that this(1,2) _ row this(3), of "nem_map_nsid_to_ns e4"]
    obtain s2 where "map_both (nem_map_ns_to_nsid e3) (nem_map_nsid_to_ns e4) ?k s1 = Some (NEM_FAILURE, s2)"
      "ns_2_nsid_rows s2 = ns_2_nsid_rows s1" "nsid_2_ns_rows s2 = nsid_2_ns_rows s1" by auto
    then show ?thesis using nm(2) by (simp add: nem_ns_and_nsid_mapping_handler_def ns_names_def ns_ids_def)
  qed
  obtain s2 where u: "unmap_row (of_nem_ns_2_nsid_db_get_map_entry_handle nm) nem_unmap_ns_to_nsid s1 = Some (NEM_SUCCESS, s2)"
    "nem_inv s2" "ns_2_nsid_rows s2 = (ns_2_nsid_rows s1)(a := None)" "nem_unmap_ns_to_nsid a s1 = Some (NEM_SUCCESS, s2)"
    using ns_db.unmap_row_present[OF m(2) row] by auto
  have r2: "nsid_2_ns_rows s2 = nsid_2_ns_rows s1" by (rule ns_pair.del1_frame[OF u(4)])
  have "of_nem_nsid_2_ns_db_get_map_entry_handle ns_id s2 = Some (NEM_ERROR_INVALID_NSID, None)"
    using ns_pair.rev.search_law[OF u(2), of ns_id] id by simp
  then have "nem_ns_and_nsid_unmapping_handler (Some nm) ns_id s1 = Some (NEM_FAILURE, s2)"
    using u(1) nm(2) by (simp add: nem_ns_and_nsid_unmapping_handler_def init_then_def unmap_read_def)
  moreover have "ns_2_nsid_rows s2 = ns_2_nsid_rows s" "nsid_2_ns_rows s2 = nsid_2_ns_rows s" using u(3) m(3-5) r2 by auto
  moreover have "nem_ns_and_nsid_mapping_handler e1 e2 (Some nm) ns_id s = Some (NEM_FAILURE, s1)"
    using m(1) nm(2) by (simp add: nem_ns_and_nsid_mapping_handler_def)
  moreover have "of_nem_get_nsid_from_namespace (Some nm) s1 = Some (NEM_SUCCESS, Some ns_id)" using ns_lookups(1)[OF m(2) nm(1) row] by simp
  ultimately show ?thesis using again ns_lookups(5)[OF m(2) id] m(2) u(2) by blast
qed

theorem nem_large_number_half_mapped_witness:
  "of_nem_get_nsid_from_namespace (Some ''blue'')
     (snd (the (nem_ns_and_nsid_mapping_handler no_memory_env no_memory_env (Some ''blue'') 2000 demo_nem))) = Some (NEM_SUCCESS, Some 2000)"
  using nem_large_number_half_mapped[OF demo_nem_facts(1) no_memory_fresh2, of "''blue''" 2000] demo_rooms(1) demo_nem_facts(2)
  by (auto simp: ns_names_def nem_empty_def)

section \<open>Ports\<close>

lemma peth_desc [simp]:
  "ds_key dpid_2_peth_desc i = (pi_dp_id i, pi_port_id i)" "ds_key peth_2_dpid_desc i = (pi_ns_id i, pi_peth_id i)"
  "ds_find_check dpid_2_peth_desc k = None" "ds_check dpid_2_peth_desc i = None"
  "ds_find_check peth_2_dpid_desc (n, p) = (if p = 0 then Some NEM_FAILURE else None)"
  "ds_copy dpid_2_peth_desc i \<noteq> None \<longleftrightarrow> length (pi_peth_name i) < 16" "ds_copy peth_2_dpid_desc i \<noteq> None \<longleftrightarrow> length (pi_peth_name i) < 16"
  by (simp_all add: nem_desc_defs fits_def)

text \<open>C21: unmapping the port of a datapath tells its name and removes the row of the port, but leaves the row of its namespace; so
  mapping the port as it was fails from then on, and puts the row of the port back.\<close>

theorem nem_peth_unmapping_one_way:
  assumes inv: "nem_inv s" and rows: "dpid_2_peth_rows s a = Some i" "peth_2_dpid_rows s b = Some i"
    and i: "pi_peth_id i \<noteq> 0" "length (pi_peth_name i) < 16"
  shows "\<exists>s1. nem_dpid_peth_unmapping_handler (pi_dp_id i) (pi_port_id i) s = Some (NEM_SUCCESS, Some (pi_peth_name i), s1) \<and> nem_inv s1 \<and>
    dpid_2_peth_rows s1 = (dpid_2_peth_rows s)(a := None) \<and> peth_2_dpid_rows s1 = peth_2_dpid_rows s \<and>
    (\<forall>e1 e2. nem_fresh2 nem_map_dpid_to_peth e1 e2 i s1 \<and> nem_room db_dpid_2_peth s1 \<longrightarrow>
      (\<exists>s2. nem_dpid_peth_mapping_handler e1 e2 (pi_dp_id i) (pi_port_id i) (pi_ns_id i) (Some (pi_peth_name i)) (pi_peth_id i) s1 =
         Some (NEM_FAILURE, s2) \<and> nem_inv s2 \<and> ran (dpid_2_peth_rows s2) = insert i (ran (dpid_2_peth_rows s1)) \<and>
         peth_2_dpid_rows s2 = peth_2_dpid_rows s))"
proof -
  obtain s1 where u: "unmap_read (of_nem_dpid_2_peth_db_get_map_entry_handle (pi_dp_id i) (pi_port_id i))
      of_nem_dpid_2_peth_db_get_exact_map_entry nem_unmap_dpid_to_peth s = Some (NEM_SUCCESS, Some i, s1)"
    "nem_inv s1" "dpid_2_peth_rows s1 = (dpid_2_peth_rows s)(a := None)" "nem_unmap_dpid_to_peth a s = Some (NEM_SUCCESS, s1)"
    using peth_pair.fwd.unmap_read_present[OF inv rows(1)] by auto
  have r2: "peth_2_dpid_rows s1 = peth_2_dpid_rows s" by (rule peth_pair.del1_frame[OF u(4)])
  then have b: "peth_2_dpid_rows s1 b = Some i" using rows(2) by simp
  have "of_nem_peth_2_dpid_db_get_map_entry_handle (pi_ns_id i) (pi_peth_id i) s1 = Some (NEM_SUCCESS, Some b)"
    using peth_pair.rev.search_row[OF u(2) b] i(1) by simp
  then have "nem_dpid_peth_unmapping_handler (pi_dp_id i) (pi_port_id i) s = Some (NEM_SUCCESS, Some (pi_peth_name i), s1)"
    using u(1) by (simp add: nem_dpid_peth_unmapping_handler_def)
  moreover have "\<exists>s2. nem_dpid_peth_mapping_handler e1 e2 (pi_dp_id i) (pi_port_id i) (pi_ns_id i) (Some (pi_peth_name i)) (pi_peth_id i) s1 =
         Some (NEM_FAILURE, s2) \<and> nem_inv s2 \<and> ran (dpid_2_peth_rows s2) = insert i (ran (dpid_2_peth_rows s1)) \<and>
         peth_2_dpid_rows s2 = peth_2_dpid_rows s"
    if fr: "nem_fresh2 nem_map_dpid_to_peth e1 e2 i s1" and room: "nem_room db_dpid_2_peth s1" for e1 e2
  proof -
    have cp: "ds_copy dpid_2_peth_desc i \<noteq> None" "ds_copy peth_2_dpid_desc i \<noteq> None" unfolding peth_desc using i by simp_all
    have new: "\<forall>h j. dpid_2_peth_rows s1 h = Some j \<longrightarrow> ds_key dpid_2_peth_desc j \<noteq> ds_key dpid_2_peth_desc i"
    proof (intro allI impI notI)
      fix h j
      assume h: "dpid_2_peth_rows s1 h = Some j" "ds_key dpid_2_peth_desc j = ds_key dpid_2_peth_desc i"
      then have h': "h \<noteq> a" "dpid_2_peth_rows s h = Some j" using u(3) by (auto split: if_splits)
      then show False using peth_pair.fwd.unique_law[OF inv h'(2) rows(1)] h(2) by simp
    qed
    have no: "ds_check peth_2_dpid_desc i \<noteq> None \<or> ds_find_check peth_2_dpid_desc (ds_key peth_2_dpid_desc i) = None \<and>
      (\<exists>h j. peth_2_dpid_rows s1 h = Some j \<and> ds_key peth_2_dpid_desc j = ds_key peth_2_dpid_desc i)" using b i(1) by auto
    obtain s2 h where m: "map_both (nem_map_dpid_to_peth e1) (nem_map_peth_to_dpid e2) i s1 = Some (NEM_FAILURE, s2)" "nem_inv s2"
      "dpid_2_peth_rows s1 h = None" "dpid_2_peth_rows s2 = (dpid_2_peth_rows s1)(h \<mapsto> i)" "peth_2_dpid_rows s2 = peth_2_dpid_rows s1"
      by (rule peth_pair.map_both_half[OF u(2) fr[unfolded nem_fresh2_pairs] cp _ room new no]) simp_all
    have same: "\<lparr>pi_dp_id = pi_dp_id i, pi_ns_id = pi_ns_id i, pi_port_id = pi_port_id i, pi_peth_id = pi_peth_id i, pi_peth_name = pi_peth_name i\<rparr> = i"
      by simp
    have "nem_dpid_peth_mapping_handler e1 e2 (pi_dp_id i) (pi_port_id i) (pi_ns_id i) (Some (pi_peth_name i)) (pi_peth_id i) s1 =
      Some (NEM_FAILURE, s2)" using i(2) m(1) by (simp add: nem_dpid_peth_mapping_handler_def same)
    then show ?thesis using m(2-5) r2 by simp
  qed
  ultimately show ?thesis using u(2,3) r2 by blast
qed

lemma demo_port: "\<exists>s1 a b. nem_dpid_peth_mapping_handler no_memory_env no_memory_env 1 2 7 (Some ''eth0'') 3 demo_nem = Some (NEM_SUCCESS, s1) \<and>
    nem_inv s1 \<and> dpid_2_peth_rows s1 a = Some \<lparr>pi_dp_id = 1, pi_ns_id = 7, pi_port_id = 2, pi_peth_id = 3, pi_peth_name = ''eth0''\<rparr> \<and>
    peth_2_dpid_rows s1 b = Some \<lparr>pi_dp_id = 1, pi_ns_id = 7, pi_port_id = 2, pi_peth_id = 3, pi_peth_name = ''eth0''\<rparr>"
proof -
  have e: "dpid_2_peth_rows demo_nem = Map.empty" "peth_2_dpid_rows demo_nem = Map.empty" using demo_nem_facts(2) by (simp_all add: nem_empty_def)
  let ?i = "\<lparr>pi_dp_id = 1, pi_ns_id = 7, pi_port_id = 2, pi_peth_id = 3, pi_peth_name = ''eth0''\<rparr>"
  have cp: "ds_copy dpid_2_peth_desc ?i \<noteq> None" "ds_copy peth_2_dpid_desc ?i \<noteq> None" unfolding peth_desc by simp_all
  have c: "ds_check dpid_2_peth_desc ?i = None" "ds_check peth_2_dpid_desc ?i = None" by (simp_all add: peth_2_dpid_desc_def signed_ns_id_check_def)
  show ?thesis
    by (rule peth_pair.map_both_succeeds[OF demo_nem_facts(1) no_memory_fresh2[of nem_map_dpid_to_peth, unfolded nem_fresh2_pairs] cp c
          demo_rooms(3,4)]) (auto simp: e nem_dpid_peth_mapping_handler_def)
qed

theorem nem_peth_unmapping_one_way_witness:
  "\<exists>s2. nem_dpid_peth_unmapping_handler 1 2 (snd (the (nem_dpid_peth_mapping_handler no_memory_env no_memory_env 1 2 7 (Some ''eth0'') 3 demo_nem))) =
    Some (NEM_SUCCESS, Some ''eth0'', s2)"
proof -
  obtain s1 a b where s1: "nem_dpid_peth_mapping_handler no_memory_env no_memory_env 1 2 7 (Some ''eth0'') 3 demo_nem = Some (NEM_SUCCESS, s1)" "nem_inv s1"
    "dpid_2_peth_rows s1 a = Some \<lparr>pi_dp_id = 1, pi_ns_id = 7, pi_port_id = 2, pi_peth_id = 3, pi_peth_name = ''eth0''\<rparr>"
    "peth_2_dpid_rows s1 b = Some \<lparr>pi_dp_id = 1, pi_ns_id = 7, pi_port_id = 2, pi_peth_id = 3, pi_peth_name = ''eth0''\<rparr>" using demo_port by blast
  show ?thesis using nem_peth_unmapping_one_way[OF s1(2-4)] s1(1) by auto
qed

section \<open>Namespaces of a datapath\<close>

lemma dpns_desc [simp]:
  "ds_key dpid_and_dpnsid_desc i = (dd_dp_id i, dd_namespace_name i)" "ds_find_check dpid_and_dpnsid_desc k = None"
  "ds_check dpid_and_dpnsid_desc i = None" "ds_copy dpid_and_dpnsid_desc i \<noteq> None \<longleftrightarrow> length (dd_namespace_name i) < 16"
  by (simp_all add: nem_desc_defs fits_def)

lemma nem_inv_numbers: "nem_inv s \<Longrightarrow> dpn_ok l \<Longrightarrow> nem_inv (s\<lparr>of_nem_dpid_ns_info_g := l\<rparr>)"
  by (simp add: nem_inv_def nem_held_def nem_pools_def)

lemma numbers_frame [simp]:
  "dpnsid_rows (s\<lparr>of_nem_dpid_ns_info_g := l\<rparr>) = dpnsid_rows s" "nem_fresh e (s\<lparr>of_nem_dpid_ns_info_g := l\<rparr>) = nem_fresh e s"
  "nem_room db_dpid_and_dpnsid (s\<lparr>of_nem_dpid_ns_info_g := l\<rparr>) = nem_room db_dpid_and_dpnsid s"
  by (simp_all add: dpnsid_rows_def nem_fresh_def nem_held_def nem_pools_def nem_room_def)

text \<open>The numbers in use at a datapath are below the next one.\<close>

definition numbers_below :: "nem_sys \<Rightarrow> bool" where
  "numbers_below s \<longleftrightarrow> (\<forall>i\<in>ran (dpnsid_rows s). \<exists>k. dpn_next (of_nem_dpid_ns_info_g s) (dd_dp_id i) = Some k \<and> dd_dp_ns_id i < k)"

lemma u16_below_next: "k < (65535::u16) \<Longrightarrow> x \<le> k \<Longrightarrow> x < k + 1"
  by (simp add: word_less_nat_alt word_le_nat_alt unat_word_ariths)

lemma dpns_lookup:
  assumes "nem_inv s"
  shows "(dp, nm) \<in> (\<lambda>i. (dd_dp_id i, dd_namespace_name i)) ` ran (dpnsid_rows s) \<Longrightarrow>
      \<exists>n. of_nem_get_dpnsid_from_dpid_and_namespace dp (Some nm) s = Some (NEM_SUCCESS, n)"
    "(dp, nm) \<notin> (\<lambda>i. (dd_dp_id i, dd_namespace_name i)) ` ran (dpnsid_rows s) \<Longrightarrow>
      of_nem_get_dpnsid_from_dpid_and_namespace dp (Some nm) s = Some (NEM_ERROR_INVALID_HANDLE, None)"
proof -
  assume "(dp, nm) \<in> (\<lambda>i. (dd_dp_id i, dd_namespace_name i)) ` ran (dpnsid_rows s)"
  then obtain h i where "dpnsid_rows s h = Some i" "(dp, nm) = (dd_dp_id i, dd_namespace_name i)" by (auto simp: ran_def)
  then show "\<exists>n. of_nem_get_dpnsid_from_dpid_and_namespace dp (Some nm) s = Some (NEM_SUCCESS, n)"
    using dpnsid.slot_lookup_row[OF assms, of h i] by (simp add: of_nem_get_dpnsid_from_dpid_and_namespace_def dpnsid_rows_def)
next
  assume "(dp, nm) \<notin> (\<lambda>i. (dd_dp_id i, dd_namespace_name i)) ` ran (dpnsid_rows s)"
  then show "of_nem_get_dpnsid_from_dpid_and_namespace dp (Some nm) s = Some (NEM_ERROR_INVALID_HANDLE, None)"
    using dpnsid.slot_lookup_none[OF assms, of "(dp, nm)", unfolded no_row_ran]
    by (simp add: of_nem_get_dpnsid_from_dpid_and_namespace_def dpnsid_rows_def)
qed

lemma dpns_mapping_run:
  assumes "nem_inv s" "3 \<le> length nm" "length nm < 16" "(dp, nm) \<notin> (\<lambda>i. (dd_dp_id i, dd_namespace_name i)) ` ran (dpnsid_rows s)"
    "nem_generate_dpnsid_for_dpid dp (of_nem_dpid_ns_info_g s) = (NEM_SUCCESS, Some k, l')"
  shows "nem_dpid_dpnsid_mapping_handler e dp (Some nm) s =
    map_option (\<lambda>(rc2, _, s2). (if rc2 \<noteq> NEM_SUCCESS then NEM_FAILURE else NEM_SUCCESS, Some k, s2))
      (nem_map_dpid_to_dpnsid e (Some \<lparr>dd_dp_id = dp, dd_dp_ns_id = k, dd_namespace_name = nm\<rparr>) (s\<lparr>of_nem_dpid_ns_info_g := l'\<rparr>))"
proof -
  have "nd_table (db_dpid_and_dpnsid s) \<noteq> No_table" using dpnsid.slot_db_ok[OF assms(1)] by (auto simp: db_ok_def db_inv_def)
  then show ?thesis using dpns_lookup(2)[OF assms(1,4)] assms(2,3,5)
    by (simp add: nem_dpid_dpnsid_mapping_handler_def nem_validate_namespace_and_generate_dpnsid_for_dpid_def)
qed

lemma dpns_mapping_refused:
  assumes inv: "nem_inv s" and nm: "3 \<le> length nm" "length nm < 16"
    and no: "(dp, nm) \<in> (\<lambda>i. (dd_dp_id i, dd_namespace_name i)) ` ran (dpnsid_rows s) \<or>
      nem_generate_dpnsid_for_dpid dp (of_nem_dpid_ns_info_g s) = (NEM_FAILURE, r, l)"
  shows "nem_dpid_dpnsid_mapping_handler e dp (Some nm) s = Some (NEM_FAILURE, None, s)"
proof -
  have t: "nd_table (db_dpid_and_dpnsid s) \<noteq> No_table" using dpnsid.slot_db_ok[OF inv] by (auto simp: db_ok_def db_inv_def)
  show ?thesis
  proof (cases "(dp, nm) \<in> (\<lambda>i. (dd_dp_id i, dd_namespace_name i)) ` ran (dpnsid_rows s)")
    case True
    then show ?thesis using dpns_lookup(1)[OF inv True] t nm
      by (auto simp: nem_dpid_dpnsid_mapping_handler_def nem_validate_namespace_and_generate_dpnsid_for_dpid_def)
  next
    case False
    then have "nem_generate_dpnsid_for_dpid dp (of_nem_dpid_ns_info_g s) = (NEM_FAILURE, r, l)" using no by blast
    then show ?thesis using dpns_lookup(2)[OF inv False] t nm
      by (simp add: nem_dpid_dpnsid_mapping_handler_def nem_validate_namespace_and_generate_dpnsid_for_dpid_def)
  qed
qed

lemma dpns_added:
  assumes inv: "nem_inv s" and fr: "nem_fresh e s" and len: "length (dd_namespace_name i) < 16"
    and new: "(dd_dp_id i, dd_namespace_name i) \<notin> (\<lambda>j. (dd_dp_id j, dd_namespace_name j)) ` ran (dpnsid_rows s)"
  obtains rc h s' where "nem_map_dpid_to_dpnsid e (Some i) s = Some (rc, h, s')" "nem_inv s'"
    "of_nem_dpid_ns_info_g s' = of_nem_dpid_ns_info_g s"
    "rc = NEM_SUCCESS \<and> ran (dpnsid_rows s') = insert i (ran (dpnsid_rows s)) \<or>
     rc = NEM_FAILURE \<and> dpnsid_rows s' = dpnsid_rows s \<and> \<not> nem_room db_dpid_and_dpnsid s"
proof -
  have cp: "ds_copy dpid_and_dpnsid_desc i \<noteq> None" unfolding dpns_desc using len by simp
  have "\<not> (\<exists>a j. dpnsid_rows s a = Some j \<and> ds_key dpid_and_dpnsid_desc j = ds_key dpid_and_dpnsid_desc i)"
    using new unfolding dpns_desc by (metis (mono_tags, lifting) imageI ranI)
  then obtain rc h s' where a: "nem_map_dpid_to_dpnsid e (Some i) s = Some (rc, h, s')" "nem_inv s'"
    "rc = NEM_SUCCESS \<and> ran (dpnsid_rows s') = insert i (ran (dpnsid_rows s)) \<or>
     rc = NEM_FAILURE \<and> dpnsid_rows s' = dpnsid_rows s \<and> \<not> nem_room db_dpid_and_dpnsid s"
    using dpns_db.add_law[OF inv fr cp] by (auto simp: if_not_P)
  moreover have "of_nem_dpid_ns_info_g s' = of_nem_dpid_ns_info_g s"
    using a(1) by (auto simp: nem_op_defs nem_slot_defs dest!: slot_ops_put)
  ultimately show thesis using that by blast
qed

lemma numbers_below_next:
  assumes b: "numbers_below s" and k: "k = (case dpn_next (of_nem_dpid_ns_info_g s) dp of None \<Rightarrow> 0 | Some j \<Rightarrow> j)"
  shows "i \<in> ran (dpnsid_rows s) \<Longrightarrow> dd_dp_id i = dp \<Longrightarrow> dd_dp_ns_id i \<noteq> k"
    "k < 65535 \<Longrightarrow> dpn_next (of_nem_dpid_ns_info_g s') = (dpn_next (of_nem_dpid_ns_info_g s))(dp \<mapsto> k + 1) \<Longrightarrow>
      ran (dpnsid_rows s') \<subseteq> insert \<lparr>dd_dp_id = dp, dd_dp_ns_id = k, dd_namespace_name = nm\<rparr> (ran (dpnsid_rows s)) \<Longrightarrow> numbers_below s'"
proof -
  show "i \<in> ran (dpnsid_rows s) \<Longrightarrow> dd_dp_id i = dp \<Longrightarrow> dd_dp_ns_id i \<noteq> k" using b k unfolding numbers_below_def by force
next
  assume u: "k < 65535" "dpn_next (of_nem_dpid_ns_info_g s') = (dpn_next (of_nem_dpid_ns_info_g s))(dp \<mapsto> k + 1)"
    "ran (dpnsid_rows s') \<subseteq> insert \<lparr>dd_dp_id = dp, dd_dp_ns_id = k, dd_namespace_name = nm\<rparr> (ran (dpnsid_rows s))"
  show "numbers_below s'" unfolding numbers_below_def
  proof
    fix i
    assume "i \<in> ran (dpnsid_rows s')"
    then consider "i = \<lparr>dd_dp_id = dp, dd_dp_ns_id = k, dd_namespace_name = nm\<rparr>" | "i \<in> ran (dpnsid_rows s)" using u(3) by blast
    then show "\<exists>j. dpn_next (of_nem_dpid_ns_info_g s') (dd_dp_id i) = Some j \<and> dd_dp_ns_id i < j"
    proof cases
      case 1
      then show ?thesis using u(1,2) by (simp add: u16_below_next)
    next
      case 2
      then obtain j where j: "dpn_next (of_nem_dpid_ns_info_g s) (dd_dp_id i) = Some j" "dd_dp_ns_id i < j" using b unfolding numbers_below_def by blast
      show ?thesis
      proof (cases "dd_dp_id i = dp")
        case True
        then have "dd_dp_ns_id i < k + 1" using k j u(1) by (simp add: u16_below_next)
        then show ?thesis using True u(2) by simp
      qed (use j u(2) in simp)
    qed
  qed
qed

text \<open>C18: mapping a namespace at a datapath fails without effect when the datapath has the name, or the array of numbers has no entry
  for it. Otherwise it takes the next number of the datapath, 0 for a datapath that is not in the array, and counts this number on;
  then it adds the row with the number, or fails when the pool has no block, in which case no row changes but the number is consumed all the
  same. The number is new at the datapath as long as all numbers in use at each datapath are below its next one and this has not reached
  65535. That is so when the databases are empty and mappings keep it so, but it need not hold after a namespace has been unmapped, which takes the
  datapath out of the array: then the next number is 0 again.\<close>

theorem nem_dpnsid_mapping_ok:
  assumes inv: "nem_inv s" and fr: "nem_fresh e s" and nm: "3 \<le> length nm" "length nm < 16"
  shows "\<exists>rc n s'. nem_dpid_dpnsid_mapping_handler e dp (Some nm) s = Some (rc, n, s') \<and> nem_inv s' \<and>
    (case n of None \<Rightarrow> rc = NEM_FAILURE \<and> s' = s \<and> ((dp, nm) \<in> (\<lambda>i. (dd_dp_id i, dd_namespace_name i)) ` ran (dpnsid_rows s) \<or>
         dpn_next (of_nem_dpid_ns_info_g s) dp = None \<and> (\<forall>x\<in>set (of_nem_dpid_ns_info_g s). dn_valid x))
     | Some k \<Rightarrow> k = (case dpn_next (of_nem_dpid_ns_info_g s) dp of None \<Rightarrow> 0 | Some j \<Rightarrow> j) \<and>
         dpn_next (of_nem_dpid_ns_info_g s') = (dpn_next (of_nem_dpid_ns_info_g s))(dp \<mapsto> k + 1) \<and>
         (rc = NEM_SUCCESS \<and> ran (dpnsid_rows s') = insert \<lparr>dd_dp_id = dp, dd_dp_ns_id = k, dd_namespace_name = nm\<rparr> (ran (dpnsid_rows s)) \<or>
          rc = NEM_FAILURE \<and> dpnsid_rows s' = dpnsid_rows s \<and> \<not> nem_room db_dpid_and_dpnsid s) \<and>
         (numbers_below s \<and> k < 65535 \<longrightarrow> numbers_below s' \<and> (\<forall>i\<in>ran (dpnsid_rows s). dd_dp_id i = dp \<longrightarrow> dd_dp_ns_id i \<noteq> k)) \<and>
         (nem_empty s \<longrightarrow> numbers_below s))"
proof -
  have start: "numbers_below s" if "nem_empty s" using that by (simp add: nem_empty_def numbers_below_def)
  let ?l = "of_nem_dpid_ns_info_g s" and ?keys = "(\<lambda>i. (dd_dp_id i, dd_namespace_name i)) ` ran (dpnsid_rows s)"
  have dok: "dpn_ok ?l" using inv by (simp add: nem_inv_def)
  obtain rc r l' where g: "nem_generate_dpnsid_for_dpid dp ?l = (rc, r, l')" by (metis prod_cases3)
  note gen = dpn_generate[OF dok g]
  consider (key) "(dp, nm) \<in> ?keys" | (full) "r = None" | (number) k where "(dp, nm) \<notin> ?keys" "r = Some k" by blast
  then show ?thesis
  proof cases
    case key
    then have "nem_dpid_dpnsid_mapping_handler e dp (Some nm) s = Some (NEM_FAILURE, None, s)" by (intro dpns_mapping_refused[OF inv nm] disjI1)
    then show ?thesis using inv key by (intro exI[of _ NEM_FAILURE] exI[of _ None] exI[of _ s]) (simp only: option.case simp_thms)
  next
    case full
    then have "nem_dpid_dpnsid_mapping_handler e dp (Some nm) s = Some (NEM_FAILURE, None, s)" using gen g
      by (intro dpns_mapping_refused[OF inv nm] disjI2) simp
    then show ?thesis using inv full gen by (intro exI[of _ NEM_FAILURE] exI[of _ None] exI[of _ s]) simp
  next
    case (number k)
    let ?s = "s\<lparr>of_nem_dpid_ns_info_g := l'\<rparr>" and ?i = "\<lparr>dd_dp_id = dp, dd_dp_ns_id = k, dd_namespace_name = nm\<rparr>"
    have G: "rc = NEM_SUCCESS" "k = (case dpn_next ?l dp of None \<Rightarrow> 0 | Some j \<Rightarrow> j)" "dpn_next l' = (dpn_next ?l)(dp \<mapsto> k + 1)" "dpn_ok l'"
      using gen number(2) by simp_all
    note run = dpns_mapping_run[OF inv nm number(1) g[unfolded G(1) number(2)], of e]
    obtain rc2 h s' where a: "nem_map_dpid_to_dpnsid e (Some ?i) ?s = Some (rc2, h, s')" "nem_inv s'" "of_nem_dpid_ns_info_g s' = l'"
      "rc2 = NEM_SUCCESS \<and> ran (dpnsid_rows s') = insert ?i (ran (dpnsid_rows s)) \<or>
       rc2 = NEM_FAILURE \<and> dpnsid_rows s' = dpnsid_rows s \<and> \<not> nem_room db_dpid_and_dpnsid s"
      by (rule dpns_added[OF nem_inv_numbers[OF inv G(4)], of e ?i]) (use fr nm number(1) in simp_all)
    have below: "numbers_below s'" if "numbers_below s" "k < 65535"
      by (rule numbers_below_next(2)[OF that(1) G(2) that(2)]) (use a(3,4) G(3) in auto)
    show ?thesis
      by (intro exI[of _ "if rc2 \<noteq> NEM_SUCCESS then NEM_FAILURE else NEM_SUCCESS"] exI[of _ "Some k"] exI[of _ s'])
        (use run a G(2,3) below start numbers_below_next(1)[OF _ G(2)] in auto)
  qed
qed

text \<open>The first namespace of a datapath in the module that has just been started.\<close>

lemma demo_dpns:
  obtains s1 h where "nem_dpid_dpnsid_mapping_handler no_memory_env 5 (Some ''blue'') demo_nem = Some (NEM_SUCCESS, Some 0, s1)" "nem_inv s1"
    "dpnsid_rows s1 h = Some \<lparr>dd_dp_id = 5, dd_dp_ns_id = 0, dd_namespace_name = ''blue''\<rparr>" "dpn_next (of_nem_dpid_ns_info_g s1) 5 = Some 1"
proof -
  let ?i = "\<lparr>dd_dp_id = 5, dd_dp_ns_id = 0, dd_namespace_name = ''blue''\<rparr>"
  have e: "dpnsid_rows demo_nem = Map.empty" using demo_nem_facts(2) by (simp add: nem_empty_def)
  obtain l where g: "nem_generate_dpnsid_for_dpid 5 (of_nem_dpid_ns_info_g demo_nem) = (NEM_SUCCESS, Some 0, l)"
    unfolding demo_nem_facts(4) nem_dpid_and_dpnsid_list_init_def numeral_nat
    by (simp add: nem_generate_dpnsid_for_dpid_def update_first_None dp_entry_def unused_dp_def)
  have l: "dpn_ok l" "dpn_next l 5 = Some 1" using dpn_generate[OF _ g] dpn_init by (simp_all add: demo_nem_facts(4))
  have inv: "nem_inv (demo_nem\<lparr>of_nem_dpid_ns_info_g := l\<rparr>)" by (rule nem_inv_numbers[OF demo_nem_facts(1) l(1)])
  have cp: "ds_copy dpid_and_dpnsid_desc ?i \<noteq> None" unfolding dpns_desc by simp
  obtain h s1 where a: "nem_map_dpid_to_dpnsid no_memory_env (Some ?i) (demo_nem\<lparr>of_nem_dpid_ns_info_g := l\<rparr>) = Some (NEM_SUCCESS, Some h, s1)"
    "nem_inv s1" "dpnsid_rows s1 = (dpnsid_rows demo_nem)(h \<mapsto> ?i)"
    using dpns_db.add_succeeds[OF inv no_memory_fresh cp] demo_rooms(5) by (auto simp: e)
  have "of_nem_dpid_ns_info_g s1 = l" using a(1) by (auto simp: nem_op_defs nem_slot_defs dest!: slot_ops_put)
  then show thesis using l(2) by (intro that[OF _ a(2)]) (use dpns_mapping_run[OF demo_nem_facts(1) _ _ _ g, of "''blue''" no_memory_env] a(1,3) in \<open>simp_all add: e\<close>)
qed

theorem nem_dpnsid_mapping_ok_witness:
  "\<exists>s1. nem_dpid_dpnsid_mapping_handler no_memory_env 5 (Some ''blue'') demo_nem = Some (NEM_SUCCESS, Some 0, s1) \<and>
    numbers_below s1 \<and> dpn_next (of_nem_dpid_ns_info_g s1) 5 = Some 1"
proof -
  obtain s1 h where s1: "nem_dpid_dpnsid_mapping_handler no_memory_env 5 (Some ''blue'') demo_nem = Some (NEM_SUCCESS, Some 0, s1)"
    "dpn_next (of_nem_dpid_ns_info_g s1) 5 = Some 1" by (rule demo_dpns)
  have "numbers_below s1"
    using nem_dpnsid_mapping_ok[OF demo_nem_facts(1) no_memory_fresh, of "''blue''" 5] demo_nem_facts(2) s1(1) by auto
  then show ?thesis using s1 by blast
qed

lemma dpns_read:
  assumes "nem_inv s" "dpnsid_rows s h = Some i"
  shows "nem_dpid_and_dpnsid_db_get_map_entry_handle (dd_dp_id i) (dd_namespace_name i) s = Some (NEM_SUCCESS, Some h)"
    "nem_dpid_and_dpnsid_db_get_exact_map_entry h s = Some (NEM_SUCCESS, Some i)"
  using dpns_db.search_row[OF assms] dpns_db.exact_law[OF assms] by simp_all

lemma dpns_unmap:
  assumes inv: "nem_inv s" and row: "dpnsid_rows s h = Some i"
  shows "case dpn_next (of_nem_dpid_ns_info_g s) (dd_dp_id i) of
      None \<Rightarrow> nem_unmap_dpid_to_dpnsid h s = Some (NEM_FAILURE, s\<lparr>nem_rcu := nem_rcu s + 1\<rparr>)
    | Some k \<Rightarrow> (\<exists>s1. nem_unmap_dpid_to_dpnsid h s = Some (NEM_SUCCESS, s1) \<and> nem_inv s1 \<and> dpnsid_rows s1 = (dpnsid_rows s)(h := None) \<and>
        nem_rcu s1 = nem_rcu s \<and> dpn_next (of_nem_dpid_ns_info_g s1) = (dpn_next (of_nem_dpid_ns_info_g s))(dd_dp_id i := None))"
proof -
  let ?l = "of_nem_dpid_ns_info_g s"
  obtain t n where t: "nd_table (db_dpid_and_dpnsid s) = Table t" "MCHASH_ACCESS_NODE (index_of h) (magic_of h) t = Some (Some (Some n))"
    "me_info (nd_entries (db_dpid_and_dpnsid s) n) = i"
    using dpns_read(2)[OF inv row]
    by (auto simp: nem_dpid_and_dpnsid_db_get_exact_map_entry_def slot_exact_def db_get_exact_def Option.bind_eq_Some_conv
        split: table_ptr.splits option.splits)
  obtain rc l where d: "nem_delete_dpid_from_dpid_and_dpnsid_list (dd_dp_id i) ?l = (rc, l)" by (cases "nem_delete_dpid_from_dpid_and_dpnsid_list (dd_dp_id i) ?l")
  have dok: "dpn_ok ?l" using inv by (simp add: nem_inv_def)
  note del = dpn_delete[OF dok d]
  show ?thesis
  proof (cases "dpn_next ?l (dd_dp_id i)")
    case None
    then show ?thesis using t d del by (simp add: nem_unmap_dpid_to_dpnsid_def)
  next
    case (Some k)
    let ?s = "s\<lparr>of_nem_dpid_ns_info_g := l\<rparr>"
    have inv1: "nem_inv ?s" using nem_inv_numbers[OF inv] del by blast
    obtain s1 where s1: "slot_unmap dpid_and_dpnsid_slot h ?s = Some (NEM_SUCCESS, s1)" "nem_inv s1" "dpnsid_rows s1 = (dpnsid_rows ?s)(h := None)"
      using dpns_db.del_law[OF inv1, of h i] row by auto
    have "nem_unmap_dpid_to_dpnsid h s = Some (NEM_SUCCESS, s1)" using t d del Some s1(1) by (simp add: nem_unmap_dpid_to_dpnsid_def)
    moreover have "nem_rcu s1 = nem_rcu s" "of_nem_dpid_ns_info_g s1 = l" using s1(1) by (auto simp: nem_slot_defs dest!: slot_ops_put)
    ultimately show ?thesis using Some s1(2,3) del by simp
  qed
qed

text \<open>C19: unmapping a namespace of a datapath returns its number, removes its row and takes the datapath out of the array of numbers, so that
  the next namespace of the datapath gets the number 0 again; unmapping another namespace of the datapath then fails, changes no row and
  leaves the RCU read lock held.\<close>

theorem nem_dpnsid_unmapping_ok:
  assumes inv: "nem_inv s" and row: "dpnsid_rows s h = Some i"
  shows "case dpn_next (of_nem_dpid_ns_info_g s) (dd_dp_id i) of
      None \<Rightarrow> nem_dpid_dpnsid_unmapping_handler (dd_dp_id i) (Some (dd_namespace_name i)) s = Some (NEM_FAILURE, None, s\<lparr>nem_rcu := nem_rcu s + 1\<rparr>)
    | Some k \<Rightarrow> (\<exists>s1. nem_dpid_dpnsid_unmapping_handler (dd_dp_id i) (Some (dd_namespace_name i)) s = Some (NEM_SUCCESS, Some (dd_dp_ns_id i), s1) \<and>
        nem_inv s1 \<and> dpnsid_rows s1 = (dpnsid_rows s)(h := None) \<and> nem_rcu s1 = nem_rcu s \<and>
        dpn_next (of_nem_dpid_ns_info_g s1) = (dpn_next (of_nem_dpid_ns_info_g s))(dd_dp_id i := None) \<and>
        (\<forall>h' j. dpnsid_rows s1 h' = Some j \<and> dd_dp_id j = dd_dp_id i \<longrightarrow>
           nem_dpid_dpnsid_unmapping_handler (dd_dp_id j) (Some (dd_namespace_name j)) s1 = Some (NEM_FAILURE, None, s1\<lparr>nem_rcu := nem_rcu s1 + 1\<rparr>)))"
proof -
  have stuck: "nem_dpid_dpnsid_unmapping_handler (dd_dp_id i) (Some (dd_namespace_name i)) s = Some (NEM_FAILURE, None, s\<lparr>nem_rcu := nem_rcu s + 1\<rparr>)"
    if "nem_inv s" "dpnsid_rows s h = Some i" "dpn_next (of_nem_dpid_ns_info_g s) (dd_dp_id i) = None" for s h i
    using dpns_read[OF that(1,2)] dpns_unmap[OF that(1,2)] that(3) by (simp add: nem_dpid_dpnsid_unmapping_handler_def unmap_read_def)
  show ?thesis
  proof (cases "dpn_next (of_nem_dpid_ns_info_g s) (dd_dp_id i)")
    case None
    then show ?thesis using stuck[OF inv row] by simp
  next
    case (Some k)
    obtain s1 where u: "nem_unmap_dpid_to_dpnsid h s = Some (NEM_SUCCESS, s1)" "nem_inv s1" "dpnsid_rows s1 = (dpnsid_rows s)(h := None)"
      "nem_rcu s1 = nem_rcu s" "dpn_next (of_nem_dpid_ns_info_g s1) = (dpn_next (of_nem_dpid_ns_info_g s))(dd_dp_id i := None)"
      using dpns_unmap[OF inv row] Some by auto
    have "nem_dpid_dpnsid_unmapping_handler (dd_dp_id i) (Some (dd_namespace_name i)) s = Some (NEM_SUCCESS, Some (dd_dp_ns_id i), s1)"
      using dpns_read[OF inv row] u(1) by (simp add: nem_dpid_dpnsid_unmapping_handler_def unmap_read_def)
    moreover have "nem_dpid_dpnsid_unmapping_handler (dd_dp_id j) (Some (dd_namespace_name j)) s1 = Some (NEM_FAILURE, None, s1\<lparr>nem_rcu := nem_rcu s1 + 1\<rparr>)"
      if "dpnsid_rows s1 h' = Some j" "dd_dp_id j = dd_dp_id i" for h' j
      using stuck[OF u(2) that(1)] u(5) that(2) by simp
    ultimately show ?thesis using u(2-5) unfolding Some option.case by blast
  qed
qed

theorem nem_dpnsid_unmapping_ok_witness:
  "\<exists>s1 s2. nem_dpid_dpnsid_mapping_handler no_memory_env 5 (Some ''blue'') demo_nem = Some (NEM_SUCCESS, Some 0, s1) \<and>
    nem_dpid_dpnsid_unmapping_handler 5 (Some ''blue'') s1 = Some (NEM_SUCCESS, Some 0, s2)"
proof -
  obtain s1 h where s1: "nem_dpid_dpnsid_mapping_handler no_memory_env 5 (Some ''blue'') demo_nem = Some (NEM_SUCCESS, Some 0, s1)" "nem_inv s1"
    "dpnsid_rows s1 h = Some \<lparr>dd_dp_id = 5, dd_dp_ns_id = 0, dd_namespace_name = ''blue''\<rparr>" "dpn_next (of_nem_dpid_ns_info_g s1) 5 = Some 1"
    by (rule demo_dpns)
  show ?thesis using nem_dpnsid_unmapping_ok[OF s1(2,3)] s1(1,4) by auto
qed

section \<open>Enumeration\<close>

text \<open>Starting at the first row and asking for the next one gives all rows, each once; a handle without a row is refused.\<close>

definition enumerates ::
  "(nem_sys \<Rightarrow> (int \<times> ('i \<times> u64) option) option) \<Rightarrow> (u64 \<Rightarrow> nem_sys \<Rightarrow> (int \<times> ('i \<times> u64) option) option) \<Rightarrow> (nem_sys \<Rightarrow> u64 \<rightharpoonup> 'i) \<Rightarrow> nem_sys \<Rightarrow> bool" where
  "enumerates first nxt rows s \<longleftrightarrow> (\<exists>rs. distinct (map snd rs) \<and> (\<forall>i h. (i, h) \<in> set rs \<longleftrightarrow> rows s h = Some i) \<and>
     first s = Some (case rs of [] \<Rightarrow> (NEM_ERROR_NO_MORE_ENTRIES, None) | r # _ \<Rightarrow> (NEM_SUCCESS, Some r)) \<and>
     (\<forall>h. nxt h s = Some (case dropWhile (\<lambda>r. snd r \<noteq> h) rs of [] \<Rightarrow> (NEM_ERROR_INVALID_HANDLE, None)
        | _ # [] \<Rightarrow> (NEM_ERROR_NO_MORE_ENTRIES, None) | _ # r # _ \<Rightarrow> (NEM_SUCCESS, Some r))))"

lemmas nem_enum_defs =
  of_nem_ns_2_nsid_db_get_first_map_entry_def of_nem_ns_2_nsid_db_get_next_map_entry_def of_nem_nsid_2_ns_db_get_first_map_entry_def
  of_nem_nsid_2_ns_db_get_next_map_entry_def of_nem_dpid_2_nsid_db_get_first_map_entry_def of_nem_dpid_2_nsid_db_get_next_map_entry_def
  of_nem_nsid_2_dpid_db_get_first_map_entry_def of_nem_nsid_2_dpid_db_get_next_map_entry_def
  of_nem_dpid_2_peth_db_get_first_map_entry_def of_nem_dpid_2_peth_db_get_next_map_entry_def
  nem_dpid_and_dpnsid_db_get_first_map_entry_def nem_dpid_and_dpnsid_db_get_next_map_entry_def

lemmas nem_unmap_all_defs =
  nem_ns_to_nsid_unmap_all_entries_def nem_nsid_to_ns_unmap_all_entries_def nem_dpid_to_nsid_unmap_all_entries_def
  nem_nsid_to_dpid_unmap_all_entries_def nem_dpid_to_peth_unmap_all_entries_def nem_peth_to_dpid_unmap_all_entries_def

context nem_slot_laws
begin

lemma slot_unmap_all:
  assumes inv: "nem_inv s"
  shows "\<exists>s'. slot_unmap_all S s = Some (NEM_SUCCESS, s') \<and> nem_inv s' \<and> srows s' = Map.empty"
proof -
  obtain d where d: "db_unmap_all (\<lambda>_. Some) () (sl_get S s) = Some (NEM_SUCCESS, (), d)" "db_ok (sl_desc S) d" "db_abs d = Map.empty"
    "db_held d = db_held (sl_get S s)" "nd_pool d = nd_pool (sl_get S s)" 
    using unmap_all_ok[OF slot_db_ok[OF inv], of "()"] by (elim exE conjE) (rule that)
  then show ?thesis using put_same_inv[OF inv d(2,5,4)] by (simp add: slot_unmap_all_def get_put)
qed

lemma slot_enumerates: "nem_inv s \<Longrightarrow> enumerates (slot_first S) (slot_next S) srows s"
  using enumerate_ok[OF slot_db_ok] unfolding enumerates_def slot_first_def slot_next_def by blast

end

lemma enumerates_image:
  assumes "enumerates first nxt rows s"
  shows "enumerates (\<lambda>s. map_option (apsnd (map_option (apfst f))) (first s))
    (\<lambda>h s. map_option (apsnd (map_option (apfst f))) (nxt h s)) (\<lambda>s. map_option f \<circ> rows s) s"
proof -
  obtain rs where rs: "distinct (map snd rs)" "\<forall>i h. (i, h) \<in> set rs \<longleftrightarrow> rows s h = Some i"
    "first s = Some (case rs of [] \<Rightarrow> (NEM_ERROR_NO_MORE_ENTRIES, None) | r # _ \<Rightarrow> (NEM_SUCCESS, Some r))"
    "\<forall>h. nxt h s = Some (case dropWhile (\<lambda>r. snd r \<noteq> h) rs of [] \<Rightarrow> (NEM_ERROR_INVALID_HANDLE, None)
        | _ # [] \<Rightarrow> (NEM_ERROR_NO_MORE_ENTRIES, None) | _ # r # _ \<Rightarrow> (NEM_SUCCESS, Some r))"
    using assms unfolding enumerates_def by blast
  have snd: "map snd (map (apfst f) rs) = map snd rs" by simp
  have mem: "(i, h) \<in> set (map (apfst f) rs) \<longleftrightarrow> (map_option f \<circ> rows s) h = Some i" for i h
  proof -
    have "(i, h) \<in> set (map (apfst f) rs) \<longleftrightarrow> (\<exists>j. (j, h) \<in> set rs \<and> i = f j)" by force
    then show ?thesis using rs(2) by auto
  qed
  have drop: "dropWhile (\<lambda>r. snd r \<noteq> h) (map (apfst f) rs) = map (apfst f) (dropWhile (\<lambda>r. snd r \<noteq> h) rs)" for h
    by (simp add: dropWhile_map comp_def)
  have nxt: "apsnd (map_option (apfst f)) (case d of [] \<Rightarrow> (NEM_ERROR_INVALID_HANDLE, None)
        | _ # [] \<Rightarrow> (NEM_ERROR_NO_MORE_ENTRIES, None) | _ # r # _ \<Rightarrow> (NEM_SUCCESS, Some r)) =
      (case map (apfst f) d of [] \<Rightarrow> (NEM_ERROR_INVALID_HANDLE, None)
        | _ # [] \<Rightarrow> (NEM_ERROR_NO_MORE_ENTRIES, None) | _ # r # _ \<Rightarrow> (NEM_SUCCESS, Some r))" for d
    by (cases d; cases "tl d") auto
  show ?thesis unfolding enumerates_def
  proof (rule exI[of _ "map (apfst f) rs"], intro conjI)
    show "distinct (map snd (map (apfst f) rs))" unfolding snd by (rule rs(1))
    show "\<forall>i h. (i, h) \<in> set (map (apfst f) rs) \<longleftrightarrow> (map_option f \<circ> rows s) h = Some i" using mem by blast
    show "map_option (apsnd (map_option (apfst f))) (first s) = Some (case map (apfst f) rs of [] \<Rightarrow> (NEM_ERROR_NO_MORE_ENTRIES, None)
        | r # _ \<Rightarrow> (NEM_SUCCESS, Some r))" unfolding rs(3) by (simp split: list.split)
    show "\<forall>h. map_option (apsnd (map_option (apfst f))) (nxt h s) = Some (case dropWhile (\<lambda>r. snd r \<noteq> h) (map (apfst f) rs) of
        [] \<Rightarrow> (NEM_ERROR_INVALID_HANDLE, None) | _ # [] \<Rightarrow> (NEM_ERROR_NO_MORE_ENTRIES, None) | _ # r # _ \<Rightarrow> (NEM_SUCCESS, Some r))"
      unfolding drop rs(4)[rule_format] option.map by (intro allI arg_cong[where f = Some] nxt)
  qed
qed

text \<open>C22: each of the seven databases is enumerated completely: the first row and the row after a handle visit every row once. The rows are
  returned as they were entered, except for the database of \<^verbatim>\<open>nempeth2dp.c\<close>: there the field \<^verbatim>\<open>peth_id\<close>, a part of the key, is
  never stored in the structure of the caller and keeps the value \<open>old\<close> it had before the call, while the other fields are those of
  the row.\<close>

theorem nem_enumerations:
  assumes "nem_inv s"
  shows "enumerates of_nem_ns_2_nsid_db_get_first_map_entry of_nem_ns_2_nsid_db_get_next_map_entry ns_2_nsid_rows s \<and>
    enumerates of_nem_nsid_2_ns_db_get_first_map_entry of_nem_nsid_2_ns_db_get_next_map_entry nsid_2_ns_rows s \<and>
    enumerates of_nem_dpid_2_nsid_db_get_first_map_entry of_nem_dpid_2_nsid_db_get_next_map_entry dpid_2_nsid_rows s \<and>
    enumerates of_nem_nsid_2_dpid_db_get_first_map_entry of_nem_nsid_2_dpid_db_get_next_map_entry nsid_2_dpid_rows s \<and>
    enumerates of_nem_dpid_2_peth_db_get_first_map_entry of_nem_dpid_2_peth_db_get_next_map_entry dpid_2_peth_rows s \<and>
    (\<forall>old. enumerates (of_nem_peth_2_dpid_db_get_first_map_entry old) (of_nem_peth_2_dpid_db_get_next_map_entry old)
       (\<lambda>s. map_option (\<lambda>i. i\<lparr>pi_peth_id := old\<rparr>) \<circ> peth_2_dpid_rows s) s) \<and>
    enumerates nem_dpid_and_dpnsid_db_get_first_map_entry nem_dpid_and_dpnsid_db_get_next_map_entry dpnsid_rows s"
proof -
  have k: "keep_peth_id old = (\<lambda>i. i\<lparr>pi_peth_id := old\<rparr>)" for old by (simp add: fun_eq_iff keep_peth_id_def)
  have r: "peth_2_dpid_rows = (\<lambda>s. db_abs (sl_get peth_2_dpid_slot s))" by (simp add: fun_eq_iff peth_2_dpid_rows_def)
  have p: "enumerates (of_nem_peth_2_dpid_db_get_first_map_entry old) (of_nem_peth_2_dpid_db_get_next_map_entry old)
       (\<lambda>s. map_option (\<lambda>i. i\<lparr>pi_peth_id := old\<rparr>) \<circ> peth_2_dpid_rows s) s" for old
    using enumerates_image[OF peth2dpid.slot_enumerates[OF assms], of "keep_peth_id old"]
    unfolding of_nem_peth_2_dpid_db_get_first_map_entry_def[abs_def] of_nem_peth_2_dpid_db_get_next_map_entry_def[abs_def] k r .
  show ?thesis
    using p ns2nsid.slot_enumerates[OF assms] nsid2ns.slot_enumerates[OF assms] dpid2nsid.slot_enumerates[OF assms]
      nsid2dpid.slot_enumerates[OF assms] dpid2peth.slot_enumerates[OF assms] dpnsid.slot_enumerates[OF assms]
    unfolding nem_enum_defs nem_rows_defs[abs_def] slot_sel by blast
qed

text \<open>A port with the number 3 is entered in both directions. A caller whose structure holds the number 4 reads 4.\<close>

theorem nem_enumerations_witness:
  "\<exists>s1 h. nem_dpid_peth_mapping_handler no_memory_env no_memory_env 1 2 7 (Some ''eth0'') 3 demo_nem = Some (NEM_SUCCESS, s1) \<and>
    enumerates (of_nem_peth_2_dpid_db_get_first_map_entry 4) (of_nem_peth_2_dpid_db_get_next_map_entry 4)
      (\<lambda>s. map_option (\<lambda>i. i\<lparr>pi_peth_id := 4\<rparr>) \<circ> peth_2_dpid_rows s) s1 \<and>
    (map_option (\<lambda>i. i\<lparr>pi_peth_id := 4\<rparr>) \<circ> peth_2_dpid_rows s1) h =
      Some \<lparr>pi_dp_id = 1, pi_ns_id = 7, pi_port_id = 2, pi_peth_id = 4, pi_peth_name = ''eth0''\<rparr>"
proof -
  obtain s1 b where s1: "nem_dpid_peth_mapping_handler no_memory_env no_memory_env 1 2 7 (Some ''eth0'') 3 demo_nem = Some (NEM_SUCCESS, s1)" "nem_inv s1"
    "peth_2_dpid_rows s1 b = Some \<lparr>pi_dp_id = 1, pi_ns_id = 7, pi_port_id = 2, pi_peth_id = 3, pi_peth_name = ''eth0''\<rparr>" using demo_port by blast
  have "\<forall>old. enumerates (of_nem_peth_2_dpid_db_get_first_map_entry old) (of_nem_peth_2_dpid_db_get_next_map_entry old)
      (\<lambda>s. map_option (\<lambda>i. i\<lparr>pi_peth_id := old\<rparr>) \<circ> peth_2_dpid_rows s) s1"
    using nem_enumerations[OF s1(2)] by (elim conjE)
  then show ?thesis by (intro exI[of _ s1] exI[of _ b]) (simp only: s1(1,3) comp_apply option.map of_nem_dp_peth_info.simps simp_thms)
qed

text \<open>Unmapping all entries of a database ends, succeeds and leaves no row, for each of the six databases that hold one direction of a
  relation.\<close>

theorem nem_unmap_all_empties:
  assumes "nem_inv s"
  shows "(\<exists>s'. nem_ns_to_nsid_unmap_all_entries s = Some (NEM_SUCCESS, s') \<and> nem_inv s' \<and> ns_2_nsid_rows s' = Map.empty) \<and>
    (\<exists>s'. nem_nsid_to_ns_unmap_all_entries s = Some (NEM_SUCCESS, s') \<and> nem_inv s' \<and> nsid_2_ns_rows s' = Map.empty) \<and>
    (\<exists>s'. nem_dpid_to_nsid_unmap_all_entries s = Some (NEM_SUCCESS, s') \<and> nem_inv s' \<and> dpid_2_nsid_rows s' = Map.empty) \<and>
    (\<exists>s'. nem_nsid_to_dpid_unmap_all_entries s = Some (NEM_SUCCESS, s') \<and> nem_inv s' \<and> nsid_2_dpid_rows s' = Map.empty) \<and>
    (\<exists>s'. nem_dpid_to_peth_unmap_all_entries s = Some (NEM_SUCCESS, s') \<and> nem_inv s' \<and> dpid_2_peth_rows s' = Map.empty) \<and>
    (\<exists>s'. nem_peth_to_dpid_unmap_all_entries s = Some (NEM_SUCCESS, s') \<and> nem_inv s' \<and> peth_2_dpid_rows s' = Map.empty)"
  using ns2nsid.slot_unmap_all[OF assms] nsid2ns.slot_unmap_all[OF assms] dpid2nsid.slot_unmap_all[OF assms]
    nsid2dpid.slot_unmap_all[OF assms] dpid2peth.slot_unmap_all[OF assms] peth2dpid.slot_unmap_all[OF assms]
  by (simp add: nem_unmap_all_defs nem_rows_defs)

theorem nem_unmap_all_empties_witness:
  "\<exists>s'. nem_ns_to_nsid_unmap_all_entries (snd (the (nem_ns_and_nsid_mapping_handler no_memory_env no_memory_env (Some ''blue'') 7 demo_nem))) =
    Some (NEM_SUCCESS, s') \<and> ns_2_nsid_rows s' = Map.empty"
proof -
  obtain s1 where s1: "nem_ns_and_nsid_mapping_handler no_memory_env no_memory_env (Some ''blue'') 7 demo_nem = Some (NEM_SUCCESS, s1)"
    using demo_mapped by blast
  have "nem_inv s1" by (rule ns_mapped[OF demo_nem_facts(1) no_memory_fresh2 _ s1]) simp_all
  then show ?thesis using nem_unmap_all_empties[of s1] s1 by auto
qed

end
