(* ===== verification/Spec2Isabelle.thy ===== *)
theory Spec2Isabelle
  imports Genid Sll App_Event Msg_Queue Crm_Database Channel_Faults Channel_Release Channel_Types Channel_Handshake
    Channel_Send Xtn Nem_Props
begin

text \<open>
  \<^bold>\<open>The controller platform of Open-SFC ondir.\<close> The program under \<^verbatim>\<open>src/ofcdriver\<close> is an OpenFlow controller in C:
  switches connect over TCP, the transport layer shakes hands with them and binds each connection (a
  channel) to a datapath, messages are read and handed to the applications registered for their events,
  the cloud resource manager keeps the tenants, networks and machines the applications work for, and the
  network element manager maps their namespaces and ports to numbers. All of
  it rests on utilities of its own: memory pools, linked lists, message queues, a hash table with safe
  references and a generator of instance ids. This library models the parts listed below as HOL functions
  translated from the C text and proves what they promise, or shows at which inputs they do not.

  \<^bold>\<open>Conventions\<close> (theory \<open>Ond_Prelude\<close>). A C function with side effects is a function into
  \<open>('r \<times> 's) option\<close>: \<open>None\<close> is undefined behaviour (a NULL or dangling pointer, an index outside an array, the
  release of a mutex that is not held) or blocking for ever; every error return is a value of \<open>'r\<close>. A pointer
  is an optional address, a structure a record, linked structures live in an explicit store of next pointers
  or of nodes. Integers are words of the width of the C type; \<^verbatim>\<open>int32_t\<close> return codes are \<open>int\<close> with the values
  of the headers. What is not under \<^verbatim>\<open>src/\<close> or lies below the modelled layer (calloc, the thread that runs, epoll,
  timers, the byte stream of a socket, the code of an application) is an environment record, an argument of
  the operation; calls whose effect only others see are recorded in a trace. Logging is left out. Locks
  that an operation takes and releases itself make it an atomic step; threads are sequences of such steps.

  \<^bold>\<open>Parts and theories.\<close>
  \<^item> \<open>Sll\<close> models \<^verbatim>\<open>utils/sll.c\<close>, \<open>Of_List\<close> the macros of \<^verbatim>\<open>include/cntlr_list.h\<close>. Both represent a sequence of distinct
    nodes; the locale \<open>node_seq\<close> (theory \<open>Node_Seq\<close>) is the contract they share, interpreted in each. Proved:
    every list operation implements the operation on the sequence (for \<open>Of_List\<close> while the counter is exact).
  \<^item> \<open>Mheap\<close> models the heap provider of the memory pools (\<^verbatim>\<open>utils/memory/mheap/mheapapi.c\<close>) with the block chains
    of \<^verbatim>\<open>base/memapi.c\<close>; \<open>Mempool\<close> models the registry of providers and the calls that dispatch to them
    (\<^verbatim>\<open>base/memapi.c\<close>, \<^verbatim>\<open>mheapinit.c\<close>). \<open>Mempool_Bound\<close> is the contract of a pool without per-thread lists (locale
    \<open>block_pool\<close>): never more blocks held than configured. Proved: exact free counts, no block handed out twice, balanced heap
    allowance over all runs, and what creation, request, release and deletion do on each branch.
  \<^item> \<open>Msg_Queue\<close> models \<^verbatim>\<open>utils/queue.c\<close>: boxes of ring queues. Proved: FIFO up to 63 pending messages, and what is
    lost beyond.
  \<^item> \<open>Genid\<close> models \<^verbatim>\<open>genid/genid.c\<close>. Proved: an invariant of all reachable states, the search returns a clear bit,
    the ids of the search phase are unique while their bit is set.
  \<^item> \<open>Mchash\<close> models \<^verbatim>\<open>utils/mchash.c\<close> and the macros of \<^verbatim>\<open>mchash.h\<close>: buckets of linked nodes and the indirection
    array that gives a node its safe reference (index and magic number). Proved: any use keeps the table well
    formed, a reference leads to its node until the node is deleted and is refused afterwards.
  \<^item> \<open>Crm_Attribute\<close>, \<open>Crm_Tenant\<close> model \<^verbatim>\<open>crm/crm_attribute.c\<close> and \<^verbatim>\<open>crm/crm_tenant_api.c\<close> on top of \<open>Of_List\<close>,
    \<open>Mempool\<close> and \<open>Mchash\<close>. \<open>Crm_Database\<close> states the abstract database (a map from handles to tenants) and
    proves that every operation implements a transition of it, and that every sequence of operations keeps
    the invariant.
  \<^item> \<open>App_Event\<close> models \<^verbatim>\<open>coreapp/cntlr_event.c\<close>: hooks per domain and event in priority order. Proved: the order over all
    runs, dispatch until consumed, registration and deregistration on each branch.
  \<^item> \<open>Channel_Data\<close> holds the data of the transport layer (\<^verbatim>\<open>cntlr_transprt.h\<close>, \<^verbatim>\<open>of_proto.h\<close>, \<^verbatim>\<open>dprmldef.h\<close>) and the read
    of the TCP plugin; \<open>Channel_Fsm\<close> the state machine of \<^verbatim>\<open>transport/base/channel_fsm.c\<close> with the release of a channel;
    \<open>Channel_Msg\<close> the reading of messages (\<^verbatim>\<open>messages/of_cntlr_msg.c\<close>, \<^verbatim>\<open>trnsprt_epoll.c\<close>); \<open>Channel_Dp\<close> the handshake, the
    attachment to a datapath, the keep-alive timers and the release with the datapath (\<^verbatim>\<open>trnsprt_channel.c\<close>,
    \<^verbatim>\<open>trnsprt_msg.c\<close>, \<^verbatim>\<open>dprm/dprm.c\<close>). \<open>Channel_Types\<close> proves what every event keeps; \<open>Channel_Ring\<close> that the circular list of
    auxiliary channels represents a sequence and that closing the main channel empties it; \<open>Channel_Handshake\<close>
    follows a channel from the features reply to the keep-alive timeout; \<open>Channel_Faults\<close> and \<open>Channel_Release\<close> hold
    the inputs and orders of calls at which messages or channels are lost. \<open>Channel_Send\<close> models the way out
    (\<^verbatim>\<open>trnsprt_core.c\<close>, \<^verbatim>\<open>trnsprt_thread.c\<close>, \<^verbatim>\<open>tcp/tcp_api.c\<close>): messages are written at once, wait on the list of the channel, or
    are queued for the thread of the channel. Proved: the byte stream is the messages in order, queued
    messages are delivered in order, and where messages or their memory are lost.
  \<^item> \<open>Xtn\<close> models \<^verbatim>\<open>coreapp/cntlr_xtn.c\<close>: the records of requests that wait for an answer, in a table of \<open>Mchash\<close> with
    blocks of \<open>Mempool_Bound\<close>. Proved over all runs: a search finds exactly the pending requests, recording
    always finds room in the table, a request is answered once, and what a time-out does.
  \<^item> The network element manager (\<^verbatim>\<open>nem/*.c\<close>) keeps seven databases, each a copy of the same code. \<open>Nem_Util\<close> models
    the hashes of \<^verbatim>\<open>nemutil.c\<close> and the generators of numbers, \<open>Nem_Table\<close> the shared code of a database with what
    differs in a description, \<open>Nem_Db\<close> the functions of the seven files as its instances, and the start, the end
    and the mapping handlers of \<^verbatim>\<open>nemdb.c\<close>. \<open>Nem_Rows\<close> proves that a database holds a finite map from handles to
    rows with distinct keys, \<open>Nem_Sys\<close> composes the seven on their shared memory, and \<open>Nem_Props\<close> proves what
    the start, the handlers, the lookups and the enumerations do, and where half of a relation is lost.

  \<^bold>\<open>Interfaces.\<close> \<open>Mempool\<close> uses the lists through the sequences they are proved to represent. \<open>Crm_Tenant\<close> uses the
  laws of \<open>Mchash\<close> (insert, access, delete by reference) and \<open>Of_List\<close>, and \<open>Crm_Database\<close> only their lemmas.
  A channel is a node of the connection table of its transport, a table of \<open>Mchash\<close>, and is added, read and
  deleted with its operations. \<open>Channel_Send\<close> composes the channels with the lists of \<open>Of_List\<close> and the queues of
  \<open>Msg_Queue\<close>; \<open>Xtn\<close> rests on the laws of \<open>block_pool\<close>, which its pool interprets, and of \<open>Mchash\<close>.
  Several pools in one memory have the contract \<open>pool_set\<close> (theory \<open>Mempool_Shared\<close>), interpreted by the heap provider:
  what one pool gives out is in no other. \<open>Mchash_Client\<close> holds the hash, the handles and the bucket scans that
  \<open>Crm_Tenant\<close> and the network element manager share. The databases of the latter have the locale \<open>nem_table\<close> (what a
  description has to satisfy) and \<open>nem_slot_laws\<close> (where a database is in the state), of which \<open>nem_database\<close>, the
  contract the handlers rely on, is a sublocale; \<open>nem_pair\<close> combines two of them for the two directions of a
  relation and is interpreted for the three relations of \<^verbatim>\<open>nemdb.c\<close>.

  \<^bold>\<open>Bounds.\<close> A handler of the channel state machine can send the next event to itself: \<open>dispatch k\<close> allows \<open>k\<close>
  nested calls, and \<open>chan_loops_bounded\<close> shows that four are enough whatever the environment. The same
  theorem bounds the rounds of the drain loop by the bytes to read. The loop that closes auxiliary
  channels runs as often as their counter says, and the search of the circular list at most once around.
  The hash of a transaction is below 1000, the table has 1001 buckets; recording is followed for fewer than
  \<open>2^32 - 2\<close> requests, after which ids repeat.
  The numbers of the namespaces of a datapath are followed up to 65535, where they wrap. The databases of the
  network element manager hold at most 1024 rows each, the size of their pools and tables.
  All other loops are structural recursion on the list or the counter they walk.

  \<^bold>\<open>Not modelled.\<close> The creation of transports and their threads and sockets, and the plugins besides the read and
  write of TCP (input and output); the parsing and composition of the single OpenFlow messages; the tables of the
  datapath manager; the other resource managers, and of the network element manager the handlers of datapath
  events (\<^verbatim>\<open>nemevent.c\<close>), which are driven by the datapath manager, and the system calls that create interfaces; the mmap provider of the
  memory pools (compiled out); the CRM operations on networks and machines, which repeat those on tenants;
  the locks, which only guard single steps; the management infrastructure under \<^verbatim>\<open>src/cminfra\<close>, and the vendored
  libxml2 and HTTP server.
\<close>

end
